(* ===== verification/Prelude.thy ===== *)
theory Prelude
  imports Main "HOL-Library.Word"
begin

text \<open>
  What every theory of the development shares.

  \<^item> C memory. A buffer that the code allocates with a size and fills from the front is a
    total function from indices to cells, together with the size and the fill position that
    the code keeps beside it; \<open>blit\<close> and \<open>fill\<close> are the \<open>memcpy\<close>/\<open>memmove\<close> and
    initialisation loops on such buffers.
  \<^item> C strings. A string is a list of \<open>char\<close> without its terminator; \<open>cbyte s i\<close>
    reads \<open>(unsigned char)s[i]\<close> and gives the terminator 0 at and after the end.
  \<^item> Allocation. \<open>realloc_ok M n sz\<close> says that the C library grants \<open>n\<close> cells of
    \<open>sz\<close> bytes: \<open>M\<close> is the memory limit of the process, a parameter of every
    operation that may allocate.
\<close>

named_theorems buf_simps "reading a buffer after a write"

type_synonym 'a buf = "nat \<Rightarrow> 'a"

definition blit :: "'a buf \<Rightarrow> nat \<Rightarrow> 'a buf \<Rightarrow> nat \<Rightarrow> nat \<Rightarrow> 'a buf" where
  "blit dst dpos src spos n =
     (\<lambda>i. if dpos \<le> i \<and> i < dpos + n then src (spos + (i - dpos)) else dst i)"

definition fill :: "'a buf \<Rightarrow> nat \<Rightarrow> nat \<Rightarrow> 'a \<Rightarrow> 'a buf" where
  "fill b pos n x = (\<lambda>i. if pos \<le> i \<and> i < pos + n then x else b i)"

definition put_list :: "'a buf \<Rightarrow> nat \<Rightarrow> 'a list \<Rightarrow> 'a buf" where
  "put_list b pos xs = (\<lambda>i. if pos \<le> i \<and> i < pos + length xs then xs ! (i - pos) else b i)"

definition get_list :: "'a buf \<Rightarrow> nat \<Rightarrow> nat \<Rightarrow> 'a list" where
  "get_list b pos n = map b [pos..<pos + n]"

definition realloc_ok :: "nat \<Rightarrow> nat \<Rightarrow> nat \<Rightarrow> bool" where
  "realloc_ok M n sz \<longleftrightarrow> n * sz \<le> M"

definition cbyte :: "string \<Rightarrow> nat \<Rightarrow> nat" where
  "cbyte s i = (if i < length s then of_char (s ! i) else 0)"

lemma blit_in [buf_simps]:
  "dpos \<le> i \<Longrightarrow> i < dpos + n \<Longrightarrow> blit dst dpos src spos n i = src (spos + (i - dpos))"
  by (simp add: blit_def)

lemma blit_out [buf_simps]:
  "i < dpos \<or> dpos + n \<le> i \<Longrightarrow> blit dst dpos src spos n i = dst i"
  by (auto simp: blit_def)

lemma fill_in [buf_simps]: "pos \<le> i \<Longrightarrow> i < pos + n \<Longrightarrow> fill b pos n x i = x"
  by (simp add: fill_def)

lemma fill_out [buf_simps]: "i < pos \<or> pos + n \<le> i \<Longrightarrow> fill b pos n x i = b i"
  by (auto simp: fill_def)

lemma put_list_out [buf_simps]:
  "i < pos \<or> pos + length xs \<le> i \<Longrightarrow> put_list b pos xs i = b i"
  by (auto simp: put_list_def)

lemma put_list_in [buf_simps]:
  "k < length xs \<Longrightarrow> put_list b pos xs (pos + k) = xs ! k"
  by (simp add: put_list_def)

lemma get_list_length [simp]: "length (get_list b pos n) = n"
  by (simp add: get_list_def)

lemma get_list_nth [simp]: "k < n \<Longrightarrow> get_list b pos n ! k = b (pos + k)"
  by (simp add: get_list_def)

lemma get_put_list [simp]: "n = length xs \<Longrightarrow> get_list (put_list b pos xs) pos n = xs"
  by (rule nth_equalityI) (simp_all add: put_list_in)

lemma get_list_cong:
  "(\<And>i. pos \<le> i \<Longrightarrow> i < pos + n \<Longrightarrow> b i = b' i) \<Longrightarrow> get_list b pos n = get_list b' pos n"
  by (simp add: get_list_def)

lemma cbyte_less [simp]: "i < length s \<Longrightarrow> cbyte s i = of_char (s ! i)"
  by (simp add: cbyte_def)

lemma cbyte_end [simp]: "length s \<le> i \<Longrightarrow> cbyte s i = 0"
  by (simp add: cbyte_def)

lemma of_char_lt_256 [simp]: "(of_char c :: nat) < 256"
  by (simp add: of_char_def)

lemma cbyte_lt_256 [simp]: "cbyte s i < 256"
  by (simp add: cbyte_def)

lemma cbyte_Cons_0 [simp]: "cbyte (c # s) 0 = of_char c"
  by (simp add: cbyte_def)

lemma cbyte_Cons_Suc [simp]: "cbyte (c # s) (Suc i) = cbyte s i"
  by (simp add: cbyte_def)

lemma cbyte_append2 [simp]: "cbyte (s @ t) (length s + i) = cbyte t i"
  by (simp add: cbyte_def nth_append)

end
