(* ===== verification/Gbk.thy ===== *)
theory Gbk
  imports Prelude
begin

text \<open>
  The GBK layer of the segmenter: \<open>chinese_gbk.cpp\<close> and \<open>chinese_gbk.h\<close> decide what a
  byte sequence is (digit, letter, mark, hanzi) and cut a buffer into \<open>words\<close>: single
  bytes, double-byte GBK codes and four-byte GB18030 codes, each given as an unsigned value.
  Bytes are read with \<open>cbyte\<close>, so a look-ahead that meets the end of the string sees the
  terminator, as in C.
\<close>

subsection \<open>Character classes of the header\<close>

definition IN_RANGE :: "nat \<Rightarrow> nat \<Rightarrow> nat \<Rightarrow> bool" where
  "IN_RANGE ch lo hi \<longleftrightarrow> lo \<le> ch \<and> ch \<le> hi"

definition IS_GB_1234 :: "string \<Rightarrow> nat \<Rightarrow> bool" where
  "IS_GB_1234 s i \<longleftrightarrow> IN_RANGE (cbyte s i) 0xa3 0xa3 \<and> IN_RANGE (cbyte s (i + 1)) 0xb0 0xb9"

definition IS_GB_ABCD :: "string \<Rightarrow> nat \<Rightarrow> bool" where
  "IS_GB_ABCD s i \<longleftrightarrow>
     (IN_RANGE (cbyte s i) 0xa3 0xa3 \<and> IN_RANGE (cbyte s (i + 1)) 0xc1 0xda) \<or>
     (IN_RANGE (cbyte s i) 0xa3 0xa3 \<and> IN_RANGE (cbyte s (i + 1)) 0xe1 0xfa)"

definition IS_GB :: "string \<Rightarrow> nat \<Rightarrow> bool" where
  "IS_GB s i \<longleftrightarrow> IN_RANGE (cbyte s i) 0xA1 0xF7 \<and> IN_RANGE (cbyte s (i + 1)) 0xA1 0xFE"

definition IS_GBK :: "string \<Rightarrow> nat \<Rightarrow> bool" where
  "IS_GBK s i \<longleftrightarrow> IN_RANGE (cbyte s i) 0x81 0xfe \<and> IN_RANGE (cbyte s (i + 1)) 0x40 0xfe"

definition IS_GB_CODE :: "string \<Rightarrow> nat \<Rightarrow> bool" where
  "IS_GB_CODE s i \<longleftrightarrow> IN_RANGE (cbyte s i) 0xB0 0xF7 \<and> IN_RANGE (cbyte s (i + 1)) 0xA1 0xFE"

definition IS_GB_MARK :: "string \<Rightarrow> nat \<Rightarrow> bool" where
  "IS_GB_MARK s i \<longleftrightarrow> IN_RANGE (cbyte s i) 0xA1 0xAF \<and> IN_RANGE (cbyte s (i + 1)) 0xA1 0xFE"

definition IS_GB_SPACE :: "string \<Rightarrow> nat \<Rightarrow> bool" where
  "IS_GB_SPACE s i \<longleftrightarrow> cbyte s i = 0xA1 \<and> cbyte s (i + 1) = 0xA1"

text \<open>The table \<open>al_num_map\<close> of \<open>segutil.cpp\<close>: bit 1 marks letters, bit 2 digits.\<close>

definition al_num_map :: "nat list" where
  "al_num_map =
    [0, 0, 0, 0, 0, 0, 0, 0, 0, 0, 0, 0, 0, 0, 0, 0,
     0, 0, 0, 0, 0, 0, 0, 0, 0, 0, 0, 0, 0, 0, 0, 0,
     0, 0, 0, 0, 0, 0, 0, 0, 0, 0, 0, 0, 0, 0, 0, 0,
     2, 2, 2, 2, 2, 2, 2, 2, 2, 2, 0, 0, 0, 0, 0, 0,
     0, 1, 1, 1, 1, 1, 1, 1, 1, 1, 1, 1, 1, 1, 1, 1,
     1, 1, 1, 1, 1, 1, 1, 1, 1, 1, 1, 0, 0, 0, 0, 0,
     0, 1, 1, 1, 1, 1, 1, 1, 1, 1, 1, 1, 1, 1, 1, 1,
     1, 1, 1, 1, 1, 1, 1, 1, 1, 1, 1, 0, 0, 0, 0, 0]
    @ replicate 128 0"

text \<open>\<open>*p > 0\<close> on a (signed) \<open>char\<close> is a byte between 1 and 127.\<close>

definition char_pos :: "nat \<Rightarrow> bool" where
  "char_pos b \<longleftrightarrow> 0 < b \<and> b < 128"

definition is_my_alnum :: "string \<Rightarrow> nat \<Rightarrow> nat" where
  "is_my_alnum s i =
     (if char_pos (cbyte s i) \<and> al_num_map ! cbyte s i \<noteq> 0 then 1
      else if IS_GB_1234 s i \<or> IS_GB_ABCD s i then 2 else 0)"

definition is_my_num :: "string \<Rightarrow> nat \<Rightarrow> nat" where
  "is_my_num s i =
     (if char_pos (cbyte s i) \<and> and (al_num_map ! cbyte s i) 2 \<noteq> 0 then 1
      else if IS_GB_1234 s i then 2 else 0)"

definition is_my_alpha :: "string \<Rightarrow> nat \<Rightarrow> nat" where
  "is_my_alpha s i =
     (if char_pos (cbyte s i) \<and> and (al_num_map ! cbyte s i) 1 \<noteq> 0 then 1
      else if IS_GB_ABCD s i then 2 else 0)"

definition is_gbk_hz :: "string \<Rightarrow> nat \<Rightarrow> int" where
  "is_gbk_hz s i =
     (let p0 = cbyte s i; p1 = cbyte s (i + 1) in
      if p0 = 0 \<or> p1 = 0 then 0
      else if p1 = 0x7f then 0
      else if p0 \<ge> 0xB0 \<and> p0 \<le> 0xF7 \<and> p1 \<ge> 0xA1 \<and> p1 \<le> 0xFE then 1
      else if p0 \<ge> 0x81 \<and> p0 \<le> 0xa0 \<and> p1 \<ge> 0x40 \<and> p1 \<le> 0xfe then 1
      else if p0 \<ge> 0xaa \<and> p0 \<le> 0xfe \<and> p1 \<ge> 0x40 \<and> p1 \<le> 0xa0 then 1
      else 0)"

text \<open>The test \<open>is_my_ascii\<close> makes on the byte after \<open>.\<close>, \<open>@\<close> or \<open>_\<close>.\<close>

definition mark_follow :: "nat \<Rightarrow> bool" where
  "mark_follow ch \<longleftrightarrow> ch \<noteq> 0 \<and> ch \<noteq> 0x20 \<and> ch \<noteq> 0x0A \<and> ch \<noteq> 0x0D \<and> (ch < 0x80 \<or> ch = 0xa3)"

definition is_my_ascii :: "string \<Rightarrow> nat \<Rightarrow> nat" where
  "is_my_ascii s i =
     (let p0 = cbyte s i; p1 = cbyte s (i + 1) in
      if p0 > 0x80 then
        (if IS_GB_1234 s i \<or> IS_GB_ABCD s i then 2
         else if p0 = 0xa3 \<and> (p1 = 0xab \<or> p1 = 0xad \<or> p1 = 0xa5 \<or> p1 = 0xa6) then 2
         else if p0 = 0xa3 \<and> (p1 = 0xae \<or> p1 = 0xc0 \<or> p1 = 0xdf)
              then (if mark_follow (cbyte s (i + 2)) then 2 else 0)
         else 0)
      else if al_num_map ! p0 \<noteq> 0 then 1
      else if p0 = 0x2B \<or> p0 = 0x2D \<or> p0 = 0x26 \<or> p0 = 0x25 then 1
      else if p0 = 0x2E \<or> p0 = 0x40 \<or> p0 = 0x5F then (if mark_follow p1 then 1 else 0)
      else 0)"

definition is_mid_mark :: "string \<Rightarrow> nat \<Rightarrow> nat" where
  "is_mid_mark s i =
     (let p0 = cbyte s i; p1 = cbyte s (i + 1) in
      if p0 < 0x80 then
        (if p0 = 0x40 \<or> p0 = 0x2E \<or> p0 = 0x2D \<or> p0 = 0x2B \<or> p0 = 0x26 \<or> p0 = 0x5F \<or> p0 = 0x25
         then 1 else 0)
      else if p0 = 0xa3 \<and> (p1 = 0xab \<or> p1 = 0xad \<or> p1 = 0xa5 \<or> p1 = 0xa6 \<or> p1 = 0xae \<or>
                            p1 = 0xc0 \<or> p1 = 0xdf) then 2
      else 0)"

definition is_split_headmark :: "string \<Rightarrow> nat \<Rightarrow> nat" where
  "is_split_headmark s i =
     (let p0 = cbyte s i; p1 = cbyte s (i + 1) in
      if p0 < 0x80 then
        (if p0 = 0x40 \<or> p0 = 0x2E \<or> p0 = 0x2D \<or> p0 = 0x2B \<or> p0 = 0x25 \<or> p0 = 0x5F
         then 1 else 0)
      else if p0 = 0xa3 \<and> (p1 = 0xab \<or> p1 = 0xad \<or> p1 = 0xa5 \<or> p1 = 0xae \<or>
                            p1 = 0xc0 \<or> p1 = 0xdf) then 2
      else 0)"

definition is_split_tailmark :: "string \<Rightarrow> nat \<Rightarrow> nat" where
  "is_split_tailmark s i =
     (let p0 = cbyte s i; p1 = cbyte s (i + 1) in
      if p0 < 0x80 then
        (if p0 = 0x40 \<or> p0 = 0x2E \<or> p0 = 0x2D \<or> p0 = 0x5F \<or> p0 = 0x26 then 1 else 0)
      else if p0 = 0xa3 \<and> (p1 = 0xad \<or> p1 = 0xa6 \<or> p1 = 0xae \<or> p1 = 0xc0 \<or> p1 = 0xdf) then 2
      else 0)"

definition is_radix_point :: "string \<Rightarrow> nat \<Rightarrow> nat" where
  "is_radix_point s i =
     (if cbyte s i < 0x80 \<and> cbyte s i = 0x2E then 1
      else if cbyte s i = 0xa3 \<and> cbyte s (i + 1) = 0xae then 2 else 0)"

definition is_fourbit_point :: "string \<Rightarrow> nat" where
  "is_fourbit_point s =
     (if cbyte s 0 = 0x81 \<and> cbyte s 1 = 0x39 \<and> cbyte s 2 = 0xA7 \<and> cbyte s 3 = 0x39 then 1 else 0)"

subsection \<open>Reading one word\<close>

text \<open>
  \<open>get_value_gb\<close> returns the value and the new position; \<open>scw_get_word\<close> is its only
  caller and repeats the end test.
\<close>

definition get_value_gb :: "string \<Rightarrow> nat \<Rightarrow> nat \<Rightarrow> nat \<times> nat" where
  "get_value_gb buf pos len =
     (if pos \<ge> len then (0, pos)
      else let b0 = cbyte buf pos; b1 = cbyte buf (pos + 1);
               b2 = cbyte buf (pos + 2); b3 = cbyte buf (pos + 3) in
        if pos + 1 < len \<and> b0 \<ge> 0x81 \<and> b0 \<le> 0xfe then
          (if b1 \<ge> 0x40 \<and> b1 \<le> 0xfe then (b0 * 256 + b1, pos + 2)
           else if b1 \<ge> 0x30 \<and> b1 \<le> 0x39 then
             (if pos + 3 < len \<and> b2 \<ge> 0x81 \<and> b2 \<le> 0xfe \<and> b3 \<ge> 0x30 \<and> b3 \<le> 0x39
              then (b0 * 16777216 + b1 * 65536 + b2 * 256 + b3, pos + 4)
              else (b0, pos + 1))
           else (b0, pos + 1))
        else (b0, pos + 1))"

definition scw_get_word :: "string \<Rightarrow> nat \<Rightarrow> nat \<Rightarrow> nat \<times> nat" where
  "scw_get_word inbuf pos slen = (if pos \<ge> slen then (0, pos) else get_value_gb inbuf pos slen)"

definition is_oneword_gb :: "string \<Rightarrow> nat" where
  "is_oneword_gb w =
     (let len = length w; b0 = cbyte w 0; b1 = cbyte w 1; b2 = cbyte w 2; b3 = cbyte w 3 in
      if len = 1 then 1
      else if len = 2 \<and> b0 \<ge> 0x81 \<and> b0 \<le> 0xfe \<and> b1 \<ge> 0x40 \<and> b1 \<le> 0xfe then 2
      else if len = 4 \<and> b0 \<ge> 0x81 \<and> b0 \<le> 0xfe \<and> b1 \<ge> 0x30 \<and> b1 \<le> 0x39 \<and>
              b2 \<ge> 0x81 \<and> b2 \<le> 0xfe \<and> b3 \<ge> 0x30 \<and> b3 \<le> 0x39 then 4
      else 0)"

text \<open>
  Reading a buffer to its end: the values that successive calls of \<open>scw_get_word\<close> return, as
  the dictionary loops consume them.
\<close>

function gb_words :: "string \<Rightarrow> nat \<Rightarrow> nat \<Rightarrow> nat list" where
  "gb_words s pos len =
     (if pos < len then fst (scw_get_word s pos len) # gb_words s (snd (scw_get_word s pos len)) len
      else [])"
  by pat_completeness auto

lemma get_value_gb_progress:
  "pos < len \<Longrightarrow> pos < snd (get_value_gb s pos len) \<and> snd (get_value_gb s pos len) \<le> len"
  by (auto simp: get_value_gb_def Let_def)

lemma scw_get_word_in: "pos < len \<Longrightarrow> scw_get_word s pos len = get_value_gb s pos len"
  by (simp add: scw_get_word_def)

lemma scw_get_word_progress:
  "pos < len \<Longrightarrow> pos < snd (scw_get_word s pos len) \<and> snd (scw_get_word s pos len) \<le> len"
  by (simp add: scw_get_word_in get_value_gb_progress)

termination gb_words
  by (relation "measure (\<lambda>(s, pos, len). len - pos)")
     (use scw_get_word_progress in \<open>auto simp: diff_less_mono2\<close>)

declare gb_words.simps [simp del]

lemma gb_words_end [simp]: "len \<le> pos \<Longrightarrow> gb_words s pos len = []"
  by (subst gb_words.simps) simp

lemma gb_words_step:
  "pos < len \<Longrightarrow> scw_get_word s pos len = (v, pos') \<Longrightarrow> gb_words s pos len = v # gb_words s pos' len"
  by (subst gb_words.simps) simp

subsection \<open>The inverse: the bytes of a value\<close>

text \<open>The three value ranges are disjoint, so a value names its bytes.\<close>

definition gb_encode :: "nat \<Rightarrow> string" where
  "gb_encode v =
     (if v < 0x100 then [char_of v]
      else if v < 0x10000 then [char_of (v div 0x100), char_of (v mod 0x100)]
      else [char_of (v div 0x1000000), char_of (v div 0x10000 mod 0x100),
            char_of (v div 0x100 mod 0x100), char_of (v mod 0x100)])"

lemma gb_encode_1: "gb_encode (of_char a) = [a]"
  using of_char_lt_256 [of a] by (simp add: gb_encode_def)

lemma gb_encode_2:
  assumes "0x81 \<le> (of_char a :: nat)"
  shows "gb_encode (of_char a * 256 + of_char b) = [a, b]"
proof -
  let ?v = "of_char a * 256 + of_char b :: nat"
  have l: "(of_char a :: nat) < 256" "(of_char b :: nat) < 256"
    by (rule of_char_lt_256)+
  have "?v < 0x10000" "\<not> ?v < 0x100" using l assms by linarith+
  moreover have "?v div 0x100 = of_char a" using l by simp
  moreover have "?v mod 0x100 = of_char b" using l by simp
  ultimately show ?thesis by (simp add: gb_encode_def)
qed

lemma digits4:
  fixes a b c d :: nat
  assumes "a < 256" "b < 256" "c < 256" "d < 256"
  defines "v \<equiv> a * 16777216 + b * 65536 + c * 256 + d"
  shows "v div 0x1000000 = a" "v div 0x10000 mod 0x100 = b"
    "v div 0x100 mod 0x100 = c" "v mod 0x100 = d"
proof -
  show "v div 0x1000000 = a" using assms(1-4) unfolding v_def by (intro div_nat_eqI) auto
  have "v div 0x10000 = a * 256 + b" using assms(1-4) unfolding v_def by (intro div_nat_eqI) auto
  then show "v div 0x10000 mod 0x100 = b" using assms(2) by (metis mod_mult_self3 mod_less)
  have "v div 0x100 = (a * 256 + b) * 256 + c"
    using assms(1-4) unfolding v_def by (intro div_nat_eqI) auto
  then show "v div 0x100 mod 0x100 = c" using assms(3) by (metis mod_mult_self3 mod_less)
  have "v = ((a * 256 + b) * 256 + c) * 256 + d" unfolding v_def by simp
  then show "v mod 0x100 = d" using assms(4) by (metis mod_mult_self3 mod_less)
qed

lemma gb_encode_4:
  assumes "0x81 \<le> (of_char a :: nat)"
  shows "gb_encode (of_char a * 16777216 + of_char b * 65536 + of_char c * 256 + of_char d)
           = [a, b, c, d]"
proof -
  let ?v = "of_char a * 16777216 + of_char b * 65536 + of_char c * 256 + of_char d :: nat"
  have "\<not> ?v < 0x10000" "\<not> ?v < 0x100" using assms by linarith+
  then show ?thesis
    unfolding gb_encode_def if_not_P [OF \<open>\<not> ?v < 0x10000\<close>] if_not_P [OF \<open>\<not> ?v < 0x100\<close>]
    by (simp only: digits4 of_char_lt_256 char_of_char)
qed

lemma take_drop_1: "pos < length s \<Longrightarrow> take (Suc 0) (drop pos s) = [s ! pos]"
  by (simp flip: Cons_nth_drop_Suc)

lemma take_drop_2:
  "Suc pos < length s \<Longrightarrow> take 2 (drop pos s) = [s ! pos, s ! Suc pos]"
  by (simp add: numeral_2_eq_2 flip: Cons_nth_drop_Suc)

lemma take_drop_4:
  "pos + 3 < length s \<Longrightarrow>
     take 4 (drop pos s) = [s ! pos, s ! Suc pos, s ! (pos + 2), s ! (pos + 3)]"
  by (simp add: numeral_eq_Suc flip: Cons_nth_drop_Suc)

lemma get_value_gb_bytes:
  assumes "pos < len" and "len \<le> length s" and "get_value_gb s pos len = (v, pos')"
  shows "gb_encode v = take (pos' - pos) (drop pos s)"
proof -
  from assms(1,2) have "pos < length s" by simp
  then show ?thesis
    using assms
    by (auto simp: get_value_gb_def Let_def gb_encode_1 gb_encode_2 gb_encode_4
        take_drop_1 take_drop_2 take_drop_4 split: if_splits)
qed

lemma gb_words_encode_from:
  "len \<le> length s \<Longrightarrow>
   concat (map gb_encode (gb_words s pos len)) = take (len - pos) (drop pos s)"
proof (induction s pos len rule: gb_words.induct)
  case (1 s pos len)
  show ?case
  proof (cases "pos < len")
    case False
    then show ?thesis by simp
  next
    case True
    obtain v pos' where w: "scw_get_word s pos len = (v, pos')" by fastforce
    with scw_get_word_progress [OF True, of s] have le: "pos < pos'" "pos' \<le> len" by auto
    from w True have g: "get_value_gb s pos len = (v, pos')" by (simp add: scw_get_word_in)
    have "concat (map gb_encode (gb_words s pos len)) =
            take (pos' - pos) (drop pos s) @ take (len - pos') (drop pos' s)"
      using "1.IH" [OF True] "1.prems" w
      by (simp add: gb_words_step [OF True w] get_value_gb_bytes [OF True "1.prems" g])
    also have "\<dots> = take ((pos' - pos) + (len - pos')) (drop pos s)"
      using le by (simp only: take_add drop_drop) simp
    also have "(pos' - pos) + (len - pos') = len - pos"
      using le by simp
    finally show ?thesis .
  qed
qed

lemma gb_words_encode: "concat (map gb_encode (gb_words s 0 (length s))) = s"
  using gb_words_encode_from [of "length s" s 0] by simp

lemma gb_words_inj: "gb_words s 0 (length s) = gb_words t 0 (length t) \<Longrightarrow> s = t"
  by (metis gb_words_encode)

lemma gb_words_nonempty: "s \<noteq> [] \<Longrightarrow> gb_words s 0 (length s) \<noteq> []"
  by (subst gb_words.simps) simp

lemma get_value_gb_bound: "fst (get_value_gb s pos len) < 2 ^ 32"
proof -
  have l: "cbyte s pos < 256" "cbyte s (pos + 1) < 256" "cbyte s (pos + 2) < 256"
      "cbyte s (pos + 3) < 256" by simp_all
  then have "cbyte s pos < 4294967296" "cbyte s pos * 256 + cbyte s (pos + 1) < 4294967296"
    "cbyte s pos * 16777216 + cbyte s (pos + 1) * 65536 + cbyte s (pos + 2) * 256
       + cbyte s (pos + 3) < 4294967296"
    by linarith+
  then show ?thesis
    by (simp add: get_value_gb_def Let_def)
qed

lemma gb_words_bound: "v \<in> set (gb_words s pos len) \<Longrightarrow> v < 2 ^ 32"
proof (induction s pos len rule: gb_words.induct)
  case (1 s pos len)
  then show ?case
    using get_value_gb_bound [of s pos len]
    by (cases "pos < len") (auto simp: gb_words.simps [of s pos len] scw_get_word_in)
qed

lemma get_value_gb_short: "snd (get_value_gb s pos len) \<le> pos + 4"
  by (simp add: get_value_gb_def Let_def)

definition al_num_class :: "nat \<Rightarrow> nat" where
  "al_num_class a = (if 48 \<le> a \<and> a \<le> 57 then 2
     else if (65 \<le> a \<and> a \<le> 90) \<or> (97 \<le> a \<and> a \<le> 122) then 1 else 0)"

lemma al_num_map_eq: "al_num_map = map al_num_class [0..<256]"
  by code_simp

lemma al_num_map_classes: "a < 256 \<Longrightarrow> al_num_map ! a = al_num_class a"
  unfolding al_num_map_eq by (subst nth_map) simp_all

lemmas mark_defs = is_split_headmark_def is_split_tailmark_def is_radix_point_def is_mid_mark_def Let_def

lemma al_num_map_range: "a < 256 \<Longrightarrow> al_num_map ! a \<in> {0, 1, 2}"
  using al_num_map_classes [of a] by (simp add: al_num_class_def split: if_splits)

lemma al_num_map_high: "a < 256 \<Longrightarrow> 128 \<le> a \<Longrightarrow> al_num_map ! a = 0"
  by (simp add: al_num_map_classes al_num_class_def)

lemma al_num_map_nul: "al_num_map ! 0 = 0"
  by (simp add: al_num_map_classes al_num_class_def)

lemma GB_alnum_high: "IS_GB_1234 s i \<or> IS_GB_ABCD s i \<Longrightarrow> cbyte s i = 0xa3"
  by (auto simp: IS_GB_1234_def IS_GB_ABCD_def IN_RANGE_def)

lemma alnum_is_ascii: "is_my_alnum s i = 0 \<or> is_my_ascii s i = is_my_alnum s i"
proof (cases "char_pos (cbyte s i) \<and> al_num_map ! cbyte s i \<noteq> 0")
  case True
  then show ?thesis by (simp add: is_my_alnum_def is_my_ascii_def Let_def char_pos_def)
next
  case False
  then show ?thesis
  proof (cases "IS_GB_1234 s i \<or> IS_GB_ABCD s i")
    case True
    then show ?thesis using False GB_alnum_high [OF True]
      by (auto simp: is_my_alnum_def is_my_ascii_def Let_def)
  next
    case not_gb: False
    then show ?thesis using False by (auto simp: is_my_alnum_def)
  qed
qed

lemma alnum_num_alpha: "is_my_alnum s i = max (is_my_num s i) (is_my_alpha s i)"
proof (cases "char_pos (cbyte s i)")
  case True
  then have "\<not> IS_GB_1234 s i" "\<not> IS_GB_ABCD s i"
    using GB_alnum_high [of s i] by (auto simp: char_pos_def)
  then show ?thesis using al_num_map_range [OF cbyte_lt_256, of s i]
    by (auto simp: is_my_alnum_def is_my_num_def is_my_alpha_def)
next
  case False
  then show ?thesis
    by (simp add: is_my_alnum_def is_my_num_def is_my_alpha_def)
qed

subsection \<open>Properties\<close>

text \<open>
  C1 Cutting a buffer into GBK words loses nothing: writing every value back as its one, two or
  four bytes and concatenating them gives the buffer, byte for byte.
\<close>
theorem gb_words_roundtrip:
  assumes "len \<le> length s"
  shows "concat (map gb_encode (gb_words s 0 len)) = take len s"
  using gb_words_encode_from [OF assms, of 0] by simp

theorem gb_words_roundtrip_witness:
  "concat (map gb_encode (gb_words [CHR 0x41, CHR 0xB0, CHR 0xA1, CHR 0xB0] 0 3)) =
     [CHR 0x41, CHR 0xB0, CHR 0xA1]"
  using gb_words_roundtrip [of 3 "[CHR 0x41, CHR 0xB0, CHR 0xA1, CHR 0xB0]"] by simp

text \<open>
  C2 \<open>is_oneword_gb\<close> accepts exactly the strings that \<open>scw_get_word\<close> reads as a single
  word, and returns its number of bytes; every other string gives 0.
\<close>
theorem is_oneword_gb_iff_get_word:
  "is_oneword_gb w =
     (if w \<noteq> [] \<and> snd (scw_get_word w 0 (length w)) = length w then length w else 0)"
proof -
  consider "length w \<le> 4" | "4 < length w" by linarith
  then show ?thesis
  proof cases
    case 1
    then have "w = [] \<or> (\<exists>a. w = [a]) \<or> (\<exists>a b. w = [a, b]) \<or> (\<exists>a b c. w = [a, b, c]) \<or>
        (\<exists>a b c d. w = [a, b, c, d])"
      by (auto simp: le_Suc_eq numeral_eq_Suc length_Suc_conv)
    then show ?thesis
      by (elim disjE exE)
         (simp_all add: is_oneword_gb_def scw_get_word_def get_value_gb_def Let_def cbyte_def)
  next
    case 2
    then show ?thesis
      using get_value_gb_short [of w 0 "length w"]
      by (auto simp: is_oneword_gb_def scw_get_word_in Let_def)
  qed
qed

text \<open>
  The marks that may open or close an ASCII run are marks that may stand inside one, with the
  same width, and \<open>is_my_ascii\<close> accepts every byte pair that \<open>is_my_alnum\<close> accepts.
\<close>
theorem mark_classes_nested:
  "(is_split_headmark s i = 0 \<or> is_split_headmark s i = is_mid_mark s i) \<and>
   (is_split_tailmark s i = 0 \<or> is_split_tailmark s i = is_mid_mark s i) \<and>
   (is_radix_point s i = 0 \<or> is_radix_point s i = is_mid_mark s i) \<and>
   (is_my_alnum s i = 0 \<or> is_my_ascii s i = is_my_alnum s i) \<and>
   is_my_alnum s i = max (is_my_num s i) (is_my_alpha s i)"
proof (intro conjI)
  show "is_split_headmark s i = 0 \<or> is_split_headmark s i = is_mid_mark s i"
    "is_split_tailmark s i = 0 \<or> is_split_tailmark s i = is_mid_mark s i"
    "is_radix_point s i = 0 \<or> is_radix_point s i = is_mid_mark s i"
    by (simp_all add: mark_defs)
  show "is_my_alnum s i = 0 \<or> is_my_ascii s i = is_my_alnum s i"
    by (rule alnum_is_ascii)
  show "is_my_alnum s i = max (is_my_num s i) (is_my_alpha s i)"
    by (rule alnum_num_alpha)
qed

end
