(* ===== verification/Property.thy ===== *)
theory Property
  imports Prelude
begin

unbundle bit_operations_syntax

text \<open>
  The property word of a lemma: two 32-bit halves whose bits are the \<open>IS_...\<close> and
  \<open>SET_...\<close> macros of \<open>property.h\<close>, and the letter strings that name them in the dictionary
  text files, read by \<open>..._set_prop_by_str\<close> and written by \<open>..._write_prop_to_str\<close>
  (\<open>chinese_gbk.cpp\<close> for Chinese, \<open>segutil.cpp\<close> for Japanese). The \<open>int\<close> halves of the
  code are used as bit sets only and are \<open>32 word\<close> here; a test macro, an \<open>int\<close> used as a
  condition, is a \<open>bool\<close>.
\<close>

record scw_property =
  m_hprop :: "32 word"
  m_lprop :: "32 word"

definition INIT_PROPERTY :: scw_property where
  "INIT_PROPERTY = \<lparr>m_hprop = 0, m_lprop = 0\<rparr>"

named_theorems prop_is "the test macros"
named_theorems prop_set "the set macros"

subsection \<open>The macros of \<open>property.h\<close>\<close>

definition IS_PHRASE :: "scw_property \<Rightarrow> bool" where [prop_is]:
  "IS_PHRASE p \<longleftrightarrow> m_hprop p AND 0x00000001 \<noteq> 0"

definition DEL_PHRASE :: "scw_property \<Rightarrow> 32 word" where
  "DEL_PHRASE p = m_hprop p AND 0x11111110"

definition SET_PHRASE :: "scw_property \<Rightarrow> scw_property" where [prop_set]:
  "SET_PHRASE p = p\<lparr>m_hprop := m_hprop p OR 0x00000001\<rparr>"

definition IS_MARK :: "scw_property \<Rightarrow> bool" where [prop_is]:
  "IS_MARK p \<longleftrightarrow> m_hprop p AND 0x00000002 \<noteq> 0"

definition SET_MARK :: "scw_property \<Rightarrow> scw_property" where [prop_set]:
  "SET_MARK p = p\<lparr>m_hprop := m_hprop p OR 0x00000002\<rparr>"

definition IS_NEWWORD :: "scw_property \<Rightarrow> bool" where [prop_is]:
  "IS_NEWWORD p \<longleftrightarrow> m_lprop p AND 0x04000000 \<noteq> 0"

definition SET_NEWWORD :: "scw_property \<Rightarrow> scw_property" where [prop_set]:
  "SET_NEWWORD p = p\<lparr>m_lprop := m_lprop p OR 0x04000000\<rparr>"

definition IS_MULTI_TERM :: "scw_property \<Rightarrow> bool" where [prop_is]:
  "IS_MULTI_TERM p \<longleftrightarrow> m_lprop p AND 0x08000000 \<noteq> 0"

definition SET_MULTI_TERM :: "scw_property \<Rightarrow> scw_property" where [prop_set]:
  "SET_MULTI_TERM p = p\<lparr>m_lprop := m_lprop p OR 0x08000000\<rparr>"

definition IS_ALNUM :: "scw_property \<Rightarrow> bool" where [prop_is]:
  "IS_ALNUM p \<longleftrightarrow> m_hprop p AND 0x00000004 \<noteq> 0"

definition SET_ALNUM :: "scw_property \<Rightarrow> scw_property" where [prop_set]:
  "SET_ALNUM p = p\<lparr>m_hprop := m_hprop p OR 0x00000004\<rparr>"

definition IS_ONEWORD :: "scw_property \<Rightarrow> bool" where [prop_is]:
  "IS_ONEWORD p \<longleftrightarrow> m_hprop p AND 0x00000008 \<noteq> 0"

definition SET_ONEWORD :: "scw_property \<Rightarrow> scw_property" where [prop_set]:
  "SET_ONEWORD p = p\<lparr>m_hprop := m_hprop p OR 0x00000008\<rparr>"

definition IS_ASCIIWORD :: "scw_property \<Rightarrow> bool" where [prop_is]:
  "IS_ASCIIWORD p \<longleftrightarrow> m_hprop p AND 0x00000010 \<noteq> 0"

definition SET_ASCIIWORD :: "scw_property \<Rightarrow> scw_property" where [prop_set]:
  "SET_ASCIIWORD p = p\<lparr>m_hprop := m_hprop p OR 0x00000010\<rparr>"

definition IS_ASCIINUM :: "scw_property \<Rightarrow> bool" where [prop_is]:
  "IS_ASCIINUM p \<longleftrightarrow> m_hprop p AND 0x00000020 \<noteq> 0"

definition SET_ASCIINUM :: "scw_property \<Rightarrow> scw_property" where [prop_set]:
  "SET_ASCIINUM p = p\<lparr>m_hprop := m_hprop p OR 0x00000020\<rparr>"

definition IS_HUMAN_NAME :: "scw_property \<Rightarrow> bool" where [prop_is]:
  "IS_HUMAN_NAME p \<longleftrightarrow> m_hprop p AND 0x00000040 \<noteq> 0"

definition SET_HUMAN_NAME :: "scw_property \<Rightarrow> scw_property" where [prop_set]:
  "SET_HUMAN_NAME p = p\<lparr>m_hprop := m_hprop p OR 0x00000040\<rparr>"

definition IS_TIME :: "scw_property \<Rightarrow> bool" where [prop_is]:
  "IS_TIME p \<longleftrightarrow> m_hprop p AND 0x00000080 \<noteq> 0"

definition SET_TIME :: "scw_property \<Rightarrow> scw_property" where [prop_set]:
  "SET_TIME p = p\<lparr>m_hprop := m_hprop p OR 0x00000080\<rparr>"

definition IS_CNUMBER :: "scw_property \<Rightarrow> bool" where [prop_is]:
  "IS_CNUMBER p \<longleftrightarrow> m_hprop p AND 0x00000100 \<noteq> 0"

definition SET_CNUMBER :: "scw_property \<Rightarrow> scw_property" where [prop_set]:
  "SET_CNUMBER p = p\<lparr>m_hprop := m_hprop p OR 0x00000100\<rparr>"

definition IS_SURNAME :: "scw_property \<Rightarrow> bool" where [prop_is]:
  "IS_SURNAME p \<longleftrightarrow> m_hprop p AND 0x00000200 \<noteq> 0"

definition SET_SURNAME :: "scw_property \<Rightarrow> scw_property" where [prop_set]:
  "SET_SURNAME p = p\<lparr>m_hprop := m_hprop p OR 0x00000200\<rparr>"

definition IS_QUANTITY :: "scw_property \<Rightarrow> bool" where [prop_is]:
  "IS_QUANTITY p \<longleftrightarrow> m_hprop p AND 0x00000400 \<noteq> 0"

definition SET_QUANTITY :: "scw_property \<Rightarrow> scw_property" where [prop_set]:
  "SET_QUANTITY p = p\<lparr>m_hprop := m_hprop p OR 0x00000400\<rparr>"

definition IS_LOC :: "scw_property \<Rightarrow> bool" where [prop_is]:
  "IS_LOC p \<longleftrightarrow> m_hprop p AND 0x00000800 \<noteq> 0"

definition SET_LOC :: "scw_property \<Rightarrow> scw_property" where [prop_set]:
  "SET_LOC p = p\<lparr>m_hprop := m_hprop p OR 0x00000800\<rparr>"

definition IS_ORGNAME :: "scw_property \<Rightarrow> bool" where [prop_is]:
  "IS_ORGNAME p \<longleftrightarrow> m_hprop p AND 0x00001000 \<noteq> 0"

definition SET_ORGNAME :: "scw_property \<Rightarrow> scw_property" where [prop_set]:
  "SET_ORGNAME p = p\<lparr>m_hprop := m_hprop p OR 0x00001000\<rparr>"

definition IS_PLACE_SUFFIX :: "scw_property \<Rightarrow> bool" where [prop_is]:
  "IS_PLACE_SUFFIX p \<longleftrightarrow> m_hprop p AND 0x00800000 \<noteq> 0"

definition SET_PLACE_SUFFIX :: "scw_property \<Rightarrow> scw_property" where [prop_set]:
  "SET_PLACE_SUFFIX p = p\<lparr>m_hprop := m_hprop p OR 0x00800000\<rparr>"

definition IS_HZ :: "scw_property \<Rightarrow> bool" where [prop_is]:
  "IS_HZ p \<longleftrightarrow> m_hprop p AND 0x01000000 \<noteq> 0"

definition SET_HZ :: "scw_property \<Rightarrow> scw_property" where [prop_set]:
  "SET_HZ p = p\<lparr>m_hprop := m_hprop p OR 0x01000000\<rparr>"

definition IS_DI :: "scw_property \<Rightarrow> bool" where [prop_is]:
  "IS_DI p \<longleftrightarrow> m_hprop p AND 0x02000000 \<noteq> 0"

definition SET_DI :: "scw_property \<Rightarrow> scw_property" where [prop_set]:
  "SET_DI p = p\<lparr>m_hprop := m_hprop p OR 0x02000000\<rparr>"

definition IS_BOOKNAME :: "scw_property \<Rightarrow> bool" where [prop_is]:
  "IS_BOOKNAME p \<longleftrightarrow> m_hprop p AND 0x08000000 \<noteq> 0"

definition SET_BOOKNAME :: "scw_property \<Rightarrow> scw_property" where [prop_set]:
  "SET_BOOKNAME p = p\<lparr>m_hprop := m_hprop p OR 0x08000000\<rparr>"

definition IS_BOOKNAME_START :: "scw_property \<Rightarrow> bool" where [prop_is]:
  "IS_BOOKNAME_START p \<longleftrightarrow> m_hprop p AND 0x20000000 \<noteq> 0"

definition SET_BOOKNAME_START :: "scw_property \<Rightarrow> scw_property" where [prop_set]:
  "SET_BOOKNAME_START p = p\<lparr>m_hprop := m_hprop p OR 0x20000000\<rparr>"

definition IS_BOOKNAME_END :: "scw_property \<Rightarrow> bool" where [prop_is]:
  "IS_BOOKNAME_END p \<longleftrightarrow> m_hprop p AND 0x40000000 \<noteq> 0"

definition SET_BOOKNAME_END :: "scw_property \<Rightarrow> scw_property" where [prop_set]:
  "SET_BOOKNAME_END p = p\<lparr>m_hprop := m_hprop p OR 0x40000000\<rparr>"

definition IS_UNIVERSITY :: "scw_property \<Rightarrow> bool" where [prop_is]:
  "IS_UNIVERSITY p \<longleftrightarrow> m_lprop p AND 0x00000001 \<noteq> 0"

definition SET_UNIVERSITY :: "scw_property \<Rightarrow> scw_property" where [prop_set]:
  "SET_UNIVERSITY p = p\<lparr>m_lprop := m_lprop p OR 0x00000001\<rparr>"

definition IS_SOFTNAME :: "scw_property \<Rightarrow> bool" where [prop_is]:
  "IS_SOFTNAME p \<longleftrightarrow> m_lprop p AND 0x00000002 \<noteq> 0"

definition SET_SOFTNAME :: "scw_property \<Rightarrow> scw_property" where [prop_set]:
  "SET_SOFTNAME p = p\<lparr>m_lprop := m_lprop p OR 0x00000002\<rparr>"

definition IS_FMNAME :: "scw_property \<Rightarrow> bool" where [prop_is]:
  "IS_FMNAME p \<longleftrightarrow> m_lprop p AND 0x00000004 \<noteq> 0"

definition SET_FMNAME :: "scw_property \<Rightarrow> scw_property" where [prop_set]:
  "SET_FMNAME p = p\<lparr>m_lprop := m_lprop p OR 0x00000004\<rparr>"

definition IS_LOC_SMALL :: "scw_property \<Rightarrow> bool" where [prop_is]:
  "IS_LOC_SMALL p \<longleftrightarrow> m_lprop p AND 0x00000008 \<noteq> 0"

definition SET_LOC_SMALL :: "scw_property \<Rightarrow> scw_property" where [prop_set]:
  "SET_LOC_SMALL p = p\<lparr>m_lprop := m_lprop p OR 0x00000008\<rparr>"

definition IS_BRAND :: "scw_property \<Rightarrow> bool" where [prop_is]:
  "IS_BRAND p \<longleftrightarrow> m_lprop p AND 0x00000010 \<noteq> 0"

definition SET_BRAND :: "scw_property \<Rightarrow> scw_property" where [prop_set]:
  "SET_BRAND p = p\<lparr>m_lprop := m_lprop p OR 0x00000010\<rparr>"

definition IS_TEMP :: "scw_property \<Rightarrow> bool" where [prop_is]:
  "IS_TEMP p \<longleftrightarrow> m_lprop p AND 0x00000020 \<noteq> 0"

definition SET_TEMP :: "scw_property \<Rightarrow> scw_property" where [prop_set]:
  "SET_TEMP p = p\<lparr>m_lprop := m_lprop p OR 0x00000020\<rparr>"

definition IS_SPEC_ENSTR :: "scw_property \<Rightarrow> bool" where [prop_is]:
  "IS_SPEC_ENSTR p \<longleftrightarrow> m_lprop p AND 0x00000080 \<noteq> 0"

definition SET_SPEC_ENSTR :: "scw_property \<Rightarrow> scw_property" where [prop_set]:
  "SET_SPEC_ENSTR p = p\<lparr>m_lprop := m_lprop p OR 0x00000080\<rparr>"

definition IS_NAMEMID :: "scw_property \<Rightarrow> bool" where [prop_is]:
  "IS_NAMEMID p \<longleftrightarrow> m_hprop p AND 0x00002000 \<noteq> 0"

definition SET_NAMEMID :: "scw_property \<Rightarrow> scw_property" where [prop_set]:
  "SET_NAMEMID p = p\<lparr>m_hprop := m_hprop p OR 0x00002000\<rparr>"

definition IS_NAMEEND :: "scw_property \<Rightarrow> bool" where [prop_is]:
  "IS_NAMEEND p \<longleftrightarrow> m_hprop p AND 0x00004000 \<noteq> 0"

definition SET_NAMEEND :: "scw_property \<Rightarrow> scw_property" where [prop_set]:
  "SET_NAMEEND p = p\<lparr>m_hprop := m_hprop p OR 0x00004000\<rparr>"

definition IS_SPACE :: "scw_property \<Rightarrow> bool" where [prop_is]:
  "IS_SPACE p \<longleftrightarrow> m_lprop p AND 0x00000040 \<noteq> 0"

definition SET_SPACE :: "scw_property \<Rightarrow> scw_property" where [prop_set]:
  "SET_SPACE p = p\<lparr>m_lprop := m_lprop p OR 0x00000040\<rparr>"

definition IS_MANWORD :: "scw_property \<Rightarrow> bool" where [prop_is]:
  "IS_MANWORD p \<longleftrightarrow> m_lprop p AND 0x00100000 \<noteq> 0"

definition SET_MANWORD :: "scw_property \<Rightarrow> scw_property" where [prop_set]:
  "SET_MANWORD p = p\<lparr>m_lprop := m_lprop p OR 0x00100000\<rparr>"

definition IS_NAME_STICK :: "scw_property \<Rightarrow> bool" where [prop_is]:
  "IS_NAME_STICK p \<longleftrightarrow> m_hprop p AND 0x00008000 \<noteq> 0"

definition SET_NAME_STICK :: "scw_property \<Rightarrow> scw_property" where [prop_set]:
  "SET_NAME_STICK p = p\<lparr>m_hprop := m_hprop p OR 0x00008000\<rparr>"

definition IS_QIANZHUI :: "scw_property \<Rightarrow> bool" where [prop_is]:
  "IS_QIANZHUI p \<longleftrightarrow> m_hprop p AND 0x00010000 \<noteq> 0"

definition SET_QIANZHUI :: "scw_property \<Rightarrow> scw_property" where [prop_set]:
  "SET_QIANZHUI p = p\<lparr>m_hprop := m_hprop p OR 0x00010000\<rparr>"

definition IS_HOUZHUI :: "scw_property \<Rightarrow> bool" where [prop_is]:
  "IS_HOUZHUI p \<longleftrightarrow> m_hprop p AND 0x00020000 \<noteq> 0"

definition SET_HOUZHUI :: "scw_property \<Rightarrow> scw_property" where [prop_set]:
  "SET_HOUZHUI p = p\<lparr>m_hprop := m_hprop p OR 0x00020000\<rparr>"

definition IS_QIANDAO :: "scw_property \<Rightarrow> bool" where [prop_is]:
  "IS_QIANDAO p \<longleftrightarrow> m_hprop p AND 0x00040000 \<noteq> 0"

definition SET_QIANDAO :: "scw_property \<Rightarrow> scw_property" where [prop_set]:
  "SET_QIANDAO p = p\<lparr>m_hprop := m_hprop p OR 0x00040000\<rparr>"

definition IS_HOUDAO :: "scw_property \<Rightarrow> bool" where [prop_is]:
  "IS_HOUDAO p \<longleftrightarrow> m_hprop p AND 0x00080000 \<noteq> 0"

definition SET_HOUDAO :: "scw_property \<Rightarrow> scw_property" where [prop_set]:
  "SET_HOUDAO p = p\<lparr>m_hprop := m_hprop p OR 0x00080000\<rparr>"

definition IS_CFOREIGN :: "scw_property \<Rightarrow> bool" where [prop_is]:
  "IS_CFOREIGN p \<longleftrightarrow> m_hprop p AND 0x00100000 \<noteq> 0"

definition SET_CFOREIGN :: "scw_property \<Rightarrow> scw_property" where [prop_set]:
  "SET_CFOREIGN p = p\<lparr>m_hprop := m_hprop p OR 0x00100000\<rparr>"

definition IS_STOPWORD :: "scw_property \<Rightarrow> bool" where [prop_is]:
  "IS_STOPWORD p \<longleftrightarrow> m_hprop p AND 0x00200000 \<noteq> 0"

definition SET_STOPWORD :: "scw_property \<Rightarrow> scw_property" where [prop_set]:
  "SET_STOPWORD p = p\<lparr>m_hprop := m_hprop p OR 0x00200000\<rparr>"

definition IS_SPECIAL :: "scw_property \<Rightarrow> bool" where [prop_is]:
  "IS_SPECIAL p \<longleftrightarrow> m_hprop p AND 0x00400000 \<noteq> 0"

definition SET_SPECIAL :: "scw_property \<Rightarrow> scw_property" where [prop_set]:
  "SET_SPECIAL p = p\<lparr>m_hprop := m_hprop p OR 0x00400000\<rparr>"

definition IS_QYPD :: "scw_property \<Rightarrow> bool" where [prop_is]:
  "IS_QYPD p \<longleftrightarrow> m_hprop p AND 0x04000000 \<noteq> 0"

definition SET_QYPD :: "scw_property \<Rightarrow> scw_property" where [prop_set]:
  "SET_QYPD p = p\<lparr>m_hprop := m_hprop p OR 0x04000000\<rparr>"

definition IS_2WHPREFIX :: "scw_property \<Rightarrow> bool" where [prop_is]:
  "IS_2WHPREFIX p \<longleftrightarrow> m_hprop p AND 0x10000000 \<noteq> 0"

definition SET_2WHPREFIX :: "scw_property \<Rightarrow> scw_property" where [prop_set]:
  "SET_2WHPREFIX p = p\<lparr>m_hprop := m_hprop p OR 0x10000000\<rparr>"

definition IS_CH_NAME :: "scw_property \<Rightarrow> bool" where [prop_is]:
  "IS_CH_NAME p \<longleftrightarrow> m_hprop p AND 0x80000000 \<noteq> 0"

definition SET_CH_NAME :: "scw_property \<Rightarrow> scw_property" where [prop_set]:
  "SET_CH_NAME p = p\<lparr>m_hprop := m_hprop p OR 0x80000000\<rparr>"

definition IS_LOC_FOLLOW :: "scw_property \<Rightarrow> bool" where [prop_is]:
  "IS_LOC_FOLLOW p \<longleftrightarrow> m_lprop p AND 0x00000100 \<noteq> 0"

definition SET_LOC_FOLLOW :: "scw_property \<Rightarrow> scw_property" where [prop_set]:
  "SET_LOC_FOLLOW p = p\<lparr>m_lprop := m_lprop p OR 0x00000100\<rparr>"

definition IS_FNAMEBGN :: "scw_property \<Rightarrow> bool" where [prop_is]:
  "IS_FNAMEBGN p \<longleftrightarrow> m_lprop p AND 0x00000200 \<noteq> 0"

definition SET_FNAMEBGN :: "scw_property \<Rightarrow> scw_property" where [prop_set]:
  "SET_FNAMEBGN p = p\<lparr>m_lprop := m_lprop p OR 0x00000200\<rparr>"

definition IS_FNAMEMID :: "scw_property \<Rightarrow> bool" where [prop_is]:
  "IS_FNAMEMID p \<longleftrightarrow> m_lprop p AND 0x00000400 \<noteq> 0"

definition SET_FNAMEMID :: "scw_property \<Rightarrow> scw_property" where [prop_set]:
  "SET_FNAMEMID p = p\<lparr>m_lprop := m_lprop p OR 0x00000400\<rparr>"

definition IS_FNAMEEND :: "scw_property \<Rightarrow> bool" where [prop_is]:
  "IS_FNAMEEND p \<longleftrightarrow> m_lprop p AND 0x00000800 \<noteq> 0"

definition SET_FNAMEEND :: "scw_property \<Rightarrow> scw_property" where [prop_set]:
  "SET_FNAMEEND p = p\<lparr>m_lprop := m_lprop p OR 0x00000800\<rparr>"

definition IS_2FNAMEEND :: "scw_property \<Rightarrow> bool" where [prop_is]:
  "IS_2FNAMEEND p \<longleftrightarrow> m_lprop p AND 0x00001000 \<noteq> 0"

definition SET_2FNAMEEND :: "scw_property \<Rightarrow> scw_property" where [prop_set]:
  "SET_2FNAMEEND p = p\<lparr>m_lprop := m_lprop p OR 0x00001000\<rparr>"

definition IS_1W_SUFFIX :: "scw_property \<Rightarrow> bool" where [prop_is]:
  "IS_1W_SUFFIX p \<longleftrightarrow> m_lprop p AND 0x01000000 \<noteq> 0"

definition SET_1W_SUFFIX :: "scw_property \<Rightarrow> scw_property" where [prop_set]:
  "SET_1W_SUFFIX p = p\<lparr>m_lprop := m_lprop p OR 0x01000000\<rparr>"

definition IS_VIDEO :: "scw_property \<Rightarrow> bool" where [prop_is]:
  "IS_VIDEO p \<longleftrightarrow> m_lprop p AND 0x80000000 \<noteq> 0"

definition SET_VIDEO :: "scw_property \<Rightarrow> scw_property" where [prop_set]:
  "SET_VIDEO p = p\<lparr>m_lprop := m_lprop p OR 0x80000000\<rparr>"

definition IS_GAME :: "scw_property \<Rightarrow> bool" where [prop_is]:
  "IS_GAME p \<longleftrightarrow> m_lprop p AND 0x40000000 \<noteq> 0"

definition SET_GAME :: "scw_property \<Rightarrow> scw_property" where [prop_set]:
  "SET_GAME p = p\<lparr>m_lprop := m_lprop p OR 0x40000000\<rparr>"

definition IS_SONG :: "scw_property \<Rightarrow> bool" where [prop_is]:
  "IS_SONG p \<longleftrightarrow> m_lprop p AND 0x20000000 \<noteq> 0"

definition SET_SONG :: "scw_property \<Rightarrow> scw_property" where [prop_set]:
  "SET_SONG p = p\<lparr>m_lprop := m_lprop p OR 0x20000000\<rparr>"

definition IS_SCW_PRODUCT :: "scw_property \<Rightarrow> bool" where [prop_is]:
  "IS_SCW_PRODUCT p \<longleftrightarrow> m_lprop p AND 0x10000000 \<noteq> 0"

definition SET_SCW_PRODUCT :: "scw_property \<Rightarrow> scw_property" where [prop_set]:
  "SET_SCW_PRODUCT p = p\<lparr>m_lprop := m_lprop p OR 0x10000000\<rparr>"

definition IS_STATIC_BOOK :: "scw_property \<Rightarrow> bool" where [prop_is]:
  "IS_STATIC_BOOK p \<longleftrightarrow> m_lprop p AND 0x02000000 \<noteq> 0"

definition SET_STATIC_BOOK :: "scw_property \<Rightarrow> scw_property" where [prop_set]:
  "SET_STATIC_BOOK p = p\<lparr>m_lprop := m_lprop p OR 0x02000000\<rparr>"

definition IS_NOUN :: "scw_property \<Rightarrow> bool" where [prop_is]:
  "IS_NOUN p \<longleftrightarrow> m_hprop p AND 0x00010000 \<noteq> 0"

definition SET_NOUN :: "scw_property \<Rightarrow> scw_property" where [prop_set]:
  "SET_NOUN p = p\<lparr>m_hprop := m_hprop p OR 0x00010000\<rparr>"

definition IS_GIVENNAME :: "scw_property \<Rightarrow> bool" where [prop_is]:
  "IS_GIVENNAME p \<longleftrightarrow> m_hprop p AND 0x00020000 \<noteq> 0"

definition SET_GIVENNAME :: "scw_property \<Rightarrow> scw_property" where [prop_set]:
  "SET_GIVENNAME p = p\<lparr>m_hprop := m_hprop p OR 0x00020000\<rparr>"

definition IS_PINGJM :: "scw_property \<Rightarrow> bool" where [prop_is]:
  "IS_PINGJM p \<longleftrightarrow> m_hprop p AND 0x00040000 \<noteq> 0"

definition SET_PINGJM :: "scw_property \<Rightarrow> scw_property" where [prop_set]:
  "SET_PINGJM p = p\<lparr>m_hprop := m_hprop p OR 0x00040000\<rparr>"

definition IS_PIANJM :: "scw_property \<Rightarrow> bool" where [prop_is]:
  "IS_PIANJM p \<longleftrightarrow> m_hprop p AND 0x00080000 \<noteq> 0"

definition SET_PIANJM :: "scw_property \<Rightarrow> scw_property" where [prop_set]:
  "SET_PIANJM p = p\<lparr>m_hprop := m_hprop p OR 0x00080000\<rparr>"

definition IS_PAJMSTR :: "scw_property \<Rightarrow> bool" where [prop_is]:
  "IS_PAJMSTR p \<longleftrightarrow> m_hprop p AND 0x00100000 \<noteq> 0"

definition SET_PAJMSTR :: "scw_property \<Rightarrow> scw_property" where [prop_set]:
  "SET_PAJMSTR p = p\<lparr>m_hprop := m_hprop p OR 0x00100000\<rparr>"

definition IS_VERB :: "scw_property \<Rightarrow> bool" where [prop_is]:
  "IS_VERB p \<longleftrightarrow> m_hprop p AND 0x00200000 \<noteq> 0"

definition SET_VERB :: "scw_property \<Rightarrow> scw_property" where [prop_set]:
  "SET_VERB p = p\<lparr>m_hprop := m_hprop p OR 0x00200000\<rparr>"

definition IS_JPNAME_BLANK :: "scw_property \<Rightarrow> bool" where [prop_is]:
  "IS_JPNAME_BLANK p \<longleftrightarrow> m_lprop p AND 0x00200000 \<noteq> 0"

definition SET_JPNAME_BLANK :: "scw_property \<Rightarrow> scw_property" where [prop_set]:
  "SET_JPNAME_BLANK p = p\<lparr>m_lprop := m_lprop p OR 0x00200000\<rparr>"

definition IS_BIG_PHRASE :: "scw_property \<Rightarrow> bool" where [prop_is]:
  "IS_BIG_PHRASE p \<longleftrightarrow> m_lprop p AND 0x00400000 \<noteq> 0"

definition SET_BIG_PHRASE :: "scw_property \<Rightarrow> scw_property" where [prop_set]:
  "SET_BIG_PHRASE p = p\<lparr>m_lprop := m_lprop p OR 0x00400000\<rparr>"

definition IS_NAME_SUFFIX :: "scw_property \<Rightarrow> bool" where [prop_is]:
  "IS_NAME_SUFFIX p \<longleftrightarrow> m_lprop p AND 0x00800000 \<noteq> 0"

definition SET_NAME_SUFFIX :: "scw_property \<Rightarrow> scw_property" where [prop_set]:
  "SET_NAME_SUFFIX p = p\<lparr>m_lprop := m_lprop p OR 0x00800000\<rparr>"

definition IS_1W_NAMEEND :: "scw_property \<Rightarrow> bool" where [prop_is]:
  "IS_1W_NAMEEND p \<longleftrightarrow> m_hprop p AND 0x00000008 \<noteq> 0 \<and> m_hprop p AND 0x00004000 \<noteq> 0"

definition IS_PJM :: "scw_property \<Rightarrow> bool" where [prop_is]:
  "IS_PJM p \<longleftrightarrow> m_hprop p AND 0x00040000 \<noteq> 0 \<or> m_hprop p AND 0x00080000 \<noteq> 0"

subsection \<open>Property strings, Chinese dictionaries\<close>

definition ch_set_prop_char :: "char \<Rightarrow> scw_property \<Rightarrow> scw_property" where
  "ch_set_prop_char c p =
     (if c = CHR ''S'' then SET_SPECIAL p
      else if c = CHR ''Z'' then SET_TEMP p
      else if c = CHR ''P'' then SET_PHRASE p
      else if c = CHR ''O'' then SET_ONEWORD p
      else if c = CHR ''0'' then SET_STOPWORD p
      else if c = CHR ''1'' then SET_SURNAME p
      else if c = CHR ''2'' then SET_QIANZHUI p
      else if c = CHR ''3'' then SET_HOUZHUI p
      else if c = CHR ''4'' then SET_QIANDAO p
      else if c = CHR ''5'' then SET_HOUDAO p
      else if c = CHR ''6'' then SET_CFOREIGN p
      else if c = CHR ''7'' then SET_NAMEMID p
      else if c = CHR ''8'' then SET_NAMEEND p
      else if c = CHR ''9'' then SET_NAME_STICK p
      else if c = CHR ''m'' then SET_CNUMBER p
      else if c = CHR ''t'' then SET_TIME p
      else if c = CHR ''M'' then SET_MARK p
      else if c = CHR ''H'' then SET_HUMAN_NAME p
      else if c = CHR ''q'' then SET_QUANTITY p
      else if c = CHR ''Q'' then SET_QYPD p
      else if c = CHR ''B'' then SET_BOOKNAME p
      else if c = CHR ''b'' then SET_BOOKNAME_START p
      else if c = CHR ''e'' then SET_BOOKNAME_END p
      else if c = CHR ''A'' then SET_2WHPREFIX p
      else if c = CHR ''d'' then SET_DI p
      else if c = CHR ''C'' then SET_CH_NAME p
      else if c = CHR ''R'' then SET_FMNAME p
      else if c = CHR ''u'' then SET_UNIVERSITY p
      else if c = CHR ''F'' then SET_SOFTNAME p
      else if c = CHR ''D'' then SET_LOC_SMALL p
      else if c = CHR ''n'' then SET_BRAND p
      else if c = CHR ''J'' then SET_ORGNAME p
      else if c = CHR ''a'' then SET_ASCIIWORD p
      else if c = CHR ''E'' then SET_SPEC_ENSTR p
      else if c = CHR ''f'' then SET_LOC_FOLLOW p
      else if c = CHR ''l'' then SET_LOC p
      else if c = CHR ''x'' then SET_FNAMEBGN p
      else if c = CHR ''y'' then SET_FNAMEMID p
      else if c = CHR ''z'' then SET_FNAMEEND p
      else if c = CHR ''w'' then SET_2FNAMEEND p
      else if c = CHR ''N'' then SET_1W_SUFFIX p
      else if c = CHR ''U'' then SET_VIDEO p
      else if c = CHR ''V'' then SET_GAME p
      else if c = CHR ''W'' then SET_SONG p
      else if c = CHR ''c'' then SET_SCW_PRODUCT p
      else if c = CHR ''p'' then SET_PLACE_SUFFIX p
      else if c = CHR ''v'' then SET_STATIC_BOOK p
      else p)"

definition ch_set_prop_by_str :: "string \<Rightarrow> scw_property \<Rightarrow> scw_property" where
  "ch_set_prop_by_str s p = fold ch_set_prop_char s p"

definition ch_write_prop_to_str :: "scw_property \<Rightarrow> string" where
  "ch_write_prop_to_str p =
     (if IS_NEWWORD p then ''-NW'' else [])
     @ (if IS_SURNAME p then ''-1'' else [])
     @ (if IS_TEMP p then ''-Z'' else [])
     @ (if IS_NAMEMID p then ''-7'' else [])
     @ (if IS_NAMEEND p then ''-8'' else [])
     @ (if IS_NAME_STICK p then ''-9'' else [])
     @ (if IS_QIANZHUI p then ''-2'' else [])
     @ (if IS_HOUZHUI p then ''-3'' else [])
     @ (if IS_QIANDAO p then ''-4'' else [])
     @ (if IS_HOUDAO p then ''-5'' else [])
     @ (if IS_CFOREIGN p then ''-6'' else [])
     @ (if IS_STOPWORD p then ''-0'' else [])
     @ (if IS_MARK p then ''-M'' else [])
     @ (if IS_PHRASE p then ''-P'' else [])
     @ (if IS_SPECIAL p then ''-S'' else [])
     @ (if IS_ONEWORD p then ''-O'' else [])
     @ (if IS_CNUMBER p then ''-m'' else [])
     @ (if IS_DI p then ''-d'' else [])
     @ (if IS_TIME p then ''-t'' else [])
     @ (if IS_HUMAN_NAME p then ''-H'' else [])
     @ (if IS_QUANTITY p then ''-q'' else [])
     @ (if IS_QYPD p then ''-Q'' else [])
     @ (if IS_BOOKNAME p then ''-B'' else [])
     @ (if IS_BOOKNAME_START p then ''-b'' else [])
     @ (if IS_BOOKNAME_END p then ''-e'' else [])
     @ (if IS_2WHPREFIX p then ''-A'' else [])
     @ (if IS_CH_NAME p then ''-C'' else [])
     @ (if IS_UNIVERSITY p then ''-u'' else [])
     @ (if IS_LOC_SMALL p then ''-D'' else [])
     @ (if IS_SOFTNAME p then ''-F'' else [])
     @ (if IS_FMNAME p then ''-R'' else [])
     @ (if IS_ORGNAME p then ''-J'' else [])
     @ (if IS_ASCIIWORD p then ''-a'' else [])
     @ (if IS_ASCIINUM p then ''-g'' else [])
     @ (if IS_SPEC_ENSTR p then ''-E'' else [])
     @ (if IS_LOC p then ''-l'' else [])
     @ (if IS_LOC_FOLLOW p then ''-f'' else [])
     @ (if IS_FNAMEBGN p then ''-x'' else [])
     @ (if IS_FNAMEMID p then ''-y'' else [])
     @ (if IS_FNAMEEND p then ''-z'' else [])
     @ (if IS_2FNAMEEND p then ''-w'' else [])
     @ (if IS_1W_SUFFIX p then ''-N'' else [])
     @ (if IS_VIDEO p then ''-U'' else [])
     @ (if IS_GAME p then ''-V'' else [])
     @ (if IS_SONG p then ''-W'' else [])
     @ (if IS_SCW_PRODUCT p then ''-c'' else [])
     @ (if IS_BRAND p then ''-n'' else [])
     @ (if IS_PLACE_SUFFIX p then ''-p'' else [])
     @ (if IS_STATIC_BOOK p then ''-v'' else [])"

subsection \<open>Property strings, Japanese dictionaries\<close>

definition jp_set_prop_char :: "char \<Rightarrow> scw_property \<Rightarrow> scw_property" where
  "jp_set_prop_char c p =
     (if c = CHR ''P'' then SET_PHRASE p
      else if c = CHR ''U'' then SET_BIG_PHRASE p
      else if c = CHR ''Z'' then SET_TEMP p
      else if c = CHR ''O'' then SET_ONEWORD p
      else if c = CHR ''M'' then SET_MARK p
      else if c = CHR ''D'' then SET_CNUMBER p
      else if c = CHR ''R'' then SET_HUMAN_NAME p
      else if c = CHR ''q'' then SET_QUANTITY p
      else if c = CHR ''p'' then SET_PLACE_SUFFIX p
      else if c = CHR ''N'' then SET_NOUN p
      else if c = CHR ''S'' then SET_SURNAME p
      else if c = CHR ''G'' then SET_GIVENNAME p
      else if c = CHR ''J'' then SET_ORGNAME p
      else if c = CHR ''L'' then SET_LOC p
      else if c = CHR ''m'' then SET_FMNAME p
      else if c = CHR ''s'' then SET_SOFTNAME p
      else if c = CHR ''d'' then SET_DI p
      else if c = CHR ''1'' then SET_PINGJM p
      else if c = CHR ''2'' then SET_PIANJM p
      else if c = CHR ''F'' then SET_PAJMSTR p
      else if c = CHR ''0'' then SET_BOOKNAME p
      else if c = CHR ''b'' then SET_BOOKNAME_START p
      else if c = CHR ''e'' then SET_BOOKNAME_END p
      else if c = CHR ''7'' then SET_NAMEMID p
      else if c = CHR ''8'' then SET_NAMEEND p
      else if c = CHR ''9'' then SET_NAME_SUFFIX p
      else if c = CHR ''V'' then SET_VERB p
      else if c = CHR ''a'' then SET_ASCIIWORD p
      else p)"

definition jp_set_prop_by_str :: "string \<Rightarrow> scw_property \<Rightarrow> scw_property" where
  "jp_set_prop_by_str s p = fold jp_set_prop_char s p"

definition jp_write_prop_to_str :: "scw_property \<Rightarrow> string" where
  "jp_write_prop_to_str p =
     (if IS_JPNAME_BLANK p then ''-K'' else [])
     @ (if IS_BIG_PHRASE p then ''-U'' else [])
     @ (if IS_SURNAME p then ''-S'' else [])
     @ (if IS_ASCIIWORD p then ''-a'' else [])
     @ (if IS_ASCIINUM p then ''-g'' else [])
     @ (if IS_GIVENNAME p then ''-G'' else [])
     @ (if IS_NAMEMID p then ''-7'' else [])
     @ (if IS_NAMEEND p then ''-8'' else [])
     @ (if IS_LOC p then ''-L'' else [])
     @ (if IS_HUMAN_NAME p then ''-R'' else [])
     @ (if IS_ONEWORD p then ''-O'' else [])
     @ (if IS_QUANTITY p then ''-q'' else [])
     @ (if IS_CNUMBER p then ''-D'' else [])
     @ (if IS_MARK p then ''-M'' else [])
     @ (if IS_PHRASE p then ''-P'' else [])
     @ (if IS_ORGNAME p then ''-J'' else [])
     @ (if IS_FMNAME p then ''-m'' else [])
     @ (if IS_SOFTNAME p then ''-s'' else [])
     @ (if IS_PLACE_SUFFIX p then ''-p'' else [])
     @ (if IS_NOUN p then ''-N'' else [])
     @ (if IS_DI p then ''-d'' else [])
     @ (if IS_PINGJM p then ''-1'' else [])
     @ (if IS_PIANJM p then ''-2'' else [])
     @ (if IS_PAJMSTR p then ''-F'' else [])
     @ (if IS_BOOKNAME p then ''-0'' else [])
     @ (if IS_BOOKNAME_START p then ''-b'' else [])
     @ (if IS_BOOKNAME_END p then ''-e'' else [])
     @ (if IS_TEMP p then ''-Z'' else [])
     @ (if IS_VERB p then ''-V'' else [])
     @ (if IS_NAME_SUFFIX p then ''-9'' else [])"

subsection \<open>Dispatch on the dictionary type\<close>

definition SCW_WD_CH :: nat where "SCW_WD_CH = 1"
definition SCW_WD_JP :: nat where "SCW_WD_JP = 2"

definition set_prop_by_str :: "string \<Rightarrow> scw_property \<Rightarrow> nat \<Rightarrow> scw_property" where
  "set_prop_by_str s p wdtype =
     (if wdtype = SCW_WD_CH then ch_set_prop_by_str s p
      else if wdtype = SCW_WD_JP then jp_set_prop_by_str s p
      else p)"

text \<open>
  \<open>write_prop_to_str\<close> leaves the caller's buffer alone for any other dictionary type, which
  is why it takes the buffer's old content.
\<close>

definition write_prop_to_str :: "scw_property \<Rightarrow> string \<Rightarrow> nat \<Rightarrow> string" where
  "write_prop_to_str p buffer wdtype =
     (if wdtype = SCW_WD_CH then ch_write_prop_to_str p
      else if wdtype = SCW_WD_JP then jp_write_prop_to_str p
      else buffer)"

subsection \<open>Reading back what was written\<close>

definition orw :: "32 word \<Rightarrow> 32 word \<Rightarrow> scw_property \<Rightarrow> scw_property" where
  "orw h l p = p\<lparr>m_hprop := m_hprop p OR h, m_lprop := m_lprop p OR l\<rparr>"

lemma orw_orw [simp]: "orw h l (orw h' l' p) = orw (h' OR h) (l' OR l) p"
  by (simp add: orw_def ac_simps)

lemma orw_0 [simp]: "orw 0 0 p = p"
  by (simp add: orw_def)

definition single_bit :: "32 word \<Rightarrow> bool" where
  "single_bit b \<longleftrightarrow> (\<exists>n<32. b = 2 ^ n)"

lemma single_bitI: "n < 32 \<Longrightarrow> single_bit (2 ^ n)"
  by (auto simp: single_bit_def)

lemmas single_bits =
  single_bitI [of 0, simplified] single_bitI [of 1, simplified] single_bitI [of 2, simplified]
  single_bitI [of 3, simplified] single_bitI [of 4, simplified] single_bitI [of 5, simplified]
  single_bitI [of 6, simplified] single_bitI [of 7, simplified] single_bitI [of 8, simplified]
  single_bitI [of 9, simplified] single_bitI [of 10, simplified] single_bitI [of 11, simplified]
  single_bitI [of 12, simplified] single_bitI [of 13, simplified] single_bitI [of 14, simplified]
  single_bitI [of 15, simplified] single_bitI [of 16, simplified] single_bitI [of 17, simplified]
  single_bitI [of 18, simplified] single_bitI [of 19, simplified] single_bitI [of 20, simplified]
  single_bitI [of 21, simplified] single_bitI [of 22, simplified] single_bitI [of 23, simplified]
  single_bitI [of 24, simplified] single_bitI [of 25, simplified] single_bitI [of 26, simplified]
  single_bitI [of 27, simplified] single_bitI [of 28, simplified] single_bitI [of 29, simplified]
  single_bitI [of 30, simplified] single_bitI [of 31, simplified]

lemma and_single_bit:
  assumes "single_bit b" "w AND b \<noteq> 0"
  shows "w AND b = b"
proof -
  from assms(1) obtain n where b: "b = 2 ^ n" and "n < 32"
    by (auto simp: single_bit_def)
  show ?thesis
  proof (rule bit_word_eqI)
    fix m
    have "bit w n" using assms(2) b
      by (metis (no_types, opaque_lifting) and_exp_eq_0_iff_not_bit)
    then show "bit (w AND b) m = bit b m"
      by (auto simp: b bit_and_iff bit_exp_iff)
  qed
qed

lemma piece_h:
  assumes "f (CHR ''-'') = id" "f c = orw b 0" "single_bit b"
  shows "fold f (if x AND b \<noteq> 0 then [CHR ''-'', c] else []) q = orw (x AND b) 0 q"
  using assms and_single_bit [of b x] by auto

lemma piece_l:
  assumes "f (CHR ''-'') = id" "f c = orw 0 b" "single_bit b"
  shows "fold f (if x AND b \<noteq> 0 then [CHR ''-'', c] else []) q = orw 0 (x AND b) q"
  using assms and_single_bit [of b x] by auto

lemma ch_set_letters:
  "ch_set_prop_char (CHR ''S'') = orw 0x00400000 0"
  "ch_set_prop_char (CHR ''Z'') = orw 0 0x00000020"
  "ch_set_prop_char (CHR ''P'') = orw 0x00000001 0"
  "ch_set_prop_char (CHR ''O'') = orw 0x00000008 0"
  "ch_set_prop_char (CHR ''0'') = orw 0x00200000 0"
  "ch_set_prop_char (CHR ''1'') = orw 0x00000200 0"
  "ch_set_prop_char (CHR ''2'') = orw 0x00010000 0"
  "ch_set_prop_char (CHR ''3'') = orw 0x00020000 0"
  "ch_set_prop_char (CHR ''4'') = orw 0x00040000 0"
  "ch_set_prop_char (CHR ''5'') = orw 0x00080000 0"
  "ch_set_prop_char (CHR ''6'') = orw 0x00100000 0"
  "ch_set_prop_char (CHR ''7'') = orw 0x00002000 0"
  "ch_set_prop_char (CHR ''8'') = orw 0x00004000 0"
  "ch_set_prop_char (CHR ''9'') = orw 0x00008000 0"
  "ch_set_prop_char (CHR ''m'') = orw 0x00000100 0"
  "ch_set_prop_char (CHR ''t'') = orw 0x00000080 0"
  "ch_set_prop_char (CHR ''M'') = orw 0x00000002 0"
  "ch_set_prop_char (CHR ''H'') = orw 0x00000040 0"
  "ch_set_prop_char (CHR ''q'') = orw 0x00000400 0"
  "ch_set_prop_char (CHR ''Q'') = orw 0x04000000 0"
  "ch_set_prop_char (CHR ''B'') = orw 0x08000000 0"
  "ch_set_prop_char (CHR ''b'') = orw 0x20000000 0"
  "ch_set_prop_char (CHR ''e'') = orw 0x40000000 0"
  "ch_set_prop_char (CHR ''A'') = orw 0x10000000 0"
  "ch_set_prop_char (CHR ''d'') = orw 0x02000000 0"
  "ch_set_prop_char (CHR ''C'') = orw 0x80000000 0"
  "ch_set_prop_char (CHR ''R'') = orw 0 0x00000004"
  "ch_set_prop_char (CHR ''u'') = orw 0 0x00000001"
  "ch_set_prop_char (CHR ''F'') = orw 0 0x00000002"
  "ch_set_prop_char (CHR ''D'') = orw 0 0x00000008"
  "ch_set_prop_char (CHR ''n'') = orw 0 0x00000010"
  "ch_set_prop_char (CHR ''J'') = orw 0x00001000 0"
  "ch_set_prop_char (CHR ''a'') = orw 0x00000010 0"
  "ch_set_prop_char (CHR ''E'') = orw 0 0x00000080"
  "ch_set_prop_char (CHR ''f'') = orw 0 0x00000100"
  "ch_set_prop_char (CHR ''l'') = orw 0x00000800 0"
  "ch_set_prop_char (CHR ''x'') = orw 0 0x00000200"
  "ch_set_prop_char (CHR ''y'') = orw 0 0x00000400"
  "ch_set_prop_char (CHR ''z'') = orw 0 0x00000800"
  "ch_set_prop_char (CHR ''w'') = orw 0 0x00001000"
  "ch_set_prop_char (CHR ''N'') = orw 0 0x01000000"
  "ch_set_prop_char (CHR ''U'') = orw 0 0x80000000"
  "ch_set_prop_char (CHR ''V'') = orw 0 0x40000000"
  "ch_set_prop_char (CHR ''W'') = orw 0 0x20000000"
  "ch_set_prop_char (CHR ''c'') = orw 0 0x10000000"
  "ch_set_prop_char (CHR ''p'') = orw 0x00800000 0"
  "ch_set_prop_char (CHR ''v'') = orw 0 0x02000000"
  "ch_set_prop_char (CHR ''-'') = id"
  by (simp_all add: ch_set_prop_char_def prop_set orw_def fun_eq_iff)

lemma jp_set_letters:
  "jp_set_prop_char (CHR ''P'') = orw 0x00000001 0"
  "jp_set_prop_char (CHR ''U'') = orw 0 0x00400000"
  "jp_set_prop_char (CHR ''Z'') = orw 0 0x00000020"
  "jp_set_prop_char (CHR ''O'') = orw 0x00000008 0"
  "jp_set_prop_char (CHR ''M'') = orw 0x00000002 0"
  "jp_set_prop_char (CHR ''D'') = orw 0x00000100 0"
  "jp_set_prop_char (CHR ''R'') = orw 0x00000040 0"
  "jp_set_prop_char (CHR ''q'') = orw 0x00000400 0"
  "jp_set_prop_char (CHR ''p'') = orw 0x00800000 0"
  "jp_set_prop_char (CHR ''N'') = orw 0x00010000 0"
  "jp_set_prop_char (CHR ''S'') = orw 0x00000200 0"
  "jp_set_prop_char (CHR ''G'') = orw 0x00020000 0"
  "jp_set_prop_char (CHR ''J'') = orw 0x00001000 0"
  "jp_set_prop_char (CHR ''L'') = orw 0x00000800 0"
  "jp_set_prop_char (CHR ''m'') = orw 0 0x00000004"
  "jp_set_prop_char (CHR ''s'') = orw 0 0x00000002"
  "jp_set_prop_char (CHR ''d'') = orw 0x02000000 0"
  "jp_set_prop_char (CHR ''1'') = orw 0x00040000 0"
  "jp_set_prop_char (CHR ''2'') = orw 0x00080000 0"
  "jp_set_prop_char (CHR ''F'') = orw 0x00100000 0"
  "jp_set_prop_char (CHR ''0'') = orw 0x08000000 0"
  "jp_set_prop_char (CHR ''b'') = orw 0x20000000 0"
  "jp_set_prop_char (CHR ''e'') = orw 0x40000000 0"
  "jp_set_prop_char (CHR ''7'') = orw 0x00002000 0"
  "jp_set_prop_char (CHR ''8'') = orw 0x00004000 0"
  "jp_set_prop_char (CHR ''9'') = orw 0 0x00800000"
  "jp_set_prop_char (CHR ''V'') = orw 0x00200000 0"
  "jp_set_prop_char (CHR ''a'') = orw 0x00000010 0"
  "jp_set_prop_char (CHR ''-'') = id"
  by (simp_all add: jp_set_prop_char_def prop_set orw_def fun_eq_iff)

lemma piece_skip:
  assumes "f (CHR ''-'') = id" "f c = id"
  shows "fold f (if P then [CHR ''-'', c] else []) q = q"
  using assms by auto

lemma ch_piece_NW:
  "fold ch_set_prop_char (if P then ''-NW'' else []) q = orw 0 (if P then 0x21000000 else 0) q"
  by (simp add: ch_set_letters)

lemma ch_skip_g: "ch_set_prop_char (CHR ''g'') = id"
  by (simp add: ch_set_prop_char_def fun_eq_iff)

lemma jp_skip: "jp_set_prop_char (CHR ''g'') = id" "jp_set_prop_char (CHR ''K'') = id"
  by (simp_all add: jp_set_prop_char_def fun_eq_iff)

lemma and_or_masks: "(x AND a) OR (x AND b) = x AND (a OR b :: 32 word)"
  by (simp add: bit.conj_disj_distrib)

lemma and_or_masks': "(z OR (x AND a)) OR (x AND b) = z OR (x AND (a OR b :: 32 word))"
  by (simp add: bit.conj_disj_distrib or.assoc)

lemma ch_write_set:
  "ch_set_prop_by_str (ch_write_prop_to_str p) q =
     orw (m_hprop p AND 0xfeffffdb)
         ((if IS_NEWWORD p then 0x21000000 else 0) OR (m_lprop p AND 0xf3001fbf)) q"
  unfolding ch_set_prop_by_str_def ch_write_prop_to_str_def fold_append comp_apply ch_piece_NW
  by (simp only: prop_is piece_h piece_l piece_skip ch_set_letters ch_skip_g single_bits
      orw_orw and_or_masks and_or_masks' or.left_neutral or.right_neutral) simp

lemma jp_write_set:
  "jp_set_prop_by_str (jp_write_prop_to_str p) q =
     orw (m_hprop p AND 0x6abf7f5b) (m_lprop p AND 0x00c00026) q"
  unfolding jp_set_prop_by_str_def jp_write_prop_to_str_def fold_append comp_apply
  by (simp only: prop_is piece_h piece_l piece_skip jp_set_letters jp_skip single_bits
      orw_orw and_or_masks and_or_masks' or.left_neutral or.right_neutral) simp


text \<open>
  C3 Round trip of property strings. Reading back the letters that were written for \<open>p\<close> adds
  to any property \<open>q\<close> exactly the bits of \<open>p\<close> that the dictionary text can express; the
  one exception is a new word, whose \<open>-NW\<close> is read as the two letters of a one-word suffix
  and of a song.
\<close>

theorem prop_string_roundtrip:
  "set_prop_by_str (write_prop_to_str p buffer SCW_WD_CH) q SCW_WD_CH =
     orw (m_hprop p AND 0xfeffffdb)
         ((if IS_NEWWORD p then 0x21000000 else 0) OR (m_lprop p AND 0xf3001fbf)) q \<and>
   set_prop_by_str (write_prop_to_str p buffer SCW_WD_JP) q SCW_WD_JP =
     orw (m_hprop p AND 0x6abf7f5b) (m_lprop p AND 0x00c00026) q"
  by (simp add: set_prop_by_str_def write_prop_to_str_def SCW_WD_CH_def SCW_WD_JP_def
      ch_write_set jp_write_set)

definition ch_letters :: string where "ch_letters = ''SZPO0123456789mtMHqQBbeAdCRuFDnJaEflxyzwNUVWcpv''"
definition jp_letters :: string where "jp_letters = ''PUZOMDRqpNSGJLmsd12F0be789Va''"

lemma ch_no_letter: "c \<notin> set ch_letters \<Longrightarrow> ch_set_prop_char c = id"
  by (auto simp: ch_letters_def ch_set_prop_char_def fun_eq_iff)

lemma jp_no_letter: "c \<notin> set jp_letters \<Longrightarrow> jp_set_prop_char c = id"
  by (auto simp: jp_letters_def jp_set_prop_char_def fun_eq_iff)

lemma ch_distinct: "distinct (map (\<lambda>c. ch_set_prop_char c INIT_PROPERTY) ch_letters)"
  by (simp add: ch_letters_def ch_set_letters orw_def INIT_PROPERTY_def)

lemma jp_distinct: "distinct (map (\<lambda>c. jp_set_prop_char c INIT_PROPERTY) jp_letters)"
  by (simp add: jp_letters_def jp_set_letters orw_def INIT_PROPERTY_def)

lemma inj_on_letters:
  assumes "distinct (map (\<lambda>c. f c INIT_PROPERTY) L)" "\<And>c. c \<notin> set L \<Longrightarrow> f c = id"
  shows "inj_on (\<lambda>c. f c INIT_PROPERTY) {c. f c INIT_PROPERTY \<noteq> INIT_PROPERTY}"
proof (rule inj_on_subset)
  show "inj_on (\<lambda>c. f c INIT_PROPERTY) (set L)" using assms(1) by (simp add: distinct_map)
  show "{c. f c INIT_PROPERTY \<noteq> INIT_PROPERTY} \<subseteq> set L" using assms(2) by force
qed

text \<open>
  The letters of a property string are independent: in both languages two different
  letters that mean something set different bits.
\<close>

theorem prop_letters_distinct:
  "inj_on (\<lambda>c. ch_set_prop_char c INIT_PROPERTY) {c. ch_set_prop_char c INIT_PROPERTY \<noteq> INIT_PROPERTY} \<and>
   inj_on (\<lambda>c. jp_set_prop_char c INIT_PROPERTY) {c. jp_set_prop_char c INIT_PROPERTY \<noteq> INIT_PROPERTY}"
  using inj_on_letters [OF ch_distinct ch_no_letter] inj_on_letters [OF jp_distinct jp_no_letter]
  by (rule conjI)

end
