(* ===== verification/WordDict.thy ===== *)
theory WordDict
  imports Prelude Property Gbk "HOL-Library.Monad_Syntax"
begin

text \<open>
  The state of the segmentation dictionary and the operations on its trie
  (\<open>scwdef.h\<close>, \<open>segdict.cpp\<close>).

  The trie lives in two arrays. \<open>m_dictentry\<close> holds the nodes, each with the word value that
  leads to it, its lemma and the position of its suffix block. \<open>m_seinfo\<close> holds the blocks:
  a block at \<open>p\<close> has its hash size at \<open>p\<close>, the node it belongs to at \<open>p + 1\<close> (\<open>DENTRY_FIRST\<close> for
  the root) and one slot per hash value from \<open>p + 2\<close>. A block that no longer fits its children
  is rebuilt at the end of the array and the old one becomes a hole, which
  \<open>scw_adjust_seinfo\<close> squeezes out.

  An \<open>assert\<close> of the code that fails is the value \<open>None\<close>. A \<open>realloc\<close> is granted up to the
  memory limit \<open>M\<close> (bytes per array), a parameter of every operation that allocates.
\<close>

subsection \<open>Constants and data\<close>

definition DENTRY_NULL :: nat where "DENTRY_NULL = 0xFFFFFFFF"
definition DENTRY_FIRST :: nat where "DENTRY_FIRST = 0xFFFFFFFE"
definition SUFENTRY_NULL :: nat where "SUFENTRY_NULL = 0xFFFFFFFF"
definition LEMMA_NULL :: nat where "LEMMA_NULL = 0xFFFFFFFF"
definition COMMON_NULL :: nat where "COMMON_NULL = 0xFFFFFFFF"
definition DEFAULT_LEMMA_COUNT :: nat where "DEFAULT_LEMMA_COUNT = 1000"
definition DEFAULT_INFO_SIZE :: nat where "DEFAULT_INFO_SIZE = 4000"
definition DEFAULT_DE_SIZE :: nat where "DEFAULT_DE_SIZE = 2000"
definition DEFAULT_WORDBUF_SIZE :: nat where "DEFAULT_WORDBUF_SIZE = 20000"
definition MAX_EXTEND_ENTRY_SIZE :: nat where "MAX_EXTEND_ENTRY_SIZE = 100000"
definition LEMMA_ADD_SIZE :: nat where "LEMMA_ADD_SIZE = 10000"

lemmas null_defs = DENTRY_NULL_def DENTRY_FIRST_def SUFENTRY_NULL_def LEMMA_NULL_def COMMON_NULL_def
lemmas default_sizes = DEFAULT_LEMMA_COUNT_def DEFAULT_INFO_SIZE_def DEFAULT_DE_SIZE_def
  DEFAULT_WORDBUF_SIZE_def

text \<open>
  \<open>m_type\<close>, \<open>m_weight\<close> and \<open>m_length\<close> are bit fields of 3, 21 and 8 bits;
  \<open>m_word_bpos\<close> is the union with \<open>m_phinfo_bpos\<close>.
\<close>

record scw_lemma =
  m_type :: nat
  m_weight :: nat
  m_length :: nat
  m_property :: scw_property
  m_word_bpos :: nat
  m_subphinfo_bpos :: nat
  m_prelm_pos :: nat
  m_utilinfo_pos :: nat

record scw_utilinfo =
  m_ambsuffix_pos :: nat
  m_cnameprob_pos :: nat
  m_fnameprob_pos :: nat

record scw_dictentry =
  m_value :: nat
  m_lemma_pos :: nat
  m_suffix_pos :: nat

text \<open>
  The dictionary; \<open>m_cnameprob_pos\<close> above is the union with \<open>m_jnameprob_pos\<close>. The six
  fields \<open>wd_...\<close> are the dictionary's own \<open>m_dynbuf\<close>, \<open>m_dynb_size\<close> and so on, renamed
  because the result structure has fields of the same names.
\<close>

record scw_worddict =
  m_wordbuf :: "nat buf"
  m_wbsize :: nat
  m_wbpos :: nat
  m_phinfo :: "nat buf"
  m_phisize :: nat
  m_phipos :: nat
  wd_dynbuf :: "nat buf"
  wd_dynb_size :: nat
  wd_dynb_curpos :: nat
  wd_dynphinfo :: "nat buf"
  wd_dynph_size :: nat
  wd_dynph_curpos :: nat
  m_seinfo :: "nat buf"
  m_seisize :: nat
  m_seipos :: nat
  m_dictentry :: "scw_dictentry buf"
  m_desize :: nat
  m_depos :: nat
  m_lemmalist :: "scw_lemma buf"
  m_lmsize :: nat
  m_lmpos :: nat
  m_entrance :: nat
  m_probbuf :: "int buf"
  m_pbsize :: nat
  m_pbpos :: nat
  m_ambinfo :: "nat buf"
  m_ambsize :: nat
  m_ambpos :: nat
  m_utilinfo :: "scw_utilinfo buf"
  m_utilisize :: nat
  m_utilipos :: nat
  m_wdtype :: nat

definition sizeof_worddict :: nat where "sizeof_worddict = 320"
definition sizeof_lemma :: nat where "sizeof_lemma = 28"
definition sizeof_dictentry :: nat where "sizeof_dictentry = 12"
definition sizeof_utilinfo :: nat where "sizeof_utilinfo = 12"

lemmas sizeofs = sizeof_worddict_def sizeof_lemma_def sizeof_dictentry_def sizeof_utilinfo_def

definition zero_lemma :: scw_lemma where
  "zero_lemma = \<lparr>m_type = 0, m_weight = 0, m_length = 0, m_property = INIT_PROPERTY,
     m_word_bpos = 0, m_subphinfo_bpos = 0, m_prelm_pos = 0, m_utilinfo_pos = 0\<rparr>"

definition c_assert :: "bool \<Rightarrow> unit option" where
  "c_assert b = (if b then Some () else None)"

lemma c_assert_simps [simp]: "c_assert True = Some ()" "c_assert False = None"
  by (simp_all add: c_assert_def)

subsection \<open>Suffix blocks\<close>

definition scw_get_hashsize :: "nat buf \<Rightarrow> nat \<Rightarrow> nat" where
  "scw_get_hashsize se suf = se suf"

definition scw_get_backentry :: "nat buf \<Rightarrow> nat \<Rightarrow> nat" where
  "scw_get_backentry se suf = se (suf + 1)"

definition scw_set_hashsize :: "nat buf \<Rightarrow> nat \<Rightarrow> nat \<Rightarrow> nat buf" where
  "scw_set_hashsize se suf hashsize = se(suf := hashsize)"

definition scw_set_backentry :: "nat buf \<Rightarrow> nat \<Rightarrow> nat \<Rightarrow> nat buf" where
  "scw_set_backentry se suf backentrypos = se(suf + 1 := backentrypos)"

definition scw_get_sufentry :: "nat buf \<Rightarrow> nat \<Rightarrow> nat \<Rightarrow> nat option" where
  "scw_get_sufentry se suf pos = do { c_assert (pos < se suf); Some (se (suf + (pos + 2))) }"

definition scw_set_sufentry :: "nat buf \<Rightarrow> nat \<Rightarrow> nat \<Rightarrow> nat \<Rightarrow> nat buf option" where
  "scw_set_sufentry se suf pos sepos =
     do { c_assert (pos < se suf); Some (se(suf + (2 + pos) := sepos)) }"

definition scw_init_sufentry :: "nat buf \<Rightarrow> nat \<Rightarrow> nat \<Rightarrow> nat \<Rightarrow> nat buf" where
  "scw_init_sufentry se suf hashsize backsepos =
     fill (scw_set_backentry (scw_set_hashsize se suf hashsize) suf backsepos)
       (suf + 2) hashsize DENTRY_NULL"

definition scw_get_wdtype :: "scw_worddict \<Rightarrow> nat" where
  "scw_get_wdtype d = m_wdtype d"

definition scw_set_wdtype :: "scw_worddict \<Rightarrow> nat \<Rightarrow> scw_worddict" where
  "scw_set_wdtype d ty = d\<lparr>m_wdtype := ty\<rparr>"

subsection \<open>Creation and the arrays\<close>

definition scw_create_worddict :: "nat \<Rightarrow> scw_worddict option" where
  "scw_create_worddict M =
     (if realloc_ok M 1 sizeof_worddict \<and> realloc_ok M DEFAULT_WORDBUF_SIZE 1 \<and>
         realloc_ok M DEFAULT_INFO_SIZE 4 \<and> realloc_ok M (DEFAULT_INFO_SIZE * 2) 4 \<and>
         realloc_ok M DEFAULT_LEMMA_COUNT sizeof_lemma \<and>
         realloc_ok M DEFAULT_DE_SIZE sizeof_dictentry \<and>
         realloc_ok M DEFAULT_INFO_SIZE sizeof_utilinfo
      then Some \<lparr>
        m_wordbuf = (\<lambda>_. 0), m_wbsize = DEFAULT_WORDBUF_SIZE, m_wbpos = 0,
        m_phinfo = (\<lambda>_. 0), m_phisize = DEFAULT_INFO_SIZE, m_phipos = 0,
        wd_dynbuf = (\<lambda>_. 0), wd_dynb_size = 0, wd_dynb_curpos = 0,
        wd_dynphinfo = (\<lambda>_. 0), wd_dynph_size = 0, wd_dynph_curpos = 0,
        m_seinfo = scw_init_sufentry (\<lambda>_. 0) 0 1 DENTRY_FIRST,
        m_seisize = DEFAULT_INFO_SIZE, m_seipos = 3,
        m_dictentry = (\<lambda>_. \<lparr>m_value = 0, m_lemma_pos = 0, m_suffix_pos = 0\<rparr>),
        m_desize = DEFAULT_DE_SIZE, m_depos = 0,
        m_lemmalist = (\<lambda>_. zero_lemma), m_lmsize = DEFAULT_LEMMA_COUNT, m_lmpos = 0,
        m_entrance = 0,
        m_probbuf = (\<lambda>_. 0), m_pbsize = DEFAULT_INFO_SIZE, m_pbpos = 0,
        m_ambinfo = (\<lambda>_. 0), m_ambsize = DEFAULT_INFO_SIZE, m_ambpos = 0,
        m_utilinfo = (\<lambda>_. \<lparr>m_ambsuffix_pos = 0, m_cnameprob_pos = 0, m_fnameprob_pos = 0\<rparr>),
        m_utilisize = DEFAULT_INFO_SIZE, m_utilipos = 0,
        m_wdtype = 0\<rparr>
      else None)"

text \<open>
  The eight \<open>scw_resize_...\<close> functions: -1 when the new size is too small, 0 when it is the
  old size, 1 when the array was reallocated, -2 when the memory is refused. The first five
  compare with the fill position, the last three with the old size, as the code does.
\<close>

definition resize_code :: "nat \<Rightarrow> nat \<Rightarrow> nat \<Rightarrow> nat \<Rightarrow> nat \<Rightarrow> int" where
  "resize_code M low oldsize newsize sz =
     (if newsize < low then -1 else if newsize = oldsize then 0
      else if realloc_ok M newsize sz then 1 else -2)"

definition scw_resize_wordbuf :: "nat \<Rightarrow> scw_worddict \<Rightarrow> nat \<Rightarrow> int \<times> scw_worddict" where
  "scw_resize_wordbuf M d newsize =
     (let r = resize_code M (m_wbpos d) (m_wbsize d) newsize 1
      in (r, if r = 1 then d\<lparr>m_wbsize := newsize\<rparr> else d))"

definition scw_resize_phinfo :: "nat \<Rightarrow> scw_worddict \<Rightarrow> nat \<Rightarrow> int \<times> scw_worddict" where
  "scw_resize_phinfo M d newsize =
     (let r = resize_code M (m_phipos d) (m_phisize d) newsize 4
      in (r, if r = 1 then d\<lparr>m_phisize := newsize\<rparr> else d))"

definition scw_resize_seinfo :: "nat \<Rightarrow> scw_worddict \<Rightarrow> nat \<Rightarrow> int \<times> scw_worddict" where
  "scw_resize_seinfo M d newsize =
     (let r = resize_code M (m_seipos d) (m_seisize d) newsize 4
      in (r, if r = 1 then d\<lparr>m_seisize := newsize\<rparr> else d))"

definition scw_resize_dentry :: "nat \<Rightarrow> scw_worddict \<Rightarrow> nat \<Rightarrow> int \<times> scw_worddict" where
  "scw_resize_dentry M d newsize =
     (let r = resize_code M (m_depos d) (m_desize d) newsize sizeof_dictentry
      in (r, if r = 1 then d\<lparr>m_desize := newsize\<rparr> else d))"

definition scw_resize_lemma :: "nat \<Rightarrow> scw_worddict \<Rightarrow> nat \<Rightarrow> int \<times> scw_worddict" where
  "scw_resize_lemma M d newsize =
     (let r = resize_code M (m_lmpos d) (m_lmsize d) newsize sizeof_lemma
      in (r, if r = 1 then d\<lparr>m_lmsize := newsize\<rparr> else d))"

definition scw_resize_ambinfo :: "nat \<Rightarrow> scw_worddict \<Rightarrow> nat \<Rightarrow> int \<times> scw_worddict" where
  "scw_resize_ambinfo M d newsize =
     (let r = resize_code M (m_ambsize d) (m_ambsize d) newsize 4
      in (r, if r = 1 then d\<lparr>m_ambsize := newsize\<rparr> else d))"

definition scw_resize_utilinfo :: "nat \<Rightarrow> scw_worddict \<Rightarrow> nat \<Rightarrow> int \<times> scw_worddict" where
  "scw_resize_utilinfo M d newsize =
     (let r = resize_code M (m_utilisize d) (m_utilisize d) newsize sizeof_utilinfo
      in (r, if r = 1 then d\<lparr>m_utilisize := newsize\<rparr> else d))"

definition scw_resize_probbuf :: "nat \<Rightarrow> scw_worddict \<Rightarrow> nat \<Rightarrow> int \<times> scw_worddict" where
  "scw_resize_probbuf M d newsize =
     (let r = resize_code M (m_pbsize d) (m_pbsize d) newsize 4
      in (r, if r = 1 then d\<lparr>m_pbsize := newsize\<rparr> else d))"

lemmas resize_defs = scw_resize_wordbuf_def scw_resize_phinfo_def scw_resize_seinfo_def
  scw_resize_dentry_def scw_resize_lemma_def scw_resize_ambinfo_def scw_resize_utilinfo_def
  scw_resize_probbuf_def resize_code_def Let_def

end
