(* ===== verification/EntryTree.thy ===== *)
theory EntryTree
  imports Prelude "HOL-Library.Monad_Syntax"
begin

text \<open>
  The contract of a prefix tree that is only ever extended: nodes with a partial child map, an
  insertion that adds at most one child, and a label per node. The segmentation dictionary is
  the provider (theory \<open>Trie\<close>); the lemma store (theory \<open>AddLemma\<close>) is the client and uses only
  what is proved here: adding a term node by node changes no label, and setting a label changes
  the lookup of exactly one term.
\<close>

primrec tree_path :: "('k \<Rightarrow> 'v \<Rightarrow> 'k option) \<Rightarrow> 'k \<Rightarrow> 'v list \<Rightarrow> 'k option" where
  "tree_path ch p [] = Some p"
| "tree_path ch p (v # vs) = (case ch p v of None \<Rightarrow> None | Some q \<Rightarrow> tree_path ch q vs)"

lemma tree_path_append:
  "tree_path ch p (us @ vs) = (case tree_path ch p us of None \<Rightarrow> None | Some q \<Rightarrow> tree_path ch q vs)"
  by (induction us arbitrary: p) (auto split: option.splits)

lemma tree_path_snoc:
  "tree_path ch p (us @ [v]) = (case tree_path ch p us of None \<Rightarrow> None | Some q \<Rightarrow> ch q v)"
  by (auto simp: tree_path_append split: option.splits)

text \<open>Adding a term: one insertion per word, each below the node of the previous one.\<close>

primrec add_words :: "('s \<Rightarrow> 'k \<Rightarrow> 'v \<Rightarrow> 'k \<Rightarrow> (int \<times> 's \<times> 'k) option) \<Rightarrow> 's \<Rightarrow> 'k \<Rightarrow> 'v list \<Rightarrow> 'k \<Rightarrow>
    (int \<times> 's \<times> 'k) option" where
  "add_words ins d p [] cur = Some (1, d, cur)"
| "add_words ins d p (v # vs) cur =
     do { (r, d', cur') \<leftarrow> ins d p v cur;
          if r < 0 then Some (-1, d', cur') else add_words ins d' cur' vs cur' }"

locale entry_tree =
  fixes inv :: "'s \<Rightarrow> bool"
    and root :: 'k
    and valid :: "'s \<Rightarrow> 'k \<Rightarrow> bool"
    and child :: "'s \<Rightarrow> 'k \<Rightarrow> 'v \<Rightarrow> 'k option"
    and ins :: "'s \<Rightarrow> 'k \<Rightarrow> 'v \<Rightarrow> 'k \<Rightarrow> (int \<times> 's \<times> 'k) option"
    and label :: "'s \<Rightarrow> 'k \<Rightarrow> 'l"
    and no_label :: 'l
    and rest :: "'s \<Rightarrow> 'r"
  assumes root_valid: "inv d \<Longrightarrow> valid d root"
    and child_valid: "inv d \<Longrightarrow> valid d p \<Longrightarrow> child d p v = Some q \<Longrightarrow> valid d q \<and> q \<noteq> root"
    and child_inj: "inv d \<Longrightarrow> valid d p \<Longrightarrow> valid d p' \<Longrightarrow> child d p v = Some q \<Longrightarrow>
      child d p' v' = Some q \<Longrightarrow> p = p' \<and> v = v'"
    and ins_total: "inv d \<Longrightarrow> valid d p \<Longrightarrow> \<exists>r d' q. ins d p v c = Some (r, d', q) \<and> r \<in> {-1, 0, 1}"
    and ins_inv: "inv d \<Longrightarrow> valid d p \<Longrightarrow> ins d p v c = Some (r, d', q) \<Longrightarrow> inv d' \<and> rest d' = rest d"
    and ins_old: "inv d \<Longrightarrow> valid d p \<Longrightarrow> ins d p v c = Some (r, d', q) \<Longrightarrow> valid d x \<Longrightarrow> x \<noteq> root \<Longrightarrow>
      valid d' x \<and> label d' x = label d x"
    and ins_same: "inv d \<Longrightarrow> valid d p \<Longrightarrow> ins d p v c = Some (r, d', q) \<Longrightarrow> r \<noteq> 1 \<Longrightarrow> valid d x \<Longrightarrow>
      child d' x = child d x"
    and ins_found: "inv d \<Longrightarrow> valid d p \<Longrightarrow> ins d p v c = Some (0, d', q) \<Longrightarrow> child d p v = Some q"
    and ins_new: "inv d \<Longrightarrow> valid d p \<Longrightarrow> ins d p v c = Some (1, d', q) \<Longrightarrow>
      child d p v = None \<and> \<not> valid d q \<and> valid d' q \<and> label d' q = no_label \<and> q \<noteq> root \<and>
      child d' q = (\<lambda>_. None) \<and>
      (\<forall>x. valid d x \<longrightarrow> child d' x = (if x = p then (child d p)(v \<mapsto> q) else child d x))"
begin

abbreviation node :: "'s \<Rightarrow> 'v list \<Rightarrow> 'k option" where
  "node d ws \<equiv> tree_path (child d) root ws"

definition lookup :: "'s \<Rightarrow> 'v list \<Rightarrow> 'l" where
  "lookup d ws = (case node d ws of None \<Rightarrow> no_label | Some q \<Rightarrow> label d q)"

lemma node_valid: "inv d \<Longrightarrow> node d ws = Some q \<Longrightarrow> valid d q \<and> (ws \<noteq> [] \<longrightarrow> q \<noteq> root)"
proof (induction ws arbitrary: q rule: rev_induct)
  case Nil
  then show ?case using root_valid by simp
next
  case (snoc v ws)
  then obtain p where "node d ws = Some p" "child d p v = Some q"
    by (auto simp: tree_path_snoc split: option.splits)
  then show ?case using snoc child_valid by blast
qed

lemma node_inj: "inv d \<Longrightarrow> node d ws = Some q \<Longrightarrow> node d us = Some q \<Longrightarrow> ws = us"
proof (induction ws arbitrary: us q rule: rev_induct)
  case Nil
  then show ?case using node_valid [of d us q] by auto
next
  case (snoc v ws)
  then obtain p where p: "node d ws = Some p" "child d p v = Some q"
    by (auto simp: tree_path_snoc split: option.splits)
  have "q \<noteq> root" using node_valid [OF snoc.prems(1,2)] by simp
  then have "us \<noteq> []" using snoc.prems(3) by auto
  then obtain us' v' where us: "us = us' @ [v']" using rev_exhaust by blast
  then obtain p' where p': "node d us' = Some p'" "child d p' v' = Some q"
    using snoc.prems(3) by (auto simp: tree_path_snoc split: option.splits)
  have "p = p' \<and> v = v'"
    using child_inj [OF snoc.prems(1)] p p' node_valid [OF snoc.prems(1)] by blast
  then show ?case using snoc.IH [OF snoc.prems(1) p(1)] p' us by simp
qed

lemma ins_valid: "inv d \<Longrightarrow> valid d p \<Longrightarrow> ins d p v c = Some (r, d', q) \<Longrightarrow> valid d x \<Longrightarrow> valid d' x"
  using ins_old ins_inv root_valid by (cases "x = root") blast+

lemma ins_node_old:
  assumes I: "inv d" "valid d p" "ins d p v c = Some (r, d', q)"
  shows "node d us = Some x \<Longrightarrow> node d' us = Some x"
proof (induction us arbitrary: x rule: rev_induct)
  case (snoc w us)
  then obtain y where y: "node d us = Some y" "child d y w = Some x"
    by (auto simp: tree_path_snoc split: option.splits)
  have "valid d y" using node_valid [OF I(1) y(1)] by simp
  then have "child d' y w = Some x"
    using y(2) ins_same [OF I] ins_new [OF I(1,2)] I(3) by (cases "r = 1") (auto split: if_splits)
  then show ?case using snoc.IH [OF y(1)] by (simp add: tree_path_snoc)
qed simp

lemma ins_node_back:
  assumes I: "inv d" "valid d p" "ins d p v c = Some (r, d', q)"
  shows "node d' us = Some x \<Longrightarrow> node d us = Some x \<or> (r = 1 \<and> x = q \<and> node d us = None)"
proof (induction us arbitrary: x rule: rev_induct)
  case (snoc w us)
  then obtain y where y: "node d' us = Some y" "child d' y w = Some x"
    by (auto simp: tree_path_snoc split: option.splits)
  show ?case
  proof (cases "r = 1")
    case False
    then have "node d us = Some y" using snoc.IH [OF y(1)] by simp
    then show ?thesis
      using y(2) ins_same [OF I False] node_valid [OF I(1)] by (auto simp: tree_path_snoc)
  next
    case True
    note N = ins_new [OF I(1,2) I(3) [unfolded True]]
    have old: "node d us = Some y" using snoc.IH [OF y(1)] y(2) N by auto
    then have "valid d y" using node_valid [OF I(1)] by blast
    then show ?thesis using y(2) N old True by (auto simp: tree_path_snoc split: if_splits)
  qed
qed simp

lemma ins_lookup:
  assumes I: "inv d" "valid d p" "ins d p v c = Some (r, d', q)" and us: "us \<noteq> []"
  shows "lookup d' us = lookup d us"
proof (cases "node d us")
  case (Some x)
  then show ?thesis
    using ins_node_old [OF I Some] ins_old [OF I] node_valid [OF I(1) Some] us
    by (simp add: lookup_def)
next
  case None
  then show ?thesis
    using ins_node_back [OF I, of us] ins_new [OF I(1,2)] I(3)
    by (cases "node d' us") (auto simp: lookup_def)
qed

lemma ins_node_new:
  assumes I: "inv d" "valid d p" "ins d p v c = Some (r, d', q)" and "r \<ge> 0" "node d us = Some p"
  shows "node d' (us @ [v]) = Some q"
proof -
  have "r = 0 \<or> r = 1" using ins_total [OF I(1,2), of v c] I(3) assms(4) by auto
  then show ?thesis
    using ins_node_old [OF I assms(5)] ins_same [OF I _ I(2)] ins_found [OF I(1,2)]
      ins_new [OF I(1,2)] I
    by (auto simp: tree_path_snoc)
qed

text \<open>Adding a whole term: total, keeps every lookup, and on success makes its node.\<close>

definition added :: "'s \<Rightarrow> 'v list \<Rightarrow> int \<Rightarrow> 's \<Rightarrow> 'k \<Rightarrow> bool" where
  "added d ws r d' q \<longleftrightarrow> inv d' \<and> rest d' = rest d \<and> (r = 1 \<or> r = -1) \<and>
     (\<forall>xs. xs \<noteq> [] \<longrightarrow> lookup d' xs = lookup d xs) \<and>
     (\<forall>xs x. node d xs = Some x \<longrightarrow> node d' xs = Some x) \<and> (r = 1 \<longrightarrow> node d' ws = Some q)"

lemma add_words_ok:
  assumes "inv d" "node d us = Some p" "ws = [] \<longrightarrow> c = p"
  shows "\<exists>r d' q. add_words ins d p ws c = Some (r, d', q) \<and> added d (us @ ws) r d' q"
  using assms
proof (induction ws arbitrary: d us p c)
  case Nil
  then show ?case by (simp add: added_def)
next
  case (Cons w ws)
  have vp: "valid d p" using node_valid Cons.prems by blast
  obtain r1 d1 q1 where I: "ins d p w c = Some (r1, d1, q1)" and r1: "r1 \<in> {-1, 0, 1}"
    using ins_total [OF Cons.prems(1) vp] by blast
  note ins = Cons.prems(1) vp I
  have inv1: "inv d1" "rest d1 = rest d" using ins_inv [OF ins] by simp_all
  show ?case
  proof (cases "r1 < 0")
    case True
    then have "add_words ins d p (w # ws) c = Some (-1, d1, q1)" using I by simp
    then show ?thesis
      using inv1 ins_lookup [OF ins] ins_node_old [OF ins] by (simp add: added_def)
  next
    case False
    have n1: "node d1 (us @ [w]) = Some q1"
      using ins_node_new [OF ins _ Cons.prems(2)] False by simp
    obtain r d' q where A: "add_words ins d1 q1 ws q1 = Some (r, d', q)" "added d1 ((us @ [w]) @ ws) r d' q"
      using Cons.IH [OF inv1(1) n1] by blast
    have "added d (us @ w # ws) r d' q"
      using A(2) inv1 ins_lookup [OF ins] ins_node_old [OF ins] by (simp add: added_def)
    then show ?thesis using I False A(1) by simp
  qed
qed

lemma add_words_root:
  assumes "inv d" "ws \<noteq> []"
  obtains r d' q where "add_words ins d root ws c = Some (r, d', q)" "added d ws r d' q"
  using add_words_ok [OF assms(1), of "[]" root ws c] assms(2) by auto

end

text \<open>A tree whose labels can be set.\<close>

locale labelled_tree = entry_tree +
  fixes set_label :: "'a \<Rightarrow> 'b \<Rightarrow> 'd \<Rightarrow> 'a"
  assumes set_label_inv: "inv d \<Longrightarrow> inv (set_label d q l)"
    and set_label_child: "child (set_label d q l) = child d"
    and set_label_label: "label (set_label d q l) x = (if x = q then l else label d x)"
begin

lemma set_label_lookup:
  assumes "inv d" "node d ws = Some q"
  shows "lookup (set_label d q l) us = (if us = ws then l else lookup d us)"
proof (cases "node d us")
  case None
  then show ?thesis using assms(2) by (auto simp: lookup_def set_label_child)
next
  case (Some x)
  then have "x = q \<longleftrightarrow> us = ws" using assms node_inj [OF assms(1) Some, of ws] by auto
  then show ?thesis using Some by (auto simp: lookup_def set_label_child set_label_label)
qed

text \<open>The main law of the store: adding a term and labelling its node is a map update.\<close>

lemma add_label_lookup:
  assumes "inv d" "ws \<noteq> []" "add_words ins d root ws c = Some (1, d', q)" "us \<noteq> []"
  shows "lookup (set_label d' q l) us = (if us = ws then l else lookup d us)"
proof -
  have "added d ws 1 d' q" using add_words_root [OF assms(1,2), of c] assms(3) by auto
  then show ?thesis using set_label_lookup [of d' ws q l us] assms(4) by (simp add: added_def)
qed

end

end
