(* ===== verification/Trie.thy ===== *)
theory Trie
  imports WordDict EntryTree
begin

text \<open>
  The trie operations of \<open>segdict.cpp\<close>: squeezing the block array
  (\<open>scw_adjust_seinfo\<close>), adding a node under a parent (\<open>scw_insert_dentry\<close>, which rebuilds the
  parent's block with the smallest larger hash size without collisions), and the lookups.
  The invariant \<open>wf_dict\<close> says that the blocks tile the used part of \<open>m_seinfo\<close>, that nodes and
  blocks point to each other, and that every node sits in the slot its value hashes to;
  every operation keeps it, and under it the lookups are those of the abstract child map.
\<close>

subsection \<open>Squeezing the block array\<close>

definition set_suffix_pos :: "scw_dictentry buf \<Rightarrow> nat \<Rightarrow> nat \<Rightarrow> scw_dictentry buf" where
  "set_suffix_pos de e pos = de(e := (de e)\<lparr>m_suffix_pos := pos\<rparr>)"

text \<open>Moving the live block of \<open>curde\<close> from \<open>nextentry\<close> down to \<open>newpos\<close>.\<close>

definition adjust_move :: "scw_worddict \<Rightarrow> nat \<Rightarrow> nat \<Rightarrow> nat \<Rightarrow> nat \<Rightarrow> scw_worddict" where
  "adjust_move d curde hsize nextentry newpos =
     (if nextentry \<noteq> newpos then
        let d1 = d\<lparr>m_seinfo := blit (m_seinfo d) newpos (m_seinfo d) nextentry (hsize + 2)\<rparr>
        in if curde \<noteq> DENTRY_FIRST
           then d1\<lparr>m_dictentry := set_suffix_pos (m_dictentry d1) curde newpos\<rparr>
           else d1\<lparr>m_entrance := newpos\<rparr>
      else d)"

lemma adjust_move_seipos [simp]: "m_seipos (adjust_move d e h nx nw) = m_seipos d"
  by (simp add: adjust_move_def Let_def)

text \<open>The loop returns the code, the dictionary and the final \<open>nextentry\<close> and \<open>newpos\<close>.\<close>

function adjust_loop :: "scw_worddict \<Rightarrow> nat \<Rightarrow> nat \<Rightarrow> int \<times> scw_worddict \<times> nat \<times> nat" where
  "adjust_loop d nextentry newpos =
     (if nextentry < m_seipos d then
        let curde = scw_get_backentry (m_seinfo d) nextentry;
            hsize = scw_get_hashsize (m_seinfo d) nextentry in
        if curde \<noteq> DENTRY_FIRST \<and> curde \<ge> m_depos d then (-1, d, nextentry, newpos)
        else if (curde = DENTRY_FIRST \<and> m_entrance d \<noteq> nextentry) \<or>
                (curde \<noteq> DENTRY_FIRST \<and> m_suffix_pos (m_dictentry d curde) \<noteq> nextentry)
        then adjust_loop d (nextentry + (hsize + 2)) newpos
        else adjust_loop (adjust_move d curde hsize nextentry newpos)
               (nextentry + (hsize + 2)) (newpos + (hsize + 2))
      else (1, d, nextentry, newpos))"
  by pat_completeness auto

termination adjust_loop
  by (relation "measure (\<lambda>(d, nextentry, newpos). m_seipos d - nextentry)") auto

declare adjust_loop.simps [simp del]

definition scw_adjust_seinfo :: "scw_worddict \<Rightarrow> int \<times> scw_worddict" where
  "scw_adjust_seinfo d =
     (let (r, d', nextentry, newpos) = adjust_loop d 0 0 in
      if r < 0 then (-1, d')
      else if m_seipos d' \<noteq> nextentry then (-1, d')
      else (1, d'\<lparr>m_seipos := newpos\<rparr>))"

subsection \<open>Making room for a block\<close>

text \<open>\<open>while(m_seipos + need > m_seisize) scw_resize_seinfo(...)\<close>.\<close>

function grow_seinfo :: "nat \<Rightarrow> scw_worddict \<Rightarrow> nat \<Rightarrow> int \<times> scw_worddict" where
  "grow_seinfo M d need =
     (if m_seipos d + need > m_seisize d then
        let (r, d') = scw_resize_seinfo M d (m_seisize d + MAX_EXTEND_ENTRY_SIZE) in
        if r \<noteq> 1 then (-1, d') else grow_seinfo M d' need
      else (1, d))"
  by pat_completeness auto

termination grow_seinfo
  by (relation "measure (\<lambda>(M, d, need). m_seipos d + need - m_seisize d)")
     (auto simp: scw_resize_seinfo_def resize_code_def Let_def MAX_EXTEND_ENTRY_SIZE_def
           split: if_splits)

declare grow_seinfo.simps [simp del]

definition reserve_seinfo :: "nat \<Rightarrow> scw_worddict \<Rightarrow> nat \<Rightarrow> int \<times> scw_worddict" where
  "reserve_seinfo M d need =
     (let (r, d1) = (if m_seipos d + need > m_seisize d then scw_adjust_seinfo d else (1, d)) in
      if r < 0 then (-1, d1) else grow_seinfo M d1 need)"

subsection \<open>The layout of the block array\<close>

text \<open>\<open>walk se a ps b\<close>: the blocks from \<open>a\<close> to \<open>b\<close> start exactly at the positions \<open>ps\<close>.\<close>

fun walk :: "nat buf \<Rightarrow> nat \<Rightarrow> nat list \<Rightarrow> nat \<Rightarrow> bool" where
  "walk se a [] b \<longleftrightarrow> a = b"
| "walk se a (p # ps) b \<longleftrightarrow> p = a \<and> 0 < se a \<and> walk se (a + (se a + 2)) ps b"

lemma walk_le: "walk se a ps b \<Longrightarrow> a \<le> b"
  by (induction ps arbitrary: a) fastforce+

lemma walk_append: "walk se a (ps @ qs) c \<longleftrightarrow> (\<exists>b. walk se a ps b \<and> walk se b qs c)"
  by (induction ps arbitrary: a) auto

lemma walk_mem:
  "walk se a ps b \<Longrightarrow> p \<in> set ps \<Longrightarrow> a \<le> p \<and> p + (se p + 2) \<le> b \<and> 0 < se p"
proof (induction ps arbitrary: a)
  case (Cons q ps)
  then show ?case using walk_le [of se "a + (se a + 2)" ps b] by fastforce
qed simp

lemma walk_cong:
  "walk se a ps b \<Longrightarrow> (\<And>i. a \<le> i \<Longrightarrow> i < b \<Longrightarrow> se' i = se i) \<Longrightarrow> walk se' a ps b"
proof (induction ps arbitrary: a)
  case (Cons p ps)
  have "a + (se a + 2) \<le> b" using Cons.prems(1) walk_le by auto
  then show ?case using Cons.prems Cons.IH [of "a + (se a + 2)"] by auto
qed simp

definition valid_key :: "scw_worddict \<Rightarrow> nat \<Rightarrow> bool" where
  "valid_key d k \<longleftrightarrow> k = DENTRY_FIRST \<or> k < m_depos d"

definition ptr :: "scw_worddict \<Rightarrow> nat \<Rightarrow> nat" where
  "ptr d k = (if k = DENTRY_FIRST then m_entrance d else m_suffix_pos (m_dictentry d k))"

definition slots :: "scw_worddict \<Rightarrow> nat \<Rightarrow> nat list" where
  "slots d k = (if ptr d k = SUFENTRY_NULL then []
                else get_list (m_seinfo d) (ptr d k + 2) (m_seinfo d (ptr d k)))"

lemma slots_copy:
  assumes "ptr d k \<noteq> SUFENTRY_NULL" "ptr d' k' \<noteq> SUFENTRY_NULL"
    and "\<And>i. i < m_seinfo d (ptr d k) + 2 \<Longrightarrow> m_seinfo d' (ptr d' k' + i) = m_seinfo d (ptr d k + i)"
  shows "slots d' k' = slots d k"
proof (rule nth_equalityI)
  have h: "m_seinfo d' (ptr d' k') = m_seinfo d (ptr d k)" using assms(3) [of 0] by simp
  then show "length (slots d' k') = length (slots d k)" using assms(1,2) by (simp add: slots_def)
  fix i assume "i < length (slots d' k')"
  then show "slots d' k' ! i = slots d k ! i"
    using assms(1,2) assms(3) [of "2 + i"] h by (simp add: slots_def add.assoc)
qed

definition same_nodes :: "scw_worddict \<Rightarrow> scw_worddict \<Rightarrow> bool" where
  "same_nodes d d' \<longleftrightarrow> m_depos d' = m_depos d \<and> (\<forall>k. valid_key d k \<longrightarrow> slots d' k = slots d k) \<and>
     (\<forall>e. m_value (m_dictentry d' e) = m_value (m_dictentry d e) \<and>
          m_lemma_pos (m_dictentry d' e) = m_lemma_pos (m_dictentry d e))"

text \<open>The operations of the trie touch nothing else of the dictionary.\<close>

definition trie_frame :: "scw_worddict \<Rightarrow> scw_worddict \<Rightarrow> bool" where
  "trie_frame d d' \<longleftrightarrow>
     d' = d\<lparr>m_seinfo := m_seinfo d', m_seisize := m_seisize d', m_seipos := m_seipos d',
            m_dictentry := m_dictentry d', m_desize := m_desize d', m_depos := m_depos d',
            m_entrance := m_entrance d'\<rparr>"

lemma trie_frame_refl [simp]: "trie_frame d d"
  by (simp add: trie_frame_def)

lemma trie_frame_trans: "trie_frame d d' \<Longrightarrow> trie_frame d' d'' \<Longrightarrow> trie_frame d d''"
  unfolding trie_frame_def by (cases d; cases d'; cases d'') simp

lemma same_nodes_refl [simp]: "same_nodes d d"
  by (simp add: same_nodes_def)

lemma same_nodes_trans: "same_nodes d d' \<Longrightarrow> same_nodes d' d'' \<Longrightarrow> same_nodes d d''"
  by (simp add: same_nodes_def valid_key_def)

text \<open>The layout, with a hole \<open>[nw, nx)\<close>: the loop invariant of the squeeze.\<close>

definition lay_blocks :: "scw_worddict \<Rightarrow> nat set \<Rightarrow> bool" where
  "lay_blocks d B \<longleftrightarrow>
     (\<forall>p\<in>B. valid_key d (m_seinfo d (p + 1))) \<and>
     (\<forall>k. valid_key d k \<longrightarrow>
        (ptr d k = SUFENTRY_NULL \<and> k \<noteq> DENTRY_FIRST) \<or>
        (ptr d k \<in> B \<and> m_seinfo d (ptr d k + 1) = k)) \<and>
     m_depos d < DENTRY_FIRST \<and> m_seipos d < SUFENTRY_NULL"

lemma lay_blocks_cong:
  "lay_blocks d B \<Longrightarrow> m_seinfo d' = m_seinfo d \<Longrightarrow> m_dictentry d' = m_dictentry d \<Longrightarrow>
   m_entrance d' = m_entrance d \<Longrightarrow> m_depos d' = m_depos d \<Longrightarrow> m_seipos d' < SUFENTRY_NULL \<Longrightarrow>
   lay_blocks d' B"
  unfolding lay_blocks_def valid_key_def ptr_def by presburger

definition lay_hole :: "scw_worddict \<Rightarrow> nat \<Rightarrow> nat \<Rightarrow> bool" where
  "lay_hole d nx nw \<longleftrightarrow>
     (\<exists>ps qs. walk (m_seinfo d) 0 ps nw \<and> walk (m_seinfo d) nx qs (m_seipos d) \<and> nw \<le> nx \<and>
        lay_blocks d (set ps \<union> set qs))"

lemma lay_holeI:
  "walk (m_seinfo d) 0 ps nw \<Longrightarrow> walk (m_seinfo d) nx qs (m_seipos d) \<Longrightarrow> nw \<le> nx \<Longrightarrow>
   lay_blocks d (set ps \<union> set qs) \<Longrightarrow> lay_hole d nx nw"
  unfolding lay_hole_def by blast

definition wf_lay :: "scw_worddict \<Rightarrow> bool" where
  "wf_lay d \<longleftrightarrow> (\<exists>ps. walk (m_seinfo d) 0 ps (m_seipos d) \<and> lay_blocks d (set ps))"

lemma wf_lay_hole: "wf_lay d \<Longrightarrow> lay_hole d 0 0"
  unfolding wf_lay_def lay_hole_def by (metis Un_empty_left empty_set le_refl walk.simps(1))

lemma lay_dead:
  assumes "lay_hole d nx nw" "nx < m_seipos d"
    and "m_seinfo d (nx + 1) = k" "ptr d k \<noteq> nx"
  shows "lay_hole d (nx + (m_seinfo d nx + 2)) nw"
proof -
  from assms(1) obtain ps qs where w: "walk (m_seinfo d) 0 ps nw"
      "walk (m_seinfo d) nx qs (m_seipos d)" "nw \<le> nx" "lay_blocks d (set ps \<union> set qs)"
    unfolding lay_hole_def by blast
  with assms(2) obtain qs' where qs: "qs = nx # qs'" by (cases qs) auto
  have "lay_blocks d (set ps \<union> set qs')"
    using w(4) assms(3,4) unfolding lay_blocks_def qs by auto
  then show ?thesis
    unfolding lay_hole_def using w qs by (intro exI [of _ ps] exI [of _ qs']) auto
qed

lemma adjust_move_blit:
  fixes h :: nat
  assumes "nw < nx" "valid_key d k" "m_depos d < DENTRY_FIRST"
  defines "d' \<equiv> adjust_move d k h nx nw"
  shows "m_seinfo d' = blit (m_seinfo d) nw (m_seinfo d) nx (h + 2)"
    and "valid_key d j \<Longrightarrow> ptr d' j = (if j = k then nw else ptr d j)"
    and "m_value (m_dictentry d' e) = m_value (m_dictentry d e)"
    and "m_lemma_pos (m_dictentry d' e) = m_lemma_pos (m_dictentry d e)"
    and "m_depos d' = m_depos d" "m_seipos d' = m_seipos d"
  using assms
  by (auto simp: adjust_move_def Let_def ptr_def set_suffix_pos_def valid_key_def)

lemma adjust_move_frame: "trie_frame d (adjust_move d k h nx nw)"
  by (simp add: trie_frame_def adjust_move_def Let_def)

lemma lay_live:
  assumes L: "lay_hole d nx nw" and nx: "nx < m_seipos d"
    and k: "m_seinfo d (nx + 1) = k" and p: "ptr d k = nx" and h: "m_seinfo d nx = h"
  defines "d' \<equiv> adjust_move d k h nx nw"
  shows "lay_hole d' (nx + (h + 2)) (nw + (h + 2)) \<and> same_nodes d d'"
proof -
  let ?se = "m_seinfo d"
  from L obtain ps qs where w: "walk ?se 0 ps nw" "walk ?se nx qs (m_seipos d)" "nw \<le> nx"
      and B: "lay_blocks d (set ps \<union> set qs)"
    unfolding lay_hole_def by blast
  with nx obtain qs' where qs: "qs = nx # qs'" by (cases qs) auto
  have h0: "0 < h" and w': "walk ?se (nx + (h + 2)) qs' (m_seipos d)"
    using w(2) h unfolding qs by auto
  have vk: "valid_key d k" and dF: "m_depos d < DENTRY_FIRST" and sN: "m_seipos d < SUFENTRY_NULL"
    using B k unfolding lay_blocks_def qs by auto
  show ?thesis
  proof (cases "nw = nx")
    case True
    then have [simp]: "d' = d" by (simp add: d'_def adjust_move_def)
    have "walk ?se 0 (ps @ [nx]) (nx + (h + 2))"
      using w(1) True h h0 by (auto simp: walk_append)
    then show ?thesis
      using lay_holeI [of d "ps @ [nx]" "nx + (h + 2)" "nx + (h + 2)" qs'] w' B True
      unfolding qs by simp
  next
    case False
    with w(3) have lt: "nw < nx" by simp
    note mv = adjust_move_blit [OF lt vk dF, where h = h, folded d'_def]
    let ?se' = "m_seinfo d'"
    have out: "?se' i = ?se i" if "i < nw \<or> nx + (h + 2) \<le> i" for i
      unfolding mv(1) using that lt by (intro blit_out) auto
    have inn: "?se' (nw + j) = ?se (nx + j)" if "j < h + 2" for j
      unfolding mv(1) using that by (subst blit_in) auto
    have keep: "p \<in> set ps \<or> p \<in> set qs' \<Longrightarrow> i < ?se p + 2 \<Longrightarrow> ?se' (p + i) = ?se (p + i)" for p i
      using walk_mem [OF w(1), of p] walk_mem [OF w', of p] by (intro out) auto
    have other: "ptr d j = SUFENTRY_NULL \<and> j \<noteq> DENTRY_FIRST \<or>
        ptr d j \<in> set ps \<union> set qs' \<and> ?se (ptr d j + 1) = j" if "valid_key d j" "j \<noteq> k" for j
      using B that k unfolding lay_blocks_def qs by auto
    have nw0: "?se' nw = h" "?se' (nw + 1) = k"
      using inn [of 0] inn [of 1] h k h0 by simp_all
    have keep0: "p \<in> set ps \<or> p \<in> set qs' \<Longrightarrow> ?se' p = ?se p \<and> ?se' (p + 1) = ?se (p + 1)" for p
      using keep [of p 0] keep [of p 1] by simp
    have W1: "walk ?se' 0 (ps @ [nw]) (nw + (h + 2))"
      using walk_cong [OF w(1), of ?se'] out nw0 h0 by (auto simp: walk_append)
    have W2: "walk ?se' (nx + (h + 2)) qs' (m_seipos d')"
      using walk_cong [OF w', of ?se'] out mv(6) by simp
    have vk': "valid_key d' = valid_key d" by (simp add: valid_key_def fun_eq_iff mv(5))
    have "lay_blocks d' (set (ps @ [nw]) \<union> set qs')"
      unfolding lay_blocks_def vk'
    proof (intro conjI ballI allI impI)
      fix p assume "p \<in> set (ps @ [nw]) \<union> set qs'"
      then show "valid_key d (?se' (p + 1))"
        using B nw0 vk keep0 [of p] unfolding lay_blocks_def qs by auto
    next
      fix j assume j: "valid_key d j"
      show "ptr d' j = SUFENTRY_NULL \<and> j \<noteq> DENTRY_FIRST \<or>
          ptr d' j \<in> set (ps @ [nw]) \<union> set qs' \<and> ?se' (ptr d' j + 1) = j"
        using other [OF j] nw0 keep0 by (auto simp: mv(2) [OF j])
    qed (use dF sN mv(5,6) in auto)
    then have "lay_hole d' (nx + (h + 2)) (nw + (h + 2))"
      using lay_holeI [OF W1 W2] lt by simp
    moreover have "slots d' j = slots d j" if j: "valid_key d j" for j
    proof (cases "j = k")
      case True
      have "nw \<noteq> SUFENTRY_NULL" "nx \<noteq> SUFENTRY_NULL" using lt nx sN by auto
      then show ?thesis
        using mv(2) [OF j] True p h inn by (intro slots_copy) auto
    next
      case False
      show ?thesis
      proof (cases "ptr d j = SUFENTRY_NULL")
        case True
        then show ?thesis using False by (simp add: slots_def mv(2) [OF j])
      next
        case nonnull: False
        then show ?thesis
          using mv(2) [OF j] other [OF j False] keep False by (intro slots_copy) auto
      qed
    qed
    ultimately show ?thesis by (simp add: same_nodes_def mv)
  qed
qed

text \<open>
  The squeeze on a well-formed layout: it never reports an inconsistency, it keeps every child,
  and it fills the array from the front.
\<close>

lemma adjust_loop_lay:
  "lay_hole d nx nw \<Longrightarrow> nx \<le> m_seipos d \<Longrightarrow>
   \<exists>d' nw'. adjust_loop d nx nw = (1, d', m_seipos d, nw') \<and> lay_hole d' (m_seipos d) nw' \<and>
     same_nodes d d' \<and> trie_frame d d' \<and> m_seipos d' = m_seipos d \<and>
     m_seisize d' = m_seisize d \<and> m_desize d' = m_desize d"
proof (induction d nx nw rule: adjust_loop.induct)
  case (1 d nx nw)
  show ?case
  proof (cases "nx < m_seipos d")
    case False
    then show ?thesis using "1.prems" by (subst adjust_loop.simps) auto
  next
    case True
    let ?k = "m_seinfo d (nx + 1)" and ?h = "m_seinfo d nx"
    from "1.prems"(1) obtain ps qs where w: "walk (m_seinfo d) nx qs (m_seipos d)"
        and B: "lay_blocks d (set ps \<union> set qs)"
      unfolding lay_hole_def by blast
    with True obtain qs' where qs: "qs = nx # qs'" by (cases qs) auto
    have vk: "valid_key d ?k" using B unfolding lay_blocks_def qs by auto
    have nF: "\<not> (?k \<noteq> DENTRY_FIRST \<and> ?k \<ge> m_depos d)" using vk by (auto simp: valid_key_def)
    have le: "nx + (?h + 2) \<le> m_seipos d" using w walk_le unfolding qs by auto
    have dead_iff: "(?k = DENTRY_FIRST \<and> m_entrance d \<noteq> nx) \<or>
        (?k \<noteq> DENTRY_FIRST \<and> m_suffix_pos (m_dictentry d ?k) \<noteq> nx) \<longleftrightarrow> ptr d ?k \<noteq> nx"
      by (auto simp: ptr_def)
    show ?thesis
    proof (cases "ptr d ?k = nx")
      case dead: False
      have "adjust_loop d nx nw = adjust_loop d (nx + (?h + 2)) nw"
        using True nF dead dead_iff
        by (subst adjust_loop.simps) (auto simp: Let_def scw_get_backentry_def scw_get_hashsize_def)
      then show ?thesis
        using "1.IH"(1) [OF True refl refl _ _ _ ] lay_dead [OF "1.prems"(1) True refl dead] le nF dead
          dead_iff
        by (simp add: scw_get_backentry_def scw_get_hashsize_def)
    next
      case live: True
      let ?d1 = "adjust_move d ?k ?h nx nw"
      have eq: "adjust_loop d nx nw = adjust_loop ?d1 (nx + (?h + 2)) (nw + (?h + 2))"
        using True nF live dead_iff
        by (subst adjust_loop.simps) (auto simp: Let_def scw_get_backentry_def scw_get_hashsize_def)
      have d1: "m_seipos ?d1 = m_seipos d" "m_seisize ?d1 = m_seisize d" "m_desize ?d1 = m_desize d"
        by (simp_all add: adjust_move_def Let_def)
      note L = lay_live [OF "1.prems"(1) True refl live refl]
      obtain d' nw' where "adjust_loop ?d1 (nx + (?h + 2)) (nw + (?h + 2)) = (1, d', m_seipos d, nw')"
          "lay_hole d' (m_seipos d) nw'" "same_nodes ?d1 d'" "trie_frame ?d1 d'"
          "m_seipos d' = m_seipos d" "m_seisize d' = m_seisize d" "m_desize d' = m_desize d"
        using "1.IH"(2) [OF True refl refl] L le nF live dead_iff d1
        by (auto simp: scw_get_backentry_def scw_get_hashsize_def)
      then show ?thesis
        using eq same_nodes_trans [OF conjunct2 [OF L]] trie_frame_trans [OF adjust_move_frame]
        by fastforce
    qed
  qed
qed

lemma scw_adjust_seinfo_lay:
  assumes "wf_lay d"
  obtains d' where "scw_adjust_seinfo d = (1, d')" "wf_lay d'" "same_nodes d d'" "trie_frame d d'"
    "m_seipos d' \<le> m_seipos d" "m_seisize d' = m_seisize d" "m_desize d' = m_desize d"
proof -
  obtain d1 nw' where l: "adjust_loop d 0 0 = (1, d1, m_seipos d, nw')"
      and L: "lay_hole d1 (m_seipos d) nw'" and S: "same_nodes d d1" "trie_frame d d1"
      and eq: "m_seipos d1 = m_seipos d" "m_seisize d1 = m_seisize d" "m_desize d1 = m_desize d"
    using adjust_loop_lay [OF wf_lay_hole [OF assms]] by auto
  let ?d' = "d1\<lparr>m_seipos := nw'\<rparr>"
  obtain ps qs where w: "walk (m_seinfo d1) 0 ps nw'" "walk (m_seinfo d1) (m_seipos d) qs (m_seipos d)"
      "nw' \<le> m_seipos d" "lay_blocks d1 (set ps \<union> set qs)"
    using L eq(1) unfolding lay_hole_def by auto
  have "qs = []"
    using walk_mem [OF w(2)] by (cases qs) fastforce+
  have "lay_blocks ?d' (set ps)"
  proof (rule lay_blocks_cong)
    show "lay_blocks d1 (set ps)" using w(4) \<open>qs = []\<close> by simp
    then have "m_seipos d1 < SUFENTRY_NULL" unfolding lay_blocks_def by blast
    then show "m_seipos ?d' < SUFENTRY_NULL" using w(3) eq(1) by simp
  qed simp_all
  then have "wf_lay ?d'"
    using w(1) unfolding wf_lay_def by auto
  moreover have "slots ?d' = slots d1" by (simp add: slots_def ptr_def fun_eq_iff)
  with S(1) have "same_nodes d ?d'" by (simp add: same_nodes_def)
  moreover have "trie_frame d ?d'"
    using S(2) by (rule trie_frame_trans) (simp add: trie_frame_def)
  ultimately show ?thesis
    using that [of ?d'] l eq w(3) by (simp add: scw_adjust_seinfo_def)
qed

subsection \<open>Inserting a node\<close>

text \<open>
  The entry of the parent gets a first block of hash size 1 if it has none; the code is -1 when
  there is no room for it.
\<close>

definition first_block :: "nat \<Rightarrow> scw_worddict \<Rightarrow> nat \<Rightarrow> (int \<times> scw_worddict) option" where
  "first_block M d lastpos =
     (if ptr d lastpos = SUFENTRY_NULL then
        (let (r, d1) = reserve_seinfo M d 3 in
         if r < 0 then Some (-1, d1)
         else do {
           c_assert (m_seipos d1 + 3 \<le> m_seisize d1);
           c_assert (lastpos \<noteq> DENTRY_FIRST);
           Some (1, d1\<lparr>m_dictentry := set_suffix_pos (m_dictentry d1) lastpos (m_seipos d1),
                      m_seinfo := scw_init_sufentry (m_seinfo d1) (m_seipos d1) 1 lastpos,
                      m_seipos := m_seipos d1 + 3\<rparr>) })
      else Some (1, d))"

text \<open>
  Copying the children found in the slots \<open>is\<close> of the block at \<open>sufpos\<close> into the fresh block
  at \<open>seipos\<close>; the flag says that two of them collided.
\<close>

fun rehash_slots :: "scw_dictentry buf \<Rightarrow> nat \<Rightarrow> nat \<Rightarrow> nat \<Rightarrow> nat list \<Rightarrow> nat buf \<Rightarrow>
    (nat buf \<times> bool) option" where
  "rehash_slots de sufpos seipos newhash [] se = Some (se, False)"
| "rehash_slots de sufpos seipos newhash (i # is) se = do {
     others \<leftarrow> scw_get_sufentry se sufpos i;
     if others \<noteq> DENTRY_NULL then do {
       x \<leftarrow> scw_get_sufentry se seipos (m_value (de others) mod newhash);
       if x = DENTRY_NULL then do {
         se' \<leftarrow> scw_set_sufentry se seipos (m_value (de others) mod newhash) others;
         rehash_slots de sufpos seipos newhash is se' }
       else Some (se, True) }
     else rehash_slots de sufpos seipos newhash is se }"

definition place_entry :: "scw_dictentry buf \<Rightarrow> nat \<Rightarrow> nat \<Rightarrow> nat \<Rightarrow> nat buf \<Rightarrow> (nat buf \<times> bool) option" where
  "place_entry de seipos newhash curdepos se = do {
     x \<leftarrow> scw_get_sufentry se seipos (m_value (de curdepos) mod newhash);
     if x = DENTRY_NULL then do {
       se' \<leftarrow> scw_set_sufentry se seipos (m_value (de curdepos) mod newhash) curdepos;
       Some (se', False) }
     else Some (se, True) }"

definition link_block :: "scw_worddict \<Rightarrow> nat \<Rightarrow> nat \<Rightarrow> scw_worddict" where
  "link_block d lastpos newhash =
     (if lastpos \<noteq> DENTRY_FIRST
      then d\<lparr>m_dictentry := set_suffix_pos (m_dictentry d) lastpos (m_seipos d),
             m_seipos := m_seipos d + (newhash + 2)\<rparr>
      else d\<lparr>m_entrance := m_seipos d, m_seipos := m_seipos d + (newhash + 2)\<rparr>)"

text \<open>One round of the search for a hash size: 1 placed, 0 collision, -1 out of memory.\<close>

definition try_hash :: "nat \<Rightarrow> scw_worddict \<Rightarrow> nat \<Rightarrow> nat \<Rightarrow> nat \<Rightarrow> nat \<Rightarrow> (int \<times> scw_worddict) option" where
  "try_hash M d lastpos hsize curdepos newhash =
     (let (r, d1) = reserve_seinfo M d (newhash + 2) in
      if r < 0 then Some (-1, d1)
      else do {
        c_assert (m_seipos d1 + (newhash + 2) \<le> m_seisize d1);
        (se1, conflict) \<leftarrow> rehash_slots (m_dictentry d1) (ptr d1 lastpos) (m_seipos d1) newhash [0..<hsize]
          (scw_init_sufentry (m_seinfo d1) (m_seipos d1) newhash lastpos);
        (se2, conflict2) \<leftarrow> (if conflict then Some (se1, True)
          else place_entry (m_dictentry d1) (m_seipos d1) newhash curdepos se1);
        if conflict2 then Some (0, d1\<lparr>m_seinfo := se2\<rparr>)
        else Some (1, link_block (d1\<lparr>m_seinfo := se2\<rparr>) lastpos newhash) })"

lemma adjust_loop_seisize: "m_seisize (fst (snd (adjust_loop d nx nw))) = m_seisize d"
proof (induction d nx nw rule: adjust_loop.induct)
  case (1 d nx nw)
  then show ?case
    by (subst adjust_loop.simps) (auto simp: Let_def adjust_move_def)
qed

lemma scw_adjust_seisize: "m_seisize (snd (scw_adjust_seinfo d)) = m_seisize d"
  using adjust_loop_seisize [of d 0 0] by (auto simp: scw_adjust_seinfo_def split: prod.split)

lemma scw_adjust_code: "fst (scw_adjust_seinfo d) \<in> {1, -1}"
  by (auto simp: scw_adjust_seinfo_def split: prod.split)

lemma grow_seinfo_result:
  "case grow_seinfo M d need of (r, d') \<Rightarrow>
     (r = 1 \<and> m_seipos d + need \<le> m_seisize d' \<or> r = -1) \<and>
     m_seisize d' \<le> max (m_seisize d) M \<and> d' = d\<lparr>m_seisize := m_seisize d'\<rparr>"
proof (induction M d need rule: grow_seinfo.induct)
  case (1 M d need)
  let ?n = "m_seisize d + MAX_EXTEND_ENTRY_SIZE"
  show ?case
  proof (cases "m_seipos d + need > m_seisize d")
    case False
    then show ?thesis by (subst grow_seinfo.simps) auto
  next
    case True
    show ?thesis
    proof (cases "fst (scw_resize_seinfo M d ?n) = 1")
      case False
      then have "grow_seinfo M d need = (-1, d)"
        using True by (subst grow_seinfo.simps)
          (auto simp: scw_resize_seinfo_def Let_def split: if_splits)
      then show ?thesis by simp
    next
      case ok: True
      let ?d1 = "d\<lparr>m_seisize := ?n\<rparr>"
      have rs: "scw_resize_seinfo M d ?n = (1, ?d1)" and le: "?n \<le> M"
        using ok by (auto simp: scw_resize_seinfo_def resize_code_def realloc_ok_def Let_def
            split: if_splits)
      have "grow_seinfo M d need = grow_seinfo M ?d1 need"
        using True rs by (subst grow_seinfo.simps) simp
      then show ?thesis
        using "1.IH" [OF True, of "(1, ?d1)" 1 ?d1] rs le by (auto split: prod.split_asm)
    qed
  qed
qed

lemma reserve_seinfo_result:
  "case reserve_seinfo M d need of (r, d') \<Rightarrow>
     (r = 1 \<and> m_seipos d' + need \<le> m_seisize d' \<or> r = -1) \<and> m_seisize d' \<le> max (m_seisize d) M"
proof -
  obtain r1 d1 where 1: "(if m_seipos d + need > m_seisize d then scw_adjust_seinfo d else (1, d)) = (r1, d1)"
    by fastforce
  have s: "m_seisize d1 = m_seisize d" "r1 \<in> {1, -1}"
    using 1 scw_adjust_seisize [of d] scw_adjust_code [of d] by (auto split: if_splits)
  obtain r2 d2 where 2: "grow_seinfo M d1 need = (r2, d2)" by fastforce
  have g: "r2 = 1 \<and> m_seipos d1 + need \<le> m_seisize d2 \<or> r2 = -1"
      "m_seisize d2 \<le> max (m_seisize d1) M" "d2 = d1\<lparr>m_seisize := m_seisize d2\<rparr>"
    using grow_seinfo_result [where M = M and d = d1 and need = need] 2 by auto
  have "m_seipos d2 = m_seipos d1" by (subst g(3)) simp
  then show ?thesis
    using 1 2 s g(1,2) unfolding reserve_seinfo_def 1 by auto
qed

lemma try_hash_conflict:
  "try_hash M d lastpos hsize curdepos newhash = Some (0, d') \<Longrightarrow>
   newhash + 2 \<le> m_seisize d' \<and> m_seisize d' \<le> max (m_seisize d) M"
  using reserve_seinfo_result [where M = M and d = d and need = "newhash + 2"]
  by (auto simp: try_hash_def c_assert_def split: prod.split_asm if_splits Option.bind_splits)

function newhash_loop :: "nat \<Rightarrow> scw_worddict \<Rightarrow> nat \<Rightarrow> nat \<Rightarrow> nat \<Rightarrow> nat \<Rightarrow> (int \<times> scw_worddict) option" where
  "newhash_loop M d lastpos hsize curdepos newhash =
     (case try_hash M d lastpos hsize curdepos newhash of
        None \<Rightarrow> None
      | Some (r, d') \<Rightarrow>
          if r = 0 then newhash_loop M d' lastpos hsize curdepos (newhash + 1) else Some (r, d'))"
  by pat_completeness auto

termination newhash_loop
proof (relation "measure (\<lambda>(M, d, lastpos, hsize, curdepos, newhash). max (m_seisize d) M - newhash)")
  fix M d lastpos hsize curdepos newhash x r d'
  assume "try_hash M d lastpos hsize curdepos newhash = Some x" "(r, d') = x" "r = 0"
  then have "newhash + 2 \<le> m_seisize d' \<and> m_seisize d' \<le> max (m_seisize d) M"
    by (intro try_hash_conflict) auto
  then show "((M, d', lastpos, hsize, curdepos, newhash + 1), (M, d, lastpos, hsize, curdepos, newhash))
      \<in> measure (\<lambda>(M, d, lastpos, hsize, curdepos, newhash). max (m_seisize d) M - newhash)"
    by (auto simp: max_def)
qed simp

declare newhash_loop.simps [simp del]

definition new_dentry :: "scw_worddict \<Rightarrow> nat \<Rightarrow> scw_worddict" where
  "new_dentry d v =
     d\<lparr>m_depos := m_depos d + 1,
       m_dictentry := (m_dictentry d)(m_depos d :=
         \<lparr>m_value = v, m_lemma_pos = LEMMA_NULL, m_suffix_pos = SUFENTRY_NULL\<rparr>)\<rparr>"

text \<open>The new node \<open>curdepos\<close> goes into its slot, or into a rebuilt block if the slot is taken.\<close>

definition link_new :: "nat \<Rightarrow> scw_worddict \<Rightarrow> nat \<Rightarrow> nat \<Rightarrow> nat \<Rightarrow> (int \<times> scw_worddict) option" where
  "link_new M d lastpos tmpdepos curdepos =
     (let sufpos = ptr d lastpos;
          hsize = scw_get_hashsize (m_seinfo d) sufpos in
      if tmpdepos = DENTRY_NULL then do {
        se \<leftarrow> scw_set_sufentry (m_seinfo d) sufpos (m_value (m_dictentry d curdepos) mod hsize) curdepos;
        Some (1, d\<lparr>m_seinfo := se\<rparr>) }
      else newhash_loop M d lastpos hsize curdepos (hsize + 1))"

definition create_dentry :: "nat \<Rightarrow> scw_worddict \<Rightarrow> nat \<Rightarrow> nat \<Rightarrow> nat \<Rightarrow> nat \<Rightarrow>
    (int \<times> scw_worddict \<times> nat) option" where
  "create_dentry M d lastpos v tmpdepos curpos =
     (let (r, d2) = (if m_depos d = m_desize d
                     then scw_resize_dentry M d (m_desize d + MAX_EXTEND_ENTRY_SIZE)
                     else (1, d)) in
      if r \<noteq> 1 then Some (-1, d2, curpos)
      else do {
        c_assert (m_depos d2 < m_desize d2);
        (r', d4) \<leftarrow> link_new M (new_dentry d2 v) lastpos tmpdepos (m_depos d2);
        Some (r', d4, if r' = 1 then m_depos d2 else curpos) })"

text \<open>The result is the code, the dictionary and the output parameter \<open>curpos\<close>.\<close>

definition scw_insert_dentry :: "nat \<Rightarrow> scw_worddict \<Rightarrow> nat \<Rightarrow> nat \<Rightarrow> nat \<Rightarrow>
    (int \<times> scw_worddict \<times> nat) option" where
  "scw_insert_dentry M d lastpos v curpos =
     (if lastpos \<noteq> DENTRY_FIRST \<and> lastpos \<ge> m_depos d then Some (-1, d, curpos)
      else do {
        (r, d1) \<leftarrow> first_block M d lastpos;
        if r < 0 then Some (-1, d1, curpos)
        else do {
          c_assert (ptr d1 lastpos \<noteq> SUFENTRY_NULL);
          let hsize = scw_get_hashsize (m_seinfo d1) (ptr d1 lastpos);
          c_assert (hsize > 0);
          tmpdepos \<leftarrow> scw_get_sufentry (m_seinfo d1) (ptr d1 lastpos) (v mod hsize);
          if tmpdepos \<noteq> DENTRY_NULL \<and> m_value (m_dictentry d1 tmpdepos) = v then Some (0, d1, tmpdepos)
          else create_dentry M d1 lastpos v tmpdepos curpos } })"

subsection \<open>Lookups\<close>

definition scw_seek_entry :: "scw_worddict \<Rightarrow> nat \<Rightarrow> nat \<Rightarrow> nat option" where
  "scw_seek_entry d lde v =
     (let sufpos = (if lde = DENTRY_FIRST then m_entrance d else m_suffix_pos (m_dictentry d lde)) in
      if sufpos = SUFENTRY_NULL then Some DENTRY_NULL
      else do {
        nde \<leftarrow> scw_get_sufentry (m_seinfo d) sufpos (v mod scw_get_hashsize (m_seinfo d) sufpos);
        Some (if nde = DENTRY_NULL \<or> m_value (m_dictentry d nde) \<noteq> v then DENTRY_NULL else nde) })"

text \<open>\<open>scw_seek_wordentry\<close> with the loop state \<open>suf\<close>, \<open>depos\<close>.\<close>

fun seek_wordentry_loop :: "scw_worddict \<Rightarrow> nat \<Rightarrow> nat \<Rightarrow> nat list \<Rightarrow> nat option" where
  "seek_wordentry_loop d suf depos [] = Some depos"
| "seek_wordentry_loop d suf depos (v # vs) =
     (if suf = DENTRY_NULL then Some DENTRY_NULL
      else do {
        nde \<leftarrow> scw_get_sufentry (m_seinfo d) suf (v mod scw_get_hashsize (m_seinfo d) suf);
        if nde = DENTRY_NULL \<or> m_value (m_dictentry d nde) \<noteq> v then Some DENTRY_NULL
        else seek_wordentry_loop d (m_suffix_pos (m_dictentry d nde)) nde vs })"

definition scw_seek_wordentry :: "scw_worddict \<Rightarrow> nat list \<Rightarrow> nat option" where
  "scw_seek_wordentry d words = seek_wordentry_loop d (m_entrance d) COMMON_NULL words"

text \<open>\<open>scw_seek_lemma\<close>: the loop reads the term word by word; \<open>curpos\<close> advances in \<open>scw_get_word\<close>.\<close>

lemma scw_get_word_shrinks:
  "(v, pos') = scw_get_word s pos len \<Longrightarrow> pos < len \<Longrightarrow> len - pos' < len - pos"
  using scw_get_word_progress [of pos len s] by (metis diff_less_mono2 order_less_le_trans snd_conv)

function seek_lemma_loop :: "scw_worddict \<Rightarrow> string \<Rightarrow> nat \<Rightarrow> nat \<Rightarrow> nat \<Rightarrow> nat \<Rightarrow> nat \<Rightarrow> nat option" where
  "seek_lemma_loop d term len curpos sufpos v nde =
     (if curpos < len then
        if sufpos = SUFENTRY_NULL then Some LEMMA_NULL
        else (let (v', curpos') = scw_get_word term curpos len in
          (case scw_get_sufentry (m_seinfo d) sufpos (v' mod scw_get_hashsize (m_seinfo d) sufpos) of
             None \<Rightarrow> None
           | Some nde' \<Rightarrow>
               if nde' = DENTRY_NULL \<or> m_value (m_dictentry d nde') \<noteq> v' then Some LEMMA_NULL
               else seek_lemma_loop d term len curpos' (m_suffix_pos (m_dictentry d nde')) v' nde'))
      else do { c_assert (m_value (m_dictentry d nde) = v); Some (m_lemma_pos (m_dictentry d nde)) })"
  by pat_completeness auto

termination seek_lemma_loop
  by (relation "measure (\<lambda>(d, term, len, curpos, sufpos, v, nde). len - curpos)")
     (auto dest: scw_get_word_shrinks)

declare seek_lemma_loop.simps [simp del]

definition scw_seek_lemma :: "scw_worddict \<Rightarrow> string \<Rightarrow> nat \<Rightarrow> nat option" where
  "scw_seek_lemma d term len =
     (if len = 0 then Some LEMMA_NULL else seek_lemma_loop d term len 0 (m_entrance d) 0 0)"

definition scw_search :: "scw_worddict \<Rightarrow> string \<Rightarrow> nat \<Rightarrow> int option" where
  "scw_search d term len = do { lmpos \<leftarrow> scw_seek_lemma d term len; Some (if lmpos = LEMMA_NULL then 0 else 1) }"

subsection \<open>The invariant\<close>

definition kids :: "scw_worddict \<Rightarrow> nat \<Rightarrow> nat set" where
  "kids d k = set (slots d k) - {DENTRY_NULL}"

text \<open>Every node sits in the slot of its value, below its parent, and has one parent only.\<close>

definition wf_tree :: "scw_worddict \<Rightarrow> bool" where
  "wf_tree d \<longleftrightarrow>
     (\<forall>k. valid_key d k \<longrightarrow> (\<forall>i < length (slots d k). slots d k ! i \<noteq> DENTRY_NULL \<longrightarrow>
        slots d k ! i < m_depos d \<and>
        m_value (m_dictentry d (slots d k ! i)) mod length (slots d k) = i \<and>
        (k = DENTRY_FIRST \<or> k < slots d k ! i))) \<and>
     (\<forall>k k' e. valid_key d k \<longrightarrow> valid_key d k' \<longrightarrow> e \<in> kids d k \<longrightarrow> e \<in> kids d k' \<longrightarrow> k = k')"

text \<open>The fill positions stay within the arrays and the arrays within the memory limit.\<close>

definition wf_size :: "nat \<Rightarrow> scw_worddict \<Rightarrow> bool" where
  "wf_size M d \<longleftrightarrow> M < 4294967296 \<and>
     m_seipos d \<le> m_seisize d \<and> m_seisize d * 4 \<le> M \<and>
     m_depos d \<le> m_desize d \<and> m_desize d * sizeof_dictentry \<le> M \<and>
     m_lmpos d \<le> m_lmsize d \<and> m_lmsize d * sizeof_lemma \<le> M \<and>
     m_wbpos d \<le> m_wbsize d \<and> 0 < m_wbsize d \<and> m_wbsize d \<le> M \<and>
     m_phipos d \<le> m_phisize d \<and> 0 < m_phisize d \<and> m_phisize d * 4 \<le> M"

definition wf_dict :: "nat \<Rightarrow> scw_worddict \<Rightarrow> bool" where
  "wf_dict M d \<longleftrightarrow> wf_lay d \<and> wf_tree d \<and> wf_size M d"

lemma wf_lay_depos: "wf_lay d \<Longrightarrow> m_depos d < DENTRY_FIRST \<and> m_seipos d < SUFENTRY_NULL"
  by (auto simp: wf_lay_def lay_blocks_def)

lemma wf_tree_same:
  assumes "wf_tree d" "same_nodes d d'"
  shows "wf_tree d'"
proof -
  have v: "valid_key d' = valid_key d"
    using assms(2) by (simp add: same_nodes_def valid_key_def fun_eq_iff)
  have s: "valid_key d k \<Longrightarrow> slots d' k = slots d k" for k using assms(2) by (simp add: same_nodes_def)
  have m: "m_value (m_dictentry d' e) = m_value (m_dictentry d e)" "m_depos d' = m_depos d" for e
    using assms(2) by (simp_all add: same_nodes_def)
  show ?thesis
    using assms(1) unfolding wf_tree_def kids_def v m by (simp add: s)
qed

lemma slots_blocks:
  assumes "wf_lay d" "valid_key d k" "ptr d k \<noteq> SUFENTRY_NULL"
  shows "0 < length (slots d k)" "length (slots d k) = m_seinfo d (ptr d k)"
    "ptr d k + (m_seinfo d (ptr d k) + 2) \<le> m_seipos d"
    "\<And>i. i < length (slots d k) \<Longrightarrow> slots d k ! i = m_seinfo d (ptr d k + (2 + i))"
proof -
  obtain ps where w: "walk (m_seinfo d) 0 ps (m_seipos d)" and B: "lay_blocks d (set ps)"
    using assms(1) unfolding wf_lay_def by blast
  have "ptr d k \<in> set ps" using B assms(2,3) unfolding lay_blocks_def by blast
  with walk_mem [OF w this] assms(3)
  show "0 < length (slots d k)" "length (slots d k) = m_seinfo d (ptr d k)"
    "ptr d k + (m_seinfo d (ptr d k) + 2) \<le> m_seipos d"
    "\<And>i. i < length (slots d k) \<Longrightarrow> slots d k ! i = m_seinfo d (ptr d k + (2 + i))"
    by (auto simp: slots_def add.assoc)
qed

lemma walk_disjoint:
  "walk se a ps b \<Longrightarrow> p \<in> set ps \<Longrightarrow> q \<in> set ps \<Longrightarrow> p \<noteq> q \<Longrightarrow>
   p + (se p + 2) \<le> q \<or> q + (se q + 2) \<le> p"
proof (induction ps arbitrary: a)
  case (Cons r ps)
  then show ?case using walk_mem [of se "a + (se a + 2)" ps b] by auto
qed simp

lemma slots_disjoint:
  assumes "wf_lay d" "valid_key d k" "valid_key d j" "j \<noteq> k"
    "ptr d k \<noteq> SUFENTRY_NULL" "ptr d j \<noteq> SUFENTRY_NULL"
  shows "ptr d k + (m_seinfo d (ptr d k) + 2) \<le> ptr d j \<or> ptr d j + (m_seinfo d (ptr d j) + 2) \<le> ptr d k"
proof -
  obtain ps where w: "walk (m_seinfo d) 0 ps (m_seipos d)" and B: "lay_blocks d (set ps)"
    using assms(1) unfolding wf_lay_def by blast
  have "ptr d k \<in> set ps" "ptr d j \<in> set ps" "m_seinfo d (ptr d k + 1) = k" "m_seinfo d (ptr d j + 1) = j"
    using B assms(2-) unfolding lay_blocks_def by blast+
  then show ?thesis using walk_disjoint [OF w] assms(4) by metis
qed

lemma wf_treeD:
  assumes "wf_tree d" "valid_key d k" "e \<in> kids d k"
  shows "e < m_depos d" "k = DENTRY_FIRST \<or> k < e" "0 < length (slots d k)"
    "slots d k ! (m_value (m_dictentry d e) mod length (slots d k)) = e"
proof -
  obtain i where i: "i < length (slots d k)" "slots d k ! i = e" "e \<noteq> DENTRY_NULL"
    using assms(3) by (auto simp: kids_def in_set_conv_nth)
  then have "e < m_depos d \<and> m_value (m_dictentry d e) mod length (slots d k) = i \<and>
      (k = DENTRY_FIRST \<or> k < e)"
    using assms(1,2) unfolding wf_tree_def by blast
  then show "e < m_depos d" "k = DENTRY_FIRST \<or> k < e" "0 < length (slots d k)"
    "slots d k ! (m_value (m_dictentry d e) mod length (slots d k)) = e"
    using i by auto
qed

text \<open>The abstract trie: which node a value leads to below a node.\<close>

definition child :: "scw_worddict \<Rightarrow> nat \<Rightarrow> nat \<Rightarrow> nat option" where
  "child d k v =
     (if slots d k = [] then None
      else let e = slots d k ! (v mod length (slots d k)) in
        if e = DENTRY_NULL \<or> m_value (m_dictentry d e) \<noteq> v then None else Some e)"

lemma child_iff:
  assumes "wf_tree d" "valid_key d k"
  shows "child d k v = Some e \<longleftrightarrow> e \<in> kids d k \<and> m_value (m_dictentry d e) = v"
proof
  assume "child d k v = Some e"
  then show "e \<in> kids d k \<and> m_value (m_dictentry d e) = v"
    by (auto simp: child_def kids_def Let_def split: if_splits)
next
  assume e: "e \<in> kids d k \<and> m_value (m_dictentry d e) = v"
  with wf_treeD [OF assms, of e] show "child d k v = Some e"
    by (auto simp: child_def kids_def Let_def)
qed

lemma child_None_iff:
  "wf_tree d \<Longrightarrow> valid_key d k \<Longrightarrow>
   child d k v = None \<longleftrightarrow> (\<forall>e \<in> kids d k. m_value (m_dictentry d e) \<noteq> v)"
  using child_iff [of d k v] by (metis not_None_eq)

lemma wf_treeI:
  assumes "\<And>k i. valid_key d k \<Longrightarrow> i < length (slots d k) \<Longrightarrow> slots d k ! i \<noteq> DENTRY_NULL \<Longrightarrow>
      slots d k ! i < m_depos d \<and> m_value (m_dictentry d (slots d k ! i)) mod length (slots d k) = i \<and>
      (k = DENTRY_FIRST \<or> k < slots d k ! i)"
    and "\<And>k k' e. valid_key d k \<Longrightarrow> valid_key d k' \<Longrightarrow> e \<in> kids d k \<Longrightarrow> e \<in> kids d k' \<Longrightarrow> k = k'"
  shows "wf_tree d"
  using assms unfolding wf_tree_def by blast

lemma slots_sizes [simp]:
  "slots (d\<lparr>m_seisize := x\<rparr>) = slots d" "slots (d\<lparr>m_desize := x\<rparr>) = slots d"
  "slots (d\<lparr>m_seipos := x\<rparr>) = slots d" "slots (d\<lparr>m_depos := x\<rparr>) = slots d"
  by (simp_all add: slots_def ptr_def fun_eq_iff)

lemma wf_lay_sizes [simp]:
  "wf_lay (d\<lparr>m_seisize := x\<rparr>) = wf_lay d" "wf_lay (d\<lparr>m_desize := x\<rparr>) = wf_lay d"
  by (simp_all add: wf_lay_def lay_blocks_def valid_key_def ptr_def)

lemma wf_tree_sizes [simp]:
  "wf_tree (d\<lparr>m_seisize := x\<rparr>) = wf_tree d" "wf_tree (d\<lparr>m_desize := x\<rparr>) = wf_tree d"
  "wf_tree (d\<lparr>m_seipos := x\<rparr>) = wf_tree d"
  by (simp_all add: wf_tree_def valid_key_def kids_def)

lemma same_nodes_sizes [simp]:
  "same_nodes d (d\<lparr>m_seisize := x\<rparr>)" "same_nodes d (d\<lparr>m_desize := x\<rparr>)"
  by (simp_all add: same_nodes_def)

lemma grow_seinfo_wf:
  "wf_dict M d \<Longrightarrow> grow_seinfo M d need = (r, d') \<Longrightarrow> wf_dict M d'"
proof (induction M d need rule: grow_seinfo.induct)
  case (1 M d need)
  let ?n = "m_seisize d + MAX_EXTEND_ENTRY_SIZE"
  show ?case
  proof (cases "m_seipos d + need > m_seisize d \<and> fst (scw_resize_seinfo M d ?n) = 1")
    case True
    let ?d1 = "d\<lparr>m_seisize := ?n\<rparr>"
    have rs: "scw_resize_seinfo M d ?n = (1, ?d1)" and le: "?n * 4 \<le> M"
      using True by (auto simp: scw_resize_seinfo_def resize_code_def realloc_ok_def Let_def
          split: if_splits)
    have "wf_dict M ?d1" using "1.prems"(1) le by (simp add: wf_dict_def wf_size_def)
    moreover have "grow_seinfo M ?d1 need = (r, d')"
      using "1.prems"(2) True rs by (subst (asm) grow_seinfo.simps) simp
    ultimately show ?thesis
      using "1.IH" [of "(1, ?d1)" 1 ?d1] True rs by simp
  next
    case False
    then have "d' = d"
      using "1.prems"(2) by (subst (asm) grow_seinfo.simps)
        (auto simp: scw_resize_seinfo_def Let_def split: if_splits)
    then show ?thesis using "1.prems"(1) by simp
  qed
qed

lemma adjust_wf:
  assumes W: "wf_dict M d" and a: "scw_adjust_seinfo d = (1, d1)"
  shows "wf_dict M d1"
proof -
  have L: "wf_lay d1" "same_nodes d d1" "trie_frame d d1" "m_seipos d1 \<le> m_seipos d"
      "m_seisize d1 = m_seisize d" "m_desize d1 = m_desize d"
    using scw_adjust_seinfo_lay [of d] W a by (auto simp: wf_dict_def)
  have dp: "m_depos d1 = m_depos d" using L(2) by (simp add: same_nodes_def)
  have fr: "m_lmpos d1 = m_lmpos d \<and> m_lmsize d1 = m_lmsize d \<and> m_wbpos d1 = m_wbpos d \<and>
      m_wbsize d1 = m_wbsize d \<and> m_phipos d1 = m_phipos d \<and> m_phisize d1 = m_phisize d"
    by (subst (1 2 3 4 5 6) L(3) [unfolded trie_frame_def]) simp
  have "wf_size M d1" using W L(4-6) dp fr unfolding wf_dict_def wf_size_def by auto
  then show ?thesis using W L wf_tree_same unfolding wf_dict_def by blast
qed

lemma reserve_seinfo_wf:
  assumes "wf_dict M d"
  obtains r d' where "reserve_seinfo M d need = (r, d')" "wf_dict M d'" "same_nodes d d'"
    "trie_frame d d'" "r = 1 \<and> m_seipos d' + need \<le> m_seisize d' \<or> r = -1"
    "m_desize d' = m_desize d"
proof -
  obtain d1 where 1: "(if m_seipos d + need > m_seisize d then scw_adjust_seinfo d else (1, d)) = (1, d1)"
      and d1: "wf_dict M d1" "same_nodes d d1" "trie_frame d d1" "m_desize d1 = m_desize d"
  proof (cases "m_seipos d + need > m_seisize d")
    case True
    obtain d1 where a: "scw_adjust_seinfo d = (1, d1)" "wf_lay d1" "same_nodes d d1"
        "trie_frame d d1" "m_seipos d1 \<le> m_seipos d" "m_seisize d1 = m_seisize d" "m_desize d1 = m_desize d"
      using scw_adjust_seinfo_lay assms unfolding wf_dict_def by blast
    have "wf_dict M d1" using adjust_wf [OF assms a(1)] .
    then show ?thesis using that [of d1] a True by simp
  next
    case False
    then show ?thesis using that [of d] assms by simp
  qed
  obtain r d' where g: "grow_seinfo M d1 need = (r, d')" by fastforce
  have eq: "r = 1 \<and> m_seipos d1 + need \<le> m_seisize d' \<or> r = -1" "d' = d1\<lparr>m_seisize := m_seisize d'\<rparr>"
    using grow_seinfo_result [where M = M and d = d1 and need = need] g by auto
  have sp: "m_seipos d' = m_seipos d1" "m_desize d' = m_desize d1" by (subst eq(2), simp)+
  have "reserve_seinfo M d need = (r, d')" unfolding reserve_seinfo_def 1 using g by simp
  moreover have "same_nodes d d'"
    using d1(2) same_nodes_sizes(1) eq(2) by (metis same_nodes_trans)
  moreover have "trie_frame d d'"
    by (rule trie_frame_trans [OF d1(3)], subst eq(2)) (simp add: trie_frame_def)
  ultimately show ?thesis
    using that grow_seinfo_wf [OF d1(1) g] eq(1) sp d1(4) by simp
qed

text \<open>Writing a new block behind the used part and hanging it under the key \<open>k\<close>.\<close>

lemma new_block_lay:
  assumes L: "wf_lay d" and k: "valid_key d k" and h: "0 < h"
    and se: "\<And>i. i < m_seipos d \<Longrightarrow> m_seinfo d' i = m_seinfo d i"
    and b: "m_seinfo d' (m_seipos d) = h" "m_seinfo d' (m_seipos d + 1) = k"
    and p: "\<And>j. valid_key d j \<Longrightarrow> ptr d' j = (if j = k then m_seipos d else ptr d j)"
    and dp: "m_depos d' = m_depos d" and sp: "m_seipos d' = m_seipos d + (h + 2)"
    and N: "m_seipos d' < SUFENTRY_NULL"
  shows "wf_lay d'" "slots d' k = get_list (m_seinfo d') (m_seipos d + 2) h"
    "\<And>j. valid_key d j \<Longrightarrow> j \<noteq> k \<Longrightarrow> slots d' j = slots d j"
proof -
  obtain ps where w: "walk (m_seinfo d) 0 ps (m_seipos d)" and B: "lay_blocks d (set ps)"
    using L unfolding wf_lay_def by blast
  have v: "valid_key d' = valid_key d" by (simp add: valid_key_def fun_eq_iff dp)
  have in_ps: "q \<in> set ps \<Longrightarrow> q + 2 \<le> m_seipos d" for q using walk_mem [OF w, of q] by auto
  have "walk (m_seinfo d') 0 (ps @ [m_seipos d]) (m_seipos d')"
    using walk_cong [OF w, of "m_seinfo d'"] se b(1) h sp by (auto simp: walk_append)
  moreover have "lay_blocks d' (set (ps @ [m_seipos d]))"
    unfolding lay_blocks_def v
  proof (intro conjI ballI allI impI)
    fix q assume q: "q \<in> set (ps @ [m_seipos d])"
    show "valid_key d (m_seinfo d' (q + 1))"
    proof (cases "q = m_seipos d")
      case True
      then show ?thesis using b(2) k by simp
    next
      case False
      then have "q \<in> set ps" using q by simp
      then show ?thesis using B in_ps [of q] se [of "q + 1"] unfolding lay_blocks_def by auto
    qed
  next
    fix j assume j: "valid_key d j"
    have "(ptr d j = SUFENTRY_NULL \<and> j \<noteq> DENTRY_FIRST) \<or> (ptr d j \<in> set ps \<and> m_seinfo d (ptr d j + 1) = j)"
      using B j unfolding lay_blocks_def by blast
    then show "(ptr d' j = SUFENTRY_NULL \<and> j \<noteq> DENTRY_FIRST) \<or>
        (ptr d' j \<in> set (ps @ [m_seipos d]) \<and> m_seinfo d' (ptr d' j + 1) = j)"
      using in_ps [of "ptr d j"] se [of "ptr d j + 1"] b(2) by (auto simp: p [OF j])
  qed (use B N dp in \<open>auto simp: lay_blocks_def\<close>)
  ultimately show "wf_lay d'" unfolding wf_lay_def by blast
  show "slots d' k = get_list (m_seinfo d') (m_seipos d + 2) h"
    using p [OF k] b(1) N sp by (simp add: slots_def)
  fix j assume j: "valid_key d j" "j \<noteq> k"
  show "slots d' j = slots d j"
  proof (cases "ptr d j = SUFENTRY_NULL")
    case True
    then show ?thesis using p [OF j(1)] j(2) by (simp add: slots_def)
  next
    case False
    then show ?thesis
      using p [OF j(1)] j(2) slots_blocks(3) [OF L j(1) False] se by (intro slots_copy) auto
  qed
qed

lemma lay_blocks_transfer:
  assumes "lay_blocks d B" "ptr d' = ptr d" "m_depos d' = m_depos d" "m_seipos d' < SUFENTRY_NULL"
    "\<And>q. q \<in> B \<Longrightarrow> m_seinfo d' (q + 1) = m_seinfo d (q + 1)"
  shows "lay_blocks d' B"
proof -
  have "valid_key d' = valid_key d" by (simp add: valid_key_def fun_eq_iff assms(3))
  then show ?thesis using assms unfolding lay_blocks_def by metis
qed

text \<open>Writing one slot of the block of \<open>k\<close>.\<close>

lemma set_slot_lay:
  fixes c :: nat
  assumes L: "wf_lay d" and k: "valid_key d k" and nn: "ptr d k \<noteq> SUFENTRY_NULL"
    and i: "i < length (slots d k)"
  defines "d' \<equiv> d\<lparr>m_seinfo := (m_seinfo d)(ptr d k + (2 + i) := c)\<rparr>"
  shows "wf_lay d'" "slots d' k = (slots d k)[i := c]"
    "\<And>j. valid_key d j \<Longrightarrow> j \<noteq> k \<Longrightarrow> slots d' j = slots d j"
proof -
  obtain ps where w: "walk (m_seinfo d) 0 ps (m_seipos d)" and B: "lay_blocks d (set ps)"
    using L unfolding wf_lay_def by blast
  let ?p = "ptr d k"
  have h: "i < m_seinfo d ?p" using i nn by (simp add: slots_def)
  have pk: "?p \<in> set ps" using B k nn unfolding lay_blocks_def by blast
  have ptr: "ptr d' = ptr d" by (simp add: d'_def ptr_def fun_eq_iff)
  have se': "m_seinfo d' q = (if q = ?p + (2 + i) then c else m_seinfo d q)" for q by (simp add: d'_def)
  have keep: "m_seinfo d' q = m_seinfo d q" "m_seinfo d' (q + 1) = m_seinfo d (q + 1)"
    if q: "q \<in> set ps" for q
    using walk_disjoint [OF w pk q] h by (auto simp: d'_def)
  have "walk (m_seinfo d') a qs b" if "walk (m_seinfo d) a qs b" "set qs \<subseteq> set ps" for a qs b
    using that
  proof (induction qs arbitrary: a)
    case (Cons q qs)
    then show ?case using keep(1) [of q] by auto
  qed simp
  then have "walk (m_seinfo d') 0 ps (m_seipos d')" using w by (simp add: d'_def)
  moreover have "lay_blocks d' (set ps)"
    using B ptr
  proof (rule lay_blocks_transfer)
    show "m_depos d' = m_depos d" by (simp add: d'_def)
    show "m_seipos d' < SUFENTRY_NULL" using wf_lay_depos [OF L] by (simp add: d'_def)
  qed (rule keep(2))
  ultimately show "wf_lay d'" unfolding wf_lay_def by blast
  show "slots d' k = (slots d k)[i := c]"
  proof (rule nth_equalityI)
    show "length (slots d' k) = length ((slots d k)[i := c])"
      using keep(1) [OF pk] nn by (simp add: slots_def ptr)
    fix m assume "m < length (slots d' k)"
    then show "slots d' k ! m = (slots d k)[i := c] ! m"
      using keep(1) [OF pk] nn by (auto simp: slots_def ptr nth_list_update) (auto simp: d'_def)
  qed
  fix j assume j: "valid_key d j" "j \<noteq> k"
  show "slots d' j = slots d j"
  proof (cases "ptr d j = SUFENTRY_NULL")
    case True
    then show ?thesis by (simp add: slots_def ptr)
  next
    case False
    then show ?thesis
      using slots_disjoint [OF L k j nn False] h ptr se'
      by (intro slots_copy) auto
  qed
qed

text \<open>The fresh node, not linked yet.\<close>

lemma new_dentry_fields [simp]:
  "m_depos (new_dentry d v) = m_depos d + 1" "m_seinfo (new_dentry d v) = m_seinfo d"
  "m_seipos (new_dentry d v) = m_seipos d" "m_seisize (new_dentry d v) = m_seisize d"
  "m_desize (new_dentry d v) = m_desize d" "m_entrance (new_dentry d v) = m_entrance d"
  "m_value (m_dictentry (new_dentry d v) (m_depos d)) = v"
  "m_lemma_pos (m_dictentry (new_dentry d v) (m_depos d)) = LEMMA_NULL"
  "e \<noteq> m_depos d \<Longrightarrow> m_dictentry (new_dentry d v) e = m_dictentry d e"
  by (simp_all add: new_dentry_def)

lemma new_dentry_frame: "trie_frame d (new_dentry d v)"
  by (simp add: trie_frame_def new_dentry_def)

lemma new_dentry_wf:
  fixes v :: nat
  assumes W: "wf_dict M d" and lt: "m_depos d < m_desize d"
  defines "d' \<equiv> new_dentry d v"
  shows "wf_dict M d'" "\<And>j. valid_key d j \<Longrightarrow> slots d' j = slots d j" "slots d' (m_depos d) = []"
    "\<And>j. valid_key d j \<Longrightarrow> ptr d' j = ptr d j" "\<And>j. valid_key d' j \<Longrightarrow> m_depos d \<notin> kids d' j"
proof -
  have L: "wf_lay d" and T: "wf_tree d" and S: "wf_size M d" using W by (simp_all add: wf_dict_def)
  obtain ps where w: "walk (m_seinfo d) 0 ps (m_seipos d)" and B: "lay_blocks d (set ps)"
    using L unfolding wf_lay_def by blast
  have bound: "m_depos d + 1 < DENTRY_FIRST"
    using S lt by (simp add: wf_size_def DENTRY_FIRST_def sizeof_dictentry_def)
  have pt: "ptr d' j = (if j = m_depos d then SUFENTRY_NULL else ptr d j)" for j
    using bound by (auto simp: ptr_def d'_def new_dentry_def)
  have vk: "valid_key d' j \<longleftrightarrow> j = m_depos d \<or> valid_key d j" for j
    by (auto simp: valid_key_def d'_def)
  have nv: "\<not> valid_key d (m_depos d)" using bound by (simp add: valid_key_def)
  have "lay_blocks d' (set ps)"
    unfolding lay_blocks_def vk
  proof (intro conjI ballI allI impI)
    fix j assume j: "j = m_depos d \<or> valid_key d j"
    show "ptr d' j = SUFENTRY_NULL \<and> j \<noteq> DENTRY_FIRST \<or>
        ptr d' j \<in> set ps \<and> m_seinfo d' (ptr d' j + 1) = j"
      using B j bound nv unfolding lay_blocks_def pt by (auto simp: d'_def)
  qed (use B bound in \<open>auto simp: lay_blocks_def d'_def\<close>)
  then have L': "wf_lay d'" using w unfolding wf_lay_def by (auto simp: d'_def)
  have sei: "m_seinfo d' = m_seinfo d" by (simp add: d'_def)
  have ptv: "ptr d' j = ptr d j" if "valid_key d j" for j using that nv by (auto simp: pt)
  show sl: "slots d' j = slots d j" if "valid_key d j" for j
    using ptv [OF that] by (simp add: slots_def sei)
  show sn: "slots d' (m_depos d) = []" by (simp add: slots_def pt)
  show "ptr d' j = ptr d j" if "valid_key d j" for j using that by (rule ptv)
  have kd: "kids d' j = (if j = m_depos d then {} else kids d j)" if "valid_key d' j" for j
    using that sn sl by (auto simp: kids_def vk)
  have lt_kid: "e \<in> kids d j \<Longrightarrow> valid_key d j \<Longrightarrow> e < m_depos d" for e j
    using wf_treeD(1) [OF T] by blast
  show "m_depos d \<notin> kids d' j" if "valid_key d' j" for j
    using that lt_kid [of "m_depos d" j] by (auto simp: kd vk)
  have "wf_tree d'"
  proof (rule wf_treeI)
    fix k i assume k: "valid_key d' k" "i < length (slots d' k)" "slots d' k ! i \<noteq> DENTRY_NULL"
    then have kv: "valid_key d k" using sn by (auto simp: vk)
    have kid: "slots d k ! i \<in> kids d k" using k sl [OF kv] by (auto simp: kids_def)
    have "slots d k ! i < m_depos d \<and> m_value (m_dictentry d (slots d k ! i)) mod length (slots d k) = i \<and>
        (k = DENTRY_FIRST \<or> k < slots d k ! i)"
      using T kv k sl [OF kv] unfolding wf_tree_def by auto
    then show "slots d' k ! i < m_depos d' \<and>
        m_value (m_dictentry d' (slots d' k ! i)) mod length (slots d' k) = i \<and>
        (k = DENTRY_FIRST \<or> k < slots d' k ! i)"
      using sl [OF kv] by (simp add: d'_def)
  next
    fix k k' e assume "valid_key d' k" "valid_key d' k'" "e \<in> kids d' k" "e \<in> kids d' k'"
    then show "k = k'" using T unfolding wf_tree_def by (auto simp: kd vk split: if_splits)
  qed
  moreover have "wf_size M d'"
    using S lt by (simp add: wf_size_def d'_def) (simp add: new_dentry_def)
  ultimately show "wf_dict M d'" using L' by (simp add: wf_dict_def)
qed

text \<open>Hanging a node that has no parent under \<open>k\<close>.\<close>

lemma tree_add:
  assumes T: "wf_tree d" and k: "valid_key d k" and c: "c < m_depos d" "k = DENTRY_FIRST \<or> k < c"
    and new: "\<And>j. valid_key d j \<Longrightarrow> c \<notin> kids d j"
    and dp: "m_depos d' = m_depos d"
    and val: "\<And>e. m_value (m_dictentry d' e) = m_value (m_dictentry d e)"
    and other: "\<And>j. valid_key d j \<Longrightarrow> j \<noteq> k \<Longrightarrow> slots d' j = slots d j"
    and kid: "kids d' k = insert c (kids d k)"
    and pos: "\<And>i. i < length (slots d' k) \<Longrightarrow> slots d' k ! i \<noteq> DENTRY_NULL \<Longrightarrow>
       m_value (m_dictentry d (slots d' k ! i)) mod length (slots d' k) = i"
  shows "wf_tree d'"
proof (rule wf_treeI)
  have v: "valid_key d' j \<longleftrightarrow> valid_key d j" for j by (simp add: valid_key_def dp)
  have kd: "kids d' j = (if j = k then insert c (kids d k) else kids d j)" if "valid_key d j" for j
    using other [OF that] kid by (auto simp: kids_def)
  fix j i assume j: "valid_key d' j" "i < length (slots d' j)" "slots d' j ! i \<noteq> DENTRY_NULL"
  show "slots d' j ! i < m_depos d' \<and>
      m_value (m_dictentry d' (slots d' j ! i)) mod length (slots d' j) = i \<and>
      (j = DENTRY_FIRST \<or> j < slots d' j ! i)"
  proof (cases "j = k")
    case True
    have "slots d' k ! i \<in> kids d' k" using j True by (simp add: kids_def)
    then have "slots d' k ! i < m_depos d \<and> (k = DENTRY_FIRST \<or> k < slots d' k ! i)"
      unfolding kid using c wf_treeD(1,2) [OF T k] by blast
    moreover have "m_value (m_dictentry d (slots d' k ! i)) mod length (slots d' k) = i"
      using pos [of i] j(2,3) True by simp
    ultimately show ?thesis unfolding True val dp by blast
  next
    case False
    then show ?thesis
      using T j other [of j] unfolding wf_tree_def v by (auto simp: val dp)
  qed
next
  have v: "valid_key d' j \<longleftrightarrow> valid_key d j" for j by (simp add: valid_key_def dp)
  have kd: "kids d' j = (if j = k then insert c (kids d k) else kids d j)" if "valid_key d j" for j
    using other [OF that] kid by (auto simp: kids_def)
  fix j j' e assume "valid_key d' j" "valid_key d' j'" "e \<in> kids d' j" "e \<in> kids d' j'"
  then show "j = j'"
    using T new unfolding wf_tree_def v by (auto simp: kd split: if_splits)
qed

subsection \<open>Rebuilding a block\<close>

text \<open>
  \<open>holds se sp nh de S\<close>: the block at \<open>sp\<close> with \<open>nh\<close> slots contains exactly the nodes \<open>S\<close>, each
  in the slot of its value.
\<close>

definition holds :: "nat buf \<Rightarrow> nat \<Rightarrow> nat \<Rightarrow> scw_dictentry buf \<Rightarrow> nat set \<Rightarrow> bool" where
  "holds se sp nh de S \<longleftrightarrow> DENTRY_NULL \<notin> S \<and>
     (\<forall>j<nh. se (sp + (2 + j)) \<noteq> DENTRY_NULL \<longrightarrow>
        se (sp + (2 + j)) \<in> S \<and> m_value (de (se (sp + (2 + j)))) mod nh = j) \<and>
     (\<forall>e\<in>S. se (sp + (2 + m_value (de e) mod nh)) = e)"

lemma get_list_set: "set (get_list b p n) = (\<lambda>j. b (p + j)) ` {..<n}"
proof -
  have "set [p..<p + n] = (\<lambda>j. p + j) ` {..<n}"
    by (metis add.commute add.left_neutral atLeast0LessThan atLeastLessThan_upt image_add_atLeastLessThan)
  then show ?thesis by (simp add: get_list_def image_image)
qed

lemma holds_insert:
  assumes "holds se sp nh de S" "0 < nh" "e \<noteq> DENTRY_NULL"
    and "se (sp + (2 + m_value (de e) mod nh)) = DENTRY_NULL"
  shows "holds (se(sp + (2 + m_value (de e) mod nh) := e)) sp nh de (insert e S)"
proof -
  let ?x = "sp + (2 + m_value (de e) mod nh)" and ?se = "se(sp + (2 + m_value (de e) mod nh) := e)"
  note H = assms(1) [unfolded holds_def]
  show ?thesis
    unfolding holds_def
  proof (intro conjI allI ballI impI)
    fix j assume j: "j < nh" "?se (sp + (2 + j)) \<noteq> DENTRY_NULL"
    show "?se (sp + (2 + j)) \<in> insert e S" "m_value (de (?se (sp + (2 + j)))) mod nh = j"
      using H j by (cases "j = m_value (de e) mod nh"; simp)+
  next
    fix f assume f: "f \<in> insert e S"
    show "?se (sp + (2 + m_value (de f) mod nh)) = f"
    proof (cases "f = e")
      case False
      then have "se (sp + (2 + m_value (de f) mod nh)) = f" "f \<noteq> DENTRY_NULL"
        using H f by auto
      then show ?thesis using assms(4) by auto
    qed simp
  qed (use H assms(3) in auto)
qed

lemma holds_set:
  assumes "holds se sp nh de S" "0 < nh"
  shows "set (get_list se (sp + 2) nh) - {DENTRY_NULL} = S"
proof -
  have S: "set (get_list se (sp + 2) nh) = (\<lambda>j. se (sp + (2 + j))) ` {..<nh}"
    by (simp add: get_list_set add.assoc)
  show ?thesis
  proof (intro equalityI subsetI)
    fix x assume "x \<in> set (get_list se (sp + 2) nh) - {DENTRY_NULL}"
    then show "x \<in> S" using assms(1) unfolding S holds_def by auto
  next
    fix x assume x: "x \<in> S"
    then have "x = se (sp + (2 + m_value (de x) mod nh))" "x \<noteq> DENTRY_NULL"
      using assms(1) unfolding holds_def by auto
    then show "x \<in> set (get_list se (sp + 2) nh) - {DENTRY_NULL}"
      unfolding S using assms(2) by (auto intro!: rev_image_eqI [of "m_value (de x) mod nh"])
  qed
qed

lemma rehash_slots_ok:
  assumes "holds se sp nh de S" "0 < nh" "se sp = nh"
    and "suf + (se suf + 2) \<le> sp" "\<forall>i\<in>set is. i < se suf"
  shows "\<exists>se' cf. rehash_slots de suf sp nh is se = Some (se', cf) \<and>
     (\<forall>i. i < sp + 2 \<or> sp + 2 + nh \<le> i \<longrightarrow> se' i = se i) \<and>
     (\<not> cf \<longrightarrow> holds se' sp nh de (S \<union> ((\<lambda>i. se (suf + (2 + i))) ` set is - {DENTRY_NULL})))"
  using assms
proof (induction "is" arbitrary: se S)
  case Nil
  then show ?case by auto
next
  case (Cons i "is")
  let ?o = "se (suf + (2 + i))"
  let ?x = "sp + (2 + m_value (de ?o) mod nh)"
  have get: "scw_get_sufentry se suf i = Some ?o"
    using Cons.prems by (simp add: scw_get_sufentry_def add.commute)
  have lt: "m_value (de ?o) mod nh < nh" using Cons.prems(2) by simp
  show ?case
  proof (cases "?o = DENTRY_NULL")
    case True
    then show ?thesis
      using Cons.IH [OF Cons.prems(1-4)] Cons.prems(5) get by (auto simp: insert_Diff_if)
  next
    case nn: False
    have get2: "scw_get_sufentry se sp (m_value (de ?o) mod nh) = Some (se ?x)"
      using Cons.prems(3) lt by (simp add: scw_get_sufentry_def add.commute)
    show ?thesis
    proof (cases "se ?x = DENTRY_NULL")
      case False
      then show ?thesis using nn get get2 by auto
    next
      case True
      define se1 where "se1 = se(?x := ?o)"
      have set: "scw_set_sufentry se sp (m_value (de ?o) mod nh) ?o = Some se1"
        using Cons.prems(3) lt by (simp add: scw_set_sufentry_def se1_def)
      have H: "holds se1 sp nh de (insert ?o S)"
        using holds_insert [OF Cons.prems(1,2) nn True] by (simp add: se1_def)
      have low: "q < sp + 2 \<or> sp + 2 + nh \<le> q \<Longrightarrow> se1 q = se q" for q
        using lt by (auto simp: se1_def)
      have suf: "se1 suf = se suf" "se1 sp = nh" using Cons.prems(3,4) low by simp_all
      have old: "(\<lambda>i. se1 (suf + (2 + i))) ` set is = (\<lambda>i. se (suf + (2 + i))) ` set is"
        using Cons.prems(4,5) by (intro image_cong refl low) auto
      obtain se' cf where R: "rehash_slots de suf sp nh is se1 = Some (se', cf)"
          "\<forall>i. i < sp + 2 \<or> sp + 2 + nh \<le> i \<longrightarrow> se' i = se1 i"
          "\<not> cf \<longrightarrow> holds se' sp nh de (insert ?o S \<union> ((\<lambda>i. se1 (suf + (2 + i))) ` set is - {DENTRY_NULL}))"
        using Cons.IH [OF H Cons.prems(2) suf(2)] suf(1) Cons.prems(4,5) by (simp only: list.set) blast
      have "rehash_slots de suf sp nh (i # is) se = Some (se', cf)"
        using get get2 set R(1) nn True by simp
      moreover have "\<forall>q. q < sp + 2 \<or> sp + 2 + nh \<le> q \<longrightarrow> se' q = se q"
        using R(2) low by simp
      moreover have "\<not> cf \<longrightarrow> holds se' sp nh de (S \<union> ((\<lambda>i. se (suf + (2 + i))) ` set (i # is) - {DENTRY_NULL}))"
        using R(3) nn unfolding old by (simp add: insert_Diff_if)
      ultimately show ?thesis by blast
    qed
  qed
qed

text \<open>A node \<open>c\<close> that waits to be hung under \<open>k\<close>, whose block exists.\<close>

definition pending :: "nat \<Rightarrow> scw_worddict \<Rightarrow> nat \<Rightarrow> nat \<Rightarrow> bool" where
  "pending M d k c \<longleftrightarrow> wf_dict M d \<and> valid_key d k \<and> slots d k \<noteq> [] \<and> c < m_depos d \<and>
     (k = DENTRY_FIRST \<or> k < c) \<and> (\<forall>j. valid_key d j \<longrightarrow> c \<notin> kids d j)"

definition hung :: "scw_worddict \<Rightarrow> scw_worddict \<Rightarrow> nat \<Rightarrow> nat \<Rightarrow> bool" where
  "hung d d' k c \<longleftrightarrow> m_depos d' = m_depos d \<and>
     (\<forall>j. valid_key d j \<longrightarrow> kids d' j = (if j = k then insert c (kids d k) else kids d j)) \<and>
     (\<forall>e. m_value (m_dictentry d' e) = m_value (m_dictentry d e) \<and>
          m_lemma_pos (m_dictentry d' e) = m_lemma_pos (m_dictentry d e))"

lemma pending_ptr: "pending M d k c \<Longrightarrow> ptr d k \<noteq> SUFENTRY_NULL"
  by (auto simp: pending_def slots_def)

lemma pending_same:
  assumes "pending M d k c" "wf_dict M d'" "same_nodes d d'"
  shows "pending M d' k c"
  using assms by (auto simp: pending_def same_nodes_def valid_key_def kids_def)

lemma hung_same: "same_nodes d d' \<Longrightarrow> hung d' d'' k c \<Longrightarrow> valid_key d k \<Longrightarrow> hung d d'' k c"
  by (auto simp: hung_def same_nodes_def valid_key_def kids_def)

text \<open>Scratch work behind the used part does not count.\<close>

lemma scratch_same:
  assumes W: "wf_dict M d" and se: "\<And>i. i < m_seipos d \<Longrightarrow> se i = m_seinfo d i"
  defines "d' \<equiv> d\<lparr>m_seinfo := se\<rparr>"
  shows "wf_dict M d'" "same_nodes d d'" "trie_frame d d'"
proof -
  have L: "wf_lay d" and T: "wf_tree d" and S: "wf_size M d" using W by (simp_all add: wf_dict_def)
  obtain ps where w: "walk (m_seinfo d) 0 ps (m_seipos d)" and B: "lay_blocks d (set ps)"
    using L unfolding wf_lay_def by blast
  have pt: "ptr d' = ptr d" by (simp add: d'_def ptr_def fun_eq_iff)
  have "walk (m_seinfo d') 0 ps (m_seipos d')"
    using walk_cong [OF w, of se] se by (simp add: d'_def)
  moreover have "lay_blocks d' (set ps)"
    using B pt
  proof (rule lay_blocks_transfer)
    show "m_seinfo d' (q + 1) = m_seinfo d (q + 1)" if "q \<in> set ps" for q
      using walk_mem [OF w that] se [of "q + 1"] by (simp add: d'_def)
    show "m_seipos d' < SUFENTRY_NULL" using wf_lay_depos [OF L] by (simp add: d'_def)
  qed (simp add: d'_def)
  ultimately have "wf_lay d'" unfolding wf_lay_def by blast
  moreover have "slots d' j = slots d j" if j: "valid_key d j" for j
  proof (cases "ptr d j = SUFENTRY_NULL")
    case True
    then show ?thesis by (simp add: slots_def pt)
  next
    case False
    then show ?thesis
      using slots_blocks(3) [OF L j False] pt se by (intro slots_copy) (auto simp: d'_def)
  qed
  then show sn: "same_nodes d d'" by (simp add: same_nodes_def d'_def)
  moreover have "wf_size M d'" using S by (simp add: wf_size_def d'_def)
  ultimately show "wf_dict M d'" using wf_tree_same [OF T sn] by (simp add: wf_dict_def)
  show "trie_frame d d'" by (simp add: trie_frame_def d'_def)
qed

lemma init_sufentry_simps:
  "0 < h \<Longrightarrow> scw_init_sufentry se b h k b = h"
  "scw_init_sufentry se b h k (b + 1) = k"
  "j < h \<Longrightarrow> scw_init_sufentry se b h k (b + (2 + j)) = DENTRY_NULL"
  "i < b \<Longrightarrow> scw_init_sufentry se b h k i = se i"
  by (auto simp: scw_init_sufentry_def scw_set_backentry_def scw_set_hashsize_def fill_def)

text \<open>A rebuilt block, linked: the pending node is hung.\<close>

lemma link_block_ok:
  assumes P: "pending M d k c" and nh: "0 < nh"
    and se: "\<And>i. i < m_seipos d \<Longrightarrow> se i = m_seinfo d i"
    and b: "se (m_seipos d) = nh" "se (m_seipos d + 1) = k"
    and H: "holds se (m_seipos d) nh (m_dictentry d) (insert c (kids d k))"
    and room: "m_seipos d + (nh + 2) \<le> m_seisize d"
  defines "d' \<equiv> link_block (d\<lparr>m_seinfo := se\<rparr>) k nh"
  shows "wf_dict M d'" "hung d d' k c" "trie_frame d d'"
proof -
  have W: "wf_dict M d" and k: "valid_key d k" and c: "c < m_depos d" "k = DENTRY_FIRST \<or> k < c"
      and new: "\<And>j. valid_key d j \<Longrightarrow> c \<notin> kids d j"
    using P by (simp_all add: pending_def)
  have L: "wf_lay d" and T: "wf_tree d" and S: "wf_size M d" using W by (simp_all add: wf_dict_def)
  have f: "m_seinfo d' = se" "m_depos d' = m_depos d" "m_seipos d' = m_seipos d + (nh + 2)"
      "m_value (m_dictentry d' e) = m_value (m_dictentry d e)"
      "m_lemma_pos (m_dictentry d' e) = m_lemma_pos (m_dictentry d e)" for e
    by (simp_all add: d'_def link_block_def set_suffix_pos_def)
  have p: "ptr d' j = (if j = k then m_seipos d else ptr d j)" if "valid_key d j" for j
    using that wf_lay_depos [OF L] by (auto simp: ptr_def d'_def link_block_def set_suffix_pos_def)
  have N: "m_seipos d' < SUFENTRY_NULL"
    using S room by (simp add: f wf_size_def SUFENTRY_NULL_def)
  have A: "\<And>i. i < m_seipos d \<Longrightarrow> m_seinfo d' i = m_seinfo d i"
      "m_seinfo d' (m_seipos d) = nh" "m_seinfo d' (m_seipos d + 1) = k"
    using se b by (simp_all add: f)
  have B: "wf_lay d'" "slots d' k = get_list se (m_seipos d + 2) nh"
      "\<And>j. valid_key d j \<Longrightarrow> j \<noteq> k \<Longrightarrow> slots d' j = slots d j"
    using new_block_lay [OF L k nh A p f(2) f(3) N] by (simp_all add: f(1))
  have kd: "kids d' k = insert c (kids d k)"
    using holds_set [OF H nh] by (simp add: kids_def B(2))
  have kid_other: "kids d' j = kids d j" if "valid_key d j" "j \<noteq> k" for j
    using B(3) [OF that] by (simp add: kids_def)
  have T': "wf_tree d'"
  proof (rule tree_add [OF T k c new f(2) f(4) B(3) kd])
    fix i assume "i < length (slots d' k)" "slots d' k ! i \<noteq> DENTRY_NULL"
    then show "m_value (m_dictentry d (slots d' k ! i)) mod length (slots d' k) = i"
      using H by (simp add: B(2) holds_def add.assoc)
  qed
  have "wf_size M d'"
    using S room by (simp add: wf_size_def f) (simp add: d'_def link_block_def)
  then show "wf_dict M d'" using B(1) T' by (simp add: wf_dict_def)
  show "hung d d' k c"
    using kd kid_other by (simp add: hung_def f)
  show "trie_frame d d'" by (simp add: trie_frame_def d'_def link_block_def)
qed

lemma try_hash_ok:
  assumes P: "pending M d k c" and nh: "0 < nh"
  obtains r d' where "try_hash M d k (length (slots d k)) c nh = Some (r, d')"
    "wf_dict M d'" "trie_frame d d'"
    "(r = 1 \<and> hung d d' k c) \<or> ((r = 0 \<or> r = -1) \<and> same_nodes d d')"
proof -
  have W: "wf_dict M d" and k: "valid_key d k" using P by (simp_all add: pending_def)
  obtain r1 d1 where R: "reserve_seinfo M d (nh + 2) = (r1, d1)" "wf_dict M d1" "same_nodes d d1"
      "trie_frame d d1" and room: "r1 = 1 \<and> m_seipos d1 + (nh + 2) \<le> m_seisize d1 \<or> r1 = -1"
    by (rule reserve_seinfo_wf [OF W])
  show ?thesis
  proof (cases "r1 = 1")
    case False
    then have "try_hash M d k (length (slots d k)) c nh = Some (-1, d1)"
      using room R(1) by (auto simp: try_hash_def)
    then show ?thesis using that R by blast
  next
    case True
    with room have room: "m_seipos d1 + (nh + 2) \<le> m_seisize d1" by simp
    have P1: "pending M d1 k c" using pending_same [OF P R(2,3)] .
    then have k1: "valid_key d1 k" and c0: "c < m_depos d1" by (simp_all add: pending_def)
    have L1: "wf_lay d1" using R(2) by (simp add: wf_dict_def)
    have len: "length (slots d k) = length (slots d1 k)" using R(3) k by (simp add: same_nodes_def)
    let ?b = "m_seipos d1" and ?p = "ptr d1 k" and ?de = "m_dictentry d1"
    define se0 where "se0 = scw_init_sufentry (m_seinfo d1) ?b nh k"
    note blk = slots_blocks [OF L1 k1 pending_ptr [OF P1]]
    have i0: "se0 ?b = nh" "se0 (?b + 1) = k" "j < nh \<Longrightarrow> se0 (?b + (2 + j)) = DENTRY_NULL"
        "i < ?b \<Longrightarrow> se0 i = m_seinfo d1 i" for i j
      using nh by (simp_all only: se0_def init_sufentry_simps)
    have H0: "holds se0 ?b nh ?de {}" unfolding holds_def using i0(3) by blast
    have sp: "se0 ?p = length (slots d1 k)" using blk(2,3) i0(4) [of ?p] by simp
    obtain se1 cf where re: "rehash_slots ?de ?p ?b nh [0..<length (slots d1 k)] se0 = Some (se1, cf)"
        and keep: "\<forall>i. i < ?b + 2 \<or> ?b + 2 + nh \<le> i \<longrightarrow> se1 i = se0 i"
        and H1: "\<not> cf \<longrightarrow> holds se1 ?b nh ?de
          ({} \<union> ((\<lambda>i. se0 (?p + (2 + i))) ` set [0..<length (slots d1 k)] - {DENTRY_NULL}))"
      using rehash_slots_ok [OF H0 nh i0(1), of ?p "[0..<length (slots d1 k)]"] sp blk(2,3) by auto
    have "(\<lambda>i. se0 (?p + (2 + i))) ` set [0..<length (slots d1 k)] = set (slots d1 k)"
    proof -
      have "set (slots d1 k) = (\<lambda>i. slots d1 k ! i) ` {0..<length (slots d1 k)}"
        by (metis image_set list.set_map map_nth set_upt)
      also have "\<dots> = (\<lambda>i. se0 (?p + (2 + i))) ` {0..<length (slots d1 k)}"
        using blk i0(4) by (intro image_cong) auto
      finally show ?thesis by simp
    qed
    with H1 have H1: "\<not> cf \<Longrightarrow> holds se1 ?b nh ?de (kids d1 k)" by (simp add: kids_def)
    have low1: "i < ?b \<Longrightarrow> se1 i = m_seinfo d1 i" for i using keep i0(4) by simp
    have h1: "se1 ?b = nh" "se1 (?b + 1) = k" using keep i0(1,2) by simp_all
    let ?x = "?b + (2 + m_value (?de c) mod nh)"
    have lt: "m_value (?de c) mod nh < nh" using nh by simp
    have cN: "c \<noteq> DENTRY_NULL"
      using c0 wf_lay_depos [OF L1] by (auto simp: DENTRY_NULL_def DENTRY_FIRST_def)
    have scratch: "wf_dict M (d1\<lparr>m_seinfo := se1\<rparr>)" "same_nodes d1 (d1\<lparr>m_seinfo := se1\<rparr>)"
        "trie_frame d1 (d1\<lparr>m_seinfo := se1\<rparr>)"
      using scratch_same [OF R(2), of se1] low1 by auto
    have step: "try_hash M d k (length (slots d k)) c nh =
        (if cf \<or> se1 ?x \<noteq> DENTRY_NULL then Some (0, d1\<lparr>m_seinfo := se1\<rparr>)
         else Some (1, link_block (d1\<lparr>m_seinfo := se1(?x := c)\<rparr>) k nh))"
      using R(1) True room re h1(1) lt unfolding len
      by (simp add: try_hash_def place_entry_def se0_def scw_get_sufentry_def scw_set_sufentry_def
          add.commute [of _ 2])
    show ?thesis
    proof (cases "cf \<or> se1 ?x \<noteq> DENTRY_NULL")
      case True
      then show ?thesis
        using that [of 0] step scratch(1) same_nodes_trans [OF R(3) scratch(2)]
          trie_frame_trans [OF R(4) scratch(3)] by simp
    next
      case False
      have H: "holds (se1(?x := c)) ?b nh ?de (insert c (kids d1 k))"
        using holds_insert [OF H1 nh cN] False by simp
      have K: "wf_dict M (link_block (d1\<lparr>m_seinfo := se1(?x := c)\<rparr>) k nh)"
          "hung d1 (link_block (d1\<lparr>m_seinfo := se1(?x := c)\<rparr>) k nh) k c"
          "trie_frame d1 (link_block (d1\<lparr>m_seinfo := se1(?x := c)\<rparr>) k nh)"
        using link_block_ok [OF P1 nh _ _ _ H room] low1 h1 by simp_all
      show ?thesis
        using that [of 1] step False K(1) trie_frame_trans [OF R(4) K(3)] hung_same [OF R(3) K(2) k]
        by simp
    qed
  qed
qed

lemma newhash_loop_ok:
  "pending M d k c \<Longrightarrow> hsize = length (slots d k) \<Longrightarrow> 0 < nh \<Longrightarrow>
   \<exists>r d'. newhash_loop M d k hsize c nh = Some (r, d') \<and> wf_dict M d' \<and> trie_frame d d' \<and>
     ((r = 1 \<and> hung d d' k c) \<or> (r = -1 \<and> same_nodes d d'))"
proof (induction M d k hsize c nh rule: newhash_loop.induct)
  case (1 M d k hsize c nh)
  obtain r d' where T: "try_hash M d k (length (slots d k)) c nh = Some (r, d')"
      "wf_dict M d'" "trie_frame d d'"
      "(r = 1 \<and> hung d d' k c) \<or> ((r = 0 \<or> r = -1) \<and> same_nodes d d')"
    by (rule try_hash_ok [OF "1.prems"(1,3)])
  show ?case
  proof (cases "r = 0")
    case False
    then have "newhash_loop M d k hsize c nh = Some (r, d')"
      using T(1) "1.prems"(2) by (subst newhash_loop.simps) simp
    then show ?thesis using T False by auto
  next
    case True
    have S: "same_nodes d d'" using T(4) True by auto
    have P': "pending M d' k c" using pending_same [OF "1.prems"(1) T(2) S] .
    have k: "valid_key d k" using "1.prems"(1) by (simp add: pending_def)
    have len: "hsize = length (slots d' k)" using "1.prems"(2) S k by (simp add: same_nodes_def)
    have eq: "newhash_loop M d k hsize c nh = newhash_loop M d' k hsize c (nh + 1)"
      using T(1) True "1.prems"(2) by (subst newhash_loop.simps) simp
    obtain r2 d2 where "newhash_loop M d' k hsize c (nh + 1) = Some (r2, d2)" "wf_dict M d2"
        "trie_frame d' d2" "(r2 = 1 \<and> hung d' d2 k c) \<or> (r2 = -1 \<and> same_nodes d' d2)"
      using "1.IH" [OF T(1) [folded "1.prems"(2)] refl True P' len] by auto
    then show ?thesis
      unfolding eq using trie_frame_trans [OF T(3)] hung_same [OF S _ k] same_nodes_trans [OF S]
      by blast
  qed
qed

subsection \<open>The specification of insertion\<close>

definition same_kids :: "scw_worddict \<Rightarrow> scw_worddict \<Rightarrow> bool" where
  "same_kids d d' \<longleftrightarrow> (\<forall>j. valid_key d j \<longrightarrow> kids d' j = kids d j)"

text \<open>The nodes of \<open>d\<close> are still there in \<open>d'\<close>, with their values and lemmas.\<close>

definition node_ext :: "scw_worddict \<Rightarrow> scw_worddict \<Rightarrow> bool" where
  "node_ext d d' \<longleftrightarrow> m_depos d \<le> m_depos d' \<and>
     (\<forall>e < m_depos d. m_value (m_dictentry d' e) = m_value (m_dictentry d e) \<and>
        m_lemma_pos (m_dictentry d' e) = m_lemma_pos (m_dictentry d e))"

lemma node_ext_refl [simp]: "node_ext d d"
  by (simp add: node_ext_def)

lemma node_ext_trans: "node_ext d d' \<Longrightarrow> node_ext d' d'' \<Longrightarrow> node_ext d d''"
  by (simp add: node_ext_def)

lemma node_ext_same: "same_nodes d d' \<Longrightarrow> node_ext d d'"
  by (simp add: node_ext_def same_nodes_def)

lemma node_ext_hung: "hung d d' k c \<Longrightarrow> node_ext d d'"
  by (simp add: node_ext_def hung_def)

lemma same_kids_same: "same_nodes d d' \<Longrightarrow> same_kids d d'"
  by (simp add: same_kids_def same_nodes_def kids_def)

lemma node_ext_new: "node_ext d (new_dentry d v)"
  by (simp add: node_ext_def)

lemma wf_lay_root: "wf_lay d \<Longrightarrow> ptr d DENTRY_FIRST \<noteq> SUFENTRY_NULL"
proof -
  assume "wf_lay d"
  then obtain ps where "lay_blocks d (set ps)" unfolding wf_lay_def by blast
  then have "\<forall>k. valid_key d k \<longrightarrow> (ptr d k = SUFENTRY_NULL \<and> k \<noteq> DENTRY_FIRST) \<or>
      (ptr d k \<in> set ps \<and> m_seinfo d (ptr d k + 1) = k)" and "m_seipos d < SUFENTRY_NULL"
    unfolding lay_blocks_def by blast+
  moreover obtain qs where "walk (m_seinfo d) 0 qs (m_seipos d)" "lay_blocks d (set qs)"
    using \<open>wf_lay d\<close> unfolding wf_lay_def by blast
  ultimately show ?thesis
    using walk_mem [of "m_seinfo d" 0 qs "m_seipos d" "ptr d DENTRY_FIRST"]
    by (fastforce simp: lay_blocks_def valid_key_def)
qed

lemma wf_treeE:
  assumes "wf_tree d" "valid_key d k" "i < length (slots d k)" "slots d k ! i \<noteq> DENTRY_NULL"
  shows "slots d k ! i < m_depos d \<and>
    m_value (m_dictentry d (slots d k ! i)) mod length (slots d k) = i \<and>
    (k = DENTRY_FIRST \<or> k < slots d k ! i)"
  using assms unfolding wf_tree_def by blast

text \<open>An empty block of hash size 1 under a node that has none.\<close>

lemma init_block_ok:
  assumes W: "wf_dict M d" and k: "valid_key d k" "k \<noteq> DENTRY_FIRST" and e: "slots d k = []"
    and room: "m_seipos d + 3 \<le> m_seisize d"
  defines "d' \<equiv> d\<lparr>m_dictentry := set_suffix_pos (m_dictentry d) k (m_seipos d),
      m_seinfo := scw_init_sufentry (m_seinfo d) (m_seipos d) 1 k, m_seipos := m_seipos d + 3\<rparr>"
  shows "wf_dict M d'" "same_kids d d'" "node_ext d d'" "slots d' k \<noteq> []" "trie_frame d d'"
proof -
  have L: "wf_lay d" and T: "wf_tree d" and S: "wf_size M d" using W by (simp_all add: wf_dict_def)
  have se: "m_seinfo d' = scw_init_sufentry (m_seinfo d) (m_seipos d) 1 k" by (simp add: d'_def)
  have A: "\<And>i. i < m_seipos d \<Longrightarrow> m_seinfo d' i = m_seinfo d i"
      "m_seinfo d' (m_seipos d) = 1" "m_seinfo d' (m_seipos d + 1) = k"
      "m_seinfo d' (m_seipos d + (2 + 0)) = DENTRY_NULL"
    unfolding se by (simp_all only: init_sufentry_simps zero_less_one)
  have p: "ptr d' j = (if j = k then m_seipos d else ptr d j)" if "valid_key d j" for j
    using k(2) by (auto simp: d'_def ptr_def set_suffix_pos_def)
  have f: "m_depos d' = m_depos d" "m_seipos d' = m_seipos d + (1 + 2)" by (simp_all add: d'_def)
  have N: "m_seipos d' < SUFENTRY_NULL"
    using S room by (simp add: f wf_size_def SUFENTRY_NULL_def)
  have B: "wf_lay d'" "slots d' k = get_list (m_seinfo d') (m_seipos d + 2) 1"
      "\<And>j. valid_key d j \<Longrightarrow> j \<noteq> k \<Longrightarrow> slots d' j = slots d j"
    using new_block_lay [OF L k(1) zero_less_one A(1-3) p f N] by simp_all
  have sk: "slots d' k = [DENTRY_NULL]" using A(4) unfolding B(2) by (simp add: get_list_def)
  have kd: "kids d' j = kids d j" if "valid_key d j" for j
    using that B(3) sk e by (cases "j = k") (simp_all add: kids_def)
  have vk: "valid_key d' j \<longleftrightarrow> valid_key d j" for j by (simp add: valid_key_def f)
  have val: "m_value (m_dictentry d' x) = m_value (m_dictentry d x) \<and>
      m_lemma_pos (m_dictentry d' x) = m_lemma_pos (m_dictentry d x)" for x
    by (simp add: d'_def set_suffix_pos_def)
  have "wf_tree d'"
  proof (rule wf_treeI)
    fix j i assume j: "valid_key d' j" "i < length (slots d' j)" "slots d' j ! i \<noteq> DENTRY_NULL"
    then have "j \<noteq> k" using sk by auto
    then have sj: "slots d' j = slots d j" using B(3) j(1) vk by blast
    show "slots d' j ! i < m_depos d' \<and>
        m_value (m_dictentry d' (slots d' j ! i)) mod length (slots d' j) = i \<and>
        (j = DENTRY_FIRST \<or> j < slots d' j ! i)"
      using wf_treeE [OF T j(1) [unfolded vk] j(2,3) [unfolded sj]] val unfolding sj f by simp
  next
    fix j j' x assume "valid_key d' j" "valid_key d' j'" "x \<in> kids d' j" "x \<in> kids d' j'"
    then show "j = j'" using T kd vk unfolding wf_tree_def by blast
  qed
  moreover have "wf_size M d'" using S room by (simp add: wf_size_def d'_def)
  ultimately show "wf_dict M d'" using B(1) by (simp add: wf_dict_def)
  show "same_kids d d'" using kd by (simp add: same_kids_def)
  show "node_ext d d'" using val f by (simp add: node_ext_def)
  show "slots d' k \<noteq> []" using sk by simp
  show "trie_frame d d'" by (simp add: trie_frame_def d'_def)
qed

lemma first_block_ok:
  assumes W: "wf_dict M d" and k: "valid_key d k"
  obtains r d' where "first_block M d k = Some (r, d')" "wf_dict M d'" "trie_frame d d'"
    "m_depos d' = m_depos d" "node_ext d d'" "same_kids d d'" "(r = 1 \<and> slots d' k \<noteq> []) \<or> r = -1"
proof (cases "ptr d k = SUFENTRY_NULL")
  case False
  have "slots d k \<noteq> []" using slots_blocks(1) [OF _ k False] W by (auto simp: wf_dict_def)
  then show ?thesis using that [of 1 d] W False by (simp add: first_block_def same_kids_def)
next
  case True
  then have kF: "k \<noteq> DENTRY_FIRST" using W wf_lay_root by (auto simp: wf_dict_def)
  obtain r1 d1 where R: "reserve_seinfo M d 3 = (r1, d1)" "wf_dict M d1" "same_nodes d d1"
      "trie_frame d d1" and room: "r1 = 1 \<and> m_seipos d1 + 3 \<le> m_seisize d1 \<or> r1 = -1"
    by (rule reserve_seinfo_wf [OF W])
  have dp: "m_depos d1 = m_depos d" and e: "slots d1 k = []"
    using R(3) k True by (simp_all add: same_nodes_def slots_def)
  have k1: "valid_key d1 k" using k dp by (simp add: valid_key_def)
  show ?thesis
  proof (cases "r1 = 1")
    case False
    then show ?thesis
      using that [of "-1" d1] R room True node_ext_same [OF R(3)] same_kids_same [OF R(3)] dp
      by (simp add: first_block_def)
  next
    case ok: True
    with room have room: "m_seipos d1 + 3 \<le> m_seisize d1" by simp
    let ?d' = "d1\<lparr>m_dictentry := set_suffix_pos (m_dictentry d1) k (m_seipos d1),
        m_seinfo := scw_init_sufentry (m_seinfo d1) (m_seipos d1) 1 k, m_seipos := m_seipos d1 + 3\<rparr>"
    note I = init_block_ok [OF R(2) k1 kF e room]
    have "first_block M d k = Some (1, ?d')"
      using True R(1) ok room kF by (simp add: first_block_def)
    moreover have "same_kids d ?d'"
      using same_kids_same [OF R(3)] I(2) dp by (simp add: same_kids_def valid_key_def)
    ultimately show ?thesis
      using that [OF _ I(1) trie_frame_trans [OF R(4) I(5)] _ node_ext_trans [OF node_ext_same [OF R(3)] I(3)]]
        I(4) dp by simp
  qed
qed

lemma scw_get_slot:
  assumes "wf_lay d" "valid_key d k" "slots d k \<noteq> []"
  shows "scw_get_sufentry (m_seinfo d) (ptr d k) (v mod scw_get_hashsize (m_seinfo d) (ptr d k)) =
      Some (slots d k ! (v mod length (slots d k)))"
    and "scw_get_hashsize (m_seinfo d) (ptr d k) = length (slots d k)" "0 < length (slots d k)"
    "ptr d k \<noteq> SUFENTRY_NULL"
proof -
  have nn: "ptr d k \<noteq> SUFENTRY_NULL" using assms(3) by (auto simp: slots_def)
  note B = slots_blocks [OF assms(1,2) nn]
  show "scw_get_hashsize (m_seinfo d) (ptr d k) = length (slots d k)" "0 < length (slots d k)"
    "ptr d k \<noteq> SUFENTRY_NULL"
    using B nn by (simp_all add: scw_get_hashsize_def)
  have lt: "v mod length (slots d k) < length (slots d k)" using B(1) by simp
  then show "scw_get_sufentry (m_seinfo d) (ptr d k) (v mod scw_get_hashsize (m_seinfo d) (ptr d k)) =
      Some (slots d k ! (v mod length (slots d k)))"
    using B(2) B(4) [OF lt] by (simp add: scw_get_sufentry_def scw_get_hashsize_def add.commute [of _ 2])
qed

lemma set_list_update_null:
  "i < length xs \<Longrightarrow> xs ! i = x0 \<Longrightarrow> c \<noteq> x0 \<Longrightarrow> set (xs[i := c]) - {x0} = insert c (set xs - {x0})"
proof -
  assume i: "i < length xs" and x: "xs ! i = x0" "c \<noteq> x0"
  have "set xs = insert x0 (set (take i xs) \<union> set (drop (Suc i) xs))"
    using arg_cong [OF id_take_nth_drop [OF i], of set] x(1) by simp
  moreover have "set (xs[i := c]) = insert c (set (take i xs) \<union> set (drop (Suc i) xs))"
    using i by (simp add: upd_conv_take_nth_drop)
  ultimately show ?thesis using x(2) by auto
qed

lemma link_free_slot:
  assumes P: "pending M d k c" and i: "i = m_value (m_dictentry d c) mod length (slots d k)"
    and free: "slots d k ! i = DENTRY_NULL"
  defines "d' \<equiv> d\<lparr>m_seinfo := (m_seinfo d)(ptr d k + (2 + i) := c)\<rparr>"
  shows "wf_dict M d'" "hung d d' k c" "trie_frame d d'"
proof -
  have W: "wf_dict M d" and k: "valid_key d k" and c: "c < m_depos d" "k = DENTRY_FIRST \<or> k < c"
      and new: "\<And>j. valid_key d j \<Longrightarrow> c \<notin> kids d j" and ne: "slots d k \<noteq> []"
    using P by (simp_all add: pending_def)
  have L: "wf_lay d" and T: "wf_tree d" and S: "wf_size M d" using W by (simp_all add: wf_dict_def)
  have il: "i < length (slots d k)" using i ne by simp
  note SS = set_slot_lay [OF L k pending_ptr [OF P] il, where c = c, folded d'_def]
  have cN: "c \<noteq> DENTRY_NULL"
    using c wf_lay_depos [OF L] by (auto simp: DENTRY_NULL_def DENTRY_FIRST_def)
  have f: "m_depos d' = m_depos d" "m_dictentry d' = m_dictentry d"
      "m_value (m_dictentry d' e) = m_value (m_dictentry d e)" for e by (simp_all add: d'_def)
  have kd: "kids d' k = insert c (kids d k)"
    using set_list_update_null [OF il free cN] by (simp add: kids_def SS(2))
  have "wf_tree d'"
  proof (rule tree_add [OF T k c new f(1) f(3) SS(3) kd])
    fix m assume m: "m < length (slots d' k)" "slots d' k ! m \<noteq> DENTRY_NULL"
    show "m_value (m_dictentry d (slots d' k ! m)) mod length (slots d' k) = m"
      using m wf_treeE [OF T k, of m] i il by (cases "m = i") (simp_all add: SS(2))
  qed
  then show "wf_dict M d'" using SS(1) S by (simp add: wf_dict_def wf_size_def d'_def)
  have "kids d' j = kids d j" if "valid_key d j" "j \<noteq> k" for j
    using SS(3) [OF that] by (simp add: kids_def)
  then show "hung d d' k c" using kd by (simp add: hung_def f)
  show "trie_frame d d'" by (simp add: trie_frame_def d'_def)
qed

lemma link_new_ok:
  assumes P: "pending M d k c"
    and t: "t = slots d k ! (m_value (m_dictentry d c) mod length (slots d k))"
  obtains r d' where "link_new M d k t c = Some (r, d')" "wf_dict M d'" "trie_frame d d'"
    "(r = 1 \<and> hung d d' k c) \<or> (r = -1 \<and> same_nodes d d')"
proof -
  have k: "valid_key d k" and ne: "slots d k \<noteq> []" and L: "wf_lay d"
    using P by (simp_all add: pending_def wf_dict_def)
  note G = scw_get_slot [OF L k ne]
  show ?thesis
  proof (cases "t = DENTRY_NULL")
    case True
    let ?i = "m_value (m_dictentry d c) mod length (slots d k)"
    let ?d' = "d\<lparr>m_seinfo := (m_seinfo d)(ptr d k + (2 + ?i) := c)\<rparr>"
    have "scw_set_sufentry (m_seinfo d) (ptr d k) ?i c = Some ((m_seinfo d)(ptr d k + (2 + ?i) := c))"
      using G(2,3) by (simp add: scw_set_sufentry_def scw_get_hashsize_def)
    then have "link_new M d k t c = Some (1, ?d')"
      using True by (simp add: link_new_def G(2) Let_def)
    then show ?thesis using that link_free_slot [OF P refl] t True by blast
  next
    case False
    then have "link_new M d k t c = newhash_loop M d k (length (slots d k)) c (length (slots d k) + 1)"
      by (simp add: link_new_def G(2) Let_def)
    then show ?thesis
      using that newhash_loop_ok [OF P refl, of "length (slots d k) + 1"] by auto
  qed
qed

definition ins_spec :: "scw_worddict \<Rightarrow> nat \<Rightarrow> nat \<Rightarrow> int \<Rightarrow> scw_worddict \<Rightarrow> nat \<Rightarrow> bool" where
  "ins_spec d k v r d' cur \<longleftrightarrow> node_ext d d' \<and>
     (if r = 0 then child d k v = Some cur \<and> m_depos d' = m_depos d \<and> same_kids d d'
      else if r = 1 then child d k v = None \<and> cur = m_depos d \<and> m_depos d' = m_depos d + 1 \<and>
        (\<forall>j. valid_key d j \<longrightarrow> kids d' j = (if j = k then insert cur (kids d k) else kids d j)) \<and>
        kids d' cur = {} \<and> m_value (m_dictentry d' cur) = v \<and>
        m_lemma_pos (m_dictentry d' cur) = LEMMA_NULL
      else r = -1 \<and> same_kids d d')"

lemma child_transfer:
  assumes "wf_tree d" "wf_tree d'" "valid_key d k" "valid_key d' k" "kids d' k = kids d k" "node_ext d d'"
  shows "child d' k v = child d k v"
proof -
  have "child d' k v = Some e \<longleftrightarrow> child d k v = Some e" for e
    using child_iff [OF assms(1,3)] child_iff [OF assms(2,4)] assms(5,6) wf_treeD(1) [OF assms(1,3)]
    unfolding node_ext_def by metis
  then show ?thesis by (metis not_Some_eq)
qed

lemma hung_ins_spec:
  assumes W: "wf_dict M d" "m_depos d < m_desize d" and k: "valid_key d k"
    and none: "child d k v = None" and H: "hung (new_dentry d v) d' k (m_depos d)"
  shows "ins_spec d k v 1 d' (m_depos d)"
proof -
  let ?d = "new_dentry d v" and ?c = "m_depos d"
  note N = new_dentry_wf [OF W, where v = v]
  have vk: "valid_key ?d j \<longleftrightarrow> valid_key d j \<or> j = ?c" for j by (auto simp: valid_key_def)
  have nvc: "\<not> valid_key d ?c"
    using W(1) wf_lay_depos [of d] by (auto simp: valid_key_def wf_dict_def)
  have kd: "kids ?d j = kids d j" if "valid_key d j" for j using N(2) [OF that] by (simp add: kids_def)
  have "kids d' ?c = {}" using H nvc k N(3) vk by (auto simp: hung_def kids_def)
  moreover have "kids d' j = (if j = k then insert ?c (kids d k) else kids d j)" if "valid_key d j" for j
    using H that kd vk k by (simp add: hung_def)
  ultimately show ?thesis
    using H none node_ext_trans [OF node_ext_new node_ext_hung [OF H]]
    by (simp add: ins_spec_def hung_def)
qed

lemma create_dentry_ok:
  assumes W: "wf_dict M d" and k: "valid_key d k" and ne: "slots d k \<noteq> []"
    and t: "t = slots d k ! (v mod length (slots d k))" and none: "child d k v = None"
  obtains r d' cur where "create_dentry M d k v t cur0 = Some (r, d', cur)"
    "wf_dict M d'" "trie_frame d d'" "ins_spec d k v r d' cur"
proof -
  define q where "q = (if m_depos d = m_desize d
    then scw_resize_dentry M d (m_desize d + MAX_EXTEND_ENTRY_SIZE) else (1, d))"
  obtain r2 d2 where q: "q = (r2, d2)" by fastforce
  have d2: "d2 = d\<lparr>m_desize := m_desize d2\<rparr>" "wf_dict M d2"
      "r2 = 1 \<Longrightarrow> m_depos d2 < m_desize d2" "m_depos d2 = m_depos d" "same_nodes d d2"
    using q W unfolding q_def scw_resize_dentry_def resize_code_def realloc_ok_def Let_def
    by (auto simp: wf_dict_def wf_size_def MAX_EXTEND_ENTRY_SIZE_def split: if_splits)
  have fr2: "trie_frame d d2" by (subst d2(1)) (simp add: trie_frame_def)
  show ?thesis
  proof (cases "r2 = 1")
    case False
    then have "create_dentry M d k v t cur0 = Some (-1, d2, cur0)"
      using q by (simp add: create_dentry_def q_def [symmetric])
    moreover have "ins_spec d k v (-1) d2 cur0"
      using node_ext_same [OF d2(5)] same_kids_same [OF d2(5)] by (simp add: ins_spec_def)
    ultimately show ?thesis using that d2(2) fr2 by blast
  next
    case ok2: True
    note lt = d2(3) [OF ok2]
    let ?c = "m_depos d2" and ?d3 = "new_dentry d2 v"
    note N = new_dentry_wf [OF d2(2) lt, where v = v]
    have k2: "valid_key d2 k" using k d2(4) by (simp add: valid_key_def)
    have s2: "slots d2 k = slots d k" using d2(5) k by (simp add: same_nodes_def)
    have s3: "slots ?d3 k = slots d k" using N(2) [OF k2] s2 by simp
    have P: "pending M ?d3 k ?c"
      using N(1,5) k2 s3 ne by (auto simp: pending_def valid_key_def)
    obtain r5 d5 where l: "link_new M ?d3 k t ?c = Some (r5, d5)" "wf_dict M d5" "trie_frame ?d3 d5"
        "(r5 = 1 \<and> hung ?d3 d5 k ?c) \<or> (r5 = -1 \<and> same_nodes ?d3 d5)"
      by (rule link_new_ok [OF P, of t]) (simp add: t s3)
    have res: "create_dentry M d k v t cur0 = Some (r5, d5, if r5 = 1 then ?c else cur0)"
      using q ok2 lt l(1) by (simp add: create_dentry_def q_def [symmetric])
    have "child d2 k v = None"
      using none k k2 W d2(2) child_transfer [of d d2 k v] node_ext_same [OF d2(5)] s2
      by (simp add: wf_dict_def kids_def)
    then have spec2: "ins_spec d2 k v 1 d5 ?c" if "hung ?d3 d5 k ?c"
      using hung_ins_spec [OF d2(2) lt k2 _ that] by simp
    have "ins_spec d k v r5 d5 (if r5 = 1 then ?c else cur0)"
    proof (cases "r5 = 1")
      case True
      then have "ins_spec d2 k v 1 d5 ?c" using spec2 l(4) by simp
      then show ?thesis
        using True none d2(4) same_kids_same [OF d2(5)] node_ext_trans [OF node_ext_same [OF d2(5)]] k
        by (simp add: ins_spec_def same_kids_def valid_key_def)
    next
      case False
      then have s: "same_nodes ?d3 d5" "r5 = -1" using l(4) by auto
      have "same_kids d d5"
        using same_kids_same [OF s(1)] same_kids_same [OF d2(5)] N(2) d2(4)
        by (simp add: same_kids_def valid_key_def kids_def)
      then show ?thesis
        using s(2) node_ext_trans [OF node_ext_same [OF d2(5)]
            node_ext_trans [OF node_ext_new node_ext_same [OF s(1)]]]
        by (simp add: ins_spec_def)
    qed
    then show ?thesis
      using that res l(2) trie_frame_trans [OF fr2 trie_frame_trans [OF new_dentry_frame l(3)]] by blast
  qed
qed

lemma insert_dentry_ok:
  assumes W: "wf_dict M d" and k: "valid_key d k"
  obtains r d' cur where "scw_insert_dentry M d k v cur0 = Some (r, d', cur)"
    "wf_dict M d'" "trie_frame d d'" "ins_spec d k v r d' cur"
proof -
  have T: "wf_tree d" using W by (simp add: wf_dict_def)
  have g: "\<not> (k \<noteq> DENTRY_FIRST \<and> m_depos d \<le> k)" using k by (auto simp: valid_key_def)
  obtain r1 d1 where F: "first_block M d k = Some (r1, d1)" "wf_dict M d1" "trie_frame d d1"
      "m_depos d1 = m_depos d" "node_ext d d1" "same_kids d d1" "(r1 = 1 \<and> slots d1 k \<noteq> []) \<or> r1 = -1"
    by (rule first_block_ok [OF W k])
  have L1: "wf_lay d1" and T1: "wf_tree d1" using F(2) by (simp_all add: wf_dict_def)
  have k1: "valid_key d1 k" using k by (simp add: valid_key_def F(4))
  have ch1: "child d1 k v = child d k v"
    using child_transfer [OF T T1 k k1 _ F(5)] F(6) k by (simp add: same_kids_def)
  note step = scw_insert_dentry_def [of M d k v cur0, unfolded if_not_P [OF g] F(1)]
  show ?thesis
  proof (cases "r1 = 1")
    case False
    then have "scw_insert_dentry M d k v cur0 = Some (-1, d1, cur0)"
      using F(7) unfolding step by simp
    moreover have "ins_spec d k v (-1) d1 cur0" using F(5,6) by (simp add: ins_spec_def)
    ultimately show ?thesis using that F by blast
  next
    case ok: True
    with F(7) have ne: "slots d1 k \<noteq> []" by simp
    note G = scw_get_slot [OF L1 k1 ne]
    let ?t = "slots d1 k ! (v mod length (slots d1 k))"
    show ?thesis
    proof (cases "?t \<noteq> DENTRY_NULL \<and> m_value (m_dictentry d1 ?t) = v")
      case True
      then have "scw_insert_dentry M d k v cur0 = Some (0, d1, ?t)"
        unfolding step using ok G ne by (simp add: G(2))
      moreover have "child d1 k v = Some ?t" using True ne by (simp add: child_def Let_def)
      then have "ins_spec d k v 0 d1 ?t" using F(4-6) ch1 by (simp add: ins_spec_def)
      ultimately show ?thesis using that F by blast
    next
      case miss: False
      have none: "child d1 k v = None" using miss ne by (auto simp: child_def Let_def)
      obtain r d' cur where C: "create_dentry M d1 k v ?t cur0 = Some (r, d', cur)" "wf_dict M d'"
          "trie_frame d1 d'" "ins_spec d1 k v r d' cur"
        by (rule create_dentry_ok [OF F(2) k1 ne refl none])
      have "scw_insert_dentry M d k v cur0 = Some (r, d', cur)"
        unfolding step using ok G ne miss C(1) by (auto simp: G(2) Let_def)
      moreover have "ins_spec d k v r d' cur"
        using C(4) F(4,6) node_ext_trans [OF F(5)] ch1 k
        by (auto simp: ins_spec_def same_kids_def valid_key_def split: if_splits)
      ultimately show ?thesis using that C(2) trie_frame_trans [OF F(3) C(3)] by blast
    qed
  qed
qed

subsection \<open>The trie as an entry tree\<close>

definition node_label :: "scw_worddict \<Rightarrow> nat \<Rightarrow> nat" where
  "node_label d e = m_lemma_pos (m_dictentry d e)"

definition set_lemma_pos :: "scw_worddict \<Rightarrow> nat \<Rightarrow> nat \<Rightarrow> scw_worddict" where
  "set_lemma_pos d e l = d\<lparr>m_dictentry := (m_dictentry d)(e := (m_dictentry d e)\<lparr>m_lemma_pos := l\<rparr>)\<rparr>"

text \<open>What is left of a dictionary when its trie is erased.\<close>

definition trie_rest :: "scw_worddict \<Rightarrow> scw_worddict" where
  "trie_rest d = d\<lparr>m_seinfo := (\<lambda>_. 0), m_seisize := 0, m_seipos := 0,
     m_dictentry := (\<lambda>_. \<lparr>m_value = 0, m_lemma_pos = 0, m_suffix_pos = 0\<rparr>),
     m_desize := 0, m_depos := 0, m_entrance := 0\<rparr>"

lemma trie_frame_rest: "trie_frame d d' \<Longrightarrow> trie_rest d' = trie_rest d"
  unfolding trie_frame_def trie_rest_def by (cases d; cases d') simp

lemma set_lemma_pos_lay:
  "slots (set_lemma_pos d e l) = slots d" "valid_key (set_lemma_pos d e l) = valid_key d"
  "ptr (set_lemma_pos d e l) = ptr d" "kids (set_lemma_pos d e l) = kids d"
  "m_value (m_dictentry (set_lemma_pos d e l) x) = m_value (m_dictentry d x)"
  "child (set_lemma_pos d e l) = child d"
  by (simp_all add: fun_eq_iff slots_def valid_key_def ptr_def kids_def child_def set_lemma_pos_def Let_def)

lemma set_lemma_pos_label:
  "node_label (set_lemma_pos d e l) x = (if x = e then l else node_label d x)"
  by (simp add: node_label_def set_lemma_pos_def)

lemma set_lemma_pos_fields:
  "m_seinfo (set_lemma_pos d e l) = m_seinfo d" "m_seipos (set_lemma_pos d e l) = m_seipos d"
  "m_depos (set_lemma_pos d e l) = m_depos d"
  by (simp_all add: set_lemma_pos_def)

lemma set_lemma_pos_wf: "wf_dict M d \<Longrightarrow> wf_dict M (set_lemma_pos d e l)"
proof -
  assume W: "wf_dict M d"
  have "wf_lay (set_lemma_pos d e l)"
    using W unfolding wf_dict_def wf_lay_def lay_blocks_def set_lemma_pos_lay set_lemma_pos_fields
    by blast
  moreover have "wf_tree (set_lemma_pos d e l)"
    using W unfolding wf_dict_def wf_tree_def set_lemma_pos_lay set_lemma_pos_fields by blast
  moreover have "wf_size M (set_lemma_pos d e l)"
    using W by (simp add: wf_dict_def wf_size_def set_lemma_pos_def)
  ultimately show ?thesis by (simp add: wf_dict_def)
qed

lemma child_valid_key:
  assumes "wf_dict M d" "valid_key d p" "child d p v = Some q"
  shows "valid_key d q \<and> q \<noteq> DENTRY_FIRST"
  using assms child_iff [of d p v q] wf_treeD(1) [of d p q] wf_lay_depos [of d]
  by (auto simp: wf_dict_def valid_key_def)

lemma child_injective:
  assumes "wf_dict M d" "valid_key d p" "valid_key d p'" "child d p v = Some q" "child d p' v' = Some q"
  shows "p = p' \<and> v = v'"
  using assms child_iff [of d p v q] child_iff [of d p' v' q] unfolding wf_dict_def wf_tree_def by metis

lemma insert_dentry_result:
  assumes "wf_dict M d" "valid_key d p" "scw_insert_dentry M d p v c = Some (r, d', q)"
  shows "wf_dict M d'" "trie_frame d d'" "ins_spec d p v r d' q"
  using insert_dentry_ok [OF assms(1,2), of v c] assms(3) by auto

lemma ins_spec_child:
  assumes W: "wf_dict M d" "wf_dict M d'" and S: "ins_spec d p v r d' q" "valid_key d p" "valid_key d x"
  shows "child d' x = (if r = 1 \<and> x = p then (child d p)(v \<mapsto> q) else child d x)"
proof -
  have T: "wf_tree d" "wf_tree d'" using W by (simp_all add: wf_dict_def)
  have ne: "node_ext d d'" using S(1) by (simp add: ins_spec_def)
  then have x': "valid_key d' x" using S(3) by (auto simp: node_ext_def valid_key_def)
  show ?thesis
  proof (cases "r = 1 \<and> x = p")
    case False
    then have "kids d' x = kids d x" using S by (auto simp: ins_spec_def same_kids_def split: if_splits)
    then show ?thesis
      using child_transfer [OF T S(3) x' _ ne] False by (auto simp: fun_eq_iff)
  next
    case True
    then have sp: "child d p v = None" "kids d' p = insert q (kids d p)" "m_value (m_dictentry d' q) = v"
      using S by (auto simp: ins_spec_def)
    have "child d' p u = ((child d p)(v \<mapsto> q)) u" for u
    proof (cases "u = v")
      case True
      then show ?thesis using child_iff [OF T(2) x', of v q] sp \<open>r = 1 \<and> x = p\<close> by simp
    next
      case u: False
      have "child d' p u = Some e \<longleftrightarrow> child d p u = Some e" for e
        using child_iff [OF T(1) S(2), of u e] child_iff [OF T(2) x', of u e] sp True u ne
          wf_treeD(1) [OF T(1) S(2)] unfolding node_ext_def by (metis insert_iff)
      then show ?thesis using u by (metis fun_upd_other not_Some_eq)
    qed
    then show ?thesis using True by (simp add: fun_eq_iff)
  qed
qed

lemma ins_spec_new:
  assumes W: "wf_dict M d" "wf_dict M d'" and S: "ins_spec d p v 1 d' q"
  shows "child d p v = None" "\<not> valid_key d q" "valid_key d' q" "node_label d' q = LEMMA_NULL"
    "q \<noteq> DENTRY_FIRST" "child d' q = (\<lambda>_. None)"
proof -
  have q: "q = m_depos d" "m_depos d' = m_depos d + 1" "kids d' q = {}" using S by (auto simp: ins_spec_def)
  have lt: "m_depos d < DENTRY_FIRST" using W(1) wf_lay_depos by (auto simp: wf_dict_def)
  show "child d p v = None" "node_label d' q = LEMMA_NULL" using S by (auto simp: ins_spec_def node_label_def)
  show v: "\<not> valid_key d q" "valid_key d' q" "q \<noteq> DENTRY_FIRST" using q lt by (auto simp: valid_key_def)
  show "child d' q = (\<lambda>_. None)"
    using child_None_iff [of d' q] v q(3) W(2) by (auto simp: wf_dict_def fun_eq_iff)
qed

interpretation trie: labelled_tree "wf_dict M" DENTRY_FIRST valid_key child "scw_insert_dentry M"
  node_label LEMMA_NULL trie_rest set_lemma_pos for M
proof unfold_locales
  fix d p v c r d' q x
  assume I: "wf_dict M d" "valid_key d p" "scw_insert_dentry M d p v c = Some (r, d', q)"
  note R = insert_dentry_result [OF I]
  show "wf_dict M d' \<and> trie_rest d' = trie_rest d" using R trie_frame_rest by blast
  show "valid_key d' x \<and> node_label d' x = node_label d x" if "valid_key d x" "x \<noteq> DENTRY_FIRST"
    using R(3) that by (auto simp: ins_spec_def node_ext_def valid_key_def node_label_def)
  show "child d' x = child d x" if "r \<noteq> 1" "valid_key d x"
    using ins_spec_child [OF I(1) R(1,3) I(2) that(2)] that(1) by simp
next
  fix d p v c d' q
  assume I: "wf_dict M d" "valid_key d p" "scw_insert_dentry M d p v c = Some (0, d', q)"
  then show "child d p v = Some q" using insert_dentry_result(3) [OF I] by (simp add: ins_spec_def)
next
  fix d p v c d' q
  assume I: "wf_dict M d" "valid_key d p" "scw_insert_dentry M d p v c = Some (1, d', q)"
  note R = insert_dentry_result [OF I]
  show "child d p v = None \<and> \<not> valid_key d q \<and> valid_key d' q \<and> node_label d' q = LEMMA_NULL \<and>
      q \<noteq> DENTRY_FIRST \<and> child d' q = (\<lambda>_. None) \<and>
      (\<forall>x. valid_key d x \<longrightarrow> child d' x = (if x = p then (child d p)(v \<mapsto> q) else child d x))"
    using ins_spec_new [OF I(1) R(1,3)] ins_spec_child [OF I(1) R(1,3) I(2)] by simp
next
  fix d p v c assume I: "wf_dict M d" "valid_key d p"
  show "\<exists>r d' q. scw_insert_dentry M d p v c = Some (r, d', q) \<and> r \<in> {-1, 0, 1}"
    using insert_dentry_ok [OF I, of v c] by (metis ins_spec_def insert_iff)
next
  show "valid_key d DENTRY_FIRST" for d by (simp add: valid_key_def)
qed (use child_valid_key child_injective set_lemma_pos_wf in
     \<open>auto simp: set_lemma_pos_lay set_lemma_pos_label\<close>)

subsection \<open>The lookups are those of the tree\<close>

lemma scw_seek_entry_child:
  assumes "wf_dict M d" "valid_key d k"
  shows "scw_seek_entry d k v = Some (case child d k v of None \<Rightarrow> DENTRY_NULL | Some e \<Rightarrow> e)"
proof (cases "slots d k = []")
  case True
  then have "ptr d k = SUFENTRY_NULL"
    using slots_blocks(1) [of d k] assms by (auto simp: wf_dict_def)
  then show ?thesis using True by (simp add: scw_seek_entry_def child_def ptr_def Let_def)
next
  case False
  then show ?thesis
    using scw_get_slot(1) [of d k v] scw_get_slot(2-) [of d k] assms
    by (auto simp: scw_seek_entry_def child_def ptr_def [symmetric] wf_dict_def Let_def)
qed

text \<open>One step of the lookup loops: from the block of \<open>k\<close> to the block of its child.\<close>

lemma seek_step:
  assumes "wf_dict M d" "valid_key d k"
  shows "ptr d k = SUFENTRY_NULL \<Longrightarrow> child d k v = None"
    and "ptr d k \<noteq> SUFENTRY_NULL \<Longrightarrow>
      \<exists>e. scw_get_sufentry (m_seinfo d) (ptr d k) (v mod scw_get_hashsize (m_seinfo d) (ptr d k)) = Some e \<and>
        child d k v = (if e = DENTRY_NULL \<or> m_value (m_dictentry d e) \<noteq> v then None else Some e)"
proof -
  assume "ptr d k = SUFENTRY_NULL"
  then show "child d k v = None" by (simp add: child_def slots_def)
next
  assume nn: "ptr d k \<noteq> SUFENTRY_NULL"
  have ne: "slots d k \<noteq> []" using slots_blocks(1) [OF _ assms(2) nn] assms(1) by (auto simp: wf_dict_def)
  then show "\<exists>e. scw_get_sufentry (m_seinfo d) (ptr d k) (v mod scw_get_hashsize (m_seinfo d) (ptr d k)) = Some e \<and>
        child d k v = (if e = DENTRY_NULL \<or> m_value (m_dictentry d e) \<noteq> v then None else Some e)"
    using scw_get_slot(1) [OF _ assms(2) ne, of v] assms(1) by (auto simp: wf_dict_def child_def Let_def)
qed

lemma child_ptr: "wf_dict M d \<Longrightarrow> valid_key d k \<Longrightarrow> child d k v = Some e \<Longrightarrow> m_suffix_pos (m_dictentry d e) = ptr d e"
  using child_valid_key by (simp add: ptr_def)

lemma seek_wordentry_loop_path:
  "wf_dict M d \<Longrightarrow> valid_key d k \<Longrightarrow>
   seek_wordentry_loop d (ptr d k) dp ws =
     Some (if ws = [] then dp else case tree_path (child d) k ws of None \<Rightarrow> DENTRY_NULL | Some e \<Rightarrow> e)"
proof (induction ws arbitrary: k dp)
  case (Cons v vs)
  note st = seek_step [OF Cons.prems, of v]
  show ?case
  proof (cases "child d k v")
    case None
    then show ?thesis using st by (cases "ptr d k = SUFENTRY_NULL") (auto simp: null_defs split: if_splits)
  next
    case (Some e)
    then have "ptr d k \<noteq> SUFENTRY_NULL" using st(1) by auto
    with Some st(2) obtain "scw_get_sufentry (m_seinfo d) (ptr d k)
        (v mod scw_get_hashsize (m_seinfo d) (ptr d k)) = Some e" "e \<noteq> DENTRY_NULL"
        "m_value (m_dictentry d e) = v"
      by (auto split: if_splits)
    then show ?thesis
      using Some Cons.IH [OF Cons.prems(1), of e e] child_valid_key [OF Cons.prems Some]
        child_ptr [OF Cons.prems Some] \<open>ptr d k \<noteq> SUFENTRY_NULL\<close>
      by (cases vs) (auto simp: null_defs)
  qed
qed simp

definition dict_lookup :: "scw_worddict \<Rightarrow> nat list \<Rightarrow> nat" where
  "dict_lookup d ws = (case tree_path (child d) DENTRY_FIRST ws of
     None \<Rightarrow> LEMMA_NULL | Some e \<Rightarrow> m_lemma_pos (m_dictentry d e))"

lemma trie_lookup: "trie.lookup d ws = dict_lookup d ws"
  by (simp add: trie.lookup_def dict_lookup_def node_label_def split: option.split)

lemma seek_lemma_loop_path:
  "wf_dict M d \<Longrightarrow> valid_key d k \<Longrightarrow> (pos \<ge> len \<Longrightarrow> k = nde \<and> m_value (m_dictentry d nde) = v) \<Longrightarrow>
   seek_lemma_loop d term len pos (ptr d k) v nde =
     Some (case tree_path (child d) k (gb_words term pos len) of None \<Rightarrow> LEMMA_NULL
           | Some e \<Rightarrow> m_lemma_pos (m_dictentry d e))"
proof (induction "len - pos" arbitrary: pos k v nde rule: less_induct)
  case less
  show ?case
  proof (cases "pos < len")
    case False
    then show ?thesis using less.prems by (subst seek_lemma_loop.simps) auto
  next
    case True
    obtain w pos' where g: "scw_get_word term pos len = (w, pos')" by fastforce
    have adv: "len - pos' < len - pos" using scw_get_word_shrinks [OF g [symmetric] True] .
    note st = seek_step [OF less.prems(1,2), of w]
    show ?thesis
    proof (cases "child d k w")
      case None
      then show ?thesis
        using st True g by (subst seek_lemma_loop.simps)
          (cases "ptr d k = SUFENTRY_NULL", auto simp: gb_words_step split: if_splits)
    next
      case (Some e)
      then have nn: "ptr d k \<noteq> SUFENTRY_NULL" using st(1) by auto
      with Some st(2) have e: "scw_get_sufentry (m_seinfo d) (ptr d k)
          (w mod scw_get_hashsize (m_seinfo d) (ptr d k)) = Some e" "e \<noteq> DENTRY_NULL"
          "m_value (m_dictentry d e) = w"
        by (auto split: if_splits)
      have "seek_lemma_loop d term len pos (ptr d k) v nde = seek_lemma_loop d term len pos' (ptr d e) w e"
        using True g nn e child_ptr [OF less.prems(1,2) Some] by (subst seek_lemma_loop.simps) simp
      also have "\<dots> = Some (case tree_path (child d) e (gb_words term pos' len) of None \<Rightarrow> LEMMA_NULL
           | Some e \<Rightarrow> m_lemma_pos (m_dictentry d e))"
        using less.hyps [OF adv less.prems(1), of e e w] child_valid_key [OF less.prems(1,2) Some] e by simp
      finally show ?thesis using Some True g by (simp add: gb_words_step)
    qed
  qed
qed

lemma scw_seek_lemma_lookup:
  assumes "wf_dict M d" "0 < len"
  shows "scw_seek_lemma d term len = Some (dict_lookup d (gb_words term 0 len))"
  using seek_lemma_loop_path [OF assms(1), where k = DENTRY_FIRST and pos = 0 and len = len] assms(2)
  by (simp add: scw_seek_lemma_def dict_lookup_def valid_key_def ptr_def)

lemma scw_create_worddict_wf:
  assumes "scw_create_worddict M = Some d" "M < 4294967296"
  shows "wf_dict M d" "\<And>k. valid_key d k \<Longrightarrow> kids d k = {}" "m_lmpos d = 0" "m_depos d = 0"
proof -
  have d: "m_seinfo d = scw_init_sufentry (\<lambda>_. 0) 0 1 DENTRY_FIRST" "m_seisize d = 4000" "m_seipos d = 3"
      "m_depos d = 0" "m_desize d = 2000" "m_entrance d = 0" "m_lmpos d = 0" "m_lmsize d = 1000"
      "m_wbpos d = 0" "m_wbsize d = 20000" "m_phipos d = 0" "m_phisize d = 4000" "48000 \<le> M"
    using assms(1) by (auto simp: scw_create_worddict_def default_sizes realloc_ok_def sizeofs split: if_splits)
  have se: "m_seinfo d 0 = 1" "m_seinfo d 1 = DENTRY_FIRST" "m_seinfo d 2 = DENTRY_NULL"
    by (simp_all add: d scw_init_sufentry_def scw_set_backentry_def scw_set_hashsize_def fill_def)
  have vk: "valid_key d k \<longleftrightarrow> k = DENTRY_FIRST" for k by (simp add: valid_key_def d)
  have p: "ptr d DENTRY_FIRST = 0" by (simp add: ptr_def d)
  have sl: "slots d DENTRY_FIRST = [DENTRY_NULL]"
    using se by (simp add: slots_def p get_list_def SUFENTRY_NULL_def numeral_2_eq_2)
  have "walk (m_seinfo d) 0 [0] (m_seipos d)" using se by (simp add: d)
  moreover have "lay_blocks d (set [0])"
    using se by (simp add: lay_blocks_def vk p d SUFENTRY_NULL_def) (simp add: DENTRY_FIRST_def)
  ultimately have "wf_lay d" unfolding wf_lay_def by blast
  moreover have "wf_tree d" by (simp add: wf_tree_def vk kids_def sl)
  moreover have "wf_size M d" using assms(2) d by (simp add: wf_size_def sizeofs)
  ultimately show "wf_dict M d" by (simp add: wf_dict_def)
  show "\<And>k. valid_key d k \<Longrightarrow> kids d k = {}" by (simp add: vk kids_def sl)
qed (use assms(1) in \<open>auto simp: scw_create_worddict_def split: if_splits\<close>)

lemma fresh_root:
  "scw_create_worddict M = Some d \<Longrightarrow> M < 4294967296 \<Longrightarrow> child d DENTRY_FIRST v = None"
  using child_None_iff [of d DENTRY_FIRST v] scw_create_worddict_wf(1,2) [of M d]
  by (simp add: wf_dict_def valid_key_def)

lemma fresh_lookup:
  assumes "scw_create_worddict M = Some d" "M < 4294967296" "us \<noteq> []"
  shows "dict_lookup d us = LEMMA_NULL"
proof -
  show ?thesis
    using fresh_root [OF assms(1,2)] assms(3) by (cases us) (simp_all add: dict_lookup_def)
qed

definition sample_dict :: scw_worddict where
  "sample_dict = the (scw_create_worddict 1000000)"

lemma sample_dict_create: "scw_create_worddict 1000000 = Some sample_dict"
  by (simp add: sample_dict_def scw_create_worddict_def realloc_ok_def sizeofs default_sizes)

lemma sample_dict_wf: "wf_dict 1000000 sample_dict"
  using scw_create_worddict_wf(1) [OF sample_dict_create] by simp

subsection \<open>Properties\<close>

text \<open>
  C4 Inserting a node. On a well-formed dictionary \<open>scw_insert_dentry\<close> never fails an
  assertion and its search for a collision-free hash size ends; it keeps the invariant and
  everything outside the trie. Code 0 means the child existed, code 1 that exactly this child
  was added as a fresh node without lemma, code -1 (no memory) that no child changed.
\<close>
theorem scw_insert_dentry_spec:
  assumes "wf_dict M d" "valid_key d lastpos"
  shows "\<exists>r d' cur. scw_insert_dentry M d lastpos v cur0 = Some (r, d', cur) \<and>
     wf_dict M d' \<and> trie_rest d' = trie_rest d \<and> r \<in> {-1, 0, 1} \<and>
     (\<forall>x. valid_key d x \<longrightarrow> valid_key d' x \<and>
        child d' x = (if r = 1 \<and> x = lastpos then (child d lastpos)(v \<mapsto> cur) else child d x)) \<and>
     (r = 0 \<longrightarrow> child d lastpos v = Some cur) \<and>
     (r = 1 \<longrightarrow> child d lastpos v = None \<and> \<not> valid_key d cur \<and> child d' cur = (\<lambda>_. None) \<and>
        m_lemma_pos (m_dictentry d' cur) = LEMMA_NULL)"
proof -
  obtain r d' cur where I: "scw_insert_dentry M d lastpos v cur0 = Some (r, d', cur)"
      and R: "wf_dict M d'" "trie_frame d d'" "ins_spec d lastpos v r d' cur"
    by (rule insert_dentry_ok [OF assms])
  have "r \<in> {-1, 0, 1}" using R(3) by (auto simp: ins_spec_def split: if_splits)
  moreover have "r = 1 \<longrightarrow> child d lastpos v = None \<and> \<not> valid_key d cur \<and> child d' cur = (\<lambda>_. None) \<and>
        m_lemma_pos (m_dictentry d' cur) = LEMMA_NULL"
    using ins_spec_new [OF assms(1) R(1)] R(3) by (auto simp: node_label_def)
  moreover have "r = 0 \<longrightarrow> child d lastpos v = Some cur" using R(3) by (simp add: ins_spec_def)
  ultimately show ?thesis
    using I R trie_frame_rest [OF R(2)] ins_spec_child [OF assms(1) R(1,3) assms(2)]
      trie.ins_valid [OF assms I]
    by (intro exI [of _ r] exI [of _ d'] exI [of _ cur]) simp
qed

theorem scw_insert_dentry_spec_witness:
  "\<exists>r d' cur. scw_insert_dentry 1000000 sample_dict DENTRY_FIRST 65 0 = Some (r, d', cur) \<and>
     wf_dict 1000000 d'"
  using scw_insert_dentry_spec [OF sample_dict_wf, of DENTRY_FIRST 65 0] by (auto simp: valid_key_def)

text \<open>
  C5 Squeezing the block array finds no inconsistency on a well-formed dictionary, never makes
  the used part longer, and keeps the invariant and every child, value and lemma of the trie.
\<close>
theorem scw_adjust_seinfo_keeps_trie:
  assumes "wf_dict M d"
  shows "\<exists>d'. scw_adjust_seinfo d = (1, d') \<and> wf_dict M d' \<and> m_seipos d' \<le> m_seipos d \<and>
     (\<forall>k. valid_key d k \<longrightarrow> child d' k = child d k) \<and>
     (\<forall>us. dict_lookup d' us = dict_lookup d us)"
proof -
  obtain d' where A: "scw_adjust_seinfo d = (1, d')" "wf_lay d'" "same_nodes d d'" "trie_frame d d'"
      "m_seipos d' \<le> m_seipos d" "m_seisize d' = m_seisize d" "m_desize d' = m_desize d"
    using scw_adjust_seinfo_lay assms unfolding wf_dict_def by blast
  have W': "wf_dict M d'" using adjust_wf [OF assms A(1)] .
  have ch: "child d' k = child d k" if "valid_key d k" for k
    using A(3) that by (simp add: fun_eq_iff child_def same_nodes_def)
  have "tree_path (child d') k us = tree_path (child d) k us" if "valid_key d k" for k us
    using that child_valid_key [OF assms]
    by (induction us arbitrary: k) (auto simp: ch split: option.splits)
  moreover have "valid_key d DENTRY_FIRST" by (simp add: valid_key_def)
  ultimately have "dict_lookup d' us = dict_lookup d us" for us
    using A(3) by (simp add: dict_lookup_def same_nodes_def split: option.split)
  then show ?thesis using A(1,5) W' ch by blast
qed

theorem scw_adjust_seinfo_keeps_trie_witness:
  "\<exists>d'. scw_adjust_seinfo sample_dict = (1, d') \<and> wf_dict 1000000 d'"
  using scw_adjust_seinfo_keeps_trie [OF sample_dict_wf] by blast

text \<open>
  C6 The three lookups agree with the tree: \<open>scw_seek_entry\<close> is one step down,
  \<open>scw_seek_wordentry\<close> the node of a word list, \<open>scw_seek_lemma\<close> the lemma of the node that the
  words of the term lead to; none of them fails an assertion.
\<close>
theorem seek_functions_agree:
  assumes "wf_dict M d" "valid_key d k"
  shows "scw_seek_entry d k v = Some (case child d k v of None \<Rightarrow> DENTRY_NULL | Some e \<Rightarrow> e) \<and>
     scw_seek_wordentry d ws = Some (if ws = [] then COMMON_NULL
       else case tree_path (child d) DENTRY_FIRST ws of None \<Rightarrow> DENTRY_NULL | Some e \<Rightarrow> e) \<and>
     scw_seek_lemma d s (length s) = Some (if s = [] then LEMMA_NULL else dict_lookup d (gb_words s 0 (length s)))"
  using scw_seek_entry_child [OF assms] scw_seek_lemma_lookup [OF assms(1), of "length s" s]
    seek_wordentry_loop_path [OF assms(1), of DENTRY_FIRST COMMON_NULL ws]
  by (simp add: scw_seek_wordentry_def ptr_def valid_key_def) (simp add: scw_seek_lemma_def)

theorem seek_functions_agree_witness:
  "scw_seek_lemma sample_dict ''ab'' 2 = Some LEMMA_NULL \<and> scw_seek_entry sample_dict DENTRY_FIRST 7 = Some DENTRY_NULL"
  using seek_functions_agree [OF sample_dict_wf, of DENTRY_FIRST 7 "[]" "''ab''"]
    fresh_lookup [OF sample_dict_create, of "[7]"] fresh_lookup [OF sample_dict_create, of "gb_words ''ab'' 0 2"]
    gb_words_nonempty [of "''ab''"] fresh_root [OF sample_dict_create, of 7]
  by (simp add: valid_key_def numeral_2_eq_2)

end
