(* ===== verification/AddLemma.thy ===== *)
theory AddLemma
  imports Trie
begin

text \<open>
  Adding a lemma (\<open>scw_add_lemma\<close>, \<open>scw_add_lemma_man\<close> of \<open>segdict.cpp\<close>): its term becomes a
  path of the trie, its record an element of \<open>m_lemmalist\<close>, its text or its parts go to
  \<open>m_wordbuf\<close> or \<open>m_phinfo\<close>; and reading lemmas back (\<open>get_static_lmstr\<close>, \<open>mm_seek_lemma\<close>).

  The dynamic dictionary \<open>Sdict_build\<close> is a library the sources only call. It is a parameter:
  its operations are the fields of \<open>sdict\<close>, its state is of any type and may be absent (a NULL
  pointer).
\<close>

record 'x sdict =
  creat_sign_f64 :: "string \<Rightarrow> nat \<times> nat"
  db_seek :: "'x \<Rightarrow> nat \<times> nat \<Rightarrow> int \<times> nat"
  db_add :: "'x \<Rightarrow> nat \<times> nat \<Rightarrow> nat \<Rightarrow> int \<times> 'x"

definition scw_seek_dynword :: "'x sdict \<Rightarrow> 'x option \<Rightarrow> string \<Rightarrow> nat" where
  "scw_seek_dynword S pdict term =
     (case pdict of None \<Rightarrow> LEMMA_NULL
      | Some p \<Rightarrow> let (ret, code) = db_seek S p (creat_sign_f64 S term) in
          if ret \<le> 0 then LEMMA_NULL else code)"

definition scw_insert_dynword :: "'x sdict \<Rightarrow> 'x option \<Rightarrow> string \<Rightarrow> nat \<Rightarrow> int \<times> 'x option" where
  "scw_insert_dynword S pdict term lmpos =
     (case pdict of None \<Rightarrow> (-1, None)
      | Some p \<Rightarrow> let (ret, p') = db_add S p (creat_sign_f64 S term) lmpos in
          (if ret < 0 then -1 else 0, Some p'))"

subsection \<open>The input record\<close>

text \<open>\<open>scw_inlemma_t\<close>; \<open>m_wordlist\<close> and \<open>m_subphlist\<close> hold pairs, flattened as in the code.\<close>

record scw_inlemma =
  m_lmstr :: string
  i_type :: nat
  i_weight :: nat
  i_property :: scw_property
  m_bwcount :: nat
  m_sphcount :: nat
  m_wordlist :: "nat buf"
  m_subphlist :: "nat buf"
  m_mcount :: nat
  m_manuallist :: "nat buf"

definition LEMMA_TYPE_SBASIC :: nat where "LEMMA_TYPE_SBASIC = 0"
definition LEMMA_TYPE_DBASIC :: nat where "LEMMA_TYPE_DBASIC = 1"
definition LEMMA_TYPE_SPHRASE :: nat where "LEMMA_TYPE_SPHRASE = 2"
definition LEMMA_TYPE_DPHRASE :: nat where "LEMMA_TYPE_DPHRASE = 3"
definition LEMMA_TYPE_QYPD :: nat where "LEMMA_TYPE_QYPD = 4"
definition LEMMA_TYPE_POLY :: nat where "LEMMA_TYPE_POLY = 5"
definition LEMMA_TYPE_MAN :: nat where "LEMMA_TYPE_MAN = 6"

lemmas lemma_types = LEMMA_TYPE_SBASIC_def LEMMA_TYPE_DBASIC_def LEMMA_TYPE_SPHRASE_def
  LEMMA_TYPE_DPHRASE_def LEMMA_TYPE_QYPD_def LEMMA_TYPE_POLY_def LEMMA_TYPE_MAN_def

subsection \<open>The term\<close>

text \<open>
  The loop over the words of the term: its state is the dictionary, \<open>curpos\<close>, \<open>value\<close>,
  \<open>last_depos\<close>, \<open>cur_depos\<close> and \<open>pre_lmpos\<close>.
\<close>

function insert_term :: "nat \<Rightarrow> scw_worddict \<Rightarrow> string \<Rightarrow> nat \<Rightarrow> nat \<Rightarrow> nat \<Rightarrow> nat \<Rightarrow> nat \<Rightarrow> nat \<Rightarrow>
    (int \<times> scw_worddict \<times> nat \<times> nat \<times> nat) option" where
  "insert_term M d s len curpos v last_depos cur_depos pre_lmpos =
     (if curpos < len then
        (let (v', curpos') = scw_get_word s curpos len in
         (case scw_insert_dentry M d last_depos v' cur_depos of
            None \<Rightarrow> None
          | Some (r, d', cur) \<Rightarrow>
              if r < 0 then Some (-1, d', v', cur, pre_lmpos)
              else insert_term M d' s len curpos' v' cur cur
                (if last_depos \<noteq> DENTRY_FIRST \<and> m_lemma_pos (m_dictentry d' last_depos) \<noteq> LEMMA_NULL
                 then m_lemma_pos (m_dictentry d' last_depos) else pre_lmpos)))
      else Some (1, d, v, cur_depos, pre_lmpos))"
  by pat_completeness auto

termination insert_term
  by (relation "measure (\<lambda>(M, d, s, len, curpos, _). len - curpos)") (auto dest: scw_get_word_shrinks)

declare insert_term.simps [simp del]

subsection \<open>The record and the parts\<close>

definition set_lemma :: "scw_worddict \<Rightarrow> nat \<Rightarrow> (scw_lemma \<Rightarrow> scw_lemma) \<Rightarrow> scw_worddict" where
  "set_lemma d lmpos f = d\<lparr>m_lemmalist := (m_lemmalist d)(lmpos := f (m_lemmalist d lmpos))\<rparr>"

function grow_wordbuf :: "nat \<Rightarrow> scw_worddict \<Rightarrow> nat \<Rightarrow> int \<times> scw_worddict" where
  "grow_wordbuf M d need =
     (if m_wbpos d + need > m_wbsize d then
        let (r, d') = scw_resize_wordbuf M d (m_wbsize d * 2) in
        if r \<noteq> 1 then (-1, d') else grow_wordbuf M d' need
      else (1, d))"
  by pat_completeness auto

termination grow_wordbuf
  by (relation "measure (\<lambda>(M, d, need). m_wbpos d + need - m_wbsize d)")
     (auto simp: scw_resize_wordbuf_def resize_code_def Let_def split: if_splits)

declare grow_wordbuf.simps [simp del]

function grow_phinfo :: "nat \<Rightarrow> scw_worddict \<Rightarrow> nat \<Rightarrow> int \<times> scw_worddict" where
  "grow_phinfo M d need =
     (if m_phipos d + need > m_phisize d then
        let (r, d') = scw_resize_phinfo M d (m_phisize d * 2) in
        if r \<noteq> 1 then (-1, d') else grow_phinfo M d' need
      else (1, d))"
  by pat_completeness auto

termination grow_phinfo
  by (relation "measure (\<lambda>(M, d, need). m_phipos d + need - m_phisize d)")
     (auto simp: scw_resize_phinfo_def resize_code_def Let_def split: if_splits)

declare grow_phinfo.simps [simp del]

definition store_sbasic :: "nat \<Rightarrow> scw_worddict \<Rightarrow> nat \<Rightarrow> scw_inlemma \<Rightarrow> (int \<times> scw_worddict) option" where
  "store_sbasic M d lmpos inlm =
     (let s = m_lmstr inlm; (r, d1) = grow_wordbuf M d (length s + 1) in
      if r < 0 then Some (-1, d1)
      else do {
        c_assert (m_wbpos d1 + (length s + 1) \<le> m_wbsize d1);
        Some (1, (set_lemma d1 lmpos (\<lambda>l. l\<lparr>m_word_bpos := m_wbpos d1, m_subphinfo_bpos := COMMON_NULL\<rparr>))
          \<lparr>m_wordbuf := put_list (m_wordbuf d1) (m_wbpos d1) (map of_char s @ [0]),
           m_wbpos := m_wbpos d1 + (length s + 1)\<rparr>) })"

text \<open>The words of a phrase and its subphrases, as they are written to \<open>m_phinfo\<close>.\<close>

definition word_cells :: "scw_inlemma \<Rightarrow> nat list" where
  "word_cells inlm = m_bwcount inlm # map (\<lambda>i. m_wordlist inlm (i * 2 + 1)) [0..<m_bwcount inlm]"

definition subph_cells :: "scw_inlemma \<Rightarrow> nat list" where
  "subph_cells inlm =
     (if m_sphcount inlm > 0 then m_sphcount inlm # get_list (m_subphlist inlm) 0 (2 * m_sphcount inlm)
      else [])"

definition store_phrase :: "nat \<Rightarrow> scw_worddict \<Rightarrow> nat \<Rightarrow> scw_inlemma \<Rightarrow> (int \<times> scw_worddict) option" where
  "store_phrase M d lmpos inlm =
     (let need = m_bwcount inlm + 1 + 2 * m_sphcount inlm + 1; (r, d1) = grow_phinfo M d need in
      if r < 0 then Some (-1, d1)
      else do {
        c_assert (m_phipos d1 + need \<le> m_phisize d1);
        c_assert (m_bwcount inlm > 1);
        let ws = word_cells inlm; sp = subph_cells inlm in
        Some (1, (set_lemma d1 lmpos (\<lambda>l. l\<lparr>m_word_bpos := m_phipos d1,
             m_subphinfo_bpos := (if m_sphcount inlm > 0 then m_phipos d1 + length ws else COMMON_NULL)\<rparr>))
          \<lparr>m_phinfo := put_list (m_phinfo d1) (m_phipos d1) (ws @ sp),
           m_phipos := m_phipos d1 + (length ws + length sp)\<rparr>) })"

definition store_man :: "nat \<Rightarrow> scw_worddict \<Rightarrow> nat \<Rightarrow> scw_inlemma \<Rightarrow> (int \<times> scw_worddict) option" where
  "store_man M d lmpos inlm =
     (let need = m_mcount inlm + 1; (r, d1) = grow_phinfo M d need in
      if r < 0 then Some (-1, d1)
      else let d2 = set_lemma d1 lmpos (\<lambda>l. l\<lparr>m_word_bpos := m_phipos d1, m_subphinfo_bpos := COMMON_NULL\<rparr>) in
        if m_mcount inlm \<le> 1 then Some (-1, d2)
        else Some (1, d2\<lparr>m_phinfo := put_list (m_phinfo d2) (m_phipos d2)
               (m_mcount inlm # get_list (m_manuallist inlm) 0 (m_mcount inlm)),
             m_phipos := m_phipos d2 + need\<rparr>))"

text \<open>The \<open>switch\<close> that ends both functions.\<close>

definition store_parts :: "nat \<Rightarrow> scw_worddict \<Rightarrow> nat \<Rightarrow> scw_inlemma \<Rightarrow> (int \<times> scw_worddict) option" where
  "store_parts M d lmpos inlm =
     (if i_type inlm = LEMMA_TYPE_SBASIC then store_sbasic M d lmpos inlm
      else if i_type inlm = LEMMA_TYPE_SPHRASE \<or> i_type inlm = LEMMA_TYPE_QYPD
      then store_phrase M d lmpos inlm
      else if i_type inlm = LEMMA_TYPE_MAN then store_man M d lmpos inlm
      else Some (-1, d))"

text \<open>Linking the term: nothing for a temporary lemma, which stays out of the trie.\<close>

definition link_term :: "nat \<Rightarrow> scw_worddict \<Rightarrow> scw_inlemma \<Rightarrow> (int \<times> scw_worddict \<times> nat \<times> nat) option" where
  "link_term M d inlm =
     (if IS_TEMP (i_property inlm) then Some (1, d, COMMON_NULL, LEMMA_NULL)
      else do {
        (r, d1, v, cur, pre) \<leftarrow> insert_term M d (m_lmstr inlm) (length (m_lmstr inlm)) 0 0
          DENTRY_FIRST COMMON_NULL LEMMA_NULL;
        if r < 0 then Some (-1, d1, cur, pre)
        else do { c_assert (cur < m_depos d1 \<and> m_value (m_dictentry d1 cur) = v);
                  Some (1, d1, cur, pre) } })"

text \<open>The fields both functions fill in a new record; the three bit fields truncate.\<close>

definition fill_lemma :: "scw_inlemma \<Rightarrow> nat \<Rightarrow> scw_lemma \<Rightarrow> scw_lemma" where
  "fill_lemma inlm pre l = l\<lparr>m_type := i_type inlm mod 8, m_weight := i_weight inlm mod 2 ^ 21,
     m_length := length (m_lmstr inlm) mod 256, m_property := i_property inlm,
     m_prelm_pos := pre, m_utilinfo_pos := COMMON_NULL\<rparr>"

text \<open>A new lemma: term, record, dynamic word. The code, the dictionaries and \<open>lmpos\<close>.\<close>

definition new_lemma :: "'x sdict \<Rightarrow> nat \<Rightarrow> scw_worddict \<Rightarrow> 'x option \<Rightarrow> scw_inlemma \<Rightarrow>
    (int \<times> scw_worddict \<times> 'x option \<times> nat) option" where
  "new_lemma S M d x inlm = do {
     (r, d1, cur, pre) \<leftarrow> link_term M d inlm;
     if r < 0 then Some (-1, d1, x, LEMMA_NULL)
     else
       (let (r2, d2) = (if m_lmpos d1 = m_lmsize d1
                        then scw_resize_lemma M d1 (m_lmsize d1 + LEMMA_ADD_SIZE) else (1, d1)) in
        if r2 \<noteq> 1 then Some (-1, d2, x, LEMMA_NULL)
        else do {
          c_assert (m_lmpos d2 < m_lmsize d2);
          let lmpos = m_lmpos d2;
          let d3 = d2\<lparr>m_lmpos := m_lmpos d2 + 1\<rparr>;
          let d4 = (if IS_TEMP (i_property inlm) then d3 else set_lemma_pos d3 cur lmpos);
          let d5 = set_lemma d4 lmpos (fill_lemma inlm pre);
          let x' = (if IS_TEMP (i_property inlm) then snd (scw_insert_dynword S x (m_lmstr inlm) lmpos) else x);
          Some (1, d5, x', lmpos) }) }"

definition seek_static_dyn :: "'x sdict \<Rightarrow> scw_worddict \<Rightarrow> 'x option \<Rightarrow> string \<Rightarrow> nat option" where
  "seek_static_dyn S d x s = do {
     lmpos \<leftarrow> scw_seek_lemma d s (length s);
     Some (if lmpos \<noteq> LEMMA_NULL then lmpos else scw_seek_dynword S x s) }"

definition scw_add_lemma :: "'x sdict \<Rightarrow> nat \<Rightarrow> scw_worddict \<Rightarrow> 'x option \<Rightarrow> scw_inlemma \<Rightarrow>
    (int \<times> scw_worddict \<times> 'x option) option" where
  "scw_add_lemma S M d x inlm = do {
     lmpos \<leftarrow> seek_static_dyn S d x (m_lmstr inlm);
     if lmpos \<noteq> LEMMA_NULL then
       if \<not> IS_TEMP (m_property (m_lemmalist d lmpos)) \<and> IS_TEMP (i_property inlm) then Some (0, d, x)
       else Some (0, set_lemma d lmpos (\<lambda>l. l\<lparr>m_length := length (m_lmstr inlm) mod 256,
              m_weight := i_weight inlm mod 2 ^ 21, m_property := i_property inlm\<rparr>), x)
     else do {
       (r, d1, x', lmpos) \<leftarrow> new_lemma S M d x inlm;
       if r < 0 then Some (-1, d1, x')
       else do { (r, d2) \<leftarrow> store_parts M d1 lmpos inlm; Some (r, d2, x') } } }"

definition scw_add_lemma_man :: "'x sdict \<Rightarrow> nat \<Rightarrow> scw_worddict \<Rightarrow> 'x option \<Rightarrow> scw_inlemma \<Rightarrow>
    (int \<times> scw_worddict \<times> 'x option) option" where
  "scw_add_lemma_man S M d x inlm = do {
     lmpos \<leftarrow> seek_static_dyn S d x (m_lmstr inlm);
     if lmpos = LEMMA_NULL then do {
       (r, d1, x', lmpos) \<leftarrow> new_lemma S M d x inlm;
       if r < 0 then Some (-1, d1, x')
       else do { (r, d2) \<leftarrow> store_parts M d1 lmpos inlm; Some (r, d2, x') } }
     else do {
       (r, d2) \<leftarrow> store_parts M (set_lemma d lmpos (\<lambda>l. l\<lparr>m_type := i_type inlm mod 8,
            m_weight := i_weight inlm mod 2 ^ 21, m_property := i_property inlm\<rparr>)) lmpos inlm;
       Some (r, d2, x) } }"

subsection \<open>Reading a lemma\<close>

text \<open>The words of a static phrase, concatenated from their records.\<close>

definition basic_bytes :: "scw_worddict \<Rightarrow> nat \<Rightarrow> nat list" where
  "basic_bytes d pos = get_list (m_wordbuf d) (m_word_bpos (m_lemmalist d pos)) (m_length (m_lemmalist d pos))"

text \<open>The bytes written to \<open>dest\<close> (without the terminator); their number is the result.\<close>

definition get_static_lmstr :: "scw_worddict \<Rightarrow> scw_lemma \<Rightarrow> nat list" where
  "get_static_lmstr d lm =
     (if m_type lm = LEMMA_TYPE_SBASIC then get_list (m_wordbuf d) (m_word_bpos lm) (m_length lm)
      else if m_type lm = LEMMA_TYPE_SPHRASE
      then concat (map (\<lambda>i. basic_bytes d (m_phinfo d (m_word_bpos lm + i + 1)))
             [0..<m_phinfo d (m_word_bpos lm)])
      else [])"

text \<open>
  \<open>mm_seek_lemma\<close>: the loop after the first word, with the state \<open>curpos\<close>, \<open>sufpos\<close>, \<open>lmpos\<close>,
  \<open>newpos\<close>; the result is the lemma position (\<open>COMMON_NULL\<close> for NULL) and the new position.
\<close>

function mm_loop :: "scw_worddict \<Rightarrow> string \<Rightarrow> nat \<Rightarrow> bool \<Rightarrow> nat \<Rightarrow> nat \<Rightarrow> nat \<Rightarrow> nat \<Rightarrow> (nat \<times> nat) option" where
  "mm_loop d buff slen basiconly curpos sufpos lmpos newpos =
     (if curpos < slen \<and> sufpos \<noteq> SUFENTRY_NULL then
        (let (v, curpos') = scw_get_word buff curpos slen in
         (case scw_get_sufentry (m_seinfo d) sufpos (v mod scw_get_hashsize (m_seinfo d) sufpos) of
            None \<Rightarrow> None
          | Some nde \<Rightarrow>
              if nde = DENTRY_NULL \<or> m_value (m_dictentry d nde) \<noteq> v then Some (lmpos, newpos)
              else (let l = m_lemma_pos (m_dictentry d nde) in
                if l \<noteq> COMMON_NULL \<and> basiconly \<and> m_type (m_lemmalist d l) = LEMMA_TYPE_SPHRASE
                then Some (lmpos, newpos)
                else mm_loop d buff slen basiconly curpos' (m_suffix_pos (m_dictentry d nde))
                  (if l \<noteq> COMMON_NULL then l else lmpos) (if l \<noteq> COMMON_NULL then curpos' else newpos))))
      else Some (lmpos, newpos))"
  by pat_completeness auto

termination mm_loop
  by (relation "measure (\<lambda>(d, buff, slen, b, curpos, _). slen - curpos)") (auto dest: scw_get_word_shrinks)

declare mm_loop.simps [simp del]

definition mm_seek_lemma :: "scw_worddict \<Rightarrow> string \<Rightarrow> nat \<Rightarrow> nat \<Rightarrow> bool \<Rightarrow> (nat \<times> nat) option" where
  "mm_seek_lemma d buff slen curpos basiconly =
     (if curpos \<ge> slen then Some (COMMON_NULL, curpos)
      else (let (v, curpos') = scw_get_word buff curpos slen in do {
        nde \<leftarrow> scw_get_sufentry (m_seinfo d) (m_entrance d) (v mod scw_get_hashsize (m_seinfo d) (m_entrance d));
        if nde = DENTRY_NULL \<or> m_value (m_dictentry d nde) \<noteq> v then Some (COMMON_NULL, curpos')
        else let l = m_lemma_pos (m_dictentry d nde) in
          mm_loop d buff slen basiconly curpos' (m_suffix_pos (m_dictentry d nde))
            (if l \<noteq> COMMON_NULL then l else COMMON_NULL)
            (if l \<noteq> COMMON_NULL then curpos' else curpos) }))"

subsection \<open>Operations that leave the trie alone\<close>

definition trie_same :: "scw_worddict \<Rightarrow> scw_worddict \<Rightarrow> bool" where
  "trie_same d d' \<longleftrightarrow> m_seinfo d' = m_seinfo d \<and> m_seisize d' = m_seisize d \<and>
     m_seipos d' = m_seipos d \<and> m_dictentry d' = m_dictentry d \<and> m_desize d' = m_desize d \<and>
     m_depos d' = m_depos d \<and> m_entrance d' = m_entrance d"

lemma trie_same_lay:
  assumes "trie_same d d'"
  shows "slots d' = slots d" "valid_key d' = valid_key d" "ptr d' = ptr d" "kids d' = kids d"
    "child d' = child d" "wf_lay d' = wf_lay d" "wf_tree d' = wf_tree d" "dict_lookup d' = dict_lookup d"
proof -
  note T = assms [unfolded trie_same_def]
  show 1: "slots d' = slots d" "valid_key d' = valid_key d" "ptr d' = ptr d"
    by (simp_all add: fun_eq_iff slots_def valid_key_def ptr_def T)
  show 2: "kids d' = kids d" "child d' = child d"
    by (simp_all add: fun_eq_iff kids_def child_def 1 T)
  show "wf_lay d' = wf_lay d" by (simp add: wf_lay_def lay_blocks_def 1 T)
  show "wf_tree d' = wf_tree d" by (simp add: wf_tree_def 1 2 T)
  have "m_dictentry d' = m_dictentry d" using T by simp
  then show "dict_lookup d' = dict_lookup d" by (intro ext) (simp only: dict_lookup_def 2)
qed

lemma trie_same_wf: "trie_same d d' \<Longrightarrow> wf_dict M d \<Longrightarrow> wf_size M d' \<Longrightarrow> wf_dict M d'"
  by (simp add: wf_dict_def trie_same_lay)

lemma trie_same_refl [simp]: "trie_same d d"
  by (simp add: trie_same_def)

lemma trie_same_trans: "trie_same d d' \<Longrightarrow> trie_same d' d'' \<Longrightarrow> trie_same d d''"
  by (simp add: trie_same_def)

lemma trie_same_set_lemma [simp]: "trie_same d (set_lemma d l f)"
  by (simp add: trie_same_def set_lemma_def)

lemma set_lemma_wf [simp]: "wf_dict M (set_lemma d l f) = wf_dict M d"
  using trie_same_wf [OF trie_same_set_lemma [of d l f], of M]
  by (auto simp: wf_dict_def wf_size_def set_lemma_def trie_same_lay [OF trie_same_set_lemma [unfolded set_lemma_def]])

lemma set_lemma_fields [simp]:
  "m_lmpos (set_lemma d l f) = m_lmpos d" "m_wbpos (set_lemma d l f) = m_wbpos d"
  "m_wbsize (set_lemma d l f) = m_wbsize d" "m_phipos (set_lemma d l f) = m_phipos d"
  "m_phisize (set_lemma d l f) = m_phisize d" "m_wordbuf (set_lemma d l f) = m_wordbuf d"
  "m_phinfo (set_lemma d l f) = m_phinfo d" "m_dictentry (set_lemma d l f) = m_dictentry d"
  "m_lemmalist (set_lemma d l f) k = (if k = l then f (m_lemmalist d l) else m_lemmalist d k)"
  by (simp_all add: set_lemma_def)

lemma grow_wordbuf_ok:
  "wf_dict M d \<Longrightarrow> \<exists>r n. grow_wordbuf M d need = (r, d\<lparr>m_wbsize := n\<rparr>) \<and> wf_dict M (d\<lparr>m_wbsize := n\<rparr>) \<and>
     (r = 1 \<and> m_wbpos d + need \<le> n \<or> r = -1)"
proof (induction M d need rule: grow_wordbuf.induct)
  case (1 M d need)
  let ?n = "m_wbsize d * 2" and ?d1 = "d\<lparr>m_wbsize := m_wbsize d * 2\<rparr>"
  show ?case
  proof (cases "m_wbpos d + need > m_wbsize d \<and> fst (scw_resize_wordbuf M d ?n) = 1")
    case True
    have rs: "scw_resize_wordbuf M d ?n = (1, ?d1)" and le: "?n \<le> M"
      using True by (auto simp: scw_resize_wordbuf_def resize_code_def realloc_ok_def Let_def
          split: if_splits)
    have "trie_same d ?d1" by (simp add: trie_same_def)
    moreover have "wf_size M ?d1" using "1.prems" le by (simp add: wf_dict_def wf_size_def)
    ultimately have "wf_dict M ?d1" by (rule trie_same_wf [OF _ "1.prems"])
    moreover have "grow_wordbuf M d need = grow_wordbuf M ?d1 need"
      using True rs by (subst grow_wordbuf.simps) simp
    ultimately show ?thesis
      using "1.IH" [of "(1, ?d1)" 1 ?d1] True rs by simp
  next
    case False
    have "d\<lparr>m_wbsize := m_wbsize d\<rparr> = d" by simp
    moreover have "grow_wordbuf M d need = (if m_wbpos d + need > m_wbsize d then -1 else 1, d)"
      using False by (subst grow_wordbuf.simps)
        (auto simp: scw_resize_wordbuf_def Let_def split: if_splits)
    ultimately show ?thesis using "1.prems" 
      by (intro exI [of _ "if m_wbpos d + need > m_wbsize d then -1 else (1::int)"] exI [of _ "m_wbsize d"]) auto
  qed
qed

lemma grow_phinfo_ok:
  "wf_dict M d \<Longrightarrow> \<exists>r n. grow_phinfo M d need = (r, d\<lparr>m_phisize := n\<rparr>) \<and> wf_dict M (d\<lparr>m_phisize := n\<rparr>) \<and>
     (r = 1 \<and> m_phipos d + need \<le> n \<or> r = -1)"
proof (induction M d need rule: grow_phinfo.induct)
  case (1 M d need)
  let ?n = "m_phisize d * 2" and ?d1 = "d\<lparr>m_phisize := m_phisize d * 2\<rparr>"
  show ?case
  proof (cases "m_phipos d + need > m_phisize d \<and> fst (scw_resize_phinfo M d ?n) = 1")
    case True
    have rs: "scw_resize_phinfo M d ?n = (1, ?d1)" and le: "?n * 4 \<le> M"
      using True by (auto simp: scw_resize_phinfo_def resize_code_def realloc_ok_def Let_def
          split: if_splits)
    have "trie_same d ?d1" by (simp add: trie_same_def)
    moreover have "wf_size M ?d1" using "1.prems" le by (simp add: wf_dict_def wf_size_def)
    ultimately have "wf_dict M ?d1" by (rule trie_same_wf [OF _ "1.prems"])
    moreover have "grow_phinfo M d need = grow_phinfo M ?d1 need"
      using True rs by (subst grow_phinfo.simps) simp
    ultimately show ?thesis
      using "1.IH" [of "(1, ?d1)" 1 ?d1] True rs by simp
  next
    case False
    have "d\<lparr>m_phisize := m_phisize d\<rparr> = d" by simp
    moreover have "grow_phinfo M d need = (if m_phipos d + need > m_phisize d then -1 else 1, d)"
      using False by (subst grow_phinfo.simps)
        (auto simp: scw_resize_phinfo_def Let_def split: if_splits)
    ultimately show ?thesis using "1.prems" 
      by (intro exI [of _ "if m_phipos d + need > m_phisize d then -1 else (1::int)"] exI [of _ "m_phisize d"]) auto
  qed
qed

lemma length_cells [simp]:
  "length (word_cells inlm) = m_bwcount inlm + 1"
  "length (subph_cells inlm) \<le> 2 * m_sphcount inlm + 1"
  by (simp_all add: word_cells_def subph_cells_def)

text \<open>
  Storing the parts never fails an assertion, except that a phrase must have two words; it
  leaves the trie, the older records and \<open>m_lmpos\<close> alone.
\<close>

definition store_spec :: "nat \<Rightarrow> scw_worddict \<Rightarrow> nat \<Rightarrow> int \<Rightarrow> scw_worddict \<Rightarrow> bool" where
  "store_spec M d lmpos r d' \<longleftrightarrow> wf_dict M d' \<and> trie_same d d' \<and> (r = 1 \<or> r = -1) \<and>
     m_lmpos d' = m_lmpos d \<and> (\<forall>l. l \<noteq> lmpos \<longrightarrow> m_lemmalist d' l = m_lemmalist d l) \<and>
     m_property (m_lemmalist d' lmpos) = m_property (m_lemmalist d lmpos)"

lemma store_sbasic_ok:
  assumes W: "wf_dict M d"
  obtains r d' where "store_sbasic M d lmpos inlm = Some (r, d')" "store_spec M d lmpos r d'"
    "r = 1 \<Longrightarrow> m_wordbuf d' = put_list (m_wordbuf d) (m_wbpos d) (map of_char (m_lmstr inlm) @ [0])"
    "r = 1 \<Longrightarrow> m_lemmalist d' lmpos = (m_lemmalist d lmpos)\<lparr>m_word_bpos := m_wbpos d, m_subphinfo_bpos := COMMON_NULL\<rparr>"
proof -
  let ?n = "length (m_lmstr inlm) + 1"
  obtain r n where g: "grow_wordbuf M d ?n = (r, d\<lparr>m_wbsize := n\<rparr>)" "wf_dict M (d\<lparr>m_wbsize := n\<rparr>)"
      "r = 1 \<and> m_wbpos d + ?n \<le> n \<or> r = -1"
    using grow_wordbuf_ok [OF W] by blast
  let ?d1 = "d\<lparr>m_wbsize := n\<rparr>"
  have s1: "trie_same d ?d1" by (simp add: trie_same_def)
  show ?thesis
  proof (cases "r = 1")
    case False
    then show ?thesis
      using that [of "-1" ?d1] g s1 by (simp add: store_sbasic_def store_spec_def)
  next
    case True
    let ?d' = "(set_lemma ?d1 lmpos (\<lambda>l. l\<lparr>m_word_bpos := m_wbpos d, m_subphinfo_bpos := COMMON_NULL\<rparr>))
        \<lparr>m_wordbuf := put_list (m_wordbuf d) (m_wbpos d) (map of_char (m_lmstr inlm) @ [0]),
         m_wbpos := m_wbpos d + ?n\<rparr>"
    have T: "trie_same ?d1 ?d'" by (simp add: trie_same_def set_lemma_def)
    have "wf_dict M ?d'"
      using T g(2) by (rule trie_same_wf) (use g True W in \<open>simp add: wf_dict_def wf_size_def set_lemma_def\<close>)
    then have "store_spec M d lmpos 1 ?d'"
      using trie_same_trans [OF s1 T] by (simp add: store_spec_def)
    moreover have "store_sbasic M d lmpos inlm = Some (1, ?d')"
      using g True by (simp add: store_sbasic_def Let_def)
    ultimately show ?thesis using that by simp
  qed
qed

lemma store_phrase_ok:
  assumes W: "wf_dict M d" and two: "1 < m_bwcount inlm"
  obtains r d' where "store_phrase M d lmpos inlm = Some (r, d')" "store_spec M d lmpos r d'"
    "r = 1 \<Longrightarrow> m_phinfo d' = put_list (m_phinfo d) (m_phipos d) (word_cells inlm @ subph_cells inlm)"
    "r = 1 \<Longrightarrow> m_word_bpos (m_lemmalist d' lmpos) = m_phipos d \<and> m_wordbuf d' = m_wordbuf d \<and>
       m_type (m_lemmalist d' lmpos) = m_type (m_lemmalist d lmpos)"
proof -
  let ?n = "m_bwcount inlm + 1 + 2 * m_sphcount inlm + 1"
  obtain r n where g: "grow_phinfo M d ?n = (r, d\<lparr>m_phisize := n\<rparr>)" "wf_dict M (d\<lparr>m_phisize := n\<rparr>)"
      "r = 1 \<and> m_phipos d + ?n \<le> n \<or> r = -1"
    using grow_phinfo_ok [OF W] by blast
  let ?d1 = "d\<lparr>m_phisize := n\<rparr>"
  have s1: "trie_same d ?d1" by (simp add: trie_same_def)
  show ?thesis
  proof (cases "r = 1")
    case False
    then show ?thesis
      using that [of "-1" ?d1] g s1 by (simp add: store_phrase_def store_spec_def)
  next
    case True
    let ?ws = "word_cells inlm" and ?sp = "subph_cells inlm"
    let ?d' = "(set_lemma ?d1 lmpos (\<lambda>l. l\<lparr>m_word_bpos := m_phipos d, m_subphinfo_bpos :=
        (if m_sphcount inlm > 0 then m_phipos d + length ?ws else COMMON_NULL)\<rparr>))
        \<lparr>m_phinfo := put_list (m_phinfo d) (m_phipos d) (?ws @ ?sp),
         m_phipos := m_phipos d + (length ?ws + length ?sp)\<rparr>"
    have T: "trie_same ?d1 ?d'" by (simp add: trie_same_def set_lemma_def)
    have "m_phipos d + (length ?ws + length ?sp) \<le> n"
      using g(3) True length_cells [of inlm] by simp
    then have "wf_dict M ?d'"
      using g True W by (intro trie_same_wf [OF T g(2)]) (simp add: wf_dict_def wf_size_def set_lemma_def)
    then have "store_spec M d lmpos 1 ?d'"
      using trie_same_trans [OF s1 T] by (simp add: store_spec_def)
    moreover have "store_phrase M d lmpos inlm = Some (1, ?d')"
      using g True two by (simp add: store_phrase_def Let_def)
    ultimately show ?thesis using that by simp
  qed
qed

lemma store_man_ok:
  assumes W: "wf_dict M d"
  obtains r d' where "store_man M d lmpos inlm = Some (r, d')" "store_spec M d lmpos r d'"
proof -
  let ?n = "m_mcount inlm + 1"
  obtain r n where g: "grow_phinfo M d ?n = (r, d\<lparr>m_phisize := n\<rparr>)" "wf_dict M (d\<lparr>m_phisize := n\<rparr>)"
      "r = 1 \<and> m_phipos d + ?n \<le> n \<or> r = -1"
    using grow_phinfo_ok [OF W] by blast
  let ?d1 = "d\<lparr>m_phisize := n\<rparr>"
  have s1: "trie_same d ?d1" by (simp add: trie_same_def)
  show ?thesis
  proof (cases "r = 1")
    case False
    then show ?thesis
      using that [of "-1" ?d1] g s1 by (simp add: store_man_def store_spec_def)
  next
    case True
    let ?d2 = "set_lemma ?d1 lmpos (\<lambda>l. l\<lparr>m_word_bpos := m_phipos d, m_subphinfo_bpos := COMMON_NULL\<rparr>)"
    have s2: "store_spec M d lmpos (-1) ?d2"
      using trie_same_trans [OF s1 trie_same_set_lemma] g(2) by (simp add: store_spec_def)
    show ?thesis
    proof (cases "m_mcount inlm \<le> 1")
      case few: True
      then show ?thesis using that [of "-1" ?d2] g True s2 by (simp add: store_man_def)
    next
      case False
      let ?d' = "?d2\<lparr>m_phinfo := put_list (m_phinfo ?d2) (m_phipos ?d2)
          (m_mcount inlm # get_list (m_manuallist inlm) 0 (m_mcount inlm)), m_phipos := m_phipos ?d2 + ?n\<rparr>"
      have T: "trie_same ?d1 ?d'" by (simp add: trie_same_def set_lemma_def)
      have "wf_dict M ?d'"
        using g True W by (intro trie_same_wf [OF T g(2)]) (simp add: wf_dict_def wf_size_def set_lemma_def)
      then have "store_spec M d lmpos 1 ?d'"
        using trie_same_trans [OF s1 T] by (simp add: store_spec_def)
      moreover have "store_man M d lmpos inlm = Some (1, ?d')"
        using g True False by (simp add: store_man_def Let_def)
      ultimately show ?thesis using that by simp
    qed
  qed
qed

definition phrase_ok :: "scw_inlemma \<Rightarrow> bool" where
  "phrase_ok inlm \<longleftrightarrow>
     (if i_type inlm = LEMMA_TYPE_SPHRASE \<or> i_type inlm = LEMMA_TYPE_QYPD then 1 < m_bwcount inlm else True)"

lemma store_parts_ok:
  assumes "wf_dict M d" "phrase_ok inlm"
  obtains r d' where "store_parts M d lmpos inlm = Some (r, d')" "store_spec M d lmpos r d'"
proof -
  have "store_parts M d lmpos inlm = store_sbasic M d lmpos inlm \<or>
      store_parts M d lmpos inlm = store_phrase M d lmpos inlm \<and> 1 < m_bwcount inlm \<or>
      store_parts M d lmpos inlm = store_man M d lmpos inlm \<or> store_parts M d lmpos inlm = Some (-1, d)"
    using assms(2) by (simp add: store_parts_def phrase_ok_def split: if_splits)
  then consider (basic) "store_parts M d lmpos inlm = store_sbasic M d lmpos inlm"
    | (phrase) "store_parts M d lmpos inlm = store_phrase M d lmpos inlm" "1 < m_bwcount inlm"
    | (man) "store_parts M d lmpos inlm = store_man M d lmpos inlm"
    | (other) "store_parts M d lmpos inlm = Some (-1, d)"
    by blast
  then show ?thesis
  proof cases
    case basic
    obtain r d' where "store_sbasic M d lmpos inlm = Some (r, d')" "store_spec M d lmpos r d'"
      by (rule store_sbasic_ok [OF assms(1)])
    then show ?thesis using that basic by simp
  next
    case phrase
    obtain r d' where "store_phrase M d lmpos inlm = Some (r, d')" "store_spec M d lmpos r d'"
      by (rule store_phrase_ok [OF assms(1) phrase(2)])
    then show ?thesis using that phrase by simp
  next
    case man
    obtain r d' where "store_man M d lmpos inlm = Some (r, d')" "store_spec M d lmpos r d'"
      by (rule store_man_ok [OF assms(1)])
    then show ?thesis using that man by simp
  next
    case other
    then show ?thesis using that assms(1) by (simp add: store_spec_def)
  qed
qed

subsection \<open>Linking a term\<close>

lemma insert_term_words:
  "map_option (\<lambda>(r, d', v', c, pre'). (r, d', c)) (insert_term M d s len pos v p cur pre) =
     add_words (scw_insert_dentry M) d p (gb_words s pos len) cur"
proof (induction M d s len pos v p cur pre rule: insert_term.induct)
  case (1 M d s len pos v p cur pre)
  show ?case
  proof (cases "pos < len")
    case False
    then show ?thesis by (subst insert_term.simps) simp
  next
    case True
    obtain w pos' where g: "scw_get_word s pos len = (w, pos')" by fastforce
    show ?thesis
      using "1.IH" [OF True g [symmetric] refl] True g
      by (subst insert_term.simps) (auto simp: gb_words_step split: option.split)
  qed
qed

lemma insert_term_value:
  "insert_term M d s len pos v p cur pre = Some (1, d', v', c, pre') \<Longrightarrow> pos < len \<Longrightarrow>
   v' = last (gb_words s pos len)"
proof (induction M d s len pos v p cur pre rule: insert_term.induct)
  case (1 M d s len pos v p cur pre)
  obtain w pos' where g: "scw_get_word s pos len = (w, pos')" by fastforce
  obtain r d1 c1 where i: "scw_insert_dentry M d p w cur = Some (r, d1, c1)" "\<not> r < 0"
    using "1.prems" g by (subst (asm) insert_term.simps) (auto split: option.splits if_splits)
  let ?pre = "if p \<noteq> DENTRY_FIRST \<and> m_lemma_pos (m_dictentry d1 p) \<noteq> LEMMA_NULL
                 then m_lemma_pos (m_dictentry d1 p) else pre"
  have n: "insert_term M d1 s len pos' w c1 c1 ?pre = Some (1, d', v', c, pre')"
    using "1.prems" g i by (subst (asm) insert_term.simps) simp
  show ?case
  proof (cases "pos' < len")
    case True
    then have "v' = last (gb_words s pos' len)"
      using "1.IH" [OF "1.prems"(2) g [symmetric] refl i(1) refl refl i(2)] n by simp
    moreover have "gb_words s pos' len \<noteq> []" using True by (subst gb_words.simps) simp
    ultimately show ?thesis using "1.prems"(2) g by (simp add: gb_words_step)
  next
    case False
    then have "v' = w" using n by (subst (asm) insert_term.simps) simp
    then show ?thesis using False "1.prems"(2) g by (simp add: gb_words_step)
  qed
qed

text \<open>The lemma of the longest prefix seen so far, as \<open>pre_lmpos\<close> collects it.\<close>

fun prefix_lemma :: "(nat list \<Rightarrow> nat) \<Rightarrow> nat list \<Rightarrow> nat list \<Rightarrow> nat \<Rightarrow> nat" where
  "prefix_lemma lk us [] pre = pre"
| "prefix_lemma lk us (w # ws) pre =
     prefix_lemma lk (us @ [w]) ws (if us \<noteq> [] \<and> lk us \<noteq> LEMMA_NULL then lk us else pre)"

lemma node_lookup: "trie.node d us = Some p \<Longrightarrow> dict_lookup d us = m_lemma_pos (m_dictentry d p)"
  by (simp add: dict_lookup_def)

lemma insert_term_pre:
  "insert_term M d s len pos v p cur pre = Some (1, d', v', c, pre') \<Longrightarrow> wf_dict M d \<Longrightarrow>
   trie.node d us = Some p \<Longrightarrow> (\<And>xs. xs \<noteq> [] \<Longrightarrow> dict_lookup d xs = lk xs) \<Longrightarrow>
   pre' = prefix_lemma lk us (gb_words s pos len) pre"
proof (induction M d s len pos v p cur pre arbitrary: us rule: insert_term.induct)
  case (1 M d s len pos v p cur pre)
  show ?case
  proof (cases "pos < len")
    case False
    then show ?thesis using "1.prems"(1) by (subst (asm) insert_term.simps) simp
  next
    case True
    obtain w pos' where g: "scw_get_word s pos len = (w, pos')" by fastforce
    obtain r d1 c1 where i: "scw_insert_dentry M d p w cur = Some (r, d1, c1)" "\<not> r < 0"
      using "1.prems"(1) True g by (subst (asm) insert_term.simps) (auto split: option.splits if_splits)
    let ?pre = "if p \<noteq> DENTRY_FIRST \<and> m_lemma_pos (m_dictentry d1 p) \<noteq> LEMMA_NULL
                 then m_lemma_pos (m_dictentry d1 p) else pre"
    have n: "insert_term M d1 s len pos' w c1 c1 ?pre = Some (1, d', v', c, pre')"
      using "1.prems"(1) True g i by (subst (asm) insert_term.simps) simp
    have vp: "valid_key d p" "us \<noteq> [] \<longrightarrow> p \<noteq> DENTRY_FIRST"
      using trie.node_valid [OF "1.prems"(2,3)] by simp_all
    have us: "p = DENTRY_FIRST \<longleftrightarrow> us = []" using vp(2) "1.prems"(3) by auto
    note I = "1.prems"(2) vp(1) i(1)
    have lk1: "dict_lookup d1 xs = lk xs" if "xs \<noteq> []" for xs
      using trie.ins_lookup [OF I that] "1.prems"(4) [OF that] by (simp add: trie_lookup)
    have "trie.node d1 us = Some p" using trie.ins_node_old [OF I "1.prems"(3)] .
    then have "m_lemma_pos (m_dictentry d1 p) = dict_lookup d1 us" by (simp add: node_lookup)
    then have "?pre = (if us \<noteq> [] \<and> lk us \<noteq> LEMMA_NULL then lk us else pre)"
      using us lk1 [of us] by auto
    moreover have "pre' = prefix_lemma lk (us @ [w]) (gb_words s pos' len) ?pre"
      using "1.IH" [OF True g [symmetric] refl i(1) refl refl i(2) n, of "us @ [w]"]
        trie.ins_node_new [OF I _ "1.prems"(3)] i(2) trie.ins_inv [OF I] lk1 by simp
    ultimately show ?thesis using True g by (simp add: gb_words_step)
  qed
qed

text \<open>What \<open>prefix_lemma\<close> computes: the longest proper prefix that is a lemma.\<close>

lemma prefix_lemma_longest:
  "prefix_lemma lk us ws pre =
     (case filter (\<lambda>i. us @ take i ws \<noteq> [] \<and> lk (us @ take i ws) \<noteq> LEMMA_NULL) [0..<length ws] of
        [] \<Rightarrow> pre | is \<Rightarrow> lk (us @ take (last is) ws))"
proof (induction ws arbitrary: us pre)
  case (Cons w ws)
  let ?P = "\<lambda>us ws i. us @ take i ws \<noteq> [] \<and> lk (us @ take i ws) \<noteq> LEMMA_NULL"
  have up: "[0..<length (w # ws)] = 0 # map Suc [0..<length ws]"
    by (simp add: upt_conv_Cons map_Suc_upt del: upt_Suc)
  have f: "filter (?P us (w # ws)) (map Suc [0..<length ws]) =
      map Suc (filter (?P (us @ [w]) ws) [0..<length ws])"
    by (simp add: filter_map comp_def)
  define fs where "fs = filter (?P (us @ [w]) ws) [0..<length ws]"
  have IH: "prefix_lemma lk (us @ [w]) ws q = (case fs of [] \<Rightarrow> q | is \<Rightarrow> lk ((us @ [w]) @ take (last is) ws))" for q
    unfolding fs_def by (rule Cons.IH)
  have g: "filter (?P us (w # ws)) [0..<length (w # ws)] =
      (if us \<noteq> [] \<and> lk us \<noteq> LEMMA_NULL then 0 # map Suc fs else map Suc fs)"
    unfolding up filter.simps(2) f fs_def by simp
  show ?case
    unfolding g by (cases fs) (simp_all add: IH last_map)
qed simp

lemma trie_rest_fields:
  assumes "trie_rest d' = trie_rest d"
  shows "m_lmpos d' = m_lmpos d" "m_lmsize d' = m_lmsize d" "m_lemmalist d' = m_lemmalist d"
    "m_wordbuf d' = m_wordbuf d" "m_phinfo d' = m_phinfo d" "m_wbpos d' = m_wbpos d" "m_phipos d' = m_phipos d"
  using arg_cong [OF assms, of m_lmpos] arg_cong [OF assms, of m_lmsize] arg_cong [OF assms, of m_lemmalist]
    arg_cong [OF assms, of m_wordbuf] arg_cong [OF assms, of m_phinfo] arg_cong [OF assms, of m_wbpos]
    arg_cong [OF assms, of m_phipos]
  by (simp_all add: trie_rest_def)

abbreviation term_words :: "string \<Rightarrow> nat list" where
  "term_words s \<equiv> gb_words s 0 (length s)"

lemma node_value:
  assumes "wf_dict M d" "trie.node d ws = Some q" "ws \<noteq> []"
  shows "m_value (m_dictentry d q) = last ws"
proof -
  obtain us v where ws: "ws = us @ [v]" using assms(3) rev_exhaust by blast
  then obtain p where p: "trie.node d us = Some p" "child d p v = Some q"
    using assms(2) by (auto simp: tree_path_snoc split: option.splits)
  have "valid_key d p" using trie.node_valid [OF assms(1) p(1)] by simp
  then show ?thesis using child_iff [of d p v q] p(2) assms(1) ws by (simp add: wf_dict_def)
qed

lemma link_term_ok:
  assumes W: "wf_dict M d" and ne: "m_lmstr inlm \<noteq> []" and T: "\<not> IS_TEMP (i_property inlm)"
  obtains r d' q pre where "link_term M d inlm = Some (r, d', q, pre)"
    "trie.added M d (term_words (m_lmstr inlm)) r d' q"
    "r = 1 \<longrightarrow> pre = prefix_lemma (dict_lookup d) [] (term_words (m_lmstr inlm)) LEMMA_NULL"
proof -
  let ?s = "m_lmstr inlm" and ?ws = "term_words (m_lmstr inlm)"
  have wsne: "?ws \<noteq> []" using gb_words_nonempty [OF ne] .
  obtain r d' q where A: "add_words (scw_insert_dentry M) d DENTRY_FIRST ?ws COMMON_NULL = Some (r, d', q)"
      "trie.added M d ?ws r d' q"
    by (rule trie.add_words_root [OF W wsne])
  obtain v pre where I: "insert_term M d ?s (length ?s) 0 0 DENTRY_FIRST COMMON_NULL LEMMA_NULL = Some (r, d', v, q, pre)"
    using insert_term_words [of M d ?s "length ?s" 0 0 DENTRY_FIRST COMMON_NULL LEMMA_NULL] A(1) by auto
  show ?thesis
  proof (cases "r = 1")
    case False
    then have "link_term M d inlm = Some (-1, d', q, pre)" "r = -1"
      using I T A(2) by (auto simp: link_term_def trie.added_def)
    then show ?thesis using that A(2) by simp
  next
    case True
    have W': "wf_dict M d'" and n: "trie.node d' ?ws = Some q" using A(2) True by (simp_all add: trie.added_def)
    have "valid_key d' q \<and> q \<noteq> DENTRY_FIRST" using trie.node_valid [OF W' n] wsne by simp
    then have "q < m_depos d'" by (auto simp: valid_key_def)
    moreover have "m_value (m_dictentry d' q) = v"
      using node_value [OF W' n wsne] insert_term_value [OF I [unfolded True]] ne by simp
    ultimately have "link_term M d inlm = Some (1, d', q, pre)"
      using I T True by (simp add: link_term_def)
    moreover have "pre = prefix_lemma (dict_lookup d) [] ?ws LEMMA_NULL"
      using insert_term_pre [OF I [unfolded True] W, of "[]"] by simp
    ultimately show ?thesis using that A(2) True by blast
  qed
qed

text \<open>
  Entering a new lemma that is not temporary. On success every lookup is unchanged but that of
  the term, which gives the fresh record, filled in.
\<close>

definition entered :: "scw_worddict \<Rightarrow> scw_inlemma \<Rightarrow> scw_worddict \<Rightarrow> nat \<Rightarrow> bool" where
  "entered d inlm d' lm \<longleftrightarrow> lm = m_lmpos d \<and> m_lmpos d' = m_lmpos d + 1 \<and>
     (\<forall>us. us \<noteq> [] \<longrightarrow> dict_lookup d' us = (if us = term_words (m_lmstr inlm) then lm else dict_lookup d us)) \<and>
     (\<forall>l. l \<noteq> lm \<longrightarrow> m_lemmalist d' l = m_lemmalist d l) \<and>
     m_property (m_lemmalist d' lm) = i_property inlm"

definition same_lookups :: "scw_worddict \<Rightarrow> scw_worddict \<Rightarrow> bool" where
  "same_lookups d d' \<longleftrightarrow> (\<forall>us. us \<noteq> [] \<longrightarrow> dict_lookup d' us = dict_lookup d us) \<and>
     m_lmpos d' = m_lmpos d \<and> m_lemmalist d' = m_lemmalist d"

lemma resize_lemma_ok:
  assumes W: "wf_dict M d"
  obtains r n where "(if m_lmpos d = m_lmsize d then scw_resize_lemma M d (m_lmsize d + LEMMA_ADD_SIZE) else (1, d))
      = (r, d\<lparr>m_lmsize := n\<rparr>)" "wf_dict M (d\<lparr>m_lmsize := n\<rparr>)" "r = 1 \<longrightarrow> m_lmpos d < n"
proof -
  define r where "r = (if m_lmpos d = m_lmsize d then fst (scw_resize_lemma M d (m_lmsize d + LEMMA_ADD_SIZE)) else 1)"
  define n where "n = (if m_lmpos d = m_lmsize d \<and> r = 1 then m_lmsize d + LEMMA_ADD_SIZE else m_lmsize d)"
  have T: "trie_same d (d\<lparr>m_lmsize := n\<rparr>)" by (simp add: trie_same_def)
  have "wf_size M (d\<lparr>m_lmsize := n\<rparr>)"
    using W by (auto simp: wf_dict_def wf_size_def n_def r_def scw_resize_lemma_def resize_code_def
        realloc_ok_def Let_def split: if_splits)
  then have "wf_dict M (d\<lparr>m_lmsize := n\<rparr>)" by (rule trie_same_wf [OF T W])
  moreover have "(if m_lmpos d = m_lmsize d then scw_resize_lemma M d (m_lmsize d + LEMMA_ADD_SIZE) else (1, d))
      = (r, d\<lparr>m_lmsize := n\<rparr>)"
    by (auto simp: r_def n_def scw_resize_lemma_def Let_def)
  moreover have "r = 1 \<longrightarrow> m_lmpos d < n"
    using W by (auto simp: n_def r_def wf_dict_def wf_size_def LEMMA_ADD_SIZE_def)
  ultimately show ?thesis using that by blast
qed

lemma set_lemma_pos_trie:
  assumes "wf_dict M d" "trie.node d ws = Some q" "us \<noteq> []"
  shows "dict_lookup (set_lemma_pos d q l) us = (if us = ws then l else dict_lookup d us)"
  using trie.set_label_lookup [OF assms(1,2), of l us] by (simp add: trie_lookup)

lemma new_lemma_ok:
  assumes W: "wf_dict M d" and ne: "m_lmstr inlm \<noteq> []" and T: "\<not> IS_TEMP (i_property inlm)"
  obtains r d' lm where "new_lemma S M d x inlm = Some (r, d', x, lm)" "wf_dict M d'"
    "(r = 1 \<and> entered d inlm d' lm \<and> m_wordbuf d' = m_wordbuf d \<and> m_wbpos d' = m_wbpos d \<and>
        m_lemmalist d' lm = fill_lemma inlm (prefix_lemma (dict_lookup d) [] (term_words (m_lmstr inlm)) LEMMA_NULL)
          (m_lemmalist d lm)) \<or>
     (r = -1 \<and> same_lookups d d')"
proof -
  let ?ws = "term_words (m_lmstr inlm)"
  obtain r d1 q pre where L: "link_term M d inlm = Some (r, d1, q, pre)" "trie.added M d ?ws r d1 q"
      "r = 1 \<longrightarrow> pre = prefix_lemma (dict_lookup d) [] ?ws LEMMA_NULL"
    by (rule link_term_ok [OF W ne T])
  have W1: "wf_dict M d1" and lk: "\<And>us. us \<noteq> [] \<Longrightarrow> dict_lookup d1 us = dict_lookup d us"
      and rest: "trie_rest d1 = trie_rest d" and r: "r = 1 \<or> r = -1"
    using L(2) by (simp_all add: trie.added_def trie_lookup)
  note F = trie_rest_fields [OF rest]
  show ?thesis
  proof (cases "r = 1")
    case False
    then show ?thesis using that [of "-1" d1 LEMMA_NULL] L(1) r W1 lk F by (simp add: new_lemma_def same_lookups_def)
  next
    case True
    have n: "trie.node d1 ?ws = Some q" using L(2) True by (simp add: trie.added_def)
    obtain r2 n2 where R: "(if m_lmpos d1 = m_lmsize d1 then scw_resize_lemma M d1 (m_lmsize d1 + LEMMA_ADD_SIZE)
        else (1, d1)) = (r2, d1\<lparr>m_lmsize := n2\<rparr>)" "wf_dict M (d1\<lparr>m_lmsize := n2\<rparr>)"
        "r2 = 1 \<longrightarrow> m_lmpos d1 < n2"
      by (rule resize_lemma_ok [OF W1])
    let ?d2 = "d1\<lparr>m_lmsize := n2\<rparr>"
    have ts: "trie_same d1 ?d2" by (simp add: trie_same_def)
    have lk2: "\<And>us. us \<noteq> [] \<Longrightarrow> dict_lookup ?d2 us = dict_lookup d us"
      using trie_same_lay(8) [OF ts] lk by simp
    show ?thesis
    proof (cases "r2 = 1")
      case False
      then have "new_lemma S M d x inlm = Some (-1, ?d2, x, LEMMA_NULL)"
        using L(1) True R(1) by (simp add: new_lemma_def)
      then show ?thesis using that R(2) lk2 F by (simp add: same_lookups_def)
    next
      case ok: True
      let ?d3 = "?d2\<lparr>m_lmpos := m_lmpos d1 + 1\<rparr>"
      let ?d5 = "set_lemma (set_lemma_pos ?d3 q (m_lmpos d1)) (m_lmpos d1) (fill_lemma inlm pre)"
      have eq: "new_lemma S M d x inlm = Some (1, ?d5, x, m_lmpos d1)"
        using L(1) True R(1,3) ok T by (simp add: new_lemma_def Let_def)
      have ts3: "trie_same d1 ?d3" by (simp add: trie_same_def)
      have W3: "wf_dict M ?d3"
        using trie_same_wf [OF ts3 W1] R(2,3) ok by (simp add: wf_dict_def wf_size_def)
      have n3: "trie.node ?d3 ?ws = Some q" using n trie_same_lay(5) [OF ts3] by simp
      have lk5: "dict_lookup ?d5 us = (if us = ?ws then m_lmpos d1 else dict_lookup d us)" if "us \<noteq> []" for us
        using set_lemma_pos_trie [OF W3 n3 that] trie_same_lay(8) [OF ts3] lk [OF that]
          trie_same_lay(8) [OF trie_same_set_lemma] by simp
      have "wf_dict M ?d5" using set_lemma_pos_wf [OF W3] by simp
      moreover have "entered d inlm ?d5 (m_lmpos d1)"
        using lk5 F by (simp add: entered_def set_lemma_pos_def fill_lemma_def)
      ultimately show ?thesis
        using that [OF eq] F L(3) True by (simp add: set_lemma_pos_def)
    qed
  qed
qed

lemma store_spec_lookup:
  assumes "store_spec M d lm r d'"
  shows "dict_lookup d' = dict_lookup d"
  using assms trie_same_lay(8) by (simp add: store_spec_def)

text \<open>The two ways \<open>scw_add_lemma\<close> can end for a term that is in neither dictionary.\<close>

lemma add_new_lemma_ok:
  assumes W: "wf_dict M d" and ne: "m_lmstr inlm \<noteq> []" and T: "\<not> IS_TEMP (i_property inlm)"
    and absent: "seek_static_dyn S d x (m_lmstr inlm) = Some LEMMA_NULL" and ph: "phrase_ok inlm"
  obtains r d' where "scw_add_lemma S M d x inlm = Some (r, d', x)" "wf_dict M d'" "r = 1 \<or> r = -1"
    "r = 1 \<Longrightarrow> entered d inlm d' (m_lmpos d)" "entered d inlm d' (m_lmpos d) \<or> same_lookups d d'"
proof -
  obtain r1 d1 lm where N: "new_lemma S M d x inlm = Some (r1, d1, x, lm)" "wf_dict M d1"
      "(r1 = 1 \<and> entered d inlm d1 lm) \<or> (r1 = -1 \<and> same_lookups d d1)"
    by (rule new_lemma_ok [OF W ne T, of S x]) blast
  show ?thesis
  proof (cases "r1 = 1")
    case False
    then have "scw_add_lemma S M d x inlm = Some (-1, d1, x)"
      using N absent by (auto simp: scw_add_lemma_def)
    then show ?thesis using that N False by auto
  next
    case True
    then have E: "entered d inlm d1 lm" using N(3) by auto
    obtain r d2 where P: "store_parts M d1 lm inlm = Some (r, d2)" "store_spec M d1 lm r d2"
      by (rule store_parts_ok [OF N(2) ph])
    have eq: "scw_add_lemma S M d x inlm = Some (r, d2, x)"
      using N(1) True absent P(1) by (simp add: scw_add_lemma_def)
    have "entered d inlm d2 (m_lmpos d)"
      using E P(2) store_spec_lookup [OF P(2)] by (auto simp: entered_def store_spec_def)
    then show ?thesis using that [OF eq] P(2) by (auto simp: store_spec_def)
  qed
qed

subsection \<open>Maximal matching\<close>

text \<open>
  The best match along the words \<open>ws\<close>, given the words \<open>us\<close> already read: the lemma of the
  longest prefix that has one, with its number of words.
\<close>

definition best_match :: "scw_worddict \<Rightarrow> nat list \<Rightarrow> nat \<Rightarrow> nat \<Rightarrow> bool" where
  "best_match d ws k l \<longleftrightarrow>
     (if k = 0 then l = LEMMA_NULL else l = dict_lookup d (take k ws) \<and> l \<noteq> LEMMA_NULL) \<and> k \<le> length ws \<and>
     (\<forall>j. k < j \<and> j \<le> length ws \<longrightarrow> dict_lookup d (take j ws) = LEMMA_NULL)"

text \<open>The position after \<open>k\<close> words.\<close>

fun word_pos :: "string \<Rightarrow> nat \<Rightarrow> nat \<Rightarrow> nat \<Rightarrow> nat" where
  "word_pos s pos len 0 = pos"
| "word_pos s pos len (Suc k) = word_pos s (snd (scw_get_word s pos len)) len k"

lemma dead_lookup: "trie.node d us = None \<Longrightarrow> dict_lookup d (us @ vs) = LEMMA_NULL"
  by (simp add: dict_lookup_def tree_path_append)

lemma mm_loop_ok:
  assumes "wf_dict M d" "trie.node d us = Some p" "us \<noteq> []"
    and "best_match d us k l"
  shows "\<exists>k' l' np'. mm_loop d s slen False pos (ptr d p) l np = Some (l', np') \<and>
     best_match d (us @ gb_words s pos slen) k' l' \<and>
     (if k' \<le> length us then k' = k \<and> np' = np else np' = word_pos s pos slen (k' - length us))"
  using assms
proof (induction "slen - pos" arbitrary: pos us p k l np rule: less_induct)
  case less
  let ?dead = "\<lambda>ws. \<forall>j. length us < j \<and> j \<le> length (us @ ws) \<longrightarrow> dict_lookup d (take j (us @ ws)) = LEMMA_NULL"
  have stop: "best_match d (us @ ws) k l \<and> k \<le> length us" if D: "?dead ws" for ws
  proof -
    have "dict_lookup d (take j (us @ ws)) = LEMMA_NULL" if "k < j" "j \<le> length (us @ ws)" for j
      using that D less.prems(4) by (cases "j \<le> length us") (auto simp: best_match_def)
    then show ?thesis using less.prems(4) by (auto simp: best_match_def)
  qed
  have vp: "valid_key d p" using trie.node_valid [OF less.prems(1,2)] by simp
  show ?case
  proof (cases "pos < slen")
    case False
    then have "mm_loop d s slen False pos (ptr d p) l np = Some (l, np)"
      by (subst mm_loop.simps) simp
    then show ?thesis using stop [of "[]"] False by auto
  next
    case True
    obtain w pos' where g: "scw_get_word s pos slen = (w, pos')" by fastforce
    let ?ws = "gb_words s pos' slen"
    have ws: "gb_words s pos slen = w # ?ws" using True g by (simp add: gb_words_step)
    note st = seek_step [OF less.prems(1) vp, of w]
    show ?thesis
    proof (cases "child d p w")
      case None
      have nn: "trie.node d (us @ [w]) = None" using less.prems(2) None by (simp add: tree_path_snoc)
      have "?dead (w # ?ws)"
      proof (intro allI impI)
        fix j assume j: "length us < j \<and> j \<le> length (us @ w # ?ws)"
        then have "take j (us @ w # ?ws) = (us @ [w]) @ take (j - length us - 1) ?ws"
          by (simp add: take_Cons')
        then show "dict_lookup d (take j (us @ w # ?ws)) = LEMMA_NULL" using dead_lookup [OF nn] by metis
      qed
      moreover have "mm_loop d s slen False pos (ptr d p) l np = Some (l, np)"
        using st None True g by (subst mm_loop.simps) (auto split: if_splits)
      ultimately show ?thesis using stop [of "w # ?ws"] unfolding ws by auto
    next
      case (Some q)
      then have ptr: "ptr d p \<noteq> SUFENTRY_NULL" using st(1) by auto
      with Some st(2) have e: "scw_get_sufentry (m_seinfo d) (ptr d p)
          (w mod scw_get_hashsize (m_seinfo d) (ptr d p)) = Some q" "q \<noteq> DENTRY_NULL"
          "m_value (m_dictentry d q) = w"
        by (auto split: if_splits)
      have n': "trie.node d (us @ [w]) = Some q" using less.prems(2) Some by (simp add: tree_path_snoc)
      let ?l = "m_lemma_pos (m_dictentry d q)"
      have lk: "dict_lookup d (us @ [w]) = ?l" by (rule node_lookup [OF n'])
      define k2 where "k2 = (if ?l \<noteq> COMMON_NULL then length us + 1 else k)"
      define l2 where "l2 = (if ?l \<noteq> COMMON_NULL then ?l else l)"
      define np2 where "np2 = (if ?l \<noteq> COMMON_NULL then pos' else np)"
      have eq: "mm_loop d s slen False pos (ptr d p) l np = mm_loop d s slen False pos' (ptr d q) l2 np2"
        using True g ptr e child_ptr [OF less.prems(1) vp Some]
        by (subst mm_loop.simps) (simp add: l2_def np2_def)
      have B: "best_match d (us @ [w]) k2 l2"
      proof (cases "?l = COMMON_NULL")
        case True
        have "?dead [w]"
        proof (intro allI impI)
          fix j assume "length us < j \<and> j \<le> length (us @ [w])"
          then have "j = length (us @ [w])" by simp
          then have "take j (us @ [w]) = us @ [w]" by (simp only: take_all order_refl)
          then show "dict_lookup d (take j (us @ [w])) = LEMMA_NULL" using lk True by (simp add: null_defs)
        qed
        then show ?thesis using stop [of "[w]"] True by (simp add: k2_def l2_def)
      qed (simp add: best_match_def k2_def l2_def lk null_defs)
      obtain k' l' np' where R: "mm_loop d s slen False pos' (ptr d q) l2 np2 = Some (l', np')"
          "best_match d ((us @ [w]) @ ?ws) k' l'"
          "if k' \<le> length (us @ [w]) then k' = k2 \<and> np' = np2 else np' = word_pos s pos' slen (k' - length (us @ [w]))"
        using less.hyps [OF scw_get_word_shrinks [OF g [symmetric] True] less.prems(1) n' _ B, of np2] by auto
      have kle: "k \<le> length us" using less.prems(4) by (simp add: best_match_def)
      have "if k' \<le> length us then k' = k \<and> np' = np else np' = word_pos s pos slen (k' - length us)"
      proof (cases "k' \<le> length (us @ [w])")
        case True
        then show ?thesis using R(3) kle g by (auto simp: k2_def np2_def split: if_splits)
      next
        case False
        then have "k' - length us = Suc (k' - length (us @ [w]))" by simp
        then show ?thesis using R(3) False g by simp
      qed
      then show ?thesis unfolding eq ws using R(1,2) by auto
    qed
  qed
qed

lemma mm_seek_lemma_ok:
  assumes W: "wf_dict M d" and pos: "pos < slen"
  shows "\<exists>k l np. mm_seek_lemma d s slen pos False = Some (l, np) \<and>
     best_match d (gb_words s pos slen) k l \<and> (0 < k \<longrightarrow> np = word_pos s pos slen k)"
proof -
  obtain w pos' where g: "scw_get_word s pos slen = (w, pos')" by fastforce
  let ?ws = "gb_words s pos' slen"
  have ws: "gb_words s pos slen = w # ?ws" using pos g by (simp add: gb_words_step)
  have vF: "valid_key d DENTRY_FIRST" by (simp add: valid_key_def)
  have root: "ptr d DENTRY_FIRST = m_entrance d" by (simp add: ptr_def)
  have nn: "ptr d DENTRY_FIRST \<noteq> SUFENTRY_NULL" using W wf_lay_root by (simp add: wf_dict_def)
  obtain e where e: "scw_get_sufentry (m_seinfo d) (m_entrance d)
        (w mod scw_get_hashsize (m_seinfo d) (m_entrance d)) = Some e"
      "child d DENTRY_FIRST w = (if e = DENTRY_NULL \<or> m_value (m_dictentry d e) \<noteq> w then None else Some e)"
    using seek_step(2) [OF W vF nn, of w] root by auto
  show ?thesis
  proof (cases "child d DENTRY_FIRST w")
    case None
    have "trie.node d [w] = None" using None by simp
    then have "dict_lookup d (take j (w # ?ws)) = LEMMA_NULL" if "0 < j" for j
      using dead_lookup [of d "[w]" "take (j - 1) ?ws"] that by (cases j) auto
    then have "best_match d (w # ?ws) 0 LEMMA_NULL" by (simp add: best_match_def)
    moreover have "mm_seek_lemma d s slen pos False = Some (COMMON_NULL, pos')"
      using pos g e None by (auto simp: mm_seek_lemma_def split: if_splits)
    ultimately show ?thesis unfolding ws by (auto simp: null_defs)
  next
    case (Some q)
    then have q: "e = q" "q \<noteq> DENTRY_NULL" "m_value (m_dictentry d q) = w" using e(2) by (auto split: if_splits)
    have n: "trie.node d [w] = Some q" using Some by simp
    let ?l = "m_lemma_pos (m_dictentry d q)"
    have lk: "dict_lookup d [w] = ?l" by (rule node_lookup [OF n])
    define k where "k = (if ?l \<noteq> COMMON_NULL then 1 else (0::nat))"
    have B: "best_match d [w] k ?l"
      using lk by (auto simp: best_match_def k_def null_defs le_Suc_eq)
    have eq: "mm_seek_lemma d s slen pos False = mm_loop d s slen False pos' (ptr d q) ?l
        (if ?l \<noteq> COMMON_NULL then pos' else pos)"
      using pos g e(1) q child_ptr [OF W vF Some]
      by (simp add: mm_seek_lemma_def Let_def)
    let ?np = "if ?l \<noteq> COMMON_NULL then pos' else pos"
    obtain k' l' np' where R: "mm_loop d s slen False pos' (ptr d q) ?l ?np = Some (l', np')"
        "best_match d ([w] @ ?ws) k' l'"
        "if k' \<le> length [w] then k' = k \<and> np' = ?np else np' = word_pos s pos' slen (k' - length [w])"
      using mm_loop_ok [OF W n _ B, of s slen pos' ?np] by auto
    have "0 < k' \<longrightarrow> np' = word_pos s pos slen k'"
    proof (cases "k' \<le> 1")
      case True
      then have "k' = k" "np' = ?np" using R(3) by simp_all
      then show ?thesis using g by (simp add: k_def)
    next
      case False
      then have "np' = word_pos s pos' slen (k' - 1)" "k' = Suc (k' - 1)" using R(3) by simp_all
      then show ?thesis using g by (metis word_pos.simps(2) snd_conv)
    qed
    then show ?thesis unfolding eq ws using R(1,2) by auto
  qed
qed

subsection \<open>A sample for the witnesses\<close>

text \<open>A concrete dynamic dictionary (a map from signatures) and a two-letter basic word.\<close>

definition sample_sdict :: "(nat \<times> nat \<Rightarrow> nat option) sdict" where
  "sample_sdict = \<lparr>creat_sign_f64 = (\<lambda>s. (length s, foldl (\<lambda>a c. a * 256 + of_char c) 0 s)),
     db_seek = (\<lambda>m k. case m k of None \<Rightarrow> (0, 0) | Some c \<Rightarrow> (1, c)),
     db_add = (\<lambda>m k c. (1, m(k \<mapsto> c)))\<rparr>"

definition sample_lemma :: "string \<Rightarrow> scw_inlemma" where
  "sample_lemma s = \<lparr>m_lmstr = s, i_type = LEMMA_TYPE_SBASIC, i_weight = 5, i_property = INIT_PROPERTY,
     m_bwcount = 0, m_sphcount = 0, m_wordlist = (\<lambda>_. 0), m_subphlist = (\<lambda>_. 0), m_mcount = 0,
     m_manuallist = (\<lambda>_. 0)\<rparr>"

lemma sample_lemma_str: "m_lmstr (sample_lemma s) = s"
  by (simp add: sample_lemma_def)

lemma sample_lemma_not_temp: "\<not> IS_TEMP (i_property (sample_lemma s))"
  by (simp add: sample_lemma_def INIT_PROPERTY_def IS_TEMP_def)

lemma sample_phrase_ok: "phrase_ok (sample_lemma s)"
  by (simp add: phrase_ok_def sample_lemma_def lemma_types)

lemma sample_absent:
  "s \<noteq> [] \<Longrightarrow> seek_static_dyn sample_sdict sample_dict None s = Some LEMMA_NULL"
  using fresh_lookup [OF sample_dict_create, of "term_words s"] gb_words_nonempty [of s]
    scw_seek_lemma_lookup [OF sample_dict_wf, of "length s" s]
  by (simp add: seek_static_dyn_def scw_seek_dynword_def)

lemma seek_lemma_words:
  "wf_dict M d \<Longrightarrow> t \<noteq> [] \<Longrightarrow> scw_seek_lemma d t (length t) = Some (dict_lookup d (term_words t))"
  by (rule scw_seek_lemma_lookup) simp_all

lemma term_words_inj: "term_words s = term_words t \<longleftrightarrow> s = t"
  using gb_words_inj [of s t] by auto

lemmas trie_eval = scw_insert_dentry_def first_block_def ptr_def 
   create_dentry_def link_new_def scw_get_sufentry_def scw_set_sufentry_def scw_init_sufentry_def scw_set_backentry_def scw_set_hashsize_def fill_def scw_get_hashsize_def new_dentry_def Let_def null_defs

lemma sample_dict_eval: "sample_dict = \<lparr>
        m_wordbuf = (\<lambda>_. 0), m_wbsize = 20000, m_wbpos = 0,
        m_phinfo = (\<lambda>_. 0), m_phisize = 4000, m_phipos = 0,
        wd_dynbuf = (\<lambda>_. 0), wd_dynb_size = 0, wd_dynb_curpos = 0,
        wd_dynphinfo = (\<lambda>_. 0), wd_dynph_size = 0, wd_dynph_curpos = 0,
        m_seinfo = scw_init_sufentry (\<lambda>_. 0) 0 1 DENTRY_FIRST,
        m_seisize = 4000, m_seipos = 3,
        m_dictentry = (\<lambda>_. \<lparr>m_value = 0, m_lemma_pos = 0, m_suffix_pos = 0\<rparr>),
        m_desize = 2000, m_depos = 0,
        m_lemmalist = (\<lambda>_. zero_lemma), m_lmsize = 1000, m_lmpos = 0,
        m_entrance = 0,
        m_probbuf = (\<lambda>_. 0), m_pbsize = 4000, m_pbpos = 0,
        m_ambinfo = (\<lambda>_. 0), m_ambsize = 4000, m_ambpos = 0,
        m_utilinfo = (\<lambda>_. \<lparr>m_ambsuffix_pos = 0, m_cnameprob_pos = 0, m_fnameprob_pos = 0\<rparr>),
        m_utilisize = 4000, m_utilipos = 0,
        m_wdtype = 0\<rparr>"
 by (simp add: sample_dict_def scw_create_worddict_def realloc_ok_def sizeofs default_sizes)

lemma sample_new_lemma:
  "case new_lemma sample_sdict 1000000 sample_dict None (sample_lemma ''a'') of
      None \<Rightarrow> False | Some (r, d', x', lm) \<Rightarrow> r = 1 \<and> lm = 0"
  by (simp add: trie_eval sample_dict_eval new_lemma_def link_term_def sample_lemma_def insert_term.simps INIT_PROPERTY_def IS_TEMP_def set_lemma_def set_lemma_pos_def scw_get_word_def get_value_gb_def)
subsection \<open>Properties\<close>

text \<open>
  C7 Adding a lemma is a map update. For a new term, not temporary, \<open>scw_add_lemma\<close> on a
  well-formed dictionary never fails an assertion, keeps the invariant, and when it reports
  success a search finds the term at the fresh record and every other term where it was; the
  record carries the new property and no other record changed. When it fails, the lookups are
  either all unchanged or those of a successful call.
\<close>
theorem scw_add_lemma_is_map_update:
  assumes "wf_dict M d" "m_lmstr inlm \<noteq> []" "\<not> IS_TEMP (i_property inlm)" "phrase_ok inlm"
    and "seek_static_dyn S d x (m_lmstr inlm) = Some LEMMA_NULL"
  shows "\<exists>r d'. scw_add_lemma S M d x inlm = Some (r, d', x) \<and> wf_dict M d' \<and> r \<in> {1, -1} \<and>
     (r = 1 \<longrightarrow> (\<forall>t. t \<noteq> [] \<longrightarrow> scw_seek_lemma d' t (length t) =
          (if t = m_lmstr inlm then Some (m_lmpos d) else scw_seek_lemma d t (length t))) \<and>
        m_property (m_lemmalist d' (m_lmpos d)) = i_property inlm \<and>
        (\<forall>l. l \<noteq> m_lmpos d \<longrightarrow> m_lemmalist d' l = m_lemmalist d l)) \<and>
     (\<forall>t. t \<noteq> [] \<longrightarrow> t \<noteq> m_lmstr inlm \<longrightarrow>
        scw_seek_lemma d' t (length t) = scw_seek_lemma d t (length t))"
proof -
  obtain r d' where A: "scw_add_lemma S M d x inlm = Some (r, d', x)" "wf_dict M d'" "r = 1 \<or> r = -1"
    "r = 1 \<Longrightarrow> entered d inlm d' (m_lmpos d)" "entered d inlm d' (m_lmpos d) \<or> same_lookups d d'"
    using add_new_lemma_ok [OF assms(1-3,5,4)] by metis
  have "scw_seek_lemma d' t (length t) =
      (if t = m_lmstr inlm then Some (m_lmpos d) else scw_seek_lemma d t (length t))"
    if "entered d inlm d' (m_lmpos d)" "t \<noteq> []" for t
    using that gb_words_nonempty [OF that(2)] seek_lemma_words [OF assms(1) that(2)]
      seek_lemma_words [OF A(2) that(2)] by (simp add: entered_def term_words_inj)
  moreover have "scw_seek_lemma d' t (length t) = scw_seek_lemma d t (length t)"
    if "same_lookups d d'" "t \<noteq> []" for t
    using that gb_words_nonempty [OF that(2)] seek_lemma_words [OF assms(1) that(2)]
      seek_lemma_words [OF A(2) that(2)] by (simp add: same_lookups_def)
  moreover have "m_property (m_lemmalist d' (m_lmpos d)) = i_property inlm \<and>
      (\<forall>l. l \<noteq> m_lmpos d \<longrightarrow> m_lemmalist d' l = m_lemmalist d l)" if "r = 1"
    using A(4) [OF that] by (simp add: entered_def)
  ultimately show ?thesis using A by (intro exI [of _ r] exI [of _ d']) auto
qed

theorem scw_add_lemma_is_map_update_witness:
  "\<exists>r d'. scw_add_lemma sample_sdict 1000000 sample_dict None (sample_lemma ''ab'') = Some (r, d', None) \<and>
     wf_dict 1000000 d' \<and> scw_seek_lemma d' ''b'' 1 = scw_seek_lemma sample_dict ''b'' 1"
proof -
  have ab: "''ab'' \<noteq> []" by simp
  obtain r d' where "scw_add_lemma sample_sdict 1000000 sample_dict None (sample_lemma ''ab'') = Some (r, d', None)"
      "wf_dict 1000000 d'" and T: "\<forall>t. t \<noteq> [] \<longrightarrow> t \<noteq> ''ab'' \<longrightarrow>
        scw_seek_lemma d' t (length t) = scw_seek_lemma sample_dict t (length t)"
    using scw_add_lemma_is_map_update [where inlm = "sample_lemma ''ab''" and S = sample_sdict and x = None,
        OF sample_dict_wf _ sample_lemma_not_temp sample_phrase_ok, unfolded sample_lemma_str,
        OF ab sample_absent [OF ab]] by blast
  moreover have "scw_seek_lemma d' ''b'' 1 = scw_seek_lemma sample_dict ''b'' 1"
    using T [rule_format, of "''b''"] by simp
  ultimately show ?thesis by blast
qed

text \<open>
  Adding a lemma whose term a dictionary already has changes no lookup and no other
  record: it overwrites length, weight and property of the record found, unless a temporary
  lemma meets a permanent one, which is kept as it is; the code is 0.
\<close>
theorem scw_add_lemma_existing:
  assumes "wf_dict M d" "seek_static_dyn S d x (m_lmstr inlm) = Some lm" "lm \<noteq> LEMMA_NULL"
  shows "\<exists>d'. scw_add_lemma S M d x inlm = Some (0, d', x) \<and> wf_dict M d' \<and>
     (\<forall>t. scw_seek_lemma d' t (length t) = scw_seek_lemma d t (length t)) \<and>
     (\<forall>l. l \<noteq> lm \<longrightarrow> m_lemmalist d' l = m_lemmalist d l) \<and>
     m_property (m_lemmalist d' lm) =
       (if IS_TEMP (i_property inlm) \<and> \<not> IS_TEMP (m_property (m_lemmalist d lm))
        then m_property (m_lemmalist d lm) else i_property inlm) \<and>
     m_type (m_lemmalist d' lm) = m_type (m_lemmalist d lm) \<and>
     m_word_bpos (m_lemmalist d' lm) = m_word_bpos (m_lemmalist d lm)"
proof -
  have lk: "scw_seek_lemma (set_lemma d l f) t (length t) = scw_seek_lemma d t (length t)" for l f t
    using seek_lemma_words [OF assms(1)] seek_lemma_words [of M "set_lemma d l f"] assms(1)
      trie_same_lay(8) [OF trie_same_set_lemma]
    by (cases "t = []") (simp_all add: scw_seek_lemma_def)
  show ?thesis
    using assms lk by (simp add: scw_add_lemma_def)
qed

lemma sample_dynamic:
  "s \<noteq> [] \<Longrightarrow> seek_static_dyn sample_sdict sample_dict
     (Some ((\<lambda>_. None)(creat_sign_f64 sample_sdict s \<mapsto> 7))) s = Some 7"
  using fresh_lookup [OF sample_dict_create, of "term_words s"] gb_words_nonempty [of s]
    seek_lemma_words [OF sample_dict_wf, of s]
  by (simp add: seek_static_dyn_def scw_seek_dynword_def sample_sdict_def)

theorem scw_add_lemma_existing_witness:
  "\<exists>d'. scw_add_lemma sample_sdict 1000000 sample_dict
       (Some ((\<lambda>_. None)(creat_sign_f64 sample_sdict ''ab'' \<mapsto> 7))) (sample_lemma ''ab'') =
     Some (0, d', Some ((\<lambda>_. None)(creat_sign_f64 sample_sdict ''ab'' \<mapsto> 7))) \<and>
     m_property (m_lemmalist d' 7) = INIT_PROPERTY"
proof -
  have ab: "''ab'' \<noteq> []" and n: "(7::nat) \<noteq> LEMMA_NULL" by (simp_all add: LEMMA_NULL_def)
  define x where "x = Some ((\<lambda>_. None)(creat_sign_f64 sample_sdict ''ab'' \<mapsto> 7 :: nat))"
  have T: "seek_static_dyn sample_sdict sample_dict x (m_lmstr (sample_lemma ''ab'')) = Some 7"
    unfolding x_def sample_lemma_str by (rule sample_dynamic [OF ab])
  obtain d' where d': "scw_add_lemma sample_sdict 1000000 sample_dict x (sample_lemma ''ab'') = Some (0, d', x)"
      "m_property (m_lemmalist d' 7) = (if IS_TEMP (i_property (sample_lemma ''ab'')) \<and>
         \<not> IS_TEMP (m_property (m_lemmalist sample_dict 7)) then m_property (m_lemmalist sample_dict 7)
         else i_property (sample_lemma ''ab''))"
    using scw_add_lemma_existing [OF sample_dict_wf T n] by blast
  then have "m_property (m_lemmalist d' 7) = INIT_PROPERTY"
    using sample_lemma_not_temp [of "''ab''"] by (simp add: sample_lemma_def)
  with d'(1) show ?thesis by (intro exI [of _ d'] conjI) (unfold x_def, assumption+)
qed

text \<open>
  The record of a new lemma points to its longest prefix: \<open>m_prelm_pos\<close> is the lemma of the
  longest proper prefix of the term (in words) that the dictionary had, \<open>LEMMA_NULL\<close> if none.
\<close>
theorem new_lemma_prefix:
  assumes "wf_dict M d" "m_lmstr inlm \<noteq> []" "\<not> IS_TEMP (i_property inlm)"
    and "new_lemma S M d x inlm = Some (1, d', x', lm)"
  shows "m_prelm_pos (m_lemmalist d' lm) =
    (case filter (\<lambda>i. i \<noteq> 0 \<and> dict_lookup d (take i (term_words (m_lmstr inlm))) \<noteq> LEMMA_NULL)
           [0..<length (term_words (m_lmstr inlm))] of
       [] \<Rightarrow> LEMMA_NULL
     | is \<Rightarrow> dict_lookup d (take (last is) (term_words (m_lmstr inlm))))"
proof -
  let ?ws = "term_words (m_lmstr inlm)"
  have "m_prelm_pos (m_lemmalist d' lm) = prefix_lemma (dict_lookup d) [] ?ws LEMMA_NULL"
  proof (rule new_lemma_ok [OF assms(1-3), of S x])
    fix r e l
    assume "new_lemma S M d x inlm = Some (r, e, x, l)" and "(r = 1 \<and> entered d inlm e l \<and>
        m_wordbuf e = m_wordbuf d \<and> m_wbpos e = m_wbpos d \<and> m_lemmalist e l =
          fill_lemma inlm (prefix_lemma (dict_lookup d) [] ?ws LEMMA_NULL) (m_lemmalist d l)) \<or>
        (r = -1 \<and> same_lookups d e)"
    moreover from calculation(1) assms(4) have "r = 1" "e = d'" "l = lm" by simp_all
    ultimately show ?thesis by (simp add: fill_lemma_def)
  qed
  also have "\<dots> = (case filter (\<lambda>i. take i ?ws \<noteq> [] \<and> dict_lookup d (take i ?ws) \<noteq> LEMMA_NULL)
      [0..<length ?ws] of [] \<Rightarrow> LEMMA_NULL | is \<Rightarrow> dict_lookup d (take (last is) ?ws))"
    by (rule prefix_lemma_longest [of "dict_lookup d" "[]" ?ws LEMMA_NULL, unfolded append_Nil])
  also have "filter (\<lambda>i. take i ?ws \<noteq> [] \<and> dict_lookup d (take i ?ws) \<noteq> LEMMA_NULL) [0..<length ?ws] =
      filter (\<lambda>i. i \<noteq> 0 \<and> dict_lookup d (take i ?ws) \<noteq> LEMMA_NULL) [0..<length ?ws]"
    by (rule filter_cong) auto
  finally show ?thesis .
qed


theorem new_lemma_prefix_witness:
  "\<exists>d' lm. new_lemma sample_sdict 1000000 sample_dict None (sample_lemma ''a'') = Some (1, d', None, lm) \<and>
     m_prelm_pos (m_lemmalist d' lm) = LEMMA_NULL"
proof -
  obtain d' x' lm where N: "new_lemma sample_sdict 1000000 sample_dict None (sample_lemma ''a'') = Some (1, d', x', lm)"
    using sample_new_lemma by (auto split: option.splits)
  have a: "m_lmstr (sample_lemma ''a'') \<noteq> []" by (simp add: sample_lemma_str)
  obtain r e l where "new_lemma sample_sdict 1000000 sample_dict None (sample_lemma ''a'') = Some (r, e, None, l)"
    by (rule new_lemma_ok [OF sample_dict_wf a sample_lemma_not_temp])
  with N have x: "x' = None" by simp
  have "term_words ''a'' = [97]"
    by (simp add: gb_words.simps scw_get_word_def get_value_gb_def Let_def)
  then have "m_prelm_pos (m_lemmalist d' lm) = LEMMA_NULL"
    using new_lemma_prefix [OF sample_dict_wf a sample_lemma_not_temp N] by (simp add: sample_lemma_str)
  then show ?thesis using N x by blast
qed

text \<open>
  C8 The text of a basic word: after a successful \<open>scw_add_lemma\<close> of a new basic word of at most
  255 bytes, \<open>get_static_lmstr\<close> on its record gives the bytes of the term, and the texts of all
  older basic words are what they were.
\<close>
theorem static_lemma_text:
  assumes "wf_dict M d" "m_lmstr inlm \<noteq> []" "\<not> IS_TEMP (i_property inlm)" "i_type inlm = LEMMA_TYPE_SBASIC"
    and "length (m_lmstr inlm) < 256" "seek_static_dyn S d x (m_lmstr inlm) = Some LEMMA_NULL"
    and "scw_add_lemma S M d x inlm = Some (1, d', x')"
  shows "get_static_lmstr d' (m_lemmalist d' (m_lmpos d)) = map of_char (m_lmstr inlm) \<and>
     (\<forall>l. l \<noteq> m_lmpos d \<longrightarrow> m_type (m_lemmalist d l) = LEMMA_TYPE_SBASIC \<longrightarrow>
        m_word_bpos (m_lemmalist d l) + m_length (m_lemmalist d l) \<le> m_wbpos d \<longrightarrow>
        get_static_lmstr d' (m_lemmalist d' l) = get_static_lmstr d (m_lemmalist d l))"
proof (rule new_lemma_ok [OF assms(1-3), of S x])
  fix r1 d1 lm
  let ?pre = "prefix_lemma (dict_lookup d) [] (term_words (m_lmstr inlm)) LEMMA_NULL"
  assume N: "new_lemma S M d x inlm = Some (r1, d1, x, lm)" and W1: "wf_dict M d1" and
    R: "(r1 = 1 \<and> entered d inlm d1 lm \<and> m_wordbuf d1 = m_wordbuf d \<and> m_wbpos d1 = m_wbpos d \<and>
        m_lemmalist d1 lm = fill_lemma inlm ?pre (m_lemmalist d lm)) \<or> (r1 = -1 \<and> same_lookups d d1)"
  have r1: "r1 = 1" using R N assms(6,7) by (auto simp: scw_add_lemma_def)
  then have E: "entered d inlm d1 lm" "m_wordbuf d1 = m_wordbuf d" "m_wbpos d1 = m_wbpos d"
      "m_lemmalist d1 lm = fill_lemma inlm ?pre (m_lemmalist d lm)" using R by auto
  have lm: "lm = m_lmpos d" using E(1) by (simp add: entered_def)
  let ?cells = "map of_char (m_lmstr inlm) @ [0 :: nat]"
  obtain r2 d2 where B: "store_sbasic M d1 lm inlm = Some (r2, d2)" "store_spec M d1 lm r2 d2"
      "r2 = 1 \<longrightarrow> m_wordbuf d2 = put_list (m_wordbuf d1) (m_wbpos d1) ?cells \<and> m_lemmalist d2 lm =
         (m_lemmalist d1 lm)\<lparr>m_word_bpos := m_wbpos d1, m_subphinfo_bpos := COMMON_NULL\<rparr>"
    using store_sbasic_ok [OF W1, of lm inlm] by metis
  have d2: "d2 = d'" "r2 = 1"
    using N r1 B(1) assms(4,6,7) by (simp_all add: scw_add_lemma_def store_parts_def)
  have wb: "m_wordbuf d' = put_list (m_wordbuf d) (m_wbpos d) ?cells" using B(3) d2 E by simp
  have rec: "m_type (m_lemmalist d' lm) = LEMMA_TYPE_SBASIC" "m_word_bpos (m_lemmalist d' lm) = m_wbpos d"
      "m_length (m_lemmalist d' lm) = length (m_lmstr inlm)"
    using B(3) d2 E assms(4,5) by (simp_all add: fill_lemma_def LEMMA_TYPE_SBASIC_def)
  have "get_list (put_list (m_wordbuf d) (m_wbpos d) ?cells) (m_wbpos d) (length (m_lmstr inlm)) =
      map of_char (m_lmstr inlm)"
    by (rule nth_equalityI) (simp_all add: put_list_in nth_append)
  then have "get_static_lmstr d' (m_lemmalist d' lm) = map of_char (m_lmstr inlm)"
    using rec wb by (simp add: get_static_lmstr_def)
  moreover have "get_static_lmstr d' (m_lemmalist d' l) = get_static_lmstr d (m_lemmalist d l)"
    if "l \<noteq> lm" "m_type (m_lemmalist d l) = LEMMA_TYPE_SBASIC"
      "m_word_bpos (m_lemmalist d l) + m_length (m_lemmalist d l) \<le> m_wbpos d" for l
  proof -
    have "m_lemmalist d' l = m_lemmalist d l"
      using that(1) B(2) E(1) d2 by (simp add: store_spec_def entered_def)
    then show ?thesis
      using that(2,3) wb by (auto simp: get_static_lmstr_def put_list_out intro!: get_list_cong)
  qed
  ultimately show ?thesis unfolding lm [symmetric] by blast
qed

lemma sample_add_lemma:
  "case scw_add_lemma sample_sdict 1000000 sample_dict None (sample_lemma ''a'') of
      None \<Rightarrow> False | Some (r, d', x') \<Rightarrow> r = 1"
proof -
  have a: "seek_static_dyn sample_sdict sample_dict None ''a'' = Some LEMMA_NULL"
    by (rule sample_absent) simp
  show ?thesis
    unfolding scw_add_lemma_def sample_lemma_str a
    by (simp add: trie_eval sample_dict_eval new_lemma_def link_term_def sample_lemma_def
        insert_term.simps INIT_PROPERTY_def IS_TEMP_def set_lemma_def set_lemma_pos_def scw_get_word_def
        get_value_gb_def store_parts_def store_sbasic_def grow_wordbuf.simps)
qed

theorem static_lemma_text_witness:
  "\<exists>d' x'. scw_add_lemma sample_sdict 1000000 sample_dict None (sample_lemma ''a'') = Some (1, d', x') \<and>
     get_static_lmstr d' (m_lemmalist d' (m_lmpos sample_dict)) = [97]"
proof -
  obtain d' x' where A: "scw_add_lemma sample_sdict 1000000 sample_dict None (sample_lemma ''a'') = Some (1, d', x')"
    using sample_add_lemma by (auto split: option.splits)
  have a: "m_lmstr (sample_lemma ''a'') \<noteq> []" "i_type (sample_lemma ''a'') = LEMMA_TYPE_SBASIC"
      "length (m_lmstr (sample_lemma ''a'')) < 256"
      "seek_static_dyn sample_sdict sample_dict None (m_lmstr (sample_lemma ''a'')) = Some LEMMA_NULL"
    using sample_absent [of "''a''"] by (simp_all add: sample_lemma_def)
  show ?thesis
    using static_lemma_text [OF sample_dict_wf a(1) sample_lemma_not_temp a(2-4) A] A
    by (simp add: sample_lemma_str)
qed

text \<open>
  C9 Maximal matching: \<open>mm_seek_lemma\<close> (not restricted to basic words) never fails an assertion
  and returns the lemma of the longest prefix of the remaining words that has one, with the
  position behind it, or \<open>LEMMA_NULL\<close> when no prefix is a lemma.
\<close>
theorem mm_seek_lemma_longest:
  assumes "wf_dict M d" "pos < slen"
  shows "\<exists>k l np. mm_seek_lemma d s slen pos False = Some (l, np) \<and> k \<le> length (gb_words s pos slen) \<and>
     (if k = 0 then l = LEMMA_NULL
      else l \<noteq> LEMMA_NULL \<and> l = dict_lookup d (take k (gb_words s pos slen)) \<and> np = word_pos s pos slen k) \<and>
     (\<forall>j. k < j \<and> j \<le> length (gb_words s pos slen) \<longrightarrow>
        dict_lookup d (take j (gb_words s pos slen)) = LEMMA_NULL)"
proof -
  obtain k l np where "mm_seek_lemma d s slen pos False = Some (l, np)"
      "best_match d (gb_words s pos slen) k l" "0 < k \<longrightarrow> np = word_pos s pos slen k"
    using mm_seek_lemma_ok [OF assms] by blast
  then show ?thesis
    by (intro exI [of _ k] exI [of _ l] exI [of _ np]) (auto simp: best_match_def)
qed

theorem mm_seek_lemma_longest_witness:
  "\<exists>l np. mm_seek_lemma sample_dict ''abc'' 3 1 False = Some (l, np)"
  using mm_seek_lemma_longest [OF sample_dict_wf, of 1 3 "''abc''"] by auto

end
