(* ===== verification/Inner.thy ===== *)
theory Inner
  imports AddLemma
begin

text \<open>
  The result structure \<open>scw_inner_t\<close> of a segmentation and the operations that build it
  (\<open>segimpl.cpp\<close>, \<open>worddict2inner\<close> of \<open>segdict.cpp\<close>): \<open>m_ppseg\<close> lists the lemmas of the
  sentence, each a record of the dictionary or one created while segmenting; \<open>m_dynlm\<close> holds
  the created records, \<open>m_dynbuf\<close> their texts, \<open>m_dynphinfo\<close> the parts of created phrases.

  A pointer \<open>scw_lemma_t*\<close> is a \<open>lmref\<close>: an element of \<open>m_lemmalist\<close> or of \<open>m_dynlm\<close>. A cell
  of \<open>m_dynphinfo\<close> (\<open>uintptr_t\<close>) holds a number or a pointer; reading one as the other, or
  writing outside an array, is the value \<open>None\<close>.
\<close>

subsection \<open>Data\<close>

definition MAX_TERM :: nat where "MAX_TERM = 10000000"
definition MAX_EXTEND_PHINFO_SIZE :: nat where "MAX_EXTEND_PHINFO_SIZE = 770"
definition MAX_LEMMA_LENGTH :: nat where "MAX_LEMMA_LENGTH = 256"
definition MAX_WORD_LEN :: nat where "MAX_WORD_LEN = 256"

lemmas max_sizes = MAX_TERM_def MAX_EXTEND_PHINFO_SIZE_def MAX_LEMMA_LENGTH_def MAX_WORD_LEN_def

datatype lmref = Static nat | Dyn nat

datatype phcell = PNum nat | PLm lmref

fun cell_num :: "phcell \<Rightarrow> nat option" where
  "cell_num (PNum n) = Some n"
| "cell_num (PLm _) = None"

fun cell_ref :: "phcell \<Rightarrow> lmref option" where
  "cell_ref (PLm r) = Some r"
| "cell_ref (PNum _) = None"

record scw_inner =
  m_maxterm :: nat
  m_flag :: nat
  m_ppseg :: "lmref option buf"
  m_ppseg_cnt :: nat
  m_ppseg_flag :: "nat buf"
  m_dynbuf :: "nat buf"
  m_dynb_size :: nat
  m_dynb_curpos :: nat
  m_dynphinfo :: "phcell buf"
  m_dynph_size :: nat
  m_dynph_curpos :: nat
  m_dynphinfo_tmp :: "phcell buf"
  m_dynph_size_tmp :: nat
  m_dynph_curpos_tmp :: nat
  m_dynlm :: "scw_lemma buf"
  m_dynlm_size :: nat
  m_dynlm_cnt :: nat
  m_mandictword_prop :: "nat buf"
  m_mandictword_size :: nat
  m_mandictword_cnt :: nat

definition scw_create_inner :: "nat \<Rightarrow> nat \<Rightarrow> nat \<Rightarrow> scw_inner option" where
  "scw_create_inner M maxterm flag =
     (if maxterm > MAX_TERM then None
      else if realloc_ok M (maxterm * 30) 1 \<and> realloc_ok M maxterm 8 \<and>
        realloc_ok M (maxterm * 20 + MAX_EXTEND_PHINFO_SIZE) 8 \<and> realloc_ok M (maxterm * 2) sizeof_lemma
      then Some \<lparr>m_maxterm = maxterm, m_flag = flag,
        m_ppseg = (\<lambda>_. None), m_ppseg_cnt = 0, m_ppseg_flag = (\<lambda>_. 0),
        m_dynbuf = (\<lambda>_. 0), m_dynb_size = maxterm * 20, m_dynb_curpos = 0,
        m_dynphinfo = (\<lambda>_. PNum 0), m_dynph_size = maxterm * 20 + MAX_EXTEND_PHINFO_SIZE, m_dynph_curpos = 0,
        m_dynphinfo_tmp = (\<lambda>_. PNum 0), m_dynph_size_tmp = maxterm * 20 + MAX_EXTEND_PHINFO_SIZE,
        m_dynph_curpos_tmp = 0,
        m_dynlm = (\<lambda>_. zero_lemma), m_dynlm_size = maxterm, m_dynlm_cnt = 0,
        m_mandictword_prop = (\<lambda>_. 0), m_mandictword_size = maxterm, m_mandictword_cnt = 0\<rparr>
      else None)"

definition reset_inner :: "scw_inner \<Rightarrow> scw_inner" where
  "reset_inner p = p\<lparr>m_dynbuf := (m_dynbuf p)(0 := 9, 1 := 0), m_dynb_curpos := 1,
     m_dynph_curpos := 0, m_dynph_curpos_tmp := 0, m_dynlm_cnt := 0, m_ppseg_cnt := 0,
     m_mandictword_cnt := 0\<rparr>"

definition deref :: "scw_worddict \<Rightarrow> scw_inner \<Rightarrow> lmref \<Rightarrow> scw_lemma" where
  "deref d p r = (case r of Static k \<Rightarrow> m_lemmalist d k | Dyn k \<Rightarrow> m_dynlm p k)"

definition upd_dynlm :: "scw_inner \<Rightarrow> nat \<Rightarrow> (scw_lemma \<Rightarrow> scw_lemma) \<Rightarrow> scw_inner" where
  "upd_dynlm p k f = p\<lparr>m_dynlm := (m_dynlm p)(k := f (m_dynlm p k))\<rparr>"

lemma upd_dynlm_fields [simp]:
  "m_maxterm (upd_dynlm p k f) = m_maxterm p"
  "m_ppseg (upd_dynlm p k f) = m_ppseg p"
  "m_ppseg_cnt (upd_dynlm p k f) = m_ppseg_cnt p"
  "m_ppseg_flag (upd_dynlm p k f) = m_ppseg_flag p"
  "m_dynbuf (upd_dynlm p k f) = m_dynbuf p"
  "m_dynb_size (upd_dynlm p k f) = m_dynb_size p"
  "m_dynb_curpos (upd_dynlm p k f) = m_dynb_curpos p"
  "m_dynphinfo (upd_dynlm p k f) = m_dynphinfo p"
  "m_dynph_size (upd_dynlm p k f) = m_dynph_size p"
  "m_dynph_curpos (upd_dynlm p k f) = m_dynph_curpos p"
  "m_dynlm_size (upd_dynlm p k f) = m_dynlm_size p"
  "m_dynlm_cnt (upd_dynlm p k f) = m_dynlm_cnt p"
  "m_dynlm (upd_dynlm p k f) = (m_dynlm p)(k := f (m_dynlm p k))"
  by (simp_all add: upd_dynlm_def)

text \<open>\<open>m_dynphinfo[m_dynph_curpos++] = c\<close>, for one cell and for a run of cells.\<close>

definition push_cells :: "scw_inner \<Rightarrow> phcell list \<Rightarrow> scw_inner option" where
  "push_cells p cs = do {
     c_assert (m_dynph_curpos p + length cs \<le> m_dynph_size p);
     Some (p\<lparr>m_dynphinfo := put_list (m_dynphinfo p) (m_dynph_curpos p) cs,
             m_dynph_curpos := m_dynph_curpos p + length cs\<rparr>) }"

subsection \<open>Created words and appending\<close>

definition c_strlen :: "string \<Rightarrow> nat" where
  "c_strlen s = length (takeWhile (\<lambda>c. (of_char c :: nat) \<noteq> 0) s)"

text \<open>\<open>create_dynword\<close>; \<open>m_subphinfo_bpos\<close> of the record keeps its old value, as in the code.\<close>

definition create_dynword :: "scw_inner \<Rightarrow> string \<Rightarrow> int \<times> scw_inner" where
  "create_dynword p str =
     (let len = c_strlen str; k = m_dynlm_cnt p in
      if m_dynb_curpos p + len + 1 \<ge> m_dynb_size p then (-1, p)
      else if k \<ge> m_dynlm_size p then (-1, p)
      else (int k, (upd_dynlm p k (\<lambda>lm. lm\<lparr>m_word_bpos := m_dynb_curpos p, m_type := LEMMA_TYPE_DBASIC,
               m_property := SET_TEMP INIT_PROPERTY, m_length := len mod 256, m_weight := 1,
               m_prelm_pos := LEMMA_NULL, m_utilinfo_pos := COMMON_NULL\<rparr>))
             \<lparr>m_dynlm_cnt := k + 1,
              m_dynbuf := put_list (m_dynbuf p) (m_dynb_curpos p) (map of_char (take len str) @ [0]),
              m_dynb_curpos := m_dynb_curpos p + (len + 1)\<rparr>))"

definition SCW_STATIC :: nat where "SCW_STATIC = 0"
definition SCW_DYNAMIC :: nat where "SCW_DYNAMIC = 1"

definition put_ppseg :: "scw_inner \<Rightarrow> nat \<Rightarrow> lmref \<Rightarrow> scw_inner" where
  "put_ppseg p fl r = p\<lparr>m_ppseg_flag := (m_ppseg_flag p)(m_ppseg_cnt p := fl),
     m_ppseg := (m_ppseg p)(m_ppseg_cnt p := Some r), m_ppseg_cnt := m_ppseg_cnt p + 1\<rparr>"

definition append_lemma_pos :: "scw_inner \<Rightarrow> nat \<Rightarrow> nat \<Rightarrow> int \<times> scw_inner" where
  "append_lemma_pos p lmpos ty =
     (if m_ppseg_cnt p + 1 > m_maxterm p then (-1, p)
      else if ty = SCW_STATIC then (0, put_ppseg p 0 (Static lmpos))
      else if ty = SCW_DYNAMIC then (0, put_ppseg p 0 (Dyn lmpos))
      else (-1, p))"

subsection \<open>Copying a controlled word from the dictionary\<close>

text \<open>The text of a dictionary record of type DBASIC goes to \<open>m_dynbuf\<close>.\<close>

definition copy_dyntext :: "scw_worddict \<Rightarrow> scw_inner \<Rightarrow> scw_lemma \<Rightarrow> int \<times> scw_inner" where
  "copy_dyntext d p lm =
     (if m_dynb_curpos p + m_length lm + 1 \<ge> m_dynb_size p then (-1, p)
      else (0, p\<lparr>m_dynbuf := put_list (m_dynbuf p) (m_dynb_curpos p)
                  (get_list (wd_dynbuf d) (m_word_bpos lm) (m_length lm) @ [0]),
                m_dynb_curpos := m_dynb_curpos p + (m_length lm + 1)\<rparr>))"

text \<open>One basic word of a phrase; both loops of the code over basic words have this body.\<close>

definition copy_basic :: "scw_worddict \<Rightarrow> scw_inner \<Rightarrow> nat \<Rightarrow> (int \<times> scw_inner) option" where
  "copy_basic d p lmpos =
     (if lmpos = LEMMA_NULL then Some (-1, p)
      else let b = m_lemmalist d lmpos in
        if m_type b = LEMMA_TYPE_DBASIC then
          (let (e, p1) = copy_dyntext d p b; k = m_dynlm_cnt p1 in
           if e < 0 then Some (-1, p1)
           else if k \<ge> m_dynlm_size p1 then Some (-1, p1)
           else do {
             p2 \<leftarrow> push_cells (upd_dynlm p1 k (\<lambda>_. b\<lparr>m_word_bpos := m_dynb_curpos p\<rparr>)) [PLm (Dyn k)];
             Some (0, p2\<lparr>m_dynlm_cnt := k + 1\<rparr>) })
        else do { p1 \<leftarrow> push_cells p [PLm (Static lmpos)]; Some (0, p1) })"

fun copy_basics :: "scw_worddict \<Rightarrow> scw_inner \<Rightarrow> nat list \<Rightarrow> (int \<times> scw_inner) option" where
  "copy_basics d p [] = Some (0, p)"
| "copy_basics d p (l # ls) = do {
     (e, p1) \<leftarrow> copy_basic d p l;
     if e < 0 then Some (-1, p1) else copy_basics d p1 ls }"

definition push_tmp :: "scw_inner \<Rightarrow> phcell \<Rightarrow> scw_inner option" where
  "push_tmp p c = do {
     c_assert (m_dynph_curpos_tmp p < m_dynph_size_tmp p);
     Some (p\<lparr>m_dynphinfo_tmp := (m_dynphinfo_tmp p)(m_dynph_curpos_tmp p := c),
             m_dynph_curpos_tmp := m_dynph_curpos_tmp p + 1\<rparr>) }"

text \<open>One subphrase; \<open>off\<close> and \<open>lmpos\<close> are its two cells in the dictionary.\<close>

definition copy_sub :: "scw_worddict \<Rightarrow> scw_inner \<Rightarrow> nat \<Rightarrow> nat \<Rightarrow> (int \<times> scw_inner) option" where
  "copy_sub d p off lmpos = do {
     p1 \<leftarrow> push_tmp p (PNum off);
     if lmpos = LEMMA_NULL then Some (-1, p1)
     else let t = m_lemmalist d lmpos in
       if m_type t = LEMMA_TYPE_DPHRASE then
         (let cnt = wd_dynphinfo d (m_word_bpos t); start = m_dynph_curpos p1 in
          if m_dynph_curpos p1 + cnt + 1 \<ge> m_dynph_size p1 then Some (-1, p1)
          else do {
            p2 \<leftarrow> push_cells p1 [PNum cnt];
            (e, p3) \<leftarrow> copy_basics d p2 (get_list (wd_dynphinfo d) (m_word_bpos t + 1) cnt);
            let k = m_dynlm_cnt p3;
            if e < 0 then Some (-1, p3)
            else if k \<ge> m_dynlm_size p3 then Some (-1, p3)
            else do {
              p4 \<leftarrow> push_tmp (upd_dynlm p3 k (\<lambda>_. t\<lparr>m_word_bpos := start\<rparr>)) (PLm (Dyn k));
              Some (0, p4\<lparr>m_dynlm_cnt := k + 1\<rparr>) } })
       else if m_type t = LEMMA_TYPE_SPHRASE then do {
         p2 \<leftarrow> push_tmp p1 (PLm (Static lmpos)); Some (0, p2) }
       else Some (-1, p1) }"

fun copy_subs :: "scw_worddict \<Rightarrow> scw_inner \<Rightarrow> (nat \<times> nat) list \<Rightarrow> (int \<times> scw_inner) option" where
  "copy_subs d p [] = Some (0, p)"
| "copy_subs d p ((off, lmpos) # ss) = do {
     (e, p1) \<leftarrow> copy_sub d p off lmpos;
     if e < 0 then Some (-1, p1) else copy_subs d p1 ss }"

text \<open>\<open>worddict2inner\<close>: the record \<open>m_dynlm[k]\<close> becomes a copy of the dictionary record \<open>lm\<close>.\<close>

definition worddict2inner :: "scw_worddict \<Rightarrow> scw_inner \<Rightarrow> scw_lemma \<Rightarrow> nat \<Rightarrow> (int \<times> scw_inner) option" where
  "worddict2inner d p0 lm k =
     (let p = upd_dynlm p0 k (\<lambda>_. lm) in
      if m_type lm = LEMMA_TYPE_DBASIC
      then (let (e, p1) = copy_dyntext d (upd_dynlm p k (\<lambda>l. l\<lparr>m_word_bpos := m_dynb_curpos p\<rparr>)) lm
            in Some (e, p1))
      else if m_type lm = LEMMA_TYPE_DPHRASE then
        (let cnt = wd_dynphinfo d (m_word_bpos lm);
             p1 = upd_dynlm p k (\<lambda>l. l\<lparr>m_word_bpos := m_dynph_curpos p\<rparr>) in
         if m_dynph_curpos p1 + cnt + 1 \<ge> m_dynph_size p1 then Some (-1, p1)
         else do {
           p2 \<leftarrow> push_cells p1 [PNum cnt];
           (e, p3) \<leftarrow> copy_basics d p2 (get_list (wd_dynphinfo d) (m_word_bpos lm + 1) cnt);
           if e < 0 then Some (-1, p3)
           else do {
             let sub = m_subphinfo_bpos lm;
             let n = (if sub = COMMON_NULL then 0 else wd_dynphinfo d sub);
             p4 \<leftarrow> (if sub = COMMON_NULL then Some p3
                    else push_tmp (p3\<lparr>m_dynph_curpos_tmp := 0\<rparr>) (PNum n));
             (e, p5) \<leftarrow> copy_subs d p4
               (map (\<lambda>i. (wd_dynphinfo d (sub + 2 * i + 1), wd_dynphinfo d (sub + 2 * i + 2))) [0..<n]);
             if e < 0 then Some (-1, p5)
             else if m_dynph_curpos p5 + 2 * n + 2 \<ge> m_dynph_size p5 then Some (-1, p5)
             else if n > 0 then do {
               p6 \<leftarrow> push_cells (upd_dynlm p5 k (\<lambda>l. l\<lparr>m_subphinfo_bpos := m_dynph_curpos p5\<rparr>))
                      (get_list (m_dynphinfo_tmp p5) 0 (m_dynph_curpos_tmp p5));
               Some (0, p6) }
             else Some (0, upd_dynlm p5 k (\<lambda>l. l\<lparr>m_subphinfo_bpos := COMMON_NULL\<rparr>)) } })
      else Some (0, p))"

text \<open>One part of a controlled lemma; its flag is 1.\<close>

definition append_part :: "scw_worddict \<Rightarrow> scw_inner \<Rightarrow> nat \<Rightarrow> (int \<times> scw_inner) option" where
  "append_part d p l =
     (let t = m_lemmalist d l; k = m_dynlm_cnt p in
      if m_type t = LEMMA_TYPE_SBASIC \<or> m_type t = LEMMA_TYPE_SPHRASE
      then Some (0, put_ppseg p 1 (Static l))
      else if m_type t = LEMMA_TYPE_DBASIC \<or> m_type t = LEMMA_TYPE_DPHRASE then
        if k \<ge> m_dynlm_size p then Some (-1, p)
        else do {
          (e, p1) \<leftarrow> worddict2inner d (p\<lparr>m_dynlm_cnt := k + 1\<rparr>) t k;
          if e < 0 then Some (-1, p1) else Some (0, put_ppseg p1 1 (Dyn k)) }
      else Some (-1, p))"

fun append_parts :: "scw_worddict \<Rightarrow> scw_inner \<Rightarrow> nat list \<Rightarrow> (int \<times> scw_inner) option" where
  "append_parts d p [] = Some (0, p)"
| "append_parts d p (l # ls) = do {
     (e, p1) \<leftarrow> append_part d p l;
     if e < 0 then Some (-1, p1) else append_parts d p1 ls }"

definition append_lemma :: "scw_worddict \<Rightarrow> scw_inner \<Rightarrow> lmref \<Rightarrow> (int \<times> scw_inner) option" where
  "append_lemma d p r =
     (let lm = deref d p r in
      if m_ppseg_cnt p + 1 > m_maxterm p then Some (-1, p)
      else if m_type lm = LEMMA_TYPE_MAN then
        (let cnt = m_phinfo d (m_word_bpos lm) in
         if m_ppseg_cnt p + cnt \<ge> m_maxterm p then Some (-1, p)
         else append_parts d p (get_list (m_phinfo d) (m_word_bpos lm + 1) cnt))
      else Some (0, put_ppseg p 0 r))"

end
