(* ===== verification/LemmaStr.thy ===== *)
theory LemmaStr
  imports Inner
begin

text \<open>
  Reading the text of a lemma (\<open>get_lmstr\<close>, \<open>_get_token_str\<close>, \<open>get_lmoff_step\<close>), recording
  controlled words (\<open>append_manword\<close>) and building phrases out of successive lemmas of the
  result (\<open>create_dphrase\<close>, \<open>poly_lemmas\<close>), all of \<open>segimpl.cpp\<close>.

  The bytes a reader writes to its buffer are the list it returns. The recursion of
  \<open>_get_token_str\<close> through static phrases is bounded by the number of lemmas: a longer chain
  visits a lemma twice, and the C function would not return from it.
\<close>

subsection \<open>The parts of a phrase\<close>

definition phrase_parts :: "scw_worddict \<Rightarrow> scw_lemma \<Rightarrow> nat list" where
  "phrase_parts d lm = get_list (m_phinfo d) (m_word_bpos lm + 1) (m_phinfo d (m_word_bpos lm))"

definition dyn_count :: "scw_inner \<Rightarrow> nat \<Rightarrow> nat option" where
  "dyn_count p pos = do { c_assert (pos < m_dynph_size p); cell_num (m_dynphinfo p pos) }"

fun cell_refs :: "phcell list \<Rightarrow> lmref list option" where
  "cell_refs [] = Some []"
| "cell_refs (c # cs) = do { r \<leftarrow> cell_ref c; rs \<leftarrow> cell_refs cs; Some (r # rs) }"

definition dyn_parts :: "scw_inner \<Rightarrow> scw_lemma \<Rightarrow> lmref list option" where
  "dyn_parts p lm = do {
     n \<leftarrow> dyn_count p (m_word_bpos lm);
     c_assert (m_word_bpos lm + n < m_dynph_size p);
     cell_refs (get_list (m_dynphinfo p) (m_word_bpos lm + 1) n) }"

definition get_lmoff_step :: "scw_worddict \<Rightarrow> scw_inner \<Rightarrow> lmref option \<Rightarrow> int option" where
  "get_lmoff_step d p pl = (case pl of None \<Rightarrow> Some 0 | Some r \<Rightarrow>
     (let lm = deref d p r in
      if m_type lm = LEMMA_TYPE_SBASIC \<or> m_type lm = LEMMA_TYPE_DBASIC then Some 1
      else if m_type lm = LEMMA_TYPE_SPHRASE then Some (int (m_phinfo d (m_word_bpos lm)))
      else if m_type lm = LEMMA_TYPE_DPHRASE then map_option int (dyn_count p (m_word_bpos lm))
      else Some (-1)))"

subsection \<open>The text of a lemma\<close>

definition static_bytes :: "scw_worddict \<Rightarrow> scw_lemma \<Rightarrow> nat list" where
  "static_bytes d lm = get_list (m_wordbuf d) (m_word_bpos lm) (m_length lm)"

definition dyn_bytes :: "nat buf \<Rightarrow> scw_lemma \<Rightarrow> nat list" where
  "dyn_bytes b lm = get_list b (m_word_bpos lm) (m_length lm)"

text \<open>A loop that stops at the first part it cannot read, keeping what was written.\<close>

fun until_bad :: "('a \<Rightarrow> bool \<times> nat list) \<Rightarrow> 'a list \<Rightarrow> bool \<times> nat list" where
  "until_bad f [] = (True, [])"
| "until_bad f (x # xs) =
     (let (ok, b) = f x in if ok then let (ok', bs) = until_bad f xs in (ok', b @ bs) else (False, b))"

text \<open>
  The parts of a controlled lemma are lemmas of the dictionary; the text of the dynamic ones is in
  the dictionary's own buffer. \<open>_get_token_str\<close> and \<open>get_lmstr\<close> have the same loop.
\<close>

definition man_leaf_static :: "scw_worddict \<Rightarrow> nat \<Rightarrow> bool \<times> nat list" where
  "man_leaf_static d l = (let lm = m_lemmalist d l in
     if m_type lm = LEMMA_TYPE_SBASIC then (True, static_bytes d lm) else (False, []))"

definition man_leaf_dyn :: "scw_worddict \<Rightarrow> nat \<Rightarrow> bool \<times> nat list" where
  "man_leaf_dyn d l = (let lm = m_lemmalist d l in
     if m_type lm = LEMMA_TYPE_DBASIC then (True, dyn_bytes (wd_dynbuf d) lm)
     else if m_type lm = LEMMA_TYPE_SBASIC then (True, static_bytes d lm) else (False, []))"

definition man_part :: "scw_worddict \<Rightarrow> nat \<Rightarrow> bool \<times> nat list" where
  "man_part d l = (let lm = m_lemmalist d l in
     if m_type lm = LEMMA_TYPE_SBASIC then (True, static_bytes d lm)
     else if m_type lm = LEMMA_TYPE_DBASIC then (True, dyn_bytes (wd_dynbuf d) lm)
     else if m_type lm = LEMMA_TYPE_SPHRASE then until_bad (man_leaf_static d) (phrase_parts d lm)
     else if m_type lm = LEMMA_TYPE_DPHRASE
     then until_bad (man_leaf_dyn d)
       (get_list (wd_dynphinfo d) (m_word_bpos lm + 1) (wd_dynphinfo d (m_word_bpos lm)))
     else (False, []))"

definition man_bytes :: "scw_worddict \<Rightarrow> scw_lemma \<Rightarrow> bool \<times> nat list" where
  "man_bytes d lm = until_bad (man_part d) (phrase_parts d lm)"

text \<open>The results of the calls in a loop, whose return codes are ignored, one after the other.\<close>

fun gather :: "('a \<Rightarrow> (bool \<times> nat list) option) \<Rightarrow> 'a list \<Rightarrow> nat list option" where
  "gather f [] = Some []"
| "gather f (x # xs) = do { (_, b) \<leftarrow> f x; bs \<leftarrow> gather f xs; Some (b @ bs) }"

primrec token_str :: "nat \<Rightarrow> scw_worddict \<Rightarrow> scw_inner \<Rightarrow> scw_lemma \<Rightarrow> (bool \<times> nat list) option" where
  "token_str 0 d p lm = None"
| "token_str (Suc n) d p lm =
     (if m_type lm = LEMMA_TYPE_SBASIC then Some (True, static_bytes d lm)
      else if m_type lm = LEMMA_TYPE_DBASIC then Some (True, dyn_bytes (m_dynbuf p) lm)
      else if m_type lm = LEMMA_TYPE_SPHRASE then
        map_option (Pair True) (gather (\<lambda>l. token_str n d p (m_lemmalist d l)) (phrase_parts d lm))
      else if m_type lm = LEMMA_TYPE_DPHRASE then do {
        rs \<leftarrow> dyn_parts p lm;
        Some (True, concat (map (\<lambda>r. let l = deref d p r in
          if m_type l = LEMMA_TYPE_SBASIC then static_bytes d l else dyn_bytes (m_dynbuf p) l) rs)) }
      else if m_type lm = LEMMA_TYPE_MAN then Some (man_bytes d lm)
      else Some (False, []))"

definition get_token_str :: "scw_worddict \<Rightarrow> scw_inner \<Rightarrow> scw_lemma \<Rightarrow> (bool \<times> nat list) option" where
  "get_token_str d p lm = token_str (m_lmpos d + 1) d p lm"

text \<open>
  \<open>get_lmstr\<close>: the returned length or -1, and the bytes in \<open>dest\<close>. A text that does not fit
  into \<open>destlen\<close> bytes with its terminator is written out of bounds.
\<close>

definition word_bytes :: "scw_worddict \<Rightarrow> scw_inner \<Rightarrow> lmref \<Rightarrow> (bool \<times> nat list) option" where
  "word_bytes d p r = (let l = deref d p r in
     if m_type l = LEMMA_TYPE_SBASIC then Some (True, static_bytes d l)
     else if m_type l = LEMMA_TYPE_SPHRASE then get_token_str d p l
     else if m_type l = LEMMA_TYPE_DBASIC then Some (True, dyn_bytes (m_dynbuf p) l)
     else get_token_str d p l)"

definition lmstr_bytes :: "scw_worddict \<Rightarrow> scw_inner \<Rightarrow> scw_lemma \<Rightarrow> (bool \<times> nat list) option" where
  "lmstr_bytes d p lm =
     (if m_type lm = LEMMA_TYPE_SBASIC then Some (True, static_bytes d lm)
      else if m_type lm = LEMMA_TYPE_DBASIC then Some (True, dyn_bytes (m_dynbuf p) lm)
      else if m_type lm = LEMMA_TYPE_SPHRASE then
        map_option (Pair True) (gather (\<lambda>l. get_token_str d p (m_lemmalist d l)) (phrase_parts d lm))
      else if m_type lm = LEMMA_TYPE_DPHRASE then do {
        rs \<leftarrow> dyn_parts p lm; map_option (Pair True) (gather (word_bytes d p) rs) }
      else if m_type lm = LEMMA_TYPE_MAN then Some (man_bytes d lm)
      else Some (False, []))"

definition get_lmstr :: "scw_worddict \<Rightarrow> scw_inner \<Rightarrow> lmref option \<Rightarrow> nat \<Rightarrow> (int \<times> nat list) option" where
  "get_lmstr d p pl destlen =
     (if destlen = 0 then Some (-1, [])
      else case pl of None \<Rightarrow> Some (-1, []) | Some r \<Rightarrow> do {
        (ok, bs) \<leftarrow> lmstr_bytes d p (deref d p r);
        if ok then do { c_assert (length bs < destlen); Some (int (length bs), bs) }
        else do { c_assert (length bs \<le> destlen); Some (-1, bs) } })"

subsection \<open>Recording controlled words\<close>

text \<open>Length in the high 8 bits of an unsigned 32-bit word, offset in the low 24 bits.\<close>

definition word_prop :: "nat \<Rightarrow> nat \<Rightarrow> nat" where
  "word_prop len pos = unat ((push_bit 24 (word_of_nat len) OR word_of_nat pos) :: 32 word)"

definition record_word :: "scw_worddict \<Rightarrow> scw_inner \<Rightarrow> lmref \<Rightarrow> nat \<Rightarrow> (int \<times> scw_inner \<times> nat) option" where
  "record_word d p r pos = do {
     (len, _) \<leftarrow> get_lmstr d p (Some r) MAX_WORD_LEN;
     if len < 0 then Some (-1, p, pos)
     else do {
       c_assert (m_mandictword_cnt p < m_mandictword_size p);
       Some (0, p\<lparr>m_mandictword_prop := (m_mandictword_prop p)(m_mandictword_cnt p := word_prop (nat len) pos),
                  m_mandictword_cnt := m_mandictword_cnt p + 1\<rparr>, pos + nat len) } }"

fun record_words :: "scw_worddict \<Rightarrow> scw_inner \<Rightarrow> lmref list \<Rightarrow> nat \<Rightarrow> (int \<times> scw_inner \<times> nat) option" where
  "record_words d p [] pos = Some (0, p, pos)"
| "record_words d p (r # rs) pos = do {
     (e, p1, pos1) \<leftarrow> record_word d p r pos;
     if e < 0 then Some (-1, p1, pos1) else record_words d p1 rs pos1 }"

text \<open>The basic words of one appended part of a controlled lemma.\<close>

definition man_refs :: "scw_worddict \<Rightarrow> scw_inner \<Rightarrow> lmref \<Rightarrow> (int \<times> lmref list) option" where
  "man_refs d p r = (let lm = deref d p r in
     if m_type lm = LEMMA_TYPE_SBASIC \<or> m_type lm = LEMMA_TYPE_DBASIC then Some (0, [r])
     else if m_type lm = LEMMA_TYPE_SPHRASE then Some (0, map Static (phrase_parts d lm))
     else if m_type lm = LEMMA_TYPE_DPHRASE then map_option (Pair 0) (dyn_parts p lm)
     else Some (-1, []))"

fun record_parts :: "scw_worddict \<Rightarrow> scw_inner \<Rightarrow> lmref option list \<Rightarrow> nat \<Rightarrow> (int \<times> scw_inner \<times> nat) option" where
  "record_parts d p [] pos = Some (0, p, pos)"
| "record_parts d p (None # rs) pos = None"
| "record_parts d p (Some r # rs) pos = do {
     (e, ws) \<leftarrow> man_refs d p r;
     if e < 0 then Some (-1, p, pos)
     else do {
       (e, p1, pos1) \<leftarrow> record_words d p ws pos;
       if e < 0 then Some (-1, p1, pos1) else record_parts d p1 rs pos1 } }"

definition append_manword :: "scw_worddict \<Rightarrow> lmref option \<Rightarrow> scw_inner \<Rightarrow> nat \<Rightarrow> (int \<times> scw_inner) option" where
  "append_manword d pl p off = (case pl of None \<Rightarrow> Some (0, p) | Some r \<Rightarrow>
     (let lm = deref d p r in
      if m_type lm = LEMMA_TYPE_SBASIC \<or> m_type lm = LEMMA_TYPE_DBASIC then
        if m_mandictword_cnt p + 1 \<ge> m_mandictword_size p then Some (-1, p)
        else do { (e, p1, _) \<leftarrow> record_word d p r off; Some (e, p1) }
      else if m_type lm = LEMMA_TYPE_SPHRASE then
        if m_mandictword_cnt p + m_phinfo d (m_word_bpos lm) \<ge> m_mandictword_size p then Some (-1, p)
        else do { (e, p1, _) \<leftarrow> record_words d p (map Static (phrase_parts d lm)) off; Some (e, p1) }
      else if m_type lm = LEMMA_TYPE_MAN then
        (let cnt = m_phinfo d (m_word_bpos lm) in
         if m_mandictword_cnt p + cnt \<ge> m_mandictword_size p then Some (-1, p)
         else do {
           c_assert (cnt \<le> m_ppseg_cnt p);
           (e, p1, _) \<leftarrow> record_parts d p (get_list (m_ppseg p) (m_ppseg_cnt p - cnt) cnt) off;
           Some (e, p1) })
      else Some (-1, p)))"

subsection \<open>Well-formed results\<close>

text \<open>
  The static phrases of the dictionary list lemmas that were there before them, and these are
  words, phrases or controlled lemmas.
\<close>

definition static_part :: "scw_worddict \<Rightarrow> nat \<Rightarrow> bool" where
  "static_part d l \<longleftrightarrow> l < m_lmpos d \<and>
     m_type (m_lemmalist d l) \<in> {LEMMA_TYPE_SBASIC, LEMMA_TYPE_SPHRASE, LEMMA_TYPE_MAN}"

definition wf_phrases :: "scw_worddict \<Rightarrow> bool" where
  "wf_phrases d \<longleftrightarrow> (\<forall>l < m_lmpos d. m_type (m_lemmalist d l) = LEMMA_TYPE_SPHRASE \<longrightarrow>
     (\<forall>q \<in> set (phrase_parts d (m_lemmalist d l)). q < l \<and> static_part d q))"

text \<open>A basic word as it stands in the list of a created phrase, and that list.\<close>

definition dyn_word :: "scw_inner \<Rightarrow> scw_lemma \<Rightarrow> bool" where
  "dyn_word p lm \<longleftrightarrow> m_type lm = LEMMA_TYPE_DBASIC \<and> m_word_bpos lm + m_length lm \<le> m_dynb_curpos p"

fun word_ref :: "scw_worddict \<Rightarrow> scw_inner \<Rightarrow> lmref \<Rightarrow> bool" where
  "word_ref d p (Static l) \<longleftrightarrow> static_part d l"
| "word_ref d p (Dyn k) \<longleftrightarrow> k < m_dynlm_cnt p \<and> dyn_word p (m_dynlm p k)"

definition words_at :: "scw_inner \<Rightarrow> nat \<Rightarrow> lmref list \<Rightarrow> bool" where
  "words_at p pos ws \<longleftrightarrow> pos + length ws < m_dynph_curpos p \<and>
     m_dynphinfo p pos = PNum (length ws) \<and>
     get_list (m_dynphinfo p) (pos + 1) (length ws) = map PLm ws"

definition pair_cells :: "(nat \<times> lmref) list \<Rightarrow> phcell list" where
  "pair_cells ss = concat (map (\<lambda>(off, r). [PNum off, PLm r]) ss)"

definition subs_at :: "scw_inner \<Rightarrow> nat \<Rightarrow> (nat \<times> lmref) list \<Rightarrow> bool" where
  "subs_at p sub ss \<longleftrightarrow>
     (if sub = COMMON_NULL then ss = []
      else sub + 2 * length ss < m_dynph_curpos p \<and> m_dynphinfo p sub = PNum (length ss) \<and>
        get_list (m_dynphinfo p) (sub + 1) (2 * length ss) = pair_cells ss)"

definition dyn_phrase :: "scw_worddict \<Rightarrow> scw_inner \<Rightarrow> scw_lemma \<Rightarrow> bool" where
  "dyn_phrase d p lm \<longleftrightarrow> m_type lm = LEMMA_TYPE_DPHRASE \<and>
     (\<exists>ws. words_at p (m_word_bpos lm) ws \<and> list_all (word_ref d p) ws) \<and>
     (\<exists>ss. subs_at p (m_subphinfo_bpos lm) ss)"

fun seg_ref :: "scw_worddict \<Rightarrow> scw_inner \<Rightarrow> lmref \<Rightarrow> bool" where
  "seg_ref d p (Static l) \<longleftrightarrow> l < m_lmpos d \<and>
     m_type (m_lemmalist d l) \<in> {LEMMA_TYPE_SBASIC, LEMMA_TYPE_SPHRASE}"
| "seg_ref d p (Dyn k) \<longleftrightarrow> k < m_dynlm_cnt p"

definition wf_inner :: "scw_worddict \<Rightarrow> scw_inner \<Rightarrow> bool" where
  "wf_inner d p \<longleftrightarrow>
     m_ppseg_cnt p \<le> m_maxterm p \<and> m_dynlm_cnt p \<le> m_dynlm_size p \<and>
     m_dynb_curpos p \<le> m_dynb_size p \<and> m_dynph_curpos p \<le> m_dynph_size p \<and>
     m_dynph_size p \<le> COMMON_NULL \<and>
     (\<forall>k < m_dynlm_cnt p. dyn_word p (m_dynlm p k) \<or> dyn_phrase d p (m_dynlm p k)) \<and>
     (\<forall>i < m_ppseg_cnt p. \<forall>r. m_ppseg p i = Some r \<longrightarrow> seg_ref d p r)"

text \<open>The text of a basic word in a list, of a lemma, and of the whole result.\<close>

definition word_text :: "scw_worddict \<Rightarrow> scw_inner \<Rightarrow> lmref \<Rightarrow> nat list" where
  "word_text d p r = snd (the (word_bytes d p r))"

definition lm_text :: "scw_worddict \<Rightarrow> scw_inner \<Rightarrow> lmref \<Rightarrow> nat list" where
  "lm_text d p r = snd (the (lmstr_bytes d p (deref d p r)))"

text \<open>The lemmas of a stretch of the result; the entries that phrases absorbed are NULL.\<close>

definition seg_refs :: "scw_inner \<Rightarrow> nat \<Rightarrow> nat \<Rightarrow> lmref list" where
  "seg_refs p bpos count = List.map_filter (m_ppseg p) [bpos..<bpos + count]"

definition seg_text :: "scw_worddict \<Rightarrow> scw_inner \<Rightarrow> nat list" where
  "seg_text d p = concat (map (lm_text d p) (seg_refs p 0 (m_ppseg_cnt p)))"

subsection \<open>Texts do not depend on what is added later\<close>

definition inner_ext :: "scw_inner \<Rightarrow> scw_inner \<Rightarrow> bool" where
  "inner_ext p p' \<longleftrightarrow>
     m_maxterm p' = m_maxterm p \<and> m_dynlm_size p' = m_dynlm_size p \<and>
     m_dynb_size p' = m_dynb_size p \<and> m_dynph_size p' = m_dynph_size p \<and>
     m_dynlm_cnt p \<le> m_dynlm_cnt p' \<and> m_dynb_curpos p \<le> m_dynb_curpos p' \<and>
     m_dynph_curpos p \<le> m_dynph_curpos p' \<and>
     (\<forall>k < m_dynlm_cnt p. m_dynlm p' k = m_dynlm p k) \<and>
     (\<forall>i < m_dynb_curpos p. m_dynbuf p' i = m_dynbuf p i) \<and>
     (\<forall>i < m_dynph_curpos p. m_dynphinfo p' i = m_dynphinfo p i)"

lemma inner_ext_refl [simp]: "inner_ext p p"
  by (simp add: inner_ext_def)

lemma inner_ext_trans: "inner_ext p q \<Longrightarrow> inner_ext q s \<Longrightarrow> inner_ext p s"
  by (simp add: inner_ext_def)

lemma gather_all:
  "(\<And>x. x \<in> set xs \<Longrightarrow> f x = Some (b x, g x)) \<Longrightarrow> gather f xs = Some (concat (map g xs))"
  by (induction xs) simp_all

lemma gather_cong: "(\<And>x. x \<in> set xs \<Longrightarrow> f x = g x) \<Longrightarrow> gather f xs = gather g xs"
  by (induction xs) simp_all

lemma gather_total: "(\<And>x. x \<in> set xs \<Longrightarrow> f x \<noteq> None) \<Longrightarrow> gather f xs \<noteq> None"
proof (induction xs)
  case (Cons x xs)
  from Cons.prems obtain b c where "f x = Some (b, c)" by fastforce
  then show ?case using Cons by fastforce
qed simp

lemma gather_map: "gather f (map g xs) = gather (\<lambda>x. f (g x)) xs"
  by (induction xs) simp_all

lemma cell_refs_map [simp]: "cell_refs (map PLm rs) = Some rs"
  by (induction rs) simp_all

lemma token_static:
  assumes d: "wf_phrases d"
  shows "static_part d l \<Longrightarrow> l < n \<Longrightarrow>
    token_str n d p (m_lemmalist d l) = token_str (Suc l) d p' (m_lemmalist d l) \<and>
    token_str n d p (m_lemmalist d l) \<noteq> None"
proof (induction l arbitrary: n p p' rule: less_induct)
  case (less l)
  let ?lm = "m_lemmalist d l"
  obtain m where m: "n = Suc m" using less.prems(2) by (cases n) simp_all
  have "m_type ?lm = LEMMA_TYPE_SBASIC \<or> m_type ?lm = LEMMA_TYPE_SPHRASE \<or> m_type ?lm = LEMMA_TYPE_MAN"
    using less.prems(1) by (auto simp: static_part_def)
  then show ?case
  proof (elim disjE)
    assume ph: "m_type ?lm = LEMMA_TYPE_SPHRASE"
    have part: "q < l \<and> static_part d q" if "q \<in> set (phrase_parts d ?lm)" for q
      using d less.prems(1) ph that by (auto simp: wf_phrases_def static_part_def)
    have IH: "token_str m d p (m_lemmalist d q) = token_str l d p' (m_lemmalist d q) \<and>
        token_str m d p (m_lemmalist d q) \<noteq> None" if "q \<in> set (phrase_parts d ?lm)" for q
    proof -
      have "q < l" "static_part d q" "q < m" using part [OF that] less.prems(2) m by auto
      then show ?thesis
        using less.IH [of q m p p'] less.IH [of q l p' p'] by metis
    qed
    have eq: "gather (\<lambda>q. token_str m d p (m_lemmalist d q)) (phrase_parts d ?lm) =
        gather (\<lambda>q. token_str l d p' (m_lemmalist d q)) (phrase_parts d ?lm)"
      by (rule gather_cong) (use IH in blast)
    have "gather (\<lambda>q. token_str m d p (m_lemmalist d q)) (phrase_parts d ?lm) \<noteq> None"
      by (rule gather_total) (use IH in blast)
    then show ?thesis using ph m eq by (simp add: lemma_types)
  qed (simp_all add: m lemma_types)
qed

lemma get_token_static:
  assumes "wf_phrases d" "static_part d l"
  shows "get_token_str d p (m_lemmalist d l) = get_token_str d p' (m_lemmalist d l)"
    "get_token_str d p (m_lemmalist d l) \<noteq> None"
proof -
  have l: "l < m_lmpos d + 1" using assms(2) by (simp add: static_part_def)
  have p: "token_str (m_lmpos d + 1) d q (m_lemmalist d l) = token_str (Suc l) d p (m_lemmalist d l) \<and>
      token_str (m_lmpos d + 1) d q (m_lemmalist d l) \<noteq> None" for q
    using token_static [OF assms l] by blast
  show "get_token_str d p (m_lemmalist d l) = get_token_str d p' (m_lemmalist d l)"
    unfolding get_token_str_def using p [of p] p [of p'] by simp
  show "get_token_str d p (m_lemmalist d l) \<noteq> None"
    unfolding get_token_str_def using p by blast
qed

lemma word_ref_bytes:
  assumes "wf_phrases d" "word_ref d p r"
  shows "\<exists>b. word_bytes d p r = Some (b, word_text d p r)"
proof -
  have "word_bytes d p r \<noteq> None"
  proof (cases r)
    case (Static l)
    then show ?thesis
      using get_token_static(2) [OF assms(1), of l p] assms(2)
      by (auto simp: word_bytes_def deref_def Let_def lemma_types)
  next
    case (Dyn k)
    then show ?thesis using assms(2) by (simp add: word_bytes_def deref_def dyn_word_def lemma_types)
  qed
  then obtain b bs where "word_bytes d p r = Some (b, bs)" by fastforce
  then show ?thesis by (simp add: word_text_def)
qed

lemma words_at_parts:
  assumes "words_at p (m_word_bpos lm) ws" "m_dynph_curpos p \<le> m_dynph_size p"
  shows "dyn_parts p lm = Some ws"
  using assms by (simp add: words_at_def dyn_parts_def dyn_count_def)

lemma word_text_ext:
  assumes "wf_phrases d" "inner_ext p p'" "word_ref d p r"
  shows "word_ref d p' r" "word_text d p' r = word_text d p r"
proof -
  have "word_ref d p' r \<and> word_text d p' r = word_text d p r"
  proof (cases r)
    case (Static l)
    then have "get_token_str d p' (m_lemmalist d l) = get_token_str d p (m_lemmalist d l)"
      using get_token_static(1) [OF assms(1), of l p' p] assms(3) by simp
    moreover have "m_type (m_lemmalist d l) \<noteq> LEMMA_TYPE_DBASIC"
      using assms(3) Static by (auto simp: static_part_def lemma_types)
    ultimately show ?thesis
      using Static assms(3) by (simp add: word_text_def word_bytes_def deref_def Let_def)
  next
    case (Dyn k)
    have k: "m_dynlm p' k = m_dynlm p k" using assms(2,3) Dyn by (simp add: inner_ext_def)
    have "get_list (m_dynbuf p') (m_word_bpos (m_dynlm p k)) (m_length (m_dynlm p k)) =
        get_list (m_dynbuf p) (m_word_bpos (m_dynlm p k)) (m_length (m_dynlm p k))"
      using assms(2,3) Dyn by (intro get_list_cong) (simp add: inner_ext_def dyn_word_def)
    then show ?thesis
      using Dyn k assms(2,3) by (simp add: word_text_def word_bytes_def deref_def dyn_word_def
          dyn_bytes_def lemma_types inner_ext_def)
  qed
  then show "word_ref d p' r" "word_text d p' r = word_text d p r" by simp_all
qed

lemma words_at_ext:
  assumes "inner_ext p p'" "words_at p pos ws"
  shows "words_at p' pos ws"
proof -
  have "get_list (m_dynphinfo p') (pos + 1) (length ws) = get_list (m_dynphinfo p) (pos + 1) (length ws)"
    using assms by (intro get_list_cong) (simp add: inner_ext_def words_at_def)
  then show ?thesis using assms by (simp add: inner_ext_def words_at_def)
qed

lemma subs_at_ext:
  assumes "inner_ext p p'" "subs_at p sub ss"
  shows "subs_at p' sub ss"
proof (cases "sub = COMMON_NULL")
  case False
  have "get_list (m_dynphinfo p') (sub + 1) (2 * length ss) = get_list (m_dynphinfo p) (sub + 1) (2 * length ss)"
    using assms False by (intro get_list_cong) (simp add: inner_ext_def subs_at_def)
  then show ?thesis using assms False by (simp add: inner_ext_def subs_at_def)
qed (use assms in \<open>simp add: subs_at_def\<close>)

text \<open>The basic words of a lemma: their texts, one after the other, are its text.\<close>

definition ref_words :: "scw_worddict \<Rightarrow> scw_inner \<Rightarrow> lmref \<Rightarrow> lmref list" where
  "ref_words d p r = (let lm = deref d p r in
     if m_type lm = LEMMA_TYPE_SPHRASE then map Static (phrase_parts d lm)
     else if m_type lm = LEMMA_TYPE_DPHRASE then the (dyn_parts p lm)
     else [r])"

lemma static_words:
  assumes "wf_phrases d" "l < m_lmpos d" "m_type (m_lemmalist d l) = LEMMA_TYPE_SPHRASE"
  shows "list_all (word_ref d p) (map Static (phrase_parts d (m_lemmalist d l)))"
  using assms by (auto simp: wf_phrases_def list_all_iff)

lemma static_word_bytes:
  "static_part d q \<Longrightarrow> word_bytes d p (Static q) = get_token_str d p (m_lemmalist d q)"
  by (auto simp: word_bytes_def deref_def static_part_def get_token_str_def lemma_types)

lemma dyn_lemma_cases:
  assumes "wf_inner d p" "k < m_dynlm_cnt p"
  obtains "dyn_word p (m_dynlm p k)" | "dyn_phrase d p (m_dynlm p k)"
  using assms by (auto simp: wf_inner_def)

lemma ref_words_text:
  assumes d: "wf_phrases d" and w: "wf_inner d p" and r: "seg_ref d p r"
  shows "list_all (word_ref d p) (ref_words d p r)"
    "lmstr_bytes d p (deref d p r) = Some (True, concat (map (word_text d p) (ref_words d p r)))"
proof -
  have G: "gather (word_bytes d p) ws = Some (concat (map (word_text d p) ws))"
    if W: "list_all (word_ref d p) ws" for ws
  proof (rule gather_all [where b = "\<lambda>x. fst (the (word_bytes d p x))"])
    fix x assume "x \<in> set ws"
    then obtain b where "word_bytes d p x = Some (b, word_text d p x)"
      using W word_ref_bytes [OF d, of p x] by (auto simp: list_all_iff)
    then show "word_bytes d p x = Some (fst (the (word_bytes d p x)), word_text d p x)" by simp
  qed
  have "list_all (word_ref d p) (ref_words d p r) \<and>
    lmstr_bytes d p (deref d p r) = Some (True, concat (map (word_text d p) (ref_words d p r)))"
  proof (cases r)
    case (Static l)
    show ?thesis
    proof (cases "m_type (m_lemmalist d l) = LEMMA_TYPE_SPHRASE")
      case True
      note W = static_words [OF d _ True, of p]
      have "gather (\<lambda>l. get_token_str d p (m_lemmalist d l)) (phrase_parts d (m_lemmalist d l)) =
          gather (word_bytes d p) (map Static (phrase_parts d (m_lemmalist d l)))"
        unfolding gather_map
        by (rule gather_cong) (use W Static r in \<open>simp add: list_all_iff static_word_bytes\<close>)
      then show ?thesis using W G [OF W] Static r True
        by (simp add: ref_words_def deref_def lmstr_bytes_def lemma_types)
    qed (use Static r in \<open>auto simp: ref_words_def deref_def lmstr_bytes_def static_part_def
        word_text_def word_bytes_def lemma_types\<close>)
  next
    case (Dyn k)
    have "k < m_dynlm_cnt p" using r Dyn by simp
    then show ?thesis using w
    proof (cases rule: dyn_lemma_cases [OF w \<open>k < m_dynlm_cnt p\<close>])
      case 1
      then show ?thesis using Dyn r
        by (simp add: ref_words_def deref_def dyn_word_def lmstr_bytes_def word_text_def
            word_bytes_def lemma_types)
    next
      case 2
      then obtain ws where ws: "words_at p (m_word_bpos (m_dynlm p k)) ws" "list_all (word_ref d p) ws"
        and ty: "m_type (m_dynlm p k) = LEMMA_TYPE_DPHRASE" by (auto simp: dyn_phrase_def)
      have "dyn_parts p (m_dynlm p k) = Some ws"
        using words_at_parts [OF ws(1)] w by (simp add: wf_inner_def)
      then show ?thesis using ty ws G [OF ws(2)] Dyn
        by (simp add: ref_words_def deref_def lmstr_bytes_def lemma_types)
    qed
  qed
  then show "list_all (word_ref d p) (ref_words d p r)"
    "lmstr_bytes d p (deref d p r) = Some (True, concat (map (word_text d p) (ref_words d p r)))"
    by simp_all
qed

lemma lm_text_words:
  assumes "wf_phrases d" "wf_inner d p" "seg_ref d p r"
  shows "lm_text d p r = concat (map (word_text d p) (ref_words d p r))"
  using ref_words_text(2) [OF assms] by (simp add: lm_text_def)

lemma lm_text_ext:
  assumes d: "wf_phrases d" and w: "wf_inner d p" "wf_inner d p'" and e: "inner_ext p p'"
    and r: "seg_ref d p r"
  shows "seg_ref d p' r" "lm_text d p' r = lm_text d p r" "ref_words d p' r = ref_words d p r"
proof -
  show r': "seg_ref d p' r" using r e by (cases r) (auto simp: inner_ext_def)
  show eq: "ref_words d p' r = ref_words d p r"
  proof (cases r)
    case (Dyn k)
    then have k: "k < m_dynlm_cnt p" "m_dynlm p' k = m_dynlm p k" using r e by (auto simp: inner_ext_def)
    show ?thesis using w(1)
    proof (cases rule: dyn_lemma_cases [OF w(1) k(1)])
      case 2
      then obtain ws where ws: "words_at p (m_word_bpos (m_dynlm p k)) ws" by (auto simp: dyn_phrase_def)
      have "dyn_parts p (m_dynlm p k) = Some ws" "dyn_parts p' (m_dynlm p k) = Some ws"
        using words_at_parts [OF ws] words_at_parts [OF words_at_ext [OF e ws]] w by (simp_all add: wf_inner_def)
      then show ?thesis using Dyn k 2 by (simp add: ref_words_def deref_def dyn_phrase_def Let_def lemma_types)
    qed (use Dyn k in \<open>simp add: ref_words_def deref_def dyn_word_def lemma_types\<close>)
  qed (use r in \<open>auto simp: ref_words_def deref_def Let_def lemma_types\<close>)
  have "map (word_text d p') (ref_words d p r) = map (word_text d p) (ref_words d p r)"
    using ref_words_text(1) [OF d w(1) r] word_text_ext [OF d e] by (auto simp: list_all_iff)
  then show "lm_text d p' r = lm_text d p r"
    using lm_text_words [OF d w(1) r] lm_text_words [OF d w(2) r'] eq by (simp del: map_eq_conv)
qed

text \<open>Adding records and entries to a well-formed result.\<close>

lemma wf_inner_add:
  assumes d: "wf_phrases d" and w: "wf_inner d p" and e: "inner_ext p q"
    and sizes: "m_ppseg_cnt q \<le> m_maxterm q" "m_dynlm_cnt q \<le> m_dynlm_size q"
      "m_dynb_curpos q \<le> m_dynb_size q" "m_dynph_curpos q \<le> m_dynph_size q"
    and new: "\<And>k. m_dynlm_cnt p \<le> k \<Longrightarrow> k < m_dynlm_cnt q \<Longrightarrow>
      dyn_word q (m_dynlm q k) \<or> dyn_phrase d q (m_dynlm q k)"
    and seg: "\<And>i r. i < m_ppseg_cnt q \<Longrightarrow> m_ppseg q i = Some r \<Longrightarrow> seg_ref d q r"
  shows "wf_inner d q"
proof -
  have "dyn_word q (m_dynlm q k) \<or> dyn_phrase d q (m_dynlm q k)" if k: "k < m_dynlm_cnt q" for k
  proof (cases "k < m_dynlm_cnt p")
    case True
    then have k': "m_dynlm q k = m_dynlm p k" using e by (simp add: inner_ext_def)
    show ?thesis
    proof (cases rule: dyn_lemma_cases [OF w True])
      case 1
      then show ?thesis using e k' by (simp add: dyn_word_def inner_ext_def)
    next
      case 2
      then show ?thesis
        using words_at_ext [OF e] subs_at_ext [OF e] word_text_ext(1) [OF d e] k'
        unfolding dyn_phrase_def by (metis list_all_iff)
    qed
  qed (use new k in simp)
  then show ?thesis using w e sizes seg by (simp add: wf_inner_def inner_ext_def)
qed

lemma seg_ref_ext: "inner_ext p q \<Longrightarrow> seg_ref d p r \<Longrightarrow> seg_ref d q r"
  by (cases r) (auto simp: inner_ext_def)

lemma wf_inner_seg:
  "wf_inner d p \<Longrightarrow> i < m_ppseg_cnt p \<Longrightarrow> m_ppseg p i = Some r \<Longrightarrow> seg_ref d p r"
  by (simp add: wf_inner_def)

lemma seg_refs_valid:
  "wf_inner d p \<Longrightarrow> a + n \<le> m_ppseg_cnt p \<Longrightarrow> list_all (seg_ref d p) (seg_refs p a n)"
  by (auto simp: seg_refs_def list_all_iff List.map_filter_def) (meson order_less_le_trans wf_inner_seg)

lemma map_filter_append: "List.map_filter f (xs @ ys) = List.map_filter f xs @ List.map_filter f ys"
  by (induction xs) (simp_all add: List.map_filter_simps split: option.split)

lemma seg_refs_split: "seg_refs p a (m + n) = seg_refs p a m @ seg_refs p (a + m) n"
  using upt_add_eq_append [of a "a + m" n] by (simp add: seg_refs_def map_filter_append add.assoc)

lemma map_filter_cong: "(\<And>x. x \<in> set xs \<Longrightarrow> f x = g x) \<Longrightarrow> List.map_filter f xs = List.map_filter g xs"
  by (induction xs) (simp_all add: List.map_filter_simps split: option.split)

lemma seg_refs_cong:
  "(\<And>i. a \<le> i \<Longrightarrow> i < a + n \<Longrightarrow> m_ppseg p i = m_ppseg q i) \<Longrightarrow> seg_refs p a n = seg_refs q a n"
  unfolding seg_refs_def by (rule map_filter_cong) simp

lemma map_lm_text_ext:
  assumes "wf_phrases d" "wf_inner d p" "wf_inner d q" "inner_ext p q" "list_all (seg_ref d p) rs"
  shows "map (lm_text d q) rs = map (lm_text d p) rs"
  using assms(5) lm_text_ext(2) [OF assms(1-4)] by (simp add: list_all_iff)

subsection \<open>Creating and appending\<close>

lemma create_dynword_ok:
  assumes d: "wf_phrases d" and w: "wf_inner d p" and len: "c_strlen str < 256"
    and c: "create_dynword p str = (r, q)" "r \<noteq> -1"
  shows "r = int (m_dynlm_cnt p)" "m_dynlm_cnt q = m_dynlm_cnt p + 1" "wf_inner d q" "inner_ext p q"
    "lm_text d q (Dyn (m_dynlm_cnt p)) = map of_char (take (c_strlen str) str)"
    "m_ppseg q = m_ppseg p" "m_ppseg_cnt q = m_ppseg_cnt p"
    "m_type (m_dynlm q (m_dynlm_cnt p)) = LEMMA_TYPE_DBASIC" "m_ppseg_flag q = m_ppseg_flag p"
proof -
  let ?k = "m_dynlm_cnt p" and ?n = "c_strlen str"
  have n: "?n \<le> length str" by (simp add: c_strlen_def length_takeWhile_le)
  show r: "r = int ?k" using c by (auto simp: create_dynword_def Let_def split: if_splits)
  note q = c [unfolded create_dynword_def Let_def]
  have room: "m_dynb_curpos p + ?n + 1 < m_dynb_size p" "?k < m_dynlm_size p"
    using q by (auto split: if_splits)
  show cnt: "m_dynlm_cnt q = ?k + 1" and seg: "m_ppseg q = m_ppseg p" "m_ppseg_cnt q = m_ppseg_cnt p"
    and "m_ppseg_flag q = m_ppseg_flag p"
    using q by (auto split: if_splits)
  have lm: "m_type (m_dynlm q ?k) = LEMMA_TYPE_DBASIC" "m_word_bpos (m_dynlm q ?k) = m_dynb_curpos p"
    "m_length (m_dynlm q ?k) = ?n" "m_dynb_curpos q = m_dynb_curpos p + (?n + 1)"
    and buf: "m_dynbuf q = put_list (m_dynbuf p) (m_dynb_curpos p) (map of_char (take ?n str) @ [0])"
    using q len by (auto simp: upd_dynlm_def split: if_splits)
  show "m_type (m_dynlm q ?k) = LEMMA_TYPE_DBASIC" by (rule lm)
  have same: "m_maxterm q = m_maxterm p" "m_dynph_curpos q = m_dynph_curpos p" "m_dynph_size q = m_dynph_size p"
    "m_dynb_size q = m_dynb_size p" "m_dynlm_size q = m_dynlm_size p" "m_dynphinfo q = m_dynphinfo p"
    using q by (auto simp: upd_dynlm_def split: if_splits)
  show e: "inner_ext p q" using q buf same
    by (auto simp: inner_ext_def upd_dynlm_def put_list_out split: if_splits)
  show "wf_inner d q"
  proof (rule wf_inner_add [OF d w e])
    fix k assume "m_dynlm_cnt p \<le> k" "k < m_dynlm_cnt q"
    then have "k = ?k" using cnt by simp
    then show "dyn_word q (m_dynlm q k) \<or> dyn_phrase d q (m_dynlm q k)"
      using lm by (simp add: dyn_word_def)
  next
    fix i r assume "i < m_ppseg_cnt q" "m_ppseg q i = Some r"
    then show "seg_ref d q r" using seg by (intro seg_ref_ext [OF e]) (auto dest: wf_inner_seg [OF w])
  qed (use w room same cnt seg lm in \<open>simp_all add: wf_inner_def\<close>)
  have "get_list (m_dynbuf q) (m_dynb_curpos p) ?n = map of_char (take ?n str)"
    unfolding buf by (rule nth_equalityI) (use n in \<open>simp_all add: put_list_def nth_append min_def\<close>)
  then show "lm_text d q (Dyn ?k) = map of_char (take ?n str)"
    using lm by (simp add: lm_text_def lmstr_bytes_def deref_def dyn_bytes_def lemma_types)
qed

text \<open>One more entry of the result.\<close>

lemma put_ppseg_ok:
  assumes d: "wf_phrases d" and w: "wf_inner d p" and r: "seg_ref d p r" and c: "m_ppseg_cnt p < m_maxterm p"
  shows "wf_inner d (put_ppseg p fl r)" "inner_ext p (put_ppseg p fl r)"
    "seg_text d (put_ppseg p fl r) = seg_text d p @ lm_text d p r"
    "lm_text d (put_ppseg p fl r) r = lm_text d p r"
proof -
  let ?q = "put_ppseg p fl r"
  show e: "inner_ext p ?q" by (simp add: inner_ext_def put_ppseg_def)
  show w': "wf_inner d ?q"
  proof (rule wf_inner_add [OF d w e])
    fix i s assume "i < m_ppseg_cnt ?q" "m_ppseg ?q i = Some s"
    then show "seg_ref d ?q s"
      using r by (intro seg_ref_ext [OF e])
        (auto simp: put_ppseg_def less_Suc_eq dest: wf_inner_seg [OF w] split: if_splits)
  qed (use w c in \<open>simp_all add: wf_inner_def put_ppseg_def\<close>)
  have "seg_refs ?q 0 (m_ppseg_cnt ?q) = seg_refs p 0 (m_ppseg_cnt p) @ [r]"
  proof -
    have "seg_refs ?q 0 (m_ppseg_cnt p) = seg_refs p 0 (m_ppseg_cnt p)"
      by (rule seg_refs_cong) (simp add: put_ppseg_def)
    then show ?thesis
      by (simp add: seg_refs_def put_ppseg_def map_filter_append List.map_filter_simps)
  qed
  moreover have "list_all (seg_ref d p) (seg_refs p 0 (m_ppseg_cnt p))"
    using seg_refs_valid [OF w] by simp
  ultimately show "seg_text d ?q = seg_text d p @ lm_text d p r"
    using map_lm_text_ext [OF d w w' e] lm_text_ext(2) [OF d w w' e r]
    by (simp add: seg_text_def del: map_eq_conv)
  show "lm_text d ?q r = lm_text d p r" by (rule lm_text_ext(2) [OF d w w' e r])
qed

end
