(* ===== verification/Phrase.thy ===== *)
theory Phrase
  imports LemmaStr
begin

text \<open>
  Building phrases out of successive lemmas of the result: \<open>create_dphrase\<close> only makes the
  record, \<open>poly_lemmas\<close> also records the subphrases and replaces the lemmas by the phrase
  (\<open>segimpl.cpp\<close>). A phrase lists its basic words in \<open>m_dynphinfo\<close>: their number, then a
  pointer each. Its subphrases follow: their number, then an offset and a pointer each.
\<close>

definition phrase_length :: "scw_worddict \<Rightarrow> scw_inner \<Rightarrow> lmref list \<Rightarrow> nat" where
  "phrase_length d p rs = sum_list (map (\<lambda>r. m_length (deref d p r)) rs)"

text \<open>The \<open>switch\<close> that both functions share: the cells of the basic words of one lemma.\<close>

definition lemma_cells :: "scw_worddict \<Rightarrow> scw_inner \<Rightarrow> lmref \<Rightarrow> (int \<times> phcell list) option" where
  "lemma_cells d p r = (let lm = deref d p r in
     if m_type lm = LEMMA_TYPE_SBASIC \<or> m_type lm = LEMMA_TYPE_DBASIC then Some (0, [PLm r])
     else if m_type lm = LEMMA_TYPE_SPHRASE then Some (0, map (PLm \<circ> Static) (phrase_parts d lm))
     else if m_type lm = LEMMA_TYPE_DPHRASE then do {
       n \<leftarrow> dyn_count p (m_word_bpos lm);
       c_assert (m_word_bpos lm + n < m_dynph_size p);
       Some (0, get_list (m_dynphinfo p) (m_word_bpos lm + 1) n) }
     else Some (-1, []))"

fun add_words_of :: "scw_worddict \<Rightarrow> scw_inner \<Rightarrow> lmref list \<Rightarrow> nat \<Rightarrow> (int \<times> scw_inner \<times> nat) option" where
  "add_words_of d p [] bw = Some (0, p, bw)"
| "add_words_of d p (r # rs) bw = do {
     (e, cs) \<leftarrow> lemma_cells d p r;
     if e < 0 then Some (-1, p, bw)
     else do { p1 \<leftarrow> push_cells p cs; add_words_of d p1 rs (bw + length cs) } }"

definition write_cell :: "scw_inner \<Rightarrow> nat \<Rightarrow> phcell \<Rightarrow> scw_inner" where
  "write_cell p pos c = p\<lparr>m_dynphinfo := (m_dynphinfo p)(pos := c)\<rparr>"

lemma write_cell_fields [simp]:
  "m_maxterm (write_cell p pos c) = m_maxterm p"
  "m_ppseg (write_cell p pos c) = m_ppseg p"
  "m_ppseg_cnt (write_cell p pos c) = m_ppseg_cnt p"
  "m_ppseg_flag (write_cell p pos c) = m_ppseg_flag p"
  "m_dynbuf (write_cell p pos c) = m_dynbuf p"
  "m_dynb_size (write_cell p pos c) = m_dynb_size p"
  "m_dynb_curpos (write_cell p pos c) = m_dynb_curpos p"
  "m_dynph_size (write_cell p pos c) = m_dynph_size p"
  "m_dynph_curpos (write_cell p pos c) = m_dynph_curpos p"
  "m_dynlm (write_cell p pos c) = m_dynlm p"
  "m_dynlm_size (write_cell p pos c) = m_dynlm_size p"
  "m_dynlm_cnt (write_cell p pos c) = m_dynlm_cnt p"
  "m_dynphinfo (write_cell p pos c) = (m_dynphinfo p)(pos := c)"
  by (simp_all add: write_cell_def)

definition create_dphrase :: "scw_worddict \<Rightarrow> scw_inner \<Rightarrow> nat \<Rightarrow> nat \<Rightarrow> (int \<times> scw_inner) option" where
  "create_dphrase d p bpos count =
     (let k = m_dynlm_cnt p; start = m_dynph_curpos p; rs = seg_refs p bpos count in
      if k \<ge> m_dynlm_size p then Some (-1, p)
      else if start + MAX_EXTEND_PHINFO_SIZE \<ge> m_dynph_size p then Some (-1, p)
      else do {
        c_assert (bpos + count \<le> m_maxterm p);
        let p1 = upd_dynlm p k (\<lambda>lm. lm\<lparr>m_type := LEMMA_TYPE_DPHRASE,
               m_property := SET_TEMP (SET_PHRASE INIT_PROPERTY), m_weight := 1\<rparr>);
        let p2 = upd_dynlm p1 k (\<lambda>lm. lm\<lparr>m_length := phrase_length d p1 rs mod 256,
               m_subphinfo_bpos := COMMON_NULL, m_word_bpos := start,
               m_prelm_pos := LEMMA_NULL, m_utilinfo_pos := COMMON_NULL\<rparr>);
        (e, p3, _) \<leftarrow> add_words_of d (p2\<lparr>m_dynph_curpos := start + 1\<rparr>) rs 0;
        if e < 0 then Some (-1, p3)
        else (let bwnum = m_dynph_curpos p3 - start - 1 in
          if bwnum \<le> 1 then Some (-1, p3)
          else Some (int k, (write_cell p3 start (PNum bwnum))\<lparr>m_dynlm_cnt := k + 1\<rparr>)) })"

text \<open>The subphrases of one lemma: the phrase itself at \<open>off\<close>, then its own, shifted by \<open>off\<close>.\<close>

fun shift_subs :: "nat \<Rightarrow> phcell list \<Rightarrow> phcell list option" where
  "shift_subs off (o1 # c # cs) = do {
     n \<leftarrow> cell_num o1; r \<leftarrow> cell_ref c; rest \<leftarrow> shift_subs off cs;
     Some (PNum (off + n) # PLm r # rest) }"
| "shift_subs off [] = Some []"
| "shift_subs off [c] = None"

definition own_subs :: "scw_worddict \<Rightarrow> scw_inner \<Rightarrow> scw_lemma \<Rightarrow> nat \<Rightarrow> phcell list option" where
  "own_subs d p lm off =
     (let sub = m_subphinfo_bpos lm in
      if sub = COMMON_NULL then Some []
      else if m_type lm = LEMMA_TYPE_SPHRASE then
        Some (concat (map (\<lambda>j. [PNum (off + m_phinfo d (sub + 2 * j + 1)),
                                PLm (Static (m_phinfo d (sub + 2 * j + 2)))]) [0..<m_phinfo d sub]))
      else do {
        n \<leftarrow> dyn_count p sub;
        c_assert (sub + 2 * n < m_dynph_size p);
        shift_subs off (get_list (m_dynphinfo p) (sub + 1) (2 * n)) })"

definition sub_cells :: "scw_worddict \<Rightarrow> scw_inner \<Rightarrow> lmref \<Rightarrow> nat \<Rightarrow> (int \<times> phcell list) option" where
  "sub_cells d p r off = (let lm = deref d p r in
     if m_type lm = LEMMA_TYPE_SBASIC \<or> m_type lm = LEMMA_TYPE_DBASIC then Some (0, [])
     else if m_type lm = LEMMA_TYPE_SPHRASE \<or> m_type lm = LEMMA_TYPE_DPHRASE then do {
       cs \<leftarrow> own_subs d p lm off; Some (0, PNum off # PLm r # cs) }
     else Some (-1, []))"

fun add_subs_of :: "scw_worddict \<Rightarrow> scw_inner \<Rightarrow> lmref list \<Rightarrow> nat \<Rightarrow> nat \<Rightarrow> (int \<times> scw_inner \<times> nat) option" where
  "add_subs_of d p [] off spcnt = Some (0, p, spcnt)"
| "add_subs_of d p (r # rs) off spcnt = do {
     (e, cs) \<leftarrow> sub_cells d p r off;
     if e < 0 then Some (-1, p, spcnt)
     else do {
       p1 \<leftarrow> push_cells p cs;
       step \<leftarrow> get_lmoff_step d p1 (Some r);
       add_subs_of d p1 rs (off + nat step) (spcnt + length cs div 2) } }"

definition drop_ppseg :: "scw_inner \<Rightarrow> nat \<Rightarrow> nat \<Rightarrow> lmref \<Rightarrow> scw_inner" where
  "drop_ppseg p bpos count r =
     p\<lparr>m_ppseg := fill ((m_ppseg p)(bpos := Some r)) (bpos + 1) (count - 1) None\<rparr>"

definition poly_lemmas :: "scw_worddict \<Rightarrow> scw_inner \<Rightarrow> nat \<Rightarrow> nat \<Rightarrow> (int \<times> scw_inner) option" where
  "poly_lemmas d p bpos count =
     (let k = m_dynlm_cnt p; start = m_dynph_curpos p; rs = seg_refs p bpos count;
          phlen = phrase_length d p rs in
      if count \<le> 1 then Some (-1, p)
      else if k \<ge> m_dynlm_size p then Some (-1, p)
      else if start + MAX_EXTEND_PHINFO_SIZE \<ge> m_dynph_size p then Some (-1, p)
      else do {
        c_assert (bpos + count \<le> m_maxterm p);
        if phlen \<ge> MAX_LEMMA_LENGTH then Some (-2, p)
        else do {
          let p1 = upd_dynlm p k (\<lambda>lm. lm\<lparr>m_type := LEMMA_TYPE_DPHRASE, m_weight := 1,
                 m_subphinfo_bpos := COMMON_NULL, m_word_bpos := start,
                 m_property := SET_TEMP (SET_PHRASE INIT_PROPERTY), m_length := phlen\<rparr>);
          (e, p2, bwcnt) \<leftarrow> add_words_of d (p1\<lparr>m_dynph_curpos := start + 1\<rparr>) rs 0;
          if e < 0 then Some (-1, p2)
          else do {
            let p3 = write_cell p2 start (PNum bwcnt);
            let sub = m_dynph_curpos p3;
            c_assert (sub < m_dynph_size p3);
            (e, p4, spcnt) \<leftarrow> add_subs_of d ((upd_dynlm p3 k (\<lambda>lm. lm\<lparr>m_subphinfo_bpos := sub\<rparr>))
                 \<lparr>m_dynph_curpos := sub + 1\<rparr>) rs 0 0;
            if e < 0 then Some (-1, p4)
            else (let p5 = (if spcnt > 0 then write_cell p4 sub (PNum spcnt)
                            else upd_dynlm p4 k (\<lambda>lm. lm\<lparr>m_subphinfo_bpos := COMMON_NULL\<rparr>)) in
              Some (int k, (drop_ppseg p5 bpos count (Dyn k))\<lparr>m_dynlm_cnt := k + 1\<rparr>)) } } })"

definition get_oneword_lemma :: "scw_worddict \<Rightarrow> nat \<Rightarrow> nat option option" where
  "get_oneword_lemma d v = do {
     de \<leftarrow> scw_seek_entry d DENTRY_FIRST v;
     Some (if de = DENTRY_NULL then None
           else let l = m_lemma_pos (m_dictentry d de) in if l = COMMON_NULL then None else Some l) }"

subsection \<open>Results that grow\<close>

text \<open>\<open>q\<close> is \<open>p\<close> with more cells and with records above the count, as inside the functions.\<close>

definition grown :: "scw_inner \<Rightarrow> scw_inner \<Rightarrow> bool" where
  "grown p q \<longleftrightarrow> inner_ext p q \<and> m_ppseg q = m_ppseg p \<and> m_ppseg_cnt q = m_ppseg_cnt p \<and>
     m_dynlm_cnt q = m_dynlm_cnt p \<and> m_dynb_curpos q = m_dynb_curpos p \<and>
     m_dynph_curpos q \<le> m_dynph_size q"

lemma grown_refl: "m_dynph_curpos p \<le> m_dynph_size p \<Longrightarrow> grown p p"
  by (simp add: grown_def)

lemma grown_wf:
  assumes d: "wf_phrases d" and w: "wf_inner d p" and g: "grown p q"
  shows "wf_inner d q"
proof (rule wf_inner_add [OF d w])
  show e: "inner_ext p q" using g by (simp add: grown_def)
  fix i r assume "i < m_ppseg_cnt q" "m_ppseg q i = Some r"
  then show "seg_ref d q r" using g by (intro seg_ref_ext [OF e]) (auto simp: grown_def dest: wf_inner_seg [OF w])
qed (use w g in \<open>simp_all add: grown_def wf_inner_def inner_ext_def\<close>)

lemma push_cells_Some:
  "push_cells p cs = Some q \<longleftrightarrow> m_dynph_curpos p + length cs \<le> m_dynph_size p \<and>
     q = p\<lparr>m_dynphinfo := put_list (m_dynphinfo p) (m_dynph_curpos p) cs,
           m_dynph_curpos := m_dynph_curpos p + length cs\<rparr>"
  by (auto simp: push_cells_def c_assert_def)

lemma push_cells_Nil [simp]: "m_dynph_curpos p \<le> m_dynph_size p \<Longrightarrow> push_cells p [] = Some p"
proof -
  have "put_list b pos [] = b" for b :: "phcell buf" and pos
    by (auto simp: put_list_def fun_eq_iff)
  then show "m_dynph_curpos p \<le> m_dynph_size p \<Longrightarrow> push_cells p [] = Some p"
    by (simp add: push_cells_def)
qed

lemma grown_push: "grown p q \<Longrightarrow> push_cells q cs = Some q' \<Longrightarrow> grown p q'"
  by (auto simp: push_cells_Some grown_def inner_ext_def put_list_out)

lemma grown_write: "grown p q \<Longrightarrow> m_dynph_curpos p \<le> pos \<Longrightarrow> grown p (write_cell q pos c)"
  by (auto simp: grown_def inner_ext_def write_cell_def)

lemma grown_upd: "grown p q \<Longrightarrow> m_dynlm_cnt p \<le> k \<Longrightarrow> grown p (upd_dynlm q k f)"
  by (auto simp: grown_def inner_ext_def upd_dynlm_def)

lemma grown_reserve:
  "grown p q \<Longrightarrow> m_dynph_curpos q \<le> pos \<Longrightarrow> pos \<le> m_dynph_size q \<Longrightarrow> grown p (q\<lparr>m_dynph_curpos := pos\<rparr>)"
  by (auto simp: grown_def inner_ext_def)

lemma grown_ext [simp]: "grown p q \<Longrightarrow> inner_ext p q"
  by (simp add: grown_def)

lemma put_list_append:
  "put_list (put_list b pos xs) (pos + length xs) ys = put_list b pos (xs @ ys)"
  by (auto simp: put_list_def fun_eq_iff nth_append)

lemma push_cells_append: "push_cells p (xs @ ys) = Option.bind (push_cells p xs) (\<lambda>q. push_cells q ys)"
  by (auto simp: push_cells_def c_assert_def put_list_append add.assoc)

subsection \<open>The words of a phrase\<close>

lemma ref_words_grown:
  assumes "wf_phrases d" "wf_inner d p" "grown p q" "seg_ref d p r"
  shows "ref_words d q r = ref_words d p r" "seg_ref d q r" "lm_text d q r = lm_text d p r"
  using lm_text_ext [OF assms(1,2) grown_wf [OF assms(1-3)] _ assms(4)] assms(3) by simp_all

lemma lemma_cells_words:
  assumes w: "wf_inner d p" and r: "seg_ref d p r"
  shows "lemma_cells d p r = Some (0, map PLm (ref_words d p r))"
proof (cases r)
  case (Static l)
  then show ?thesis using r
    by (auto simp: lemma_cells_def deref_def ref_words_def Let_def lemma_types)
next
  case (Dyn k)
  then have k: "k < m_dynlm_cnt p" using r by simp
  show ?thesis
  proof (cases rule: dyn_lemma_cases [OF w k])
    case 1
    then show ?thesis using Dyn by (simp add: lemma_cells_def deref_def ref_words_def dyn_word_def lemma_types)
  next
    case 2
    then obtain ws where ws: "words_at p (m_word_bpos (m_dynlm p k)) ws" by (auto simp: dyn_phrase_def)
    then have "dyn_parts p (m_dynlm p k) = Some ws"
      using words_at_parts w by (simp add: wf_inner_def)
    then show ?thesis using Dyn 2 ws w
      by (simp add: lemma_cells_def deref_def ref_words_def dyn_phrase_def words_at_def dyn_count_def
          wf_inner_def lemma_types)
  qed
qed

definition all_words :: "scw_worddict \<Rightarrow> scw_inner \<Rightarrow> lmref list \<Rightarrow> lmref list" where
  "all_words d p rs = concat (map (ref_words d p) rs)"

lemma add_words_of_eq:
  assumes d: "wf_phrases d" and w: "wf_inner d p" and rs: "list_all (seg_ref d p) rs" and g: "grown p q"
  shows "add_words_of d q rs bw =
    map_option (\<lambda>q'. (0, q', bw + length (all_words d p rs))) (push_cells q (map PLm (all_words d p rs)))"
  using rs g
proof (induction rs arbitrary: q bw)
  case Nil
  then show ?case by (simp add: all_words_def grown_def)
next
  case (Cons r rs)
  have r: "lemma_cells d q r = Some (0, map PLm (ref_words d p r))"
    using lemma_cells_words [OF grown_wf [OF d w Cons.prems(2)]] ref_words_grown [OF d w Cons.prems(2)]
      Cons.prems(1) by simp
  show ?case
  proof (cases "push_cells q (map PLm (ref_words d p r))")
    case None
    then show ?thesis by (simp add: r all_words_def push_cells_append)
  next
    case (Some q')
    then show ?thesis using Cons.IH [OF _ grown_push [OF Cons.prems(2) Some]] Cons.prems(1)
      by (simp add: r all_words_def push_cells_append add.assoc)
  qed
qed

subsection \<open>The subphrases of a phrase\<close>

fun cell_pairs :: "phcell list \<Rightarrow> (nat \<times> lmref) list" where
  "cell_pairs (PNum n # PLm r # cs) = (n, r) # cell_pairs cs"
| "cell_pairs _ = []"

lemma pair_cells_simps [simp]:
  "pair_cells [] = []" "pair_cells ((n, r) # ss) = PNum n # PLm r # pair_cells ss"
  "pair_cells (ss @ ts) = pair_cells ss @ pair_cells ts" "length (pair_cells ss) = 2 * length ss"
  by (simp_all add: pair_cells_def) (induction ss; auto)

lemma cell_pairs_cells [simp]: "cell_pairs (pair_cells ss) = ss"
  by (induction ss) auto

lemma shift_pair_cells: "shift_subs off (pair_cells ss) = Some (pair_cells (map (apfst ((+) off)) ss))"
  by (induction ss) auto

definition own_pairs :: "scw_worddict \<Rightarrow> scw_inner \<Rightarrow> scw_lemma \<Rightarrow> (nat \<times> lmref) list" where
  "own_pairs d p lm = (let sub = m_subphinfo_bpos lm in
     if sub = COMMON_NULL then []
     else if m_type lm = LEMMA_TYPE_SPHRASE
     then map (\<lambda>j. (m_phinfo d (sub + 2 * j + 1), Static (m_phinfo d (sub + 2 * j + 2)))) [0..<m_phinfo d sub]
     else cell_pairs (get_list (m_dynphinfo p) (sub + 1) (2 * the (cell_num (m_dynphinfo p sub)))))"

text \<open>The subphrases that one lemma at word offset \<open>off\<close> gives to the phrase it becomes part of.\<close>

definition ref_subs :: "scw_worddict \<Rightarrow> scw_inner \<Rightarrow> lmref \<Rightarrow> nat \<Rightarrow> (nat \<times> lmref) list" where
  "ref_subs d p r off = (let lm = deref d p r in
     if m_type lm = LEMMA_TYPE_SPHRASE \<or> m_type lm = LEMMA_TYPE_DPHRASE
     then (off, r) # map (apfst ((+) off)) (own_pairs d p lm) else [])"

fun all_subs :: "scw_worddict \<Rightarrow> scw_inner \<Rightarrow> lmref list \<Rightarrow> nat \<Rightarrow> (nat \<times> lmref) list" where
  "all_subs d p [] off = []"
| "all_subs d p (r # rs) off =
     ref_subs d p r off @ all_subs d p rs (off + length (ref_words d p r))"

lemma subs_at_pairs:
  assumes "subs_at p (m_subphinfo_bpos lm) ss" "m_type lm = LEMMA_TYPE_DPHRASE"
  shows "own_pairs d p lm = ss"
  using assms by (auto simp: own_pairs_def subs_at_def Let_def lemma_types split: if_splits)

lemma sub_cells_subs:
  assumes w: "wf_inner d p" and r: "seg_ref d p r"
  shows "sub_cells d p r off = Some (0, pair_cells (ref_subs d p r off))"
proof (cases r)
  case (Static l)
  have *: "concat (map (\<lambda>j. [PNum (off + f j), PLm (g j)]) js) =
      pair_cells (map (apfst ((+) off)) (map (\<lambda>j. (f j, g j)) js))" for f g and js :: "nat list"
    by (induction js) simp_all
  from Static show ?thesis using r
    by (auto simp: sub_cells_def deref_def ref_subs_def own_subs_def own_pairs_def Let_def * lemma_types)
next
  case (Dyn k)
  then have k: "k < m_dynlm_cnt p" using r by simp
  show ?thesis
  proof (cases rule: dyn_lemma_cases [OF w k])
    case 1
    then show ?thesis using Dyn by (simp add: sub_cells_def deref_def ref_subs_def dyn_word_def lemma_types)
  next
    case 2
    then obtain ss where ss: "subs_at p (m_subphinfo_bpos (m_dynlm p k)) ss" by (auto simp: dyn_phrase_def)
    have "own_pairs d p (m_dynlm p k) = ss" using subs_at_pairs [OF ss] 2 by (simp add: dyn_phrase_def)
    then show ?thesis using Dyn 2 ss w
      by (auto simp: sub_cells_def deref_def ref_subs_def own_subs_def dyn_phrase_def subs_at_def
          dyn_count_def shift_pair_cells Let_def wf_inner_def lemma_types split: if_splits)
  qed
qed

lemma ref_subs_grown:
  assumes w: "wf_inner d p" and g: "grown p q" and r: "seg_ref d p r"
  shows "ref_subs d q r off = ref_subs d p r off"
proof (cases r)
  case (Static l)
  then show ?thesis using r
    by (auto simp: ref_subs_def deref_def own_pairs_def Let_def lemma_types)
next
  case (Dyn k)
  then have k: "k < m_dynlm_cnt p" "m_dynlm q k = m_dynlm p k"
    using r g by (auto simp: grown_def inner_ext_def)
  show ?thesis
  proof (cases rule: dyn_lemma_cases [OF w k(1)])
    case 1
    then show ?thesis using Dyn k by (simp add: ref_subs_def deref_def dyn_word_def lemma_types)
  next
    case 2
    then obtain ss where ss: "subs_at p (m_subphinfo_bpos (m_dynlm p k)) ss"
      and ty: "m_type (m_dynlm p k) = LEMMA_TYPE_DPHRASE" by (auto simp: dyn_phrase_def)
    show ?thesis using subs_at_pairs [OF ss ty] subs_at_pairs [OF subs_at_ext [OF grown_ext [OF g] ss] ty] Dyn k
      by (simp add: ref_subs_def deref_def Let_def)
  qed
qed

lemma lmoff_step_words:
  assumes w: "wf_inner d p" and r: "seg_ref d p r"
  shows "get_lmoff_step d p (Some r) = Some (int (length (ref_words d p r)))"
proof (cases r)
  case (Static l)
  then show ?thesis using r
    by (auto simp: get_lmoff_step_def deref_def ref_words_def Let_def phrase_parts_def lemma_types)
next
  case (Dyn k)
  then have k: "k < m_dynlm_cnt p" using r by simp
  show ?thesis
  proof (cases rule: dyn_lemma_cases [OF w k])
    case 1
    then show ?thesis using Dyn by (simp add: get_lmoff_step_def deref_def ref_words_def dyn_word_def lemma_types)
  next
    case 2
    then obtain ws where ws: "words_at p (m_word_bpos (m_dynlm p k)) ws" by (auto simp: dyn_phrase_def)
    then have "dyn_parts p (m_dynlm p k) = Some ws" "dyn_count p (m_word_bpos (m_dynlm p k)) = Some (length ws)"
      using words_at_parts w by (simp_all add: wf_inner_def dyn_count_def words_at_def)
    then show ?thesis using Dyn 2
      by (simp add: get_lmoff_step_def deref_def ref_words_def dyn_phrase_def lemma_types)
  qed
qed

lemma add_subs_of_eq:
  assumes d: "wf_phrases d" and w: "wf_inner d p" and rs: "list_all (seg_ref d p) rs" and g: "grown p q"
  shows "add_subs_of d q rs off n =
    map_option (\<lambda>q'. (0, q', n + length (all_subs d p rs off))) (push_cells q (pair_cells (all_subs d p rs off)))"
  using rs g
proof (induction rs arbitrary: q off n)
  case Nil
  then show ?case by (simp add: grown_def)
next
  case (Cons r rs)
  have r: "seg_ref d p r" using Cons.prems by simp
  have s: "sub_cells d q r off = Some (0, pair_cells (ref_subs d p r off))"
    using sub_cells_subs [OF grown_wf [OF d w Cons.prems(2)]] ref_words_grown [OF d w Cons.prems(2) r]
      ref_subs_grown [OF w Cons.prems(2) r] by simp
  show ?case
  proof (cases "push_cells q (pair_cells (ref_subs d p r off))")
    case None
    then show ?thesis by (simp add: s push_cells_append)
  next
    case (Some q')
    note g' = grown_push [OF Cons.prems(2) Some]
    have "get_lmoff_step d q' (Some r) = Some (int (length (ref_words d p r)))"
      using lmoff_step_words [OF grown_wf [OF d w g']] ref_words_grown [OF d w g' r] by simp
    then show ?thesis using Cons.IH [OF _ g'] Cons.prems(1) Some
      by (simp add: s push_cells_append add.assoc)
  qed
qed

subsection \<open>Joining lemmas\<close>

text \<open>
  \<open>q\<close> is \<open>p\<close> with the new phrase \<open>m_dynlm[k]\<close>, made of the words and subphrases of the lemmas
  \<open>rs\<close>; nothing that was there has changed.
\<close>

definition has_phrase :: "scw_worddict \<Rightarrow> scw_inner \<Rightarrow> lmref list \<Rightarrow> nat \<Rightarrow> (nat \<times> lmref) list \<Rightarrow> scw_inner \<Rightarrow> bool" where
  "has_phrase d p rs k ss q \<longleftrightarrow> inner_ext p q \<and> k = m_dynlm_cnt p \<and> m_dynlm_cnt q = k + 1 \<and>
     m_ppseg_cnt q = m_ppseg_cnt p \<and> m_dynb_curpos q = m_dynb_curpos p \<and>
     m_dynph_curpos q \<le> m_dynph_size q \<and> m_dynlm_cnt q \<le> m_dynlm_size q \<and>
     m_type (m_dynlm q k) = LEMMA_TYPE_DPHRASE \<and>
     m_length (m_dynlm q k) = phrase_length d p rs mod 256 \<and>
     words_at q (m_word_bpos (m_dynlm q k)) (all_words d p rs) \<and>
     subs_at q (m_subphinfo_bpos (m_dynlm q k)) ss"

lemma all_words_valid:
  assumes "wf_phrases d" "wf_inner d p" "list_all (seg_ref d p) rs"
  shows "list_all (word_ref d p) (all_words d p rs)"
  using assms(3) ref_words_text(1) [OF assms(1,2)]
  by (induction rs) (simp_all add: all_words_def)

lemma all_words_text:
  assumes "wf_phrases d" "wf_inner d p" "list_all (seg_ref d p) rs"
  shows "concat (map (word_text d p) (all_words d p rs)) = concat (map (lm_text d p) rs)"
  using assms(3) lm_text_words [OF assms(1,2)]
  by (induction rs) (simp_all add: all_words_def)

lemma has_phrase_ok:
  assumes d: "wf_phrases d" and w: "wf_inner d p" and rs: "list_all (seg_ref d p) rs"
    and h: "has_phrase d p rs k ss q"
    and seg: "\<And>i r. i < m_ppseg_cnt q \<Longrightarrow> m_ppseg q i = Some r \<Longrightarrow> r = Dyn k \<or> m_ppseg p i = Some r"
  shows "wf_inner d q" "ref_words d q (Dyn k) = all_words d p rs"
    "lm_text d q (Dyn k) = concat (map (lm_text d p) rs)"
proof -
  note H = h [unfolded has_phrase_def]
  have e: "inner_ext p q" using H by simp
  have W: "list_all (word_ref d q) (all_words d p rs)"
    using all_words_valid [OF d w rs] word_text_ext(1) [OF d e] by (simp add: list_all_iff)
  have ph: "dyn_phrase d q (m_dynlm q k)" unfolding dyn_phrase_def using H W by auto
  show w': "wf_inner d q"
  proof (rule wf_inner_add [OF d w e])
    fix j assume "m_dynlm_cnt p \<le> j" "j < m_dynlm_cnt q"
    then have "j = k" using H by simp
    then show "dyn_word q (m_dynlm q j) \<or> dyn_phrase d q (m_dynlm q j)" using ph by simp
  next
    fix i r assume i: "i < m_ppseg_cnt q" "m_ppseg q i = Some r"
    show "seg_ref d q r"
    proof (cases "r = Dyn k")
      case False
      then have "m_ppseg p i = Some r" using seg [OF i] by simp
      then show ?thesis using i(1) H by (intro seg_ref_ext [OF e]) (auto intro: wf_inner_seg [OF w])
    qed (use H in simp)
  qed (use w H in \<open>simp_all add: wf_inner_def inner_ext_def\<close>)
  have ty: "m_type (m_dynlm q k) = LEMMA_TYPE_DPHRASE" using H by blast
  have "dyn_parts q (m_dynlm q k) = Some (all_words d p rs)"
    by (rule words_at_parts) (use H in blast)+
  then show rw: "ref_words d q (Dyn k) = all_words d p rs"
    using ty by (simp add: ref_words_def deref_def lemma_types)
  have "map (word_text d q) (all_words d p rs) = map (word_text d p) (all_words d p rs)"
    using all_words_valid [OF d w rs] word_text_ext(2) [OF d e] by (simp add: list_all_iff)
  then show "lm_text d q (Dyn k) = concat (map (lm_text d p) rs)"
    using lm_text_words [OF d w', of "Dyn k"] H rw all_words_text [OF d w rs]
    by (simp del: map_eq_conv)
qed

lemma get_list_upd_below [simp]: "pos < a \<Longrightarrow> get_list (b(pos := c)) a n = get_list b a n"
  by (rule get_list_cong) simp

lemma get_put_inner:
  "a + length xs \<le> pos \<Longrightarrow> get_list (put_list (put_list b a xs) pos ys) a (length xs) = xs"
  by (rule nth_equalityI) (simp_all add: put_list_def)

lemma deref_new: "seg_ref d p r \<Longrightarrow> m_dynlm_cnt p \<le> k \<Longrightarrow> deref d (upd_dynlm p k f) r = deref d p r"
  by (cases r) (simp_all add: deref_def)

text \<open>The cells that both functions write: the count and the words.\<close>

lemma add_words_grown:
  assumes d: "wf_phrases d" and w: "wf_inner d p" and rs: "list_all (seg_ref d p) rs"
    and g: "grown p q" and q: "m_dynph_curpos q = m_dynph_curpos p + 1" "m_dynlm_cnt p = k"
    and a: "add_words_of d q rs 0 = Some (e, q', bw)"
  shows "e = 0" "bw = length (all_words d p rs)" "grown p q'"
    "m_dynph_curpos q' = m_dynph_curpos p + 1 + length (all_words d p rs)"
    "get_list (m_dynphinfo q') (m_dynph_curpos p + 1) bw = map PLm (all_words d p rs)"
    "m_dynlm q' = m_dynlm q" "m_dynlm_cnt q' = m_dynlm_cnt q" "m_ppseg q' = m_ppseg q"
    "m_dynph_size q' = m_dynph_size q"
proof -
  note A = a [unfolded add_words_of_eq [OF d w rs g]]
  have push: "push_cells q (map PLm (all_words d p rs)) = Some q'" and
    "e = 0" "bw = length (all_words d p rs)" using A by auto
  then show "e = 0" "bw = length (all_words d p rs)" "grown p q'"
    "m_dynph_curpos q' = m_dynph_curpos p + 1 + length (all_words d p rs)"
    "get_list (m_dynphinfo q') (m_dynph_curpos p + 1) bw = map PLm (all_words d p rs)"
    "m_dynlm q' = m_dynlm q" "m_dynlm_cnt q' = m_dynlm_cnt q" "m_ppseg q' = m_ppseg q"
    "m_dynph_size q' = m_dynph_size q"
    using q grown_push [OF g push] by (auto simp: push_cells_Some)
qed

lemma create_dphrase_ok:
  assumes d: "wf_phrases d" and w: "wf_inner d p" and seg: "bpos + count \<le> m_ppseg_cnt p"
    and c: "create_dphrase d p bpos count = Some (e, q)" and e: "0 \<le> e"
  shows "e = int (m_dynlm_cnt p)" "has_phrase d p (seg_refs p bpos count) (m_dynlm_cnt p) [] q"
    "m_ppseg q = m_ppseg p" "1 < length (all_words d p (seg_refs p bpos count))"
proof -
  let ?k = "m_dynlm_cnt p" and ?s = "m_dynph_curpos p" and ?rs = "seg_refs p bpos count"
  let ?W = "all_words d p ?rs"
  have rs: "list_all (seg_ref d p) ?rs" by (rule seg_refs_valid [OF w seg])
  define p1 where "p1 = upd_dynlm p ?k (\<lambda>lm. lm\<lparr>m_type := LEMMA_TYPE_DPHRASE,
      m_property := SET_TEMP (SET_PHRASE INIT_PROPERTY), m_weight := 1\<rparr>)"
  define p2 where "p2 = (upd_dynlm p1 ?k (\<lambda>lm. lm\<lparr>m_length := phrase_length d p1 ?rs mod 256,
      m_subphinfo_bpos := COMMON_NULL, m_word_bpos := ?s,
      m_prelm_pos := LEMMA_NULL, m_utilinfo_pos := COMMON_NULL\<rparr>))\<lparr>m_dynph_curpos := ?s + 1\<rparr>"
  note C = c [unfolded create_dphrase_def Let_def, folded p1_def, folded p2_def]
  have room: "?k < m_dynlm_size p" "?s + MAX_EXTEND_PHINFO_SIZE < m_dynph_size p"
    using C e by (auto split: if_splits)
  obtain e3 p3 bw where a: "add_words_of d p2 ?rs 0 = Some (e3, p3, bw)"
    using C room by (auto simp: bind_eq_Some_conv)
  have len: "phrase_length d p1 ?rs = phrase_length d p ?rs"
  proof -
    have "deref d p1 r = deref d p r" if "r \<in> set ?rs" for r
      using that rs unfolding p1_def by (intro deref_new) (auto simp: list_all_iff)
    then show ?thesis by (simp add: phrase_length_def cong: map_cong)
  qed
  have sz: "?s \<le> m_dynph_size p" using w by (simp add: wf_inner_def)
  have g2: "grown p p2" unfolding p2_def p1_def
    using room by (intro grown_reserve grown_upd grown_refl sz) (auto simp: max_sizes)
  note A = add_words_grown [OF d w rs g2 _ refl a]
  have cur: "m_dynph_curpos p2 = ?s + 1" by (simp add: p2_def)
  note A = A [OF cur]
  have q: "e = int ?k" "q = (write_cell p3 ?s (PNum (length ?W)))\<lparr>m_dynlm_cnt := ?k + 1\<rparr>"
    and long: "1 < length ?W"
    using C room a A e by (auto simp: bind_eq_Some_conv c_assert_def split: if_splits)
  show "e = int ?k" "1 < length ?W" by (fact q(1), fact long)
  show "m_ppseg q = m_ppseg p" using q(2) A(8) by (simp add: write_cell_def p2_def p1_def)
  have lm: "m_dynlm q ?k = (m_dynlm p ?k)\<lparr>m_type := LEMMA_TYPE_DPHRASE,
      m_property := SET_TEMP (SET_PHRASE INIT_PROPERTY), m_weight := 1,
      m_length := phrase_length d p ?rs mod 256, m_subphinfo_bpos := COMMON_NULL, m_word_bpos := ?s,
      m_prelm_pos := LEMMA_NULL, m_utilinfo_pos := COMMON_NULL\<rparr>"
    using q(2) A(6) len by (simp add: write_cell_def p2_def p1_def)
  have g: "grown p (write_cell p3 ?s (PNum (length ?W)))" by (rule grown_write [OF A(3)]) simp
  have "get_list (m_dynphinfo q) (?s + 1) (length ?W) = map PLm ?W"
    using A(2,5) q(2) by (simp add: write_cell_def)
  then have "words_at q ?s ?W"
    using A(4) q(2) by (simp add: words_at_def write_cell_def)
  then show "has_phrase d p ?rs ?k [] q"
    using g q(2) lm room A(3) by (auto simp: has_phrase_def grown_def inner_ext_def subs_at_def write_cell_def)
qed

text \<open>Besides the new phrase, \<open>poly_lemmas\<close> puts it in place of the lemmas it joins.\<close>

lemma poly_lemmas_phrase:
  assumes d: "wf_phrases d" and w: "wf_inner d p" and seg: "bpos + count \<le> m_ppseg_cnt p"
    and c: "poly_lemmas d p bpos count = Some (e, q)" and e: "0 \<le> e"
  defines "rs \<equiv> seg_refs p bpos count"
  shows "e = int (m_dynlm_cnt p)" "1 < count"
    "has_phrase d p rs (m_dynlm_cnt p) (all_subs d p rs 0) q" "phrase_length d p rs < 256"
    "m_ppseg q = fill ((m_ppseg p)(bpos := Some (Dyn (m_dynlm_cnt p)))) (bpos + 1) (count - 1) None"
proof -
  let ?k = "m_dynlm_cnt p" and ?s = "m_dynph_curpos p"
  let ?W = "all_words d p rs" and ?SS = "all_subs d p rs 0"
  have rs: "list_all (seg_ref d p) rs" unfolding rs_def by (rule seg_refs_valid [OF w seg])
  define p1 where "p1 = (upd_dynlm p ?k (\<lambda>lm. lm\<lparr>m_type := LEMMA_TYPE_DPHRASE, m_weight := 1,
      m_subphinfo_bpos := COMMON_NULL, m_word_bpos := ?s,
      m_property := SET_TEMP (SET_PHRASE INIT_PROPERTY), m_length := phrase_length d p rs\<rparr>))
      \<lparr>m_dynph_curpos := ?s + 1\<rparr>"
  note C = c [unfolded poly_lemmas_def Let_def, folded rs_def, folded p1_def]
  have room: "1 < count" "?k < m_dynlm_size p" "?s + MAX_EXTEND_PHINFO_SIZE < m_dynph_size p"
    "phrase_length d p rs < 256"
    using C e by (auto simp: bind_eq_Some_conv MAX_LEMMA_LENGTH_def split: if_splits)
  obtain e2 p2 bw where a: "add_words_of d p1 rs 0 = Some (e2, p2, bw)"
    using C room by (auto simp: bind_eq_Some_conv MAX_LEMMA_LENGTH_def)
  have sz: "?s \<le> m_dynph_size p" using w by (simp add: wf_inner_def)
  have g1: "grown p p1" unfolding p1_def
    using room by (intro grown_reserve grown_upd grown_refl sz) (auto simp: max_sizes)
  have cur: "m_dynph_curpos p1 = ?s + 1" by (simp add: p1_def)
  note A = add_words_grown [OF d w rs g1 cur refl a]
  define sub where "sub = m_dynph_curpos p2"
  have sub: "sub = ?s + 1 + length ?W" using A(4) by (simp add: sub_def)
  define p3 where "p3 = (upd_dynlm (write_cell p2 ?s (PNum bw)) ?k (\<lambda>lm. lm\<lparr>m_subphinfo_bpos := sub\<rparr>))
      \<lparr>m_dynph_curpos := sub + 1\<rparr>"
  note C2 = C [unfolded a Option.bind.simps prod.case write_cell_fields, folded sub_def, folded p3_def]
  have sub_lt: "sub < m_dynph_size p2"
    using C2 room A(1) by (auto simp: c_assert_def write_cell_def MAX_LEMMA_LENGTH_def split: if_splits)
  have g3: "grown p p3" unfolding p3_def
    using A(3,4) sub_lt by (intro grown_reserve grown_upd grown_write) (auto simp: sub write_cell_def)
  obtain p4 where push: "push_cells p3 (pair_cells ?SS) = Some p4"
    and q: "e = int ?k" "q = drop_ppseg (if 0 < length ?SS then write_cell p4 sub (PNum (length ?SS))
      else upd_dynlm p4 ?k (\<lambda>lm. lm\<lparr>m_subphinfo_bpos := COMMON_NULL\<rparr>)) bpos count (Dyn ?k)\<lparr>m_dynlm_cnt := ?k + 1\<rparr>"
    using C2 room A(1) e sub_lt
    by (auto simp: p3_def [symmetric] add_subs_of_eq [OF d w rs g3] bind_eq_Some_conv c_assert_def
        MAX_LEMMA_LENGTH_def split: if_splits)
  show "e = int ?k" "1 < count" "phrase_length d p rs < 256" by (fact q room)+
  have g4: "grown p p4" by (rule grown_push [OF g3 push])
  show "m_ppseg q = fill ((m_ppseg p)(bpos := Some (Dyn ?k))) (bpos + 1) (count - 1) None"
    using q(2) g4 by (auto simp: drop_ppseg_def write_cell_def grown_def)
  define p5 where "p5 = (if 0 < length ?SS then write_cell p4 sub (PNum (length ?SS))
      else upd_dynlm p4 ?k (\<lambda>lm. lm\<lparr>m_subphinfo_bpos := COMMON_NULL\<rparr>))"
  have q': "q = (drop_ppseg p5 bpos count (Dyn ?k))\<lparr>m_dynlm_cnt := ?k + 1\<rparr>" using q(2) by (simp add: p5_def)
  have g5: "grown p p5" unfolding p5_def
    using g4 by (auto intro!: grown_write grown_upd simp: sub)
  have ph4: "m_dynphinfo p4 = put_list (m_dynphinfo p3) (sub + 1) (pair_cells ?SS)"
    "m_dynph_curpos p4 = sub + 1 + 2 * length ?SS" "m_dynlm p4 = m_dynlm p3"
    using push by (auto simp: push_cells_Some p3_def)
  have lm: "m_type (m_dynlm q ?k) = LEMMA_TYPE_DPHRASE" "m_length (m_dynlm q ?k) = phrase_length d p rs"
    "m_word_bpos (m_dynlm q ?k) = ?s"
    "m_subphinfo_bpos (m_dynlm q ?k) = (if ?SS = [] then COMMON_NULL else sub)"
    using A(6) ph4 by (auto simp: q' p5_def drop_ppseg_def write_cell_def p3_def p1_def)
  have words: "words_at q ?s ?W"
  proof -
    have "m_dynphinfo q ?s = PNum (length ?W)"
      using ph4 A(2) by (simp add: q' p5_def drop_ppseg_def write_cell_def p3_def sub put_list_out)
    moreover have "get_list (m_dynphinfo q) (?s + 1) (length ?W) = get_list (m_dynphinfo p2) (?s + 1) (length ?W)"
      using ph4 by (intro get_list_cong)
        (auto simp: q' p5_def drop_ppseg_def write_cell_def p3_def sub put_list_out)
    moreover have "?s + length ?W < m_dynph_curpos q"
      using ph4 by (simp add: q' p5_def drop_ppseg_def write_cell_def sub)
    ultimately show ?thesis using A(2,5) by (simp add: words_at_def)
  qed
  have "subs_at q (if ?SS = [] then COMMON_NULL else sub) ?SS"
  proof (cases "?SS = []")
    case False
    have "sub < COMMON_NULL" using sub_lt A(9) w g1 by (simp add: wf_inner_def grown_def inner_ext_def)
    then show ?thesis using False ph4
      by (simp add: subs_at_def q' p5_def drop_ppseg_def write_cell_def)
  qed (simp add: subs_at_def)
  then show "has_phrase d p rs ?k ?SS q"
    using g5 lm words room by (auto simp: has_phrase_def q' drop_ppseg_def grown_def inner_ext_def)
qed

text \<open>The result after joining: same text, well-formed, one lemma in place of several.\<close>

lemma seg_refs_fill:
  assumes "bpos + count \<le> n" "1 \<le> count"
    and "m_ppseg q = fill ((m_ppseg p)(bpos := Some r)) (bpos + 1) (count - 1) None"
  shows "seg_refs q 0 n = seg_refs p 0 bpos @ [r] @ seg_refs p (bpos + count) (n - (bpos + count))"
proof -
  have "seg_refs q 0 n = seg_refs q 0 bpos @ seg_refs q bpos 1 @ seg_refs q (bpos + 1) (count - 1) @
      seg_refs q (bpos + count) (n - (bpos + count))"
    using seg_refs_split [of q 0 bpos "n - bpos"] seg_refs_split [of q bpos 1 "n - bpos - 1"]
      seg_refs_split [of q "bpos + 1" "count - 1" "n - (bpos + count)"] assms(1,2)
      Suc_diff_Suc [of bpos n]
    by (simp add: add.commute [of count])
  moreover have "seg_refs q 0 bpos = seg_refs p 0 bpos"
    by (rule seg_refs_cong) (simp add: assms(3) fill_def)
  moreover have "seg_refs q bpos 1 = [r]"
    by (simp add: seg_refs_def assms(3) fill_def List.map_filter_simps)
  moreover have "seg_refs q (bpos + 1) (count - 1) = []"
    by (auto simp: seg_refs_def assms(3) fill_def List.map_filter_def filter_empty_conv)
  moreover have "seg_refs q (bpos + count) (n - (bpos + count)) = seg_refs p (bpos + count) (n - (bpos + count))"
    by (rule seg_refs_cong) (use assms(2) in \<open>simp add: assms(3) fill_def\<close>)
  ultimately show ?thesis by simp
qed

lemma poly_lemmas_ok:
  assumes d: "wf_phrases d" and w: "wf_inner d p" and seg: "bpos + count \<le> m_ppseg_cnt p"
    and c: "poly_lemmas d p bpos count = Some (e, q)" and e: "0 \<le> e"
  shows "wf_inner d q" "inner_ext p q" "m_ppseg_cnt q = m_ppseg_cnt p" "seg_text d q = seg_text d p"
    "lm_text d q (Dyn (m_dynlm_cnt p)) = concat (map (lm_text d p) (seg_refs p bpos count))"
proof -
  let ?k = "m_dynlm_cnt p" and ?rs = "seg_refs p bpos count" and ?n = "m_ppseg_cnt p"
  note P = poly_lemmas_phrase [OF d w seg c e]
  have valid: "list_all (seg_ref d p) (seg_refs p a m)" if "a + m \<le> ?n" for a m
    by (rule seg_refs_valid [OF w that])
  show ext: "inner_ext p q" and cnt: "m_ppseg_cnt q = ?n" using P(3) by (simp_all add: has_phrase_def)
  have keep: "r = Dyn ?k \<or> m_ppseg p i = Some r" if "m_ppseg q i = Some r" for i r
    using that by (auto simp: P(5) fill_def split: if_splits)
  note H = has_phrase_ok [OF d w valid [OF seg] P(3) keep]
  show w': "wf_inner d q" by (rule H(1))
  show new: "lm_text d q (Dyn ?k) = concat (map (lm_text d p) ?rs)" by (rule H(3))
  have "seg_refs q 0 ?n = seg_refs p 0 bpos @ [Dyn ?k] @ seg_refs p (bpos + count) (?n - (bpos + count))"
    by (rule seg_refs_fill [OF seg _ P(5)]) (use P(2) in simp)
  moreover have "seg_refs p 0 ?n = seg_refs p 0 bpos @ ?rs @ seg_refs p (bpos + count) (?n - (bpos + count))"
    using seg_refs_split [of p 0 bpos "?n - bpos"] seg_refs_split [of p bpos count "?n - (bpos + count)"] seg
    by simp
  moreover have "map (lm_text d q) (seg_refs p a m) = map (lm_text d p) (seg_refs p a m)" if "a + m \<le> ?n" for a m
    by (rule map_lm_text_ext [OF d w w' ext valid [OF that]])
  ultimately show "seg_text d q = seg_text d p"
    using seg by (simp add: seg_text_def cnt new del: map_eq_conv)
qed

text \<open>Enough room was reserved for phrases of up to 768 cells.\<close>

lemma push_cells_room:
  "m_dynph_curpos p + length cs \<le> m_dynph_size p \<Longrightarrow> \<exists>q. push_cells p cs = Some q \<and>
     m_dynph_curpos q = m_dynph_curpos p + length cs \<and> m_dynph_size q = m_dynph_size p"
  by (simp add: push_cells_def)

text \<open>The cells that the phrase takes: two counts, its words, and two for each subphrase.\<close>

definition phrase_cells :: "scw_worddict \<Rightarrow> scw_inner \<Rightarrow> lmref list \<Rightarrow> nat" where
  "phrase_cells d p rs = 2 + length (all_words d p rs) + 2 * length (all_subs d p rs 0)"

lemma push_cells_cases:
  "push_cells p cs = (if m_dynph_curpos p + length cs \<le> m_dynph_size p then Some (p\<lparr>m_dynphinfo := put_list (m_dynphinfo p) (m_dynph_curpos p) cs,
     m_dynph_curpos := m_dynph_curpos p + length cs\<rparr>) else None)"
  by (auto simp: push_cells_def c_assert_def)

lemma length_pair_cells [simp]: "length (pair_cells ss) = 2 * length ss"
  by (induction ss) (auto simp: pair_cells_def)

lemma poly_lemmas_exact:
  assumes d: "wf_phrases d" and w: "wf_inner d p" and seg: "bpos + count \<le> m_ppseg_cnt p"
  defines "rs \<equiv> seg_refs p bpos count"
  shows "\<exists>q. poly_lemmas d p bpos count =
    (if count \<le> 1 \<or> m_dynlm_size p \<le> m_dynlm_cnt p \<or> m_dynph_size p \<le> m_dynph_curpos p + MAX_EXTEND_PHINFO_SIZE then Some (-1, p)
     else if 256 \<le> phrase_length d p rs then Some (-2, p)
     else if m_dynph_curpos p + phrase_cells d p rs \<le> m_dynph_size p then Some (int (m_dynlm_cnt p), q) else None)"
proof -
  let ?k = "m_dynlm_cnt p" and ?s = "m_dynph_curpos p"
  let ?W = "all_words d p rs" and ?SS = "all_subs d p rs 0"
  have rs: "list_all (seg_ref d p) rs" unfolding rs_def by (rule seg_refs_valid [OF w seg])
  have sz: "?s \<le> m_dynph_size p" "bpos + count \<le> m_maxterm p" using w seg by (simp_all add: wf_inner_def)
  define p1 where "p1 = (upd_dynlm p ?k (\<lambda>lm. lm\<lparr>m_type := LEMMA_TYPE_DPHRASE, m_weight := 1,
      m_subphinfo_bpos := COMMON_NULL, m_word_bpos := ?s,
      m_property := SET_TEMP (SET_PHRASE INIT_PROPERTY), m_length := phrase_length d p rs\<rparr>))
      \<lparr>m_dynph_curpos := ?s + 1\<rparr>"
  show ?thesis
  proof (cases "1 < count \<and> ?k < m_dynlm_size p \<and> ?s + MAX_EXTEND_PHINFO_SIZE < m_dynph_size p \<and>
      phrase_length d p rs < MAX_LEMMA_LENGTH")
    case False
    then show ?thesis using sz(2) by (auto simp: poly_lemmas_def Let_def rs_def MAX_LEMMA_LENGTH_def)
  next
    case True
    have room: "?s + 770 < m_dynph_size p" using True by (simp add: max_sizes)
    have g1: "grown p p1" unfolding p1_def
      using room by (intro grown_reserve grown_upd grown_refl sz) auto
    have s1: "add_words_of d p1 rs 0 = map_option (\<lambda>q. (0, q, length ?W)) (push_cells p1 (map PLm ?W))"
      using add_words_of_eq [OF d w rs g1, of 0] by simp
    show ?thesis
    proof (cases "?s + 2 + length ?W \<le> m_dynph_size p")
      case False
      have "poly_lemmas d p bpos count = None"
      proof (cases "push_cells p1 (map PLm ?W)")
        case None
        then show ?thesis unfolding poly_lemmas_def Let_def rs_def [symmetric] p1_def [symmetric] using True sz(2) by (simp add: s1)
      next
        case (Some p2)
        then have "m_dynph_size p2 \<le> m_dynph_curpos p2" using False by (auto simp: push_cells_Some p1_def)
        then show ?thesis unfolding poly_lemmas_def Let_def rs_def [symmetric] p1_def [symmetric] using True sz(2) Some by (simp add: s1)
      qed
      then show ?thesis using True False by (simp add: phrase_cells_def MAX_LEMMA_LENGTH_def)
    next
      case fits: True
      obtain p2 where p2: "push_cells p1 (map PLm ?W) = Some p2"
        "m_dynph_curpos p2 = ?s + 1 + length ?W" "m_dynph_size p2 = m_dynph_size p"
        using push_cells_room [of p1 "map PLm ?W"] fits by (auto simp: p1_def)
      define p3 where "p3 = (upd_dynlm (write_cell p2 ?s (PNum (length ?W))) ?k
          (\<lambda>lm. lm\<lparr>m_subphinfo_bpos := m_dynph_curpos p2\<rparr>))\<lparr>m_dynph_curpos := m_dynph_curpos p2 + 1\<rparr>"
      have g3: "grown p p3" unfolding p3_def
        using grown_push [OF g1 p2(1)] p2 fits by (intro grown_reserve grown_upd grown_write) auto
      have s2: "add_subs_of d p3 rs 0 0 = map_option (\<lambda>q. (0, q, length ?SS)) (push_cells p3 (pair_cells ?SS))"
        using add_subs_of_eq [OF d w rs g3, of 0 0] by simp
      have lt: "m_dynph_curpos p2 < m_dynph_size p2" using p2 fits by simp
      have "poly_lemmas d p bpos count = map_option (\<lambda>p4. (int ?k, (drop_ppseg (if 0 < length ?SS
          then write_cell p4 (m_dynph_curpos p2) (PNum (length ?SS))
          else upd_dynlm p4 ?k (\<lambda>lm. lm\<lparr>m_subphinfo_bpos := COMMON_NULL\<rparr>)) bpos count (Dyn ?k))
          \<lparr>m_dynlm_cnt := ?k + 1\<rparr>)) (push_cells p3 (pair_cells ?SS))"
        unfolding poly_lemmas_def Let_def rs_def [symmetric] p1_def [symmetric]
        using True sz(2) lt p2(1)
        by (cases "push_cells p3 (pair_cells ?SS)") (simp_all add: s1 s2 [unfolded p3_def, simplified] p3_def)
      moreover have "push_cells p3 (pair_cells ?SS) = None \<longleftrightarrow> \<not> ?s + phrase_cells d p rs \<le> m_dynph_size p"
        using p2 by (auto simp: push_cells_cases p3_def phrase_cells_def)
      ultimately show ?thesis using True
        by (cases "push_cells p3 (pair_cells ?SS)") (auto simp: MAX_LEMMA_LENGTH_def)
    qed
  qed
qed

lemma poly_lemmas_total:
  assumes "wf_phrases d" "wf_inner d p" "bpos + count \<le> m_ppseg_cnt p"
    and "length (all_words d p (seg_refs p bpos count)) + 2 * length (all_subs d p (seg_refs p bpos count) 0) \<le> 768"
  shows "\<exists>q. poly_lemmas d p bpos count = Some
    (if count \<le> 1 \<or> m_dynlm_size p \<le> m_dynlm_cnt p \<or>
        m_dynph_size p \<le> m_dynph_curpos p + MAX_EXTEND_PHINFO_SIZE then -1
     else if 256 \<le> phrase_length d p (seg_refs p bpos count) then -2 else int (m_dynlm_cnt p), q)"
  using poly_lemmas_exact [OF assms(1-3)] assms(4) by (auto simp: phrase_cells_def max_sizes split: if_splits)

subsection \<open>A sample result\<close>

definition sample_inner :: scw_inner where
  "sample_inner = the (scw_create_inner 1000000 100 0)"

definition sample_pair :: scw_inner where
  "sample_pair = (let p1 = snd (create_dynword sample_inner ''ab''); p2 = snd (append_lemma_pos p1 0 SCW_DYNAMIC);
     p3 = snd (create_dynword p2 ''c'') in snd (append_lemma_pos p3 1 SCW_DYNAMIC))"

lemma sample_wf_phrases: "wf_phrases sample_dict"
  by (simp add: wf_phrases_def sample_dict_eval)

lemma sample_inner_fields:
  "m_maxterm sample_inner = 100" "m_ppseg_cnt sample_inner = 0" "m_dynlm_cnt sample_inner = 0"
  "m_dynlm_size sample_inner = 100" "m_dynb_curpos sample_inner = 0" "m_dynb_size sample_inner = 2000"
  "m_dynph_curpos sample_inner = 0" "m_dynph_size sample_inner = 2770"
  by (simp_all add: sample_inner_def scw_create_inner_def realloc_ok_def max_sizes sizeofs)

lemma sample_inner_wf: "wf_inner sample_dict sample_inner"
  by (simp add: wf_inner_def sample_inner_fields null_defs)

lemma sample_strlen: "c_strlen ''ab'' = 2" "c_strlen ''c'' = 1"
  by (simp_all add: c_strlen_def of_char_def)

lemma append_dyn_ok:
  assumes "wf_phrases d" "wf_inner d p" "k < m_dynlm_cnt p" "m_ppseg_cnt p < m_maxterm p"
  shows "append_lemma_pos p k SCW_DYNAMIC = (0, put_ppseg p 0 (Dyn k))"
    "wf_inner d (put_ppseg p 0 (Dyn k))" "seg_text d (put_ppseg p 0 (Dyn k)) = seg_text d p @ lm_text d p (Dyn k)"
  using put_ppseg_ok [OF assms(1,2), of "Dyn k"] assms(3,4)
  by (simp_all add: append_lemma_pos_def SCW_STATIC_def SCW_DYNAMIC_def)

lemma sample_pair_ok:
  "wf_inner sample_dict sample_pair" "m_ppseg_cnt sample_pair = 2"
  "seg_refs sample_pair 0 2 = [Dyn 0, Dyn 1]" "m_dynlm_cnt sample_pair = 2"
  "m_dynph_curpos sample_pair = 0" "m_dynph_size sample_pair = 2770" "m_dynlm_size sample_pair = 100"
  "m_type (m_dynlm sample_pair 0) = LEMMA_TYPE_DBASIC" "m_type (m_dynlm sample_pair 1) = LEMMA_TYPE_DBASIC"
  "m_length (m_dynlm sample_pair 0) = 2" "m_length (m_dynlm sample_pair 1) = 1"
proof -
  define p1 where "p1 = snd (create_dynword sample_inner ''ab'')"
  define p2 where "p2 = put_ppseg p1 0 (Dyn 0)"
  define p3 where "p3 = snd (create_dynword p2 ''c'')"
  have c1: "create_dynword sample_inner ''ab'' = (0, p1)"
    by (simp add: p1_def create_dynword_def sample_inner_fields sample_strlen)
  note A = create_dynword_ok [OF sample_wf_phrases sample_inner_wf _ c1, unfolded sample_inner_fields]
  have p1: "wf_inner sample_dict p1" "m_dynlm_cnt p1 = 1" "m_ppseg_cnt p1 = 0" "m_maxterm p1 = 100"
    using A by (simp_all add: sample_strlen inner_ext_def sample_inner_fields)
  have a2: "append_lemma_pos p1 0 SCW_DYNAMIC = (0, p2)" "wf_inner sample_dict p2"
    using append_dyn_ok [OF sample_wf_phrases p1(1), of 0] p1 by (simp_all add: p2_def)
  have f2: "m_dynlm_cnt p2 = 1" "m_dynlm_size p2 = 100" "m_dynb_curpos p2 = 3" "m_dynb_size p2 = 2000"
    "m_ppseg_cnt p2 = 1" "m_maxterm p2 = 100"
    using c1 by (auto simp: p2_def put_ppseg_def create_dynword_def sample_inner_fields sample_strlen Let_def)
  have c3: "create_dynword p2 ''c'' = (1, p3)"
    by (simp add: p3_def create_dynword_def f2 sample_strlen)
  note B = create_dynword_ok [OF sample_wf_phrases a2(2) _ c3, unfolded f2]
  have p3: "wf_inner sample_dict p3" "m_dynlm_cnt p3 = 2" "m_ppseg_cnt p3 = 1" "m_maxterm p3 = 100"
    using B by (simp_all add: sample_strlen inner_ext_def f2)
  have a4: "append_lemma_pos p3 1 SCW_DYNAMIC = (0, put_ppseg p3 0 (Dyn 1))"
    "wf_inner sample_dict (put_ppseg p3 0 (Dyn 1))"
    using append_dyn_ok [OF sample_wf_phrases p3(1), of 1] p3 by simp_all
  have eq: "sample_pair = put_ppseg p3 0 (Dyn 1)"
    using a2 a4 by (simp add: sample_pair_def p1_def [symmetric] p3_def [symmetric])
  show "wf_inner sample_dict sample_pair" using a4 eq by simp
  note E = eq p3_def p2_def p1_def put_ppseg_def create_dynword_def sample_inner_fields sample_strlen Let_def
  show "m_ppseg_cnt sample_pair = 2" "m_dynlm_cnt sample_pair = 2"
    "m_dynph_curpos sample_pair = 0" "m_dynph_size sample_pair = 2770" "m_dynlm_size sample_pair = 100"
    "m_type (m_dynlm sample_pair 0) = LEMMA_TYPE_DBASIC" "m_type (m_dynlm sample_pair 1) = LEMMA_TYPE_DBASIC"
    "m_length (m_dynlm sample_pair 0) = 2" "m_length (m_dynlm sample_pair 1) = 1"
    by (simp_all add: E)
  show "seg_refs sample_pair 0 2 = [Dyn 0, Dyn 1]"
    by (simp add: seg_refs_def E upt_rec List.map_filter_simps)
qed

subsection \<open>Properties\<close>

text \<open>
  C10 \<open>poly_lemmas\<close> keeps the text. When it reports success the result is well-formed again, it
  reads the same from first to last lemma, and the new phrase reads as the joined lemmas in
  their order.
\<close>

theorem poly_lemmas_keeps_text:
  assumes "wf_phrases d" "wf_inner d p" "bpos + count \<le> m_ppseg_cnt p"
    and "poly_lemmas d p bpos count = Some (e, q)" "0 \<le> e"
  shows "wf_inner d q \<and> seg_text d q = seg_text d p \<and> m_ppseg q bpos = Some (Dyn (nat e)) \<and>
    lm_text d q (Dyn (nat e)) = concat (map (lm_text d p) (seg_refs p bpos count))"
  using poly_lemmas_ok [OF assms] poly_lemmas_phrase(1,5) [OF assms] by (simp add: fill_def)

lemma sample_join: "\<exists>q. poly_lemmas sample_dict sample_pair 0 2 = Some (2, q)"
proof -
  have r: "ref_words sample_dict sample_pair (Dyn k) = [Dyn k] \<and> ref_subs sample_dict sample_pair (Dyn k) off = []"
    if "k = 0 \<or> k = 1" for k off
    using that sample_pair_ok(8,9) by (auto simp: ref_words_def ref_subs_def deref_def lemma_types)
  have "phrase_length sample_dict sample_pair [Dyn 0, Dyn 1] = 3"
    by (simp add: phrase_length_def deref_def sample_pair_ok [simplified])
  then show ?thesis
    using poly_lemmas_total [OF sample_wf_phrases sample_pair_ok(1), of 0 2]
    by (simp add: sample_pair_ok all_words_def r [simplified] max_sizes)
qed

theorem poly_lemmas_keeps_text_witness:
  "\<exists>q. poly_lemmas sample_dict sample_pair 0 2 = Some (2, q) \<and> seg_text sample_dict q = seg_text sample_dict sample_pair"
proof -
  obtain q where q: "poly_lemmas sample_dict sample_pair 0 2 = Some (2, q)" using sample_join by blast
  show ?thesis
    using poly_lemmas_keeps_text [OF sample_wf_phrases sample_pair_ok(1) _ q] q sample_pair_ok(2) by simp
qed

text \<open>
  C11 What \<open>poly_lemmas\<close> returns, exactly. Fewer than two lemmas, no free record or less than 770
  free cells give -1 and a text of 256 bytes or more gives -2, both with the segmentation
  unchanged. Otherwise it returns the position of the new record, if the counts, words and
  subphrases of the phrase fit into the free cells; if they do not, it writes behind the array:
  the reserve of 770 cells is the only test the code makes.
\<close>

theorem poly_lemmas_result_code:
  assumes "wf_phrases d" "wf_inner d p" "bpos + count \<le> m_ppseg_cnt p"
  shows "\<exists>q. poly_lemmas d p bpos count =
    (if count \<le> 1 \<or> m_dynlm_size p \<le> m_dynlm_cnt p \<or> m_dynph_size p \<le> m_dynph_curpos p + MAX_EXTEND_PHINFO_SIZE then Some (-1, p)
     else if 256 \<le> phrase_length d p (seg_refs p bpos count) then Some (-2, p)
     else if m_dynph_curpos p + phrase_cells d p (seg_refs p bpos count) \<le> m_dynph_size p then Some (int (m_dynlm_cnt p), q)
     else None)"
  by (rule poly_lemmas_exact [OF assms])

theorem poly_lemmas_result_code_witness:
  "poly_lemmas sample_dict sample_pair 0 1 = Some (-1, sample_pair)"
  using poly_lemmas_result_code [OF sample_wf_phrases sample_pair_ok(1), of 0 1] sample_pair_ok(2) by simp

text \<open>
  The subphrases that \<open>poly_lemmas\<close> records are the joined phrases themselves and their own
  subphrases, each at the number of basic words that stand before it; the words are those of
  the joined lemmas.
\<close>

theorem poly_lemmas_records:
  assumes "wf_phrases d" "wf_inner d p" "bpos + count \<le> m_ppseg_cnt p"
    and "poly_lemmas d p bpos count = Some (e, q)" "0 \<le> e"
  shows "words_at q (m_word_bpos (m_dynlm q (nat e))) (all_words d p (seg_refs p bpos count)) \<and>
    subs_at q (m_subphinfo_bpos (m_dynlm q (nat e))) (all_subs d p (seg_refs p bpos count) 0) \<and>
    get_lmoff_step d q (Some (Dyn (nat e))) = Some (int (length (all_words d p (seg_refs p bpos count))))"
proof -
  note P = poly_lemmas_phrase [OF assms] and O = poly_lemmas_ok [OF assms]
  have "ref_words d q (Dyn (m_dynlm_cnt p)) = all_words d p (seg_refs p bpos count)"
    by (rule has_phrase_ok(2) [OF assms(1,2) seg_refs_valid [OF assms(2,3)] P(3)])
      (auto simp: P(5) fill_def split: if_splits)
  moreover have "seg_ref d q (Dyn (m_dynlm_cnt p))" using P(3) by (simp add: has_phrase_def)
  ultimately show ?thesis
    using P(1,3) lmoff_step_words [OF O(1)] by (simp add: has_phrase_def)
qed

theorem poly_lemmas_records_witness:
  "\<exists>q. poly_lemmas sample_dict sample_pair 0 2 = Some (2, q) \<and>
     words_at q (m_word_bpos (m_dynlm q 2)) (all_words sample_dict sample_pair [Dyn 0, Dyn 1])"
proof -
  obtain q where q: "poly_lemmas sample_dict sample_pair 0 2 = Some (2, q)" using sample_join by blast
  show ?thesis
    using poly_lemmas_records [OF sample_wf_phrases sample_pair_ok(1) _ q] q sample_pair_ok(2,3) by simp
qed

text \<open>
  C12 \<open>create_dynword\<close> stores a word: it refuses exactly when the text or the records are full;
  otherwise the new lemma reads as the string up to its first NUL byte, no other lemma changed
  and the result stays well-formed.
\<close>

theorem create_dynword_text:
  assumes "wf_phrases d" "wf_inner d p" "c_strlen s < 256"
  shows "case create_dynword p s of (r, q) \<Rightarrow>
    if m_dynb_size p \<le> m_dynb_curpos p + c_strlen s + 1 \<or> m_dynlm_size p \<le> m_dynlm_cnt p
    then r = -1 \<and> q = p
    else r = int (m_dynlm_cnt p) \<and> wf_inner d q \<and> inner_ext p q \<and>
      get_lmstr d q (Some (Dyn (nat r))) 256 =
        Some (int (c_strlen s), map of_char (take (c_strlen s) s))"
proof (cases "m_dynb_size p \<le> m_dynb_curpos p + c_strlen s + 1 \<or> m_dynlm_size p \<le> m_dynlm_cnt p")
  case True
  then show ?thesis by (auto simp: create_dynword_def Let_def)
next
  case False
  obtain r q where c: "create_dynword p s = (r, q)" by fastforce
  have "r \<noteq> -1" using c False by (auto simp: create_dynword_def Let_def)
  note C = create_dynword_ok [OF assms c this]
  have "c_strlen s \<le> length s" by (simp add: c_strlen_def length_takeWhile_le)
  then have "get_lmstr d q (Some (Dyn (m_dynlm_cnt p))) 256 =
      Some (int (c_strlen s), map of_char (take (c_strlen s) s))"
    using C(5,8) assms(3)
    by (simp add: get_lmstr_def lm_text_def lmstr_bytes_def deref_def lemma_types)
  then show ?thesis using C c False by auto
qed

theorem create_dynword_text_witness:
  "fst (create_dynword sample_inner ''ab'') = 0"
  using create_dynword_text [OF sample_wf_phrases sample_inner_wf, of "''ab''"]
  by (simp add: sample_strlen sample_inner_fields split: prod.splits)

end
