(* ===== verification/AmbTable.thy ===== *)
theory AmbTable
  imports AddLemma
begin

text \<open>
  The auxiliary tables of a lemma: its ambiguity suffixes (the lemmas that must follow it when
  two segmentations compete) and its name probabilities (\<open>segdict.cpp\<close>, \<open>chinese_gbk.cpp\<close>).

  A lemma points to a cell of \<open>m_utilinfo\<close>, which points to a block of \<open>m_ambinfo\<close>: the hash
  size, then one slot per hash value. A block is extended in place, which the code allows only
  for the last block of the array: an assertion, the value \<open>None\<close>, says so.
\<close>

subsection \<open>Operations\<close>

definition DATA_CNAME :: nat where "DATA_CNAME = 0"
definition DATA_FNAME :: nat where "DATA_FNAME = 1"
definition DATA_JNAME :: nat where "DATA_JNAME = 2"
definition MAX_AMB_NUM :: nat where "MAX_AMB_NUM = 256"

definition scw_init_utilinfo :: "scw_utilinfo \<Rightarrow> nat \<Rightarrow> scw_utilinfo" where
  "scw_init_utilinfo u wdtype =
     (let u1 = u\<lparr>m_ambsuffix_pos := COMMON_NULL, m_fnameprob_pos := COMMON_NULL\<rparr> in
      if wdtype AND SCW_WD_JP \<noteq> 0 then u1\<lparr>m_cnameprob_pos := COMMON_NULL\<rparr>
      else if wdtype AND SCW_WD_CH \<noteq> 0 then u1\<lparr>m_cnameprob_pos := COMMON_NULL\<rparr> else u1)"

definition set_util :: "scw_worddict \<Rightarrow> nat \<Rightarrow> (scw_utilinfo \<Rightarrow> scw_utilinfo) \<Rightarrow> scw_worddict" where
  "set_util d u f = d\<lparr>m_utilinfo := (m_utilinfo d)(u := f (m_utilinfo d u))\<rparr>"

text \<open>The first step of both functions: the lemma gets a cell of \<open>m_utilinfo\<close> if it has none.\<close>

definition ensure_util :: "nat \<Rightarrow> scw_worddict \<Rightarrow> nat \<Rightarrow> int \<times> scw_worddict" where
  "ensure_util M d l =
     (if m_utilinfo_pos (m_lemmalist d l) = COMMON_NULL then
        let (r, d1) = (if m_utilipos d + 1 \<ge> m_utilisize d
                       then scw_resize_utilinfo M d (m_utilisize d * 2) else (1, d)) in
        if r \<noteq> 1 then (-1, d1)
        else let u = m_utilipos d1 in
          (1, (set_lemma (set_util d1 u (\<lambda>x. scw_init_utilinfo x (m_wdtype d1))) l
                 (\<lambda>lm. lm\<lparr>m_utilinfo_pos := u\<rparr>))\<lparr>m_utilipos := u + 1\<rparr>)
      else (1, d))"

definition scw_init_ambsuffix :: "nat buf \<Rightarrow> nat \<Rightarrow> nat \<Rightarrow> nat buf" where
  "scw_init_ambsuffix b pos hash = fill (b(pos := hash)) (pos + 1) hash COMMON_NULL"

definition amb_slot :: "nat \<Rightarrow> nat \<Rightarrow> nat" where
  "amb_slot v hash = (v + 1) mod 2 ^ 32 mod hash"

text \<open>Placing values one by one; the flag reports the first conflict.\<close>

fun amb_place :: "nat buf \<Rightarrow> nat \<Rightarrow> nat \<Rightarrow> nat list \<Rightarrow> nat buf \<times> bool" where
  "amb_place b pos h [] = (b, False)"
| "amb_place b pos h (v # vs) =
     (if b (pos + 1 + amb_slot v h) = COMMON_NULL
      then amb_place (b(pos + 1 + amb_slot v h := v)) pos h vs else (b, True))"

text \<open>The \<open>while(1)\<close>: larger and larger blocks until the old values and the new one fit.\<close>

function amb_loop :: "nat \<Rightarrow> scw_worddict \<Rightarrow> nat \<Rightarrow> nat \<Rightarrow> nat \<Rightarrow> nat list \<Rightarrow> (int \<times> scw_worddict) option" where
  "amb_loop M d sufpos hash newhash vals =
     (let (r, d1) = (if m_ambpos d + newhash - hash \<ge> m_ambsize d
                     then scw_resize_ambinfo M d (m_ambsize d * 2) else (1, d)) in
      if r \<noteq> 1 then Some (-1, d1)
      else if \<not> sufpos + newhash < m_ambsize d1 then None
      else let (b, conflict) = amb_place (scw_init_ambsuffix (m_ambinfo d1) sufpos newhash) sufpos newhash vals in
        if conflict then amb_loop M (d1\<lparr>m_ambinfo := b\<rparr>) sufpos hash (newhash + 1) vals
        else Some (0, d1\<lparr>m_ambinfo := b, m_ambpos := sufpos + newhash + 1\<rparr>))"
  by pat_completeness auto

termination amb_loop
  by (relation "measure (\<lambda>(M, d, sufpos, hash, newhash, vals). max (m_ambsize d) M - newhash)")
     (auto simp: scw_resize_ambinfo_def resize_code_def realloc_ok_def Let_def max_def split: if_splits)

declare amb_loop.simps [simp del]

definition amb_vals :: "nat buf \<Rightarrow> nat \<Rightarrow> nat list" where
  "amb_vals b pos = filter (\<lambda>v. v \<noteq> COMMON_NULL) (get_list b (pos + 1) (b pos))"

definition scw_insert_ambsuffix :: "nat \<Rightarrow> scw_worddict \<Rightarrow> nat \<Rightarrow> nat \<Rightarrow> (int \<times> scw_worddict) option" where
  "scw_insert_ambsuffix M d flmpos slmpos =
     (let (e, d1) = ensure_util M d flmpos; u = m_utilinfo_pos (m_lemmalist d1 flmpos);
          sufpos = m_ambsuffix_pos (m_utilinfo d1 u) in
      if e < 0 then Some (-1, d1)
      else if sufpos = COMMON_NULL then
        let (r, d2) = (if m_ambpos d1 + 1 + 1 \<ge> m_ambsize d1
                       then scw_resize_ambinfo M d1 (m_ambsize d1 * 2) else (1, d1)) in
        if r \<noteq> 1 then Some (-1, d2)
        else do {
          c_assert (m_ambpos d2 + 1 < m_ambsize d2);
          Some (0, (set_util (d2\<lparr>m_ambinfo := (m_ambinfo d2)(m_ambpos d2 := 1, m_ambpos d2 + 1 := slmpos)\<rparr>) u
                  (\<lambda>x. x\<lparr>m_ambsuffix_pos := m_ambpos d2\<rparr>))\<lparr>m_ambpos := m_ambpos d2 + 2\<rparr>) }
      else do {
        let b = m_ambinfo d1; let hash = b sufpos;
        c_assert (0 < hash);
        if b (sufpos + 1 + amb_slot slmpos hash) = COMMON_NULL
        then Some (0, d1\<lparr>m_ambinfo := b(sufpos + 1 + amb_slot slmpos hash := slmpos)\<rparr>)
        else if length (amb_vals b sufpos) > MAX_AMB_NUM then Some (0, d1)
        else do {
          c_assert (m_ambpos d1 = sufpos + hash + 1);
          amb_loop M d1 sufpos hash (hash + 1) (amb_vals b sufpos @ [slmpos]) } })"

definition scw_seek_ambfrag :: "scw_worddict \<Rightarrow> scw_lemma \<Rightarrow> scw_lemma \<Rightarrow> nat \<Rightarrow> bool option" where
  "scw_seek_ambfrag d flm slm slmpos =
     (let u = m_utilinfo_pos flm; b = m_ambsuffix_pos (m_utilinfo d u);
          loc = Some (m_wdtype d AND SCW_WD_CH \<noteq> 0 \<and> IS_LOC (m_property flm) \<and> IS_LOC_FOLLOW (m_property slm)) in
      if u \<noteq> COMMON_NULL \<and> b \<noteq> COMMON_NULL then do {
        c_assert (0 < m_ambinfo d b);
        if m_ambinfo d (b + 1 + amb_slot slmpos (m_ambinfo d b)) = slmpos then Some True else loc }
      else loc)"

text \<open>
  Name probabilities. The code takes the address of one of three fields by \<open>type\<close> (the first
  and the third are the same memory) and dereferences NULL for any other type.
\<close>

definition prob_pos :: "nat \<Rightarrow> scw_utilinfo \<Rightarrow> nat option" where
  "prob_pos ty u = (if ty = DATA_CNAME \<or> ty = DATA_JNAME then Some (m_cnameprob_pos u)
     else if ty = DATA_FNAME then Some (m_fnameprob_pos u) else None)"

definition set_prob_pos :: "nat \<Rightarrow> nat \<Rightarrow> scw_utilinfo \<Rightarrow> scw_utilinfo" where
  "set_prob_pos ty pos u = (if ty = DATA_FNAME then u\<lparr>m_fnameprob_pos := pos\<rparr> else u\<lparr>m_cnameprob_pos := pos\<rparr>)"

definition scw_add_lmprob :: "nat \<Rightarrow> scw_worddict \<Rightarrow> nat \<Rightarrow> int list \<Rightarrow> nat \<Rightarrow> (int \<times> scw_worddict) option" where
  "scw_add_lmprob M d l prob ty =
     (let (e, d1) = ensure_util M d l; u = m_utilinfo_pos (m_lemmalist d1 l); pbsize = length prob in
      if e < 0 then Some (-1, d1)
      else do {
        pos \<leftarrow> prob_pos ty (m_utilinfo d1 u);
        if pos \<noteq> COMMON_NULL then do {
          c_assert (pos + pbsize \<le> m_pbsize d1);
          Some (0, d1\<lparr>m_probbuf := put_list (m_probbuf d1) pos prob\<rparr>) }
        else
          (let (r, d2) = (if m_pbpos d1 + pbsize \<ge> m_pbsize d1
                          then scw_resize_probbuf M d1 (m_pbsize d1 * 2) else (1, d1)) in
           if r \<noteq> 1 then Some (-1, d2)
           else do {
             c_assert (m_pbpos d2 + pbsize \<le> m_pbsize d2);
             Some (0, (set_util (d2\<lparr>m_probbuf := put_list (m_probbuf d2) (m_pbpos d2) prob\<rparr>) u
                     (set_prob_pos ty (m_pbpos d2)))\<lparr>m_pbpos := m_pbpos d2 + pbsize\<rparr>) }) })"

text \<open>The position in \<open>m_probbuf\<close>; \<open>None\<close> is NULL.\<close>

definition scw_get_nameprob :: "scw_worddict \<Rightarrow> scw_lemma \<Rightarrow> nat \<Rightarrow> nat option" where
  "scw_get_nameprob d lm ty =
     (let u = m_utilinfo_pos lm in
      if u = COMMON_NULL then None
      else case prob_pos ty (m_utilinfo d u) of None \<Rightarrow> None
        | Some pos \<Rightarrow> if pos = COMMON_NULL then None else Some pos)"

text \<open>
  \<open>scw_build_ambfrag\<close> over the pairs of words of the file; \<open>pre\<close> is the first word of the last
  pair that was entered, \<open>amb\<close> the lemma of the last first word that was looked up.
\<close>

fun build_ambfrag :: "nat \<Rightarrow> scw_worddict \<Rightarrow> string \<Rightarrow> nat \<Rightarrow> (string \<times> string) list \<Rightarrow> scw_worddict option" where
  "build_ambfrag M d pre amb [] = Some d"
| "build_ambfrag M d pre amb ((f, s) # fs) = do {
     amb' \<leftarrow> (if f \<noteq> pre \<or> amb = LEMMA_NULL then scw_seek_lemma d f (length f) else Some amb);
     if amb' = LEMMA_NULL then build_ambfrag M d pre amb' fs
     else do {
       sl \<leftarrow> scw_seek_lemma d s (length s);
       if sl = LEMMA_NULL then build_ambfrag M d pre amb' fs
       else do {
         (r, d1) \<leftarrow> scw_insert_ambsuffix M d amb' sl;
         if r < 0 then build_ambfrag M d1 pre amb' fs else build_ambfrag M d1 f amb' fs } } }"

definition scw_build_ambfrag :: "nat \<Rightarrow> scw_worddict \<Rightarrow> (string \<times> string) list \<Rightarrow> scw_worddict option" where
  "scw_build_ambfrag M d fs = build_ambfrag M d [] LEMMA_NULL fs"

subsection \<open>Blocks\<close>

definition amb_cell :: "nat buf \<Rightarrow> nat \<Rightarrow> nat \<Rightarrow> nat" where
  "amb_cell b pos i = b (pos + 1 + i)"

definition amb_block :: "nat buf \<Rightarrow> nat \<Rightarrow> nat \<Rightarrow> bool" where
  "amb_block b pos h \<longleftrightarrow> 0 < h \<and> (\<forall>i < h. amb_cell b pos i \<noteq> COMMON_NULL \<longrightarrow>
     amb_cell b pos i < COMMON_NULL \<and> amb_slot (amb_cell b pos i) h = i)"

text \<open>The values of a block, and those that are in their own slot; in a well-formed block they are the same.\<close>

definition amb_cells :: "nat buf \<Rightarrow> nat \<Rightarrow> nat \<Rightarrow> nat set" where
  "amb_cells b pos h = {v. v \<noteq> COMMON_NULL \<and> (\<exists>i < h. amb_cell b pos i = v)}"

definition amb_set :: "nat buf \<Rightarrow> nat \<Rightarrow> nat \<Rightarrow> nat set" where
  "amb_set b pos h = {v. v < COMMON_NULL \<and> amb_cell b pos (amb_slot v h) = v}"

lemma amb_slot_lt: "0 < h \<Longrightarrow> amb_slot v h < h"
  by (simp add: amb_slot_def)

lemma amb_cells_set: "amb_block b pos h \<Longrightarrow> amb_cells b pos h = amb_set b pos h"
  using amb_slot_lt [of h] by (auto simp: amb_cells_def amb_set_def amb_block_def)

lemma set_get_list: "set (get_list b p n) = {b (p + i) |i. i < n}"
  by (auto simp: set_conv_nth) (metis get_list_nth)

lemma set_amb_vals:
  assumes "amb_block b pos (b pos)"
  shows "set (amb_vals b pos) = amb_set b pos (b pos)"
proof -
  have "set (amb_vals b pos) = {amb_cell b pos i |i. i < b pos \<and> amb_cell b pos i \<noteq> COMMON_NULL}"
    by (auto simp: amb_vals_def set_get_list amb_cell_def)
  also have "\<dots> = amb_set b pos (b pos)"
  proof (intro equalityI subsetI)
    fix v assume "v \<in> amb_set b pos (b pos)"
    then have v: "v < COMMON_NULL" "amb_cell b pos (amb_slot v (b pos)) = v" by (simp_all add: amb_set_def)
    then show "v \<in> {amb_cell b pos i |i. i < b pos \<and> amb_cell b pos i \<noteq> COMMON_NULL}"
      using amb_slot_lt [of "b pos" v] assms by (auto simp: amb_block_def intro!: exI [of _ "amb_slot v (b pos)"])
  qed (use assms in \<open>auto simp: amb_block_def amb_set_def\<close>)
  finally show ?thesis .
qed

lemma amb_init:
  "0 < h \<Longrightarrow> amb_block (scw_init_ambsuffix b pos h) pos h \<and> amb_set (scw_init_ambsuffix b pos h) pos h = {} \<and>
    scw_init_ambsuffix b pos h pos = h"
  by (auto simp: amb_block_def amb_set_def amb_cell_def scw_init_ambsuffix_def fill_def amb_slot_lt)

lemma amb_put:
  assumes b: "amb_block b pos h" and v: "v < COMMON_NULL" "b (pos + 1 + amb_slot v h) = COMMON_NULL"
  shows "amb_block (b(pos + 1 + amb_slot v h := v)) pos h"
    "amb_set (b(pos + 1 + amb_slot v h := v)) pos h = insert v (amb_set b pos h)"
  using assms by (auto simp: amb_block_def amb_set_def amb_cell_def)

lemma amb_place_ok:
  assumes "amb_block b pos h" "\<forall>v \<in> set vs. v < COMMON_NULL" "amb_place b pos h vs = (b', c)"
  shows "amb_block b' pos h \<and> (\<forall>i. i \<le> pos \<or> pos + h < i \<longrightarrow> b' i = b i) \<and>
    (\<not> c \<longrightarrow> amb_set b' pos h = amb_set b pos h \<union> set vs)"
  using assms
proof (induction vs arbitrary: b)
  case (Cons v vs)
  have h: "amb_slot v h < h" using Cons.prems(1) by (simp add: amb_block_def amb_slot_lt)
  show ?case
  proof (cases "b (pos + 1 + amb_slot v h) = COMMON_NULL")
    case True
    have v: "v < COMMON_NULL" using Cons.prems(2) by simp
    define b1 where "b1 = b(pos + 1 + amb_slot v h := v)"
    note P = amb_put [OF Cons.prems(1) v True, folded b1_def]
    have "amb_place b1 pos h vs = (b', c)" using Cons.prems(3) True by (simp add: b1_def)
    moreover have "\<forall>i. i \<le> pos \<or> pos + h < i \<longrightarrow> b1 i = b i" using h by (auto simp: b1_def)
    ultimately show ?thesis using Cons.IH [OF P(1)] Cons.prems(2) P(2) by auto
  qed (use Cons.prems in auto)
qed simp

text \<open>A value that is already in the block can never be placed twice.\<close>

lemma amb_place_twice:
  assumes "amb_block b pos h" "\<forall>v \<in> set vs. v < COMMON_NULL" "s < COMMON_NULL"
  shows "s \<in> amb_set b pos h \<or> s \<in> set vs \<Longrightarrow> snd (amb_place b pos h (vs @ [s]))"
  using assms
proof (induction vs arbitrary: b)
  case Nil
  then show ?case by (auto simp: amb_set_def amb_cell_def)
next
  case (Cons v vs)
  show ?case
  proof (cases "b (pos + 1 + amb_slot v h) = COMMON_NULL")
    case True
    have v: "v < COMMON_NULL" using Cons.prems(3) by simp
    define b1 where "b1 = b(pos + 1 + amb_slot v h := v)"
    note P = amb_put [OF Cons.prems(2) v True, folded b1_def]
    have "snd (amb_place b1 pos h (vs @ [s]))"
      by (rule Cons.IH [OF _ P(1)]) (use Cons.prems P(2) in auto)
    then show ?thesis using True by (simp add: b1_def)
  qed simp
qed

definition amb_frame :: "scw_worddict \<Rightarrow> scw_worddict \<Rightarrow> bool" where
  "amb_frame d d' \<longleftrightarrow>
     d' = d\<lparr>m_ambinfo := m_ambinfo d', m_ambsize := m_ambsize d', m_ambpos := m_ambpos d'\<rparr>"

definition amb_rebuilt :: "scw_worddict \<Rightarrow> nat \<Rightarrow> nat list \<Rightarrow> nat \<Rightarrow> scw_worddict \<Rightarrow> bool" where
  "amb_rebuilt d sufpos vals newhash d' \<longleftrightarrow>
     (let b = m_ambinfo d'; h = b sufpos in
      amb_block b sufpos h \<and> amb_set b sufpos h = set vals \<and> newhash \<le> h \<and>
      m_ambpos d' = sufpos + h + 1 \<and> m_ambpos d' \<le> m_ambsize d')"

lemma amb_frameI: "amb_frame d (d\<lparr>m_ambinfo := b, m_ambsize := n, m_ambpos := p\<rparr>)"
  "amb_frame d d" "amb_frame d (d\<lparr>m_ambsize := n\<rparr>)" "amb_frame d (d\<lparr>m_ambinfo := b\<rparr>)"
  "amb_frame d (d\<lparr>m_ambinfo := b, m_ambpos := p\<rparr>)"
  by (simp_all add: amb_frame_def)

lemma amb_frame_trans: "amb_frame d d1 \<Longrightarrow> amb_frame d1 d2 \<Longrightarrow> amb_frame d d2"
  by (cases d; cases d1; cases d2) (simp add: amb_frame_def)

lemma resize_amb_ok:
  assumes "(if c then scw_resize_ambinfo M d n else (1, d)) = (r, d1)"
  shows "amb_frame d d1" "m_ambinfo d1 = m_ambinfo d" "m_ambpos d1 = m_ambpos d"
  using assms by (auto simp: scw_resize_ambinfo_def Let_def amb_frameI split: if_splits)

lemma amb_loop_ok:
  assumes "amb_loop M d sufpos hash newhash vals = Some (r, d')" "0 < newhash" "\<forall>v \<in> set vals. v < COMMON_NULL"
    "m_ambpos d = sufpos + hash + 1" "hash < newhash"
  shows "(r = 0 \<or> r = -1) \<and> amb_frame d d' \<and> (\<forall>i < sufpos. m_ambinfo d' i = m_ambinfo d i) \<and>
    (r = 0 \<longrightarrow> amb_rebuilt d sufpos vals newhash d') \<and> (r = -1 \<longrightarrow> m_ambpos d' = m_ambpos d)"
  using assms
proof (induction M d sufpos hash newhash vals arbitrary: r d' rule: amb_loop.induct)
  case (1 M d sufpos hash newhash vals)
  obtain rr d1 where g: "(if m_ambpos d + newhash - hash \<ge> m_ambsize d
      then scw_resize_ambinfo M d (m_ambsize d * 2) else (1, d)) = (rr, d1)" by fastforce
  note R = resize_amb_ok [OF g]
  obtain b c where p: "amb_place (scw_init_ambsuffix (m_ambinfo d1) sufpos newhash) sufpos newhash vals = (b, c)"
    by fastforce
  note I = amb_init [OF 1(3), of "m_ambinfo d1" sufpos]
  note P = amb_place_ok [OF conjunct1 [OF I] 1(4) p]
  have below: "b i = m_ambinfo d i" if "i < sufpos" for i
    using P that R(2) by (simp add: scw_init_ambsuffix_def fill_def)
  note S = 1(2) [unfolded amb_loop.simps [of M d] Let_def g prod.case p]
  show ?case
  proof (cases "rr \<noteq> 1")
    case True
    then show ?thesis using S R by simp
  next
    case rr: False
    then have lt: "sufpos + newhash < m_ambsize d1" using S by (auto split: if_splits)
    show ?thesis
    proof (cases c)
      case True
      have "amb_loop M (d1\<lparr>m_ambinfo := b\<rparr>) sufpos hash (newhash + 1) vals = Some (r, d')"
        using S rr lt True by simp
      from 1(1) [OF refl g [symmetric] _ _ refl p [symmetric] True this] rr lt 1(3-) R(3)
      have IH: "(r = 0 \<or> r = -1) \<and> amb_frame (d1\<lparr>m_ambinfo := b\<rparr>) d' \<and> (\<forall>i < sufpos. m_ambinfo d' i = b i) \<and>
          (r = 0 \<longrightarrow> amb_rebuilt (d1\<lparr>m_ambinfo := b\<rparr>) sufpos vals (newhash + 1) d') \<and>
          (r = -1 \<longrightarrow> m_ambpos d' = m_ambpos d)"
        by simp
      moreover have "amb_frame d d'" using IH R(1) amb_frameI(4) amb_frame_trans by blast
      ultimately show ?thesis using below by (auto simp: amb_rebuilt_def Let_def)
    next
      case False
      then have "r = 0" "d' = d1\<lparr>m_ambinfo := b, m_ambpos := sufpos + newhash + 1\<rparr>"
        using S rr lt by simp_all
      moreover have "amb_frame d (d1\<lparr>m_ambinfo := b, m_ambpos := sufpos + newhash + 1\<rparr>)"
        using R(1) amb_frameI(5) amb_frame_trans by blast
      moreover have "b sufpos = newhash" using P I by simp
      ultimately show ?thesis using below P I lt False by (simp add: amb_rebuilt_def)
    qed
  qed
qed

subsection \<open>Well-formed tables\<close>

definition util_of :: "scw_worddict \<Rightarrow> nat \<Rightarrow> nat" where
  "util_of d l = m_utilinfo_pos (m_lemmalist d l)"

definition block_of :: "scw_worddict \<Rightarrow> nat \<Rightarrow> nat" where
  "block_of d l = (if util_of d l = COMMON_NULL then COMMON_NULL
     else m_ambsuffix_pos (m_utilinfo d (util_of d l)))"

definition block_end :: "scw_worddict \<Rightarrow> nat \<Rightarrow> nat" where
  "block_end d pos = pos + 1 + m_ambinfo d pos"

text \<open>The lemmas that are recorded as suffixes of a lemma: the values in its block, in whatever slot.\<close>

definition partners :: "scw_worddict \<Rightarrow> nat \<Rightarrow> nat set" where
  "partners d l = (if block_of d l = COMMON_NULL then {}
     else amb_cells (m_ambinfo d) (block_of d l) (m_ambinfo d (block_of d l)))"

lemma partners_set:
  "block_of d l \<noteq> COMMON_NULL \<Longrightarrow> amb_block (m_ambinfo d) (block_of d l) (m_ambinfo d (block_of d l)) \<Longrightarrow>
    partners d l = amb_set (m_ambinfo d) (block_of d l) (m_ambinfo d (block_of d l))"
  by (simp add: partners_def amb_cells_set)

definition wf_blocks :: "scw_worddict \<Rightarrow> bool" where
  "wf_blocks d \<longleftrightarrow> m_ambpos d \<le> m_ambsize d \<and>
     (\<forall>l < m_lmpos d. block_of d l \<noteq> COMMON_NULL \<longrightarrow>
        amb_block (m_ambinfo d) (block_of d l) (m_ambinfo d (block_of d l)) \<and>
        block_end d (block_of d l) \<le> m_ambpos d) \<and>
     (\<forall>l < m_lmpos d. \<forall>k < m_lmpos d. l \<noteq> k \<and> block_of d l \<noteq> COMMON_NULL \<and> block_of d k \<noteq> COMMON_NULL \<longrightarrow>
        block_end d (block_of d l) \<le> block_of d k \<or> block_end d (block_of d k) \<le> block_of d l)"

definition wf_utils :: "scw_worddict \<Rightarrow> bool" where
  "wf_utils d \<longleftrightarrow> m_utilipos d \<le> m_utilisize d \<and> m_utilisize d \<le> COMMON_NULL \<and>
     (\<forall>l < m_lmpos d. util_of d l \<noteq> COMMON_NULL \<longrightarrow> util_of d l < m_utilipos d) \<and>
     (\<forall>l < m_lmpos d. \<forall>k < m_lmpos d. l \<noteq> k \<and> util_of d l \<noteq> COMMON_NULL \<longrightarrow> util_of d l \<noteq> util_of d k)"

definition wf_amb :: "scw_worddict \<Rightarrow> bool" where
  "wf_amb d \<longleftrightarrow> wf_blocks d \<and> wf_utils d \<and> 2 \<le> m_ambsize d \<and> m_ambsize d \<le> COMMON_NULL"

lemma amb_set_cong:
  assumes "\<And>i. pos \<le> i \<Longrightarrow> i < pos + 1 + b pos \<Longrightarrow> b' i = b i" "0 < b pos"
  shows "amb_set b' pos (b' pos) = amb_set b pos (b pos)" "amb_block b' pos (b' pos) = amb_block b pos (b pos)"
proof -
  have "b' pos = b pos" using assms by simp
  moreover have "amb_cell b' pos i = amb_cell b pos i" if "i < b pos" for i
    using assms(1) [of "pos + 1 + i"] that by (simp add: amb_cell_def)
  ultimately show "amb_set b' pos (b' pos) = amb_set b pos (b pos)" "amb_block b' pos (b' pos) = amb_block b pos (b pos)"
    using amb_slot_lt [OF assms(2)] by (auto simp: amb_set_def amb_block_def)
qed

text \<open>Rewriting cells outside the blocks of the other lemmas leaves them alone.\<close>

lemma wf_blocks_update:
  assumes w: "wf_blocks d" and f: "f < m_lmpos d" and lm: "m_lmpos d' = m_lmpos d"
    and others: "\<And>l. l < m_lmpos d \<Longrightarrow> l \<noteq> f \<Longrightarrow> block_of d' l = block_of d l"
    and same: "\<And>l i. l < m_lmpos d \<Longrightarrow> l \<noteq> f \<Longrightarrow> block_of d l \<noteq> COMMON_NULL \<Longrightarrow>
      block_of d l \<le> i \<Longrightarrow> i < block_end d (block_of d l) \<Longrightarrow> m_ambinfo d' i = m_ambinfo d i"
    and pos: "m_ambpos d \<le> m_ambpos d'" "m_ambpos d' \<le> m_ambsize d'"
    and new: "block_of d' f \<noteq> COMMON_NULL"
      "amb_block (m_ambinfo d') (block_of d' f) (m_ambinfo d' (block_of d' f))"
      "block_end d' (block_of d' f) \<le> m_ambpos d'"
    and disj: "\<And>l. l < m_lmpos d \<Longrightarrow> l \<noteq> f \<Longrightarrow> block_of d l \<noteq> COMMON_NULL \<Longrightarrow>
      block_end d (block_of d l) \<le> block_of d' f \<or> block_end d' (block_of d' f) \<le> block_of d l"
  shows "wf_blocks d' \<and> (\<forall>l < m_lmpos d. l \<noteq> f \<longrightarrow> partners d' l = partners d l)"
proof -
  have B: "amb_set (m_ambinfo d') (block_of d l) (m_ambinfo d' (block_of d l)) =
        amb_set (m_ambinfo d) (block_of d l) (m_ambinfo d (block_of d l)) \<and>
      amb_block (m_ambinfo d') (block_of d l) (m_ambinfo d' (block_of d l)) \<and>
      amb_block (m_ambinfo d) (block_of d l) (m_ambinfo d (block_of d l)) \<and>
      block_end d' (block_of d l) = block_end d (block_of d l) \<and> block_end d (block_of d l) \<le> m_ambpos d"
    if l: "l < m_lmpos d" "l \<noteq> f" "block_of d l \<noteq> COMMON_NULL" for l
  proof -
    have W: "amb_block (m_ambinfo d) (block_of d l) (m_ambinfo d (block_of d l))"
      "block_end d (block_of d l) \<le> m_ambpos d"
      using w l by (simp_all add: wf_blocks_def)
    have S: "m_ambinfo d' i = m_ambinfo d i" if "block_of d l \<le> i" "i < block_of d l + 1 + m_ambinfo d (block_of d l)" for i
      using same [OF l that(1)] that(2) by (simp add: block_end_def)
    show ?thesis
      using amb_set_cong [of "block_of d l" "m_ambinfo d" "m_ambinfo d'", OF S] W S [of "block_of d l"]
      by (simp add: amb_block_def block_end_def)
  qed
  have "partners d' l = partners d l" if "l < m_lmpos d" "l \<noteq> f" for l
    using B [OF that] others [OF that] by (simp add: partners_def amb_cells_set)
  moreover have "wf_blocks d'" unfolding wf_blocks_def lm
  proof (intro conjI allI impI)
    fix l assume l: "l < m_lmpos d" "block_of d' l \<noteq> COMMON_NULL"
    show "amb_block (m_ambinfo d') (block_of d' l) (m_ambinfo d' (block_of d' l))"
      using B [of l] others [of l] l new by (cases "l = f") simp_all
    show "block_end d' (block_of d' l) \<le> m_ambpos d'"
      using B [of l] others [of l] l new pos by (cases "l = f") simp_all
  next
    fix l k assume lk: "l < m_lmpos d" "k < m_lmpos d"
      "l \<noteq> k \<and> block_of d' l \<noteq> COMMON_NULL \<and> block_of d' k \<noteq> COMMON_NULL"
    consider "l = f" "k \<noteq> f" | "l \<noteq> f" "k = f" | "l \<noteq> f" "k \<noteq> f" using lk by blast
    then show "block_end d' (block_of d' l) \<le> block_of d' k \<or> block_end d' (block_of d' k) \<le> block_of d' l"
    proof cases
      case 1
      then show ?thesis using B [of k] others [of k] disj [of k] lk by simp blast
    next
      case 2
      then show ?thesis using B [of l] others [of l] disj [of l] lk by simp
    next
      case 3
      then show ?thesis using B [of k] B [of l] others [of k] others [of l] lk w by (simp add: wf_blocks_def)
    qed
  qed (use pos in simp)
  ultimately show ?thesis by blast
qed

lemma ensure_util_ok:
  assumes w: "wf_amb d" and f: "f < m_lmpos d" and M: "M \<le> COMMON_NULL" and e: "ensure_util M d f = (r, d1)"
  shows "r = -1 \<or> (wf_amb d1 \<and> util_of d1 f \<noteq> COMMON_NULL)"
    "m_lmpos d1 = m_lmpos d" "m_ambinfo d1 = m_ambinfo d" "m_ambpos d1 = m_ambpos d" "m_ambsize d1 = m_ambsize d"
    "\<And>l. l < m_lmpos d \<Longrightarrow> block_of d1 l = block_of d l" "r = 1 \<or> r = -1"
proof -
  note E = e [unfolded ensure_util_def Let_def]
  have U: "wf_utils d" "wf_blocks d" using w by (simp_all add: wf_amb_def)
  have main: "(r = -1 \<or> (wf_utils d1 \<and> util_of d1 f \<noteq> COMMON_NULL)) \<and> m_lmpos d1 = m_lmpos d \<and>
      m_ambinfo d1 = m_ambinfo d \<and> m_ambpos d1 = m_ambpos d \<and> m_ambsize d1 = m_ambsize d \<and>
      (\<forall>l < m_lmpos d. block_of d1 l = block_of d l) \<and> (r = 1 \<or> r = -1)"
  proof (cases "util_of d f = COMMON_NULL")
    case False
    then show ?thesis using E U by (auto simp: util_of_def)
  next
    case True
    obtain rr d0 where g: "(if m_utilipos d + 1 \<ge> m_utilisize d
        then scw_resize_utilinfo M d (m_utilisize d * 2) else (1, d)) = (rr, d0)" by fastforce
    have d0: "m_lemmalist d0 = m_lemmalist d \<and> m_utilinfo d0 = m_utilinfo d \<and> m_utilipos d0 = m_utilipos d \<and>
        m_lmpos d0 = m_lmpos d \<and> m_ambinfo d0 = m_ambinfo d \<and> m_ambpos d0 = m_ambpos d \<and> m_ambsize d0 = m_ambsize d \<and>
        (rr = 1 \<longrightarrow> m_utilipos d < m_utilisize d0 \<and> m_utilisize d0 \<le> COMMON_NULL)"
      using g U(1) M by (auto simp: scw_resize_utilinfo_def resize_code_def realloc_ok_def sizeof_utilinfo_def
          wf_utils_def Let_def split: if_splits)
    show ?thesis
    proof (cases "rr = 1")
      case rr: True
      let ?u = "m_utilipos d"
      have d1: "r = 1" "d1 = (set_lemma (set_util d0 ?u (\<lambda>x. scw_init_utilinfo x (m_wdtype d0))) f
          (\<lambda>lm. lm\<lparr>m_utilinfo_pos := ?u\<rparr>))\<lparr>m_utilipos := ?u + 1\<rparr>"
        using E True rr d0 g by (auto simp: util_of_def)
      have u1: "util_of d1 l = (if l = f then ?u else util_of d l)" for l
        using d0 by (simp add: d1 util_of_def set_lemma_def set_util_def)
      have u_ne: "?u \<noteq> COMMON_NULL" using d0 rr by auto
      have old: "util_of d l < ?u" if "l < m_lmpos d" "util_of d l \<noteq> COMMON_NULL" for l
        using U(1) that by (simp add: wf_utils_def)
      have b1: "block_of d1 l = block_of d l" if "l < m_lmpos d" for l
      proof (cases "l = f")
        case lf: True
        then show ?thesis using True u_ne u1 [of f]
          by (simp add: block_of_def d1 set_lemma_def set_util_def scw_init_utilinfo_def Let_def)
      next
        case False
        then show ?thesis using old [OF that] u1 [of l] d0
          by (auto simp: block_of_def d1 set_lemma_def set_util_def)
      qed
      have ne: "util_of d l \<noteq> ?u" if "l < m_lmpos d" for l
        using old [OF that] u_ne by auto
      have fields: "m_lmpos d1 = m_lmpos d" "m_utilipos d1 = ?u + 1" "m_utilisize d1 = m_utilisize d0"
        using d0 by (simp_all add: d1 set_lemma_def set_util_def)
      have "util_of d1 l < ?u + 1" if "l < m_lmpos d" "util_of d1 l \<noteq> COMMON_NULL" for l
        using old [OF that(1)] that(2) by (simp add: u1 split: if_splits)
      moreover have "util_of d1 l \<noteq> util_of d1 k"
        if "l < m_lmpos d" "k < m_lmpos d" "l \<noteq> k" "util_of d1 l \<noteq> COMMON_NULL" for l k
        using ne [OF that(1)] ne [OF that(2)] that U(1) by (auto simp: u1 wf_utils_def split: if_splits)
      ultimately have "wf_utils d1" using d0 rr by (simp add: wf_utils_def fields)
      then show ?thesis using b1 u1 u_ne d0 d1 by (simp add: set_lemma_def set_util_def)
    next
      case False
      then have "r = -1" "d1 = d0" using E True g by (auto simp: util_of_def)
      then show ?thesis using d0 by (simp add: block_of_def util_of_def)
    qed
  qed
  have "wf_blocks d1"
    using U(2) main by (simp add: wf_blocks_def block_end_def)
  then show "r = -1 \<or> (wf_amb d1 \<and> util_of d1 f \<noteq> COMMON_NULL)"
    "m_lmpos d1 = m_lmpos d" "m_ambinfo d1 = m_ambinfo d" "m_ambpos d1 = m_ambpos d" "m_ambsize d1 = m_ambsize d"
    "\<And>l. l < m_lmpos d \<Longrightarrow> block_of d1 l = block_of d l" "r = 1 \<or> r = -1"
    using main w by (auto simp: wf_amb_def)
qed

lemma distinct_amb_vals:
  assumes "amb_block b pos (b pos)"
  shows "distinct (amb_vals b pos)"
proof -
  have inj: "i = j" if "i < b pos" "j < b pos" "amb_cell b pos i = amb_cell b pos j"
      "amb_cell b pos i \<noteq> COMMON_NULL" for i j
    using assms that unfolding amb_block_def by metis
  have eq: "get_list b (pos + 1) (b pos) = map (amb_cell b pos) [0..<b pos]"
    by (rule nth_equalityI) (simp_all add: amb_cell_def)
  have "amb_vals b pos = map (amb_cell b pos) (filter (\<lambda>i. amb_cell b pos i \<noteq> COMMON_NULL) [0..<b pos])"
    unfolding amb_vals_def eq by (simp add: filter_map comp_def)
  then show ?thesis by (auto simp: distinct_map inj_on_def intro: inj)
qed

subsection \<open>Insertion\<close>

text \<open>What an insertion does to the tables of the other lemmas and to the invariant.\<close>

definition amb_step :: "scw_worddict \<Rightarrow> nat \<Rightarrow> scw_worddict \<Rightarrow> bool" where
  "amb_step d f d' \<longleftrightarrow> wf_blocks d' \<and> wf_utils d' \<and> m_lmpos d' = m_lmpos d \<and>
     (\<forall>l < m_lmpos d. l \<noteq> f \<longrightarrow> partners d' l = partners d l)"

lemma amb_frame_fields:
  assumes "amb_frame d x"
  shows "util_of x l = util_of d l" "block_of x l = block_of d l" "m_lmpos x = m_lmpos d" "wf_utils x = wf_utils d"
proof -
  have "m_lemmalist x = m_lemmalist d \<and> m_utilinfo x = m_utilinfo d \<and> m_lmpos x = m_lmpos d \<and>
      m_utilipos x = m_utilipos d \<and> m_utilisize x = m_utilisize d"
    using assms by (cases x; cases d) (simp add: amb_frame_def)
  then show "util_of x l = util_of d l" "block_of x l = block_of d l" "m_lmpos x = m_lmpos d" "wf_utils x = wf_utils d"
    by (simp_all add: util_of_def block_of_def wf_utils_def)
qed

text \<open>A block written again in its place, or extended at the end of the array.\<close>

lemma amb_rewrite_block:
  assumes w: "wf_amb d" and f: "f < m_lmpos d" and b: "block_of d f \<noteq> COMMON_NULL"
    and fr: "amb_frame d d'"
  defines "b \<equiv> block_of d f"
  assumes blk: "amb_block (m_ambinfo d') b (m_ambinfo d' b)" "block_end d' b \<le> m_ambpos d'"
    "m_ambpos d' \<le> m_ambsize d'" "m_ambpos d \<le> m_ambpos d'"
    and same: "\<And>i. i < b \<or> (block_end d b \<le> i \<and> i < m_ambpos d) \<Longrightarrow> m_ambinfo d' i = m_ambinfo d i"
    and last: "block_end d' b = block_end d b \<or> block_end d b = m_ambpos d"
  shows "amb_step d f d'" "partners d' f = amb_set (m_ambinfo d') b (m_ambinfo d' b)"
proof -
  have W: "wf_blocks d" "wf_utils d" using w by (simp_all add: wf_amb_def)
  have disj: "block_end d (block_of d l) \<le> b \<or> block_end d b \<le> block_of d l"
    "block_end d (block_of d l) \<le> m_ambpos d" "block_of d l < block_end d (block_of d l)"
    if "l < m_lmpos d" "l \<noteq> f" "block_of d l \<noteq> COMMON_NULL" for l
    using W(1) that f assms(3) unfolding wf_blocks_def b_def by (metis, metis, simp add: block_end_def)
  note F = amb_frame_fields [OF fr]
  have S: "m_ambinfo d' i = m_ambinfo d i"
    if "l < m_lmpos d" "l \<noteq> f" "block_of d l \<noteq> COMMON_NULL" "block_of d l \<le> i" "i < block_end d (block_of d l)" for l i
    using disj [OF that(1-3)] that(4,5) by (intro same) linarith
  have D: "block_end d (block_of d l) \<le> b \<or> block_end d' b \<le> block_of d l"
    if "l < m_lmpos d" "l \<noteq> f" "block_of d l \<noteq> COMMON_NULL" for l
    using disj [OF that] last by linarith
  have bd: "block_of d' f = b" using F(2) by (simp add: b_def)
  have bn: "b \<noteq> COMMON_NULL" using assms(3) by (simp add: b_def)
  have U: "wf_blocks d' \<and> (\<forall>l < m_lmpos d. l \<noteq> f \<longrightarrow> partners d' l = partners d l)"
  proof (rule wf_blocks_update [OF W(1) f F(3)])
    show "m_ambinfo d' i = m_ambinfo d i"
      if "l < m_lmpos d" "l \<noteq> f" "block_of d l \<noteq> COMMON_NULL" "block_of d l \<le> i" "i < block_end d (block_of d l)" for l i
      by (rule S [OF that])
  qed (use F(2) blk bn D in \<open>simp_all add: b_def\<close>)
  show "amb_step d f d'" using U W(2) F by (simp add: amb_step_def)
  show "partners d' f = amb_set (m_ambinfo d') b (m_ambinfo d' b)"
    using bd bn blk(1) by (simp add: partners_def amb_cells_set)
qed

text \<open>The first block of a lemma, at the end of the array.\<close>

lemma amb_new_block:
  assumes w: "wf_amb d" and f: "f < m_lmpos d" and u: "util_of d f \<noteq> COMMON_NULL"
    and b: "block_of d f = COMMON_NULL" and s: "s < COMMON_NULL"
    and d2: "amb_frame d d2" "m_ambinfo d2 = m_ambinfo d" "m_ambpos d2 = m_ambpos d"
      "m_ambpos d + 1 < m_ambsize d2" "m_ambpos d < COMMON_NULL"
  defines "d' \<equiv> (set_util (d2\<lparr>m_ambinfo := (m_ambinfo d2)(m_ambpos d2 := 1, m_ambpos d2 + 1 := s)\<rparr>) (util_of d f)
     (\<lambda>x. x\<lparr>m_ambsuffix_pos := m_ambpos d2\<rparr>))\<lparr>m_ambpos := m_ambpos d2 + 2\<rparr>"
  shows "amb_step d f d' \<and> partners d' f = {s}"
proof -
  let ?p = "m_ambpos d"
  have W: "wf_blocks d" "wf_utils d" using w by (simp_all add: wf_amb_def)
  have e2: "m_lemmalist d2 = m_lemmalist d" "m_utilinfo d2 = m_utilinfo d" "m_lmpos d2 = m_lmpos d"
    "m_utilipos d2 = m_utilipos d" "m_utilisize d2 = m_utilisize d"
    using d2(1) by (cases d2; cases d; simp add: amb_frame_def)+
  have util': "util_of d' l = util_of d l" for l by (simp add: d'_def set_util_def util_of_def e2)
  have blk: "block_of d' l = block_of d l" if "l < m_lmpos d" "l \<noteq> f" for l
  proof -
    have "util_of d l \<noteq> util_of d f" using W(2) that f u by (auto simp: wf_utils_def)
    then show ?thesis by (simp add: block_of_def util') (simp add: d'_def set_util_def e2)
  qed
  have blkf: "block_of d' f = ?p" using u by (simp add: block_of_def util') (simp add: d'_def set_util_def d2)
  have info: "m_ambinfo d' = (m_ambinfo d)(?p := 1, ?p + 1 := s)" by (simp add: d'_def set_util_def d2)
  have lm: "m_lmpos d' = m_lmpos d" "m_ambpos d' = ?p + 2" "m_ambsize d' = m_ambsize d2"
    by (simp_all add: d'_def set_util_def d2 e2)
  have ends: "block_end d (block_of d l) \<le> ?p" if "l < m_lmpos d" "block_of d l \<noteq> COMMON_NULL" for l
    using W(1) that by (simp add: wf_blocks_def)
  have S: "m_ambinfo d' i = m_ambinfo d i"
    if "l < m_lmpos d" "l \<noteq> f" "block_of d l \<noteq> COMMON_NULL" "block_of d l \<le> i" "i < block_end d (block_of d l)" for l i
    using ends [OF that(1,3)] that(5) by (simp add: info)
  have D: "block_end d (block_of d l) \<le> ?p \<or> block_end d' ?p \<le> block_of d l"
    if "l < m_lmpos d" "l \<noteq> f" "block_of d l \<noteq> COMMON_NULL" for l
    using ends [OF that(1,3)] by simp
  have ok: "amb_block (m_ambinfo d') ?p (m_ambinfo d' ?p)" "block_end d' ?p \<le> m_ambpos d'"
    using s by (auto simp: info lm amb_block_def amb_cell_def amb_slot_def block_end_def)
  have sz: "m_ambpos d \<le> m_ambpos d'" "m_ambpos d' \<le> m_ambsize d'" "?p \<noteq> COMMON_NULL"
    using d2(4,5) by (simp_all add: lm)
  have U: "wf_blocks d' \<and> (\<forall>l < m_lmpos d. l \<noteq> f \<longrightarrow> partners d' l = partners d l)"
  proof (rule wf_blocks_update [OF W(1) f lm(1)])
    show "m_ambinfo d' i = m_ambinfo d i"
      if "l < m_lmpos d" "l \<noteq> f" "block_of d l \<noteq> COMMON_NULL" "block_of d l \<le> i" "i < block_end d (block_of d l)" for l i
      by (rule S [OF that])
  qed (use blk sz ok D in \<open>simp_all add: blkf\<close>)
  have "wf_utils d'" using W(2) by (simp add: wf_utils_def util') (simp add: d'_def set_util_def e2)
  moreover have "partners d' f = {s}"
    using s sz by (auto simp: partners_def blkf info amb_cells_def amb_cell_def)
  ultimately show ?thesis using U lm by (simp add: amb_step_def)
qed

lemma scw_insert_ambsuffix_ok:
  assumes w: "wf_amb d" and f: "f < m_lmpos d" and s: "s < COMMON_NULL"
    and M: "M \<le> COMMON_NULL" and ins: "scw_insert_ambsuffix M d f s = Some (r, d')"
  shows "r = -1 \<or> (r = 0 \<and> amb_step d f d' \<and>
    (partners d' f = insert s (partners d f) \<or>
     (partners d' f = partners d f \<and> card (partners d f) > MAX_AMB_NUM)))"
proof -
  obtain e d1 where g: "ensure_util M d f = (e, d1)" by fastforce
  note G = ensure_util_ok [OF w f M g]
  let ?u = "util_of d1 f" and ?b = "block_of d f"
  note I = ins [unfolded scw_insert_ambsuffix_def g Let_def prod.case, folded util_of_def]
  show ?thesis
  proof (cases "e < 0")
    case True
    then show ?thesis using I by simp
  next
    case False
    then have u: "?u \<noteq> COMMON_NULL" and w1: "wf_amb d1" and e: "e = 1" using G(1,7) by auto
    have b1: "m_ambsuffix_pos (m_utilinfo d1 ?u) = ?b" "block_of d1 f = ?b"
      using G(6) [OF f] u by (simp_all add: block_of_def)
    have part1: "partners d1 l = partners d l" if "l < m_lmpos d" for l
      using G(3) G(6) [OF that] by (simp add: partners_def)
    have f1: "f < m_lmpos d1" using f G(2) by simp
    have lift: "amb_step d f d'" if "amb_step d1 f d'" using that part1 G(2) by (simp add: amb_step_def)
    note I = I [unfolded b1(1)]
    show ?thesis
    proof (cases "?b = COMMON_NULL")
      case True
      obtain rr d2 where g2: "(if m_ambpos d1 + 1 + 1 \<ge> m_ambsize d1
          then scw_resize_ambinfo M d1 (m_ambsize d1 * 2) else (1, d1)) = (rr, d2)" by fastforce
      note R = resize_amb_ok [OF g2]
      have pn: "m_ambpos d1 < COMMON_NULL" if "m_ambpos d1 + 1 < m_ambsize d2" "rr = 1"
        using that g2 w1 M by (auto simp: scw_resize_ambinfo_def resize_code_def realloc_ok_def wf_amb_def
            Let_def split: if_splits)
      show ?thesis
      proof (cases "rr = 1")
        case False
        then show ?thesis using I True g2 e by simp
      next
        case rr: True
        then have lt: "m_ambpos d1 + 1 < m_ambsize d2" and "r = 0" and
          d': "d' = (set_util (d2\<lparr>m_ambinfo := (m_ambinfo d2)(m_ambpos d2 := 1, m_ambpos d2 + 1 := s)\<rparr>) ?u
             (\<lambda>x. x\<lparr>m_ambsuffix_pos := m_ambpos d2\<rparr>))\<lparr>m_ambpos := m_ambpos d2 + 2\<rparr>"
          using I True g2 e R by (auto simp: c_assert_def split: if_splits)
        then show ?thesis
          using amb_new_block [OF w1 f1 u _ s R lt pn [OF lt rr]] b1 True lift part1 [OF f]
          by (simp add: partners_def)
      qed
    next
      case b: False
      let ?info = "m_ambinfo d1" and ?h = "m_ambinfo d1 ?b"
      have blk: "amb_block ?info ?b ?h" "block_end d1 ?b \<le> m_ambpos d1" "m_ambpos d1 \<le> m_ambsize d1"
        using w1 f1 b b1(2) by (auto simp: wf_amb_def wf_blocks_def)
      have pf: "partners d f = amb_set ?info ?b ?h" using b G(3) blk(1) by (simp add: partners_def amb_cells_set)
      have bn: "block_of d1 f \<noteq> COMMON_NULL" using b b1 by simp
      note RW = amb_rewrite_block [OF w1 f1 bn, unfolded b1(2)]
      have h: "0 < ?h" "amb_slot s ?h < ?h" using blk(1) by (simp_all add: amb_block_def amb_slot_lt)
      consider (free) "?info (?b + 1 + amb_slot s ?h) = COMMON_NULL"
        | (full) "?info (?b + 1 + amb_slot s ?h) \<noteq> COMMON_NULL" "length (amb_vals ?info ?b) > MAX_AMB_NUM"
        | (loop) "?info (?b + 1 + amb_slot s ?h) \<noteq> COMMON_NULL" "\<not> length (amb_vals ?info ?b) > MAX_AMB_NUM"
        by blast
      then show ?thesis
      proof cases
        case free
        have d': "r = 0" "d' = d1\<lparr>m_ambinfo := ?info(?b + 1 + amb_slot s ?h := s)\<rparr>"
          using I b free e h by (auto simp: c_assert_def)
        note P = amb_put [OF blk(1) s free]
        have hd: "m_ambinfo d' ?b = ?h" "block_end d' ?b = block_end d1 ?b"
          by (simp_all add: d' block_end_def)
        have "amb_step d1 f d' \<and> partners d' f = amb_set (m_ambinfo d') ?b (m_ambinfo d' ?b)"
          by (intro conjI RW) (use P hd blk h in \<open>auto simp: d' amb_frameI block_end_def\<close>)
        then show ?thesis using lift P(2) pf d' hd by simp
      next
        case full
        have d': "r = 0" "d' = d1" using I b full e h by (auto simp: c_assert_def)
        have "amb_step d1 f d1" using w1 by (simp add: amb_step_def wf_amb_def)
        moreover have "card (partners d f) = length (amb_vals ?info ?b)"
          using distinct_amb_vals [OF blk(1)] set_amb_vals [OF blk(1)] pf distinct_card by metis
        ultimately show ?thesis using d' lift part1 [OF f] full(2) by simp
      next
        case loop
        have last: "m_ambpos d1 = ?b + ?h + 1"
          and L: "amb_loop M d1 ?b ?h (?h + 1) (amb_vals ?info ?b @ [s]) = Some (r, d')"
          using I b loop e h by (auto simp: c_assert_def split: if_splits)
        have vals: "\<forall>v \<in> set (amb_vals ?info ?b @ [s]). v < COMMON_NULL"
          using set_amb_vals [OF blk(1)] s by (auto simp: amb_set_def)
        note A = amb_loop_ok [OF L _ vals last]
        show ?thesis
        proof (cases "r = 0")
          case True
          have R: "amb_rebuilt d1 ?b (amb_vals ?info ?b @ [s]) (?h + 1) d'" "amb_frame d1 d'"
            "\<forall>i < ?b. m_ambinfo d' i = ?info i" using A True by simp_all
          have "amb_step d1 f d' \<and> partners d' f = amb_set (m_ambinfo d') ?b (m_ambinfo d' ?b)"
            by (intro conjI RW) (use R last in \<open>auto simp: amb_rebuilt_def Let_def block_end_def\<close>)
          then show ?thesis using lift R(1) True set_amb_vals [OF blk(1)] pf
            by (auto simp: amb_rebuilt_def Let_def)
        qed (use A in simp)
      qed
    qed
  qed
qed

lemma amb_loop_size:
  "amb_loop M d sufpos hash newhash vals = Some (r, d') \<Longrightarrow>
   m_ambsize d \<le> m_ambsize d' \<and> m_ambsize d' \<le> max (m_ambsize d) M"
proof (induction M d sufpos hash newhash vals arbitrary: r d' rule: amb_loop.induct)
  case (1 M d sufpos hash newhash vals)
  obtain rr d1 where g: "(if m_ambpos d + newhash - hash \<ge> m_ambsize d
      then scw_resize_ambinfo M d (m_ambsize d * 2) else (1, d)) = (rr, d1)" by fastforce
  have R: "m_ambsize d \<le> m_ambsize d1 \<and> m_ambsize d1 \<le> max (m_ambsize d) M"
    using g by (auto simp: scw_resize_ambinfo_def resize_code_def realloc_ok_def Let_def split: if_splits)
  obtain b c where p: "amb_place (scw_init_ambsuffix (m_ambinfo d1) sufpos newhash) sufpos newhash vals = (b, c)"
    by fastforce
  note S = 1(2) [unfolded amb_loop.simps [of M d] Let_def g prod.case p]
  show ?case
  proof (cases "rr = 1 \<and> sufpos + newhash < m_ambsize d1 \<and> c")
    case True
    then have "amb_loop M (d1\<lparr>m_ambinfo := b\<rparr>) sufpos hash (newhash + 1) vals = Some (r, d')" using S by simp
    from 1(1) [OF refl g [symmetric] _ _ refl p [symmetric] _ this] True R show ?thesis by auto
  qed (use S R in \<open>auto split: if_splits\<close>)
qed

lemma amb_loop_total:
  assumes "m_ambpos d = sufpos + hash + 1" "hash < newhash" "sufpos + newhash \<le> m_ambsize d" "0 < m_ambsize d"
  shows "amb_loop M d sufpos hash newhash vals \<noteq> None"
  using assms
proof (induction M d sufpos hash newhash vals rule: amb_loop.induct)
  case (1 M d sufpos hash newhash vals)
  obtain rr d1 where g: "(if m_ambpos d + newhash - hash \<ge> m_ambsize d
      then scw_resize_ambinfo M d (m_ambsize d * 2) else (1, d)) = (rr, d1)" by fastforce
  note R = resize_amb_ok [OF g]
  have lt: "rr = 1 \<Longrightarrow> sufpos + newhash + 1 \<le> m_ambsize d1"
    using g 1(2-) by (auto simp: scw_resize_ambinfo_def resize_code_def Let_def split: if_splits)
  obtain b c where p: "amb_place (scw_init_ambsuffix (m_ambinfo d1) sufpos newhash) sufpos newhash vals = (b, c)"
    by fastforce
  show ?case
  proof (cases "rr = 1 \<and> c")
    case True
    then have "amb_loop M (d1\<lparr>m_ambinfo := b\<rparr>) sufpos hash (newhash + 1) vals \<noteq> None"
      using 1(1) [OF refl g [symmetric] _ _ refl p [symmetric]] 1(2-) R(3) lt by simp
    then show ?thesis using True lt by (simp add: amb_loop.simps [of M d] g p)
  next
    case False
    then show ?thesis using lt by (auto simp: amb_loop.simps [of M d] g p)
  qed
qed

text \<open>A value placed twice always conflicts: the loop ends by running out of memory.\<close>

lemma amb_loop_twice:
  assumes "amb_loop M d sufpos hash newhash (vs @ [s]) = Some (r, d')" "0 < newhash"
    "\<forall>v \<in> set vs. v < COMMON_NULL" "s \<in> set vs"
  shows "r = -1"
  using assms
proof (induction M d sufpos hash newhash "vs @ [s]" arbitrary: r d' rule: amb_loop.induct)
  case (1 M d sufpos hash newhash)
  obtain rr d1 where g: "(if m_ambpos d + newhash - hash \<ge> m_ambsize d
      then scw_resize_ambinfo M d (m_ambsize d * 2) else (1, d)) = (rr, d1)" by fastforce
  obtain b c where p: "amb_place (scw_init_ambsuffix (m_ambinfo d1) sufpos newhash) sufpos newhash (vs @ [s]) = (b, c)"
    by fastforce
  have c: c
    using amb_place_twice [OF conjunct1 [OF amb_init [OF 1(3)]] 1(4), of s "m_ambinfo d1" sufpos] 1(4,5) p by auto
  note S = 1(2) [unfolded amb_loop.simps [of M d] Let_def g prod.case p]
  show ?case
  proof (cases "rr = 1 \<and> sufpos + newhash < m_ambsize d1")
    case True
    then have "amb_loop M (d1\<lparr>m_ambinfo := b\<rparr>) sufpos hash (newhash + 1) (vs @ [s]) = Some (r, d')"
      using S c by simp
    from 1(1) [OF refl g [symmetric] _ _ refl p [symmetric] c this] True 1(4,5) show ?thesis by simp
  qed (use S in \<open>auto split: if_splits\<close>)
qed

lemma scw_insert_ambsuffix_size:
  assumes "wf_amb d" "f < m_lmpos d" "M \<le> COMMON_NULL" "scw_insert_ambsuffix M d f s = Some (r, d')"
  shows "2 \<le> m_ambsize d' \<and> m_ambsize d' \<le> COMMON_NULL"
proof -
  obtain e d1 where g: "ensure_util M d f = (e, d1)" by fastforce
  have s1: "m_ambsize d1 = m_ambsize d" by (rule ensure_util_ok(5) [OF assms(1-3) g])
  have "m_ambsize d \<le> m_ambsize d' \<and> m_ambsize d' \<le> max (m_ambsize d) M"
    using assms(4) s1 unfolding scw_insert_ambsuffix_def g Let_def prod.case
    by (auto simp: set_util_def c_assert_def scw_resize_ambinfo_def resize_code_def realloc_ok_def Let_def
        dest: amb_loop_size split: if_splits)
  then show ?thesis using assms(1,3) by (auto simp: wf_amb_def)
qed

lemma scw_insert_ambsuffix_total:
  assumes w: "wf_amb d" and f: "f < m_lmpos d" and M: "M \<le> COMMON_NULL"
    and last: "block_of d f = COMMON_NULL \<or> block_end d (block_of d f) = m_ambpos d"
  shows "scw_insert_ambsuffix M d f s \<noteq> None"
proof -
  obtain e d1 where g: "ensure_util M d f = (e, d1)" by fastforce
  note G = ensure_util_ok [OF w f M g]
  show ?thesis
  proof (cases "e < 0")
    case True
    then show ?thesis by (simp add: scw_insert_ambsuffix_def g)
  next
    case False
    then have w1: "wf_amb d1" and u: "util_of d1 f \<noteq> COMMON_NULL" using G(1,7) by auto
    have b: "m_ambsuffix_pos (m_utilinfo d1 (m_utilinfo_pos (m_lemmalist d1 f))) = block_of d f"
      using G(6) [OF f] u by (simp add: block_of_def util_of_def)
    show ?thesis
    proof (cases "block_of d f = COMMON_NULL")
      case True
      have "m_ambpos d1 \<le> m_ambsize d1" "2 \<le> m_ambsize d1" using w1 by (simp_all add: wf_amb_def wf_blocks_def)
      then show ?thesis using False True b
        by (auto simp: scw_insert_ambsuffix_def g c_assert_def scw_resize_ambinfo_def resize_code_def Let_def
            split: if_splits)
    next
      case bn: False
      have blk: "0 < m_ambinfo d1 (block_of d f)" "m_ambpos d1 = block_of d f + m_ambinfo d1 (block_of d f) + 1"
        "m_ambpos d1 \<le> m_ambsize d1"
        using w1 f bn G(2) G(6) [OF f] last G(3,4)
        by (auto simp: wf_amb_def wf_blocks_def amb_block_def block_end_def)
      then have "amb_loop M d1 (block_of d f) (m_ambinfo d1 (block_of d f)) (m_ambinfo d1 (block_of d f) + 1) vals \<noteq> None" for vals
        by (intro amb_loop_total) auto
      then show ?thesis using False bn b blk
        by (auto simp: scw_insert_ambsuffix_def g Let_def c_assert_def)
    qed
  qed
qed

lemma scw_seek_ambfrag_partners:
  assumes w: "wf_amb d" and f: "f < m_lmpos d" and s: "s < COMMON_NULL"
  shows "scw_seek_ambfrag d (m_lemmalist d f) sl s =
    Some (s \<in> partners d f \<or> (m_wdtype d AND SCW_WD_CH \<noteq> 0 \<and>
      IS_LOC (m_property (m_lemmalist d f)) \<and> IS_LOC_FOLLOW (m_property sl)))"
proof (cases "block_of d f = COMMON_NULL")
  case True
  then show ?thesis
    by (auto simp: scw_seek_ambfrag_def block_of_def util_of_def partners_def Let_def split: if_splits)
next
  case False
  have blk: "amb_block (m_ambinfo d) (block_of d f) (m_ambinfo d (block_of d f))"
    using w f False by (simp add: wf_amb_def wf_blocks_def)
  then have "0 < m_ambinfo d (block_of d f)" by (simp add: amb_block_def)
  then show ?thesis using False s partners_set [OF False blk]
    by (auto simp: scw_seek_ambfrag_def block_of_def util_of_def amb_set_def amb_cell_def Let_def
        split: if_splits)
qed

subsection \<open>Several insertions\<close>

text \<open>Insertions one after the other that all succeed.\<close>

fun insert_pairs :: "nat \<Rightarrow> scw_worddict \<Rightarrow> (nat \<times> nat) list \<Rightarrow> scw_worddict option" where
  "insert_pairs M d [] = Some d"
| "insert_pairs M d ((f, s) # ps) = do {
     (r, d1) \<leftarrow> scw_insert_ambsuffix M d f s;
     if r < 0 then None else insert_pairs M d1 ps }"

lemma amb_frame_keeps: "amb_frame d d' \<Longrightarrow> m_wdtype d' = m_wdtype d \<and> m_lemmalist d' = m_lemmalist d"
  by (cases d; cases d') (simp add: amb_frame_def)

lemma amb_loop_frame: "amb_loop M d sufpos hash newhash vals = Some (r, d') \<Longrightarrow> amb_frame d d'"
proof (induction M d sufpos hash newhash vals arbitrary: r d' rule: amb_loop.induct)
  case (1 M d sufpos hash newhash vals)
  obtain rr d1 where g: "(if m_ambpos d + newhash - hash \<ge> m_ambsize d
      then scw_resize_ambinfo M d (m_ambsize d * 2) else (1, d)) = (rr, d1)" by fastforce
  obtain b c where p: "amb_place (scw_init_ambsuffix (m_ambinfo d1) sufpos newhash) sufpos newhash vals = (b, c)"
    by fastforce
  note R = resize_amb_ok(1) [OF g]
  note S = 1(2) [unfolded amb_loop.simps [of M d] Let_def g prod.case p]
  show ?case
  proof (cases "rr = 1 \<and> sufpos + newhash < m_ambsize d1 \<and> c")
    case True
    then have "amb_loop M (d1\<lparr>m_ambinfo := b\<rparr>) sufpos hash (newhash + 1) vals = Some (r, d')" using S by simp
    from 1(1) [OF refl g [symmetric] _ _ refl p [symmetric] _ this] True
    have "amb_frame (d1\<lparr>m_ambinfo := b\<rparr>) d'" by simp
    then show ?thesis using amb_frame_trans [OF amb_frame_trans [OF R amb_frameI(4)]] by blast
  next
    case False
    then show ?thesis using S amb_frame_trans [OF R amb_frameI(5)] R by (auto split: if_splits)
  qed
qed

lemma insert_keeps:
  assumes "scw_insert_ambsuffix M d f s = Some (r, d')"
  shows "m_wdtype d' = m_wdtype d \<and> m_property (m_lemmalist d' l) = m_property (m_lemmalist d l)"
proof -
  obtain e d1 where g: "ensure_util M d f = (e, d1)" by fastforce
  have d1: "m_wdtype d1 = m_wdtype d \<and> m_property (m_lemmalist d1 l) = m_property (m_lemmalist d l)"
    using g by (auto simp: ensure_util_def Let_def scw_resize_utilinfo_def set_lemma_def set_util_def split: if_splits)
  have "m_wdtype d' = m_wdtype d1 \<and> m_lemmalist d' = m_lemmalist d1"
    using assms unfolding scw_insert_ambsuffix_def g Let_def prod.case
    by (auto simp: set_util_def c_assert_def scw_resize_ambinfo_def Let_def dest!: amb_frame_keeps [OF amb_loop_frame] split: if_splits)
  then show ?thesis using d1 by simp
qed

lemma insert_pairs_keeps:
  "insert_pairs M d ps = Some d' \<Longrightarrow> m_wdtype d' = m_wdtype d \<and> m_property (m_lemmalist d' l) = m_property (m_lemmalist d l)"
proof (induction ps arbitrary: d)
  case (Cons p ps)
  then show ?case by (cases p) (auto dest!: insert_keeps [where l = l] split: Option.bind_splits if_splits)
qed simp

lemma insert_pairs_ok:
  assumes "wf_amb d" "M \<le> COMMON_NULL" "\<forall>(f, s) \<in> set ps. f < m_lmpos d \<and> s < COMMON_NULL"
    "\<forall>f < m_lmpos d. finite (partners d f) \<and> card (partners d f \<union> {s. (f, s) \<in> set ps}) \<le> MAX_AMB_NUM" "insert_pairs M d ps = Some d'"
  shows "wf_amb d' \<and> m_lmpos d' = m_lmpos d \<and> (\<forall>l < m_lmpos d. partners d' l = partners d l \<union> {s. (l, s) \<in> set ps})"
  using assms
proof (induction ps arbitrary: d)
  case (Cons p ps)
  obtain f s where p: "p = (f, s)" by fastforce
  obtain r d1 where i: "scw_insert_ambsuffix M d f s = Some (r, d1)" "0 \<le> r" "insert_pairs M d1 ps = Some d'"
    using Cons.prems(5) p by (auto split: Option.bind_splits if_splits)
  have f: "f < m_lmpos d" "s < COMMON_NULL" using Cons.prems(3) p by auto
  have fin: "finite {s. (f, s) \<in> set ps}" for f
    by (rule finite_subset [of _ "snd ` set ps"]) force+
  have "card (partners d f) \<le> card (partners d f \<union> {s. (f, s) \<in> set (p # ps)})"
    using Cons.prems(4) f(1) fin [of f] p by (intro card_mono) (auto simp: Collect_disj_eq)
  then have small: "\<not> MAX_AMB_NUM < card (partners d f)" using Cons.prems(4) f(1) by fastforce
  have step: "amb_step d f d1" "partners d1 f = insert s (partners d f)"
    using scw_insert_ambsuffix_ok [OF Cons.prems(1) f Cons.prems(2) i(1)] i(2) small by auto
  have w1: "wf_amb d1" using step(1) scw_insert_ambsuffix_size [OF Cons.prems(1) f(1) Cons.prems(2) i(1)]
    by (simp add: amb_step_def wf_amb_def)
  have part: "partners d1 l = partners d l \<union> (if l = f then {s} else {})" if "l < m_lmpos d" for l
    using step that by (auto simp: amb_step_def)
  have un: "partners d1 l \<union> {s. (l, s) \<in> set ps} = partners d l \<union> {s. (l, s) \<in> set (p # ps)}" if "l < m_lmpos d" for l
    using part [OF that] p by auto
  have lm: "m_lmpos d1 = m_lmpos d" using step(1) by (simp add: amb_step_def)
  have pre: "\<forall>l < m_lmpos d1. finite (partners d1 l) \<and> card (partners d1 l \<union> {s. (l, s) \<in> set ps}) \<le> MAX_AMB_NUM"
    using Cons.prems(4) part un lm by auto
  from Cons.IH [OF w1 Cons.prems(2) _ pre i(3)] Cons.prems(3) un lm show ?case by auto
qed simp

subsection \<open>A sample table\<close>

text \<open>A Chinese dictionary with one lemma and no tables, and the same with one suffix.\<close>

definition amb_dict :: scw_worddict where
  "amb_dict = sample_dict\<lparr>m_lmpos := 1, m_wdtype := SCW_WD_CH,
     m_lemmalist := (\<lambda>_. zero_lemma\<lparr>m_utilinfo_pos := COMMON_NULL\<rparr>)\<rparr>"

definition amb_dict2 :: "nat \<Rightarrow> scw_worddict" where
  "amb_dict2 s = amb_dict\<lparr>m_lemmalist := (\<lambda>_. zero_lemma\<lparr>m_utilinfo_pos := 0\<rparr>), m_utilipos := 1,
     m_utilinfo := (\<lambda>_. \<lparr>m_ambsuffix_pos = 0, m_cnameprob_pos = COMMON_NULL, m_fnameprob_pos = COMMON_NULL\<rparr>),
     m_ambinfo := (\<lambda>_. 0)(0 := 1, 1 := s), m_ambpos := 2\<rparr>"

lemma amb_dict_fields:
  "m_lmpos amb_dict = 1" "m_wdtype amb_dict = SCW_WD_CH" "m_utilipos amb_dict = 0" "m_utilisize amb_dict = 4000"
  "m_ambpos amb_dict = 0" "m_ambsize amb_dict = 4000" "m_pbpos amb_dict = 0" "m_pbsize amb_dict = 4000"
  "m_lemmalist amb_dict = (\<lambda>_. zero_lemma\<lparr>m_utilinfo_pos := COMMON_NULL\<rparr>)"
  by (simp_all add: amb_dict_def sample_dict_eval)

lemma amb_dict_wf: "wf_amb amb_dict"
  by (simp add: wf_amb_def wf_blocks_def wf_utils_def block_of_def util_of_def amb_dict_fields null_defs)

lemma amb_dict2_ok:
  assumes "s < COMMON_NULL"
  shows "wf_amb (amb_dict2 s)" "partners (amb_dict2 s) 0 = {s}" "m_lmpos (amb_dict2 s) = 1"
    "block_of (amb_dict2 s) 0 = 0" "block_end (amb_dict2 s) 0 = m_ambpos (amb_dict2 s)"
proof -
  note F = amb_dict2_def amb_dict_fields block_of_def util_of_def block_end_def
  show b: "block_of (amb_dict2 s) 0 = 0" by (simp add: F null_defs)
  show "m_lmpos (amb_dict2 s) = 1" "block_end (amb_dict2 s) 0 = m_ambpos (amb_dict2 s)" by (simp_all add: F)
  show "partners (amb_dict2 s) 0 = {s}"
    using assms by (auto simp: partners_def b null_defs amb_cells_def amb_cell_def) (simp_all add: F)
  show "wf_amb (amb_dict2 s)"
    using assms by (simp add: wf_amb_def wf_blocks_def wf_utils_def F amb_block_def amb_cell_def amb_slot_def null_defs)
qed

text \<open>The second value does not fit beside the first one, so the block is rebuilt with two slots.\<close>

lemma amb_dict_first:
  obtains d1 where "scw_insert_ambsuffix 1000000 amb_dict 0 7 = Some (0, d1)" "m_utilinfo_pos (m_lemmalist d1 0) = 0"
    "m_ambsuffix_pos (m_utilinfo d1 0) = 0" "m_ambinfo d1 0 = 1" "m_ambinfo d1 1 = 7" "m_ambpos d1 = 2" "m_ambsize d1 = 4000"
proof -
  define d0 where "d0 = (set_lemma (set_util amb_dict 0 (\<lambda>x. scw_init_utilinfo x (m_wdtype amb_dict))) 0
    (\<lambda>lm. lm\<lparr>m_utilinfo_pos := 0\<rparr>))\<lparr>m_utilipos := 1\<rparr>"
  have e: "ensure_util 1000000 amb_dict 0 = (1, d0)" by (simp add: ensure_util_def amb_dict_fields d0_def)
  have f: "m_utilinfo_pos (m_lemmalist d0 0) = 0" "m_ambsuffix_pos (m_utilinfo d0 0) = COMMON_NULL"
    "m_ambpos d0 = 0" "m_ambsize d0 = 4000"
    by (simp_all add: d0_def set_lemma_def set_util_def scw_init_utilinfo_def Let_def amb_dict_fields)
  show thesis
    by (rule that [of "(set_util (d0\<lparr>m_ambinfo := (m_ambinfo d0)(0 := 1, 1 := 7)\<rparr>) 0
        (\<lambda>x. x\<lparr>m_ambsuffix_pos := 0\<rparr>))\<lparr>m_ambpos := 2\<rparr>"])
      (simp_all add: scw_insert_ambsuffix_def e f set_util_def c_assert_def numeral_2_eq_2)
qed

lemma amb_dict_pairs: "\<exists>d'. insert_pairs 1000000 amb_dict [(0, 7), (0, 8)] = Some d'"
proof -
  obtain d1 where d1: "scw_insert_ambsuffix 1000000 amb_dict 0 7 = Some (0, d1)" "m_utilinfo_pos (m_lemmalist d1 0) = 0"
    "m_ambsuffix_pos (m_utilinfo d1 0) = 0" "m_ambinfo d1 0 = 1" "m_ambinfo d1 1 = 7" "m_ambpos d1 = 2" "m_ambsize d1 = 4000"
    by (rule amb_dict_first)
  have v: "amb_vals (m_ambinfo d1) 0 = [7]" using d1(4,5) by (simp add: amb_vals_def get_list_def null_defs)
  have e: "ensure_util 1000000 d1 0 = (1, d1)" by (simp add: ensure_util_def d1 null_defs)
  have "\<exists>d2. amb_loop 1000000 d1 0 1 2 [7, 8] = Some (0, d2)"
    by (subst amb_loop.simps) (simp add: d1 amb_slot_def scw_init_ambsuffix_def fill_def null_defs)
  then obtain d2 where l: "amb_loop 1000000 d1 0 1 2 [7, 8] = Some (0, d2)" ..
  have "scw_insert_ambsuffix 1000000 d1 0 8 = Some (0, d2)"
    using l d1(5) [unfolded One_nat_def] by (simp add: scw_insert_ambsuffix_def e d1(1,2,3,4,6,7) v amb_slot_def MAX_AMB_NUM_def c_assert_def null_defs numeral_2_eq_2 Let_def)
  then show ?thesis using d1(1) by simp
qed

subsection \<open>Properties\<close>

text \<open>
  C13 Ambiguity suffixes are a set per lemma. Inserting the suffix \<open>s\<close> for \<open>f\<close> keeps the
  tables well-formed and every other lemma's suffixes; on success \<open>s\<close> is recorded, unless the
  lemma already has more than \<open>MAX_AMB_NUM\<close> suffixes and \<open>s\<close> falls on a used slot: then it is
  dropped without an error. It never fails an assertion for a lemma without a block or with
  the last block.
\<close>

theorem scw_insert_ambsuffix_spec:
  assumes "wf_amb d" "f < m_lmpos d" "s < COMMON_NULL" "M \<le> COMMON_NULL"
    and "block_of d f = COMMON_NULL \<or> block_end d (block_of d f) = m_ambpos d"
  shows "\<exists>r d'. scw_insert_ambsuffix M d f s = Some (r, d') \<and>
    (r = -1 \<or> r = 0 \<and> wf_amb d' \<and> m_lmpos d' = m_lmpos d \<and>
      (\<forall>l < m_lmpos d. l \<noteq> f \<longrightarrow> partners d' l = partners d l) \<and>
      (partners d' f = insert s (partners d f) \<or>
       partners d' f = partners d f \<and> MAX_AMB_NUM < card (partners d f)))"
proof -
  obtain r d' where i: "scw_insert_ambsuffix M d f s = Some (r, d')"
    using scw_insert_ambsuffix_total [OF assms(1,2,4,5), of s] by auto
  show ?thesis
    using scw_insert_ambsuffix_ok [OF assms(1-4) i] scw_insert_ambsuffix_size [OF assms(1,2,4) i] i
    by (auto simp: amb_step_def wf_amb_def)
qed

theorem scw_insert_ambsuffix_spec_witness:
  "\<exists>r d'. scw_insert_ambsuffix 1000000 amb_dict 0 7 = Some (r, d') \<and> (r = -1 \<or> r = 0 \<and> wf_amb d')"
  using scw_insert_ambsuffix_spec [OF amb_dict_wf, of 0 7 1000000]
  by (auto simp: amb_dict_fields null_defs block_of_def util_of_def)


text \<open>
  C14 The lookup finds exactly what was inserted. In a dictionary without tables, insert pairs of
  lemmas one after the other, at most \<open>MAX_AMB_NUM\<close> for each first lemma, all with success. Then
  \<open>scw_seek_ambfrag\<close> answers true for exactly the inserted pairs, whatever blocks were enlarged
  and rehashed on the way; besides, in a Chinese dictionary it answers true for every pair of a
  place name and a lemma that may follow one, inserted or not.
\<close>

theorem scw_seek_ambfrag_spec:
  assumes "wf_amb d" "\<forall>l < m_lmpos d. block_of d l = COMMON_NULL" "M \<le> COMMON_NULL"
    and "\<forall>(f, s) \<in> set ps. f < m_lmpos d \<and> s < COMMON_NULL" "\<forall>f. card {s. (f, s) \<in> set ps} \<le> MAX_AMB_NUM"
    and "insert_pairs M d ps = Some d'" "f < m_lmpos d" "s < COMMON_NULL"
  shows "scw_seek_ambfrag d' (m_lemmalist d' f) sl s = Some ((f, s) \<in> set ps \<or>
    m_wdtype d AND SCW_WD_CH \<noteq> 0 \<and> IS_LOC (m_property (m_lemmalist d f)) \<and> IS_LOC_FOLLOW (m_property sl))"
proof -
  note I = insert_pairs_ok [OF assms(1,3) assms(4) _ assms(6)]
  have "partners d l = {}" if "l < m_lmpos d" for l using assms(2) that by (simp add: partners_def)
  then have P: "wf_amb d' \<and> m_lmpos d' = m_lmpos d \<and> (\<forall>l < m_lmpos d. partners d' l = {s. (l, s) \<in> set ps})"
    using I assms(5) by (simp add: Collect_disj_eq)
  then show ?thesis
    using scw_seek_ambfrag_partners [of d' f s sl] insert_pairs_keeps [OF assms(6)] assms(7,8) by simp
qed

theorem scw_seek_ambfrag_spec_witness:
  "\<exists>d'. insert_pairs 1000000 amb_dict [(0, 7), (0, 8)] = Some d' \<and>
    scw_seek_ambfrag d' (m_lemmalist d' 0) zero_lemma 8 = Some True \<and> scw_seek_ambfrag d' (m_lemmalist d' 0) zero_lemma 9 = Some False"
proof -
  obtain d' where d': "insert_pairs 1000000 amb_dict [(0, 7), (0, 8)] = Some d'" using amb_dict_pairs by blast
  have p: "\<forall>(f, s) \<in> set [(0, 7), (0, 8)]. f < m_lmpos amb_dict \<and> s < COMMON_NULL" by (simp add: amb_dict_fields null_defs)
  have c: "\<forall>f. card {s. (f, s) \<in> set [(0 :: nat, 7 :: nat), (0, 8)]} \<le> MAX_AMB_NUM"
  proof
    fix f :: nat
    have "{s. (f, s) \<in> set [(0 :: nat, 7 :: nat), (0, 8)]} \<subseteq> {7, 8}" by auto
    then have "card {s. (f, s) \<in> set [(0 :: nat, 7 :: nat), (0, 8)]} \<le> card {7 :: nat, 8}" by (intro card_mono) simp_all
    then show "card {s. (f, s) \<in> set [(0 :: nat, 7 :: nat), (0, 8)]} \<le> MAX_AMB_NUM" by (simp add: MAX_AMB_NUM_def)
  qed
  have t: "\<forall>l < m_lmpos amb_dict. block_of amb_dict l = COMMON_NULL" by (simp add: block_of_def util_of_def amb_dict_fields)
  note L = scw_seek_ambfrag_spec [OF amb_dict_wf t _ p c d', where f = 0 and sl = zero_lemma]
  have "\<not> IS_LOC (m_property (m_lemmalist amb_dict 0))"
    by (simp add: amb_dict_fields zero_lemma_def INIT_PROPERTY_def IS_LOC_def)
  then show ?thesis using d' L [of 9] L [of 8] by (simp add: amb_dict_fields null_defs)
qed


text \<open>
  C15 Recording the same suffix twice fails: the code looks for a hash size that separates the
  value from itself and stops only when the memory is refused, with -1.
\<close>

theorem scw_insert_ambsuffix_twice:
  assumes "wf_amb d" "f < m_lmpos d" "M \<le> COMMON_NULL" "s \<in> partners d f"
    and "card (partners d f) \<le> MAX_AMB_NUM" "block_end d (block_of d f) = m_ambpos d"
  shows "\<exists>d'. scw_insert_ambsuffix M d f s = Some (-1, d')"
proof -
  obtain e d1 where g: "ensure_util M d f = (e, d1)" by fastforce
  note G = ensure_util_ok [OF assms(1-3) g]
  obtain r d' where i: "scw_insert_ambsuffix M d f s = Some (r, d')"
    using scw_insert_ambsuffix_total [OF assms(1-3), of s] assms(6) by auto
  have "r = -1"
  proof (cases "e < 0")
    case True
    then show ?thesis using i by (simp add: scw_insert_ambsuffix_def g)
  next
    case False
    let ?b = "block_of d f" and ?info = "m_ambinfo d1"
    have bn: "?b \<noteq> COMMON_NULL" using assms(4) by (auto simp: partners_def)
    have b: "m_ambsuffix_pos (m_utilinfo d1 (m_utilinfo_pos (m_lemmalist d1 f))) = ?b"
    proof -
      have "util_of d1 f \<noteq> COMMON_NULL" using G(1,7) False by auto
      then show ?thesis using G(6) [OF assms(2)] by (simp add: block_of_def util_of_def)
    qed
    have blk: "amb_block ?info ?b (?info ?b)" using assms(1,2) bn G(3) by (simp add: wf_amb_def wf_blocks_def)
    have pf: "partners d f = set (amb_vals ?info ?b)"
      using bn G(3) set_amb_vals [OF blk] amb_cells_set [OF blk] by (simp add: partners_def)
    have s: "s < COMMON_NULL" "?info (?b + 1 + amb_slot s (?info ?b)) = s"
      using assms(4) bn G(3) amb_cells_set [OF blk] by (simp_all add: partners_def amb_set_def amb_cell_def)
    have "length (amb_vals ?info ?b) \<le> MAX_AMB_NUM"
      using assms(5) distinct_card [OF distinct_amb_vals [OF blk]] pf by simp
    then have "amb_loop M d1 ?b (?info ?b) (?info ?b + 1) (amb_vals ?info ?b @ [s]) = Some (r, d')"
      using i False bn s by (auto simp: scw_insert_ambsuffix_def g b Let_def c_assert_def split: if_splits)
    then show ?thesis
      by (rule amb_loop_twice) (use pf assms(4) set_amb_vals [OF blk] in \<open>auto simp: amb_set_def\<close>)
  qed
  then show ?thesis using i by simp
qed

theorem scw_insert_ambsuffix_twice_witness:
  "\<exists>d'. scw_insert_ambsuffix 1000000 (amb_dict2 7) 0 7 = Some (-1, d')"
  by (rule scw_insert_ambsuffix_twice) (simp_all add: amb_dict2_ok null_defs MAX_AMB_NUM_def)


text \<open>
  Name probabilities read back: after \<open>scw_add_lmprob\<close> has stored them for a lemma,
  \<open>scw_get_nameprob\<close> finds them under the same type.
\<close>

theorem lmprob_roundtrip:
  assumes "wf_amb d" "l < m_lmpos d" "M \<le> COMMON_NULL" "m_pbpos d < COMMON_NULL"
    and "scw_add_lmprob M d l prob ty = Some (0, d')"
  shows "\<exists>pos. scw_get_nameprob d' (m_lemmalist d' l) ty = Some pos \<and>
    get_list (m_probbuf d') pos (length prob) = prob"
proof -
  obtain e d1 where g: "ensure_util M d l = (e, d1)" by fastforce
  note G = ensure_util_ok [OF assms(1-3) g]
  have pb: "m_pbpos d1 = m_pbpos d"
    using g by (auto simp: ensure_util_def Let_def scw_resize_utilinfo_def set_lemma_def set_util_def split: if_splits)
  note I = assms(5) [unfolded scw_add_lmprob_def g Let_def prod.case]
  have e: "\<not> e < 0" using I by auto
  then have u: "m_utilinfo_pos (m_lemmalist d1 l) \<noteq> COMMON_NULL" using G(1,7) by (auto simp: util_of_def)
  obtain pos where pos: "prob_pos ty (m_utilinfo d1 (m_utilinfo_pos (m_lemmalist d1 l))) = Some pos"
    using I e by (auto simp: bind_eq_Some_conv)
  show ?thesis
  proof (cases "pos = COMMON_NULL")
    case False
    then show ?thesis using I e pos u by (auto simp: c_assert_def scw_get_nameprob_def split: if_splits)
  next
    case True
    have ty: "ty = DATA_CNAME \<or> ty = DATA_JNAME \<or> ty = DATA_FNAME"
      using pos by (auto simp: prob_pos_def split: if_splits)
    obtain rr d2 where r: "(if m_pbpos d1 + length prob \<ge> m_pbsize d1
        then scw_resize_probbuf M d1 (m_pbsize d1 * 2) else (1, d1)) = (rr, d2)" by fastforce
    have d2: "m_lemmalist d2 = m_lemmalist d1" "m_pbpos d2 = m_pbpos d1"
      using r by (auto simp: scw_resize_probbuf_def Let_def split: if_splits)
    have "d' = (set_util (d2\<lparr>m_probbuf := put_list (m_probbuf d2) (m_pbpos d2) prob\<rparr>)
        (m_utilinfo_pos (m_lemmalist d1 l)) (set_prob_pos ty (m_pbpos d2)))\<lparr>m_pbpos := m_pbpos d2 + length prob\<rparr>"
      using I e pos True r by (auto simp: c_assert_def split: if_splits)
    then show ?thesis using ty u d2 pb assms(4)
      by (auto simp: scw_get_nameprob_def set_util_def prob_pos_def set_prob_pos_def Let_def
          DATA_CNAME_def DATA_FNAME_def DATA_JNAME_def)
  qed
qed

theorem lmprob_roundtrip_witness:
  "case scw_add_lmprob 1000000 amb_dict 0 [5, 6] DATA_CNAME of None \<Rightarrow> False
   | Some (r, d') \<Rightarrow> r = 0 \<and> scw_get_nameprob d' (m_lemmalist d' 0) DATA_CNAME \<noteq> None"
proof -
  have "\<exists>d'. scw_add_lmprob 1000000 amb_dict 0 [5, 6] DATA_CNAME = Some (0, d')"
    by (simp add: scw_add_lmprob_def ensure_util_def amb_dict_fields set_util_def set_lemma_def
        scw_init_utilinfo_def prob_pos_def DATA_CNAME_def SCW_WD_CH_def Let_def)
  then obtain d' where d': "scw_add_lmprob 1000000 amb_dict 0 [5, 6] DATA_CNAME = Some (0, d')" ..
  show ?thesis
    using lmprob_roundtrip [OF amb_dict_wf _ _ _ d'] d' by (auto simp: amb_dict_fields null_defs)
qed


end
