(* ===== verification/Judge.thy ===== *)
theory Judge
  imports AmbTable "HOL-Library.Log_Nat"
begin

text \<open>
  The choice between two segmentations of the same stretch,
  \<open>scw_judge_backtrack_gbk_chinese\<close> (\<open>chinese_gbk.cpp\<close>). The lemmas \<open>f\<close>, \<open>ft\<close> (first and
  following) compete with \<open>s\<close>, \<open>st\<close>; 1 selects the first pair, 0 the second.

  The code compares weights as \<open>double\<close>. A \<open>double\<close> is its value, a rational, and every
  operation rounds its exact result with \<open>dbl\<close>: 53 significant bits, to nearest, ties to even.
  The weights are at most 21 bits wide and the lengths at most 8, so that there is no overflow
  and no denormal number.
\<close>

subsection \<open>Rounding to 53 bits\<close>

definition rne :: "rat \<Rightarrow> int" where
  "rne y = (let f = \<lfloor>y\<rfloor>; r = y - of_int f in
     if r < 1 / 2 then f else if r > 1 / 2 then f + 1 else if even f then f else f + 1)"

definition ulp :: "int \<Rightarrow> rat" where
  "ulp e = (if e \<ge> 0 then 2 ^ nat e else 1 / 2 ^ nat (- e))"

text \<open>The exponent of a positive rational: the greatest power of two below it.\<close>

definition dbl_exp :: "rat \<Rightarrow> int" where
  "dbl_exp x = (let (a, b) = quotient_of x; k = int (floorlog 2 (nat a)) - int (floorlog 2 (nat b)) in
     if x \<ge> ulp k then k else k - 1)"

definition dbl :: "rat \<Rightarrow> rat" where
  "dbl x = (if x = 0 then 0 else let u = ulp (dbl_exp \<bar>x\<bar> - 52) in of_int (rne (x / u)) * u)"

lemma rne_int [simp]: "rne (of_int n) = n"
  by (simp add: rne_def)

lemma dbl_exp_int:
  assumes "0 < n" "n < 2 ^ 53"
  shows "dbl_exp (of_int n) \<le> 52"
proof -
  have "nat n < 2 ^ 53" using assms by (simp add: nat_less_iff)
  then have "floorlog 2 (nat n) \<le> 53" by (intro floorlog_leI) simp_all
  moreover have "floorlog 2 1 = 1" by (simp add: floorlog_def)
  ultimately show ?thesis
    using assms by (auto simp: dbl_exp_def Let_def ulp_def quotient_of_int)
qed

text \<open>Integers below \<open>2 ^ 53\<close> are exact.\<close>

lemma dbl_of_int:
  assumes "\<bar>n\<bar> < 2 ^ 53"
  shows "dbl (of_int n) = of_int n"
proof (cases "n = 0")
  case False
  define e where "e = dbl_exp \<bar>of_int n\<bar>"
  have "e \<le> 52" using dbl_exp_int [of "\<bar>n\<bar>"] assms False by (simp add: e_def)
  define k where "k = nat (52 - e)"
  have k: "ulp (e - 52) = 1 / 2 ^ k"
    using \<open>e \<le> 52\<close> by (simp add: ulp_def k_def)
  have "of_int n / (1 / 2 ^ k) = (of_int (n * 2 ^ k) :: rat)" by simp
  then have "rne (of_int n / (1 / 2 ^ k)) = n * 2 ^ k" by (simp only: rne_int)
  then show ?thesis
    using False unfolding dbl_def Let_def e_def [symmetric] k by simp
qed (simp add: dbl_def)

lemma dbl_of_nat: "n < 2 ^ 53 \<Longrightarrow> dbl (of_nat n) = of_nat n"
  using dbl_of_int [of "int n"] by simp

subsection \<open>The decision\<close>

definition lm_len :: "scw_worddict \<Rightarrow> nat \<Rightarrow> nat" where
  "lm_len d l = m_length (m_lemmalist d l)"

definition lm_wt :: "scw_worddict \<Rightarrow> nat \<Rightarrow> nat" where
  "lm_wt d l = m_weight (m_lemmalist d l)"

text \<open>The literal \<open>0.00000001\<close> and the comparison of two sums with it.\<close>

definition dbl_gap :: rat where "dbl_gap = dbl (1 / 100000000)"

definition first_heavier :: "rat \<Rightarrow> rat \<Rightarrow> rat \<Rightarrow> rat \<Rightarrow> int" where
  "first_heavier w0 w1 w2 w3 = (if dbl (dbl (w0 + w1) - dbl (w2 + w3)) > dbl_gap then 1 else 0)"

text \<open>The Japanese rule.\<close>

definition judge_jp :: "nat \<Rightarrow> nat \<Rightarrow> nat \<Rightarrow> nat \<Rightarrow> nat \<Rightarrow> nat \<Rightarrow> nat \<Rightarrow> nat \<Rightarrow> int" where
  "judge_jp l0 l1 l2 l3 n0 n1 n2 n3 =
     (let len01 = l0 + l1; len23 = l2 + l3; len = len01 + len23;
          w = (\<lambda>n l my. let x = rat_of_nat n in
                 if len01 > 6 then dbl (x * dbl (dbl (of_nat l * of_nat my) / of_nat len)) else x) in
      if len01 > len23 \<and> l0 \<noteq> 2 then 1
      else if len01 < len23 \<and> l2 \<noteq> 2 then 0
      else let w3 = w n3 l3 len23;
               w3' = (if l0 = 2 \<and> l3 = 2 \<and> len23 < len01 then dbl (w3 / 3) else w3) in
        first_heavier (w n0 l0 len01) (w n1 l1 len01) (w n2 l2 len23) w3')"

text \<open>
  The Chinese rule: longer first, then the weights, normalised when the stretch is longer than
  three characters, with a bonus for a one-character suffix.
\<close>

definition judge_ch :: "bool \<Rightarrow> bool \<Rightarrow> nat \<Rightarrow> nat \<Rightarrow> nat \<Rightarrow> nat \<Rightarrow> nat \<Rightarrow> nat \<Rightarrow> nat \<Rightarrow> nat \<Rightarrow> int" where
  "judge_ch suf1 suf3 l0 l1 l2 l3 n0 n1 n2 n3 =
     (let len = l0 + l1;
          freq = dbl (dbl (of_nat (n0 + n1 + n2 + n3)) * of_nat len);
          w = (\<lambda>n l. if len > 6 then dbl (of_nat (n * l) / freq) else rat_of_nat n) in
      if l0 + l1 < l2 + l3 then 0
      else if l0 + l1 > l2 + l3 then 1
      else if len > 6 \<and> (n0 < 2 \<or> n1 < 2) then 0
      else if len > 6 \<and> (n2 < 2 \<or> n3 < 2) then 1
      else first_heavier (w n0 l0)
        (if l0 = 4 \<and> l1 = 2 \<and> suf1 then dbl (w n1 l1 + 1000) else w n1 l1)
        (w n2 l2)
        (if l2 = 4 \<and> l3 = 2 \<and> suf3 then dbl (w n3 l3 + 1000) else w n3 l3))"

definition scw_judge_backtrack :: "scw_worddict \<Rightarrow> nat \<Rightarrow> nat \<Rightarrow> nat \<Rightarrow> nat \<Rightarrow> int option" where
  "scw_judge_backtrack d f ft s st =
     (if ft = LEMMA_NULL then Some 0
      else if lm_len d f + lm_len d ft \<le> lm_len d s then Some 0
      else if st = LEMMA_NULL then Some 1
      else do {
        a2 \<leftarrow> scw_seek_ambfrag d (m_lemmalist d s) (m_lemmalist d st) st;
        if a2 then Some 0
        else do {
          a1 \<leftarrow> scw_seek_ambfrag d (m_lemmalist d f) (m_lemmalist d ft) ft;
          Some (if a1 then 1
            else if m_wdtype d AND SCW_WD_JP \<noteq> 0
            then judge_jp (lm_len d f) (lm_len d ft) (lm_len d s) (lm_len d st)
                   (lm_wt d f) (lm_wt d ft) (lm_wt d s) (lm_wt d st)
            else judge_ch (IS_1W_SUFFIX (m_property (m_lemmalist d ft))) (IS_1W_SUFFIX (m_property (m_lemmalist d st)))
                   (lm_len d f) (lm_len d ft) (lm_len d s) (lm_len d st)
                   (lm_wt d f) (lm_wt d ft) (lm_wt d s) (lm_wt d st)) } })"

subsection \<open>Short stretches compare integers\<close>

lemma rne_bounds: "of_int (rne y) \<ge> y - 1" "of_int (rne y) \<le> y + 1"
proof -
  have "of_int \<lfloor>y\<rfloor> \<le> y" "y < of_int \<lfloor>y\<rfloor> + 1" by linarith+
  moreover have "rne y = \<lfloor>y\<rfloor> \<or> rne y = \<lfloor>y\<rfloor> + 1 \<and> 1 / 2 \<le> y - of_int \<lfloor>y\<rfloor>"
    by (auto simp: rne_def Let_def)
  ultimately show "of_int (rne y) \<ge> y - 1" "of_int (rne y) \<le> y + 1"
    using of_int_floor_le [of y] by linarith+
qed

lemma dbl_gap_exp: "dbl_exp (1 / 100000000) = - 27"
proof -
  have q: "quotient_of (1 / 100000000) = (1, 100000000)"
    using quotient_of_Fract [of 1 100000000] by (simp add: Fract_of_int_quotient)
  have f: "floorlog 2 (Suc 0) = 1" "floorlog 2 100000000 = 27"
    by (simp_all add: compute_floorlog)
  show ?thesis by (simp add: dbl_exp_def q f ulp_def Let_def)
qed

lemma dbl_gap_bounds: "0 < dbl_gap" "dbl_gap < 1"
proof -
  define u :: rat where "u = 1 / 2 ^ 79"
  define y :: rat where "y = 1 / 100000000 / u"
  have g: "dbl_gap = of_int (rne y) * u"
    by (simp add: dbl_gap_def dbl_def dbl_gap_exp ulp_def u_def y_def Let_def)
  have u: "0 < u" "u < 1 / 2" "y > 1" "y * u = 1 / 100000000" by (simp_all add: u_def y_def)
  have "(0 :: rat) < of_int (rne y)" "of_int (rne y) \<le> y + 1" using rne_bounds [of y] u(3) by linarith+
  then have "0 < of_int (rne y) * u" and "of_int (rne y) * u \<le> (y + 1) * u" using u(1) by simp_all
  then show "0 < dbl_gap" "dbl_gap < 1" unfolding g using u by (simp_all add: algebra_simps)
qed

lemma first_heavier_nat:
  assumes "n0 < 2 ^ 50" "n1 < 2 ^ 50" "n2 < 2 ^ 50" "n3 < 2 ^ 50"
  shows "first_heavier (of_nat n0) (of_nat n1) (of_nat n2) (of_nat n3) = (if n0 + n1 > n2 + n3 then 1 else 0)"
proof -
  have a: "dbl (of_nat n0 + of_nat n1) = of_nat (n0 + n1)" "dbl (of_nat n2 + of_nat n3) = of_nat (n2 + n3)"
    using dbl_of_nat [of "n0 + n1"] dbl_of_nat [of "n2 + n3"] assms by simp_all
  define k where "k = int (n0 + n1) - int (n2 + n3)"
  have "dbl (of_int k) = of_int k" using assms by (intro dbl_of_int) (simp add: k_def)
  moreover have "rat_of_nat (n0 + n1) - of_nat (n2 + n3) = of_int k" by (simp add: k_def)
  ultimately have "first_heavier (of_nat n0) (of_nat n1) (of_nat n2) (of_nat n3) =
      (if of_int k > dbl_gap then 1 else 0)"
    by (simp only: first_heavier_def a)
  moreover have "of_int k > dbl_gap \<longleftrightarrow> k > 0"
  proof
    assume "of_int k > dbl_gap"
    with dbl_gap_bounds(1) have "(0 :: rat) < of_int k" by (rule less_trans)
    then show "k > 0" by simp
  next
    assume "k > 0"
    then have "(1 :: rat) \<le> of_int k" by simp
    with dbl_gap_bounds(2) show "of_int k > dbl_gap" by (rule less_le_trans)
  qed
  ultimately show ?thesis by (simp add: k_def)
qed

lemma judge_ch_short:
  assumes "n0 < 2 ^ 21" "n1 < 2 ^ 21" "n2 < 2 ^ 21" "n3 < 2 ^ 21" "l0 + l1 = l2 + l3" "l0 + l1 \<le> 6"
  shows "judge_ch suf1 suf3 l0 l1 l2 l3 n0 n1 n2 n3 =
    (if n0 + n1 + (if l0 = 4 \<and> l1 = 2 \<and> suf1 then 1000 else 0) >
        n2 + n3 + (if l2 = 4 \<and> l3 = 2 \<and> suf3 then 1000 else 0) then 1 else 0)"
proof -
  have b: "dbl (rat_of_nat n + 1000) = of_nat (n + 1000)" if "n < 2 ^ 21" for n
    using dbl_of_nat [of "n + 1000"] that by simp
  define m1 where "m1 = (if l0 = 4 \<and> l1 = 2 \<and> suf1 then n1 + 1000 else n1)"
  define m3 where "m3 = (if l2 = 4 \<and> l3 = 2 \<and> suf3 then n3 + 1000 else n3)"
  have "judge_ch suf1 suf3 l0 l1 l2 l3 n0 n1 n2 n3 =
      first_heavier (of_nat n0) (of_nat m1) (of_nat n2) (of_nat m3)"
    using assms(6) b [OF assms(2)] b [OF assms(4)]
    by (simp add: judge_ch_def m1_def m3_def Let_def not_less flip: assms(5))
  also have "\<dots> = (if n0 + m1 > n2 + m3 then 1 else 0)"
    using assms(1-4) by (intro first_heavier_nat) (simp_all add: m1_def m3_def)
  finally show ?thesis by (simp add: m1_def m3_def)
qed

text \<open>When the tables are well-formed, the choice is always made.\<close>

definition goes_with :: "scw_worddict \<Rightarrow> nat \<Rightarrow> nat \<Rightarrow> bool" where
  "goes_with d l m \<longleftrightarrow> m \<in> partners d l \<or> (m_wdtype d AND SCW_WD_CH \<noteq> 0 \<and>
     IS_LOC (m_property (m_lemmalist d l)) \<and> IS_LOC_FOLLOW (m_property (m_lemmalist d m)))"

lemma seek_ambfrag_goes:
  "wf_amb d \<Longrightarrow> l < m_lmpos d \<Longrightarrow> m < COMMON_NULL \<Longrightarrow>
   scw_seek_ambfrag d (m_lemmalist d l) (m_lemmalist d m) m = Some (goes_with d l m)"
  by (simp add: scw_seek_ambfrag_partners goes_with_def)

lemma judge_total:
  assumes "wf_amb d" "f < m_lmpos d" "s < m_lmpos d" "ft < COMMON_NULL \<or> ft = LEMMA_NULL"
    "st < COMMON_NULL \<or> st = LEMMA_NULL"
  obtains r where "scw_judge_backtrack d f ft s st = Some r" "ft = LEMMA_NULL \<Longrightarrow> r = 0"
proof -
  have "scw_judge_backtrack d f ft s st \<noteq> None \<and> (ft = LEMMA_NULL \<longrightarrow> scw_judge_backtrack d f ft s st = Some 0)"
    using assms(1-5) by (auto simp: scw_judge_backtrack_def seek_ambfrag_goes)
  then show ?thesis using that by auto
qed

subsection \<open>A sample\<close>

text \<open>Two pairs of six bytes each: lemmas 0 and 1 against lemmas 2 and 3.\<close>

definition judge_dict :: "nat \<Rightarrow> scw_worddict" where
  "judge_dict w = amb_dict\<lparr>m_lmpos := 4, m_lemmalist := (\<lambda>l. zero_lemma\<lparr>m_utilinfo_pos := COMMON_NULL,
     m_length := [2, 4, 4, 2] ! l, m_weight := [w, 20, 15, 30] ! l\<rparr>)\<rparr>"

lemma judge_dict_fields:
  "m_lmpos (judge_dict w) = 4" "m_wdtype (judge_dict w) = SCW_WD_CH" "block_of (judge_dict w) l = COMMON_NULL"
  "lm_len (judge_dict w) l = [2, 4, 4, 2] ! l" "lm_wt (judge_dict w) l = [w, 20, 15, 30] ! l"
  "m_property (m_lemmalist (judge_dict w) l) = INIT_PROPERTY"
  by (simp_all add: judge_dict_def amb_dict_fields block_of_def util_of_def lm_len_def lm_wt_def zero_lemma_def)

lemma judge_dict_wf: "wf_amb (judge_dict w)"
  using amb_dict_wf
  by (simp add: wf_amb_def wf_blocks_def wf_utils_def judge_dict_fields)
    (simp add: judge_dict_def amb_dict_fields block_of_def util_of_def)

subsection \<open>Properties\<close>

text \<open>
  C16 How a Chinese dictionary resolves an ambiguity, on stretches of at most three characters:
  nothing after the first lemma, or a second lemma as long as the first pair, selects the
  second; nothing after the second lemma selects the first; then a recorded pair wins, the
  second pair first; then the longer pair; then the heavier pair, with 1000 more for a
  one-character suffix after a two-character word, and the second pair on a tie. The
  \<open>double\<close> arithmetic of the code compares the integer weights exactly.
\<close>

theorem judge_chinese_spec:
  assumes "wf_amb d" "f < m_lmpos d" "s < m_lmpos d" "ft < COMMON_NULL \<or> ft = LEMMA_NULL"
    "st < COMMON_NULL \<or> st = LEMMA_NULL" "m_wdtype d = SCW_WD_CH"
    and w: "\<forall>l \<in> {f, ft, s, st}. lm_wt d l < 2 ^ 21" and short: "lm_len d f + lm_len d ft \<le> 6"
  defines "bonus \<equiv> \<lambda>l m. if lm_len d l = 4 \<and> lm_len d m = 2 \<and> IS_1W_SUFFIX (m_property (m_lemmalist d m))
     then 1000 else 0 :: nat"
  shows "scw_judge_backtrack d f ft s st = Some
    (if ft = LEMMA_NULL \<or> lm_len d f + lm_len d ft \<le> lm_len d s then 0
     else if st = LEMMA_NULL then 1
     else if goes_with d s st then 0
     else if goes_with d f ft then 1
     else if lm_len d f + lm_len d ft \<noteq> lm_len d s + lm_len d st
     then if lm_len d f + lm_len d ft > lm_len d s + lm_len d st then 1 else 0
     else if lm_wt d f + lm_wt d ft + bonus f ft > lm_wt d s + lm_wt d st + bonus s st then 1 else 0)"
proof -
  have jp: "m_wdtype d AND SCW_WD_JP = 0" by (simp add: assms(6) SCW_WD_CH_def SCW_WD_JP_def)
  have "judge_ch (IS_1W_SUFFIX (m_property (m_lemmalist d ft))) (IS_1W_SUFFIX (m_property (m_lemmalist d st)))
      (lm_len d f) (lm_len d ft) (lm_len d s) (lm_len d st) (lm_wt d f) (lm_wt d ft) (lm_wt d s) (lm_wt d st) =
    (if lm_len d f + lm_len d ft \<noteq> lm_len d s + lm_len d st
     then if lm_len d f + lm_len d ft > lm_len d s + lm_len d st then 1 else 0
     else if lm_wt d f + lm_wt d ft + bonus f ft > lm_wt d s + lm_wt d st + bonus s st then 1 else 0)"
  proof (cases "lm_len d f + lm_len d ft = lm_len d s + lm_len d st")
    case True
    then show ?thesis using w short by (simp add: judge_ch_short bonus_def)
  qed (simp add: judge_ch_def Let_def)
  then show ?thesis
    using assms(1-5) jp by (auto simp: scw_judge_backtrack_def seek_ambfrag_goes)
qed

theorem judge_chinese_spec_witness:
  "scw_judge_backtrack (judge_dict 26) 0 1 2 3 = Some 1 \<and> scw_judge_backtrack (judge_dict 25) 0 1 2 3 = Some 0"
  using judge_chinese_spec [of "judge_dict 26" 0 2 1 3] judge_chinese_spec [of "judge_dict 25" 0 2 1 3]
  by (simp add: judge_dict_wf judge_dict_fields goes_with_def partners_def null_defs INIT_PROPERTY_def IS_LOC_def IS_1W_SUFFIX_def)

end
