(* ===== verification/DictText.thy ===== *)
theory DictText
  imports Phrase Judge
begin

text \<open>
  What the segmentation loops rely on: a lemma found by a lookup spells the words that led to
  it, its \<open>m_length\<close> is the number of their bytes, and its \<open>m_prelm_pos\<close> is the lemma of a
  proper prefix. The dictionaries that \<open>scw_create_worddict\<close>, \<open>scw_set_wdtype\<close> and successful
  calls of \<open>scw_add_lemma\<close> with basic words produce are of this kind.
\<close>

subsection \<open>Lemmas that spell their words\<close>

definition enc :: "nat list \<Rightarrow> nat list" where
  "enc ws = map of_char (concat (map gb_encode ws))"

lemma enc_append: "enc (us @ vs) = enc us @ enc vs"
  by (simp add: enc_def)

lemma enc_Nil [simp]: "enc [] = []"
  by (simp add: enc_def)

lemma gb_encode_nonempty [simp]: "gb_encode v \<noteq> []"
  by (simp add: gb_encode_def)

lemma enc_nonempty: "ws \<noteq> [] \<Longrightarrow> enc ws \<noteq> []"
  by (cases ws) (simp_all add: enc_def)

lemma enc_term_words: "enc (term_words s) = map of_char s"
  by (simp add: enc_def gb_words_encode)

definition spells :: "scw_worddict \<Rightarrow> nat \<Rightarrow> nat list \<Rightarrow> bool" where
  "spells d l ws \<longleftrightarrow> l < m_lmpos d \<and> m_type (m_lemmalist d l) \<in> {LEMMA_TYPE_SBASIC, LEMMA_TYPE_SPHRASE} \<and>
     m_length (m_lemmalist d l) = length (enc ws) \<and> (\<forall>p. lm_text d p (Static l) = enc ws)"

definition prefix_linked :: "scw_worddict \<Rightarrow> nat \<Rightarrow> nat list \<Rightarrow> bool" where
  "prefix_linked d l ws \<longleftrightarrow> m_prelm_pos (m_lemmalist d l) = LEMMA_NULL \<or>
     (\<exists>k. 0 < k \<and> k < length ws \<and> m_prelm_pos (m_lemmalist d l) = dict_lookup d (take k ws))"

definition dict_texts :: "scw_worddict \<Rightarrow> bool" where
  "dict_texts d \<longleftrightarrow> (\<forall>ws. ws \<noteq> [] \<longrightarrow> dict_lookup d ws \<noteq> LEMMA_NULL \<longrightarrow>
     spells d (dict_lookup d ws) ws \<and> prefix_linked d (dict_lookup d ws) ws)"

definition seg_dict :: "nat \<Rightarrow> scw_worddict \<Rightarrow> bool" where
  "seg_dict M d \<longleftrightarrow> wf_dict M d \<and> wf_phrases d \<and> wf_amb d \<and> dict_texts d"

subsection \<open>Dictionaries built of basic words\<close>

inductive built :: "'x sdict \<Rightarrow> nat \<Rightarrow> scw_worddict \<Rightarrow> bool" for S M where
  create: "scw_create_worddict M = Some d \<Longrightarrow> M < 4294967296 \<Longrightarrow> built S M d"
| wdtype: "built S M d \<Longrightarrow> built S M (scw_set_wdtype d ty)"
| add: "built S M d \<Longrightarrow> scw_add_lemma S M d None inlm = Some (r, d', x) \<Longrightarrow> 0 \<le> r \<Longrightarrow>
    i_type inlm = LEMMA_TYPE_SBASIC \<Longrightarrow> \<not> IS_TEMP (i_property inlm) \<Longrightarrow>
    m_lmstr inlm \<noteq> [] \<Longrightarrow> length (m_lmstr inlm) < 256 \<Longrightarrow> built S M d'"

definition amb_same :: "scw_worddict \<Rightarrow> scw_worddict \<Rightarrow> bool" where
  "amb_same d d' \<longleftrightarrow> m_ambinfo d' = m_ambinfo d \<and> m_ambsize d' = m_ambsize d \<and> m_ambpos d' = m_ambpos d \<and>
     m_utilinfo d' = m_utilinfo d \<and> m_utilisize d' = m_utilisize d \<and> m_utilipos d' = m_utilipos d"

lemma trie_rest_amb:
  assumes "trie_rest d' = trie_rest d"
  shows "amb_same d d'"
  using arg_cong [OF assms, of m_ambinfo] arg_cong [OF assms, of m_ambsize] arg_cong [OF assms, of m_ambpos]
    arg_cong [OF assms, of m_utilinfo] arg_cong [OF assms, of m_utilisize] arg_cong [OF assms, of m_utilipos]
  by (simp add: amb_same_def trie_rest_def)

lemma new_lemma_amb:
  assumes W: "wf_dict M d" and ne: "m_lmstr inlm \<noteq> []" and T: "\<not> IS_TEMP (i_property inlm)"
    and n: "new_lemma S M d x inlm = Some (r, d', x', lm)"
  shows "amb_same d d'"
proof (rule link_term_ok [OF W ne T])
  fix r1 d1 q pre
  assume L: "link_term M d inlm = Some (r1, d1, q, pre)" "trie.added M d (term_words (m_lmstr inlm)) r1 d1 q"
  have "amb_same d d1" using L(2) by (simp add: trie.added_def trie_rest_amb)
  then show ?thesis
    using n L(1) T by (auto simp: new_lemma_def amb_same_def set_lemma_def set_lemma_pos_def scw_resize_lemma_def
        c_assert_def Let_def split: if_splits)
qed

lemma store_sbasic_amb:
  assumes "wf_dict M d" "store_sbasic M d l inlm = Some (1, d')"
  shows "amb_same d d'" "m_wbpos d' = m_wbpos d + (length (m_lmstr inlm) + 1)"
proof -
  obtain r n where "grow_wordbuf M d (length (m_lmstr inlm) + 1) = (r, d\<lparr>m_wbsize := n\<rparr>)"
    using grow_wordbuf_ok [OF assms(1)] by blast
  then show "amb_same d d'" "m_wbpos d' = m_wbpos d + (length (m_lmstr inlm) + 1)"
    using assms(2) by (auto simp: store_sbasic_def amb_same_def set_lemma_def Let_def c_assert_def split: if_splits)
qed

text \<open>The invariant of building: every record is a basic word with its text stored.\<close>

definition stored :: "scw_worddict \<Rightarrow> nat \<Rightarrow> nat list \<Rightarrow> bool" where
  "stored d l ws \<longleftrightarrow> l < m_lmpos d \<and> m_length (m_lemmalist d l) = length (enc ws) \<and>
     m_word_bpos (m_lemmalist d l) + length (enc ws) \<le> m_wbpos d \<and>
     get_list (m_wordbuf d) (m_word_bpos (m_lemmalist d l)) (length (enc ws)) = enc ws"

definition basic_dict :: "nat \<Rightarrow> scw_worddict \<Rightarrow> bool" where
  "basic_dict M d \<longleftrightarrow> wf_dict M d \<and> 2 \<le> m_ambsize d \<and> m_ambsize d \<le> COMMON_NULL \<and> m_ambpos d \<le> m_ambsize d \<and>
     m_utilipos d \<le> m_utilisize d \<and> m_utilisize d \<le> COMMON_NULL \<and>
     (\<forall>l < m_lmpos d. m_type (m_lemmalist d l) = LEMMA_TYPE_SBASIC \<and> m_utilinfo_pos (m_lemmalist d l) = COMMON_NULL) \<and>
     (\<forall>ws. ws \<noteq> [] \<longrightarrow> dict_lookup d ws \<noteq> LEMMA_NULL \<longrightarrow>
        stored d (dict_lookup d ws) ws \<and> prefix_linked d (dict_lookup d ws) ws)"

lemma basic_dict_seg_dict:
  assumes "basic_dict M d"
  shows "seg_dict M d"
proof -
  have "block_of d l = COMMON_NULL" if "l < m_lmpos d" for l
    using assms that by (simp add: basic_dict_def block_of_def util_of_def)
  then have "wf_amb d"
    using assms by (simp add: wf_amb_def wf_blocks_def wf_utils_def basic_dict_def util_of_def)
  moreover have "wf_phrases d"
    using assms by (auto simp: wf_phrases_def basic_dict_def lemma_types)
  moreover have "spells d l ws" if "stored d l ws" for l ws
    using assms that by (auto simp: basic_dict_def stored_def spells_def lm_text_def deref_def lmstr_bytes_def static_bytes_def)
  then have "dict_texts d" using assms by (auto simp: dict_texts_def basic_dict_def)
  ultimately show ?thesis using assms by (simp add: seg_dict_def basic_dict_def)
qed

lemma prefix_lemma_linked:
  "prefix_lemma lk us ws pre = pre \<or>
   (\<exists>k < length ws. us @ take k ws \<noteq> [] \<and> prefix_lemma lk us ws pre = lk (us @ take k ws))"
proof (induction ws arbitrary: us pre)
  case (Cons w ws)
  let ?q = "if us \<noteq> [] \<and> lk us \<noteq> LEMMA_NULL then lk us else pre"
  from Cons [of "us @ [w]" ?q] show ?case
  proof
    assume "prefix_lemma lk (us @ [w]) ws ?q = ?q"
    then show ?thesis by (auto intro: exI [of _ 0])
  next
    assume "\<exists>k<length ws. (us @ [w]) @ take k ws \<noteq> [] \<and> prefix_lemma lk (us @ [w]) ws ?q = lk ((us @ [w]) @ take k ws)"
    then obtain k where "k < length ws" "prefix_lemma lk (us @ [w]) ws ?q = lk ((us @ [w]) @ take k ws)" by blast
    then show ?thesis by (intro disjI2 exI [of _ "Suc k"]) simp
  qed
qed simp

lemma basic_dict_add:
  assumes B: "basic_dict M d" and a: "scw_add_lemma S M d None inlm = Some (r, d', x)" "0 \<le> r"
    and t: "i_type inlm = LEMMA_TYPE_SBASIC" "\<not> IS_TEMP (i_property inlm)" "m_lmstr inlm \<noteq> []"
      "length (m_lmstr inlm) < 256"
  shows "basic_dict M d'"
proof -
  have W: "wf_dict M d" using B by (simp add: basic_dict_def)
  let ?ws = "term_words (m_lmstr inlm)"
  have ne: "?ws \<noteq> []" using gb_words_nonempty [OF t(3)] .
  have sk: "seek_static_dyn S d None (m_lmstr inlm) = Some (dict_lookup d ?ws)"
    using seek_lemma_words [OF W t(3)] by (simp add: seek_static_dyn_def scw_seek_dynword_def)
  have old: "stored d (dict_lookup d ws) ws" "prefix_linked d (dict_lookup d ws) ws"
    if "ws \<noteq> []" "dict_lookup d ws \<noteq> LEMMA_NULL" for ws
    using B that by (simp_all add: basic_dict_def)
  show ?thesis
  proof (cases "dict_lookup d ?ws = LEMMA_NULL")
    case False
    let ?l = "dict_lookup d ?ws"
    let ?f = "\<lambda>lm. lm\<lparr>m_length := length (m_lmstr inlm) mod 256, m_weight := i_weight inlm mod 2 ^ 21,
                m_property := i_property inlm\<rparr>"
    have d': "d' = set_lemma d ?l ?f" using a(1) sk False t(2) by (simp add: scw_add_lemma_def)
    have len: "length (m_lmstr inlm) mod 256 = m_length (m_lemmalist d ?l)"
      using old(1) [OF ne False] t(4) by (simp add: stored_def enc_term_words)
    have rec: "m_lemmalist d' l = m_lemmalist d l \<or> m_lemmalist d' l = ?f (m_lemmalist d l) \<and> l = ?l" for l
      by (auto simp: d' set_lemma_def)
    have same: "m_length (m_lemmalist d' l) = m_length (m_lemmalist d l)"
      "m_word_bpos (m_lemmalist d' l) = m_word_bpos (m_lemmalist d l)"
      "m_type (m_lemmalist d' l) = m_type (m_lemmalist d l)"
      "m_utilinfo_pos (m_lemmalist d' l) = m_utilinfo_pos (m_lemmalist d l)"
      "m_prelm_pos (m_lemmalist d' l) = m_prelm_pos (m_lemmalist d l)" for l
      using rec [of l] len by auto
    have T: "trie_same d d'" by (simp add: d')
    have lk: "dict_lookup d' = dict_lookup d" by (rule trie_same_lay(8) [OF T])
    have "wf_dict M d'" by (rule trie_same_wf [OF T W]) (use W in \<open>simp add: d' set_lemma_def wf_dict_def wf_size_def\<close>)
    moreover have "m_wbpos d' = m_wbpos d" "m_wordbuf d' = m_wordbuf d" "m_lmpos d' = m_lmpos d"
      "m_ambsize d' = m_ambsize d" "m_ambpos d' = m_ambpos d" "m_utilipos d' = m_utilipos d" "m_utilisize d' = m_utilisize d"
      by (simp_all add: d' set_lemma_def)
    ultimately show ?thesis
      using B by (simp add: basic_dict_def stored_def prefix_linked_def lk same)
  next
    case True
    obtain r1 d1 lm where N: "new_lemma S M d None inlm = Some (r1, d1, None, lm)" "wf_dict M d1"
      "(r1 = 1 \<and> entered d inlm d1 lm \<and> m_wordbuf d1 = m_wordbuf d \<and> m_wbpos d1 = m_wbpos d \<and>
        m_lemmalist d1 lm = fill_lemma inlm (prefix_lemma (dict_lookup d) [] ?ws LEMMA_NULL) (m_lemmalist d lm)) \<or>
       (r1 = -1 \<and> same_lookups d d1)"
      by (rule new_lemma_ok [OF W t(3,2), of S None])
    have r1: "r1 = 1" using N a sk True by (auto simp: scw_add_lemma_def)
    then have E: "entered d inlm d1 lm" "m_wordbuf d1 = m_wordbuf d" "m_wbpos d1 = m_wbpos d"
      "m_lemmalist d1 lm = fill_lemma inlm (prefix_lemma (dict_lookup d) [] ?ws LEMMA_NULL) (m_lemmalist d lm)"
      using N(3) by auto
    have lm: "lm = m_lmpos d" "m_lmpos d1 = m_lmpos d + 1" using E(1) by (simp_all add: entered_def)
    obtain r2 d2 where P: "store_sbasic M d1 lm inlm = Some (r2, d2)" "store_spec M d1 lm r2 d2"
      "r2 = 1 \<Longrightarrow> m_wordbuf d2 = put_list (m_wordbuf d1) (m_wbpos d1) (map of_char (m_lmstr inlm) @ [0])"
      "r2 = 1 \<Longrightarrow> m_lemmalist d2 lm = (m_lemmalist d1 lm)\<lparr>m_word_bpos := m_wbpos d1, m_subphinfo_bpos := COMMON_NULL\<rparr>"
      using store_sbasic_ok [OF N(2), of lm inlm] by metis
    have r2: "r2 = r" "d2 = d'" using a(1) sk True N(1) r1 P(1) t(1) by (auto simp: scw_add_lemma_def store_parts_def)
    then have one: "r2 = 1" using P(2) a(2) by (auto simp: store_spec_def)
    note st = P(1) [unfolded one r2]
    have wb: "m_wordbuf d' = put_list (m_wordbuf d) (m_wbpos d) (map of_char (m_lmstr inlm) @ [0])"
      and rec: "m_lemmalist d' lm = (m_lemmalist d1 lm)\<lparr>m_word_bpos := m_wbpos d, m_subphinfo_bpos := COMMON_NULL\<rparr>"
      using P(3,4) one r2 E by simp_all
    have wp: "m_wbpos d' = m_wbpos d + (length (m_lmstr inlm) + 1)" using store_sbasic_amb(2) [OF N(2) st] E by simp
    have amb: "amb_same d d'"
      using new_lemma_amb [OF W t(3,2) N(1)] store_sbasic_amb(1) [OF N(2) st] by (simp add: amb_same_def)
    have olds: "m_lemmalist d' l = m_lemmalist d l" if "l \<noteq> lm" for l
      using that E(1) P(2) r2 by (simp add: entered_def store_spec_def)
    have lk: "dict_lookup d' us = (if us = ?ws then lm else dict_lookup d us)" if "us \<noteq> []" for us
      using E(1) P(2) r2 that trie_same_lay(8) [of d1 d'] by (simp add: entered_def store_spec_def)
    have cnt: "m_lmpos d' = m_lmpos d + 1" using P(2) r2 lm by (simp add: store_spec_def)
    have small: "m_lmpos d < LEMMA_NULL" using W by (simp add: wf_dict_def wf_size_def null_defs sizeofs)
    have fields: "m_type (m_lemmalist d' lm) = LEMMA_TYPE_SBASIC" "m_utilinfo_pos (m_lemmalist d' lm) = COMMON_NULL"
      "m_length (m_lemmalist d' lm) = length (enc ?ws)" "m_word_bpos (m_lemmalist d' lm) = m_wbpos d"
      "m_prelm_pos (m_lemmalist d' lm) = prefix_lemma (dict_lookup d) [] ?ws LEMMA_NULL"
      using rec E(4) t(1,4) by (simp_all add: fill_lemma_def lemma_types enc_term_words)
    have new: "stored d' lm ?ws"
      using cnt lm wp wb fields by (simp add: stored_def enc_term_words)
        (rule nth_equalityI, simp_all add: put_list_in nth_append)
    have keep: "stored d' l ws" if "stored d l ws" for l ws
    proof -
      have "l \<noteq> lm" using that lm by (auto simp: stored_def)
      moreover have "get_list (m_wordbuf d') b n = get_list (m_wordbuf d) b n" if "b + n \<le> m_wbpos d" for b n
        unfolding wb by (rule get_list_cong) (use that in \<open>simp add: put_list_out\<close>)
      ultimately show ?thesis using that cnt wp by (simp add: stored_def olds)
    qed
    have pre: "prefix_linked d' l ws" if link: "prefix_linked d l ws" and "l \<noteq> lm" "ws \<noteq> ?ws" for l ws
    proof (cases "m_prelm_pos (m_lemmalist d l) = LEMMA_NULL")
      case True
      then show ?thesis using that(2) by (simp add: prefix_linked_def olds)
    next
      case False
      then obtain k where k: "0 < k" "k < length ws" "m_prelm_pos (m_lemmalist d l) = dict_lookup d (take k ws)"
        using link by (auto simp: prefix_linked_def)
      then have "take k ws \<noteq> []" "take k ws \<noteq> ?ws" using False \<open>dict_lookup d ?ws = LEMMA_NULL\<close> by auto
      then show ?thesis using k that(2) lk by (auto simp: prefix_linked_def olds)
    qed
    have prenew: "prefix_linked d' lm ?ws"
      using prefix_lemma_linked [of "dict_lookup d" "[]" ?ws LEMMA_NULL]
    proof
      assume "\<exists>k<length ?ws. [] @ take k ?ws \<noteq> [] \<and>
        prefix_lemma (dict_lookup d) [] ?ws LEMMA_NULL = dict_lookup d ([] @ take k ?ws)"
      then obtain k where k: "k < length ?ws" "take k ?ws \<noteq> []"
        "prefix_lemma (dict_lookup d) [] ?ws LEMMA_NULL = dict_lookup d (take k ?ws)" by auto
      have "take k ?ws \<noteq> ?ws" using k(1) by (metis length_take min_less_iff_conj less_irrefl)
      then show ?thesis using k fields(5) lk by (intro prefix_linked_def [THEN iffD2] disjI2 exI [of _ k]) simp
    qed (simp add: prefix_linked_def fields)
    have "stored d' (dict_lookup d' ws) ws \<and> prefix_linked d' (dict_lookup d' ws) ws"
      if "ws \<noteq> []" "dict_lookup d' ws \<noteq> LEMMA_NULL" for ws
    proof (cases "ws = ?ws")
      case True
      then show ?thesis using lk [OF that(1)] new prenew by simp
    next
      case False
      then have "dict_lookup d' ws = dict_lookup d ws" "dict_lookup d ws \<noteq> LEMMA_NULL" using lk [OF that(1)] that by simp_all
      moreover have "dict_lookup d ws \<noteq> lm" using old(1) [OF that(1)] calculation lm by (auto simp: stored_def)
      ultimately show ?thesis using old [OF that(1)] keep pre False by simp
    qed
    moreover have "m_type (m_lemmalist d' l) = LEMMA_TYPE_SBASIC \<and> m_utilinfo_pos (m_lemmalist d' l) = COMMON_NULL"
      if "l < m_lmpos d'" for l
      using that cnt lm fields olds [of l] B by (cases "l = lm") (auto simp: basic_dict_def)
    ultimately show ?thesis
      using B P(2) r2 amb by (simp add: basic_dict_def store_spec_def amb_same_def)
  qed
qed

lemma basic_dict_create:
  assumes "scw_create_worddict M = Some d" "M < 4294967296"
  shows "basic_dict M d"
proof -
  have "m_ambsize d = 4000" "m_ambpos d = 0" "m_utilipos d = 0" "m_utilisize d = 4000"
    using assms(1) by (auto simp: scw_create_worddict_def default_sizes split: if_splits)
  then show ?thesis
    using scw_create_worddict_wf(1,3) [OF assms] fresh_lookup [OF assms] by (simp add: basic_dict_def null_defs)
qed

lemma basic_dict_wdtype: "basic_dict M d \<Longrightarrow> basic_dict M (scw_set_wdtype d ty)"
proof -
  assume B: "basic_dict M d"
  have T: "trie_same d (scw_set_wdtype d ty)" by (simp add: trie_same_def scw_set_wdtype_def)
  have "wf_dict M (scw_set_wdtype d ty)"
    by (rule trie_same_wf [OF T]) (use B in \<open>simp_all add: basic_dict_def wf_dict_def wf_size_def scw_set_wdtype_def\<close>)
  then show ?thesis
    using B trie_same_lay(8) [OF T] by (simp add: basic_dict_def stored_def prefix_linked_def) (simp add: scw_set_wdtype_def)
qed

lemma built_basic: "built S M d \<Longrightarrow> basic_dict M d"
  by (induction rule: built.induct) (auto intro: basic_dict_create basic_dict_wdtype basic_dict_add)

subsection \<open>Properties\<close>

text \<open>
  C17 Every dictionary that creation, \<open>scw_set_wdtype\<close> and successful additions of basic words
  produce is consistent: whatever term a search finds, the record found is a basic word, its
  stored text is the term, its length the number of bytes of the term, and it points to no
  lemma or to the lemma of a proper prefix of the term.
\<close>

theorem built_dictionary_consistent:
  assumes "built S M d" "s \<noteq> []" "scw_seek_lemma d s (length s) = Some l" "l \<noteq> LEMMA_NULL"
  shows "wf_dict M d \<and> l < m_lmpos d \<and> get_static_lmstr d (m_lemmalist d l) = map of_char s \<and>
    m_length (m_lemmalist d l) = length s \<and>
    (m_prelm_pos (m_lemmalist d l) = LEMMA_NULL \<or>
     (\<exists>k. 0 < k \<and> k < length (term_words s) \<and> m_prelm_pos (m_lemmalist d l) = dict_lookup d (take k (term_words s))))"
proof -
  have B: "basic_dict M d" using assms(1) by (rule built_basic)
  then have W: "wf_dict M d" by (simp add: basic_dict_def)
  have l: "l = dict_lookup d (term_words s)" using seek_lemma_words [OF W assms(2)] assms(3) by simp
  with B gb_words_nonempty [OF assms(2)] assms(4)
  have st: "stored d l (term_words s)" "prefix_linked d l (term_words s)" by (simp_all add: basic_dict_def)
  then have "m_type (m_lemmalist d l) = LEMMA_TYPE_SBASIC" using B by (simp add: basic_dict_def stored_def)
  then show ?thesis
    using W st by (simp add: stored_def prefix_linked_def get_static_lmstr_def enc_term_words)
qed

lemma sample_built:
  assumes "scw_add_lemma sample_sdict 1000000 sample_dict None (sample_lemma ''a'') = Some (1, d', x')"
  shows "built sample_sdict 1000000 d'"
proof (rule built.add [OF built.create assms])
  show "scw_create_worddict 1000000 = Some sample_dict" by (rule sample_dict_create)
qed (simp_all add: sample_lemma_def INIT_PROPERTY_def IS_TEMP_def)

theorem built_dictionary_consistent_witness:
  "\<exists>d' l. built sample_sdict 1000000 d' \<and> scw_seek_lemma d' ''a'' 1 = Some l \<and>
     get_static_lmstr d' (m_lemmalist d' l) = [97]"
proof -
  obtain d' x' where A: "scw_add_lemma sample_sdict 1000000 sample_dict None (sample_lemma ''a'') = Some (1, d', x')"
    using sample_add_lemma by (auto split: option.splits)
  have a: "''a'' \<noteq> []" by simp
  obtain r d1 where B: "scw_add_lemma sample_sdict 1000000 sample_dict None (sample_lemma ''a'') = Some (r, d1, None)"
    "wf_dict 1000000 d1" "r = 1 \<Longrightarrow> entered sample_dict (sample_lemma ''a'') d1 (m_lmpos sample_dict)"
    by (rule add_new_lemma_ok [of 1000000 sample_dict "sample_lemma ''a''" sample_sdict None, unfolded sample_lemma_str,
        OF sample_dict_wf a sample_lemma_not_temp sample_absent [OF a] sample_phrase_ok]) blast
  then have "entered sample_dict (sample_lemma ''a'') d' (m_lmpos sample_dict)" "wf_dict 1000000 d'" using A by simp_all
  then have s: "scw_seek_lemma d' ''a'' (length ''a'') = Some (m_lmpos sample_dict)"
    using seek_lemma_words [OF _ a] gb_words_nonempty [OF a] by (simp add: entered_def sample_lemma_str)
  have n: "m_lmpos sample_dict \<noteq> LEMMA_NULL" by (simp add: sample_dict_eval null_defs)
  note T = built_dictionary_consistent [OF sample_built [OF A] a s n]
  show ?thesis using T sample_built [OF A] s by (intro exI [of _ d'] exI [of _ "m_lmpos sample_dict"]) simp
qed

end
