(* ===== verification/Fmm.thy ===== *)
theory Fmm
  imports DictText
begin

text \<open>
  Forward maximal matching (\<open>scw_get_fmm_word\<close>), the comparison of two matches
  (\<open>scw_backtrack\<close>, both \<open>segimpl.cpp\<close>), and what the segmentation loops need from a
  dictionary: every lemma found by a lookup carries the text of its words.
\<close>

subsection \<open>Operations\<close>

text \<open>The loop after the first word; \<open>v\<close> is the word just read, \<open>pos\<close> the position behind it.\<close>

function fmm_loop :: "scw_worddict \<Rightarrow> string \<Rightarrow> nat \<Rightarrow> nat \<Rightarrow> nat \<Rightarrow> nat \<Rightarrow> nat \<Rightarrow> nat \<Rightarrow> (nat \<times> nat) option" where
  "fmm_loop d s len v pos lde lmpos curpos =
     (if v > 0 then
        (case scw_seek_entry d lde v of
           None \<Rightarrow> None
         | Some nde \<Rightarrow>
             if nde = DENTRY_NULL then Some (lmpos, curpos)
             else let l = m_lemma_pos (m_dictentry d nde); (v', pos') = scw_get_word s pos len in
               fmm_loop d s len v' pos' nde (if l \<noteq> LEMMA_NULL then l else lmpos) (if l \<noteq> LEMMA_NULL then pos else curpos))
      else Some (lmpos, curpos))"
  by pat_completeness auto

lemma scw_get_word_end: "len \<le> pos \<Longrightarrow> scw_get_word s pos len = (0, pos)"
  by (simp add: scw_get_word_def)

termination fmm_loop
proof (relation "measure (\<lambda>(d, s, len, v, pos, _). 2 * (len - pos) + (if v > 0 then 1 else 0))", goal_cases)
  case (2 d s len v pos lde lmpos curpos nde l x v' pos')
  then show ?case
    using scw_get_word_shrinks [of v' pos' s pos len] scw_get_word_end [of len pos s]
    by (cases "pos < len") auto
qed simp

declare fmm_loop.simps [simp del]

definition scw_get_fmm_word :: "scw_worddict \<Rightarrow> string \<Rightarrow> nat \<Rightarrow> nat \<Rightarrow> (nat \<times> nat) option" where
  "scw_get_fmm_word d s len pos =
     (let (v, pos') = scw_get_word s pos len in
      if v = 0 then Some (LEMMA_NULL, pos)
      else fmm_loop d s len v pos' DENTRY_FIRST LEMMA_NULL pos')"

text \<open>
  \<open>scw_backtrack\<close>: the lemmas following the two candidates, with the positions behind them,
  and the choice (1 the first, 0 the second).
\<close>

definition scw_backtrack :: "scw_worddict \<Rightarrow> string \<Rightarrow> nat \<Rightarrow> nat \<Rightarrow> nat \<Rightarrow> nat \<Rightarrow> nat \<Rightarrow>
    (int \<times> nat \<times> nat \<times> nat \<times> nat) option" where
  "scw_backtrack d s len flm fpos slm spos = do {
     (ft, fpos') \<leftarrow> scw_get_fmm_word d s len fpos;
     (st, spos') \<leftarrow> scw_get_fmm_word d s len spos;
     r \<leftarrow> scw_judge_backtrack d flm ft slm st;
     Some (r, ft, fpos', st, spos') }"

subsection \<open>The longest match\<close>

lemma best_match_stop:
  assumes B: "best_match d us k l"
    and D: "\<And>j. length us < j \<Longrightarrow> j \<le> length (us @ ws) \<Longrightarrow> dict_lookup d (take j (us @ ws)) = LEMMA_NULL"
  shows "best_match d (us @ ws) k l"
proof -
  have "dict_lookup d (take j (us @ ws)) = LEMMA_NULL" if "k < j" "j \<le> length (us @ ws)" for j
    using that B D by (cases "j \<le> length us") (auto simp: best_match_def)
  then show ?thesis using B by (auto simp: best_match_def)
qed

lemma best_match_dead:
  assumes B: "best_match d us k l" and n: "trie.node d (us @ [w]) = None"
  shows "best_match d (us @ w # ws) k l"
proof (rule best_match_stop [OF B])
  fix j assume j: "length us < j" "j \<le> length (us @ w # ws)"
  then have "take j (us @ w # ws) = (us @ [w]) @ take (j - length us - 1) ws"
    by (simp add: take_Cons')
  then show "dict_lookup d (take j (us @ w # ws)) = LEMMA_NULL" using dead_lookup [OF n] by metis
qed

lemma best_match_step:
  assumes B: "best_match d us k l" and lk: "dict_lookup d (us @ [w]) = l'"
  shows "best_match d (us @ [w]) (if l' \<noteq> LEMMA_NULL then length us + 1 else k) (if l' \<noteq> LEMMA_NULL then l' else l)"
proof (cases "l' = LEMMA_NULL")
  case True
  have "best_match d (us @ [w]) k l"
  proof (rule best_match_stop [OF B])
    fix j assume "length us < j" "j \<le> length (us @ [w])"
    then have "take j (us @ [w]) = us @ [w]" by simp
    then show "dict_lookup d (take j (us @ [w])) = LEMMA_NULL" using lk True by simp
  qed
  then show ?thesis using True by simp
qed (simp add: best_match_def lk)

abbreviation live_words :: "string \<Rightarrow> nat \<Rightarrow> nat \<Rightarrow> nat list" where
  "live_words s pos len \<equiv> takeWhile (\<lambda>v. v > 0) (gb_words s pos len)"

lemma live_words_step:
  assumes "scw_get_word s pos len = (v, pos')"
  shows "live_words s pos len = takeWhile (\<lambda>v. v > 0) (v # gb_words s pos' len)"
proof (cases "pos < len")
  case False
  then show ?thesis using assms by (simp add: scw_get_word_end)
qed (use assms in \<open>simp add: gb_words_step\<close>)

lemma fmm_loop_ok:
  assumes "wf_dict M d" "trie.node d us = Some p" "best_match d us k l"
  shows "\<exists>k' l' cp'. fmm_loop d s len v pos p l cp = Some (l', cp') \<and>
     best_match d (us @ takeWhile (\<lambda>v. v > 0) (v # gb_words s pos len)) k' l' \<and>
     (if k' \<le> length us then k' = k \<and> cp' = cp else cp' = word_pos s pos len (k' - length us - 1))"
  using assms
proof (induction d s len v pos p l cp arbitrary: us k rule: fmm_loop.induct)
  case (1 d s len v pos p l cp)
  note W = "1.prems"(1) and n = "1.prems"(2) and B = "1.prems"(3)
  have kle: "k \<le> length us" using B by (simp add: best_match_def)
  show ?case
  proof (cases "v > 0")
    case False
    then show ?thesis using B kle by (subst fmm_loop.simps) auto
  next
    case True
    have vp: "valid_key d p" using trie.node_valid [OF W n] by simp
    let ?rest = "takeWhile (\<lambda>v. v > 0) (gb_words s pos len)"
    have ws: "takeWhile (\<lambda>v. v > 0) (v # gb_words s pos len) = v # ?rest" using True by simp
    show ?thesis
    proof (cases "child d p v")
      case None
      then have "trie.node d (us @ [v]) = None" using n by (simp add: tree_path_snoc)
      from best_match_dead [OF B this] have "best_match d (us @ v # ?rest) k l" .
      moreover have "fmm_loop d s len v pos p l cp = Some (l, cp)"
        using True None scw_seek_entry_child [OF W vp] by (subst fmm_loop.simps) simp
      ultimately show ?thesis unfolding ws using kle by auto
    next
      case (Some q)
      have q: "scw_seek_entry d p v = Some q" "q \<noteq> DENTRY_NULL"
        using scw_seek_entry_child [OF W vp] Some by (auto simp: child_def Let_def split: if_splits)
      have n': "trie.node d (us @ [v]) = Some q" using n Some by (simp add: tree_path_snoc)
      obtain v' pos' where g: "scw_get_word s pos len = (v', pos')" by fastforce
      define l0 where "l0 = m_lemma_pos (m_dictentry d q)"
      define k2 where "k2 = (if l0 \<noteq> LEMMA_NULL then length us + 1 else k)"
      define l2 where "l2 = (if l0 \<noteq> LEMMA_NULL then l0 else l)"
      define cp2 where "cp2 = (if l0 \<noteq> LEMMA_NULL then pos else cp)"
      have B': "best_match d (us @ [v]) k2 l2"
        unfolding k2_def l2_def by (rule best_match_step [OF B]) (simp add: node_lookup [OF n'] l0_def)
      have eq: "fmm_loop d s len v pos p l cp = fmm_loop d s len v' pos' q l2 cp2"
        using True q g by (subst fmm_loop.simps) (simp add: l2_def cp2_def l0_def)
      obtain k' l' cp' where R: "fmm_loop d s len v' pos' q l2 cp2 = Some (l', cp')"
          "best_match d ((us @ [v]) @ takeWhile (\<lambda>v. v > 0) (v' # gb_words s pos' len)) k' l'"
          "if k' \<le> length (us @ [v]) then k' = k2 \<and> cp' = cp2
           else cp' = word_pos s pos' len (k' - length (us @ [v]) - 1)"
        using "1.IH" [OF True q(1) q(2) refl g [symmetric] refl W n', of k2] B'
        unfolding l2_def cp2_def l0_def by blast
      have "best_match d (us @ v # ?rest) k' l'"
        using R(2) unfolding live_words_step [OF g, symmetric] by simp
      moreover have "if k' \<le> length us then k' = k \<and> cp' = cp else cp' = word_pos s pos len (k' - length us - 1)"
      proof (cases "k' \<le> length (us @ [v])")
        case True
        then show ?thesis using R(3) kle by (auto simp: k2_def cp2_def split: if_splits)
      next
        case False
        then have "k' - length us - 1 = Suc (k' - length (us @ [v]) - 1)" by simp
        then show ?thesis using R(3) False g by simp
      qed
      ultimately show ?thesis unfolding eq ws using R(1) by blast
    qed
  qed
qed

lemma fmm_word_ok:
  assumes W: "wf_dict M d"
  shows "\<exists>k l np. scw_get_fmm_word d s len pos = Some (l, np) \<and> best_match d (live_words s pos len) k l \<and>
     np = (if live_words s pos len = [] then pos else word_pos s pos len (max 1 k))"
proof -
  obtain v pos' where g: "scw_get_word s pos len = (v, pos')" by fastforce
  note ws = live_words_step [OF g]
  show ?thesis
  proof (cases "v = 0")
    case True
    then show ?thesis using g ws by (simp add: scw_get_fmm_word_def best_match_def)
  next
    case False
    have B: "best_match d [] 0 LEMMA_NULL" by (simp add: best_match_def)
    have n: "trie.node d [] = Some DENTRY_FIRST" by simp
    obtain k l cp where R: "fmm_loop d s len v pos' DENTRY_FIRST LEMMA_NULL pos' = Some (l, cp)"
        "best_match d (live_words s pos len) k l"
        "if k = 0 then cp = pos' else cp = word_pos s pos' len (k - 1)"
      using fmm_loop_ok [OF W n B, of s len v pos' pos'] unfolding ws [symmetric] by auto
    have "cp = word_pos s pos len (max 1 k)"
      using R(3) g by (cases k) (simp_all add: max_def split: if_splits)
    then show ?thesis using R(1,2) g False ws by (auto simp: scw_get_fmm_word_def)
  qed
qed

text \<open>Without a NUL byte in the rest of the input, this is \<open>mm_seek_lemma\<close>.\<close>

lemma live_words_all: "0 \<notin> set (gb_words s pos len) \<Longrightarrow> live_words s pos len = gb_words s pos len"
  by (rule takeWhile_eq_all_conv [THEN iffD2]) (metis gr0I)

lemma best_match_unique:
  assumes "best_match d ws k l" "best_match d ws k' l'"
  shows "k = k' \<and> l = l'"
proof -
  have "\<not> k < k'" if "best_match d ws k l" "best_match d ws k' l'" for k k' l l'
    using that by (auto simp: best_match_def split: if_splits)
  then have "k = k'" using assms by (meson linorder_neqE_nat)
  then show ?thesis using assms by (auto simp: best_match_def split: if_splits)
qed

subsection \<open>Matches and the text they cover\<close>

definition slice :: "string \<Rightarrow> nat \<Rightarrow> nat \<Rightarrow> nat list" where
  "slice s a b = map of_char (take (b - a) (drop a s))"

lemma slice_same [simp]: "slice s a a = []"
  by (simp add: slice_def)

lemma slice_append: "a \<le> b \<Longrightarrow> b \<le> c \<Longrightarrow> slice s a b @ slice s b c = slice s a c"
proof -
  assume "a \<le> b" "b \<le> c"
  then have "take (b - a) (drop a s) @ take (c - b) (drop b s) = take ((b - a) + (c - b)) (drop a s)"
    unfolding take_add by simp
  then show ?thesis
    using \<open>a \<le> b\<close> \<open>b \<le> c\<close> by (simp add: slice_def flip: map_append)
qed

lemma word_pos_le: "k \<le> length (gb_words s pos len) \<Longrightarrow> pos \<le> len \<Longrightarrow>
    pos \<le> word_pos s pos len k \<and> word_pos s pos len k \<le> len \<and> (0 < k \<longrightarrow> pos < word_pos s pos len k)"
proof (induction k arbitrary: pos)
  case (Suc k)
  then have pos: "pos < len" by (cases "pos < len") auto
  obtain v pos' where g: "scw_get_word s pos len = (v, pos')" by fastforce
  have "pos < pos'" "pos' \<le> len" using scw_get_word_progress [OF pos, of s] g by simp_all
  then show ?case using Suc.IH [of pos'] Suc.prems(1) g pos by (simp add: gb_words_step)
qed simp

lemma gb_words_word_pos: "k \<le> length (gb_words s pos len) \<Longrightarrow>
    gb_words s (word_pos s pos len k) len = drop k (gb_words s pos len)"
proof (induction k arbitrary: pos)
  case (Suc k)
  then have pos: "pos < len" by (cases "pos < len") auto
  obtain v pos' where g: "scw_get_word s pos len = (v, pos')" by fastforce
  then show ?case using Suc.IH [of pos'] Suc.prems pos by (simp add: gb_words_step)
qed simp

lemma enc_slice:
  assumes "k \<le> length (gb_words s pos len)" "pos \<le> len" "len \<le> length s"
  shows "enc (take k (gb_words s pos len)) = slice s pos (word_pos s pos len k)"
proof -
  let ?ws = "gb_words s pos len" and ?q = "word_pos s pos len k"
  have q: "pos \<le> ?q" "?q \<le> len" using word_pos_le [OF assms(1,2)] by simp_all
  have all: "enc (gb_words s p len) = slice s p len" for p
    using gb_words_encode_from [OF assms(3), of p] by (simp add: enc_def slice_def)
  have "enc (take k ?ws) @ enc (drop k ?ws) = enc ?ws" by (simp flip: enc_append)
  then have "enc (take k ?ws) @ slice s ?q len = slice s pos len"
    using all [of pos] all [of ?q] by (simp add: gb_words_word_pos [OF assms(1)])
  also have "slice s pos len = slice s pos ?q @ slice s ?q len" using slice_append [OF q, of s] by simp
  finally show ?thesis by simp
qed

lemma slice_length: "b \<le> length s \<Longrightarrow> length (slice s a b) = b - a"
  by (simp add: slice_def)

text \<open>\<open>l\<close> is the lemma of the words from \<open>pos\<close> to \<open>np\<close>.\<close>

definition match :: "scw_worddict \<Rightarrow> string \<Rightarrow> nat \<Rightarrow> nat \<Rightarrow> nat \<Rightarrow> nat \<Rightarrow> bool" where
  "match d s len pos l np \<longleftrightarrow> l \<noteq> LEMMA_NULL \<and> (\<exists>k. 0 < k \<and> k \<le> length (gb_words s pos len) \<and>
     l = dict_lookup d (take k (gb_words s pos len)) \<and> np = word_pos s pos len k)"

lemma match_ok:
  assumes D: "seg_dict M d" and m: "match d s len pos l np" and b: "pos \<le> len" "len \<le> length s"
  shows "pos < np" "np \<le> len" "l < m_lmpos d" "m_type (m_lemmalist d l) \<in> {LEMMA_TYPE_SBASIC, LEMMA_TYPE_SPHRASE}"
    "np = pos + m_length (m_lemmalist d l)" "lm_text d p (Static l) = slice s pos np"
    "set (gb_words s np len) \<subseteq> set (gb_words s pos len)"
    "m_prelm_pos (m_lemmalist d l) \<noteq> LEMMA_NULL \<Longrightarrow>
      match d s len pos (m_prelm_pos (m_lemmalist d l)) (pos + m_length (m_lemmalist d (m_prelm_pos (m_lemmalist d l)))) \<and>
      m_length (m_lemmalist d (m_prelm_pos (m_lemmalist d l))) < m_length (m_lemmalist d l)"
proof -
  let ?ws = "gb_words s pos len"
  have len: "m_length (m_lemmalist d (dict_lookup d (take k ?ws))) = word_pos s pos len k - pos"
    and spells: "spells d (dict_lookup d (take k ?ws)) (take k ?ws)"
    and linked: "prefix_linked d (dict_lookup d (take k ?ws)) (take k ?ws)"
    if "0 < k" "k \<le> length ?ws" "dict_lookup d (take k ?ws) \<noteq> LEMMA_NULL" for k
  proof -
    have "take k ?ws \<noteq> []" using that by auto
    then show sp: "spells d (dict_lookup d (take k ?ws)) (take k ?ws)"
      "prefix_linked d (dict_lookup d (take k ?ws)) (take k ?ws)"
      using D that(3) by (simp_all add: seg_dict_def dict_texts_def)
    show "m_length (m_lemmalist d (dict_lookup d (take k ?ws))) = word_pos s pos len k - pos"
      using sp(1) b word_pos_le [OF that(2) b(1)]
      by (simp add: spells_def enc_slice [OF that(2) b] slice_length)
  qed
  obtain k where k: "0 < k" "k \<le> length ?ws" "l = dict_lookup d (take k ?ws)" "np = word_pos s pos len k"
    and l: "l \<noteq> LEMMA_NULL" using m by (auto simp: match_def)
  note lt = word_pos_le [OF k(2) b(1)]
  show "pos < np" "np \<le> len" using lt k by simp_all
  show "l < m_lmpos d" "m_type (m_lemmalist d l) \<in> {LEMMA_TYPE_SBASIC, LEMMA_TYPE_SPHRASE}"
    "lm_text d p (Static l) = slice s pos np"
    using spells [OF k(1,2)] k l by (simp_all add: spells_def enc_slice [OF k(2) b])
  show np: "np = pos + m_length (m_lemmalist d l)" using len [OF k(1,2)] k l lt by simp
  show "set (gb_words s np len) \<subseteq> set ?ws" unfolding k(4) gb_words_word_pos [OF k(2)] by (rule set_drop_subset)
  show "match d s len pos (m_prelm_pos (m_lemmalist d l)) (pos + m_length (m_lemmalist d (m_prelm_pos (m_lemmalist d l)))) \<and>
      m_length (m_lemmalist d (m_prelm_pos (m_lemmalist d l))) < m_length (m_lemmalist d l)"
    if nn: "m_prelm_pos (m_lemmalist d l) \<noteq> LEMMA_NULL"
  proof -
    let ?q = "m_prelm_pos (m_lemmalist d l)"
    obtain j where j: "0 < j" "j < k" "?q = dict_lookup d (take j ?ws)"
      using linked [OF k(1,2)] nn k l by (auto simp: prefix_linked_def min_def split: if_splits)
    have jle: "j \<le> length ?ws" using j k by simp
    have lj: "m_length (m_lemmalist d ?q) = word_pos s pos len j - pos" using len [OF j(1) jle] j nn by simp
    have "word_pos s pos len j < word_pos s pos len k"
    proof -
      have "slice s pos (word_pos s pos len k) = enc (take j ?ws) @ enc (take (k - j) (drop j ?ws))"
        using j(2) by (simp add: enc_slice [OF k(2) b, symmetric] flip: enc_append take_add)
      moreover have "enc (take (k - j) (drop j ?ws)) \<noteq> []" using j k by (intro enc_nonempty) simp
      ultimately have "length (slice s pos (word_pos s pos len j)) < length (slice s pos (word_pos s pos len k))"
        by (simp add: enc_slice [OF jle b])
      moreover have "word_pos s pos len j \<le> length s" "word_pos s pos len k \<le> length s"
        using word_pos_le [OF jle b(1)] lt b by simp_all
      ultimately show ?thesis by (simp add: slice_length)
    qed
    then show ?thesis
      using j jle nn lj np k(4) word_pos_le [OF jle b(1)] by (auto simp: match_def intro!: exI [of _ j])
  qed
qed

lemma fmm_word_match:
  assumes D: "seg_dict M d" and b: "pos \<le> len"
  shows "\<exists>l np. scw_get_fmm_word d s len pos = Some (l, np) \<and> pos \<le> np \<and> np \<le> len \<and>
     (l \<noteq> LEMMA_NULL \<longrightarrow> match d s len pos l np) \<and>
     (live_words s pos len \<noteq> [] \<longrightarrow> pos < np) \<and>
     (l = LEMMA_NULL \<longrightarrow> live_words s pos len \<noteq> [] \<longrightarrow> np = snd (scw_get_word s pos len)) \<and>
     (live_words s pos len \<noteq> [] \<longrightarrow> dict_lookup d [hd (gb_words s pos len)] \<noteq> LEMMA_NULL \<longrightarrow> l \<noteq> LEMMA_NULL)"
proof -
  let ?ws = "gb_words s pos len" and ?vs = "live_words s pos len"
  have W: "wf_dict M d" using D by (simp add: seg_dict_def)
  obtain k l np where R: "scw_get_fmm_word d s len pos = Some (l, np)" "best_match d ?vs k l"
    "np = (if ?vs = [] then pos else word_pos s pos len (max 1 k))"
    using fmm_word_ok [OF W, of s len pos] by blast
  have le: "length ?vs \<le> length ?ws" by (rule length_takeWhile_le)
  have pre: "take j ?vs = take j ?ws" if "j \<le> length ?vs" for j
    using that by (metis takeWhile_eq_take take_take min_absorb1)
  have k: "k \<le> length ?vs" "k = 0 \<longleftrightarrow> l = LEMMA_NULL" using R(2) by (auto simp: best_match_def split: if_splits)
  have one: "?vs \<noteq> [] \<Longrightarrow> max 1 k \<le> length ?ws" using k(1) le by (cases ?vs) auto
  have "match d s len pos l np" if "l \<noteq> LEMMA_NULL"
  proof -
    have "0 < k" "?vs \<noteq> []" using that k by auto
    then show ?thesis
      using R(2,3) k le pre [OF k(1)] that by (auto simp: match_def best_match_def max_def intro!: exI [of _ k])
  qed
  moreover have "pos \<le> np \<and> np \<le> len \<and> (?vs \<noteq> [] \<longrightarrow> pos < np)"
    using R(3) one word_pos_le [OF one b] b by auto
  moreover have "np = snd (scw_get_word s pos len)" if "l = LEMMA_NULL" "?vs \<noteq> []"
    using that R(3) k by simp
  moreover have "l \<noteq> LEMMA_NULL" if "?vs \<noteq> []" "dict_lookup d [hd ?ws] \<noteq> LEMMA_NULL"
  proof
    assume "l = LEMMA_NULL"
    then have "k = 0" using k by simp
    moreover have "take 1 ?vs = [hd ?ws]" using that(1) by (cases ?ws) (auto split: if_splits)
    moreover have "1 \<le> length ?vs" using that(1) by (cases ?vs) auto
    ultimately show False using R(2) that(2) by (auto simp: best_match_def dest!: spec [of _ 1])
  qed
  ultimately show ?thesis using R(1) by blast
qed

lemma backtrack_ok:
  assumes D: "seg_dict M d" and b: "fpos \<le> len" "spos \<le> len" and l: "f < m_lmpos d" "sl < m_lmpos d"
    and len: "len \<le> length s"
  obtains r ft fpos' st spos' where "scw_backtrack d s len f fpos sl spos = Some (r, ft, fpos', st, spos')"
    "ft \<noteq> LEMMA_NULL \<Longrightarrow> match d s len fpos ft fpos'" "st \<noteq> LEMMA_NULL \<Longrightarrow> match d s len spos st spos'"
    "ft = LEMMA_NULL \<Longrightarrow> r = 0"
proof -
  obtain ft fpos' where F: "scw_get_fmm_word d s len fpos = Some (ft, fpos')"
    "ft \<noteq> LEMMA_NULL \<longrightarrow> match d s len fpos ft fpos'" using fmm_word_match [OF D b(1)] by blast
  obtain st spos' where S: "scw_get_fmm_word d s len spos = Some (st, spos')"
    "st \<noteq> LEMMA_NULL \<longrightarrow> match d s len spos st spos'" using fmm_word_match [OF D b(2)] by blast
  have W: "wf_amb d" "m_lmpos d < COMMON_NULL" using D by (simp_all add: seg_dict_def wf_dict_def wf_size_def null_defs sizeofs)
  have fs: "ft < COMMON_NULL \<or> ft = LEMMA_NULL" "st < COMMON_NULL \<or> st = LEMMA_NULL"
    using F(2) S(2) match_ok(3) [OF D _ b(1) len] match_ok(3) [OF D _ b(2) len] W(2) less_trans by blast+
  obtain r where "scw_judge_backtrack d f ft sl st = Some r" "ft = LEMMA_NULL \<Longrightarrow> r = 0"
    using judge_total [OF W(1) l fs] by blast
  then show ?thesis using that [of r ft fpos' st spos'] F S by (simp add: scw_backtrack_def)
qed

subsection \<open>Properties\<close>

text \<open>
  C18 The two maximal matchers agree: on input without NUL bytes \<open>scw_get_fmm_word\<close>, which stops
  at a NUL, and \<open>mm_seek_lemma\<close>, which does not, find the same lemma, and the same position
  behind it when there is one; both are the longest prefix of the remaining words that is a
  lemma.
\<close>

theorem fmm_word_is_mm_seek:
  assumes "wf_dict M d" "pos < len" "0 \<notin> set (gb_words s pos len)"
  shows "\<exists>l np np'. scw_get_fmm_word d s len pos = Some (l, np) \<and> mm_seek_lemma d s len pos False = Some (l, np') \<and>
    (l \<noteq> LEMMA_NULL \<longrightarrow> np' = np) \<and>
    (l = LEMMA_NULL \<longrightarrow> (\<forall>k. 0 < k \<and> k \<le> length (gb_words s pos len) \<longrightarrow>
       dict_lookup d (take k (gb_words s pos len)) = LEMMA_NULL))"
proof -
  let ?ws = "gb_words s pos len"
  have ws: "live_words s pos len = ?ws" by (rule live_words_all [OF assms(3)])
  have ne: "?ws \<noteq> []" using assms(2) by (subst gb_words.simps) simp
  obtain k l np where F: "scw_get_fmm_word d s len pos = Some (l, np)" "best_match d ?ws k l"
    "np = word_pos s pos len (max 1 k)"
    using fmm_word_ok [OF assms(1), of s len pos] ne unfolding ws by auto
  obtain k' l' np' where G: "mm_seek_lemma d s len pos False = Some (l', np')" "best_match d ?ws k' l'"
    "0 < k' \<longrightarrow> np' = word_pos s pos len k'"
    using mm_seek_lemma_ok [OF assms(1,2)] by blast
  have e: "k' = k" "l' = l" using best_match_unique [OF F(2) G(2)] by simp_all
  have "np' = np" if "l \<noteq> LEMMA_NULL"
  proof -
    have "0 < k" using F(2) that by (auto simp: best_match_def split: if_splits)
    then show ?thesis using F(3) G(3) e by (simp add: max_def)
  qed
  moreover have "dict_lookup d (take j ?ws) = LEMMA_NULL" if "l = LEMMA_NULL" "0 < j" "j \<le> length ?ws" for j
  proof -
    have "k = 0" using F(2) that(1) by (auto simp: best_match_def split: if_splits)
    then show ?thesis using F(2) that(2,3) by (simp add: best_match_def)
  qed
  ultimately show ?thesis using F(1) G(1) e by blast
qed

theorem fmm_word_is_mm_seek_witness:
  "\<exists>l np np'. scw_get_fmm_word sample_dict ''abc'' 3 1 = Some (l, np) \<and>
     mm_seek_lemma sample_dict ''abc'' 3 1 False = Some (l, np')"
proof -
  have w: "gb_words ''abc'' 1 3 = [98, 99]"
    by (subst gb_words.simps, subst gb_words.simps, subst gb_words.simps)
      (simp add: scw_get_word_def get_value_gb_def cbyte_def Let_def)
  have "0 \<notin> set (gb_words ''abc'' 1 3)" unfolding w by simp
  then show ?thesis using fmm_word_is_mm_seek [OF sample_dict_wf, of 1 3 "''abc''"] by auto
qed

end
