(* ===== verification/SegLoop.thy ===== *)
theory SegLoop
  imports Fmm
begin

text \<open>
  What the segmentation loops of \<open>segimpl.cpp\<close> share: the states of their \<open>switch\<close>, the loop
  around it, and the step that appends a created word.

  The code keeps an integer \<open>state\<close> and a dozen variables; a \<open>seg_state\<close> names the state and
  the variables that are live in it: \<open>Find pos\<close> is state 1, \<open>One pos sl spos\<close> state 2 (the
  lemma \<open>sl\<close> from \<open>pos\<close> to \<open>spos\<close>, without a prefix lemma), \<open>Two pos fl fpos sl spos\<close> state 3
  (the lemma \<open>sl\<close> and its prefix lemma \<open>fl\<close>, ending at \<open>fpos\<close>). The code keeps each lemma twice,
  as an index (\<open>flemma\<close>, \<open>slemma\<close>) and as a pointer (\<open>fplm\<close>, \<open>splm\<close>).
\<close>

subsection \<open>States, steps and the loop\<close>

datatype seg_state = Find nat | One nat nat nat | Two nat nat nat nat nat

datatype seg_step = Go seg_state scw_inner | Halt int scw_inner

text \<open>The state after a lemma \<open>l\<close> from \<open>pos\<close> to \<open>np\<close> has been found, or none.\<close>

definition seg_at :: "scw_worddict \<Rightarrow> nat \<Rightarrow> nat \<Rightarrow> nat \<Rightarrow> seg_state" where
  "seg_at d pos l np =
     (if l = LEMMA_NULL then Find pos
      else let fl = m_prelm_pos (m_lemmalist d l) in
        if fl = LEMMA_NULL then One pos l np
        else Two pos fl (pos + m_length (m_lemmalist d fl)) l np)"

text \<open>The loop; a failed assertion and a loop that does not end are both \<open>None\<close>.\<close>

partial_function (option) seg_loop ::
  "(seg_state \<Rightarrow> scw_inner \<Rightarrow> seg_step option) \<Rightarrow> seg_state \<Rightarrow> scw_inner \<Rightarrow> (int \<times> scw_inner) option" where
  "seg_loop f st p = do {
     o1 \<leftarrow> f st p;
     case o1 of Halt r q \<Rightarrow> Some (r, q) | Go st' q \<Rightarrow> seg_loop f st' q }"

declare seg_loop.simps [code]

text \<open>\<open>append_lemma\<close> on a lemma of the dictionary, then \<open>k\<close>, or -1.\<close>

definition append_then :: "scw_worddict \<Rightarrow> scw_inner \<Rightarrow> nat \<Rightarrow> seg_state \<Rightarrow> seg_step option" where
  "append_then d p l st = do {
     (e, q) \<leftarrow> append_lemma d p (Static l);
     Some (if e < 0 then Halt (-1) q else Go st q) }"

text \<open>A created word is appended and a property is set in its record.\<close>

definition add_dynword :: "scw_inner \<Rightarrow> string \<Rightarrow> (scw_property \<Rightarrow> scw_property) \<Rightarrow> int \<times> scw_inner" where
  "add_dynword p w f =
     (let (k, p1) = create_dynword p w in
      if k < 0 then (-1, p1)
      else let (e, p2) = append_lemma_pos p1 (nat k) SCW_DYNAMIC in
        if e < 0 then (-1, p2)
        else (0, upd_dynlm p2 (nat k) (\<lambda>lm. lm\<lparr>m_property := f (m_property lm)\<rparr>)))"

subsection \<open>Invariants of the loop\<close>

lemma seg_loop_total:
  assumes step: "\<And>st p. I st p \<Longrightarrow> (\<exists>r q. f st p = Some (Halt r q) \<and> Q r q) \<or>
      (\<exists>st' q. f st p = Some (Go st' q) \<and> I st' q \<and> (m st' :: nat) < m st)"
    and I: "I st p"
  shows "\<exists>r q. seg_loop f st p = Some (r, q) \<and> Q r q"
  using I
proof (induction "m st" arbitrary: st p rule: less_induct)
  case less
  from step [OF less.prems] show ?case
  proof (elim disjE exE conjE)
    fix r q assume "f st p = Some (Halt r q)" "Q r q"
    then show ?thesis by (subst seg_loop.simps) simp
  next
    fix st' q assume g: "f st p = Some (Go st' q)" "I st' q" "m st' < m st"
    from less.hyps [OF g(3,2)] g(1) show ?thesis by (subst seg_loop.simps) simp
  qed
qed

text \<open>A state that a step only leads back to is never left.\<close>

lemma seg_loop_stuck:
  assumes step: "\<And>st p. I st p \<Longrightarrow> \<exists>st' q. f st p = Some (Go st' q) \<and> I st' q" and "I st p"
  shows "seg_loop f st p = None"
proof (rule ccontr)
  assume "seg_loop f st p \<noteq> None"
  then obtain y where y: "seg_loop f st p = Some y" by blast
  have "f = f \<longrightarrow> \<not> I st p"
  proof (rule seg_loop.raw_induct [where P = "\<lambda>g st p y. g = f \<longrightarrow> \<not> I st p", OF _ y], intro impI notI)
    fix L g st p z
    assume IH: "\<And>g st p z. L g st p = Some z \<Longrightarrow> g = f \<longrightarrow> \<not> I st p" and "g = f" "I st p"
      and eq: "g st p \<bind> (\<lambda>o1. case o1 of Go st' q \<Rightarrow> L g st' q | Halt r q \<Rightarrow> Some (r, q)) = Some z"
    then show False using step [of st p] by fastforce
  qed
  then show False using assms(2) by simp
qed

subsection \<open>Appending keeps what was there\<close>

text \<open>\<open>q\<close> is \<open>p\<close> with more entries.\<close>

definition appended :: "scw_inner \<Rightarrow> scw_inner \<Rightarrow> bool" where
  "appended p q \<longleftrightarrow> inner_ext p q \<and> m_ppseg_cnt p \<le> m_ppseg_cnt q \<and>
     (\<forall>i < m_ppseg_cnt p. m_ppseg q i = m_ppseg p i)"

lemma appended_refl [simp]: "appended p p"
  by (simp add: appended_def)

lemma appended_trans: "appended p q \<Longrightarrow> appended q s \<Longrightarrow> appended p s"
  by (auto simp: appended_def intro: inner_ext_trans)

lemma set_cnt_fields [simp]: "inner_ext p (q\<lparr>m_ppseg_cnt := n\<rparr>) = inner_ext p q"
  "inner_ext (p\<lparr>m_ppseg_cnt := n\<rparr>) q = inner_ext p q" "seg_refs (p\<lparr>m_ppseg_cnt := n\<rparr>) = seg_refs p"
  by (simp_all add: inner_ext_def seg_refs_def fun_eq_iff)

lemma wf_inner_cnt:
  assumes d: "wf_phrases d" and w: "wf_inner d q" and n: "n \<le> m_ppseg_cnt q"
  shows "wf_inner d (q\<lparr>m_ppseg_cnt := n\<rparr>)"
proof (rule wf_inner_add [OF d w])
  show ext: "inner_ext q (q\<lparr>m_ppseg_cnt := n\<rparr>)" by simp
  show "seg_ref d (q\<lparr>m_ppseg_cnt := n\<rparr>) r"
    if "i < m_ppseg_cnt (q\<lparr>m_ppseg_cnt := n\<rparr>)" "m_ppseg (q\<lparr>m_ppseg_cnt := n\<rparr>) i = Some r" for i r
  proof (rule seg_ref_ext [OF ext wf_inner_seg [OF w]])
    show "i < m_ppseg_cnt q" "m_ppseg q i = Some r" using that n by simp_all
  qed
qed (use w n in \<open>simp_all add: wf_inner_def\<close>)

lemma seg_text_refs:
  assumes "wf_phrases d" "wf_inner d p" "wf_inner d q" "inner_ext p q"
    and "seg_refs q 0 (m_ppseg_cnt q) = seg_refs p 0 (m_ppseg_cnt p)"
  shows "seg_text d q = seg_text d p"
  using map_lm_text_ext [OF assms(1-4) seg_refs_valid [OF assms(2)]] assms(5)
  by (simp add: seg_text_def del: map_eq_conv)

text \<open>Taking back what was appended, and dropping empty entries at the end.\<close>

lemma rewind_ok:
  assumes d: "wf_phrases d" and w: "wf_inner d p" "wf_inner d q" and a: "appended p q"
  shows "wf_inner d (q\<lparr>m_ppseg_cnt := m_ppseg_cnt p\<rparr>)" "appended p (q\<lparr>m_ppseg_cnt := m_ppseg_cnt p\<rparr>)"
    "seg_text d (q\<lparr>m_ppseg_cnt := m_ppseg_cnt p\<rparr>) = seg_text d p"
proof -
  show w': "wf_inner d (q\<lparr>m_ppseg_cnt := m_ppseg_cnt p\<rparr>)"
    using a by (intro wf_inner_cnt [OF d w(2)]) (simp add: appended_def)
  show "appended p (q\<lparr>m_ppseg_cnt := m_ppseg_cnt p\<rparr>)" using a by (simp add: appended_def)
  show "seg_text d (q\<lparr>m_ppseg_cnt := m_ppseg_cnt p\<rparr>) = seg_text d p"
    by (rule seg_text_refs [OF d w(1) w']) (use a in \<open>auto simp: appended_def intro: seg_refs_cong\<close>)
qed

lemma trim_ok:
  assumes d: "wf_phrases d" and w: "wf_inner d q" and n: "n \<le> m_ppseg_cnt q"
    and none: "\<And>i. n \<le> i \<Longrightarrow> i < m_ppseg_cnt q \<Longrightarrow> m_ppseg q i = None"
  shows "wf_inner d (q\<lparr>m_ppseg_cnt := n\<rparr>)" "seg_text d (q\<lparr>m_ppseg_cnt := n\<rparr>) = seg_text d q"
proof -
  show w': "wf_inner d (q\<lparr>m_ppseg_cnt := n\<rparr>)" by (rule wf_inner_cnt [OF d w n])
  have "seg_refs q n (m_ppseg_cnt q - n) = []"
    using none n by (auto simp: seg_refs_def List.map_filter_def filter_empty_conv)
  then have "seg_refs q 0 (m_ppseg_cnt q) = seg_refs q 0 n"
    using seg_refs_split [of q 0 n "m_ppseg_cnt q - n"] n by simp
  then show "seg_text d (q\<lparr>m_ppseg_cnt := n\<rparr>) = seg_text d q"
    by (intro seg_text_refs [OF d w w']) simp_all
qed

text \<open>Texts and well-formedness do not depend on properties.\<close>

lemma property_shape [simp]:
  "static_bytes d (lm\<lparr>m_property := x\<rparr>) = static_bytes d lm" "dyn_bytes b (lm\<lparr>m_property := x\<rparr>) = dyn_bytes b lm"
  "phrase_parts d (lm\<lparr>m_property := x\<rparr>) = phrase_parts d lm" "dyn_parts p (lm\<lparr>m_property := x\<rparr>) = dyn_parts p lm"
  "man_bytes d (lm\<lparr>m_property := x\<rparr>) = man_bytes d lm"
  by (simp_all add: static_bytes_def dyn_bytes_def phrase_parts_def dyn_parts_def man_bytes_def)

lemma token_str_property [simp]: "token_str n d p (lm\<lparr>m_property := x\<rparr>) = token_str n d p lm"
  by (cases n) simp_all

lemma get_token_str_property [simp]: "get_token_str d p (lm\<lparr>m_property := x\<rparr>) = get_token_str d p lm"
  by (simp add: get_token_str_def)

definition same_shape :: "scw_inner \<Rightarrow> scw_inner \<Rightarrow> bool" where
  "same_shape p q \<longleftrightarrow> m_dynbuf q = m_dynbuf p \<and> m_dynphinfo q = m_dynphinfo p \<and> m_dynph_size q = m_dynph_size p \<and>
     (\<forall>k. \<exists>x. m_dynlm q k = (m_dynlm p k)\<lparr>m_property := x\<rparr>)"

lemma deref_shape: "same_shape p q \<Longrightarrow> \<exists>x. deref d q r = (deref d p r)\<lparr>m_property := x\<rparr>"
proof (cases r)
  case (Static l)
  then have "deref d q r = (deref d p r)\<lparr>m_property := m_property (deref d p r)\<rparr>" by (simp add: deref_def)
  then show ?thesis by blast
qed (auto simp: deref_def same_shape_def)

lemma dyn_parts_shape: "same_shape p q \<Longrightarrow> dyn_parts q lm = dyn_parts p lm"
  by (simp add: dyn_parts_def dyn_count_def same_shape_def)

lemma token_str_shape:
  assumes s: "same_shape p q"
  shows "token_str n d q lm = token_str n d p lm"
proof (induction n arbitrary: lm)
  case (Suc n)
  have db: "m_dynbuf q = m_dynbuf p" using s by (simp add: same_shape_def)
  have W: "(\<lambda>r. let l = deref d q r in if m_type l = LEMMA_TYPE_SBASIC then static_bytes d l else dyn_bytes (m_dynbuf p) l) =
      (\<lambda>r. let l = deref d p r in if m_type l = LEMMA_TYPE_SBASIC then static_bytes d l else dyn_bytes (m_dynbuf p) l)"
  proof
    fix r
    show "(let l = deref d q r in if m_type l = LEMMA_TYPE_SBASIC then static_bytes d l else dyn_bytes (m_dynbuf p) l) =
      (let l = deref d p r in if m_type l = LEMMA_TYPE_SBASIC then static_bytes d l else dyn_bytes (m_dynbuf p) l)"
      using deref_shape [OF s, of d r] by (auto simp: Let_def)
  qed
  show ?case unfolding token_str.simps Suc db W dyn_parts_shape [OF s] ..
qed simp

lemma get_token_str_shape: "same_shape p q \<Longrightarrow> get_token_str d q lm = get_token_str d p lm"
  by (simp only: get_token_str_def token_str_shape)

lemma lm_text_shape:
  assumes s: "same_shape p q"
  shows "lm_text d q r = lm_text d p r"
proof -
  have "word_bytes d q r = word_bytes d p r" for r
    using deref_shape [OF s, of d r] s get_token_str_shape [OF s] by (auto simp: word_bytes_def same_shape_def Let_def)
  then have wb: "word_bytes d q = word_bytes d p" by blast
  have tk: "get_token_str d q = get_token_str d p" using get_token_str_shape [OF s] by blast
  have db: "m_dynbuf q = m_dynbuf p" using s by (simp add: same_shape_def)
  have eq: "lmstr_bytes d q lm = lmstr_bytes d p lm" for lm
    unfolding lmstr_bytes_def dyn_parts_shape [OF s] wb tk db ..
  have "lmstr_bytes d p (lm\<lparr>m_property := x\<rparr>) = lmstr_bytes d p lm" for lm x
    by (simp add: lmstr_bytes_def)
  then show ?thesis
    using deref_shape [OF s, of d r] unfolding lm_text_def eq by metis
qed

text \<open>Changing the property of a created record.\<close>

abbreviation set_property :: "(scw_property \<Rightarrow> scw_property) \<Rightarrow> scw_lemma \<Rightarrow> scw_lemma" where
  "set_property f \<equiv> (\<lambda>lm. lm\<lparr>m_property := f (m_property lm)\<rparr>)"

lemma set_property_ok:
  assumes w: "wf_inner d q" and p: "appended p q" "m_dynlm_cnt p \<le> k"
  shows "wf_inner d (upd_dynlm q k (set_property f))" "appended p (upd_dynlm q k (set_property f))"
    "seg_text d (upd_dynlm q k (set_property f)) = seg_text d q"
proof -
  let ?q = "upd_dynlm q k (set_property f)"
  have "m_dynlm ?q j = (m_dynlm q j)\<lparr>m_property := m_property (m_dynlm ?q j)\<rparr>" for j by simp
  then have "\<exists>x. m_dynlm ?q j = (m_dynlm q j)\<lparr>m_property := x\<rparr>" for j by (rule exI)
  then have sh: "same_shape q ?q" unfolding same_shape_def by (simp only: upd_dynlm_fields(5,8,9) simp_thms)
  have dw: "dyn_word ?q (m_dynlm ?q j) = dyn_word q (m_dynlm q j)" for j
    by (simp add: dyn_word_def)
  have wr: "word_ref d ?q r = word_ref d q r" for r by (cases r) (simp_all only: word_ref.simps dw upd_dynlm_fields(12))
  then have "word_ref d ?q = word_ref d q" by blast
  moreover have "words_at ?q = words_at q" "subs_at ?q = subs_at q"
    by (simp_all add: words_at_def subs_at_def fun_eq_iff)
  ultimately have dp: "dyn_phrase d ?q (m_dynlm ?q j) = dyn_phrase d q (m_dynlm q j)" for j
    by (simp add: dyn_phrase_def)
  have sr: "seg_ref d ?q r = seg_ref d q r" for r by (cases r) simp_all
  show "wf_inner d ?q" using w unfolding wf_inner_def dw dp sr upd_dynlm_fields(1-12) .
  show "appended p ?q" using p by (simp add: appended_def inner_ext_def)
  show "seg_text d ?q = seg_text d q" 
    using lm_text_shape [OF sh] by (simp add: seg_text_def seg_refs_def cong: map_cong)
qed

lemma append_static_ok:
  assumes d: "wf_phrases d" and w: "wf_inner d p" and l: "l < m_lmpos d"
    and ty: "m_type (m_lemmalist d l) \<in> {LEMMA_TYPE_SBASIC, LEMMA_TYPE_SPHRASE}"
  shows "append_then d p l st = Some (if m_ppseg_cnt p < m_maxterm p then Go st (put_ppseg p 0 (Static l)) else Halt (-1) p)"
    "m_ppseg_cnt p < m_maxterm p \<Longrightarrow> wf_inner d (put_ppseg p 0 (Static l)) \<and> appended p (put_ppseg p 0 (Static l)) \<and>
       seg_text d (put_ppseg p 0 (Static l)) = seg_text d p @ lm_text d p (Static l)"
proof -
  show "append_then d p l st = Some (if m_ppseg_cnt p < m_maxterm p then Go st (put_ppseg p 0 (Static l)) else Halt (-1) p)"
    using ty by (auto simp: append_then_def append_lemma_def deref_def lemma_types Let_def)
  assume c: "m_ppseg_cnt p < m_maxterm p"
  have r: "seg_ref d p (Static l)" using l ty by simp
  show "wf_inner d (put_ppseg p 0 (Static l)) \<and> appended p (put_ppseg p 0 (Static l)) \<and>
       seg_text d (put_ppseg p 0 (Static l)) = seg_text d p @ lm_text d p (Static l)"
    using put_ppseg_ok [OF d w r c] by (simp add: appended_def) (simp add: put_ppseg_def)
qed

lemma c_strlen_all: "\<forall>c \<in> set s. (of_char c :: nat) \<noteq> 0 \<Longrightarrow> c_strlen s = length s"
  by (simp add: c_strlen_def takeWhile_eq_all_conv [THEN iffD2])

lemma add_dynword_ok:
  assumes d: "wf_phrases d" and w: "wf_inner d p" and s: "length s < 256" "\<forall>c \<in> set s. (of_char c :: nat) \<noteq> 0"
    and a: "add_dynword p s f = (e, q)"
  shows "e = 0 \<or> e = -1" "e = 0 \<Longrightarrow> wf_inner d q \<and> appended p q \<and> m_ppseg_cnt q = m_ppseg_cnt p + 1 \<and>
    seg_text d q = seg_text d p @ map of_char s"
proof -
  show "e = 0 \<or> e = -1" using a by (auto simp: add_dynword_def Let_def split: prod.splits if_splits)
  assume e: "e = 0"
  let ?k = "m_dynlm_cnt p"
  have n: "c_strlen s = length s" by (rule c_strlen_all [OF s(2)])
  obtain r p1 where c: "create_dynword p s = (r, p1)" by fastforce
  have r: "\<not> r < 0" using a c e by (auto simp: add_dynword_def)
  then have "r \<noteq> -1" by simp
  note C = create_dynword_ok [OF d w _ c this, unfolded n, OF s(1)]
  have room: "m_ppseg_cnt p1 < m_maxterm p1"
    and q: "q = upd_dynlm (put_ppseg p1 0 (Dyn ?k)) ?k (set_property f)"
    using a c e r C(1) by (auto simp: add_dynword_def append_lemma_pos_def SCW_STATIC_def SCW_DYNAMIC_def split: if_splits)
  have ref: "seg_ref d p1 (Dyn ?k)" using C(2) by simp
  note P = put_ppseg_ok [OF d C(3) ref room]
  have app: "appended p (put_ppseg p1 0 (Dyn ?k))"
    using inner_ext_trans [OF C(4) P(2)] C(6,7) by (simp add: appended_def) (simp add: put_ppseg_def)
  note S = set_property_ok [OF P(1) app order_refl, of f, folded q]
  have p1: "seg_text d p1 = seg_text d p"
    by (rule seg_text_refs [OF d w C(3,4)]) (use C(6,7) in \<open>auto intro: seg_refs_cong\<close>)
  show "wf_inner d q \<and> appended p q \<and> m_ppseg_cnt q = m_ppseg_cnt p + 1 \<and> seg_text d q = seg_text d p @ map of_char s"
    using S P(3) C(5) p1 C(7) by (simp add: q put_ppseg_def)
qed

subsection \<open>Segmented so far\<close>

fun st_pos :: "seg_state \<Rightarrow> nat" where
  "st_pos (Find pos) = pos"
| "st_pos (One pos sl spos) = pos"
| "st_pos (Two pos fl fpos sl spos) = pos"

fun st_ok :: "scw_worddict \<Rightarrow> string \<Rightarrow> nat \<Rightarrow> seg_state \<Rightarrow> bool" where
  "st_ok d s len (Find pos) \<longleftrightarrow> pos \<le> len"
| "st_ok d s len (One pos sl spos) \<longleftrightarrow> pos \<le> len \<and> match d s len pos sl spos"
| "st_ok d s len (Two pos fl fpos sl spos) \<longleftrightarrow> pos \<le> len \<and> match d s len pos fl fpos \<and> match d s len pos sl spos"

text \<open>The result, from \<open>p0\<close> on, is the text up to the position of the state.\<close>

definition seg_inv :: "scw_worddict \<Rightarrow> string \<Rightarrow> nat \<Rightarrow> scw_inner \<Rightarrow> seg_state \<Rightarrow> scw_inner \<Rightarrow> bool" where
  "seg_inv d s len p0 st p \<longleftrightarrow> wf_inner d p \<and> appended p0 p \<and> st_ok d s len st \<and>
     seg_text d p = seg_text d p0 @ slice s 0 (st_pos st)"

text \<open>Finding comes after appending: a step moves on or finds.\<close>

definition st_measure :: "nat \<Rightarrow> seg_state \<Rightarrow> nat" where
  "st_measure len st = 2 * (len - st_pos st) + (case st of Find _ \<Rightarrow> 1 | _ \<Rightarrow> 0)"

lemma st_measure_less: "st_pos st < st_pos st' \<Longrightarrow> st_pos st' \<le> len \<Longrightarrow> st_measure len st' < st_measure len st"
  by (cases st; cases st') (simp_all add: st_measure_def)

lemma st_ok_pos: "st_ok d s len st \<Longrightarrow> st_pos st \<le> len"
  by (cases st) simp_all

lemma seg_at_pos [simp]: "st_pos (seg_at d pos l np) = pos"
  by (simp add: seg_at_def Let_def)

lemma seg_at_ok:
  assumes "seg_dict M d" "pos \<le> len" "len \<le> length s" "l \<noteq> LEMMA_NULL \<Longrightarrow> match d s len pos l np"
  shows "st_ok d s len (seg_at d pos l np)"
  using assms match_ok(8) [OF assms(1) _ assms(2,3), of l np] by (auto simp: seg_at_def Let_def)

lemma append_then_ok:
  assumes D: "seg_dict M d" and len: "len \<le> length s" and w: "wf_inner d p" "appended p0 p"
    and m: "match d s len pos l np" "pos \<le> len" and t: "seg_text d p = seg_text d p0 @ slice s 0 pos"
    and st: "st_ok d s len st" "st_pos st = np"
  shows "(m_ppseg_cnt p = m_maxterm p \<and> append_then d p l st = Some (Halt (-1) p)) \<or>
    (append_then d p l st = Some (Go st (put_ppseg p 0 (Static l))) \<and> seg_inv d s len p0 st (put_ppseg p 0 (Static l)))"
proof -
  note m' = match_ok [OF D m(1,2) len]
  have d: "wf_phrases d" using D by (simp add: seg_dict_def)
  note A = append_static_ok(1) [OF d w(1) m'(3,4), of st] append_static_ok(2) [OF d w(1) m'(3,4)]
  show ?thesis
  proof (cases "m_ppseg_cnt p < m_maxterm p")
    case True
    have "slice s 0 pos @ slice s pos np = slice s 0 np" using slice_append [of 0 pos np s] m'(1) by simp
    then have "seg_inv d s len p0 st (put_ppseg p 0 (Static l))"
      using A(2) [OF True] w(2) t st m'(6) by (auto simp: seg_inv_def intro: appended_trans)
    then show ?thesis using A(1) True by simp
  qed (use A(1) w(1) in \<open>simp add: wf_inner_def\<close>)
qed

end
