(* ===== verification/Pajm.thy ===== *)
theory Pajm
  imports SegLoop
begin

text \<open>
  Segmenting a run of Japanese katakana: \<open>scw_seg_pajm\<close>, the inner loop over the dictionary, and
  \<open>proc_pajm\<close>, which cuts the run out of the sentence (\<open>segimpl.cpp\<close>); and the recogniser of
  Chinese numbers, \<open>proc_cnum\<close>. A recogniser either leaves the sentence alone (0), or takes a
  stretch longer than the match of the dictionary (1), or fails (-1).
\<close>

subsection \<open>The inner loop\<close>

fun pajm_step :: "scw_worddict \<Rightarrow> string \<Rightarrow> nat \<Rightarrow> seg_state \<Rightarrow> scw_inner \<Rightarrow> seg_step option" where
  "pajm_step d s len (Find pos) p =
     (if pos \<ge> len then Some (Halt 1 p)
      else do { (l, np) \<leftarrow> scw_get_fmm_word d s len pos; Some (Go (seg_at d pos l np) p) })"
| "pajm_step d s len (One pos sl spos) p = append_then d p sl (Find spos)"
| "pajm_step d s len (Two pos fl fpos sl spos) p = do {
     (r, ft, newfpos, st, newspos) \<leftarrow> scw_backtrack d s len fl fpos sl spos;
     if r = 0 then append_then d p sl (seg_at d spos st newspos)
     else append_then d p fl (seg_at d fpos ft newfpos) }"

definition scw_seg_pajm :: "scw_worddict \<Rightarrow> scw_inner \<Rightarrow> string \<Rightarrow> nat \<Rightarrow> (int \<times> scw_inner) option" where
  "scw_seg_pajm d p s len = seg_loop (pajm_step d s len) (Find 0) p"

subsection \<open>The recognisers\<close>

definition is_gb_pajm :: "string \<Rightarrow> nat \<Rightarrow> bool" where
  "is_gb_pajm s i \<longleftrightarrow> (cbyte s i = 0xa5 \<and> cbyte s (i + 1) \<ge> 0xa1 \<and> cbyte s (i + 1) \<le> 0xf6) \<or>
     (cbyte s i = 0xa9 \<and> cbyte s (i + 1) = 0x60)"

text \<open>The end of the run and its number of characters; \<open>None\<close> for more than twelve.\<close>

function pajm_run :: "string \<Rightarrow> nat \<Rightarrow> nat \<Rightarrow> nat \<Rightarrow> nat \<Rightarrow> (nat \<times> nat) option" where
  "pajm_run s slen bpos pos cnt =
     (if pos + 1 < slen \<and> is_gb_pajm s pos then
        if cnt + 1 > 12 then None
        else if pos + 2 - bpos \<ge> MAX_LEMMA_LENGTH - 4 then Some (pos + 2, cnt + 1)
        else pajm_run s slen bpos (pos + 2) (cnt + 1)
      else Some (pos, cnt))"
  by pat_completeness auto

termination pajm_run
  by (relation "measure (\<lambda>(s, slen, bpos, pos, cnt). slen - pos)") auto

declare pajm_run.simps [simp del]

text \<open>\<open>cut s a b\<close> is the word copied from \<open>s\<close>; the last step of both recognisers appends it.\<close>

definition cut :: "string \<Rightarrow> nat \<Rightarrow> nat \<Rightarrow> string" where
  "cut s a b = take (b - a) (drop a s)"

definition take_word :: "scw_inner \<Rightarrow> string \<Rightarrow> nat \<Rightarrow> nat \<Rightarrow> (scw_property \<Rightarrow> scw_property) \<Rightarrow> int \<times> scw_inner \<times> nat" where
  "take_word p s bpos pos f =
     (let (e, q) = add_dynword p (cut s bpos pos) f in if e < 0 then (-1, q, 0) else (1, q, pos))"

definition proc_pajm :: "scw_worddict \<Rightarrow> scw_inner \<Rightarrow> string \<Rightarrow> nat \<Rightarrow> nat \<Rightarrow> nat \<Rightarrow>
    (int \<times> scw_inner \<times> nat) option" where
  "proc_pajm d p buf slen bpos lpos =
     (case pajm_run buf slen bpos bpos 0 of None \<Rightarrow> Some (0, p, 0)
      | Some (pos, cnt) \<Rightarrow>
          if pos \<le> lpos then Some (0, p, 0)
          else if cnt < 5 then Some (take_word p buf bpos pos SET_PAJMSTR)
          else do {
            (e, p1) \<leftarrow> scw_seg_pajm d p (cut buf bpos pos) (pos - bpos);
            let lmbpos = m_ppseg_cnt p;
            let lmcnt = m_ppseg_cnt p1 - lmbpos;
            if e = -1 then Some (take_word (p1\<lparr>m_ppseg_cnt := lmbpos\<rparr>) buf bpos pos SET_PAJMSTR)
            else if lmcnt = 0 then Some (take_word p1 buf bpos pos SET_PAJMSTR)
            else if lmcnt = 1 then Some (1, p1, pos)
            else do {
              (ret, p2) \<leftarrow> poly_lemmas d p1 lmbpos lmcnt;
              if ret < 0 then Some (-1, p2, 0)
              else Some (1, (upd_dynlm p2 (nat ret) (set_property SET_PAJMSTR))
                     \<lparr>m_ppseg_cnt := m_ppseg_cnt p2 - (lmcnt - 1)\<rparr>, pos) } })"

text \<open>\<open>proc_cnum\<close>: the end of the run of number characters that starts at \<open>num_bpos\<close>.\<close>

definition cnum_at :: "scw_worddict \<Rightarrow> nat \<Rightarrow> bool option" where
  "cnum_at d v = do {
     pl \<leftarrow> get_oneword_lemma d v;
     Some (case pl of None \<Rightarrow> False | Some l \<Rightarrow> IS_CNUMBER (m_property (m_lemmalist d l))) }"

function cnum_run :: "scw_worddict \<Rightarrow> string \<Rightarrow> nat \<Rightarrow> nat \<Rightarrow> nat \<Rightarrow> nat option" where
  "cnum_run d s len num_bpos pos =
     (let (v, pos') = scw_get_word s pos len in
      case cnum_at d v of None \<Rightarrow> None
      | Some isnum \<Rightarrow>
          if pos - num_bpos \<ge> MAX_LEMMA_LENGTH - 4 then Some pos
          else if isnum \<and> pos < len then cnum_run d s len num_bpos pos'
          else if isnum then None
          else Some pos)"
  by pat_completeness auto


termination cnum_run
  by (relation "measure (\<lambda>(d, s, len, nb, pos). len - pos)") (auto dest: scw_get_word_shrinks)

declare cnum_run.simps [simp del]

definition proc_cnum :: "scw_worddict \<Rightarrow> scw_inner \<Rightarrow> string \<Rightarrow> nat \<Rightarrow> nat \<Rightarrow> nat \<Rightarrow>
    (int \<times> scw_inner \<times> nat) option" where
  "proc_cnum d p s len pos lpos =
     (let (v, pos') = scw_get_word s pos len in do {
        isnum \<leftarrow> cnum_at d v;
        if \<not> isnum then Some (0, p, 0)
        else do {
          oldpos \<leftarrow> cnum_run d s len pos pos';
          if oldpos \<le> lpos then Some (0, p, 0)
          else Some (take_word p s pos oldpos SET_CNUMBER) } })"

subsection \<open>The inner loop, step by step\<close>

text \<open>Every word of the input is a lemma by itself.\<close>

definition known_words :: "scw_worddict \<Rightarrow> nat list \<Rightarrow> bool" where
  "known_words d ws \<longleftrightarrow> (\<forall>v \<in> set ws. 0 < v \<and> dict_lookup d [v] \<noteq> LEMMA_NULL)"

text \<open>
  The entries appended since \<open>p0\<close> are lemmas of the dictionary, at most one per byte; nothing has
  been created.
\<close>

definition static_tail :: "scw_inner \<Rightarrow> nat \<Rightarrow> scw_inner \<Rightarrow> bool" where
  "static_tail p0 n p \<longleftrightarrow> m_ppseg_cnt p \<le> m_ppseg_cnt p0 + n \<and> m_dynlm_cnt p = m_dynlm_cnt p0 \<and>
     m_dynb_curpos p = m_dynb_curpos p0 \<and> m_dynph_curpos p = m_dynph_curpos p0 \<and>
     (\<forall>i. m_ppseg_cnt p0 \<le> i \<longrightarrow> i < m_ppseg_cnt p \<longrightarrow> (\<exists>l. m_ppseg p i = Some (Static l)))"

definition pajm_inv :: "scw_worddict \<Rightarrow> string \<Rightarrow> nat \<Rightarrow> scw_inner \<Rightarrow> seg_state \<Rightarrow> scw_inner \<Rightarrow> bool" where
  "pajm_inv d s len p0 st p \<longleftrightarrow> seg_inv d s len p0 st p \<and> known_words d (gb_words s (st_pos st) len) \<and>
     static_tail p0 (st_pos st) p"

definition pajm_end :: "scw_worddict \<Rightarrow> string \<Rightarrow> nat \<Rightarrow> scw_inner \<Rightarrow> int \<Rightarrow> scw_inner \<Rightarrow> bool" where
  "pajm_end d s len p0 r q \<longleftrightarrow> wf_inner d q \<and> appended p0 q \<and> static_tail p0 len q \<and>
     (r = 1 \<and> seg_text d q = seg_text d p0 @ slice s 0 len \<or> r = -1 \<and> m_ppseg_cnt q = m_maxterm q)"

lemma static_tail_mono: "static_tail p0 n p \<Longrightarrow> n \<le> m \<Longrightarrow> static_tail p0 m p"
  by (simp add: static_tail_def)

lemma static_tail_put: "static_tail p0 n p \<Longrightarrow> n < m \<Longrightarrow> static_tail p0 m (put_ppseg p 0 (Static l))"
  by (auto simp: static_tail_def put_ppseg_def)

lemma pajm_append:
  assumes D: "seg_dict M d" and len: "len \<le> length s" and I: "pajm_inv d s len p0 st0 p"
    and m: "match d s len (st_pos st0) l np" and st: "st_ok d s len st" "st_pos st = np"
  shows "(\<exists>r q. append_then d p l st = Some (Halt r q) \<and> pajm_end d s len p0 r q) \<or>
    (\<exists>st' q. append_then d p l st = Some (Go st' q) \<and> pajm_inv d s len p0 st' q \<and> st_measure len st' < st_measure len st0)"
proof -
  have i: "wf_inner d p" "appended p0 p" "seg_text d p = seg_text d p0 @ slice s 0 (st_pos st0)" "st_ok d s len st0"
    and k: "known_words d (gb_words s (st_pos st0) len)" and t: "static_tail p0 (st_pos st0) p"
    using I by (simp_all add: pajm_inv_def seg_inv_def)
  have pos: "st_pos st0 \<le> len" by (rule st_ok_pos [OF i(4)])
  note A = append_then_ok [OF D len i(1,2) m pos i(3) st]
  note m' = match_ok [OF D m pos len]
  have "known_words d (gb_words s (st_pos st) len)" using k m'(7) st(2) by (auto simp: known_words_def)
  moreover have "st_measure len st < st_measure len st0"
    using m'(1,2) st by (intro st_measure_less) simp_all
  moreover have "static_tail p0 (st_pos st) (put_ppseg p 0 (Static l))" using t m'(1) st(2) by (auto intro: static_tail_put)
  moreover have "static_tail p0 len p" using t pos by (rule static_tail_mono)
  ultimately show ?thesis using A i(1,2) by (auto simp: pajm_inv_def pajm_end_def)
qed

lemma pajm_step_ok:
  assumes D: "seg_dict M d" and len: "len \<le> length s" and I: "pajm_inv d s len p0 st p"
  shows "(\<exists>r q. pajm_step d s len st p = Some (Halt r q) \<and> pajm_end d s len p0 r q) \<or>
    (\<exists>st' q. pajm_step d s len st p = Some (Go st' q) \<and> pajm_inv d s len p0 st' q \<and> st_measure len st' < st_measure len st)"
proof (cases st)
  case (Find pos)
  have i: "pos \<le> len" "seg_inv d s len p0 st p" "known_words d (gb_words s pos len)" "static_tail p0 pos p"
    using I Find by (simp_all add: pajm_inv_def seg_inv_def)
  show ?thesis
  proof (cases "len \<le> pos")
    case True
    then show ?thesis using i Find static_tail_mono [of p0 pos p len] by (simp add: pajm_end_def seg_inv_def)
  next
    case False
    then obtain v ws where ws: "gb_words s pos len = v # ws" by (subst (asm) gb_words.simps) auto
    have v: "0 < v" "dict_lookup d [v] \<noteq> LEMMA_NULL" using i(3) ws by (simp_all add: known_words_def)
    have lv: "live_words s pos len \<noteq> []" using ws v by simp
    obtain l np where F: "scw_get_fmm_word d s len pos = Some (l, np)" "l \<noteq> LEMMA_NULL" "match d s len pos l np"
      using fmm_word_match [OF D i(1), of s] lv ws v(2) by auto
    have st': "st_ok d s len (seg_at d pos l np)" by (rule seg_at_ok [OF D i(1) len F(3)])
    have "st_measure len (seg_at d pos l np) < st_measure len st"
      using F(2) Find by (auto simp: st_measure_def seg_at_def Let_def)
    moreover have "pajm_inv d s len p0 (seg_at d pos l np) p"
      using i st' Find by (simp add: pajm_inv_def seg_inv_def)
    ultimately show ?thesis using F(1) Find False by simp
  qed
next
  case (One pos sl spos)
  then have i: "seg_inv d s len p0 st p" "match d s len (st_pos st) sl spos"
    "pos \<le> len" using I by (simp_all add: pajm_inv_def seg_inv_def)
  have "spos \<le> len" using match_ok(2) [OF D, of s len pos sl spos] i One len by simp
  then show ?thesis using pajm_append [OF D len I i(2), of "Find spos"] One by simp
next
  case (Two pos fl fpos sl spos)
  then have i: "seg_inv d s len p0 st p" "match d s len (st_pos st) sl spos"
    "match d s len (st_pos st) fl fpos" "st_pos st \<le> len" using I by (simp_all add: pajm_inv_def seg_inv_def)
  note f = match_ok [OF D i(3,4) len] and sl = match_ok [OF D i(2,4) len]
  obtain r ft fpos' st2 spos' where B: "scw_backtrack d s len fl fpos sl spos = Some (r, ft, fpos', st2, spos')"
    "ft \<noteq> LEMMA_NULL \<Longrightarrow> match d s len fpos ft fpos'" "st2 \<noteq> LEMMA_NULL \<Longrightarrow> match d s len spos st2 spos'"
    using backtrack_ok [OF D f(2) sl(2) f(3) sl(3) len] by metis
  show ?thesis
  proof (cases "r = 0")
    case True
    have "st_ok d s len (seg_at d spos st2 spos')" using seg_at_ok [OF D sl(2) len B(3)] by simp
    from pajm_append [OF D len I i(2) this] show ?thesis using B(1) True Two by simp
  next
    case False
    have "st_ok d s len (seg_at d fpos ft fpos')" using seg_at_ok [OF D f(2) len B(2)] by simp
    from pajm_append [OF D len I i(3) this] show ?thesis using B(1) False Two by simp
  qed
qed

lemma seg_pajm_ok:
  assumes D: "seg_dict M d" and len: "len \<le> length s" and w: "wf_inner d p"
    and k: "known_words d (gb_words s 0 len)"
  shows "\<exists>r q. scw_seg_pajm d p s len = Some (r, q) \<and> pajm_end d s len p r q"
  unfolding scw_seg_pajm_def
proof (rule seg_loop_total [where I = "pajm_inv d s len p" and m = "st_measure len"])
  show "pajm_inv d s len p (Find 0) p" using w k by (simp add: pajm_inv_def seg_inv_def static_tail_def)
qed (rule pajm_step_ok [OF D len])

subsection \<open>The contract of a recogniser\<close>

definition no_nul :: "string \<Rightarrow> nat \<Rightarrow> bool" where
  "no_nul s len \<longleftrightarrow> (\<forall>i < len. cbyte s i \<noteq> 0)"

text \<open>
  What the main loop relies on: a recogniser ends; with 1 the result has grown by the text up to
  the new position, which lies beyond the match \<open>lpos\<close> of the dictionary; with 0 it has not
  grown. \<open>good\<close> is what the recogniser itself needs of the dictionary.
\<close>

locale recogniser =
  fixes recg :: "scw_worddict \<Rightarrow> scw_inner \<Rightarrow> string \<Rightarrow> nat \<Rightarrow> nat \<Rightarrow> nat \<Rightarrow> (int \<times> scw_inner \<times> nat) option"
    and good :: "scw_worddict \<Rightarrow> bool"
  assumes recg_total: "seg_dict M d \<Longrightarrow> good d \<Longrightarrow> wf_inner d p \<Longrightarrow> pos < lpos \<Longrightarrow> lpos \<le> len \<Longrightarrow>
      len \<le> length s \<Longrightarrow> no_nul s len \<Longrightarrow> \<exists>r q np. recg d p s len pos lpos = Some (r, q, np) \<and> r \<in> {0, 1, -1}"
    and recg_takes: "seg_dict M d \<Longrightarrow> good d \<Longrightarrow> wf_inner d p \<Longrightarrow> pos < lpos \<Longrightarrow> lpos \<le> len \<Longrightarrow>
      len \<le> length s \<Longrightarrow> no_nul s len \<Longrightarrow> recg d p s len pos lpos = Some (1, q, np) \<Longrightarrow>
      lpos < np \<and> np \<le> len \<and> wf_inner d q \<and> appended p q \<and> seg_text d q = seg_text d p @ slice s pos np"
    and recg_leaves: "seg_dict M d \<Longrightarrow> good d \<Longrightarrow> wf_inner d p \<Longrightarrow> pos < lpos \<Longrightarrow> lpos \<le> len \<Longrightarrow>
      len \<le> length s \<Longrightarrow> no_nul s len \<Longrightarrow> recg d p s len pos lpos = Some (0, q, np) \<Longrightarrow>
      wf_inner d q \<and> appended p q \<and> seg_text d q = seg_text d p"
begin

text \<open>The use the main loop makes of it, in a state with a match that ends at \<open>spos\<close>.\<close>

lemma step_in_loop:
  assumes D: "seg_dict M d" "good d" and len: "len \<le> length s" "no_nul s len" and I: "seg_inv d s len p0 st p"
    and m: "match d s len (st_pos st) sl spos"
  obtains q np where "recg d p s len (st_pos st) spos = Some (1, q, np)" "seg_inv d s len p0 (Find np) q"
      "st_measure len (Find np) < st_measure len st"
    | q np where "recg d p s len (st_pos st) spos = Some (0, q, np)" "seg_inv d s len p0 st q"
    | q np where "recg d p s len (st_pos st) spos = Some (-1, q, np)"
proof -
  have i: "wf_inner d p" "appended p0 p" "seg_text d p = seg_text d p0 @ slice s 0 (st_pos st)" "st_ok d s len st"
    using I by (simp_all add: seg_inv_def)
  have pos: "st_pos st \<le> len" by (rule st_ok_pos [OF i(4)])
  note m' = match_ok [OF D(1) m pos len(1)]
  note C = D i(1) m'(1,2) len
  obtain r q np where R: "recg d p s len (st_pos st) spos = Some (r, q, np)" "r \<in> {0, 1, -1}"
    using recg_total [OF C] by blast
  consider "r = 1" | "r = 0" | "r = -1" using R(2) by blast
  then show ?thesis
  proof cases
    case 1
    note T = recg_takes [OF C R(1) [unfolded 1]]
    have "slice s 0 (st_pos st) @ slice s (st_pos st) np = slice s 0 np"
      using slice_append [of 0 "st_pos st" np s] T m'(1) by simp
    then have "seg_inv d s len p0 (Find np) q"
      using T i appended_trans [OF i(2)] by (auto simp: seg_inv_def)
    moreover have "st_measure len (Find np) < st_measure len st"
      using T m'(1,2) by (intro st_measure_less) simp_all
    ultimately show ?thesis using that(1) R(1) 1 by blast
  next
    case 2
    have "seg_inv d s len p0 st q"
      using recg_leaves [OF C R(1) [unfolded 2]] i appended_trans [OF i(2)] by (auto simp: seg_inv_def)
    then show ?thesis using that(2) R(1) 2 by blast
  next
    case 3
    then show ?thesis using that(3) R(1) by blast
  qed
qed

end

subsection \<open>The recogniser of numbers\<close>

lemma cbyte_char: "i < length s \<Longrightarrow> cbyte s i = of_char (s ! i)"
  by simp

lemma cut_ok:
  assumes "b \<le> length s"
  shows "map of_char (cut s a b) = slice s a b" "length (cut s a b) = b - a"
    "i < b - a \<Longrightarrow> cbyte (cut s a b) i = cbyte s (a + i)"
    "no_nul s b \<Longrightarrow> \<forall>c \<in> set (cut s a b). (of_char c :: nat) \<noteq> 0"
proof -
  show "map of_char (cut s a b) = slice s a b" by (simp add: cut_def slice_def)
  show l: "length (cut s a b) = b - a" using assms by (simp add: cut_def)
  show c: "cbyte (cut s a b) i = cbyte s (a + i)" if "i < b - a" for i
  proof -
    have "a + i < length s" using that assms by simp
    then show ?thesis using that l by (simp add: cut_def)
  qed
  show "\<forall>c \<in> set (cut s a b). (of_char c :: nat) \<noteq> 0" if "no_nul s b"
  proof
    fix ch assume "ch \<in> set (cut s a b)"
    then obtain j where j: "j < b - a" "cut s a b ! j = ch" using l by (metis in_set_conv_nth)
    then have "of_char ch = cbyte s (a + j)" using c [OF j(1)] l by simp
    then show "(of_char ch :: nat) \<noteq> 0" using that j(1) by (simp add: no_nul_def)
  qed
qed

lemma take_word_ok:
  assumes d: "wf_phrases d" and w: "wf_inner d p" and e: "e - pos < 256" "e \<le> length s" "no_nul s e"
    and t: "take_word p s pos e f = (r, q, np)"
  shows "r = 1 \<or> r = -1" "r = 1 \<Longrightarrow> np = e \<and> wf_inner d q \<and> appended p q \<and> seg_text d q = seg_text d p @ slice s pos e"
proof -
  note c = cut_ok [OF e(2), where a = pos]
  obtain k q' where a: "add_dynword p (cut s pos e) f = (k, q')" by fastforce
  note A = add_dynword_ok [OF d w _ c(4) [OF e(3)] a, unfolded c(1,2), OF e(1)]
  show "r = 1 \<or> r = -1" using t a by (auto simp: take_word_def split: if_splits)
  show "r = 1 \<Longrightarrow> np = e \<and> wf_inner d q \<and> appended p q \<and> seg_text d q = seg_text d p @ slice s pos e"
    using t a A by (auto simp: take_word_def split: if_splits)
qed

text \<open>Room for a created word of \<open>n\<close> bytes and its entry; a word fails only for want of it.\<close>

definition word_room :: "scw_inner \<Rightarrow> nat \<Rightarrow> bool" where
  "word_room p n \<longleftrightarrow> m_dynb_curpos p + n + 1 < m_dynb_size p \<and> m_dynlm_cnt p < m_dynlm_size p \<and> m_ppseg_cnt p < m_maxterm p"

lemma add_dynword_code: "fst (add_dynword p w f) = (if word_room p (c_strlen w) then 0 else -1)"
  by (simp add: word_room_def add_dynword_def create_dynword_def append_lemma_pos_def upd_dynlm_def SCW_STATIC_def
      SCW_DYNAMIC_def Let_def)

text \<open>The record of the entry that was appended last.\<close>

lemma add_dynword_last:
  assumes "add_dynword p w f = (0, q)"
  shows "m_ppseg_cnt q = m_ppseg_cnt p + 1" "m_ppseg q (m_ppseg_cnt p) = Some (Dyn (m_dynlm_cnt p))"
    "m_property (m_dynlm q (m_dynlm_cnt p)) = f (SET_TEMP INIT_PROPERTY)"
proof -
  obtain k p1 where c: "create_dynword p w = (k, p1)" by fastforce
  then have k: "k = int (m_dynlm_cnt p)" and p1: "m_ppseg_cnt p1 = m_ppseg_cnt p"
      "m_property (m_dynlm p1 (m_dynlm_cnt p)) = SET_TEMP INIT_PROPERTY"
    using assms by (auto simp: add_dynword_def create_dynword_def Let_def upd_dynlm_def split: if_splits)
  have q: "q = upd_dynlm (put_ppseg p1 0 (Dyn (m_dynlm_cnt p))) (m_dynlm_cnt p) (set_property f)"
    using assms c k by (auto simp: add_dynword_def append_lemma_pos_def SCW_STATIC_def SCW_DYNAMIC_def split: if_splits)
  show "m_ppseg_cnt q = m_ppseg_cnt p + 1" "m_ppseg q (m_ppseg_cnt p) = Some (Dyn (m_dynlm_cnt p))"
    "m_property (m_dynlm q (m_dynlm_cnt p)) = f (SET_TEMP INIT_PROPERTY)"
    using p1 by (simp_all add: q put_ppseg_def upd_dynlm_def)
qed

text \<open>
  The word from \<open>pos\<close> to \<open>e\<close> taken: one more entry, the others untouched, its text the word and
  its property set; it fails exactly when there is no room.
\<close>

definition word_taken :: "scw_worddict \<Rightarrow> scw_inner \<Rightarrow> string \<Rightarrow> (scw_property \<Rightarrow> bool) \<Rightarrow> scw_inner \<Rightarrow> bool" where
  "word_taken d p w chk q \<longleftrightarrow> wf_inner d q \<and> m_ppseg_cnt q = m_ppseg_cnt p + 1 \<and>
     (\<forall>i < m_ppseg_cnt p. m_ppseg q i = m_ppseg p i) \<and> seg_text d q = seg_text d p @ map of_char w \<and>
     (\<exists>r. m_ppseg q (m_ppseg_cnt p) = Some r \<and> chk (m_property (deref d q r)))"

lemma take_word_exact:
  assumes d: "wf_phrases d" and w: "wf_inner d p" and e: "e - pos < 256" "e \<le> length s" "no_nul s e"
    and f: "chk (f (SET_TEMP INIT_PROPERTY))"
  shows "if word_room p (e - pos) then \<exists>q. take_word p s pos e f = (1, q, e) \<and> appended p q \<and> word_taken d p (cut s pos e) chk q
    else \<exists>q. take_word p s pos e f = (-1, q, 0)"
proof -
  note c = cut_ok [OF e(2), where a = pos]
  have n: "c_strlen (cut s pos e) = e - pos" using c_strlen_all [OF c(4) [OF e(3)]] c(2) by simp
  obtain k q where a: "add_dynword p (cut s pos e) f = (k, q)" by fastforce
  then have k: "k = (if word_room p (e - pos) then 0 else -1)" using add_dynword_code [of p "cut s pos e" f] n by simp
  note A = add_dynword_ok [OF d w _ c(4) [OF e(3)] a, unfolded c(2), OF e(1)]
  show ?thesis
  proof (cases "word_room p (e - pos)")
    case True
    then have k0: "k = 0" using k by simp
    note L = add_dynword_last [OF a [unfolded k0]]
    have "appended p q \<and> word_taken d p (cut s pos e) chk q"
      using A(2) [OF k0] L f by (simp add: word_taken_def appended_def deref_def)
    then show ?thesis using True a k0 by (simp add: take_word_def)
  qed (use a k in \<open>simp add: take_word_def\<close>)
qed

lemma no_nul_mono: "no_nul s len \<Longrightarrow> e \<le> len \<Longrightarrow> no_nul s e"
  by (simp add: no_nul_def)

lemma cnum_at_total: "wf_dict M d \<Longrightarrow> \<exists>b. cnum_at d v = Some b"
proof -
  assume W: "wf_dict M d"
  have "valid_key d DENTRY_FIRST" by (simp add: valid_key_def)
  from scw_seek_entry_child [OF W this, of v] show ?thesis by (simp add: cnum_at_def get_oneword_lemma_def Let_def)
qed

text \<open>No term has a NUL byte: C strings do not.\<close>

definition no_nul_terms :: "scw_worddict \<Rightarrow> bool" where
  "no_nul_terms d \<longleftrightarrow> dict_lookup d [0] = LEMMA_NULL"

lemma cnum_at_nul:
  assumes W: "wf_dict M d" and n: "no_nul_terms d"
  shows "cnum_at d 0 = Some False"
proof -
  have v: "valid_key d DENTRY_FIRST" by (simp add: valid_key_def)
  show ?thesis
  proof (cases "child d DENTRY_FIRST 0")
    case None
    then show ?thesis using scw_seek_entry_child [OF W v, of 0] by (simp add: cnum_at_def get_oneword_lemma_def)
  next
    case (Some q)
    then have "trie.node d [0] = Some q" by simp
    then have "m_lemma_pos (m_dictentry d q) = LEMMA_NULL" using n node_lookup by (simp add: no_nul_terms_def)
    then show ?thesis using scw_seek_entry_child [OF W v, of 0] Some
      by (simp add: cnum_at_def get_oneword_lemma_def null_defs)
  qed
qed

lemma scw_get_word_short: "snd (scw_get_word s pos len) \<le> pos + 4"
  using get_value_gb_short [of s pos len] by (simp add: scw_get_word_def)

lemma cnum_run_ok:
  "wf_dict M d \<Longrightarrow> no_nul_terms d \<Longrightarrow> pos \<le> len \<Longrightarrow> pos - nb < 256 \<Longrightarrow>
    \<exists>e. cnum_run d s len nb pos = Some e \<and> pos \<le> e \<and> e \<le> len \<and> e - nb < 256"
proof (induction d s len nb pos rule: cnum_run.induct)
  case (1 d s len nb pos)
  obtain v pos' where g: "scw_get_word s pos len = (v, pos')" by fastforce
  obtain b where b: "cnum_at d v = Some b" using cnum_at_total [OF "1.prems"(1)] by blast
  have lim: "MAX_LEMMA_LENGTH - 4 = 252" by (simp add: max_sizes)
  show ?case
  proof (cases "pos - nb \<ge> 252 \<or> \<not> b")
    case True
    then have "cnum_run d s len nb pos = Some pos" using g b lim by (subst cnum_run.simps) auto
    then show ?thesis using "1.prems" by simp
  next
    case False
    have lt: "pos < len"
    proof (rule ccontr)
      assume "\<not> pos < len"
      then have "v = 0" using g by (simp add: scw_get_word_end)
      then show False using cnum_at_nul [OF "1.prems"(1,2)] b False by simp
    qed
    have p': "pos < pos'" "pos' \<le> len" "pos' \<le> pos + 4"
      using scw_get_word_progress [OF lt, of s] scw_get_word_short [of s pos len] g by simp_all
    have "\<exists>e. cnum_run d s len nb pos' = Some e \<and> pos' \<le> e \<and> e \<le> len \<and> e - nb < 256"
      using False lt p' lim "1.prems" by (intro "1.IH" [OF g [symmetric] refl b]) auto
    moreover have "cnum_run d s len nb pos = cnum_run d s len nb pos'"
      using False lt g b lim by (subst cnum_run.simps) simp
    ultimately show ?thesis using p'(1) by auto
  qed
qed

lemma proc_cnum_cases:
  assumes W: "wf_dict M d" "no_nul_terms d" and p: "pos < len"
  shows "proc_cnum d p s len pos lpos = Some (0, p, 0) \<or>
    (\<exists>e. lpos < e \<and> e \<le> len \<and> e - pos < 256 \<and> proc_cnum d p s len pos lpos = Some (take_word p s pos e SET_CNUMBER))"
proof -
  obtain v pos' where g: "scw_get_word s pos len = (v, pos')" by fastforce
  have p': "pos < pos'" "pos' \<le> len" "pos' \<le> pos + 4"
    using scw_get_word_progress [OF p, of s] scw_get_word_short [of s pos len] g by simp_all
  obtain b where b: "cnum_at d v = Some b" using cnum_at_total [OF W(1)] by blast
  have p4: "pos' - pos < 256" using p'(3) by simp
  obtain e where "cnum_run d s len pos pos' = Some e" "pos' \<le> e" "e \<le> len" "e - pos < 256"
    using cnum_run_ok [OF W p'(2) p4] by blast
  note e = this
  show ?thesis
  proof (cases "b \<and> lpos < e")
    case True
    then show ?thesis using g b e by (intro disjI2 exI [of _ e]) (simp add: proc_cnum_def)
  qed (use g b e in \<open>auto simp: proc_cnum_def\<close>)
qed

text \<open>
  What a character of a number is: a lemma by itself with the property of numbers. The run of
  the code is then the characters from \<open>pos\<close> on, as the text is cut into characters, up to the
  first that is none, or until 252 bytes are reached.
\<close>

definition num_char :: "scw_worddict \<Rightarrow> nat \<Rightarrow> bool" where
  "num_char d v \<longleftrightarrow> dict_lookup d [v] \<noteq> LEMMA_NULL \<and> IS_CNUMBER (m_property (m_lemmalist d (dict_lookup d [v])))"

definition spell :: "nat list \<Rightarrow> string" where
  "spell vs = concat (map gb_encode vs)"

definition num_stretch :: "scw_worddict \<Rightarrow> nat list \<Rightarrow> nat list \<Rightarrow> bool" where
  "num_stretch d ws vs \<longleftrightarrow> (\<exists>rest. ws = vs @ rest \<and> (\<forall>v \<in> set vs. num_char d v) \<and>
     (rest = [] \<or> \<not> num_char d (hd rest) \<or> 252 \<le> length (spell vs)) \<and> length (spell (butlast vs)) < 252)"

lemma spell_simps [simp]: "spell [] = []" "spell (v # vs) = gb_encode v @ spell vs"
  by (simp_all add: spell_def)

lemma cnum_at_eq:
  assumes W: "wf_dict M d"
  shows "cnum_at d v = Some (num_char d v)"
proof -
  have vk: "valid_key d DENTRY_FIRST" by (simp add: valid_key_def)
  show ?thesis
  proof (cases "child d DENTRY_FIRST v")
    case None
    then have "dict_lookup d [v] = LEMMA_NULL" by (simp add: dict_lookup_def)
    then show ?thesis using scw_seek_entry_child [OF W vk, of v] None
      by (simp add: cnum_at_def get_oneword_lemma_def num_char_def)
  next
    case (Some q)
    then have "trie.node d [v] = Some q" by simp
    then have "dict_lookup d [v] = m_lemma_pos (m_dictentry d q)" by (rule node_lookup)
    moreover have "q \<noteq> DENTRY_NULL" using Some by (auto simp: child_def Let_def split: if_splits)
    ultimately show ?thesis using scw_seek_entry_child [OF W vk, of v] Some
      by (auto simp: cnum_at_def get_oneword_lemma_def num_char_def Let_def null_defs)
  qed
qed

lemma get_word_bytes:
  assumes "scw_get_word s pos len = (v, np)" "pos < len" "len \<le> length s"
  shows "gb_encode v = cut s pos np" "np \<le> len" "pos < np" "length (gb_encode v) = np - pos"
proof -
  show g: "gb_encode v = cut s pos np" using get_value_gb_bytes [OF assms(2,3)] assms by (simp add: scw_get_word_in cut_def)
  show "np \<le> len" "pos < np" using scw_get_word_progress [OF assms(2), of s] assms(1) by simp_all
  then show "length (gb_encode v) = np - pos" using g cut_ok(2) [of np s pos] assms(3) by simp
qed

lemma cut_append: "a \<le> b \<Longrightarrow> b \<le> c \<Longrightarrow> cut s a b @ cut s b c = cut s a c"
proof -
  assume *: "a \<le> b" "b \<le> c"
  then have "take (b - a) (drop a s) @ take (c - b) (drop b s) = take ((b - a) + (c - b)) (drop a s)"
    unfolding take_add by simp
  then show ?thesis using * by (simp add: cut_def)
qed

lemma cnum_run_words:
  "wf_dict M d \<Longrightarrow> no_nul_terms d \<Longrightarrow> nb \<le> pos \<Longrightarrow> pos \<le> len \<Longrightarrow> len \<le> length s \<Longrightarrow>
    \<exists>e vs rest. cnum_run d s len nb pos = Some e \<and> pos \<le> e \<and> e \<le> len \<and> gb_words s pos len = vs @ rest \<and>
      (\<forall>v \<in> set vs. num_char d v) \<and> spell vs = cut s pos e \<and> (rest = [] \<or> \<not> num_char d (hd rest) \<or> 252 \<le> e - nb) \<and>
      (vs \<noteq> [] \<longrightarrow> pos - nb + length (spell (butlast vs)) < 252)"
proof (induction d s len nb pos rule: cnum_run.induct)
  case (1 d s len nb pos)
  obtain v pos' where g: "scw_get_word s pos len = (v, pos')" by fastforce
  note b = cnum_at_eq [OF "1.prems"(1), of v]
  have lim: "MAX_LEMMA_LENGTH - 4 = 252" by (simp add: max_sizes)
  have at_end: "\<not> num_char d v" if "\<not> pos < len"
  proof -
    have "v = 0" using g that by (simp add: scw_get_word_end)
    then show ?thesis using "1.prems"(2) by (simp add: num_char_def no_nul_terms_def)
  qed
  show ?case
  proof (cases "pos - nb \<ge> 252 \<or> \<not> num_char d v")
    case True
    then have r: "cnum_run d s len nb pos = Some pos" using g b lim by (subst cnum_run.simps) auto
    have "gb_words s pos len = [] \<or> \<not> num_char d (hd (gb_words s pos len)) \<or> 252 \<le> pos - nb"
      using True gb_words_step [OF _ g] by (cases "pos < len") auto
    then show ?thesis using r "1.prems"(4) by (intro exI [of _ pos] exI [of _ "[]"] exI [of _ "gb_words s pos len"]) (simp add: cut_def)
  next
    case False
    have lt: "pos < len" using at_end False by blast
    note B = get_word_bytes [OF g lt "1.prems"(5)]
    have nb: "nb \<le> pos'" using B(3) "1.prems"(3) by simp
    have nf: "\<not> MAX_LEMMA_LENGTH - 4 \<le> pos - nb" using False lim by simp
    have go: "num_char d v \<and> pos < len" using False lt by simp
    obtain e vs rest where r: "cnum_run d s len nb pos' = Some e" "pos' \<le> e" "e \<le> len" "gb_words s pos' len = vs @ rest"
      "\<forall>v \<in> set vs. num_char d v" "spell vs = cut s pos' e" "rest = [] \<or> \<not> num_char d (hd rest) \<or> 252 \<le> e - nb"
      "vs \<noteq> [] \<longrightarrow> pos' - nb + length (spell (butlast vs)) < 252"
      using "1.IH" [OF g [symmetric] refl b nf go "1.prems"(1,2) nb B(2) "1.prems"(5)] by blast
    have "cnum_run d s len nb pos = Some e"
      using nf go g b r(1) by (subst cnum_run.simps) simp
    moreover have "gb_words s pos len = (v # vs) @ rest" using gb_words_step [OF lt g] r(4) by simp
    moreover have "spell (v # vs) = cut s pos e" using B(1,3) r(2,6) cut_append [of pos pos' e s] by simp
    moreover have "pos - nb + length (spell (butlast (v # vs))) < 252"
      using r(8) B(3,4) "1.prems"(3) False by (cases "vs = []") auto
    moreover have "\<forall>u \<in> set (v # vs). num_char d u" using r(5) False by simp
    ultimately show ?thesis using r(2,3,7) B(3) by (intro exI [of _ e] exI [of _ "v # vs"] exI [of _ rest]) simp
  qed
qed

lemma num_stretch_cnum:
  assumes W: "wf_dict M d" "no_nul_terms d" and p: "pos < len" "len \<le> length s"
  shows "\<exists>vs e. num_stretch d (gb_words s pos len) vs \<and> pos \<le> e \<and> e \<le> len \<and> spell vs = cut s pos e \<and> e - pos < 256 \<and>
    (\<forall>q lpos. pos < lpos \<longrightarrow> proc_cnum d q s len pos lpos =
      Some (if e \<le> lpos then (0, q, 0) else take_word q s pos e SET_CNUMBER))"
proof -
  obtain v pos' where g: "scw_get_word s pos len = (v, pos')" by fastforce
  note b = cnum_at_eq [OF W(1), of v] and B = get_word_bytes [OF g p]
  have p4: "pos' \<le> pos + 4" using scw_get_word_short [of s pos len] g by simp
  show ?thesis
  proof (cases "num_char d v")
    case False
    then have "num_stretch d (gb_words s pos len) []" using gb_words_step [OF p(1) g] by (simp add: num_stretch_def)
    then show ?thesis using g b False p(1) by (intro exI [of _ "[]"] exI [of _ pos]) (simp add: proc_cnum_def cut_def)
  next
    case True
    have le: "pos \<le> pos'" using B(3) by simp
    obtain e vs rest where r: "cnum_run d s len pos pos' = Some e" "pos' \<le> e" "e \<le> len" "gb_words s pos' len = vs @ rest"
      "\<forall>v \<in> set vs. num_char d v" "spell vs = cut s pos' e" "rest = [] \<or> \<not> num_char d (hd rest) \<or> 252 \<le> e - pos"
      "vs \<noteq> [] \<longrightarrow> pos' - pos + length (spell (butlast vs)) < 252"
      using cnum_run_words [OF W le B(2) p(2)] by blast
    have sp: "spell (v # vs) = cut s pos e" using B(1,3) r(2,6) cut_append [of pos pos' e s] by simp
    have len: "length (cut s pos e) = e - pos" using r(3) p(2) cut_ok(2) [of e s pos] by simp
    have "length (spell (butlast (v # vs))) < 252" using r(8) B(4) by (cases "vs = []") auto
    then have "num_stretch d (gb_words s pos len) (v # vs)"
      using gb_words_step [OF p(1) g] r(4,5,7) True sp len unfolding num_stretch_def by (intro exI [of _ rest]) auto
    moreover have "e - pos < 256"
    proof -
      have "pos' - pos < 256" using p4 by simp
      then show ?thesis using cnum_run_ok [OF W B(2), of pos s] r(1) by auto
    qed
    moreover have "proc_cnum d q s len pos lpos = Some (if e \<le> lpos then (0, q, 0) else take_word q s pos e SET_CNUMBER)" for q lpos
      using g b True r(1) by (simp add: proc_cnum_def)
    ultimately show ?thesis using sp r(2,3) le by (intro exI [of _ "v # vs"] exI [of _ e]) simp
  qed
qed

interpretation cnum: recogniser proc_cnum no_nul_terms
proof
  fix M d p pos lpos len s
  assume D: "seg_dict M d" "no_nul_terms d" "wf_inner d p" "pos < lpos" "lpos \<le> len" "len \<le> length s" "no_nul s len"
  have W: "wf_dict M d" "wf_phrases d" using D(1) by (simp_all add: seg_dict_def)
  have pos: "pos < len" using D(4,5) by simp
  have T: "r = 1 \<and> np = e \<and> wf_inner d q \<and> appended p q \<and> seg_text d q = seg_text d p @ slice s pos e \<or> r = -1"
    if "take_word p s pos e SET_CNUMBER = (r, q, np)" "e \<le> len" "e - pos < 256" for r q np e
    using take_word_ok [OF W(2) D(3) that(3) _ _ that(1)] that(2) D(6) no_nul_mono [OF D(7) that(2)] by auto
  have T0: "proc_cnum d p s len pos lpos = Some (0, p, 0) \<or> (\<exists>r q np. proc_cnum d p s len pos lpos = Some (r, q, np) \<and>
      (r = 1 \<and> lpos < np \<and> np \<le> len \<and> wf_inner d q \<and> appended p q \<and> seg_text d q = seg_text d p @ slice s pos np \<or> r = -1))"
    using proc_cnum_cases [OF W(1) D(2) pos, of p s lpos]
  proof
    assume "\<exists>e. lpos < e \<and> e \<le> len \<and> e - pos < 256 \<and> proc_cnum d p s len pos lpos = Some (take_word p s pos e SET_CNUMBER)"
    then obtain e where e: "lpos < e" "e \<le> len" "e - pos < 256"
      "proc_cnum d p s len pos lpos = Some (take_word p s pos e SET_CNUMBER)" by blast
    obtain r q np where t: "take_word p s pos e SET_CNUMBER = (r, q, np)" by (metis prod_cases3)
    show ?thesis using T [OF t e(2,3)] e t by auto
  qed simp
  show "\<exists>r q np. proc_cnum d p s len pos lpos = Some (r, q, np) \<and> r \<in> {0, 1, -1}"
    using T0 by auto
  show "lpos < np \<and> np \<le> len \<and> wf_inner d q \<and> appended p q \<and> seg_text d q = seg_text d p @ slice s pos np"
    if "proc_cnum d p s len pos lpos = Some (1, q, np)" for q np
    using T0 that by auto
  show "wf_inner d q \<and> appended p q \<and> seg_text d q = seg_text d p"
    if "proc_cnum d p s len pos lpos = Some (0, q, np)" for q np
    using T0 that D(3) by auto
qed

subsection \<open>The recogniser of katakana\<close>

definition kana_words :: "nat set" where
  "kana_words = {0xa5a1..0xa5f6} \<union> {0xa960}"

text \<open>What \<open>proc_pajm\<close> needs: every katakana character is a lemma, and phrases stay small.\<close>

definition kana_dict :: "scw_worddict \<Rightarrow> bool" where
  "kana_dict d \<longleftrightarrow> (\<forall>v \<in> kana_words. dict_lookup d [v] \<noteq> LEMMA_NULL) \<and> (\<forall>l < m_lmpos d. m_type (m_lemmalist d l) = LEMMA_TYPE_SBASIC)"

text \<open>
  The run of katakana at \<open>pos\<close>: the characters, as the text is cut into characters, before the
  first that is no katakana.
\<close>

definition kana_run :: "string \<Rightarrow> nat \<Rightarrow> nat \<Rightarrow> nat list" where
  "kana_run s pos len = takeWhile (\<lambda>v. v \<in> kana_words) (gb_words s pos len)"

abbreviation kana_val :: "string \<Rightarrow> nat \<Rightarrow> nat" where
  "kana_val s i \<equiv> cbyte s i * 256 + cbyte s (i + 1)"

lemma kana_get:
  assumes "is_gb_pajm s pos" "pos + 1 < len"
  shows "scw_get_word s pos len = (kana_val s pos, pos + 2)" "kana_val s pos \<in> kana_words"
proof -
  show "kana_val s pos \<in> kana_words" using assms(1) by (auto simp: is_gb_pajm_def kana_words_def)
  have "get_value_gb s pos len = (kana_val s pos, pos + 2)"
    using assms by (auto simp: is_gb_pajm_def get_value_gb_def Let_def)
  then show "scw_get_word s pos len = (kana_val s pos, pos + 2)" using assms(2) by (simp add: scw_get_word_in)
qed

lemma get_kana:
  assumes "fst (scw_get_word s pos len) \<in> kana_words" "pos < len"
  shows "is_gb_pajm s pos \<and> pos + 1 < len"
proof -
  have lt: "cbyte s i < 256" for i by simp
  have "0xa5a1 \<le> v \<and> v \<le> 0xa5f6 \<or> v = 0xa960" if "v \<in> kana_words" for v using that by (auto simp: kana_words_def)
  then have v: "0xa5a1 \<le> fst (get_value_gb s pos len) \<and> fst (get_value_gb s pos len) \<le> 0xa5f6 \<or> fst (get_value_gb s pos len) = 0xa960"
    using assms by (simp add: scw_get_word_in)
  let ?b0 = "cbyte s pos" and ?b1 = "cbyte s (pos + 1)"
  have "fst (get_value_gb s pos len) < 256 \<or> 0x1000000 \<le> fst (get_value_gb s pos len) \<or>
      fst (get_value_gb s pos len) = ?b0 * 256 + ?b1 \<and> pos + 1 < len"
    using lt [of pos] assms(2) by (simp add: get_value_gb_def Let_def)
  then have w: "fst (get_value_gb s pos len) = ?b0 * 256 + ?b1 \<and> pos + 1 < len" using v by auto
  have ar: "x = 165 \<and> 161 \<le> y \<and> y \<le> 246 \<or> x = 169 \<and> y = 96"
    if "42401 \<le> x * 256 + y \<and> x * 256 + y \<le> 42486 \<or> x * 256 + y = 43360" "y < 256" for x y :: nat using that by presburger
  from ar [OF v [unfolded conjunct1 [OF w]] lt] w show ?thesis unfolding is_gb_pajm_def by blast
qed

lemma kana_run_step:
  "kana_run s pos len = (if pos + 1 < len \<and> is_gb_pajm s pos then kana_val s pos # kana_run s (pos + 2) len else [])"
proof (cases "pos < len")
  case True
  obtain v np where g: "scw_get_word s pos len = (v, np)" by fastforce
  show ?thesis
  proof (cases "pos + 1 < len \<and> is_gb_pajm s pos")
    case kana: True
    then show ?thesis using kana_get [of s pos len] gb_words_step [OF True] by (simp add: kana_run_def)
  next
    case False
    then have "v \<notin> kana_words" using get_kana [of s pos len] g True by auto
    then show ?thesis using False gb_words_step [OF True g] by (simp add: kana_run_def)
  qed
qed (simp add: kana_run_def)

lemma pajm_run_eq:
  "pos = b + 2 * cnt \<Longrightarrow> cnt \<le> 12 \<Longrightarrow> pajm_run s slen b pos cnt =
    (let n = length (kana_run s pos slen) in if cnt + n > 12 then None else Some (pos + 2 * n, cnt + n))"
proof (induction s slen b pos cnt rule: pajm_run.induct)
  case (1 s slen b pos cnt)
  show ?case
  proof (cases "pos + 1 < slen \<and> is_gb_pajm s pos")
    case False
    have "kana_run s pos slen = []" by (subst kana_run_step) (simp only: False if_False)
    moreover have "pajm_run s slen b pos cnt = Some (pos, cnt)" by (subst pajm_run.simps) (simp only: False if_False)
    ultimately show ?thesis using "1.prems"(2) by simp
  next
    case True
    have n: "length (kana_run s pos slen) = Suc (length (kana_run s (pos + 2) slen))"
      using True by (subst kana_run_step) simp
    show ?thesis
    proof (cases "cnt + 1 > 12")
      case more: True
      then show ?thesis using n True by (subst pajm_run.simps) simp
    next
      case False
      have short: "\<not> MAX_LEMMA_LENGTH - 4 \<le> pos + 2 - b" using "1.prems"(1) False by (simp add: max_sizes)
      have p': "pos + 2 = b + 2 * (cnt + 1)" "cnt + 1 \<le> 12" using "1.prems"(1) False by simp_all
      have "pajm_run s slen b pos cnt = pajm_run s slen b (pos + 2) (cnt + 1)"
        using True False short by (subst pajm_run.simps) simp
      then show ?thesis using "1.IH" [OF True False short p'] n by (simp add: Let_def)
    qed
  qed
qed

lemma kana_run_vals:
  "n = length (kana_run s pos len) \<Longrightarrow> kana_run s pos len = map (\<lambda>i. kana_val s (pos + 2 * i)) [0..<n] \<and>
    (\<forall>i < n. is_gb_pajm s (pos + 2 * i) \<and> pos + 2 * i + 1 < len)"
proof (induction n arbitrary: pos)
  case (Suc n)
  then have k: "pos + 1 < len \<and> is_gb_pajm s pos" by (subst (asm) kana_run_step) (auto split: if_splits)
  then have r: "kana_run s pos len = kana_val s pos # kana_run s (pos + 2) len" by (subst kana_run_step) simp
  then have n: "n = length (kana_run s (pos + 2) len)" using Suc.prems by simp
  have I: "kana_run s (pos + 2) len = map (\<lambda>i. kana_val s (pos + 2 + 2 * i)) [0..<n]"
    "\<And>i. i < n \<Longrightarrow> is_gb_pajm s (pos + 2 + 2 * i) \<and> pos + 2 + 2 * i + 1 < len" using Suc.IH [OF n] by blast+
  have u: "map (\<lambda>i. kana_val s (pos + 2 * i)) [0..<Suc n] = kana_val s pos # map (\<lambda>i. kana_val s (pos + 2 + 2 * i)) [0..<n]"
    by (subst upt_conv_Cons) (simp_all add: map_Suc_upt [symmetric] comp_def add.commute add.left_commute del: upt_Suc)
  have "is_gb_pajm s (pos + 2 * i) \<and> pos + 2 * i + 1 < len" if "i < Suc n" for i
    using k I(2) [of "i - 1"] that by (cases i) (simp_all add: algebra_simps)
  then show ?case using r I(1) u by simp
qed simp

lemma kana_gb_words:
  "\<forall>i < n. is_gb_pajm s (pos + 2 * i) \<Longrightarrow> gb_words s pos (pos + 2 * n) = map (\<lambda>i. kana_val s (pos + 2 * i)) [0..<n]"
proof (induction n arbitrary: pos)
  case (Suc n)
  have k: "is_gb_pajm s pos" using Suc.prems by force
  have "is_gb_pajm s (pos + 2 + 2 * i)" if "i < n" for i
    using Suc.prems [rule_format, of "Suc i"] that by (simp add: algebra_simps)
  then have I: "gb_words s (pos + 2) (pos + 2 + 2 * n) = map (\<lambda>i. kana_val s (pos + 2 + 2 * i)) [0..<n]"
    by (intro Suc.IH) blast
  have "gb_words s pos (pos + 2 * Suc n) = kana_val s pos # gb_words s (pos + 2) (pos + 2 + 2 * n)"
    using gb_words_step [OF _ kana_get(1) [OF k, of "pos + 2 * Suc n"]] by (simp add: algebra_simps)
  moreover have "map (\<lambda>i. kana_val s (pos + 2 * i)) [0..<Suc n] = kana_val s pos # map (\<lambda>i. kana_val s (pos + 2 + 2 * i)) [0..<n]"
    by (subst upt_conv_Cons) (simp_all add: map_Suc_upt [symmetric] comp_def add.commute add.left_commute del: upt_Suc)
  ultimately show ?case using I by simp
qed simp

lemma kana_run_cut:
  assumes n: "n = length (kana_run s pos len)" "0 < n" and l: "len \<le> length s"
  shows "pos + 2 * n \<le> len" "gb_words (cut s pos (pos + 2 * n)) 0 (2 * n) = kana_run s pos len"
    "spell (kana_run s pos len) = cut s pos (pos + 2 * n)"
proof -
  note V = kana_run_vals [OF n(1)]
  obtain m where m: "n = Suc m" using n(2) by (cases n) auto
  have "pos + 2 * m + 1 < len" using V m by blast
  then show le: "pos + 2 * n \<le> len" using m by simp
  let ?t = "cut s pos (pos + 2 * n)"
  have el: "pos + 2 * n \<le> length s" using le l by simp
  have b: "cbyte ?t j = cbyte s (pos + j)" if "j < 2 * n" for j using cut_ok(3) [OF el, of j pos] that by simp
  have "is_gb_pajm ?t (0 + 2 * i)" if "i < n" for i
    using V that b [of "2 * i"] b [of "2 * i + 1"] by (simp add: is_gb_pajm_def)
  then have "gb_words ?t 0 (0 + 2 * n) = map (\<lambda>i. kana_val ?t (0 + 2 * i)) [0..<n]" by (intro kana_gb_words) blast
  moreover have "kana_val ?t (0 + 2 * i) = kana_val s (pos + 2 * i)" if "i < n" for i
    using that b [of "2 * i"] b [of "2 * i + 1"] by (simp add: add.assoc)
  ultimately show g: "gb_words ?t 0 (2 * n) = kana_run s pos len" using V by (simp cong: map_cong)
  have "length ?t = 2 * n" using cut_ok(2) [OF el, of pos] by simp
  then show "spell (kana_run s pos len) = ?t" using gb_words_encode [of ?t] g by (simp add: spell_def)
qed

lemma static_tail_refs:
  assumes "static_tail p n q" "m_ppseg_cnt p \<le> m_ppseg_cnt q"
  shows "\<exists>ls. seg_refs q (m_ppseg_cnt p) (m_ppseg_cnt q - m_ppseg_cnt p) = map Static ls \<and> length ls \<le> n"
proof -
  let ?is = "[m_ppseg_cnt p..<m_ppseg_cnt q]"
  define f where "f i = (SOME l. m_ppseg q i = Some (Static l))" for i
  have "m_ppseg q i = Some (Static (f i))" if "i \<in> set ?is" for i
    using assms that someI_ex [of "\<lambda>l. m_ppseg q i = Some (Static l)"] by (auto simp: static_tail_def f_def)
  then have "List.map_filter (m_ppseg q) ?is = map (\<lambda>i. Static (f i)) ?is"
    by (auto simp: List.map_filter_def intro!: filter_True)
  then show ?thesis
    using assms by (intro exI [of _ "map f ?is"]) (auto simp: seg_refs_def static_tail_def comp_def)
qed

lemma basic_text_length:
  assumes "m_type (m_lemmalist d l) = LEMMA_TYPE_SBASIC"
  shows "length (lm_text d p (Static l)) = m_length (deref d p (Static l))"
  using assms by (simp add: lm_text_def lmstr_bytes_def static_bytes_def deref_def)

lemma poly_static_ok:
  assumes D: "seg_dict M d" and b: "\<forall>l < m_lmpos d. m_type (m_lemmalist d l) = LEMMA_TYPE_SBASIC"
    and p: "wf_inner d p" "wf_inner d q" "appended p q" "static_tail p 24 q"
    and n: "n = m_ppseg_cnt q - m_ppseg_cnt p" "1 < n"
    and t: "seg_text d q = seg_text d p @ t" "length t < 256"
  shows "\<exists>r. poly_lemmas d q (m_ppseg_cnt p) n =
    Some (if m_dynlm_cnt p < m_dynlm_size p \<and> m_dynph_curpos p + MAX_EXTEND_PHINFO_SIZE < m_dynph_size p
      then (int (m_dynlm_cnt p), r) else (-1, q))"
proof -
  have d: "wf_phrases d" using D by (simp add: seg_dict_def)
  have le: "m_ppseg_cnt p \<le> m_ppseg_cnt q" using p(3) by (simp add: appended_def)
  obtain ls where ls: "seg_refs q (m_ppseg_cnt p) n = map Static ls" "length ls \<le> 24"
    using static_tail_refs [OF p(4) le] n by auto
  have seg: "m_ppseg_cnt p + n \<le> m_ppseg_cnt q" using le n by simp
  have "list_all (seg_ref d q) (map Static ls)" using seg_refs_valid [OF p(2) seg] ls by simp
  then have ty: "m_type (m_lemmalist d l) = LEMMA_TYPE_SBASIC" if "l \<in> set ls" for l
    using b that by (auto simp: list_all_iff)
  have "all_words d q (map Static ls) = map Static ls"
    using ty by (induction ls) (simp_all add: all_words_def ref_words_def deref_def lemma_types)
  moreover have "all_subs d q (map Static ls) off = []" for off
    using ty by (induction ls arbitrary: off) (simp_all add: ref_subs_def deref_def lemma_types)
  ultimately have cells: "phrase_cells d q (map Static ls) \<le> 26" using ls by (simp add: phrase_cells_def)
  have split: "seg_refs q 0 (m_ppseg_cnt q) = seg_refs p 0 (m_ppseg_cnt p) @ map Static ls"
  proof -
    have "seg_refs q 0 (m_ppseg_cnt q) = seg_refs q 0 (m_ppseg_cnt p) @ seg_refs q (m_ppseg_cnt p) n"
      using seg_refs_split [of q 0 "m_ppseg_cnt p" n] n le by simp
    moreover have "seg_refs q 0 (m_ppseg_cnt p) = seg_refs p 0 (m_ppseg_cnt p)"
      using p(3) by (auto simp: appended_def intro: seg_refs_cong)
    ultimately show ?thesis using ls by simp
  qed
  have "inner_ext p q" using p(3) by (simp add: appended_def)
  then have "map (lm_text d q) (seg_refs p 0 (m_ppseg_cnt p)) = map (lm_text d p) (seg_refs p 0 (m_ppseg_cnt p))"
    using p(1) by (intro map_lm_text_ext [OF d p(1,2)] seg_refs_valid) simp_all
  then have "seg_text d q = seg_text d p @ concat (map (lm_text d q) (map Static ls))"
    unfolding seg_text_def split by (simp del: map_map map_eq_conv)
  then have "concat (map (lm_text d q) (map Static ls)) = t" using t(1) by simp
  then have "length t = sum_list (map (\<lambda>l. length (lm_text d q (Static l))) ls)"
    by (auto simp: length_concat comp_def)
  also have "\<dots> = phrase_length d q (map Static ls)"
    using ty by (simp add: phrase_length_def comp_def basic_text_length cong: map_cong)
  finally have "phrase_length d q (map Static ls) < 256" using t(2) by simp
  moreover have "m_dynlm_cnt q = m_dynlm_cnt p" "m_dynph_curpos q = m_dynph_curpos p" "m_dynlm_size q = m_dynlm_size p"
    "m_dynph_size q = m_dynph_size p" using p(3,4) by (simp_all add: static_tail_def appended_def inner_ext_def)
  ultimately show ?thesis
    using poly_lemmas_exact [OF d p(2) seg] cells n(2) unfolding ls(1) by (auto simp: MAX_EXTEND_PHINFO_SIZE_def)
qed

lemma poly_tail_ok:
  assumes d: "wf_phrases d" and p: "wf_inner d p" "wf_inner d q" "appended p q"
    and n: "n = m_ppseg_cnt q - m_ppseg_cnt p" "1 < n"
    and c: "poly_lemmas d q (m_ppseg_cnt p) n = Some (e, r)" "0 \<le> e"
    and r': "r' = (upd_dynlm r (nat e) (set_property f))\<lparr>m_ppseg_cnt := m_ppseg_cnt r - (n - 1)\<rparr>"
  shows "wf_inner d r' \<and> appended p r' \<and> seg_text d r' = seg_text d q \<and> m_ppseg_cnt r' = m_ppseg_cnt p + 1 \<and>
    (\<exists>x y. m_ppseg r' (m_ppseg_cnt p) = Some x \<and> m_property (deref d r' x) = f y)"
proof -
  have le: "m_ppseg_cnt p \<le> m_ppseg_cnt q" using p(3) by (simp add: appended_def)
  then have seg: "m_ppseg_cnt p + n \<le> m_ppseg_cnt q" using n by simp
  note P = poly_lemmas_ok [OF d p(2) seg c] and S = poly_lemmas_phrase [OF d p(2) seg c]
  have below: "m_ppseg r i = m_ppseg q i" if "i < m_ppseg_cnt p" for i using that by (simp add: S(5) fill_def)
  have app: "appended p r"
    using p(3) P(2,3) below inner_ext_trans by (auto simp: appended_def)
  have k: "m_dynlm_cnt p \<le> nat e" using S(1) p(3) by (simp add: appended_def inner_ext_def)
  let ?s = "upd_dynlm r (nat e) (set_property f)"
  note T = set_property_ok [OF P(1) app k, of f]
  have none: "m_ppseg ?s i = None" if "m_ppseg_cnt r - (n - 1) \<le> i" "i < m_ppseg_cnt ?s" for i
    using that P(3) seg n by (simp add: S(5) fill_def)
  have cnt: "m_ppseg_cnt r - (n - 1) \<le> m_ppseg_cnt ?s" by simp
  note R = trim_ok [OF d T(1) cnt none]
  have "m_ppseg_cnt p \<le> m_ppseg_cnt r - (n - 1)" using P(3) n le by simp
  then have "appended p r'" using T(2) by (simp add: r' appended_def)
  moreover have "m_ppseg r' (m_ppseg_cnt p) = Some (Dyn (nat e))" using S(1,5) by (simp add: r' fill_def)
  moreover have "m_property (deref d r' (Dyn (nat e))) = f (m_property (m_dynlm r (nat e)))"
    by (simp add: r' deref_def upd_dynlm_def)
  moreover have "m_ppseg_cnt r' = m_ppseg_cnt p + 1" using P(3) n le by (simp add: r')
  ultimately show ?thesis using R T(3) P(4) by (auto simp: r')
qed

text \<open>
  One entry for the run, with the property of katakana, unless the run is a single lemma of the
  dictionary; -1 only for want of room.
\<close>

definition pajm_room :: "scw_inner \<Rightarrow> nat \<Rightarrow> bool" where
  "pajm_room p n \<longleftrightarrow> word_room p (2 * n) \<and>
     (5 \<le> n \<longrightarrow> m_dynph_curpos p + MAX_EXTEND_PHINFO_SIZE < m_dynph_size p)"

definition pajm_out :: "scw_worddict \<Rightarrow> scw_inner \<Rightarrow> nat list \<Rightarrow> nat \<Rightarrow> (int \<times> scw_inner \<times> nat) option \<Rightarrow> bool" where
  "pajm_out d p run np out \<longleftrightarrow>
     (\<exists>q. out = Some (1, q, np) \<and> appended p q \<and> word_taken d p (spell run) (\<lambda>x. length run < 5 \<longrightarrow> IS_PAJMSTR x) q) \<or>
     (\<exists>q. out = Some (-1, q, 0) \<and> \<not> pajm_room p (length run))"

lemma pajmstr_bits: "IS_PAJMSTR (SET_PAJMSTR x)"
  by (auto simp: prop_is prop_set bit_eq_iff bit_simps intro!: exI [of _ "20 :: nat"])

lemma word_taken_from:
  assumes "word_taken d p' w chk q" "m_ppseg_cnt p' = m_ppseg_cnt p" "\<And>i. i < m_ppseg_cnt p \<Longrightarrow> m_ppseg p' i = m_ppseg p i"
    "seg_text d p' = seg_text d p"
  shows "word_taken d p w chk q"
  using assms by (auto simp: word_taken_def)

lemma word_taken_mono: "word_taken d p w chk q \<Longrightarrow> (\<And>x. chk x \<Longrightarrow> chk' x) \<Longrightarrow> word_taken d p w chk' q"
  by (auto simp: word_taken_def)

lemma proc_pajm_exact:
  assumes D: "seg_dict M d" and b: "\<forall>l < m_lmpos d. m_type (m_lemmalist d l) = LEMMA_TYPE_SBASIC" and w: "wf_inner d p"
    and pos: "pos < lpos" "lpos \<le> len" and len: "len \<le> length s" "no_nul s len"
  defines "run \<equiv> kana_run s pos len"
  assumes kw: "5 \<le> length run \<longrightarrow> (\<forall>v \<in> set run. dict_lookup d [v] \<noteq> LEMMA_NULL)"
  shows "pos + 2 * length run \<le> len \<and> spell run = cut s pos (pos + 2 * length run) \<and>
    (if 12 < length run \<or> pos + 2 * length run \<le> lpos then proc_pajm d p s len pos lpos = Some (0, p, 0)
     else pajm_out d p run (pos + 2 * length run) (proc_pajm d p s len pos lpos))"
proof -
  define n where "n = length run"
  define e where "e = pos + 2 * n"
  have r: "pajm_run s len pos pos 0 = (if n > 12 then None else Some (e, n))"
    using pajm_run_eq [of pos pos 0 s len] by (simp add: n_def run_def e_def Let_def)
  have d: "wf_phrases d" using D by (simp add: seg_dict_def)
  have N: "n = length (kana_run s pos len)" by (simp add: n_def run_def)
  have c0: "e \<le> len \<and> spell run = cut s pos e"
  proof (cases "n = 0")
    case True
    then show ?thesis using pos by (simp add: e_def n_def cut_def)
  next
    case False
    then show ?thesis using kana_run_cut(1,3) [OF N _ len(1)] by (simp add: e_def run_def)
  qed
  show ?thesis unfolding n_def [symmetric] e_def [symmetric]
  proof (cases "12 < n \<or> e \<le> lpos")
    case True
    then show "e \<le> len \<and> spell run = cut s pos e \<and> (if 12 < n \<or> e \<le> lpos then proc_pajm d p s len pos lpos = Some (0, p, 0)
        else pajm_out d p run e (proc_pajm d p s len pos lpos))"
      using r c0 by (auto simp: proc_pajm_def)
  next
    case False
    then have n: "n \<le> 12" "0 < n" and lt: "lpos < e" "pos < e" using pos by (auto simp: e_def)
    have e: "e \<le> len" "e - pos = 2 * n" "e - pos \<le> 24" "e - pos < 256" "e \<le> length s" "no_nul s e"
      using c0 len no_nul_mono n(1) by (auto simp: e_def)
    define t where "t = cut s pos e"
    note C = cut_ok [OF e(5), where a = pos, folded t_def]
    have sp: "spell run = t" using c0 by (simp add: t_def)
    have T: "pajm_out d p run e (Some (take_word p' s pos e SET_PAJMSTR))"
      if P: "wf_inner d p'" "appended p p'" "m_ppseg_cnt p' = m_ppseg_cnt p" "word_room p' (e - pos) = word_room p (e - pos)"
        "seg_text d p' = seg_text d p" for p'
    proof -
      have kept: "m_ppseg p' i = m_ppseg p i" if "i < m_ppseg_cnt p" for i using P(2) that by (simp add: appended_def)
      note X = take_word_exact [where f = SET_PAJMSTR and chk = IS_PAJMSTR, OF d P(1) e(4-6) pajmstr_bits]
      show ?thesis
      proof (cases "word_room p (e - pos)")
        case True
        then obtain q where q: "take_word p' s pos e SET_PAJMSTR = (1, q, e)" "appended p' q" "word_taken d p' t IS_PAJMSTR q"
          using X P(4) by (auto simp: t_def)
        have "word_taken d p t (\<lambda>x. length run < 5 \<longrightarrow> IS_PAJMSTR x) q"
          by (rule word_taken_mono [OF word_taken_from [OF q(3) P(3) kept P(5)]]) simp_all
        then show ?thesis using q(1) appended_trans [OF P(2) q(2)] by (auto simp: pajm_out_def sp)
      next
        case False
        then show ?thesis using X P(4) e(2) by (auto simp: pajm_out_def pajm_room_def n_def)
      qed
    qed
    have "pajm_out d p run e (proc_pajm d p s len pos lpos)"
    proof (cases "n < 5")
      case True
      have "proc_pajm d p s len pos lpos = Some (take_word p s pos e SET_PAJMSTR)"
        using r False True by (simp add: proc_pajm_def)
      then show ?thesis using T [OF w appended_refl refl refl refl] by simp
    next
      case five: False
      have tl: "e - pos \<le> length t" using C(2) by simp
      have "gb_words t 0 (e - pos) = run"
        using kana_run_cut(2) [OF N n(2) len(1)] e(2) by (simp add: t_def e_def run_def)
      moreover have "0 \<notin> kana_words" by (simp add: kana_words_def)
      then have "0 \<notin> set run" by (auto simp: run_def kana_run_def dest: set_takeWhileD)
      ultimately have kt: "known_words d (gb_words t 0 (e - pos))"
        using kw five by (auto simp: known_words_def n_def intro!: gr0I)
      obtain r1 p1 where S: "scw_seg_pajm d p t (e - pos) = Some (r1, p1)" "pajm_end d t (e - pos) p r1 p1"
        using seg_pajm_ok [OF D tl w kt] by blast
      have E: "wf_inner d p1" "appended p p1" "static_tail p (e - pos) p1" "r1 = 1 \<or> r1 = -1"
        using S(2) by (auto simp: pajm_end_def)
      have grow: "r1 = 1 \<Longrightarrow> seg_text d p1 = seg_text d p @ map of_char t"
        using S(2) C(1,2) by (auto simp: pajm_end_def slice_def)
      let ?n = "m_ppseg_cnt p1 - m_ppseg_cnt p"
      show ?thesis
      proof (cases "r1 = -1")
        case True
        note R = rewind_ok [OF d w E(1,2)]
        have eq: "proc_pajm d p s len pos lpos =
            Some (take_word (p1\<lparr>m_ppseg_cnt := m_ppseg_cnt p\<rparr>) s pos e SET_PAJMSTR)"
          using r False five S(1) True by (simp add: proc_pajm_def t_def Let_def)
        have "word_room (p1\<lparr>m_ppseg_cnt := m_ppseg_cnt p\<rparr>) (e - pos) = word_room p (e - pos)"
          using E(2,3) by (simp add: word_room_def appended_def inner_ext_def static_tail_def)
        then show ?thesis unfolding eq by (intro T [OF R(1,2) _ _ R(3)]) simp_all
      next
        case ok: False
        then have r1: "r1 = 1" using E(4) by simp
        have n0: "?n \<noteq> 0"
        proof
          assume "?n = 0"
          then have "m_ppseg_cnt p1 = m_ppseg_cnt p" using E(2) by (simp add: appended_def)
          then have "seg_text d p1 = seg_text d p"
            using E(2) by (intro seg_text_refs [OF d w E(1)]) (auto simp: appended_def intro: seg_refs_cong)
          then show False using grow [OF r1] C(2) lt(2) by auto
        qed
        have gt: "m_ppseg_cnt p < m_ppseg_cnt p1" using n0 by simp
        have kept: "m_ppseg p1 i = m_ppseg p i" if "i < m_ppseg_cnt p" for i using E(2) that by (simp add: appended_def)
        have five': "\<not> length run < 5" using five by (simp add: n_def)
        show ?thesis
        proof (cases "?n = 1")
          case True
          then have eq: "proc_pajm d p s len pos lpos = Some (1, p1, e)"
            using r False five S(1) r1 gt by (simp add: proc_pajm_def t_def Let_def)
          obtain l where "m_ppseg p1 (m_ppseg_cnt p) = Some (Static l)" using E(3) gt by (auto simp: static_tail_def)
          then have "word_taken d p t (\<lambda>x. length run < 5 \<longrightarrow> IS_PAJMSTR x) p1"
            using E(1) True kept grow [OF r1] five' by (auto simp: word_taken_def)
          then show ?thesis using eq E(2) by (simp add: pajm_out_def sp)
        next
          case many: False
          then have n1: "1 < ?n" using n0 by simp
          have t256: "length (map of_char t :: nat list) < 256" using C(2) e(4) by simp
          obtain q where P: "poly_lemmas d p1 (m_ppseg_cnt p) ?n =
              Some (if m_dynlm_cnt p < m_dynlm_size p \<and> m_dynph_curpos p + MAX_EXTEND_PHINFO_SIZE < m_dynph_size p
                then (int (m_dynlm_cnt p), q) else (-1, p1))"
            using poly_static_ok [OF D b w E(1,2) static_tail_mono [OF E(3) e(3)] refl n1 grow [OF r1] t256] by blast
          show ?thesis
          proof (cases "m_dynlm_cnt p < m_dynlm_size p \<and> m_dynph_curpos p + MAX_EXTEND_PHINFO_SIZE < m_dynph_size p")
            case True
            let ?k = "int (m_dynlm_cnt p)"
            let ?q = "(upd_dynlm q (nat ?k) (set_property SET_PAJMSTR))\<lparr>m_ppseg_cnt := m_ppseg_cnt q - (?n - 1)\<rparr>"
            have P': "poly_lemmas d p1 (m_ppseg_cnt p) ?n = Some (?k, q)" using P True by simp
            have eq: "proc_pajm d p s len pos lpos = Some (1, ?q, e)"
              using r False five S(1) r1 gt many P' by (simp add: proc_pajm_def t_def Let_def)
            note Q = poly_tail_ok [OF d w E(1,2) refl n1 P' of_nat_0_le_iff refl, where f = SET_PAJMSTR]
            have "word_taken d p t (\<lambda>x. length run < 5 \<longrightarrow> IS_PAJMSTR x) ?q"
              using Q kept grow [OF r1] five' unfolding word_taken_def by (auto simp: appended_def)
            then show ?thesis using eq Q by (auto simp: pajm_out_def sp)
          next
            case False
            then have "proc_pajm d p s len pos lpos = Some (-1, p1, 0)"
              using r \<open>\<not> (12 < n \<or> e \<le> lpos)\<close> five S(1) r1 gt many P by (simp add: proc_pajm_def t_def Let_def)
            moreover have "\<not> pajm_room p (length run)" using False five by (auto simp: pajm_room_def word_room_def n_def)
            ultimately show ?thesis by (simp add: pajm_out_def)
          qed
        qed
      qed
    qed
    then show "e \<le> len \<and> spell run = cut s pos e \<and> (if 12 < n \<or> e \<le> lpos then proc_pajm d p s len pos lpos = Some (0, p, 0)
        else pajm_out d p run e (proc_pajm d p s len pos lpos))"
      using False c0 by simp
  qed
qed

lemma proc_pajm_cases:
  assumes D: "seg_dict M d" and b: "\<forall>l < m_lmpos d. m_type (m_lemmalist d l) = LEMMA_TYPE_SBASIC" and w: "wf_inner d p"
    and pos: "pos < lpos" "lpos \<le> len" and len: "len \<le> length s" "no_nul s len"
    and kw: "5 \<le> length (kana_run s pos len) \<longrightarrow> (\<forall>v \<in> set (kana_run s pos len). dict_lookup d [v] \<noteq> LEMMA_NULL)"
  shows "\<exists>r q np. proc_pajm d p s len pos lpos = Some (r, q, np) \<and>
    (r = 0 \<and> q = p \<or> r = -1 \<or> r = 1 \<and> lpos < np \<and> np \<le> len \<and> wf_inner d q \<and> appended p q \<and>
       seg_text d q = seg_text d p @ slice s pos np)"
proof -
  let ?e = "pos + 2 * length (kana_run s pos len)"
  note X = proc_pajm_exact [OF assms(1-7) kw]
  have sl: "slice s pos ?e = map of_char (spell (kana_run s pos len))" using X len(1) cut_ok(1) [of ?e s pos] by simp
  show ?thesis
  proof (cases "12 < length (kana_run s pos len) \<or> ?e \<le> lpos")
    case False
    then have "pajm_out d p (kana_run s pos len) ?e (proc_pajm d p s len pos lpos)" using X by simp
    then show ?thesis using X False sl by (auto simp: pajm_out_def word_taken_def)
  qed (use X in auto)
qed

interpretation pajm: recogniser proc_pajm kana_dict
proof
  fix M d p pos lpos len s
  assume D: "seg_dict M d" "kana_dict d" "wf_inner d p" "pos < lpos" "lpos \<le> len" "len \<le> length s" "no_nul s len"
  have b: "\<forall>l < m_lmpos d. m_type (m_lemmalist d l) = LEMMA_TYPE_SBASIC" using D(2) by (simp add: kana_dict_def)
  have "\<forall>v \<in> set (kana_run s pos len). dict_lookup d [v] \<noteq> LEMMA_NULL"
    using D(2) by (auto simp: kana_dict_def kana_run_def dest: set_takeWhileD)
  then have C: "\<exists>r q np. proc_pajm d p s len pos lpos = Some (r, q, np) \<and>
    (r = 0 \<and> q = p \<or> r = -1 \<or> r = 1 \<and> lpos < np \<and> np \<le> len \<and> wf_inner d q \<and> appended p q \<and>
       seg_text d q = seg_text d p @ slice s pos np)"
    by (intro proc_pajm_cases [OF D(1) b D(3-7)]) blast
  show "\<exists>r q np. proc_pajm d p s len pos lpos = Some (r, q, np) \<and> r \<in> {0, 1, -1}" using C by auto
  show "lpos < np \<and> np \<le> len \<and> wf_inner d q \<and> appended p q \<and> seg_text d q = seg_text d p @ slice s pos np"
    if "proc_pajm d p s len pos lpos = Some (1, q, np)" for q np using C that by auto
  show "wf_inner d q \<and> appended p q \<and> seg_text d q = seg_text d p"
    if "proc_pajm d p s len pos lpos = Some (0, q, np)" for q np using C that D(3) by auto
qed

subsection \<open>A sample\<close>

text \<open>A dictionary with the one lemma "a", built by the code, and the empty result.\<close>

lemma sample_seg_dict:
  obtains d where "built sample_sdict 1000000 d" "seg_dict 1000000 d" "wf_inner d sample_inner"
    "dict_lookup d [97] = 0" "no_nul_terms d" "\<forall>l < m_lmpos d. m_type (m_lemmalist d l) = LEMMA_TYPE_SBASIC"
proof -
  obtain d x where A: "scw_add_lemma sample_sdict 1000000 sample_dict None (sample_lemma ''a'') = Some (1, d, x)"
    using sample_add_lemma by (auto split: option.splits)
  have a: "''a'' \<noteq> []" by simp
  have B: "built sample_sdict 1000000 d" by (rule sample_built [OF A])
  have b: "basic_dict 1000000 d" by (rule built_basic [OF B])
  obtain r d1 where "scw_add_lemma sample_sdict 1000000 sample_dict None (sample_lemma ''a'') = Some (r, d1, None)"
    "r = 1 \<Longrightarrow> entered sample_dict (sample_lemma ''a'') d1 (m_lmpos sample_dict)"
    by (rule add_new_lemma_ok [of 1000000 sample_dict "sample_lemma ''a''" sample_sdict None, unfolded sample_lemma_str,
        OF sample_dict_wf a sample_lemma_not_temp sample_absent [OF a] sample_phrase_ok]) blast
  then have E: "entered sample_dict (sample_lemma ''a'') d (m_lmpos sample_dict)" using A by simp
  have w: "term_words ''a'' = [97]"
    by (subst gb_words.simps) (simp add: scw_get_word_def get_value_gb_def Let_def)
  then have w1: "gb_words ''a'' 0 (Suc 0) = [97]" by simp
  have z: "m_lmpos sample_dict = 0" by (simp add: sample_dict_eval)
  have lk: "dict_lookup d us = (if us = [97] then 0 else LEMMA_NULL)" if "us \<noteq> []" for us
    using E that fresh_lookup [OF sample_dict_create _ that] by (simp add: entered_def sample_lemma_str w1 z)
  have "wf_inner d sample_inner" by (simp add: wf_inner_def sample_inner_fields null_defs)
  then show ?thesis
    using that [OF B basic_dict_seg_dict [OF b]] lk b by (simp add: no_nul_terms_def basic_dict_def)
qed

subsection \<open>Properties\<close>

text \<open>
  C19 \<open>scw_seg_pajm\<close> ends and segments its input: when every word of the input is a lemma by
  itself, the loop returns, and either returns 1 with entries appended that spell exactly the
  input, or -1 with the array of entries full; what was there before is still there.
\<close>

theorem seg_pajm_segments:
  assumes "seg_dict M d" "wf_inner d p" "known_words d (term_words s)"
  shows "\<exists>r q. scw_seg_pajm d p s (length s) = Some (r, q) \<and> wf_inner d q \<and>
    (\<forall>i < m_ppseg_cnt p. m_ppseg q i = m_ppseg p i) \<and>
    (r = 1 \<and> seg_text d q = seg_text d p @ map of_char s \<or> r = -1 \<and> m_ppseg_cnt q = m_maxterm q)"
proof -
  obtain r q where "scw_seg_pajm d p s (length s) = Some (r, q)" "pajm_end d s (length s) p r q"
    using seg_pajm_ok [OF assms(1) order_refl assms(2,3)] by blast
  then show ?thesis
    by (intro exI [of _ r] exI [of _ q]) (auto simp: pajm_end_def appended_def slice_def)
qed

theorem seg_pajm_segments_witness:
  "\<exists>d r q. built sample_sdict 1000000 d \<and> scw_seg_pajm d sample_inner ''a'' 1 = Some (r, q)"
proof (rule sample_seg_dict)
  fix d assume d: "built sample_sdict 1000000 d" "seg_dict 1000000 d" "wf_inner d sample_inner" "dict_lookup d [97] = 0"
  have w: "term_words ''a'' = [97]"
    by (subst gb_words.simps) (simp add: scw_get_word_def get_value_gb_def Let_def)
  have "known_words d (term_words ''a'')" unfolding w using d(4) by (simp add: known_words_def null_defs)
  from seg_pajm_segments [OF d(2,3) this] d(1) show ?thesis by auto
qed

text \<open>
  C20 An unknown character hangs \<open>scw_seg_pajm\<close>: when no prefix of the input is a lemma, the loop
  only logs an error and comes back to the same state, for ever.
\<close>

theorem seg_pajm_unknown_diverges:
  assumes "wf_dict M d" "s \<noteq> []"
    and "\<forall>k. 0 < k \<longrightarrow> k \<le> length (term_words s) \<longrightarrow> dict_lookup d (take k (term_words s)) = LEMMA_NULL"
  shows "pajm_step d s (length s) (Find 0) p = Some (Go (Find 0) p) \<and> scw_seg_pajm d p s (length s) = None"
proof -
  let ?vs = "live_words s 0 (length s)"
  obtain k l np where F: "scw_get_fmm_word d s (length s) 0 = Some (l, np)" "best_match d ?vs k l"
    using fmm_word_ok [OF assms(1), of s "length s" 0] by blast
  have "take k ?vs = take k (term_words s)" if "k \<le> length ?vs"
    using that by (metis takeWhile_eq_take take_take min_absorb1)
  moreover have "length ?vs \<le> length (term_words s)" by (rule length_takeWhile_le)
  ultimately have "l = LEMMA_NULL" using F(2) assms(3) by (auto simp: best_match_def split: if_splits)
  then have step: "pajm_step d s (length s) (Find 0) q = Some (Go (Find 0) q)" for q
    using F(1) assms(2) by (simp add: seg_at_def)
  have "scw_seg_pajm d p s (length s) = None"
    unfolding scw_seg_pajm_def by (rule seg_loop_stuck [where I = "\<lambda>st p. st = Find 0"]) (simp_all only: step, simp)
  then show ?thesis using step by simp
qed

theorem seg_pajm_unknown_diverges_witness: "scw_seg_pajm sample_dict sample_inner ''a'' 1 = None"
  using seg_pajm_unknown_diverges [OF sample_dict_wf, of "''a''" sample_inner]
    fresh_lookup [OF sample_dict_create] gb_words_nonempty [of "''a''"] by auto

text \<open>
  C21 The recogniser of katakana takes exactly the run at \<open>pos\<close>: the characters there up to the
  first that is not between 0xa5a1 and 0xa5f6 or 0xa960. In a dictionary of basic words that knows
  the characters of a run of five or more, \<open>proc_pajm\<close> returns 0 and changes nothing for more than
  twelve characters or when the run ends within the dictionary's match. Otherwise it returns 1, with
  the position behind the run and one more entry, which spells the run (a run of fewer than five has
  the property of katakana), or fails with -1, which it does only when there is no room.
\<close>

theorem proc_pajm_takes:
  assumes "seg_dict M d" "\<forall>l < m_lmpos d. m_type (m_lemmalist d l) = LEMMA_TYPE_SBASIC" "wf_inner d p"
    and "pos < lpos" "lpos \<le> len" "len \<le> length s" "no_nul s len"
    and "run = takeWhile (\<lambda>v. v \<in> {0xa5a1..0xa5f6} \<union> {0xa960}) (gb_words s pos len)"
    and "5 \<le> length run \<longrightarrow> (\<forall>v \<in> set run. dict_lookup d [v] \<noteq> LEMMA_NULL)" "np = pos + length (spell run)"
  shows "if 12 < length run \<or> np \<le> lpos then proc_pajm d p s len pos lpos = Some (0, p, 0)
    else (\<exists>q. proc_pajm d p s len pos lpos = Some (1, q, np) \<and>
           word_taken d p (spell run) (\<lambda>x. length run < 5 \<longrightarrow> IS_PAJMSTR x) q) \<or>
         (\<exists>q. proc_pajm d p s len pos lpos = Some (-1, q, 0) \<and> \<not> pajm_room p (length run))"
proof -
  have run: "run = kana_run s pos len" by (simp add: assms(8) kana_run_def kana_words_def)
  note X = proc_pajm_exact [OF assms(1-7), folded run, OF assms(9)]
  have e: "pos + 2 * length run \<le> length s" "length (spell run) = 2 * length run"
    using X assms(6) cut_ok(2) [of "pos + 2 * length run" s pos] by simp_all
  then have np: "np = pos + 2 * length run" by (simp add: assms(10))
  show ?thesis
  proof (cases "12 < length run \<or> np \<le> lpos")
    case True
    then show ?thesis using X unfolding np by simp
  next
    case False
    then have "pajm_out d p run np (proc_pajm d p s len pos lpos)" using X unfolding np by simp
    then show ?thesis using False by (auto simp: pajm_out_def)
  qed
qed

theorem proc_pajm_takes_witness:
  "\<exists>r q np. proc_pajm sample_dict sample_inner [char_of (0xa5 :: nat), char_of (0xa1 :: nat)] 2 0 1 = Some (r, q, np) \<and> r = 1 \<and> np = 2"
proof -
  let ?s = "[char_of (0xa5 :: nat), char_of (0xa1 :: nat)]"
  have S: "seg_dict 1000000 sample_dict"
    by (rule basic_dict_seg_dict [OF built_basic [OF built.create [OF sample_dict_create]]]) simp
  have b: "\<forall>l < m_lmpos sample_dict. m_type (m_lemmalist sample_dict l) = LEMMA_TYPE_SBASIC"
    by (simp add: sample_dict_eval)
  have n: "no_nul ?s 2" by (auto simp: no_nul_def less_Suc_eq numeral_2_eq_2)
  have "gb_words ?s 0 2 = [0xa5a1]"
    by (subst gb_words.simps) (simp add: scw_get_word_def get_value_gb_def Let_def)
  then have run: "[0xa5a1] = takeWhile (\<lambda>v. v \<in> {0xa5a1..0xa5f6} \<union> {0xa960}) (gb_words ?s 0 2)" by simp
  have room: "pajm_room sample_inner (length [0xa5a1 :: nat])" by (simp add: pajm_room_def word_room_def sample_inner_fields)
  show ?thesis
    using proc_pajm_takes [OF S b sample_inner_wf _ _ _ n run _ refl, of 1] room by (auto simp: spell_def gb_encode_def)
qed

text \<open>
  C22 The recogniser of Chinese numbers takes exactly the number at \<open>pos\<close>. There the text starts
  with number characters \<open>vs\<close>: lemmas by themselves with the property of numbers, up to the first
  character that is none, or until they have 252 bytes. If they end within the dictionary's match,
  \<open>proc_cnum\<close> returns 0 and changes nothing. Otherwise it returns 1, with the position behind them
  and one more entry, which spells them and has the property of a number; it fails with -1 exactly
  when there is no room for that word.
\<close>

theorem proc_cnum_takes:
  assumes "seg_dict M d" "no_nul_terms d" "wf_inner d p" "pos < lpos" "lpos \<le> len" "len \<le> length s" "no_nul s len"
  shows "\<exists>vs np. num_stretch d (gb_words s pos len) vs \<and> np = pos + length (spell vs) \<and>
    (if np \<le> lpos then proc_cnum d p s len pos lpos = Some (0, p, 0)
     else if word_room p (length (spell vs))
     then \<exists>q. proc_cnum d p s len pos lpos = Some (1, q, np) \<and> word_taken d p (spell vs) IS_CNUMBER q
     else \<exists>q. proc_cnum d p s len pos lpos = Some (-1, q, 0))"
proof -
  have W: "wf_dict M d" "wf_phrases d" using assms(1) by (simp_all add: seg_dict_def)
  have pos: "pos < len" using assms(4,5) by simp
  obtain vs e where S: "num_stretch d (gb_words s pos len) vs" "pos \<le> e" "e \<le> len" "spell vs = cut s pos e" "e - pos < 256"
    and P: "proc_cnum d p s len pos lpos = Some (if e \<le> lpos then (0, p, 0) else take_word p s pos e SET_CNUMBER)"
    using num_stretch_cnum [OF W(1) assms(2) pos assms(6)] assms(4) by blast
  have e: "e \<le> length s" "length (spell vs) = e - pos" using S(3,4) assms(6) cut_ok(2) [of e s pos] by simp_all
  have "IS_CNUMBER (SET_CNUMBER (SET_TEMP INIT_PROPERTY))" by (simp add: prop_is prop_set INIT_PROPERTY_def)
  note T = take_word_exact [where f = SET_CNUMBER and chk = IS_CNUMBER, OF W(2) assms(3) S(5) e(1)
      no_nul_mono [OF assms(7) S(3)] this]
  show ?thesis using S(1,2) P T unfolding S(4) [symmetric] e(2)
    by (intro exI [of _ vs] exI [of _ e]) (auto simp: e(2) split: if_splits)
qed

theorem proc_cnum_takes_witness:
  "\<exists>d r q np. built sample_sdict 1000000 d \<and> proc_cnum d sample_inner ''aa'' 2 0 1 = Some (r, q, np)"
proof (rule sample_seg_dict)
  fix d assume d: "built sample_sdict 1000000 d" "seg_dict 1000000 d" "wf_inner d sample_inner" "no_nul_terms d"
  have "no_nul ''aa'' 2" by (auto simp: no_nul_def less_Suc_eq numeral_2_eq_2)
  from proc_cnum_takes [OF d(2,4,3) _ _ _ this, of 0 1] d(1) show ?thesis by (auto split: if_splits)
qed

end
