(* ===== verification/AsciiSub.thy ===== *)
theory AsciiSub
  imports SegLoop
begin

text \<open>
  The subphrases of a phrase of letters, digits and linking marks (\<open>append_asciistr_subphrase\<close>
  and \<open>create_ascii_dphrase\<close> of \<open>segimpl.cpp\<close>). The phrase is a list of basic words; the marks
  cut it into pieces, and every piece of two words or more, every pair of neighbouring pieces
  and every stretch between two marks other than points becomes a subphrase.
\<close>

subsection \<open>A phrase of some of the words of a phrase\<close>

text \<open>
  The words \<open>rs\<close> are the cells from \<open>bpos\<close> on; the code adds up their lengths as \<open>get_lmstr\<close>
  reports them, so that a word it cannot read counts -1.
\<close>

fun ascii_words :: "scw_worddict \<Rightarrow> scw_inner \<Rightarrow> phcell list \<Rightarrow> int \<Rightarrow> (int \<times> scw_inner \<times> int) option" where
  "ascii_words d p [] phlen = Some (0, p, phlen)"
| "ascii_words d p (c # cs) phlen = do {
     r \<leftarrow> cell_ref c;
     let ty = m_type (deref d p r);
     if ty = LEMMA_TYPE_SBASIC \<or> ty = LEMMA_TYPE_DBASIC then do {
       p1 \<leftarrow> push_cells p [PLm r];
       (len, _) \<leftarrow> get_lmstr d p1 (Some r) MAX_WORD_LEN;
       ascii_words d p1 cs (phlen + len) }
     else Some (-1, p, phlen) }"

definition create_ascii_dphrase :: "scw_worddict \<Rightarrow> scw_inner \<Rightarrow> nat \<Rightarrow> nat \<Rightarrow> nat \<Rightarrow> (int \<times> scw_inner) option" where
  "create_ascii_dphrase d p phrase_bpos bpos count = do {
     n \<leftarrow> dyn_count p phrase_bpos;
     let k = m_dynlm_cnt p;
     let start = m_dynph_curpos p;
     if bpos + count > n then Some (-1, p)
     else if k \<ge> m_dynlm_size p then Some (-1, p)
     else if start + MAX_EXTEND_PHINFO_SIZE \<ge> m_dynph_size p then Some (-1, p)
     else do {
       let p1 = upd_dynlm p k (\<lambda>lm. lm\<lparr>m_type := LEMMA_TYPE_DPHRASE, m_weight := 1,
              m_property := SET_TEMP (SET_PHRASE INIT_PROPERTY), m_subphinfo_bpos := COMMON_NULL,
              m_word_bpos := start, m_prelm_pos := LEMMA_NULL, m_utilinfo_pos := COMMON_NULL\<rparr>);
       (e, p2, phlen) \<leftarrow> ascii_words d (p1\<lparr>m_dynph_curpos := start + 1\<rparr>)
         (get_list (m_dynphinfo p) (phrase_bpos + bpos + 1) count) 0;
       if e < 0 then Some (-1, p2)
       else if phlen < 0 \<or> phlen \<ge> int MAX_LEMMA_LENGTH then Some (-2, p2)
       else do {
         let p3 = upd_dynlm p2 k (\<lambda>lm. lm\<lparr>m_length := nat phlen\<rparr>);
         let bwnum = m_dynph_curpos p3 - start - 1;
         if bwnum \<le> 1 then Some (-1, p3)
         else Some (int k, (p3\<lparr>m_dynphinfo := (m_dynphinfo p3)(start := PNum bwnum)\<rparr>)\<lparr>m_dynlm_cnt := k + 1\<rparr>) } } }"

subsection \<open>The marks of a phrase\<close>

text \<open>
  The positions of the marks, which of them are points, and how many words stand before each
  mark, from the words with their positions. \<open>None\<close> inside is a word that cannot be read.
\<close>

record asc_marks =
  am_marks :: "nat list"
  am_dots :: "nat list"
  am_between :: "nat buf"

fun find_marks :: "scw_worddict \<Rightarrow> scw_inner \<Rightarrow> nat \<Rightarrow> phcell list \<Rightarrow> asc_marks \<Rightarrow> asc_marks option option" where
  "find_marks d p i [] m = Some (Some m)"
| "find_marks d p i (c # cs) m = do {
     r \<leftarrow> cell_ref c;
     (len, bs) \<leftarrow> get_lmstr d p (Some r) MAX_WORD_LEN;
     let w = map char_of bs;
     if len < 0 then Some None
     else if (len = 1 \<or> len = 2) \<and> is_mid_mark w 0 \<noteq> 0
     then find_marks d p (i + 1) cs (m\<lparr>am_marks := am_marks m @ [i],
            am_dots := (if is_radix_point w 0 \<noteq> 0 then am_dots m @ [i] else am_dots m)\<rparr>)
     else (let j = length (am_marks m) in
       find_marks d p (i + 1) cs (m\<lparr>am_between := (am_between m)(j := am_between m j + 1)\<rparr>)) }"

text \<open>One subphrase: created from the words \<open>begin ..< begin + n\<close> and noted at offset \<open>begin\<close>.\<close>

definition note_sub :: "scw_worddict \<Rightarrow> scw_inner \<Rightarrow> nat \<Rightarrow> nat \<Rightarrow> nat \<Rightarrow> (int \<times> scw_inner) option" where
  "note_sub d p bpos begin n = do {
     (lmpos, p1) \<leftarrow> create_ascii_dphrase d p bpos begin n;
     if lmpos < 0 then Some (-1, p1)
     else do {
       p2 \<leftarrow> push_tmp p1 (PNum begin);
       p3 \<leftarrow> push_tmp p2 (PLm (Dyn (nat lmpos)));
       k \<leftarrow> cell_num (m_dynphinfo_tmp p3 0);
       Some (0, p3\<lparr>m_dynphinfo_tmp := (m_dynphinfo_tmp p3)(0 := PNum (k + 1))\<rparr>) } }"

text \<open>What \<open>goto exit\<close> with -1 does to the steps that follow.\<close>

definition and_then :: "(int \<times> scw_inner) option \<Rightarrow> (scw_inner \<Rightarrow> (int \<times> scw_inner) option) \<Rightarrow> (int \<times> scw_inner) option" where
  "and_then r k = do { (e, p) \<leftarrow> r; if e < 0 then Some (-1, p) else k p }"

text \<open>The first stretch: up to the first mark that is no point, when two points come before it.\<close>

definition first_stretch :: "scw_worddict \<Rightarrow> scw_inner \<Rightarrow> nat \<Rightarrow> nat \<Rightarrow> nat list \<Rightarrow> nat list \<Rightarrow> (int \<times> scw_inner) option" where
  "first_stretch d p bpos cnt ms dots =
     (if ms ! 0 \<noteq> 0 \<and> 0 \<notin> set dots \<and> length ms > 2 \<and> ms ! 0 \<in> set dots \<and> ms ! 1 \<in> set dots
      then (case filter (\<lambda>m. m \<notin> set dots \<and> m < cnt) (drop 2 ms) of
              [] \<Rightarrow> Some (0, p)
            | m # _ \<Rightarrow> note_sub d p bpos 0 m)
      else Some (0, p))"

text \<open>The pair of numbers around a mark.\<close>

definition numbers_around :: "scw_worddict \<Rightarrow> scw_inner \<Rightarrow> nat \<Rightarrow> nat \<Rightarrow> bool option" where
  "numbers_around d p bpos m = do {
     r2 \<leftarrow> cell_ref (m_dynphinfo p (bpos + m));
     if \<not> IS_ASCIINUM (m_property (deref d p r2)) then Some False
     else do {
       r3 \<leftarrow> cell_ref (m_dynphinfo p (bpos + m + 2));
       Some (IS_ASCIINUM (m_property (deref d p r3))) } }"

text \<open>The body of the loop over the marks, at the mark with index \<open>i\<close>.\<close>

definition mark_body :: "scw_worddict \<Rightarrow> nat \<Rightarrow> nat \<Rightarrow> asc_marks \<Rightarrow> nat \<Rightarrow> scw_inner \<Rightarrow> (int \<times> scw_inner) option" where
  "mark_body d bpos cnt am i p =
     (let ms = am_marks am; dots = set (am_dots am); mc = length ms; m = ms ! i;
          begin = (if i = 0 then if m \<noteq> 0 then 0 else 1 else ms ! (i - 1) + 1) in
      and_then (if i + 1 < mc \<and> ms ! (i + 1) - begin < cnt \<and> m > 0 \<and> ms ! (i + 1) - m > 1 \<and> m - begin \<ge> 1
          then note_sub d p bpos begin (ms ! (i + 1) - begin) else Some (0, p)) (\<lambda>p.
      and_then (if am_between am i > 1 \<and> m - begin < cnt
          then note_sub d p bpos begin (m - begin) else Some (0, p)) (\<lambda>p.
      and_then (if i + 1 < mc \<and> m > 0 \<and> (ms ! (i + 1) - m > 2 \<or> m - begin \<ge> 2)
          then do { b \<leftarrow> numbers_around d p bpos m; if b then note_sub d p bpos (m - 1) 3 else Some (0, p) }
          else Some (0, p)) (\<lambda>p.
      if m \<in> dots \<or> (i + 1 < mc \<and> ms ! (i + 1) \<notin> dots) \<or> (i + 2 < mc \<and> ms ! (i + 2) \<notin> dots) then Some (0, p)
      else (case filter (\<lambda>x. x \<notin> dots) (drop (i + 3) ms) of
              [] \<Rightarrow> Some (0, p)
            | x # _ \<Rightarrow> note_sub d p bpos (m + 1) (x - m - 1))))))"

fun marks_loop :: "scw_worddict \<Rightarrow> nat \<Rightarrow> nat \<Rightarrow> asc_marks \<Rightarrow> nat list \<Rightarrow> scw_inner \<Rightarrow> (int \<times> scw_inner) option" where
  "marks_loop d bpos cnt am [] p = Some (0, p)"
| "marks_loop d bpos cnt am (i # is) p = and_then (mark_body d bpos cnt am i p) (marks_loop d bpos cnt am is)"

subsection \<open>Merging the subphrases\<close>

text \<open>
  Old and new subphrases by offset; at the same offset the one with more words first, and only
  one of two with the same number of words. \<open>bw\<close> gives the number of words.
\<close>

fun merge_subs :: "(lmref \<Rightarrow> nat) \<Rightarrow> (nat \<times> lmref) list \<Rightarrow> (nat \<times> lmref) list \<Rightarrow> (nat \<times> lmref) list" where
  "merge_subs bw [] ts = ts"
| "merge_subs bw os [] = os"
| "merge_subs bw ((a, r) # os) ((b, t) # ts) =
     (if a > b then (b, t) # merge_subs bw ((a, r) # os) ts
      else if a < b then (a, r) # merge_subs bw os ((b, t) # ts)
      else if bw r = bw t then (a, r) # merge_subs bw os ts
      else if bw r > bw t then (a, r) # merge_subs bw os ((b, t) # ts)
      else (b, t) # merge_subs bw ((a, r) # os) ts)"

definition sub_bwcnt :: "scw_worddict \<Rightarrow> scw_inner \<Rightarrow> lmref \<Rightarrow> nat option" where
  "sub_bwcnt d p r = (let lm = deref d p r in
     if m_type lm = LEMMA_TYPE_SPHRASE then Some (m_phinfo d (m_word_bpos lm))
     else if m_type lm = LEMMA_TYPE_DPHRASE then dyn_count p (m_word_bpos lm) else Some 0)"

fun pairs_of :: "phcell list \<Rightarrow> (nat \<times> lmref) list option" where
  "pairs_of (a # c # cs) = do { n \<leftarrow> cell_num a; r \<leftarrow> cell_ref c; ps \<leftarrow> pairs_of cs; Some ((n, r) # ps) }"
| "pairs_of [] = Some []"
| "pairs_of [c] = None"

text \<open>The last part: the noted subphrases go behind the phrase, merged with those it had.\<close>

definition store_subs :: "scw_worddict \<Rightarrow> scw_inner \<Rightarrow> nat \<Rightarrow> (int \<times> scw_inner) option" where
  "store_subs d p k = do {
     tn \<leftarrow> cell_num (m_dynphinfo_tmp p 0);
     if tn = 0 then Some (0, p)
     else do {
       let subphpos = m_subphinfo_bpos (m_dynlm p k);
       let p1 = upd_dynlm p k (\<lambda>lm. lm\<lparr>m_subphinfo_bpos := m_dynph_curpos p\<rparr>);
       if subphpos < 2 ^ 31 then do {
         n \<leftarrow> dyn_count p1 subphpos;
         c_assert (m_dynph_curpos p1 < m_dynph_size p1);
         if m_dynph_curpos p1 + 1 + m_dynph_curpos_tmp p1 + (1 + 2 * n) \<ge> m_dynph_size p1
         then Some (-1, (p1\<lparr>m_dynphinfo := (m_dynphinfo p1)(m_dynph_curpos p1 := PNum 0)\<rparr>)
                \<lparr>m_dynph_curpos := m_dynph_curpos p1 + 1\<rparr>)
         else do {
           os \<leftarrow> pairs_of (get_list (m_dynphinfo p1) (subphpos + 1) (2 * n));
           ts \<leftarrow> pairs_of (get_list (m_dynphinfo_tmp p1) 1 (2 * tn));
           c_assert (list_all (\<lambda>(a, r). sub_bwcnt d p1 r \<noteq> None) (os @ ts));
           let ms = merge_subs (\<lambda>r. the (sub_bwcnt d p1 r)) os ts;
           p2 \<leftarrow> push_cells p1 (PNum (length ms) # pair_cells ms);
           Some (0, p2) } }
       else if m_dynph_curpos p1 + m_dynph_curpos_tmp p1 \<ge> m_dynph_size p1 then Some (-1, p1)
       else do {
         p2 \<leftarrow> push_cells p1 (get_list (m_dynphinfo_tmp p1) 0 (m_dynph_curpos_tmp p1));
         Some (0, p2) } } }"

definition append_asciistr_subphrase :: "scw_worddict \<Rightarrow> scw_inner \<Rightarrow> nat \<Rightarrow> (int \<times> scw_inner) option" where
  "append_asciistr_subphrase d p k =
     (let lm = m_dynlm p k; bpos = m_word_bpos lm in
      if m_type lm \<noteq> LEMMA_TYPE_DPHRASE then Some (0, p)
      else do {
        cnt \<leftarrow> dyn_count p bpos;
        p1 \<leftarrow> push_tmp (p\<lparr>m_dynph_curpos_tmp := 0\<rparr>) (PNum 0);
        am0 \<leftarrow> find_marks d p1 0 (get_list (m_dynphinfo p1) (bpos + 1) cnt)
                \<lparr>am_marks = [], am_dots = [], am_between = (\<lambda>_. 0)\<rparr>;
        case am0 of None \<Rightarrow> Some (-1, p1)
        | Some am \<Rightarrow>
            if am_marks am = [] then Some (0, p1)
            else (let am1 = (if last (am_marks am) \<noteq> cnt - 1 then am\<lparr>am_marks := am_marks am @ [cnt]\<rparr> else am) in
              and_then (first_stretch d p1 bpos cnt (am_marks am1) (am_dots am1)) (\<lambda>p2.
              and_then (marks_loop d bpos cnt am1 [0..<length (am_marks am1)] p2) (\<lambda>p3.
              store_subs d p3 k))) })"

subsection \<open>Properties\<close>

lemma merge_subs_set:
  "set os \<subseteq> set (merge_subs bw os ts)" "set (merge_subs bw os ts) \<subseteq> set os \<union> set ts"
  by (induction bw os ts rule: merge_subs.induct) auto

lemma merge_subs_kept:
  "(b, t) \<in> set ts \<Longrightarrow> (b, t) \<in> set (merge_subs bw os ts) \<or> (\<exists>r. (b, r) \<in> set os \<and> bw r = bw t)"
  by (induction bw os ts rule: merge_subs.induct) auto

lemma merge_subs_in_order:
  "sorted (map fst os) \<Longrightarrow> sorted (map fst ts) \<Longrightarrow> sorted (map fst (merge_subs bw os ts))"
proof (induction bw os ts rule: merge_subs.induct)
  case (3 bw a r os b t ts)
  have le: "c \<le> fst x" if "x \<in> set (merge_subs bw us vs)" "\<forall>y \<in> set us \<union> set vs. c \<le> fst y" for x c us vs
    using merge_subs_set(2) that by blast
  consider "b < a" | "a < b" | "a = b" "bw r = bw t" | "a = b" "bw r > bw t" | "a = b" "bw r < bw t" by linarith
  then show ?case
  proof cases
    case 1
    have "b \<le> fst x" if "x \<in> set (merge_subs bw ((a, r) # os) ts)" for x
      by (rule le [OF that]) (use "3.prems" 1 in auto)
    then show ?thesis using 1 "3.IH"(1) "3.prems" by simp
  next
    case 2
    have "a \<le> fst x" if "x \<in> set (merge_subs bw os ((b, t) # ts))" for x
      by (rule le [OF that]) (use "3.prems" 2 in auto)
    then show ?thesis using 2 "3.IH"(2) "3.prems" by simp
  next
    case 3
    have "a \<le> fst x" if "x \<in> set (merge_subs bw os ts)" for x
      by (rule le [OF that]) (use "3.prems" 3 in auto)
    then show ?thesis using 3 "3.IH"(3) "3.prems" by simp
  next
    case 4
    have "a \<le> fst x" if "x \<in> set (merge_subs bw os ((b, t) # ts))" for x
      by (rule le [OF that]) (use "3.prems" 4 in auto)
    then show ?thesis using 4 "3.IH"(4) "3.prems" by simp
  next
    case 5
    have "b \<le> fst x" if "x \<in> set (merge_subs bw ((a, r) # os) ts)" for x
      by (rule le [OF that]) (use "3.prems" 5 in auto)
    then show ?thesis using 5 "3.IH"(5) "3.prems" by simp
  qed
qed auto

text \<open>
  C26 Merging the new subphrases of a phrase with those it had keeps the order of the offsets and
  loses nothing: every old subphrase is in the result, every new one is, unless an old one with
  the same offset has the same number of words, and nothing else is.
\<close>

theorem merge_subs_complete:
  assumes "sorted (map fst os)" "sorted (map fst ts)"
  shows "sorted (map fst (merge_subs bw os ts)) \<and> set os \<subseteq> set (merge_subs bw os ts) \<and>
    set (merge_subs bw os ts) \<subseteq> set os \<union> set ts \<and>
    (\<forall>(b, t) \<in> set ts. (b, t) \<in> set (merge_subs bw os ts) \<or> (\<exists>r. (b, r) \<in> set os \<and> bw r = bw t))"
proof -
  have "\<forall>(b, t) \<in> set ts. (b, t) \<in> set (merge_subs bw os ts) \<or> (\<exists>r. (b, r) \<in> set os \<and> bw r = bw t)"
    using merge_subs_kept by blast
  then show ?thesis using merge_subs_in_order [OF assms] merge_subs_set by simp
qed

theorem merge_subs_complete_witness:
  "merge_subs (\<lambda>_. 2) [(0, Dyn 0), (3, Dyn 1)] [(0, Dyn 2), (1, Dyn 3)] = [(0, Dyn 0), (1, Dyn 3), (3, Dyn 1)] \<and>
    sorted (map fst (merge_subs (\<lambda>_. 2) [(0, Dyn 0), (3, Dyn 1)] [(0, Dyn 2), (1, Dyn 3)]))"
  using merge_subs_complete [of "[(0, Dyn 0), (3, Dyn 1)]" "[(0, Dyn 2), (1, Dyn 3)]" "\<lambda>_. 2"] by simp

end
