(* ===== verification/Ascii.thy ===== *)
theory Ascii
  imports AsciiSub Pajm
begin

text \<open>
  The recogniser of letters, digits and linking marks (\<open>proc_ascii\<close> and \<open>append_asciistr\<close> of
  \<open>segimpl.cpp\<close>). It reads the run character by character, collecting a word and the digits at
  its end; marks cut the word off, and the pieces are merged into a phrase in the end.
\<close>

definition MIN_SPECSTR_LEN :: nat where "MIN_SPECSTR_LEN = 3"
definition MIN_LTR_LEN :: nat where "MIN_LTR_LEN = 1"

subsection \<open>Appending a piece\<close>

text \<open>
  The sequence that occurs all over the code: a piece of one byte that is a lemma of the
  dictionary is appended as such; any other becomes a dynamic word with the property \<open>f\<close>.
\<close>

definition put_asc :: "scw_worddict \<Rightarrow> scw_inner \<Rightarrow> string \<Rightarrow> (scw_property \<Rightarrow> scw_property) \<Rightarrow> (int \<times> scw_inner) option" where
  "put_asc d p w f = do {
     l \<leftarrow> (if length w = 1 then scw_seek_lemma d w 1 else Some LEMMA_NULL);
     Some (if l \<noteq> LEMMA_NULL then append_lemma_pos p l SCW_STATIC else add_dynword p w f) }"

text \<open>What a failed call does to the steps that follow.\<close>

lemma fmm_loop_pos:
  "fmm_loop d s len v pos lde lm cp = Some (l, np) \<Longrightarrow> (lm \<noteq> LEMMA_NULL \<Longrightarrow> k \<le> cp) \<Longrightarrow> k \<le> pos \<Longrightarrow>
    l \<noteq> LEMMA_NULL \<Longrightarrow> k \<le> np"
proof (induction d s len v pos lde lm cp rule: fmm_loop.induct)
  case (1 d s len v pos lde lm cp)
  show ?case
  proof (cases "v > 0")
    case True
    then obtain nde where n: "scw_seek_entry d lde v = Some nde"
      using "1.prems"(1) by (subst (asm) fmm_loop.simps) (auto split: option.splits)
    show ?thesis
    proof (cases "nde = DENTRY_NULL")
      case False
      obtain v' pos' where g: "scw_get_word s pos len = (v', pos')" by fastforce
      have "pos \<le> pos'" using scw_get_word_progress [of pos len s] scw_get_word_end [of len pos s] g
        by (cases "pos < len") auto
      then have "k \<le> pos'" using "1.prems"(3) by simp
      then show ?thesis
        using "1.IH" [OF True n False refl g [symmetric] refl] "1.prems" True n False g
        by (subst (asm) (2) fmm_loop.simps) (auto simp: Let_def split: if_splits)
    qed (use "1.prems" True n in \<open>subst (asm) fmm_loop.simps, auto\<close>)
  qed (use "1.prems" in \<open>subst (asm) fmm_loop.simps, auto\<close>)
qed

lemma fmm_word_moves:
  assumes "scw_get_fmm_word d s len pos = Some (l, np)" "l \<noteq> LEMMA_NULL"
  shows "pos < np" "pos < len"
proof -
  obtain v pos' where g: "scw_get_word s pos len = (v, pos')" by fastforce
  then have v: "v \<noteq> 0" and f: "fmm_loop d s len v pos' DENTRY_FIRST LEMMA_NULL pos' = Some (l, np)"
    using assms by (auto simp: scw_get_fmm_word_def split: if_splits)
  show p: "pos < len" using v g scw_get_word_end [of len pos s] by (cases "pos < len") auto
  have "pos < pos'" using scw_get_word_progress [OF p, of s] g by simp
  moreover have "pos' \<le> np" using fmm_loop_pos [OF f, of pos'] assms(2) by simp
  ultimately show "pos < np" by simp
qed

text \<open>
  The leading special strings of a word, each appended; the result has the position behind them
  and their number.
\<close>

function asc_spec :: "scw_worddict \<Rightarrow> scw_inner \<Rightarrow> string \<Rightarrow> nat \<Rightarrow> nat \<Rightarrow> nat \<Rightarrow> (int \<times> scw_inner \<times> nat \<times> nat) option" where
  "asc_spec d p w pos lpos lmcnt =
     (case scw_get_fmm_word d w (length w) pos of None \<Rightarrow> None
      | Some (l, np) \<Rightarrow>
          if l = LEMMA_NULL \<or> \<not> IS_SPEC_ENSTR (m_property (m_lemmalist d l)) then Some (0, p, lpos, lmcnt)
          else (case append_lemma d p (Static l) of None \<Rightarrow> None
            | Some (e, q) \<Rightarrow> if e < 0 then Some (-1, q, lpos, lmcnt) else asc_spec d q w np np (lmcnt + 1)))"
  by pat_completeness auto

termination asc_spec
  by (relation "measure (\<lambda>(d, p, w, pos, lpos, c). length w - pos)")
    (auto dest: fmm_word_moves intro: diff_less_mono2)

declare asc_spec.simps [simp del]

text \<open>
  \<open>append_asciistr\<close>: the return code is the number of bytes the special strings cover, the length
  of the word, or -1. \<open>flag\<close> is the last argument: take back an incomplete cover.
\<close>

definition append_asciistr :: "scw_worddict \<Rightarrow> scw_inner \<Rightarrow> string \<Rightarrow> nat \<Rightarrow> bool \<Rightarrow> (int \<times> scw_inner) option" where
  "append_asciistr d p w chrcnt flag =
     (let len = length w;
          put = (\<lambda>p lpos. do {
            (e, q) \<leftarrow> put_asc d p w SET_ASCIIWORD; Some (if e < 0 then (-1, q) else (int lpos, q)) }) in
      if chrcnt > MIN_SPECSTR_LEN then do {
        (e, p1, lpos, lmcnt) \<leftarrow> asc_spec d p w 0 0 0;
        if e < 0 then Some (-1, p1)
        else if lmcnt > 0 \<and> lpos = len then
          if lmcnt = 1 then Some (int len, p1)
          else do {
            (ret, p2) \<leftarrow> poly_lemmas d p1 (m_ppseg_cnt p) lmcnt;
            if ret < 0 then Some (-1, p2)
            else Some (int len, (upd_dynlm p2 (nat ret) (set_property SET_ASCIIWORD))
                   \<lparr>m_ppseg_cnt := m_ppseg_cnt p2 - (lmcnt - 1)\<rparr>) }
        else if \<not> flag then Some (int lpos, p1)
        else put (if lmcnt > 0 then p1\<lparr>m_ppseg_cnt := m_ppseg_cnt p1 - lmcnt\<rparr> else p1) lpos }
      else put p len)"

subsection \<open>The variables of the scan\<close>

text \<open>
  \<open>a_word\<close> is the buffer \<open>word\<close> up to \<open>dpos\<close>; the digits at its end begin at \<open>a_dgtbgn\<close>, number
  \<open>a_dgtcnt\<close> and take \<open>a_dgtlen\<close> bytes. \<open>a_tmpstr\<close> is the buffer \<open>tmpstr\<close> with letters and digits
  before a point, \<open>a_tmpbpos\<close> their first entry; \<open>a_vbpos\<close> the first entry of a version number of
  \<open>a_vcnt\<close> entries. The flags are \<open>has_mid_mark\<close>, \<open>has_point_mark\<close>, \<open>has_split_dgtstr\<close>,
  \<open>is_pure_digit\<close> and \<open>is_first_digit\<close>.
\<close>

record asc =
  a_pos :: nat
  a_word :: string
  a_dcnt :: nat
  a_dgtbgn :: int
  a_dgtlen :: nat
  a_dgtcnt :: nat
  a_linklen :: nat
  a_tmpstr :: string
  a_tmpbpos :: int
  a_tmpcnt :: nat
  a_vbpos :: int
  a_vcnt :: nat
  a_mid :: bool
  a_point :: bool
  a_split :: bool
  a_pure :: bool
  a_first :: bool

definition asc_init :: "nat \<Rightarrow> bool \<Rightarrow> asc" where
  "asc_init pos first = \<lparr>a_pos = pos, a_word = [], a_dcnt = 0, a_dgtbgn = -1, a_dgtlen = 0, a_dgtcnt = 0,
     a_linklen = 0, a_tmpstr = [], a_tmpbpos = -1, a_tmpcnt = 0, a_vbpos = -1, a_vcnt = 0, a_mid = False,
     a_point = False, a_split = False, a_pure = True, a_first = first\<rparr>"

text \<open>The body of the loop goes on, leaves the loop, or fails.\<close>

datatype asc_out = Cont asc scw_inner | Stop asc scw_inner | Fail scw_inner

text \<open>The word from \<open>dgtbgn\<close> on; a negative index would be a read before the buffer.\<close>

definition word_from :: "string \<Rightarrow> int \<Rightarrow> string option" where
  "word_from w b = do { c_assert (0 \<le> b \<and> b \<le> int (length w)); Some (drop (nat b) w) }"

definition set_num :: "scw_property \<Rightarrow> scw_property" where
  "set_num x = SET_ASCIINUM (SET_ASCIIWORD x)"

text \<open>The length of the run of tail marks at \<open>pos\<close>.\<close>

lemma tailmark_size: "is_split_tailmark s i \<le> 2"
  by (simp add: is_split_tailmark_def Let_def)

function link_run :: "string \<Rightarrow> nat \<Rightarrow> nat \<Rightarrow> nat \<Rightarrow> nat" where
  "link_run s slen pos linklen =
     (if pos + linklen < slen \<and> is_split_tailmark s (pos + linklen) \<noteq> 0
      then link_run s slen pos (linklen + is_split_tailmark s (pos + linklen)) else linklen)"
  by pat_completeness auto

termination link_run
  by (relation "measure (\<lambda>(s, slen, pos, linklen). slen - (pos + linklen))") auto

declare link_run.simps [simp del]

text \<open>The characters from \<open>pos\<close> on until \<open>n\<close> bytes are done, each appended by itself.\<close>

function put_marks :: "scw_worddict \<Rightarrow> scw_inner \<Rightarrow> string \<Rightarrow> nat \<Rightarrow> nat \<Rightarrow> nat \<Rightarrow> (scw_property \<Rightarrow> scw_property) \<Rightarrow>
    (int \<times> scw_inner \<times> nat) option" where
  "put_marks d p s pos i n f =
     (if i < n then
        let k = (if cbyte s (pos + i) < 0x80 then 1 else 2) in
        (case put_asc d p (cut s (pos + i) (pos + i + k)) f of None \<Rightarrow> None
         | Some (e, q) \<Rightarrow> if e < 0 then Some (-1, q, pos + i) else put_marks d q s pos (i + k) n f)
      else Some (0, p, pos + i))"
  by pat_completeness auto

termination put_marks
  by (relation "measure (\<lambda>(d, p, s, pos, i, n, f). n - i)") (auto split: if_splits)

declare put_marks.simps [simp del]

subsection \<open>One character\<close>

text \<open>The word has reached the size of the buffer: it is appended and the scan starts anew.\<close>

definition asc_overflow :: "asc \<Rightarrow> scw_inner \<Rightarrow> asc_out" where
  "asc_overflow a p =
     (let (e, q) = add_dynword p (a_word a) SET_ASCIIWORD in
      if e < 0 then Fail q
      else Cont (a\<lparr>a_word := [], a_tmpstr := [], a_dcnt := 0, a_dgtbgn := -1, a_dgtlen := 0, a_dgtcnt := 0,
             a_tmpbpos := -1, a_tmpcnt := 0, a_vbpos := -1, a_vcnt := 0, a_mid := False, a_point := False,
             a_first := False, a_split := False\<rparr>) q)"

text \<open>A point between digits: the letters before the digits, then the digits.\<close>

definition asc_point :: "scw_worddict \<Rightarrow> asc \<Rightarrow> scw_inner \<Rightarrow> (int \<times> asc \<times> scw_inner) option" where
  "asc_point d a p =
     (let w = a_word a; ltrlen = length w - a_dgtlen a;
          a1 = (if ltrlen > 0 \<and> a_dgtlen a > 0
                then a\<lparr>a_tmpstr := w, a_tmpcnt := a_dcnt a, a_tmpbpos := int (m_ppseg_cnt p)\<rparr> else a) in do {
        (e, p1) \<leftarrow> (if ltrlen > 0 then append_asciistr d p (take ltrlen w) (a_dcnt a - a_dgtcnt a) True else Some (0, p));
        if e < 0 then Some (-1, a1, p1)
        else if a_dgtlen a > 0 then do {
          wd \<leftarrow> word_from w (a_dgtbgn a);
          (e, p2) \<leftarrow> put_asc d p1 wd set_num;
          if e < 0 then Some (-1, a1, p2)
          else Some (0, (if a_vbpos a1 < 0 then a1\<lparr>a_vbpos := int (m_ppseg_cnt p2) - 1, a_vcnt := 1\<rparr>
                         else a1\<lparr>a_vcnt := a_vcnt a1 + 1\<rparr>)\<lparr>a_point := True\<rparr>, p2) }
        else Some (0, a1\<lparr>a_point := True\<rparr>, p1) })"

text \<open>Any other mark: the word before it.\<close>

definition asc_link :: "scw_worddict \<Rightarrow> asc \<Rightarrow> scw_inner \<Rightarrow> (int \<times> asc \<times> scw_inner) option" where
  "asc_link d a p = do {
     (e, p1) \<leftarrow> (if a_word a \<noteq> [] then append_asciistr d p (a_word a) (a_dcnt a) True else Some (0, p));
     Some (if e < 0 then -1 else 0, a\<lparr>a_vbpos := -1, a_vcnt := 0\<rparr>, p1) }"

definition asc_mark :: "scw_worddict \<Rightarrow> string \<Rightarrow> nat \<Rightarrow> asc \<Rightarrow> scw_inner \<Rightarrow> asc_out option" where
  "asc_mark d s slen a p =
     (let pos = a_pos a; off = is_my_ascii s pos; link = link_run s slen pos (a_linklen a) in
      if link > 0 \<and> (pos + link \<ge> slen \<or> is_my_ascii s (pos + link) = 0)
      then Some (Stop (a\<lparr>a_pos := pos + link, a_linklen := link, a_pure := False\<rparr>) p)
      else do {
        let a0 = a\<lparr>a_mid := True\<rparr>;
        (e, a1, p1) \<leftarrow> (if is_radix_point s pos \<noteq> 0 \<and> pos + off < slen \<and> is_my_num s (pos + off) \<noteq> 0
                       then asc_point d a0 p else asc_link d a0 p);
        if e < 0 then Some (Fail p1)
        else do {
          (e, p2, pos2) \<leftarrow> put_marks d p1 s pos 0 (if link = 0 then off else link) SET_ASCIIWORD;
          if e < 0 then Some (Fail p2)
          else Some (Cont (a1\<lparr>a_pos := pos2, a_vcnt := (if a_vbpos a1 \<ge> 0 then a_vcnt a1 + 1 else a_vcnt a1),
                 a_linklen := 0, a_pure := False, a_word := [], a_dcnt := 0, a_dgtbgn := -1, a_dgtlen := 0,
                 a_dgtcnt := 0\<rparr>) p2) } })"

text \<open>
  A letter. After three digits or more at the front they become a word of their own. After a
  point between digits the entries for letters and digits before it are joined again.
\<close>

definition asc_rejoin :: "scw_worddict \<Rightarrow> asc \<Rightarrow> scw_inner \<Rightarrow> (int \<times> asc \<times> scw_inner) option" where
  "asc_rejoin d a p = do {
     (e, p1) \<leftarrow> append_asciistr d p (a_tmpstr a) (a_tmpcnt a) True;
     if e < 0 then Some (-1, a, p1)
     else do {
       c_assert (0 < m_ppseg_cnt p1);
       let cnt = m_ppseg_cnt p1 - 1;
       let b = nat (a_tmpbpos a);
       c_assert (b < m_maxterm p1);
       let p2 = p1\<lparr>m_ppseg_cnt := cnt, m_ppseg := (m_ppseg p1)(b := m_ppseg p1 cnt)\<rparr>;
       if b + 1 \<ge> cnt then Some (-1, a, p2)
       else Some (0, a\<lparr>a_tmpbpos := -1, a_tmpstr := [], a_tmpcnt := 0\<rparr>,
              p2\<lparr>m_ppseg := (m_ppseg p2)(b + 1 := None)\<rparr>) } }"

definition asc_letter :: "scw_worddict \<Rightarrow> asc \<Rightarrow> scw_inner \<Rightarrow> (int \<times> asc \<times> scw_inner) option" where
  "asc_letter d a p = do {
     (e, a1, p1) \<leftarrow>
       (if a_first a \<and> \<not> a_point a \<and> a_dgtcnt a > 2 then do {
          (e, q) \<leftarrow> put_asc d p (take (a_dgtlen a) (a_word a)) set_num;
          Some (e, a\<lparr>a_word := [], a_dcnt := 0, a_split := True\<rparr>, q) }
        else if a_tmpstr a \<noteq> [] \<and> a_tmpbpos a \<ge> 0 then asc_rejoin d a p
        else Some (0, a, p));
     Some (e, a1\<lparr>a_point := False, a_first := False, a_dgtbgn := -1, a_dgtlen := 0, a_dgtcnt := 0,
            a_vbpos := -1, a_vcnt := 0, a_pure := False\<rparr>, p1) }"

definition asc_push :: "string \<Rightarrow> asc \<Rightarrow> asc" where
  "asc_push s a =
     (let k = (if is_my_ascii s (a_pos a) = 2 then 2 else 1) in
      a\<lparr>a_word := a_word a @ cut s (a_pos a) (a_pos a + k), a_pos := a_pos a + k, a_dcnt := a_dcnt a + 1\<rparr>)"

definition asc_digit :: "string \<Rightarrow> asc \<Rightarrow> asc" where
  "asc_digit s a =
     a\<lparr>a_dgtbgn := (if a_dgtlen a = 0 then int (length (a_word a)) else a_dgtbgn a),
       a_dgtlen := a_dgtlen a + is_my_ascii s (a_pos a), a_dgtcnt := a_dgtcnt a + 1\<rparr>"

definition asc_step :: "scw_worddict \<Rightarrow> string \<Rightarrow> nat \<Rightarrow> asc \<Rightarrow> scw_inner \<Rightarrow> asc_out option" where
  "asc_step d s slen a p =
     (if length (a_word a) \<ge> MAX_WORD_LEN - 2 then Some (asc_overflow a p)
      else if is_my_num s (a_pos a) \<noteq> 0 then Some (Cont (asc_push s (asc_digit s a)) p)
      else if is_mid_mark s (a_pos a) \<noteq> 0 then asc_mark d s slen a p
      else do {
        (e, a1, q) \<leftarrow> asc_letter d a p;
        Some (if e < 0 then Fail q else Cont (asc_push s a1) q) })"

partial_function (option) asc_loop :: "scw_worddict \<Rightarrow> string \<Rightarrow> nat \<Rightarrow> asc \<Rightarrow> scw_inner \<Rightarrow> asc_out option" where
  "asc_loop d s slen a p =
     (if is_my_ascii s (a_pos a) \<noteq> 0 \<and> a_pos a < slen then do {
        out \<leftarrow> asc_step d s slen a p;
        case out of Cont a' q \<Rightarrow> asc_loop d s slen a' q | Stop a' q \<Rightarrow> Some (Stop a' q) | Fail q \<Rightarrow> Some (Fail q) }
      else Some (Stop a p))"

declare asc_loop.simps [code]

subsection \<open>After the scan\<close>

text \<open>The letters and digits at the end: cut into known strings, or into letters and a number.\<close>

definition asc_last :: "scw_worddict \<Rightarrow> asc \<Rightarrow> scw_inner \<Rightarrow> (int \<times> asc \<times> scw_inner) option" where
  "asc_last d a p =
     (let w = a_word a; dpos = length w; ltrlen = dpos - a_dgtlen a in
      if w = [] then Some (0, a, p)
      else if a_dgtlen a = 0 then do {
        (e, q) \<leftarrow> append_asciistr d p w (a_dcnt a) True; Some (if e < 0 then -1 else 0, a, q) }
      else if a_dcnt a - a_dgtcnt a > MIN_LTR_LEN then do {
        (len, p1) \<leftarrow> append_asciistr d p w (a_dcnt a) False;
        if len = int dpos then Some (0, a, p1)
        else do {
          (e, p2) \<leftarrow> (if len \<noteq> int ltrlen
              then put_asc d (p1\<lparr>m_ppseg_cnt := m_ppseg_cnt p\<rparr>) (take ltrlen w) SET_ASCIIWORD else Some (0, p1));
          if e < 0 then Some (-1, a, p2)
          else do {
            wd \<leftarrow> word_from w (a_dgtbgn a);
            (e, p3) \<leftarrow> put_asc d p2 wd set_num;
            Some (e, a\<lparr>a_split := True\<rparr>, p3) } } }
      else do {
        wd \<leftarrow> word_from w (a_dgtbgn a - int ltrlen);
        (e, p1) \<leftarrow> put_asc d p wd (if ltrlen = 0 then set_num else SET_ASCIIWORD);
        Some (e, if a_vbpos a \<ge> 0 \<and> ltrlen = 0 then a\<lparr>a_vcnt := a_vcnt a + 1\<rparr> else a, p1) })"

text \<open>\<open>poly_lemmas\<close> with the property of the phrase set; -2, a phrase too long, is no failure.\<close>

definition asc_poly :: "scw_worddict \<Rightarrow> scw_inner \<Rightarrow> nat \<Rightarrow> nat \<Rightarrow> (int \<times> scw_inner) option" where
  "asc_poly d p bpos count = do {
     (k, q) \<leftarrow> poly_lemmas d p bpos count;
     Some (k, if k \<ge> 0 then upd_dynlm q (nat k) (set_property SET_ASCIIWORD) else q) }"

text \<open>
  The phrases for the leading parts of a version number. \<open>vboff\<close> is computed as the code does,
  from the index of an entry.
\<close>

function asc_version :: "scw_worddict \<Rightarrow> string \<Rightarrow> nat \<Rightarrow> nat \<Rightarrow> nat \<Rightarrow> nat \<Rightarrow> nat \<Rightarrow> bool \<Rightarrow> scw_inner \<Rightarrow> (int \<times> scw_inner) option" where
  "asc_version d s vbpos vcnt vboff j v_num bflag p =
     (if v_num < vcnt then
        if is_radix_point s (vboff + j) \<noteq> 0 then
          (case (if bflag \<and> v_num + 1 < vcnt then asc_poly d p vbpos (v_num + 1) else Some (0, p)) of None \<Rightarrow> None
           | Some (k, q) \<Rightarrow>
               if k = -1 then Some (-1, q)
               else asc_version d s vbpos vcnt vboff (j + is_my_ascii s (vboff + j)) (v_num + 2) True q)
        else if is_my_ascii s (vboff + j) = 0 then Some (0, p)
        else asc_version d s vbpos vcnt vboff (j + is_my_ascii s (vboff + j)) v_num bflag p
      else Some (0, p))"
  by pat_completeness auto

lemma is_my_ascii_end: "length s \<le> i \<Longrightarrow> is_my_ascii s i = 0"
  by (simp add: is_my_ascii_def al_num_map_def)

termination asc_version
proof (relation "measures [\<lambda>(d, s, vbpos, vcnt, vboff, j, v_num, b, p). vcnt - v_num,
    \<lambda>(d, s, vbpos, vcnt, vboff, j, v_num, b, p). length s - (vboff + j)]", goal_cases)
  case (3 d s vbpos vcnt vboff j v_num bflag p)
  then have "vboff + j < length s" using is_my_ascii_end [of s "vboff + j"] by (meson not_less)
  then show ?case using 3 by auto
qed auto

declare asc_version.simps [simp del]

text \<open>
  A run of digits only becomes a number; its entry is a created word, or a lemma of the
  dictionary that the code would change only if it were marked temporary.
\<close>

definition asc_number :: "scw_worddict \<Rightarrow> scw_inner \<Rightarrow> (int \<times> scw_inner) option" where
  "asc_number d p = do {
     c_assert (0 < m_ppseg_cnt p);
     r \<leftarrow> m_ppseg p (m_ppseg_cnt p - 1);
     if \<not> IS_TEMP (m_property (deref d p r)) then Some (0, p)
     else (case r of Static l \<Rightarrow> None
           | Dyn k \<Rightarrow> Some (0, upd_dynlm p k (set_property (\<lambda>x. SET_ASCIIWORD (SET_ASCIINUM x))))) }"

definition asc_merge :: "scw_worddict \<Rightarrow> string \<Rightarrow> nat \<Rightarrow> asc \<Rightarrow> scw_inner \<Rightarrow> (int \<times> scw_inner) option" where
  "asc_merge d s lmbpos a p = do {
     (e, p1) \<leftarrow>
       (if a_vbpos a - int lmbpos > 0 \<and> a_vcnt a > 1 \<and> a_point a then do {
          let b = nat (a_vbpos a);
          (e, q) \<leftarrow> asc_version d s b (a_vcnt a) (is_my_ascii s b) 0 0 False p;
          if e < 0 then Some (-1, q) else asc_poly d q b (a_vcnt a) }
        else Some (0, p));
     if e = -1 then Some (-1, p1)
     else if m_ppseg_cnt p1 - lmbpos > 1 \<and> (a_mid a \<or> a_split a) then do {
       (k, p2) \<leftarrow> asc_poly d p1 lmbpos (m_ppseg_cnt p1 - lmbpos);
       if k = -1 then Some (-1, p2)
       else if k \<ge> 0 then append_asciistr_subphrase d p2 (nat k)
       else Some (0, p2) }
     else Some (0, p1) }"

text \<open>Everything after the loop.\<close>

definition asc_end :: "scw_worddict \<Rightarrow> string \<Rightarrow> nat \<Rightarrow> nat \<Rightarrow> asc \<Rightarrow> scw_inner \<Rightarrow> (int \<times> scw_inner \<times> nat) option" where
  "asc_end d s lmbpos lpos a0 p0 = do {
     (e, a, p) \<leftarrow> asc_last d a0 p0;
     if e < 0 then Some (-1, p, 0)
     else if a_pos a \<le> lpos then Some (0, p\<lparr>m_ppseg_cnt := lmbpos\<rparr>, 0)
     else do {
       (e, p1) \<leftarrow> (if a_pure a then asc_number d p else asc_merge d s lmbpos a p);
       if e < 0 then Some (-1, p1, 0)
       else do {
         (e, p2, _) \<leftarrow> put_marks d p1 s (a_pos a - a_linklen a) 0 (a_linklen a) id;
         if e < 0 then Some (-1, p2, 0) else Some (1, p2, a_pos a) } } }"

text \<open>The marks at the head; the code does not look at the length of the text here.\<close>

lemma headmark_end: "length s \<le> i \<Longrightarrow> is_split_headmark s i = 0"
  by (simp add: is_split_headmark_def)

function asc_heads :: "scw_worddict \<Rightarrow> scw_inner \<Rightarrow> string \<Rightarrow> nat \<Rightarrow> (int \<times> scw_inner \<times> nat) option" where
  "asc_heads d p s pos =
     (let off = is_split_headmark s pos in
      if off = 0 then Some (0, p, pos)
      else (case put_asc d p (cut s pos (pos + off)) id of None \<Rightarrow> None
        | Some (e, q) \<Rightarrow> if e < 0 then Some (-1, q, pos) else asc_heads d q s (pos + off)))"
  by pat_completeness auto

termination asc_heads
proof (relation "measure (\<lambda>(d, p, s, pos). length s - pos)", goal_cases)
  case (2 d p s pos off x2 e q)
  then have "pos < length s" using headmark_end [of s pos] by (meson not_less)
  then show ?case using 2 by auto
qed simp

declare asc_heads.simps [simp del]

definition proc_ascii :: "scw_worddict \<Rightarrow> scw_inner \<Rightarrow> string \<Rightarrow> nat \<Rightarrow> nat \<Rightarrow> nat \<Rightarrow> nat \<Rightarrow>
    (int \<times> scw_inner \<times> nat) option" where
  "proc_ascii d p s slen bpos lpos llm =
     (let scan = (\<lambda>p pos. do {
            out \<leftarrow> asc_loop d s slen (asc_init pos (is_my_num s pos \<noteq> 0)) p;
            case out of Stop a q \<Rightarrow> asc_end d s (m_ppseg_cnt p) lpos a q
              | Cont a q \<Rightarrow> None
              | Fail q \<Rightarrow> Some (-1, q, 0) });
          len = m_length (m_lemmalist d llm) in
      if bpos \<ge> slen \<or> is_my_ascii s bpos = 0 then Some (0, p, 0)
      else if IS_SPEC_ENSTR (m_property (m_lemmalist d llm)) then
        if bpos + len \<ge> slen \<or> is_my_ascii s (bpos + len) = 0 then do {
          (e, q) \<leftarrow> append_lemma d p (Static llm);
          Some (if e < 0 then (-1, q, 0) else (1, q, bpos + len)) }
        else scan p bpos
      else do {
        (e, q, pos) \<leftarrow> asc_heads d p s bpos;
        if e < 0 then Some (-1, q, 0)
        else if is_my_ascii s pos = 0 then Some (1, q, pos)
        else scan q pos })"

subsection \<open>A run of digits\<close>

definition digit_run :: "string \<Rightarrow> nat \<Rightarrow> nat \<Rightarrow> bool" where
  "digit_run s a b \<longleftrightarrow> (\<forall>i. a \<le> i \<longrightarrow> i < b \<longrightarrow> 0x30 \<le> cbyte s i \<and> cbyte s i \<le> 0x39)"

lemma digit_classes:
  assumes "0x30 \<le> cbyte s i" "cbyte s i \<le> 0x39"
  shows "is_my_num s i = 1" "is_my_ascii s i = 1" "is_split_headmark s i = 0"
proof -
  have "cbyte s i = 48 \<or> cbyte s i = 49 \<or> cbyte s i = 50 \<or> cbyte s i = 51 \<or> cbyte s i = 52 \<or>
      cbyte s i = 53 \<or> cbyte s i = 54 \<or> cbyte s i = 55 \<or> cbyte s i = 56 \<or> cbyte s i = 57"
    using assms by arith
  then have "and (al_num_map ! cbyte s i) 2 \<noteq> 0" "al_num_map ! cbyte s i \<noteq> 0"
    by (auto simp: al_num_map_def)
  then show "is_my_num s i = 1" "is_my_ascii s i = 1"
    using assms by (auto simp: is_my_num_def is_my_ascii_def char_pos_def Let_def)
  show "is_split_headmark s i = 0" using assms by (auto simp: is_split_headmark_def Let_def)
qed

text \<open>The state of the scan after \<open>k\<close> digits.\<close>

definition digits_at :: "string \<Rightarrow> nat \<Rightarrow> nat \<Rightarrow> asc" where
  "digits_at s pos k = (asc_init pos True)\<lparr>a_pos := pos + k, a_word := cut s pos (pos + k), a_dcnt := k,
     a_dgtbgn := (if k = 0 then -1 else 0), a_dgtlen := k, a_dgtcnt := k\<rparr>"

lemma cut_length: "b \<le> length s \<Longrightarrow> length (cut s a b) = b - a"
  by (simp add: cut_def)

lemma digit_step:
  assumes "digit_run s pos e" "pos + k < e" "e \<le> length s" "k < 254"
  shows "asc_step d s slen (digits_at s pos k) p = Some (Cont (digits_at s pos (Suc k)) p)"
proof -
  have b: "0x30 \<le> cbyte s (pos + k)" "cbyte s (pos + k) \<le> 0x39" using assms(1,2) by (simp_all add: digit_run_def)
  have l: "length (cut s pos (pos + k)) = k" using assms by (simp add: cut_length)
  have "cut s pos (pos + k) @ cut s (pos + k) (pos + k + 1) = cut s pos (pos + Suc k)"
    using cut_append [of pos "pos + k" "pos + k + 1" s] by simp
  then show ?thesis
    using assms(4) l digit_classes [OF b]
    by (simp add: asc_step_def digits_at_def asc_digit_def asc_push_def max_sizes asc_init_def cut_def)
qed

lemma digit_loop:
  assumes "digit_run s pos e" "e \<le> slen" "slen \<le> length s" "e - pos < 255" "slen = e \<or> is_my_ascii s e = 0"
  shows "k \<le> e - pos \<Longrightarrow> pos \<le> e \<Longrightarrow> asc_loop d s slen (digits_at s pos k) p = Some (Stop (digits_at s pos (e - pos)) p)"
proof (induction "e - pos - k" arbitrary: k)
  case 0
  then have k: "k = e - pos" by simp
  have "a_pos (digits_at s pos k) = e" using 0 by (simp add: digits_at_def)
  then show ?case using assms(5) unfolding k by (subst asc_loop.simps) auto
next
  case (Suc n)
  have lt: "pos + k < e" using Suc.hyps(2) by simp
  have b: "0x30 \<le> cbyte s (pos + k)" "cbyte s (pos + k) \<le> 0x39" using assms(1) lt by (simp_all add: digit_run_def)
  have "asc_step d s slen (digits_at s pos k) p = Some (Cont (digits_at s pos (Suc k)) p)"
    by (rule digit_step [OF assms(1) lt]) (use assms lt in simp_all)
  moreover have "asc_loop d s slen (digits_at s pos (Suc k)) p = Some (Stop (digits_at s pos (e - pos)) p)"
    using Suc lt by (intro Suc.hyps(1)) simp_all
  moreover have "a_pos (digits_at s pos k) = pos + k" by (simp add: digits_at_def)
  ultimately show ?case using digit_classes(2) [OF b] lt assms(2) by (subst asc_loop.simps) simp
qed

text \<open>A word for which there is room.\<close>

lemma add_dynword_room:
  assumes "m_dynb_curpos p + c_strlen w + 1 < m_dynb_size p" "m_dynlm_cnt p < m_dynlm_size p" "m_ppseg_cnt p < m_maxterm p"
  obtains q where "add_dynword p w f = (0, q)" "m_dynb_curpos q = m_dynb_curpos p + c_strlen w + 1"
    "m_dynb_size q = m_dynb_size p" "m_dynlm_cnt q = m_dynlm_cnt p + 1" "m_dynlm_size q = m_dynlm_size p"
    "m_ppseg_cnt q = m_ppseg_cnt p + 1" "m_maxterm q = m_maxterm p"
proof -
  have "fst (add_dynword p w f) = 0" using assms
    by (simp add: add_dynword_def create_dynword_def append_lemma_pos_def upd_dynlm_def SCW_STATIC_def SCW_DYNAMIC_def Let_def)
  then have "add_dynword p w f = (0, snd (add_dynword p w f))" by (metis prod.collapse)
  then show ?thesis
    by (rule that) (use assms in \<open>simp_all add: add_dynword_def create_dynword_def append_lemma_pos_def upd_dynlm_def
      put_ppseg_def SCW_STATIC_def SCW_DYNAMIC_def Let_def\<close>)
qed

lemma digit_run_no_nul:
  assumes "digit_run s a b" "b \<le> length s"
  shows "\<forall>c \<in> set (cut s a b). (of_char c :: nat) \<noteq> 0"
proof
  fix c assume "c \<in> set (cut s a b)"
  then obtain j where j: "j < b - a" "cut s a b ! j = c" using assms(2) by (metis cut_length in_set_conv_nth)
  then have "of_char c = cbyte s (a + j)" using cut_ok(3) [OF assms(2) j(1)] assms(2) by (simp add: cut_length)
  moreover have "0x30 \<le> cbyte s (a + j)" using assms(1) j(1) by (simp add: digit_run_def)
  ultimately show "(of_char c :: nat) \<noteq> 0" by simp
qed

lemma set_num_bits: "IS_ASCIINUM (SET_ASCIIWORD (SET_ASCIINUM x))" "IS_TEMP (set_num (SET_TEMP x))"
  by (auto simp: prop_is prop_set set_num_def bit_eq_iff bit_simps intro!: exI [of _ "5 :: nat"])

lemma digits_at_fields:
  assumes "pos + 2 \<le> e"
  shows "a_word (digits_at s pos (e - pos)) = cut s pos e" "a_dgtlen (digits_at s pos (e - pos)) = e - pos"
    "a_dcnt (digits_at s pos (e - pos)) = e - pos" "a_dgtcnt (digits_at s pos (e - pos)) = e - pos"
    "a_dgtbgn (digits_at s pos (e - pos)) = 0" "a_vbpos (digits_at s pos (e - pos)) = -1"
    "a_pos (digits_at s pos (e - pos)) = e" "a_pure (digits_at s pos (e - pos))" "a_linklen (digits_at s pos (e - pos)) = 0"
  using assms by (simp_all add: digits_at_def asc_init_def)

lemma digits_last:
  assumes "pos + 2 \<le> e" "e \<le> length s" "add_dynword p (cut s pos e) set_num = (c, q0)"
  shows "asc_last d (digits_at s pos (e - pos)) p = Some (c, digits_at s pos (e - pos), q0)"
proof -
  have len: "length (cut s pos e) = e - pos" using assms(2) by (simp add: cut_length)
  have "length (cut s pos e) \<noteq> Suc 0" "length (cut s pos e) \<noteq> 0" using len assms(1) by simp_all
  then have "put_asc d p (cut s pos e) set_num = Some (c, q0)" "cut s pos e \<noteq> []"
    using assms(3) by (auto simp: put_asc_def)
  then show ?thesis
    using assms(1) by (simp add: asc_last_def digits_at_fields [OF assms(1)] len word_from_def c_assert_def MIN_LTR_LEN_def)
qed

lemma number_end:
  assumes d: "wf_phrases d" and w: "wf_inner d p" and r: "digit_run s pos e" "pos + 2 \<le> e" "e - pos < 255" "e \<le> length s"
    and l: "lpos < e" and a: "add_dynword p (cut s pos e) set_num = (c, q0)"
  shows "(\<exists>q. asc_end d s (m_ppseg_cnt p) lpos (digits_at s pos (e - pos)) p = Some (-1, q, 0)) \<or>
    (\<exists>q r. asc_end d s (m_ppseg_cnt p) lpos (digits_at s pos (e - pos)) p = Some (1, q, e) \<and> wf_inner d q \<and> appended p q \<and>
       m_ppseg_cnt q = m_ppseg_cnt p + 1 \<and> seg_text d q = seg_text d p @ slice s pos e \<and>
       m_ppseg q (m_ppseg_cnt p) = Some r \<and> IS_ASCIINUM (m_property (deref d q r)))"
proof -
  let ?a = "digits_at s pos (e - pos)" and ?w = "cut s pos e" and ?k = "m_dynlm_cnt p"
  have len: "length ?w = e - pos" using r(4) by (simp add: cut_length)
  have sl: "slice s pos e = map of_char ?w" using cut_ok(1) [OF r(4)] by simp
  note A = add_dynword_ok [OF d w _ digit_run_no_nul [OF r(1,4)] a, unfolded len]
  note f = digits_at_fields [OF r(2), of s]
  note last = digits_last [OF r(2,4) a]
  show ?thesis
  proof (cases "c = 0")
    case True
    let ?q = "upd_dynlm q0 ?k (set_property (\<lambda>x. SET_ASCIIWORD (SET_ASCIINUM x)))"
    have W: "wf_inner d q0" "appended p q0" "m_ppseg_cnt q0 = m_ppseg_cnt p + 1" "seg_text d q0 = seg_text d p @ slice s pos e"
      using A(2) [OF _ True] r(3) sl by simp_all
    note L = add_dynword_last [OF a [unfolded True]]
    have "asc_number d q0 = Some (0, ?q)"
      using W(3) L by (simp add: asc_number_def c_assert_def deref_def set_num_bits)
    then have "asc_end d s (m_ppseg_cnt p) lpos ?a p = Some (1, ?q, e)"
      using last f l True by (simp add: asc_end_def put_marks.simps)
    then show ?thesis
      using set_property_ok [OF W(1,2) order_refl, of "\<lambda>x. SET_ASCIIWORD (SET_ASCIINUM x)"] W(3,4) L(2)
      by (intro disjI2 exI [of _ ?q] exI [of _ "Dyn ?k"]) (simp add: deref_def set_num_bits)
  next
    case False
    then have "c = -1" using A(1) r(3) by simp
    then show ?thesis using last by (simp add: asc_end_def)
  qed
qed

subsection \<open>Properties\<close>

text \<open>
  C24 A number in digits becomes one entry. When the text has two to 254 digits from \<open>pos\<close> to
  \<open>e\<close>, no character of the run behind them, and the dictionary's match ends earlier,
  \<open>proc_ascii\<close> fails for want of room, or returns 1 with the position \<open>e\<close> and exactly one more
  entry: it spells the digits and has the property of an ASCII number.
\<close>

theorem proc_ascii_number:
  assumes "wf_phrases d" "wf_inner d p" "digit_run s pos e" "pos + 2 \<le> e" "e - pos < 255" "e \<le> len" "len \<le> length s"
    and "len = e \<or> is_my_ascii s e = 0" "lpos < e" "\<not> IS_SPEC_ENSTR (m_property (m_lemmalist d sl))"
  shows "(\<exists>q. proc_ascii d p s len pos lpos sl = Some (-1, q, 0)) \<or>
    (\<exists>q r. proc_ascii d p s len pos lpos sl = Some (1, q, e) \<and> wf_inner d q \<and> m_ppseg_cnt q = m_ppseg_cnt p + 1 \<and>
       seg_text d q = seg_text d p @ slice s pos e \<and>
       m_ppseg q (m_ppseg_cnt p) = Some r \<and> IS_ASCIINUM (m_property (deref d q r)))"
proof -
  have b: "0x30 \<le> cbyte s pos" "cbyte s pos \<le> 0x39" using assms(3,4) by (simp_all add: digit_run_def)
  note D = digit_classes [OF b]
  have z: "digits_at s pos 0 = asc_init pos True" by (simp add: digits_at_def asc_init_def cut_def)
  have "asc_loop d s len (asc_init pos True) p = Some (Stop (digits_at s pos (e - pos)) p)"
    using digit_loop [OF assms(3,6,7,5,8), of 0 d p] assms(4) unfolding z by simp
  moreover have "asc_heads d p s pos = Some (0, p, pos)" using D by (subst asc_heads.simps) simp
  ultimately have eq: "proc_ascii d p s len pos lpos sl = asc_end d s (m_ppseg_cnt p) lpos (digits_at s pos (e - pos)) p"
    using D assms(4,6,10) by (simp add: proc_ascii_def Let_def)
  obtain c q0 where a: "add_dynword p (cut s pos e) set_num = (c, q0)" by fastforce
  have es: "e \<le> length s" using assms(6,7) by simp
  from number_end [OF assms(1-5) es assms(9) a] show ?thesis unfolding eq by blast
qed

theorem proc_ascii_number_witness:
  "\<exists>r q np. proc_ascii sample_dict sample_inner ''12'' 2 0 1 0 = Some (r, q, np) \<and> r \<in> {1, -1}"
proof -
  have r: "digit_run ''12'' 0 2" by (auto simp: digit_run_def less_2_cases_iff)
  have n: "\<not> IS_SPEC_ENSTR (m_property (m_lemmalist sample_dict 0))"
    by (simp add: sample_dict_eval zero_lemma_def prop_is INIT_PROPERTY_def)
  show ?thesis using proc_ascii_number [OF sample_wf_phrases sample_inner_wf r, of 2 1 0] n by auto
qed

end
