(* ===== verification/AsciiKeep.thy ===== *)
theory AsciiKeep
  imports Ascii
begin

text \<open>
  What \<open>proc_ascii\<close> leaves alone: the scan and the cutting of its last word only add entries and
  records behind those they find. So when \<open>proc_ascii\<close> gives up and takes its entries back, the
  marks at the head, which were appended before, stay.
\<close>

subsection \<open>Pieces that are appended\<close>

text \<open>The state \<open>q\<close> is well-formed and has grown from \<open>p\<close>.\<close>

definition grew :: "scw_worddict \<Rightarrow> scw_inner \<Rightarrow> scw_inner \<Rightarrow> bool" where
  "grew d p q \<longleftrightarrow> wf_inner d q \<and> appended p q"

lemma grew_refl [simp]: "wf_inner d p \<Longrightarrow> grew d p p"
  by (simp add: grew_def)

lemma grew_trans: "grew d p q \<Longrightarrow> grew d q r \<Longrightarrow> grew d p r"
  by (auto simp: grew_def intro: appended_trans)

lemma grew_wf: "grew d p q \<Longrightarrow> wf_inner d q"
  by (simp add: grew_def)

lemma grew_cnt: "grew d p q \<Longrightarrow> m_ppseg_cnt p \<le> m_ppseg_cnt q"
  by (simp add: grew_def appended_def)

lemma grew_rewind:
  assumes "wf_phrases d" "wf_inner d p" "grew d p q" "m_ppseg_cnt q - n = m_ppseg_cnt p"
  shows "grew d p (q\<lparr>m_ppseg_cnt := m_ppseg_cnt q - n\<rparr>)"
  using rewind_ok(1,2) [OF assms(1,2)] assms(3,4) by (simp add: grew_def)

text \<open>A word that fits the buffers of the code and has no NUL.\<close>

definition short_word :: "string \<Rightarrow> bool" where
  "short_word w \<longleftrightarrow> length w < 256 \<and> (\<forall>c \<in> set w. (of_char c :: nat) \<noteq> 0)"

lemma short_word_part: "short_word w \<Longrightarrow> short_word (take n w)" "short_word w \<Longrightarrow> short_word (drop n w)"
  by (auto simp: short_word_def dest: in_set_takeD in_set_dropD)

lemma short_word_from: "word_from w b = Some v \<Longrightarrow> short_word w \<Longrightarrow> short_word v"
  by (auto simp: word_from_def c_assert_def intro: short_word_part split: if_splits)

lemma no_nul_set: "no_nul s (length s) \<longleftrightarrow> (\<forall>c \<in> set s. (of_char c :: nat) \<noteq> 0)"
  by (auto simp: no_nul_def all_set_conv_all_nth)

lemma short_cut:
  assumes "no_nul s (length s)" "b - a < 256"
  shows "short_word (cut s a b)"
proof -
  have "set (cut s a b) \<subseteq> set s" by (auto simp: cut_def dest: in_set_takeD in_set_dropD)
  moreover have "(of_char c :: nat) \<noteq> 0" if "c \<in> set s" for c
    using that assms(1) by (simp add: no_nul_set)
  moreover have "length (cut s a b) \<le> b - a" by (simp add: cut_def)
  ultimately show ?thesis using assms(2) unfolding short_word_def by (meson order_le_less_trans subsetD)
qed

text \<open>One piece: one more entry, whose text is the piece.\<close>

definition piece_added :: "scw_worddict \<Rightarrow> scw_inner \<Rightarrow> string \<Rightarrow> scw_inner \<Rightarrow> bool" where
  "piece_added d p w q \<longleftrightarrow> grew d p q \<and> m_ppseg_cnt q = m_ppseg_cnt p + 1 \<and>
     seg_text d q = seg_text d p @ map of_char w \<and>
     (\<exists>r. m_ppseg q (m_ppseg_cnt p) = Some r \<and> lm_text d q r = map of_char w)"

lemma piece_text:
  assumes d: "wf_phrases d" and w: "wf_inner d p" "wf_inner d q" "appended p q" "m_ppseg_cnt q = m_ppseg_cnt p + 1"
    and r: "m_ppseg q (m_ppseg_cnt p) = Some r" and t: "seg_text d q = seg_text d p @ u"
  shows "lm_text d q r = u"
proof -
  have "seg_refs q 0 (m_ppseg_cnt q) = seg_refs q 0 (m_ppseg_cnt p) @ seg_refs q (m_ppseg_cnt p) 1"
    using seg_refs_split [of q 0 "m_ppseg_cnt p" 1] w(4) by simp
  moreover have "seg_refs q 0 (m_ppseg_cnt p) = seg_refs p 0 (m_ppseg_cnt p)"
    using w(3) by (auto simp: appended_def intro: seg_refs_cong)
  moreover have "seg_refs q (m_ppseg_cnt p) 1 = [r]" using r by (simp add: seg_refs_def List.map_filter_simps)
  moreover have "inner_ext p q" using w(3) by (simp add: appended_def)
  then have "map (lm_text d q) (seg_refs p 0 (m_ppseg_cnt p)) = map (lm_text d p) (seg_refs p 0 (m_ppseg_cnt p))"
    using w(1) by (intro map_lm_text_ext [OF d w(1,2)] seg_refs_valid) simp_all
  ultimately have "seg_text d q = seg_text d p @ lm_text d q r" unfolding seg_text_def by (simp del: map_eq_conv)
  then show ?thesis using t by simp
qed

lemma put_asc_ok:
  assumes D: "seg_dict M d" and w: "wf_inner d p" "short_word u" and e: "put_asc d p u f = Some (e, q)" "\<not> e < 0"
  shows "piece_added d p u q"
proof -
  have d: "wf_phrases d" and W: "wf_dict M d" and X: "dict_texts d" using D by (simp_all add: seg_dict_def)
  obtain l where l: "(if length u = 1 then scw_seek_lemma d u 1 else Some LEMMA_NULL) = Some l"
    "(if l \<noteq> LEMMA_NULL then append_lemma_pos p l SCW_STATIC else add_dynword p u f) = (e, q)"
    using e(1) unfolding put_asc_def bind_eq_Some_conv by blast
  show ?thesis
  proof (cases "l = LEMMA_NULL")
    case True
    then have a: "add_dynword p u f = (e, q)" using l(2) by simp
    note A = add_dynword_ok [OF d w(1) _ _ a]
    have e0: "e = 0" using A(1) e(2) w(2) by (auto simp: short_word_def)
    note A = A(2) [OF _ _ e0] and L = add_dynword_last [OF a [unfolded e0]]
    have "wf_inner d q \<and> appended p q \<and> seg_text d q = seg_text d p @ map of_char u"
      using A w(2) by (simp add: short_word_def)
    then show ?thesis using L piece_text [OF d w(1) _ _ L(1,2)] by (simp add: piece_added_def grew_def)
  next
    case False
    then have u: "length u = 1" using l(1) by (auto split: if_splits)
    then have "u \<noteq> []" by auto
    then have lk: "l = dict_lookup d (term_words u)" using l(1) u seek_lemma_words [OF W, of u] by simp
    have "term_words u \<noteq> []" using gb_words_nonempty [OF \<open>u \<noteq> []\<close>] .
    then have sp: "spells d l (term_words u)" using X False unfolding lk dict_texts_def by blast
    then have r: "seg_ref d p (Static l)" and t: "lm_text d p (Static l) = map of_char u"
      by (simp_all add: spells_def enc_term_words)
    have q: "q = put_ppseg p 0 (Static l)" and c: "m_ppseg_cnt p < m_maxterm p"
      using l(2) False e(2) by (auto simp: append_lemma_pos_def SCW_STATIC_def split: if_splits)
    note P = put_ppseg_ok [OF d w(1) r c, of 0, folded q]
    have "appended p q" using P(2) by (simp add: appended_def q) (simp add: put_ppseg_def)
    then show ?thesis using P t by (simp add: piece_added_def grew_def) (simp add: q put_ppseg_def)
  qed
qed

lemma append_match_ok:
  assumes D: "seg_dict M d" and w: "wf_inner d p" and m: "match d s len pos l np" "pos \<le> len" "len \<le> length s"
    and e: "append_lemma d p (Static l) = Some (e, q)" "\<not> e < 0"
  shows "grew d p q" "m_ppseg_cnt q = m_ppseg_cnt p + 1" "np \<le> len"
proof -
  have d: "wf_phrases d" using D by (simp add: seg_dict_def)
  note m' = match_ok [OF D m]
  show "np \<le> len" by (rule m'(2))
  have r: "seg_ref d p (Static l)" using m'(3,4) by simp
  have q: "q = put_ppseg p 0 (Static l)" and c: "m_ppseg_cnt p < m_maxterm p"
    using e m'(4) by (auto simp: append_lemma_def deref_def lemma_types Let_def split: if_splits)
  note P = put_ppseg_ok [OF d w r c, of 0, folded q]
  show "m_ppseg_cnt q = m_ppseg_cnt p + 1" by (simp add: q put_ppseg_def)
  have "appended p q" using P(2) by (simp add: appended_def q) (simp add: put_ppseg_def)
  then show "grew d p q" using P by (simp add: grew_def)
qed

lemma asc_spec_ok:
  "asc_spec d p w pos lpos c = Some (e, q, l, c') \<Longrightarrow> seg_dict M d \<Longrightarrow> wf_inner d p \<Longrightarrow> pos \<le> length w \<Longrightarrow> \<not> e < 0 \<Longrightarrow>
    grew d p q \<and> c \<le> c' \<and> m_ppseg_cnt q = m_ppseg_cnt p + (c' - c)"
proof (induction d p w pos lpos c rule: asc_spec.induct)
  case (1 d p w pos lpos c)
  obtain lm np where F: "scw_get_fmm_word d w (length w) pos = Some (lm, np)" "lm \<noteq> LEMMA_NULL \<longrightarrow> match d w (length w) pos lm np"
    using fmm_word_match [OF "1.prems"(2,4)] by blast
  show ?case
  proof (cases "lm = LEMMA_NULL \<or> \<not> IS_SPEC_ENSTR (m_property (m_lemmalist d lm))")
    case True
    then show ?thesis using "1.prems" F(1) by (subst (asm) asc_spec.simps) simp
  next
    case False
    then obtain e1 q1 where a: "append_lemma d p (Static lm) = Some (e1, q1)"
      using "1.prems"(1) F(1) by (subst (asm) asc_spec.simps) (auto split: option.splits)
    have n: "\<not> e1 < 0" using "1.prems"(1,5) F(1) False a by (subst (asm) asc_spec.simps) (auto split: if_splits)
    have m: "match d w (length w) pos lm np" using F(2) False by simp
    note A = append_match_ok [OF "1.prems"(2,3) m "1.prems"(4) order_refl a n]
    have "asc_spec d q1 w np np (c + 1) = Some (e, q, l, c')"
      using "1.prems"(1) F(1) False a n by (subst (asm) asc_spec.simps) simp
    then have "grew d q1 q \<and> c + 1 \<le> c' \<and> m_ppseg_cnt q = m_ppseg_cnt q1 + (c' - (c + 1))"
      using "1.IH" [OF F(1) refl False a refl n _ "1.prems"(2) _ A(3) "1.prems"(5)] A(1) by (simp add: grew_def)
    then show ?thesis using A(1,2) by (auto intro: grew_trans)
  qed
qed

lemma append_asciistr_ok:
  assumes D: "seg_dict M d" and w: "wf_inner d p" "short_word u" and e: "append_asciistr d p u c flag = Some (e, q)" "\<not> e < 0"
  shows "grew d p q \<and> (flag \<longrightarrow> m_ppseg_cnt q = m_ppseg_cnt p + 1)"
proof -
  have d: "wf_phrases d" using D by (simp add: seg_dict_def)
  have put: "grew d p q \<and> m_ppseg_cnt q = m_ppseg_cnt p + 1"
    if H: "do { (e, q) \<leftarrow> put_asc d p1 u SET_ASCIIWORD; Some (if e < 0 then (-1, q) else (int lp, q)) } = Some (e, q)"
      "grew d p p1" "m_ppseg_cnt p1 = m_ppseg_cnt p" for p1 lp
  proof -
    obtain e1 where "put_asc d p1 u SET_ASCIIWORD = Some (e1, q)" "\<not> e1 < 0"
      using H(1) e(2) by (auto split: Option.bind_splits if_splits)
    from put_asc_ok [OF D grew_wf [OF H(2)] w(2) this] H(2,3) show ?thesis
      by (auto simp: piece_added_def intro: grew_trans)
  qed
  show ?thesis
  proof (cases "c > MIN_SPECSTR_LEN")
    case False
    then show ?thesis using put [of p "length u"] e(1) w(1) by (simp add: append_asciistr_def)
  next
    case True
    then have "asc_spec d p u 0 0 0 \<noteq> None" using e(1)
      by (cases "asc_spec d p u 0 0 0") (simp_all add: append_asciistr_def Let_def)
    then obtain e1 p1 lp n where S: "asc_spec d p u 0 0 0 = Some (e1, p1, lp, n)" by (metis not_None_eq prod_cases4)
    have e1: "\<not> e1 < 0" using e True S by (auto simp: append_asciistr_def Let_def)
    have G: "grew d p p1" "m_ppseg_cnt p1 = m_ppseg_cnt p + n" using asc_spec_ok [OF S D w(1) _ e1] by simp_all
    note E = e(1) [unfolded append_asciistr_def Let_def, simplified True S if_True]
    show ?thesis
    proof (cases "n > 0 \<and> lp = length u")
      case cover: True
      show ?thesis
      proof (cases "n = 1")
        case True
        then show ?thesis using E cover e1 G by simp
      next
        case False
        then obtain k p2 where P: "poly_lemmas d p1 (m_ppseg_cnt p) n = Some (k, p2)"
          using E cover e1 by (auto split: Option.bind_splits)
        have k: "0 \<le> k" using E cover e1 False P e(2) by (auto split: if_splits)
        then have q: "q = (upd_dynlm p2 (nat k) (set_property SET_ASCIIWORD))\<lparr>m_ppseg_cnt := m_ppseg_cnt p2 - (n - 1)\<rparr>"
          using E cover e1 False P by simp
        have n: "n = m_ppseg_cnt p1 - m_ppseg_cnt p" "1 < n" using G(2) cover False by simp_all
        have "wf_inner d p1" "appended p p1" using G(1) by (simp_all add: grew_def)
        from poly_tail_ok [OF d w(1) this n P k q] show ?thesis by (simp add: grew_def)
      qed
    next
      case no: False
      show ?thesis
      proof (cases flag)
        case False
        then show ?thesis using E no e1 G by simp
      next
        case True
        have R: "grew d p (p1\<lparr>m_ppseg_cnt := m_ppseg_cnt p1 - n\<rparr>)"
          using G by (intro grew_rewind [OF d w(1)]) simp_all
        show ?thesis
        proof (cases "n > 0")
          case n: True
          then show ?thesis using put [of "p1\<lparr>m_ppseg_cnt := m_ppseg_cnt p1 - n\<rparr>" lp] E no e1 R True G(2) by simp
        next
          case False
          then show ?thesis using put [of p1 lp] E no e1 True G by simp
        qed
      qed
    qed
  qed
qed

text \<open>
  Also a failed call leaves a state that has grown; the code looks at the result of one of these
  calls only after it has taken the entries back.
\<close>

lemma put_asc_grew:
  assumes D: "seg_dict M d" and w: "wf_inner d p" "short_word u" and e: "put_asc d p u f = Some (e, q)"
  shows "grew d p q"
proof (cases "e < 0")
  case True
  have d: "wf_phrases d" using D by (simp add: seg_dict_def)
  obtain l where "(if l \<noteq> LEMMA_NULL then append_lemma_pos p l SCW_STATIC else add_dynword p u f) = (e, q)"
    using e unfolding put_asc_def bind_eq_Some_conv by blast
  then consider "q = p" | "add_dynword p u f = (e, q)"
    using True by (auto simp: append_lemma_pos_def SCW_STATIC_def split: if_splits)
  then show ?thesis
  proof cases
    case 2
    obtain k p1 where c: "create_dynword p u = (k, p1)" by fastforce
    then consider "q = p" | "k \<noteq> -1" "q = p1"
      using 2 True by (auto simp: add_dynword_def append_lemma_pos_def create_dynword_def SCW_STATIC_def SCW_DYNAMIC_def
          Let_def split: if_splits)
    then show ?thesis
    proof cases
      case 2
      have "c_strlen u < 256" using c_strlen_all [of u] w(2) by (simp add: short_word_def)
      then show ?thesis using create_dynword_ok [OF d w(1) _ c 2(1)] 2(2) by (simp add: grew_def appended_def)
    qed (use w(1) in simp)
  qed (use w(1) in simp)
next
  case False
  then show ?thesis using put_asc_ok [OF D w e] by (simp add: piece_added_def)
qed

lemma asc_spec_grew:
  "asc_spec d p w pos lpos c = Some (e, q, l, c') \<Longrightarrow> seg_dict M d \<Longrightarrow> wf_inner d p \<Longrightarrow> pos \<le> length w \<Longrightarrow> grew d p q"
proof (induction d p w pos lpos c rule: asc_spec.induct)
  case (1 d p w pos lpos c)
  obtain lm np where F: "scw_get_fmm_word d w (length w) pos = Some (lm, np)" "lm \<noteq> LEMMA_NULL \<longrightarrow> match d w (length w) pos lm np"
    using fmm_word_match [OF "1.prems"(2,4)] by blast
  show ?case
  proof (cases "lm = LEMMA_NULL \<or> \<not> IS_SPEC_ENSTR (m_property (m_lemmalist d lm))")
    case True
    then show ?thesis using "1.prems" F(1) by (subst (asm) asc_spec.simps) simp
  next
    case False
    then obtain e1 q1 where a: "append_lemma d p (Static lm) = Some (e1, q1)"
      using "1.prems"(1) F(1) by (subst (asm) asc_spec.simps) (auto split: option.splits)
    have m: "match d w (length w) pos lm np" using F(2) False by simp
    show ?thesis
    proof (cases "e1 < 0")
      case True
      then have "q = q1" using "1.prems"(1) F(1) False a by (subst (asm) asc_spec.simps) simp
      moreover have "q1 = p" using a True match_ok(4) [OF "1.prems"(2) m "1.prems"(4) order_refl]
        by (auto simp: append_lemma_def deref_def lemma_types Let_def split: if_splits)
      ultimately show ?thesis using "1.prems"(3) by simp
    next
      case n: False
      note A = append_match_ok [OF "1.prems"(2,3) m "1.prems"(4) order_refl a n]
      have "asc_spec d q1 w np np (c + 1) = Some (e, q, l, c')"
        using "1.prems"(1) F(1) False a n by (subst (asm) asc_spec.simps) simp
      then have "grew d q1 q" by (rule "1.IH" [OF F(1) refl False a refl n _ "1.prems"(2) grew_wf [OF A(1)] A(3)])
      then show ?thesis by (rule grew_trans [OF A(1)])
    qed
  qed
qed

lemma append_asciistr_grew:
  assumes D: "seg_dict M d" and w: "wf_inner d p" "short_word u" and e: "append_asciistr d p u c False = Some (e, q)"
  shows "grew d p q"
proof (cases "e < 0")
  case True
  have d: "wf_phrases d" using D by (simp add: seg_dict_def)
  show ?thesis
  proof (cases "c > MIN_SPECSTR_LEN")
    case False
    then obtain e1 where "put_asc d p u SET_ASCIIWORD = Some (e1, q)"
      using e by (auto simp: append_asciistr_def split: Option.bind_splits if_splits)
    then show ?thesis by (rule put_asc_grew [OF D w])
  next
    case c: True
    then have "asc_spec d p u 0 0 0 \<noteq> None" using e by (cases "asc_spec d p u 0 0 0") (simp_all add: append_asciistr_def Let_def)
    then obtain e1 p1 lp n where S: "asc_spec d p u 0 0 0 = Some (e1, p1, lp, n)" by (metis not_None_eq prod_cases4)
    have g: "grew d p p1" by (rule asc_spec_grew [OF S D w(1)]) simp
    note E = e [unfolded append_asciistr_def Let_def, simplified c S if_True]
    show ?thesis
    proof (cases "\<not> e1 < 0 \<and> n > 0 \<and> lp = length u \<and> n \<noteq> 1")
      case False
      then have "q = p1" using E by (auto split: if_splits)
      then show ?thesis using g by simp
    next
      case P: True
      then have "m_ppseg_cnt p1 = m_ppseg_cnt p + n" using asc_spec_ok [OF S D w(1)] by simp
      then have sg: "m_ppseg_cnt p + n \<le> m_ppseg_cnt p1" by simp
      obtain k p2 where pl: "poly_lemmas d p1 (m_ppseg_cnt p) n = Some (k, p2)"
        using E P by (auto split: Option.bind_splits)
      then have "k < 0" "q = p2" using E P True by (auto split: if_splits)
      then have "q = p1" using poly_lemmas_exact [OF d grew_wf [OF g] sg] pl by (auto split: if_splits)
      then show ?thesis using g by simp
    qed
  qed
qed (use append_asciistr_ok [OF D w e] in simp)

subsection \<open>The scan\<close>

lemma put_marks_ok:
  "put_marks d p s pos i n f = Some (e, q, np) \<Longrightarrow> seg_dict M d \<Longrightarrow> wf_inner d p \<Longrightarrow> no_nul s (length s) \<Longrightarrow> \<not> e < 0 \<Longrightarrow>
    grew d p q"
proof (induction d p s pos i n f rule: put_marks.induct)
  case (1 d p s pos i n f)
  define k :: nat where "k = (if cbyte s (pos + i) < 0x80 then 1 else 2)"
  show ?case
  proof (cases "i < n")
    case True
    then obtain e1 q1 where a: "put_asc d p (cut s (pos + i) (pos + i + k)) f = Some (e1, q1)"
      using "1.prems"(1) by (subst (asm) put_marks.simps) (auto simp: k_def Let_def split: option.splits if_splits)
    have n: "\<not> e1 < 0" using "1.prems"(1,5) True a by (subst (asm) put_marks.simps) (auto simp: k_def Let_def split: if_splits)
    have "short_word (cut s (pos + i) (pos + i + k))" using "1.prems"(4) by (intro short_cut) (simp_all add: k_def)
    then have g: "grew d p q1" using put_asc_ok [OF "1.prems"(2,3) _ a n] by (simp add: piece_added_def)
    have "put_marks d q1 s pos (i + k) n f = Some (e, q, np)"
      using "1.prems"(1) True a n by (subst (asm) put_marks.simps) (simp add: k_def Let_def split: if_splits)
    then have "grew d q1 q"
      by (rule "1.IH" [OF True k_def a refl n _ "1.prems"(2) grew_wf [OF g] "1.prems"(4,5)])
    then show ?thesis using g by (rule grew_trans [rotated])
  qed (use "1.prems" in \<open>subst (asm) put_marks.simps, auto\<close>)
qed

text \<open>
  The invariant: the words collected fit and the entry from which letters may be joined again
  is not before the first entry of the scan.
\<close>

definition scan_ok :: "scw_worddict \<Rightarrow> scw_inner \<Rightarrow> asc \<Rightarrow> scw_inner \<Rightarrow> bool" where
  "scan_ok d q0 a p \<longleftrightarrow> grew d q0 p \<and> short_word (a_word a) \<and> short_word (a_tmpstr a) \<and>
     (0 \<le> a_tmpbpos a \<longrightarrow> m_ppseg_cnt q0 \<le> nat (a_tmpbpos a))"

lemma short_word_Nil [simp]: "short_word []"
  by (simp add: short_word_def)

lemma scan_ok_grew: "scan_ok d q0 a p \<Longrightarrow> grew d p q \<Longrightarrow> scan_ok d q0 a q"
  by (auto simp: scan_ok_def intro: grew_trans)

lemma scan_ok_wf: "scan_ok d q0 a p \<Longrightarrow> wf_inner d p"
  by (simp add: scan_ok_def grew_def)

lemma asc_point_ok:
  assumes D: "seg_dict M d" and i: "scan_ok d q0 a p" and e: "asc_point d a p = Some (e, a', q)" "\<not> e < 0"
  shows "scan_ok d q0 a' q"
proof -
  let ?w = "a_word a" and ?n = "length (a_word a) - a_dgtlen a"
  define a1 where "a1 = (if ?n > 0 \<and> a_dgtlen a > 0
    then a\<lparr>a_tmpstr := ?w, a_tmpcnt := a_dcnt a, a_tmpbpos := int (m_ppseg_cnt p)\<rparr> else a)"
  have w: "short_word ?w" "wf_inner d p" using i by (simp_all add: scan_ok_def grew_def)
  have i1: "scan_ok d q0 a1 p" using i grew_cnt by (auto simp: scan_ok_def a1_def)
  note E = e(1) [unfolded asc_point_def Let_def, folded a1_def]
  obtain e1 p1 where A: "(if ?n > 0 then append_asciistr d p (take ?n ?w) (a_dcnt a - a_dgtcnt a) True else Some (0, p)) = Some (e1, p1)"
    using E unfolding bind_eq_Some_conv by (metis prod.exhaust)
  have n1: "\<not> e1 < 0" using E A e(2) by (auto split: if_splits)
  have g1: "grew d p p1"
    using A append_asciistr_ok [OF D w(2) short_word_part(1) [OF w(1)] _ n1] w(2) by (auto split: if_splits)
  show ?thesis
  proof (cases "a_dgtlen a > 0")
    case False
    then have "a' = a1\<lparr>a_point := True\<rparr>" "q = p1" using E A n1 by simp_all
    then show ?thesis using scan_ok_grew [OF i1 g1] by (simp add: scan_ok_def)
  next
    case True
    have "word_from ?w (a_dgtbgn a) \<noteq> None" using E A n1 True by (cases "word_from ?w (a_dgtbgn a)") simp_all
    then obtain wd where wd: "word_from ?w (a_dgtbgn a) = Some wd" by blast
    then obtain e2 p2 where P: "put_asc d p1 wd set_num = Some (e2, p2)"
      using E A n1 True by (cases "put_asc d p1 wd set_num") auto
    have n2: "\<not> e2 < 0" using E A n1 True wd P e(2) by (auto split: if_splits)
    have "grew d p1 p2"
      using put_asc_ok [OF D grew_wf [OF g1] short_word_from [OF wd w(1)] P n2] by (simp add: piece_added_def)
    then have "scan_ok d q0 a1 p2" using scan_ok_grew [OF i1] g1 grew_trans by blast
    moreover have "q = p2" "a_word a' = a_word a1" "a_tmpstr a' = a_tmpstr a1" "a_tmpbpos a' = a_tmpbpos a1"
      using E A n1 True wd P n2 by (auto split: if_splits)
    ultimately show ?thesis by (simp add: scan_ok_def)
  qed
qed

lemma asc_link_ok:
  assumes D: "seg_dict M d" and i: "scan_ok d q0 a p" and e: "asc_link d a p = Some (e, a', q)" "\<not> e < 0"
  shows "scan_ok d q0 a' q"
proof -
  have w: "short_word (a_word a)" "wf_inner d p" using i by (simp_all add: scan_ok_def grew_def)
  obtain e1 where A: "(if a_word a \<noteq> [] then append_asciistr d p (a_word a) (a_dcnt a) True else Some (0, p)) = Some (e1, q)"
    and a': "a' = a\<lparr>a_vbpos := -1, a_vcnt := 0\<rparr>" "\<not> e1 < 0"
    using e unfolding asc_link_def bind_eq_Some_conv by (auto split: if_splits)
  have "grew d p q" using A append_asciistr_ok [OF D w(2,1) _ a'(2)] w(2) by (auto split: if_splits)
  then show ?thesis using scan_ok_grew [OF i] by (simp add: a' scan_ok_def)
qed

lemma asc_mark_ok:
  assumes D: "seg_dict M d" and s: "no_nul s (length s)" and i: "scan_ok d q0 a p" and o: "asc_mark d s slen a p = Some out"
  shows "(\<exists>q. out = Fail q) \<or> (\<exists>a' q. (out = Cont a' q \<or> out = Stop a' q) \<and> scan_ok d q0 a' q)"
proof -
  define link where "link = link_run s slen (a_pos a) (a_linklen a)"
  define off where "off = is_my_ascii s (a_pos a)"
  let ?a = "a\<lparr>a_mid := True\<rparr>"
  note O = o [unfolded asc_mark_def Let_def, folded link_def off_def]
  show ?thesis
  proof (cases "link > 0 \<and> (a_pos a + link \<ge> slen \<or> is_my_ascii s (a_pos a + link) = 0)")
    case True
    then show ?thesis using O i by (auto simp: scan_ok_def)
  next
    case False
    define r where "r = (if is_radix_point s (a_pos a) \<noteq> 0 \<and> a_pos a + off < slen \<and> is_my_num s (a_pos a + off) \<noteq> 0
      then asc_point d ?a p else asc_link d ?a p)"
    note O = O [unfolded if_not_P [OF False], folded r_def]
    then obtain e a1 p1 where r: "r = Some (e, a1, p1)" by (cases r) auto
    have ia: "scan_ok d q0 ?a p" using i by (simp add: scan_ok_def)
    show ?thesis
    proof (cases "e < 0")
      case False
      have i1: "scan_ok d q0 a1 p1"
        using r asc_point_ok [OF D ia _ False] asc_link_ok [OF D ia _ False] by (auto simp: r_def split: if_splits)
      obtain e2 p2 pos2 where m: "put_marks d p1 s (a_pos a) 0 (if link = 0 then off else link) SET_ASCIIWORD = Some (e2, p2, pos2)"
        using O False by (cases "put_marks d p1 s (a_pos a) 0 (if link = 0 then off else link) SET_ASCIIWORD") (auto simp: r)
      show ?thesis
      proof (cases "e2 < 0")
        case n2: False
        have "grew d p1 p2" by (rule put_marks_ok [OF m D scan_ok_wf [OF i1] s n2])
        then have "scan_ok d q0 a1 p2" by (rule scan_ok_grew [OF i1])
        then show ?thesis using O False n2 m by (auto simp: r scan_ok_def)
      qed (use O r m False in auto)
    qed (use O r in auto)
  qed
qed

text \<open>Joining the letters again writes only entries of the scan.\<close>

lemma asc_rejoin_ok:
  assumes D: "seg_dict M d" and i: "scan_ok d q0 a p" and b: "0 \<le> a_tmpbpos a" and e: "asc_rejoin d a p = Some (e, a', q)" "\<not> e < 0"
  shows "scan_ok d q0 a' q" "a_word a' = a_word a"
proof -
  have d: "wf_phrases d" using D by (simp add: seg_dict_def)
  have w: "short_word (a_tmpstr a)" "wf_inner d p" using i by (simp_all add: scan_ok_def grew_def)
  let ?b = "nat (a_tmpbpos a)" and ?c = "m_ppseg_cnt p"
  obtain e1 p1 where A: "append_asciistr d p (a_tmpstr a) (a_tmpcnt a) True = Some (e1, p1)"
    using e(1) unfolding asc_rejoin_def bind_eq_Some_conv by (metis prod.exhaust)
  have n1: "\<not> e1 < 0" using e A by (auto simp: asc_rejoin_def)
  have g: "grew d p p1" "m_ppseg_cnt p1 = ?c + 1" using append_asciistr_ok [OF D w(2,1) A n1] by simp_all
  have a': "a' = a\<lparr>a_tmpbpos := -1, a_tmpstr := [], a_tmpcnt := 0\<rparr>" and lt: "?b + 1 < ?c"
    and q: "q = p1\<lparr>m_ppseg_cnt := ?c, m_ppseg := (m_ppseg p1)(?b := m_ppseg p1 ?c, ?b + 1 := None)\<rparr>"
    using e A n1 g(2) by (auto simp: asc_rejoin_def c_assert_def Let_def split: if_splits)
  have w1: "wf_inner d p1" by (rule grew_wf [OF g(1)])
  have ext: "inner_ext p1 q" by (simp add: q inner_ext_def)
  have "wf_inner d q"
  proof (rule wf_inner_add [OF d w1 ext])
    fix j r assume "j < m_ppseg_cnt q" "m_ppseg q j = Some r"
    then have "m_ppseg p1 j = Some r \<and> j < m_ppseg_cnt p1 \<or> m_ppseg p1 ?c = Some r \<and> ?c < m_ppseg_cnt p1"
      using g(2) by (auto simp: q split: if_splits)
    then show "seg_ref d q r" using seg_ref_ext [OF ext] wf_inner_seg [OF w1] by blast
  qed (use w1 g(2) in \<open>simp_all add: wf_inner_def q\<close>)
  moreover have "grew d q0 p1" "m_ppseg_cnt q0 \<le> ?c" "m_ppseg_cnt q0 \<le> ?b"
    using i g(1) b grew_trans grew_cnt by (auto simp: scan_ok_def)
  then have "appended q0 q" using ext by (auto simp: grew_def appended_def q intro: inner_ext_trans)
  ultimately show "scan_ok d q0 a' q" using i by (simp add: scan_ok_def grew_def a')
  show "a_word a' = a_word a" by (simp add: a')
qed

lemma asc_letter_ok:
  assumes D: "seg_dict M d" and i: "scan_ok d q0 a p" and e: "asc_letter d a p = Some (e, a', q)" "\<not> e < 0"
  shows "scan_ok d q0 a' q" "length (a_word a') \<le> length (a_word a)"
proof -
  define r where "r = (if a_first a \<and> \<not> a_point a \<and> a_dgtcnt a > 2 then do {
       (e, q) \<leftarrow> put_asc d p (take (a_dgtlen a) (a_word a)) set_num;
       Some (e, a\<lparr>a_word := [], a_dcnt := 0, a_split := True\<rparr>, q) }
     else if a_tmpstr a \<noteq> [] \<and> a_tmpbpos a \<ge> 0 then asc_rejoin d a p
     else Some (0, a, p))"
  note E = e(1) [unfolded asc_letter_def, folded r_def]
  obtain a1 where r: "r = Some (e, a1, q)" and a': "a_word a' = a_word a1" "a_tmpstr a' = a_tmpstr a1" "a_tmpbpos a' = a_tmpbpos a1"
    using E by (cases r) auto
  have "scan_ok d q0 a1 q \<and> length (a_word a1) \<le> length (a_word a)"
  proof (cases "a_first a \<and> \<not> a_point a \<and> a_dgtcnt a > 2")
    case True
    then have P: "put_asc d p (take (a_dgtlen a) (a_word a)) set_num = Some (e, q)"
      and a1: "a1 = a\<lparr>a_word := [], a_dcnt := 0, a_split := True\<rparr>"
      using r by (cases "put_asc d p (take (a_dgtlen a) (a_word a)) set_num"; auto simp: r_def)+
    have w: "short_word (a_word a)" using i by (simp add: scan_ok_def)
    have "grew d p q" using put_asc_ok [OF D scan_ok_wf [OF i] short_word_part(1) [OF w] P e(2)] by (simp add: piece_added_def)
    then show ?thesis using scan_ok_grew [OF i] by (simp add: a1 scan_ok_def)
  next
    case False
    then show ?thesis using r i e(2) asc_rejoin_ok [OF D i, of e a1 q] by (auto simp: r_def split: if_splits)
  qed
  then show "scan_ok d q0 a' q" "length (a_word a') \<le> length (a_word a)" using a' by (simp_all add: scan_ok_def)
qed

lemma asc_push_ok:
  assumes s: "no_nul s (length s)" and i: "scan_ok d q0 a p" and l: "length (a_word a) < 254"
  shows "scan_ok d q0 (asc_push s a) p"
proof -
  define k :: nat where "k = (if is_my_ascii s (a_pos a) = 2 then 2 else 1)"
  have c: "short_word (cut s (a_pos a) (a_pos a + k))" by (rule short_cut [OF s]) (simp add: k_def)
  have "length (cut s (a_pos a) (a_pos a + k)) \<le> 2" by (simp add: cut_def k_def min_def)
  then have "short_word (a_word a @ cut s (a_pos a) (a_pos a + k))"
    using c i l by (auto simp: scan_ok_def short_word_def)
  then show ?thesis using i by (auto simp: asc_push_def scan_ok_def k_def split: if_splits)
qed

lemma asc_step_ok:
  assumes D: "seg_dict M d" and s: "no_nul s (length s)" and i: "scan_ok d q0 a p" and o: "asc_step d s slen a p = Some out"
  shows "(\<exists>q. out = Fail q) \<or> (\<exists>a' q. (out = Cont a' q \<or> out = Stop a' q) \<and> scan_ok d q0 a' q)"
proof (cases "length (a_word a) \<ge> MAX_WORD_LEN - 2")
  case True
  have d: "wf_phrases d" using D by (simp add: seg_dict_def)
  obtain e q where a: "add_dynword p (a_word a) SET_ASCIIWORD = (e, q)" by fastforce
  have out: "out = asc_overflow a p" using o True by (simp add: asc_step_def)
  show ?thesis
  proof (cases "e < 0")
    case False
    have "length (a_word a) < 256" "\<forall>c \<in> set (a_word a). (of_char c :: nat) \<noteq> 0" using i by (auto simp: scan_ok_def short_word_def)
    note A = add_dynword_ok [OF d scan_ok_wf [OF i] this a]
    have "grew d p q" using A False by (auto simp: grew_def)
    then show ?thesis using scan_ok_grew [OF i] False a out by (auto simp: asc_overflow_def scan_ok_def)
  qed (use a out in \<open>simp add: asc_overflow_def\<close>)
next
  case False
  then have l: "length (a_word a) < 254" by (simp add: max_sizes)
  show ?thesis
  proof (cases "is_my_num s (a_pos a) \<noteq> 0")
    case True
    have id: "scan_ok d q0 (asc_digit s a) p" using i by (simp add: asc_digit_def scan_ok_def)
    have "length (a_word (asc_digit s a)) < 254" using l by (simp add: asc_digit_def)
    from asc_push_ok [OF s id this] show ?thesis using o False True by (auto simp: asc_step_def)
  next
    case nd: False
    show ?thesis
    proof (cases "is_mid_mark s (a_pos a) \<noteq> 0")
      case True
      then show ?thesis using asc_mark_ok [OF D s i, of slen out] o False nd by (simp add: asc_step_def)
    next
      case nm: False
      then obtain e a1 q where L: "asc_letter d a p = Some (e, a1, q)" "out = (if e < 0 then Fail q else Cont (asc_push s a1) q)"
        using o False nd by (cases "asc_letter d a p") (auto simp: asc_step_def)
      show ?thesis
      proof (cases "e < 0")
        case False
        note A = asc_letter_ok [OF D i L(1) False]
        have "length (a_word a1) < 254" using A(2) l by simp
        then show ?thesis using asc_push_ok [OF s A(1)] L(2) False by simp
      qed (use L(2) in simp)
    qed
  qed
qed

lemma asc_loop_ok:
  assumes D: "seg_dict M d" and s: "no_nul s (length s)" and o: "asc_loop d s slen a p = Some out" and i: "scan_ok d q0 a p"
  shows "(\<exists>q. out = Fail q) \<or> (\<exists>a' q. out = Stop a' q \<and> scan_ok d q0 a' q)"
proof -
  let ?P = "\<lambda>d' s' slen a p out. d' = d \<longrightarrow> s' = s \<longrightarrow> scan_ok d q0 a p \<longrightarrow>
    (\<exists>q. out = Fail q) \<or> (\<exists>a' q. out = Stop a' q \<and> scan_ok d q0 a' q)"
  have "?P d s slen a p out"
  proof (rule asc_loop.raw_induct [where P = ?P, OF _ o], intro impI)
    fix loop d' s' slen a p out
    assume IH: "\<And>d' s' slen a p out. loop d' s' slen a p = Some out \<Longrightarrow> ?P d' s' slen a p out"
      and b: "(if is_my_ascii s' (a_pos a) \<noteq> 0 \<and> a_pos a < slen then do {
        out \<leftarrow> asc_step d' s' slen a p;
        case out of Cont a' q \<Rightarrow> loop d' s' slen a' q | Stop a' q \<Rightarrow> Some (Stop a' q) | Fail q \<Rightarrow> Some (Fail q) }
      else Some (Stop a p)) = Some out" and eq: "d' = d" "s' = s" and i: "scan_ok d q0 a p"
    show "(\<exists>q. out = Fail q) \<or> (\<exists>a' q. out = Stop a' q \<and> scan_ok d q0 a' q)"
    proof (cases "is_my_ascii s (a_pos a) \<noteq> 0 \<and> a_pos a < slen")
      case True
      then obtain o1 where o1: "asc_step d s slen a p = Some o1"
        "(case o1 of Cont a' q \<Rightarrow> loop d s slen a' q | Stop a' q \<Rightarrow> Some (Stop a' q) | Fail q \<Rightarrow> Some (Fail q)) = Some out"
        using b unfolding eq by (auto simp: bind_eq_Some_conv)
      consider q where "o1 = Fail q" | a' q where "o1 = Stop a' q" "scan_ok d q0 a' q"
        | a' q where "o1 = Cont a' q" "scan_ok d q0 a' q" using asc_step_ok [OF D s i o1(1)] by blast
      then show ?thesis
      proof cases
        case 3
        then have "loop d s slen a' q = Some out" using o1(2) by simp
        from IH [OF this] 3(2) show ?thesis by simp
      qed (use o1(2) in auto)
    qed (use b i eq in auto)
  qed
  then show ?thesis using i by blast
qed

text \<open>The last word, too, is only appended, so taking everything back restores the result.\<close>

lemma asc_last_ok:
  assumes D: "seg_dict M d" and i: "scan_ok d q0 a p" and e: "asc_last d a p = Some (e, a', q)" "\<not> e < 0"
  shows "grew d q0 q"
proof -
  have d: "wf_phrases d" using D by (simp add: seg_dict_def)
  let ?w = "a_word a" and ?n = "length (a_word a) - a_dgtlen a"
  have w: "short_word ?w" "wf_inner d p" "grew d q0 p" using i by (simp_all add: scan_ok_def grew_def)
  have piece: "grew d p1 p2" if "put_asc d p1 v f = Some (e1, p2)" "\<not> e1 < 0" "short_word v" "wf_inner d p1" for p1 v f e1 p2
    using put_asc_ok [OF D that(4,3,1,2)] by (simp add: piece_added_def)
  have "grew d p q"
  proof (cases "?w = []")
    case True
    then show ?thesis using e w(2) by (simp add: asc_last_def)
  next
    case ne: False
    show ?thesis
    proof (cases "a_dgtlen a = 0")
      case True
      then obtain e1 where A: "append_asciistr d p ?w (a_dcnt a) True = Some (e1, q)" "\<not> e1 < 0"
        using e ne by (cases "append_asciistr d p ?w (a_dcnt a) True") (auto simp: asc_last_def Let_def split: if_splits)
      show ?thesis using append_asciistr_ok [OF D w(2,1) A] by blast
    next
      case dg: False
      show ?thesis
      proof (cases "a_dcnt a - a_dgtcnt a > MIN_LTR_LEN")
        case True
        note E = e(1) [unfolded asc_last_def Let_def, simplified ne dg True if_False if_True]
        obtain len p1 where A: "append_asciistr d p ?w (a_dcnt a) False = Some (len, p1)"
          using E by (cases "append_asciistr d p ?w (a_dcnt a) False") auto
        show ?thesis
        proof (cases "len = int (length ?w)")
          case True
          then have "q = p1" "\<not> len < 0" using E A by simp_all
          then show ?thesis using append_asciistr_ok [OF D w(2,1) A] by simp
        next
          case False
          define p2 where "p2 = p1\<lparr>m_ppseg_cnt := m_ppseg_cnt p\<rparr>"
          define r where "r = (if len \<noteq> int ?n then put_asc d p2 (take ?n ?w) SET_ASCIIWORD else Some (0, p1))"
          have E: "do { (e, p2) \<leftarrow> r; if e < 0 then Some (-1, a, p2) else do {
              wd \<leftarrow> word_from ?w (a_dgtbgn a); (e, p3) \<leftarrow> put_asc d p2 wd set_num; Some (e, a\<lparr>a_split := True\<rparr>, p3) } } = Some (e, a', q)"
            using E A False by (cases "len = int ?n") (simp_all add: r_def p2_def)
          have g1: "grew d p p1" by (rule append_asciistr_grew [OF D w(2,1) A])
          have g2: "grew d p p2" using rewind_ok(1,2) [OF d w(2)] g1 by (simp add: grew_def p2_def)
          obtain e3 p3 where r: "r = Some (e3, p3)" using E by (cases r) auto
          have n3: "\<not> e3 < 0" using E r e(2) by auto
          have g3: "grew d p p3"
            using r g1 grew_trans [OF g2 piece [OF _ n3 short_word_part(1) [OF w(1)] grew_wf [OF g2]]] by (auto simp: r_def split: if_splits)
          obtain wd where wd: "word_from ?w (a_dgtbgn a) = Some wd" "put_asc d p3 wd set_num = Some (e, q)"
            using E r n3 by (cases "word_from ?w (a_dgtbgn a)"; cases "put_asc d p3 (the (word_from ?w (a_dgtbgn a))) set_num") auto
          show ?thesis by (rule grew_trans [OF g3 piece [OF wd(2) e(2) short_word_from [OF wd(1) w(1)] grew_wf [OF g3]]])
        qed
      next
        case False
        note E = e(1) [unfolded asc_last_def Let_def, simplified ne dg False if_False]
        obtain wd where wd: "word_from ?w (a_dgtbgn a - int ?n) = Some wd"
          using E by (cases "word_from ?w (a_dgtbgn a - int ?n)") auto
        obtain f where "put_asc d p wd f = Some (e, q)"
          using E wd by (cases "put_asc d p wd (if ?n = 0 then set_num else SET_ASCIIWORD)") auto
        from piece [OF this e(2) short_word_from [OF wd w(1)] w(2)] show ?thesis .
      qed
    qed
  qed
  then show ?thesis using w(3) by (rule grew_trans [rotated])
qed

subsection \<open>Marks at the head\<close>

text \<open>The marks at \<open>pos\<close>, each of one or two bytes, up to the first character that is none.\<close>

function head_marks :: "string \<Rightarrow> nat \<Rightarrow> string list" where
  "head_marks s pos = (if is_split_headmark s pos = 0 then []
     else cut s pos (pos + is_split_headmark s pos) # head_marks s (pos + is_split_headmark s pos))"
  by pat_completeness auto

termination head_marks
proof (relation "measure (\<lambda>(s, pos). length s - pos)", goal_cases)
  case (2 s pos)
  then have "pos < length s" using headmark_end [of s pos] by (meson not_less)
  then show ?case using 2 by auto
qed simp

declare head_marks.simps [simp del]

text \<open>The entries \<open>n\<close>, \<open>n + 1\<close> and so on spell the words \<open>ws\<close>.\<close>

definition entries_spell :: "scw_worddict \<Rightarrow> scw_inner \<Rightarrow> nat \<Rightarrow> string list \<Rightarrow> bool" where
  "entries_spell d q n ws \<longleftrightarrow> (\<forall>i < length ws. \<exists>r. m_ppseg q (n + i) = Some r \<and> lm_text d q r = map of_char (ws ! i))"

lemma entries_spell_grew:
  assumes d: "wf_phrases d" and w: "wf_inner d p" and g: "grew d p q" and e: "entries_spell d p n ws" and c: "n + length ws \<le> m_ppseg_cnt p"
  shows "entries_spell d q n ws"
  unfolding entries_spell_def
proof (intro allI impI)
  fix i assume i: "i < length ws"
  then obtain r where r: "m_ppseg p (n + i) = Some r" "lm_text d p r = map of_char (ws ! i)" using e by (auto simp: entries_spell_def)
  have lt: "n + i < m_ppseg_cnt p" using i c by simp
  have "inner_ext p q" "m_ppseg q (n + i) = m_ppseg p (n + i)" using g lt by (simp_all add: grew_def appended_def)
  moreover have "lm_text d q r = lm_text d p r"
    using lm_text_ext(2) [OF d w grew_wf [OF g]] \<open>inner_ext p q\<close> wf_inner_seg [OF w lt r(1)] by blast
  ultimately show "\<exists>r. m_ppseg q (n + i) = Some r \<and> lm_text d q r = map of_char (ws ! i)" using r by auto
qed

lemma headmark_size: "is_split_headmark s i \<le> 2"
  by (simp add: is_split_headmark_def Let_def)

lemma asc_heads_ok:
  "asc_heads d p s pos = Some (e, q, np) \<Longrightarrow> seg_dict M d \<Longrightarrow> wf_inner d p \<Longrightarrow> no_nul s (length s) \<Longrightarrow> \<not> e < 0 \<Longrightarrow>
    grew d p q \<and> m_ppseg_cnt q = m_ppseg_cnt p + length (head_marks s pos) \<and>
    entries_spell d q (m_ppseg_cnt p) (head_marks s pos) \<and>
    seg_text d q = seg_text d p @ map of_char (concat (head_marks s pos))"
proof (induction d p s pos rule: asc_heads.induct)
  case (1 d p s pos)
  let ?off = "is_split_headmark s pos"
  have d: "wf_phrases d" using "1.prems"(2) by (simp add: seg_dict_def)
  show ?case
  proof (cases "?off = 0")
    case True
    then have "q = p" using "1.prems"(1) by (subst (asm) asc_heads.simps) simp
    moreover have "head_marks s pos = []" using True by (subst head_marks.simps) simp
    ultimately show ?thesis using "1.prems"(3) by (simp add: entries_spell_def)
  next
    case False
    let ?u = "cut s pos (pos + ?off)"
    have hm: "head_marks s pos = ?u # head_marks s (pos + ?off)" using False by (subst head_marks.simps) simp
    obtain e1 q1 where P: "put_asc d p ?u id = Some (e1, q1)"
      using "1.prems"(1) False by (subst (asm) asc_heads.simps) (auto simp: Let_def split: option.splits)
    have n: "\<not> e1 < 0" using "1.prems"(1,5) False P by (subst (asm) asc_heads.simps) (auto simp: Let_def)
    have rest: "asc_heads d q1 s (pos + ?off) = Some (e, q, np)"
      using "1.prems"(1) False P n by (subst (asm) asc_heads.simps) (auto simp: Let_def)
    have "short_word ?u" using headmark_size [of s pos] by (intro short_cut [OF "1.prems"(4)]) simp
    then have A: "piece_added d p ?u q1" by (rule put_asc_ok [OF "1.prems"(2,3) _ P n])
    then have g: "grew d p q1" "m_ppseg_cnt q1 = m_ppseg_cnt p + 1" by (simp_all add: piece_added_def)
    note I = "1.IH" [OF refl False P refl n rest "1.prems"(2) grew_wf [OF g(1)] "1.prems"(4,5)]
    have "entries_spell d q1 (m_ppseg_cnt p) [?u]" using A by (simp add: piece_added_def entries_spell_def)
    then have "entries_spell d q (m_ppseg_cnt p) [?u]"
      using entries_spell_grew [OF d grew_wf [OF g(1)]] I g(2) by simp
    then have "entries_spell d q (m_ppseg_cnt p) (head_marks s pos)"
      using I g(2) unfolding entries_spell_def hm by (auto simp: nth_Cons split: nat.splits)
    then show ?thesis using A I grew_trans [OF g(1)] by (auto simp: piece_added_def hm)
  qed
qed

subsection \<open>Properties\<close>

text \<open>
  C25 Giving up does not undo the marks at the head. Whenever \<open>proc_ascii\<close> returns 0 for a character
  of its own, that is, leaves the stretch to the dictionary's match, the result has one more entry
  for each mark at the head, in order, each spelling its mark, and nothing else has changed; without
  such marks it is unchanged. When the match \<open>sl\<close> is appended next, its text, which begins with
  the same marks, follows them.
\<close>

theorem proc_ascii_keeps_heads:
  assumes "seg_dict M d" "wf_inner d p" "no_nul s (length s)" "len \<le> length s"
    and "proc_ascii d p s len pos lpos sl = Some (0, q, np)"
    and "pos < len" "is_my_ascii s pos \<noteq> 0" "\<not> IS_SPEC_ENSTR (m_property (m_lemmalist d sl))"
  shows "wf_inner d q \<and> (\<forall>i < m_ppseg_cnt p. m_ppseg q i = m_ppseg p i) \<and>
    m_ppseg_cnt q = m_ppseg_cnt p + length (head_marks s pos) \<and>
    entries_spell d q (m_ppseg_cnt p) (head_marks s pos) \<and>
    seg_text d q = seg_text d p @ map of_char (concat (head_marks s pos)) \<and>
    (match d s len pos sl lpos \<longrightarrow> m_ppseg_cnt q < m_maxterm q \<longrightarrow> (\<exists>q'. append_lemma d q (Static sl) = Some (0, q') \<and>
      seg_text d q' = seg_text d p @ map of_char (concat (head_marks s pos)) @ slice s pos lpos))"
proof -
  have d: "wf_phrases d" using assms(1) by (simp add: seg_dict_def)
  obtain e q1 pos1 where H: "asc_heads d p s pos = Some (e, q1, pos1)"
    using assms by (auto simp: proc_ascii_def Let_def split: Option.bind_splits)
  have nn: "\<not> e < 0" "is_my_ascii s pos1 \<noteq> 0" using assms H by (auto simp: proc_ascii_def Let_def split: if_splits)
  note A = asc_heads_ok [OF H assms(1-3) nn(1)]
  let ?a = "asc_init pos1 (is_my_num s pos1 \<noteq> 0)"
  obtain a q2 where L: "asc_loop d s len ?a q1 = Some (Stop a q2)" and E: "asc_end d s (m_ppseg_cnt q1) lpos a q2 = Some (0, q, np)"
    using assms H nn by (auto simp: proc_ascii_def Let_def split: Option.bind_splits asc_out.splits)
  have "scan_ok d q1 ?a q1" using A by (simp add: scan_ok_def asc_init_def grew_def)
  then have S: "scan_ok d q1 a q2" using asc_loop_ok [OF assms(1,3) L] by auto
  obtain e1 a1 p1 where T: "asc_last d a q2 = Some (e1, a1, p1)" "\<not> e1 < 0"
    using E by (auto simp: asc_end_def split: Option.bind_splits if_splits)
  have "a_pos a1 \<le> lpos" using E T by (auto simp: asc_end_def split: Option.bind_splits if_splits)
  then have q: "q = p1\<lparr>m_ppseg_cnt := m_ppseg_cnt q1\<rparr>" using E T by (auto simp: asc_end_def)
  have "grew d q1 p1" by (rule asc_last_ok [OF assms(1) S T])
  then have R: "wf_inner d q" "appended q1 q" "seg_text d q = seg_text d q1" "m_ppseg_cnt q = m_ppseg_cnt q1"
    using rewind_ok [OF d, of q1 p1] A by (simp_all add: grew_def q)
  have "entries_spell d q (m_ppseg_cnt p) (head_marks s pos)"
    using entries_spell_grew [OF d, of q1 q] A R by (simp add: grew_def)
  moreover have "\<exists>q'. append_lemma d q (Static sl) = Some (0, q') \<and>
      seg_text d q' = seg_text d p @ map of_char (concat (head_marks s pos)) @ slice s pos lpos"
    if m: "match d s len pos sl lpos" "m_ppseg_cnt q < m_maxterm q"
  proof -
    note M = match_ok(3,4,6) [OF assms(1) m(1) _ assms(4)]
    have "seg_ref d q (Static sl)" "lm_text d q (Static sl) = slice s pos lpos" using M assms(6) by simp_all
    then show ?thesis
      using put_ppseg_ok(3) [OF d R(1) _ m(2), of "Static sl" 0] M assms(6) A R(3) m(2)
      by (auto simp: append_lemma_def deref_def lemma_types Let_def)
  qed
  ultimately show ?thesis using A R by (auto simp: grew_def appended_def)
qed

theorem proc_ascii_keeps_heads_witness:
  "\<exists>q np. proc_ascii sample_dict sample_inner (''.12'' @ [char_of (0xb0 :: nat), char_of (0xa1 :: nat)]) 5 0 5 0 = Some (0, q, np) \<and>
     m_ppseg_cnt q = 1 \<and> seg_text sample_dict q = [46]"
proof -
  let ?s = "''.12'' @ [char_of (0xb0 :: nat), char_of (0xa1 :: nat)]"
  have c: "cut ?s 0 1 = ''.''" "cut ?s 1 3 = ''12''" by (simp_all add: cut_def)
  have l: "c_strlen ''.'' = 1" "c_strlen ''12'' = 2" by (simp_all add: c_strlen_def of_char_def)
  obtain q1 where a1: "add_dynword sample_inner ''.'' id = (0, q1)" and f: "m_dynlm_cnt q1 = 1" "m_dynlm_size q1 = 100"
      "m_dynb_curpos q1 = 2" "m_dynb_size q1 = 2000" "m_ppseg_cnt q1 = 1" "m_maxterm q1 = 100"
    by (rule add_dynword_room [of sample_inner "''.''" id]) (simp_all add: l sample_inner_fields)
  obtain q2 where a2: "add_dynword q1 ''12'' set_num = (0, q2)"
    by (rule add_dynword_room [of q1 "''12''" set_num]) (simp_all add: l f)
  have p1: "put_asc sample_dict sample_inner ''.'' id = Some (0, q1)"
    using seek_lemma_words [OF sample_dict_wf, of "''.''"] fresh_lookup [OF sample_dict_create, of "term_words ''.''"]
      gb_words_nonempty [of "''.''"] a1 by (simp add: put_asc_def)
  have h: "is_split_headmark ?s 0 = 1" "is_split_headmark ?s 1 = 0" by (simp_all add: is_split_headmark_def)
  have b: "0x30 \<le> cbyte ?s 1" "cbyte ?s 1 \<le> 0x39" by simp_all
  have H: "asc_heads sample_dict sample_inner ?s 0 = Some (0, q1, 1)"
    using h p1 c by (subst asc_heads.simps) (simp, subst asc_heads.simps, simp)
  have r: "digit_run ?s 1 3"
    by (auto simp: digit_run_def numeral_eq_Suc less_Suc_eq le_Suc_eq)
  have m: "is_my_ascii ?s 0 = 1" "is_my_ascii ?s 3 = 0"
    by (simp_all add: is_my_ascii_def mark_follow_def IS_GB_1234_def IS_GB_ABCD_def IN_RANGE_def al_num_map_def)
  have z: "digits_at ?s 1 0 = asc_init 1 True" by (simp add: digits_at_def asc_init_def cut_def)
  have L: "asc_loop sample_dict ?s 5 (asc_init 1 True) q1 = Some (Stop (digits_at ?s 1 2) q1)"
    using digit_loop [OF r, of 5 0 sample_dict q1] m unfolding z by simp
  have e: "asc_last sample_dict (digits_at ?s 1 2) q1 = Some (0, digits_at ?s 1 2, q2)"
    using digits_last [of 1 3 ?s q1 0 q2 sample_dict] a2 c by simp
  have E: "asc_end sample_dict ?s 1 5 (digits_at ?s 1 2) q1 = Some (0, q2\<lparr>m_ppseg_cnt := 1\<rparr>, 0)"
    using e by (simp add: asc_end_def digits_at_def asc_init_def)
  have n: "\<not> IS_SPEC_ENSTR (m_property (m_lemmalist sample_dict 0))"
    by (simp add: sample_dict_eval zero_lemma_def prop_is INIT_PROPERTY_def)
  have A: "proc_ascii sample_dict sample_inner ?s 5 0 5 0 = Some (0, q2\<lparr>m_ppseg_cnt := 1\<rparr>, 0)"
    using H L E m h n digit_classes [OF b] f by (simp add: proc_ascii_def)
  have hm: "head_marks ?s 0 = [''.'']" using h c by (subst head_marks.simps, subst head_marks.simps) simp
  have S: "seg_dict 1000000 sample_dict"
    by (rule basic_dict_seg_dict [OF built_basic [OF built.create [OF sample_dict_create]]]) simp
  have nn: "no_nul ?s (length ?s)" by (simp only: no_nul_set) simp
  have "seg_text sample_dict sample_inner = []" by (simp add: seg_text_def seg_refs_def sample_inner_fields List.map_filter_simps)
  moreover have "(of_char CHR ''.'' :: nat) = 46" by (simp add: of_char_def)
  moreover have "is_my_ascii ?s 0 \<noteq> 0" unfolding m(1) by simp
  note T = proc_ascii_keeps_heads [OF S sample_inner_wf nn _ A _ this n, THEN conjunct2, THEN conjunct2]
  have "m_ppseg_cnt (q2\<lparr>m_ppseg_cnt := 1\<rparr>) = m_ppseg_cnt sample_inner + length (head_marks ?s 0)"
    by (rule T [THEN conjunct1]) simp_all
  moreover have "seg_text sample_dict (q2\<lparr>m_ppseg_cnt := 1\<rparr>) = seg_text sample_dict sample_inner @ map of_char (concat (head_marks ?s 0))"
    by (rule T [THEN conjunct2, THEN conjunct2, THEN conjunct1]) simp_all
  ultimately show ?thesis using A hm by (auto simp: sample_inner_fields)
qed

end
