(* ===== verification/SegFmm.thy ===== *)
theory SegFmm
  imports Ascii
begin

unbundle bit_operations_syntax

text \<open>
  The segmentation of a sentence, \<open>scw_seg_fmm\<close> of \<open>segimpl.cpp\<close>: forward maximal matching with
  the comparison of the two longest candidates, the recognisers at every match, words for
  characters that no lemma begins with, and the joining of numbers with units of time and
  quantity, \<open>tn_recg\<close>.
\<close>

subsection \<open>The main loop\<close>

text \<open>
  The recogniser that the property of the match selects; the code repeats this text in the two
  states with a match.
\<close>

definition seg_recg :: "scw_worddict \<Rightarrow> string \<Rightarrow> nat \<Rightarrow> nat \<Rightarrow> nat \<Rightarrow> nat \<Rightarrow> scw_inner \<Rightarrow> (int \<times> scw_inner \<times> nat) option" where
  "seg_recg d s len pos sl spos p =
     (let prop = m_property (m_lemmalist d sl) in
      if IS_ASCIIWORD prop then proc_ascii d p s len pos spos sl
      else if IS_CNUMBER prop then proc_cnum d p s len pos spos
      else if m_wdtype d AND SCW_WD_JP \<noteq> 0 \<and> IS_PAJMSTR prop then proc_pajm d p s len pos spos
      else Some (0, p, 0))"

text \<open>Appending a match, with a note of its place when it is a controlled word.\<close>

definition take_match :: "scw_worddict \<Rightarrow> scw_inner \<Rightarrow> nat \<Rightarrow> nat \<Rightarrow> seg_state \<Rightarrow> seg_step option" where
  "take_match d p l pos st = do {
     (e, q) \<leftarrow> append_lemma d p (Static l);
     if e < 0 then Some (Halt (-1) q)
     else if IS_MANWORD (m_property (m_lemmalist d l)) then do {
       (e, q1) \<leftarrow> append_manword d (Some (Static l)) q pos;
       Some (if e < 0 then Halt (-1) q1 else Go st q1) }
     else Some (Go st q) }"

text \<open>
  State 1. A character that no lemma begins with becomes a word; at a NUL the matcher does not
  move and the loop ends.
\<close>

definition seg_find :: "scw_worddict \<Rightarrow> string \<Rightarrow> nat \<Rightarrow> nat \<Rightarrow> scw_inner \<Rightarrow> seg_step option" where
  "seg_find d s len pos p =
     (if pos \<ge> len then Some (Halt 1 p)
      else do {
        (l, spos) \<leftarrow> scw_get_fmm_word d s len pos;
        if l \<noteq> LEMMA_NULL then Some (Go (seg_at d pos l spos) p)
        else if spos \<le> pos then Some (Halt 1 p)
        else (let (e, q) = add_dynword p (cut s pos spos) id in
          Some (if e < 0 then Halt (-1) q else Go (Find spos) q)) })"

text \<open>
  State 3 in a Chinese dictionary compares the match and its longest prefix lemma only. In a
  Japanese one the comparison goes on with the next shorter prefix until one has none: when the
  match wins, against the same match; when the prefix wins, against the prefix.
\<close>

definition seg_two_ch :: "scw_worddict \<Rightarrow> string \<Rightarrow> nat \<Rightarrow> nat \<Rightarrow> nat \<Rightarrow> nat \<Rightarrow> nat \<Rightarrow> nat \<Rightarrow> scw_inner \<Rightarrow> seg_step option" where
  "seg_two_ch d s len pos fl fpos sl spos p = do {
     (r, ft, newfpos, st, newspos) \<leftarrow> scw_backtrack d s len fl fpos sl spos;
     if r = 0 then take_match d p sl pos (seg_at d spos st newspos)
     else take_match d p fl pos (seg_at d fpos ft newfpos) }"

definition seg_two_jp :: "scw_worddict \<Rightarrow> string \<Rightarrow> nat \<Rightarrow> nat \<Rightarrow> nat \<Rightarrow> nat \<Rightarrow> nat \<Rightarrow> nat \<Rightarrow> scw_inner \<Rightarrow> seg_step option" where
  "seg_two_jp d s len pos fl fpos sl spos p = do {
     (r, _) \<leftarrow> scw_backtrack d s len fl fpos sl spos;
     let fl' = m_prelm_pos (m_lemmalist d fl);
     let back = (\<lambda>to l. to + m_length (m_lemmalist d fl') - m_length (m_lemmalist d l));
     if r = 0 then
       if fl' = LEMMA_NULL then append_then d p sl (Find spos)
       else do {
         c_assert (m_length (m_lemmalist d sl) \<le> spos + m_length (m_lemmalist d fl'));
         Some (Go (Two pos fl' (back spos sl) sl spos) p) }
     else
       if fl' = LEMMA_NULL then append_then d p fl (Find fpos)
       else do {
         c_assert (m_length (m_lemmalist d fl) \<le> fpos + m_length (m_lemmalist d fl'));
         Some (Go (Two pos fl' (back fpos fl) fl fpos) p) } }"

text \<open>The steps with a match, when no recogniser takes more than it.\<close>

fun seg_choose :: "scw_worddict \<Rightarrow> string \<Rightarrow> nat \<Rightarrow> seg_state \<Rightarrow> scw_inner \<Rightarrow> seg_step option" where
  "seg_choose d s len (Find pos) p = seg_find d s len pos p"
| "seg_choose d s len (One pos sl spos) p = take_match d p sl pos (Find spos)"
| "seg_choose d s len (Two pos fl fpos sl spos) p =
     (if m_wdtype d AND SCW_WD_JP \<noteq> 0 then seg_two_jp d s len pos fl fpos sl spos p
      else seg_two_ch d s len pos fl fpos sl spos p)"

definition after_recg :: "(int \<times> scw_inner \<times> nat) option \<Rightarrow> (scw_inner \<Rightarrow> seg_step option) \<Rightarrow> seg_step option" where
  "after_recg o1 k = do {
     (r, q, np) \<leftarrow> o1;
     if r < 0 then Some (Halt (-1) q) else if r = 1 then Some (Go (Find np) q) else k q }"

fun fmm_step :: "scw_worddict \<Rightarrow> string \<Rightarrow> nat \<Rightarrow> seg_state \<Rightarrow> scw_inner \<Rightarrow> seg_step option" where
  "fmm_step d s len (Find pos) p = seg_choose d s len (Find pos) p"
| "fmm_step d s len (One pos sl spos) p =
     after_recg (seg_recg d s len pos sl spos p) (seg_choose d s len (One pos sl spos))"
| "fmm_step d s len (Two pos fl fpos sl spos) p =
     after_recg (seg_recg d s len pos sl spos p) (seg_choose d s len (Two pos fl fpos sl spos))"

subsection \<open>Numbers with time and quantity\<close>

text \<open>The next entry that is not empty; the code may read one cell behind the last entry.\<close>

function next_seg :: "scw_inner \<Rightarrow> nat \<Rightarrow> nat" where
  "next_seg p npos = (if npos < m_ppseg_cnt p \<and> m_ppseg p npos = None then next_seg p (npos + 1) else npos)"
  by pat_completeness auto

termination next_seg
  by (relation "measure (\<lambda>(p, npos). m_ppseg_cnt p - npos)") auto

declare next_seg.simps [simp del]

fun prev_seg :: "scw_inner \<Rightarrow> nat \<Rightarrow> nat" where
  "prev_seg p 0 = 0"
| "prev_seg p (Suc l) = (if m_ppseg p (Suc l) = None then prev_seg p l else Suc l)"

text \<open>A property set through a pointer of the result; records of the dictionary are not written.\<close>

definition set_ref_property :: "scw_inner \<Rightarrow> lmref option \<Rightarrow> (scw_property \<Rightarrow> scw_property) \<Rightarrow> scw_inner option" where
  "set_ref_property p r f = (case r of Some (Dyn k) \<Rightarrow> Some (upd_dynlm p k (set_property f)) | _ \<Rightarrow> None)"

text \<open>An ordinal, "the third day": its two readings become the subphrases of the phrase.\<close>

definition tn_ordinal :: "scw_worddict \<Rightarrow> scw_inner \<Rightarrow> nat \<Rightarrow> nat \<Rightarrow> nat \<Rightarrow> (int \<times> scw_inner) option" where
  "tn_ordinal d p lpos i npos = do {
     (pos1, p1) \<leftarrow> create_dphrase d p lpos (i - lpos + 1);
     (pos2, p2) \<leftarrow> create_dphrase d p1 i (npos - i + 1);
     if pos1 < 0 \<or> pos2 < 0 then Some (-1, p2)
     else do {
       (e, p3) \<leftarrow> poly_lemmas d p2 lpos (npos - lpos + 1);
       if e = -1 then Some (-1, p3)
       else (case m_ppseg p3 lpos of
           Some (Dyn k) \<Rightarrow> do {
             p4 \<leftarrow> push_cells (upd_dynlm p3 k (\<lambda>lm. lm\<lparr>m_subphinfo_bpos := m_dynph_curpos p3\<rparr>))
               [PNum 2, PNum 0, PLm (Dyn (nat pos1)), PNum 1, PLm (Dyn (nat pos2))];
             Some (1, p4) }
         | _ \<Rightarrow> None) } }"

definition tn_join :: "scw_worddict \<Rightarrow> scw_inner \<Rightarrow> nat \<Rightarrow> nat \<Rightarrow> bool \<Rightarrow> (int \<times> scw_inner) option" where
  "tn_join d p i npos is_time = do {
     (e, p1) \<leftarrow> poly_lemmas d p i (npos - i + 1);
     if e = -1 then Some (-1, p1)
     else if is_time then do { p2 \<leftarrow> set_ref_property p1 (m_ppseg p1 i) SET_TIME; Some (1, p2) }
     else Some (1, p1) }"

function tn_loop :: "scw_worddict \<Rightarrow> nat \<Rightarrow> scw_inner \<Rightarrow> nat \<Rightarrow> (int \<times> scw_inner) option" where
  "tn_loop d cnt p i =
     (if i + 1 < cnt then
        (case m_ppseg p i of None \<Rightarrow> tn_loop d cnt p (i + 1)
         | Some r \<Rightarrow>
             (let prop = m_property (deref d p r); npos = next_seg p (i + 1) in
              if \<not> (IS_CNUMBER prop \<or> IS_ASCIINUM prop) then tn_loop d cnt p (i + 1)
              else if npos \<ge> m_maxterm p then None
              else (case m_ppseg p npos of None \<Rightarrow> tn_loop d cnt p (i + 1)
                | Some nr \<Rightarrow>
                    (let nprop = m_property (deref d p nr); lpos = (if i > 0 then prev_seg p (i - 1) else 0);
                         di = (i > 0 \<and> (case m_ppseg p lpos of None \<Rightarrow> False
                               | Some lr \<Rightarrow> IS_DI (m_property (deref d p lr)))) in
                     if \<not> (IS_TIME nprop \<or> IS_QUANTITY nprop) then tn_loop d cnt p (i + 1)
                     else (case (if di then tn_ordinal d p lpos i npos else tn_join d p i npos (IS_TIME nprop)) of
                         None \<Rightarrow> None
                       | Some (e, q) \<Rightarrow> if e < 0 then Some (-1, q) else tn_loop d cnt q (i + 2))))))
      else Some (1, p))"
  by pat_completeness auto

termination tn_loop
  by (relation "measure (\<lambda>(d, cnt, p, i). cnt - i)") auto

declare tn_loop.simps [simp del]

definition tn_recg :: "scw_worddict \<Rightarrow> scw_inner \<Rightarrow> (int \<times> scw_inner) option" where
  "tn_recg d p = tn_loop d (m_ppseg_cnt p) p 0"

subsection \<open>The whole\<close>

text \<open>
  \<open>so_tn\<close> is the global switch \<open>g_scw_tn\<close>; the other two are the fields \<open>needremove\<close> and
  \<open>m_protect\<close> (up to \<open>m_protect_cnt\<close>) of the result: the offsets of separators that protect
  terms and are removed in the end.
\<close>

record seg_opts =
  so_tn :: bool
  so_needremove :: bool
  so_protect :: "nat list"

text \<open>The entries from \<open>i\<close> on, \<open>n\<close> of them, which start at the offset \<open>tagpos\<close> of the text.\<close>

fun remove_tags :: "scw_worddict \<Rightarrow> scw_inner \<Rightarrow> nat \<Rightarrow> nat \<Rightarrow> nat \<Rightarrow> nat list \<Rightarrow> scw_inner option" where
  "remove_tags d p i 0 tagpos prot = Some p"
| "remove_tags d p i (Suc n) tagpos prot =
     (case m_ppseg p i of None \<Rightarrow> remove_tags d p (i + 1) n tagpos prot
      | Some r \<Rightarrow> do {
          (len, bs) \<leftarrow> get_lmstr d p (Some r) MAX_WORD_LEN;
          c_assert (0 \<le> len);
          if prot \<noteq> [] \<and> take 1 bs = [27] \<and> hd prot = tagpos
          then remove_tags d (p\<lparr>m_ppseg := (m_ppseg p)(i := None)\<rparr>) (i + 1) n (tagpos + nat len) (tl prot)
          else remove_tags d p (i + 1) n (tagpos + nat len) prot })"

definition remove_tag :: "scw_worddict \<Rightarrow> scw_inner \<Rightarrow> nat list \<Rightarrow> scw_inner option" where
  "remove_tag d p prot = remove_tags d p 0 (m_ppseg_cnt p) 0 prot"

definition scw_seg_fmm :: "scw_worddict \<Rightarrow> seg_opts \<Rightarrow> scw_inner \<Rightarrow> string \<Rightarrow> nat \<Rightarrow> (int \<times> scw_inner) option" where
  "scw_seg_fmm d opts p s len = do {
     (r, q) \<leftarrow> seg_loop (fmm_step d s len) (Find 0) p;
     if r < 0 then Some (-1, q)
     else do {
       (e, q1) \<leftarrow> (if so_tn opts then tn_recg d q else Some (1, q));
       if e < 0 then Some (-1, q1)
       else do {
         q2 \<leftarrow> (if so_needremove opts then remove_tag d q1 (so_protect opts) else Some q1);
         Some (1, q2) } } }"

subsection \<open>The main loop ends and spells the text\<close>

text \<open>No character of the text starts a run of letters and digits.\<close>

definition no_ascii :: "string \<Rightarrow> nat \<Rightarrow> bool" where
  "no_ascii s len \<longleftrightarrow> (\<forall>i < len. is_my_ascii s i = 0)"

text \<open>No lemma is a controlled word.\<close>

definition no_manwords :: "scw_worddict \<Rightarrow> bool" where
  "no_manwords d \<longleftrightarrow> (\<forall>l < m_lmpos d. \<not> IS_MANWORD (m_property (m_lemmalist d l)))"

text \<open>What a recogniser has done to a state with a match.\<close>

definition recg_done :: "scw_worddict \<Rightarrow> string \<Rightarrow> nat \<Rightarrow> scw_inner \<Rightarrow> seg_state \<Rightarrow> (int \<times> scw_inner \<times> nat) option \<Rightarrow> bool" where
  "recg_done d s len p0 st out \<longleftrightarrow> (\<exists>r q np. out = Some (r, q, np) \<and>
     (r = 1 \<and> seg_inv d s len p0 (Find np) q \<and> st_measure len (Find np) < st_measure len st \<or>
      r = 0 \<and> seg_inv d s len p0 st q \<or> r = -1))"

definition seg_end :: "scw_worddict \<Rightarrow> string \<Rightarrow> nat \<Rightarrow> scw_inner \<Rightarrow> int \<Rightarrow> scw_inner \<Rightarrow> bool" where
  "seg_end d s len p0 r q \<longleftrightarrow>
     r = 1 \<and> wf_inner d q \<and> appended p0 q \<and> seg_text d q = seg_text d p0 @ slice s 0 len \<or> r = -1"

text \<open>Japanese comparisons shorten the prefix without moving.\<close>

definition fmm_measure :: "nat \<Rightarrow> seg_state \<Rightarrow> nat" where
  "fmm_measure len st = st_measure len st * (len + 1) +
     (case st of Two pos fl fpos sl spos \<Rightarrow> fpos - pos | _ \<Rightarrow> 0)"

definition step_ok :: "scw_worddict \<Rightarrow> string \<Rightarrow> nat \<Rightarrow> scw_inner \<Rightarrow> seg_state \<Rightarrow> seg_step option \<Rightarrow> bool" where
  "step_ok d s len p0 st out \<longleftrightarrow> (\<exists>r q. out = Some (Halt r q) \<and> seg_end d s len p0 r q) \<or>
     (\<exists>st' q. out = Some (Go st' q) \<and> seg_inv d s len p0 st' q \<and> fmm_measure len st' < fmm_measure len st)"

lemma step_ok_halt [intro]: "seg_end d s len p0 r q \<Longrightarrow> step_ok d s len p0 st (Some (Halt r q))"
  by (simp add: step_ok_def)

lemma fmm_measure_less:
  assumes "st_measure len st' < st_measure len st" "st_ok d s len st'" "seg_dict M d" "len \<le> length s"
  shows "fmm_measure len st' < fmm_measure len st"
proof -
  let ?x = "case st' of Two pos fl fpos sl spos \<Rightarrow> fpos - pos | _ \<Rightarrow> 0"
  have "?x \<le> len"
  proof (cases st')
    case (Two pos fl fpos sl spos)
    then have "match d s len pos fl fpos" "pos \<le> len" using assms(2) by simp_all
    then have "fpos \<le> len" using match_ok(2) [OF assms(3)] assms(4) by blast
    then show ?thesis using Two by simp
  qed simp_all
  then have "fmm_measure len st' < (st_measure len st' + 1) * (len + 1)" by (simp add: fmm_measure_def)
  also have "\<dots> \<le> st_measure len st * (len + 1)" using assms(1) by (intro mult_le_mono1) simp
  finally show ?thesis by (simp add: fmm_measure_def)
qed

lemma step_ok_go:
  assumes "seg_inv d s len p0 st' q" "st_measure len st' < st_measure len st" "seg_dict M d" "len \<le> length s"
  shows "step_ok d s len p0 st (Some (Go st' q))"
proof -
  have "st_ok d s len st'" using assms(1) by (simp add: seg_inv_def)
  from fmm_measure_less [OF assms(2) this assms(3,4)] assms(1) show ?thesis by (auto simp: step_ok_def)
qed

lemma append_step_ok:
  assumes D: "seg_dict M d" and len: "len \<le> length s" and I: "seg_inv d s len p0 st p"
    and m: "match d s len (st_pos st) l np" and st: "st_ok d s len st'" "st_pos st' = np"
  shows "step_ok d s len p0 st (append_then d p l st')"
proof -
  have i: "wf_inner d p" "appended p0 p" "seg_text d p = seg_text d p0 @ slice s 0 (st_pos st)" "st_ok d s len st"
    using I by (simp_all add: seg_inv_def)
  have pos: "st_pos st \<le> len" by (rule st_ok_pos [OF i(4)])
  note m' = match_ok [OF D m pos len]
  have less: "st_measure len st' < st_measure len st"
    using m'(1,2) st(2) by (intro st_measure_less) simp_all
  from append_then_ok [OF D len i(1,2) m pos i(3) st] show ?thesis
    using step_ok_go [OF _ less D len] by (auto simp: step_ok_def seg_end_def)
qed

lemma take_match_plain:
  assumes "no_manwords d" "l < m_lmpos d"
  shows "take_match d p l pos st = append_then d p l st"
  using assms by (cases "append_lemma d p (Static l)")
    (auto simp: take_match_def append_then_def no_manwords_def)

lemma no_nul_live:
  assumes "no_nul s len" "pos < len"
  shows "live_words s pos len \<noteq> []"
proof -
  have b: "0 < cbyte s pos" using assms by (simp add: no_nul_def)
  then have "0 < fst (scw_get_word s pos len)"
    using assms(2) by (auto simp: scw_get_word_def get_value_gb_def Let_def)
  moreover obtain v pos' where "scw_get_word s pos len = (v, pos')" by fastforce
  ultimately show ?thesis using assms(2) by (simp add: gb_words_step)
qed

lemma find_ok:
  assumes D: "seg_dict M d" and len: "len \<le> length s" "no_nul s len" and I: "seg_inv d s len p0 (Find pos) p"
  shows "step_ok d s len p0 (Find pos) (seg_find d s len pos p)"
proof (cases "len \<le> pos")
  case True
  then show ?thesis using I by (auto simp: seg_find_def seg_inv_def seg_end_def)
next
  case False
  have i: "wf_inner d p" "appended p0 p" "seg_text d p = seg_text d p0 @ slice s 0 pos"
    using I by (simp_all add: seg_inv_def)
  have pos: "pos \<le> len" "pos < len" using False by simp_all
  have d: "wf_phrases d" using D by (simp add: seg_dict_def)
  note lv = no_nul_live [OF len(2) pos(2)]
  obtain l np where F: "scw_get_fmm_word d s len pos = Some (l, np)" "pos < np" "np \<le> len"
    "l \<noteq> LEMMA_NULL \<longrightarrow> match d s len pos l np" "l = LEMMA_NULL \<longrightarrow> np = snd (scw_get_word s pos len)"
    using fmm_word_match [OF D pos(1), of s] lv by blast
  show ?thesis
  proof (cases "l = LEMMA_NULL")
    case True
    obtain e q where a: "add_dynword p (cut s pos np) id = (e, q)" by fastforce
    have np: "np \<le> length s" using F(3) len(1) by simp
    note c = cut_ok [OF np, of pos]
    have short: "np - pos < 256" using F(5) True scw_get_word_short [of s pos len] by simp
    have nn: "no_nul s np" by (rule no_nul_mono [OF len(2) F(3)])
    note A = add_dynword_ok [OF d i(1) _ c(4) [OF nn] a, unfolded c(1,2), OF short]
    show ?thesis
    proof (cases "e = 0")
      case True
      have "slice s 0 pos @ slice s pos np = slice s 0 np" using F(2) by (intro slice_append) simp_all
      then have "seg_inv d s len p0 (Find np) q"
        using A(2) [OF True] i F(3) appended_trans [OF i(2)] by (auto simp: seg_inv_def)
      moreover have "st_measure len (Find np) < st_measure len (Find pos)"
        using F(2,3) by (intro st_measure_less) simp_all
      ultimately have "step_ok d s len p0 (Find pos) (Some (Go (Find np) q))" using step_ok_go [OF _ _ D len(1)] by blast
      then show ?thesis using F \<open>l = LEMMA_NULL\<close> a True False by (simp add: seg_find_def)
    next
      case False
      then have "e = -1" using A(1) by simp
      then show ?thesis using F \<open>l = LEMMA_NULL\<close> a pos(2) by (auto simp: seg_find_def seg_end_def)
    qed
  next
    case False
    have st: "st_ok d s len (seg_at d pos l np)" by (rule seg_at_ok [OF D pos(1) len(1)]) (use F(4) False in simp)
    have "seg_inv d s len p0 (seg_at d pos l np) p" using i st by (simp add: seg_inv_def)
    moreover have "st_measure len (seg_at d pos l np) < st_measure len (Find pos)"
      using False by (auto simp: st_measure_def seg_at_def Let_def)
    ultimately have "step_ok d s len p0 (Find pos) (Some (Go (seg_at d pos l np) p))" using step_ok_go [OF _ _ D len(1)] by blast
    then show ?thesis using F(1) False pos(2) by (simp add: seg_find_def)
  qed
qed

lemma two_parts:
  assumes D: "seg_dict M d" and len: "len \<le> length s" and I: "seg_inv d s len p0 (Two pos fl fpos sl spos) p"
  shows "pos \<le> len" "match d s len pos fl fpos" "match d s len pos sl spos" "fpos \<le> len" "spos \<le> len" "pos < fpos"
    "fl < m_lmpos d" "sl < m_lmpos d" "fpos = pos + m_length (m_lemmalist d fl)" "spos = pos + m_length (m_lemmalist d sl)"
proof -
  show m: "pos \<le> len" "match d s len pos fl fpos" "match d s len pos sl spos" using I by (simp_all add: seg_inv_def)
  note f = match_ok [OF D m(2,1) len] and sl = match_ok [OF D m(3,1) len]
  show "fpos \<le> len" "spos \<le> len" "pos < fpos" "fl < m_lmpos d" "sl < m_lmpos d"
    "fpos = pos + m_length (m_lemmalist d fl)" "spos = pos + m_length (m_lemmalist d sl)" using f sl by simp_all
qed

lemma two_ch_ok:
  assumes D: "seg_dict M d" and len: "len \<le> length s" and nm: "no_manwords d"
    and I: "seg_inv d s len p0 (Two pos fl fpos sl spos) p"
  shows "step_ok d s len p0 (Two pos fl fpos sl spos) (seg_two_ch d s len pos fl fpos sl spos p)"
proof -
  note P = two_parts [OF D len I]
  obtain r ft fpos' st2 spos' where B: "scw_backtrack d s len fl fpos sl spos = Some (r, ft, fpos', st2, spos')"
    "ft \<noteq> LEMMA_NULL \<Longrightarrow> match d s len fpos ft fpos'" "st2 \<noteq> LEMMA_NULL \<Longrightarrow> match d s len spos st2 spos'"
    using backtrack_ok [OF D P(4,5,7,8) len] by metis
  have st: "st_ok d s len (seg_at d spos st2 spos')" "st_ok d s len (seg_at d fpos ft fpos')"
    using seg_at_ok [OF D P(5) len B(3)] seg_at_ok [OF D P(4) len B(2)] by simp_all
  show ?thesis
    using append_step_ok [OF D len I _ st(1), of sl] append_step_ok [OF D len I _ st(2), of fl] P B(1)
      take_match_plain [OF nm] by (simp add: seg_two_ch_def)
qed

text \<open>The state after one comparison of the Japanese rule: a shorter prefix of the same place.\<close>

lemma shorter_prefix_ok:
  assumes D: "seg_dict M d" and len: "len \<le> length s" and I: "seg_inv d s len p0 (Two pos fl fpos sl spos) p"
    and l: "l = sl \<and> to = spos \<or> l = fl \<and> to = fpos" and nn: "m_prelm_pos (m_lemmalist d fl) \<noteq> LEMMA_NULL"
  shows "m_length (m_lemmalist d l) \<le> to + m_length (m_lemmalist d (m_prelm_pos (m_lemmalist d fl)))"
    "step_ok d s len p0 (Two pos fl fpos sl spos) (Some (Go (Two pos (m_prelm_pos (m_lemmalist d fl))
       (to + m_length (m_lemmalist d (m_prelm_pos (m_lemmalist d fl))) - m_length (m_lemmalist d l)) l to) p))"
proof -
  note P = two_parts [OF D len I]
  let ?q = "m_prelm_pos (m_lemmalist d fl)"
  note m = match_ok(8) [OF D P(2,1) len nn]
  have to: "to = pos + m_length (m_lemmalist d l)" "match d s len pos l to" using l P by auto
  have eq: "to + m_length (m_lemmalist d ?q) - m_length (m_lemmalist d l) = pos + m_length (m_lemmalist d ?q)"
    using to(1) by simp
  show "m_length (m_lemmalist d l) \<le> to + m_length (m_lemmalist d ?q)" using to(1) by simp
  have "seg_inv d s len p0 (Two pos ?q (pos + m_length (m_lemmalist d ?q)) l to) p"
    using I m to(2) P(1) by (simp add: seg_inv_def)
  moreover have "fmm_measure len (Two pos ?q (pos + m_length (m_lemmalist d ?q)) l to) < fmm_measure len (Two pos fl fpos sl spos)"
    using m P(9) by (simp add: fmm_measure_def st_measure_def)
  ultimately show "step_ok d s len p0 (Two pos fl fpos sl spos) (Some (Go (Two pos ?q
       (to + m_length (m_lemmalist d ?q) - m_length (m_lemmalist d l)) l to) p))"
    unfolding eq by (auto simp: step_ok_def)
qed

lemma two_jp_ok:
  assumes D: "seg_dict M d" and len: "len \<le> length s" and I: "seg_inv d s len p0 (Two pos fl fpos sl spos) p"
  shows "step_ok d s len p0 (Two pos fl fpos sl spos) (seg_two_jp d s len pos fl fpos sl spos p)"
proof -
  note P = two_parts [OF D len I]
  obtain r ft fpos' st2 spos' where B: "scw_backtrack d s len fl fpos sl spos = Some (r, ft, fpos', st2, spos')"
    using backtrack_ok [OF D P(4,5,7,8) len] by metis
  have st: "st_ok d s len (Find spos)" "st_ok d s len (Find fpos)" using P by simp_all
  note S = shorter_prefix_ok [OF D len I, of sl spos] shorter_prefix_ok [OF D len I, of fl fpos]
  show ?thesis
    using append_step_ok [OF D len I _ st(1), of sl] append_step_ok [OF D len I _ st(2), of fl] P B(1) S
    by (simp add: seg_two_jp_def c_assert_def Let_def)
qed

lemma choose_ok:
  assumes D: "seg_dict M d" and len: "len \<le> length s" "no_nul s len" and nm: "no_manwords d"
    and I: "seg_inv d s len p0 st p"
  shows "step_ok d s len p0 st (seg_choose d s len st p)"
proof (cases st)
  case (Find pos)
  then show ?thesis using find_ok [OF D len] I by simp
next
  case (One pos sl spos)
  then have m: "match d s len (st_pos st) sl spos" "pos \<le> len" using I by (simp_all add: seg_inv_def)
  then have P: "sl < m_lmpos d" "spos \<le> len" using match_ok(2,3) [OF D, of s len pos sl spos] len(1) One by simp_all
  have "step_ok d s len p0 st (append_then d p sl (Find spos))"
    by (rule append_step_ok [OF D len(1) I m(1)]) (use P(2) in simp_all)
  then show ?thesis using One take_match_plain [OF nm P(1)] by simp
next
  case (Two pos fl fpos sl spos)
  then show ?thesis using two_ch_ok [OF D len(1) nm] two_jp_ok [OF D len(1)] I by simp
qed

lemma after_recg_ok:
  assumes D: "seg_dict M d" and len: "len \<le> length s" and R: "recg_done d s len p0 st out"
    and k: "\<And>q. seg_inv d s len p0 st q \<Longrightarrow> step_ok d s len p0 st (k q)"
  shows "step_ok d s len p0 st (after_recg out k)"
proof -
  obtain r q np where o: "out = Some (r, q, np)"
    "r = 1 \<and> seg_inv d s len p0 (Find np) q \<and> st_measure len (Find np) < st_measure len st \<or>
      r = 0 \<and> seg_inv d s len p0 st q \<or> r = -1" using R by (auto simp: recg_done_def)
  then show ?thesis
    using step_ok_go [OF _ _ D len, of p0 "Find np" q st] k [of q]
    by (auto simp: after_recg_def step_ok_def [of d s len p0 st "Some (Halt (-1) q)"] seg_end_def)
qed

text \<open>
  The recognisers that have the contract. \<open>A\<close> is what remains to be known of the recogniser of
  letters and digits.
\<close>

lemma seg_recg_ok:
  assumes D: "seg_dict M d" and len: "len \<le> length s" "no_nul s len" and g: "no_nul_terms d"
      "m_wdtype d AND SCW_WD_JP \<noteq> 0 \<longrightarrow> kana_dict d"
    and A: "recg_done d s len p0 st (proc_ascii d p s len (st_pos st) spos sl)"
    and I: "seg_inv d s len p0 st p" and m: "match d s len (st_pos st) sl spos"
  shows "recg_done d s len p0 st (seg_recg d s len (st_pos st) sl spos p)"
proof -
  have c: "recg_done d s len p0 st (proc_cnum d p s len (st_pos st) spos)"
    by (rule cnum.step_in_loop [OF D g(1) len I m]) (auto simp: recg_done_def)
  have j: "recg_done d s len p0 st (proc_pajm d p s len (st_pos st) spos)" if "m_wdtype d AND SCW_WD_JP \<noteq> 0"
    by (rule pajm.step_in_loop [OF D g(2) [rule_format, OF that] len I m]) (auto simp: recg_done_def)
  have n: "recg_done d s len p0 st (Some (0, p, 0))" using I by (simp add: recg_done_def)
  show ?thesis using A c j n by (simp add: seg_recg_def Let_def)
qed

lemma fmm_step_ok:
  assumes D: "seg_dict M d" and len: "len \<le> length s" "no_nul s len" and g: "no_nul_terms d"
      "m_wdtype d AND SCW_WD_JP \<noteq> 0 \<longrightarrow> kana_dict d" and nm: "no_manwords d"
    and A: "\<And>st p sl spos. seg_inv d s len p0 st p \<Longrightarrow> match d s len (st_pos st) sl spos \<Longrightarrow>
      recg_done d s len p0 st (proc_ascii d p s len (st_pos st) spos sl)"
    and I: "seg_inv d s len p0 st p"
  shows "step_ok d s len p0 st (fmm_step d s len st p)"
proof (cases st)
  case (Find pos)
  then show ?thesis using choose_ok [OF D len nm I] by simp
next
  case (One pos sl spos)
  then have m: "match d s len (st_pos st) sl spos" using I by (simp add: seg_inv_def)
  note R = seg_recg_ok [OF D len g A [OF I m] I m]
  have "step_ok d s len p0 st (after_recg (seg_recg d s len (st_pos st) sl spos p) (seg_choose d s len st))"
    by (rule after_recg_ok [OF D len(1) R]) (rule choose_ok [OF D len nm])
  then show ?thesis using One by (simp del: seg_choose.simps)
next
  case (Two pos fl fpos sl spos)
  then have m: "match d s len (st_pos st) sl spos" using I by (simp add: seg_inv_def)
  note R = seg_recg_ok [OF D len g A [OF I m] I m]
  have "step_ok d s len p0 st (after_recg (seg_recg d s len (st_pos st) sl spos p) (seg_choose d s len st))"
    by (rule after_recg_ok [OF D len(1) R]) (rule choose_ok [OF D len nm])
  then show ?thesis using Two by (simp del: seg_choose.simps)
qed

lemma fmm_loop_done:
  assumes D: "seg_dict M d" and len: "len \<le> length s" "no_nul s len" and g: "no_nul_terms d"
      "m_wdtype d AND SCW_WD_JP \<noteq> 0 \<longrightarrow> kana_dict d" and nm: "no_manwords d"
    and A: "\<And>st p sl spos. seg_inv d s len p0 st p \<Longrightarrow> match d s len (st_pos st) sl spos \<Longrightarrow>
      recg_done d s len p0 st (proc_ascii d p s len (st_pos st) spos sl)"
    and w: "wf_inner d p0"
  shows "\<exists>r q. seg_loop (fmm_step d s len) (Find 0) p0 = Some (r, q) \<and> seg_end d s len p0 r q"
proof (rule seg_loop_total [where I = "seg_inv d s len p0" and m = "fmm_measure len"])
  show "seg_inv d s len p0 (Find 0) p0" using w by (simp add: seg_inv_def)
qed (use fmm_step_ok [OF D len g nm A] in \<open>simp add: step_ok_def\<close>)

lemma no_ascii_recg:
  assumes "no_ascii s len" "seg_inv d s len p0 st p"
  shows "recg_done d s len p0 st (proc_ascii d p s len (st_pos st) spos sl)"
proof -
  have "len \<le> st_pos st \<or> is_my_ascii s (st_pos st) = 0" using assms(1) unfolding no_ascii_def by (meson not_less)
  then show ?thesis using assms(2) by (auto simp: proc_ascii_def recg_done_def)
qed

subsection \<open>Properties\<close>

text \<open>
  C23 \<open>scw_seg_fmm\<close> segments: on text without NUL bytes and without runs of letters and digits,
  with a consistent dictionary, the loop always ends; it returns 1 with a well-formed result
  that has grown by entries spelling exactly the text, whatever the dictionary knows of it, or
  -1 (an array is full). The switch for numbers with units and the removal of tags are off, and
  no lemma is a controlled word; in a Japanese dictionary every katakana character is a lemma.
\<close>

theorem seg_fmm_segments:
  assumes "seg_dict M d" "wf_inner d p" "len \<le> length s" "no_nul s len" "no_ascii s len"
    and "no_nul_terms d" "no_manwords d" "m_wdtype d AND SCW_WD_JP \<noteq> 0 \<longrightarrow> kana_dict d"
    and "\<not> so_tn opts" "\<not> so_needremove opts"
  shows "\<exists>r q. scw_seg_fmm d opts p s len = Some (r, q) \<and>
    (r = 1 \<and> wf_inner d q \<and> seg_text d q = seg_text d p @ map of_char (take len s) \<and>
       (\<forall>i < m_ppseg_cnt p. m_ppseg q i = m_ppseg p i) \<or> r = -1)"
proof -
  obtain r q where "seg_loop (fmm_step d s len) (Find 0) p = Some (r, q)" "seg_end d s len p r q"
    using fmm_loop_done [OF assms(1,3,4,6,8,7) no_ascii_recg [OF assms(5)] assms(2)] by blast
  then show ?thesis using assms(9,10)
    by (intro exI [of _ r] exI [of _ q]) (auto simp: scw_seg_fmm_def seg_end_def appended_def slice_def)
qed

theorem seg_fmm_segments_witness:
  "\<exists>r q. scw_seg_fmm sample_dict \<lparr>so_tn = False, so_needremove = False, so_protect = []\<rparr> sample_inner
     [char_of (0xb0 :: nat), char_of (0xa1 :: nat)] 2 = Some (r, q) \<and> r \<in> {1, -1}"
proof -
  let ?s = "[char_of (0xb0 :: nat), char_of (0xa1 :: nat)]"
  let ?o = "\<lparr>so_tn = False, so_needremove = False, so_protect = []\<rparr>"
  have S: "seg_dict 1000000 sample_dict"
    by (rule basic_dict_seg_dict [OF built_basic [OF built.create [OF sample_dict_create]]]) simp
  have n: "no_nul ?s 2" by (auto simp: no_nul_def less_2_cases_iff)
  have "is_my_ascii ?s 0 = 0" "is_my_ascii ?s 1 = 0"
    by (simp_all add: is_my_ascii_def IS_GB_1234_def IS_GB_ABCD_def IN_RANGE_def al_num_map_def)
  then have a: "no_ascii ?s 2" by (auto simp: no_ascii_def less_2_cases_iff)
  have t: "no_nul_terms sample_dict" using fresh_lookup [OF sample_dict_create] by (simp add: no_nul_terms_def)
  have m: "no_manwords sample_dict" by (simp add: no_manwords_def sample_dict_eval)
  have j: "m_wdtype sample_dict AND SCW_WD_JP \<noteq> 0 \<longrightarrow> kana_dict sample_dict" by (simp add: sample_dict_eval)
  show ?thesis
    using seg_fmm_segments [OF S sample_inner_wf _ n a t m j, of ?o] by auto
qed

end
