(* ===== verification/Checked.thy ===== *)
theory Checked
  imports Main "HOL-Library.Monad_Syntax"
begin

unbundle bit_operations_syntax

text \<open>
  Checked arithmetic and memory of C, for the programs that are not part of the segmenter: a signed
  overflow and an access outside an array are \<open>None\<close>; a loop over indices that threads its state.
\<close>

definition i32 :: "int \<Rightarrow> int option" where
  "i32 x = (if -2147483648 \<le> x \<and> x < 2147483648 then Some x else None)"

definition rd :: "'a list \<Rightarrow> int \<Rightarrow> 'a option" where
  "rd a i = (if 0 \<le> i \<and> i < int (length a) then Some (a ! nat i) else None)"

text \<open>A loop over a list of indices that threads the state.\<close>

primrec floop :: "('x \<Rightarrow> 's \<Rightarrow> 's option) \<Rightarrow> 'x list \<Rightarrow> 's \<Rightarrow> 's option" where
  "floop f [] s = Some s"
| "floop f (x # xs) s = do { s1 \<leftarrow> f x s; floop f xs s1 }"

lemma floop_append: "floop f (xs @ ys) s = do { s1 \<leftarrow> floop f xs s; floop f ys s1 }"
  by (induction xs arbitrary: s) (auto split: Option.bind_splits)

text \<open>The rule of the loop over \<open>0, \<dots>, n - 1\<close>.\<close>

lemma floop_upt:
  assumes "P 0 s" "\<And>k s. k < n \<Longrightarrow> P k s \<Longrightarrow> \<exists>s'. f k s = Some s' \<and> P (Suc k) s'"
  shows "\<exists>s'. floop f [0..<n] s = Some s' \<and> P n s'"
  using assms(2)
proof (induction n)
  case (Suc n)
  then obtain s1 where s1: "floop f [0..<n] s = Some s1" "P n s1" by (meson less_SucI)
  then obtain s2 where "f n s1 = Some s2" "P (Suc n) s2" using Suc.prems [of n s1] by auto
  then show ?case using s1 by (simp add: floop_append)
qed (use assms(1) in simp)

text \<open>A length in the high bits of a word and a position in its low 24 bits, and back.\<close>

lemma packed_length: "drop_bit 24 (push_bit 24 len OR (pos AND 16777215)) = (len :: nat)"
proof -
  have m: "(16777215 :: nat) = mask 24" by (simp add: mask_eq_exp_minus_1)
  show ?thesis unfolding m take_bit_eq_mask [symmetric] by (rule bit_eqI) (simp add: bit_simps)
qed

lemma packed_position: "pos < 16777216 \<Longrightarrow> (push_bit 24 len OR (pos AND 16777215)) AND 16777215 = (pos :: nat)"
proof -
  assume "pos < 16777216"
  then have p: "take_bit 24 pos = pos" by (simp add: take_bit_nat_eq_self)
  have m: "(16777215 :: nat) = mask 24" by (simp add: mask_eq_exp_minus_1)
  have "take_bit 24 (push_bit 24 len OR take_bit 24 pos) = take_bit 24 pos"
    by (rule bit_eqI) (auto simp: bit_simps)
  then show ?thesis unfolding m take_bit_eq_mask [symmetric] p .
qed

end
