(* ===== verification/SegOut.thy ===== *)
theory SegOut
  imports Phrase Checked "HOL-Library.Multiset"
begin

text \<open>
  The output buffers of \<open>segout.cpp\<close>: the result of a segmentation is written, separated by tabs, to
  up to five buffers (basic words, merged words, subphrases, names, book titles), and may be copied
  or written directly to an item. The basic words of a result spell its text, and the two ways to
  write them agree. The subphrases of a phrase are written sorted by place and length.
\<close>

subsection \<open>The buffers\<close>

definition SCW_OUT_PROP :: nat where "SCW_OUT_PROP = 1"
definition SCW_OUT_BASIC :: nat where "SCW_OUT_BASIC = 2"
definition SCW_OUT_WPCOMP :: nat where "SCW_OUT_WPCOMP = 4"
definition SCW_OUT_SUBPH :: nat where "SCW_OUT_SUBPH = 8"
definition SCW_OUT_HUMANNAME :: nat where "SCW_OUT_HUMANNAME = 16"
definition SCW_OUT_BOOKNAME :: nat where "SCW_OUT_BOOKNAME = 32"
definition SCW_OUT_NEWWORD :: nat where "SCW_OUT_NEWWORD = 64"

lemmas out_levels = SCW_OUT_PROP_def SCW_OUT_BASIC_def SCW_OUT_WPCOMP_def SCW_OUT_SUBPH_def SCW_OUT_HUMANNAME_def
  SCW_OUT_BOOKNAME_def SCW_OUT_NEWWORD_def

definition wants :: "nat \<Rightarrow> nat \<Rightarrow> bool" where
  "wants flag level \<longleftrightarrow> flag AND level \<noteq> 0"

definition GET_TERM_POS :: "nat \<Rightarrow> nat" where "GET_TERM_POS p = p AND 16777215"
definition GET_TERM_LEN :: "nat \<Rightarrow> nat" where "GET_TERM_LEN p = drop_bit 24 p"

text \<open>\<open>len << 24 | pos & 0x00FFFFFF\<close>, in a word of 32 bits.\<close>

definition term_place :: "nat \<Rightarrow> nat \<Rightarrow> nat" where
  "term_place len pos = take_bit 32 (push_bit 24 len OR (pos AND 16777215))"

text \<open>
  One of the five groups of fields of \<open>scw_out_t\<close>: the bytes, the number of terms, their places,
  offsets and properties. A group that was not asked for is not allocated and has size 0.
\<close>

record out_buf =
  ob_size :: nat
  ob_cur :: nat
  ob_count :: nat
  ob_bytes :: "nat buf"
  ob_pos :: "nat buf"
  ob_off :: "nat buf"
  ob_prop :: "scw_property buf"

record scw_out =
  so_basic :: out_buf
  so_total :: nat
  so_wpcomp :: out_buf
  so_subph :: out_buf
  so_name :: out_buf
  so_book :: out_buf
  so_merge :: out_buf
  so_phrase_merged :: nat
  m_pir :: scw_inner

definition no_buf :: out_buf where
  "no_buf = \<lparr>ob_size = 0, ob_cur = 0, ob_count = 0, ob_bytes = (\<lambda>_. 0), ob_pos = (\<lambda>_. 0), ob_off = (\<lambda>_. 0),
     ob_prop = (\<lambda>_. INIT_PROPERTY)\<rparr>"

text \<open>Allocating a group; \<open>M\<close> limits the memory.\<close>

definition alloc_buf :: "nat \<Rightarrow> nat \<Rightarrow> bool \<Rightarrow> bool \<Rightarrow> out_buf option" where
  "alloc_buf M maxterm wanted props =
     (if \<not> wanted then Some no_buf
      else if realloc_ok M (maxterm * 10) 1 \<and> realloc_ok M maxterm 4 \<and> (props \<longrightarrow> realloc_ok M maxterm 8)
      then Some (no_buf\<lparr>ob_size := maxterm * 10\<rparr>) else None)"

definition scw_create_out :: "nat \<Rightarrow> nat \<Rightarrow> nat \<Rightarrow> scw_out option" where
  "scw_create_out M maxterm flag = (let a = (\<lambda>level. alloc_buf M maxterm (wants flag level) (wants flag SCW_OUT_PROP)) in do {
     b \<leftarrow> a SCW_OUT_BASIC;
     w \<leftarrow> a SCW_OUT_WPCOMP;
     s \<leftarrow> a SCW_OUT_SUBPH;
     n \<leftarrow> a SCW_OUT_HUMANNAME;
     k \<leftarrow> a SCW_OUT_BOOKNAME;
     m \<leftarrow> alloc_buf M maxterm True False;
     p \<leftarrow> scw_create_inner M maxterm flag;
     Some \<lparr>so_basic = b, so_total = 0, so_wpcomp = w, so_subph = s, so_name = n, so_book = k, so_merge = m,
       so_phrase_merged = 0, m_pir = p\<rparr> })"

definition reset_buf :: "out_buf \<Rightarrow> out_buf" where
  "reset_buf b = b\<lparr>ob_bytes := (ob_bytes b)(0 := 9, 1 := 0), ob_cur := 1, ob_count := 0\<rparr>"

definition reset_out :: "bool \<Rightarrow> scw_out \<Rightarrow> scw_out" where
  "reset_out reset_pir o1 = (let flag = m_flag (m_pir o1); at = (\<lambda>level b. if wants flag level then reset_buf b else b) in
     o1\<lparr>m_pir := (if reset_pir then reset_inner (m_pir o1) else m_pir o1),
       so_basic := at SCW_OUT_BASIC (so_basic o1),
       so_total := (if wants flag SCW_OUT_BASIC then 0 else so_total o1),
       so_wpcomp := at SCW_OUT_WPCOMP (so_wpcomp o1), so_subph := at SCW_OUT_SUBPH (so_subph o1),
       so_name := at SCW_OUT_HUMANNAME (so_name o1), so_book := at SCW_OUT_BOOKNAME (so_book o1),
       so_merge := reset_buf (so_merge o1), so_phrase_merged := 0\<rparr>)"

subsection \<open>Appending a term\<close>

text \<open>
  What \<open>strcpy\<close> writes, and what \<open>strncpy\<close> writes when it is given the length: it stops at a NUL and
  fills the rest with zeros.
\<close>

definition strcpy_bytes :: "nat list \<Rightarrow> nat list" where
  "strcpy_bytes b = takeWhile (\<lambda>c. c \<noteq> 0) b @ [0]"

definition strncpy_bytes :: "nat list \<Rightarrow> nat list" where
  "strncpy_bytes b = (let s = takeWhile (\<lambda>c. c \<noteq> 0) b in s @ replicate (length b - length s) 0)"

text \<open>One of the five branches; \<open>bs\<close> is the text and \<open>copy\<close> the bytes written for it.\<close>

definition append_to :: "nat \<Rightarrow> nat list \<Rightarrow> nat list \<Rightarrow> nat \<Rightarrow> out_buf \<Rightarrow> int \<times> out_buf" where
  "append_to maxterm bs copy off b = (let len = length bs; c = ob_count b; cur = ob_cur b in
     if cur + len + 1 \<ge> ob_size b \<or> c + 1 > maxterm then (-1, b)
     else if ob_bytes b cur \<noteq> 0 then (-1, b)
     else (1, b\<lparr>ob_pos := (ob_pos b)(c := term_place len cur),
       ob_bytes := put_list (put_list (ob_bytes b) cur copy) (cur + len) [9, 0],
       ob_cur := cur + len + 1, ob_off := (ob_off b)(c := off), ob_count := c + 1\<rparr>))"

definition append_out_buf :: "scw_out \<Rightarrow> nat list \<Rightarrow> nat \<Rightarrow> nat \<Rightarrow> int \<times> scw_out" where
  "append_out_buf o1 bs off type = (let mt = m_maxterm (m_pir o1) in
     if wants type SCW_OUT_BASIC then
       (case append_to mt bs (strncpy_bytes bs) (so_total o1) (so_basic o1) of (r, b) \<Rightarrow>
         if r < 0 then (-1, o1) else (1, o1\<lparr>so_basic := b, so_total := so_total o1 + length bs\<rparr>))
     else if wants type SCW_OUT_WPCOMP then
       (case append_to mt bs (strcpy_bytes bs) off (so_wpcomp o1) of (r, b) \<Rightarrow>
         if r < 0 then (-1, o1) else (1, o1\<lparr>so_wpcomp := b\<rparr>))
     else if wants type SCW_OUT_SUBPH then
       (case append_to mt bs (strcpy_bytes bs) off (so_subph o1) of (r, b) \<Rightarrow>
         if r < 0 then (-1, o1) else (1, o1\<lparr>so_subph := b\<rparr>))
     else if wants type SCW_OUT_HUMANNAME then
       (case append_to mt bs (strcpy_bytes bs) off (so_name o1) of (r, b) \<Rightarrow>
         if r < 0 then (-1, o1) else (1, o1\<lparr>so_name := b\<rparr>))
     else if wants type SCW_OUT_BOOKNAME then
       (case append_to mt bs (strcpy_bytes bs) off (so_book o1) of (r, b) \<Rightarrow>
         if r < 0 then (-1, o1) else (1, o1\<lparr>so_book := b\<rparr>))
     else (-1, o1))"

text \<open>\<open>memcpy(&...prop[count - 1], ...)\<close>.\<close>

definition put_prop :: "scw_property \<Rightarrow> out_buf \<Rightarrow> out_buf" where
  "put_prop pr b = b\<lparr>ob_prop := (ob_prop b)(ob_count b - 1 := pr)\<rparr>"

definition put_out_prop :: "nat \<Rightarrow> scw_property \<Rightarrow> scw_out \<Rightarrow> scw_out" where
  "put_out_prop type pr o1 =
     (if type = SCW_OUT_BASIC then o1\<lparr>so_basic := put_prop pr (so_basic o1)\<rparr>
      else if type = SCW_OUT_WPCOMP then o1\<lparr>so_wpcomp := put_prop pr (so_wpcomp o1)\<rparr>
      else if type = SCW_OUT_SUBPH then o1\<lparr>so_subph := put_prop pr (so_subph o1)\<rparr>
      else if type = SCW_OUT_HUMANNAME then o1\<lparr>so_name := put_prop pr (so_name o1)\<rparr>
      else o1\<lparr>so_book := put_prop pr (so_book o1)\<rparr>)"

text \<open>Reading the text of a lemma, appending it and storing its property.\<close>

definition put_lemma :: "scw_worddict \<Rightarrow> nat \<Rightarrow> scw_out \<Rightarrow> lmref \<Rightarrow> nat \<Rightarrow> (int \<times> scw_out) option" where
  "put_lemma d type o1 r off = do {
     (len, bs) \<leftarrow> get_lmstr d (m_pir o1) (Some r) MAX_WORD_LEN;
     if len < 0 then Some (-1, o1)
     else (case append_out_buf o1 bs off type of (e, o2) \<Rightarrow>
       if e < 0 then Some (-1, o2)
       else Some (0, if wants (m_flag (m_pir o1)) SCW_OUT_PROP
         then put_out_prop type (m_property (deref d (m_pir o1) r)) o2 else o2)) }"

subsection \<open>The basic words of a lemma\<close>

text \<open>
  \<open>append_buf_bword\<close> and \<open>append_buf_bword_item\<close> differ in how a term is put, so \<open>put\<close> is an argument
  of what they share.
\<close>

definition u32_add :: "nat \<Rightarrow> int \<Rightarrow> nat" where
  "u32_add off step = nat ((int off + step) mod 4294967296)"

fun static_parts :: "('s \<Rightarrow> lmref \<Rightarrow> nat \<Rightarrow> (int \<times> 's) option) \<Rightarrow> 's \<Rightarrow> nat list \<Rightarrow> nat \<Rightarrow> (int \<times> 's) option" where
  "static_parts put s [] off = Some (0, s)"
| "static_parts put s (l # ls) off = do {
     (e, s1) \<leftarrow> put s (Static l) off;
     if e < 0 then Some (-1, s1) else static_parts put s1 ls (u32_add off 1) }"

fun dynamic_parts :: "('s \<Rightarrow> lmref \<Rightarrow> nat \<Rightarrow> (int \<times> 's) option) \<Rightarrow> scw_worddict \<Rightarrow> scw_inner \<Rightarrow> 's \<Rightarrow> lmref list \<Rightarrow> nat \<Rightarrow> nat \<Rightarrow>
    (int \<times> 's) option" where
  "dynamic_parts put d p s [] off i = Some (0, s)"
| "dynamic_parts put d p s (r # rs) off i = do {
     (e, s1) \<leftarrow> put s r (u32_add off (int i));
     if e < 0 then Some (-1, s1)
     else do { step \<leftarrow> get_lmoff_step d p (Some r); dynamic_parts put d p s1 rs (u32_add off step) (i + 1) } }"

definition append_bword :: "('s \<Rightarrow> lmref \<Rightarrow> nat \<Rightarrow> (int \<times> 's) option) \<Rightarrow> scw_worddict \<Rightarrow> scw_inner \<Rightarrow> 's \<Rightarrow> lmref \<Rightarrow> nat \<Rightarrow>
    (int \<times> 's) option" where
  "append_bword put d p s r off = (let lm = deref d p r in
     if m_type lm = LEMMA_TYPE_SBASIC \<or> m_type lm = LEMMA_TYPE_DBASIC then put s r off
     else if m_type lm = LEMMA_TYPE_SPHRASE then static_parts put s (phrase_parts d lm) off
     else if m_type lm = LEMMA_TYPE_DPHRASE then do { rs \<leftarrow> dyn_parts p lm; dynamic_parts put d p s rs off 0 }
     else Some (-1, s))"

definition append_buf_bword :: "scw_worddict \<Rightarrow> scw_out \<Rightarrow> lmref \<Rightarrow> nat \<Rightarrow> (int \<times> scw_out) option" where
  "append_buf_bword d o1 r off = append_bword (put_lemma d SCW_OUT_BASIC) d (m_pir o1) o1 r off"

definition append_buf_wpcomp :: "scw_worddict \<Rightarrow> scw_out \<Rightarrow> lmref \<Rightarrow> nat \<Rightarrow> (int \<times> scw_out) option" where
  "append_buf_wpcomp d o1 r off = put_lemma d SCW_OUT_WPCOMP o1 r off"

subsection \<open>Subphrases\<close>

text \<open>The subphrases of a phrase with their offsets.\<close>

fun cell_subs :: "phcell list \<Rightarrow> (nat \<times> lmref) list option" where
  "cell_subs (a # c # cs) = do { n \<leftarrow> cell_num a; r \<leftarrow> cell_ref c; rest \<leftarrow> cell_subs cs; Some ((n, r) # rest) }"
| "cell_subs [] = Some []"
| "cell_subs [c] = None"

definition sub_refs :: "scw_worddict \<Rightarrow> scw_inner \<Rightarrow> scw_lemma \<Rightarrow> (nat \<times> lmref) list option" where
  "sub_refs d p lm = (let bpos = m_subphinfo_bpos lm in
     if m_type lm = LEMMA_TYPE_SPHRASE then
       Some (map (\<lambda>i. (m_phinfo d (bpos + i * 2 + 1), Static (m_phinfo d (bpos + i * 2 + 2)))) [0..<m_phinfo d bpos])
     else do {
       n \<leftarrow> dyn_count p bpos;
       c_assert (bpos + 2 * n < m_dynph_size p);
       cell_subs (get_list (m_dynphinfo p) (bpos + 1) (2 * n)) })"

text \<open>
  The insertion sort of the marks (offset, length, lemma), written from the end of the array: by the
  offset, and longer ones first among equal offsets.
\<close>

type_synonym mark = "nat \<times> nat \<times> lmref"

fun put_mark :: "mark \<Rightarrow> mark list \<Rightarrow> mark list" where
  "put_mark x [] = [x]"
| "put_mark x (m # ms) =
     (if fst m = fst x then (if fst (snd x) \<le> fst (snd m) then x # m # ms else m # put_mark x ms)
      else if fst m < fst x then x # m # ms
      else m # put_mark x ms)"

fun sort_marks :: "scw_worddict \<Rightarrow> scw_inner \<Rightarrow> (nat \<times> lmref) list \<Rightarrow> mark list \<Rightarrow> (int \<times> mark list) option" where
  "sort_marks d p [] ms = Some (0, rev ms)"
| "sort_marks d p ((newoff, r) # subs) ms = do {
     (len, _) \<leftarrow> get_lmstr d p (Some r) MAX_WORD_LEN;
     if len < 0 then Some (-1, []) else sort_marks d p subs (put_mark (newoff, nat len, r) ms) }"

fun put_subs :: "('s \<Rightarrow> lmref \<Rightarrow> nat \<Rightarrow> (int \<times> 's) option) \<Rightarrow> 's \<Rightarrow> (nat \<times> lmref) list \<Rightarrow> nat \<Rightarrow> (int \<times> 's) option" where
  "put_subs put s [] off = Some (0, s)"
| "put_subs put s ((o1, r) # subs) off = do {
     (e, s1) \<leftarrow> put s r (u32_add off (int o1));
     if e < 0 then Some (-1, s1) else put_subs put s1 subs off }"

definition is_name_phrase :: "scw_lemma \<Rightarrow> bool" where
  "is_name_phrase lm \<longleftrightarrow> IS_HUMAN_NAME (m_property lm) \<and> IS_PHRASE (m_property lm)"

definition append_buf_subph :: "scw_worddict \<Rightarrow> scw_out \<Rightarrow> lmref \<Rightarrow> nat \<Rightarrow> (int \<times> scw_out) option" where
  "append_buf_subph d o1 r off = (let p = m_pir o1; lm = deref d p r; put = put_lemma d SCW_OUT_SUBPH in
     if is_name_phrase lm then put o1 r off
     else if m_type lm = LEMMA_TYPE_SBASIC \<or> m_type lm = LEMMA_TYPE_DBASIC then Some (0, o1)
     else if m_type lm = LEMMA_TYPE_SPHRASE \<or> m_type lm = LEMMA_TYPE_DPHRASE then do {
       (e, o2) \<leftarrow> put o1 r off;
       if e < 0 then Some (-1, o2)
       else if m_subphinfo_bpos lm = COMMON_NULL then Some (0, o2)
       else do {
         subs \<leftarrow> sub_refs d p lm;
         (e1, ms) \<leftarrow> sort_marks d p subs [];
         if e1 < 0 then Some (-1, o2) else put_subs put o2 (map (\<lambda>(o1, _, r). (o1, r)) ms) off } }
     else Some (-1, o1))"

text \<open>The names among the subphrases of a lemma that is no name itself.\<close>

definition name_subs :: "scw_worddict \<Rightarrow> scw_inner \<Rightarrow> (nat \<times> lmref) list \<Rightarrow> (nat \<times> lmref) list" where
  "name_subs d p subs = filter (\<lambda>s. IS_HUMAN_NAME (m_property (deref d p (snd s)))) subs"

definition append_humanname :: "('s \<Rightarrow> lmref \<Rightarrow> nat \<Rightarrow> (int \<times> 's) option) \<Rightarrow> scw_worddict \<Rightarrow> scw_inner \<Rightarrow> 's \<Rightarrow> lmref \<Rightarrow> nat \<Rightarrow>
    (int \<times> 's) option" where
  "append_humanname put d p s r off = (let lm = deref d p r in
     if IS_HUMAN_NAME (m_property lm) then put s r off
     else if m_subphinfo_bpos lm \<noteq> COMMON_NULL \<and> (m_type lm = LEMMA_TYPE_SPHRASE \<or> m_type lm = LEMMA_TYPE_DPHRASE) then do {
       subs \<leftarrow> sub_refs d p lm; put_subs put s (name_subs d p subs) off }
     else Some (0, s))"

definition append_buf_humanname :: "scw_worddict \<Rightarrow> scw_out \<Rightarrow> lmref \<Rightarrow> nat \<Rightarrow> (int \<times> scw_out) option" where
  "append_buf_humanname d o1 r off = append_humanname (put_lemma d SCW_OUT_HUMANNAME) d (m_pir o1) o1 r off"

definition append_buf_bookname :: "scw_worddict \<Rightarrow> scw_out \<Rightarrow> lmref \<Rightarrow> nat \<Rightarrow> (int \<times> scw_out) option" where
  "append_buf_bookname d o1 r off =
     (if IS_BOOKNAME (m_property (deref d (m_pir o1) r)) then put_lemma d SCW_OUT_BOOKNAME o1 r off else Some (0, o1))"

subsection \<open>Writing the result\<close>

text \<open>The steps for one entry, as far as the flags ask for them.\<close>

definition when_wanted :: "nat \<Rightarrow> (scw_out \<Rightarrow> (int \<times> scw_out) option) \<Rightarrow> scw_out \<Rightarrow> (int \<times> scw_out) option" where
  "when_wanted level f o1 = (if wants (m_flag (m_pir o1)) level then f o1 else Some (0, o1))"

fun first_error :: "('s \<Rightarrow> (int \<times> 's) option) list \<Rightarrow> 's \<Rightarrow> (int \<times> 's) option" where
  "first_error [] s = Some (0, s)"
| "first_error (f # fs) s = do { (e, s1) \<leftarrow> f s; if e < 0 then Some (-1, s1) else first_error fs s1 }"

definition write_entry :: "scw_worddict \<Rightarrow> scw_out \<Rightarrow> lmref \<Rightarrow> nat \<Rightarrow> (int \<times> scw_out) option" where
  "write_entry d o1 r off = first_error
     [when_wanted SCW_OUT_BASIC (\<lambda>o2. append_buf_bword d o2 r off),
      when_wanted SCW_OUT_WPCOMP (\<lambda>o2. append_buf_wpcomp d o2 r off),
      when_wanted SCW_OUT_SUBPH (\<lambda>o2. append_buf_subph d o2 r off),
      when_wanted SCW_OUT_HUMANNAME (\<lambda>o2. append_buf_humanname d o2 r off),
      when_wanted SCW_OUT_BOOKNAME (\<lambda>o2. append_buf_bookname d o2 r off)] o1"

fun write_entries :: "scw_worddict \<Rightarrow> scw_out \<Rightarrow> lmref option list \<Rightarrow> nat \<Rightarrow> (int \<times> scw_out) option" where
  "write_entries d o1 [] off = Some (0, o1)"
| "write_entries d o1 (None # rs) off = write_entries d o1 rs off"
| "write_entries d o1 (Some r # rs) off = do {
     (e, o2) \<leftarrow> write_entry d o1 r off;
     if e < 0 then Some (-1, o2)
     else do { step \<leftarrow> get_lmoff_step d (m_pir o2) (Some r); write_entries d o2 rs (u32_add off step) } }"

text \<open>\<open>pnewword\<close>, the list of new words, is not part of \<open>scw_inner\<close> here; passing its pointer on is left out.\<close>

definition write_buf :: "scw_worddict \<Rightarrow> scw_out \<Rightarrow> (int \<times> scw_out) option" where
  "write_buf d o1 = write_entries d o1 (get_list (m_ppseg (m_pir o1)) 0 (m_ppseg_cnt (m_pir o1))) 0"

subsection \<open>Items\<close>

text \<open>
  \<open>scw_item_t\<close>: one kind of result in arrays of its own, each with \<open>it_cap\<close> cells, or, when it was
  not allocated, in those of the result. \<open>it_prop\<close> is \<open>None\<close> for the null pointer.
\<close>

record scw_item =
  it_bytes :: "nat buf"
  it_size :: nat
  it_cur :: nat
  it_cnt :: nat
  it_pos :: "nat buf"
  it_off :: "nat buf"
  it_prop :: "scw_property buf option"
  it_width :: nat
  it_allocated :: bool
  it_cap :: nat

definition scw_create_item :: "nat \<Rightarrow> nat \<Rightarrow> scw_item option" where
  "scw_create_item M maxterm =
     (if realloc_ok M (maxterm * 10) 1 \<and> realloc_ok M (maxterm * 3) 4 \<and> realloc_ok M (maxterm * 3) 8
      then Some \<lparr>it_bytes = (\<lambda>_. 0), it_size = maxterm * 10, it_cur = 0, it_cnt = 0, it_pos = (\<lambda>_. 0), it_off = (\<lambda>_. 0),
        it_prop = Some (\<lambda>_. INIT_PROPERTY), it_width = 0, it_allocated = True, it_cap = maxterm * 3\<rparr> else None)"

definition scw_reset_item :: "scw_item \<Rightarrow> scw_item" where
  "scw_reset_item it = (if it_size it \<le> 2 then it
     else it\<lparr>it_bytes := (it_bytes it)(0 := 9, 1 := 0), it_cur := 1, it_cnt := 0\<rparr>)"

definition append_item_buf :: "scw_item \<Rightarrow> nat list \<Rightarrow> nat \<Rightarrow> bool \<Rightarrow> (int \<times> scw_item) option" where
  "append_item_buf it bs off isbasic = (let len = length bs; c = it_cnt it; cur = it_cur it; cur' = cur + len + 1 in
     if cur' \<ge> it_size it then Some (-1, it)
     else if it_bytes it cur \<noteq> 0 then Some (-1, it)
     else do {
       c_assert (c < it_cap it);
       Some (1, it\<lparr>it_pos := (it_pos it)(c := term_place len cur),
         it_bytes := put_list (it_bytes it) cur (bs @ [9, 0]), it_cur := cur',
         it_off := (it_off it)(c := if isbasic then u32_add cur' (- int len - 1 - int c) else off),
         it_cnt := c + 1\<rparr>) })"

text \<open>Reading the text of a lemma, appending it to the item and storing its property.\<close>

definition put_item :: "scw_worddict \<Rightarrow> scw_inner \<Rightarrow> bool \<Rightarrow> scw_item \<Rightarrow> lmref \<Rightarrow> nat \<Rightarrow> (int \<times> scw_item) option" where
  "put_item d p isbasic it r off = do {
     (len, bs) \<leftarrow> get_lmstr d p (Some r) MAX_WORD_LEN;
     if len < 0 then Some (-1, it)
     else do {
       (e, it1) \<leftarrow> append_item_buf it bs off isbasic;
       if e < 0 then Some (-1, it1)
       else if wants (m_flag p) SCW_OUT_PROP
       then do { pr \<leftarrow> it_prop it1; Some (0, it1\<lparr>it_prop := Some (pr(it_cnt it1 - 1 := m_property (deref d p r)))\<rparr>) }
       else Some (0, it1) } }"

text \<open>The functions that write an item do nothing for a null lemma or when the item has \<open>m_maxterm\<close> terms.\<close>

definition item_room :: "scw_inner \<Rightarrow> scw_item \<Rightarrow> lmref option \<Rightarrow> (lmref \<Rightarrow> (int \<times> scw_item) option) \<Rightarrow> (int \<times> scw_item) option" where
  "item_room p it pl f = (case pl of None \<Rightarrow> Some (0, it) | Some r \<Rightarrow>
     if it_cnt it + 1 > m_maxterm p then Some (0, it) else f r)"

definition append_buf_bword_item :: "scw_worddict \<Rightarrow> scw_inner \<Rightarrow> scw_item \<Rightarrow> lmref option \<Rightarrow> nat \<Rightarrow> (int \<times> scw_item) option" where
  "append_buf_bword_item d p it pl off = item_room p it pl (\<lambda>r. append_bword (put_item d p True) d p it r off)"

definition append_buf_wpcomp_item :: "scw_worddict \<Rightarrow> scw_inner \<Rightarrow> scw_item \<Rightarrow> lmref option \<Rightarrow> nat \<Rightarrow> (int \<times> scw_item) option" where
  "append_buf_wpcomp_item d p it pl off = item_room p it pl (\<lambda>r. put_item d p False it r off)"

text \<open>Unlike \<open>append_buf_subph\<close>, this function does not sort the subphrases.\<close>

definition append_buf_subph_item :: "scw_worddict \<Rightarrow> scw_inner \<Rightarrow> scw_item \<Rightarrow> lmref option \<Rightarrow> nat \<Rightarrow> (int \<times> scw_item) option" where
  "append_buf_subph_item d p it pl off = item_room p it pl (\<lambda>r. let lm = deref d p r; put = put_item d p False in
     if is_name_phrase lm then put it r off
     else if m_type lm = LEMMA_TYPE_SBASIC \<or> m_type lm = LEMMA_TYPE_DBASIC then Some (0, it)
     else if m_type lm = LEMMA_TYPE_SPHRASE \<or> m_type lm = LEMMA_TYPE_DPHRASE then do {
       (e, it1) \<leftarrow> put it r off;
       if e < 0 then Some (-1, it1)
       else if m_subphinfo_bpos lm = COMMON_NULL then Some (0, it1)
       else do { subs \<leftarrow> sub_refs d p lm; put_subs put it1 subs off } }
     else Some (-1, it))"

definition append_buf_humanname_item :: "scw_worddict \<Rightarrow> scw_inner \<Rightarrow> scw_item \<Rightarrow> lmref option \<Rightarrow> nat \<Rightarrow> (int \<times> scw_item) option" where
  "append_buf_humanname_item d p it pl off = item_room p it pl (\<lambda>r. append_humanname (put_item d p False) d p it r off)"

definition append_buf_bookname_item :: "scw_worddict \<Rightarrow> scw_inner \<Rightarrow> scw_item \<Rightarrow> lmref option \<Rightarrow> nat \<Rightarrow> (int \<times> scw_item) option" where
  "append_buf_bookname_item d p it pl off = item_room p it pl (\<lambda>r.
     if IS_BOOKNAME (m_property (deref d p r)) then put_item d p False it r off else Some (0, it))"

text \<open>The loop over the entries that \<open>scw_get_result\<close> repeats for each level.\<close>

fun item_entries :: "(scw_item \<Rightarrow> lmref option \<Rightarrow> nat \<Rightarrow> (int \<times> scw_item) option) \<Rightarrow> scw_worddict \<Rightarrow> scw_inner \<Rightarrow>
    scw_item \<Rightarrow> lmref option list \<Rightarrow> nat \<Rightarrow> (int \<times> scw_item) option" where
  "item_entries f d p it [] off = Some (1, it)"
| "item_entries f d p it (pl # pls) off = do {
     (e, it1) \<leftarrow> f it pl off;
     if e < 0 then Some (-1, it1)
     else do { step \<leftarrow> get_lmoff_step d p pl; item_entries f d p it1 pls (u32_add off step) } }"

text \<open>
  The new words \<open>nw\<close> of \<open>pnewword\<close> keep two offsets for each term; a result of \<open>append_item_buf\<close> is
  ignored here. \<open>word\<close> has 256 bytes.
\<close>

definition newword_bytes :: "out_buf \<Rightarrow> nat \<Rightarrow> nat list" where
  "newword_bytes nw i = (let len = GET_TERM_LEN (ob_pos nw i) in
     (let s = takeWhile (\<lambda>c. c \<noteq> 0) (get_list (ob_bytes nw) (GET_TERM_POS (ob_pos nw i)) len) in
      s @ replicate (len - length s) 0))"

fun newword_items :: "out_buf \<Rightarrow> scw_item \<Rightarrow> nat list \<Rightarrow> (int \<times> scw_item) option" where
  "newword_items nw it [] = Some (1, it)"
| "newword_items nw it (i # ns) = do {
     (e, it1) \<leftarrow> append_item_buf it (newword_bytes nw i) (ob_off nw (i * 2)) False;
     newword_items nw it1 ns }"

definition scw_get_result :: "scw_worddict \<Rightarrow> scw_inner \<Rightarrow> out_buf \<Rightarrow> scw_item \<Rightarrow> nat \<Rightarrow> (int \<times> scw_item) option" where
  "scw_get_result d p nw it0 level = (let it = scw_reset_item it0;
       entries = (\<lambda>f. item_entries f d p it (get_list (m_ppseg p) 0 (m_ppseg_cnt p)) 0) in
     if m_flag p AND level \<le> 1 then Some (-1, it)
     else if wants level SCW_OUT_BASIC then entries (append_buf_bword_item d p)
     else if wants level SCW_OUT_WPCOMP then entries (append_buf_wpcomp_item d p)
     else if wants level SCW_OUT_SUBPH then entries (append_buf_subph_item d p)
     else if wants level SCW_OUT_NEWWORD then newword_items nw it [0..<ob_count nw]
     else if wants level SCW_OUT_HUMANNAME then entries (append_buf_humanname_item d p)
     else if wants level SCW_OUT_BOOKNAME then entries (append_buf_bookname_item d p)
     else Some (-1, it))"

text \<open>
  \<open>scw_get_item\<close>: an item that was not allocated takes over the arrays of the result. The test
  \<open>(flag | level) & SCW_OUT_PROP == 0\<close> is \<open>(flag | level) & (SCW_OUT_PROP == 0)\<close>, which never holds.
\<close>

definition result_level :: "out_buf \<Rightarrow> scw_out \<Rightarrow> nat \<Rightarrow> (out_buf \<times> nat) option" where
  "result_level nw o1 level =
     (if wants level SCW_OUT_BASIC then Some (so_basic o1, 0)
      else if wants level SCW_OUT_WPCOMP then Some (so_wpcomp o1, 0)
      else if wants level SCW_OUT_SUBPH then Some (so_subph o1, 0)
      else if wants level SCW_OUT_HUMANNAME then Some (so_name o1, 0)
      else if wants level SCW_OUT_BOOKNAME then Some (so_book o1, 0)
      else if wants level SCW_OUT_NEWWORD then Some (nw, 1)
      else None)"

definition scw_get_item :: "out_buf \<Rightarrow> scw_item \<Rightarrow> scw_out \<Rightarrow> nat \<Rightarrow> (int \<times> scw_item) option" where
  "scw_get_item nw it o1 level = (let flag = m_flag (m_pir o1) in
     if flag AND level \<le> 1 then Some (-1, it)
     else case result_level nw o1 level of None \<Rightarrow> Some (-1, it) | Some (b, width) \<Rightarrow>
       (let len = ob_cur b; n = ob_count b;
            done = (\<lambda>it1. Some (1, it1\<lparr>it_cur := len, it_cnt := n, it_width := width\<rparr>)) in
        if \<not> it_allocated it then done (it\<lparr>it_bytes := ob_bytes b, it_size := 2 * len + 1, it_pos := ob_pos b,
            it_off := ob_off b, it_prop := (if wants flag SCW_OUT_PROP then Some (ob_prop b) else None)\<rparr>)
        else if it_size it < ob_size b then Some (-1, it)
        else do {
          c_assert (len + 1 \<le> it_size it \<and> n \<le> it_cap it);
          let it1 = it\<lparr>it_bytes := blit (it_bytes it) 0 (ob_bytes b) 0 (len + 1), it_pos := blit (it_pos it) 0 (ob_pos b) 0 n,
            it_off := blit (it_off it) 0 (ob_off b) 0 n\<rparr>;
          if wants (flag AND level) SCW_OUT_PROP
          then do { pr \<leftarrow> it_prop it1; done (it1\<lparr>it_prop := Some (blit pr 0 (ob_prop b) 0 n)\<rparr>) }
          else done it1 }))"

subsection \<open>Reading an item\<close>

definition item_has :: "scw_item \<Rightarrow> int \<Rightarrow> bool" where
  "item_has it i \<longleftrightarrow> 0 \<le> i \<and> i < int (it_cnt it)"

definition scw_gi_tmstr :: "scw_item \<Rightarrow> int \<Rightarrow> int \<Rightarrow> nat list option" where
  "scw_gi_tmstr it i tlen =
     (if tlen \<le> 0 \<or> \<not> item_has it i then None
      else (let pl = it_pos it (nat i); pos = GET_TERM_POS pl; len = GET_TERM_LEN pl in
        if pos \<ge> it_size it \<or> int len \<ge> tlen then None else Some (get_list (it_bytes it) pos len)))"

definition scw_gi_tmlen :: "scw_item \<Rightarrow> int \<Rightarrow> int" where
  "scw_gi_tmlen it i = (if item_has it i then int (GET_TERM_LEN (it_pos it (nat i))) else -1)"

definition scw_gi_tmoff :: "scw_item \<Rightarrow> int \<Rightarrow> int" where
  "scw_gi_tmoff it i = (if \<not> item_has it i then -1
     else if it_width it > 0 then int (it_off it (nat i * 2)) else int (it_off it (nat i)))"

definition scw_gi_tmprop :: "scw_item \<Rightarrow> int \<Rightarrow> scw_property option" where
  "scw_gi_tmprop it i = (if item_has it i then map_option (\<lambda>pr. pr (nat i)) (it_prop it) else None)"

subsection \<open>The shape of written buffers\<close>

definition buf_text :: "nat list list \<Rightarrow> nat list" where
  "buf_text ts = 9 # concat (map (\<lambda>t. t @ [9]) ts)"

definition places :: "nat list list \<Rightarrow> nat list" where
  "places ts = map (\<lambda>i. term_place (length (ts ! i)) (length (buf_text (take i ts)))) [0..<length ts]"

text \<open>The bytes \<open>B\<close> up to \<open>cur\<close>, the places \<open>P\<close> and the offsets \<open>F\<close> hold the terms \<open>ts\<close> at \<open>offs\<close>.\<close>

definition holds_text :: "nat list list \<Rightarrow> nat list \<Rightarrow> nat buf \<Rightarrow> nat \<Rightarrow> nat \<Rightarrow> nat buf \<Rightarrow> nat buf \<Rightarrow> bool" where
  "holds_text ts offs B cur n P F \<longleftrightarrow> length ts = n \<and> length (buf_text ts) = cur \<and> get_list B 0 (cur + 1) = buf_text ts @ [0] \<and>
     get_list P 0 n = places ts \<and> get_list F 0 n = offs"

definition read_terms :: "nat buf \<Rightarrow> nat buf \<Rightarrow> nat \<Rightarrow> nat list list" where
  "read_terms B P n = map (\<lambda>i. get_list B (GET_TERM_POS (P i)) (GET_TERM_LEN (P i))) [0..<n]"

lemma buf_text_simps [simp]: "buf_text [] = [9]" "buf_text (ts @ [t]) = buf_text ts @ t @ [9]"
  by (simp_all add: buf_text_def)

lemma places_simps [simp]: "places [] = []" "places (ts @ [t]) = places ts @ [term_place (length t) (length (buf_text ts))]"
  by (simp_all add: places_def nth_append cong: map_cong)

lemma get_list_upd [simp]: "get_list (b(n := x)) 0 (Suc n) = get_list b 0 n @ [x]"
  by (simp add: get_list_def)

lemma get_list_grow: "get_list (put_list b n xs) 0 (n + length xs) = get_list b 0 n @ xs"
proof (rule nth_equalityI)
  fix i assume "i < length (get_list (put_list b n xs) 0 (n + length xs))"
  then show "get_list (put_list b n xs) 0 (n + length xs) ! i = (get_list b 0 n @ xs) ! i"
    by (cases "i < n") (simp_all add: nth_append put_list_def)
qed simp

lemma get_list_Suc: "get_list b 0 (Suc n) = get_list b 0 n @ [b n]"
  by (simp add: get_list_def)

lemma holds_snoc:
  assumes "holds_text ts offs B cur n P F"
  shows "holds_text (ts @ [t]) (offs @ [o1]) (put_list B cur (t @ [9, 0])) (cur + length t + 1) (n + 1)
    (P(n := term_place (length t) cur)) (F(n := o1))"
proof -
  have "get_list B 0 cur = buf_text ts" using assms unfolding holds_text_def by (metis Suc_eq_plus1 append1_eq_conv get_list_Suc)
  then show ?thesis using assms get_list_grow [of B cur "t @ [9, 0]"] by (simp add: holds_text_def)
qed

lemma term_place_parts:
  assumes "len < 256" "pos < 16777216"
  shows "GET_TERM_LEN (term_place len pos) = len" "GET_TERM_POS (term_place len pos) = pos"
proof -
  have "term_place len pos = push_bit 24 len OR (pos AND 16777215)"
  proof -
    have l: "take_bit 8 len = len" using assms by (simp add: take_bit_nat_eq_self)
    have m: "(16777215 :: nat) = mask 24" by (simp add: mask_eq_exp_minus_1)
    have "take_bit 32 (push_bit 24 (take_bit 8 len) OR take_bit 24 pos) = push_bit 24 (take_bit 8 len) OR take_bit 24 pos"
      by (rule bit_eqI) (auto simp: bit_simps)
    then show ?thesis unfolding term_place_def l m take_bit_eq_mask [symmetric] .
  qed
  then show "GET_TERM_LEN (term_place len pos) = len" "GET_TERM_POS (term_place len pos) = pos"
    using packed_length [of len pos] packed_position [OF assms(2), of len] by (simp_all add: GET_TERM_LEN_def GET_TERM_POS_def)
qed

lemma buf_text_split:
  assumes "i < length ts"
  shows "buf_text ts = buf_text (take i ts) @ ts ! i @ 9 # concat (map (\<lambda>t. t @ [9]) (drop (Suc i) ts))"
  unfolding buf_text_def by (subst (1) id_take_nth_drop [OF assms]) simp

lemma holds_terms_read:
  assumes h: "holds_text ts offs B cur n P F" and "list_all (\<lambda>t. length t < 256) ts" "cur \<le> 16777216"
  shows "read_terms B P n = ts"
proof (rule nth_equalityI)
  show "length (read_terms B P n) = length ts" using h by (simp add: read_terms_def holds_text_def)
  fix i assume "i < length (read_terms B P n)"
  then have i: "i < length ts" "i < n" using h by (simp_all add: read_terms_def holds_text_def)
  let ?pos = "length (buf_text (take i ts))"
  have le: "?pos + length (ts ! i) < cur" using h buf_text_split [OF i(1)] by (simp add: holds_text_def)
  have "get_list P 0 n ! i = places ts ! i" using h unfolding holds_text_def by metis
  then have "P i = term_place (length (ts ! i)) ?pos" using i by (simp add: places_def)
  then have p: "GET_TERM_LEN (P i) = length (ts ! i)" "GET_TERM_POS (P i) = ?pos"
    using term_place_parts [of "length (ts ! i)" ?pos] le assms i by (simp_all add: list_all_length)
  have "B (?pos + j) = ts ! i ! j" if "j < length (ts ! i)" for j
  proof -
    have "get_list B 0 (cur + 1) ! (?pos + j) = (buf_text ts @ [0]) ! (?pos + j)" using h by (simp add: holds_text_def)
    moreover have "(buf_text ts @ [0]) ! (?pos + j) = ts ! i ! j"
      unfolding buf_text_split [OF i(1)] using that by (simp add: nth_append)
    ultimately show ?thesis using that le by simp
  qed
  then show "read_terms B P n ! i = ts ! i"
    using i p by (auto simp: read_terms_def intro: nth_equalityI)
qed

text \<open>A text without NUL is copied as it is.\<close>

lemma copies_text:
  assumes "0 \<notin> set t"
  shows "strncpy_bytes t = t" "strcpy_bytes t = t @ [0]"
proof -
  have "takeWhile (\<lambda>c. c \<noteq> 0) t = t" unfolding takeWhile_eq_all_conv using assms by (intro ballI notI) (simp only:)
  then show "strncpy_bytes t = t" "strcpy_bytes t = t @ [0]"
    unfolding strncpy_bytes_def strcpy_bytes_def by (simp_all only: Let_def) simp
qed

lemma put_list_twice: "put_list (put_list b pos (t @ ys)) (pos + length t) xs = put_list b pos (t @ xs)"
  if "length ys \<le> length xs"
  using that by (auto simp: put_list_def fun_eq_iff nth_append)

subsection \<open>Reading the words\<close>

definition plain_word :: "scw_worddict \<Rightarrow> scw_inner \<Rightarrow> lmref \<Rightarrow> bool" where
  "plain_word d p r \<longleftrightarrow> word_ref d p r \<and> m_type (deref d p r) \<noteq> LEMMA_TYPE_MAN \<and>
     length (word_text d p r) < 256 \<and> 0 \<notin> set (word_text d p r)"

lemma static_phrase_text:
  assumes d: "wf_phrases d" and l: "static_part d l" "m_type (m_lemmalist d l) = LEMMA_TYPE_SPHRASE"
  shows "lmstr_bytes d p (m_lemmalist d l) = Some (True, word_text d p (Static l))"
proof -
  let ?lm = "m_lemmalist d l"
  have "token_str (m_lmpos d) d p (m_lemmalist d q) = get_token_str d p (m_lemmalist d q)"
    if "q \<in> set (phrase_parts d ?lm)" for q
  proof -
    have q: "q < l" "static_part d q" using d l that by (auto simp: wf_phrases_def static_part_def)
    then have "q < m_lmpos d" using l by (simp add: static_part_def)
    then show ?thesis unfolding get_token_str_def using token_static [OF d q(2)] by (metis less_add_one less_trans)
  qed
  then have g: "gather (\<lambda>q. token_str (m_lmpos d) d p (m_lemmalist d q)) (phrase_parts d ?lm) =
      gather (\<lambda>q. get_token_str d p (m_lemmalist d q)) (phrase_parts d ?lm)" by (rule gather_cong)
  have eq: "lmstr_bytes d p ?lm = word_bytes d p (Static l)"
    using l(2) g by (simp add: lmstr_bytes_def word_bytes_def deref_def get_token_str_def lemma_types)
  have "word_ref d p (Static l)" using l by simp
  then obtain b where b: "word_bytes d p (Static l) = Some (b, word_text d p (Static l))" using word_ref_bytes [OF d] by blast
  have "word_bytes d p (Static l) = map_option (Pair True) (gather (\<lambda>q. get_token_str d p (m_lemmalist d q)) (phrase_parts d ?lm))"
    using eq l(2) by (simp add: lmstr_bytes_def lemma_types)
  then have "b = True" using b by (metis map_option_eq_Some prod.inject)
  then show ?thesis using eq b by simp
qed

lemma word_lmstr:
  assumes d: "wf_phrases d" and w: "plain_word d p r"
  shows "get_lmstr d p (Some r) MAX_WORD_LEN = Some (int (length (word_text d p r)), word_text d p r)"
proof -
  have "lmstr_bytes d p (deref d p r) = Some (True, word_text d p r)"
  proof (cases r)
    case (Static l)
    show ?thesis
    proof (cases "m_type (m_lemmalist d l) = LEMMA_TYPE_SPHRASE")
      case True
      then show ?thesis using static_phrase_text [OF d _ True] w Static by (simp add: plain_word_def deref_def)
    next
      case False
      then have "m_type (m_lemmalist d l) = LEMMA_TYPE_SBASIC"
        using w Static by (auto simp: plain_word_def static_part_def deref_def)
      then show ?thesis using Static by (simp add: lmstr_bytes_def word_text_def word_bytes_def deref_def)
    qed
  next
    case (Dyn k)
    then have "m_type (m_dynlm p k) = LEMMA_TYPE_DBASIC" using w by (simp add: plain_word_def dyn_word_def)
    then show ?thesis using Dyn by (simp add: lmstr_bytes_def word_text_def word_bytes_def deref_def lemma_types)
  qed
  then show ?thesis using w by (simp add: get_lmstr_def plain_word_def max_sizes)
qed

subsection \<open>Writers of basic words\<close>

text \<open>
  The laws of putting one word, of the result and of an item alike: \<open>st d p ws s\<close> says that \<open>s\<close>
  holds_text the words \<open>ws\<close>, and \<open>size s\<close> is the room for bytes.
\<close>

definition fits :: "scw_worddict \<Rightarrow> scw_inner \<Rightarrow> nat \<Rightarrow> lmref list \<Rightarrow> bool" where
  "fits d p n ws \<longleftrightarrow> length (buf_text (map (word_text d p) ws)) < n \<and> n \<le> 16777216 \<and> length ws \<le> m_maxterm p"

lemma fits_prefix: "fits d p n (ws @ vs) \<Longrightarrow> fits d p n ws"
  by (simp add: fits_def buf_text_def)

locale word_writer =
  fixes put :: "scw_worddict \<Rightarrow> scw_inner \<Rightarrow> 's \<Rightarrow> lmref \<Rightarrow> nat \<Rightarrow> (int \<times> 's) option"
    and st :: "scw_worddict \<Rightarrow> scw_inner \<Rightarrow> lmref list \<Rightarrow> 's \<Rightarrow> bool"
    and room :: "'s \<Rightarrow> nat"
  assumes put_ok: "wf_phrases d \<Longrightarrow> plain_word d p r \<Longrightarrow> st d p ws s \<Longrightarrow> fits d p (room s) (ws @ [r]) \<Longrightarrow>
    \<exists>s'. put d p s r off = Some (0, s') \<and> st d p (ws @ [r]) s' \<and> room s' = room s"
begin

lemma static_ok:
  assumes d: "wf_phrases d" and "list_all (plain_word d p) (map Static ls)" "st d p ws s" "fits d p (room s) (ws @ map Static ls)"
  shows "\<exists>s'. static_parts (put d p) s ls off = Some (0, s') \<and> st d p (ws @ map Static ls) s' \<and> room s' = room s"
  using assms(2-)
proof (induction ls arbitrary: ws s off)
  case (Cons l ls)
  have "fits d p (room s) (ws @ [Static l])" using fits_prefix [of d p "room s" "ws @ [Static l]"] Cons.prems(3) by simp
  then obtain s1 where s1: "put d p s (Static l) off = Some (0, s1)" "st d p (ws @ [Static l]) s1" "room s1 = room s"
    using put_ok [OF d _ Cons.prems(2), of "Static l" off] Cons.prems(1) by auto
  then show ?case using Cons.IH [OF _ s1(2), of "u32_add off 1"] Cons.prems by simp
qed simp

lemma dynamic_ok:
  assumes d: "wf_phrases d" and "list_all (plain_word d p) rs" "st d p ws s" "fits d p (room s) (ws @ rs)"
    and step: "\<And>r. plain_word d p r \<Longrightarrow> get_lmoff_step d p (Some r) \<noteq> None"
  shows "\<exists>s'. dynamic_parts (put d p) d p s rs off i = Some (0, s') \<and> st d p (ws @ rs) s' \<and> room s' = room s"
  using assms(2-4)
proof (induction rs arbitrary: ws s off i)
  case (Cons r rs)
  have "fits d p (room s) (ws @ [r])" using fits_prefix [of d p "room s" "ws @ [r]"] Cons.prems(3) by simp
  then obtain s1 where s1: "put d p s r (u32_add off (int i)) = Some (0, s1)" "st d p (ws @ [r]) s1" "room s1 = room s"
    using put_ok [OF d _ Cons.prems(2), of r "u32_add off (int i)"] Cons.prems(1) by auto
  obtain n where "get_lmoff_step d p (Some r) = Some n" using step Cons.prems(1) by fastforce
  then show ?case using Cons.IH [OF _ s1(2)] Cons.prems s1 by simp
qed simp

lemma bword_ok:
  assumes d: "wf_phrases d" and w: "wf_inner d p" and r: "seg_ref d p r" "list_all (plain_word d p) (ref_words d p r)"
    and s: "st d p ws s" "fits d p (room s) (ws @ ref_words d p r)"
  shows "\<exists>s'. append_bword (put d p) d p s r off = Some (0, s') \<and> st d p (ws @ ref_words d p r) s' \<and> room s' = room s"
proof (cases "m_type (deref d p r) = LEMMA_TYPE_SBASIC \<or> m_type (deref d p r) = LEMMA_TYPE_DBASIC")
  case True
  then have "ref_words d p r = [r]" by (auto simp: ref_words_def lemma_types)
  then show ?thesis using True put_ok [OF d _ s(1), of r off] r s by (simp add: append_bword_def)
next
  case False
  show ?thesis
  proof (cases r)
    case (Static l)
    then have "m_type (m_lemmalist d l) = LEMMA_TYPE_SPHRASE" using False r by (auto simp: deref_def)
    then show ?thesis using static_ok [OF d _ s(1), of "phrase_parts d (m_lemmalist d l)" off] r s Static
      by (simp add: append_bword_def ref_words_def deref_def lemma_types)
  next
    case (Dyn k)
    then have k: "k < m_dynlm_cnt p" using r by simp
    then have "dyn_phrase d p (m_dynlm p k)" using False Dyn by (cases rule: dyn_lemma_cases [OF w k]) (auto simp: dyn_word_def deref_def)
    then obtain rs where rs: "dyn_parts p (m_dynlm p k) = Some rs" and ty: "m_type (m_dynlm p k) = LEMMA_TYPE_DPHRASE"
      using words_at_parts w by (auto simp: dyn_phrase_def wf_inner_def)
    have step: "get_lmoff_step d p (Some r') \<noteq> None" if "plain_word d p r'" for r'
      using that by (cases r') (auto simp: plain_word_def get_lmoff_step_def static_part_def dyn_word_def deref_def lemma_types)
    have "ref_words d p r = rs" using rs ty Dyn by (simp add: ref_words_def deref_def lemma_types)
    then show ?thesis using dynamic_ok [OF d _ s(1) _ step, of rs off 0] r s rs ty Dyn
      by (simp add: append_bword_def deref_def lemma_types)
  qed
qed

end

text \<open>The offsets of the terms, the bytes of the words before them.\<close>

definition starts :: "nat list list \<Rightarrow> nat list" where
  "starts ts = map (\<lambda>i. length (concat (take i ts))) [0..<length ts]"

lemma starts_simps [simp]: "starts [] = []" "starts (ts @ [t]) = starts ts @ [length (concat ts)]"
  by (simp_all add: starts_def cong: map_cong)

lemma buf_text_length: "length (buf_text ts) = 1 + length (concat ts) + length ts"
  by (induction ts) (simp_all add: buf_text_def)

definition buf_holds :: "nat list list \<Rightarrow> nat list \<Rightarrow> out_buf \<Rightarrow> bool" where
  "buf_holds ts offs b \<longleftrightarrow> holds_text ts offs (ob_bytes b) (ob_cur b) (ob_count b) (ob_pos b) (ob_off b)"

definition item_holds :: "nat list list \<Rightarrow> nat list \<Rightarrow> scw_item \<Rightarrow> bool" where
  "item_holds ts offs it \<longleftrightarrow> holds_text ts offs (it_bytes it) (it_cur it) (it_cnt it) (it_pos it) (it_off it)"

lemma holds_end: "holds_text ts offs B cur n P F \<Longrightarrow> B cur = 0 \<and> cur = length (buf_text ts) \<and> n = length ts"
  unfolding holds_text_def by (metis Suc_eq_plus1 append1_eq_conv get_list_Suc)

lemma append_to_holds:
  assumes h: "buf_holds ts offs b" and "copy = t \<or> copy = t @ [0]"
    and room: "length (buf_text ts) + length t + 1 < ob_size b" "length ts + 1 \<le> mt"
  shows "\<exists>b'. append_to mt t copy off b = (1, b') \<and> buf_holds (ts @ [t]) (offs @ [off]) b' \<and> ob_size b' = ob_size b"
proof -
  note e = holds_end [OF h [unfolded buf_holds_def]]
  have put: "put_list (put_list (ob_bytes b) cur copy) (cur + length t) [9, 0] = put_list (ob_bytes b) cur (t @ [9, 0])" for cur
    using assms(2) put_list_twice [of "[]" "[9, 0]" "ob_bytes b" cur t] put_list_twice [of "[0]" "[9, 0]" "ob_bytes b" cur t] by auto
  show ?thesis using e room holds_snoc [OF h [unfolded buf_holds_def], of t off]
    by (auto simp: append_to_def Let_def put buf_holds_def)
qed

definition out_words :: "scw_worddict \<Rightarrow> scw_inner \<Rightarrow> lmref list \<Rightarrow> scw_out \<Rightarrow> bool" where
  "out_words d p ws o1 \<longleftrightarrow> (let ts = map (word_text d p) ws in
     m_pir o1 = p \<and> so_total o1 = length (concat ts) \<and> buf_holds ts (starts ts) (so_basic o1))"

definition item_words :: "scw_worddict \<Rightarrow> scw_inner \<Rightarrow> lmref list \<Rightarrow> scw_item \<Rightarrow> bool" where
  "item_words d p ws it \<longleftrightarrow> (let ts = map (word_text d p) ws in
     m_maxterm p \<le> it_cap it \<and> it_prop it \<noteq> None \<and> it_width it = 0 \<and> item_holds ts (map Suc (starts ts)) it)"

lemma fits_snoc:
  assumes "fits d p n (ws @ [r])"
  shows "length (buf_text (map (word_text d p) ws)) + length (word_text d p r) + 1 < n" "length ws + 1 \<le> m_maxterm p"
  using assms by (simp_all add: fits_def)

interpretation out_writer: word_writer "\<lambda>d p. put_lemma d SCW_OUT_BASIC" out_words "\<lambda>o1. ob_size (so_basic o1)"
proof unfold_locales
  fix d p r ws o1 off
  assume a: "wf_phrases d" "plain_word d p r" "out_words d p ws o1" "fits d p (ob_size (so_basic o1)) (ws @ [r])"
  let ?ts = "map (word_text d p) ws" and ?t = "word_text d p r"
  have p: "m_pir o1 = p" "so_total o1 = length (concat ?ts)" "buf_holds ?ts (starts ?ts) (so_basic o1)"
    using a(3) by (simp_all add: out_words_def Let_def)
  have copy: "strncpy_bytes ?t = ?t" using copies_text(1) a(2) by (simp add: plain_word_def)
  obtain b where b: "append_to (m_maxterm p) ?t ?t (so_total o1) (so_basic o1) = (1, b)"
      "buf_holds (?ts @ [?t]) (starts ?ts @ [so_total o1]) b" "ob_size b = ob_size (so_basic o1)"
    using append_to_holds [OF p(3), of ?t ?t "m_maxterm p" "so_total o1"] fits_snoc [OF a(4)] by auto
  have ap: "append_out_buf o1 ?t off SCW_OUT_BASIC = (1, o1\<lparr>so_basic := b, so_total := so_total o1 + length ?t\<rparr>)"
    using b(1) p by (simp add: append_out_buf_def wants_def SCW_OUT_BASIC_def copy)
  show "\<exists>o2. put_lemma d SCW_OUT_BASIC o1 r off = Some (0, o2) \<and> out_words d p (ws @ [r]) o2 \<and>
      ob_size (so_basic o2) = ob_size (so_basic o1)"
    using b(2,3) p word_lmstr [OF a(1,2)]
    by (auto simp: put_lemma_def ap out_words_def put_out_prop_def put_prop_def buf_holds_def Let_def)
qed

interpretation item_writer: word_writer "\<lambda>d p. put_item d p True" item_words it_size
proof unfold_locales
  fix d p r ws it off
  assume a: "wf_phrases d" "plain_word d p r" "item_words d p ws it" "fits d p (it_size it) (ws @ [r])"
  let ?ts = "map (word_text d p) ws" and ?t = "word_text d p r"
  have p: "m_maxterm p \<le> it_cap it" "it_prop it \<noteq> None" "it_width it = 0" "item_holds ?ts (map Suc (starts ?ts)) it"
    using a(3) by (simp_all add: item_words_def Let_def)
  note e = holds_end [OF p(4) [unfolded item_holds_def]]
  have n: "length (buf_text ?ts) + length ?t + 1 < it_size it" "length ws + 1 \<le> m_maxterm p" using fits_snoc [OF a(4)] by simp_all
  have off: "u32_add (it_cur it + length ?t + 1) (- int (length ?t) - 1 - int (it_cnt it)) = Suc (length (concat ?ts))"
  proof -
    have "it_cur it = 1 + length (concat ?ts) + it_cnt it" using e buf_text_length [of ?ts] by simp
    moreover have "length (concat ?ts) < 16777216" using a(4) buf_text_length [of ?ts] n(1) by (simp add: fits_def)
    ultimately show ?thesis by (simp add: u32_add_def)
  qed
  obtain it1 where it1: "append_item_buf it ?t off True = Some (1, it1)" "item_holds (?ts @ [?t]) (map Suc (starts ?ts) @ [Suc (length (concat ?ts))]) it1"
    "it_size it1 = it_size it" "it_cap it1 = it_cap it" "it_prop it1 = it_prop it" "it_width it1 = it_width it"
    using e n p(1) off holds_snoc [OF p(4) [unfolded item_holds_def], of ?t "Suc (length (concat ?ts))"]
    by (auto simp: append_item_buf_def Let_def item_holds_def c_assert_def)
  show "\<exists>it'. put_item d p True it r off = Some (0, it') \<and> item_words d p (ws @ [r]) it' \<and> it_size it' = it_size it"
    using it1 p word_lmstr [OF a(1,2)] by (auto simp: put_item_def item_words_def item_holds_def Let_def)
qed

subsection \<open>Writing and reading the basic words of a result\<close>

definition entry_refs :: "lmref option list \<Rightarrow> lmref list" where
  "entry_refs pls = List.map_filter id pls"

lemma entry_refs_simps [simp]:
  "entry_refs [] = []" "entry_refs (None # pls) = entry_refs pls" "entry_refs (Some r # pls) = r # entry_refs pls"
  by (simp_all add: entry_refs_def List.map_filter_simps)

lemma entry_refs_seg: "entry_refs (get_list (m_ppseg p) 0 n) = seg_refs p 0 n"
  by (simp add: entry_refs_def seg_refs_def get_list_def List.map_filter_def filter_map comp_def)

definition only_basic :: "nat \<Rightarrow> bool" where
  "only_basic flag \<longleftrightarrow> wants flag SCW_OUT_BASIC \<and> \<not> wants flag SCW_OUT_WPCOMP \<and> \<not> wants flag SCW_OUT_SUBPH \<and>
     \<not> wants flag SCW_OUT_HUMANNAME \<and> \<not> wants flag SCW_OUT_BOOKNAME"

lemma all_words_simps [simp]: "all_words d p [] = []" "all_words d p (r # rs) = ref_words d p r @ all_words d p rs"
  by (simp_all add: all_words_def)

lemma write_entries_ok:
  assumes d: "wf_phrases d" and w: "wf_inner d p" and f: "only_basic (m_flag p)"
    and "list_all (seg_ref d p) (entry_refs pls)" "list_all (plain_word d p) (all_words d p (entry_refs pls))"
    "out_words d p ws o1" "fits d p (ob_size (so_basic o1)) (ws @ all_words d p (entry_refs pls))"
  shows "\<exists>o2. write_entries d o1 pls off = Some (0, o2) \<and> out_words d p (ws @ all_words d p (entry_refs pls)) o2 \<and>
    ob_size (so_basic o2) = ob_size (so_basic o1)"
  using assms(4-)
proof (induction pls arbitrary: ws o1 off)
  case (Cons pl pls)
  show ?case
  proof (cases pl)
    case None
    then show ?thesis using Cons by simp
  next
    case (Some r)
    have pre: "fits d p (ob_size (so_basic o1)) (ws @ ref_words d p r)"
      using fits_prefix [of d p _ "ws @ ref_words d p r"] Cons.prems(4) Some by simp
    obtain o2 where o2: "append_bword (put_lemma d SCW_OUT_BASIC) d p o1 r off = Some (0, o2)"
        "out_words d p (ws @ ref_words d p r) o2" "ob_size (so_basic o2) = ob_size (so_basic o1)"
      using out_writer.bword_ok [OF d w _ _ Cons.prems(3) pre] Cons.prems Some by auto
    have m: "m_pir o1 = p" "m_pir o2 = p" using Cons.prems(3) o2(2) by (simp_all add: out_words_def Let_def)
    have "write_entry d o1 r off = Some (0, o2)"
      using f m o2(1) by (simp add: write_entry_def when_wanted_def append_buf_bword_def only_basic_def)
    then show ?thesis using Cons.IH [OF _ _ o2(2)] Cons.prems lmoff_step_words [OF w] o2(3) Some m by simp
  qed
qed simp

lemma item_entries_ok:
  assumes d: "wf_phrases d" and w: "wf_inner d p"
    and "list_all (seg_ref d p) (entry_refs pls)" "list_all (plain_word d p) (all_words d p (entry_refs pls))"
    "item_words d p ws it" "fits d p (it_size it) (ws @ all_words d p (entry_refs pls))"
  shows "\<exists>it'. item_entries (append_buf_bword_item d p) d p it pls off = Some (1, it') \<and>
    item_words d p (ws @ all_words d p (entry_refs pls)) it' \<and> it_size it' = it_size it"
  using assms(3-)
proof (induction pls arbitrary: ws it off)
  case (Cons pl pls)
  show ?case
  proof (cases pl)
    case None
    then show ?thesis using Cons by (simp add: append_buf_bword_item_def item_room_def get_lmoff_step_def)
  next
    case (Some r)
    have pre: "fits d p (it_size it) (ws @ ref_words d p r)"
      using fits_prefix [of d p _ "ws @ ref_words d p r"] Cons.prems(4) Some by simp
    have n: "it_cnt it = length ws"
      using Cons.prems(3) by (simp add: item_words_def item_holds_def holds_text_def Let_def)
    obtain it1 where it1: "append_buf_bword_item d p it (Some r) off = Some (0, it1)"
        "item_words d p (ws @ ref_words d p r) it1" "it_size it1 = it_size it"
    proof (cases "it_cnt it + 1 > m_maxterm p")
      case True
      then have "ref_words d p r = []" using pre n by (cases "ref_words d p r") (simp_all add: fits_def)
      then show ?thesis using that [of it] True Cons.prems(3) by (simp add: append_buf_bword_item_def item_room_def)
    next
      case False
      then show ?thesis using that item_writer.bword_ok [OF d w _ _ Cons.prems(3) pre, of off] Cons.prems Some
        by (auto simp: append_buf_bword_item_def item_room_def)
    qed
    then show ?thesis using Cons.IH [OF _ _ it1(2)] Cons.prems lmoff_step_words [OF w] Some by simp
  qed
qed simp

text \<open>A result that has been reset, as it is when the segmentation starts.\<close>

lemma out_words_reset:
  assumes "m_pir o1 = p" "so_basic o1 = reset_buf b" "so_total o1 = 0"
  shows "out_words d p [] o1"
  using assms by (simp add: out_words_def Let_def buf_holds_def holds_text_def reset_buf_def get_list_def upt_rec)

lemma item_words_reset:
  assumes "2 < it_size it" "m_maxterm p \<le> it_cap it" "it_prop it \<noteq> None" "it_width it = 0"
  shows "item_words d p [] (scw_reset_item it)"
  using assms by (simp add: item_words_def Let_def item_holds_def holds_text_def scw_reset_item_def get_list_def upt_rec)

lemma all_words_texts:
  assumes "wf_phrases d" "wf_inner d p" "list_all (seg_ref d p) rs"
  shows "concat (map (word_text d p) (all_words d p rs)) = concat (map (lm_text d p) rs)"
  using assms(3) by (induction rs) (simp_all add: lm_text_words [OF assms(1,2)])

text \<open>What the theorems below ask of the result and the rooms.\<close>

definition seg_words :: "scw_worddict \<Rightarrow> scw_inner \<Rightarrow> nat list list" where
  "seg_words d p = map (word_text d p) (all_words d p (seg_refs p 0 (m_ppseg_cnt p)))"

definition writable :: "scw_worddict \<Rightarrow> scw_inner \<Rightarrow> nat \<Rightarrow> bool" where
  "writable d p n \<longleftrightarrow> wf_phrases d \<and> wf_inner d p \<and>
     list_all (plain_word d p) (all_words d p (seg_refs p 0 (m_ppseg_cnt p))) \<and>
     fits d p n (all_words d p (seg_refs p 0 (m_ppseg_cnt p)))"

lemma seg_refs_ok: "wf_inner d p \<Longrightarrow> list_all (seg_ref d p) (seg_refs p 0 (m_ppseg_cnt p))"
  by (auto simp: seg_refs_def list_all_iff List.map_filter_def) (meson wf_inner_seg)

lemma write_buf_ok:
  assumes w: "writable d (m_pir o1) (ob_size b)" and f: "only_basic (m_flag (m_pir o1))"
    and o1: "so_basic o1 = reset_buf b" "so_total o1 = 0"
  obtains o2 where "write_buf d o1 = Some (0, o2)"
    "buf_holds (seg_words d (m_pir o1)) (starts (seg_words d (m_pir o1))) (so_basic o2)"
    "ob_size (so_basic o2) = ob_size b" "m_pir o2 = m_pir o1"
proof -
  let ?p = "m_pir o1"
  have "\<exists>o2. write_buf d o1 = Some (0, o2) \<and> out_words d ?p ([] @ all_words d ?p (seg_refs ?p 0 (m_ppseg_cnt ?p))) o2 \<and>
      ob_size (so_basic o2) = ob_size (so_basic o1)"
    unfolding write_buf_def entry_refs_seg [symmetric]
    by (rule write_entries_ok)
      (use w f out_words_reset [OF refl o1] seg_refs_ok [of d ?p] o1 in \<open>simp_all add: writable_def entry_refs_seg reset_buf_def\<close>)
  then show thesis using that o1 by (auto simp: out_words_def Let_def seg_words_def reset_buf_def)
qed

lemma basic_level: "wants flag SCW_OUT_BASIC \<Longrightarrow> 1 < flag AND SCW_OUT_BASIC"
proof -
  have "even (flag AND 2)" by (simp add: even_and_iff)
  then have "flag AND 2 \<noteq> 1" by presburger
  then show "wants flag SCW_OUT_BASIC \<Longrightarrow> ?thesis" by (auto simp: wants_def SCW_OUT_BASIC_def)
qed

lemma get_result_ok:
  assumes w: "writable d p (it_size it)" and f: "wants (m_flag p) SCW_OUT_BASIC"
    and it: "m_maxterm p \<le> it_cap it" "it_prop it \<noteq> None" "it_width it = 0" "2 < it_size it"
  obtains it' where "scw_get_result d p nw it SCW_OUT_BASIC = Some (1, it')"
    "item_holds (seg_words d p) (map Suc (starts (seg_words d p))) it'" "it_width it' = 0" "it_size it' = it_size it"
proof -
  have "\<exists>it'. item_entries (append_buf_bword_item d p) d p (scw_reset_item it) (get_list (m_ppseg p) 0 (m_ppseg_cnt p)) 0 = Some (1, it') \<and>
      item_words d p ([] @ all_words d p (seg_refs p 0 (m_ppseg_cnt p))) it' \<and> it_size it' = it_size (scw_reset_item it)"
    unfolding entry_refs_seg [symmetric]
    by (rule item_entries_ok)
      (use w item_words_reset [OF it(4,1-3)] seg_refs_ok [of d p] in \<open>simp_all add: writable_def entry_refs_seg scw_reset_item_def\<close>)
  moreover have "\<not> m_flag p AND SCW_OUT_BASIC \<le> 1" using basic_level [OF f] by simp
  ultimately show thesis using that
    by (auto simp: scw_get_result_def Let_def wants_def SCW_OUT_BASIC_def item_words_def seg_words_def scw_reset_item_def)
qed

lemma item_reads:
  assumes h: "item_holds ts offs it" and "list_all (\<lambda>t. length t < 256) ts" "it_cur it \<le> 16777216" "it_cur it < it_size it"
    and "it_width it = 0" and i: "i < length ts"
  shows "scw_gi_tmstr it (int i) 256 = Some (ts ! i)" "scw_gi_tmlen it (int i) = int (length (ts ! i))"
    "scw_gi_tmoff it (int i) = int (offs ! i)"
proof -
  note e = holds_end [OF h [unfolded item_holds_def]]
  have has: "item_has it (int i)" using e i by (simp add: item_has_def)
  have len: "length (ts ! i) < 256" using assms(2) i by (simp add: list_all_length)
  have "read_terms (it_bytes it) (it_pos it) (it_cnt it) ! i = ts ! i"
    using holds_terms_read [OF h [unfolded item_holds_def] assms(2,3)] by simp
  then have r: "get_list (it_bytes it) (GET_TERM_POS (it_pos it i)) (GET_TERM_LEN (it_pos it i)) = ts ! i"
    using e i by (simp add: read_terms_def)
  then have l: "GET_TERM_LEN (it_pos it i) = length (ts ! i)" by (metis get_list_length)
  have "get_list (it_pos it) 0 (it_cnt it) ! i = places ts ! i" using h by (simp add: item_holds_def holds_text_def)
  then have "it_pos it i = term_place (length (ts ! i)) (length (buf_text (take i ts)))" using e i by (simp add: places_def)
  moreover have "length (buf_text (take i ts)) < it_cur it" using e buf_text_split [OF i] by simp
  ultimately have "GET_TERM_POS (it_pos it i) < it_size it" using term_place_parts [OF len] assms(3,4) by simp
  then show "scw_gi_tmstr it (int i) 256 = Some (ts ! i)" using has r l len by (simp add: scw_gi_tmstr_def)
  show "scw_gi_tmlen it (int i) = int (length (ts ! i))" using has l by (simp add: scw_gi_tmlen_def)
  have "get_list (it_off it) 0 (it_cnt it) ! i = offs ! i" using h by (simp add: item_holds_def holds_text_def)
  then show "scw_gi_tmoff it (int i) = int (offs ! i)" using has e i assms(5) by (simp add: scw_gi_tmoff_def)
qed

text \<open>An item that can take a result over: it was not allocated, or it is large enough.\<close>

definition takes :: "scw_item \<Rightarrow> out_buf \<Rightarrow> bool" where
  "takes it b \<longleftrightarrow> (it_allocated it \<longrightarrow> ob_size b \<le> it_size it \<and> ob_count b \<le> it_cap it \<and> it_prop it \<noteq> None)"

lemma get_list_blit: "n \<le> m \<Longrightarrow> get_list (blit b 0 c 0 m) 0 n = get_list c 0 n"
  by (rule get_list_cong) (simp add: blit_def)

lemma get_item_holds:
  assumes h: "buf_holds ts offs b" and l: "result_level nw o1 level = Some (b, width)" "1 < m_flag (m_pir o1) AND level"
    and "takes it b" "ob_cur b < ob_size b"
  obtains it' where "scw_get_item nw it o1 level = Some (1, it')" "item_holds ts offs it'" "it_cur it' = ob_cur b"
    "it_cur it' < it_size it'" "it_width it' = width"
proof (cases "it_allocated it")
  case False
  then show thesis using that l h by (simp add: scw_get_item_def Let_def item_holds_def buf_holds_def)
next
  case True
  let ?it = "it\<lparr>it_bytes := blit (it_bytes it) 0 (ob_bytes b) 0 (ob_cur b + 1), it_pos := blit (it_pos it) 0 (ob_pos b) 0 (ob_count b),
      it_off := blit (it_off it) 0 (ob_off b) 0 (ob_count b), it_cur := ob_cur b, it_cnt := ob_count b, it_width := width\<rparr>"
  have n: "ob_size b \<le> it_size it" "ob_count b \<le> it_cap it" "ob_cur b + 1 \<le> it_size it"
    using True assms(4,5) by (simp_all add: takes_def)
  have "item_holds ts offs ?it" using h by (simp add: item_holds_def buf_holds_def holds_text_def get_list_blit)
  moreover obtain pr where "it_prop it = Some pr" using True assms(4) by (auto simp: takes_def)
  ultimately show thesis using that n True l assms(5)
    by (cases "wants (m_flag (m_pir o1) AND level) SCW_OUT_PROP")
      (auto simp: scw_get_item_def Let_def item_holds_def c_assert_def)
qed

subsection \<open>The subphrases that are written\<close>







lemma put_mark_mset [simp]: "mset (put_mark x ms) = add_mset x (mset ms)"
  by (induction x ms rule: put_mark.induct) simp_all

lemma put_mark_set [simp]: "set (put_mark x ms) = insert x (set ms)"
  by (metis put_mark_mset set_mset_add_mset_insert set_mset_mset)










subsection \<open>Removing blanks\<close>

text \<open>
  \<open>get_logic_word\<close> compacts its string in place, dropping blanks and the GB 18030 mark 81 39 A7 39;
  \<open>n\<close> is the length of the string and its array has one byte more. The bytes are read as the code
  compares them.
\<close>

definition is_gb2 :: "nat \<Rightarrow> nat \<Rightarrow> bool" where
  "is_gb2 b c \<longleftrightarrow> 129 \<le> b \<and> b \<le> 254 \<and> 64 \<le> c \<and> c \<le> 254"

definition is_gb4 :: "nat \<Rightarrow> nat \<Rightarrow> nat \<Rightarrow> nat \<Rightarrow> bool" where
  "is_gb4 b c e f \<longleftrightarrow> 129 \<le> b \<and> b \<le> 254 \<and> 48 \<le> c \<and> c \<le> 57 \<and> 129 \<le> e \<and> e \<le> 254 \<and> 48 \<le> f \<and> f \<le> 57"

text \<open>One round at \<open>i\<close>: the bytes it takes and whether they are dropped.\<close>

definition logic_take :: "nat buf \<Rightarrow> nat \<Rightarrow> nat \<Rightarrow> nat \<times> bool" where
  "logic_take b n i =
     (if b i < 128 then (1, b i = 32)
      else if i + 1 < n \<and> is_gb2 (b i) (b (i + 1)) then (2, False)
      else if i + 3 < n \<and> is_gb4 (b i) (b (i + 1)) (b (i + 2)) (b (i + 3))
      then (4, b i = 129 \<and> b (i + 1) = 57 \<and> b (i + 2) = 167 \<and> b (i + 3) = 57)
      else (2, False))"

text \<open>\<open>str[i - del_num + j] = str[i + j]\<close> for \<open>j = 0, \<dots>, k - 1\<close>, one after the other.\<close>

fun shift_down :: "nat buf \<Rightarrow> nat \<Rightarrow> nat \<Rightarrow> nat \<Rightarrow> nat buf" where
  "shift_down b i del 0 = b"
| "shift_down b i del (Suc k) = shift_down (b(i - del := b i)) (Suc i) del k"

function logic_loop :: "nat \<Rightarrow> nat buf \<Rightarrow> nat \<Rightarrow> nat \<Rightarrow> nat buf \<times> nat \<times> nat" where
  "logic_loop n b i del =
     (if i < n then (case logic_take b n i of (k, dropped) \<Rightarrow>
        if dropped then logic_loop n b (i + k) (del + k)
        else logic_loop n (if del > 0 then shift_down b i del k else b) (i + k) del)
      else (b, i, del))"
  by auto

termination
  by (relation "measure (\<lambda>(n, b, i, del). n - i)") (auto simp: logic_take_def split: if_splits)

definition get_logic_word :: "nat list \<Rightarrow> nat buf option" where
  "get_logic_word s = (let n = length s; b = put_list (\<lambda>_. 0) 0 s in
     case logic_loop n b 0 0 of (b1, i, del) \<Rightarrow> do {
       c_assert (i - del \<le> n);
       Some (b1(i - del := 0)) })"

text \<open>What should remain; \<open>None\<close> when the text ends in half a character.\<close>

fun kept :: "nat list \<Rightarrow> nat list option" where
  "kept [] = Some []"
| "kept (b # s) =
     (if b < 128 then (if b = 32 then kept s else map_option ((#) b) (kept s))
      else (case s of [] \<Rightarrow> None
        | c # t \<Rightarrow>
          if is_gb2 b c then map_option (\<lambda>r. b # c # r) (kept t)
          else (case t of e # f # u \<Rightarrow>
              if is_gb4 b c e f
              then (if b = 129 \<and> c = 57 \<and> e = 167 \<and> f = 57 then kept u else map_option (\<lambda>r. b # c # e # f # r) (kept u))
              else map_option (\<lambda>r. b # c # r) (kept t)
            | _ \<Rightarrow> map_option (\<lambda>r. b # c # r) (kept t))))"

lemma shift_down_get:
  assumes "0 < del" "del \<le> i"
  shows "shift_down b i del k j = (if i - del \<le> j \<and> j < i - del + k then b (j + del) else b j)"
  using assms
proof (induction k arbitrary: b i)
  case (Suc k)
  have i: "Suc i - del = Suc (i - del)" using Suc.prems by simp
  define c where "c = b(i - del := b i)"
  have c: "c j = (if j = i - del then b i else b j)" "c (j + del) = (if j + del = i - del then b i else b (j + del))"
    "c i = b i" "c (i - del) = b i" using Suc.prems by (simp_all add: c_def)
  show ?case unfolding shift_down.simps c_def [symmetric]
    using Suc.IH [of "Suc i" c] Suc.prems by (cases "j = i - del") (auto simp: i c)
qed simp

text \<open>At \<open>i\<close> the rest \<open>s\<close> is unchanged, and the bytes before \<open>i - del\<close> are what was kept.\<close>

definition logic_inv :: "nat \<Rightarrow> nat buf \<Rightarrow> nat \<Rightarrow> nat \<Rightarrow> nat list \<Rightarrow> nat list \<Rightarrow> bool" where
  "logic_inv n b i del acc s \<longleftrightarrow> i + length s = n \<and> del \<le> i \<and> get_list b i (length s) = s \<and> get_list b 0 (i - del) = acc"

lemma get_list_split: "get_list b i (m + n) = get_list b i m @ get_list b (i + m) n"
  unfolding get_list_def by (metis add.assoc le_add1 map_append upt_add_eq_append)

lemma logic_rest:
  assumes "logic_inv n b i del acc (s @ t)"
  shows "logic_inv n b (i + length s) (del + length s) acc t"
    "logic_inv n (if del > 0 then shift_down b i del (length s) else b) (i + length s) del (acc @ s) t"
proof -
  have "get_list b i (length s) @ get_list b (i + length s) (length t) = s @ t"
    using assms by (simp add: logic_inv_def get_list_split)
  then have t: "get_list b (i + length s) (length t) = t" and u: "get_list b i (length s) = s" by simp_all
  show "logic_inv n b (i + length s) (del + length s) acc t" using assms t by (simp add: logic_inv_def)
  let ?b = "if del > 0 then shift_down b i del (length s) else b"
  have b: "?b j = (if i - del \<le> j \<and> j < i - del + length s then b (j + del) else b j)" for j
    using assms shift_down_get [of del i b "length s" j] by (auto simp: logic_inv_def)
  have "get_list ?b (i + length s) (length t) = t"
    using t assms by (subst get_list_cong [of _ _ _ b]) (auto simp: b logic_inv_def)
  moreover have "get_list ?b 0 (i + length s - del) = acc @ s"
  proof (rule nth_equalityI)
    show "length (get_list ?b 0 (i + length s - del)) = length (acc @ s)" using assms by (auto simp: logic_inv_def)
    fix j assume "j < length (get_list ?b 0 (i + length s - del))"
    then have j: "j < i - del + length s" using assms by (auto simp: logic_inv_def)
    have l: "length acc = i - del" and a: "get_list b 0 (i - del) = acc" using assms by (auto simp: logic_inv_def)
    show "get_list ?b 0 (i + length s - del) ! j = (acc @ s) ! j"
    proof (cases "j < i - del")
      case True
      then have "acc ! j = b j" using a by (metis add.left_neutral get_list_nth)
      then show ?thesis using True j l assms by (simp add: b nth_append del: if_split)
    next
      case False
      then have "get_list b i (length s) ! (j - (i - del)) = b (j + del)" using j assms by (simp add: logic_inv_def)
      then show ?thesis using False j l u assms by (simp add: b nth_append logic_inv_def del: if_split)
    qed
  qed
  ultimately show "logic_inv n ?b (i + length s) del (acc @ s) t" using assms by (simp add: logic_inv_def)
qed

lemma logic_at: "logic_inv n b i del acc s \<Longrightarrow> k < length s \<Longrightarrow> b (i + k) = s ! k"
  unfolding logic_inv_def by (metis get_list_nth)

lemma kept_step:
  assumes k: "kept (c # s) = Some r" and h: "logic_inv n b i del acc (c # s)"
  shows "\<exists>u t dropped r'. c # s = u @ t \<and> u \<noteq> [] \<and> logic_take b n i = (length u, dropped) \<and> kept t = Some r' \<and>
    r = (if dropped then [] else u) @ r'"
proof -
  note at = logic_at [OF h]
  have n: "n = i + length s + 1" using h by (simp add: logic_inv_def)
  have b0: "b i = c" using at [of 0] by simp
  show ?thesis
  proof (cases "c < 128")
    case True
    obtain r' where r': "kept s = Some r'" "r = (if c = 32 then [] else [c]) @ r'"
      using k True by (auto split: if_splits)
    show ?thesis
    proof (intro exI conjI)
      show "c # s = [c] @ s" by simp
      show "logic_take b n i = (length [c], c = 32)" using True b0 by (simp add: logic_take_def)
    qed (use r' in simp_all)
  next
    case high: False
    then obtain e t where s: "s = e # t" using k by (cases s) simp_all
    have b1: "b (i + 1) = e" using at [of 1] s by simp
    show ?thesis
    proof (cases "is_gb2 c e \<or> (\<forall>f g u. t = f # g # u \<longrightarrow> \<not> is_gb4 c e f g)")
      case True
      have "kept (c # s) = map_option (\<lambda>r. c # e # r) (kept t)"
      proof (cases "is_gb2 c e")
        case False
        then show ?thesis using True high s by (cases t; cases "tl t") auto
      qed (use high s in simp)
      then obtain r' where r': "kept t = Some r'" "r = c # e # r'" using k by auto
      have take: "logic_take b n i = (2, False)"
      proof (cases "is_gb2 c e")
        case True
        then show ?thesis using high b0 b1 n s by (simp add: logic_take_def)
      next
        case False
        then have "\<not> (i + 3 < n \<and> is_gb4 (b i) (b (i + 1)) (b (i + 2)) (b (i + 3)))"
          using True at [of 2] at [of 3] b0 b1 n s by (cases t; cases "tl t") auto
        then show ?thesis using False high b0 b1 by (simp add: logic_take_def)
      qed
      show ?thesis
      proof (intro exI conjI)
        show "c # s = [c, e] @ t" using s by simp
        show "logic_take b n i = (length [c, e], False)" using take by simp
      qed (use r' in simp_all)
    next
      case False
      then obtain f g u where t: "t = f # g # u" and four: "\<not> is_gb2 c e" "is_gb4 c e f g" by auto
      let ?d = "c = 129 \<and> e = 57 \<and> f = 167 \<and> g = 57"
      have take: "logic_take b n i = (4, ?d)"
        using four high b0 b1 at [of 2] at [of 3] n s t by (simp add: logic_take_def)
      have "kept (c # s) = (if ?d then kept u else map_option (\<lambda>r. c # e # f # g # r) (kept u))"
        using high s t four by simp
      then obtain r' where r': "kept u = Some r'" "r = (if ?d then [] else [c, e, f, g]) @ r'"
        using k by (cases ?d) auto
      show ?thesis
      proof (intro exI conjI)
        show "c # s = [c, e, f, g] @ u" using s t by simp
        show "logic_take b n i = (length [c, e, f, g], ?d)" using take by simp
      qed (use r' in simp_all)
    qed
  qed
qed

lemma logic_loop_kept:
  assumes "kept s = Some r" "logic_inv n b i del acc s"
  shows "\<exists>b' del'. logic_loop n b i del = (b', n, del') \<and> logic_inv n b' n del' (acc @ r) []"
  using assms
proof (induction "length s" arbitrary: s r b i del acc rule: less_induct)
  case less
  show ?case
  proof (cases s)
    case Nil
    then show ?thesis using less.prems by (auto simp: logic_inv_def)
  next
    case (Cons c cs)
    obtain u t dropped r' where u: "c # cs = u @ t" "u \<noteq> []" and take: "logic_take b n i = (length u, dropped)"
      and r: "kept t = Some r'" "r = (if dropped then [] else u) @ r'"
      using kept_step less.prems Cons by (metis (no_types, lifting))
    have i: "i < n" "length t < length s" using less.prems(2) Cons u by (auto simp: logic_inv_def)
    note rest = logic_rest [OF less.prems(2) [unfolded Cons u(1)]]
    show ?thesis
    proof (cases dropped)
      case True
      then show ?thesis using less.hyps [OF i(2) r(1) rest(1)] i(1) take r(2) by (subst logic_loop.simps) simp
    next
      case False
      then show ?thesis using less.hyps [OF i(2) r(1) rest(2)] i(1) take r(2) by (subst logic_loop.simps) simp
    qed
  qed
qed

lemma get_logic_word_kept:
  assumes "kept s = Some r"
  shows "\<exists>b. get_logic_word s = Some b \<and> get_list b 0 (length r + 1) = r @ [0]"
proof -
  have "logic_inv (length s) (put_list (\<lambda>_. 0) 0 s) 0 0 [] s" by (simp add: logic_inv_def) (simp add: get_list_def)
  from logic_loop_kept [OF assms this] obtain b del
    where b: "logic_loop (length s) (put_list (\<lambda>_. 0) 0 s) 0 0 = (b, length s, del)" "get_list b 0 (length s - del) = r"
    by (auto simp: logic_inv_def)
  then have "length s - del = length r" by (metis get_list_length)
  then show ?thesis using b by (simp add: get_logic_word_def Let_def c_assert_def)
qed

text \<open>The blanks that a Japanese segmentation left out: where they were in the input \<open>s\<close>.\<close>

fun strncmp_eq :: "nat list \<Rightarrow> nat list \<Rightarrow> bool" where
  "strncmp_eq s [] = True"
| "strncmp_eq [] (t # ts) = (t = 0)"
| "strncmp_eq (c # s) (t # ts) = (c = t \<and> (t = 0 \<or> strncmp_eq s ts))"

function blank_loop :: "nat \<Rightarrow> nat \<Rightarrow> nat list list \<Rightarrow> nat list \<Rightarrow> nat \<Rightarrow> nat list \<Rightarrow> int \<times> nat list" where
  "blank_loop inlen n [] s j bl = (int (length bl), bl)"
| "blank_loop inlen n (t # ts) s j bl =
     (if inlen \<le> j then (int (length bl), bl)
      else if strncmp_eq s t then blank_loop inlen n ts (drop (length t) s) (j + length t) bl
      else if s \<noteq> [] \<and> hd s = 32 then (let k = length (takeWhile (\<lambda>c. c = 32) s) in
        if length bl + k > n then (int n, bl @ [j..<j + (n - length bl)])
        else blank_loop inlen n (t # ts) (drop k s) (j + k) (bl @ [j..<j + k]))
      else (-1, bl))"
  by pat_completeness auto

termination
proof (relation "measure (\<lambda>(inlen, n, ts, s, j, bl). length ts + length s)")
  fix inlen n :: nat and t :: "nat list" and ts s and j :: nat and bl and k
  assume "s \<noteq> [] \<and> hd s = (32 :: nat)" "k = length (takeWhile (\<lambda>c. c = 32) s)"
  then show "((inlen, n, t # ts, drop k s, j + k, bl @ [j..<j + k]), inlen, n, t # ts, s, j, bl)
      \<in> measure (\<lambda>(inlen, n, ts, s, j, bl). length ts + length s)" by (cases s) auto
qed auto

definition scw_get_blank_deleted :: "scw_worddict \<Rightarrow> scw_out \<Rightarrow> nat list \<Rightarrow> nat \<Rightarrow> nat \<Rightarrow> int \<times> nat list" where
  "scw_get_blank_deleted d o1 s inlen n = (if m_wdtype d = SCW_WD_CH then (0, [])
     else (let b = so_basic o1 in blank_loop inlen n (read_terms (ob_bytes b) (ob_pos b) (ob_count b)) s 0 []))"

text \<open>Words with blanks before them: the positions of the blanks.\<close>

fun blanks_at :: "nat \<Rightarrow> (nat \<times> nat list) list \<Rightarrow> nat list" where
  "blanks_at j [] = []"
| "blanks_at j ((k, t) # xs) = [j..<j + k] @ blanks_at (j + k + length t) xs"

definition blanked :: "(nat \<times> nat list) list \<Rightarrow> nat list" where
  "blanked xs = concat (map (\<lambda>(k, t). replicate k 32 @ t) xs)"

lemma strncmp_eq_self: "0 \<notin> set t \<Longrightarrow> strncmp_eq (t @ s) t"
  by (induction t) auto

lemma blank_loop_positions:
  assumes "list_all (\<lambda>(k, t). t \<noteq> [] \<and> hd t \<noteq> 32 \<and> 0 \<notin> set t) xs" "j + length (blanked xs) \<le> inlen"
    "length bl + length (blanks_at j xs) \<le> n"
  shows "blank_loop inlen n (map snd xs) (blanked xs) j bl =
    (int (length bl + length (blanks_at j xs)), bl @ blanks_at j xs)"
  using assms
proof (induction xs arbitrary: j bl)
  case (Cons x xs)
  obtain k t where x: "x = (k, t)" by (cases x)
  have t: "t \<noteq> []" "hd t \<noteq> 32" "0 \<notin> set t" using Cons.prems(1) x by simp_all
  have one: "blank_loop inlen n (t # map snd xs) (t @ blanked xs) i bl' =
      (int (length bl' + length (blanks_at (i + length t) xs)), bl' @ blanks_at (i + length t) xs)"
    if "i + length t + length (blanked xs) \<le> inlen" "length bl' + length (blanks_at (i + length t) xs) \<le> n" for i bl'
    using Cons.IH [of "i + length t" bl'] Cons.prems(1) t that strncmp_eq_self [of t] by (cases t) simp_all
  have b: "blanked (x # xs) = replicate k 32 @ t @ blanked xs" by (simp add: blanked_def x)
  show ?case
  proof (cases k)
    case 0
    then show ?thesis using one [of j bl] Cons.prems x b by simp
  next
    case (Suc k')
    have take: "takeWhile (\<lambda>c. c = 32) (replicate k 32 @ t @ blanked xs) = replicate k 32"
      using t by (cases t) (subst takeWhile_append2; auto)+
    have no: "\<not> strncmp_eq (replicate k 32 @ t @ blanked xs) t" using t Suc by (cases t) auto
    have "j < inlen" using Cons.prems(2) b Suc by simp
    then show ?thesis using one [of "j + k" "bl @ [j..<j + k]"] Cons.prems x b take no Suc by (simp add: Let_def)
  qed
qed (simp add: blanked_def)

subsection \<open>A sample result\<close>

definition sample_result :: scw_inner where
  "sample_result = sample_inner\<lparr>m_flag := SCW_OUT_BASIC, m_ppseg := (\<lambda>i. if i < 2 then Some (Dyn i) else None), m_ppseg_cnt := 2,
     m_dynbuf := put_list (\<lambda>_. 0) 0 [97, 98, 0, 99, 0], m_dynb_curpos := 5,
     m_dynlm := (\<lambda>_. zero_lemma\<lparr>m_type := LEMMA_TYPE_DBASIC, m_length := 2\<rparr>)
       (1 := zero_lemma\<lparr>m_type := LEMMA_TYPE_DBASIC, m_length := 1, m_word_bpos := 3\<rparr>),
     m_dynlm_cnt := 2\<rparr>"

definition sample_out :: scw_out where
  "sample_out = (reset_out False (the (scw_create_out 1000000 100 SCW_OUT_BASIC)))\<lparr>m_pir := sample_result\<rparr>"

definition sample_item :: scw_item where
  "sample_item = the (scw_create_item 1000000 100)"

lemma sample_item_fields: "it_size sample_item = 1000" "it_cap sample_item = 300" "it_prop sample_item \<noteq> None"
  "it_width sample_item = 0" "it_allocated sample_item"
  by (simp_all add: sample_item_def scw_create_item_def realloc_ok_def)

lemma sample_refs: "seg_refs sample_result 0 2 = [Dyn 0, Dyn 1]"
  by (simp add: seg_refs_def sample_result_def upt_rec List.map_filter_simps)

lemma sample_words:
  "all_words sample_dict sample_result [Dyn 0, Dyn 1] = [Dyn 0, Dyn 1]"
  "word_text sample_dict sample_result (Dyn 0) = [97, 98]" "word_text sample_dict sample_result (Dyn 1) = [99]"
  by (simp_all add: ref_words_def deref_def sample_result_def lemma_types word_text_def word_bytes_def dyn_bytes_def
      get_list_def put_list_def upt_rec zero_lemma_def)

lemma sample_seg_words: "seg_words sample_dict sample_result = [[97, 98], [99]]" "m_ppseg_cnt sample_result = 2"
  "m_flag sample_result = SCW_OUT_BASIC" "m_maxterm sample_result = 100"
  using sample_refs sample_words sample_inner_fields(1)
  by (simp_all add: seg_words_def sample_result_def)

lemma sample_plain_words: "plain_word sample_dict sample_result (Dyn 0)" "plain_word sample_dict sample_result (Dyn 1)"
  unfolding plain_word_def sample_words
  by (simp_all add: sample_result_def dyn_word_def zero_lemma_def deref_def lemma_types)

lemma sample_writable: "writable sample_dict sample_result 1000"
proof -
  have "wf_inner sample_dict sample_result"
    by (simp add: wf_inner_def sample_result_def sample_inner_fields null_defs dyn_word_def zero_lemma_def)
  moreover have "fits sample_dict sample_result 1000 [Dyn 0, Dyn 1]"
    unfolding fits_def list.map sample_words by (simp add: buf_text_def sample_seg_words)
  ultimately show ?thesis unfolding writable_def sample_seg_words sample_refs sample_words
    using sample_wf_phrases sample_plain_words by simp
qed

lemma sample_out_fields: "so_basic sample_out = reset_buf (no_buf\<lparr>ob_size := 1000\<rparr>)" "so_total sample_out = 0"
  "m_pir sample_out = sample_result"
  by (simp_all add: sample_out_def scw_create_out_def reset_out_def alloc_buf_def wants_def out_levels realloc_ok_def
      scw_create_inner_def max_sizes sizeofs)

lemma sample_plain: "list_all (\<lambda>t. length t < 256) (seg_words sample_dict sample_result)"
  by (simp add: sample_seg_words)

lemma seg_words_plain: "writable d p n \<Longrightarrow> list_all (\<lambda>t. length t < 256) (seg_words d p)"
  by (auto simp: writable_def seg_words_def list_all_iff plain_word_def)

lemma seg_words_text: "writable d p n \<Longrightarrow> concat (seg_words d p) = seg_text d p"
  by (simp add: writable_def seg_words_def seg_text_def all_words_texts seg_refs_ok)

lemma seg_words_room: "writable d p n \<Longrightarrow> length (buf_text (seg_words d p)) < n \<and> n \<le> 16777216 \<and> length (seg_words d p) \<le> m_maxterm p"
  by (simp add: writable_def seg_words_def fits_def)




subsection \<open>Properties\<close>

text \<open>
  C27 Writing a result and reading it through an item. After a reset, \<open>write_buf\<close> succeeds on every
  well-formed result whose words have no NUL, are shorter than 256 bytes and fit the buffer;
  \<open>scw_get_item\<close> then hands out exactly the basic words in their order, each with the number of bytes
  before it, and together they spell the text of the segmentation.
\<close>

theorem write_buf_reads_back:
  assumes "writable d (m_pir o1) (ob_size b)" "only_basic (m_flag (m_pir o1))" "so_basic o1 = reset_buf b" "so_total o1 = 0"
    and "it_allocated it \<longrightarrow> ob_size b \<le> it_size it \<and> m_maxterm (m_pir o1) \<le> it_cap it \<and> it_prop it \<noteq> None"
  shows "\<exists>o2 it'. write_buf d o1 = Some (0, o2) \<and> scw_get_item nw it o2 SCW_OUT_BASIC = Some (1, it') \<and>
    it_cnt it' = length (seg_words d (m_pir o1)) \<and>
    (\<forall>i < it_cnt it'. scw_gi_tmstr it' (int i) 256 = Some (seg_words d (m_pir o1) ! i) \<and>
       scw_gi_tmoff it' (int i) = int (length (concat (take i (seg_words d (m_pir o1)))))) \<and>
    concat (seg_words d (m_pir o1)) = seg_text d (m_pir o1)"
proof -
  let ?ts = "seg_words d (m_pir o1)"
  obtain o2 where o2: "write_buf d o1 = Some (0, o2)" "buf_holds ?ts (starts ?ts) (so_basic o2)"
    "ob_size (so_basic o2) = ob_size b" "m_pir o2 = m_pir o1"
    using write_buf_ok [OF assms(1-4)] by blast
  note e = holds_end [OF o2(2) [unfolded buf_holds_def]] and room = seg_words_room [OF assms(1)]
  have f: "wants (m_flag (m_pir o1)) SCW_OUT_BASIC" using assms(2) by (simp add: only_basic_def)
  have lev: "result_level nw o2 SCW_OUT_BASIC = Some (so_basic o2, 0)" by (simp add: result_level_def wants_def out_levels)
  have "takes it (so_basic o2)" using assms(5) o2(3) e room by (auto simp: takes_def)
  then obtain it' where it': "scw_get_item nw it o2 SCW_OUT_BASIC = Some (1, it')" "item_holds ?ts (starts ?ts) it'"
    "it_cur it' = ob_cur (so_basic o2)" "it_cur it' < it_size it'" "it_width it' = 0"
    using get_item_holds [OF o2(2) lev] basic_level [OF f] e room o2(3,4) by auto
  note rd = item_reads [OF it'(2) seg_words_plain [OF assms(1)] _ it'(4,5)]
  have "it_cur it' \<le> 16777216" "it_cnt it' = length ?ts"
    using it'(2,3) e room by (auto simp: item_holds_def holds_text_def)
  then show ?thesis using o2(1) it'(1) rd(1,3) seg_words_text [OF assms(1)] by (auto simp: starts_def)
qed

theorem write_buf_reads_back_witness:
  "\<exists>o2 it'. write_buf sample_dict sample_out = Some (0, o2) \<and>
     scw_get_item no_buf sample_item o2 SCW_OUT_BASIC = Some (1, it') \<and> scw_gi_tmstr it' 1 256 = Some [99] \<and> scw_gi_tmoff it' 1 = 2"
proof -
  have "\<exists>o2 it'. write_buf sample_dict sample_out = Some (0, o2) \<and> scw_get_item no_buf sample_item o2 SCW_OUT_BASIC = Some (1, it') \<and>
    it_cnt it' = length (seg_words sample_dict (m_pir sample_out)) \<and>
    (\<forall>i < it_cnt it'. scw_gi_tmstr it' (int i) 256 = Some (seg_words sample_dict (m_pir sample_out) ! i) \<and>
       scw_gi_tmoff it' (int i) = int (length (concat (take i (seg_words sample_dict (m_pir sample_out)))))) \<and>
    concat (seg_words sample_dict (m_pir sample_out)) = seg_text sample_dict (m_pir sample_out)"
    by (rule write_buf_reads_back [where b = "no_buf\<lparr>ob_size := 1000\<rparr>"])
      (simp_all add: sample_out_fields sample_writable sample_seg_words sample_item_fields only_basic_def wants_def out_levels)
  then show ?thesis unfolding sample_out_fields sample_seg_words by fastforce
qed

text \<open>
  C28 \<open>scw_get_result\<close> writes the same basic words directly to an item, but each of its offsets is one
  larger than the number of bytes before the word: the leading tab is counted.
\<close>

theorem get_result_offsets:
  assumes "writable d p (it_size it)" "wants (m_flag p) SCW_OUT_BASIC"
    and "m_maxterm p \<le> it_cap it" "it_prop it \<noteq> None" "it_width it = 0" "2 < it_size it"
  shows "\<exists>it'. scw_get_result d p nw it SCW_OUT_BASIC = Some (1, it') \<and> it_cnt it' = length (seg_words d p) \<and>
    (\<forall>i < it_cnt it'. scw_gi_tmstr it' (int i) 256 = Some (seg_words d p ! i) \<and>
       scw_gi_tmoff it' (int i) = 1 + int (length (concat (take i (seg_words d p)))))"
proof -
  let ?ts = "seg_words d p"
  obtain it' where it': "scw_get_result d p nw it SCW_OUT_BASIC = Some (1, it')"
    "item_holds ?ts (map Suc (starts ?ts)) it'" "it_width it' = 0" "it_size it' = it_size it"
    using get_result_ok [OF assms] by metis
  note e = holds_end [OF it'(2) [unfolded item_holds_def]] and room = seg_words_room [OF assms(1)]
  note rd = item_reads [OF it'(2) seg_words_plain [OF assms(1)] _ _ it'(3)]
  show ?thesis using it'(1) rd(1,3) e room it'(4) by (auto simp: starts_def)
qed

theorem get_result_offsets_witness:
  "\<exists>it'. scw_get_result sample_dict sample_result no_buf sample_item SCW_OUT_BASIC = Some (1, it') \<and>
     scw_gi_tmstr it' 1 256 = Some [99] \<and> scw_gi_tmoff it' 1 = 3"
  using get_result_offsets [of sample_dict sample_result sample_item no_buf] sample_writable
  by (fastforce simp: sample_seg_words sample_item_fields wants_def out_levels)



text \<open>
  C30 \<open>get_logic_word\<close> compacts in place: on every text that does not end in half a character, the array
  then holds_text the text without its blanks and without the marks 81 39 A7 39, and a NUL.
\<close>

theorem get_logic_word_compacts:
  assumes "kept s = Some r"
  shows "\<exists>b. get_logic_word s = Some b \<and> get_list b 0 (length r + 1) = r @ [0]"
  using assms by (rule get_logic_word_kept)

theorem get_logic_word_compacts_witness:
  "\<exists>b. get_logic_word [97, 32, 129, 57, 167, 57, 200, 200] = Some b \<and> get_list b 0 4 = [97, 200, 200, 0]"
proof -
  have k: "kept [97, 32, 129, 57, 167, 57, 200, 200] = Some [97, 200, 200]" by (simp add: is_gb2_def is_gb4_def)
  have n: "length [97, 200, 200 :: nat] + 1 = 4" by simp
  show ?thesis using get_logic_word_compacts [OF k] unfolding n by simp
qed

text \<open>A text that ends in half a character makes the code write its NUL behind the array.\<close>

lemma get_logic_word_overflow: "get_logic_word [200] = None"
  by (simp add: get_logic_word_def logic_take_def c_assert_def Let_def put_list_def)

end
