(* ===== verification/Names.thy ===== *)
theory Names
  imports SegFmm SegOut
begin

text \<open>
  Recognising names in a segmented text (\<open>chinese_gbk.cpp\<close>, \<open>segimpl.cpp\<close>): Chinese person names
  (\<open>humanname_recg\<close>), transliterated foreign names (\<open>fhumanname_recg\<close>) and book titles
  (\<open>bookname_recg\<close>), and \<open>fmm_postprocess\<close>, which calls them. A name replaces the entries it is
  made of; the text of the result stays the same.

  The two rule dictionaries (\<open>pdict_lsn_rule\<close>, \<open>pdict_rsn_rule\<close>) are looked up with a signature of the
  bytes by a library that is not part of the repository: they are the argument \<open>name_rules\<close>. The
  probabilities are sums of a few table entries and do not overflow.
\<close>

record name_rules =
  lsn :: "nat list \<Rightarrow> bool"
  rsn :: "nat list \<Rightarrow> bool"

definition NAME_BGN :: nat where "NAME_BGN = 0"
definition NAME_MID :: nat where "NAME_MID = 1"
definition NAME_END :: nat where "NAME_END = 2"
definition NAME_OTH :: nat where "NAME_OTH = 3"
definition MAX_FNAME_LEN_GBK :: nat where "MAX_FNAME_LEN_GBK = 14"

definition name_prob :: "scw_worddict \<Rightarrow> scw_lemma \<Rightarrow> nat \<Rightarrow> (nat \<Rightarrow> int) option" where
  "name_prob d lm ty = map_option (\<lambda>pos k. m_probbuf d (pos + k)) (scw_get_nameprob d lm ty)"

definition ref_prop :: "scw_worddict \<Rightarrow> scw_inner \<Rightarrow> lmref \<Rightarrow> scw_property" where
  "ref_prop d p r = m_property (deref d p r)"

subsection \<open>Surnames\<close>

text \<open>The texts of two entries one after the other; \<open>None\<close> inside is a text that cannot be read.\<close>

definition read_entry :: "scw_worddict \<Rightarrow> scw_inner \<Rightarrow> lmref option \<Rightarrow> nat \<Rightarrow> nat list option option" where
  "read_entry d p pl n = (case pl of None \<Rightarrow> Some (Some [])
     | Some r \<Rightarrow> do { (len, bs) \<leftarrow> get_lmstr d p (Some r) n; Some (if len < 0 then None else Some bs) })"

definition join_text :: "scw_worddict \<Rightarrow> scw_inner \<Rightarrow> lmref option \<Rightarrow> lmref option \<Rightarrow> nat \<Rightarrow> nat list option option" where
  "join_text d p a b n = do {
     t \<leftarrow> read_entry d p a n;
     case t of None \<Rightarrow> Some None
     | Some s \<Rightarrow> do { u \<leftarrow> read_entry d p b (n - length s); Some (map_option ((@) s) u) } }"

definition passes :: "(nat list \<Rightarrow> bool) \<Rightarrow> nat list option \<Rightarrow> bool" where
  "passes rule t \<longleftrightarrow> (case t of None \<Rightarrow> False | Some s \<Rightarrow> \<not> rule s)"

definition is_real_surname :: "name_rules \<Rightarrow> scw_worddict \<Rightarrow> scw_inner \<Rightarrow> nat \<Rightarrow> bool option" where
  "is_real_surname rl d p i = do {
     r \<leftarrow> m_ppseg p i;
     if \<not> IS_SURNAME (ref_prop d p r) then Some False
     else do {
       left \<leftarrow> (if 0 < i then map_option (passes (lsn rl)) (join_text d p (m_ppseg p (i - 1)) (Some r) 512) else Some True);
       if \<not> left then Some False
       else if i < m_ppseg_cnt p - 1
       then map_option (passes (rsn rl)) (join_text d p (Some r) (m_ppseg p (i + 1)) 512)
       else Some True } }"

subsection \<open>Chinese names\<close>

definition judge_3cname :: "scw_worddict \<Rightarrow> scw_lemma \<Rightarrow> scw_lemma \<Rightarrow> scw_lemma \<Rightarrow> bool \<Rightarrow> bool" where
  "judge_3cname d lm1 lm2 lm3 flag =
     (case (name_prob d lm1 DATA_CNAME, name_prob d lm2 DATA_CNAME, name_prob d lm3 DATA_CNAME) of
        (Some b1, Some b2, Some b3) \<Rightarrow>
          (let name_power = b1 NAME_BGN + b2 NAME_MID + b3 NAME_END; tmp = max (b3 NAME_OTH) (b3 NAME_BGN) in
           if name_power < b1 NAME_OTH + b2 NAME_OTH + tmp then False
           else if name_power < b1 NAME_OTH + b2 NAME_BGN + b3 NAME_END then False
           else if flag \<and> IS_NAME_STICK (m_property lm3) then True
           else \<not> name_power < b1 NAME_BGN + b2 NAME_END + tmp)
      | _ \<Rightarrow> False)"

text \<open>\<open>create_dynword\<close> on bytes; the new record takes the place of \<open>n\<close> entries from \<open>a\<close> on.\<close>

definition name_word :: "scw_inner \<Rightarrow> nat list \<Rightarrow> nat \<Rightarrow> nat \<Rightarrow> int \<times> scw_inner" where
  "name_word p bs a n = (let (k, p1) = create_dynword p (map char_of bs) in
     if k < 0 then (-1, p1) else (k, drop_ppseg p1 a n (Dyn (nat k))))"

definition is_3word_cname :: "scw_worddict \<Rightarrow> scw_inner \<Rightarrow> nat \<Rightarrow> (int \<times> scw_inner) option" where
  "is_3word_cname d p pos =
     (if pos + 2 \<ge> m_ppseg_cnt p then Some (0, p)
      else case (m_ppseg p pos, m_ppseg p (pos + 1), m_ppseg p (pos + 2)) of
        (Some r1, Some r2, Some r3) \<Rightarrow>
          if \<not> IS_NAMEMID (ref_prop d p r2) \<or> \<not> IS_1W_NAMEEND (ref_prop d p r3) \<or>
            m_ppseg_flag p (pos + 1) = 1 \<or> m_ppseg_flag p (pos + 2) = 1 then Some (0, p)
          else if judge_3cname d (deref d p r1) (deref d p r2) (deref d p r3) True then do {
            t \<leftarrow> join_text d p (Some r2) (Some r3) (2 * MAX_WORD_LEN);
            Some (case t of None \<Rightarrow> (0, p)
              | Some bs \<Rightarrow> (case name_word p bs (pos + 1) 2 of (k, q) \<Rightarrow> if k < 0 then (-1, q) else (1, q))) }
          else Some (0, p)
      | _ \<Rightarrow> Some (0, p))"

definition is_2word_cname :: "scw_worddict \<Rightarrow> scw_inner \<Rightarrow> nat \<Rightarrow> (int \<times> scw_inner) option" where
  "is_2word_cname d p pos =
     (if pos + 1 \<ge> m_ppseg_cnt p then Some (0, p)
      else case (m_ppseg p pos, m_ppseg p (pos + 1)) of
        (Some r1, Some r2) \<Rightarrow>
          if \<not> IS_NAMEEND (ref_prop d p r2) \<or> IS_HOUZHUI (ref_prop d p r2) \<or> m_ppseg_flag p (pos + 1) = 1 then Some (0, p)
          else (case (name_prob d (deref d p r1) DATA_CNAME, name_prob d (deref d p r2) DATA_CNAME) of
              (Some b1, Some b2) \<Rightarrow>
                if b1 NAME_BGN + b2 NAME_END < b1 NAME_OTH + max (b2 NAME_OTH) (b2 NAME_BGN) then Some (0, p)
                else if IS_PHRASE (ref_prop d p r2) then do {
                  t \<leftarrow> read_entry d p (Some r2) (2 * MAX_WORD_LEN);
                  Some (case t of None \<Rightarrow> (0, p)
                    | Some bs \<Rightarrow> (case name_word p bs (pos + 1) 1 of (k, q) \<Rightarrow> if k < 0 then (-1, q) else (1, q))) }
                else Some (1, p)
            | _ \<Rightarrow> Some (0, p))
      | _ \<Rightarrow> Some (0, p))"

text \<open>
  The two words of a prefix such as a surname and the first word of a given name: the lemma of the
  first, the record of the second, the text and the two lengths. \<open>None\<close> inside is the early
  \<open>return 0\<close>; a word without a lemma is a null pointer.
\<close>

definition split_prefix :: "scw_worddict \<Rightarrow> scw_inner \<Rightarrow> lmref \<Rightarrow> nat \<Rightarrow> (lmref \<times> scw_lemma \<times> nat list \<times> nat \<times> nat) option option" where
  "split_prefix d p r n = (let lm = deref d p r; surname = (\<lambda>l1 l2. IS_SURNAME (m_property l1) \<and> IS_NAMEMID (m_property l2)) in
     if IS_PHRASE (m_property lm) then
       (let pos1 = m_phinfo d (m_word_bpos lm + 1); lm1 = m_lemmalist d pos1;
            lm2 = m_lemmalist d (m_phinfo d (m_word_bpos lm + 2)) in
        if \<not> surname lm1 lm2 then Some None
        else do { t \<leftarrow> read_entry d p (Some r) n;
          Some (map_option (\<lambda>bs. (Static pos1, lm2, bs, m_length lm1, m_length lm2)) t) })
     else do {
       t \<leftarrow> read_entry d p (Some r) n;
       case t of None \<Rightarrow> Some None
       | Some bs \<Rightarrow> do {
           let s = map char_of bs;
           let (v1, len1) = scw_get_word s 0 (length bs);
           l1 \<leftarrow> get_oneword_lemma d v1;
           let (v2, len2) = scw_get_word (drop len1 s) 0 (length bs);
           l2 \<leftarrow> get_oneword_lemma d v2;
           pos1 \<leftarrow> l1;
           if \<not> IS_SURNAME (m_property (m_lemmalist d pos1)) then Some None
           else do {
             pos2 \<leftarrow> l2;
             if \<not> IS_NAMEMID (m_property (m_lemmalist d pos2)) then Some None
             else Some (Some (Static pos1, m_lemmalist d pos2, bs, len1, len2)) } } })"

text \<open>
  \<open>buff\<close>, which has \<open>4 * MAX_WORD_LEN\<close> bytes, holds the name behind \<open>llen\<close> free bytes; the text of the
  entry before it is then read to the front, its NUL falls on the name and is repaired.
\<close>

definition c_string :: "nat buf \<Rightarrow> nat \<Rightarrow> nat list" where
  "c_string b pos = takeWhile (\<lambda>c. c \<noteq> 0) (get_list b pos (4 * MAX_WORD_LEN - pos))"

definition name_left :: "name_rules \<Rightarrow> scw_worddict \<Rightarrow> scw_inner \<Rightarrow> lmref option \<Rightarrow> nat \<Rightarrow> nat \<Rightarrow> nat buf \<Rightarrow> (nat buf \<times> nat \<times> bool) option option" where
  "name_left rl d p pl llen len1 b = (case pl of None \<Rightarrow> Some (Some (b, llen, True))
     | Some lr \<Rightarrow> if llen = 0 then Some None
       else do { t0 \<leftarrow> read_entry d p (Some lr) (4 * MAX_WORD_LEN);
         Some (map_option (\<lambda>bs. let b2 = put_list (put_list b 0 (bs @ [0])) (length bs) (get_list b llen 2) in
           (b2, length bs, \<not> lsn rl (get_list b2 0 (length bs + len1)))) t0) })"

definition long_name_word :: "scw_inner \<Rightarrow> nat \<Rightarrow> lmref \<Rightarrow> nat list \<Rightarrow> int \<times> scw_inner" where
  "long_name_word p i r1 bs = (let (k, p1) = create_dynword p (map char_of bs) in
     if k < 0 then (-1, p1)
     else (1, p1\<lparr>m_ppseg := (m_ppseg p1)(i := Some r1, i + 1 := Some (Dyn (nat k)))\<rparr>))"

definition canbe_long_name :: "name_rules \<Rightarrow> scw_worddict \<Rightarrow> scw_inner \<Rightarrow> nat \<Rightarrow> (int \<times> scw_inner) option" where
  "canbe_long_name rl d p i = do {
     r \<leftarrow> m_ppseg p i;
     if i = m_ppseg_cnt p - 1 then Some (0, p)
     else case m_ppseg p (i + 1) of None \<Rightarrow> Some (0, p) | Some nr \<Rightarrow>
       if \<not> IS_1W_NAMEEND (ref_prop d p nr) \<or> m_ppseg_flag p (i + 1) = 1 then Some (0, p)
       else do {
         let pl = (if 0 < i then m_ppseg p (i - 1) else None);
         let llen = (case pl of None \<Rightarrow> 0 | Some lr \<Rightarrow> m_length (deref d p lr));
         sp \<leftarrow> split_prefix d p r (4 * MAX_WORD_LEN - llen);
         case sp of None \<Rightarrow> Some (0, p) | Some (r1, lm2, t, len1, len2) \<Rightarrow> do {
           u \<leftarrow> read_entry d p (Some nr) (4 * MAX_WORD_LEN - llen - len1 - len2);
           case u of None \<Rightarrow> Some (0, p) | Some t3 \<Rightarrow> do {
             let b1 = put_list (put_list (\<lambda>_. 0) llen (t @ [0])) (llen + len1 + len2) (t3 @ [0]);
             if rsn rl (get_list b1 llen (length t + length t3)) then Some (0, p)
             else do {
               left \<leftarrow> name_left rl d p pl llen len1 b1;
               case left of None \<Rightarrow> Some (0, p) | Some (b2, llen2, ok) \<Rightarrow>
                 if \<not> ok then Some (0, p)
                 else if judge_3cname d (deref d p r1) lm2 (deref d p nr) False
                 then Some (long_name_word p i r1 (c_string b2 (llen2 + len1)))
                 else Some (0, p) } } } } }"

text \<open>
  One entry: how many entries it takes, and the return code. The callers test the result of
  \<open>canbe_long_name\<close> as a truth value, so -1 counts as a name too.
\<close>

definition name_step :: "name_rules \<Rightarrow> scw_worddict \<Rightarrow> scw_inner \<Rightarrow> nat \<Rightarrow> lmref \<Rightarrow> (nat \<times> scw_inner) option" where
  "name_step rl d p i r =
     (if IS_2WHPREFIX (ref_prop d p r)
      then do { (e, p1) \<leftarrow> canbe_long_name rl d p i; Some (if e \<noteq> 0 then 2 else 1, p1) }
      else do {
        s \<leftarrow> is_real_surname rl d p i;
        if s then do {
          (e, p1) \<leftarrow> is_3word_cname d p i;
          if e = 1 then Some (3, p1)
          else do { (e2, p2) \<leftarrow> is_2word_cname d p1 i; Some (if e2 = 1 then 2 else 1, p2) } }
        else Some (1, p) })"

definition name_at :: "name_rules \<Rightarrow> scw_worddict \<Rightarrow> scw_inner \<Rightarrow> nat \<Rightarrow> (nat \<times> int \<times> scw_inner) option" where
  "name_at rl d p i = (case m_ppseg p i of None \<Rightarrow> Some (1, 0, p) | Some r \<Rightarrow>
     if m_ppseg_flag p i = 1 then Some (1, 0, p)
     else do {
       (step, p1) \<leftarrow> name_step rl d p i r;
       if step > 1 then do {
         (pos, p2) \<leftarrow> poly_lemmas d p1 i step;
         Some (step, if pos = -1 then (-1, p2)
           else if pos \<noteq> -2 then (0, upd_dynlm p2 (nat pos) (set_property (\<lambda>x. SET_CH_NAME (SET_HUMAN_NAME x))))
           else (0, p2)) }
       else Some (step, 0, p1) })"

lemma name_at_step: "name_at rl d p i = Some (step, e, q) \<Longrightarrow> 0 < step"
  by (auto simp: name_at_def name_step_def bind_eq_Some_conv split: option.splits if_splits)

function humanname_loop :: "name_rules \<Rightarrow> scw_worddict \<Rightarrow> nat \<Rightarrow> scw_inner \<Rightarrow> nat \<Rightarrow> (int \<times> scw_inner) option" where
  "humanname_loop rl d cnt p i =
     (if i < cnt then (case name_at rl d p i of None \<Rightarrow> None
        | Some (step, e, q) \<Rightarrow> if e < 0 then Some (-1, q) else humanname_loop rl d cnt q (i + step))
      else Some (0, p))"
  by pat_completeness auto

termination
  by (relation "measure (\<lambda>(rl, d, cnt, p, i). cnt - i)") (auto dest: name_at_step)

declare humanname_loop.simps [simp del]

text \<open>None of these functions changes \<open>m_ppseg_cnt\<close>.\<close>

definition humanname_recg :: "name_rules \<Rightarrow> scw_worddict \<Rightarrow> scw_inner \<Rightarrow> (int \<times> scw_inner) option" where
  "humanname_recg rl d p = humanname_loop rl d (m_ppseg_cnt p) p 0"

subsection \<open>Foreign names\<close>

text \<open>The sums that the first loop over the entries of a candidate computes.\<close>

record fname_sums =
  fs_text :: "nat list"
  fs_power :: int
  fs_other :: int
  fs_backcnt :: nat
  fs_backpos :: nat
  fs_end :: bool
  fs_bgn :: bool

definition fname_add :: "nat \<Rightarrow> nat \<Rightarrow> scw_property \<Rightarrow> (nat \<Rightarrow> int) \<Rightarrow> nat list \<Rightarrow> fname_sums \<Rightarrow> fname_sums" where
  "fname_add n i pr b bs s =
     (let s1 = s\<lparr>fs_text := fs_text s @ bs, fs_other := fs_other s + b NAME_OTH\<rparr>; last = IS_FNAMEEND pr in
      if i = 0 then s1\<lparr>fs_power := fs_power s + b NAME_BGN\<rparr>
      else if i = n - 1 then s1\<lparr>fs_power := fs_power s + b NAME_END\<rparr>
      else s1\<lparr>fs_power := fs_power s + b NAME_MID,
        fs_backcnt := (if last \<and> \<not> fs_end s then i + 1 else fs_backcnt s),
        fs_backpos := (if last \<and> \<not> fs_end s then length (fs_text s1) else fs_backpos s),
        fs_end := (fs_end s \<or> last), fs_bgn := (fs_bgn s \<or> IS_FNAMEBGN pr)\<rparr>)"

text \<open>
  The entries with their indices from \<open>i\<close> on, of \<open>n\<close>; \<open>None\<close> inside is the early \<open>return 0\<close>. The counter
  \<open>c\<close> of the code is positive exactly when \<open>meet_end\<close> is set.
\<close>

fun fname_scan :: "scw_worddict \<Rightarrow> scw_inner \<Rightarrow> nat \<Rightarrow> nat \<Rightarrow> lmref option list \<Rightarrow> fname_sums \<Rightarrow> fname_sums option option" where
  "fname_scan d p n i [] s = Some (Some s)"
| "fname_scan d p n i (None # es) s = fname_scan d p n (i + 1) es s"
| "fname_scan d p n i (Some r # es) s = do {
     t \<leftarrow> read_entry d p (Some r) (MAX_WORD_LEN - length (fs_text s));
     case t of None \<Rightarrow> Some None | Some bs \<Rightarrow>
       (case name_prob d (deref d p r) DATA_FNAME of None \<Rightarrow> Some None | Some b \<Rightarrow>
         fname_scan d p n (i + 1) es (fname_add n i (ref_prop d p r) b bs s)) }"

text \<open>
  The two passes that read the entries as several names, forwards and backwards; \<open>inside\<close> is the state
  (0 forwards, 1 backwards) in which a name has been entered.
\<close>

fun fname_forward :: "scw_worddict \<Rightarrow> scw_inner \<Rightarrow> nat \<Rightarrow> nat \<Rightarrow> bool \<Rightarrow> lmref option list \<Rightarrow> int \<Rightarrow> int option" where
  "fname_forward d p n i inside [] c = Some c"
| "fname_forward d p n i inside (None # es) c = fname_forward d p n (i + 1) inside es c"
| "fname_forward d p n i inside (Some r # es) c =
     (case name_prob d (deref d p r) DATA_FNAME of None \<Rightarrow> None | Some b \<Rightarrow>
       if i = 0 then fname_forward d p n (i + 1) inside es (c + b NAME_BGN)
       else if inside then
         if IS_FNAMEEND (ref_prop d p r) then fname_forward d p n (i + 1) False es (c + b NAME_END)
         else fname_forward d p n (i + 1) True es (c + b NAME_MID)
       else if IS_FNAMEBGN (ref_prop d p r) \<and> i < n - 1 then fname_forward d p n (i + 1) True es (c + b NAME_BGN)
       else fname_forward d p n (i + 1) False es (c + b NAME_OTH))"

fun fname_backward :: "scw_worddict \<Rightarrow> scw_inner \<Rightarrow> nat \<Rightarrow> bool \<Rightarrow> (nat \<times> lmref option) list \<Rightarrow> int \<Rightarrow> int option" where
  "fname_backward d p n inside [] c = Some c"
| "fname_backward d p n inside ((i, None) # es) c = fname_backward d p n inside es c"
| "fname_backward d p n inside ((i, Some r) # es) c =
     (case name_prob d (deref d p r) DATA_FNAME of None \<Rightarrow> None | Some b \<Rightarrow>
       if i = n - 1 then fname_backward d p n inside es (c + b NAME_END)
       else if inside then
         if IS_FNAMEBGN (ref_prop d p r) then fname_backward d p n False es (c + b NAME_BGN)
         else fname_backward d p n True es (c + b NAME_MID)
       else if IS_FNAMEEND (ref_prop d p r) \<and> i > 0 then fname_backward d p n True es (c + b NAME_END)
       else fname_backward d p n False es (c + b NAME_OTH))"

text \<open>The tests before the loops, on the lemmas of the candidate.\<close>

definition fname_candidate :: "scw_worddict \<Rightarrow> scw_inner \<Rightarrow> lmref list \<Rightarrow> bool" where
  "fname_candidate d p rs \<longleftrightarrow> (case rs of [] \<Rightarrow> False | r # rs' \<Rightarrow>
     \<not> (length rs = 2 \<and> IS_ONEWORD (ref_prop d p r) \<and>
        list_ex (\<lambda>x. IS_ONEWORD (ref_prop d p x) \<and> \<not> IS_2FNAMEEND (ref_prop d p x)) rs') \<and>
     list_ex (\<lambda>x. x \<noteq> r) rs' \<and> phrase_length d p rs \<le> MAX_FNAME_LEN_GBK \<and> phrase_length d p rs < MAX_LEMMA_LENGTH)"

text \<open>
  How many entries the name takes, once the sums are known: all, none, one (no name), or those up to
  the first entry that may end a name.
\<close>

definition fname_choice :: "name_rules \<Rightarrow> scw_worddict \<Rightarrow> scw_inner \<Rightarrow> lmref option list \<Rightarrow> fname_sums \<Rightarrow> nat" where
  "fname_choice rl d p es s = (let n = length es in
     if rsn rl (fs_text s) \<or> fs_power s < fs_other s then 0
     else case (if fs_end s then fname_forward d p n 0 True es 0 else Some (fs_power s)) of None \<Rightarrow> 0 | Some c1 \<Rightarrow>
       (case (if fs_bgn s then fname_backward d p n True (rev (zip [0..<n] es)) 0 else Some (fs_power s)) of None \<Rightarrow> 0 | Some c2 \<Rightarrow>
         if fs_power s < c1 \<or> fs_power s < c2 then
           if c1 > c2 then if rsn rl (take (fs_backpos s) (fs_text s)) then 0 else fs_backcnt s
           else 1
         else n))"

text \<open>\<open>namestr\<close> is cut at \<open>backlmpos\<close> when the name ends there.\<close>

definition judge_fname :: "name_rules \<Rightarrow> scw_worddict \<Rightarrow> scw_inner \<Rightarrow> nat \<Rightarrow> nat \<Rightarrow> (int \<times> scw_inner) option" where
  "judge_fname rl d p bpos lmcnt = (let es = get_list (m_ppseg p) bpos lmcnt in
     if lmcnt \<le> 1 then Some (0, p)
     else do {
       r0 \<leftarrow> m_ppseg p bpos;
       if \<not> fname_candidate d p (seg_refs p bpos lmcnt) then Some (0, p)
       else do {
         s \<leftarrow> fname_scan d p lmcnt 0 es \<lparr>fs_text = [], fs_power = 0, fs_other = 0, fs_backcnt = 0, fs_backpos = 0, fs_end = False, fs_bgn = False\<rparr>;
         case s of None \<Rightarrow> Some (0, p) | Some s \<Rightarrow>
           (let n = fname_choice rl d p es s in
            if n > 1 then
              (let (k, q) = name_word p (if n = lmcnt then fs_text s else take (fs_backpos s) (fs_text s)) bpos n in
               Some (if k < 0 then (-1, q) else (int n, upd_dynlm q (nat k) (set_property SET_FMNAME))))
            else Some (int n, p)) } })"

text \<open>
  How far a candidate that begins at \<open>i\<close> reaches: \<open>j\<close> entries have been passed, \<open>step\<close> of them up to
  one that may end a name.
\<close>

function fname_reach :: "scw_worddict \<Rightarrow> scw_inner \<Rightarrow> nat \<Rightarrow> nat \<Rightarrow> nat \<Rightarrow> nat" where
  "fname_reach d p i j step =
     (if i + j < m_ppseg_cnt p then
        (case m_ppseg p (i + j) of None \<Rightarrow> fname_reach d p i (j + 1) step
         | Some r \<Rightarrow>
           if m_ppseg_flag p (i + j) = 1 then 1
           else if IS_FNAMEMID (ref_prop d p r)
           then fname_reach d p i (j + 1) (if IS_FNAMEEND (ref_prop d p r) then j + 1 else step)
           else if IS_FNAMEEND (ref_prop d p r) then j + 1
           else step)
      else step)"
  by pat_completeness auto

termination
  by (relation "measure (\<lambda>(d, p, i, j, step). m_ppseg_cnt p - (i + j))") auto

declare fname_reach.simps [simp del]

definition fname_at :: "name_rules \<Rightarrow> scw_worddict \<Rightarrow> scw_inner \<Rightarrow> nat \<Rightarrow> (nat \<times> scw_inner) option" where
  "fname_at rl d p i = (case m_ppseg p i of None \<Rightarrow> Some (1, p) | Some r \<Rightarrow>
     if m_ppseg_flag p i = 1 \<or> \<not> IS_FNAMEBGN (ref_prop d p r) then Some (1, p)
     else (let step = fname_reach d p i 1 1 in
       if step > 1 then do {
         (ret, q) \<leftarrow> judge_fname rl d p i step;
         Some (if ret > 0 then nat ret else 1, q) }
       else Some (1, p)))"

lemma fname_at_step: "fname_at rl d p i = Some (step, q) \<Longrightarrow> 0 < step"
  by (auto simp: fname_at_def Let_def bind_eq_Some_conv split: option.splits if_splits)

function fhumanname_loop :: "name_rules \<Rightarrow> scw_worddict \<Rightarrow> nat \<Rightarrow> scw_inner \<Rightarrow> nat \<Rightarrow> (int \<times> scw_inner) option" where
  "fhumanname_loop rl d cnt p i =
     (if i < cnt then (case fname_at rl d p i of None \<Rightarrow> None | Some (step, q) \<Rightarrow> fhumanname_loop rl d cnt q (i + step))
      else Some (0, p))"
  by pat_completeness auto

termination
  by (relation "measure (\<lambda>(rl, d, cnt, p, i). cnt - i)") (auto dest: fname_at_step)

declare fhumanname_loop.simps [simp del]

definition fhumanname_recg :: "name_rules \<Rightarrow> scw_worddict \<Rightarrow> scw_inner \<Rightarrow> (int \<times> scw_inner) option" where
  "fhumanname_recg rl d p = fhumanname_loop rl d (m_ppseg_cnt p) p 0"

subsection \<open>Book titles\<close>

text \<open>\<open>bn\<close> is the entry of the last opening mark (\<open>bn_bpos\<close>, -1 for none).\<close>

fun bookname_loop :: "scw_worddict \<Rightarrow> scw_inner \<Rightarrow> nat option \<Rightarrow> nat list \<Rightarrow> (int \<times> scw_inner) option" where
  "bookname_loop d p bn [] = Some (0, p)"
| "bookname_loop d p bn (i # is) = (case m_ppseg p i of None \<Rightarrow> bookname_loop d p bn is
     | Some r \<Rightarrow>
       if IS_BOOKNAME_START (ref_prop d p r) then bookname_loop d p (Some i) is
       else if IS_BOOKNAME_END (ref_prop d p r) then
         (case bn of None \<Rightarrow> bookname_loop d p None is
          | Some b \<Rightarrow> do {
              (pos, q) \<leftarrow> poly_lemmas d p b (i - b + 1);
              if pos = -1 then Some (-1, q)
              else bookname_loop d (if pos \<noteq> -2 then upd_dynlm q (nat pos) (set_property SET_BOOKNAME) else q) None is })
       else bookname_loop d p bn is)"

definition bookname_recg :: "scw_worddict \<Rightarrow> scw_inner \<Rightarrow> (int \<times> scw_inner) option" where
  "bookname_recg d p = bookname_loop d p None [0..<m_ppseg_cnt p]"

subsection \<open>After the segmentation\<close>

text \<open>\<open>tn\<close> is the switch \<open>g_scw_tn\<close>. A function is not called when the one before it failed.\<close>

definition run_if :: "bool \<Rightarrow> (scw_inner \<Rightarrow> (int \<times> scw_inner) option) \<Rightarrow> scw_inner \<Rightarrow> (int \<times> scw_inner) option" where
  "run_if c f p = (if c then f p else Some (0, p))"

definition fmm_postprocess :: "name_rules \<Rightarrow> bool \<Rightarrow> scw_worddict \<Rightarrow> scw_inner \<Rightarrow> (int \<times> scw_inner) option" where
  "fmm_postprocess rl tn d p = (let names = (m_wdtype d AND SCW_WD_CH \<noteq> 0 \<and> wants (m_flag p) SCW_OUT_HUMANNAME) in
     and_then (run_if tn (tn_recg d) p) (\<lambda>p.
     and_then (run_if names (humanname_recg rl d) p) (\<lambda>p.
     and_then (run_if names (fhumanname_recg rl d) p) (\<lambda>p.
     and_then (run_if (wants (m_flag p) SCW_OUT_BOOKNAME) (bookname_recg d) p) (\<lambda>p. Some (1, p))))))"

subsection \<open>Changing entries without changing the text\<close>

definition keeps :: "scw_worddict \<Rightarrow> scw_inner \<Rightarrow> scw_inner \<Rightarrow> bool" where
  "keeps d p q \<longleftrightarrow> wf_inner d q \<and> inner_ext p q \<and> m_ppseg_cnt q = m_ppseg_cnt p \<and> seg_text d q = seg_text d p"

definition same_from :: "nat \<Rightarrow> scw_inner \<Rightarrow> scw_inner \<Rightarrow> bool" where
  "same_from i p q \<longleftrightarrow> (\<forall>j \<ge> i. m_ppseg q j = m_ppseg p j)"

lemma keeps_refl: "wf_inner d p \<Longrightarrow> keeps d p p"
  by (simp add: keeps_def)

lemma keeps_trans: "keeps d p q \<Longrightarrow> keeps d q s \<Longrightarrow> keeps d p s"
  by (auto simp: keeps_def intro: inner_ext_trans)

lemma same_from_refl [simp]: "same_from i p p"
  by (simp add: same_from_def)

lemma same_from_trans: "same_from i p q \<Longrightarrow> same_from j q s \<Longrightarrow> i \<le> k \<Longrightarrow> j \<le> k \<Longrightarrow> same_from k p s"
  by (simp add: same_from_def)

lemma replace_ok:
  assumes d: "wf_phrases d" and w: "wf_inner d p" and an: "a + n \<le> m_ppseg_cnt p" and q: "q = p\<lparr>m_ppseg := f\<rparr>"
    and out: "\<And>j. j < a \<or> a + n \<le> j \<Longrightarrow> f j = m_ppseg p j"
    and new: "\<And>j r. a \<le> j \<Longrightarrow> j < a + n \<Longrightarrow> f j = Some r \<Longrightarrow> seg_ref d p r"
    and same_text: "concat (map (lm_text d p) (seg_refs q a n)) = concat (map (lm_text d p) (seg_refs p a n))"
  shows "keeps d p q \<and> same_from (a + n) p q"
proof -
  have e: "inner_ext p q" by (simp add: q inner_ext_def)
  have w': "wf_inner d q"
  proof (rule wf_inner_add [OF d w e])
    fix i r assume "i < m_ppseg_cnt q" "m_ppseg q i = Some r"
    then have "seg_ref d p r" using out [of i] new [of i r] wf_inner_seg [OF w, of i r]
      by (cases "i < a \<or> a + n \<le> i") (auto simp: q)
    then show "seg_ref d q r" by (rule seg_ref_ext [OF e])
  qed (use w in \<open>simp_all add: q wf_inner_def\<close>)
  let ?n = "m_ppseg_cnt p"
  let ?t = "\<lambda>s. concat (map (lm_text d s) (seg_refs s 0 a)) @ concat (map (lm_text d s) (seg_refs s a n)) @
    concat (map (lm_text d s) (seg_refs s (a + n) (?n - (a + n))))"
  have split: "seg_text d s = ?t s" if "m_ppseg_cnt s = ?n" for s
    using seg_refs_split [of s 0 a "?n - a"] seg_refs_split [of s a n "?n - (a + n)"] an that by (simp add: seg_text_def)
  have tx: "map (lm_text d q) (seg_refs q b m) = map (lm_text d p) (seg_refs q b m)" if "b + m \<le> ?n" for b m
  proof (rule map_cong [OF refl])
    fix r assume "r \<in> set (seg_refs q b m)"
    then have "r \<in> set (seg_refs q b m)" "list_all (seg_ref d q) (seg_refs q b m)"
      using seg_refs_valid [OF w', of b m] that by (simp_all add: q)
    then have "seg_ref d q r" by (simp add: list_all_iff)
    then have "seg_ref d p r" by (cases r) (simp_all add: q)
    then show "lm_text d q r = lm_text d p r" by (rule lm_text_ext(2) [OF d w w' e])
  qed
  have "seg_refs q 0 a = seg_refs p 0 a" "seg_refs q (a + n) (?n - (a + n)) = seg_refs p (a + n) (?n - (a + n))"
    using out by (auto simp: q intro!: seg_refs_cong)
  then have "?t q = ?t p" using tx [of 0 a] tx [of a n] tx [of "a + n" "?n - (a + n)"] an same_text by (simp del: map_eq_conv)
  then have "seg_text d q = seg_text d p" using split [of q] split [of p] by (simp add: q)
  then show ?thesis using w' e out by (simp add: keeps_def same_from_def q)
qed

lemma keeps_property:
  assumes "keeps d p q" "m_dynlm_cnt p \<le> k" "k < m_dynlm_cnt q"
  shows "keeps d p (upd_dynlm q k (set_property f))"
proof -
  let ?p = "q\<lparr>m_dynlm_cnt := k, m_ppseg_cnt := 0\<rparr>"
  have a: "appended ?p q" using assms(3) by (simp add: appended_def inner_ext_def)
  have "m_dynlm_cnt ?p \<le> k" by simp
  note S = set_property_ok [OF _ a this, of d f]
  have "wf_inner d q" using assms(1) by (simp add: keeps_def)
  from S [OF this] show ?thesis using assms by (simp add: keeps_def inner_ext_def)
qed

lemma poly_lemmas_long:
  assumes "poly_lemmas d p a n = Some (-2, q)"
  shows "q = p"
  using assms by (auto simp: poly_lemmas_def Let_def bind_eq_Some_conv c_assert_def split: if_splits)

lemma poly_keeps:
  assumes d: "wf_phrases d" and w: "wf_inner d p" and an: "a + n \<le> m_ppseg_cnt p"
    and c: "poly_lemmas d p a n = Some (e, q)" and e: "0 \<le> e \<or> e = -2"
  shows "keeps d p q" "same_from (a + n) p q" "0 \<le> e \<Longrightarrow> e = int (m_dynlm_cnt p) \<and> m_dynlm_cnt p < m_dynlm_cnt q"
proof -
  have "keeps d p q \<and> same_from (a + n) p q \<and> (0 \<le> e \<longrightarrow> e = int (m_dynlm_cnt p) \<and> m_dynlm_cnt p < m_dynlm_cnt q)"
  proof (cases "0 \<le> e")
    case True
    note P = poly_lemmas_phrase [OF d w an c True] and O = poly_lemmas_ok [OF d w an c True]
    show ?thesis using O P(1,2,3) by (auto simp: keeps_def same_from_def P(5) fill_def has_phrase_def)
  next
    case False
    then have "q = p" using e poly_lemmas_long c by auto
    then show ?thesis using False keeps_refl [OF w] by simp
  qed
  then show "keeps d p q" "same_from (a + n) p q" "0 \<le> e \<Longrightarrow> e = int (m_dynlm_cnt p) \<and> m_dynlm_cnt p < m_dynlm_cnt q"
    by simp_all
qed

text \<open>Joining entries into a phrase and marking it, as the recognisers do.\<close>

definition after_poly :: "(scw_property \<Rightarrow> scw_property) \<Rightarrow> int \<Rightarrow> scw_inner \<Rightarrow> scw_inner" where
  "after_poly f pos q = (if pos \<noteq> -2 then upd_dynlm q (nat pos) (set_property f) else q)"

lemma poly_result:
  assumes "poly_lemmas d p a n = Some (e, q)"
  shows "0 \<le> e \<or> e = -1 \<or> e = -2"
  using assms by (auto simp: poly_lemmas_def Let_def bind_eq_Some_conv split: if_splits)

lemma after_poly_keeps:
  assumes d: "wf_phrases d" and w: "wf_inner d p" and an: "a + n \<le> m_ppseg_cnt p"
    and c: "poly_lemmas d p a n = Some (e, q)" and e: "e \<noteq> -1"
  shows "keeps d p (after_poly f e q)" "same_from (a + n) p (after_poly f e q)"
proof -
  have e': "0 \<le> e \<or> e = -2" using poly_result [OF c] e by blast
  note P = poly_keeps [OF d w an c e']
  show "keeps d p (after_poly f e q)"
    using P(1,3) e' keeps_property [OF P(1), of "nat e" f] by (auto simp: after_poly_def)
  show "same_from (a + n) p (after_poly f e q)" using P(2) by (simp add: after_poly_def same_from_def)
qed

text \<open>Where an entry keeps the length of its text; a record has eight bits for it.\<close>

definition len_ok_at :: "scw_worddict \<Rightarrow> scw_inner \<Rightarrow> nat \<Rightarrow> bool" where
  "len_ok_at d p j \<longleftrightarrow> (case m_ppseg p j of None \<Rightarrow> True | Some r \<Rightarrow> m_length (deref d p r) = length (lm_text d p r))"

text \<open>A word created of bytes without NUL.\<close>

lemma create_word_ok:
  assumes d: "wf_phrases d" and w: "wf_inner d p" and t: "length bs < 256" "\<forall>c \<in> set bs. 0 < c \<and> c < 256"
    and c: "create_dynword p (map char_of bs) = (k, q)"
  shows "k < 0 \<Longrightarrow> k = -1 \<and> q = p"
    "0 \<le> k \<Longrightarrow> k = int (m_dynlm_cnt p) \<and> m_dynlm_cnt q = m_dynlm_cnt p + 1 \<and> keeps d p q \<and> m_ppseg q = m_ppseg p \<and>
       lm_text d q (Dyn (nat k)) = bs \<and> m_length (m_dynlm q (nat k)) = length bs"
proof -
  let ?s = "map char_of bs :: string"
  have bytes: "map of_char ?s = bs" using t(2) by (induction bs) simp_all
  have "\<forall>c \<in> set ?s. (of_char c :: nat) \<noteq> 0"
  proof
    fix c assume "c \<in> set ?s"
    then have "(of_char c :: nat) \<in> set (map of_char ?s)" by (metis image_eqI list.set_map)
    then show "(of_char c :: nat) \<noteq> 0" using t(2) unfolding bytes by force
  qed
  then have len: "c_strlen ?s = length bs" using c_strlen_all [of ?s] by simp
  show "k < 0 \<Longrightarrow> k = -1 \<and> q = p" using c by (auto simp: create_dynword_def Let_def split: if_splits)
  assume k: "0 \<le> k"
  then have "k \<noteq> -1" "c_strlen ?s < 256" using t(1) len by auto
  note C = create_dynword_ok [OF d w this(2) c this(1), unfolded len]
  have "keeps d p q" using C(3,4,6,7) seg_text_refs [OF d w C(3,4)] by (simp add: keeps_def seg_refs_def)
  moreover have "m_length (m_dynlm q (nat k)) = length bs"
    using c k len t(1) by (auto simp: create_dynword_def Let_def split: if_splits)
  ultimately show "k = int (m_dynlm_cnt p) \<and> m_dynlm_cnt q = m_dynlm_cnt p + 1 \<and> keeps d p q \<and> m_ppseg q = m_ppseg p \<and>
       lm_text d q (Dyn (nat k)) = bs \<and> m_length (m_dynlm q (nat k)) = length bs"
    using C(1,2,5,6) bytes by simp
qed

lemma seg_refs_drop:
  assumes "0 < n"
  shows "seg_refs (drop_ppseg p a n r) a n = [r]"
proof -
  have "seg_refs (drop_ppseg p a n r) a n = seg_refs (drop_ppseg p a n r) a 1 @ seg_refs (drop_ppseg p a n r) (a + 1) (n - 1)"
    using seg_refs_split [of _ a 1 "n - 1"] assms by simp
  moreover have "seg_refs (drop_ppseg p a n r) (a + 1) (n - 1) = []"
    by (auto simp: seg_refs_def drop_ppseg_def fill_def List.map_filter_def filter_empty_conv)
  ultimately show ?thesis by (simp add: seg_refs_def drop_ppseg_def fill_def List.map_filter_simps)
qed

text \<open>One entry that spells \<open>n\<close> entries takes their place.\<close>

lemma drop_keeps:
  assumes d: "wf_phrases d" and w: "wf_inner d p" and an: "a + n \<le> m_ppseg_cnt p" "0 < n"
    and r: "seg_ref d p r" "lm_text d p r = concat (map (lm_text d p) (seg_refs p a n))"
  shows "keeps d p (drop_ppseg p a n r) \<and> same_from (a + n) p (drop_ppseg p a n r)"
proof (rule replace_ok [OF d w an(1)])
  show "drop_ppseg p a n r = p\<lparr>m_ppseg := m_ppseg (drop_ppseg p a n r)\<rparr>" by (simp add: drop_ppseg_def)
  show "concat (map (lm_text d p) (seg_refs (drop_ppseg p a n r) a n)) = concat (map (lm_text d p) (seg_refs p a n))"
    unfolding seg_refs_drop [OF an(2)] r(2) [symmetric] by simp
qed (use r(1) an(2) in \<open>auto simp: drop_ppseg_def fill_def split: if_splits\<close>)

text \<open>Replacing entries by a created word that spells them.\<close>

lemma name_word_ok:
  assumes d: "wf_phrases d" and w: "wf_inner d p" and an: "a + n \<le> m_ppseg_cnt p" "0 < n"
    and t: "bs = concat (map (lm_text d p) (seg_refs p a n))" "length bs < 256" "\<forall>c \<in> set bs. 0 < c \<and> c < 256"
    and c: "name_word p bs a n = (k, q)"
  shows "k < 0 \<longrightarrow> q = p"
    "0 \<le> k \<longrightarrow> keeps d p q \<and> same_from (a + n) p q \<and> k = int (m_dynlm_cnt p) \<and> m_dynlm_cnt q = m_dynlm_cnt p + 1"
    "0 \<le> k \<longrightarrow> len_ok_at d q (a + n - 1)"
proof -
  obtain j p1 where j: "create_dynword p (map char_of bs) = (j, p1)" by fastforce
  note W = create_word_ok [OF d w t(2,3) j]
  show "k < 0 \<longrightarrow> q = p" using c j W(1) by (auto simp: name_word_def split: if_splits)
  have ok: "keeps d p q \<and> same_from (a + n) p q \<and> k = int (m_dynlm_cnt p) \<and> m_dynlm_cnt q = m_dynlm_cnt p + 1 \<and>
      len_ok_at d q (a + n - 1)" if k: "0 \<le> k"
  proof -
    have j': "0 \<le> j" "k = j" and q: "q = drop_ppseg p1 a n (Dyn (nat j))"
      using c j k by (auto simp: name_word_def split: if_splits)
    note C = W(2) [OF j'(1)]
    have w1: "wf_inner d p1" "inner_ext p p1" "m_ppseg_cnt p1 = m_ppseg_cnt p" using C by (simp_all add: keeps_def)
    have same: "map (lm_text d p1) (seg_refs p1 a n) = map (lm_text d p) (seg_refs p a n)"
      using map_lm_text_ext [OF d w w1(1,2) seg_refs_valid [OF w an(1)]] C by (simp add: seg_refs_def)
    have tx: "lm_text d p1 (Dyn (nat j)) = bs" using C by blast
    have k1: "keeps d p1 q \<and> same_from (a + n) p1 q"
      unfolding q by (rule drop_keeps [OF d w1(1)]) (use an w1(3) C tx t(1) same in simp_all)
    then have w2: "wf_inner d q" "inner_ext p1 q" by (simp_all add: keeps_def)
    have "seg_ref d p1 (Dyn (nat j))" using C by simp
    then have "lm_text d q (Dyn (nat j)) = lm_text d p1 (Dyn (nat j))" by (rule lm_text_ext(2) [OF d w1(1) w2])
    then have "length (lm_text d q (Dyn (nat j))) = m_length (m_dynlm p1 (nat j))" using C by metis
    moreover have "m_ppseg q (a + n - 1) = (if n = 1 then Some (Dyn (nat j)) else None)"
      using an(2) by (auto simp: q drop_ppseg_def fill_def)
    moreover have "m_dynlm q = m_dynlm p1" by (simp add: q drop_ppseg_def)
    ultimately have "len_ok_at d q (a + n - 1)" by (simp add: len_ok_at_def deref_def)
    then show ?thesis using keeps_trans [of d p p1 q] k1 C j'(2) by (auto simp: same_from_def q drop_ppseg_def)
  qed
  show "0 \<le> k \<longrightarrow> keeps d p q \<and> same_from (a + n) p q \<and> k = int (m_dynlm_cnt p) \<and> m_dynlm_cnt q = m_dynlm_cnt p + 1"
    "0 \<le> k \<longrightarrow> len_ok_at d q (a + n - 1)"
    using ok by blast+
qed

subsection \<open>The person names keep the text\<close>

text \<open>
  An entry as the recognisers expect it: short, without NUL, its length in its record. A prefix is
  exactly the two words it is split into.
\<close>

definition plain_entry :: "scw_worddict \<Rightarrow> scw_inner \<Rightarrow> lmref \<Rightarrow> bool" where
  "plain_entry d p r \<longleftrightarrow> length (lm_text d p r) < 64 \<and> (\<forall>c \<in> set (lm_text d p r). 0 < c \<and> c < 256) \<and>
     m_length (deref d p r) = length (lm_text d p r)"

definition good_prefix :: "scw_worddict \<Rightarrow> scw_inner \<Rightarrow> lmref \<Rightarrow> bool" where
  "good_prefix d p r \<longleftrightarrow> (case split_prefix d p r (4 * MAX_WORD_LEN) of
     Some (Some (r1, lm2, t, len1, len2)) \<Rightarrow>
       seg_ref d p r1 \<and> length t = len1 + len2 \<and> lm_text d p r1 = take len1 t \<and> 2 \<le> len1
   | _ \<Rightarrow> True)"

definition name_ready :: "scw_worddict \<Rightarrow> scw_inner \<Rightarrow> nat \<Rightarrow> bool" where
  "name_ready d p i \<longleftrightarrow> (\<forall>j r. i \<le> j \<and> j < m_ppseg_cnt p \<and> m_ppseg p j = Some r \<longrightarrow>
     plain_entry d p r \<and> (IS_2WHPREFIX (ref_prop d p r) \<longrightarrow> good_prefix d p r))"

lemma read_entry_text:
  assumes "wf_phrases d" "wf_inner d p" "seg_ref d p r" "read_entry d p (Some r) n = Some (Some bs)"
  shows "bs = lm_text d p r" "length bs < n"
proof -
  have "bs = lm_text d p r \<and> length bs < n"
    using ref_words_text(2) [OF assms(1-3)] lm_text_words [OF assms(1-3)] assms(4)
    by (auto simp: read_entry_def get_lmstr_def bind_eq_Some_conv c_assert_def split: if_splits)
  then show "bs = lm_text d p r" "length bs < n" by blast+
qed

lemma join_text_parts:
  assumes "join_text d p a b n = Some (Some t)"
  obtains u v m where "read_entry d p a n = Some (Some u)" "read_entry d p b m = Some (Some v)" "t = u @ v"
  using assms by (auto simp: join_text_def bind_eq_Some_conv split: option.splits)

lemma seg_refs_two: "m_ppseg p a = Some r \<Longrightarrow> m_ppseg p (a + 1) = Some s \<Longrightarrow> seg_refs p a 2 = [r, s]"
  by (simp add: seg_refs_def upt_rec List.map_filter_simps)

lemma seg_refs_one: "m_ppseg p a = Some r \<Longrightarrow> seg_refs p a 1 = [r]"
  by (simp add: seg_refs_def List.map_filter_simps)

lemma name_readyD:
  assumes "name_ready d p i" "i \<le> j" "j < m_ppseg_cnt p" "m_ppseg p j = Some r"
  shows "length (lm_text d p r) < 64" "\<forall>c \<in> set (lm_text d p r). 0 < c \<and> c < 256" "len_ok_at d p j"
    "IS_2WHPREFIX (ref_prop d p r) \<Longrightarrow> good_prefix d p r"
  using assms by (auto simp: name_ready_def plain_entry_def len_ok_at_def)

lemma is_3word_ok:
  assumes d: "wf_phrases d" and w: "wf_inner d p" and r: "name_ready d p i"
    and c: "is_3word_cname d p i = Some (e, q)"
  shows "e \<noteq> 1 \<and> q = p \<or>
    e = 1 \<and> i + 3 \<le> m_ppseg_cnt p \<and> keeps d p q \<and> same_from (i + 3) p q \<and> len_ok_at d q (i + 2)"
proof (cases "e = 0 \<and> q = p")
  case False
  then obtain r2 r3 t where e: "i + 2 < m_ppseg_cnt p" "m_ppseg p (i + 1) = Some r2" "m_ppseg p (i + 2) = Some r3"
    and t: "join_text d p (Some r2) (Some r3) (2 * MAX_WORD_LEN) = Some (Some t)"
    and k0: "(case name_word p t (i + 1) 2 of (k, q) \<Rightarrow> if k < 0 then (-1, q) else (1, q)) = (e, q)"
    using c by (auto simp: is_3word_cname_def bind_eq_Some_conv split: if_splits option.splits)
  obtain k q' where k: "name_word p t (i + 1) 2 = (k, q')" "(if k < 0 then (-1, q') else (1, q')) = (e, q)"
    using k0 by (cases "name_word p t (i + 1) 2") auto
  obtain u v m where uv: "read_entry d p (Some r2) (2 * MAX_WORD_LEN) = Some (Some u)" "read_entry d p (Some r3) m = Some (Some v)" "t = u @ v"
    using join_text_parts [OF t] by blast
  note refs = wf_inner_seg [OF w _ e(2)] wf_inner_seg [OF w _ e(3)]
  have tx: "u = lm_text d p r2" "v = lm_text d p r3"
    using read_entry_text(1) [OF d w refs(1) uv(1)] read_entry_text(1) [OF d w refs(2) uv(2)] e(1) by simp_all
  note R = name_readyD [OF r _ _ e(2)] and S = name_readyD [OF r _ _ e(3)]
  have tt: "t = concat (map (lm_text d p) (seg_refs p (i + 1) 2))"
    using seg_refs_two [of p "i + 1"] e tx uv(3) by simp
  have "length t < 256" "\<forall>c \<in> set t. 0 < c \<and> c < 256"
    using R(1,2) S(1,2) e(1) tx uv(3) by auto
  note N = name_word_ok [OF d w _ _ tt this k(1)]
  have "i + 1 + 2 = i + (3 :: nat)" "i + 1 + 2 - 1 = i + (2 :: nat)" by simp_all
  note N = N [unfolded this]
  show ?thesis using N e(1) k(2) by (auto split: if_splits)
qed (use c in simp)

lemma is_2word_ok:
  assumes d: "wf_phrases d" and w: "wf_inner d p" and r: "name_ready d p i"
    and c: "is_2word_cname d p i = Some (e, q)"
  shows "e \<noteq> 1 \<and> q = p \<or>
    e = 1 \<and> i + 2 \<le> m_ppseg_cnt p \<and> keeps d p q \<and> same_from (i + 2) p q \<and> len_ok_at d q (i + 1)"
proof (cases "q = p")
  case True
  then have "e \<noteq> 1 \<or> i + 1 < m_ppseg_cnt p \<and> (\<exists>r2. m_ppseg p (i + 1) = Some r2)"
    using c by (auto simp: is_2word_cname_def split: if_splits option.splits)
  then show ?thesis using True keeps_refl [OF w] name_readyD(3) [OF r, of "i + 1"] by auto
next
  case False
  then obtain r2 t where e: "i + 1 < m_ppseg_cnt p" "m_ppseg p (i + 1) = Some r2"
    and t: "read_entry d p (Some r2) (2 * MAX_WORD_LEN) = Some (Some t)"
    and k0: "(case name_word p t (i + 1) 1 of (k, q) \<Rightarrow> if k < 0 then (-1, q) else (1, q)) = (e, q)"
    using c by (auto simp: is_2word_cname_def bind_eq_Some_conv split: if_splits option.splits)
  obtain k q' where k: "name_word p t (i + 1) 1 = (k, q')" "(if k < 0 then (-1, q') else (1, q')) = (e, q)"
    using k0 by (cases "name_word p t (i + 1) 1") auto
  have tx: "t = lm_text d p r2" using read_entry_text(1) [OF d w wf_inner_seg [OF w e] t] .
  note R = name_readyD [OF r _ _ e(2)]
  have tt: "t = concat (map (lm_text d p) (seg_refs p (i + 1) 1))" using seg_refs_one [OF e(2)] tx by simp
  have "length t < 256" "\<forall>c \<in> set t. 0 < c \<and> c < 256" using R(1,2) e(1) tx by auto
  note N = name_word_ok [OF d w _ _ tt this k(1)]
  show ?thesis using N e(1) k(2) by (auto split: if_splits)
qed

lemma split_prefix_text:
  assumes "split_prefix d p r n = Some (Some (r1, lm2, t, len1, len2))"
  shows "read_entry d p (Some r) n = Some (Some t)"
proof (cases "IS_PHRASE (m_property (deref d p r))")
  case True
  then show ?thesis using assms by (auto simp: split_prefix_def Let_def bind_eq_Some_conv split: if_splits)
next
  case False
  obtain u where u: "read_entry d p (Some r) n = Some u"
    using assms False by (auto simp: split_prefix_def Let_def bind_eq_Some_conv)
  obtain bs where bs: "u = Some bs" using assms False u by (cases u) (simp_all add: split_prefix_def Let_def)
  let ?s = "map char_of bs :: string"
  obtain v1 l1 where one: "scw_get_word ?s 0 (length bs) = (v1, l1)" by fastforce
  obtain v2 l2 where two: "scw_get_word (drop l1 ?s) 0 (length bs) = (v2, l2)" by fastforce
  show ?thesis using assms False u bs one two
    by (simp add: split_prefix_def Let_def bind_eq_Some_conv) (auto simp: bind_eq_Some_conv split: if_splits)
qed

lemma read_entry_mono: "read_entry d p pl n = Some (Some t) \<Longrightarrow> n \<le> m \<Longrightarrow> read_entry d p pl m = Some (Some t)"
  by (auto simp: read_entry_def get_lmstr_def bind_eq_Some_conv c_assert_def split: if_splits option.splits)

lemma split_prefix_mono:
  assumes "split_prefix d p r n = Some (Some (r1, lm2, t, len1, len2))" "n \<le> m"
  shows "split_prefix d p r m = Some (Some (r1, lm2, t, len1, len2))"
  using assms(1) read_entry_mono [OF split_prefix_text [OF assms(1)] assms(2)] split_prefix_text [OF assms(1)]
  by (auto simp: split_prefix_def Let_def)

text \<open>The name in the buffer, behind the entry before it.\<close>

lemma c_string_tail:
  assumes "\<And>j. a \<le> j \<Longrightarrow> b j = put_list (\<lambda>_. 0) a (xs @ [0]) j" "k \<le> length xs" "a + length xs < 4 * MAX_WORD_LEN" "0 \<notin> set xs"
  shows "c_string b (a + k) = drop k xs"
proof -
  let ?N = "4 * MAX_WORD_LEN - (a + k)"
  have n: "?N = length (drop k xs) + (?N - length (drop k xs))" "0 < ?N - length (drop k xs)" using assms(2,3) by auto
  have one: "get_list b (a + k) (length (drop k xs)) = drop k xs"
    by (rule nth_equalityI) (use assms(1,2) in \<open>auto simp: put_list_def nth_append\<close>)
  have two: "get_list b (a + k + length (drop k xs)) (?N - length (drop k xs)) = 0 # replicate (?N - length (drop k xs) - 1) 0"
  proof (rule nth_equalityI)
    show "length (get_list b (a + k + length (drop k xs)) (?N - length (drop k xs))) = length (0 # replicate (?N - length (drop k xs) - 1) (0 :: nat))"
      using n by simp
    fix j assume "j < length (get_list b (a + k + length (drop k xs)) (?N - length (drop k xs)))"
    then show "get_list b (a + k + length (drop k xs)) (?N - length (drop k xs)) ! j = (0 # replicate (?N - length (drop k xs) - 1) 0) ! j"
      using assms(1) [of "a + k + length (drop k xs) + j"] assms(2) by (cases j) (auto simp: put_list_def nth_append)
  qed
  have "get_list b (a + k) ?N = drop k xs @ 0 # replicate (?N - length (drop k xs) - 1) 0"
    by (subst n(1), subst get_list_split) (simp only: one two)
  moreover have "\<forall>c \<in> set (drop k xs). c \<noteq> 0" using assms(4) by (metis in_set_dropD)
  ultimately show ?thesis by (simp add: c_string_def takeWhile_append2)
qed


text \<open>Entries from \<open>i\<close> on do not notice what is done before them.\<close>

lemma read_entry_seg:
  assumes "wf_phrases d" "wf_inner d p" "seg_ref d p r"
  shows "read_entry d p (Some r) n =
    (if n = 0 then Some None else if length (lm_text d p r) < n then Some (Some (lm_text d p r)) else None)"
  using ref_words_text(2) [OF assms] lm_text_words [OF assms]
  by (simp add: read_entry_def get_lmstr_def c_assert_def)

lemma deref_ext: "inner_ext p q \<Longrightarrow> seg_ref d p r \<Longrightarrow> deref d q r = deref d p r"
  by (cases r) (simp_all add: deref_def inner_ext_def)

lemma plain_entry_ext:
  assumes "wf_phrases d" "wf_inner d p" "keeps d p q" "seg_ref d p r"
  shows "plain_entry d q r = plain_entry d p r" "ref_prop d q r = ref_prop d p r" "split_prefix d q r n = split_prefix d p r n"
proof -
  have q: "wf_inner d q" "inner_ext p q" using assms(3) by (simp_all add: keeps_def)
  note T = lm_text_ext [OF assms(1,2) q assms(4)] deref_ext [OF q(2) assms(4)]
  show "plain_entry d q r = plain_entry d p r" "ref_prop d q r = ref_prop d p r"
    using T by (simp_all add: plain_entry_def ref_prop_def)
  have "read_entry d q (Some r) n = read_entry d p (Some r) n"
    using read_entry_seg [OF assms(1,2,4)] read_entry_seg [OF assms(1) q(1) T(1)] T(2) by simp
  then show "split_prefix d q r n = split_prefix d p r n" using T(4) by (simp add: split_prefix_def Let_def)
qed

lemma good_prefix_ext:
  assumes d: "wf_phrases d" and w: "wf_inner d p" and k: "keeps d p q" and r: "seg_ref d p r" and g: "good_prefix d p r"
  shows "good_prefix d q r"
proof -
  have q: "wf_inner d q" "inner_ext p q" using k by (simp_all add: keeps_def)
  show ?thesis
  proof (cases "\<exists>r1 lm2 t len1 len2. split_prefix d p r (4 * MAX_WORD_LEN) = Some (Some (r1, lm2, t, len1, len2))")
    case True
    then obtain r1 lm2 t len1 len2 where s: "split_prefix d p r (4 * MAX_WORD_LEN) = Some (Some (r1, lm2, t, len1, len2))" by blast
    then have "seg_ref d p r1" using g by (simp add: good_prefix_def)
    then show ?thesis
      using g s lm_text_ext(1,2) [OF d w q, of r1] by (simp add: good_prefix_def plain_entry_ext(3) [OF d w k r])
  next
    case False
    then show ?thesis by (auto simp: good_prefix_def plain_entry_ext(3) [OF d w k r] split: option.splits)
  qed
qed

lemma name_ready_ext:
  assumes d: "wf_phrases d" and w: "wf_inner d p" and k: "keeps d p q" and s: "same_from j p q" "i \<le> j"
    and r: "name_ready d p i"
  shows "name_ready d q j"
  unfolding name_ready_def
proof (intro allI impI)
  fix l r assume l: "j \<le> l \<and> l < m_ppseg_cnt q \<and> m_ppseg q l = Some r"
  then have l': "i \<le> l" "l < m_ppseg_cnt p" "m_ppseg p l = Some r" using k s by (auto simp: keeps_def same_from_def)
  then have "seg_ref d p r" using wf_inner_seg [OF w] by blast
  note E = plain_entry_ext [OF d w k this] good_prefix_ext [OF d w k this]
  show "plain_entry d q r \<and> (IS_2WHPREFIX (ref_prop d q r) \<longrightarrow> good_prefix d q r)"
    using r l' E(4) by (simp add: name_ready_def E(1,2))
qed

lemma len_ok_ext:
  assumes d: "wf_phrases d" and w: "wf_inner d p" and k: "keeps d p q" and j: "m_ppseg q j = m_ppseg p j" "j < m_ppseg_cnt p"
    and r: "len_ok_at d p j"
  shows "len_ok_at d q j"
proof (cases "m_ppseg p j")
  case (Some a)
  have q: "wf_inner d q" "inner_ext p q" using k by (simp_all add: keeps_def)
  have "seg_ref d p a" using wf_inner_seg [OF w j(2) Some] .
  then show ?thesis using r Some j(1) lm_text_ext(2) [OF d w q] deref_ext [OF q(2)] by (simp add: len_ok_at_def)
qed (use j in \<open>simp add: len_ok_at_def\<close>)

text \<open>A long name: the first word of the prefix stays, the rest of it and the entry behind it become one word.\<close>

definition name_buffer :: "nat list \<Rightarrow> nat list \<Rightarrow> nat list \<Rightarrow> nat buf \<Rightarrow> bool" where
  "name_buffer t0 t t3 b \<longleftrightarrow> (\<forall>j \<ge> length t0. b j = put_list (\<lambda>_. 0) (length t0) (t @ t3 @ [0]) j)"

lemma buffer_repaired:
  assumes "length xs \<le> j"
  shows "put_list (put_list b 0 (xs @ [0 :: nat])) (length xs) (get_list b (length xs) 2) j = b j"
proof -
  consider "j = length xs" | "j = length xs + 1" | "length xs + 2 \<le> j" using assms by linarith
  then show ?thesis by cases (simp_all add: put_list_def)
qed

lemma canbe_cases:
  assumes d: "wf_phrases d" and w: "wf_inner d p" and n: "name_ready d p i" and i: "i < m_ppseg_cnt p" "m_ppseg p i = Some r"
    and g: "IS_2WHPREFIX (ref_prop d p r)" and l: "0 < i \<Longrightarrow> len_ok_at d p (i - 1)"
    and c: "canbe_long_name rl d p i = Some (e, q)" and e: "\<not> (e = 0 \<and> q = p)"
  obtains nr r1 t0 t t3 b len1 where
    "i + 1 < m_ppseg_cnt p" "m_ppseg p (i + 1) = Some nr" "seg_ref d p r1" "lm_text d p r1 = take len1 t" "len1 \<le> length t"
    "t = lm_text d p r" "t3 = lm_text d p nr" "name_buffer t0 t t3 b" "length t0 + length t + length t3 < 4 * MAX_WORD_LEN"
    "long_name_word p i r1 (c_string b (length t0 + len1)) = (e, q)"
proof -
  let ?pl = "if 0 < i then m_ppseg p (i - 1) else None"
  let ?llen = "case ?pl of None \<Rightarrow> 0 | Some lr \<Rightarrow> m_length (deref d p lr)"
  obtain nr where nr: "i \<noteq> m_ppseg_cnt p - 1" "m_ppseg p (i + 1) = Some nr"
    using c e i by (auto simp: canbe_long_name_def split: if_splits option.splits)
  have i1: "i + 1 < m_ppseg_cnt p" using nr(1) i(1) by simp
  obtain r1 lm2 t len1 len2 where sp: "split_prefix d p r (4 * MAX_WORD_LEN - ?llen) = Some (Some (r1, lm2, t, len1, len2))"
    using c e i nr by (auto simp: canbe_long_name_def Let_def bind_eq_Some_conv split: if_splits option.splits)
  obtain t3 where t3: "read_entry d p (Some nr) (4 * MAX_WORD_LEN - ?llen - len1 - len2) = Some (Some t3)"
    using c e i nr sp by (auto simp: canbe_long_name_def Let_def bind_eq_Some_conv split: if_splits option.splits)
  note sref = wf_inner_seg [OF w i] wf_inner_seg [OF w i1 nr(2)]
  have t: "t = lm_text d p r" "length t < 4 * MAX_WORD_LEN - ?llen"
    using read_entry_text [OF d w sref(1) split_prefix_text [OF sp]] by blast+
  have u: "t3 = lm_text d p nr" "length t3 < 4 * MAX_WORD_LEN - ?llen - len1 - len2"
    using read_entry_text [OF d w sref(2) t3] by blast+
  have gp: "seg_ref d p r1" "length t = len1 + len2" "lm_text d p r1 = take len1 t"
    using name_readyD(4) [OF n le_refl i g] split_prefix_mono [OF sp, of "4 * MAX_WORD_LEN"] by (simp_all add: good_prefix_def)
  define b1 where "b1 = put_list (put_list (\<lambda>_. 0) ?llen (t @ [0])) (?llen + len1 + len2) (t3 @ [0])"
  have b1: "b1 = put_list (\<lambda>_. 0) ?llen (t @ t3 @ [0])"
    using put_list_twice [of "[0]" "t3 @ [0]" "\<lambda>_. 0 :: nat" ?llen t] gp(2) by (simp add: b1_def add.assoc)
  obtain b2 llen2 where left: "name_left rl d p ?pl ?llen len1 b1 = Some (Some (b2, llen2, True))"
    and wd: "long_name_word p i r1 (c_string b2 (llen2 + len1)) = (e, q)"
  proof -
    define pl llen where "pl = ?pl" and "llen = ?llen"
    note D = pl_def [symmetric] llen_def [symmetric]
    have "\<not> rsn rl (get_list b1 ?llen (length t + length t3)) \<and> (\<exists>lf. name_left rl d p ?pl ?llen len1 b1 = Some lf \<and>
        (case lf of None \<Rightarrow> Some (0, p) | Some (b2, llen2, ok) \<Rightarrow>
           if \<not> ok then Some (0, p)
           else if judge_3cname d (deref d p r1) lm2 (deref d p nr) False
           then Some (long_name_word p i r1 (c_string b2 (llen2 + len1)))
           else Some (0, p)) = Some (e, q))"
      using c e i nr sp t3 b1_def unfolding canbe_long_name_def Let_def D
      by (simp add: bind_eq_Some_conv split: if_splits)
    then obtain lf where lf: "name_left rl d p ?pl ?llen len1 b1 = Some lf"
      "(case lf of None \<Rightarrow> Some (0, p) | Some (b2, llen2, ok) \<Rightarrow>
           if \<not> ok then Some (0, p)
           else if judge_3cname d (deref d p r1) lm2 (deref d p nr) False
           then Some (long_name_word p i r1 (c_string b2 (llen2 + len1)))
           else Some (0, p)) = Some (e, q)" by blast
    show ?thesis using that lf e by (cases lf) (auto split: if_splits)
  qed
  have "\<exists>t0. name_buffer t0 t t3 b2 \<and> length t0 = ?llen \<and> llen2 = ?llen"
  proof (cases ?pl)
    case None
    then show ?thesis using left by (auto simp: name_left_def name_buffer_def b1)
  next
    case (Some lr)
    then have lr: "0 < i" "m_ppseg p (i - 1) = Some lr" by (auto split: if_splits)
    obtain t0 where t0: "read_entry d p (Some lr) (4 * MAX_WORD_LEN) = Some (Some t0)" "llen2 = length t0"
        "b2 = put_list (put_list b1 0 (t0 @ [0])) (length t0) (get_list b1 ?llen 2)"
      using left Some by (auto simp: name_left_def Let_def bind_eq_Some_conv split: if_splits)
    have "length t0 = ?llen"
      using read_entry_text(1) [OF d w wf_inner_seg [OF w _ lr(2)] t0(1)] l [OF lr(1)] lr i(1) Some by (simp add: len_ok_at_def)
    moreover from this have "name_buffer t0 t t3 b2"
      unfolding name_buffer_def t0(3) using buffer_repaired [of t0] b1 by simp
    ultimately show ?thesis using t0(2) by metis
  qed
  then obtain t0 where t0: "name_buffer t0 t t3 b2" "length t0 = ?llen" "llen2 = ?llen" by blast
  show ?thesis using that [of nr r1 len1 t t3 t0 b2] i1 nr(2) gp t u t0 wd by simp
qed

lemma c_string_name:
  assumes "name_buffer t0 t t3 b" "k \<le> length t" "length t0 + length t + length t3 < 4 * MAX_WORD_LEN" "0 \<notin> set t" "0 \<notin> set t3"
  shows "c_string b (length t0 + k) = drop k (t @ t3)"
  using c_string_tail [of "length t0" b "t @ t3" k] assms by (auto simp: name_buffer_def)

lemma long_name_ok:
  assumes d: "wf_phrases d" and w: "wf_inner d p" and i: "i + 1 < m_ppseg_cnt p" "m_ppseg p i = Some r" "m_ppseg p (i + 1) = Some nr"
    and r1: "seg_ref d p r1" "lm_text d p r1 @ bs = lm_text d p r @ lm_text d p nr"
    and bs: "length bs < 256" "\<forall>c \<in> set bs. 0 < c \<and> c < 256"
    and c: "long_name_word p i r1 bs = (e, q)"
  shows "e = -1 \<and> q = p \<or> e = 1 \<and> keeps d p q \<and> same_from (i + 2) p q \<and> len_ok_at d q (i + 1)"
proof -
  obtain k p1 where k: "create_dynword p (map char_of bs) = (k, p1)" by fastforce
  note C = create_word_ok [OF d w bs k]
  show ?thesis
  proof (cases "0 \<le> k")
    case True
    let ?f = "(m_ppseg p1)(i := Some r1, i + 1 := Some (Dyn (nat k)))"
    have q: "e = 1" "q = p1\<lparr>m_ppseg := ?f\<rparr>" using c k True by (simp_all add: long_name_word_def)
    note C' = C(2) [OF True]
    have w1: "wf_inner d p1" "inner_ext p p1" "m_ppseg_cnt p1 = m_ppseg_cnt p" using C' by (simp_all add: keeps_def)
    have sref: "seg_ref d p r" "seg_ref d p nr" using wf_inner_seg [OF w _ i(2)] wf_inner_seg [OF w i(1,3)] i(1) by simp_all
    note T = lm_text_ext [OF d w w1(1,2)]
    have k1: "keeps d p1 q \<and> same_from (i + 2) p1 q"
    proof (rule replace_ok [OF d w1(1) _ q(2)])
      show "i + 2 \<le> m_ppseg_cnt p1" using i(1) w1(3) by simp
      have refs: "seg_refs q i 2 = [r1, Dyn (nat k)]" "seg_refs p1 i 2 = [r, nr]"
        using seg_refs_two [of q i r1 "Dyn (nat k)"] seg_refs_two [of p1 i r nr] i C' by (simp_all only: q(2)) simp_all
      have "lm_text d p1 (Dyn (nat k)) = bs" using C' by blast
      then show "concat (map (lm_text d p1) (seg_refs q i 2)) = concat (map (lm_text d p1) (seg_refs p1 i 2))"
        unfolding refs using r1(2) T(2) [OF r1(1)] T(2) [OF sref(1)] T(2) [OF sref(2)] by simp
    qed (use T(1) [OF r1(1)] C' in \<open>auto split: if_splits\<close>)
    then have w2: "wf_inner d q" "inner_ext p1 q" by (simp_all add: keeps_def)
    have "seg_ref d p1 (Dyn (nat k))" using C' by simp
    then have "lm_text d q (Dyn (nat k)) = lm_text d p1 (Dyn (nat k))" by (rule lm_text_ext(2) [OF d w1(1) w2])
    moreover have "m_ppseg q (i + 1) = Some (Dyn (nat k))" "m_dynlm q = m_dynlm p1" by (simp_all add: q(2))
    moreover have "lm_text d p1 (Dyn (nat k)) = bs" "m_length (m_dynlm p1 (nat k)) = length bs" using C' by blast+
    ultimately have "len_ok_at d q (i + 1)" by (simp add: len_ok_at_def deref_def)
    moreover have "keeps d p q" using keeps_trans [of d p p1 q] k1 C' by blast
    moreover have "same_from (i + 2) p q" using k1 C' by (simp add: same_from_def)
    ultimately show ?thesis using q(1) by blast
  qed (use c k C(1) in \<open>auto simp: long_name_word_def\<close>)
qed

lemma canbe_ok:
  assumes d: "wf_phrases d" and w: "wf_inner d p" and n: "name_ready d p i" and i: "i < m_ppseg_cnt p" "m_ppseg p i = Some r"
    and g: "IS_2WHPREFIX (ref_prop d p r)" and l: "0 < i \<Longrightarrow> len_ok_at d p (i - 1)"
    and c: "canbe_long_name rl d p i = Some (e, q)"
  shows "e = 0 \<and> q = p \<or> e \<noteq> 0 \<and> i + 2 \<le> m_ppseg_cnt p \<and> keeps d p q \<and> same_from (i + 2) p q \<and> len_ok_at d q (i + 1)"
proof (cases "e = 0 \<and> q = p")
  case False
  obtain nr r1 t0 t t3 b len1 where
    A: "i + 1 < m_ppseg_cnt p" "m_ppseg p (i + 1) = Some nr" "seg_ref d p r1" "lm_text d p r1 = take len1 t" "len1 \<le> length t"
      "t = lm_text d p r" "t3 = lm_text d p nr" "name_buffer t0 t t3 b" "length t0 + length t + length t3 < 4 * MAX_WORD_LEN"
    and q: "long_name_word p i r1 (c_string b (length t0 + len1)) = (e, q)"
    by (rule canbe_cases [OF d w n i g l c False], assumption, rule that)
  note R = name_readyD [OF n le_refl i] name_readyD [OF n le_add1 A(1,2)]
  have s: "c_string b (length t0 + len1) = drop len1 (t @ t3)"
  proof (rule c_string_name [OF A(8,5,9)])
    show "0 \<notin> set t" using R(2) unfolding A(6) [symmetric] by (metis less_irrefl)
    show "0 \<notin> set t3" using R(6) unfolding A(7) [symmetric] by (metis less_irrefl)
  qed
  have "length t + length t3 < 256" using R(1,5) A(6,7) by simp
  then have bs: "length (drop len1 (t @ t3)) < 256" by simp
  have "\<forall>c \<in> set (t @ t3). 0 < c \<and> c < 256" using R(2,6) unfolding A(6,7) by auto
  then have bs': "\<forall>c \<in> set (drop len1 (t @ t3)). 0 < c \<and> c < 256" by (blast dest: in_set_dropD)
  have "lm_text d p r1 @ drop len1 (t @ t3) = t @ t3" using A(4,5) by simp
  from long_name_ok [OF d w A(1) i(2) A(2,3) this [unfolded A(6,7)] bs [unfolded A(6,7)] bs' [unfolded A(6,7)] q [unfolded s A(6,7)]]
  show ?thesis using A(1) keeps_refl [OF w] R(7) by auto
qed simp

text \<open>One entry.\<close>

lemma name_step_ok:
  assumes d: "wf_phrases d" and w: "wf_inner d p" and n: "name_ready d p i" and i: "i < m_ppseg_cnt p" "m_ppseg p i = Some r"
    and l: "0 < i \<Longrightarrow> len_ok_at d p (i - 1)" and c: "name_step rl d p i r = Some (s, q)"
  shows "s = 1 \<and> q = p \<or> 1 < s \<and> i + s \<le> m_ppseg_cnt p \<and> keeps d p q \<and> same_from (i + s) p q \<and> len_ok_at d q (i + s - 1)"
proof (cases "IS_2WHPREFIX (ref_prop d p r)")
  case True
  obtain e where e: "canbe_long_name rl d p i = Some (e, q)" "s = (if e \<noteq> 0 then 2 else 1)"
    using c True by (auto simp: name_step_def bind_eq_Some_conv)
  from canbe_ok [OF d w n i True l e(1)] show ?thesis using e(2) by auto
next
  case False
  obtain b where b: "is_real_surname rl d p i = Some b" using c False by (auto simp: name_step_def bind_eq_Some_conv)
  show ?thesis
  proof (cases b)
    case True
    obtain e3 q3 where three: "is_3word_cname d p i = Some (e3, q3)" using c False b True by (auto simp: name_step_def bind_eq_Some_conv)
    note T = is_3word_ok [OF d w n three]
    show ?thesis
    proof (cases "e3 = 1")
      case e3: True
      then show ?thesis using T c False b True three by (auto simp: name_step_def)
    next
      case e3: False
      then obtain e2 where two: "is_2word_cname d p i = Some (e2, q)" "s = (if e2 = 1 then 2 else 1)"
        using T c False b True three by (auto simp: name_step_def bind_eq_Some_conv)
      from is_2word_ok [OF d w n two(1)] two(2) show ?thesis by auto
    qed
  qed (use c False b in \<open>simp add: name_step_def\<close>)
qed

lemma name_at_ok:
  assumes d: "wf_phrases d" and w: "wf_inner d p" and n: "name_ready d p i" and i: "i < m_ppseg_cnt p"
    and l: "0 < i \<Longrightarrow> len_ok_at d p (i - 1)" and c: "name_at rl d p i = Some (s, 0, q)"
  shows "keeps d p q" "same_from (i + s) p q" "0 < s" "i + s \<le> m_ppseg_cnt p" "len_ok_at d q (i + s - 1)"
proof -
  have "keeps d p q \<and> same_from (i + s) p q \<and> 0 < s \<and> i + s \<le> m_ppseg_cnt p \<and> len_ok_at d q (i + s - 1)"
  proof (cases "s = 1 \<and> q = p")
    case True
    then show ?thesis using keeps_refl [OF w] i name_readyD(3) [OF n le_refl i]
      by (cases "m_ppseg p i") (auto simp: len_ok_at_def)
  next
    case False
    then obtain r p1 where r: "m_ppseg p i = Some r" and st: "name_step rl d p i r = Some (s, p1)"
      using c by (auto simp: name_at_def bind_eq_Some_conv split: option.splits if_splits)
    note S = name_step_ok [OF d w n i r l st]
    show ?thesis
    proof (cases "1 < s")
      case True
      then have S: "i + s \<le> m_ppseg_cnt p" "keeps d p p1" "same_from (i + s) p p1" "len_ok_at d p1 (i + s - 1)" using S by auto
      then have w1: "wf_inner d p1" and n1: "m_ppseg_cnt p1 = m_ppseg_cnt p" by (simp_all add: keeps_def)
      obtain e p2 where e: "poly_lemmas d p1 i s = Some (e, p2)" "e \<noteq> -1"
        "q = after_poly (\<lambda>x. SET_CH_NAME (SET_HUMAN_NAME x)) e p2"
        using c r st True by (auto simp: name_at_def bind_eq_Some_conv after_poly_def split: if_splits)
      have an: "i + s \<le> m_ppseg_cnt p1" using S(1) n1 by simp
      note P = after_poly_keeps [OF d w1 an e(1,2), of "\<lambda>x. SET_CH_NAME (SET_HUMAN_NAME x)", folded e(3)]
      have "len_ok_at d q (i + s - 1)"
      proof (cases "e = -2")
        case two: True
        then have "q = p1" using poly_lemmas_long e(1,3) by (simp add: after_poly_def)
        then show ?thesis using S(4) by simp
      next
        case two: False
        then have "0 \<le> e" using poly_result [OF e(1)] e(2) by blast
        then have "m_ppseg q (i + s - 1) = None"
          using poly_lemmas_phrase(5) [OF d w1 an e(1)] e(3) True by (auto simp: after_poly_def fill_def)
        then show ?thesis by (simp add: len_ok_at_def)
      qed
      then show ?thesis
        using keeps_trans [OF S(2) P(1)] same_from_trans [OF S(3) P(2)] S(1) True by auto
    next
      case False
      then show ?thesis using S c r st \<open>\<not> (s = 1 \<and> q = p)\<close> by (auto simp: name_at_def split: if_splits)
    qed
  qed
  then show "keeps d p q" "same_from (i + s) p q" "0 < s" "i + s \<le> m_ppseg_cnt p" "len_ok_at d q (i + s - 1)" by simp_all
qed

lemma name_at_code: "name_at rl d p i = Some (s, e, q) \<Longrightarrow> e = 0 \<or> e = -1"
  by (auto simp: name_at_def bind_eq_Some_conv split: option.splits if_splits)

lemma humanname_loop_keeps:
  "wf_phrases d \<Longrightarrow> wf_inner d p \<Longrightarrow> cnt = m_ppseg_cnt p \<Longrightarrow> name_ready d p i \<Longrightarrow> (0 < i \<Longrightarrow> len_ok_at d p (i - 1)) \<Longrightarrow>
    humanname_loop rl d cnt p i = Some (0, q) \<Longrightarrow> keeps d p q"
proof (induction rl d cnt p i rule: humanname_loop.induct)
  case (1 rl d cnt p i)
  show ?case
  proof (cases "i < cnt")
    case True
    obtain s p1 where at: "name_at rl d p i = Some (s, 0, p1)" and rest: "humanname_loop rl d cnt p1 (i + s) = Some (0, q)"
      using 1(7) True name_at_code [of rl d p i] by (subst (asm) humanname_loop.simps) (auto split: option.splits if_splits)
    have i: "i < m_ppseg_cnt p" using True 1(4) by simp
    note A = name_at_ok [OF 1(2,3,5) i 1(6) at]
    have p1: "wf_inner d p1" "cnt = m_ppseg_cnt p1" using A(1) 1(4) by (simp_all add: keeps_def)
    have "keeps d p1 q"
      using 1(1) [OF True at refl refl _ 1(2) p1 name_ready_ext [OF 1(2,3) A(1,2) le_add1 1(5)] A(5) rest] by simp
    then show ?thesis using keeps_trans A(1) by blast
  next
    case False
    then show ?thesis using 1(3,7) keeps_refl by (subst (asm) humanname_loop.simps) auto
  qed
qed

text \<open>
  The person names are recognised without a change to the text: when \<open>humanname_recg\<close> returns 0, the
  entries still spell what they spelt, and the result stays well-formed. Entries that are prefixes must
  consist of the two words that \<open>canbe_long_name\<close> splits them into.
\<close>

lemma humanname_recg_keeps_text:
  assumes "wf_phrases d" "wf_inner d p" "name_ready d p 0" "humanname_recg rl d p = Some (0, q)"
  shows "wf_inner d q \<and> m_ppseg_cnt q = m_ppseg_cnt p \<and> seg_text d q = seg_text d p"
  using humanname_loop_keeps [OF assms(1,2) refl assms(3) _ assms(4) [unfolded humanname_recg_def]] by (simp add: keeps_def)

subsection \<open>Book titles keep the text\<close>

lemma bookname_loop_keeps:
  "wf_phrases d \<Longrightarrow> wf_inner d p \<Longrightarrow> \<forall>j \<in> set is. j < m_ppseg_cnt p \<Longrightarrow> sorted is \<Longrightarrow>
    \<forall>b j. bn = Some b \<longrightarrow> j \<in> set is \<longrightarrow> b \<le> j \<Longrightarrow> bookname_loop d p bn is = Some (0, q) \<Longrightarrow> keeps d p q"
proof (induction "is" arbitrary: p bn)
  case (Cons i "is")
  have next_entry: "keeps d p' q" if "keeps d p p'" "bookname_loop d p' bn' is = Some (0, q)" "bn' \<in> {None, Some i, bn}" for p' bn'
  proof (rule Cons.IH [OF Cons.prems(1) _ _ _ _ that(2)])
    show "wf_inner d p'" "\<forall>j \<in> set is. j < m_ppseg_cnt p'" using that(1) Cons.prems(3) by (auto simp: keeps_def)
  qed (use Cons.prems(4,5) that(3) in auto)
  note same = next_entry [OF keeps_refl [OF Cons.prems(2)]]
  show ?case
  proof (cases "m_ppseg p i")
    case None
    then show ?thesis using same [of bn] Cons.prems(6) by simp
  next
    case (Some r)
    consider (start) "IS_BOOKNAME_START (ref_prop d p r)"
      | (skip) "\<not> IS_BOOKNAME_START (ref_prop d p r)" "\<not> IS_BOOKNAME_END (ref_prop d p r) \<or> bn = None"
      | (title) b where "\<not> IS_BOOKNAME_START (ref_prop d p r)" "IS_BOOKNAME_END (ref_prop d p r)" "bn = Some b" by blast
    then show ?thesis
    proof cases
      case start
      then show ?thesis using same [of "Some i"] Cons.prems(6) Some by simp
    next
      case skip
      then show ?thesis using same [of bn] same [of None] Cons.prems(6) Some by (cases bn) (auto split: if_splits)
    next
      case (title b)
      obtain e p1 where e: "poly_lemmas d p b (i - b + 1) = Some (e, p1)" "e \<noteq> -1"
        and rest: "bookname_loop d (after_poly SET_BOOKNAME e p1) None is = Some (0, q)"
        using Cons.prems(6) Some title by (auto simp: bind_eq_Some_conv after_poly_def split: if_splits)
      have "b \<le> i" "i < m_ppseg_cnt p" using Cons.prems(3,5) title(3) by simp_all
      then have "b + (i - b + 1) \<le> m_ppseg_cnt p" by simp
      note K = after_poly_keeps(1) [OF Cons.prems(1,2) this e, of SET_BOOKNAME]
      show ?thesis using next_entry [OF K rest] keeps_trans K by blast
    qed
  qed
qed (simp add: keeps_refl)

lemma bookname_recg_keeps_text:
  assumes "wf_phrases d" "wf_inner d p" "bookname_recg d p = Some (0, q)"
  shows "wf_inner d q \<and> m_ppseg_cnt q = m_ppseg_cnt p \<and> seg_text d q = seg_text d p"
  using bookname_loop_keeps [OF assms(1,2) _ _ _ assms(3) [unfolded bookname_recg_def]] by (simp add: keeps_def)

subsection \<open>Foreign names keep the text\<close>

definition entry_text :: "scw_worddict \<Rightarrow> scw_inner \<Rightarrow> lmref option \<Rightarrow> nat list" where
  "entry_text d p e = (case e of None \<Rightarrow> [] | Some r \<Rightarrow> lm_text d p r)"

abbreviation texts :: "scw_worddict \<Rightarrow> scw_inner \<Rightarrow> lmref option list \<Rightarrow> nat list" where
  "texts d p es \<equiv> concat (map (entry_text d p) es)"

lemma entry_text_simps [simp]: "entry_text d p None = []" "entry_text d p (Some r) = lm_text d p r"
  by (simp_all add: entry_text_def)

lemma texts_seg_refs: "texts d p (get_list (m_ppseg p) a n) = concat (map (lm_text d p) (seg_refs p a n))"
proof (induction n arbitrary: a)
  case (Suc n)
  have "seg_refs p a (Suc n) = seg_refs p a 1 @ seg_refs p (a + 1) n" using seg_refs_split [of p a 1 n] by simp
  moreover have "get_list (m_ppseg p) a (Suc n) = m_ppseg p a # get_list (m_ppseg p) (a + 1) n"
    using get_list_split [of "m_ppseg p" a 1 n] by (simp add: get_list_def)
  ultimately show ?case using Suc [of "a + 1"]
    by (cases "m_ppseg p a") (simp_all add: seg_refs_def List.map_filter_simps)
qed (simp add: seg_refs_def get_list_def List.map_filter_simps)

text \<open>The name ends with the sum of the texts; \<open>backlmpos\<close> is where the first \<open>backlmcnt\<close> entries end.\<close>

definition scanned :: "scw_worddict \<Rightarrow> scw_inner \<Rightarrow> lmref option list \<Rightarrow> fname_sums \<Rightarrow> bool" where
  "scanned d p es s \<longleftrightarrow> fs_text s = texts d p es \<and> length (fs_text s) < MAX_WORD_LEN \<and> fs_backcnt s \<le> length es \<and>
     fs_backpos s = length (texts d p (take (fs_backcnt s) es))"

lemma fname_scan_texts:
  assumes d: "wf_phrases d" and w: "wf_inner d p"
  shows "fname_scan d p n i es s = Some (Some s') \<Longrightarrow> \<forall>r. Some r \<in> set es \<longrightarrow> seg_ref d p r \<Longrightarrow> i = length pre \<Longrightarrow>
    scanned d p pre s \<Longrightarrow> scanned d p (pre @ es) s'"
proof (induction es arbitrary: i pre s)
  case (Cons e es)
  show ?case
  proof (cases e)
    case None
    have "scanned d p (pre @ [None]) s" using Cons.prems(4) unfolding scanned_def by auto
    then show ?thesis using Cons.IH [of "i + 1" s "pre @ [None]"] Cons.prems None by simp
  next
    case (Some r)
    have r: "seg_ref d p r" using Cons.prems(2) Some by simp
    obtain bs b where bs: "read_entry d p (Some r) (MAX_WORD_LEN - length (fs_text s)) = Some (Some bs)"
      and b: "name_prob d (deref d p r) DATA_FNAME = Some b"
      using Cons.prems(1) Some by (auto simp: bind_eq_Some_conv split: option.splits)
    have tx: "bs = lm_text d p r" "length bs < MAX_WORD_LEN - length (fs_text s)"
      using read_entry_text [OF d w r bs] by blast+
    let ?s2 = "fname_add n i (ref_prop d p r) b bs s"
    have "fname_scan d p n (i + 1) es ?s2 = Some (Some s')" using Cons.prems(1) Some bs b by simp
    moreover have "scanned d p (pre @ [Some r]) ?s2"
      using Cons.prems(3,4) tx unfolding scanned_def fname_add_def Let_def by auto
    ultimately show ?thesis using Cons.IH [of "i + 1" ?s2 "pre @ [Some r]"] Cons.prems(2,3) Some by simp
  qed
qed simp

lemma fname_choice_cases:
  assumes "fname_choice rl d p es s = n" "1 < n"
  shows "n = length es \<or> n = fs_backcnt s"
  using assms by (auto simp: fname_choice_def Let_def split: option.splits if_splits)

definition byte_text :: "scw_worddict \<Rightarrow> scw_inner \<Rightarrow> nat \<Rightarrow> bool" where
  "byte_text d p i \<longleftrightarrow> (\<forall>j r. i \<le> j \<and> j < m_ppseg_cnt p \<and> m_ppseg p j = Some r \<longrightarrow> (\<forall>c \<in> set (lm_text d p r). 0 < c \<and> c < 256))"

lemma byte_text_ext:
  assumes d: "wf_phrases d" and w: "wf_inner d p" and k: "keeps d p q" and s: "same_from j p q" "i \<le> j" and b: "byte_text d p i"
  shows "byte_text d q j"
  unfolding byte_text_def
proof (intro allI impI)
  fix l r assume l: "j \<le> l \<and> l < m_ppseg_cnt q \<and> m_ppseg q l = Some r"
  have q: "wf_inner d q" "inner_ext p q" using k by (simp_all add: keeps_def)
  have l': "i \<le> l" "l < m_ppseg_cnt p" "m_ppseg p l = Some r" using k s l by (auto simp: keeps_def same_from_def)
  then have "lm_text d q r = lm_text d p r" using lm_text_ext(2) [OF d w q wf_inner_seg [OF w]] by blast
  then show "\<forall>c \<in> set (lm_text d q r). 0 < c \<and> c < 256" using b l' by (auto simp: byte_text_def)
qed

lemma judge_fname_ok:
  assumes d: "wf_phrases d" and w: "wf_inner d p" and b: "byte_text d p i" and i: "i + m \<le> m_ppseg_cnt p"
    and c: "judge_fname rl d p i m = Some (e, q)"
  shows "e \<le> 1 \<and> q = p \<or> 1 < e \<and> e \<le> int m \<and> keeps d p q \<and> same_from (i + nat e) p q"
proof (cases "e \<le> 1 \<and> q = p")
  case False
  let ?es = "get_list (m_ppseg p) i m"
  let ?s0 = "\<lparr>fs_text = [], fs_power = 0, fs_other = 0, fs_backcnt = 0, fs_backpos = 0, fs_end = False, fs_bgn = False\<rparr>"
  obtain s where s: "fname_scan d p m 0 ?es ?s0 = Some (Some s)"
    using c False by (auto simp: judge_fname_def Let_def bind_eq_Some_conv split: if_splits option.splits)
  define n where "n = fname_choice rl d p ?es s"
  obtain k p1 where n: "1 < n" and k: "name_word p (if n = m then fs_text s else take (fs_backpos s) (fs_text s)) i n = (k, p1)"
    and q: "(if k < 0 then (-1, p1) else (int n, upd_dynlm p1 (nat k) (set_property SET_FMNAME))) = (e, q)"
    using c False s by (auto simp: judge_fname_def Let_def bind_eq_Some_conv n_def [symmetric] split: if_splits prod.splits)
  have refs: "\<forall>r. Some r \<in> set ?es \<longrightarrow> seg_ref d p r"
  proof (intro allI impI)
    fix r assume "Some r \<in> set ?es"
    then obtain j where "j < m" "m_ppseg p (i + j) = Some r" by (auto simp: in_set_conv_nth)
    then show "seg_ref d p r" using wf_inner_seg [OF w, of "i + j"] i by simp
  qed
  have "scanned d p [] ?s0" by (simp add: scanned_def MAX_WORD_LEN_def)
  then have S: "scanned d p ?es s" using fname_scan_texts [OF d w s refs, of "[]"] by simp
  have nm: "n \<le> m" "n = m \<or> n = fs_backcnt s"
    using fname_choice_cases [OF n_def [symmetric] n] S by (auto simp: scanned_def)
  let ?t = "if n = m then fs_text s else take (fs_backpos s) (fs_text s)"
  have tx: "?t = texts d p (take n ?es)"
  proof (cases "n = m")
    case False
    then have "fs_backpos s = length (texts d p (take n ?es))" using nm(2) S by (simp add: scanned_def)
    moreover have "fs_text s = texts d p (take n ?es) @ texts d p (drop n ?es)"
      using S by (metis append_take_drop_id concat_append map_append scanned_def)
    ultimately show ?thesis using False by simp
  qed (use S in \<open>simp add: scanned_def\<close>)
  have "take n ?es = get_list (m_ppseg p) i n" using nm(1) by (simp add: get_list_def take_map min_def)
  then have tx: "?t = concat (map (lm_text d p) (seg_refs p i n))" unfolding tx by (simp only: texts_seg_refs)
  have "length (fs_text s) < 256" using S unfolding scanned_def MAX_WORD_LEN_def by blast
  then have len: "length ?t < 256" by auto
  have bytes: "\<forall>c \<in> set ?t. 0 < c \<and> c < 256"
  proof
    fix c assume "c \<in> set ?t"
    then obtain j r where j: "i \<le> j" "j < i + n" "m_ppseg p j = Some r" "c \<in> set (lm_text d p r)"
      unfolding tx by (auto simp: seg_refs_def List.map_filter_def)
    then have "j < m_ppseg_cnt p" using i nm(1) by simp
    then show "0 < c \<and> c < 256" using b j unfolding byte_text_def by blast
  qed
  have "i + n \<le> m_ppseg_cnt p" using i nm(1) by simp
  note N = name_word_ok [OF d w this _ tx len bytes k]
  show ?thesis
  proof (cases "0 \<le> k")
    case True
    note K = N(2) [rule_format, OF _ True]
    have kk: "keeps d p p1" "nat k = m_dynlm_cnt p" "m_dynlm_cnt p1 = m_dynlm_cnt p + 1" "same_from (i + n) p p1" using K n by simp_all
    have "keeps d p (upd_dynlm p1 (nat k) (set_property SET_FMNAME))"
      by (rule keeps_property [OF kk(1)]) (simp_all add: kk)
    then show ?thesis using kk(4) q True n nm(1) by (auto simp: same_from_def)
  qed (use N(1) n q in auto)
qed simp

lemma fname_reach_bound:
  "i + step \<le> m_ppseg_cnt p \<Longrightarrow> i < m_ppseg_cnt p \<Longrightarrow> i + fname_reach d p i j step \<le> m_ppseg_cnt p"
  by (induction d p i j step rule: fname_reach.induct) (subst fname_reach.simps, auto split: option.splits)

lemma fname_at_ok:
  assumes d: "wf_phrases d" and w: "wf_inner d p" and b: "byte_text d p i" and i: "i < m_ppseg_cnt p"
    and c: "fname_at rl d p i = Some (s, q)"
  shows "keeps d p q" "same_from (i + s) p q"
proof -
  have "keeps d p q \<and> same_from (i + s) p q"
  proof (cases "q = p")
    case False
    define m where "m = fname_reach d p i 1 1"
    obtain e where e: "judge_fname rl d p i m = Some (e, q)" "s = (if e > 0 then nat e else 1)"
      using c False unfolding fname_at_def m_def [symmetric] Let_def
      by (cases "m_ppseg p i") (auto simp: bind_eq_Some_conv split: if_splits)
    have "i + m \<le> m_ppseg_cnt p" unfolding m_def using fname_reach_bound [of i 1 p d 1] i by simp
    from judge_fname_ok [OF d w b this e(1)] show ?thesis using False e(2) by auto
  qed (use keeps_refl [OF w] in simp)
  then show "keeps d p q" "same_from (i + s) p q" by simp_all
qed

lemma fhumanname_loop_keeps:
  "wf_phrases d \<Longrightarrow> wf_inner d p \<Longrightarrow> cnt = m_ppseg_cnt p \<Longrightarrow> byte_text d p i \<Longrightarrow>
    fhumanname_loop rl d cnt p i = Some (e, q) \<Longrightarrow> e = 0 \<and> keeps d p q"
proof (induction rl d cnt p i rule: fhumanname_loop.induct)
  case (1 rl d cnt p i)
  show ?case
  proof (cases "i < cnt")
    case True
    obtain s p1 where at: "fname_at rl d p i = Some (s, p1)" and rest: "fhumanname_loop rl d cnt p1 (i + s) = Some (e, q)"
      using 1(6) True by (subst (asm) fhumanname_loop.simps) (auto split: option.splits)
    have i: "i < m_ppseg_cnt p" using True 1(4) by simp
    note A = fname_at_ok [OF 1(2,3,5) i at]
    have p1: "wf_inner d p1" "cnt = m_ppseg_cnt p1" using A(1) 1(4) by (simp_all add: keeps_def)
    have "e = 0 \<and> keeps d p1 q"
      using 1(1) [OF True at refl 1(2) p1 byte_text_ext [OF 1(2,3) A le_add1 1(5)] rest] .
    then show ?thesis using keeps_trans A(1) by blast
  next
    case False
    then show ?thesis using 1(3,6) keeps_refl by (subst (asm) fhumanname_loop.simps) auto
  qed
qed

lemma fhumanname_recg_keeps_text:
  assumes "wf_phrases d" "wf_inner d p" "byte_text d p 0" "fhumanname_recg rl d p = Some (e, q)"
  shows "e = 0 \<and> wf_inner d q \<and> m_ppseg_cnt q = m_ppseg_cnt p \<and> seg_text d q = seg_text d p"
  using fhumanname_loop_keeps [OF assms(1,2) refl assms(3,4) [unfolded fhumanname_recg_def]] by (simp add: keeps_def)

subsection \<open>The steps after the segmentation keep the text\<close>

lemma byte_text_seg: "byte_text d p 0 \<longleftrightarrow> (\<forall>c \<in> set (seg_text d p). 0 < c \<and> c < 256)"
  by (auto simp: byte_text_def seg_text_def seg_refs_def List.map_filter_def)

lemma and_then_0:
  assumes "and_then r k = Some (1, q)"
  obtains e p where "r = Some (e, p)" "0 \<le> e" "k p = Some (1, q)"
  using assms by (auto simp: and_then_def bind_eq_Some_conv split: if_splits)

lemma run_if_keeps:
  assumes "run_if b f p = Some (e, q)" "wf_inner d p" "b \<Longrightarrow> f p = Some (e, q) \<Longrightarrow> keeps d p q"
  shows "keeps d p q"
  using assms keeps_refl by (auto simp: run_if_def split: if_splits)

lemma name_loops_code:
  "humanname_loop rl d cnt p i = Some (e, q) \<Longrightarrow> e = 0 \<or> e = -1"
proof (induction rl d cnt p i rule: humanname_loop.induct)
  case (1 rl d cnt p i)
  then show ?case by (subst (asm) (2) humanname_loop.simps) (fastforce split: if_splits option.splits)
qed

lemma bookname_loop_code: "bookname_loop d p bn is = Some (e, q) \<Longrightarrow> e = 0 \<or> e = -1"
  by (induction d p bn "is" rule: bookname_loop.induct)
    (fastforce simp: bind_eq_Some_conv split: if_splits option.splits)+

text \<open>
  C31 \<open>fmm_postprocess\<close> without \<open>g_scw_tn\<close> (the normalisation of numbers, \<open>tn_recg\<close>): a result of 1 is a
  result whose entries spell the same text. Without person names nothing is asked of the entries.
\<close>

theorem fmm_postprocess_keeps_text:
  assumes d: "wf_phrases d" and w: "wf_inner d p"
    and n: "m_wdtype d AND SCW_WD_CH \<noteq> 0 \<and> wants (m_flag p) SCW_OUT_HUMANNAME \<Longrightarrow> name_ready d p 0"
    and c: "fmm_postprocess rl False d p = Some (1, q)"
  shows "wf_inner d q \<and> m_ppseg_cnt q = m_ppseg_cnt p \<and> seg_text d q = seg_text d p"
proof -
  let ?names = "m_wdtype d AND SCW_WD_CH \<noteq> 0 \<and> wants (m_flag p) SCW_OUT_HUMANNAME"
  obtain e1 p1 e2 p2 e3 where steps: "run_if ?names (humanname_recg rl d) p = Some (e1, p1)" "0 \<le> e1"
    "run_if ?names (fhumanname_recg rl d) p1 = Some (e2, p2)"
    "run_if (wants (m_flag p2) SCW_OUT_BOOKNAME) (bookname_recg d) p2 = Some (e3, q)" "0 \<le> e3"
    using c unfolding fmm_postprocess_def Let_def by (auto simp: run_if_def elim!: and_then_0)
  have one: "keeps d p p1"
  proof (rule run_if_keeps [OF steps(1) w])
    assume names: ?names and r: "humanname_recg rl d p = Some (e1, p1)"
    then have "e1 = 0" using name_loops_code steps(2) by (fastforce simp: humanname_recg_def)
    then show "keeps d p p1" using humanname_loop_keeps [OF d w refl n [OF names]] r by (simp add: humanname_recg_def)
  qed
  then have w1: "wf_inner d p1" "seg_text d p1 = seg_text d p" by (simp_all add: keeps_def)
  have two: "keeps d p1 p2"
  proof (rule run_if_keeps [OF steps(3) w1(1)])
    assume names: ?names and r: "fhumanname_recg rl d p1 = Some (e2, p2)"
    have "byte_text d p 0" using n [OF names] by (auto simp: name_ready_def plain_entry_def byte_text_def)
    then have "byte_text d p1 0" by (simp add: byte_text_seg w1(2))
    then show "keeps d p1 p2" using fhumanname_loop_keeps [OF d w1(1) refl _ r [unfolded fhumanname_recg_def]] by blast
  qed
  then have w2: "wf_inner d p2" by (simp add: keeps_def)
  have "keeps d p2 q"
  proof (rule run_if_keeps [OF steps(4) w2])
    assume r: "bookname_recg d p2 = Some (e3, q)"
    then have "e3 = 0" using bookname_loop_code steps(5) by (fastforce simp: bookname_recg_def)
    then show "keeps d p2 q" using bookname_loop_keeps [OF d w2 _ _ _ r [unfolded bookname_recg_def \<open>e3 = 0\<close>]] by simp
  qed
  then show ?thesis using one two keeps_trans unfolding keeps_def by metis
qed

subsection \<open>A sample name\<close>

text \<open>A dictionary of three one-word lemmas that may be a surname and the two words of a given name.\<close>

definition name_dict :: scw_worddict where
  "name_dict = sample_dict\<lparr>m_lmpos := 3, m_wdtype := SCW_WD_CH, m_wordbuf := put_list (\<lambda>_. 0) 0 [213, 197, 0, 180, 243, 0, 195, 247, 0],
     m_lemmalist := (\<lambda>l. zero_lemma\<lparr>m_type := LEMMA_TYPE_SBASIC, m_length := 2, m_word_bpos := 3 * l,
       m_property := INIT_PROPERTY\<lparr>m_hprop := 0x00006208\<rparr>\<rparr>)\<rparr>"

definition name_inner :: scw_inner where
  "name_inner = sample_inner\<lparr>m_flag := SCW_OUT_HUMANNAME, m_ppseg_cnt := 3, m_ppseg_flag := (\<lambda>_. 0),
     m_ppseg := (\<lambda>j. if j < 3 then Some (Static j) else None)\<rparr>"

definition no_rules :: name_rules where
  "no_rules = \<lparr>lsn = \<lambda>_. False, rsn = \<lambda>_. False\<rparr>"

lemma name_dict_fields:
  "m_type (m_lemmalist name_dict l) = LEMMA_TYPE_SBASIC" "m_length (m_lemmalist name_dict l) = 2"
  "m_property (m_lemmalist name_dict l) = INIT_PROPERTY\<lparr>m_hprop := 0x00006208\<rparr>"
  "m_word_bpos (m_lemmalist name_dict l) = 3 * l" "m_utilinfo_pos (m_lemmalist name_dict l) = 0"
  "m_utilinfo name_dict 0 = \<lparr>m_ambsuffix_pos = 0, m_cnameprob_pos = 0, m_fnameprob_pos = 0\<rparr>"
  "m_probbuf name_dict = (\<lambda>_. 0)" "m_lmpos name_dict = 3" "m_wdtype name_dict = SCW_WD_CH"
  "m_wordbuf name_dict = put_list (\<lambda>_. 0) 0 [213, 197, 0, 180, 243, 0, 195, 247, 0]"
  by (simp_all add: name_dict_def sample_dict_eval zero_lemma_def)

lemma name_prob_zero: "name_prob name_dict (m_lemmalist name_dict l) DATA_CNAME = Some (\<lambda>_. 0)"
  by (simp add: name_prob_def scw_get_nameprob_def name_dict_fields prob_pos_def DATA_CNAME_def null_defs)

lemma name_judged: "judge_3cname name_dict (m_lemmalist name_dict a) (m_lemmalist name_dict b) (m_lemmalist name_dict c) True"
  by (simp add: judge_3cname_def name_prob_zero)

lemma name_texts:
  "get_lmstr name_dict p (Some (Static 0)) n = (if n = 0 then Some (-1, []) else if 2 < n then Some (2, [213, 197]) else None)"
  "get_lmstr name_dict p (Some (Static (Suc 0))) n = (if n = 0 then Some (-1, []) else if 2 < n then Some (2, [180, 243]) else None)"
  "get_lmstr name_dict p (Some (Static (Suc (Suc 0)))) n = (if n = 0 then Some (-1, []) else if 2 < n then Some (2, [195, 247]) else None)"
  by (simp_all add: get_lmstr_def lmstr_bytes_def deref_def name_dict_fields static_bytes_def c_assert_def get_list_def put_list_def upt_rec numeral_2_eq_2)

lemma name_flags: "IS_SURNAME (INIT_PROPERTY\<lparr>m_hprop := 25096\<rparr>)" "IS_NAMEMID (INIT_PROPERTY\<lparr>m_hprop := 25096\<rparr>)"
  "IS_1W_NAMEEND (INIT_PROPERTY\<lparr>m_hprop := 25096\<rparr>)" "\<not> IS_2WHPREFIX (INIT_PROPERTY\<lparr>m_hprop := 25096\<rparr>)"
  by (simp_all add: prop_is)

lemma name_inner_fields:
  "m_ppseg_cnt name_inner = 3" "m_ppseg name_inner = (\<lambda>j. if j < 3 then Some (Static j) else None)" "m_dynlm_cnt name_inner = 0"
  "m_ppseg_flag name_inner j = 0"
  by (simp_all add: name_inner_def sample_inner_fields)

lemma name_strlen: "c_strlen (map char_of [180, 243, 195, 247 :: nat]) = 4"
  using c_strlen_all [of "map char_of [180, 243, 195, 247 :: nat]"] by simp

definition name_joined :: scw_inner where
  "name_joined = snd (name_word name_inner [180, 243, 195, 247] 1 2)"

lemma name_joined_fields:
  "m_ppseg_cnt name_joined = 3" "m_dynlm_cnt name_joined = 1" "m_dynlm_size name_joined = 100" "m_dynph_curpos name_joined = 0"
  "m_dynph_size name_joined = 2770" "m_type (m_dynlm name_joined 0) = LEMMA_TYPE_DBASIC" "m_length (m_dynlm name_joined 0) = 4"
  "m_ppseg name_joined = (\<lambda>j. if j = 0 then Some (Static 0) else if j = 1 then Some (Dyn 0) else None)"
  "seg_refs name_joined 0 3 = [Static 0, Dyn 0]" "name_word name_inner [180, 243, 195, 247] (Suc 0) 2 = (0, name_joined)"
  using name_strlen
  by (simp_all add: name_joined_def name_word_def create_dynword_def name_inner_def sample_inner_fields Let_def drop_ppseg_def fill_def
     seg_refs_def upt_rec List.map_filter_simps fun_eq_iff)

lemma name_found: "name_step no_rules name_dict name_inner 0 (Static 0) = Some (3, name_joined)"
proof -
  have "is_3word_cname name_dict name_inner 0 = Some (1, name_joined)"
    by (simp add: is_3word_cname_def name_inner_fields deref_def ref_prop_def name_dict_fields name_flags name_judged join_text_def
      read_entry_def name_texts MAX_WORD_LEN_def name_joined_fields)
  moreover have "is_real_surname no_rules name_dict name_inner 0 = Some True"
    by (simp add: is_real_surname_def name_inner_fields deref_def ref_prop_def name_dict_fields name_flags name_judged join_text_def
      read_entry_def name_texts MAX_WORD_LEN_def passes_def no_rules_def)
  ultimately show ?thesis by (simp add: name_step_def ref_prop_def deref_def name_dict_fields name_flags)
qed

lemma name_wf: "wf_phrases name_dict" "wf_inner name_dict name_inner"
  by (simp_all add: wf_phrases_def name_dict_fields lemma_types wf_inner_def name_inner_def sample_inner_fields null_defs)

lemma name_is_ready: "name_ready name_dict name_inner 0"
proof -
  have "plain_entry name_dict name_inner (Static l)" if "l < 3" for l
    using that unfolding less_Suc_eq numeral_3_eq_3
    by (auto simp: plain_entry_def lm_text_def lmstr_bytes_def deref_def name_dict_fields static_bytes_def
       get_list_def put_list_def upt_rec numeral_2_eq_2)
  then show ?thesis
    by (auto simp: name_ready_def name_inner_fields ref_prop_def deref_def name_dict_fields name_flags split: if_splits)
qed

lemma name_recognised:
  obtains q where "humanname_recg no_rules name_dict name_inner = Some (0, q)" "m_ppseg q = (\<lambda>j. if j = 0 then Some (Dyn 1) else None)"
    "m_ppseg_cnt q = 3" "IS_HUMAN_NAME (m_property (m_dynlm q 1))" "seg_text name_dict name_inner = [213, 197, 180, 243, 195, 247]"
proof -
  note S = name_step_ok [OF name_wf name_is_ready _ _ _ name_found, simplified name_inner_fields, simplified]
  have k: "keeps name_dict name_inner name_joined" using S by simp
  then have w: "wf_inner name_dict name_joined" by (simp add: keeps_def)
  have sz: "length (all_words name_dict name_joined [Static 0, Dyn 0]) + 2 * length (all_subs name_dict name_joined [Static 0, Dyn 0] 0) \<le> 768"
    "phrase_length name_dict name_joined [Static 0, Dyn 0] < 256"
    by (simp_all add: all_words_def ref_words_def ref_subs_def deref_def name_dict_fields name_joined_fields lemma_types phrase_length_def)
  obtain p2 where p2: "poly_lemmas name_dict name_joined 0 3 = Some (1, p2)"
    using poly_lemmas_total [OF name_wf(1) w, of 0 3] sz by (auto simp: name_joined_fields max_sizes)
  define q where "q = after_poly (\<lambda>x. SET_CH_NAME (SET_HUMAN_NAME x)) 1 p2"
  have at: "name_at no_rules name_dict name_inner 0 = Some (3, 0, q)"
    using p2 by (simp add: name_at_def name_inner_fields name_found q_def after_poly_def)
  then have "humanname_recg no_rules name_dict name_inner = Some (0, q)"
    by (simp add: humanname_recg_def name_inner_fields humanname_loop.simps)
  moreover have "m_ppseg q = (\<lambda>j. if j = 0 then Some (Dyn 1) else None)" "m_ppseg_cnt q = 3"
    using poly_lemmas_phrase(5) [OF name_wf(1) w _ p2] poly_lemmas_ok(3) [OF name_wf(1) w _ p2] name_joined_fields(1,2)
    by (auto simp: q_def after_poly_def fill_def name_joined_fields fun_eq_iff)
  moreover have "IS_HUMAN_NAME (m_property (m_dynlm q 1))"
    by (simp add: q_def after_poly_def upd_dynlm_def prop_set prop_is bit_simps bit_eq_iff) (auto intro: exI [of _ 6])
  moreover have "seg_text name_dict name_inner = [213, 197, 180, 243, 195, 247]"
    by (simp add: seg_text_def seg_refs_def name_inner_fields upt_rec List.map_filter_simps lm_text_def lmstr_bytes_def deref_def
       name_dict_fields static_bytes_def get_list_def put_list_def numeral_2_eq_2)
  ultimately show ?thesis by (rule that)
qed


theorem fmm_postprocess_keeps_text_witness:
  "\<exists>q. fmm_postprocess no_rules False name_dict name_inner = Some (1, q) \<and> m_ppseg q 0 = Some (Dyn 1) \<and>
     IS_HUMAN_NAME (m_property (m_dynlm q 1)) \<and> seg_text name_dict q = [213, 197, 180, 243, 195, 247]"
proof -
  obtain q where q: "humanname_recg no_rules name_dict name_inner = Some (0, q)" "m_ppseg q = (\<lambda>j. if j = 0 then Some (Dyn 1) else None)"
    "m_ppseg_cnt q = 3" "IS_HUMAN_NAME (m_property (m_dynlm q 1))" "seg_text name_dict name_inner = [213, 197, 180, 243, 195, 247]"
    by (rule name_recognised)
  have "fname_reach name_dict q 0 1 1 = 1" by (simp add: q fname_reach.simps)
  then have f: "fhumanname_recg no_rules name_dict q = Some (0, q)"
    by (simp add: fhumanname_recg_def fhumanname_loop.simps fname_at_def q)
  have b: "bookname_recg name_dict q = Some (0, q)" by (simp add: bookname_recg_def q upt_rec)
  have n: "m_wdtype name_dict AND SCW_WD_CH \<noteq> 0 \<and> wants (m_flag name_inner) SCW_OUT_HUMANNAME"
    by (simp add: name_dict_fields name_inner_def wants_def out_levels SCW_WD_CH_def)
  have "fmm_postprocess no_rules False name_dict name_inner = Some (1, q)"
    using q(1) f b n by (simp add: fmm_postprocess_def run_if_def and_then_def Let_def)
  then show ?thesis using fmm_postprocess_keeps_text [OF name_wf name_is_ready] q by auto
qed

end
