(* ===== verification/SegMerge.thy ===== *)
theory SegMerge
  imports Names
begin

text \<open>
  Putting two segmentations of a text together (\<open>segimpl.cpp\<close>). \<open>scw_seg\<close> keeps the result of the
  matcher (\<open>scw_ppseg_cpy\<close>), builds a finer one from the terms of the CRF tagger
  (\<open>check_crf_exist\<close>) and then replaces runs of entries of the finer one by the entries of the
  first one that cover exactly them (\<open>scw_merge\<close>).
\<close>

subsection \<open>Merging\<close>

record seg_tmp =
  tmp_ppseg :: "lmref option buf"
  tmp_ppseg_cnt :: nat

definition scw_ppseg_cpy :: "scw_inner \<Rightarrow> seg_tmp" where
  "scw_ppseg_cpy p = \<lparr>tmp_ppseg = m_ppseg p, tmp_ppseg_cnt = m_ppseg_cnt p\<rparr>"

definition merge_pir :: "scw_worddict \<Rightarrow> scw_inner \<Rightarrow> lmref \<Rightarrow> nat \<Rightarrow> nat \<Rightarrow> scw_inner" where
  "merge_pir d p r beg len =
     (if len = 1 \<or> IS_ASCIIWORD (ref_prop d p r) then p
      else drop_ppseg p beg len r)"

text \<open>
  \<open>merging\<close>: an entry of the first result starts where the run \<open>seg_beg\<close> of entries of the second
  starts. The variables \<open>merge_num\<close> and \<open>lastasc\<close> of the code are never used.
\<close>

record merge_state =
  ms_pir :: scw_inner
  ms_merging :: bool
  ms_tmplen :: nat
  ms_seglen :: nat
  ms_curr :: nat
  ms_beg :: nat

definition merge_entry :: "scw_worddict \<Rightarrow> lmref \<Rightarrow> lmref \<Rightarrow> merge_state \<Rightarrow> merge_state" where
  "merge_entry d r x s =
     (let p = ms_pir s; c = ms_curr s; l = ms_seglen s + m_length (deref d p x); s1 = s\<lparr>ms_seglen := l, ms_curr := c + 1\<rparr> in
      if l = ms_tmplen s
      then s1\<lparr>ms_pir := (if ms_merging s then merge_pir d p r (ms_beg s) (c - ms_beg s + 1) else p),
             ms_beg := c + 1, ms_merging := True\<rparr>
      else if ms_tmplen s < l then s1\<lparr>ms_merging := False, ms_beg := c + 1\<rparr>
      else s1)"

lemma merge_entry_curr [simp]: "ms_curr (merge_entry d r x s) = ms_curr s + 1"
  by (simp add: merge_entry_def Let_def)

text \<open>The inner loop, over the entries of the second result; \<open>cnt\<close> is its \<open>m_ppseg_cnt\<close>, which does not change.\<close>

function merge_run :: "scw_worddict \<Rightarrow> nat \<Rightarrow> lmref \<Rightarrow> merge_state \<Rightarrow> merge_state" where
  "merge_run d cnt r s =
     (if ms_curr s < cnt \<and> ms_seglen s < ms_tmplen s
      then (case m_ppseg (ms_pir s) (ms_curr s) of None \<Rightarrow> merge_run d cnt r (s\<lparr>ms_curr := ms_curr s + 1\<rparr>)
        | Some x \<Rightarrow> merge_run d cnt r (merge_entry d r x s))
      else s)"
  by pat_completeness auto

termination
  by (relation "measure (\<lambda>(d, cnt, r, s). cnt - ms_curr s)") auto

declare merge_run.simps [simp del]

definition merge_step :: "scw_worddict \<Rightarrow> nat \<Rightarrow> lmref option \<Rightarrow> merge_state \<Rightarrow> merge_state" where
  "merge_step d cnt e s = (case e of None \<Rightarrow> s | Some r \<Rightarrow>
     (let l = ms_tmplen s + m_length (deref d (ms_pir s) r) in
      merge_run d cnt r (s\<lparr>ms_tmplen := l, ms_merging := (ms_merging s \<or> ms_seglen s = l)\<rparr>)))"

definition scw_merge :: "scw_worddict \<Rightarrow> scw_inner \<Rightarrow> seg_tmp \<Rightarrow> int \<times> scw_inner" where
  "scw_merge d p t =
     (let s = fold (merge_step d (m_ppseg_cnt p)) (get_list (tmp_ppseg t) 0 (tmp_ppseg_cnt t))
            \<lparr>ms_pir = p, ms_merging = True, ms_tmplen = 0, ms_seglen = 0, ms_curr = 0, ms_beg = 0\<rparr> in
      if ms_tmplen s \<noteq> ms_seglen s then (-1, reset_inner (ms_pir s)) else (0, ms_pir s))"

subsection \<open>Merging keeps the text\<close>

text \<open>The text of the entries before \<open>c\<close>.\<close>

definition text_upto :: "scw_worddict \<Rightarrow> scw_inner \<Rightarrow> nat \<Rightarrow> nat list" where
  "text_upto d p c = texts d p (get_list (m_ppseg p) 0 c)"

lemma text_upto_0 [simp]: "text_upto d p 0 = []"
  by (simp add: text_upto_def get_list_def)

lemma text_upto_Suc: "text_upto d p (Suc c) = text_upto d p c @ entry_text d p (m_ppseg p c)"
  by (simp add: text_upto_def get_list_def)

lemma text_upto_all: "text_upto d p (m_ppseg_cnt p) = seg_text d p"
  by (simp add: text_upto_def texts_seg_refs seg_text_def)

lemma text_upto_split: "a \<le> b \<Longrightarrow> text_upto d p b = text_upto d p a @ texts d p (get_list (m_ppseg p) a (b - a))"
  using get_list_split [of "m_ppseg p" 0 a "b - a"] by (simp add: text_upto_def)

lemma entry_text_ext:
  assumes d: "wf_phrases d" and w: "wf_inner d p" and k: "keeps d p q" and r: "\<And>r. e = Some r \<Longrightarrow> seg_ref d p r"
  shows "entry_text d q e = entry_text d p e"
  using r k lm_text_ext(2) [OF d w, of q] by (cases e) (simp_all add: keeps_def)

text \<open>Behind a change the text stays the same, so before it too.\<close>

lemma text_upto_keeps:
  assumes d: "wf_phrases d" and w: "wf_inner d p" and k: "keeps d p q" and s: "same_from c p q" and c: "c \<le> m_ppseg_cnt p"
  shows "text_upto d q c = text_upto d p c"
proof -
  let ?n = "m_ppseg_cnt p"
  have es: "get_list (m_ppseg q) c (?n - c) = get_list (m_ppseg p) c (?n - c)"
    using s by (auto simp: get_list_def same_from_def)
  have "entry_text d q e = entry_text d p e" if e: "e \<in> set (get_list (m_ppseg p) c (?n - c))" for e
  proof (rule entry_text_ext [OF d w k])
    fix r assume "e = Some r"
    then obtain j where "j < ?n - c" "m_ppseg p (c + j) = Some r" using e by (auto simp: in_set_conv_nth)
    then show "seg_ref d p r" using wf_inner_seg [OF w, of "c + j"] c by simp
  qed
  then have "texts d q (get_list (m_ppseg q) c (?n - c)) = texts d p (get_list (m_ppseg p) c (?n - c))"
    unfolding es by (metis (no_types, lifting) map_cong)
  moreover have "text_upto d q ?n = text_upto d p ?n" using k text_upto_all [of d q] text_upto_all [of d p] by (simp add: keeps_def)
  ultimately show ?thesis using text_upto_split [OF c, of d p] text_upto_split [OF c, of d q] by simp
qed

text \<open>Entries whose records have the lengths of their texts.\<close>

definition true_len :: "scw_worddict \<Rightarrow> scw_inner \<Rightarrow> lmref option \<Rightarrow> bool" where
  "true_len d p e \<longleftrightarrow> (case e of None \<Rightarrow> True | Some r \<Rightarrow> seg_ref d p r \<and> m_length (deref d p r) = length (lm_text d p r))"

text \<open>
  The state of the loops: \<open>A\<close> is the text of the entries of the first result that are done, \<open>t\<close> that
  of the next one. The two clauses at the end say when a run may be replaced.
\<close>

definition merge_inv :: "scw_worddict \<Rightarrow> scw_inner \<Rightarrow> nat list \<Rightarrow> nat list \<Rightarrow> merge_state \<Rightarrow> bool" where
  "merge_inv d p0 A t s \<longleftrightarrow> keeps d p0 (ms_pir s) \<and> same_from (ms_curr s) p0 (ms_pir s) \<and> ms_curr s \<le> m_ppseg_cnt p0 \<and>
     ms_beg s \<le> ms_curr s \<and> ms_seglen s = length (text_upto d (ms_pir s) (ms_curr s)) \<and> ms_tmplen s = length (A @ t) \<and>
     (ms_tmplen s \<le> ms_seglen s \<longrightarrow> ms_beg s = ms_curr s) \<and> (ms_tmplen s < ms_seglen s \<longrightarrow> \<not> ms_merging s) \<and>
     (ms_merging s \<and> ms_seglen s < ms_tmplen s \<and> ms_curr s < m_ppseg_cnt p0 \<longrightarrow> text_upto d (ms_pir s) (ms_beg s) = A)"

lemma same_prefix: "xs @ us = ys @ vs \<Longrightarrow> length xs = length ys \<Longrightarrow> xs = ys"
  by simp

lemma reach_text:
  assumes "keeps d p0 p" "seg_text d p0 = X @ B" "j \<le> m_ppseg_cnt p0" "length (text_upto d p j) = length X"
  shows "text_upto d p j = X"
proof -
  have "text_upto d p j @ texts d p (get_list (m_ppseg p) j (m_ppseg_cnt p0 - j)) = X @ B"
    using text_upto_split [OF assms(3), of d p] text_upto_all [of d p] assms(1,2) by (simp add: keeps_def)
  then show ?thesis using assms(4) by (rule same_prefix)
qed

lemma merge_entry_ok:
  assumes d: "wf_phrases d" and w: "wf_inner d p0" and S: "seg_text d p0 = A @ t @ B"
    and r: "seg_ref d p0 r" "t = lm_text d p0 r"
    and I: "merge_inv d p0 A t s" and go: "ms_curr s < m_ppseg_cnt p0" "ms_seglen s < ms_tmplen s"
    and x: "m_ppseg (ms_pir s) (ms_curr s) = Some x" "true_len d p0 (Some x)"
  shows "merge_inv d p0 A t (merge_entry d r x s)"
proof -
  let ?p = "ms_pir s" and ?c = "ms_curr s" and ?b = "ms_beg s"
  let ?l = "ms_seglen s + m_length (deref d ?p x)"
  note I = I [unfolded merge_inv_def]
  have k: "keeps d p0 ?p" "same_from ?c p0 ?p" "?b \<le> ?c" using I by blast+
  have p: "wf_inner d ?p" "inner_ext p0 ?p" "m_ppseg_cnt ?p = m_ppseg_cnt p0" using k(1) by (simp_all add: keeps_def)
  have xr: "seg_ref d p0 x" "m_length (deref d p0 x) = length (lm_text d p0 x)" using x(2) by (simp_all add: true_len_def)
  have len: "m_length (deref d ?p x) = length (lm_text d ?p x)"
    using xr lm_text_ext(2) [OF d w p(1,2) xr(1)] deref_ext [OF p(2) xr(1)] by simp
  then have l: "?l = length (text_upto d ?p (?c + 1))" using I x(1) by (simp add: text_upto_Suc)
  show ?thesis
  proof (cases "?l = ms_tmplen s \<and> ms_merging s")
    case False
    then have "ms_pir (merge_entry d r x s) = ?p" "ms_seglen (merge_entry d r x s) = ?l" "ms_tmplen (merge_entry d r x s) = ms_tmplen s"
      by (auto simp: merge_entry_def Let_def)
    moreover have "same_from (?c + 1) p0 ?p" using k(2) by (simp add: same_from_def)
    ultimately show ?thesis unfolding merge_inv_def using False I k(1) go l
      by (auto simp: merge_entry_def Let_def)
  next
    case True
    define q where "q = merge_pir d ?p r ?b (?c - ?b + 1)"
    have e: "merge_entry d r x s = s\<lparr>ms_pir := q, ms_merging := True, ms_seglen := ?l, ms_curr := ?c + 1, ms_beg := ?c + 1\<rparr>"
      using True by (simp add: merge_entry_def Let_def q_def)
    have "text_upto d ?p ?b = A" using I True go by blast
    moreover have "text_upto d ?p (?c + 1) = A @ t"
      by (rule reach_text [OF k(1)]) (use S l True I go(1) in simp_all)
    ultimately have run: "texts d ?p (get_list (m_ppseg ?p) ?b (?c - ?b + 1)) = t"
      using text_upto_split [of ?b "?c + 1" d ?p] k(3) by (simp add: Suc_diff_le)
    have "keeps d ?p q \<and> same_from (?c + 1) ?p q"
    proof (cases "q = ?p")
      case False
      then have "q = drop_ppseg ?p ?b (?c - ?b + 1) r" by (simp add: q_def merge_pir_def split: if_splits)
      moreover have "lm_text d ?p r = concat (map (lm_text d ?p) (seg_refs ?p ?b (?c - ?b + 1)))"
        using lm_text_ext(2) [OF d w p(1,2) r(1)] r(2) run by (simp add: texts_seg_refs)
      ultimately show ?thesis
        using drop_keeps [OF d p(1) _ _ lm_text_ext(1) [OF d w p(1,2) r(1)], of ?b "?c - ?b + 1"] go(1) p(3) k(3) by simp
    qed (use keeps_refl [OF p(1)] in simp)
    then have q: "keeps d p0 q" "same_from (?c + 1) ?p q" "keeps d ?p q" using keeps_trans k(1) by blast+
    have "text_upto d q (?c + 1) = text_upto d ?p (?c + 1)"
      by (rule text_upto_keeps [OF d p(1) q(3,2)]) (use go p(3) in simp)
    moreover have "same_from (?c + 1) p0 q" using q(2) k(2) by (auto simp: same_from_def)
    ultimately show ?thesis unfolding merge_inv_def e using q(1) l go I True by simp
  qed
qed

lemma merge_skip_ok:
  assumes "merge_inv d p0 A t s" "ms_curr s < m_ppseg_cnt p0" "ms_seglen s < ms_tmplen s" "m_ppseg (ms_pir s) (ms_curr s) = None"
  shows "merge_inv d p0 A t (s\<lparr>ms_curr := ms_curr s + 1\<rparr>)"
  using assms by (auto simp: merge_inv_def text_upto_Suc same_from_def)

lemma merge_run_ok:
  "wf_phrases d \<Longrightarrow> wf_inner d p0 \<Longrightarrow> seg_text d p0 = A @ t @ B \<Longrightarrow> seg_ref d p0 r \<Longrightarrow> t = lm_text d p0 r \<Longrightarrow>
    \<forall>j < m_ppseg_cnt p0. true_len d p0 (m_ppseg p0 j) \<Longrightarrow> cnt = m_ppseg_cnt p0 \<Longrightarrow> merge_inv d p0 A t s \<Longrightarrow>
    merge_inv d p0 A t (merge_run d cnt r s) \<and>
      (cnt \<le> ms_curr (merge_run d cnt r s) \<or> ms_tmplen (merge_run d cnt r s) \<le> ms_seglen (merge_run d cnt r s))"
proof (induction d cnt r s rule: merge_run.induct)
  case (1 d cnt r s)
  show ?case
  proof (cases "ms_curr s < cnt \<and> ms_seglen s < ms_tmplen s")
    case go: True
    have same: "m_ppseg (ms_pir s) (ms_curr s) = m_ppseg p0 (ms_curr s)" using "1.prems"(8) by (simp add: merge_inv_def same_from_def)
    show ?thesis
    proof (cases "m_ppseg (ms_pir s) (ms_curr s)")
      case None
      have "merge_inv d p0 A t (s\<lparr>ms_curr := ms_curr s + 1\<rparr>)"
        using merge_skip_ok [OF "1.prems"(8) _ _ None] go "1.prems"(7) by simp
      moreover have "merge_run d cnt r s = merge_run d cnt r (s\<lparr>ms_curr := ms_curr s + 1\<rparr>)"
        using go None by (subst merge_run.simps) simp
      ultimately show ?thesis using "1.IH"(1) [OF go None "1.prems"(1-7)] by simp
    next
      case (Some x)
      have "true_len d p0 (Some x)" using "1.prems"(6,7) go same Some by (metis conjunct1)
      then have "merge_inv d p0 A t (merge_entry d r x s)"
        using merge_entry_ok [OF "1.prems"(1-5,8) _ _ Some] go "1.prems"(7) by simp
      moreover have "merge_run d cnt r s = merge_run d cnt r (merge_entry d r x s)"
        using go Some by (subst merge_run.simps) simp
      ultimately show ?thesis using "1.IH"(2) [OF go Some "1.prems"(1-7)] by simp
    qed
  next
    case False
    then have "merge_run d cnt r s = s" by (subst merge_run.simps) auto
    then show ?thesis using False "1.prems"(8) by auto
  qed
qed

text \<open>Between two entries of the first result.\<close>

definition merged_upto :: "scw_worddict \<Rightarrow> scw_inner \<Rightarrow> nat list \<Rightarrow> merge_state \<Rightarrow> bool" where
  "merged_upto d p0 A s \<longleftrightarrow> merge_inv d p0 A [] s \<and> (m_ppseg_cnt p0 \<le> ms_curr s \<or> ms_tmplen s \<le> ms_seglen s)"

lemma merge_start:
  assumes S: "seg_text d p0 = A @ B" and I: "merged_upto d p0 A s"
  shows "merge_inv d p0 A t (s\<lparr>ms_tmplen := ms_tmplen s + length t,
    ms_merging := (ms_merging s \<or> ms_seglen s = ms_tmplen s + length t)\<rparr>)"
proof -
  have I0: "merge_inv d p0 A [] s" "m_ppseg_cnt p0 \<le> ms_curr s \<or> ms_tmplen s \<le> ms_seglen s"
    using I by (simp_all add: merged_upto_def)
  have "text_upto d (ms_pir s) (ms_curr s) = A" if "ms_seglen s = ms_tmplen s"
    by (rule reach_text [OF _ S]) (use that I0(1) in \<open>simp_all add: merge_inv_def\<close>)
  then show ?thesis using I0 unfolding merge_inv_def by auto
qed

lemma merge_step_ok:
  assumes d: "wf_phrases d" and w: "wf_inner d p0" and S: "seg_text d p0 = A @ entry_text d p0 e @ B"
    and e: "true_len d p0 e" and ts: "\<forall>j < m_ppseg_cnt p0. true_len d p0 (m_ppseg p0 j)" and I: "merged_upto d p0 A s"
  shows "merged_upto d p0 (A @ entry_text d p0 e) (merge_step d (m_ppseg_cnt p0) e s)"
proof (cases e)
  case (Some r)
  let ?t = "lm_text d p0 r"
  have r: "seg_ref d p0 r" "m_length (deref d p0 r) = length ?t" using e Some by (simp_all add: true_len_def)
  define l where "l = ms_tmplen s + length ?t"
  define s1 where "s1 = s\<lparr>ms_tmplen := l, ms_merging := (ms_merging s \<or> ms_seglen s = l)\<rparr>"
  have k: "keeps d p0 (ms_pir s)" using I by (simp add: merged_upto_def merge_inv_def)
  then have m: "m_length (deref d (ms_pir s) r) = length ?t"
    using deref_ext [of p0 "ms_pir s" d r] r by (simp add: keeps_def)
  have "merge_inv d p0 A ?t s1" unfolding s1_def l_def by (rule merge_start [OF S I])
  from merge_run_ok [OF d w _ r(1) refl ts refl this, of B] S Some
  have "merge_inv d p0 A ?t (merge_run d (m_ppseg_cnt p0) r s1) \<and>
      (m_ppseg_cnt p0 \<le> ms_curr (merge_run d (m_ppseg_cnt p0) r s1) \<or>
       ms_tmplen (merge_run d (m_ppseg_cnt p0) r s1) \<le> ms_seglen (merge_run d (m_ppseg_cnt p0) r s1))" by simp
  moreover have "merge_step d (m_ppseg_cnt p0) e s = merge_run d (m_ppseg_cnt p0) r s1"
    using m by (simp add: merge_step_def Some Let_def s1_def l_def)
  ultimately show ?thesis using Some by (auto simp: merged_upto_def merge_inv_def)
qed (use I in \<open>simp add: merge_step_def\<close>)

subsection \<open>Which cuts are left\<close>

text \<open>The places where entries end, as numbers of bytes.\<close>

definition cuts :: "scw_worddict \<Rightarrow> scw_inner \<Rightarrow> nat set" where
  "cuts d p = (\<lambda>j. length (text_upto d p j)) ` {..m_ppseg_cnt p}"

lemma cutI: "j \<le> m_ppseg_cnt p \<Longrightarrow> length (text_upto d p j) \<in> cuts d p"
  by (simp add: cuts_def)

lemma text_upto_mono: "a \<le> b \<Longrightarrow> length (text_upto d p a) \<le> length (text_upto d p b)"
  using text_upto_split [of a b d p] by (metis le_add1 length_append)

lemma not_cut:
  assumes "length (text_upto d p c) < n" "n < length (text_upto d p (c + 1))"
  shows "n \<notin> cuts d p"
proof
  assume "n \<in> cuts d p"
  then obtain j where j: "n = length (text_upto d p j)" by (auto simp: cuts_def)
  show False
  proof (cases "j \<le> c")
    case True
    then show False using text_upto_mono [OF True, of d p] assms(1) j by simp
  next
    case False
    then have "c + 1 \<le> j" by simp
    then show False using text_upto_mono [of "c + 1" j d p] assms(2) j by simp
  qed
qed

text \<open>One entry in place of a run removes the cuts inside the run.\<close>

lemma drop_cuts:
  assumes d: "wf_phrases d" and w: "wf_inner d p" and an: "a + n \<le> m_ppseg_cnt p" "0 < n"
    and r: "seg_ref d p r" "lm_text d p r = concat (map (lm_text d p) (seg_refs p a n))"
  shows "cuts d (drop_ppseg p a n r) = cuts d p - {length (text_upto d p a)<..<length (text_upto d p (a + n))}"
proof -
  let ?q = "drop_ppseg p a n r"
  let ?u = "\<lambda>j. length (text_upto d p j)"
  have K: "keeps d p ?q" "same_from (a + n) p ?q" using drop_keeps [OF d w an r] by blast+
  have q: "wf_inner d ?q" "m_ppseg_cnt ?q = m_ppseg_cnt p" "inner_ext p ?q" using K(1) by (simp_all add: keeps_def)
  have before: "text_upto d ?q j = text_upto d p j" if "j \<le> a" for j
    using that
  proof (induction j)
    case (Suc j)
    have "m_ppseg ?q j = m_ppseg p j" using Suc.prems by (auto simp: drop_ppseg_def fill_def)
    moreover have "entry_text d ?q (m_ppseg p j) = entry_text d p (m_ppseg p j)"
      by (rule entry_text_ext [OF d w K(1)]) (use Suc.prems an(1) wf_inner_seg [OF w, of j] in simp)
    ultimately show ?case using Suc by (simp add: text_upto_Suc)
  qed simp
  have behind: "text_upto d ?q j = text_upto d p j" if "a + n \<le> j" "j \<le> m_ppseg_cnt p" for j
    by (rule text_upto_keeps [OF d w K(1) _ that(2)]) (use K(2) that(1) in \<open>simp add: same_from_def\<close>)
  have run: "length (text_upto d ?q (a + m)) = ?u (a + n)" if m: "0 < m" "m \<le> n" for m
  proof -
    have "length (text_upto d ?q (a + 1)) = ?u a + length (lm_text d ?q r)"
      by (simp add: text_upto_Suc before) (simp add: drop_ppseg_def fill_def)
    moreover have "lm_text d ?q r = lm_text d p r" by (rule lm_text_ext(2) [OF d w q(1,3) r(1)])
    moreover have "?u (a + n) = ?u a + length (lm_text d p r)"
      using text_upto_split [of a "a + n" d p] r(2) by (simp add: texts_seg_refs)
    ultimately have one: "length (text_upto d ?q (a + 1)) = ?u (a + n)" by simp
    have "length (text_upto d ?q (a + 1)) \<le> length (text_upto d ?q (a + m))" by (rule text_upto_mono) (use m in simp)
    moreover have "length (text_upto d ?q (a + m)) \<le> length (text_upto d ?q (a + n))" by (rule text_upto_mono) (use m in simp)
    ultimately show ?thesis using one behind [of "a + n"] an(1) by simp
  qed
  show ?thesis
  proof (intro set_eqI iffI)
    fix x assume "x \<in> cuts d ?q"
    then obtain j where j: "j \<le> m_ppseg_cnt p" "x = length (text_upto d ?q j)" by (auto simp: cuts_def q(2))
    consider "j \<le> a" | "a + n \<le> j" | m where "j = a + m" "0 < m" "m \<le> n" by (metis le_add_diff_inverse nat_le_linear zero_less_diff not_le add_le_cancel_left)
    then have "\<exists>i. i \<le> m_ppseg_cnt p \<and> x = ?u i \<and> (i \<le> a \<or> a + n \<le> i)"
      by cases (use before behind run j an(1) in \<open>auto intro: exI [of _ j] exI [of _ "a + n"]\<close>)
    then obtain i where i: "i \<le> m_ppseg_cnt p" "x = ?u i" "i \<le> a \<or> a + n \<le> i" by blast
    then have "x \<notin> {?u a<..<?u (a + n)}"
      using text_upto_mono [of i a d p] text_upto_mono [of "a + n" i d p] by auto
    then show "x \<in> cuts d p - {?u a<..<?u (a + n)}" using i by (auto simp: cuts_def)
  next
    fix x assume x: "x \<in> cuts d p - {?u a<..<?u (a + n)}"
    then obtain j where j: "j \<le> m_ppseg_cnt p" "x = ?u j" by (auto simp: cuts_def)
    consider "j \<le> a" | "a + n \<le> j" | "a < j" "j < a + n" by linarith
    then show "x \<in> cuts d ?q"
    proof cases
      case 3
      then have "x = ?u a \<or> x = ?u (a + n)"
        using x j text_upto_mono [of a j d p] text_upto_mono [of j "a + n" d p] by auto
      then show ?thesis
        using cutI [of a ?q d] cutI [of "a + n" ?q d] before [of a] behind [of "a + n"] an(1) q(2) by auto
    qed (use before behind j q(2) in \<open>auto simp: cuts_def image_iff intro!: bexI [of _ j]\<close>)
  qed
qed

text \<open>An entry of the first result takes effect when both its ends are cuts of the second.\<close>

definition fits :: "scw_worddict \<Rightarrow> scw_inner \<Rightarrow> nat list \<Rightarrow> nat list \<Rightarrow> lmref \<Rightarrow> bool" where
  "fits d p A t r \<longleftrightarrow> \<not> IS_ASCIIWORD (ref_prop d p r) \<and> length A \<in> cuts d p \<and> length (A @ t) \<in> cuts d p"

definition cut_out :: "scw_worddict \<Rightarrow> scw_inner \<Rightarrow> nat list \<Rightarrow> nat list \<Rightarrow> lmref \<Rightarrow> nat set" where
  "cut_out d p A t r = (if fits d p A t r then cuts d p - {length A<..<length (A @ t)} else cuts d p)"

text \<open>How far the second result is ahead of the first, and what a step has done to the cuts.\<close>

definition ahead :: "scw_worddict \<Rightarrow> merge_state \<Rightarrow> bool" where
  "ahead d s \<longleftrightarrow> (ms_tmplen s < ms_seglen s \<longrightarrow> (\<exists>c. length (text_upto d (ms_pir s) c) < ms_tmplen s \<and>
     ms_seglen s = length (text_upto d (ms_pir s) (c + 1)))) \<and> (ms_tmplen s = ms_seglen s \<longrightarrow> ms_merging s)"

definition step_cuts :: "scw_worddict \<Rightarrow> nat list \<Rightarrow> nat list \<Rightarrow> lmref \<Rightarrow> scw_inner \<Rightarrow> merge_state \<Rightarrow> bool" where
  "step_cuts d A t r p m \<longleftrightarrow> cuts d (ms_pir m) = cut_out d p A t r \<and> ahead d m"

lemma merge_entry_cuts:
  assumes d: "wf_phrases d" and w: "wf_inner d p0" and S: "seg_text d p0 = A @ t @ B"
    and r: "seg_ref d p0 r" "t = lm_text d p0 r"
    and I: "merge_inv d p0 A t s" and go: "ms_curr s < m_ppseg_cnt p0" "ms_seglen s < ms_tmplen s"
    and x: "m_ppseg (ms_pir s) (ms_curr s) = Some x" "true_len d p0 (Some x)"
    and m: "\<not> ms_merging s \<longrightarrow> length A \<notin> cuts d (ms_pir s)"
    and stop: "ms_tmplen s \<le> ms_seglen (merge_entry d r x s)"
  shows "step_cuts d A t r (ms_pir s) (merge_entry d r x s)"
proof -
  let ?p = "ms_pir s" and ?c = "ms_curr s" and ?b = "ms_beg s"
  let ?l = "ms_seglen s + m_length (deref d ?p x)" and ?u = "\<lambda>j. length (text_upto d (ms_pir s) j)"
  note I' = I [unfolded merge_inv_def]
  have k: "keeps d p0 ?p" "?b \<le> ?c" "ms_tmplen s = length (A @ t)" "ms_seglen s = ?u ?c" using I' by blast+
  have p: "wf_inner d ?p" "inner_ext p0 ?p" "m_ppseg_cnt ?p = m_ppseg_cnt p0" using k(1) by (simp_all add: keeps_def)
  have xr: "seg_ref d p0 x" "m_length (deref d p0 x) = length (lm_text d p0 x)" using x(2) by (simp_all add: true_len_def)
  have "m_length (deref d ?p x) = length (lm_text d ?p x)"
    using xr lm_text_ext(2) [OF d w p(1,2) xr(1)] deref_ext [OF p(2) xr(1)] by simp
  then have l: "?l = ?u (?c + 1)" using k(4) x(1) by (simp add: text_upto_Suc)
  have ends: "?u ?c < length (A @ t)" using go k(3,4) by simp
  show ?thesis
  proof (cases "?l = ms_tmplen s")
    case False
    then have big: "ms_tmplen s < ?l" using stop by (simp add: merge_entry_def Let_def split: if_splits)
    then have e: "merge_entry d r x s = s\<lparr>ms_seglen := ?l, ms_merging := False, ms_curr := ?c + 1, ms_beg := ?c + 1\<rparr>"
      by (simp add: merge_entry_def Let_def)
    have "length (A @ t) \<notin> cuts d ?p" using not_cut [of d ?p ?c "length (A @ t)"] ends big l k(3) by simp
    then have "\<not> fits d ?p A t r" by (simp add: fits_def)
    moreover have "ahead d (merge_entry d r x s)" unfolding ahead_def e using ends big l k(3) by auto
    ultimately show ?thesis unfolding step_cuts_def by (simp add: e cut_out_def)
  next
    case True
    define q where "q = (if ms_merging s then merge_pir d ?p r ?b (?c - ?b + 1) else ?p)"
    have e: "merge_entry d r x s = s\<lparr>ms_pir := q, ms_merging := True, ms_seglen := ?l, ms_curr := ?c + 1, ms_beg := ?c + 1\<rparr>"
      using True by (simp add: merge_entry_def Let_def q_def)
    have "ahead d (merge_entry d r x s)" unfolding ahead_def e using True by simp
    moreover have "cuts d q = cut_out d ?p A t r"
    proof (cases "ms_merging s")
      case merging: True
      have A: "text_upto d ?p ?b = A" using I' merging go by blast
      have cut: "length A \<in> cuts d ?p" "length (A @ t) \<in> cuts d ?p"
        using cutI [of ?b ?p d] cutI [of "?c + 1" ?p d] A k(2,3) go(1) p(3) l True by simp_all
      consider (ascii) "IS_ASCIIWORD (ref_prop d ?p r)" | (one) "?c = ?b" "\<not> IS_ASCIIWORD (ref_prop d ?p r)"
        | (run) "?b < ?c" "\<not> IS_ASCIIWORD (ref_prop d ?p r)" using k(2) by linarith
      then show ?thesis
      proof cases
        case ascii
        then show ?thesis using merging by (simp add: q_def merge_pir_def cut_out_def fits_def)
      next
        case one
        have "n \<notin> cuts d ?p" if "n \<in> {length A<..<length (A @ t)}" for n
          using not_cut [of d ?p ?c n] that A one(1) l True k(3) by simp
        then show ?thesis using merging one by (auto simp: q_def merge_pir_def cut_out_def)
      next
        case run
        have q: "q = drop_ppseg ?p ?b (?c - ?b + 1) r" using merging run by (simp add: q_def merge_pir_def)
        have "text_upto d ?p (?c + 1) = A @ t" by (rule reach_text [OF k(1)]) (use S l True k(3) go(1) in simp_all)
        then have "texts d ?p (get_list (m_ppseg ?p) ?b (?c - ?b + 1)) = t"
          using text_upto_split [of ?b "?c + 1" d ?p] k(2) A by (simp add: Suc_diff_le)
        then have "lm_text d ?p r = concat (map (lm_text d ?p) (seg_refs ?p ?b (?c - ?b + 1)))"
          using lm_text_ext(2) [OF d w p(1,2) r(1)] r(2) by (simp add: texts_seg_refs)
        from drop_cuts [OF d p(1) _ _ lm_text_ext(1) [OF d w p(1,2) r(1)] this]
        show ?thesis using q A cut run(2) l True k(2,3) go(1) p(3) by (simp add: cut_out_def fits_def)
      qed
    qed (use m in \<open>simp add: q_def cut_out_def fits_def\<close>)
    ultimately show ?thesis by (simp add: step_cuts_def e)
  qed
qed

lemma merge_run_cuts:
  "wf_phrases d \<Longrightarrow> wf_inner d p0 \<Longrightarrow> seg_text d p0 = A @ t @ B \<Longrightarrow> seg_ref d p0 r \<Longrightarrow> t = lm_text d p0 r \<Longrightarrow>
    \<forall>j < m_ppseg_cnt p0. true_len d p0 (m_ppseg p0 j) \<Longrightarrow> cnt = m_ppseg_cnt p0 \<Longrightarrow> merge_inv d p0 A t s \<Longrightarrow>
    ms_seglen s < ms_tmplen s \<Longrightarrow> (\<not> ms_merging s \<longrightarrow> length A \<notin> cuts d (ms_pir s)) \<Longrightarrow>
    step_cuts d A t r (ms_pir s) (merge_run d cnt r s)"
proof (induction d cnt r s rule: merge_run.induct)
  case (1 d cnt r s)
  note P = "1.prems"
  have "ms_curr s < cnt"
  proof (rule ccontr)
    assume "\<not> ms_curr s < cnt"
    then have "ms_seglen s = length (seg_text d (ms_pir s))"
      using P(7,8) text_upto_all [of d "ms_pir s"] by (simp add: merge_inv_def keeps_def)
    then show False using P(3,8,9) by (simp add: merge_inv_def keeps_def)
  qed
  then have go: "ms_curr s < cnt \<and> ms_seglen s < ms_tmplen s" using P(9) by simp
  have same: "m_ppseg (ms_pir s) (ms_curr s) = m_ppseg p0 (ms_curr s)" using P(8) by (simp add: merge_inv_def same_from_def)
  show ?case
  proof (cases "m_ppseg (ms_pir s) (ms_curr s)")
    case None
    have "merge_inv d p0 A t (s\<lparr>ms_curr := ms_curr s + 1\<rparr>)"
      using merge_skip_ok [OF P(8) _ _ None] go P(7) by simp
    moreover have "merge_run d cnt r s = merge_run d cnt r (s\<lparr>ms_curr := ms_curr s + 1\<rparr>)"
      using go None by (subst merge_run.simps) simp
    ultimately show ?thesis using "1.IH"(1) [OF go None P(1-7)] P(9,10) by simp
  next
    case (Some x)
    have x: "true_len d p0 (Some x)" using P(6,7) go same Some by (metis conjunct1)
    let ?s = "merge_entry d r x s"
    have I: "merge_inv d p0 A t ?s" using merge_entry_ok [OF P(1-5,8) _ _ Some x] go P(7) by simp
    have run: "merge_run d cnt r s = merge_run d cnt r ?s" using go Some by (subst merge_run.simps) simp
    show ?thesis
    proof (cases "ms_seglen ?s < ms_tmplen ?s")
      case True
      then have "ms_pir ?s = ms_pir s" "ms_merging ?s = ms_merging s" by (auto simp: merge_entry_def Let_def split: if_splits)
      then show ?thesis using "1.IH"(2) [OF go Some P(1-7) I True] P(9,10) run by simp
    next
      case False
      then have stop: "merge_run d cnt r ?s = ?s" by (subst merge_run.simps) simp
      show ?thesis unfolding run stop
        by (rule merge_entry_cuts [OF P(1-5,8) _ _ Some x P(10)]) (use go False P(7) in \<open>simp_all add: merge_entry_def Let_def split: if_splits\<close>)
    qed
  qed
qed

lemma merge_step_cuts:
  assumes d: "wf_phrases d" and w: "wf_inner d p0" and S: "seg_text d p0 = A @ entry_text d p0 (Some r) @ B"
    and e: "true_len d p0 (Some r)" and ts: "\<forall>j < m_ppseg_cnt p0. true_len d p0 (m_ppseg p0 j)"
    and I: "merged_upto d p0 A s" "ahead d s"
  shows "step_cuts d A (lm_text d p0 r) r (ms_pir s) (merge_step d (m_ppseg_cnt p0) (Some r) s)"
proof -
  let ?t = "lm_text d p0 r" and ?n = "m_ppseg_cnt p0"
  have r: "seg_ref d p0 r" "m_length (deref d p0 r) = length ?t" using e by (simp_all add: true_len_def)
  define l where "l = ms_tmplen s + length ?t"
  define s1 where "s1 = s\<lparr>ms_tmplen := l, ms_merging := (ms_merging s \<or> ms_seglen s = l)\<rparr>"
  have I0: "merge_inv d p0 A [] s" "?n \<le> ms_curr s \<or> ms_tmplen s \<le> ms_seglen s" using I(1) by (simp_all add: merged_upto_def)
  have k: "keeps d p0 (ms_pir s)" "ms_tmplen s = length A" "ms_curr s \<le> ?n" "ms_seglen s = length (text_upto d (ms_pir s) (ms_curr s))"
    using I0(1) by (simp_all add: merge_inv_def)
  then have m: "m_length (deref d (ms_pir s) r) = length ?t" using deref_ext [of p0 "ms_pir s" d r] r by (simp add: keeps_def)
  have step: "merge_step d ?n (Some r) s = merge_run d ?n r s1" using m by (simp add: merge_step_def Let_def s1_def l_def)
  have le: "length A \<le> ms_seglen s"
  proof (rule ccontr)
    assume n: "\<not> length A \<le> ms_seglen s"
    then have "ms_curr s = ?n" using I0(2) k by simp
    then have "ms_seglen s = length (seg_text d p0)" using k text_upto_all [of d "ms_pir s"] by (simp add: keeps_def)
    then show False using n S by simp
  qed
  have beyond: "length A \<notin> cuts d (ms_pir s)" if "length A < ms_seglen s"
    using I(2) that k(2) not_cut [of d "ms_pir s" _ "length A"] by (auto simp: ahead_def)
  show ?thesis
  proof (cases "ms_seglen s1 < ms_tmplen s1")
    case True
    have "merge_inv d p0 A ?t s1" unfolding s1_def l_def by (rule merge_start [OF S I(1)])
    moreover have "\<not> ms_merging s1 \<longrightarrow> length A \<notin> cuts d (ms_pir s1)"
      using I(2) le beyond k(2) by (auto simp: s1_def ahead_def)
    ultimately have "step_cuts d A ?t r (ms_pir s1) (merge_run d ?n r s1)"
      using merge_run_cuts [OF d w _ r(1) refl ts refl _ True, of A B] S by simp
    then show ?thesis unfolding step by (simp add: s1_def)
  next
    case False
    then have stop: "merge_run d ?n r s1 = s1" by (subst merge_run.simps) simp
    have "ahead d s1"
      using I(2) False k(2) by (auto simp: ahead_def s1_def l_def) (use trans_less_add1 in blast)+
    moreover have "cut_out d (ms_pir s) A ?t r = cuts d (ms_pir s)"
    proof (cases "?t = []")
      case t: False
      then have "0 < length ?t" by simp
      moreover have "length A + length ?t \<le> ms_seglen s" using False k(2) by (simp add: s1_def l_def)
      ultimately have "length A < ms_seglen s" by linarith
      then show ?thesis using beyond by (simp add: cut_out_def fits_def)
    qed (simp add: cut_out_def)
    ultimately show ?thesis unfolding step stop step_cuts_def by (simp add: s1_def)
  qed
qed

text \<open>The first \<open>n\<close> entries of the first result.\<close>

definition merged :: "scw_worddict \<Rightarrow> scw_inner \<Rightarrow> seg_tmp \<Rightarrow> nat \<Rightarrow> merge_state" where
  "merged d p t n = fold (merge_step d (m_ppseg_cnt p)) (get_list (tmp_ppseg t) 0 n)
     \<lparr>ms_pir = p, ms_merging = True, ms_tmplen = 0, ms_seglen = 0, ms_curr = 0, ms_beg = 0\<rparr>"

definition tmp_text :: "scw_worddict \<Rightarrow> scw_inner \<Rightarrow> seg_tmp \<Rightarrow> nat \<Rightarrow> nat list" where
  "tmp_text d p t n = texts d p (get_list (tmp_ppseg t) 0 n)"

text \<open>The cuts that lie inside an entry of the first result whose two ends are cuts of the second.\<close>

definition inner_cuts :: "scw_worddict \<Rightarrow> scw_inner \<Rightarrow> seg_tmp \<Rightarrow> nat \<Rightarrow> nat set" where
  "inner_cuts d p t n = {m. \<exists>i < n. \<exists>r. tmp_ppseg t i = Some r \<and> fits d p (tmp_text d p t i) (lm_text d p r) r \<and>
     length (tmp_text d p t i) < m \<and> m < length (tmp_text d p t (i + 1))}"

lemma merged_Suc: "merged d p t (Suc n) = merge_step d (m_ppseg_cnt p) (tmp_ppseg t n) (merged d p t n)"
  "tmp_text d p t (Suc n) = tmp_text d p t n @ entry_text d p (tmp_ppseg t n)"
  by (simp_all add: merged_def tmp_text_def get_list_def)

lemma tmp_text_mono: "i \<le> j \<Longrightarrow> length (tmp_text d p t i) \<le> length (tmp_text d p t j)"
proof (induction j)
  case (Suc j)
  then show ?case by (cases "i = Suc j") (simp_all add: merged_Suc)
qed simp

lemma merged_ok:
  assumes d: "wf_phrases d" and w: "wf_inner d p"
    and ts: "\<forall>j < m_ppseg_cnt p. true_len d p (m_ppseg p j)" "\<forall>j < tmp_ppseg_cnt t. true_len d p (tmp_ppseg t j)"
    and S: "tmp_text d p t (tmp_ppseg_cnt t) = seg_text d p" and n: "n \<le> tmp_ppseg_cnt t"
  shows "merged_upto d p (tmp_text d p t n) (merged d p t n) \<and> ahead d (merged d p t n) \<and>
    cuts d (ms_pir (merged d p t n)) = cuts d p - inner_cuts d p t n"
  using n
proof (induction n)
  case 0
  then show ?case using keeps_refl [OF w]
    by (simp add: merged_def tmp_text_def inner_cuts_def get_list_def merged_upto_def merge_inv_def ahead_def)
next
  case (Suc n)
  let ?A = "tmp_text d p t n" and ?s = "merged d p t n" and ?e = "tmp_ppseg t n"
  have I: "merged_upto d p ?A ?s" "ahead d ?s" "cuts d (ms_pir ?s) = cuts d p - inner_cuts d p t n" using Suc by simp_all
  obtain B where S': "seg_text d p = ?A @ entry_text d p ?e @ B"
  proof -
    have "get_list (tmp_ppseg t) 0 (tmp_ppseg_cnt t) = get_list (tmp_ppseg t) 0 (Suc n) @ get_list (tmp_ppseg t) (Suc n) (tmp_ppseg_cnt t - Suc n)"
      using get_list_split [of "tmp_ppseg t" 0 "Suc n" "tmp_ppseg_cnt t - Suc n"] Suc.prems by simp
    then have "seg_text d p = tmp_text d p t (Suc n) @ texts d p (get_list (tmp_ppseg t) (Suc n) (tmp_ppseg_cnt t - Suc n))"
      unfolding S [symmetric] by (simp add: tmp_text_def)
    then show thesis using that by (simp add: merged_Suc)
  qed
  have e: "true_len d p ?e" using ts(2) Suc.prems by simp
  have "merged_upto d p (tmp_text d p t (Suc n)) (merged d p t (Suc n))"
    unfolding merged_Suc by (rule merge_step_ok [OF d w S' e ts(1) I(1)])
  moreover have "ahead d (merged d p t (Suc n)) \<and> cuts d (ms_pir (merged d p t (Suc n))) = cuts d p - inner_cuts d p t (Suc n)"
  proof (cases ?e)
    case None
    then have "inner_cuts d p t (Suc n) = inner_cuts d p t n" by (auto simp: inner_cuts_def less_Suc_eq)
    then show ?thesis using I None by (simp add: merged_Suc merge_step_def)
  next
    case (Some r)
    let ?t = "lm_text d p r"
    have k: "keeps d p (ms_pir ?s)" using I(1) by (simp add: merged_upto_def merge_inv_def)
    have "seg_ref d p r" using e Some by (simp add: true_len_def)
    then have rp: "ref_prop d (ms_pir ?s) r = ref_prop d p r" by (rule plain_entry_ext(2) [OF d w k])
    have C: "step_cuts d ?A ?t r (ms_pir ?s) (merged d p t (Suc n))"
      unfolding merged_Suc Some by (rule merge_step_cuts [OF d w _ _ ts(1) I(1,2)]) (use S' e Some in simp_all)
    have out: "m \<notin> inner_cuts d p t n" if "length ?A \<le> m" for m
    proof
      assume "m \<in> inner_cuts d p t n"
      then obtain i where "i < n" "m < length (tmp_text d p t (i + 1))" by (auto simp: inner_cuts_def)
      then show False using tmp_text_mono [of "i + 1" n d p t] that by simp
    qed
    then have f: "fits d (ms_pir ?s) ?A ?t r = fits d p ?A ?t r" using I(3) rp by (simp add: fits_def)
    have "inner_cuts d p t (Suc n) = inner_cuts d p t n \<union> (if fits d p ?A ?t r then {length ?A<..<length (?A @ ?t)} else {})"
      using Some by (auto simp: inner_cuts_def less_Suc_eq merged_Suc)
    then show ?thesis using C f I(3) by (auto simp: step_cuts_def cut_out_def)
  qed
  ultimately show ?case by blast
qed

text \<open>
  C38 Merging two segmentations: when the entries of the first result spell the text of the second one,
  \<open>scw_merge\<close> succeeds, and the merged result spells the same text. Of the places where an entry of
  the second result ends, exactly those are gone that lie inside an entry of the first result which
  begins and ends at such places and is no word of letters and digits.
\<close>

theorem scw_merge_cuts:
  assumes "wf_phrases d" "wf_inner d p"
    and "\<forall>j < m_ppseg_cnt p. true_len d p (m_ppseg p j)" "\<forall>j < tmp_ppseg_cnt t. true_len d p (tmp_ppseg t j)"
    and "tmp_text d p t (tmp_ppseg_cnt t) = seg_text d p"
  shows "\<exists>q. scw_merge d p t = (0, q) \<and> wf_inner d q \<and> m_ppseg_cnt q = m_ppseg_cnt p \<and> seg_text d q = seg_text d p \<and>
    cuts d q = cuts d p - inner_cuts d p t (tmp_ppseg_cnt t)"
proof -
  let ?s = "merged d p t (tmp_ppseg_cnt t)"
  have M: "merged_upto d p (seg_text d p) ?s" "cuts d (ms_pir ?s) = cuts d p - inner_cuts d p t (tmp_ppseg_cnt t)"
    using merged_ok [OF assms(1-5) le_refl] assms(5) by simp_all
  then have k: "keeps d p (ms_pir ?s)" "ms_tmplen ?s = length (seg_text d p)" "ms_curr ?s \<le> m_ppseg_cnt p"
    "ms_seglen ?s = length (text_upto d (ms_pir ?s) (ms_curr ?s))" "m_ppseg_cnt p \<le> ms_curr ?s \<or> ms_tmplen ?s \<le> ms_seglen ?s"
    unfolding merged_upto_def merge_inv_def by auto
  have "ms_seglen ?s \<le> length (seg_text d p)"
    using text_upto_mono [OF k(3), of d "ms_pir ?s"] text_upto_all [of d "ms_pir ?s"] k(1,4) by (simp add: keeps_def)
  moreover have "ms_seglen ?s = length (seg_text d p)" if "ms_curr ?s = m_ppseg_cnt p"
    using text_upto_all [of d "ms_pir ?s"] k(1,4) that by (simp add: keeps_def)
  ultimately have "ms_tmplen ?s = ms_seglen ?s" using k(2,3,5) by linarith
  then have "scw_merge d p t = (0, ms_pir ?s)" by (simp add: scw_merge_def merged_def Let_def)
  then show ?thesis using k(1) M(2) by (simp add: keeps_def)
qed

definition fine_inner :: scw_inner where
  "fine_inner = name_joined\<lparr>m_ppseg := (\<lambda>j. if j < 3 then Some (Static j) else None)\<rparr>"

lemma fine_ok:
  "wf_inner name_dict name_joined" "keeps name_dict name_inner name_joined" "wf_inner name_dict fine_inner"
  "m_ppseg_cnt fine_inner = 3" "m_dynlm fine_inner = m_dynlm name_joined" "m_dynlm_cnt fine_inner = 1"
proof -
  show k: "keeps name_dict name_inner name_joined"
    using name_step_ok [OF name_wf name_is_ready _ _ _ name_found, simplified name_inner_fields, simplified] by simp
  then show w: "wf_inner name_dict name_joined" by (simp add: keeps_def)
  show "m_ppseg_cnt fine_inner = 3" "m_dynlm fine_inner = m_dynlm name_joined" "m_dynlm_cnt fine_inner = 1"
    by (simp_all add: fine_inner_def name_joined_fields)
  show "wf_inner name_dict fine_inner"
    by (rule wf_inner_add [OF name_wf(1) w])
      (use w in \<open>auto simp: fine_inner_def inner_ext_def wf_inner_def name_joined_fields name_dict_fields lemma_types split: if_splits\<close>)
qed

lemma static_name_texts:
  "lm_text name_dict p (Static 0) = [213, 197]" "lm_text name_dict p (Static (Suc 0)) = [180, 243]"
  "lm_text name_dict p (Static (Suc (Suc 0))) = [195, 247]"
  by (simp_all add: lm_text_def lmstr_bytes_def deref_def name_dict_fields static_bytes_def get_list_def put_list_def upt_rec numeral_2_eq_2)

lemma joined_text: "lm_text name_dict fine_inner (Dyn 0) = [180, 243, 195, 247]"
  using name_strlen
  by (simp add: fine_inner_def name_joined_def name_word_def create_dynword_def name_inner_def sample_inner_fields Let_def
     drop_ppseg_def lm_text_def lmstr_bytes_def dyn_bytes_def deref_def get_list_def put_list_def upt_rec lemma_types)

lemma joined_len: "true_len name_dict fine_inner (Some (Dyn 0))" "j < 3 \<Longrightarrow> true_len name_dict fine_inner (Some (Static j))"
  "\<not> IS_ASCIIWORD (ref_prop name_dict fine_inner (Dyn 0))"
proof -
  show "true_len name_dict fine_inner (Some (Dyn 0))"
    using joined_text by (simp add: true_len_def fine_ok deref_def name_joined_fields)
  show "j < 3 \<Longrightarrow> true_len name_dict fine_inner (Some (Static j))"
    using static_name_texts [of fine_inner]
    by (auto simp: true_len_def deref_def name_dict_fields lemma_types less_Suc_eq numeral_3_eq_3)
  show "\<not> IS_ASCIIWORD (ref_prop name_dict fine_inner (Dyn 0))"
    using name_strlen
    by (simp add: ref_prop_def deref_def fine_inner_def name_joined_def name_word_def create_dynword_def name_inner_def
      sample_inner_fields Let_def drop_ppseg_def SET_TEMP_def INIT_PROPERTY_def IS_ASCIIWORD_def)
qed

theorem scw_merge_cuts_witness:
  "\<exists>q. scw_merge name_dict fine_inner (scw_ppseg_cpy name_joined) = (0, q) \<and> 4 \<notin> cuts name_dict q \<and> 2 \<in> cuts name_dict q \<and>
     seg_text name_dict q = [213, 197, 180, 243, 195, 247]"
proof -
  let ?t = "scw_ppseg_cpy name_joined"
  have t: "tmp_ppseg_cnt ?t = 3" "tmp_ppseg ?t = (\<lambda>j. if j = 0 then Some (Static 0) else if j = 1 then Some (Dyn 0) else None)"
    by (simp_all add: scw_ppseg_cpy_def name_joined_fields)
  have s: "seg_text name_dict fine_inner = [213, 197, 180, 243, 195, 247]"
    by (simp add: seg_text_def fine_ok seg_refs_def upt_rec List.map_filter_simps static_name_texts) (simp add: fine_inner_def static_name_texts)
  have a: "\<forall>j < m_ppseg_cnt fine_inner. true_len name_dict fine_inner (m_ppseg fine_inner j)"
    using joined_len(2) by (simp add: fine_ok) (simp add: fine_inner_def)
  have b: "\<forall>j < tmp_ppseg_cnt ?t. true_len name_dict fine_inner (tmp_ppseg ?t j)"
    using joined_len(1) joined_len(2) [of 0] by (auto simp: t true_len_def)
  have c: "tmp_text name_dict fine_inner ?t (tmp_ppseg_cnt ?t) = seg_text name_dict fine_inner"
    by (simp add: tmp_text_def get_list_def t upt_rec s static_name_texts joined_text)
  obtain q where q: "scw_merge name_dict fine_inner ?t = (0, q)" "seg_text name_dict q = seg_text name_dict fine_inner"
    "cuts name_dict q = cuts name_dict fine_inner - inner_cuts name_dict fine_inner ?t (tmp_ppseg_cnt ?t)"
    using scw_merge_cuts [OF name_wf(1) fine_ok(3) a b c] by blast
  have m: "m_ppseg fine_inner = (\<lambda>j. if j < 3 then Some (Static j) else None)" by (simp add: fine_inner_def)
  have u: "tmp_text name_dict fine_inner ?t 1 = [213, 197]" "tmp_text name_dict fine_inner ?t 2 = [213, 197, 180, 243, 195, 247]"
    "tmp_text name_dict fine_inner ?t 0 = []"
    by (simp_all add: tmp_text_def get_list_def t upt_rec s static_name_texts joined_text numeral_2_eq_2)
  have v: "length (text_upto name_dict fine_inner 1) = 2" "length (text_upto name_dict fine_inner 3) = 6"
    by (simp_all add: text_upto_def get_list_def m upt_rec static_name_texts numeral_3_eq_3)
  have "2 \<in> cuts name_dict fine_inner" "6 \<in> cuts name_dict fine_inner"
    using cutI [of 1 fine_inner name_dict] cutI [of 3 fine_inner name_dict] v fine_ok(4) by simp_all
  then have cut: "2 \<in> cuts name_dict fine_inner" "6 \<in> cuts name_dict fine_inner" .
  have "length [213, 197 :: nat] = 2" "length ([213, 197] @ [180, 243, 195, 247 :: nat]) = 6" by simp_all
  then have "fits name_dict fine_inner (tmp_text name_dict fine_inner ?t 1) (lm_text name_dict fine_inner (Dyn 0)) (Dyn 0)"
    using cut joined_len(3) unfolding fits_def u joined_text by metis
  then have "4 \<in> inner_cuts name_dict fine_inner ?t 3"
    unfolding inner_cuts_def using u t(2) by (intro CollectI exI [of _ 1] conjI exI [of _ "Dyn 0"]) (simp_all add: numeral_2_eq_2)
  moreover have "2 \<notin> inner_cuts name_dict fine_inner ?t 3"
  proof
    assume "2 \<in> inner_cuts name_dict fine_inner ?t 3"
    then obtain i where "i < 3" "tmp_ppseg ?t i \<noteq> None" "length (tmp_text name_dict fine_inner ?t i) < 2"
      "2 < length (tmp_text name_dict fine_inner ?t (i + 1))" by (auto simp: inner_cuts_def)
    then show False using u t by (cases "i = 0") (auto split: if_splits)
  qed
  ultimately show ?thesis using q s cut t(1) by auto
qed

end
