(* ===== verification/AhoCorasick.thy ===== *)
theory AhoCorasick
  imports Prelude "HOL-Library.Monad_Syntax" "HOL-Library.Sublist"
begin

text \<open>
  The multi-pattern matcher \<open>Aho_Corasick\<close> of \<open>src/libsrc/rqlib/ac.cpp\<close>: a trie in a vector of
  nodes, failure links and inherited ids set by a breadth-first traversal, and the two searches.
\<close>

subsection \<open>The program\<close>

text \<open>
  A \<open>std::map<char, int>\<close> is the list of its entries in the order of the keys; \<open>char\<close> is signed.
  An id or a link of -1 is \<open>None\<close> in the code.
\<close>

record ac_node =
  n_id :: int
  n_fail :: int
  n_child :: "(char \<times> nat) list"

record aho =
  ac_word_count :: nat
  ac_nodes :: "ac_node list"

definition schar :: "char \<Rightarrow> int" where
  "schar c = (let n = of_char c in if n < 128 then n else n - 256)"

fun ins_child :: "char \<Rightarrow> nat \<Rightarrow> (char \<times> nat) list \<Rightarrow> (char \<times> nat) list" where
  "ins_child c v [] = [(c, v)]"
| "ins_child c v ((k, w) # m) =
     (if c = k then (c, v) # m else if schar c < schar k then (c, v) # (k, w) # m else (k, w) # ins_child c v m)"

definition ac_clear :: aho where
  "ac_clear = \<lparr>ac_word_count = 0, ac_nodes = [\<lparr>n_id = -1, n_fail = -1, n_child = []\<rparr>]\<rparr>"

text \<open>\<open>insert\<close> from the node \<open>off\<close> on; a new node is value-initialised, so its link is 0.\<close>

fun insert_from :: "ac_node list \<Rightarrow> nat \<Rightarrow> string \<Rightarrow> int \<Rightarrow> ac_node list" where
  "insert_from ns off [] i = ns[off := (ns ! off)\<lparr>n_id := i\<rparr>]"
| "insert_from ns off (c # cs) i =
     (case map_of (n_child (ns ! off)) c of
        Some k \<Rightarrow> insert_from ns k cs i
      | None \<Rightarrow> insert_from (ns[off := (ns ! off)\<lparr>n_child := ins_child c (length ns) (n_child (ns ! off))\<rparr>] @
            [\<lparr>n_id = -1, n_fail = 0, n_child = []\<rparr>]) (length ns) cs i)"

text \<open>A C string ends at its first NUL.\<close>

definition c_chars :: "string \<Rightarrow> string" where
  "c_chars s = takeWhile (\<lambda>c. c \<noteq> CHR 0x00) s"

definition ac_insert :: "aho \<Rightarrow> string \<Rightarrow> int \<Rightarrow> aho" where
  "ac_insert a str i = a\<lparr>ac_nodes := insert_from (ac_nodes a) 0 (c_chars str) i\<rparr>"

text \<open>Reading the vector out of its bounds is \<open>None\<close>.\<close>

definition node_at :: "ac_node list \<Rightarrow> int \<Rightarrow> ac_node option" where
  "node_at ns i = (if 0 \<le> i \<and> nat i < length ns then Some (ns ! nat i) else None)"

text \<open>The inner loop of \<open>build_automata\<close>: the first node along the links with a child for \<open>c\<close>.\<close>

partial_function (option) fail_child :: "ac_node list \<Rightarrow> char \<Rightarrow> int \<Rightarrow> int option" where
  "fail_child ns c nxt =
     (if nxt = -1 then Some (-1)
      else do {
        nd \<leftarrow> node_at ns nxt;
        if map_of (n_child nd) c \<noteq> None then Some nxt else fail_child ns c (n_fail nd) })"

declare fail_child.simps [code]

definition set_child :: "nat \<Rightarrow> (char \<times> nat) \<Rightarrow> ac_node list \<Rightarrow> ac_node list option" where
  "set_child father ck ns = (let (c, k) = ck in
     if father = 0 then Some (ns[k := (ns ! k)\<lparr>n_fail := 0\<rparr>])
     else do {
       nxt \<leftarrow> fail_child ns c (n_fail (ns ! father));
       if nxt = -1 then Some (ns[k := (ns ! k)\<lparr>n_fail := 0\<rparr>])
       else (let nk = the (map_of (n_child (ns ! nat nxt)) c) in
         Some (ns[k := (ns ! k)\<lparr>n_fail := int nk, n_id := (if n_id (ns ! k) = -1 then n_id (ns ! nk) else n_id (ns ! k))\<rparr>])) })"

fun set_children :: "nat \<Rightarrow> (char \<times> nat) list \<Rightarrow> ac_node list \<Rightarrow> ac_node list option" where
  "set_children father [] ns = Some ns"
| "set_children father (ck # cks) ns = do { ns1 \<leftarrow> set_child father ck ns; set_children father cks ns1 }"

partial_function (option) bfs :: "ac_node list \<Rightarrow> nat list \<Rightarrow> ac_node list option" where
  "bfs ns que = (case que of [] \<Rightarrow> Some ns
     | father # rest \<Rightarrow> do {
         ns1 \<leftarrow> set_children father (n_child (ns ! father)) ns;
         bfs ns1 (rest @ map snd (n_child (ns ! father))) })"

declare bfs.simps [code]

definition build_automata :: "aho \<Rightarrow> aho option" where
  "build_automata a = do { ns \<leftarrow> bfs (ac_nodes a) [0]; Some (a\<lparr>ac_nodes := ns\<rparr>) }"

text \<open>The search: the loop that follows the links, and the loop that collects along them.\<close>

partial_function (option) follow :: "ac_node list \<Rightarrow> char \<Rightarrow> int \<Rightarrow> int option" where
  "follow ns c off = do {
     nd \<leftarrow> node_at ns off;
     if off \<noteq> 0 \<and> map_of (n_child nd) c = None then follow ns c (n_fail nd) else Some off }"

declare follow.simps [code]

partial_function (option) collect :: "ac_node list \<Rightarrow> (int \<Rightarrow> 'r \<Rightarrow> 'r) \<Rightarrow> int \<Rightarrow> 'r \<Rightarrow> 'r option" where
  "collect ns add off ret = do {
     nd \<leftarrow> node_at ns off;
     if n_id nd \<noteq> -1 \<and> off \<noteq> 0 then collect ns add (n_fail nd) (add (n_id nd) ret) else Some ret }"

declare collect.simps [code]

text \<open>
  The loop over the text, which the two searches share; \<open>add\<close> is what they do with an id found at
  an offset.
\<close>

fun scan :: "ac_node list \<Rightarrow> (nat \<Rightarrow> int \<Rightarrow> 'r \<Rightarrow> 'r) \<Rightarrow> int \<Rightarrow> nat \<Rightarrow> string \<Rightarrow> 'r \<Rightarrow> 'r option" where
  "scan ns add off i [] ret = Some ret"
| "scan ns add off i (c # cs) ret = do {
     off1 \<leftarrow> follow ns c off;
     nd \<leftarrow> node_at ns off1;
     case map_of (n_child nd) c of
       None \<Rightarrow> scan ns add off1 (i + 1) cs ret
     | Some k \<Rightarrow> do {
         ret1 \<leftarrow> collect ns (add i) (int k) ret;
         scan ns add (int k) (i + 1) cs ret1 } }"

definition get_match :: "aho \<Rightarrow> string \<Rightarrow> int set option" where
  "get_match a str = scan (ac_nodes a) (\<lambda>_. Set.insert) 0 0 (c_chars str) {}"

text \<open>The comparison of the set of pairs looks at the ids only: a second offset is not inserted.\<close>

definition ins_off :: "nat \<Rightarrow> int \<Rightarrow> (int \<times> nat) set \<Rightarrow> (int \<times> nat) set" where
  "ins_off o1 i ret = (if i \<in> fst ` ret then ret else Set.insert (i, o1) ret)"

definition get_match_off :: "aho \<Rightarrow> string \<Rightarrow> (int \<times> nat) set option" where
  "get_match_off a str = scan (ac_nodes a) ins_off 0 0 (c_chars str) {}"

subsection \<open>Longest suffixes that are labels\<close>

fun long_suf :: "('a list \<Rightarrow> bool) \<Rightarrow> 'a list \<Rightarrow> 'a list" where
  "long_suf L [] = []"
| "long_suf L (x # w) = (if L (x # w) then x # w else long_suf L w)"

definition next_suf :: "('a list \<Rightarrow> bool) \<Rightarrow> 'a list \<Rightarrow> 'a list" where
  "next_suf L w = long_suf L (tl w)"

lemma long_suf_suffix: "suffix (long_suf L w) w"
  by (induction w) (auto intro: suffix_ConsI)

lemma long_suf_length: "length (long_suf L w) \<le> length w"
  using long_suf_suffix suffix_length_le by blast

lemma next_suf_shorter: "w \<noteq> [] \<Longrightarrow> length (next_suf L w) < length w"
  using long_suf_length [of L "tl w"] by (cases w) (auto simp: next_suf_def less_Suc_eq_le)

lemma long_suf_longest: "suffix u w \<Longrightarrow> L u \<Longrightarrow> suffix u (long_suf L w)"
  by (induction w) (auto simp: suffix_Cons)

lemma next_suf_longest: "suffix u w \<Longrightarrow> u \<noteq> w \<Longrightarrow> L u \<Longrightarrow> suffix u (next_suf L w)"
  by (cases w) (auto simp: next_suf_def suffix_Cons intro: long_suf_longest)

lemma next_suf_suffix: "suffix (next_suf L w) w"
  unfolding next_suf_def using long_suf_suffix [of L "tl w"] suffix_tl suffix_order.trans by blast

text \<open>The labels of a trie: the empty word is one, and so is every prefix of one.\<close>

locale labels =
  fixes L :: "'a list \<Rightarrow> bool"
  assumes label_empty: "L []" and label_prefix: "L (u @ [c]) \<Longrightarrow> L u"
begin

lemma long_suf_label: "L (long_suf L w)"
  by (induction w) (auto simp: label_empty)

lemma next_suf_label: "L (next_suf L w)"
  by (simp add: next_suf_def long_suf_label)

text \<open>The first label along the links that \<open>c\<close> extends to a label.\<close>

function climb :: "'a \<Rightarrow> 'a list \<Rightarrow> 'a list option" where
  "climb c v = (if L (v @ [c]) then Some v else if v = [] then None else climb c (next_suf L v))"
  by pat_completeness auto

termination
  by (relation "measure (\<lambda>(c, v). length v)") (auto simp: next_suf_shorter)

declare climb.simps [simp del]

lemma climb_ok:
  "case climb c v of None \<Rightarrow> \<forall>u. suffix u v \<longrightarrow> \<not> L (u @ [c])
   | Some v' \<Rightarrow> suffix v' v \<and> L (v' @ [c]) \<and> (\<forall>u. suffix u v \<longrightarrow> L (u @ [c]) \<longrightarrow> suffix u v')"
proof (induction c v rule: climb.induct)
  case (1 c v)
  show ?case
  proof (cases "L (v @ [c]) \<or> v = []")
    case True
    then show ?thesis by (subst climb.simps) auto
  next
    case False
    then have eq: "climb c v = climb c (next_suf L v)" by (subst climb.simps) simp
    have step: "suffix u (next_suf L v)" if "suffix u v" "L (u @ [c])" for u
      using next_suf_longest [OF that(1)] that(2) False label_prefix by metis
    have IH: "case climb c (next_suf L v) of None \<Rightarrow> \<forall>u. suffix u (next_suf L v) \<longrightarrow> \<not> L (u @ [c])
       | Some v' \<Rightarrow> suffix v' (next_suf L v) \<and> L (v' @ [c]) \<and> (\<forall>u. suffix u (next_suf L v) \<longrightarrow> L (u @ [c]) \<longrightarrow> suffix u v')"
      using "1.IH" False by simp
    show ?thesis
    proof (cases "climb c (next_suf L v)")
      case None
      then show ?thesis using IH step unfolding eq by auto
    next
      case (Some v')
      then have "suffix v' (next_suf L v)" "L (v' @ [c])" "\<forall>u. suffix u (next_suf L v) \<longrightarrow> L (u @ [c]) \<longrightarrow> suffix u v'"
        using IH by simp_all
      moreover have "suffix v' v" using calculation(1) next_suf_suffix suffix_order.trans by blast
      ultimately show ?thesis using Some step unfolding eq by simp
    qed
  qed
qed

text \<open>The longest label at the end of a longer text, from the one of the text.\<close>

lemma long_suf_snoc:
  "long_suf L (w @ [c]) = (case climb c (long_suf L w) of None \<Rightarrow> [] | Some v \<Rightarrow> v @ [c])"
proof -
  let ?r = "long_suf L (w @ [c])"
  have r: "suffix ?r (w @ [c])" "L ?r" by (rule long_suf_suffix, rule long_suf_label)
  have cand: "suffix u (long_suf L w)" if "suffix u w" "L (u @ [c])" for u
    using long_suf_longest [OF that(1)] label_prefix [OF that(2)] by blast
  show ?thesis
  proof (cases "climb c (long_suf L w)")
    case None
    have "?r = []"
    proof (rule ccontr)
      assume "?r \<noteq> []"
      then obtain u where u: "?r = u @ [c]" "suffix u w" using r(1) by (auto simp: suffix_snoc)
      then show False using climb_ok [where c = c and v = "long_suf L w"] None cand [OF u(2)] r(2) by simp
    qed
    then show ?thesis using None by simp
  next
    case (Some v)
    then have v: "suffix v (long_suf L w)" "L (v @ [c])"
      "\<And>u. suffix u (long_suf L w) \<Longrightarrow> L (u @ [c]) \<Longrightarrow> suffix u v"
      using climb_ok [where c = c and v = "long_suf L w"] by auto
    have vw: "suffix v w" using v(1) long_suf_suffix suffix_order.trans by blast
    then have "suffix (v @ [c]) ?r" using v(2) by (intro long_suf_longest) (simp_all add: suffix_snoc)
    moreover from this obtain u where u: "?r = u @ [c]" "suffix u w"
      using r(1) by (auto simp: suffix_snoc)
    ultimately have "suffix (v @ [c]) (u @ [c])" by simp
    moreover have "suffix u v" using v(3) [OF cand [OF u(2)]] u(1) r(2) by simp
    ultimately have "u = v" by (simp add: suffix_order.antisym)
    then show ?thesis using Some u by simp
  qed
qed

lemma next_suf_snoc:
  assumes "w \<noteq> []"
  shows "next_suf L (w @ [c]) = (case climb c (next_suf L w) of None \<Rightarrow> [] | Some v \<Rightarrow> v @ [c])"
  using assms by (cases w) (simp_all add: next_suf_def long_suf_snoc)

end

subsection \<open>The trie\<close>

fun walk :: "ac_node list \<Rightarrow> nat \<Rightarrow> string \<Rightarrow> nat option" where
  "walk ns off [] = Some off"
| "walk ns off (c # cs) = (case map_of (n_child (ns ! off)) c of None \<Rightarrow> None | Some k \<Rightarrow> walk ns k cs)"

abbreviation label :: "ac_node list \<Rightarrow> string \<Rightarrow> bool" where
  "label ns u \<equiv> walk ns 0 u \<noteq> None"

lemma ac_walk_append: "walk ns off (u @ v) = (case walk ns off u of None \<Rightarrow> None | Some k \<Rightarrow> walk ns k v)"
  by (induction u arbitrary: off) (auto split: option.splits)

lemma walk_snoc: "walk ns off (u @ [c]) = (case walk ns off u of None \<Rightarrow> None | Some k \<Rightarrow> map_of (n_child (ns ! k)) c)"
  by (simp add: ac_walk_append split: option.splits)

text \<open>The words with a node are prefix-closed.\<close>

interpretation trie: labels "label ns" for ns
  by unfold_locales (auto simp: walk_snoc split: option.splits)

text \<open>Every node is reached by exactly one word.\<close>

definition good_trie :: "ac_node list \<Rightarrow> bool" where
  "good_trie ns \<longleftrightarrow> ns \<noteq> [] \<and> (\<forall>u n. walk ns 0 u = Some n \<longrightarrow> n < length ns) \<and>
     (\<forall>u v n. walk ns 0 u = Some n \<longrightarrow> walk ns 0 v = Some n \<longrightarrow> u = v) \<and>
     (\<forall>n < length ns. \<exists>u. walk ns 0 u = Some n) \<and> (\<forall>n < length ns. distinct (map fst (n_child (ns ! n))))"

lemma good_trieD:
  assumes "good_trie ns"
  shows "ns \<noteq> []" "walk ns 0 u = Some n \<Longrightarrow> n < length ns" "walk ns 0 u = Some n \<Longrightarrow> walk ns 0 v = Some n \<Longrightarrow> u = v"
    "n < length ns \<Longrightarrow> \<exists>u. walk ns 0 u = Some n" "n < length ns \<Longrightarrow> distinct (map fst (n_child (ns ! n)))"
  using assms by (auto simp: good_trie_def)

lemma ins_child_map: "map_of (ins_child c v m) = (map_of m)(c \<mapsto> v)"
  by (induction c v m rule: ins_child.induct) (auto simp: fun_eq_iff)

lemma ins_child_keys: "fst ` set (ins_child c v m) = insert c (fst ` set m)"
  by (induction c v m rule: ins_child.induct) auto

lemma ins_child_distinct: "distinct (map fst m) \<Longrightarrow> c \<notin> fst ` set m \<Longrightarrow> distinct (map fst (ins_child c v m))"
proof (induction c v m rule: ins_child.induct)
  case (2 c v k w m)
  then show ?case using ins_child_keys [of c v m] by auto
qed simp

definition add_leaf :: "ac_node list \<Rightarrow> nat \<Rightarrow> char \<Rightarrow> ac_node list" where
  "add_leaf ns off c = ns[off := (ns ! off)\<lparr>n_child := ins_child c (length ns) (n_child (ns ! off))\<rparr>] @
     [\<lparr>n_id = -1, n_fail = 0, n_child = []\<rparr>]"

lemma add_leaf_nth:
  assumes "off < length ns"
  shows "length (add_leaf ns off c) = length ns + 1" "n_child (add_leaf ns off c ! length ns) = []"
    "n < length ns \<Longrightarrow> n_child (add_leaf ns off c ! n) =
      (if n = off then ins_child c (length ns) (n_child (ns ! off)) else n_child (ns ! n))"
    "n < length ns \<Longrightarrow> n_id (add_leaf ns off c ! n) = n_id (ns ! n)" "n_id (add_leaf ns off c ! length ns) = -1"
    "n < length ns \<Longrightarrow> n_fail (add_leaf ns off c ! n) = n_fail (ns ! n)"
  using assms by (auto simp: add_leaf_def nth_append nth_list_update)

lemma add_leaf_walk:
  assumes g: "good_trie ns" and p: "walk ns 0 p = Some off" and n: "map_of (n_child (ns ! off)) c = None"
  shows "walk (add_leaf ns off c) 0 u = (if u = p @ [c] then Some (length ns) else walk ns 0 u)"
proof (induction u rule: rev_induct)
  case (snoc x u)
  have off: "off < length ns" using good_trieD(2) [OF g p] .
  show ?case
  proof (cases "u = p @ [c]")
    case True
    then have "walk ns 0 u = None" using p n by (simp add: walk_snoc)
    moreover have "walk (add_leaf ns off c) 0 u = Some (length ns)" using snoc True by simp
    ultimately have "walk ns 0 (u @ [x]) = None" "walk (add_leaf ns off c) 0 (u @ [x]) = None"
      using walk_snoc [of ns 0 u x] walk_snoc [of "add_leaf ns off c" 0 u x] add_leaf_nth(2) [OF off, of c] by simp_all
    moreover have "u @ [x] \<noteq> p @ [c]" using True by simp
    ultimately show ?thesis by simp
  next
    case False
    then have w: "walk (add_leaf ns off c) 0 u = walk ns 0 u" using snoc by simp
    show ?thesis
    proof (cases "walk ns 0 u")
      case None
      then show ?thesis using w p by (auto simp: walk_snoc)
    next
      case (Some k)
      then have k: "k < length ns" "k = off \<longleftrightarrow> u = p" using good_trieD(2,3) [OF g] p by auto
      then show ?thesis using w Some add_leaf_nth(3) [OF off k(1), of c] n
        by (auto simp: walk_snoc ins_child_map)
    qed
  qed
qed (use p in auto)

lemma add_leaf_good:
  assumes g: "good_trie ns" and p: "walk ns 0 p = Some off" and n: "map_of (n_child (ns ! off)) c = None"
  shows "good_trie (add_leaf ns off c)"
proof -
  have off: "off < length ns" using good_trieD(2) [OF g p] .
  note W = add_leaf_walk [OF g p n] and N = add_leaf_nth [OF off]
  have fresh: "walk ns 0 u \<noteq> Some (length ns)" for u using good_trieD(2) [OF g] by blast
  have "\<exists>u. walk (add_leaf ns off c) 0 u = Some k" if k: "k < length ns + 1" for k
  proof (cases "k = length ns")
    case True
    then show ?thesis using W [of "p @ [c]"] by auto
  next
    case False
    then obtain u where u: "walk ns 0 u = Some k" using good_trieD(4) [OF g, of k] k by auto
    moreover have "walk ns 0 (p @ [c]) = None" using p n by (simp add: walk_snoc)
    ultimately have "u \<noteq> p @ [c]" by auto
    then show ?thesis using W [of u] u by auto
  qed
  moreover have "distinct (map fst (n_child (add_leaf ns off c ! k)))" if "k < length ns + 1" for k
    using N(2,3) that good_trieD(5) [OF g, of k] ins_child_distinct [of "n_child (ns ! off)" c] n
    by (cases "k = length ns") (auto simp: map_of_eq_None_iff)
  moreover have "u = v" if "walk (add_leaf ns off c) 0 u = Some k" "walk (add_leaf ns off c) 0 v = Some k" for u v k
    using that fresh good_trieD(3) [OF g] by (auto simp: W split: if_splits)
  moreover have "k < length ns + 1" if "walk (add_leaf ns off c) 0 u = Some k" for u k
    using that good_trieD(2) [OF g, of u k] by (auto simp: W split: if_splits)
  moreover have "add_leaf ns off c \<noteq> []" by (simp add: add_leaf_def)
  ultimately show ?thesis using N(1) by (auto simp: good_trie_def)
qed

text \<open>The id of a word: that of its node, -1 without one.\<close>

definition own :: "ac_node list \<Rightarrow> string \<Rightarrow> int" where
  "own ns u = (case walk ns 0 u of None \<Rightarrow> -1 | Some n \<Rightarrow> n_id (ns ! n))"

lemma same_children_walk:
  "(\<And>n. n_child (ns' ! n) = n_child (ns ! n)) \<Longrightarrow> walk ns' off u = walk ns off u"
  by (induction u arbitrary: off) (auto split: option.splits)

text \<open>Changing the id and the link of a node leaves the trie as it is.\<close>

lemma same_children_good:
  assumes "\<And>n. n_child (ns' ! n) = n_child (ns ! n)" "length ns' = length ns" "good_trie ns"
  shows "good_trie ns'"
  using assms(2,3) same_children_walk [OF assms(1)] assms(1) unfolding good_trie_def by auto

lemma update_children:
  "(\<And>nd. n_child (f nd) = n_child nd) \<Longrightarrow> n_child (ns[k := f (ns ! k)] ! n) = n_child (ns ! n)"
  by (cases "k < length ns") (auto simp: nth_list_update list_update_beyond)

lemma insert_from_ok:
  "good_trie ns \<Longrightarrow> walk ns 0 p = Some off \<Longrightarrow>
    good_trie (insert_from ns off u i) \<and> own (insert_from ns off u i) = (own ns)(p @ u := i) \<and>
    n_fail (insert_from ns off u i ! 0) = n_fail (ns ! 0)"
proof (induction ns off u i arbitrary: p rule: insert_from.induct)
  case (1 ns off i)
  let ?ns = "ns[off := (ns ! off)\<lparr>n_id := i\<rparr>]"
  have ch: "n_child (?ns ! n) = n_child (ns ! n)" for n by (rule update_children) simp
  have off: "off < length ns" using good_trieD(2) [OF 1] .
  have "own ?ns v = ((own ns)(p := i)) v" for v
  proof (cases "walk ns 0 v")
    case None
    then show ?thesis using 1(2) by (auto simp: own_def same_children_walk [OF ch])
  next
    case (Some k)
    then have "k = off \<longleftrightarrow> v = p" using 1 good_trieD(3) [OF 1(1)] by auto
    then show ?thesis using Some off by (auto simp: own_def same_children_walk [OF ch] nth_list_update)
  qed
  moreover have "n_fail (?ns ! 0) = n_fail (ns ! 0)" using off by (cases "off = 0") auto
  ultimately show ?case using same_children_good [OF ch _ 1(1)] by (simp add: fun_eq_iff)
next
  case (2 ns off c cs i)
  have off: "off < length ns" using good_trieD(2) [OF 2(3,4)] .
  show ?case
  proof (cases "map_of (n_child (ns ! off)) c")
    case None
    let ?ns = "add_leaf ns off c"
    note W = add_leaf_walk [OF 2(3,4) None]
    have "walk ?ns 0 (p @ [c]) = Some (length ns)" using W by simp
    note IH = 2(1) [OF None, folded add_leaf_def, OF add_leaf_good [OF 2(3,4) None] this]
    have "own ?ns = own ns"
    proof
      fix v
      have pc: "walk ns 0 (p @ [c]) = None" using 2(4) None by (simp add: walk_snoc)
      show "own ?ns v = own ns v"
      proof (cases "walk ns 0 v")
        case vn: None
        then show ?thesis using add_leaf_nth(5) [OF off, of c] by (simp add: own_def W)
      next
        case (Some k)
        then have "v \<noteq> p @ [c]" "k < length ns" using pc good_trieD(2) [OF 2(3)] by auto
        then show ?thesis using Some add_leaf_nth(4) [OF off, of k c] by (simp add: own_def W)
      qed
    qed
    moreover have "n_fail (?ns ! 0) = n_fail (ns ! 0)" using off by (intro add_leaf_nth(6) [OF off]) (cases ns, simp_all)
    ultimately show ?thesis using IH None by (simp add: add_leaf_def)
  next
    case (Some k)
    then have "walk ns 0 (p @ [c]) = Some k" using 2(4) by (simp add: walk_snoc)
    from 2(2) [OF Some 2(3) this] show ?thesis using Some by simp
  qed
qed

subsection \<open>The links and the ids after the traversal\<close>

text \<open>The id of the longest non-empty suffix that has one.\<close>

fun suf_id :: "(string \<Rightarrow> int) \<Rightarrow> string \<Rightarrow> int" where
  "suf_id f [] = -1"
| "suf_id f (x # w) = (if f (x # w) \<noteq> -1 then f (x # w) else suf_id f w)"

lemma suf_id_next:
  assumes "\<And>u. f u \<noteq> -1 \<Longrightarrow> L u" "w \<noteq> []"
  shows "suf_id f w = (if f w \<noteq> -1 then f w else suf_id f (next_suf L w))"
proof -
  have "suf_id f w = suf_id f (long_suf L w)" for w
    using assms(1) by (induction w) auto
  then show ?thesis using assms(2) by (cases w) (simp_all add: next_suf_def)
qed

definition node_of :: "ac_node list \<Rightarrow> string \<Rightarrow> nat" where
  "node_of ns u = the (walk ns 0 u)"

lemma own_label: "own ns u \<noteq> -1 \<Longrightarrow> label ns u"
  by (auto simp: own_def split: option.splits)

text \<open>\<open>ns\<close> has the nodes of \<open>ns0\<close> with other ids and links; the node of \<open>u\<close> has its final ones.\<close>

definition same_trie :: "ac_node list \<Rightarrow> ac_node list \<Rightarrow> bool" where
  "same_trie ns0 ns \<longleftrightarrow> good_trie ns0 \<and> length ns = length ns0 \<and> (\<forall>n. n_child (ns ! n) = n_child (ns0 ! n)) \<and>
     n_fail (ns ! 0) = -1"

definition linked :: "ac_node list \<Rightarrow> ac_node list \<Rightarrow> string \<Rightarrow> bool" where
  "linked ns0 ns u \<longleftrightarrow> n_fail (ns ! node_of ns0 u) = int (node_of ns0 (next_suf (label ns0) u)) \<and>
     n_id (ns ! node_of ns0 u) = suf_id (own ns0) u"

lemma node_of_less: "good_trie ns \<Longrightarrow> label ns u \<Longrightarrow> node_of ns u < length ns"
  using good_trieD(2) by (auto simp: node_of_def)

lemma node_of_inj: "good_trie ns \<Longrightarrow> label ns u \<Longrightarrow> label ns v \<Longrightarrow> node_of ns u = node_of ns v \<longleftrightarrow> u = v"
  using good_trieD(3) by (auto simp: node_of_def)

lemma node_of_empty [simp]: "node_of ns [] = 0"
  by (simp add: node_of_def)

lemma node_of_child: "label ns u \<Longrightarrow> map_of (n_child (ns ! node_of ns u)) c = walk ns 0 (u @ [c])"
  by (auto simp: node_of_def walk_snoc)

lemma node_of_zero: "good_trie ns \<Longrightarrow> label ns u \<Longrightarrow> node_of ns u = 0 \<longleftrightarrow> u = []"
  using node_of_inj [of ns u "[]"] by simp

lemma fail_child_climb:
  assumes T: "same_trie ns0 ns" and up: "\<And>u. label ns0 u \<Longrightarrow> u \<noteq> [] \<Longrightarrow> length u \<le> m \<Longrightarrow> linked ns0 ns u"
  shows "label ns0 v \<Longrightarrow> length v \<le> m \<Longrightarrow> fail_child ns c (int (node_of ns0 v)) =
    Some (case trie.climb ns0 c v of None \<Rightarrow> -1 | Some v' \<Rightarrow> int (node_of ns0 v'))"
proof (induction c v rule: trie.climb.induct [of ns0])
  case (1 c v)
  have g: "good_trie ns0" "length ns = length ns0" "n_child (ns ! n) = n_child (ns0 ! n)" "n_fail (ns ! 0) = -1" for n
    using T by (simp_all add: same_trie_def)
  have nd: "node_at ns (int (node_of ns0 v)) = Some (ns ! node_of ns0 v)"
    using node_of_less [OF g(1) "1.prems"(1)] g(2) by (simp add: node_at_def)
  have ch: "map_of (n_child (ns ! node_of ns0 v)) c = walk ns0 0 (v @ [c])"
    using node_of_child [OF "1.prems"(1)] g(3) by simp
  consider "label ns0 (v @ [c])" | "\<not> label ns0 (v @ [c])" "v = []" | "\<not> label ns0 (v @ [c])" "v \<noteq> []" by blast
  then show ?case
  proof cases
    case 1
    then have "walk ns0 0 (v @ [c]) \<noteq> None" "trie.climb ns0 c v = Some v"
      by (simp, subst trie.climb.simps, simp)
    then show ?thesis using nd ch by (subst fail_child.simps) auto
  next
    case 2
    then have "walk ns0 0 (v @ [c]) = None" "trie.climb ns0 c v = None"
      by (simp, subst trie.climb.simps, simp)
    moreover have "fail_child ns c (-1) = Some (-1)" by (subst fail_child.simps) simp
    ultimately show ?thesis using nd ch g(4) 2(2) by (subst fail_child.simps) simp
  next
    case 3
    have "length (next_suf (label ns0) v) \<le> m" using next_suf_shorter [OF 3(2), of "label ns0"] "1.prems"(2) by simp
    then have "fail_child ns c (int (node_of ns0 (next_suf (label ns0) v))) =
        Some (case trie.climb ns0 c (next_suf (label ns0) v) of None \<Rightarrow> -1 | Some v' \<Rightarrow> int (node_of ns0 v'))"
      using "1.IH" 3 trie.next_suf_label [of ns0 v] by blast
    moreover have "n_fail (ns ! node_of ns0 v) = int (node_of ns0 (next_suf (label ns0) v))"
      using up [OF "1.prems"(1) 3(2) "1.prems"(2)] by (simp add: linked_def)
    ultimately show ?thesis using nd ch 3 by (subst fail_child.simps, subst trie.climb.simps) simp
  qed
qed

text \<open>One child: its link and its id are the final ones, and nothing else changes.\<close>

definition final :: "ac_node list \<Rightarrow> string \<Rightarrow> ac_node \<Rightarrow> ac_node" where
  "final ns u nd = nd\<lparr>n_fail := int (node_of ns (next_suf (label ns) u)), n_id := suf_id (own ns) u\<rparr>"

lemma set_child_ok:
  assumes T: "same_trie ns0 ns"
    and up: "\<And>v. label ns0 v \<Longrightarrow> v \<noteq> [] \<Longrightarrow> length v \<le> length u \<Longrightarrow> linked ns0 ns v"
    and u: "label ns0 u" and k: "walk ns0 0 (u @ [c]) = Some k" and i: "n_id (ns ! k) = own ns0 (u @ [c])"
  shows "set_child (node_of ns0 u) (c, k) ns = Some (ns[k := final ns0 (u @ [c]) (ns ! k)])"
proof -
  have g: "good_trie ns0" using T by (simp add: same_trie_def)
  have si: "suf_id (own ns0) (u @ [c]) = (if own ns0 (u @ [c]) \<noteq> -1 then own ns0 (u @ [c])
      else suf_id (own ns0) (next_suf (label ns0) (u @ [c])))"
    by (rule suf_id_next) (auto dest: own_label)
  have same: "nd\<lparr>n_fail := 0\<rparr> = final ns0 (u @ [c]) nd" if "next_suf (label ns0) (u @ [c]) = []" "nd = ns ! k" for nd
    using that si i by (simp add: final_def)
  show ?thesis
  proof (cases "u = []")
    case True
    then have "next_suf (label ns0) (u @ [c]) = []" by (simp add: next_suf_def)
    then show ?thesis using True same by (simp add: set_child_def)
  next
    case False
    let ?n = "next_suf (label ns0) u"
    have len: "length ?n < length u" by (rule next_suf_shorter [OF False])
    have F: "fail_child ns c (int (node_of ns0 ?n)) =
        Some (case trie.climb ns0 c ?n of None \<Rightarrow> -1 | Some v' \<Rightarrow> int (node_of ns0 v'))"
      by (rule fail_child_climb [OF T up]) (use trie.next_suf_label len in auto)
    have f: "n_fail (ns ! node_of ns0 u) = int (node_of ns0 ?n)" "node_of ns0 u \<noteq> 0"
      using up [OF u False] node_of_zero [OF g u] False by (simp_all add: linked_def)
    have nx: "next_suf (label ns0) (u @ [c]) = (case trie.climb ns0 c ?n of None \<Rightarrow> [] | Some v \<Rightarrow> v @ [c])"
      by (rule trie.next_suf_snoc [OF False])
    show ?thesis
    proof (cases "trie.climb ns0 c ?n")
      case None
      then show ?thesis using F f nx same by (simp add: set_child_def)
    next
      case (Some v)
      then have v: "suffix v ?n" "label ns0 (v @ [c])"
        using trie.climb_ok [where ns = ns0 and v = ?n and c = c] by simp_all
      then have "length (v @ [c]) \<le> length u" using suffix_length_le [OF v(1)] len by simp
      then have "linked ns0 ns (v @ [c])" using up [OF v(2)] by blast
      then have id: "n_id (ns ! node_of ns0 (v @ [c])) = suf_id (own ns0) (v @ [c])" by (simp add: linked_def)
      have lv: "label ns0 v" by (rule trie.label_prefix [OF v(2)])
      have "n_child (ns ! node_of ns0 v) = n_child (ns0 ! node_of ns0 v)" using T by (simp add: same_trie_def)
      then have "the (map_of (n_child (ns ! node_of ns0 v)) c) = node_of ns0 (v @ [c])"
        using node_of_child [OF lv, of c] by (simp add: node_of_def)
      then show ?thesis using F f nx Some id si i by (simp add: set_child_def final_def)
    qed
  qed
qed

lemma same_trie_final:
  assumes "same_trie ns0 ns" "k \<noteq> 0"
  shows "same_trie ns0 (ns[k := final ns0 u (ns ! k)])"
proof -
  have "n_child (ns[k := final ns0 u (ns ! k)] ! n) = n_child (ns ! n)" for n
    by (rule update_children) (simp add: final_def)
  then show ?thesis using assms by (simp add: same_trie_def)
qed

lemma set_children_ok:
  assumes "same_trie ns0 ns" "\<And>v. label ns0 v \<Longrightarrow> v \<noteq> [] \<Longrightarrow> length v \<le> length u \<Longrightarrow> linked ns0 ns v"
    "label ns0 u" "\<And>c k. (c, k) \<in> set cks \<Longrightarrow> walk ns0 0 (u @ [c]) = Some k \<and> n_id (ns ! k) = own ns0 (u @ [c])"
    "distinct (map fst cks)"
  shows "\<exists>ns'. set_children (node_of ns0 u) cks ns = Some ns' \<and> same_trie ns0 ns' \<and>
    (\<forall>c \<in> fst ` set cks. linked ns0 ns' (u @ [c])) \<and>
    (\<forall>v. label ns0 v \<longrightarrow> v \<notin> (\<lambda>c. u @ [c]) ` fst ` set cks \<longrightarrow> ns' ! node_of ns0 v = ns ! node_of ns0 v)"
  using assms
proof (induction cks arbitrary: ns)
  case (Cons ck cks)
  obtain c k where ck: "ck = (c, k)" by (cases ck)
  let ?ns = "ns[k := final ns0 (u @ [c]) (ns ! k)]"
  have g: "good_trie ns0" "length ns = length ns0" using Cons.prems(1) by (simp_all add: same_trie_def)
  have k: "walk ns0 0 (u @ [c]) = Some k" "n_id (ns ! k) = own ns0 (u @ [c])" using Cons.prems(4) [of c k] ck by auto
  have kn: "k = node_of ns0 (u @ [c])" "label ns0 (u @ [c])" using k(1) by (simp_all add: node_of_def)
  have k0: "k \<noteq> 0" using node_of_zero [OF g(1) kn(2)] kn(1) by simp
  have kl: "k < length ns" using node_of_less [OF g(1) kn(2)] kn(1) g(2) by simp
  have S: "set_child (node_of ns0 u) (c, k) ns = Some ?ns"
    by (rule set_child_ok [OF Cons.prems(1,2,3) k])
  have other: "?ns ! node_of ns0 v = ns ! node_of ns0 v" if "label ns0 v" "v \<noteq> u @ [c]" for v
    using node_of_inj [OF g(1) that(1) kn(2)] that(2) kn(1) by auto
  have lk: "linked ns0 ?ns (u @ [c])" using kl kn(1) by (simp add: linked_def final_def)
  have up: "linked ns0 ?ns v" if "label ns0 v" "v \<noteq> []" "length v \<le> length u" for v
  proof -
    have "v \<noteq> u @ [c]" using that(3) by auto
    then show ?thesis using Cons.prems(2) [OF that] other [OF that(1)] by (simp add: linked_def)
  qed
  have rest: "walk ns0 0 (u @ [d]) = Some j \<and> n_id (?ns ! j) = own ns0 (u @ [d])" if dj: "(d, j) \<in> set cks" for d j
  proof -
    have j: "walk ns0 0 (u @ [d]) = Some j" "n_id (ns ! j) = own ns0 (u @ [d])" using Cons.prems(4) [of d j] dj by auto
    have "d \<noteq> c" using Cons.prems(5) dj ck by force
    then have "j \<noteq> k" using good_trieD(3) [OF g(1) j(1)] k(1) by auto
    then show ?thesis using j by simp
  qed
  obtain ns' where N: "set_children (node_of ns0 u) cks ?ns = Some ns'" "same_trie ns0 ns'"
    "\<forall>c \<in> fst ` set cks. linked ns0 ns' (u @ [c])"
    "\<And>v. label ns0 v \<Longrightarrow> v \<notin> (\<lambda>c. u @ [c]) ` fst ` set cks \<Longrightarrow> ns' ! node_of ns0 v = ?ns ! node_of ns0 v"
    using Cons.IH [OF same_trie_final [OF Cons.prems(1) k0] up Cons.prems(3) rest] Cons.prems(5) by auto
  have "u @ [c] \<notin> (\<lambda>c. u @ [c]) ` fst ` set cks" using Cons.prems(5) ck by auto
  then have "linked ns0 ns' (u @ [c])" using N(4) [OF kn(2)] lk by (simp add: linked_def)
  then show ?case using S N other ck by (intro exI [of _ ns']) auto
qed simp

text \<open>
  The traversal: the words already taken from the queue, and those in it. A node that was queued
  has its final link and id, any other node its own id; the queue is ordered by length.
\<close>

definition bfs_inv :: "ac_node list \<Rightarrow> ac_node list \<Rightarrow> string list \<Rightarrow> string list \<Rightarrow> bool" where
  "bfs_inv ns0 ns dn que \<longleftrightarrow> same_trie ns0 ns \<and> (\<forall>u \<in> set (dn @ que). label ns0 u) \<and> distinct (dn @ que) \<and>
     [] \<in> set (dn @ que) \<and>
     (\<forall>u. label ns0 u \<longrightarrow> u \<noteq> [] \<longrightarrow> (u \<in> set (dn @ que) \<longleftrightarrow> butlast u \<in> set dn)) \<and>
     (\<forall>u. label ns0 u \<longrightarrow> u \<noteq> [] \<longrightarrow>
        (if u \<in> set (dn @ que) then linked ns0 ns u else n_id (ns ! node_of ns0 u) = own ns0 u)) \<and>
     sorted (map length que) \<and> (\<forall>u \<in> set que. length u \<le> length (hd que) + 1)"

lemma bfs_level:
  assumes I: "bfs_inv ns0 ns dn (u # que)"
  shows "label ns0 v \<Longrightarrow> length v \<le> length u \<Longrightarrow> v \<in> set (dn @ u # que)"
proof (induction v rule: rev_induct)
  case Nil
  then show ?case using I unfolding bfs_inv_def by blast
next
  case (snoc c v)
  have "v \<in> set (dn @ u # que)" using snoc.IH trie.label_prefix [OF snoc.prems(1)] snoc.prems(2) by simp
  moreover have "length u \<le> length w" if "w \<in> set (u # que)" for w
    using I that by (auto simp: bfs_inv_def)
  ultimately have "v \<in> set dn" using snoc.prems(2) by fastforce
  moreover have "v @ [c] \<in> set (dn @ u # que) \<longleftrightarrow> butlast (v @ [c]) \<in> set dn"
    using I snoc.prems(1) unfolding bfs_inv_def by blast
  ultimately show ?case by simp
qed

lemma bfs_done:
  assumes I: "bfs_inv ns0 ns dn []" and l: "label ns0 u" "u \<noteq> []"
  shows "linked ns0 ns u"
proof -
  have "label ns0 v \<Longrightarrow> v \<in> set dn" for v
  proof (induction v rule: rev_induct)
    case Nil
    then show ?case using I by (simp add: bfs_inv_def)
  next
    case (snoc c v)
    have "v \<in> set dn" by (rule snoc.IH [OF trie.label_prefix [OF snoc.prems]])
    moreover have "v @ [c] \<in> set (dn @ []) \<longleftrightarrow> butlast (v @ [c]) \<in> set dn"
      using I snoc.prems unfolding bfs_inv_def by blast
    ultimately show ?case by simp
  qed
  then show ?thesis using I l by (simp add: bfs_inv_def)
qed

text \<open>The words of the children of a word, in the order of the map.\<close>

definition kids :: "ac_node list \<Rightarrow> string \<Rightarrow> string list" where
  "kids ns u = map (\<lambda>(c, k). u @ [c]) (n_child (ns ! node_of ns u))"

lemma kids_ok:
  assumes g: "good_trie ns" and u: "label ns u"
  shows "map snd (n_child (ns ! node_of ns u)) = map (node_of ns) (kids ns u)"
    "(c, k) \<in> set (n_child (ns ! node_of ns u)) \<Longrightarrow> walk ns 0 (u @ [c]) = Some k"
    "distinct (kids ns u)" "v \<in> set (kids ns u) \<longleftrightarrow> v \<noteq> [] \<and> label ns v \<and> butlast v = u"
proof -
  let ?m = "n_child (ns ! node_of ns u)"
  have d: "distinct (map fst ?m)" using good_trieD(5) [OF g node_of_less [OF g u]] .
  have w: "walk ns 0 (u @ [c]) = Some k" if "(c, k) \<in> set ?m" for c k
    using node_of_child [OF u, of c] that d by simp
  then show "(c, k) \<in> set ?m \<Longrightarrow> walk ns 0 (u @ [c]) = Some k" by blast
  show "map snd ?m = map (node_of ns) (kids ns u)"
    unfolding kids_def map_map by (rule map_cong [OF refl]) (auto simp: node_of_def w)
  have "kids ns u = map (\<lambda>c. u @ [c]) (map fst ?m)" by (simp add: kids_def split_def)
  then show "distinct (kids ns u)" using d by (simp add: distinct_map inj_on_def)
  show "v \<in> set (kids ns u) \<longleftrightarrow> v \<noteq> [] \<and> label ns v \<and> butlast v = u"
  proof
    assume "v \<in> set (kids ns u)"
    then show "v \<noteq> [] \<and> label ns v \<and> butlast v = u" using w by (auto simp: kids_def)
  next
    assume a: "v \<noteq> [] \<and> label ns v \<and> butlast v = u"
    then have v: "v = u @ [last v]" by (metis append_butlast_last_id)
    then obtain k where "map_of ?m (last v) = Some k" using a node_of_child [OF u, of "last v"] by auto
    then have "(last v, k) \<in> set ?m" by (rule map_of_SomeD)
    then show "v \<in> set (kids ns u)" using v by (force simp: kids_def)
  qed
qed

lemma bfs_step:
  assumes I: "bfs_inv ns0 ns dn (u # que)"
  shows "\<exists>ns'. set_children (node_of ns0 u) (n_child (ns ! node_of ns0 u)) ns = Some ns' \<and>
    bfs_inv ns0 ns' (dn @ [u]) (que @ kids ns0 u)"
proof -
  let ?m = "n_child (ns ! node_of ns0 u)"
  have T: "same_trie ns0 ns" and u: "label ns0 u" and d: "distinct (dn @ u # que)" using I by (auto simp: bfs_inv_def)
  have g: "good_trie ns0" "?m = n_child (ns0 ! node_of ns0 u)" using T by (simp_all add: same_trie_def)
  note K = kids_ok [OF g(1) u]
  have child: "v \<in> set (dn @ u # que) \<longleftrightarrow> butlast v \<in> set dn" if "label ns0 v" "v \<noteq> []" for v
    using I that unfolding bfs_inv_def by blast
  have state: "if v \<in> set (dn @ u # que) then linked ns0 ns v else n_id (ns ! node_of ns0 v) = own ns0 v"
    if "label ns0 v" "v \<noteq> []" for v
    using I that unfolding bfs_inv_def by blast
  have up: "linked ns0 ns v" if "label ns0 v" "v \<noteq> []" "length v \<le> length u" for v
    using state [OF that(1,2)] bfs_level [OF I that(1,3)] by simp
  have new: "v \<notin> set (dn @ u # que)" if "v \<in> set (kids ns0 u)" for v
    using that K(4) [of v] child [of v] d by auto
  have ck: "walk ns0 0 (u @ [c]) = Some k \<and> n_id (ns ! k) = own ns0 (u @ [c])" if "(c, k) \<in> set ?m" for c k
  proof -
    have w: "walk ns0 0 (u @ [c]) = Some k" using K(2) that g(2) by simp
    have "u @ [c] \<notin> set (dn @ u # que)" by (rule new) (use K(4) w in simp)
    then show ?thesis using state [of "u @ [c]"] w by (simp add: node_of_def)
  qed
  have words: "(\<lambda>c. u @ [c]) ` fst ` set ?m = set (kids ns0 u)" using g(2) by (force simp: kids_def)
  have dm: "distinct (map fst ?m)" using good_trieD(5) [OF g(1) node_of_less [OF g(1) u]] g(2) by simp
  obtain ns' where N: "set_children (node_of ns0 u) ?m ns = Some ns'" "same_trie ns0 ns'"
    "\<And>v. v \<in> set (kids ns0 u) \<Longrightarrow> linked ns0 ns' v"
    "\<And>v. label ns0 v \<Longrightarrow> v \<notin> set (kids ns0 u) \<Longrightarrow> ns' ! node_of ns0 v = ns ! node_of ns0 v"
    using set_children_ok [OF T up u ck dm] unfolding words [symmetric] by blast
  have s: "sorted (map length (u # que))" "\<And>v. v \<in> set que \<Longrightarrow> length v \<le> length u + 1"
    using I by (auto simp: bfs_inv_def)
  have kl: "length v = length u + 1" if "v \<in> set (kids ns0 u)" for v
    using that by (auto simp: kids_def)
  have "if v \<in> set ((dn @ [u]) @ que @ kids ns0 u) then linked ns0 ns' v else n_id (ns' ! node_of ns0 v) = own ns0 v"
    if "label ns0 v" "v \<noteq> []" for v
  proof (cases "v \<in> set (kids ns0 u)")
    case True
    then show ?thesis using N(3) by simp
  next
    case False
    then have "ns' ! node_of ns0 v = ns ! node_of ns0 v" by (rule N(4) [OF that(1)])
    then have "linked ns0 ns' v = linked ns0 ns v" by (simp add: linked_def)
    then show ?thesis using False state [OF that] \<open>ns' ! node_of ns0 v = ns ! node_of ns0 v\<close> by auto
  qed
  moreover have "v \<in> set ((dn @ [u]) @ que @ kids ns0 u) \<longleftrightarrow> butlast v \<in> set (dn @ [u])" if "label ns0 v" "v \<noteq> []" for v
    using child [OF that] K(4) [of v] that by auto
  moreover have "distinct ((dn @ [u]) @ que @ kids ns0 u)" using d K(3) new by auto
  moreover have "sorted (map length (que @ kids ns0 u))"
  proof -
    have "map length (kids ns0 u) = replicate (length (kids ns0 u)) (length u + 1)"
      by (rule replicate_eqI) (auto dest: kl)
    then show ?thesis using s by (auto simp: sorted_append)
  qed
  moreover have "length v \<le> length (hd (que @ kids ns0 u)) + 1" if "v \<in> set (que @ kids ns0 u)" for v
  proof (cases que)
    case Nil
    then have "hd (kids ns0 u) \<in> set (kids ns0 u)" using that by (cases "kids ns0 u") auto
    then show ?thesis using Nil that kl [of v] kl [of "hd (kids ns0 u)"] by simp
  next
    case (Cons q qs)
    then have "length u \<le> length q" using s(1) by simp
    then show ?thesis using Cons that kl [of v] s(2) [of v] by auto
  qed
  moreover have "\<forall>v \<in> set ((dn @ [u]) @ que @ kids ns0 u). label ns0 v" "[] \<in> set ((dn @ [u]) @ que @ kids ns0 u)"
    using I K(4) by (auto simp: bfs_inv_def)
  ultimately have "bfs_inv ns0 ns' (dn @ [u]) (que @ kids ns0 u)" using N(2) unfolding bfs_inv_def by blast
  then show ?thesis using N(1) by blast
qed

lemma bfs_total:
  "bfs_inv ns0 ns dn que \<Longrightarrow> \<exists>ns' dn'. bfs ns (map (node_of ns0) que) = Some ns' \<and> bfs_inv ns0 ns' dn' []"
proof (induction "length ns0 - length dn" arbitrary: ns dn que rule: less_induct)
  case less
  show ?case
  proof (cases que)
    case Nil
    then show ?thesis using less.prems by (subst bfs.simps) auto
  next
    case (Cons u q)
    then obtain ns' where N: "set_children (node_of ns0 u) (n_child (ns ! node_of ns0 u)) ns = Some ns'"
      "bfs_inv ns0 ns' (dn @ [u]) (q @ kids ns0 u)"
      using bfs_step less.prems by blast
    have T: "same_trie ns0 ns" and u: "label ns0 u" and l: "\<forall>v \<in> set (dn @ [u]). label ns0 v" and d: "distinct (dn @ [u])"
      using less.prems Cons by (auto simp: bfs_inv_def)
    have g: "good_trie ns0" "n_child (ns ! node_of ns0 u) = n_child (ns0 ! node_of ns0 u)"
      using T by (simp_all add: same_trie_def)
    have "inj_on (node_of ns0) (set (dn @ [u]))" using l node_of_inj [OF g(1)] by (auto intro!: inj_onI)
    moreover have "node_of ns0 ` set (dn @ [u]) \<subseteq> {..<length ns0}" using l node_of_less [OF g(1)] by auto
    ultimately have "card (set (dn @ [u])) \<le> length ns0" using card_inj_on_le [of "node_of ns0" "set (dn @ [u])" "{..<length ns0}"] by simp
    then have "length (dn @ [u]) \<le> length ns0" using distinct_card [OF d] by simp
    then have "length ns0 - length (dn @ [u]) < length ns0 - length dn" by simp
    from less.hyps [OF this N(2)] show ?thesis
      using N(1) Cons kids_ok(1) [OF g(1) u] g(2) by (subst bfs.simps) simp
  qed
qed

subsection \<open>The search\<close>

definition automaton :: "ac_node list \<Rightarrow> ac_node list \<Rightarrow> bool" where
  "automaton ns0 ns \<longleftrightarrow> same_trie ns0 ns \<and> (\<forall>u. label ns0 u \<longrightarrow> u \<noteq> [] \<longrightarrow> linked ns0 ns u)"

lemma automaton_node:
  assumes A: "automaton ns0 ns" and l: "label ns0 v"
  shows "node_at ns (int (node_of ns0 v)) = Some (ns ! node_of ns0 v)"
    "map_of (n_child (ns ! node_of ns0 v)) c = walk ns0 0 (v @ [c])"
    "int (node_of ns0 v) = 0 \<longleftrightarrow> v = []"
    "v \<noteq> [] \<Longrightarrow> n_fail (ns ! node_of ns0 v) = int (node_of ns0 (next_suf (label ns0) v))"
    "v \<noteq> [] \<Longrightarrow> n_id (ns ! node_of ns0 v) = suf_id (own ns0) v"
proof -
  have g: "good_trie ns0" "length ns = length ns0" "\<And>n. n_child (ns ! n) = n_child (ns0 ! n)"
    using A by (simp_all add: automaton_def same_trie_def)
  show "node_at ns (int (node_of ns0 v)) = Some (ns ! node_of ns0 v)"
    using node_of_less [OF g(1) l] g(2) by (simp add: node_at_def)
  show "map_of (n_child (ns ! node_of ns0 v)) c = walk ns0 0 (v @ [c])"
    using node_of_child [OF l] g(3) by simp
  show "int (node_of ns0 v) = 0 \<longleftrightarrow> v = []" using node_of_zero [OF g(1) l] by simp
  show "v \<noteq> [] \<Longrightarrow> n_fail (ns ! node_of ns0 v) = int (node_of ns0 (next_suf (label ns0) v))"
    "v \<noteq> [] \<Longrightarrow> n_id (ns ! node_of ns0 v) = suf_id (own ns0) v"
    using A l by (simp_all add: automaton_def linked_def)
qed

lemma follow_climb:
  assumes A: "automaton ns0 ns"
  shows "label ns0 v \<Longrightarrow> follow ns c (int (node_of ns0 v)) =
    Some (case trie.climb ns0 c v of None \<Rightarrow> 0 | Some v' \<Rightarrow> int (node_of ns0 v'))"
proof (induction c v rule: trie.climb.induct [of ns0])
  case (1 c v)
  note N = automaton_node [OF A "1.prems"]
  consider "label ns0 (v @ [c])" | "\<not> label ns0 (v @ [c])" "v = []" | "\<not> label ns0 (v @ [c])" "v \<noteq> []" by blast
  then show ?case
  proof cases
    case 1
    then have "walk ns0 0 (v @ [c]) \<noteq> None" "trie.climb ns0 c v = Some v"
      by (simp, subst trie.climb.simps, simp)
    then show ?thesis using N(1,2) by (subst follow.simps) auto
  next
    case 2
    then have "walk ns0 0 (v @ [c]) = None" "trie.climb ns0 c v = None"
      by (simp, subst trie.climb.simps, simp)
    then show ?thesis using N(1,2) 2(2) by (subst follow.simps) (auto simp: node_of_def)
  next
    case 3
    then have "follow ns c (int (node_of ns0 (next_suf (label ns0) v))) =
        Some (case trie.climb ns0 c (next_suf (label ns0) v) of None \<Rightarrow> 0 | Some v' \<Rightarrow> int (node_of ns0 v'))"
      using "1.IH" trie.next_suf_label [of ns0 v] by blast
    then show ?thesis using N 3 by (subst follow.simps, subst trie.climb.simps) simp
  qed
qed

text \<open>The ids along the links of a word.\<close>

function link_ids :: "ac_node list \<Rightarrow> string \<Rightarrow> int list" where
  "link_ids ns w = (if w = [] \<or> suf_id (own ns) w = -1 then []
     else suf_id (own ns) w # link_ids ns (next_suf (label ns) w))"
  by pat_completeness auto

termination
  by (relation "measure (\<lambda>(ns, w). length w)") (auto simp: next_suf_shorter)

declare link_ids.simps [simp del]

lemma collect_links:
  assumes A: "automaton ns0 ns"
  shows "label ns0 w \<Longrightarrow> collect ns add (int (node_of ns0 w)) ret = Some (fold add (link_ids ns0 w) ret)"
proof (induction "length w" arbitrary: w ret rule: less_induct)
  case less
  note N = automaton_node [OF A less.prems]
  show ?case
  proof (cases "w = [] \<or> suf_id (own ns0) w = -1")
    case True
    then show ?thesis using N by (subst collect.simps, subst link_ids.simps) auto
  next
    case False
    then have "collect ns add (int (node_of ns0 (next_suf (label ns0) w))) r =
        Some (fold add (link_ids ns0 (next_suf (label ns0) w)) r)" for r
      using less.hyps next_suf_shorter trie.next_suf_label by blast
    then show ?thesis using N False by (subst collect.simps, subst link_ids.simps) simp
  qed
qed

lemma suf_id_some:
  "suf_id f w \<noteq> -1 \<Longrightarrow> \<exists>u. u \<noteq> [] \<and> suffix u w \<and> f u = suf_id f w"
  "u \<noteq> [] \<Longrightarrow> suffix u w \<Longrightarrow> f u \<noteq> -1 \<Longrightarrow> suf_id f w \<noteq> -1"
  by (induction w) (auto simp: suffix_Cons)

lemma link_ids_set:
  "i \<in> set (link_ids ns w) \<longleftrightarrow> i \<noteq> -1 \<and> (\<exists>u. u \<noteq> [] \<and> suffix u w \<and> own ns u = i)"
proof (induction "length w" arbitrary: w rule: less_induct)
  case less
  show ?case
  proof (cases "w = [] \<or> suf_id (own ns) w = -1")
    case True
    then have "link_ids ns w = []" by (subst link_ids.simps) simp
    moreover have "own ns u = -1" if "u \<noteq> []" "suffix u w" for u
      using suf_id_some(2) [OF that, of "own ns"] True that by auto
    ultimately show ?thesis by auto
  next
    case False
    let ?n = "next_suf (label ns) w"
    have eq: "link_ids ns w = suf_id (own ns) w # link_ids ns ?n" using False by (subst link_ids.simps) simp
    have IH: "i \<in> set (link_ids ns ?n) \<longleftrightarrow> i \<noteq> -1 \<and> (\<exists>u. u \<noteq> [] \<and> suffix u ?n \<and> own ns u = i)"
      by (rule less) (use False next_suf_shorter in blast)
    show ?thesis
    proof
      assume "i \<in> set (link_ids ns w)"
      then consider "i = suf_id (own ns) w" | "i \<in> set (link_ids ns ?n)" using eq by auto
      then show "i \<noteq> -1 \<and> (\<exists>u. u \<noteq> [] \<and> suffix u w \<and> own ns u = i)"
      proof cases
        case 1
        then show ?thesis using False suf_id_some(1) [of "own ns" w] by simp
      next
        case 2
        then obtain u where u: "i \<noteq> -1" "u \<noteq> []" "suffix u ?n" "own ns u = i" using IH by blast
        have "suffix u w" by (rule suffix_order.trans [OF u(3) next_suf_suffix])
        then show ?thesis using u by blast
      qed
    next
      assume "i \<noteq> -1 \<and> (\<exists>u. u \<noteq> [] \<and> suffix u w \<and> own ns u = i)"
      then obtain u where u: "i \<noteq> -1" "u \<noteq> []" "suffix u w" "own ns u = i" by blast
      show "i \<in> set (link_ids ns w)"
      proof (cases "u = w")
        case True
        then have "suf_id (own ns) w = i" using u by (cases w) simp_all
        then show ?thesis using eq by simp
      next
        case ne: False
        have "suffix u ?n" by (rule next_suf_longest [OF u(3) ne]) (use own_label [of ns u] u in auto)
        then show ?thesis using eq IH u by auto
      qed
    qed
  qed
qed

text \<open>The node of the longest label at the end of the text read so far.\<close>

abbreviation at_text :: "ac_node list \<Rightarrow> string \<Rightarrow> string" where
  "at_text ns t \<equiv> long_suf (label ns) t"

lemma link_ids_text:
  "i \<in> set (link_ids ns (at_text ns t)) \<longleftrightarrow> i \<noteq> -1 \<and> (\<exists>u. u \<noteq> [] \<and> suffix u t \<and> own ns u = i)"
proof -
  have "suffix u (at_text ns t)" if "suffix u t" "own ns u \<noteq> -1" for u
    by (rule long_suf_longest [OF that(1)]) (rule own_label [OF that(2)])
  moreover have "suffix u t" if "suffix u (at_text ns t)" for u
    by (rule suffix_order.trans [OF that long_suf_suffix])
  ultimately show ?thesis unfolding link_ids_set by blast
qed

lemma scan_text:
  assumes A: "automaton ns0 ns"
  shows "i \<le> length s \<Longrightarrow> scan ns add (int (node_of ns0 (at_text ns0 (take i s)))) i (drop i s) ret =
    Some (fold (\<lambda>e. fold (add e) (link_ids ns0 (at_text ns0 (take (Suc e) s)))) [i..<length s] ret)"
proof (induction "length s - i" arbitrary: i ret)
  case 0
  then show ?case by simp
next
  case (Suc n)
  then have i: "i < length s" by simp
  let ?v = "at_text ns0 (take i s)" and ?c = "s ! i" and ?w = "at_text ns0 (take (Suc i) s)"
  have lv: "label ns0 ?v" by (rule trie.long_suf_label)
  have w: "?w = (case trie.climb ns0 ?c ?v of None \<Rightarrow> [] | Some v \<Rightarrow> v @ [?c])"
    unfolding take_Suc_conv_app_nth [OF i] by (rule trie.long_suf_snoc)
  have dr: "drop i s = ?c # drop (Suc i) s" using Cons_nth_drop_Suc [OF i] by simp
  have up: "[i..<length s] = i # [Suc i..<length s]" using i by (rule upt_conv_Cons)
  note IH = Suc.hyps(1) [of "Suc i"] and F = follow_climb [OF A lv, of ?c]
    and K = trie.climb_ok [where ns = ns0 and v = ?v and c = ?c]
  have n: "n = length s - Suc i" "Suc i \<le> length s" using Suc.hyps(2) by simp_all
  show ?case
  proof (cases "trie.climb ns0 ?c ?v")
    case None
    then have nl: "walk ns0 0 [?c] = None" "?w = []" using K w trie.label_empty [of ns0] by (auto dest: spec [of _ "[]"])
    have "link_ids ns0 [] = []" by (subst link_ids.simps) simp
    then show ?thesis
      using F None IH [OF n, of ret] nl automaton_node(1) [OF A, of "[]"] automaton_node(2) [OF A, of "[]" ?c] by (simp add: dr up)
  next
    case (Some v)
    then have v: "label ns0 (v @ [?c])" "?w = v @ [?c]" using K w by simp_all
    have l: "label ns0 v" by (rule trie.label_prefix [OF v(1)])
    then show ?thesis
      using F Some IH [OF n] v automaton_node(1) [OF A l] automaton_node(2) [OF A l, of ?c] collect_links [OF A v(1), of "add i" ret]
      by (auto simp: dr up node_of_def)
  qed
qed

subsection \<open>The matcher from its patterns\<close>

text \<open>The patterns inserted into a cleared matcher, and the automaton built.\<close>

definition ac_build :: "(string \<times> int) list \<Rightarrow> aho option" where
  "ac_build ps = build_automata (foldl (\<lambda>a (w, i). ac_insert a w i) ac_clear ps)"

text \<open>The id of a word: the last one it was inserted with, -1 for a word that was not.\<close>

definition pattern_id :: "(string \<times> int) list \<Rightarrow> string \<Rightarrow> int" where
  "pattern_id ps u = (case map_of (rev (map (\<lambda>(w, i). (c_chars w, i)) ps)) u of None \<Rightarrow> -1 | Some i \<Rightarrow> i)"

lemma clear_walk: "walk (ac_nodes ac_clear) 0 u = (if u = [] then Some 0 else None)"
  by (cases u) (simp_all add: ac_clear_def)

lemma clear_good: "good_trie (ac_nodes ac_clear)"
  by (simp add: good_trie_def clear_walk) (simp add: ac_clear_def)

lemma inserts_ok:
  defines "ins \<equiv> \<lambda>ps. ac_nodes (foldl (\<lambda>a (w, i). ac_insert a w i) ac_clear ps)"
  shows "good_trie (ins ps) \<and> own (ins ps) = pattern_id ps \<and> n_fail (ins ps ! 0) = -1"
proof (induction ps rule: rev_induct)
  case Nil
  have "own (ac_nodes ac_clear) u = -1" for u
    by (simp add: own_def clear_walk) (simp add: ac_clear_def)
  then show ?case by (auto simp: ins_def clear_good pattern_id_def fun_eq_iff) (simp add: ac_clear_def)
next
  case (snoc p ps)
  obtain w i where p: "p = (w, i)" by (cases p)
  have "ins (ps @ [p]) = insert_from (ins ps) 0 (c_chars w) i" by (simp add: p ins_def ac_insert_def)
  moreover have "(pattern_id ps)(c_chars w := i) = pattern_id (ps @ [p])"
    by (auto simp: p pattern_id_def fun_eq_iff)
  moreover have "walk (ins ps) 0 [] = Some 0" by simp
  ultimately show ?case using insert_from_ok [of "ins ps" "[]" 0 "c_chars w" i] snoc by simp
qed

lemma ac_build_ok:
  "\<exists>ns0 a. ac_build ps = Some a \<and> automaton ns0 (ac_nodes a) \<and> own ns0 = pattern_id ps"
proof -
  let ?a = "foldl (\<lambda>a (w, i). ac_insert a w i) ac_clear ps"
  let ?ns = "ac_nodes ?a"
  have g: "good_trie ?ns" "own ?ns = pattern_id ps" "n_fail (?ns ! 0) = -1" using inserts_ok [of ps] by auto
  have "n_id (?ns ! node_of ?ns u) = own ?ns u" if "label ?ns u" for u
    using that by (auto simp: own_def node_of_def)
  then have "bfs_inv ?ns ?ns [] [[]]" using g by (simp add: bfs_inv_def same_trie_def)
  then obtain ns' dn' where b: "bfs ?ns [0] = Some ns'" "bfs_inv ?ns ns' dn' []"
    using bfs_total [of ?ns ?ns "[]" "[[]]"] by auto
  then have "automaton ?ns ns'" using bfs_done [OF b(2)] by (simp add: automaton_def bfs_inv_def)
  then show ?thesis using b(1) g(2) by (auto simp: ac_build_def build_automata_def)
qed

lemma scan_all:
  assumes "automaton ns0 ns"
  shows "scan ns add 0 0 s ret =
    Some (fold (\<lambda>e. fold (add e) (link_ids ns0 (at_text ns0 (take (Suc e) s)))) [0..<length s] ret)"
  using scan_text [OF assms, where i = 0 and s = s and add = add and ret = ret] by simp

lemma fold_insert_set: "fold Set.insert xs A = set xs \<union> A"
  by (induction xs arbitrary: A) auto

lemma fold_insert_many: "fold (\<lambda>e. fold Set.insert (f e)) xs A = (\<Union>e \<in> set xs. set (f e)) \<union> A"
  by (induction xs arbitrary: A) (auto simp: fold_insert_set)

lemma sublist_end: "sublist u s \<and> u \<noteq> [] \<longleftrightarrow> u \<noteq> [] \<and> (\<exists>e < length s. suffix u (take (Suc e) s))"
proof
  assume a: "sublist u s \<and> u \<noteq> []"
  then obtain xs ys where s: "s = xs @ u @ ys" by (auto simp: sublist_def)
  then have "suffix u (take (Suc (length xs + length u - 1)) s)" using a by (cases u) (auto simp: suffix_def)
  moreover have "length xs + length u - 1 < length s" using s a by (cases u) auto
  ultimately show "u \<noteq> [] \<and> (\<exists>e < length s. suffix u (take (Suc e) s))" using a by blast
next
  assume "u \<noteq> [] \<and> (\<exists>e < length s. suffix u (take (Suc e) s))"
  then show "sublist u s \<and> u \<noteq> []" unfolding sublist_altdef using take_is_prefix by blast
qed

lemma fold_ins_off:
  "fold (ins_off e) is R = R \<union> {(i, e) |i. i \<in> set is \<and> i \<notin> fst ` R}"
proof (induction "is" arbitrary: R)
  case (Cons j js)
  then show ?case by (cases "j \<in> fst ` R") (auto simp: ins_off_def)
qed simp

lemma fold_ins_off_first:
  "(i, e) \<in> fold (\<lambda>e. fold (ins_off e) (f e)) [0..<n] {} \<longleftrightarrow> e < n \<and> i \<in> set (f e) \<and> (\<forall>e' < e. i \<notin> set (f e'))"
proof (induction n arbitrary: i e)
  case (Suc n)
  let ?R = "fold (\<lambda>e. fold (ins_off e) (f e)) [0..<n] {}"
  have fst: "j \<in> fst ` ?R \<longleftrightarrow> (\<exists>e < n. j \<in> set (f e))" for j
  proof
    assume "j \<in> fst ` ?R"
    then show "\<exists>e < n. j \<in> set (f e)" using Suc by force
  next
    assume "\<exists>e < n. j \<in> set (f e)"
    then obtain e where "e < n \<and> j \<in> set (f e)" "\<forall>e' < e. \<not> (e' < n \<and> j \<in> set (f e'))"
      using exists_least_iff [of "\<lambda>e. e < n \<and> j \<in> set (f e)"] by blast
    then have "(j, e) \<in> ?R" using Suc by auto
    then show "j \<in> fst ` ?R" by force
  qed
  have "(i, e) \<in> fold (\<lambda>e. fold (ins_off e) (f e)) [0..<Suc n] {} \<longleftrightarrow>
      (i, e) \<in> ?R \<or> e = n \<and> i \<in> set (f n) \<and> i \<notin> fst ` ?R"
    by (auto simp: fold_ins_off)
  also have "\<dots> \<longleftrightarrow> e < Suc n \<and> i \<in> set (f e) \<and> (\<forall>e' < e. i \<notin> set (f e'))"
    unfolding Suc fst by (auto simp: less_Suc_eq)
  finally show ?case .
qed simp

text \<open>
  C37 Whatever patterns are inserted, the automaton is built, and the search of any text returns
  exactly the ids of the patterns that occur in it; a word inserted twice has its last id, the empty
  word and the id -1 never match.
\<close>

theorem get_match_correct:
  "\<exists>a. ac_build ps = Some a \<and>
     (\<forall>s. get_match a s = Some {i. i \<noteq> -1 \<and> (\<exists>u. u \<noteq> [] \<and> sublist u (c_chars s) \<and> pattern_id ps u = i)})"
proof -
  obtain ns0 a where a: "ac_build ps = Some a" "automaton ns0 (ac_nodes a)" "own ns0 = pattern_id ps"
    using ac_build_ok by blast
  have "get_match a s = Some {i. i \<noteq> -1 \<and> (\<exists>u. u \<noteq> [] \<and> sublist u (c_chars s) \<and> pattern_id ps u = i)}" for s
  proof -
    have "get_match a s = Some (\<Union>e < length (c_chars s). set (link_ids ns0 (at_text ns0 (take (Suc e) (c_chars s)))))"
      unfolding get_match_def scan_all [OF a(2)] fold_insert_many by (simp add: atLeast0LessThan)
    moreover have "(\<Union>e < length (c_chars s). set (link_ids ns0 (at_text ns0 (take (Suc e) (c_chars s))))) =
        {i. i \<noteq> -1 \<and> (\<exists>u. u \<noteq> [] \<and> sublist u (c_chars s) \<and> pattern_id ps u = i)}"
      using sublist_end [of _ "c_chars s"] unfolding set_eq_iff UN_iff link_ids_text a(3) by blast
    ultimately show ?thesis by simp
  qed
  then show ?thesis using a(1) by blast
qed

text \<open>
  The search with offsets: the comparison of its set looks at the ids only, so each id that
  occurs is returned with one offset, the one where the first occurrence of a pattern with that id
  ends; later occurrences are lost.
\<close>

theorem get_match_off_first:
  "\<exists>a. ac_build ps = Some a \<and> (\<forall>s. \<exists>r. get_match_off a s = Some r \<and>
     (\<forall>i e. (i, e) \<in> r \<longleftrightarrow> i \<noteq> -1 \<and> e < length (c_chars s) \<and>
        (\<exists>u. u \<noteq> [] \<and> suffix u (take (Suc e) (c_chars s)) \<and> pattern_id ps u = i) \<and>
        \<not> (\<exists>e' < e. \<exists>u. u \<noteq> [] \<and> suffix u (take (Suc e') (c_chars s)) \<and> pattern_id ps u = i)))"
proof -
  obtain ns0 a where a: "ac_build ps = Some a" "automaton ns0 (ac_nodes a)" "own ns0 = pattern_id ps"
    using ac_build_ok by blast
  have "\<exists>r. get_match_off a s = Some r \<and>
     (\<forall>i e. (i, e) \<in> r \<longleftrightarrow> i \<noteq> -1 \<and> e < length (c_chars s) \<and>
        (\<exists>u. u \<noteq> [] \<and> suffix u (take (Suc e) (c_chars s)) \<and> pattern_id ps u = i) \<and>
        \<not> (\<exists>e' < e. \<exists>u. u \<noteq> [] \<and> suffix u (take (Suc e') (c_chars s)) \<and> pattern_id ps u = i))" for s
    unfolding get_match_off_def scan_all [OF a(2)]
    by (rule exI, rule conjI, rule refl, unfold fold_ins_off_first link_ids_text a(3)) blast
  then show ?thesis using a(1) by blast
qed

end
