(* ===== verification/CrfHeap.thy ===== *)
theory CrfHeap
  imports Prelude "HOL-Library.Multiset" "HOL-Library.Monad_Syntax"
begin

text \<open>
  The priority queue of the CRF tagger, \<open>src/libsrc/libcrf_2-1-2-0_PD_BL/min_heap.cpp\<close>: a pool of
  elements that is only handed out, and a binary min-heap of pointers into it. The locale
  \<open>priority_queue\<close> is the contract the search of the tagger relies on; it is interpreted on the
  model's own operations.
\<close>

subsection \<open>The program\<close>

text \<open>
  A pointer to an element is its index in the pool, a pointer to a node of the tagger its two
  indices. The pointer array starts at 1, as in the code; slot 0 is never used by the operations.
\<close>

record queue_element =
  qe_node :: "nat \<times> nat"
  qe_next :: "nat option"
  qe_fx :: int
  qe_gx :: int

record crf_heap =
  h_capacity :: nat
  h_elem_size :: nat
  h_size :: nat
  h_ptrs :: "nat \<Rightarrow> nat"
  h_elems :: "nat \<Rightarrow> queue_element"

text \<open>\<open>heap_init\<close>; \<open>M\<close> is the number of elements that memory can hold.\<close>

definition heap_init :: "nat \<Rightarrow> nat \<Rightarrow> crf_heap option" where
  "heap_init M max_size = (if M < max_size + 1 then None else
     Some \<lparr>h_capacity = max_size, h_elem_size = 0, h_size = 0, h_ptrs = (\<lambda>_. 0),
       h_elems = (\<lambda>_. \<lparr>qe_node = (0, 0), qe_next = None, qe_fx = -2147483648, qe_gx = 0\<rparr>)\<rparr>)"

definition allc_from_heap :: "crf_heap \<Rightarrow> (nat \<times> crf_heap) option" where
  "allc_from_heap H = (if h_capacity H \<le> h_elem_size H then None
     else Some (h_elem_size H + 1, H\<lparr>h_elem_size := h_elem_size H + 1\<rparr>))"

definition key_of :: "crf_heap \<Rightarrow> nat \<Rightarrow> int" where
  "key_of H e = qe_fx (h_elems H e)"

text \<open>The position is never 0, so \<open>i != 1\<close> is \<open>1 < i\<close>.\<close>

function sift_up :: "(nat \<Rightarrow> int) \<Rightarrow> int \<Rightarrow> (nat \<Rightarrow> nat) \<Rightarrow> nat \<Rightarrow> (nat \<Rightarrow> nat) \<times> nat" where
  "sift_up fx k p i = (if 1 < i \<and> fx (p (i div 2)) > k then sift_up fx k (p(i := p (i div 2))) (i div 2) else (p, i))"
  by pat_completeness auto

termination
  by (relation "measure (\<lambda>(fx, k, p, i). i)") auto

declare sift_up.simps [simp del]

definition heap_insert :: "nat \<Rightarrow> crf_heap \<Rightarrow> int \<times> crf_heap" where
  "heap_insert e H = (if h_capacity H \<le> h_size H then (-1, H) else
     (let n = h_size H + 1; (p, i) = sift_up (key_of H) (key_of H e) (h_ptrs H) n in
       (0, H\<lparr>h_size := n, h_ptrs := p(i := e)\<rparr>)))"

text \<open>The child \<open>ci\<close> starts at 2, so the guard \<open>0 < ci\<close>, which makes the function total, always holds.\<close>

function sift_down :: "(nat \<Rightarrow> int) \<Rightarrow> int \<Rightarrow> nat \<Rightarrow> (nat \<Rightarrow> nat) \<Rightarrow> nat \<Rightarrow> nat \<Rightarrow> (nat \<Rightarrow> nat) \<times> nat" where
  "sift_down fx k n p i ci = (if 0 < ci \<and> ci \<le> n then
       (let c = (if ci < n \<and> fx (p ci) > fx (p (ci + 1)) then ci + 1 else ci) in
         if k \<le> fx (p c) then (p, i) else sift_down fx k n (p(i := p c)) c (2 * c))
     else (p, i))"
  by pat_completeness auto

termination
  by (relation "measure (\<lambda>(fx, k, n, p, i, ci). Suc n - ci)") (auto split: if_splits)

declare sift_down.simps [simp del]

text \<open>Taking the minimum of an empty heap would read a pointer that was never set.\<close>

definition heap_delete_min :: "crf_heap \<Rightarrow> (nat \<times> crf_heap) option" where
  "heap_delete_min H = (if h_size H = 0 then None else
     (let min_elem = h_ptrs H 1; last_elem = h_ptrs H (h_size H); n = h_size H - 1;
        (p, i) = sift_down (key_of H) (key_of H last_elem) n (h_ptrs H) 1 2 in
       Some (min_elem, H\<lparr>h_size := n, h_ptrs := p(i := last_elem)\<rparr>)))"

definition is_heap_empty :: "crf_heap \<Rightarrow> bool" where
  "is_heap_empty H \<longleftrightarrow> h_size H = 0"

definition find_min :: "crf_heap \<Rightarrow> nat" where
  "find_min H = h_ptrs H 1"

definition heap_reset :: "crf_heap \<Rightarrow> crf_heap" where
  "heap_reset H = H\<lparr>h_size := 0, h_elem_size := 0\<rparr>"

subsection \<open>Heap order with a hole\<close>

text \<open>The pointers at the positions 1 to \<open>n\<close> other than \<open>i\<close>.\<close>

definition others :: "(nat \<Rightarrow> 'e) \<Rightarrow> nat \<Rightarrow> nat \<Rightarrow> 'e multiset" where
  "others p n i = image_mset p (mset_set ({1..n} - {i}))"

definition filled :: "(nat \<Rightarrow> 'e) \<Rightarrow> nat \<Rightarrow> 'e multiset" where
  "filled p n = image_mset p (mset_set {1..n})"

definition ordered :: "('e \<Rightarrow> int) \<Rightarrow> (nat \<Rightarrow> 'e) \<Rightarrow> nat \<Rightarrow> bool" where
  "ordered fx p n \<longleftrightarrow> (\<forall>j. 1 < j \<longrightarrow> j \<le> n \<longrightarrow> fx (p (j div 2)) \<le> fx (p j))"

text \<open>Ordered but for the hole \<open>i\<close>: an element with key \<open>k\<close> fits above the children of the hole.\<close>

definition hole_above :: "('e \<Rightarrow> int) \<Rightarrow> int \<Rightarrow> (nat \<Rightarrow> 'e) \<Rightarrow> nat \<Rightarrow> nat \<Rightarrow> bool" where
  "hole_above fx k p n i \<longleftrightarrow>
     (\<forall>j. 1 < j \<longrightarrow> j \<le> n \<longrightarrow> j \<noteq> i \<longrightarrow> j div 2 \<noteq> i \<longrightarrow> fx (p (j div 2)) \<le> fx (p j)) \<and>
     (\<forall>j. 1 < j \<longrightarrow> j \<le> n \<longrightarrow> j div 2 = i \<longrightarrow> k \<le> fx (p j) \<and> (1 < i \<longrightarrow> fx (p (i div 2)) \<le> fx (p j)))"

text \<open>An element with key \<open>k\<close> fits below the parent of the hole.\<close>

definition hole_below :: "('e \<Rightarrow> int) \<Rightarrow> int \<Rightarrow> (nat \<Rightarrow> 'e) \<Rightarrow> nat \<Rightarrow> nat \<Rightarrow> bool" where
  "hole_below fx k p n i \<longleftrightarrow>
     (\<forall>j. 1 < j \<longrightarrow> j \<le> n \<longrightarrow> j \<noteq> i \<longrightarrow> j div 2 \<noteq> i \<longrightarrow> fx (p (j div 2)) \<le> fx (p j)) \<and>
     (1 < i \<longrightarrow> fx (p (i div 2)) \<le> k) \<and>
     (\<forall>j. 1 < j \<longrightarrow> j \<le> n \<longrightarrow> j div 2 = i \<longrightarrow> 1 < i \<longrightarrow> fx (p (i div 2)) \<le> fx (p j))"

lemma others_move:
  assumes "i \<in> {1..n}" "c \<in> {1..n}"
  shows "others (p(i := p c)) n c = others p n i"
proof (cases "i = c")
  case False
  let ?R = "{1..n} - {i} - {c}"
  have "mset_set ({1..n} - {c}) = add_mset i (mset_set ?R)" "mset_set ({1..n} - {i}) = add_mset c (mset_set ?R)"
    using assms False mset_set.remove [of "{1..n} - {c}" i] mset_set.remove [of "{1..n} - {i}" c]
    by (simp_all add: Diff_insert [symmetric] insert_commute)
  moreover have "image_mset (p(i := p c)) (mset_set ?R) = image_mset p (mset_set ?R)"
    by (rule image_mset_cong) auto
  ultimately show ?thesis by (simp add: others_def)
qed simp

lemma filled_put: "i \<in> {1..n} \<Longrightarrow> filled (p(i := e)) n = add_mset e (others p n i)"
proof -
  assume i: "i \<in> {1..n}"
  then have "mset_set {1..n} = add_mset i (mset_set ({1..n} - {i}))" by (intro mset_set.remove) simp_all
  then have "filled (p(i := e)) n = add_mset e (image_mset (p(i := e)) (mset_set ({1..n} - {i})))"
    by (simp add: filled_def)
  also have "image_mset (p(i := e)) (mset_set ({1..n} - {i})) = others p n i"
    unfolding others_def by (rule image_mset_cong) auto
  finally show ?thesis .
qed

lemma filled_others: "i \<in> {1..n} \<Longrightarrow> filled p n = add_mset (p i) (others p n i)"
  using filled_put [of i n p "p i"] by simp

lemma others_last: "others p (Suc n) (Suc n) = filled p n"
  by (auto simp: others_def filled_def intro!: arg_cong [where f = "\<lambda>A. image_mset p (mset_set A)"])

lemma sift_up_ok:
  assumes "1 \<le> i" "i \<le> n" "hole_above fx k p n i" "sift_up fx k p i = (p', i')"
  shows "1 \<le> i' \<and> i' \<le> n \<and> others p' n i' = others p n i \<and> hole_above fx k p' n i' \<and> (1 < i' \<longrightarrow> fx (p' (i' div 2)) \<le> k)"
  using assms
proof (induction fx k p i rule: sift_up.induct)
  case (1 fx k p i)
  show ?case
  proof (cases "1 < i \<and> fx (p (i div 2)) > k")
    case False
    then have "sift_up fx k p i = (p, i)" by (subst sift_up.simps) (simp only: if_False)
    then show ?thesis using "1.prems" False by auto
  next
    case True
    let ?q = "p(i := p (i div 2))" and ?h = "i div 2"
    have h: "1 \<le> ?h" "?h \<le> n" "?h \<noteq> i" using True "1.prems"(2) by auto
    have up: "fx (p (j div 2)) \<le> fx (p j)" if "1 < j" "j \<le> n" "j \<noteq> i" "j div 2 \<noteq> i" for j
      using "1.prems"(3) that unfolding hole_above_def by blast
    have down: "fx (p ?h) \<le> fx (p j)" if "1 < j" "j \<le> n" "j div 2 = i" for j
      using "1.prems"(3) that True unfolding hole_above_def by blast
    have H: "hole_above fx k ?q n ?h"
      unfolding hole_above_def
    proof (intro conjI allI impI)
      fix j assume j: "1 < j" "j \<le> n" "j \<noteq> ?h" "j div 2 \<noteq> ?h"
      then show "fx (?q (j div 2)) \<le> fx (?q j)" using up [of j] down [of j] by (cases "j = i"; cases "j div 2 = i") auto
    next
      fix j assume j: "1 < j" "j \<le> n" "j div 2 = ?h"
      then have "fx (p ?h) \<le> fx (?q j)" using up [of j] h by (cases "j = i") auto
      then show "k \<le> fx (?q j)" using True by simp
      assume g: "1 < ?h"
      then have "fx (p (?h div 2)) \<le> fx (p ?h)" using up [of ?h] h True by auto
      moreover have "?q (?h div 2) = p (?h div 2)" using g by auto
      ultimately show "fx (?q (?h div 2)) \<le> fx (?q j)" using \<open>fx (p ?h) \<le> fx (?q j)\<close> by simp
    qed
    have S: "sift_up fx k ?q ?h = (p', i')" using "1.prems"(4) True by (simp add: sift_up.simps [of fx k p i])
    have "others ?q n ?h = others p n i" using h "1.prems"(1,2) by (intro others_move) auto
    then show ?thesis using "1.IH" [OF True h(1,2) H S] by (simp add: fun_upd_def)
  qed
qed

lemma hole_put:
  assumes "hole_above fx k p n i" "1 < i \<longrightarrow> fx (p (i div 2)) \<le> k" "fx e = k"
  shows "ordered fx (p(i := e)) n"
  unfolding ordered_def
proof (intro allI impI)
  fix j assume j: "1 < j" "j \<le> n"
  then have "j div 2 \<noteq> j" by auto
  then show "fx ((p(i := e)) (j div 2)) \<le> fx ((p(i := e)) j)"
    using assms j unfolding hole_above_def by (cases "j = i"; cases "j div 2 = i") auto
qed

lemma sift_down_ok:
  assumes "1 \<le> i" "i \<le> n" "hole_below fx k p n i" "sift_down fx k n p i ci = (p', i')" "ci = 2 * i"
  shows "1 \<le> i' \<and> i' \<le> n \<and> others p' n i' = others p n i \<and> hole_above fx k p' n i' \<and> (1 < i' \<longrightarrow> fx (p' (i' div 2)) \<le> k)"
  using assms
proof (induction fx k n p i ci rule: sift_down.induct)
  case (1 fx k n p i ci)
  note ci [simp] = "1.prems"(5)
  have parent: "1 < i \<longrightarrow> fx (p (i div 2)) \<le> k" using "1.prems"(3) by (simp add: hole_below_def)
  have up: "fx (p (j div 2)) \<le> fx (p j)" if "1 < j" "j \<le> n" "j \<noteq> i" "j div 2 \<noteq> i" for j
    using "1.prems"(3) that unfolding hole_below_def by blast
  have kids: "fx (p (i div 2)) \<le> fx (p j)" if "1 < j" "j \<le> n" "j div 2 = i" "1 < i" for j
    using "1.prems"(3) that unfolding hole_below_def by blast
  have stop: "hole_above fx k p n i" if "\<And>j. 1 < j \<Longrightarrow> j \<le> n \<Longrightarrow> j div 2 = i \<Longrightarrow> k \<le> fx (p j)"
    unfolding hole_above_def using that up kids by blast
  have child: "j = 2 * i \<or> j = 2 * i + 1" if "j div 2 = i" for j using that by auto
  show ?case
  proof (cases "2 * i \<le> n")
    case False
    then have "hole_above fx k p n i" using child by (intro stop) force
    then show ?thesis using "1.prems" parent False by (simp add: sift_down.simps [of fx k n p i "2 * i"])
  next
    case True
    let ?c = "if 2 * i < n \<and> fx (p (2 * i)) > fx (p (2 * i + 1)) then 2 * i + 1 else 2 * i"
    have c: "?c div 2 = i" "1 < ?c" "?c \<le> n" "?c \<noteq> i" using True "1.prems"(1) by auto
    have least: "fx (p ?c) \<le> fx (p j)" if "1 < j" "j \<le> n" "j div 2 = i" for j
      using child [OF that(3)] that by auto
    show ?thesis
    proof (cases "k \<le> fx (p ?c)")
      case stopped: True
      then have "hole_above fx k p n i" by (intro stop order_trans [OF stopped least])
      moreover have "sift_down fx k n p i ci = (p, i)"
        using True "1.prems"(1) stopped by (simp add: sift_down.simps [of fx k n p i "2 * i"] Let_def)
      ultimately show ?thesis using "1.prems" parent by simp
    next
      case go: False
      let ?q = "p(i := p ?c)"
      have H: "hole_below fx k ?q n ?c"
        unfolding hole_below_def
      proof (intro conjI allI impI)
        fix j assume j: "1 < j" "j \<le> n" "j \<noteq> ?c" "j div 2 \<noteq> ?c"
        have "j div 2 \<noteq> j" using j(1) by auto
        then show "fx (?q (j div 2)) \<le> fx (?q j)"
          using up [of j] least [of j] kids [OF c(2,3,1)] j by (cases "j = i"; cases "j div 2 = i") auto
      next
        show "fx (?q (?c div 2)) \<le> k" using c go by simp
      next
        fix j assume j: "1 < j" "j \<le> n" "j div 2 = ?c"
        then have "j \<noteq> i" using c by auto
        then show "fx (?q (?c div 2)) \<le> fx (?q j)" using up [of j] j c by (auto split: if_splits)
      qed
      have S: "sift_down fx k n ?q ?c (2 * ?c) = (p', i')"
        using True "1.prems"(1,4) go by (simp add: sift_down.simps [of fx k n p i "2 * i"] Let_def)
      have "others ?q n ?c = others p n i" using c "1.prems"(1,2) by (intro others_move) auto
      moreover have "0 < 2 * i \<and> 2 * i \<le> n" "1 \<le> ?c" using True "1.prems"(1) c by simp_all
      ultimately show ?thesis
        using "1.IH" [unfolded ci, OF _ refl go _ c(3) H S refl] by (simp add: fun_upd_def)
    qed
  qed
qed

subsection \<open>The queue\<close>

text \<open>The pointers in the heap; a heap is sound when it is ordered and they are in the pool.\<close>

definition bag :: "crf_heap \<Rightarrow> nat multiset" where
  "bag H = filled (h_ptrs H) (h_size H)"

definition heap_ok :: "crf_heap \<Rightarrow> bool" where
  "heap_ok H \<longleftrightarrow> ordered (key_of H) (h_ptrs H) (h_size H)"

lemma heap_insert_ok:
  assumes "heap_ok H" "h_size H < h_capacity H"
  shows "\<exists>p. heap_insert e H = (0, H\<lparr>h_size := h_size H + 1, h_ptrs := p\<rparr>) \<and>
    filled p (h_size H + 1) = add_mset e (bag H) \<and> ordered (key_of H) p (h_size H + 1)"
proof -
  let ?n = "h_size H + 1" and ?k = "key_of H e"
  obtain p i where u: "sift_up (key_of H) ?k (h_ptrs H) ?n = (p, i)" by fastforce
  have "hole_above (key_of H) ?k (h_ptrs H) ?n ?n"
    using assms(1) unfolding hole_above_def heap_ok_def ordered_def by auto
  then have S: "1 \<le> i" "i \<le> ?n" "others p ?n i = others (h_ptrs H) ?n ?n" "hole_above (key_of H) ?k p ?n i"
    "1 < i \<longrightarrow> key_of H (p (i div 2)) \<le> ?k"
    using sift_up_ok [OF _ _ _ u] by auto
  have "filled (p(i := e)) ?n = add_mset e (bag H)"
    using filled_put [where i = i and n = ?n and p = p and e = e] S(1,2,3) others_last [of "h_ptrs H" "h_size H"] by (simp add: bag_def)
  moreover have "ordered (key_of H) (p(i := e)) ?n" by (rule hole_put [OF S(4,5) refl])
  ultimately show ?thesis using assms(2) u by (auto simp: heap_insert_def)
qed

lemma ordered_root:
  assumes "ordered fx p n" "1 \<le> j" "j \<le> n"
  shows "fx (p 1) \<le> fx (p j)"
  using assms(2,3)
proof (induction j rule: less_induct)
  case (less j)
  show ?case
  proof (cases "j = 1")
    case False
    then have "fx (p 1) \<le> fx (p (j div 2))" "fx (p (j div 2)) \<le> fx (p j)"
      using less assms(1) by (auto simp: ordered_def)
    then show ?thesis by simp
  qed simp
qed

lemma heap_delete_min_ok:
  assumes "heap_ok H" "0 < h_size H"
  shows "\<exists>p e. heap_delete_min H = Some (e, H\<lparr>h_size := h_size H - 1, h_ptrs := p\<rparr>) \<and>
    bag H = add_mset e (filled p (h_size H - 1)) \<and> ordered (key_of H) p (h_size H - 1) \<and>
    (\<forall>e' \<in># bag H. key_of H e \<le> key_of H e')"
proof -
  let ?n = "h_size H - 1" and ?p = "h_ptrs H" and ?l = "h_ptrs H (h_size H)"
  obtain p i where d: "sift_down (key_of H) (key_of H ?l) ?n ?p 1 2 = (p, i)" by fastforce
  have o: "ordered (key_of H) ?p (h_size H)" using assms(1) by (simp add: heap_ok_def)
  have least: "\<forall>e' \<in># bag H. key_of H (?p 1) \<le> key_of H e'"
    using ordered_root [OF o] by (auto simp: bag_def filled_def)
  have n: "h_size H = Suc ?n" using assms(2) by simp
  have b: "bag H = add_mset ?l (filled ?p ?n)"
    using filled_others [where i = "h_size H" and n = "h_size H" and p = ?p] others_last [of ?p ?n] assms(2) n by (simp add: bag_def)
  have D: "heap_delete_min H = Some (?p 1, H\<lparr>h_size := ?n, h_ptrs := p(i := ?l)\<rparr>)"
    using assms(2) d by (simp add: heap_delete_min_def)
  show ?thesis
  proof (cases "?n = 0")
    case True
    then have "bag H = {#?p 1#}" using b n by (simp add: filled_def)
    then show ?thesis using D True least by (auto simp: filled_def ordered_def)
  next
    case False
    have "hole_below (key_of H) (key_of H ?l) ?p ?n 1"
      using o unfolding hole_below_def ordered_def by auto
    then have S: "1 \<le> i" "i \<le> ?n" "others p ?n i = others ?p ?n 1" "hole_above (key_of H) (key_of H ?l) p ?n i"
      "1 < i \<longrightarrow> key_of H (p (i div 2)) \<le> key_of H ?l"
      using sift_down_ok [where i = 1 and n = ?n and fx = "key_of H" and k = "key_of H ?l" and p = ?p and p' = p and i' = i, OF _ _ _ d] False by auto
    have "filled (p(i := ?l)) ?n = add_mset ?l (others ?p ?n 1)" using filled_put [where i = i and n = ?n and p = p and e = ?l] S(1,2,3) by simp
    moreover have "filled ?p ?n = add_mset (?p 1) (others ?p ?n 1)" using filled_others [where i = 1 and n = ?n and p = ?p] False by simp
    ultimately have "bag H = add_mset (?p 1) (filled (p(i := ?l)) ?n)" using b by simp
    moreover have "ordered (key_of H) (p(i := ?l)) ?n" by (rule hole_put [OF S(4,5) refl])
    ultimately show ?thesis using D least by blast
  qed
qed

subsection \<open>The contract of a priority queue\<close>

text \<open>
  \<open>pool\<close> is what an operation of the queue must not change, here the elements the pointers point
  to; the keys are in it.
\<close>

locale priority_queue =
  fixes ok :: "'h \<Rightarrow> bool" and items :: "'h \<Rightarrow> 'e multiset" and pool :: "'h \<Rightarrow> 'p" and key :: "'p \<Rightarrow> 'e \<Rightarrow> int"
    and room :: "'h \<Rightarrow> bool" and ins :: "'e \<Rightarrow> 'h \<Rightarrow> int \<times> 'h" and del :: "'h \<Rightarrow> ('e \<times> 'h) option"
  assumes ins_law: "ok h \<Longrightarrow> room h \<Longrightarrow>
      \<exists>h'. ins e h = (0, h') \<and> ok h' \<and> pool h' = pool h \<and> items h' = add_mset e (items h)"
    and del_law: "ok h \<Longrightarrow> items h \<noteq> {#} \<Longrightarrow>
      \<exists>e h'. del h = Some (e, h') \<and> ok h' \<and> pool h' = pool h \<and> items h = add_mset e (items h') \<and>
        (\<forall>e' \<in># items h. key (pool h) e \<le> key (pool h) e')"
begin

text \<open>Taking all elements out returns them in the order of their keys.\<close>

primrec drain :: "nat \<Rightarrow> 'h \<Rightarrow> 'e list option" where
  "drain 0 h = Some []"
| "drain (Suc n) h = (case del h of None \<Rightarrow> None | Some (e, h1) \<Rightarrow> map_option (\<lambda>es. e # es) (drain n h1))"

lemma drain_sorted:
  "ok h \<Longrightarrow> size (items h) = n \<Longrightarrow>
    \<exists>es. drain n h = Some es \<and> mset es = items h \<and> sorted (map (key (pool h)) es)"
proof (induction n arbitrary: h)
  case (Suc n)
  then have "items h \<noteq> {#}" by auto
  then obtain e h1 where d: "del h = Some (e, h1)" "ok h1" "pool h1 = pool h" "items h = add_mset e (items h1)"
    "\<forall>e' \<in># items h. key (pool h) e \<le> key (pool h) e'"
    using del_law [OF Suc.prems(1)] by blast
  then have "size (items h1) = n" using Suc.prems(2) by simp
  then obtain es where es: "drain n h1 = Some es" "mset es = items h1" "sorted (map (key (pool h)) es)"
    using Suc.IH [OF d(2)] d(3) by auto
  have "set es \<subseteq> set_mset (items h)" using es(2) d(4) by (metis set_mset_mset set_mset_add_mset_insert subset_insertI)
  then have "\<forall>e' \<in> set es. key (pool h) e \<le> key (pool h) e'" using d(5) by blast
  then show ?case using d es by auto
qed simp

end

lemma bag_size: "size (bag H) = h_size H"
  by (simp add: bag_def filled_def)

lemma key_of_update [simp]: "key_of (H\<lparr>h_size := n, h_ptrs := p\<rparr>) = key_of H"
  by (simp add: key_of_def fun_eq_iff)

definition pool_of :: "crf_heap \<Rightarrow> nat \<times> nat \<times> (nat \<Rightarrow> queue_element)" where
  "pool_of H = (h_capacity H, h_elem_size H, h_elems H)"

definition pool_key :: "nat \<times> nat \<times> (nat \<Rightarrow> queue_element) \<Rightarrow> nat \<Rightarrow> int" where
  "pool_key p e = qe_fx (snd (snd p) e)"

interpretation crf_queue: priority_queue heap_ok bag pool_of pool_key "\<lambda>H. h_size H < h_capacity H" heap_insert heap_delete_min
proof
  fix H :: crf_heap and e
  assume "heap_ok H" "h_size H < h_capacity H"
  then obtain p where "heap_insert e H = (0, H\<lparr>h_size := h_size H + 1, h_ptrs := p\<rparr>)"
    "filled p (h_size H + 1) = add_mset e (bag H)" "ordered (key_of H) p (h_size H + 1)"
    using heap_insert_ok by blast
  then show "\<exists>H'. heap_insert e H = (0, H') \<and> heap_ok H' \<and> pool_of H' = pool_of H \<and> bag H' = add_mset e (bag H)"
    by (auto simp: heap_ok_def bag_def pool_of_def)
next
  fix H :: crf_heap
  assume H: "heap_ok H" "bag H \<noteq> {#}"
  then have "0 < h_size H" using bag_size [of H] by (cases "h_size H") auto
  then obtain p e where "heap_delete_min H = Some (e, H\<lparr>h_size := h_size H - 1, h_ptrs := p\<rparr>)"
    "bag H = add_mset e (filled p (h_size H - 1))" "ordered (key_of H) p (h_size H - 1)"
    "\<forall>e' \<in># bag H. key_of H e \<le> key_of H e'"
    using heap_delete_min_ok [OF H(1)] by blast
  then show "\<exists>e H'. heap_delete_min H = Some (e, H') \<and> heap_ok H' \<and> pool_of H' = pool_of H \<and>
      bag H = add_mset e (bag H') \<and> (\<forall>e' \<in># bag H. pool_key (pool_of H) e \<le> pool_key (pool_of H) e')"
    by (auto simp: heap_ok_def bag_def pool_of_def pool_key_def key_of_def)
qed

end
