(* ===== verification/CrfTag.thy ===== *)
theory CrfTag
  imports CrfHeap Checked
begin

text \<open>
  The CRF tagger of \<open>src/libsrc/libcrf_2-1-2-0_PD_BL\<close> (\<open>tag.h\<close>, \<open>tag.cpp\<close>, \<open>model.h\<close>, \<open>darts.h\<close>): the
  model as it is in memory after loading, the state of a tagger, setting it up, adding words and
  summing the feature weights of every word and class. An access outside an array and a signed
  overflow are \<open>None\<close>.
\<close>

subsection \<open>The model and the tagger\<close>

text \<open>
  \<open>cm_array\<close> is the double array (\<open>base\<close>, \<open>check\<close>), \<open>cm_alpha\<close> the weights, \<open>cm_bpos\<close> the place
  of the weights of the pairs of classes in them (\<open>b_templs_alpha_p\<close>), \<open>cm_scale\<close> the rounding \<open>int(cost_factor_ * cost)\<close>. The weights of probabilities,
  which are floating point, have no counterpart in \<open>crf_node\<close>.
\<close>

record crf_model =
  cm_array :: "(int \<times> nat) list"
  cm_alpha :: "int list"
  cm_bpos :: nat
  cm_dan :: "int list"
  cm_zu :: "int list"
  cm_ysize :: nat
  cm_ynames :: "string list"
  cm_version :: nat
  cm_templs :: nat
  cm_scale :: "int \<Rightarrow> int"
  cm_ready :: bool

record crf_node =
  nd_x :: nat
  nd_y :: nat
  nd_cost :: int
  nd_best :: int
  nd_prev :: "(nat \<times> nat) option"

record crf_tag =
  tg_max_words :: nat
  tg_max_len :: nat
  tg_max_nbest :: nat
  tg_nbest :: nat
  tg_vlevel :: nat
  tg_model :: "crf_model option"
  tg_ysize :: nat
  tg_words :: nat
  tg_next_time :: nat
  tg_node :: "nat \<Rightarrow> nat \<Rightarrow> crf_node"
  tg_x :: "nat \<Rightarrow> string"
  tg_row :: "nat \<Rightarrow> nat"
  tg_result :: "nat \<Rightarrow> int"
  tg_heap :: "crf_heap option"
  tg_cost :: int
  tg_ready :: bool

definition get_node :: "crf_tag \<Rightarrow> nat \<Rightarrow> nat \<Rightarrow> crf_node option" where
  "get_node t i j = (if i < tg_max_words t \<and> j < tg_ysize t then Some (tg_node t i j) else None)"

definition upd_node :: "nat \<Rightarrow> nat \<Rightarrow> (crf_node \<Rightarrow> crf_node) \<Rightarrow> crf_tag \<Rightarrow> crf_tag option" where
  "upd_node i j f t = (if i < tg_max_words t \<and> j < tg_ysize t
     then Some (t\<lparr>tg_node := (tg_node t)(i := (tg_node t i)(j := f (tg_node t i j)))\<rparr>) else None)"

definition set_result :: "nat \<Rightarrow> int \<Rightarrow> crf_tag \<Rightarrow> crf_tag option" where
  "set_result i v t = (if i < tg_max_words t then Some (t\<lparr>tg_result := (tg_result t)(i := v)\<rparr>) else None)"

definition crf_tag_new :: "nat \<Rightarrow> nat \<Rightarrow> nat \<Rightarrow> crf_tag" where
  "crf_tag_new nbest words len = \<lparr>tg_max_words = words, tg_max_len = len, tg_max_nbest = nbest, tg_nbest = 0,
     tg_vlevel = 0,     tg_model = None, tg_ysize = 0, tg_words = 0, tg_next_time = 0,
     tg_node = (\<lambda>_ _. \<lparr>nd_x = 0, nd_y = 0, nd_cost = 0, nd_best = 0, nd_prev = None\<rparr>),
     tg_x = (\<lambda>_. []), tg_row = (\<lambda>_. 0), tg_result = (\<lambda>_. 0), tg_heap = None, tg_cost = 0, tg_ready = False\<rparr>"

text \<open>
  \<open>init_by_model\<close>; \<open>M\<close> is the number of cells that memory can hold. The indices in a node are
  unsigned shorts.
\<close>

definition init_by_model :: "nat \<Rightarrow> crf_model option \<Rightarrow> crf_tag \<Rightarrow> int \<times> crf_tag" where
  "init_by_model M mo t = (case mo of None \<Rightarrow> (-1, t)
     | Some m \<Rightarrow>
         if \<not> cm_ready m then (-1, t)
         else (let w = tg_max_words t; y = cm_ysize m;
                 t1 = t\<lparr>tg_model := Some m, tg_ysize := y\<rparr> in
           if M < w * y \<or> M < w * tg_max_len t then (-1, t1)
           else (let t2 = t1\<lparr>tg_node := (\<lambda>i j. \<lparr>nd_x = i mod 65536, nd_y = j mod 65536, nd_cost = 0, nd_best = 0,
                     nd_prev = None\<rparr>), tg_x := (\<lambda>_. []), tg_row := (\<lambda>_. 0), tg_result := (\<lambda>_. 0)\<rparr> in
             if tg_max_nbest t > 1 then
               (case heap_init M (w * y * y) of None \<Rightarrow> (-1, t2)
                | Some H \<Rightarrow> (0, t2\<lparr>tg_heap := Some H, tg_ready := True\<rparr>))
             else (0, t2\<lparr>tg_ready := True\<rparr>))))"

definition set_nbest :: "nat \<Rightarrow> crf_tag \<Rightarrow> crf_tag" where
  "set_nbest nbest t = t\<lparr>tg_nbest := (if nbest < tg_max_nbest t then nbest else tg_max_nbest t)\<rparr>"

definition set_vlevel :: "nat \<Rightarrow> crf_tag \<Rightarrow> crf_tag" where
  "set_vlevel v t = t\<lparr>tg_vlevel := v\<rparr>"

definition tag_reset :: "crf_tag \<Rightarrow> int \<times> crf_tag" where
  "tag_reset t = (if \<not> tg_ready t then (-1, t)
     else (0, t\<lparr>tg_words := 0, tg_next_time := 0, tg_cost := 0, tg_heap := map_option heap_reset (tg_heap t)\<rparr>))"

text \<open>Freed memory holds nothing: a cleared tagger has no class and no queue.\<close>

definition tag_clear :: "crf_tag \<Rightarrow> int \<times> crf_tag" where
  "tag_clear t = (if \<not> tg_ready t then (-1, t)
     else (0, t\<lparr>tg_model := None, tg_words := 0, tg_cost := 0, tg_heap := None, tg_ready := False\<rparr>))"

subsection \<open>Adding words\<close>

text \<open>
  \<open>strlen\<close> of the rest of the buffer; without a NUL in it the code would read on. The length is
  compared with the number of words the tagger can hold, not with the length of a word, and a row
  that is cut is copied without its terminator.
\<close>

definition row_at :: "string \<Rightarrow> string option" where
  "row_at buf = (if CHR 0x00 \<in> set buf then Some (takeWhile (\<lambda>c. c \<noteq> CHR 0x00) buf) else None)"

definition add_row :: "nat \<Rightarrow> crf_tag \<times> string \<Rightarrow> (crf_tag \<times> string) option" where
  "add_row i s = (case s of (t, buf) \<Rightarrow> do {
     r \<leftarrow> row_at buf;
     if length r > tg_max_words t - 1 then None
     else if tg_words t \<ge> tg_max_words t \<or> tg_max_len t < length r + 1 then None
     else Some (t\<lparr>tg_x := (tg_x t)(tg_words t := r), tg_row := (tg_row t)(i := length r),
         tg_result := (tg_result t)(i := 0), tg_words := tg_words t + 1\<rparr>, drop (length r + 1) buf) })"

definition clear_costs :: "crf_tag \<Rightarrow> crf_tag" where
  "clear_costs t = t\<lparr>tg_node := (\<lambda>i j. if i < tg_words t \<and> j < tg_ysize t then (tg_node t i j)\<lparr>nd_cost := 0\<rparr>
     else tg_node t i j)\<rparr>"

definition tag_add :: "string \<Rightarrow> nat \<Rightarrow> crf_tag \<Rightarrow> (int \<times> crf_tag) option" where
  "tag_add row_p row_len t =
     (if tg_model t = None then Some (-1, t)
      else if \<not> tg_ready t then Some (-1, t)
      else do {
        (t1, buf) \<leftarrow> floop add_row [0..<min row_len (tg_max_words t)] (t, row_p);
        Some (0, clear_costs t1) })"

subsection \<open>Features\<close>

definition BOS :: "int \<Rightarrow> string option" where
  "BOS i = rd [''_B-1'', ''_B-2'', ''_B-3'', ''_B-4''] i"

definition EOS :: "int \<Rightarrow> string option" where
  "EOS i = rd [''_B+1'', ''_B+2'', ''_B+3'', ''_B+4''] i"

definition get_index :: "crf_tag \<Rightarrow> int \<Rightarrow> string option" where
  "get_index t idx =
     (if idx < 0 then BOS (- idx - 1)
      else if idx \<ge> int (tg_words t) then EOS (idx - int (tg_words t))
      else Some (tg_x t (nat idx)))"

definition da_at :: "crf_model \<Rightarrow> nat \<Rightarrow> (int \<times> nat) option" where
  "da_at m p = rd (cm_array m) (int p)"

definition u32 :: "int \<Rightarrow> nat" where
  "u32 x = nat (x mod 4294967296)"

text \<open>\<open>apply_rule\<close>: the return code, the new position and the id.\<close>

fun rule_loop :: "crf_model \<Rightarrow> string \<Rightarrow> bool \<Rightarrow> nat \<Rightarrow> (int \<times> nat \<times> int) option" where
  "rule_loop m [] flag pos = Some (0, pos, -1)"
| "rule_loop m (c # cs) flag pos = do {
     (b, _) \<leftarrow> da_at m pos;
     b1 \<leftarrow> i32 (b + of_char c);
     b2 \<leftarrow> i32 (b1 + 1);
     let tmp = u32 b2 in do {
       (base, check) \<leftarrow> da_at m tmp;
       if u32 b \<noteq> check then Some (-1, pos, -1)
       else if flag \<and> cs = [] then do {
         (n, check1) \<leftarrow> da_at m (u32 base);
         if u32 base = check1 \<and> n < 0 then do { n1 \<leftarrow> i32 (- n); Some (0, tmp, n1 - 1) }
         else Some (0, tmp, -1) }
       else rule_loop m cs flag tmp } }"

definition apply_rule :: "crf_model \<Rightarrow> string \<Rightarrow> bool \<Rightarrow> nat \<Rightarrow> (int \<times> nat \<times> int) option" where
  "apply_rule m p flag pos = rule_loop m p flag pos"

text \<open>\<open>node[i][j].cost += alpha_int_[id + j]\<close> for every class.\<close>

definition add_cost :: "crf_model \<Rightarrow> nat \<Rightarrow> int \<Rightarrow> nat \<Rightarrow> crf_tag \<Rightarrow> crf_tag option" where
  "add_cost m i iid j t = do {
     k \<leftarrow> i32 (iid + int j);
     a \<leftarrow> rd (cm_alpha m) k;
     nd \<leftarrow> get_node t i j;
     c \<leftarrow> i32 (nd_cost nd + a);
     upd_node i j (\<lambda>nd. nd\<lparr>nd_cost := c\<rparr>) t }"

definition add_costs :: "crf_model \<Rightarrow> nat \<Rightarrow> int \<Rightarrow> crf_tag \<Rightarrow> crf_tag option" where
  "add_costs m i iid t = floop (add_cost m i iid) [0..<tg_ysize t] t"

text \<open>The scaling at the end; \<open>cm_scale\<close> is a double multiplication and a truncation.\<close>

definition scale_cost :: "crf_model \<Rightarrow> nat \<Rightarrow> nat \<Rightarrow> crf_tag \<Rightarrow> crf_tag option" where
  "scale_cost m i j t = do {
     nd \<leftarrow> get_node t i j;
     c \<leftarrow> i32 (cm_scale m (nd_cost nd));
     upd_node i j (\<lambda>nd. nd\<lparr>nd_cost := c\<rparr>) t }"

text \<open>Matching two words with a slash between them; a failing step leaves the id -1.\<close>

definition pair_id :: "crf_model \<Rightarrow> string \<Rightarrow> string \<Rightarrow> string \<Rightarrow> int option" where
  "pair_id m key a b = do {
     (_, pos, _) \<leftarrow> apply_rule m key False 0;
     (r1, pos1, _) \<leftarrow> apply_rule m a False pos;
     if r1 = -1 then Some (-1) else do {
       (r2, pos2, _) \<leftarrow> apply_rule m ''/'' False pos1;
       if r2 = -1 then Some (-1) else do {
         (_, _, iid) \<leftarrow> apply_rule m b True pos2;
         Some iid } } }"

definition single_id :: "crf_model \<Rightarrow> string \<Rightarrow> string \<Rightarrow> int option" where
  "single_id m key a = do {
     (_, pos, _) \<leftarrow> apply_rule m key False 0;
     (_, _, iid) \<leftarrow> apply_rule m a True pos;
     Some iid }"

text \<open>Version 100: the templates \<open>U01\<close> to \<open>U10\<close> one after the other.\<close>

definition feature_keys :: "string list" where
  "feature_keys = [''U01:'', ''U02:'', ''U03:'', ''U08:'', ''U09:'', ''U10:'']"

definition templ_id :: "crf_model \<Rightarrow> crf_tag \<Rightarrow> nat \<Rightarrow> nat \<Rightarrow> int option" where
  "templ_id m t cur i = do {
     key \<leftarrow> rd feature_keys (int i);
     if i \<le> 2 then do { a \<leftarrow> get_index t (int cur + int i - 1); single_id m key a }
     else if i \<le> 4 then do {
       a \<leftarrow> get_index t (int cur + int i - 4);
       b \<leftarrow> get_index t (int cur + int i - 3);
       pair_id m key a b }
     else do {
       a \<leftarrow> get_index t (int cur - 1);
       b \<leftarrow> get_index t (int cur + 1);
       pair_id m key a b } }"

definition templ_cost :: "crf_model \<Rightarrow> nat \<Rightarrow> nat \<Rightarrow> crf_tag \<Rightarrow> crf_tag option" where
  "templ_cost m cur i t = do {
     iid \<leftarrow> templ_id m t cur i;
     if iid \<noteq> -1 then add_costs m cur iid t else Some t }"

definition zero_cost :: "nat \<Rightarrow> nat \<Rightarrow> crf_tag \<Rightarrow> crf_tag option" where
  "zero_cost i j t = upd_node i j (\<lambda>nd. nd\<lparr>nd_cost := 0\<rparr>) t"

definition word_features :: "crf_model \<Rightarrow> nat \<Rightarrow> crf_tag \<Rightarrow> crf_tag option" where
  "word_features m cur t = do {
     t1 \<leftarrow> floop (zero_cost cur) [0..<tg_ysize t] t;
     t2 \<leftarrow> floop (templ_cost m cur) [0..<cm_templs m] t1;
     floop (scale_cost m cur) [0..<tg_ysize t] t2 }"

text \<open>Version 200: one lookup of a word gives its weights for itself and its neighbours.\<close>

definition share :: "crf_model \<Rightarrow> int list \<Rightarrow> int \<Rightarrow> int \<Rightarrow> nat \<Rightarrow> crf_tag \<Rightarrow> crf_tag option" where
  "share m tab cur iid k t = do {
     id2 \<leftarrow> rd tab (iid + int k);
     let now = cur - int k + 1 in
       if id2 \<noteq> -1 \<and> 0 \<le> now \<and> now < int (tg_words t) then add_costs m (nat now) id2 t else Some t }"

definition put_shared :: "crf_model \<Rightarrow> int list \<Rightarrow> int \<Rightarrow> nat \<Rightarrow> crf_tag \<Rightarrow> crf_tag option" where
  "put_shared m tab iid i t = do {
     id2 \<leftarrow> rd tab iid;
     if id2 \<noteq> -1 then add_costs m i id2 t else Some t }"

definition first_features :: "crf_model \<Rightarrow> crf_tag \<Rightarrow> crf_tag option" where
  "first_features m t = do {
     bos \<leftarrow> BOS 0;
     iid \<leftarrow> single_id m '':'' bos;
     t1 \<leftarrow> (if iid \<noteq> -1 then put_shared m (cm_dan m) iid 0 t else Some t);
     iid1 \<leftarrow> pair_id m '':'' bos (tg_x t 0);
     if iid1 \<noteq> -1 then put_shared m (cm_zu m) iid1 0 t1 else Some t1 }"

definition last_features :: "crf_model \<Rightarrow> crf_tag \<Rightarrow> crf_tag option" where
  "last_features m t = do {
     eos \<leftarrow> EOS 0;
     iid \<leftarrow> single_id m '':'' eos;
     if iid \<noteq> -1 then put_shared m (cm_dan m) (iid + 2) (tg_words t - 1) t else Some t }"

definition shared_features :: "crf_model \<Rightarrow> nat \<Rightarrow> crf_tag \<Rightarrow> crf_tag option" where
  "shared_features m cur t = do {
     iid \<leftarrow> single_id m '':'' (tg_x t cur);
     t1 \<leftarrow> (if iid \<noteq> -1 then floop (share m (cm_dan m) (int cur) iid) [0..<3] t else Some t);
     b \<leftarrow> (if cur + 1 = tg_words t then EOS 0 else Some (tg_x t (cur + 1)));
     iid1 \<leftarrow> pair_id m '':'' (tg_x t cur) b;
     t2 \<leftarrow> (if iid1 \<noteq> -1 then floop (share m (cm_zu m) (int cur) iid1) [0..<2] t1 else Some t1);
     l \<leftarrow> get_index t (int cur - 1);
     r \<leftarrow> get_index t (int cur + 1);
     iid2 \<leftarrow> pair_id m ''U10:'' l r;
     if iid2 \<noteq> -1 then add_costs m cur iid2 t2 else Some t2 }"

definition scale_word :: "crf_model \<Rightarrow> nat \<Rightarrow> crf_tag \<Rightarrow> crf_tag option" where
  "scale_word m i t = floop (scale_cost m i) [0..<tg_ysize t] t"

definition build_features :: "crf_tag \<Rightarrow> (int \<times> crf_tag) option" where
  "build_features t = (case tg_model t of None \<Rightarrow> None | Some m \<Rightarrow>
     if tg_words t = 0 then Some (-1, t)
     else if cm_version m = 200 then do {
       t1 \<leftarrow> first_features m t;
       t2 \<leftarrow> floop (shared_features m) [0..<tg_words t] t1;
       t3 \<leftarrow> last_features m t2;
       t4 \<leftarrow> floop (scale_word m) [0..<tg_words t] t3;
       Some (0, t4) }
     else if cm_version m = 100 then do {
       t1 \<leftarrow> floop (word_features m) [0..<tg_words t] t;
       Some (0, t1) }
     else Some (-1, t))"

end
