(* ===== verification/CrfViterbi.thy ===== *)
theory CrfViterbi
  imports CrfTag
begin

text \<open>
  The best labelling, \<open>CrfTag::viterbi\<close> of \<open>src/libsrc/libcrf_2-1-2-0_PD_BL/tag.cpp\<close>: the table of
  the best scores, the pointers back, and the labels read off along them. The result is a
  labelling of maximal score, and its score is the cost reported.
\<close>

subsection \<open>The program\<close>

text \<open>\<open>PATH_COST\<close>: the weight of two classes one after the other.\<close>

definition path_cost :: "crf_tag \<Rightarrow> nat \<Rightarrow> nat \<Rightarrow> int option" where
  "path_cost t y1 y2 = (case tg_model t of None \<Rightarrow> None | Some m \<Rightarrow> rd (cm_alpha m) (int (cm_bpos m + y1 * tg_ysize t + y2)))"

definition best_step :: "crf_tag \<Rightarrow> nat \<Rightarrow> nat \<Rightarrow> nat \<Rightarrow> int \<times> (nat \<times> nat) option \<Rightarrow> (int \<times> (nat \<times> nat) option) option" where
  "best_step t i j k s = (case s of (bestc, best) \<Rightarrow> do {
     nd \<leftarrow> get_node t (i - 1) k;
     p \<leftarrow> path_cost t k j;
     this \<leftarrow> get_node t i j;
     c1 \<leftarrow> i32 (nd_best nd + p);
     node_cost \<leftarrow> i32 (c1 + nd_cost this);
     Some (if node_cost > bestc then (node_cost, Some (i - 1, k)) else (bestc, best)) })"

definition viterbi_cell :: "nat \<Rightarrow> nat \<Rightarrow> crf_tag \<Rightarrow> crf_tag option" where
  "viterbi_cell i j t = do {
     (bestc, best) \<leftarrow> (if i = 0 then Some (-2147483648, None)
        else floop (best_step t i j) [0..<tg_ysize t] (-2147483648, None));
     upd_node i j (\<lambda>nd. nd\<lparr>nd_prev := best, nd_best := (if best \<noteq> None then bestc else nd_cost nd)\<rparr>) t }"

definition viterbi_row :: "nat \<Rightarrow> crf_tag \<Rightarrow> crf_tag option" where
  "viterbi_row i t = floop (viterbi_cell i) [0..<tg_ysize t] t"

definition best_end :: "crf_tag \<Rightarrow> nat \<Rightarrow> nat \<Rightarrow> int \<times> (nat \<times> nat) option \<Rightarrow> (int \<times> (nat \<times> nat) option) option" where
  "best_end t s j c = (case c of (bestc, best) \<Rightarrow> do {
     nd \<leftarrow> get_node t s j;
     Some (if bestc < nd_best nd then (nd_best nd, Some (s, j)) else (bestc, best)) })"

partial_function (option) read_back :: "(nat \<times> nat) option \<Rightarrow> crf_tag \<Rightarrow> crf_tag option" where
  "read_back n t = (case n of None \<Rightarrow> Some t
     | Some p \<Rightarrow> do {
         nd \<leftarrow> get_node t (fst p) (snd p);
         t1 \<leftarrow> set_result (nd_x nd) (int (nd_y nd)) t;
         read_back (nd_prev nd) t1 })"

declare read_back.simps [code]

definition viterbi :: "crf_tag \<Rightarrow> (int \<times> crf_tag) option" where
  "viterbi t = (if tg_words t = 0 then None else do {
     t1 \<leftarrow> floop viterbi_row [0..<tg_words t] t;
     let s = tg_words t1 - 1 in do {
       (_, best) \<leftarrow> floop (best_end t1 s) [0..<tg_ysize t1] (-2147483648, None);
       t2 \<leftarrow> read_back best t1;
       if tg_result t2 s < 0 then None else do {
         nd \<leftarrow> get_node t2 s (nat (tg_result t2 s));
         c \<leftarrow> i32 (- nd_best nd);
         Some (0, t2\<lparr>tg_cost := c\<rparr>) } } })"

subsection \<open>Scores\<close>

text \<open>The weights of a tagger as numbers, and the score of the labels \<open>ys\<close> of the words from \<open>i\<close> on.\<close>

definition nc :: "crf_tag \<Rightarrow> nat \<Rightarrow> nat \<Rightarrow> int" where
  "nc t i j = nd_cost (tg_node t i j)"

definition pc :: "crf_tag \<Rightarrow> nat \<Rightarrow> nat \<Rightarrow> int" where
  "pc t y1 y2 = the (path_cost t y1 y2)"

fun score :: "crf_tag \<Rightarrow> nat \<Rightarrow> nat list \<Rightarrow> int" where
  "score t i [] = 0"
| "score t i [y] = nc t i y"
| "score t i (y # y' # ys) = nc t i y + pc t y y' + score t (i + 1) (y' # ys)"

text \<open>The labellings of \<open>n\<close> words.\<close>

definition labellings :: "crf_tag \<Rightarrow> nat \<Rightarrow> nat list set" where
  "labellings t n = {ys. length ys = n \<and> set ys \<subseteq> {..<tg_ysize t}}"

text \<open>
  A tagger whose weights are at most \<open>B\<close>, so small that no sum of the weights of a labelling
  overflows, and whose node indices fit an unsigned short.
\<close>

definition weights_ok :: "int \<Rightarrow> crf_tag \<Rightarrow> bool" where
  "weights_ok B t \<longleftrightarrow> tg_words t \<le> tg_max_words t \<and> tg_max_words t \<le> 65536 \<and> tg_ysize t \<le> 65536 \<and>
     (\<forall>i < tg_words t. \<forall>j < tg_ysize t. nd_x (tg_node t i j) = i \<and> nd_y (tg_node t i j) = j \<and> \<bar>nc t i j\<bar> \<le> B) \<and>
     (\<forall>y1 < tg_ysize t. \<forall>y2 < tg_ysize t. path_cost t y1 y2 \<noteq> None \<and> \<bar>pc t y1 y2\<bar> \<le> B) \<and>
     (2 * int (tg_words t) + 2) * B < 2147483648"

lemma score_snoc:
  "score t i (ys @ [y]) = (if ys = [] then nc t i y else score t i ys + pc t (last ys) y + nc t (i + length ys) y)"
  by (induction t i ys rule: score.induct) (auto simp: algebra_simps)

subsection \<open>Correctness\<close>

text \<open>\<open>t'\<close> is \<open>t\<close> with other best scores and pointers.\<close>

lemma get_node_result [simp]: "get_node (t\<lparr>tg_result := r\<rparr>) = get_node t"
  by (simp add: get_node_def fun_eq_iff)

definition same_weights :: "crf_tag \<Rightarrow> crf_tag \<Rightarrow> bool" where
  "same_weights t t' \<longleftrightarrow> (\<exists>f. t' = t\<lparr>tg_node := f\<rparr> \<and> (\<forall>i j. nd_x (f i j) = nd_x (tg_node t i j) \<and>
     nd_y (f i j) = nd_y (tg_node t i j) \<and> nd_cost (f i j) = nd_cost (tg_node t i j)))"

lemma same_weights_refl: "same_weights t t"
  unfolding same_weights_def by (rule exI [of _ "tg_node t"]) simp

lemma same_weights_trans: "same_weights t t' \<Longrightarrow> same_weights t' t'' \<Longrightarrow> same_weights t t''"
  by (auto simp: same_weights_def)

lemma same_weightsD:
  assumes "same_weights t t'"
  shows "tg_words t' = tg_words t" "tg_ysize t' = tg_ysize t" "tg_max_words t' = tg_max_words t" "nc t' i j = nc t i j"
    "path_cost t' = path_cost t" "pc t' = pc t" "nd_x (tg_node t' i j) = nd_x (tg_node t i j)"
    "nd_y (tg_node t' i j) = nd_y (tg_node t i j)"
  using assms by (auto simp: same_weights_def nc_def path_cost_def pc_def fun_eq_iff split: option.splits)

lemma same_weights_score: "same_weights t t' \<Longrightarrow> score t' i ys = score t i ys"
  by (induction t i ys rule: score.induct) (auto simp: same_weightsD)

lemma same_weights_ok: "same_weights t t' \<Longrightarrow> weights_ok B t' \<longleftrightarrow> weights_ok B t"
  by (simp add: weights_ok_def same_weightsD)

abbreviation bst :: "crf_tag \<Rightarrow> nat \<Rightarrow> nat \<Rightarrow> int" where
  "bst t i j \<equiv> nd_best (tg_node t i j)"

text \<open>The entry of the table for class \<open>j\<close> of word \<open>i\<close> is final.\<close>

definition cell_ok :: "int \<Rightarrow> crf_tag \<Rightarrow> nat \<Rightarrow> nat \<Rightarrow> bool" where
  "cell_ok B t i j \<longleftrightarrow> \<bar>bst t i j\<bar> \<le> (2 * int i + 1) * B \<and>
     (case i of 0 \<Rightarrow> nd_prev (tg_node t 0 j) = None \<and> bst t 0 j = nc t 0 j
      | Suc h \<Rightarrow> \<exists>k < tg_ysize t. nd_prev (tg_node t i j) = Some (h, k) \<and> bst t i j = bst t h k + pc t k j + nc t i j \<and>
          (\<forall>k' < tg_ysize t. bst t h k' + pc t k' j + nc t i j \<le> bst t i j))"

lemma weights_okD:
  assumes "weights_ok B t" "j < tg_ysize t"
  shows "i < tg_words t \<Longrightarrow> nd_x (tg_node t i j) = i \<and> nd_y (tg_node t i j) = j"
    "i < tg_words t \<Longrightarrow> - B \<le> nc t i j \<and> nc t i j \<le> B"
    "k < tg_ysize t \<Longrightarrow> path_cost t k j = Some (pc t k j) \<and> - B \<le> pc t k j \<and> pc t k j \<le> B"
    "i < tg_words t \<Longrightarrow> get_node t i j = Some (tg_node t i j)"
    "i < tg_words t \<Longrightarrow> (2 * int i + 4) * B < 2147483648" "i < tg_words t \<Longrightarrow> 0 \<le> B"
proof -
  show B: "0 \<le> B" if "i < tg_words t" for i
  proof -
    have "\<bar>nc t i j\<bar> \<le> B" using assms that by (auto simp: weights_ok_def)
    then show ?thesis by arith
  qed
  show "(2 * int i + 4) * B < 2147483648" if "i < tg_words t"
  proof -
    have "(2 * int i + 4) * B \<le> (2 * int (tg_words t) + 2) * B" using that B [OF that] by (intro mult_right_mono) auto
    then show ?thesis using assms(1) by (simp add: weights_ok_def)
  qed
  show "- B \<le> nc t i j \<and> nc t i j \<le> B" if "i < tg_words t"
  proof -
    have "\<bar>nc t i j\<bar> \<le> B" using assms that by (auto simp: weights_ok_def)
    then show ?thesis by arith
  qed
  show "path_cost t k j = Some (pc t k j) \<and> - B \<le> pc t k j \<and> pc t k j \<le> B" if "k < tg_ysize t"
  proof -
    have "path_cost t k j \<noteq> None" "\<bar>pc t k j\<bar> \<le> B" using assms that by (auto simp: weights_ok_def)
    then show ?thesis by (auto simp: pc_def)
  qed
qed (use assms in \<open>auto simp: weights_ok_def get_node_def\<close>)

lemma i32_small: "\<bar>x\<bar> < 2147483648 \<Longrightarrow> i32 x = Some x"
proof -
  assume "\<bar>x\<bar> < 2147483648"
  then have "-2147483648 \<le> x \<and> x < 2147483648" by arith
  then show ?thesis by (simp add: i32_def)
qed

lemma best_steps:
  assumes W: "weights_ok B t" and i: "Suc h < tg_words t" and j: "j < tg_ysize t"
    and R: "\<And>k. k < tg_ysize t \<Longrightarrow> \<bar>bst t h k\<bar> \<le> (2 * int h + 1) * B"
  defines "val \<equiv> \<lambda>k. bst t h k + pc t k j + nc t (Suc h) j"
  shows "\<exists>k < tg_ysize t. floop (best_step t (Suc h) j) [0..<tg_ysize t] (-2147483648, None) = Some (val k, Some (h, k)) \<and>
    (\<forall>k' < tg_ysize t. val k' \<le> val k)" "k < tg_ysize t \<Longrightarrow> \<bar>val k\<bar> \<le> (2 * int (Suc h) + 1) * B"
proof -
  have b: "(2 * int h + 4) * B < 2147483648" "0 \<le> B" using weights_okD(5,6) [OF W j] i by auto
  have bound: "\<bar>bst t h k + pc t k j\<bar> \<le> (2 * int h + 2) * B \<and> \<bar>val k\<bar> \<le> (2 * int (Suc h) + 1) * B" if "k < tg_ysize t" for k
    using R [OF that] weights_okD(3) [OF W j that] weights_okD(2) [OF W j i] unfolding val_def
    by (simp add: algebra_simps abs_le_iff)
  then show "k < tg_ysize t \<Longrightarrow> \<bar>val k\<bar> \<le> (2 * int (Suc h) + 1) * B" by blast
  have small: "\<bar>bst t h k + pc t k j\<bar> < 2147483648 \<and> \<bar>val k\<bar> < 2147483648" if "k < tg_ysize t" for k
    using bound [OF that] b by (auto simp: algebra_simps)
  define P where "P = (\<lambda>k (s :: int \<times> (nat \<times> nat) option). if k = 0 then s = (-2147483648, None)
    else \<exists>k' < k. s = (val k', Some (h, k')) \<and> (\<forall>k'' < k. val k'' \<le> val k'))"
  have "\<exists>s'. best_step t (Suc h) j k s = Some s' \<and> P (Suc k) s'" if k: "k < tg_ysize t" and P: "P k s" for k s
  proof -
    have ev: "best_step t (Suc h) j k s = Some (if val k > fst s then (val k, Some (h, k)) else s)"
      using weights_okD(3,4) [OF W k] weights_okD(3,4) [OF W j] i k small [OF k] i32_small
      by (cases s) (simp add: best_step_def val_def nc_def)
    have low: "-2147483648 < val k" using small [OF k] by (simp add: abs_less_iff)
    show ?thesis
    proof (cases "val k > fst s")
      case True
      then have "\<forall>k'' < Suc k. val k'' \<le> val k" using P by (auto simp: P_def less_Suc_eq split: if_splits)
      then show ?thesis using ev True by (auto simp: P_def)
    next
      case False
      then have "k \<noteq> 0" using P low by (cases "k = 0") (simp_all add: P_def)
      then show ?thesis using ev False P by (auto simp: P_def less_Suc_eq)
    qed
  qed
  then obtain s where "floop (best_step t (Suc h) j) [0..<tg_ysize t] (-2147483648, None) = Some s" "P (tg_ysize t) s"
    using floop_upt [where P = P and f = "best_step t (Suc h) j" and n = "tg_ysize t" and s = "(-2147483648, None)"]
    by (auto simp: P_def)
  then show "\<exists>k < tg_ysize t. floop (best_step t (Suc h) j) [0..<tg_ysize t] (-2147483648, None) = Some (val k, Some (h, k)) \<and>
    (\<forall>k' < tg_ysize t. val k' \<le> val k)" using j by (auto simp: P_def split: if_splits)
qed

lemma viterbi_cell_ok:
  assumes W: "weights_ok B t" and i: "i < tg_words t" and j: "j < tg_ysize t"
    and R: "\<And>h k. i = Suc h \<Longrightarrow> k < tg_ysize t \<Longrightarrow> cell_ok B t h k"
  shows "\<exists>t'. viterbi_cell i j t = Some t' \<and> same_weights t t' \<and> cell_ok B t' i j \<and>
    (\<forall>a b. (a, b) \<noteq> (i, j) \<longrightarrow> tg_node t' a b = tg_node t a b)"
proof -
  define set where "set = (\<lambda>best bestc. t\<lparr>tg_node := (tg_node t)(i := (tg_node t i)
    (j := (tg_node t i j)\<lparr>nd_prev := best, nd_best := (if best \<noteq> None then bestc else nd_cost (tg_node t i j))\<rparr>))\<rparr>)"
  have b: "i < tg_max_words t" using W i by (simp add: weights_ok_def)
  have sw: "same_weights t (set best bestc)" for best bestc
    unfolding same_weights_def set_def by (rule exI, rule conjI, rule refl) auto
  have rest: "(a, b) \<noteq> (i, j) \<Longrightarrow> tg_node (set best bestc) a b = tg_node t a b" for a b best bestc
    by (auto simp: set_def)
  show ?thesis
  proof (cases i)
    case 0
    have "cell_ok B (set None (-2147483648)) 0 j"
      using 0 i weights_okD(2) [OF W j, of 0] by (simp add: cell_ok_def set_def nc_def abs_le_iff)
    moreover have "viterbi_cell i j t = Some (set None (-2147483648))"
      using 0 b j by (simp add: viterbi_cell_def upd_node_def set_def)
    ultimately show ?thesis using sw rest 0 by blast
  next
    case (Suc h)
    let ?val = "\<lambda>k. bst t h k + pc t k j + nc t (Suc h) j"
    have bd: "\<bar>bst t h k\<bar> \<le> (2 * int h + 1) * B" if "k < tg_ysize t" for k
      using R [OF Suc that] by (simp add: cell_ok_def)
    obtain k where k: "k < tg_ysize t" "floop (best_step t (Suc h) j) [0..<tg_ysize t] (-2147483648, None) = Some (?val k, Some (h, k))"
      "\<forall>k' < tg_ysize t. ?val k' \<le> ?val k"
      using best_steps(1) [OF W _ j bd] i Suc by blast
    let ?t = "set (Some (h, k)) (?val k)"
    have "viterbi_cell i j t = Some ?t" using Suc b j k(2) by (simp add: viterbi_cell_def upd_node_def set_def)
    moreover have "cell_ok B ?t i j"
    proof -
      have old: "bst ?t h k' = bst t h k'" for k' using rest [of h k'] Suc by simp
      have new: "tg_node ?t i j = (tg_node t i j)\<lparr>nd_prev := Some (h, k), nd_best := ?val k\<rparr>" by (simp add: set_def)
      have "\<bar>?val k\<bar> \<le> (2 * int (Suc h) + 1) * B" using best_steps(2) [OF W _ j bd k(1)] i Suc by simp
      then show ?thesis unfolding cell_ok_def using k(1,3) old new Suc same_weightsD [OF sw] by (simp add: Suc)
    qed
    ultimately show ?thesis using sw rest by blast
  qed
qed

lemma cell_ok_same:
  assumes "same_weights t t'" "\<And>a b. a < i \<or> a = i \<and> b = j \<Longrightarrow> tg_node t' a b = tg_node t a b" "cell_ok B t i j"
  shows "cell_ok B t' i j"
proof -
  have "tg_node t' i j = tg_node t i j" "\<And>h b. i = Suc h \<Longrightarrow> tg_node t' h b = tg_node t h b"
    using assms(2) by simp_all
  then have "cell_ok B t' i j \<longleftrightarrow> cell_ok B t i j" by (cases i) (simp_all add: cell_ok_def same_weightsD [OF assms(1)])
  then show ?thesis using assms(3) by simp
qed

text \<open>The whole table.\<close>

definition rows_ok :: "int \<Rightarrow> crf_tag \<Rightarrow> nat \<Rightarrow> bool" where
  "rows_ok B t n \<longleftrightarrow> (\<forall>i < n. \<forall>j < tg_ysize t. cell_ok B t i j)"

lemma viterbi_row_ok:
  assumes W: "weights_ok B t" and i: "i < tg_words t" and R: "rows_ok B t i"
  shows "\<exists>t'. viterbi_row i t = Some t' \<and> same_weights t t' \<and> rows_ok B t' (Suc i)"
proof -
  let ?P = "\<lambda>j t'. same_weights t t' \<and> rows_ok B t' i \<and> (\<forall>b < j. cell_ok B t' i b)"
  have "\<exists>t2. viterbi_cell i j t1 = Some t2 \<and> ?P (Suc j) t2" if j: "j < tg_ysize t" and P: "?P j t1" for j t1
  proof -
    note S = same_weightsD [OF conjunct1 [OF P]]
    have W1: "weights_ok B t1" using W P same_weights_ok by blast
    obtain t2 where t2: "viterbi_cell i j t1 = Some t2" "same_weights t1 t2" "cell_ok B t2 i j"
      "\<And>a b. (a, b) \<noteq> (i, j) \<Longrightarrow> tg_node t2 a b = tg_node t1 a b"
      using viterbi_cell_ok [OF W1, of i j] i j P S by (auto simp: rows_ok_def)
    have "cell_ok B t2 a b" if "a < i \<or> a = i \<and> b < j" "b < tg_ysize t" for a b
      by (rule cell_ok_same [OF t2(2)]) (use that P S t2(4) in \<open>auto simp: rows_ok_def\<close>)
    then have "rows_ok B t2 i" "\<forall>b < Suc j. cell_ok B t2 i b"
      using t2(3) j S(2) same_weightsD(2) [OF t2(2)] by (auto simp: rows_ok_def less_Suc_eq)
    then show ?thesis using t2(1,2) P same_weights_trans by blast
  qed
  then obtain t' where "floop (viterbi_cell i) [0..<tg_ysize t] t = Some t'" "?P (tg_ysize t) t'"
    using floop_upt [where P = ?P and f = "viterbi_cell i" and n = "tg_ysize t" and s = t] R same_weights_refl by auto
  then show ?thesis
    by (auto simp: viterbi_row_def rows_ok_def less_Suc_eq same_weightsD)
qed

lemma viterbi_rows_ok:
  assumes W: "weights_ok B t"
  shows "\<exists>t'. floop viterbi_row [0..<tg_words t] t = Some t' \<and> same_weights t t' \<and> rows_ok B t' (tg_words t)"
proof -
  let ?P = "\<lambda>i t'. same_weights t t' \<and> rows_ok B t' i"
  have "\<exists>t2. viterbi_row i t1 = Some t2 \<and> ?P (Suc i) t2" if "i < tg_words t" "?P i t1" for i t1
    using viterbi_row_ok [of B t1 i] that W same_weights_ok same_weights_trans same_weightsD(1) by metis
  then show ?thesis
    using floop_upt [where P = ?P and f = viterbi_row and n = "tg_words t" and s = t] same_weights_refl
    by (auto simp: rows_ok_def)
qed

text \<open>An entry is the best score of the labellings that end there.\<close>

lemma best_upper:
  assumes "rows_ok B t n"
  shows "i < n \<Longrightarrow> ys \<in> labellings t (Suc i) \<Longrightarrow> score t 0 ys \<le> bst t i (last ys)"
proof (induction i arbitrary: ys)
  case 0
  then obtain y where y: "ys = [y]" "y < tg_ysize t" by (auto simp: labellings_def length_Suc_conv)
  then have "cell_ok B t 0 y" using assms 0 by (simp add: rows_ok_def)
  then show ?case using y by (simp add: cell_ok_def)
next
  case (Suc h)
  then obtain zs y where ys: "ys = zs @ [y]" "zs \<in> labellings t (Suc h)" "y < tg_ysize t"
    by (cases ys rule: rev_cases) (auto simp: labellings_def)
  then have z: "zs \<noteq> []" "length zs = Suc h" "set zs \<subseteq> {..<tg_ysize t}"
    by (auto simp: labellings_def)
  then have z3: "last zs < tg_ysize t" using last_in_set by blast
  have "cell_ok B t (Suc h) y" using assms Suc.prems(1) ys(3) by (simp add: rows_ok_def)
  then have "bst t h (last zs) + pc t (last zs) y + nc t (Suc h) y \<le> bst t (Suc h) y"
    using z3 by (auto simp: cell_ok_def)
  then show ?case using Suc.IH [OF _ ys(2)] Suc.prems(1) ys(1) z by (simp add: score_snoc)
qed

text \<open>The labels along the pointers back from class \<open>j\<close> of word \<open>i\<close>.\<close>

primrec back_labels :: "crf_tag \<Rightarrow> nat \<Rightarrow> nat \<Rightarrow> nat list" where
  "back_labels t 0 j = [j]"
| "back_labels t (Suc h) j = back_labels t h (snd (the (nd_prev (tg_node t (Suc h) j)))) @ [j]"

lemma back_labels_ok:
  assumes "rows_ok B t n"
  shows "i < n \<Longrightarrow> j < tg_ysize t \<Longrightarrow> back_labels t i j \<in> labellings t (Suc i) \<and> last (back_labels t i j) = j \<and>
    score t 0 (back_labels t i j) = bst t i j"
proof (induction i arbitrary: j)
  case 0
  then have "cell_ok B t 0 j" using assms by (simp add: rows_ok_def)
  then show ?case using 0 by (simp add: cell_ok_def labellings_def)
next
  case (Suc h)
  then have "cell_ok B t (Suc h) j" using assms by (simp add: rows_ok_def)
  then obtain k where k: "k < tg_ysize t" "nd_prev (tg_node t (Suc h) j) = Some (h, k)"
    "bst t (Suc h) j = bst t h k + pc t k j + nc t (Suc h) j"
    by (auto simp: cell_ok_def)
  have "back_labels t h k \<in> labellings t (Suc h)" "last (back_labels t h k) = k"
    "score t 0 (back_labels t h k) = bst t h k"
    using Suc.IH [OF _ k(1)] Suc.prems(1) by auto
  moreover have "back_labels t h k \<noteq> []" by (cases h) simp_all
  ultimately show ?case using k Suc.prems(2) by (simp add: labellings_def score_snoc)
qed

lemma read_back_ok:
  assumes W: "weights_ok B t" and R: "rows_ok B t (tg_words t)"
  shows "i < tg_words t \<Longrightarrow> j < tg_ysize t \<Longrightarrow> read_back (Some (i, j)) (t\<lparr>tg_result := r\<rparr>) =
    Some (t\<lparr>tg_result := (\<lambda>k. if k \<le> i then int (back_labels t i j ! k) else r k)\<rparr>)"
proof (induction i arbitrary: j r)
  case 0
  have g: "get_node (t\<lparr>tg_result := r\<rparr>) 0 j = Some (tg_node t 0 j)" "nd_x (tg_node t 0 j) = 0" "nd_y (tg_node t 0 j) = j"
    using weights_okD(1,4) [OF W 0(2)] 0(1) by simp_all
  have "nd_prev (tg_node t 0 j) = None" using R 0 by (auto simp: rows_ok_def cell_ok_def)
  moreover have "0 < tg_max_words t" using W 0 by (simp add: weights_ok_def)
  moreover have "r(0 := int j) = (\<lambda>k. if k \<le> 0 then int (back_labels t 0 j ! k) else r k)" by (auto simp: fun_eq_iff)
  ultimately show ?case
    using g by (subst read_back.simps) (simp add: set_result_def read_back.simps)
next
  case (Suc h)
  have "cell_ok B t (Suc h) j" using R Suc.prems by (simp add: rows_ok_def)
  then obtain k where k: "k < tg_ysize t" "nd_prev (tg_node t (Suc h) j) = Some (h, k)" by (auto simp: cell_ok_def)
  have g: "get_node (t\<lparr>tg_result := r\<rparr>) (Suc h) j = Some (tg_node t (Suc h) j)" "nd_x (tg_node t (Suc h) j) = Suc h"
    "nd_y (tg_node t (Suc h) j) = j"
    using weights_okD(1,4) [OF W Suc.prems(2)] Suc.prems(1) by simp_all
  have m: "Suc h < tg_max_words t" using W Suc.prems(1) by (simp add: weights_ok_def)
  have len: "length (back_labels t h k) = Suc h"
    using back_labels_ok [OF R, of h k] Suc.prems(1) k(1) by (simp add: labellings_def)
  have "(\<lambda>l. if l \<le> h then int (back_labels t h k ! l) else (r(Suc h := int j)) l) =
      (\<lambda>l. if l \<le> Suc h then int (back_labels t (Suc h) j ! l) else r l)"
    using len k(2) by (auto simp: fun_eq_iff nth_append le_Suc_eq)
  moreover have "read_back (Some (h, k)) (t\<lparr>tg_result := r(Suc h := int j)\<rparr>) =
      Some (t\<lparr>tg_result := (\<lambda>l. if l \<le> h then int (back_labels t h k ! l) else (r(Suc h := int j)) l)\<rparr>)"
    by (rule Suc.IH) (use Suc.prems(1) k(1) in simp_all)
  ultimately show ?case using g m k(2) by (subst read_back.simps) (simp add: set_result_def)
qed

lemma best_end_ok:
  assumes "\<And>j. j < tg_ysize t \<Longrightarrow> get_node t s j = Some (tg_node t s j) \<and> -2147483648 < bst t s j" "0 < tg_ysize t"
  shows "\<exists>j < tg_ysize t. floop (best_end t s) [0..<tg_ysize t] (-2147483648, None) = Some (bst t s j, Some (s, j)) \<and>
    (\<forall>j' < tg_ysize t. bst t s j' \<le> bst t s j)"
proof -
  define P where "P = (\<lambda>j (c :: int \<times> (nat \<times> nat) option). if j = 0 then c = (-2147483648, None)
    else \<exists>b < j. c = (bst t s b, Some (s, b)) \<and> (\<forall>b' < j. bst t s b' \<le> bst t s b))"
  have "\<exists>c'. best_end t s j c = Some c' \<and> P (Suc j) c'" if j: "j < tg_ysize t" and P: "P j c" for j c
  proof -
    have ev: "best_end t s j c = Some (if fst c < bst t s j then (bst t s j, Some (s, j)) else c)"
      using assms(1) [OF j] by (cases c) (simp add: best_end_def)
    show ?thesis
    proof (cases "fst c < bst t s j")
      case True
      then have "\<forall>b' < Suc j. bst t s b' \<le> bst t s j" using P by (auto simp: P_def less_Suc_eq split: if_splits)
      then show ?thesis using ev True by (auto simp: P_def)
    next
      case False
      then have "j \<noteq> 0" using P assms(1) [OF j] by (cases "j = 0") (simp_all add: P_def)
      then show ?thesis using ev False P by (auto simp: P_def less_Suc_eq)
    qed
  qed
  then obtain c where "floop (best_end t s) [0..<tg_ysize t] (-2147483648, None) = Some c" "P (tg_ysize t) c"
    using floop_upt [where P = P and f = "best_end t s" and n = "tg_ysize t" and s = "(-2147483648, None)"]
    by (auto simp: P_def)
  then show ?thesis using assms(2) by (auto simp: P_def split: if_splits)
qed

text \<open>The labels a tagger holds.\<close>

definition labels_of :: "crf_tag \<Rightarrow> nat list" where
  "labels_of t = map (\<lambda>i. nat (tg_result t i)) [0..<tg_words t]"

lemma viterbi_ok:
  assumes W: "weights_ok B t" and n: "0 < tg_words t" and y: "0 < tg_ysize t"
  shows "\<exists>t1 t'. viterbi t = Some (0, t') \<and> same_weights t t1 \<and> rows_ok B t1 (tg_words t) \<and>
    (\<exists>r. t' = t1\<lparr>tg_result := r, tg_cost := - score t 0 (labels_of t')\<rparr>) \<and> labels_of t' \<in> labellings t (tg_words t) \<and>
    (\<forall>ys \<in> labellings t (tg_words t). score t 0 ys \<le> score t 0 (labels_of t')) \<and> (\<forall>i < tg_words t. 0 \<le> tg_result t' i)"
proof -
  obtain t1 where t1: "floop viterbi_row [0..<tg_words t] t = Some t1" "same_weights t t1" "rows_ok B t1 (tg_words t)"
    using viterbi_rows_ok [OF W] by blast
  note S = same_weightsD [OF t1(2)]
  have W1: "weights_ok B t1" using W t1(2) same_weights_ok by blast
  let ?s = "tg_words t - 1"
  have s: "?s < tg_words t1" "Suc ?s = tg_words t" using n S(1) by simp_all
  have bnd: "\<bar>bst t1 ?s j\<bar> < 2147483648" if j: "j < tg_ysize t1" for j
  proof -
    have "cell_ok B t1 ?s j" using t1(3) s j S(1) by (simp add: rows_ok_def)
    then have "\<bar>bst t1 ?s j\<bar> \<le> (2 * int ?s + 1) * B" unfolding cell_ok_def by blast
    moreover have "(2 * int ?s + 1) * B \<le> (2 * int ?s + 4) * B"
      using weights_okD(6) [OF W1 j s(1)] by (intro mult_right_mono) simp_all
    ultimately show ?thesis using weights_okD(5) [OF W1 j s(1)] by linarith
  qed
  have "get_node t1 ?s j = Some (tg_node t1 ?s j) \<and> -2147483648 < bst t1 ?s j" if "j < tg_ysize t1" for j
    using weights_okD(4) [OF W1 that s(1)] bnd [OF that] by (simp add: abs_less_iff)
  then obtain j where j: "j < tg_ysize t1" "floop (best_end t1 ?s) [0..<tg_ysize t1] (-2147483648, None) = Some (bst t1 ?s j, Some (?s, j))"
    "\<forall>j' < tg_ysize t1. bst t1 ?s j' \<le> bst t1 ?s j"
    using best_end_ok [of t1 ?s] y S(2) by auto
  let ?b = "back_labels t1 ?s j"
  let ?r = "\<lambda>k. if k \<le> ?s then int (?b ! k) else tg_result t1 k"
  have R: "rows_ok B t1 (tg_words t1)" using t1(3) S(1) by simp
  have B: "?b \<in> labellings t1 (Suc ?s)" "last ?b = j" "score t1 0 ?b = bst t1 ?s j"
    using back_labels_ok [OF R s(1) j(1)] by auto
  have len: "length ?b = tg_words t" using B(1) s(2) by (simp add: labellings_def)
  then have "?b \<noteq> []" using n by (metis list.size(3) less_irrefl)
  then have "?b ! ?s = j" using B(2) len last_conv_nth [of ?b] by simp
  then have e: "?r ?s = int j" by simp
  have "t1\<lparr>tg_result := tg_result t1\<rparr> = t1" by simp
  then have rb: "read_back (Some (?s, j)) t1 = Some (t1\<lparr>tg_result := ?r\<rparr>)"
    using read_back_ok [OF W1 R s(1) j(1), of "tg_result t1"] by simp
  let ?t = "t1\<lparr>tg_result := ?r, tg_cost := - bst t1 ?s j\<rparr>"
  have gn: "get_node (t1\<lparr>tg_result := ?r\<rparr>) ?s j = Some (tg_node t1 ?s j)"
    using weights_okD(4) [OF W1 j(1) s(1)] by simp
  have "viterbi t = Some (0, ?t)"
    using n t1(1) S(1) j(2) rb e gn i32_small [of "- bst t1 ?s j"] bnd [OF j(1)]
    by (simp add: viterbi_def Let_def)
  moreover have lab: "labels_of ?t = ?b"
    by (rule nth_equalityI) (use len S(1) in \<open>auto simp: labels_of_def\<close>)
  moreover have sc: "score t 0 ?b = bst t1 ?s j" using B(3) same_weights_score [OF t1(2)] by simp
  moreover have "score t 0 ys \<le> score t 0 ?b" if "ys \<in> labellings t (tg_words t)" for ys
  proof -
    have ys: "ys \<in> labellings t1 (Suc ?s)" using that S(2) s(2) by (simp add: labellings_def)
    moreover have "last ys < tg_ysize t1" using ys by (cases ys rule: rev_cases) (auto simp: labellings_def)
    ultimately show ?thesis
      using best_upper [OF R s(1)] j(3) sc same_weights_score [OF t1(2)] by (metis order_trans)
  qed
  moreover have "?b \<in> labellings t (tg_words t)" using B(1) S(2) s(2) by (simp add: labellings_def)
  moreover have "\<forall>i < tg_words t. 0 \<le> tg_result ?t i" using s(2) by (simp add: less_Suc_eq_le [symmetric])
  ultimately show ?thesis using t1(2,3) by (intro exI [of _ t1] exI [of _ ?t]) auto
qed

text \<open>A tagger with two words and two classes.\<close>

definition sample_model :: crf_model where
  "sample_model = \<lparr>cm_array = [], cm_alpha = [5, -3, 0, 2], cm_bpos = 0, cm_dan = [], cm_zu = [], cm_ysize = 2, cm_ynames = [''B'', ''E_x''],
     cm_version = 100, cm_templs = 0, cm_scale = (\<lambda>c. c), cm_ready = True\<rparr>"

definition sample_tag :: crf_tag where
  "sample_tag = (snd (init_by_model 100 (Some sample_model) (crf_tag_new 4 3 10)))\<lparr>tg_words := 2,
     tg_node := (\<lambda>i j. \<lparr>nd_x = i, nd_y = j, nd_cost = (if i = 0 \<and> j = 1 then 7 else int j), nd_best = 0, nd_prev = None\<rparr>)\<rparr>"

lemma sample_fields:
  "tg_words sample_tag = 2" "tg_ysize sample_tag = 2" "tg_max_words sample_tag = 3" "tg_model sample_tag = Some sample_model"
  "tg_ready sample_tag" "tg_max_nbest sample_tag = 4" "cm_alpha sample_model = [5, -3, 0, 2]" "cm_bpos sample_model = 0"
  "tg_node sample_tag = (\<lambda>i j. \<lparr>nd_x = i, nd_y = j, nd_cost = (if i = 0 \<and> j = 1 then 7 else int j), nd_best = 0, nd_prev = None\<rparr>)"
  by (simp_all add: sample_tag_def init_by_model_def crf_tag_new_def sample_model_def heap_init_def)

lemma sample_weights: "weights_ok 7 sample_tag"
  by (simp add: weights_ok_def sample_fields less_2_cases_iff nc_def pc_def path_cost_def rd_def nat_add_distrib
    numeral_2_eq_2 less_Suc_eq all_conj_distrib)

text \<open>
  C32 \<open>viterbi\<close> is right: when no sum of weights can overflow, it succeeds, every word has one of the
  classes as its label, no labelling has a greater score than the labels it stores, and the cost it
  reports is the negated score.
\<close>

theorem viterbi_optimal:
  assumes "weights_ok B t" "0 < tg_words t" "0 < tg_ysize t"
  shows "\<exists>t'. viterbi t = Some (0, t') \<and> labels_of t' \<in> labellings t (tg_words t) \<and>
    tg_cost t' = - score t 0 (labels_of t') \<and> (\<forall>ys \<in> labellings t (tg_words t). score t 0 ys \<le> score t 0 (labels_of t'))"
proof -
  obtain t1 t' r where v: "viterbi t = Some (0, t')" "t' = t1\<lparr>tg_result := r, tg_cost := - score t 0 (labels_of t')\<rparr>"
    "labels_of t' \<in> labellings t (tg_words t)" "\<forall>ys \<in> labellings t (tg_words t). score t 0 ys \<le> score t 0 (labels_of t')"
    using viterbi_ok [OF assms] by blast
  have "tg_cost t' = - score t 0 (labels_of t')" by (subst v(2)) simp
  then show ?thesis using v by blast
qed

theorem viterbi_optimal_witness:
  "\<exists>t'. viterbi sample_tag = Some (0, t') \<and> (\<forall>ys \<in> labellings sample_tag 2. score sample_tag 0 ys \<le> - tg_cost t')"
  using viterbi_optimal [OF sample_weights] by (auto simp: sample_fields)

end
