(* ===== verification/CrfNbest.thy ===== *)
theory CrfNbest
  imports CrfViterbi "HOL-Library.Sublist"
begin

text \<open>
  The best labellings one after the other, \<open>CrfTag::initNbest\<close>, \<open>next\<close> and \<open>parse\<close> of
  \<open>src/libsrc/libcrf_2-1-2-0_PD_BL/tag.cpp\<close>: a search from the last word to the first over a priority
  queue of ends of labellings, with the table of \<open>viterbi\<close> as the exact cost of what is missing. Each
  call returns the best labelling that was not returned before.
\<close>

subsection \<open>The program\<close>

text \<open>Taking an element from the pool, filling it and inserting it.\<close>

definition push_elem :: "nat \<times> nat \<Rightarrow> nat option \<Rightarrow> int \<Rightarrow> int \<Rightarrow> crf_heap \<Rightarrow> int \<times> crf_heap" where
  "push_elem node nxt fx gx H = (case allc_from_heap H of None \<Rightarrow> (-1, H)
     | Some (e, H1) \<Rightarrow>
         heap_insert e (H1\<lparr>h_elems := (h_elems H1)(e := \<lparr>qe_node = node, qe_next = nxt, qe_fx = fx, qe_gx = gx\<rparr>)\<rparr>))"

definition init_one :: "crf_tag \<Rightarrow> nat \<Rightarrow> nat \<Rightarrow> int \<times> crf_heap \<Rightarrow> (int \<times> crf_heap) option" where
  "init_one t k i s = (case s of (r, H) \<Rightarrow>
     if r < 0 then Some (r, H) else do {
       nd \<leftarrow> get_node t k i;
       fx \<leftarrow> i32 (- nd_best nd);
       gx \<leftarrow> i32 (- nd_cost nd);
       Some (push_elem (k, i) None fx gx H) })"

definition init_nbest :: "crf_tag \<Rightarrow> (int \<times> crf_tag) option" where
  "init_nbest t = (case tg_heap t of None \<Rightarrow> None | Some H \<Rightarrow> do {
     (r, H1) \<leftarrow> floop (init_one t (tg_words t - 1)) [0..<tg_ysize t] (0, H);
     Some (if r < 0 then -1 else 0, t\<lparr>tg_heap := Some H1\<rparr>) })"

definition expand_one :: "crf_tag \<Rightarrow> nat \<Rightarrow> nat \<Rightarrow> nat \<Rightarrow> nat \<Rightarrow> int \<times> crf_heap \<Rightarrow> (int \<times> crf_heap) option" where
  "expand_one t x_num y tp i s = (case s of (r, H) \<Rightarrow>
     if r < 0 then Some (r, H) else do {
       nd \<leftarrow> get_node t x_num i;
       p \<leftarrow> path_cost t i y;
       c \<leftarrow> i32 (- nd_cost nd);
       c1 \<leftarrow> i32 (c - p);
       gx \<leftarrow> i32 (c1 + qe_gx (h_elems H tp));
       b \<leftarrow> i32 (- nd_best nd);
       b1 \<leftarrow> i32 (b - p);
       fx \<leftarrow> i32 (b1 + qe_gx (h_elems H tp));
       Some (push_elem (x_num, i) (Some tp) fx gx H) })"

partial_function (option) write_chain :: "nat option \<Rightarrow> crf_heap \<Rightarrow> crf_tag \<Rightarrow> crf_tag option" where
  "write_chain n H t = (case n of None \<Rightarrow> Some t
     | Some e \<Rightarrow> do {
         nd \<leftarrow> get_node t (fst (qe_node (h_elems H e))) (snd (qe_node (h_elems H e)));
         t1 \<leftarrow> set_result (nd_x nd) (int (nd_y nd)) t;
         write_chain (qe_next (h_elems H e)) H t1 })"

declare write_chain.simps [code]

partial_function (option) next_loop :: "crf_tag \<Rightarrow> (int \<times> crf_tag) option" where
  "next_loop t = (case tg_heap t of None \<Rightarrow> None | Some H \<Rightarrow>
     if is_heap_empty H then Some (0, t) else do {
       (tp, H1) \<leftarrow> heap_delete_min H;
       rnode \<leftarrow> get_node t (fst (qe_node (h_elems H1 tp))) (snd (qe_node (h_elems H1 tp)));
       if nd_x rnode = 0 then do {
         t1 \<leftarrow> write_chain (Some tp) H1 t;
         Some (0, t1\<lparr>tg_cost := qe_gx (h_elems H1 tp), tg_next_time := tg_next_time t + 1, tg_heap := Some H1\<rparr>) }
       else do {
         (r, H2) \<leftarrow> floop (expand_one t (nd_x rnode - 1) (nd_y rnode) tp) [0..<tg_ysize t] (0, H1);
         if r < 0 then Some (-1, t\<lparr>tg_heap := Some H2\<rparr>) else next_loop (t\<lparr>tg_heap := Some H2\<rparr>) } })"

declare next_loop.simps [code]

definition tag_next :: "crf_tag \<Rightarrow> (int \<times> crf_tag) option" where
  "tag_next t = (if \<not> tg_ready t then Some (-1, t) else if tg_max_nbest t = 1 then Some (-1, t) else next_loop t)"

text \<open>\<open>parse\<close>; the probabilities that it computes in floating point change none of these fields.\<close>

definition tag_parse :: "crf_tag \<Rightarrow> (int \<times> crf_tag) option" where
  "tag_parse t =
     (if \<not> tg_ready t then Some (-1, t)
      else if tg_words t = 0 then Some (0, t)
      else do {
        (r, t1) \<leftarrow> build_features t;
        if r < 0 then Some (-1, t1) else do {
          (r1, t2) \<leftarrow> viterbi t1;
          if tg_max_nbest t2 > 1 \<and> tg_nbest t2 > 1 then init_nbest t2 else Some (0, t2) } })"

subsection \<open>The pool and the queue\<close>

definition pool_ok :: "crf_heap \<Rightarrow> bool" where
  "pool_ok H \<longleftrightarrow> heap_ok H \<and> h_size H \<le> h_elem_size H \<and> (\<forall>e \<in># bag H. e \<le> h_elem_size H)"

lemma bag_mem: "1 \<le> j \<Longrightarrow> j \<le> h_size H \<Longrightarrow> h_ptrs H j \<in># bag H"
  by (simp add: bag_def filled_def)

text \<open>Writing a fresh element leaves the order as it is.\<close>

lemma fresh_elem_ok:
  assumes "pool_ok H"
  shows "heap_ok (H\<lparr>h_elem_size := h_elem_size H + 1, h_elems := (h_elems H)(h_elem_size H + 1 := q)\<rparr>)"
    (is "heap_ok ?H")
proof -
  have old: "key_of ?H (h_ptrs H j) = key_of H (h_ptrs H j)" if "1 \<le> j" "j \<le> h_size H" for j
    using assms bag_mem [OF that] by (force simp: pool_ok_def key_of_def)
  show ?thesis
    unfolding heap_ok_def ordered_def
  proof (intro allI impI)
    fix j assume j: "1 < j" "j \<le> h_size ?H"
    then have "1 \<le> j div 2" "j div 2 \<le> h_size H" by auto
    then show "key_of ?H (h_ptrs ?H (j div 2)) \<le> key_of ?H (h_ptrs ?H j)"
      using old [of j] old [of "j div 2"] j assms by (simp add: pool_ok_def heap_ok_def ordered_def)
  qed
qed

lemma push_elem_ok:
  assumes P: "pool_ok H"
  shows "if h_capacity H \<le> h_elem_size H then push_elem node nxt fx gx H = (-1, H)
    else \<exists>H'. push_elem node nxt fx gx H = (0, H') \<and> pool_ok H' \<and> bag H' = add_mset (h_elem_size H + 1) (bag H) \<and>
      h_elem_size H' = h_elem_size H + 1 \<and> h_capacity H' = h_capacity H \<and>
      h_elems H' = (h_elems H)(h_elem_size H + 1 := \<lparr>qe_node = node, qe_next = nxt, qe_fx = fx, qe_gx = gx\<rparr>)"
proof (cases "h_capacity H \<le> h_elem_size H")
  case False
  let ?e = "h_elem_size H + 1"
  let ?H = "H\<lparr>h_elem_size := ?e, h_elems := (h_elems H)(?e := \<lparr>qe_node = node, qe_next = nxt, qe_fx = fx, qe_gx = gx\<rparr>)\<rparr>"
  have "heap_ok ?H" by (rule fresh_elem_ok [OF P])
  moreover have "h_size ?H < h_capacity ?H" using P False by (simp add: pool_ok_def)
  ultimately obtain H' where H': "heap_insert ?e ?H = (0, H')" "heap_ok H'" "pool_of H' = pool_of ?H"
    "bag H' = add_mset ?e (bag ?H)"
    using crf_queue.ins_law by blast
  then have "bag H' = add_mset ?e (bag H)" by (simp add: bag_def)
  moreover from this have "pool_ok H'"
    using H'(2,3) P bag_size [of H'] bag_size [of H] by (auto simp: pool_ok_def pool_of_def)
  ultimately show ?thesis using False H' by (simp add: push_elem_def allc_from_heap_def pool_of_def)
qed (simp add: push_elem_def allc_from_heap_def)

lemma pop_ok:
  assumes P: "pool_ok H" and n: "\<not> is_heap_empty H"
  shows "\<exists>e H'. heap_delete_min H = Some (e, H') \<and> pool_ok H' \<and> bag H = add_mset e (bag H') \<and> pool_of H' = pool_of H \<and>
    (\<forall>e' \<in># bag H. qe_fx (h_elems H e) \<le> qe_fx (h_elems H e'))"
proof -
  have "bag H \<noteq> {#}" using n bag_size [of H] by (auto simp: is_heap_empty_def)
  then obtain e H' where d: "heap_delete_min H = Some (e, H')" "heap_ok H'" "pool_of H' = pool_of H"
    "bag H = add_mset e (bag H')" "\<forall>e' \<in># bag H. pool_key (pool_of H) e \<le> pool_key (pool_of H) e'"
    using crf_queue.del_law [of H] P by (auto simp: pool_ok_def)
  then have "pool_ok H'" using P bag_size [of H'] bag_size [of H] by (auto simp: pool_ok_def pool_of_def)
  then show ?thesis using d by (auto simp: pool_of_def pool_key_def)
qed

subsection \<open>What an element stands for\<close>

text \<open>The element \<open>e\<close> of the pool \<open>E\<close> stands for the labels \<open>ys\<close> of the last words.\<close>

inductive elem_of :: "crf_tag \<Rightarrow> (nat \<Rightarrow> queue_element) \<Rightarrow> nat \<Rightarrow> nat list \<Rightarrow> bool" for t E where
  elem_last: "elem_of t E e [y]"
    if "y < tg_ysize t" "E e = \<lparr>qe_node = (tg_words t - 1, y), qe_next = None, qe_fx = - bst t (tg_words t - 1) y,
      qe_gx = - nc t (tg_words t - 1) y\<rparr>"
| elem_step: "elem_of t E e (y # ys)"
    if "elem_of t E e' ys" "e' < e" "y < tg_ysize t" "x + 1 + length ys = tg_words t"
      "E e = \<lparr>qe_node = (x, y), qe_next = Some e', qe_fx = - score t x (y # ys) + nc t x y - bst t x y,
        qe_gx = - score t x (y # ys)\<rparr>"

inductive_cases elem_ofE: "elem_of t E e ys"

lemma elem_ofD:
  assumes "elem_of t E e ys" "0 < tg_words t"
  shows "ys \<noteq> [] \<and> length ys \<le> tg_words t \<and> set ys \<subseteq> {..<tg_ysize t} \<and>
    qe_node (E e) = (tg_words t - length ys, hd ys) \<and> qe_gx (E e) = - score t (tg_words t - length ys) ys \<and>
    qe_fx (E e) = qe_gx (E e) + nc t (tg_words t - length ys) (hd ys) - bst t (tg_words t - length ys) (hd ys)"
  using assms
proof induction
  case (elem_step e' ys e y x)
  then have "tg_words t - length (y # ys) = x" by simp
  then show ?case using elem_step by simp
qed auto

lemma elem_of_unique: "elem_of t E e ys \<Longrightarrow> elem_of t E e zs \<Longrightarrow> ys = zs"
proof (induction arbitrary: zs rule: elem_of.induct)
  case (elem_last y e)
  then show ?case by (auto elim: elem_ofE)
next
  case (elem_step e' ys e y x)
  note old = elem_step.hyps(5) and IH = elem_step.IH
  from elem_step.prems show ?case
  proof (cases rule: elem_of.cases)
    case (elem_last y')
    then show ?thesis using old by simp
  next
    case (elem_step e2 ys2 y2 x2)
    then have "e2 = e'" "y2 = y" using old by simp_all
    then show ?thesis using IH [of ys2] elem_step by simp
  qed
qed

lemma elem_of_mono:
  "elem_of t E e ys \<Longrightarrow> (\<And>a. a \<le> e \<Longrightarrow> E' a = E a) \<Longrightarrow> elem_of t E' e ys"
proof (induction rule: elem_of.induct)
  case (elem_last y e)
  then show ?case by (intro elem_of.elem_last) auto
next
  case (elem_step e' ys e y x)
  have "elem_of t E' e' ys" by (rule elem_step.IH) (use elem_step.hyps(2) elem_step.prems in simp)
  then show ?case using elem_step.hyps elem_step.prems [of e] by (intro elem_of.elem_step) auto
qed

lemma score_join: "score t i (zs @ y # ys) = score t i (zs @ [y]) + score t (i + length zs) (y # ys) - nc t (i + length zs) y"
proof (induction zs arbitrary: i)
  case (Cons z zs)
  show ?case using Cons [of "Suc i"] by (cases zs) (simp_all add: algebra_simps)
qed (cases ys, simp_all)

text \<open>The key of an element is the exact cost of the best labelling that ends with its labels.\<close>

lemma elem_bound:
  assumes R: "rows_ok B t (tg_words t)" and n: "0 < tg_words t" and e: "elem_of t E e ys"
    and p: "p \<in> labellings t (tg_words t)" "suffix ys p"
  shows "score t 0 p \<le> - qe_fx (E e)"
proof -
  note D = elem_ofD [OF e n]
  obtain y zs where ys: "ys = y # zs" using D by (cases ys) auto
  obtain us where us: "p = us @ ys" using p(2) by (auto simp: suffix_def)
  have x: "tg_words t - length ys = length us" using p(1) us by (auto simp: labellings_def)
  have "us @ [y] \<in> labellings t (Suc (length us))" "length us < tg_words t"
    using p(1) us ys by (auto simp: labellings_def)
  then have "score t 0 (us @ [y]) \<le> bst t (length us) y" using best_upper [OF R] by fastforce
  then show ?thesis using D x score_join [of t 0 us y zs] us ys by simp
qed

lemma elem_full:
  assumes R: "rows_ok B t (tg_words t)" and n: "0 < tg_words t" and e: "elem_of t E e ys"
    and x: "length ys = tg_words t"
  shows "ys \<in> labellings t (tg_words t) \<and> qe_fx (E e) = - score t 0 ys \<and> qe_gx (E e) = - score t 0 ys"
proof -
  note D = elem_ofD [OF e n]
  then have "hd ys < tg_ysize t" by (cases ys) auto
  then have "cell_ok B t 0 (hd ys)" using R n by (simp add: rows_ok_def)
  then show ?thesis using D x by (simp add: cell_ok_def labellings_def)
qed

subsection \<open>The agenda\<close>

definition elems_ok :: "crf_tag \<Rightarrow> crf_heap \<Rightarrow> bool" where
  "elems_ok t H \<longleftrightarrow> pool_ok H \<and> (\<forall>e \<in># bag H. \<exists>ys. elem_of t (h_elems H) e ys)"

text \<open>The number of elements in the queue that end the labelling \<open>p\<close>.\<close>

definition ends :: "crf_tag \<Rightarrow> crf_heap \<Rightarrow> nat list \<Rightarrow> nat" where
  "ends t H p = size (filter_mset (\<lambda>e. \<exists>ys. elem_of t (h_elems H) e ys \<and> suffix ys p) (bag H))"

text \<open>Every labelling that was not returned is represented by one element, the others by none.\<close>

definition agenda :: "crf_tag \<Rightarrow> crf_heap \<Rightarrow> nat list set \<Rightarrow> bool" where
  "agenda t H D \<longleftrightarrow> elems_ok t H \<and> D \<subseteq> labellings t (tg_words t) \<and>
     (\<forall>p \<in> labellings t (tg_words t). ends t H p = (if p \<in> D then 0 else 1))"

lemma push_one:
  assumes E: "elems_ok t H" and room: "h_elem_size H < h_capacity H"
    and new: "elem_of t ((h_elems H)(h_elem_size H + 1 := \<lparr>qe_node = node, qe_next = nxt, qe_fx = fx, qe_gx = gx\<rparr>))
      (h_elem_size H + 1) ys"
  shows "\<exists>H'. push_elem node nxt fx gx H = (0, H') \<and> elems_ok t H' \<and> h_elem_size H' = h_elem_size H + 1 \<and>
    h_capacity H' = h_capacity H \<and> (\<forall>e \<le> h_elem_size H. h_elems H' e = h_elems H e) \<and>
    (\<forall>p. ends t H' p = ends t H p + of_bool (suffix ys p))"
proof -
  let ?e = "h_elem_size H + 1"
  obtain H' where H': "push_elem node nxt fx gx H = (0, H')" "pool_ok H'" "bag H' = add_mset ?e (bag H)"
    "h_elem_size H' = ?e" "h_capacity H' = h_capacity H"
    "h_elems H' = (h_elems H)(?e := \<lparr>qe_node = node, qe_next = nxt, qe_fx = fx, qe_gx = gx\<rparr>)"
    using push_elem_ok [of H node nxt fx gx] E room by (auto simp: elems_ok_def)
  have same: "h_elems H' a = h_elems H a" if "a \<le> h_elem_size H" for a using that H'(6) by simp
  have le: "a \<le> h_elem_size H" if "a \<in># bag H" for a using E that by (simp add: elems_ok_def pool_ok_def)
  have old: "elem_of t (h_elems H') a zs \<longleftrightarrow> elem_of t (h_elems H) a zs" if "a \<in># bag H" for a zs
  proof -
    have "h_elems H' b = h_elems H b" if "b \<le> a" for b using same le [OF \<open>a \<in># bag H\<close>] that by simp
    then show ?thesis
      using elem_of_mono [of t "h_elems H" a zs "h_elems H'"] elem_of_mono [of t "h_elems H'" a zs "h_elems H"] by auto
  qed
  have n: "elem_of t (h_elems H') ?e zs \<longleftrightarrow> zs = ys" for zs
    using new elem_of_unique [of t "h_elems H'" ?e ys zs] H'(6) by auto
  have "\<exists>zs. elem_of t (h_elems H') a zs" if "a \<in># bag H'" for a
    using that E old [of a] n unfolding H'(3) by (cases "a = ?e") (auto simp: elems_ok_def)
  then have "elems_ok t H'" using H'(2) by (simp add: elems_ok_def)
  moreover have "ends t H' p = ends t H p + of_bool (suffix ys p)" for p
  proof -
    have "filter_mset (\<lambda>a. \<exists>zs. elem_of t (h_elems H') a zs \<and> suffix zs p) (bag H) =
        filter_mset (\<lambda>a. \<exists>zs. elem_of t (h_elems H) a zs \<and> suffix zs p) (bag H)"
      by (rule filter_mset_cong) (use old in auto)
    then show ?thesis using n by (simp add: ends_def H'(3))
  qed
  ultimately show ?thesis using H'(1,4,5) same by blast
qed

text \<open>The loop that pushes one element for every class, each with the same labels after it.\<close>

lemma push_all:
  assumes E: "elems_ok t H0"
    and step: "\<And>i H. i < tg_ysize t \<Longrightarrow> elems_ok t H \<Longrightarrow> h_elem_size H0 \<le> h_elem_size H \<Longrightarrow>
      (\<forall>e \<le> h_elem_size H0. h_elems H e = h_elems H0 e) \<Longrightarrow> \<exists>node nxt fx gx. f i (0, H) = Some (push_elem node nxt fx gx H) \<and>
      elem_of t ((h_elems H)(h_elem_size H + 1 := \<lparr>qe_node = node, qe_next = nxt, qe_fx = fx, qe_gx = gx\<rparr>))
        (h_elem_size H + 1) (i # ys)"
    and stop: "\<And>i H. f i (-1, H) = Some (-1, H)"
  shows "\<exists>r H'. floop f [0..<tg_ysize t] (0, H0) = Some (r, H') \<and> h_capacity H' = h_capacity H0 \<and>
    (r = -1 \<and> h_capacity H0 \<le> h_elem_size H' \<and> h_capacity H0 < h_elem_size H0 + tg_ysize t \<or> r = 0 \<and> elems_ok t H' \<and> h_elem_size H' = h_elem_size H0 + tg_ysize t \<and>
      (tg_ysize t = 0 \<or> h_elem_size H' \<le> h_capacity H0) \<and>
      (\<forall>p. ends t H' p = ends t H0 p + of_bool (\<exists>i < tg_ysize t. suffix (i # ys) p)))"
proof -
  define P where "P = (\<lambda>k (s :: int \<times> crf_heap). h_capacity (snd s) = h_capacity H0 \<and>
    (fst s = -1 \<and> h_capacity H0 \<le> h_elem_size (snd s) \<and> h_capacity H0 < h_elem_size H0 + k \<or> fst s = 0 \<and> elems_ok t (snd s) \<and>
      h_elem_size (snd s) = h_elem_size H0 + k \<and> (k = 0 \<or> h_elem_size (snd s) \<le> h_capacity H0) \<and>
      (\<forall>e \<le> h_elem_size H0. h_elems (snd s) e = h_elems H0 e) \<and>
      (\<forall>p. ends t (snd s) p = ends t H0 p + of_bool (\<exists>i < k. suffix (i # ys) p))))"
  have "\<exists>s'. f k s = Some s' \<and> P (Suc k) s'" if k: "k < tg_ysize t" and P: "P k s" for k s
  proof (cases "fst s = -1")
    case True
    then show ?thesis using stop [of k "snd s"] P by (cases s) (auto simp: P_def)
  next
    case False
    let ?H = "snd s"
    have s: "s = (0, ?H)" "h_capacity ?H = h_capacity H0" "elems_ok t ?H" "h_elem_size ?H = h_elem_size H0 + k"
      "\<forall>e \<le> h_elem_size H0. h_elems ?H e = h_elems H0 e"
      "\<And>p. ends t ?H p = ends t H0 p + of_bool (\<exists>i < k. suffix (i # ys) p)"
      using False P by (cases s, auto simp: P_def)+
    obtain node nxt fx gx where f: "f k s = Some (push_elem node nxt fx gx ?H)"
      "elem_of t ((h_elems ?H)(h_elem_size ?H + 1 := \<lparr>qe_node = node, qe_next = nxt, qe_fx = fx, qe_gx = gx\<rparr>))
        (h_elem_size ?H + 1) (k # ys)"
      using step [OF k s(3)] s(1,4,5) by fastforce
    show ?thesis
    proof (cases "h_elem_size ?H < h_capacity ?H")
      case True
      obtain H' where H': "push_elem node nxt fx gx ?H = (0, H')" "elems_ok t H'" "h_elem_size H' = h_elem_size ?H + 1"
        "h_capacity H' = h_capacity ?H" "\<forall>e \<le> h_elem_size ?H. h_elems H' e = h_elems ?H e"
        "\<And>p. ends t H' p = ends t ?H p + of_bool (suffix (k # ys) p)"
        using push_one [OF s(3) True f(2)] by blast
      have "ends t H' p = ends t H0 p + of_bool (\<exists>i < Suc k. suffix (i # ys) p)" for p
      proof -
        have "\<not> suffix (i # ys) p" if "suffix (k # ys) p" "i < k" for i
          using that by (auto simp: suffix_def)
        then show ?thesis using H'(6) [of p] s(6) [of p] by (auto simp: less_Suc_eq of_bool_def)
      qed
      then have "P (Suc k) (0, H')" using H' s True by (simp add: P_def)
      then show ?thesis using f(1) H'(1) by simp
    next
      case full: False
      then have "push_elem node nxt fx gx ?H = (-1, ?H)"
        using push_elem_ok [of ?H node nxt fx gx] s(3) by (simp add: elems_ok_def)
      then show ?thesis using f(1) full s(2,4) by (auto simp: P_def)
    qed
  qed
  then obtain s where "floop f [0..<tg_ysize t] (0, H0) = Some s" "P (tg_ysize t) s"
    using floop_upt [where P = P and f = f and n = "tg_ysize t" and s = "(0, H0)"] E by (auto simp: P_def)
  then show ?thesis by (cases s) (auto simp: P_def)
qed

subsection \<open>The search\<close>

lemma heap_update [simp]:
  "get_node (t\<lparr>tg_heap := h\<rparr>) = get_node t" "path_cost (t\<lparr>tg_heap := h\<rparr>) = path_cost t"
  "init_one (t\<lparr>tg_heap := h\<rparr>) = init_one t" "expand_one (t\<lparr>tg_heap := h\<rparr>) = expand_one t"
  by (simp_all add: fun_eq_iff get_node_def path_cost_def init_one_def expand_one_def cong: option.case_cong)

lemma score_bound:
  "weights_ok B t \<Longrightarrow> ys \<noteq> [] \<Longrightarrow> set ys \<subseteq> {..<tg_ysize t} \<Longrightarrow> i + length ys \<le> tg_words t \<Longrightarrow>
    \<bar>score t i ys\<bar> \<le> (2 * int (length ys) - 1) * B"
proof (induction t i ys rule: score.induct)
  case (2 t i y)
  then show ?case using weights_okD(2) [OF 2(1), of y i] by (auto simp: abs_le_iff)
next
  case (3 t i y y' ys)
  then have "\<bar>score t (i + 1) (y' # ys)\<bar> \<le> (2 * int (length (y' # ys)) - 1) * B" by simp
  moreover have "- B \<le> nc t i y \<and> nc t i y \<le> B" "- B \<le> pc t y y' \<and> pc t y y' \<le> B"
    using weights_okD(2) [OF 3(2), of y i] weights_okD(3) [OF 3(2), of y' y] 3(4,5) by auto
  ultimately show ?case by (simp add: abs_le_iff algebra_simps)
qed simp

lemma bst_bound: "rows_ok B t n \<Longrightarrow> i < n \<Longrightarrow> j < tg_ysize t \<Longrightarrow> \<bar>bst t i j\<bar> \<le> (2 * int i + 1) * B"
  unfolding rows_ok_def cell_ok_def by blast

text \<open>Any number within the weights of twice the number of words does not overflow.\<close>

lemma i32_sum:
  assumes "weights_ok B t" "\<bar>x\<bar> \<le> k * B" "k \<le> 2 * int (tg_words t) + 2" "0 \<le> B"
  shows "i32 x = Some x"
proof -
  have "k * B \<le> (2 * int (tg_words t) + 2) * B" using assms(3,4) by (rule mult_right_mono)
  then show ?thesis using assms(1,2) by (intro i32_small) (simp add: weights_ok_def)
qed

lemma init_nbest_ok:
  assumes W: "weights_ok B t" and R: "rows_ok B t (tg_words t)" and n: "0 < tg_words t" and H: "tg_heap t = Some H"
    and empty: "h_size H = 0" "h_elem_size H = 0" and room: "tg_ysize t \<le> h_capacity H"
  shows "\<exists>H'. init_nbest t = Some (0, t\<lparr>tg_heap := Some H'\<rparr>) \<and> agenda t H' {}"
proof -
  let ?s = "tg_words t - 1"
  have s: "?s < tg_words t" using n by simp
  have E: "elems_ok t H" using empty bag_size [of H] by (simp add: elems_ok_def pool_ok_def heap_ok_def ordered_def)
  have step: "\<exists>node nxt fx gx. init_one t ?s i (0, G) = Some (push_elem node nxt fx gx G) \<and>
      elem_of t ((h_elems G)(h_elem_size G + 1 := \<lparr>qe_node = node, qe_next = nxt, qe_fx = fx, qe_gx = gx\<rparr>))
        (h_elem_size G + 1) [i]" if i: "i < tg_ysize t" for i G
  proof -
    have B: "0 \<le> B" using weights_okD(6) [OF W i s] .
    have "i32 (- bst t ?s i) = Some (- bst t ?s i)"
      by (rule i32_sum [OF W _ _ B, where k = "2 * int ?s + 1"]) (use bst_bound [OF R s i] s in simp_all)
    moreover have "i32 (- nc t ?s i) = Some (- nc t ?s i)"
      by (rule i32_sum [OF W _ _ B, where k = 1]) (use weights_okD(2) [OF W i s] in \<open>simp_all add: abs_le_iff\<close>)
    ultimately have "init_one t ?s i (0, G) = Some (push_elem (?s, i) None (- bst t ?s i) (- nc t ?s i) G)"
      using weights_okD(4) [OF W i s] by (simp add: init_one_def nc_def)
    then show ?thesis using i by (blast intro: elem_of.elem_last fun_upd_same)
  qed
  have stop: "init_one t ?s i (-1, G) = Some (-1, G)" for i G by (simp add: init_one_def)
  obtain r H' where L: "floop (init_one t ?s) [0..<tg_ysize t] (0, H) = Some (r, H')" "r = 0" "elems_ok t H'"
    "\<And>p. ends t H' p = ends t H p + of_bool (\<exists>i < tg_ysize t. suffix [i] p)"
    using push_all [OF E step stop] empty room by fastforce
  have "ends t H p = 0" for p using empty bag_size [of H] by (simp add: ends_def)
  moreover have "\<exists>i < tg_ysize t. suffix [i] p" if "p \<in> labellings t (tg_words t)" for p
    using that n by (cases p rule: rev_cases) (auto simp: labellings_def)
  ultimately have "agenda t H' {}" using L(3,4) by (auto simp: agenda_def)
  then show ?thesis using L(1,2) H by (intro exI [of _ H']) (simp add: init_nbest_def)
qed

lemma write_chain_ok:
  assumes W: "weights_ok B t" and n: "0 < tg_words t"
  shows "elem_of t (h_elems H) e ys \<Longrightarrow> write_chain (Some e) H (t\<lparr>tg_heap := h, tg_result := r\<rparr>) = Some (t\<lparr>tg_heap := h, tg_result :=
    (\<lambda>k. if tg_words t - length ys \<le> k \<and> k < tg_words t then int (ys ! (k - (tg_words t - length ys))) else r k)\<rparr>)"
proof (induction arbitrary: r rule: elem_of.induct)
  case (elem_last y e)
  let ?s = "tg_words t - 1"
  have s: "?s < tg_words t" "?s < tg_max_words t" using n W by (auto simp: weights_ok_def)
  have "r(?s := int y) = (\<lambda>k. if tg_words t - length [y] \<le> k \<and> k < tg_words t
      then int ([y] ! (k - (tg_words t - length [y]))) else r k)"
    using n by (auto simp: fun_eq_iff)
  then show ?case
    using elem_last s weights_okD(1,4) [OF W elem_last(1) s(1)]
    by (subst write_chain.simps) (simp add: set_result_def write_chain.simps)
next
  case (elem_step e' ys e y x)
  have x: "x < tg_words t" "x < tg_max_words t" "tg_words t - length ys = Suc x" "tg_words t - length (y # ys) = x"
    using elem_step.hyps(4) W by (auto simp: weights_ok_def)
  have "(\<lambda>k. if Suc x \<le> k \<and> k < tg_words t then int (ys ! (k - Suc x)) else (r(x := int y)) k) =
      (\<lambda>k. if x \<le> k \<and> k < tg_words t then int ((y # ys) ! (k - x)) else r k)"
    using x(1) by (auto simp: fun_eq_iff nth_Cons' Suc_le_eq)
  then have "write_chain (Some e') H (t\<lparr>tg_heap := h, tg_result := r(x := int y)\<rparr>) =
      Some (t\<lparr>tg_heap := h, tg_result := (\<lambda>k. if x \<le> k \<and> k < tg_words t then int ((y # ys) ! (k - x)) else r k)\<rparr>)"
    using elem_step.IH [of "r(x := int y)"] unfolding x(3) by (simp only:)
  then show ?case
    unfolding x(4) using elem_step.hyps(5) x(2) weights_okD(1,4) [OF W elem_step.hyps(3) x(1)]
    by (subst write_chain.simps) (simp add: set_result_def del: fun_upd_apply)
qed

lemma expand_ok:
  assumes W: "weights_ok B t" and R: "rows_ok B t (tg_words t)" and E: "elems_ok t H0" and tp: "tp \<le> h_elem_size H0"
    and e: "elem_of t (h_elems H0) tp ys" and x: "tg_words t - length ys = Suc x"
  shows "\<exists>r H'. floop (expand_one t x (hd ys) tp) [0..<tg_ysize t] (0, H0) = Some (r, H') \<and> h_capacity H' = h_capacity H0 \<and>
    (r = -1 \<and> h_capacity H0 \<le> h_elem_size H' \<and> h_capacity H0 < h_elem_size H0 + tg_ysize t \<or> r = 0 \<and> elems_ok t H' \<and> h_elem_size H' = h_elem_size H0 + tg_ysize t \<and>
      (tg_ysize t = 0 \<or> h_elem_size H' \<le> h_capacity H0) \<and>
      (\<forall>p. ends t H' p = ends t H0 p + of_bool (\<exists>i < tg_ysize t. suffix (i # ys) p)))"
proof (rule push_all [OF E])
  fix i and H :: crf_heap
  assume i: "i < tg_ysize t" and le: "h_elem_size H0 \<le> h_elem_size H"
    and same: "\<forall>e \<le> h_elem_size H0. h_elems H e = h_elems H0 e"
  have n: "0 < tg_words t" using x by simp
  note D = elem_ofD [OF e n]
  obtain y zs where ys: "ys = y # zs" using D by (cases ys) auto
  have y: "y < tg_ysize t" using D ys by simp
  have xn: "x < tg_words t" "x + 1 + length ys = tg_words t" using x by simp_all
  have B: "0 \<le> B" using weights_okD(6) [OF W i xn(1)] .
  let ?g = "- score t (Suc x) ys"
  have g: "qe_gx (h_elems H tp) = ?g" using D x tp same by simp
  have sb: "\<bar>?g\<bar> \<le> (2 * int (length ys) - 1) * B" using score_bound [OF W, of ys "Suc x"] D xn(2) by simp
  have w: "- B \<le> nc t x i \<and> nc t x i \<le> B" "- B \<le> pc t i y \<and> pc t i y \<le> B" "path_cost t i y = Some (pc t i y)"
    using weights_okD(2) [OF W i xn(1)] weights_okD(3) [OF W y i] by auto
  have bb: "\<bar>bst t x i\<bar> \<le> (2 * int x + 1) * B" by (rule bst_bound [OF R xn(1) i])
  have c: "i32 (- nc t x i) = Some (- nc t x i)" by (rule i32_sum [OF W _ _ B, where k = 1]) (use w in \<open>simp_all add: abs_le_iff\<close>)
  have c1: "i32 (- nc t x i - pc t i y) = Some (- nc t x i - pc t i y)"
    by (rule i32_sum [OF W _ _ B, where k = 2]) (use w in \<open>simp_all add: abs_le_iff\<close>)
  have gx: "i32 (- nc t x i - pc t i y + ?g) = Some (- score t x (i # ys))"
    using i32_sum [OF W _ _ B, of "- nc t x i - pc t i y + ?g" "2 * int (length ys) + 1"] w sb xn ys
    by (simp add: abs_le_iff algebra_simps)
  have b: "i32 (- bst t x i) = Some (- bst t x i)"
    by (rule i32_sum [OF W _ _ B, where k = "2 * int x + 1"]) (use bb xn in simp_all)
  have b1: "i32 (- bst t x i - pc t i y) = Some (- bst t x i - pc t i y)"
    by (rule i32_sum [OF W _ _ B, where k = "2 * int x + 2"]) (use bb w xn in \<open>simp_all add: abs_le_iff algebra_simps\<close>)
  have fx: "i32 (- bst t x i - pc t i y + ?g) = Some (- score t x (i # ys) + nc t x i - bst t x i)"
    using i32_sum [OF W _ _ B, of "- bst t x i - pc t i y + ?g" "2 * int x + 2 * int (length ys) + 1"] w sb bb xn ys
    by (simp add: abs_le_iff algebra_simps)
  have "expand_one t x (hd ys) tp i (0, H) = Some (push_elem (x, i) (Some tp) (- score t x (i # ys) + nc t x i - bst t x i)
      (- score t x (i # ys)) H)"
    using weights_okD(4) [OF W i xn(1)] w(3) c c1 gx b b1 fx g ys by (simp add: expand_one_def nc_def)
  moreover have "elem_of t ((h_elems H)(h_elem_size H + 1 := \<lparr>qe_node = (x, i), qe_next = Some tp,
      qe_fx = - score t x (i # ys) + nc t x i - bst t x i, qe_gx = - score t x (i # ys)\<rparr>)) (h_elem_size H + 1) (i # ys)"
  proof (rule elem_of.elem_step)
    show "elem_of t ((h_elems H)(h_elem_size H + 1 := \<lparr>qe_node = (x, i), qe_next = Some tp,
      qe_fx = - score t x (i # ys) + nc t x i - bst t x i, qe_gx = - score t x (i # ys)\<rparr>)) tp ys"
      by (rule elem_of_mono [OF e]) (use tp le same in auto)
  qed (use i tp le xn in auto)
  ultimately show "\<exists>node nxt fx gx. expand_one t x (hd ys) tp i (0, H) = Some (push_elem node nxt fx gx H) \<and>
      elem_of t ((h_elems H)(h_elem_size H + 1 := \<lparr>qe_node = node, qe_next = nxt, qe_fx = fx, qe_gx = gx\<rparr>))
        (h_elem_size H + 1) (i # ys)" by blast
qed (simp add: expand_one_def)

lemma pop_elems:
  assumes A: "agenda t H D" and ne: "\<not> is_heap_empty H"
  shows "\<exists>e H1 ys. heap_delete_min H = Some (e, H1) \<and> elems_ok t H1 \<and> pool_of H1 = pool_of H \<and> elem_of t (h_elems H) e ys \<and>
    e \<le> h_elem_size H \<and> e \<in># bag H \<and> (\<forall>p. ends t H p = ends t H1 p + of_bool (suffix ys p)) \<and>
    (\<forall>e' \<in># bag H. qe_fx (h_elems H e) \<le> qe_fx (h_elems H e'))"
proof -
  have P: "pool_ok H" and E: "\<forall>e \<in># bag H. \<exists>ys. elem_of t (h_elems H) e ys"
    using A by (auto simp: agenda_def elems_ok_def)
  obtain e H1 where d: "heap_delete_min H = Some (e, H1)" "pool_ok H1" "bag H = add_mset e (bag H1)" "pool_of H1 = pool_of H"
    "\<forall>e' \<in># bag H. qe_fx (h_elems H e) \<le> qe_fx (h_elems H e')"
    using pop_ok [OF P ne] by blast
  then obtain ys where ys: "elem_of t (h_elems H) e ys" using E by auto
  have el: "h_elems H1 = h_elems H" using d(4) by (simp add: pool_of_def)
  have "a \<in># bag H" if "a \<in># bag H1" for a unfolding d(3) using that by simp
  then have "elems_ok t H1" using d(2) E unfolding elems_ok_def el by blast
  moreover have "ends t H p = ends t H1 p + of_bool (suffix ys p)" for p
  proof -
    have "(\<exists>zs. elem_of t (h_elems H) e zs \<and> suffix zs p) \<longleftrightarrow> suffix ys p" using ys elem_of_unique [OF ys] by blast
    then show ?thesis unfolding ends_def d(3) el by simp
  qed
  moreover have "e \<le> h_elem_size H" using P d(3) by (simp add: pool_ok_def)
  ultimately show ?thesis using d ys by (intro exI [of _ e] exI [of _ H1] exI [of _ ys]) simp
qed

lemma suffix_extend:
  assumes "p \<in> labellings t n" "length ys < n"
  shows "(\<exists>i < tg_ysize t. suffix (i # ys) p) \<longleftrightarrow> suffix ys p"
proof
  assume "suffix ys p"
  then obtain us where us: "p = us @ ys" by (auto simp: suffix_def)
  then have "us \<noteq> []" using assms by (auto simp: labellings_def)
  then obtain vs i where "us = vs @ [i]" by (cases us rule: rev_cases) auto
  then have "i < tg_ysize t" "suffix (i # ys) p" using us assms(1) by (auto simp: labellings_def suffix_def)
  then show "\<exists>i < tg_ysize t. suffix (i # ys) p" by blast
qed (auto simp: suffix_def)

text \<open>What a call of \<open>next\<close> may do: report a full pool, find nothing more, or return the best of the rest.\<close>

definition next_found :: "crf_tag \<Rightarrow> nat list set \<Rightarrow> crf_tag \<Rightarrow> bool" where
  "next_found t D t' \<longleftrightarrow> (\<exists>H' res p.
     t' = t\<lparr>tg_heap := Some H', tg_result := res, tg_cost := - score t 0 p, tg_next_time := tg_next_time t + 1\<rparr> \<and>
     labels_of t' = p \<and> p \<in> labellings t (tg_words t) - D \<and> agenda t H' (insert p D) \<and>
     (\<forall>q \<in> labellings t (tg_words t) - D. score t 0 q \<le> score t 0 p))"

definition next_full :: "crf_tag \<Rightarrow> bool" where
  "next_full t' \<longleftrightarrow> (\<exists>H'. tg_heap t' = Some H' \<and> h_capacity H' \<le> h_elem_size H')"

definition next_result :: "crf_tag \<Rightarrow> nat list set \<Rightarrow> int \<Rightarrow> crf_tag \<Rightarrow> bool" where
  "next_result t D r t' \<longleftrightarrow>
     (r = -1 \<and> next_full t') \<or>
     (r = 0 \<and> D = labellings t (tg_words t) \<and> (\<exists>H'. t' = t\<lparr>tg_heap := Some H'\<rparr> \<and> agenda t H' D)) \<or>
     (r = 0 \<and> next_found t D t')"

lemma next_loop_ok:
  assumes W: "weights_ok B t" and R: "rows_ok B t (tg_words t)" and n: "0 < tg_words t" and y: "0 < tg_ysize t"
  shows "agenda t H D \<Longrightarrow> \<exists>r t'. next_loop (t\<lparr>tg_heap := Some H\<rparr>) = Some (r, t') \<and> next_result t D r t'"
proof (induction "h_capacity H - h_elem_size H" arbitrary: H rule: less_induct)
  case less
  note A = less.prems
  let ?L = "labellings t (tg_words t)"
  have cnt: "ends t H p = (if p \<in> D then 0 else 1)" if "p \<in> ?L" for p using A that by (simp add: agenda_def)
  have DL: "D \<subseteq> ?L" using A by (simp add: agenda_def)
  show ?case
  proof (cases "is_heap_empty H")
    case True
    then have z: "ends t H p = 0" for p using bag_size [of H] by (simp add: ends_def is_heap_empty_def)
    have "p \<in> D" if "p \<in> ?L" for p using cnt [OF that] z [of p] by (simp split: if_splits)
    then have "D = ?L" using DL by blast
    moreover have "next_loop (t\<lparr>tg_heap := Some H\<rparr>) = Some (0, t\<lparr>tg_heap := Some H\<rparr>)"
      using True by (subst next_loop.simps) simp
    ultimately show ?thesis using A unfolding next_result_def by blast
  next
    case False
    obtain e H1 ys where P: "heap_delete_min H = Some (e, H1)" "elems_ok t H1" "pool_of H1 = pool_of H"
      "elem_of t (h_elems H) e ys" "e \<le> h_elem_size H" "e \<in># bag H"
      "\<And>p. ends t H p = ends t H1 p + of_bool (suffix ys p)"
      "\<And>e'. e' \<in># bag H \<Longrightarrow> qe_fx (h_elems H e) \<le> qe_fx (h_elems H e')"
      using pop_elems [OF A False] by blast
    have same: "h_elems H1 = h_elems H" "h_elem_size H1 = h_elem_size H" "h_capacity H1 = h_capacity H"
      using P(3) by (simp_all add: pool_of_def)
    note D = elem_ofD [OF P(4) n]
    let ?x = "tg_words t - length ys"
    have hd: "hd ys < tg_ysize t" and x: "?x < tg_words t" using D n by (cases ys; auto)+
    have nd: "get_node t ?x (hd ys) = Some (tg_node t ?x (hd ys))" "nd_x (tg_node t ?x (hd ys)) = ?x"
      "nd_y (tg_node t ?x (hd ys)) = hd ys"
      using weights_okD(1,4) [OF W hd x] by simp_all
    show ?thesis
    proof (cases ?x)
      case 0
      then have len: "length ys = tg_words t" using D by simp
      note F = elem_full [OF R n P(4) len]
      let ?res = "\<lambda>k. if tg_words t - length ys \<le> k \<and> k < tg_words t then int (ys ! (k - (tg_words t - length ys))) else tg_result t k"
      have "write_chain (Some e) H1 (t\<lparr>tg_heap := Some H, tg_result := tg_result t\<rparr>) = Some (t\<lparr>tg_heap := Some H, tg_result := ?res\<rparr>)"
        using write_chain_ok [OF W n, where H = H1 and e = e and ys = ys and h = "Some H" and r = "tg_result t"] P(4) same(1) by simp
      then have wc: "write_chain (Some e) H1 (t\<lparr>tg_heap := Some H\<rparr>) = Some (t\<lparr>tg_heap := Some H, tg_result := ?res\<rparr>)" by simp
      let ?t = "t\<lparr>tg_heap := Some H1, tg_result := ?res, tg_cost := - score t 0 ys, tg_next_time := tg_next_time t + 1\<rparr>"
      have "next_loop (t\<lparr>tg_heap := Some H\<rparr>) = Some (0, ?t)"
        using False P(1) same(1) D nd 0 wc F by (subst next_loop.simps) simp
      moreover have "labels_of ?t = ys" by (rule nth_equalityI) (use len in \<open>auto simp: labels_of_def\<close>)
      moreover have "ys \<notin> D" using cnt [of ys] F P(7) [of ys] by (auto split: if_splits)
      moreover have "agenda t H1 (insert ys D)"
      proof -
        have "ends t H1 p = (if p \<in> insert ys D then 0 else 1)" if p: "p \<in> ?L" for p
        proof (cases "p = ys")
          case True
          then show ?thesis using P(7) [of ys] cnt [of ys] F \<open>ys \<notin> D\<close> by simp
        next
          case False
          then have "\<not> suffix ys p" using p len by (auto simp: suffix_def labellings_def)
          then show ?thesis using P(7) [of p] cnt [OF p] False by simp
        qed
        then show ?thesis using P(2) F DL by (simp add: agenda_def)
      qed
      moreover have "score t 0 q \<le> score t 0 ys" if q: "q \<in> ?L - D" for q
      proof -
        have "ends t H q \<noteq> 0" using q cnt [of q] by simp
        then have "filter_mset (\<lambda>e. \<exists>ys. elem_of t (h_elems H) e ys \<and> suffix ys q) (bag H) \<noteq> {#}" by (auto simp: ends_def)
        then obtain e' where "e' \<in># filter_mset (\<lambda>e. \<exists>ys. elem_of t (h_elems H) e ys \<and> suffix ys q) (bag H)"
          by (rule multiset_nonemptyE)
        then obtain zs where z: "e' \<in># bag H" "elem_of t (h_elems H) e' zs" "suffix zs q" by auto
        then have "score t 0 q \<le> - qe_fx (h_elems H e')" using elem_bound [OF R n z(2)] q by simp
        then show ?thesis using P(8) [OF z(1)] F by simp
      qed
      ultimately show ?thesis using F unfolding next_result_def next_found_def by blast
    next
      case (Suc h)
      have tpl: "e \<le> h_elem_size H1" "elem_of t (h_elems H1) e ys" using P(4,5) same by simp_all
      obtain r H2 where X: "floop (expand_one t h (hd ys) e) [0..<tg_ysize t] (0, H1) = Some (r, H2)" "h_capacity H2 = h_capacity H"
        "r = -1 \<and> h_capacity H \<le> h_elem_size H2 \<or> r = 0 \<and> elems_ok t H2 \<and> h_elem_size H2 = h_elem_size H + tg_ysize t \<and>
          h_elem_size H2 \<le> h_capacity H \<and> (\<forall>p. ends t H2 p = ends t H1 p + of_bool (\<exists>i < tg_ysize t. suffix (i # ys) p))"
        using expand_ok [OF W R P(2) tpl Suc] same y by fastforce
      have ev: "next_loop (t\<lparr>tg_heap := Some H\<rparr>) =
          (if r < 0 then Some (-1, t\<lparr>tg_heap := Some H2\<rparr>) else next_loop (t\<lparr>tg_heap := Some H2\<rparr>))"
        using False P(1) same(1) D nd Suc X(1) by (subst next_loop.simps) simp
      from X(3) show ?thesis
      proof
        assume "r = -1 \<and> h_capacity H \<le> h_elem_size H2"
        then show ?thesis using ev X(2) by (auto simp: next_result_def next_full_def)
      next
        assume r: "r = 0 \<and> elems_ok t H2 \<and> h_elem_size H2 = h_elem_size H + tg_ysize t \<and>
          h_elem_size H2 \<le> h_capacity H \<and> (\<forall>p. ends t H2 p = ends t H1 p + of_bool (\<exists>i < tg_ysize t. suffix (i # ys) p))"
        have "ends t H2 p = ends t H p" if p: "p \<in> ?L" for p
          using r P(7) [of p] suffix_extend [OF p, of ys] Suc by simp
        then have "agenda t H2 D" using r cnt DL by (simp add: agenda_def)
        moreover have "h_capacity H2 - h_elem_size H2 < h_capacity H - h_elem_size H" using r X(2) y by linarith
        ultimately show ?thesis using less.hyps [of H2] ev r by simp
      qed
    qed
  qed
qed

subsection \<open>The labellings in order\<close>

text \<open>Calling \<open>next\<close> \<open>k\<close> times, or until it fails; the labels after each call.\<close>

fun take_best :: "nat \<Rightarrow> crf_tag \<Rightarrow> (int \<times> nat list list \<times> crf_tag) option" where
  "take_best 0 t = Some (0, [], t)"
| "take_best (Suc k) t = do {
     (r, t1) \<leftarrow> tag_next t;
     if r < 0 then Some (r, [], t1) else do {
       (r1, ls, t2) \<leftarrow> take_best k t1;
       Some (r1, labels_of t1 # ls, t2) } }"

definition same_tables :: "crf_tag \<Rightarrow> crf_tag \<Rightarrow> bool" where
  "same_tables t t' \<longleftrightarrow> tg_node t' = tg_node t \<and> tg_words t' = tg_words t \<and> tg_ysize t' = tg_ysize t \<and>
     tg_max_words t' = tg_max_words t \<and> tg_model t' = tg_model t"

lemma same_tables_sym: "same_tables t t' \<Longrightarrow> same_tables t' t"
  by (simp add: same_tables_def)

lemma same_tables_eq:
  assumes "same_tables t t'"
  shows "nc t' = nc t" "path_cost t' = path_cost t" "pc t' = pc t" "labellings t' n = labellings t n"
    "score t' i ys = score t i ys" "weights_ok B t' = weights_ok B t" "rows_ok B t' n = rows_ok B t n"
proof -
  show p: "nc t' = nc t" "path_cost t' = path_cost t" "pc t' = pc t" "labellings t' n = labellings t n"
    using assms by (auto simp: same_tables_def nc_def path_cost_def pc_def labellings_def fun_eq_iff split: option.split)
  show "score t' i ys = score t i ys"
    by (induction ys arbitrary: i rule: induct_list012) (simp_all add: p)
  show "weights_ok B t' = weights_ok B t" "rows_ok B t' n = rows_ok B t n"
    using assms p by (simp_all add: weights_ok_def rows_ok_def cell_ok_def same_tables_def cong: nat.case_cong)
qed

lemma same_tables_elem: "elem_of t E e ys \<Longrightarrow> same_tables t t' \<Longrightarrow> elem_of t' E e ys"
proof (induction rule: elem_of.induct)
  case (elem_last y e)
  then show ?case using same_tables_eq [OF elem_last(3)] by (intro elem_of.elem_last) (simp_all add: same_tables_def)
next
  case (elem_step e' ys e y x)
  then show ?case
    using same_tables_eq [OF elem_step.prems] by (intro elem_of.elem_step [of t' E e' ys e y x]) (simp_all add: same_tables_def)
qed

lemma same_tables_agenda: "same_tables t t' \<Longrightarrow> agenda t' H D = agenda t H D"
proof -
  assume S: "same_tables t t'"
  then have e: "elem_of t' E e ys = elem_of t E e ys" for E e ys
    using same_tables_elem [of t E e ys t'] same_tables_elem [of t' E e ys t] same_tables_sym by blast
  show ?thesis
    using S same_tables_eq(4) [OF S] by (simp add: agenda_def elems_ok_def ends_def e same_tables_def)
qed

text \<open>\<open>ls\<close> are labellings in order, and no better one outside \<open>D\<close> is missing.\<close>

definition best_of :: "crf_tag \<Rightarrow> nat list set \<Rightarrow> nat list list \<Rightarrow> bool" where
  "best_of t D ls \<longleftrightarrow> set ls \<subseteq> labellings t (tg_words t) - D \<and> distinct ls \<and>
     sorted_wrt (\<lambda>p q. score t 0 q \<le> score t 0 p) ls \<and>
     (\<forall>p \<in> set ls. \<forall>q \<in> labellings t (tg_words t) - D - set ls. score t 0 q \<le> score t 0 p)"

lemma finite_labellings: "finite (labellings t n)"
proof -
  have "labellings t n = {xs. set xs \<subseteq> {..<tg_ysize t} \<and> length xs = n}" by (auto simp: labellings_def)
  then show ?thesis using finite_lists_length_eq [of "{..<tg_ysize t}" n] by simp
qed

lemma take_best_ok:
  assumes "weights_ok B t" "rows_ok B t (tg_words t)" "0 < tg_words t" "0 < tg_ysize t" "tg_ready t" "tg_max_nbest t \<noteq> 1"
    "tg_heap t = Some H" "agenda t H D" "card D + k \<le> card (labellings t (tg_words t))"
  shows "\<exists>r ls t'. take_best k t = Some (r, ls, t') \<and> best_of t D ls \<and>
    (r = 0 \<and> length ls = k \<or> r = -1 \<and> length ls < k \<and> next_full t')"
  using assms
proof (induction k arbitrary: t H D)
  case 0
  then show ?case by (simp add: best_of_def)
next
  case (Suc k)
  let ?L = "labellings t (tg_words t)"
  have "t\<lparr>tg_heap := Some H\<rparr> = t" using Suc.prems(7) by simp
  then obtain r t1 where N: "tag_next t = Some (r, t1)" "next_result t D r t1"
    using next_loop_ok [OF Suc.prems(1-4,8)] Suc.prems(5,6) by (auto simp: tag_next_def)
  have "D \<noteq> ?L" using Suc.prems(9) by auto
  then consider "r = -1" "next_full t1" | "r = 0" "next_found t D t1"
    using N(2) unfolding next_result_def by blast
  then show ?case
  proof cases
    case 1
    then show ?thesis using N(1) by (simp add: best_of_def)
  next
    case 2
    then obtain H' res p where found: "r = 0" "t1 = t\<lparr>tg_heap := Some H', tg_result := res, tg_cost := - score t 0 p,
        tg_next_time := tg_next_time t + 1\<rparr>" "labels_of t1 = p" "p \<in> ?L - D" "agenda t H' (insert p D)"
      "\<forall>q \<in> ?L - D. score t 0 q \<le> score t 0 p"
      unfolding next_found_def by blast
    have S: "same_tables t t1" using found(2) by (simp add: same_tables_def)
    have f: "finite D" using Suc.prems(8) finite_labellings finite_subset by (auto simp: agenda_def)
    have "agenda t1 H' (insert p D)" using found(5) same_tables_agenda [OF S] by simp
    note A = this
    have "card (insert p D) + k \<le> card (labellings t1 (tg_words t1))"
      using Suc.prems(9) found(2,4) f same_tables_eq(4) [OF S] by simp
    note C = this
    obtain r1 ls t2 where T: "take_best k t1 = Some (r1, ls, t2)" "best_of t1 (insert p D) ls"
      "r1 = 0 \<and> length ls = k \<or> r1 = -1 \<and> length ls < k \<and> next_full t2"
    proof -
      have "weights_ok B t1" "rows_ok B t1 (tg_words t1)" "0 < tg_words t1" "0 < tg_ysize t1" "tg_ready t1"
        "tg_max_nbest t1 \<noteq> 1" "tg_heap t1 = Some H'"
        using Suc.prems(1-6) same_tables_eq(6,7) [OF S] found(2) by simp_all
      from Suc.IH [OF this A C] show ?thesis using that by blast
    qed
    have L: "labellings t1 (tg_words t1) = ?L" "\<And>q. score t1 0 q = score t 0 q"
      using same_tables_eq(4,5) [OF S] found(2) by simp_all
    have "best_of t D (p # ls)"
      using T(2) found(4,6) unfolding best_of_def L by auto
    then show ?thesis using N(1) T(1,3) found(1,3) by auto
  qed
qed

text \<open>
  C33 The best labellings in order: on a tagger whose weights cannot overflow, with an empty queue
  that has room for one element per class, \<open>viterbi\<close> and \<open>initNbest\<close> succeed, and calling \<open>next\<close>
  \<open>k\<close> times, for \<open>k\<close> up to the number of labellings, returns different labellings in the order of
  their scores, with no better one left out. It returns all \<open>k\<close> of them unless the pool of elements
  is used up, which the last call then reports.
\<close>

theorem nbest_in_order:
  assumes "weights_ok B t" "0 < tg_words t" "0 < tg_ysize t" "tg_ready t" "tg_max_nbest t \<noteq> 1"
    and "tg_heap t = Some H" "h_size H = 0" "h_elem_size H = 0" "tg_ysize t \<le> h_capacity H"
    and "k \<le> tg_ysize t ^ tg_words t"
  shows "\<exists>t1 t2 r ls t3. viterbi t = Some (0, t1) \<and> init_nbest t1 = Some (0, t2) \<and> take_best k t2 = Some (r, ls, t3) \<and>
    best_of t {} ls \<and>
    (r = 0 \<and> length ls = k \<or> r = -1 \<and> length ls < k \<and> next_full t3)"
proof -
  obtain t0 t1 r c where V: "viterbi t = Some (0, t1)" "same_weights t t0" "rows_ok B t0 (tg_words t)"
    "t1 = t0\<lparr>tg_result := r, tg_cost := c\<rparr>"
    using viterbi_ok [OF assms(1-3)] by blast
  have S: "same_tables t0 t1" using V(4) by (simp add: same_tables_def)
  have fields: "tg_words t1 = tg_words t" "tg_ysize t1 = tg_ysize t" "tg_heap t1 = Some H" "tg_ready t1"
    "tg_max_nbest t1 \<noteq> 1" using V(2,4) assms(4-6) by (auto simp: same_weights_def)
  have W: "weights_ok B t1" using assms(1) same_weights_ok [OF V(2)] same_tables_eq(6) [OF S] by simp
  have R: "rows_ok B t1 (tg_words t1)" using V(3) same_tables_eq(7) [OF S] fields(1) by simp
  obtain H' where H': "init_nbest t1 = Some (0, t1\<lparr>tg_heap := Some H'\<rparr>)" "agenda t1 H' {}"
    using init_nbest_ok [OF W R _ fields(3)] assms fields(1,2) by auto
  let ?t2 = "t1\<lparr>tg_heap := Some H'\<rparr>"
  have S2: "same_tables t1 ?t2" by (simp add: same_tables_def)
  have sc: "best_of ?t2 {} ls = best_of t {} ls" for ls
    using same_tables_eq(5) [OF S] same_tables_eq(5) [OF S2] same_weights_score [OF V(2)] fields(1,2)
    by (simp add: best_of_def labellings_def)
  have "labellings ?t2 (tg_words ?t2) = {xs. set xs \<subseteq> {..<tg_ysize t} \<and> length xs = tg_words t}"
    using fields(1,2) by (auto simp: labellings_def)
  then have "card (labellings ?t2 (tg_words ?t2)) = tg_ysize t ^ tg_words t"
    using card_lists_length_eq [of "{..<tg_ysize t}" "tg_words t"] by simp
  then have "card ({} :: nat list set) + k \<le> card (labellings ?t2 (tg_words ?t2))" using assms(10) by simp
  moreover have "weights_ok B ?t2" "rows_ok B ?t2 (tg_words ?t2)" "agenda ?t2 H' {}"
    using W R H'(2) same_tables_eq(6,7) [OF S2] same_tables_agenda [OF S2] by simp_all
  ultimately obtain r ls t3 where "take_best k ?t2 = Some (r, ls, t3)" "best_of ?t2 {} ls"
    "r = 0 \<and> length ls = k \<or> r = -1 \<and> length ls < k \<and> next_full t3"
    using take_best_ok [of B ?t2 H' "{}" k] assms(2,3) fields by auto
  then show ?thesis using V(1) H'(1) sc by blast
qed

lemma sample_heap: "\<exists>H. tg_heap sample_tag = Some H \<and> h_size H = 0 \<and> h_elem_size H = 0 \<and> h_capacity H = 12"
  by (simp add: sample_tag_def init_by_model_def crf_tag_new_def sample_model_def heap_init_def)

theorem nbest_in_order_witness:
  "\<exists>t1 t2 r ls t3. viterbi sample_tag = Some (0, t1) \<and> init_nbest t1 = Some (0, t2) \<and> take_best 3 t2 = Some (r, ls, t3) \<and>
    best_of sample_tag {} ls"
proof -
  obtain H where "tg_heap sample_tag = Some H" "h_size H = 0" "h_elem_size H = 0" "h_capacity H = 12"
    using sample_heap by blast
  then show ?thesis
    using nbest_in_order [OF sample_weights, of H 3] by (simp add: sample_fields) blast
qed

end
