(* ===== verification/CrfFeatures.thy ===== *)
theory CrfFeatures
  imports CrfTag
begin

text \<open>
  What \<open>buildFeatures\<close> computes: with either version of the model the cost of a class of a word is the
  scaled sum of the weights of the six features of the word, its neighbours and the pairs of them.
  The shared tables of version 200 therefore give the costs of version 100 when they hold its ids.
\<close>

subsection \<open>Costs as a function\<close>

definition with_costs :: "crf_tag \<Rightarrow> (nat \<Rightarrow> nat \<Rightarrow> int) \<Rightarrow> crf_tag" where
  "with_costs t f = t\<lparr>tg_node := (\<lambda>i j. if i < tg_words t \<and> j < tg_ysize t then (tg_node t i j)\<lparr>nd_cost := f i j\<rparr>
     else tg_node t i j)\<rparr>"

lemma get_index_node [simp]: "get_index (t\<lparr>tg_node := g\<rparr>) = get_index t"
  by (simp add: get_index_def fun_eq_iff)

lemma with_costs_fields [simp]:
  "tg_words (with_costs t f) = tg_words t" "tg_ysize (with_costs t f) = tg_ysize t"
  "tg_max_words (with_costs t f) = tg_max_words t" "tg_x (with_costs t f) = tg_x t"
  "tg_model (with_costs t f) = tg_model t" "get_index (with_costs t f) = get_index t"
  "templ_id m (with_costs t f) = templ_id m t"
  by (simp_all add: with_costs_def templ_id_def fun_eq_iff cong: if_cong)

lemma with_costs_cong:
  "(\<And>i j. i < tg_words t \<Longrightarrow> j < tg_ysize t \<Longrightarrow> f i j = g i j) \<Longrightarrow> with_costs t f = with_costs t g"
  unfolding with_costs_def by (rule arg_cong [where f = "\<lambda>n. t\<lparr>tg_node := n\<rparr>"]) (auto simp: fun_eq_iff)

lemma with_costs_self:
  "(\<And>i j. i < tg_words t \<Longrightarrow> j < tg_ysize t \<Longrightarrow> nd_cost (tg_node t i j) = f i j) \<Longrightarrow> with_costs t f = t"
proof -
  assume "\<And>i j. i < tg_words t \<Longrightarrow> j < tg_ysize t \<Longrightarrow> nd_cost (tg_node t i j) = f i j"
  then have "(\<lambda>i j. if i < tg_words t \<and> j < tg_ysize t then (tg_node t i j)\<lparr>nd_cost := f i j\<rparr> else tg_node t i j) = tg_node t"
    by (auto simp: fun_eq_iff intro!: crf_node.equality)
  then show ?thesis by (simp add: with_costs_def)
qed

text \<open>Setting one cost.\<close>

lemma upd_cost:
  assumes "i < tg_words t" "j < tg_ysize t" "tg_words t \<le> tg_max_words t"
  shows "upd_node i j (\<lambda>nd. nd\<lparr>nd_cost := c\<rparr>) (with_costs t f) = Some (with_costs t (f(i := (f i)(j := c))))"
    "get_node (with_costs t f) i j = Some ((tg_node t i j)\<lparr>nd_cost := f i j\<rparr>)"
  using assms
  by (auto simp: upd_node_def get_node_def with_costs_def fun_eq_iff intro!: arg_cong [where f = "\<lambda>n. t\<lparr>tg_node := n\<rparr>"])

text \<open>The loops over the classes of word \<open>i\<close>: a step sets the cost of its class.\<close>

lemma row_loop:
  assumes "\<And>k f. k < tg_ysize t \<Longrightarrow> f i k = g i k \<Longrightarrow>
      st k (with_costs t f) = Some (with_costs t (f(i := (f i)(k := h k))))"
  shows "floop st [0..<tg_ysize t] (with_costs t g) = Some (with_costs t (g(i := h)))"
proof -
  define P where "P = (\<lambda>k s. s = with_costs t (g(i := \<lambda>b. if b < k then h b else g i b)))"
  have "\<exists>s'. st k s = Some s' \<and> P (Suc k) s'" if k: "k < tg_ysize t" and P: "P k s" for k s
  proof -
    let ?f = "g(i := \<lambda>b. if b < k then h b else g i b)"
    have "st k s = Some (with_costs t (?f(i := (?f i)(k := h k))))"
      using assms [OF k, of ?f] P by (simp add: P_def)
    moreover have "?f(i := (?f i)(k := h k)) = g(i := \<lambda>b. if b < Suc k then h b else g i b)"
      by (auto simp: fun_eq_iff less_Suc_eq)
    ultimately show ?thesis by (simp only: P_def) simp
  qed
  then obtain s where "floop st [0..<tg_ysize t] (with_costs t g) = Some s" "P (tg_ysize t) s"
    using floop_upt [where P = P and f = st and n = "tg_ysize t" and s = "with_costs t g"] by (auto simp: P_def)
  moreover have "with_costs t (g(i := \<lambda>b. if b < tg_ysize t then h b else g i b)) = with_costs t (g(i := h))"
    by (rule with_costs_cong) simp
  ultimately show ?thesis by (simp add: P_def)
qed

lemma zero_row_ok:
  assumes "i < tg_words t" "tg_words t \<le> tg_max_words t"
  shows "floop (zero_cost i) [0..<tg_ysize t] (with_costs t f) = Some (with_costs t (f(i := \<lambda>_. 0)))"
  by (rule row_loop) (simp add: zero_cost_def upd_cost assms)

text \<open>The scaling, when its results are integers of 32 bits.\<close>

lemma scale_row_ok:
  assumes "i < tg_words t" "tg_words t \<le> tg_max_words t"
    and "\<And>j. j < tg_ysize t \<Longrightarrow> i32 (cm_scale m (f i j)) = Some (cm_scale m (f i j))"
  shows "floop (scale_cost m i) [0..<tg_ysize t] (with_costs t f) = Some (with_costs t (f(i := \<lambda>j. cm_scale m (f i j))))"
  by (rule row_loop) (simp add: scale_cost_def upd_cost assms)

subsection \<open>Adding the weights of a feature\<close>

text \<open>The weight of a feature for a class; -1 is no feature.\<close>

definition al :: "crf_model \<Rightarrow> int \<Rightarrow> nat \<Rightarrow> int" where
  "al m iid j = (if iid = -1 then 0 else cm_alpha m ! nat (iid + int j))"

definition id_ok :: "crf_model \<Rightarrow> nat \<Rightarrow> int \<Rightarrow> bool" where
  "id_ok m y iid \<longleftrightarrow> iid = -1 \<or> 0 \<le> iid \<and> iid + int y \<le> int (length (cm_alpha m))"

text \<open>The weights are at most \<open>A\<close>, and the sums of the features of a word do not overflow.\<close>

definition alpha_ok :: "int \<Rightarrow> crf_model \<Rightarrow> bool" where
  "alpha_ok A m \<longleftrightarrow> 0 \<le> A \<and> (\<forall>a \<in> set (cm_alpha m). \<bar>a\<bar> \<le> A) \<and> 16 * A < 2147483648 \<and> length (cm_alpha m) < 2147483648"

lemma al_bound: "alpha_ok A m \<Longrightarrow> id_ok m y iid \<Longrightarrow> j < y \<Longrightarrow> \<bar>al m iid j\<bar> \<le> A"
  by (auto simp: alpha_ok_def id_ok_def al_def)

text \<open>The costs with the weights of a feature added to word \<open>i\<close>.\<close>

definition plus_row :: "(nat \<Rightarrow> nat \<Rightarrow> int) \<Rightarrow> nat \<Rightarrow> (nat \<Rightarrow> int) \<Rightarrow> nat \<Rightarrow> nat \<Rightarrow> int" where
  "plus_row f i r = f(i := \<lambda>b. f i b + r b)"

lemma add_feature_ok:
  assumes A: "alpha_ok A m" and i: "id_ok m (tg_ysize t) iid" "i < tg_words t" "tg_words t \<le> tg_max_words t"
    and f: "\<And>j. j < tg_ysize t \<Longrightarrow> \<bar>f i j\<bar> \<le> 15 * A"
  shows "(if iid \<noteq> -1 then add_costs m i iid (with_costs t f) else Some (with_costs t f)) =
    Some (with_costs t (plus_row f i (al m iid)))"
proof (cases "iid = -1")
  case True
  then show ?thesis by (simp add: plus_row_def al_def)
next
  case False
  then have iid: "0 \<le> iid" "iid + int (tg_ysize t) \<le> int (length (cm_alpha m))" using i(1) by (auto simp: id_ok_def)
  have "add_cost m i iid k (with_costs t g) = Some (with_costs t (g(i := (g i)(k := f i k + al m iid k))))"
    if k: "k < tg_ysize t" and g: "g i k = f i k" for k g
  proof -
    have id: "i32 (iid + int k) = Some (iid + int k)" "rd (cm_alpha m) (iid + int k) = Some (al m iid k)"
      using iid k A False by (auto simp: i32_def rd_def al_def alpha_ok_def)
    have "\<bar>al m iid k\<bar> \<le> A" by (rule al_bound [OF A i(1) k])
    then have "\<bar>f i k + al m iid k\<bar> \<le> 16 * A" using f [OF k] by arith
    then have c: "i32 (f i k + al m iid k) = Some (f i k + al m iid k)" using A by (auto simp: i32_def alpha_ok_def)
    show ?thesis using upd_cost [OF i(2) k i(3), where f = g] g by (simp add: add_cost_def id c)
  qed
  then show ?thesis using False by (simp add: add_costs_def plus_row_def row_loop [where h = "\<lambda>b. f i b + al m iid b"])
qed

subsection \<open>Version 100\<close>

definition scale_ok :: "int \<Rightarrow> crf_model \<Rightarrow> bool" where
  "scale_ok A m \<longleftrightarrow> (\<forall>x. \<bar>x\<bar> \<le> 6 * A \<longrightarrow> i32 (cm_scale m x) = Some (cm_scale m x))"

text \<open>The sum of the weights of the features \<open>ids 0\<close>, \dots, \<open>ids (n - 1)\<close> of a word.\<close>

definition weight_sum :: "crf_model \<Rightarrow> (nat \<Rightarrow> int) \<Rightarrow> nat \<Rightarrow> nat \<Rightarrow> int" where
  "weight_sum m ids n j = (\<Sum>k<n. al m (ids k) j)"

lemma weight_sum_bound:
  assumes "alpha_ok A m" "\<And>k. k < n \<Longrightarrow> id_ok m y (ids k)" "j < y"
  shows "\<bar>weight_sum m ids n j\<bar> \<le> int n * A"
  using assms(2)
proof (induction n)
  case (Suc n)
  then show ?case using al_bound [OF assms(1) Suc.prems(1) [of n] assms(3)]
    by (simp add: weight_sum_def algebra_simps abs_le_iff)
qed (simp add: weight_sum_def)

definition templ_ids :: "crf_model \<Rightarrow> crf_tag \<Rightarrow> nat \<Rightarrow> nat \<Rightarrow> int" where
  "templ_ids m t i k = the (templ_id m t i k)"

definition ids100_ok :: "crf_model \<Rightarrow> crf_tag \<Rightarrow> bool" where
  "ids100_ok m t \<longleftrightarrow> (\<forall>i < tg_words t. \<forall>k < cm_templs m. templ_id m t i k \<noteq> None \<and> id_ok m (tg_ysize t) (templ_ids m t i k))"

lemma word_features_ok:
  assumes A: "alpha_ok A m" and S: "scale_ok A m" and I: "ids100_ok m t" and i: "i < tg_words t" "tg_words t \<le> tg_max_words t"
    and n: "cm_templs m \<le> 6"
  shows "word_features m i (with_costs t f) =
    Some (with_costs t (f(i := \<lambda>j. cm_scale m (weight_sum m (templ_ids m t i) (cm_templs m) j))))"
proof -
  let ?W = "\<lambda>k j. weight_sum m (templ_ids m t i) k j"
  have ids: "templ_id m t i k = Some (templ_ids m t i k)" "id_ok m (tg_ysize t) (templ_ids m t i k)" if "k < cm_templs m" for k
    using I i(1) that by (auto simp: ids100_ok_def templ_ids_def)
  have bnd: "\<bar>?W k j\<bar> \<le> 6 * A" if "k \<le> cm_templs m" "j < tg_ysize t" for k j
  proof -
    have "\<bar>?W k j\<bar> \<le> int k * A" by (rule weight_sum_bound [OF A _ that(2)]) (use ids(2) that(1) in simp)
    moreover have "int k * A \<le> 6 * A" using that(1) n A by (intro mult_right_mono) (auto simp: alpha_ok_def)
    ultimately show ?thesis by simp
  qed
  define P where "P = (\<lambda>k s. s = with_costs t (f(i := ?W k)))"
  have "\<exists>s'. templ_cost m i k s = Some s' \<and> P (Suc k) s'" if k: "k < cm_templs m" and P: "P k s" for k s
  proof -
    have "\<bar>(f(i := ?W k)) i j\<bar> \<le> 15 * A" if "j < tg_ysize t" for j
      using bnd [of k, OF _ that] k A by (simp add: alpha_ok_def)
    then have "templ_cost m i k s = Some (with_costs t (plus_row (f(i := ?W k)) i (al m (templ_ids m t i k))))"
      using add_feature_ok [OF A ids(2) [OF k] i, of "f(i := ?W k)"] P ids(1) [OF k]
      by (simp add: templ_cost_def P_def)
    moreover have "plus_row (f(i := ?W k)) i (al m (templ_ids m t i k)) = f(i := ?W (Suc k))"
      by (simp add: plus_row_def weight_sum_def fun_eq_iff)
    ultimately show ?thesis by (simp add: P_def)
  qed
  then obtain s where s: "floop (templ_cost m i) [0..<cm_templs m] (with_costs t (f(i := ?W 0))) = Some s" "P (cm_templs m) s"
    using floop_upt [where P = P and f = "templ_cost m i" and n = "cm_templs m" and s = "with_costs t (f(i := ?W 0))"]
    by (auto simp: P_def)
  have "?W 0 = (\<lambda>_. 0)" by (simp add: weight_sum_def fun_eq_iff)
  then show ?thesis
    using s zero_row_ok [OF i, of f] scale_row_ok [OF i, of m "f(i := ?W (cm_templs m))"] bnd [of "cm_templs m"] S
    by (auto simp: word_features_def P_def scale_ok_def)
qed

lemma build_100_ok:
  assumes A: "alpha_ok A m" and S: "scale_ok A m" and I: "ids100_ok m t" and n: "0 < tg_words t" "tg_words t \<le> tg_max_words t"
    and m: "tg_model t = Some m" "cm_version m = 100" "cm_templs m \<le> 6"
  shows "build_features t = Some (0, with_costs t (\<lambda>i j. cm_scale m (weight_sum m (templ_ids m t i) (cm_templs m) j)))"
proof -
  let ?G = "\<lambda>c i j. if i < c then cm_scale m (weight_sum m (templ_ids m t i) (cm_templs m) j) else nd_cost (tg_node t i j)"
  define P where "P = (\<lambda>c s. s = with_costs t (?G c))"
  have "\<exists>s'. word_features m c s = Some s' \<and> P (Suc c) s'" if c: "c < tg_words t" and P: "P c s" for c s
  proof -
    have "(?G c)(c := \<lambda>j. cm_scale m (weight_sum m (templ_ids m t c) (cm_templs m) j)) = ?G (Suc c)"
      by (auto simp: fun_eq_iff less_Suc_eq)
    then show ?thesis using word_features_ok [OF A S I c n(2) m(3), of "?G c"] P by (simp add: P_def)
  qed
  moreover have "P 0 t" unfolding P_def by (rule with_costs_self [symmetric]) simp
  ultimately obtain s where "floop (word_features m) [0..<tg_words t] t = Some s" "P (tg_words t) s"
    using floop_upt [where P = P and f = "word_features m" and n = "tg_words t" and s = t] by blast
  moreover have "with_costs t (?G (tg_words t)) =
      with_costs t (\<lambda>i j. cm_scale m (weight_sum m (templ_ids m t i) (cm_templs m) j))"
    by (rule with_costs_cong) simp
  ultimately show ?thesis using n m by (simp add: build_features_def P_def)
qed

subsection \<open>Version 200\<close>

text \<open>The id a shared table gives for a word or a pair of words.\<close>

definition dan_at :: "crf_model \<Rightarrow> string \<Rightarrow> nat \<Rightarrow> int option" where
  "dan_at m a k = do { iid \<leftarrow> single_id m '':'' a; if iid = -1 then Some (-1) else rd (cm_dan m) (iid + int k) }"

definition zu_at :: "crf_model \<Rightarrow> string \<Rightarrow> string \<Rightarrow> nat \<Rightarrow> int option" where
  "zu_at m a b k = do { iid \<leftarrow> pair_id m '':'' a b; if iid = -1 then Some (-1) else rd (cm_zu m) (iid + int k) }"

text \<open>The word at a position from -1 (before the first) to the number of words.\<close>

definition word_at :: "crf_tag \<Rightarrow> int \<Rightarrow> string" where
  "word_at t i = the (get_index t i)"

text \<open>The features of word \<open>i\<close> in the order of the templates.\<close>

definition shared_id :: "crf_model \<Rightarrow> crf_tag \<Rightarrow> int \<Rightarrow> nat \<Rightarrow> int option" where
  "shared_id m t i k =
     (if k \<le> 2 then dan_at m (word_at t (i + int k - 1)) k
      else if k \<le> 4 then zu_at m (word_at t (i + int k - 4)) (word_at t (i + int k - 3)) (k - 3)
      else pair_id m ''U10:'' (word_at t (i - 1)) (word_at t (i + 1)))"

definition shared_ids :: "crf_model \<Rightarrow> crf_tag \<Rightarrow> int \<Rightarrow> nat \<Rightarrow> int" where
  "shared_ids m t i k = the (shared_id m t i k)"

text \<open>All lookups of a text succeed and give ids within the weights.\<close>

definition ids200_ok :: "crf_model \<Rightarrow> crf_tag \<Rightarrow> bool" where
  "ids200_ok m t \<longleftrightarrow>
     (\<forall>i \<in> {-1..int (tg_words t)}. \<forall>k < 3. \<exists>v. dan_at m (word_at t i) k = Some v \<and> id_ok m (tg_ysize t) v) \<and>
     (\<forall>i \<in> {-1..<int (tg_words t)}. \<forall>k < 2. \<exists>v. zu_at m (word_at t i) (word_at t (i + 1)) k = Some v \<and> id_ok m (tg_ysize t) v) \<and>
     (\<forall>i \<in> {0..<int (tg_words t)}. \<exists>v. pair_id m ''U10:'' (word_at t (i - 1)) (word_at t (i + 1)) = Some v \<and> id_ok m (tg_ysize t) v)"

text \<open>A tagger with the costs \<open>f\<close>, which are at most \<open>b\<close> weights.\<close>

definition costs_are :: "int \<Rightarrow> crf_tag \<Rightarrow> nat \<Rightarrow> (nat \<Rightarrow> nat \<Rightarrow> int) \<Rightarrow> crf_tag \<Rightarrow> bool" where
  "costs_are A t b f s \<longleftrightarrow> s = with_costs t f \<and> (\<forall>i < tg_words t. \<forall>j < tg_ysize t. \<bar>f i j\<bar> \<le> int b * A)"

definition plus_at :: "crf_tag \<Rightarrow> (nat \<Rightarrow> nat \<Rightarrow> int) \<Rightarrow> int \<Rightarrow> (nat \<Rightarrow> int) \<Rightarrow> nat \<Rightarrow> nat \<Rightarrow> int" where
  "plus_at t f now r = (if 0 \<le> now \<and> now < int (tg_words t) then plus_row f (nat now) r else f)"

lemma add_feature_at:
  assumes A: "alpha_ok A m" and n: "tg_words t \<le> tg_max_words t" and v: "id_ok m (tg_ysize t) v" and C: "costs_are A t b f s"
    and b: "b \<le> 15"
  shows "\<exists>s'. (if v \<noteq> -1 \<and> 0 \<le> now \<and> now < int (tg_words t) then add_costs m (nat now) v s else Some s) = Some s' \<and>
    costs_are A t (b + 1) (plus_at t f now (al m v)) s'"
proof (cases "0 \<le> now \<and> now < int (tg_words t)")
  case True
  have "0 \<le> A" using A by (simp add: alpha_ok_def)
  then have le: "int b * A \<le> 15 * A" using b by (intro mult_right_mono) simp_all
  have now: "nat now < tg_words t" using True by auto
  have "\<bar>f (nat now) j\<bar> \<le> 15 * A" if "j < tg_ysize t" for j
    using C now that le by (force simp: costs_are_def)
  then have "(if v \<noteq> -1 then add_costs m (nat now) v (with_costs t f) else Some (with_costs t f)) =
      Some (with_costs t (plus_row f (nat now) (al m v)))"
    by (rule add_feature_ok [OF A v now n])
  moreover have "\<bar>plus_row f (nat now) (al m v) i j\<bar> \<le> int (b + 1) * A" if "i < tg_words t" "j < tg_ysize t" for i j
  proof -
    have f: "\<bar>f i j\<bar> \<le> int b * A" and r: "\<bar>al m v j\<bar> \<le> A"
      using C that al_bound [OF A v that(2)] by (auto simp: costs_are_def)
    have e: "int (b + 1) * A = int b * A + A" by (simp add: algebra_simps)
    have "\<bar>plus_row f (nat now) (al m v) i j\<bar> \<le> \<bar>f i j\<bar> + \<bar>al m v j\<bar>"
      by (simp add: plus_row_def abs_triangle_ineq)
    then show ?thesis unfolding e using f r by linarith
  qed
  ultimately show ?thesis using C True by (cases "v = -1") (simp_all add: costs_are_def plus_at_def)
next
  case False
  have "0 \<le> A" using A by (simp add: alpha_ok_def)
  then have "int b * A \<le> int (b + 1) * A" by (intro mult_right_mono) simp_all
  then show ?thesis using C False by (force simp: costs_are_def plus_at_def)
qed

lemma plus_at_none [simp]: "plus_at t f now (al m (-1)) = f"
  by (auto simp: plus_at_def plus_row_def al_def fun_eq_iff)

text \<open>The weights a looked up word gives to its neighbours: \<open>v k\<close> goes to the word at \<open>cur - k + 1\<close>.\<close>

primrec spread :: "crf_model \<Rightarrow> crf_tag \<Rightarrow> int \<Rightarrow> (nat \<Rightarrow> int) \<Rightarrow> nat \<Rightarrow> (nat \<Rightarrow> nat \<Rightarrow> int) \<Rightarrow> nat \<Rightarrow> nat \<Rightarrow> int" where
  "spread m t cur v 0 f = f"
| "spread m t cur v (Suc k) f = plus_at t (spread m t cur v k f) (cur - int k + 1) (al m (v k))"

lemma spread_ok:
  assumes A: "alpha_ok A m" and n: "tg_words t \<le> tg_max_words t" and C: "costs_are A t b f s" and b: "b + h \<le> 15"
    and v: "\<And>k. k < h \<Longrightarrow> (if iid = -1 then v k = -1 else rd tab (iid + int k) = Some (v k)) \<and> id_ok m (tg_ysize t) (v k)"
  shows "\<exists>s'. (if iid \<noteq> -1 then floop (share m tab cur iid) [0..<h] s else Some s) = Some s' \<and>
    costs_are A t (b + h) (spread m t cur v h f) s'"
proof (cases "iid = -1")
  case True
  have none: "v k = -1" if "k < h" for k using v [OF that] True by simp
  have "spread m t cur v k f = f" if "k \<le> h" for k
    using that by (induction k) (simp_all add: none)
  moreover have "int b * A \<le> int (b + h) * A" using A by (intro mult_right_mono) (simp_all add: alpha_ok_def)
  ultimately show ?thesis using C True by (force simp: costs_are_def)
next
  case False
  define P where "P = (\<lambda>k s. costs_are A t (b + k) (spread m t cur v k f) s)"
  have "\<exists>s'. share m tab cur iid k s = Some s' \<and> P (Suc k) s'" if k: "k < h" and P: "P k s" for k s
  proof -
    have w: "tg_words s = tg_words t" using P by (simp add: P_def costs_are_def)
    have "b + k \<le> 15" using b k by simp
    from add_feature_at [OF A n _ P [unfolded P_def] this, of "v k" "cur - int k + 1"]
    show ?thesis using v [OF k] False w by (simp add: share_def P_def Let_def)
  qed
  moreover have "P 0 s" using C by (simp add: P_def)
  ultimately show ?thesis
    using floop_upt [where P = P and f = "share m tab cur iid" and n = h and s = s] False by (auto simp: P_def)
qed

text \<open>The costs before word \<open>c\<close> is looked up.\<close>

definition shared_sum :: "crf_model \<Rightarrow> crf_tag \<Rightarrow> nat \<Rightarrow> nat \<Rightarrow> nat \<Rightarrow> int" where
  "shared_sum m t c i j = (let w = (\<lambda>k. al m (shared_ids m t (int i) k) j) in
     (if i \<le> c then w 0 + w 3 else 0) + (if i < c then w 1 + w 4 + w 5 else 0) + (if i + 1 < c then w 2 else 0))"

lemma ids200D:
  assumes "ids200_ok m t" "i < tg_words t" "k < 6"
  shows "id_ok m (tg_ysize t) (shared_ids m t (int i) k)"
proof -
  consider "k < 3" | "k = 3 \<or> k = 4" | "k = 5" using assms(3) by linarith
  then show ?thesis
  proof cases
    case 1
    then have "int i + int k - 1 \<in> {-1..int (tg_words t)}" using assms(2) by auto
    then obtain v where "dan_at m (word_at t (int i + int k - 1)) k = Some v" "id_ok m (tg_ysize t) v"
      using assms(1) 1 unfolding ids200_ok_def by blast
    then show ?thesis using 1 by (simp add: shared_ids_def shared_id_def)
  next
    case 2
    then have "int i + int k - 4 \<in> {-1..<int (tg_words t)}" "k - 3 < 2" using assms(2) by auto
    then obtain v where "zu_at m (word_at t (int i + int k - 4)) (word_at t (int i + int k - 4 + 1)) (k - 3) = Some v"
      "id_ok m (tg_ysize t) v"
      using assms(1) unfolding ids200_ok_def by blast
    moreover have "int i + int k - 4 + 1 = int i + int k - 3" by simp
    ultimately show ?thesis using 2 by (auto simp: shared_ids_def shared_id_def)
  next
    case 3
    have "int i \<in> {0..<int (tg_words t)}" using assms(2) by auto
    then obtain v where "pair_id m ''U10:'' (word_at t (int i - 1)) (word_at t (int i + 1)) = Some v" "id_ok m (tg_ysize t) v"
      using assms(1) unfolding ids200_ok_def by blast
    then show ?thesis using 3 by (simp add: shared_ids_def shared_id_def)
  qed
qed

lemma shared_sum_bound:
  assumes "alpha_ok A m" "ids200_ok m t" "i < tg_words t" "j < tg_ysize t"
  shows "\<bar>shared_sum m t c i j\<bar> \<le> int 6 * A"
proof -
  let ?w = "\<lambda>k. al m (shared_ids m t (int i) k) j"
  have w: "- A \<le> ?w k \<and> ?w k \<le> A" if "k < 6" for k
    using al_bound [OF assms(1) ids200D [OF assms(2,3) that] assms(4)] by (simp add: abs_le_iff)
  have sum: "- (6 * A) \<le> (if p then a + b else 0) + (if q then c + d + e else 0) + (if r then f else 0) \<and>
      (if p then a + b else 0) + (if q then c + d + e else 0) + (if r then f else 0) \<le> 6 * A"
    if "0 \<le> A" "- A \<le> a \<and> a \<le> A" "- A \<le> b \<and> b \<le> A" "- A \<le> c \<and> c \<le> A" "- A \<le> d \<and> d \<le> A"
      "- A \<le> e \<and> e \<le> A" "- A \<le> f \<and> f \<le> A" for p q r :: bool and a b c d e f :: int
    using that by (cases p; cases q; cases r) simp_all
  have "0 \<le> A" using assms(1) by (simp add: alpha_ok_def)
  from sum [OF this w [of 0] w [of 3] w [of 1] w [of 4] w [of 5] w [of 2], of "i \<le> c" "i < c" "i + 1 < c"]
  show ?thesis by (simp add: shared_sum_def Let_def abs_le_iff)
qed

lemma plus_at_val: "i < tg_words t \<Longrightarrow> plus_at t f now r i j = f i j + (if now = int i then r j else 0)"
  by (auto simp: plus_at_def plus_row_def)

lemma word_at_words:
  "i < tg_words t \<Longrightarrow> tg_x t i = word_at t (int i)" "BOS 0 = Some (word_at t (-1))"
  "0 < tg_words t \<Longrightarrow> EOS 0 = Some (word_at t (int (tg_words t)))"
  by (simp_all add: word_at_def get_index_def BOS_def EOS_def rd_def)

lemma get_index_word: "-1 \<le> i \<Longrightarrow> i \<le> int (tg_words t) \<Longrightarrow> get_index t i = Some (word_at t i)"
  by (auto simp: word_at_def get_index_def BOS_def EOS_def rd_def)

lemma dan_atD:
  assumes "dan_at m a 0 \<noteq> None" "\<And>k. k < h \<Longrightarrow> \<exists>v. dan_at m a k = Some v \<and> id_ok m y v"
  shows "\<exists>iid. single_id m '':'' a = Some iid \<and> (\<forall>k < h.
    (if iid = -1 then the (dan_at m a k) = -1 else rd (cm_dan m) (iid + int k) = Some (the (dan_at m a k))) \<and>
    id_ok m y (the (dan_at m a k)))"
proof -
  obtain iid where iid: "single_id m '':'' a = Some iid" using assms(1) by (auto simp: dan_at_def split: Option.bind_splits)
  then have "(if iid = -1 then the (dan_at m a k) = -1 else rd (cm_dan m) (iid + int k) = Some (the (dan_at m a k))) \<and>
      id_ok m y (the (dan_at m a k))" if "k < h" for k
    using assms(2) [OF that] by (auto simp: dan_at_def)
  then show ?thesis using iid by blast
qed

lemma zu_atD:
  assumes "zu_at m a b 0 \<noteq> None" "\<And>k. k < h \<Longrightarrow> \<exists>v. zu_at m a b k = Some v \<and> id_ok m y v"
  shows "\<exists>iid. pair_id m '':'' a b = Some iid \<and> (\<forall>k < h.
    (if iid = -1 then the (zu_at m a b k) = -1 else rd (cm_zu m) (iid + int k) = Some (the (zu_at m a b k))) \<and>
    id_ok m y (the (zu_at m a b k)))"
proof -
  obtain iid where iid: "pair_id m '':'' a b = Some iid" using assms(1) by (auto simp: zu_at_def split: Option.bind_splits)
  then have "(if iid = -1 then the (zu_at m a b k) = -1 else rd (cm_zu m) (iid + int k) = Some (the (zu_at m a b k))) \<and>
      id_ok m y (the (zu_at m a b k))" if "k < h" for k
    using assms(2) [OF that] by (auto simp: zu_at_def)
  then show ?thesis using iid by blast
qed

lemma shared_lookups:
  assumes "ids200_ok m t"
  shows "-1 \<le> i \<Longrightarrow> i \<le> int (tg_words t) \<Longrightarrow> \<exists>iid. single_id m '':'' (word_at t i) = Some iid \<and> (\<forall>k < 3.
      (if iid = -1 then the (dan_at m (word_at t i) k) = -1 else rd (cm_dan m) (iid + int k) = Some (the (dan_at m (word_at t i) k))) \<and>
      id_ok m (tg_ysize t) (the (dan_at m (word_at t i) k)))"
    and "-1 \<le> i \<Longrightarrow> i < int (tg_words t) \<Longrightarrow> \<exists>iid. pair_id m '':'' (word_at t i) (word_at t (i + 1)) = Some iid \<and> (\<forall>k < 2.
      (if iid = -1 then the (zu_at m (word_at t i) (word_at t (i + 1)) k) = -1
       else rd (cm_zu m) (iid + int k) = Some (the (zu_at m (word_at t i) (word_at t (i + 1)) k))) \<and>
      id_ok m (tg_ysize t) (the (zu_at m (word_at t i) (word_at t (i + 1)) k)))"
proof -
  assume i: "-1 \<le> i" "i \<le> int (tg_words t)"
  then have d: "\<exists>v. dan_at m (word_at t i) k = Some v \<and> id_ok m (tg_ysize t) v" if "k < 3" for k
    using assms that unfolding ids200_ok_def by (meson atLeastAtMost_iff)
  show "\<exists>iid. single_id m '':'' (word_at t i) = Some iid \<and> (\<forall>k < 3.
      (if iid = -1 then the (dan_at m (word_at t i) k) = -1 else rd (cm_dan m) (iid + int k) = Some (the (dan_at m (word_at t i) k))) \<and>
      id_ok m (tg_ysize t) (the (dan_at m (word_at t i) k)))"
    using d [of 0] by (intro dan_atD d) auto
next
  assume i: "-1 \<le> i" "i < int (tg_words t)"
  then have d: "\<exists>v. zu_at m (word_at t i) (word_at t (i + 1)) k = Some v \<and> id_ok m (tg_ysize t) v" if "k < 2" for k
    using assms that unfolding ids200_ok_def by (meson atLeastLessThan_iff)
  show "\<exists>iid. pair_id m '':'' (word_at t i) (word_at t (i + 1)) = Some iid \<and> (\<forall>k < 2.
      (if iid = -1 then the (zu_at m (word_at t i) (word_at t (i + 1)) k) = -1
       else rd (cm_zu m) (iid + int k) = Some (the (zu_at m (word_at t i) (word_at t (i + 1)) k))) \<and>
      id_ok m (tg_ysize t) (the (zu_at m (word_at t i) (word_at t (i + 1)) k)))"
    using d [of 0] by (intro zu_atD d) auto
qed

lemma costs_are_sum:
  assumes "alpha_ok A m" "ids200_ok m t" "costs_are A t b f s"
    "\<And>i j. i < tg_words t \<Longrightarrow> j < tg_ysize t \<Longrightarrow> f i j = shared_sum m t c i j"
  shows "costs_are A t 6 (shared_sum m t c) s"
  using assms(3) with_costs_cong [of t f "shared_sum m t c"] assms(4) shared_sum_bound [OF assms(1,2)]
  by (auto simp: costs_are_def)

lemma shared_features_ok:
  assumes A: "alpha_ok A m" and I: "ids200_ok m t" and n: "tg_words t \<le> tg_max_words t" and c: "c < tg_words t"
    and C: "costs_are A t 6 (shared_sum m t c) s"
  shows "\<exists>s'. shared_features m c s = Some s' \<and> costs_are A t 6 (shared_sum m t (Suc c)) s'"
proof -
  let ?d = "\<lambda>k. the (dan_at m (word_at t (int c)) k)"
    and ?z = "\<lambda>k. the (zu_at m (word_at t (int c)) (word_at t (int c + 1)) k)"
  obtain iid where iid: "single_id m '':'' (word_at t (int c)) = Some iid"
    "\<And>k. k < 3 \<Longrightarrow> (if iid = -1 then ?d k = -1 else rd (cm_dan m) (iid + int k) = Some (?d k)) \<and> id_ok m (tg_ysize t) (?d k)"
    using shared_lookups(1) [OF I, of "int c"] c by auto
  obtain s1 where s1: "(if iid \<noteq> -1 then floop (share m (cm_dan m) (int c) iid) [0..<3] s else Some s) = Some s1"
    "costs_are A t 9 (spread m t (int c) ?d 3 (shared_sum m t c)) s1"
    using spread_ok [OF A n C _ iid(2), where h = 3 and cur = "int c"] by auto
  obtain iid1 where iid1: "pair_id m '':'' (word_at t (int c)) (word_at t (int c + 1)) = Some iid1"
    "\<And>k. k < 2 \<Longrightarrow> (if iid1 = -1 then ?z k = -1 else rd (cm_zu m) (iid1 + int k) = Some (?z k)) \<and> id_ok m (tg_ysize t) (?z k)"
    using shared_lookups(2) [OF I, of "int c"] c by auto
  obtain s2 where s2: "(if iid1 \<noteq> -1 then floop (share m (cm_zu m) (int c) iid1) [0..<2] s1 else Some s1) = Some s2"
    "costs_are A t 11 (spread m t (int c) ?z 2 (spread m t (int c) ?d 3 (shared_sum m t c))) s2"
    using spread_ok [OF A n s1(2) _ iid1(2), where h = 2 and cur = "int c"] by auto
  have "int c \<in> {0..<int (tg_words t)}" using c by simp
  then obtain u where u: "pair_id m ''U10:'' (word_at t (int c - 1)) (word_at t (int c + 1)) = Some u" "id_ok m (tg_ysize t) u"
    using I unfolding ids200_ok_def by blast
  obtain s3 where s3: "(if u \<noteq> -1 \<and> 0 \<le> int c \<and> int c < int (tg_words t) then add_costs m (nat (int c)) u s2 else Some s2) = Some s3"
    "costs_are A t 12 (plus_at t (spread m t (int c) ?z 2 (spread m t (int c) ?d 3 (shared_sum m t c))) (int c) (al m u)) s3"
    using add_feature_at [OF A n u(2) s2(2), of "int c"] by auto
  have s: "s = with_costs t (shared_sum m t c)" using C by (simp add: costs_are_def)
  have b: "(if c + 1 = tg_words t then EOS 0 else Some (tg_x s (c + 1))) = Some (word_at t (int c + 1))"
    using word_at_words(1) [of "c + 1" t] word_at_words(3) [of t] c
    by (cases "tg_words t = Suc c") (auto simp: s add.commute)
  have x: "tg_x s c = word_at t (int c)" "tg_words s = tg_words t"
    "get_index s (int c - 1) = Some (word_at t (int c - 1))" "get_index s (int c + 1) = Some (word_at t (int c + 1))"
    using c get_index_word [of "int c - 1" t] get_index_word [of "int c + 1" t] by (simp_all add: s word_at_words(1))
  have u3: "(if u \<noteq> -1 then add_costs m c u s2 else Some s2) = Some s3" using s3(1) c by (cases "u = -1") simp_all
  have "shared_features m c s = Some s3"
    unfolding shared_features_def by (simp only: iid(1) s1(1) iid1(1) s2(1) u(1) u3 b x Option.bind.simps)
  moreover have "costs_are A t 6 (shared_sum m t (Suc c)) s3"
  proof (rule costs_are_sum [OF A I s3(2)])
    fix i j assume i: "i < tg_words t"
    have w: "shared_ids m t (int i) 0 = ?d 0 \<and> shared_ids m t (int i) 3 = ?z 0" if "i = Suc c"
      using that by (simp add: shared_ids_def shared_id_def add.commute)
    have w1: "shared_ids m t (int i) 1 = ?d 1 \<and> shared_ids m t (int i) 4 = ?z 1 \<and> shared_ids m t (int i) 5 = u" if "i = c"
      using that u(1) by (simp add: shared_ids_def shared_id_def add.commute)
    have w2: "shared_ids m t (int i) 2 = ?d 2" if "c = Suc i"
      using that by (simp add: shared_ids_def shared_id_def add.commute)
    consider "i = Suc c" | "i = c" | "c = Suc i" | "i > Suc c \<or> Suc i < c" by linarith
    then show "plus_at t (spread m t (int c) ?z 2 (spread m t (int c) ?d 3 (shared_sum m t c))) (int c) (al m u) i j =
        shared_sum m t (Suc c) i j"
      by cases (use i w w1 w2 in \<open>auto simp: plus_at_val numeral_2_eq_2 numeral_3_eq_3 shared_sum_def Let_def\<close>)
  qed
  ultimately show ?thesis by blast
qed

text \<open>The word before the first and the one after the last.\<close>

lemma put_shared_ok:
  assumes A: "alpha_ok A m" and n: "tg_words t \<le> tg_max_words t" and C: "costs_are A t b f s" and b: "b \<le> 15"
    and v: "if iid = -1 then v = -1 else rd tab iid' = Some v" "id_ok m (tg_ysize t) v" and i: "i < tg_words t"
  shows "\<exists>s'. (if iid \<noteq> -1 then put_shared m tab iid' i s else Some s) = Some s' \<and>
    costs_are A t (b + 1) (plus_at t f (int i) (al m v)) s'"
proof -
  obtain s1 where "(if v \<noteq> -1 \<and> 0 \<le> int i \<and> int i < int (tg_words t) then add_costs m (nat (int i)) v s else Some s) = Some s1"
    "costs_are A t (b + 1) (plus_at t f (int i) (al m v)) s1"
    using add_feature_at [OF A n v(2) C b, of "int i"] by blast
  then show ?thesis using v(1) i by (cases "iid = -1"; cases "v = -1") (simp_all add: put_shared_def)
qed

lemma first_features_ok:
  assumes A: "alpha_ok A m" and I: "ids200_ok m t" and n: "tg_words t \<le> tg_max_words t" "0 < tg_words t"
    and C: "costs_are A t 0 (\<lambda>_ _. 0) s"
  shows "\<exists>s'. first_features m s = Some s' \<and> costs_are A t 6 (shared_sum m t 0) s'"
proof -
  let ?d = "\<lambda>k. the (dan_at m (word_at t (-1)) k)" and ?z = "\<lambda>k. the (zu_at m (word_at t (-1)) (word_at t 0) k)"
  obtain iid where iid: "single_id m '':'' (word_at t (-1)) = Some iid"
    "\<And>k. k < 3 \<Longrightarrow> (if iid = -1 then ?d k = -1 else rd (cm_dan m) (iid + int k) = Some (?d k)) \<and> id_ok m (tg_ysize t) (?d k)"
    using shared_lookups(1) [OF I, of "-1"] by auto
  have d0: "if iid = -1 then ?d 0 = -1 else rd (cm_dan m) iid = Some (?d 0)" "id_ok m (tg_ysize t) (?d 0)"
    using iid(2) [of 0] by (cases "iid = -1"; simp)+
  obtain s1 where s1: "(if iid \<noteq> -1 then put_shared m (cm_dan m) iid 0 s else Some s) = Some s1"
    "costs_are A t 1 (plus_at t (\<lambda>_ _. 0) 0 (al m (?d 0))) s1"
    using put_shared_ok [OF A n(1) C _ d0 n(2)] by auto
  obtain iid1 where iid1: "pair_id m '':'' (word_at t (-1)) (word_at t 0) = Some iid1"
    "\<And>k. k < 2 \<Longrightarrow> (if iid1 = -1 then ?z k = -1 else rd (cm_zu m) (iid1 + int k) = Some (?z k)) \<and> id_ok m (tg_ysize t) (?z k)"
    using shared_lookups(2) [OF I, of "-1"] by (auto cong: if_cong)
  have z0: "if iid1 = -1 then ?z 0 = -1 else rd (cm_zu m) iid1 = Some (?z 0)" "id_ok m (tg_ysize t) (?z 0)"
    using iid1(2) [of 0] by (cases "iid1 = -1"; simp)+
  obtain s2 where s2: "(if iid1 \<noteq> -1 then put_shared m (cm_zu m) iid1 0 s1 else Some s1) = Some s2"
    "costs_are A t 2 (plus_at t (plus_at t (\<lambda>_ _. 0) 0 (al m (?d 0))) 0 (al m (?z 0))) s2"
    using put_shared_ok [OF A n(1) s1(2) _ z0 n(2)] by (auto simp: numeral_2_eq_2)
  have x: "tg_x s 0 = word_at t 0" using C word_at_words(1) [OF n(2)] by (simp add: costs_are_def)
  have "first_features m s = Some s2"
    unfolding first_features_def by (simp only: word_at_words(2) [of t] iid(1) s1(1) x iid1(1) s2(1) Option.bind.simps)
  moreover have "costs_are A t 6 (shared_sum m t 0) s2"
  proof (rule costs_are_sum [OF A I s2(2)])
    fix i j assume "i < tg_words t"
    then show "plus_at t (plus_at t (\<lambda>_ _. 0) 0 (al m (?d 0))) 0 (al m (?z 0)) i j = shared_sum m t 0 i j"
      by (simp add: plus_at_val shared_sum_def Let_def shared_ids_def shared_id_def)
  qed
  ultimately show ?thesis by blast
qed

lemma last_features_ok:
  assumes A: "alpha_ok A m" and I: "ids200_ok m t" and n: "tg_words t \<le> tg_max_words t" "0 < tg_words t"
    and C: "costs_are A t 6 (shared_sum m t (tg_words t)) s"
  shows "\<exists>s'. last_features m s = Some s' \<and> costs_are A t 6 (\<lambda>i. weight_sum m (shared_ids m t (int i)) 6) s'"
proof -
  let ?n = "tg_words t" and ?d = "\<lambda>k. the (dan_at m (word_at t (int (tg_words t))) k)"
  obtain iid where iid: "single_id m '':'' (word_at t (int ?n)) = Some iid"
    "\<And>k. k < 3 \<Longrightarrow> (if iid = -1 then ?d k = -1 else rd (cm_dan m) (iid + int k) = Some (?d k)) \<and> id_ok m (tg_ysize t) (?d k)"
    using shared_lookups(1) [OF I, of "int ?n"] by auto
  have d2: "if iid = -1 then ?d 2 = -1 else rd (cm_dan m) (iid + 2) = Some (?d 2)" "id_ok m (tg_ysize t) (?d 2)"
    using iid(2) [of 2] by (cases "iid = -1"; simp)+
  have l: "?n - 1 < ?n" using n(2) by simp
  obtain s1 where s1: "(if iid \<noteq> -1 then put_shared m (cm_dan m) (iid + 2) (?n - 1) s else Some s) = Some s1"
    "costs_are A t 7 (plus_at t (shared_sum m t ?n) (int (?n - 1)) (al m (?d 2))) s1"
    using put_shared_ok [OF A n(1) C _ d2 l] by auto
  have w: "tg_words s = ?n" using C by (simp add: costs_are_def)
  have "last_features m s = Some s1"
    unfolding last_features_def by (simp only: word_at_words(3) [OF n(2)] iid(1) w s1(1) Option.bind.simps)
  moreover have "plus_at t (shared_sum m t ?n) (int (?n - 1)) (al m (?d 2)) i j = weight_sum m (shared_ids m t (int i)) 6 j"
    if i: "i < ?n" for i j
  proof -
    have w2: "shared_ids m t (int i) 2 = ?d 2" if "Suc i = ?n"
      using that [symmetric] by (simp add: shared_ids_def shared_id_def add.commute)
    have "weight_sum m (shared_ids m t (int i)) 6 j = shared_sum m t ?n i j + (if Suc i = ?n then al m (?d 2) j else 0)"
      using i w2 by (auto simp: weight_sum_def shared_sum_def Let_def eval_nat_numeral)
    then show ?thesis using i by (auto simp: plus_at_val)
  qed
  moreover have "\<bar>weight_sum m (shared_ids m t (int i)) 6 j\<bar> \<le> int 6 * A" if "i < ?n" "j < tg_ysize t" for i j
    by (rule weight_sum_bound [OF A ids200D [OF I that(1)] that(2)])
  ultimately show ?thesis using s1(2) by (auto simp: costs_are_def intro!: with_costs_cong)
qed

lemma scale_words_ok:
  assumes S: "scale_ok A m" and n: "tg_words t \<le> tg_max_words t" and C: "costs_are A t 6 f s"
  shows "floop (scale_word m) [0..<tg_words t] s = Some (with_costs t (\<lambda>i j. cm_scale m (f i j)))"
proof -
  let ?G = "\<lambda>c i j. if i < c then cm_scale m (f i j) else f i j"
  define P where "P = (\<lambda>c s. s = with_costs t (?G c))"
  have "\<exists>s'. scale_word m c s = Some s' \<and> P (Suc c) s'" if c: "c < tg_words t" and P: "P c s" for c s
  proof -
    have "i32 (cm_scale m (?G c c j)) = Some (cm_scale m (?G c c j))" if "j < tg_ysize t" for j
      using S C c that by (simp add: scale_ok_def costs_are_def)
    from scale_row_ok [OF c n, of m "?G c", OF this]
    have "scale_word m c (with_costs t (?G c)) = Some (with_costs t ((?G c)(c := \<lambda>j. cm_scale m (?G c c j))))"
      by (simp add: scale_word_def)
    moreover have "(?G c)(c := \<lambda>j. cm_scale m (?G c c j)) = ?G (Suc c)" by (auto simp: fun_eq_iff less_Suc_eq)
    ultimately show ?thesis using P by (simp add: P_def)
  qed
  moreover have "P 0 s" using C by (simp add: P_def costs_are_def)
  ultimately obtain s1 where "floop (scale_word m) [0..<tg_words t] s = Some s1" "P (tg_words t) s1"
    using floop_upt [where P = P and f = "scale_word m" and n = "tg_words t" and s = s] by blast
  moreover have "with_costs t (?G (tg_words t)) = with_costs t (\<lambda>i j. cm_scale m (f i j))"
    by (rule with_costs_cong) simp
  ultimately show ?thesis by (simp add: P_def)
qed

text \<open>
  The whole of version 200, for a text whose costs are zero (\<open>add\<close> clears them): the same formula as
  for version 100, with the ids of the shared tables.
\<close>

lemma build_200_ok:
  assumes A: "alpha_ok A m" and S: "scale_ok A m" and I: "ids200_ok m t" and n: "0 < tg_words t" "tg_words t \<le> tg_max_words t"
    and m: "tg_model t = Some m" "cm_version m = 200"
    and z: "\<And>i j. i < tg_words t \<Longrightarrow> j < tg_ysize t \<Longrightarrow> nd_cost (tg_node t i j) = 0"
  shows "build_features t = Some (0, with_costs t (\<lambda>i j. cm_scale m (weight_sum m (shared_ids m t (int i)) 6 j)))"
proof -
  have C: "costs_are A t 0 (\<lambda>_ _. 0) t" using with_costs_self [of t "\<lambda>_ _. 0"] z by (simp add: costs_are_def)
  obtain s1 where s1: "first_features m t = Some s1" "costs_are A t 6 (shared_sum m t 0) s1"
    using first_features_ok [OF A I n(2,1) C] by blast
  have "\<exists>s'. shared_features m c s = Some s' \<and> costs_are A t 6 (shared_sum m t (Suc c)) s'"
    if "c < tg_words t" "costs_are A t 6 (shared_sum m t c) s" for c s
    by (rule shared_features_ok [OF A I n(2) that])
  then obtain s2 where s2: "floop (shared_features m) [0..<tg_words t] s1 = Some s2"
    "costs_are A t 6 (shared_sum m t (tg_words t)) s2"
    using floop_upt [where P = "\<lambda>c. costs_are A t 6 (shared_sum m t c)" and f = "shared_features m" and n = "tg_words t", OF s1(2)]
    by blast
  obtain s3 where s3: "last_features m s2 = Some s3" "costs_are A t 6 (\<lambda>i. weight_sum m (shared_ids m t (int i)) 6) s3"
    using last_features_ok [OF A I n(2,1) s2(2)] by blast
  have "tg_words s1 = tg_words t" "tg_words s3 = tg_words t" using s1(2) s3(2) by (simp_all add: costs_are_def)
  then show ?thesis
    using n(1) m s1(1) s2(1) s3(1) scale_words_ok [OF S n(2) s3(2)] by (simp add: build_features_def)
qed

text \<open>Only the costs of the nodes matter, not the model they were computed with.\<close>

lemma templ_id_model [simp]: "templ_id m (t\<lparr>tg_model := x\<rparr>) = templ_id m t"
  by (simp add: templ_id_def get_index_def fun_eq_iff cong: if_cong)

lemma shared_id_model [simp]: "shared_id m (t\<lparr>tg_model := x\<rparr>) = shared_id m t"
  by (simp add: shared_id_def word_at_def get_index_def fun_eq_iff cong: if_cong)

lemma ids_ok_model [simp]:
  "ids100_ok m (t\<lparr>tg_model := x\<rparr>) = ids100_ok m t" "ids200_ok m (t\<lparr>tg_model := x\<rparr>) = ids200_ok m t"
  by (simp_all add: ids100_ok_def ids200_ok_def templ_ids_def word_at_def get_index_def cong: if_cong)

lemma with_costs_model: "tg_node (with_costs (t\<lparr>tg_model := x\<rparr>) f) = tg_node (with_costs t f)"
  by (simp add: with_costs_def cong: if_cong)

text \<open>
  C34 A model of version 100 looks up the six templates of every word; one of version 200 looks up
  every word and pair once and shares the weights among the neighbours through two tables. When the
  tables give the ids the templates give, both compute the same node costs, namely the scaled sums
  of the six weights; no lookup leaves an array and no sum overflows.
\<close>

theorem shared_tables_equal:
  assumes "alpha_ok A m" "scale_ok A m" "ids100_ok m t" "cm_version m = 100" "cm_templs m = 6"
    and "cm_alpha m' = cm_alpha m" "cm_scale m' = cm_scale m" "ids200_ok m' t" "cm_version m' = 200"
    and ids: "\<And>i k. i < tg_words t \<Longrightarrow> k < 6 \<Longrightarrow> shared_ids m' t (int i) k = templ_ids m t i k"
    and n: "0 < tg_words t" "tg_words t \<le> tg_max_words t"
    and z: "\<And>i j. i < tg_words t \<Longrightarrow> j < tg_ysize t \<Longrightarrow> nd_cost (tg_node t i j) = 0"
  shows "\<exists>t1 t2. build_features (t\<lparr>tg_model := Some m\<rparr>) = Some (0, t1) \<and>
    build_features (t\<lparr>tg_model := Some m'\<rparr>) = Some (0, t2) \<and> tg_node t1 = tg_node t2 \<and>
    (\<forall>i < tg_words t. \<forall>j < tg_ysize t. nd_cost (tg_node t1 i j) = cm_scale m (\<Sum>k<6. al m (templ_ids m t i k) j))"
proof -
  let ?t = "t\<lparr>tg_model := Some m\<rparr>" and ?t' = "t\<lparr>tg_model := Some m'\<rparr>"
  let ?f = "\<lambda>i j. cm_scale m (weight_sum m (templ_ids m t i) 6 j)"
  have A': "alpha_ok A m'" "scale_ok A m'" using assms(1,2,6,7) by (simp_all add: alpha_ok_def scale_ok_def)
  have t100: "templ_ids m ?t = templ_ids m t" by (simp add: templ_ids_def fun_eq_iff)
  have 1: "build_features ?t = Some (0, with_costs ?t ?f)"
    using build_100_ok [OF assms(1,2), of ?t] assms(3-5) n by (simp add: t100)
  have 2: "build_features ?t' = Some (0, with_costs ?t' (\<lambda>i j. cm_scale m' (weight_sum m' (shared_ids m' ?t' (int i)) 6 j)))"
    using build_200_ok [OF A', of ?t'] assms(8,9) n z by simp
  have "weight_sum m' (shared_ids m' ?t' (int i)) 6 j = weight_sum m (templ_ids m t i) 6 j" if "i < tg_words t" for i j
    using ids [OF that] assms(6) by (simp add: weight_sum_def shared_ids_def al_def cong: if_cong)
  then have 3: "with_costs t (\<lambda>i j. cm_scale m' (weight_sum m' (shared_ids m' ?t' (int i)) 6 j)) = with_costs t ?f"
    using assms(7) by (intro with_costs_cong) simp
  have "tg_node (with_costs t ?f) i j = (tg_node t i j)\<lparr>nd_cost := ?f i j\<rparr>" if "i < tg_words t" "j < tg_ysize t" for i j
    using that by (simp add: with_costs_def)
  then show ?thesis using 1 2 3 by (simp add: with_costs_model weight_sum_def)
qed

definition small_model :: "nat \<Rightarrow> crf_model" where
  "small_model v = \<lparr>cm_array = (replicate 258 (1, 1))[1 := (-5, 1)], cm_alpha = [0, 0, 0, 0, 10, 20], cm_bpos = 0, cm_dan = replicate 10 4, cm_zu = replicate 10 4,
     cm_ysize = 2, cm_ynames = [''B'', ''E_x''], cm_version = v, cm_templs = 6, cm_scale = (\<lambda>x. x), cm_ready = True\<rparr>"

definition small_tag :: crf_tag where
  "small_tag = (crf_tag_new 0 3 10)\<lparr>tg_ysize := 2, tg_words := 2, tg_x := (\<lambda>i. if i = 0 then ''ab'' else ''c'')\<rparr>"

lemma small_fields [simp]: "tg_words small_tag = 2" "tg_ysize small_tag = 2" "tg_max_words small_tag = 3"
  "cm_alpha (small_model v) = [0, 0, 0, 0, 10, 20]" "cm_dan (small_model v) = replicate 10 4" "cm_zu (small_model v) = replicate 10 4"
  "cm_version (small_model v) = v" "cm_templs (small_model v) = 6" "cm_scale (small_model v) = (\<lambda>x. x)"
  by (simp_all add: small_tag_def crf_tag_new_def small_model_def)

text \<open>Every key is found in the small model, with the id 4.\<close>

lemma small_rule:
  assumes "pos < 258" "pos \<noteq> 1"
  shows "\<exists>tmp. rule_loop (small_model v) cs flag pos = Some (0, tmp, if flag \<and> cs \<noteq> [] then 4 else -1) \<and> tmp < 258 \<and> tmp \<noteq> 1"
  using assms
proof (induction cs arbitrary: pos)
  case (Cons c cs)
  have c: "0 \<le> (of_char c :: int)" "(of_char c :: int) < 256" by (auto simp: of_char_def)
  let ?q = "nat (of_char c + 2)"
  have da: "da_at (small_model v) p = Some (1, 1)" if "p < 258" "p \<noteq> 1" for p
    using that by (simp add: da_at_def rd_def small_model_def)
  have q: "?q < 258" "?q \<noteq> 1" using c by auto
  have t: "da_at (small_model v) 1 = Some (-5, 1)" by (simp add: da_at_def rd_def small_model_def)
  have "i32 (1 + of_char c) = Some (1 + of_char c)" "i32 (1 + of_char c + 1) = Some (of_char c + 2)" "u32 (of_char c + 2) = ?q"
    using c by (simp_all add: i32_def u32_def)
  then have step: "rule_loop (small_model v) (c # cs) flag pos =
      (if flag \<and> cs = [] then Some (0, ?q, 4) else rule_loop (small_model v) cs flag ?q)"
    unfolding rule_loop.simps Let_def by (simp only: da [OF Cons.prems] da [OF q] Option.bind.simps prod.case)
      (simp add: u32_def i32_def t [simplified])
  show ?case
  proof (cases "flag \<and> cs = []")
    case True
    then show ?thesis using step q by simp
  next
    case False
    then have r: "rule_loop (small_model v) (c # cs) flag pos = rule_loop (small_model v) cs flag ?q" by (simp only: step if_False)
    have f: "(flag \<and> c # cs \<noteq> []) = (flag \<and> cs \<noteq> [])" using False by blast
    show ?thesis unfolding r f by (rule Cons.IH [OF q])
  qed
qed simp

lemma small_single: "a \<noteq> [] \<Longrightarrow> single_id (small_model v) key a = Some 4"
proof -
  assume a: "a \<noteq> []"
  obtain p where p: "rule_loop (small_model v) key False 0 = Some (0, p, -1)" "p < 258" "p \<noteq> 1"
    using small_rule [of 0 v key False] by auto
  obtain q where "rule_loop (small_model v) a True p = Some (0, q, 4)"
    using small_rule [OF p(2,3), of v a True] a by auto
  then show ?thesis by (simp add: single_id_def apply_rule_def p)
qed

lemma small_pair: "b \<noteq> [] \<Longrightarrow> pair_id (small_model v) key a b = Some 4"
proof -
  assume b: "b \<noteq> []"
  obtain p where p: "rule_loop (small_model v) key False 0 = Some (0, p, -1)" "p < 258" "p \<noteq> 1"
    using small_rule [of 0 v key False] by auto
  obtain q where q: "rule_loop (small_model v) a False p = Some (0, q, -1)" "q < 258" "q \<noteq> 1"
    using small_rule [OF p(2,3), of v a False] by auto
  obtain r where r: "rule_loop (small_model v) ''/'' False q = Some (0, r, -1)" "r < 258" "r \<noteq> 1"
    using small_rule [OF q(2,3), of v "''/''" False] by auto
  obtain s where "rule_loop (small_model v) b True r = Some (0, s, 4)"
    using small_rule [OF r(2,3), of v b True] b by auto
  then show ?thesis by (simp add: pair_id_def apply_rule_def p q r del: rule_loop.simps)
qed

lemma small_word: "-1 \<le> i \<Longrightarrow> i \<le> 2 \<Longrightarrow> get_index small_tag i = Some (word_at small_tag i) \<and> word_at small_tag i \<noteq> []"
  by (auto simp: word_at_def get_index_def BOS_def EOS_def rd_def small_tag_def)

lemma small_templ: "i < 2 \<Longrightarrow> k < 6 \<Longrightarrow> templ_id (small_model v) small_tag i k = Some 4"
  by (auto simp: templ_id_def rd_def feature_keys_def small_single small_pair small_word)

lemma small_shared:
  "-1 \<le> i \<Longrightarrow> i \<le> 2 \<Longrightarrow> k < 3 \<Longrightarrow> dan_at (small_model v) (word_at small_tag i) k = Some 4"
  "-1 \<le> i \<Longrightarrow> i < 2 \<Longrightarrow> k < 2 \<Longrightarrow> zu_at (small_model v) (word_at small_tag i) (word_at small_tag (i + 1)) k = Some 4"
  using small_word [of i] small_word [of "i + 1"]
  by (auto simp: dan_at_def zu_at_def small_single small_pair rd_def)

lemma small_ids: "ids100_ok (small_model 100) small_tag" "ids200_ok (small_model 200) small_tag"
proof -
  have "id_ok (small_model v) 2 4" for v by (simp add: id_ok_def)
  then show "ids100_ok (small_model 100) small_tag" "ids200_ok (small_model 200) small_tag"
    using small_word by (auto simp: ids100_ok_def ids200_ok_def templ_ids_def small_templ small_shared small_pair)
qed

lemma small_same:
  "i < 2 \<Longrightarrow> k < 6 \<Longrightarrow> shared_ids (small_model 200) small_tag (int i) k = templ_ids (small_model 100) small_tag i k"
  using small_word [of "int i + 1"] small_shared(2) [of "int i + int k - 4" "k - 3" 200]
  by (auto simp: shared_ids_def shared_id_def templ_ids_def small_templ small_shared small_pair)

lemma shared_tables_equal_witness:
  "\<exists>t1 t2. build_features (small_tag\<lparr>tg_model := Some (small_model 100)\<rparr>) = Some (0, t1) \<and>
    build_features (small_tag\<lparr>tg_model := Some (small_model 200)\<rparr>) = Some (0, t2) \<and> tg_node t1 = tg_node t2 \<and>
    nd_cost (tg_node t1 1 1) = 120"
proof -
  have "\<exists>t1 t2. build_features (small_tag\<lparr>tg_model := Some (small_model 100)\<rparr>) = Some (0, t1) \<and>
    build_features (small_tag\<lparr>tg_model := Some (small_model 200)\<rparr>) = Some (0, t2) \<and> tg_node t1 = tg_node t2 \<and>
    (\<forall>i < tg_words small_tag. \<forall>j < tg_ysize small_tag. nd_cost (tg_node t1 i j) =
      cm_scale (small_model 100) (\<Sum>k<6. al (small_model 100) (templ_ids (small_model 100) small_tag i k) j))"
  proof (rule shared_tables_equal [where A = 20 and m' = "small_model 200" and m = "small_model 100"])
    show "shared_ids (small_model 200) small_tag (int i) k = templ_ids (small_model 100) small_tag i k"
      if "i < tg_words small_tag" "k < 6" for i k using small_same that by simp
    show "scale_ok 20 (small_model 100)" by (auto simp: scale_ok_def i32_def)
    show "nd_cost (tg_node small_tag i j) = 0" for i j by (simp add: small_tag_def crf_tag_new_def)
  qed (use small_ids in \<open>simp_all add: alpha_ok_def\<close>)
  moreover have "cm_scale (small_model 100) (\<Sum>k<6. al (small_model 100) (templ_ids (small_model 100) small_tag 1 k) 1) = 120"
    by (simp add: templ_ids_def small_templ al_def)
  moreover have "1 < tg_words small_tag" "1 < tg_ysize small_tag" by simp_all
  ultimately show ?thesis by metis
qed

end
