(* ===== verification/CrfLoad.thy ===== *)
theory CrfLoad
  imports CrfViterbi
begin

text \<open>
  Loading a CRF model, \<open>model.cpp\<close> and \<open>darts.h\<close> of \<open>src/libsrc/libcrf_2-1-2-0_PD_BL\<close>: the bytes of
  the file are cut into the class names, the templates, the double array, the weights and the tables
  of version 200. The names are counted in one scan and copied in a second; the weights of the pairs
  of classes stay in the array of weights, the model keeps where they begin. The conversions of
  floating point numbers are parameters. The file of given contents is written down as the code
  expects it, and loading it gives the contents back.
\<close>

subsection \<open>Reading the file\<close>

definition MAX_TEMPLS_NUM :: nat where "MAX_TEMPLS_NUM = 100"
definition MAX_TEMPLS_LEN :: nat where "MAX_TEMPLS_LEN = 100"

definition read_ptr :: "nat \<Rightarrow> string \<Rightarrow> (string \<times> string) option" where
  "read_ptr n p = (if n \<le> length p then Some (take n p, drop n p) else None)"

definition le_nat :: "string \<Rightarrow> nat" where
  "le_nat bs = foldr (\<lambda>c v. of_char c + 256 * v) bs 0"

definition le_int :: "string \<Rightarrow> int" where
  "le_int bs = (let v = int (le_nat bs) in if v < 2147483648 then v else v - 4294967296)"

definition read_u32 :: "string \<Rightarrow> (nat \<times> string) option" where
  "read_u32 p = do { (b, p1) \<leftarrow> read_ptr 4 p; Some (le_nat b, p1) }"

definition read_i32 :: "string \<Rightarrow> (int \<times> string) option" where
  "read_i32 p = do { (b, p1) \<leftarrow> read_ptr 4 p; Some (le_int b, p1) }"

text \<open>An array of \<open>n\<close> numbers of four bytes.\<close>

primrec read_words :: "nat \<Rightarrow> string \<Rightarrow> (string list \<times> string) option" where
  "read_words 0 p = Some ([], p)"
| "read_words (Suc n) p = do { (b, p1) \<leftarrow> read_ptr 4 p; (bs, p2) \<leftarrow> read_words n p1; Some (b # bs, p2) }"

text \<open>
  The class names start in the first \<open>sz\<close> bytes of \<open>p\<close>; the last one may end behind them, as the
  loops only test where a name starts. The first scan counts the names and takes the largest length,
  the second copies them into an array of that many cells.
\<close>

function count_names :: "nat \<Rightarrow> string \<Rightarrow> nat \<Rightarrow> nat \<Rightarrow> (nat \<times> nat) option" where
  "count_names sz p ysize maxlen =
     (if sz = 0 then Some (ysize, maxlen)
      else if CHR 0x00 \<notin> set p then None
      else (let n = length (takeWhile (\<lambda>c. c \<noteq> CHR 0x00) p) in
        count_names (sz - (n + 1)) (drop (n + 1) p) (ysize + 1) (if n > maxlen then n else maxlen)))"
  by pat_completeness auto
termination by (relation "measure fst") auto

function copy_names :: "nat \<Rightarrow> string \<Rightarrow> nat \<Rightarrow> nat \<Rightarrow> string list \<Rightarrow> string list option" where
  "copy_names sz p maxlen ycount ys =
     (if sz = 0 then Some ys
      else if ycount \<ge> length ys then None
      else if CHR 0x00 \<notin> set p then None
      else (let s = takeWhile (\<lambda>c. c \<noteq> CHR 0x00) p; n = length s in
        copy_names (sz - (n + 1)) (drop (n + 1) p) maxlen (ycount + 1) (ys[ycount := take maxlen s])))"
  by pat_completeness auto
termination by (relation "measure fst") auto

declare count_names.simps [simp del] copy_names.simps [simp del]

definition load_names :: "nat \<Rightarrow> string \<Rightarrow> (nat \<times> string list) option" where
  "load_names sz p = do {
     (ysize, maxlen) \<leftarrow> count_names sz p 0 0;
     ys \<leftarrow> copy_names sz p maxlen 0 (replicate ysize []);
     Some (ysize, ys) }"

text \<open>
  The templates, with the unigram and the bigram templates read so far; the error is a full array.
  An empty string makes the loop skip the string after it.
\<close>

function load_templs :: "nat \<Rightarrow> string \<Rightarrow> string list \<Rightarrow> string list \<Rightarrow> (int + string list \<times> string list) option" where
  "load_templs sz p us bs =
     (if sz = 0 then Some (Inr (us, bs))
      else if CHR 0x00 \<notin> set p then None
      else (let v = takeWhile (\<lambda>c. c \<noteq> CHR 0x00) p; n = length v + 1 in
        if v = [] then
          (if CHR 0x00 \<notin> set (tl p) then None
           else let n1 = n + length (takeWhile (\<lambda>c. c \<noteq> CHR 0x00) (tl p)) + 1 in load_templs (sz - n1) (drop n1 p) us bs)
        else if hd v = CHR ''U'' then
          (if length us > MAX_TEMPLS_NUM then Some (Inl (-1))
           else if length us \<ge> MAX_TEMPLS_NUM then None
           else load_templs (sz - n) (drop n p) (us @ [take MAX_TEMPLS_LEN v]) bs)
        else if hd v = CHR ''B'' then
          (if length bs > MAX_TEMPLS_NUM then Some (Inl (-1))
           else if length bs \<ge> MAX_TEMPLS_NUM then None
           else load_templs (sz - n) (drop n p) us (bs @ [take MAX_TEMPLS_LEN v]))
        else load_templs (sz - n) (drop n p) us bs))"
  by pat_completeness auto
termination by (relation "measure (\<lambda>(sz, _). sz)") auto

declare load_templs.simps [simp del]

text \<open>The units of the double array.\<close>

primrec read_units :: "nat \<Rightarrow> string \<Rightarrow> (int \<times> nat) list" where
  "read_units 0 p = []"
| "read_units (Suc n) p = (le_int (take 4 p), le_nat (take 4 (drop 4 p))) # read_units n (drop 8 p)"

definition exact_match_search :: "(int \<times> nat) list \<Rightarrow> char \<Rightarrow> nat \<Rightarrow> (int \<times> nat \<times> int) option" where
  "exact_match_search a key pos = do {
     (b, _) \<leftarrow> rd a (int pos);
     b1 \<leftarrow> i32 (b + of_char key);
     b2 \<leftarrow> i32 (b1 + 1);
     (base, check) \<leftarrow> rd a (int (u32 b2));
     if u32 b \<noteq> check then Some (-1, pos, -1)
     else do {
       (n, check1) \<leftarrow> rd a (int (u32 base));
       if u32 base = check1 \<and> n < 0 then do { n1 \<leftarrow> i32 (- n); Some (1, u32 b2, n1 - 1) }
       else Some (1, u32 b2, -1) } }"

definition get_b_templs_start :: "(int \<times> nat) list \<Rightarrow> string list \<Rightarrow> nat option option" where
  "get_b_templs_start a bs = (case bs of [] \<Rightarrow> None
     | s # _ \<Rightarrow> do {
         (_, _, iid) \<leftarrow> exact_match_search a (case s of [] \<Rightarrow> CHR 0x00 | c # _ \<Rightarrow> c) 0;
         Some (if iid = -1 then None else Some (nat iid)) })"

text \<open>The weights of the pairs of \<open>y\<close> classes are scaled where they are, from \<open>b\<close> on.\<close>

definition scale_path :: "(int \<Rightarrow> int) \<Rightarrow> nat \<Rightarrow> nat \<Rightarrow> int list \<Rightarrow> int list option" where
  "scale_path f b i alpha = do { a \<leftarrow> rd alpha (int (b + i)); Some (alpha[b + i := f a]) }"

definition scale_paths :: "(int \<Rightarrow> int) \<Rightarrow> nat \<Rightarrow> nat \<Rightarrow> int list \<Rightarrow> int list option" where
  "scale_paths f y b alpha = floop (scale_path f b) [0..<y * y] alpha"

subsection \<open>The model\<close>

text \<open>
  \<open>fconv\<close> is the weight of a float times \<open>CONV_INT_FACTOR\<close>, \<open>pscale\<close> the product with the path factor
  and the cost factor of the file, \<open>cscale\<close> that with the cost factor. The array of weights has one
  entry more than the file. Memory is always available.
\<close>

definition load_model :: "(string \<Rightarrow> int) \<Rightarrow> (string \<Rightarrow> int \<Rightarrow> int) \<Rightarrow> (string \<Rightarrow> int \<Rightarrow> int) \<Rightarrow> string option \<Rightarrow>
    (int + crf_model) option" where
  "load_model fconv pscale cscale f = (case f of None \<Rightarrow> Some (Inl (-1)) | Some bytes \<Rightarrow> do {
     (version, p1) \<leftarrow> read_u32 bytes;
     (_, p2) \<leftarrow> read_i32 p1;
     (cf, p3) \<leftarrow> read_ptr 8 p2;
     (maxid, p4) \<leftarrow> read_u32 p3;
     (xsize, p5) \<leftarrow> read_u32 p4;
     (dsize, p6) \<leftarrow> read_u32 p5;
     (y_size, p7) \<leftarrow> read_u32 p6;
     (_, p8) \<leftarrow> read_ptr y_size p7;
     (ysize, names) \<leftarrow> load_names y_size p7;
     (t_size, p9) \<leftarrow> read_u32 p8;
     (_, p10) \<leftarrow> read_ptr t_size p9;
     templs \<leftarrow> load_templs t_size p9 [] [];
     (case templs of Inl e \<Rightarrow> Some (Inl e)
      | Inr (us, bs) \<Rightarrow>
        if length bs \<noteq> 1 \<or> hd bs \<noteq> ''B'' then Some (Inl (-1))
        else do {
          (da, p11) \<leftarrow> read_ptr dsize p10;
          (ws, p12) \<leftarrow> read_words maxid p11;
          let alpha = map fconv ws @ [0]; units = read_units (dsize div 8) da in do {
            tabs \<leftarrow> (if version = 100 then Some (if p12 = [] then Inr ([], []) else Inl (-1))
              else do {
                (dan_size, p13) \<leftarrow> read_i32 p12;
                (zu_size, p14) \<leftarrow> read_i32 p13;
                if dan_size < 0 \<or> zu_size < 0 then Some (Inl (-1))
                else do {
                  (dan, p15) \<leftarrow> read_words (nat dan_size) p14;
                  (zu, p16) \<leftarrow> read_words (nat zu_size) p15;
                  Some (if p16 = [] then Inr (map le_int dan, map le_int zu) else Inl (-1)) } });
            (case tabs of Inl e \<Rightarrow> Some (Inl e)
             | Inr (dan, zu) \<Rightarrow> do {
                 start \<leftarrow> get_b_templs_start units bs;
                 (case start of None \<Rightarrow> Some (Inl (-1))
                  | Some b \<Rightarrow> do {
                      alpha1 \<leftarrow> scale_paths (pscale cf) ysize b alpha;
                      Some (Inr \<lparr>cm_array = units, cm_alpha = alpha1, cm_bpos = b, cm_dan = dan, cm_zu = zu,
                        cm_ysize = ysize, cm_ynames = names, cm_version = version, cm_templs = length us,
                        cm_scale = cscale cf, cm_ready = True\<rparr>) }) }) } }) })"

text \<open>\<open>crf_load_model\<close> sets the cost factor to 1, with which the scaling of an int is the identity.\<close>

definition crf_load_model :: "(string \<Rightarrow> int) \<Rightarrow> (string \<Rightarrow> int \<Rightarrow> int) \<Rightarrow> (string \<Rightarrow> int \<Rightarrow> int) \<Rightarrow> string option \<Rightarrow>
    (int + crf_model) option" where
  "crf_load_model fconv pscale cscale f = do {
     r \<leftarrow> load_model fconv pscale cscale f;
     Some (case r of Inl _ \<Rightarrow> Inl (-1) | Inr m \<Rightarrow> Inr (m\<lparr>cm_scale := (\<lambda>x. x)\<rparr>)) }"

subsection \<open>Files and their bytes\<close>

text \<open>What a file holds; the weights and the cost factor are kept as the bytes of their floats.\<close>

record model_file =
  mf_version :: nat
  mf_type :: int
  mf_factor :: string
  mf_xsize :: nat
  mf_names :: "string list"
  mf_templs :: "string list"
  mf_units :: "(int \<times> nat) list"
  mf_weights :: "string list"
  mf_dan :: "int list"
  mf_zu :: "int list"

definition le4 :: "nat \<Rightarrow> string" where
  "le4 n = map (\<lambda>k. char_of (n div 256 ^ k mod 256)) [0..<4]"

definition le4i :: "int \<Rightarrow> string" where
  "le4i i = le4 (nat (i mod 4294967296))"

definition terminated :: "string list \<Rightarrow> string" where
  "terminated ss = concat (map (\<lambda>s. s @ [CHR 0x00]) ss)"

definition unit_bytes :: "int \<times> nat \<Rightarrow> string" where
  "unit_bytes u = le4i (fst u) @ le4 (snd u)"

definition file_of :: "model_file \<Rightarrow> string" where
  "file_of v = le4 (mf_version v) @ le4i (mf_type v) @ mf_factor v @ le4 (length (mf_weights v)) @ le4 (mf_xsize v) @
     le4 (8 * length (mf_units v)) @ le4 (length (terminated (mf_names v))) @ terminated (mf_names v) @
     le4 (length (terminated (mf_templs v))) @ terminated (mf_templs v) @ concat (map unit_bytes (mf_units v)) @ concat (mf_weights v) @
     (if mf_version v = 100 then [] else le4i (int (length (mf_dan v))) @ le4i (int (length (mf_zu v))) @
       concat (map le4i (mf_dan v)) @ concat (map le4i (mf_zu v)))"

text \<open>Numbers that fit their fields, names and templates without NUL, at most 100 unigram templates and the one bigram template.\<close>

definition int32 :: "int \<Rightarrow> bool" where "int32 i \<longleftrightarrow> -2147483648 \<le> i \<and> i < 2147483648"

definition file_ok :: "model_file \<Rightarrow> bool" where
  "file_ok v \<longleftrightarrow> mf_version v < 2 ^ 32 \<and> int32 (mf_type v) \<and> length (mf_factor v) = 8 \<and> mf_xsize v < 2 ^ 32 \<and> length (mf_weights v) < 2 ^ 32 \<and>
     8 * length (mf_units v) < 2 ^ 32 \<and> length (terminated (mf_names v)) < 2 ^ 32 \<and> length (terminated (mf_templs v)) < 2 ^ 32 \<and>
     (\<forall>s \<in> set (mf_names v). CHR 0x00 \<notin> set s) \<and> (\<forall>s \<in> set (mf_templs v). s \<noteq> [] \<and> CHR 0x00 \<notin> set s) \<and>
     length (filter (\<lambda>s. hd s = CHR ''U'') (mf_templs v)) \<le> MAX_TEMPLS_NUM \<and> filter (\<lambda>s. hd s = CHR ''B'') (mf_templs v) = [''B''] \<and>
     (\<forall>u \<in> set (mf_units v). int32 (fst u) \<and> snd u < 2 ^ 32) \<and> (\<forall>w \<in> set (mf_weights v). length w = 4) \<and>
     length (mf_dan v) < 2 ^ 31 \<and> length (mf_zu v) < 2 ^ 31 \<and> (\<forall>i \<in> set (mf_dan v) \<union> set (mf_zu v). int32 i)"

lemma le4_length [simp]: "length (le4 n) = 4" "length (le4i i) = 4" "length (unit_bytes u) = 8"
  by (simp_all add: le4_def le4i_def unit_bytes_def)

lemma le_nat_le4 [simp]: "n < 2 ^ 32 \<Longrightarrow> le_nat (le4 n) = n"
proof -
  assume n: "n < 2 ^ 32"
  have "n = 256 * (n div 256) + n mod 256" "n div 256 = 256 * (n div 65536) + n div 256 mod 256"
    "n div 65536 = 256 * (n div 16777216) + n div 65536 mod 256"
    using div_mult2_eq [of n 256 256] div_mult2_eq [of n 65536 256] by simp_all
  moreover have "le_nat (le4 n) = n mod 256 + 256 * (n div 256 mod 256) + 65536 * (n div 65536 mod 256) + 16777216 * (n div 16777216)"
    using n by (simp add: le4_def le_nat_def upt_rec)
  ultimately show ?thesis by linarith
qed

lemma le_int_le4i [simp]: "int32 i \<Longrightarrow> le_int (le4i i) = i"
proof -
  assume i: "int32 i"
  have "le_nat (le4i i) = nat (i mod 4294967296)" by (simp add: le4i_def nat_less_iff)
  moreover have "i mod 4294967296 = (if 0 \<le> i then i else i + 4294967296)"
    using i mod_pos_pos_trivial [of "i + 4294967296" 4294967296] by (auto simp: int32_def)
  ultimately show ?thesis using i by (auto simp: le_int_def int32_def Let_def)
qed

lemma read_ptr_append [simp]: "length p = n \<Longrightarrow> read_ptr n (p @ q) = Some (p, q)"
  by (simp add: read_ptr_def)

lemma read_nums [simp]: "n < 2 ^ 32 \<Longrightarrow> read_u32 (le4 n @ q) = Some (n, q)" "int32 i \<Longrightarrow> read_i32 (le4i i @ q) = Some (i, q)"
  by (simp_all add: read_u32_def read_i32_def)

lemma read_words_ok: "\<forall>w \<in> set ws. length w = 4 \<Longrightarrow> read_words (length ws) (concat ws @ q) = Some (ws, q)"
  by (induction ws) simp_all

lemma read_units_ok: "\<forall>u \<in> set us. int32 (fst u) \<and> snd u < 2 ^ 32 \<Longrightarrow> read_units (length us) (concat (map unit_bytes us)) = us"
proof (induction us)
  case (Cons u us)
  have "take 4 (unit_bytes u @ q) = le4i (fst u)" "take 4 (drop 4 (unit_bytes u @ q)) = le4 (snd u)" "drop 8 (unit_bytes u @ q) = q" for q
    by (simp_all add: unit_bytes_def)
  then show ?case using Cons by (simp del: append_assoc)
qed simp

subsection \<open>Names and templates are read back\<close>

lemma terminated_simps [simp]: "terminated [] = []" "terminated (s # ss) = s @ CHR 0x00 # terminated ss"
  by (simp_all add: terminated_def)

lemma first_terminated: "CHR 0x00 \<notin> set s \<Longrightarrow> takeWhile (\<lambda>c. c \<noteq> CHR 0x00) (s @ CHR 0x00 # q) = s"
  by (subst takeWhile_append2) auto

lemma count_names_ok:
  "\<forall>s \<in> set ss. CHR 0x00 \<notin> set s \<Longrightarrow>
    count_names (length (terminated ss)) (terminated ss @ q) n m = Some (n + length ss, fold (\<lambda>s m. max m (length s)) ss m)"
proof (induction ss arbitrary: n m)
  case (Cons s ss)
  have "(if length s > m then length s else m) = max m (length s)" by simp
  then show ?case using Cons by (subst count_names.simps) (simp add: first_terminated)
qed (simp add: count_names.simps)

lemma fold_max: "m \<le> fold (\<lambda>s m. max m (length s)) ss m" "s \<in> set ss \<Longrightarrow> length s \<le> fold (\<lambda>s m. max m (length s)) ss m"
proof (induction ss arbitrary: m)
  case (Cons x ss)
  { case 1 show ?case using Cons.IH(1) [of "max m (length x)"] by simp }
  { case 2 show ?case
    proof (cases "s = x")
      case True
      then show ?thesis using Cons.IH(1) [of "max m (length x)"] by simp
    qed (use 2 Cons.IH(2) in simp) }
qed simp_all

lemma copy_names_ok:
  "\<forall>s \<in> set ss. CHR 0x00 \<notin> set s \<and> length s \<le> m \<Longrightarrow> k + length ss = length ys \<Longrightarrow>
    copy_names (length (terminated ss)) (terminated ss @ q) m k ys = Some (take k ys @ ss)"
proof (induction ss arbitrary: k ys)
  case (Cons s ss)
  then show ?case by (subst copy_names.simps) (simp add: first_terminated take_Suc_conv_app_nth)
qed (simp add: copy_names.simps)

lemma load_names_ok:
  assumes "\<forall>s \<in> set ss. CHR 0x00 \<notin> set s"
  shows "load_names (length (terminated ss)) (terminated ss @ q) = Some (length ss, ss)"
proof -
  have "\<forall>s \<in> set ss. CHR 0x00 \<notin> set s \<and> length s \<le> fold (\<lambda>s m. max m (length s)) ss 0" using assms fold_max(2) by blast
  then show ?thesis using assms by (simp add: load_names_def count_names_ok copy_names_ok)
qed

lemma load_templs_ok:
  "\<forall>s \<in> set ss. s \<noteq> [] \<and> CHR 0x00 \<notin> set s \<Longrightarrow> length us + length (filter (\<lambda>s. hd s = CHR ''U'') ss) \<le> MAX_TEMPLS_NUM \<Longrightarrow>
    length bs + length (filter (\<lambda>s. hd s = CHR ''B'') ss) \<le> MAX_TEMPLS_NUM \<Longrightarrow>
    load_templs (length (terminated ss)) (terminated ss @ q) us bs =
      Some (Inr (us @ map (take MAX_TEMPLS_LEN) (filter (\<lambda>s. hd s = CHR ''U'') ss), bs @ map (take MAX_TEMPLS_LEN) (filter (\<lambda>s. hd s = CHR ''B'') ss)))"
proof (induction ss arbitrary: us bs)
  case (Cons s ss)
  have s: "s \<noteq> []" "CHR 0x00 \<notin> set s" using Cons.prems(1) by simp_all
  have st: "load_templs (length (terminated (s # ss))) (terminated (s # ss) @ q) us bs =
    (if hd s = CHR ''U'' then (if length us > MAX_TEMPLS_NUM then Some (Inl (-1)) else if length us \<ge> MAX_TEMPLS_NUM then None
        else load_templs (length (terminated ss)) (terminated ss @ q) (us @ [take MAX_TEMPLS_LEN s]) bs)
     else if hd s = CHR ''B'' then (if length bs > MAX_TEMPLS_NUM then Some (Inl (-1)) else if length bs \<ge> MAX_TEMPLS_NUM then None
        else load_templs (length (terminated ss)) (terminated ss @ q) us (bs @ [take MAX_TEMPLS_LEN s]))
     else load_templs (length (terminated ss)) (terminated ss @ q) us bs)"
    using s by (subst load_templs.simps) (simp add: first_terminated Let_def)
  consider "hd s = CHR ''U''" | "hd s = CHR ''B''" | "hd s \<noteq> CHR ''U''" "hd s \<noteq> CHR ''B''" by blast
  then show ?case
  proof cases
    case 1
    then show ?thesis using Cons unfolding st by simp
  next
    case 2
    then show ?thesis using Cons unfolding st by simp
  next
    case 3
    then show ?thesis using Cons unfolding st by simp
  qed
qed (simp add: load_templs.simps)

subsection \<open>Scaling\<close>

lemma scale_paths_ok:
  assumes "b + y * y \<le> length alpha"
  shows "\<exists>alpha1. scale_paths f y b alpha = Some alpha1 \<and> length alpha1 = length alpha \<and>
    (\<forall>i < length alpha. alpha1 ! i = (if b \<le> i \<and> i < b + y * y then f (alpha ! i) else alpha ! i))"
proof -
  define P where "P = (\<lambda>k al. length al = length alpha \<and> (\<forall>i < length alpha. al ! i = (if b \<le> i \<and> i < b + k then f (alpha ! i) else alpha ! i)))"
  have "\<exists>al'. scale_path f b k al = Some al' \<and> P (Suc k) al'" if "k < y * y" "P k al" for k al
    using that assms by (auto simp: P_def scale_path_def rd_def nth_list_update nat_int_add)
  moreover have "P 0 alpha" by (simp add: P_def)
  ultimately show ?thesis
    using floop_upt [where P = P and f = "scale_path f b" and n = "y * y" and s = alpha] by (auto simp: scale_paths_def P_def)
qed

subsection \<open>A file loads to its model\<close>

text \<open>The weights as they are loaded: converted, with one entry more, those of the pairs scaled.\<close>

definition file_alpha :: "(string \<Rightarrow> int) \<Rightarrow> (string \<Rightarrow> int \<Rightarrow> int) \<Rightarrow> model_file \<Rightarrow> nat \<Rightarrow> int list" where
  "file_alpha fconv pscale v b = (let a = map fconv (mf_weights v) @ [0]; y = length (mf_names v) in
     map (\<lambda>i. if b \<le> i \<and> i < b + y * y then pscale (mf_factor v) (a ! i) else a ! i) [0..<length a])"

lemma scale_file:
  assumes "b + length (mf_names v) * length (mf_names v) \<le> length (mf_weights v) + 1"
  shows "scale_paths (pscale (mf_factor v)) (length (mf_names v)) b (map fconv (mf_weights v) @ [0]) = Some (file_alpha fconv pscale v b)"
proof -
  obtain al where al: "scale_paths (pscale (mf_factor v)) (length (mf_names v)) b (map fconv (mf_weights v) @ [0]) = Some al"
    "length al = length (mf_weights v) + 1"
    "\<forall>i < length (mf_weights v) + 1. al ! i = (if b \<le> i \<and> i < b + length (mf_names v) * length (mf_names v)
       then pscale (mf_factor v) ((map fconv (mf_weights v) @ [0]) ! i) else (map fconv (mf_weights v) @ [0]) ! i)"
    using scale_paths_ok [of b "length (mf_names v)" "map fconv (mf_weights v) @ [0]" "pscale (mf_factor v)"] assms by auto
  have "al = file_alpha fconv pscale v b"
    by (rule nth_equalityI) (use al(2,3) in \<open>simp_all add: file_alpha_def Let_def del: upt_Suc\<close>)
  then show ?thesis using al(1) by simp
qed

lemma load_file:
  assumes v: "file_ok v" and b: "get_b_templs_start (mf_units v) [''B''] = Some (Some b)"
    and room: "b + length (mf_names v) * length (mf_names v) \<le> length (mf_weights v) + 1"
  shows "load_model fconv pscale cscale (Some (file_of v)) = Some (Inr
    \<lparr>cm_array = mf_units v, cm_alpha = file_alpha fconv pscale v b, cm_bpos = b, cm_dan = (if mf_version v = 100 then [] else mf_dan v),
     cm_zu = (if mf_version v = 100 then [] else mf_zu v), cm_ysize = length (mf_names v), cm_ynames = mf_names v, cm_version = mf_version v,
     cm_templs = length (filter (\<lambda>s. hd s = CHR ''U'') (mf_templs v)), cm_scale = cscale (mf_factor v), cm_ready = True\<rparr>)"
proof -
  note k = v [unfolded file_ok_def]
  have w: "read_words (length (mf_weights v)) (concat (mf_weights v) @ q) = Some (mf_weights v, q)" for q
    using k read_words_ok by blast
  have n: "load_names (length (terminated (mf_names v))) (terminated (mf_names v) @ q) = Some (length (mf_names v), mf_names v)" for q
    using k load_names_ok by blast
  have t: "load_templs (length (terminated (mf_templs v))) (terminated (mf_templs v) @ q) [] [] =
      Some (Inr (map (take MAX_TEMPLS_LEN) (filter (\<lambda>s. hd s = CHR ''U'') (mf_templs v)), [''B'']))" for q
    using load_templs_ok [of "mf_templs v" "[]" "[]" q] k by (simp add: MAX_TEMPLS_NUM_def MAX_TEMPLS_LEN_def)
  have u: "read_units (length (mf_units v)) (concat (map unit_bytes (mf_units v))) = mf_units v" using k read_units_ok by blast
  have ul: "length (concat (map unit_bytes (mf_units v))) = 8 * length (mf_units v)" by (simp add: length_concat comp_def sum_list_triv)
  have rw: "read_words (length js) (concat (map le4i js) @ q) = Some (map le4i js, q)" for js q
    using read_words_ok [of "map le4i js" q] by simp
  have bk: "map le_int (map le4i js) = js" if "\<forall>i \<in> set js. int32 i" for js using that by (induction js) simp_all
  have i: "int32 (int (length (mf_dan v)))" "int32 (int (length (mf_zu v)))" using k by (simp_all add: int32_def)
  let ?tab = "if mf_version v = 100 then [] else le4i (int (length (mf_dan v))) @ le4i (int (length (mf_zu v))) @
       concat (map le4i (mf_dan v)) @ concat (map le4i (mf_zu v))"
  have tab: "(if mf_version v = 100 then Some (if ?tab = [] then Inr ([], []) else Inl (-1))
              else do {
                (dan_size, p13) \<leftarrow> read_i32 ?tab;
                (zu_size, p14) \<leftarrow> read_i32 p13;
                if dan_size < 0 \<or> zu_size < 0 then Some (Inl (-1))
                else do {
                  (dan, p15) \<leftarrow> read_words (nat dan_size) p14;
                  (zu, p16) \<leftarrow> read_words (nat zu_size) p15;
                  Some (if p16 = [] then Inr (map le_int dan, map le_int zu) else Inl (-1)) } }) =
     Some (Inr ((if mf_version v = 100 then [] else mf_dan v), (if mf_version v = 100 then [] else mf_zu v)) :: int + int list \<times> int list)"
  proof (cases "mf_version v = 100")
    case False
    have "map le_int (map le4i (mf_dan v)) = mf_dan v" "map le_int (map le4i (mf_zu v)) = mf_zu v" using k bk by blast+
    then show ?thesis using False i rw [of "mf_zu v" "[]"] by (simp add: rw del: map_map)
  qed simp
  show ?thesis
    unfolding load_model_def file_of_def option.case Let_def
    using k tab by (simp add: n t u ul w b scale_file [OF room])
qed

text \<open>
  C36 Loading reads back what a file holds. For contents whose numbers fit their fields, whose names
  and templates have no NUL, with the one bigram template \<open>B\<close> and the weights of the pairs of classes
  inside the weights, \<open>crf_load_model\<close> on the bytes of the file succeeds: the classes are counted and
  named as in the file, array, tables and weights are those of the file, and the cost of a pair of
  classes, read by a tagger, is the scaled weight at its place in the file.
\<close>

theorem load_model_reads_file:
  assumes v: "file_ok v" and b: "get_b_templs_start (mf_units v) [''B''] = Some (Some b)"
    and room: "b + length (mf_names v) * length (mf_names v) \<le> length (mf_weights v) + 1"
  shows "\<exists>m. crf_load_model fconv pscale cscale (Some (file_of v)) = Some (Inr m) \<and> cm_ready m \<and> cm_version m = mf_version v \<and>
    cm_ysize m = length (mf_names v) \<and> cm_ynames m = mf_names v \<and> cm_array m = mf_units v \<and>
    cm_templs m = length (filter (\<lambda>s. hd s = CHR ''U'') (mf_templs v)) \<and>
    (mf_version v \<noteq> 100 \<longrightarrow> cm_dan m = mf_dan v \<and> cm_zu m = mf_zu v) \<and>
    (\<forall>i < length (mf_weights v). \<not> (b \<le> i \<and> i < b + length (mf_names v) * length (mf_names v)) \<longrightarrow> cm_alpha m ! i = fconv (mf_weights v ! i)) \<and>
    (\<forall>t y1 y2. tg_model t = Some m \<and> tg_ysize t = cm_ysize m \<and> y1 < tg_ysize t \<and> y2 < tg_ysize t \<longrightarrow>
      path_cost t y1 y2 = Some (pscale (mf_factor v) ((map fconv (mf_weights v) @ [0]) ! (b + y1 * length (mf_names v) + y2))))"
proof -
  let ?y = "length (mf_names v)"
  have al: "length (file_alpha fconv pscale v b) = length (mf_weights v) + 1"
    "i < length (mf_weights v) + 1 \<Longrightarrow> file_alpha fconv pscale v b ! i = (if b \<le> i \<and> i < b + ?y * ?y
      then pscale (mf_factor v) ((map fconv (mf_weights v) @ [0]) ! i) else (map fconv (mf_weights v) @ [0]) ! i)" for i
    by (simp_all add: file_alpha_def Let_def del: upt_Suc)
  have pair: "b + y1 * ?y + y2 < b + ?y * ?y" if "y1 < ?y" "y2 < ?y" for y1 y2
  proof -
    have "y1 * ?y + y2 < (y1 + 1) * ?y" using that by simp
    also have "\<dots> \<le> ?y * ?y" using that by (intro mult_right_mono) simp_all
    finally show ?thesis by simp
  qed
  obtain m where m: "crf_load_model fconv pscale cscale (Some (file_of v)) = Some (Inr m)" "cm_ready m" "cm_version m = mf_version v"
    "cm_ysize m = ?y" "cm_ynames m = mf_names v" "cm_array m = mf_units v" "cm_templs m = length (filter (\<lambda>s. hd s = CHR ''U'') (mf_templs v))"
    "mf_version v \<noteq> 100 \<longrightarrow> cm_dan m = mf_dan v \<and> cm_zu m = mf_zu v" "cm_alpha m = file_alpha fconv pscale v b" "cm_bpos m = b"
    using load_file [OF v b room, of fconv pscale cscale] by (simp add: crf_load_model_def)
  have out: "cm_alpha m ! i = fconv (mf_weights v ! i)" if "i < length (mf_weights v)" "\<not> (b \<le> i \<and> i < b + ?y * ?y)" for i
    using that al(2) [of i] unfolding m(9) by (auto simp: nth_append)
  have cost: "path_cost t y1 y2 = Some (pscale (mf_factor v) ((map fconv (mf_weights v) @ [0]) ! (b + y1 * ?y + y2)))"
    if t: "tg_model t = Some m" "tg_ysize t = cm_ysize m" "y1 < tg_ysize t" "y2 < tg_ysize t" for t y1 y2
  proof -
    have y: "y1 < ?y" "y2 < ?y" "tg_ysize t = ?y" using t m(4) by simp_all
    have p: "b + y1 * ?y + y2 < b + ?y * ?y" by (rule pair [OF y(1,2)])
    have "path_cost t y1 y2 = Some (cm_alpha m ! (b + y1 * ?y + y2))"
      using t(1) y(3) p room al(1) m(9,10) by (simp add: path_cost_def rd_def nat_int_add flip: of_nat_add of_nat_mult)
    then show ?thesis using al(2) [of "b + y1 * ?y + y2"] p room unfolding m(9) by simp
  qed
  show ?thesis by (intro exI [of _ m] conjI allI impI) (use m out cost in blast)+
qed

text \<open>A file of version 200 with one class, two templates and one weight.\<close>

definition sample_content :: model_file where
  "sample_content = \<lparr>mf_version = 200, mf_type = 0, mf_factor = replicate 8 (CHR 0x00), mf_xsize = 1, mf_names = [''a''],
     mf_templs = [''U'', ''B''], mf_units = [(-65, 0), (-1, 1), (1, 4294967231)], mf_weights = [le4 7], mf_dan = [3], mf_zu = [-1]\<rparr>"

theorem load_model_reads_file_witness:
  "\<exists>m. crf_load_model le_int (\<lambda>_ x. 2 * x) (\<lambda>_ x. x) (Some (file_of sample_content)) = Some (Inr m) \<and> cm_ynames m = [''a''] \<and>
    cm_zu m = [-1] \<and> path_cost ((crf_tag_new 1 1 1)\<lparr>tg_model := Some m, tg_ysize := 1\<rparr>) 0 0 = Some 14"
proof -
  have v: "file_ok sample_content" by (simp add: file_ok_def sample_content_def int32_def MAX_TEMPLS_NUM_def)
  have b: "get_b_templs_start (mf_units sample_content) [''B''] = Some (Some 0)"
    by (simp add: sample_content_def get_b_templs_start_def exact_match_search_def rd_def i32_def u32_def)
  have room: "0 + length (mf_names sample_content) * length (mf_names sample_content) \<le> length (mf_weights sample_content) + 1"
    by (simp add: sample_content_def)
  have "le_int (le4 7) = 7" using le_int_le4i [of 7] by (simp add: int32_def le4i_def)
  obtain m where m: "crf_load_model le_int (\<lambda>_ x. 2 * x) (\<lambda>_ x. x) (Some (file_of sample_content)) = Some (Inr m)"
    "cm_ysize m = 1" "cm_ynames m = [''a'']" "cm_zu m = [-1]"
    and cost: "\<forall>t y1 y2. tg_model t = Some m \<and> tg_ysize t = cm_ysize m \<and> y1 < tg_ysize t \<and> y2 < tg_ysize t \<longrightarrow>
      path_cost t y1 y2 = Some (2 * ((map le_int (mf_weights sample_content) @ [0]) ! (0 + y1 * length (mf_names sample_content) + y2)))"
    using load_model_reads_file [OF v b room, of le_int "\<lambda>_ x. 2 * x" "\<lambda>_ x. x"] by (auto simp: sample_content_def)
  have "path_cost ((crf_tag_new 1 1 1)\<lparr>tg_model := Some m, tg_ysize := 1\<rparr>) 0 0 = Some 14"
    using cost [rule_format, of "(crf_tag_new 1 1 1)\<lparr>tg_model := Some m, tg_ysize := 1\<rparr>" 0 0] m(2) \<open>le_int (le4 7) = 7\<close>
    by (simp add: sample_content_def)
  then show ?thesis using m by blast
qed

end
