(* ===== verification/CrfSeg.thy ===== *)
theory CrfSeg
  imports CrfNbest CrfFeatures
begin

unbundle bit_operations_syntax

text \<open>
  Segmentation with the tagger, \<open>seg_tag.cpp\<close> and \<open>lib_crf.cpp\<close> of
  \<open>src/libsrc/libcrf_2-1-2-0_PD_BL\<close>: a text is cut into one row per character, the rows are tagged,
  and the words whose labels begin with \<open>E\<close> or \<open>S\<close> end a term. The terms of the result tile the
  text.
\<close>

subsection \<open>The result\<close>

record term_out =
  to_size :: nat
  to_total :: nat
  to_count :: nat
  to_offsets :: "nat \<Rightarrow> nat"
  to_pos :: "nat \<Rightarrow> nat"
  to_name :: "nat \<Rightarrow> string"
  to_weight :: "nat \<Rightarrow> int"

record crf_out =
  co_nbest :: int
  co_bufs :: "nat \<Rightarrow> term_out"

definition MAX_NBEST_NUM :: nat where "MAX_NBEST_NUM = 10"
definition CRF_MAX_QUERY_LEN :: nat where "CRF_MAX_QUERY_LEN = 256"
definition CRF_MAX_WORD_LEN :: nat where "CRF_MAX_WORD_LEN = 100"

definition CRF_GET_TERM_POS :: "nat \<Rightarrow> nat" where "CRF_GET_TERM_POS p = p AND 16777215"
definition CRF_GET_TERM_LEN :: "nat \<Rightarrow> nat" where "CRF_GET_TERM_LEN p = drop_bit 24 p"

text \<open>\<open>M\<close> is the number of cells that memory can hold.\<close>

definition crf_create_out :: "nat \<Rightarrow> nat \<Rightarrow> crf_out option" where
  "crf_create_out M tsize = (if M < MAX_NBEST_NUM * (4 * (tsize + 1)) then None
     else Some \<lparr>co_nbest = 0, co_bufs = (\<lambda>_. \<lparr>to_size = tsize, to_total = 0, to_count = 0, to_offsets = (\<lambda>_. 0),
       to_pos = (\<lambda>_. 0), to_name = (\<lambda>_. []), to_weight = (\<lambda>_. 0)\<rparr>)\<rparr>)"

subsection \<open>The segmenting tagger\<close>

record seg_tag =
  sg_tag :: crf_tag
  sg_ne :: bool

text \<open>The name of a class as it is read into a buffer of 100 bytes.\<close>

definition yname :: "crf_tag \<Rightarrow> int \<Rightarrow> string option" where
  "yname t y = (case tg_model t of None \<Rightarrow> None
     | Some m \<Rightarrow> do { s \<leftarrow> rd (cm_ynames m) y; Some (take (CRF_MAX_WORD_LEN - 1) s) })"

fun has_mark :: "crf_tag \<Rightarrow> nat list \<Rightarrow> bool option" where
  "has_mark t [] = Some False"
| "has_mark t (i # is) = do { s \<leftarrow> yname t (int i); if CHR ''_'' \<in> set s then Some True else has_mark t is }"

definition seg_init_by_model :: "nat \<Rightarrow> crf_model option \<Rightarrow> seg_tag \<Rightarrow> (int \<times> seg_tag) option" where
  "seg_init_by_model M mo s = (case init_by_model M mo (sg_tag s) of (r, t) \<Rightarrow>
     if r < 0 then Some (-1, s\<lparr>sg_tag := t\<rparr>)
     else do { ne \<leftarrow> has_mark t [0..<tg_ysize t]; Some (r, \<lparr>sg_tag = t, sg_ne = ne\<rparr>) })"

definition seg_tag_clear :: "seg_tag \<Rightarrow> int \<times> seg_tag" where
  "seg_tag_clear s = (case tag_clear (sg_tag s) of (r, t) \<Rightarrow> (r, s\<lparr>sg_tag := t\<rparr>))"

definition seg_add :: "string \<Rightarrow> nat \<Rightarrow> seg_tag \<Rightarrow> (int \<times> seg_tag) option" where
  "seg_add row_p row_len s = do { (r, t) \<leftarrow> tag_add row_p row_len (sg_tag s); Some (r, s\<lparr>sg_tag := t\<rparr>) }"

definition seg_parse :: "seg_tag \<Rightarrow> (int \<times> seg_tag) option" where
  "seg_parse s = do { (r, t) \<leftarrow> tag_parse (sg_tag s); Some (r, s\<lparr>sg_tag := t\<rparr>) }"

subsection \<open>Terms\<close>

text \<open>
  The state of the loop over the words: the bytes of the open term, the bytes before it, the words
  whose probabilities are summed. The average of these probabilities, a floating point number, is
  the parameter \<open>avg\<close>.
\<close>

record term_state =
  ts_len :: nat
  ts_cur :: nat
  ts_sum :: "nat list"
  ts_out :: term_out

text \<open>The part of a class name behind its mark, and whether the name ends a term.\<close>

definition after_mark :: "string \<Rightarrow> string option" where
  "after_mark s = (case dropWhile (\<lambda>c. c \<noteq> CHR ''_'') s of [] \<Rightarrow> None | _ # r \<Rightarrow> Some r)"

definition ends_term :: "string \<Rightarrow> bool" where
  "ends_term s \<longleftrightarrow> (case s of [] \<Rightarrow> False | c # _ \<Rightarrow> c = CHR ''E'' \<or> c = CHR ''S'')"

definition put_term :: "(nat list \<Rightarrow> int) \<Rightarrow> nat \<Rightarrow> string \<Rightarrow> term_state \<Rightarrow> term_state option" where
  "put_term avg vl name s = (let b = ts_out s; c = to_count b; len = ts_len s in
     if c > to_size b then None
     else Some (s\<lparr>ts_len := 0, ts_cur := ts_cur s + len, ts_sum := (if vl = 1 \<or> vl = 2 then [] else ts_sum s),
       ts_out := b\<lparr>to_pos := (to_pos b)(c := push_bit 24 len OR (ts_cur s AND 16777215)),
         to_offsets := (to_offsets b)(c := to_total b), to_total := to_total b + len,
         to_name := (to_name b)(c := take 10 name),
         to_weight := (if vl = 0 then (to_weight b)(c := 0)
           else if vl = 1 then (to_weight b)(c := avg (ts_sum s))
           else if vl = 2 then (to_weight b)(c := (if name = [] then 0 else avg (ts_sum s))) else to_weight b),
         to_count := c + 1\<rparr>\<rparr>))"

text \<open>A term of 100 bytes passes the test of the code, but its terminator is written behind the buffer.\<close>

definition term_word :: "(nat list \<Rightarrow> int) \<Rightarrow> nat \<Rightarrow> bool \<Rightarrow> crf_tag \<Rightarrow> nat \<Rightarrow> int \<times> term_state \<Rightarrow> (int \<times> term_state) option" where
  "term_word avg vl ne t i rs = (case rs of (r, s) \<Rightarrow>
     if r < 0 then Some rs
     else if ts_len s + tg_row t i > CRF_MAX_WORD_LEN then Some (-1, s)
     else if ts_len s + tg_row t i + 1 > CRF_MAX_WORD_LEN then None
     else do {
       y \<leftarrow> yname t (tg_result t i);
       let p = (if ne then after_mark y else None);
           name = (case p of None \<Rightarrow> [] | Some q \<Rightarrow> take (CRF_MAX_WORD_LEN - 1) q);
           s1 = s\<lparr>ts_len := ts_len s + tg_row t i,
             ts_sum := (if vl = 1 then ts_sum s @ [i] else if vl = 2 then (if p \<noteq> None then ts_sum s @ [i] else []) else ts_sum s)\<rparr>
       in if ends_term y \<or> i = tg_words t - 1 then do { s2 \<leftarrow> put_term avg vl name s1; Some (0, s2) }
          else Some (0, s1) })"

definition seg_termbuf_build :: "(crf_tag \<Rightarrow> nat list \<Rightarrow> int) \<Rightarrow> nat \<Rightarrow> seg_tag \<Rightarrow> term_out \<Rightarrow> (int \<times> term_out) option" where
  "seg_termbuf_build avg vl s out = do {
     (r, st) \<leftarrow> floop (term_word (avg (sg_tag s)) vl (sg_ne s) (sg_tag s)) [0..<tg_words (sg_tag s)]
       (0, \<lparr>ts_len = 0, ts_cur = 0, ts_sum = [], ts_out = out\<lparr>to_total := 0, to_count := 0\<rparr>\<rparr>);
     Some (r, ts_out st) }"

subsection \<open>Output\<close>

definition build_into :: "(crf_tag \<Rightarrow> nat list \<Rightarrow> int) \<Rightarrow> seg_tag \<Rightarrow> nat \<Rightarrow> crf_out \<Rightarrow> (int \<times> crf_out) option" where
  "build_into avg s n pout = (if n \<ge> MAX_NBEST_NUM then None else do {
     (r, b) \<leftarrow> seg_termbuf_build avg (tg_vlevel (sg_tag s)) s (co_bufs pout n);
     Some (if r < 0 then -1 else 0, pout\<lparr>co_bufs := (co_bufs pout)(n := b)\<rparr>) })"

text \<open>The loop over the next best results; the last argument counts the ones left.\<close>

primrec next_outputs :: "(crf_tag \<Rightarrow> nat list \<Rightarrow> int) \<Rightarrow> nat \<Rightarrow> seg_tag \<Rightarrow> crf_out \<Rightarrow> nat \<Rightarrow> (int \<times> nat \<times> seg_tag \<times> crf_out) option" where
  "next_outputs avg n s pout 0 = Some (0, n, s, pout)"
| "next_outputs avg n s pout (Suc k) = do {
     (r, t) \<leftarrow> tag_next (sg_tag s);
     let s1 = s\<lparr>sg_tag := t\<rparr> in
     if r < 0 then Some (0, n, s1, pout)
     else do {
       (r1, pout1) \<leftarrow> build_into avg s1 n pout;
       if r1 < 0 then Some (-1, n, s1, pout1) else next_outputs avg (n + 1) s1 pout1 k } }"

definition seg_output :: "(crf_tag \<Rightarrow> nat list \<Rightarrow> int) \<Rightarrow> seg_tag \<Rightarrow> crf_out \<Rightarrow> (int \<times> seg_tag \<times> crf_out) option" where
  "seg_output avg s pout = (let t = sg_tag s in
     if tg_max_nbest t = 1 \<or> tg_nbest t = 1 then do {
       (r, pout1) \<leftarrow> build_into avg s 0 (pout\<lparr>co_nbest := 1\<rparr>);
       Some (r, s, pout1) }
     else if \<not> sg_ne s \<and> tg_words t = 0 then None
     else do {
       (r, n, s1, pout1) \<leftarrow> next_outputs avg 0 s pout
         (if \<not> sg_ne s \<and> tg_words t < 5 then min (2 ^ (tg_words t - 1)) (tg_nbest t) else tg_nbest t);
       if r < 0 then Some (-1, s1, pout1) else Some (0, s1, pout1\<lparr>co_nbest := int n\<rparr>) })"

subsection \<open>Segmenting a text\<close>

text \<open>
  The rows: one or two bytes of the text and a NUL, in a buffer of 512 bytes. A first byte of two
  at the end of the text takes the terminator of the text for its second one.
\<close>

definition is_chn_char :: "char \<Rightarrow> bool" where
  "is_chn_char c \<longleftrightarrow> (of_char c :: nat) AND 128 = 128"

fun make_rows :: "nat \<Rightarrow> string \<Rightarrow> (string \<times> nat) option" where
  "make_rows k [] = Some ([], 0)"
| "make_rows k (c # cs) =
     (if is_chn_char c then
        (if k + 2 \<ge> CRF_MAX_QUERY_LEN * 2 then None
         else (case cs of [] \<Rightarrow> Some ([c, CHR 0x00, CHR 0x00], 1)
           | d # ds \<Rightarrow> do { (b, n) \<leftarrow> make_rows (k + 3) ds; Some (c # d # CHR 0x00 # b, n + 1) }))
      else if k + 1 \<ge> CRF_MAX_QUERY_LEN * 2 then None
      else do { (b, n) \<leftarrow> make_rows (k + 2) cs; Some (c # CHR 0x00 # b, n + 1) })"

definition c_text :: "string \<Rightarrow> string" where
  "c_text s = takeWhile (\<lambda>c. c \<noteq> CHR 0x00) s"

text \<open>What the entry points do with the rows.\<close>

definition run_query :: "(crf_tag \<Rightarrow> nat list \<Rightarrow> int) \<Rightarrow> seg_tag \<Rightarrow> crf_out \<Rightarrow> string \<Rightarrow> nat \<Rightarrow> int \<Rightarrow> int \<Rightarrow>
    (int \<times> seg_tag \<times> crf_out) option" where
  "run_query avg s pout row row_len nbest vlevel = do {
     (r, s1) \<leftarrow> seg_add row row_len s;
     if r < 0 then Some (-1, s1, pout) else do {
       let s2 = s1\<lparr>sg_tag := set_vlevel (nat vlevel) (set_nbest (nat (min nbest (int MAX_NBEST_NUM))) (sg_tag s1))\<rparr> in do {
         (r1, s3) \<leftarrow> seg_parse s2;
         if r1 < 0 then Some (-1, s3, pout) else do {
           (r2, s4, pout1) \<leftarrow> seg_output avg s3 pout;
           Some (if r2 < 0 then -1 else 0, s4, pout1) } } } }"

definition crf_segment_words :: "(crf_tag \<Rightarrow> nat list \<Rightarrow> int) \<Rightarrow> seg_tag \<Rightarrow> crf_out \<Rightarrow> string \<Rightarrow> int \<Rightarrow> int \<Rightarrow> int \<Rightarrow>
    (int \<times> seg_tag \<times> crf_out) option" where
  "crf_segment_words avg s pout inbuf inlen nbest vlevel =
     (if inlen < 0 \<or> nbest < 0 \<or> vlevel < 0 \<or> vlevel > 2 then Some (-1, s, pout)
      else if inlen \<ge> int CRF_MAX_QUERY_LEN then Some (-1, s, pout)
      else (case tag_reset (sg_tag s) of (r, t) \<Rightarrow>
        if r < 0 then Some (-1, s\<lparr>sg_tag := t\<rparr>, pout)
        else do {
          (row, row_len) \<leftarrow> make_rows 0 (c_text inbuf);
          run_query avg (s\<lparr>sg_tag := t\<rparr>) pout row row_len nbest vlevel }))"

definition crf_segment_words_seg :: "(crf_tag \<Rightarrow> nat list \<Rightarrow> int) \<Rightarrow> seg_tag \<Rightarrow> crf_out \<Rightarrow> string \<Rightarrow> int \<Rightarrow> int \<Rightarrow> int \<Rightarrow>
    (int \<times> seg_tag \<times> crf_out) option" where
  "crf_segment_words_seg avg s pout pcInBuf niGroup nbest vlevel =
     (if niGroup < 0 \<or> nbest < 0 \<or> vlevel < 0 then Some (-1, s, pout)
      else if niGroup \<ge> int CRF_MAX_QUERY_LEN then Some (-1, s, pout)
      else (case tag_reset (sg_tag s) of (r, t) \<Rightarrow>
        if r < 0 then Some (-1, s\<lparr>sg_tag := t\<rparr>, pout)
        else run_query avg (s\<lparr>sg_tag := t\<rparr>) pout pcInBuf (nat niGroup) nbest vlevel))"

text \<open>The class \<open>CRF_t\<close> owns its result; \<open>segment_words\<close> is the same steps on it.\<close>

definition create_out :: "nat \<Rightarrow> nat \<Rightarrow> int \<times> crf_out option" where
  "create_out M tsize = (case crf_create_out M tsize of None \<Rightarrow> (-1, None) | Some r \<Rightarrow> (0, Some r))"

definition segment_words :: "(crf_tag \<Rightarrow> nat list \<Rightarrow> int) \<Rightarrow> seg_tag \<Rightarrow> crf_out option \<Rightarrow> string \<Rightarrow> int \<Rightarrow> int \<Rightarrow> int \<Rightarrow>
    (int \<times> seg_tag \<times> crf_out option) option" where
  "segment_words avg s own inbuf inlen nbest vlevel = (case own of None \<Rightarrow> Some (-1, s, None)
     | Some pout \<Rightarrow>
         if inlen < 0 \<or> nbest < 0 \<or> vlevel < 0 \<or> vlevel > 2 then Some (-1, s, own)
         else if inlen \<ge> int CRF_MAX_QUERY_LEN then Some (-1, s, own)
         else (case tag_reset (sg_tag s) of (r, t) \<Rightarrow>
           if r < 0 then Some (-1, s\<lparr>sg_tag := t\<rparr>, own)
           else do {
             (row, row_len) \<leftarrow> make_rows 0 (c_text inbuf);
             (r1, s1, pout1) \<leftarrow> run_query avg (s\<lparr>sg_tag := t\<rparr>) pout row row_len nbest vlevel;
             Some (r1, s1, Some pout1) }))"

text \<open>\<open>CRF_t::queryformat\<close>: it keeps \<open>inlen\<close> bytes of its input and does not reset the tagger.\<close>

definition queryformat :: "seg_tag \<Rightarrow> string \<Rightarrow> int \<Rightarrow> (int \<times> seg_tag) option" where
  "queryformat s inbuf inlen =
     (if inlen < 0 then Some (-1, s)
      else if inlen \<ge> int CRF_MAX_QUERY_LEN then Some (-1, s)
      else do {
        (row, row_len) \<leftarrow> make_rows 0 (take (nat inlen) (c_text inbuf));
        (r, s1) \<leftarrow> seg_add row row_len s;
        Some (if r < 0 then -1 else 0, s1) })"

subsection \<open>The rows of a text\<close>

fun row_split :: "string \<Rightarrow> string list" where
  "row_split [] = []"
| "row_split (c # cs) =
     (if is_chn_char c then (case cs of [] \<Rightarrow> [[c]] | d # ds \<Rightarrow> [c, d] # row_split ds) else [c] # row_split cs)"

lemma concat_row_split [simp]: "concat (row_split s) = s"
proof (induction s rule: row_split.induct)
  case (2 c cs)
  then show ?case by (cases cs; cases "is_chn_char c") simp_all
qed simp

lemma row_split_rows: "\<forall>r \<in> set (row_split s). r \<noteq> [] \<and> length r \<le> 2 \<and> set r \<subseteq> set s"
proof (induction s rule: row_split.induct)
  case (2 c cs)
  show ?case
  proof (cases "is_chn_char c")
    case True
    then show ?thesis using 2(1) by (cases cs) (simp_all, blast)
  next
    case False
    then show ?thesis using 2(2) by simp blast
  qed
qed simp

lemma row_split_length: "length (row_split s) \<le> length s"
proof (induction s rule: row_split.induct)
  case (2 c cs)
  then show ?case by (cases cs) (simp_all add: le_SucI)
qed simp

lemma row_split_Nil [simp]: "row_split s = [] \<longleftrightarrow> s = []"
  using concat_row_split [of s] by (cases s) auto

lemma make_rows_ok:
  "k + 2 * length s + 1 < 512 \<Longrightarrow> \<exists>pad. set pad \<subseteq> {CHR 0x00} \<and>
    make_rows k s = Some (concat (map (\<lambda>r. r @ [CHR 0x00]) (row_split s)) @ pad, length (row_split s))"
proof (induction k s rule: make_rows.induct)
  case (1 k)
  then show ?case by (intro exI [of _ "[]"]) simp
next
  case (2 k c cs)
  show ?case
  proof (cases "is_chn_char c")
    case True
    show ?thesis
    proof (cases cs)
      case Nil
      then show ?thesis using True 2(3) by (intro exI [of _ "[CHR 0x00]"]) (simp add: CRF_MAX_QUERY_LEN_def)
    next
      case (Cons d ds)
      then obtain pad where "set pad \<subseteq> {CHR 0x00}"
        "make_rows (k + 3) ds = Some (concat (map (\<lambda>r. r @ [CHR 0x00]) (row_split ds)) @ pad, length (row_split ds))"
        using 2(1) [OF True _ Cons] 2(3) by (auto simp: CRF_MAX_QUERY_LEN_def)
      then show ?thesis using True Cons 2(3) by (intro exI [of _ pad]) (simp add: CRF_MAX_QUERY_LEN_def)
    qed
  next
    case False
    then obtain pad where "set pad \<subseteq> {CHR 0x00}"
      "make_rows (k + 2) cs = Some (concat (map (\<lambda>r. r @ [CHR 0x00]) (row_split cs)) @ pad, length (row_split cs))"
      using 2(2) [OF False] 2(3) by (auto simp: CRF_MAX_QUERY_LEN_def)
    then show ?thesis using False 2(3) by (intro exI [of _ pad]) (simp add: CRF_MAX_QUERY_LEN_def)
  qed
qed

subsection \<open>Adding the rows\<close>

text \<open>A tagger that holds the given rows, with zero costs.\<close>

definition loaded :: "crf_tag \<Rightarrow> string list \<Rightarrow> crf_tag" where
  "loaded t rows = clear_costs (t\<lparr>tg_words := length rows, tg_x := (\<lambda>i. if i < length rows then rows ! i else tg_x t i),
     tg_row := (\<lambda>i. if i < length rows then length (rows ! i) else tg_row t i),
     tg_result := (\<lambda>i. if i < length rows then 0 else tg_result t i)\<rparr>)"

lemma row_at_row: "CHR 0x00 \<notin> set r \<Longrightarrow> row_at (r @ CHR 0x00 # rest) = Some r"
  by (subst row_at_def, subst takeWhile_append2) auto

lemma add_rows_ok:
  assumes t: "tg_words t = 0" "length rows \<le> tg_max_words t"
    and r: "\<And>r. r \<in> set rows \<Longrightarrow> CHR 0x00 \<notin> set r \<and> length r < tg_max_words t \<and> length r < tg_max_len t"
  shows "\<exists>buf. floop add_row [0..<length rows] (t, concat (map (\<lambda>r. r @ [CHR 0x00]) rows) @ pad) = Some
    (t\<lparr>tg_words := length rows, tg_x := (\<lambda>i. if i < length rows then rows ! i else tg_x t i),
      tg_row := (\<lambda>i. if i < length rows then length (rows ! i) else tg_row t i),
      tg_result := (\<lambda>i. if i < length rows then 0 else tg_result t i)\<rparr>, buf)"
proof -
  let ?T = "\<lambda>n. t\<lparr>tg_words := n, tg_x := (\<lambda>i. if i < n then rows ! i else tg_x t i),
      tg_row := (\<lambda>i. if i < n then length (rows ! i) else tg_row t i),
      tg_result := (\<lambda>i. if i < n then 0 else tg_result t i)\<rparr>"
  let ?P = "\<lambda>n s. s = (?T n, concat (map (\<lambda>r. r @ [CHR 0x00]) (drop n rows)) @ pad)"
  have "\<exists>s'. add_row n s = Some s' \<and> ?P (Suc n) s'" if n: "n < length rows" and P: "?P n s" for n s
  proof -
    have d: "drop n rows = rows ! n # drop (Suc n) rows" using n by (simp add: Cons_nth_drop_Suc)
    have rn: "CHR 0x00 \<notin> set (rows ! n)" "length (rows ! n) < tg_max_words t" "length (rows ! n) < tg_max_len t"
      using r [of "rows ! n"] n by auto
    have "(tg_x (?T n))(n := rows ! n) = tg_x (?T (Suc n))" "(tg_row (?T n))(n := length (rows ! n)) = tg_row (?T (Suc n))"
      "(tg_result (?T n))(n := 0) = tg_result (?T (Suc n))" by (auto simp: fun_eq_iff less_Suc_eq)
    then show ?thesis using P rn t n by (simp add: add_row_def d row_at_row)
  qed
  moreover have "?P 0 (t, concat (map (\<lambda>r. r @ [CHR 0x00]) rows) @ pad)" using t(1) by simp
  ultimately show ?thesis
    using floop_upt [where P = ?P and f = add_row and n = "length rows"] by blast
qed

lemma tag_add_ok:
  assumes "tg_words t = 0" "length rows \<le> tg_max_words t" "tg_ready t" "tg_model t \<noteq> None"
    and "\<And>r. r \<in> set rows \<Longrightarrow> CHR 0x00 \<notin> set r \<and> length r < tg_max_words t \<and> length r < tg_max_len t"
  shows "tag_add (concat (map (\<lambda>r. r @ [CHR 0x00]) rows) @ pad) (length rows) t = Some (0, loaded t rows)"
  using add_rows_ok [OF assms(1,2,5), of pad] assms(2-4) by (auto simp: tag_add_def loaded_def min_def)

subsection \<open>The terms of a labelled text\<close>

text \<open>The terms a sequence of rows makes, each with whether it ends a term: the closed terms and the open one.\<close>

definition cut_step :: "string list \<times> string \<Rightarrow> string \<times> bool \<Rightarrow> string list \<times> string" where
  "cut_step s z = (case s of (D, a) \<Rightarrow> case z of (r, e) \<Rightarrow> if e then (D @ [a @ r], []) else (D, a @ r))"

definition cut_terms :: "(string \<times> bool) list \<Rightarrow> string list \<times> string" where
  "cut_terms zs = foldl cut_step ([], []) zs"

lemma cut_terms_snoc [simp]: "cut_terms (zs @ [z]) = cut_step (cut_terms zs) z"
  by (simp add: cut_terms_def)

lemma cut_terms_text: "concat (fst (cut_terms zs)) @ snd (cut_terms zs) = concat (map fst zs)"
  by (induction zs rule: rev_induct) (auto simp: cut_step_def cut_terms_def split: prod.splits)

lemma cut_terms_count: "length (fst (cut_terms zs)) \<le> length zs"
  by (induction zs rule: rev_induct) (auto simp: cut_step_def cut_terms_def split: prod.splits)

lemma cut_terms_closed: "zs \<noteq> [] \<Longrightarrow> snd (last zs) \<Longrightarrow> snd (cut_terms zs) = []"
  by (cases zs rule: rev_cases) (auto simp: cut_step_def split: prod.splits)

text \<open>The place of a term in one word, and back.\<close>

lemma term_pos_word: "CRF_GET_TERM_LEN (push_bit 24 len OR (pos AND 16777215)) = len"
  "pos < 16777216 \<Longrightarrow> CRF_GET_TERM_POS (push_bit 24 len OR (pos AND 16777215)) = pos"
  unfolding CRF_GET_TERM_LEN_def CRF_GET_TERM_POS_def by (fact packed_length, fact packed_position)

text \<open>The terms of a result, read from the text.\<close>

definition term_text :: "string \<Rightarrow> term_out \<Rightarrow> nat \<Rightarrow> string" where
  "term_text s b i = take (CRF_GET_TERM_LEN (to_pos b i)) (drop (CRF_GET_TERM_POS (to_pos b i)) s)"

definition out_terms :: "string \<Rightarrow> term_out \<Rightarrow> string list" where
  "out_terms s b = map (term_text s b) [0..<to_count b]"

text \<open>A result that holds the terms \<open>D\<close>.\<close>

definition holds_terms :: "string list \<Rightarrow> term_out \<Rightarrow> bool" where
  "holds_terms D b \<longleftrightarrow> to_count b = length D \<and> to_total b = length (concat D) \<and> (\<forall>k < length D.
     to_offsets b k = length (concat (take k D)) \<and>
     to_pos b k = push_bit 24 (length (D ! k)) OR (length (concat (take k D)) AND 16777215))"

lemma concat_split_at: "k < length D \<Longrightarrow> concat D = concat (take k D) @ D ! k @ concat (drop (Suc k) D)"
  by (metis append_take_drop_id concat.simps(2) concat_append Cons_nth_drop_Suc)

lemma holds_terms_text:
  assumes "holds_terms D b" "concat D = s" "length s < 16777216"
  shows "out_terms s b = D"
proof (rule nth_equalityI)
  show "length (out_terms s b) = length D" using assms(1) by (simp add: out_terms_def holds_terms_def)
  fix k assume "k < length (out_terms s b)"
  then have k: "k < length D" using assms(1) by (simp add: out_terms_def holds_terms_def)
  have s: "s = concat (take k D) @ D ! k @ concat (drop (Suc k) D)" using concat_split_at [OF k] assms(2) by simp
  have l: "length (concat (take k D)) < 16777216"
    using arg_cong [OF s, of length] assms(3) by simp
  have "term_text s b k = take (length (D ! k)) (drop (length (concat (take k D))) s)"
    using assms(1) k l by (simp add: term_text_def holds_terms_def term_pos_word del: length_concat)
  also have "\<dots> = D ! k" by (subst s) simp
  finally show "out_terms s b ! k = D ! k" using assms(1) k by (simp add: out_terms_def holds_terms_def)
qed

subsection \<open>Building the terms\<close>

text \<open>The labels of a tagger as ends of terms; the last word always ends one.\<close>

definition word_ends :: "crf_tag \<Rightarrow> bool list" where
  "word_ends t = map (\<lambda>i. ends_term (the (yname t (tg_result t i))) \<or> i = tg_words t - 1) [0..<tg_words t]"

lemma put_term_ok:
  assumes "holds_terms D (ts_out s)" "length D \<le> to_size (ts_out s)" "ts_cur s = length (concat D)" "ts_len s = length a"
  shows "\<exists>s'. put_term avg vl name s = Some s' \<and> holds_terms (D @ [a]) (ts_out s') \<and> to_size (ts_out s') = to_size (ts_out s) \<and>
    ts_cur s' = length (concat (D @ [a])) \<and> ts_len s' = 0"
  using assms by (auto simp: put_term_def Let_def holds_terms_def nth_append less_Suc_eq)

text \<open>The state of the loop after the closed terms and the open one.\<close>

definition terms_so_far :: "string list \<times> string \<Rightarrow> term_state \<Rightarrow> bool" where
  "terms_so_far c s \<longleftrightarrow> holds_terms (fst c) (ts_out s) \<and> ts_cur s = length (concat (fst c)) \<and> ts_len s = length (snd c)"

lemma term_word_ok:
  assumes i: "i < tg_words t" "yname t (tg_result t i) \<noteq> None" "i \<le> to_size (ts_out s)"
    and r: "tg_row t i = length r" "length (fst c) \<le> i"
    and s: "terms_so_far c s" "length (snd c @ r) < 100"
  shows "\<exists>s'. term_word avg vl ne t i (0, s) = Some (0, s') \<and> to_size (ts_out s') = to_size (ts_out s) \<and>
    terms_so_far (cut_step c (r, word_ends t ! i)) s'"
proof -
  obtain D a where c: "c = (D, a)" by fastforce
  obtain y where y: "yname t (tg_result t i) = Some y" using i(2) by blast
  have e: "word_ends t ! i \<longleftrightarrow> ends_term y \<or> i = tg_words t - 1" using i(1) y by (simp add: word_ends_def)
  let ?name = "case if ne then after_mark y else None of None \<Rightarrow> [] | Some q \<Rightarrow> take (CRF_MAX_WORD_LEN - 1) q"
  let ?s = "s\<lparr>ts_len := ts_len s + tg_row t i, ts_sum := (if vl = 1 then ts_sum s @ [i] else
    if vl = 2 then (if (if ne then after_mark y else None) \<noteq> None then ts_sum s @ [i] else []) else ts_sum s)\<rparr>"
  have S: "holds_terms D (ts_out s)" "ts_cur s = length (concat D)" "ts_len s = length a" "length (a @ r) < 100"
    using s by (simp_all add: terms_so_far_def c)
  have st: "term_word avg vl ne t i (0, s) = (if word_ends t ! i then do { s2 \<leftarrow> put_term avg vl ?name ?s; Some (0, s2) } else Some (0, ?s))"
    using S(3,4) r(1) by (simp add: term_word_def CRF_MAX_WORD_LEN_def y e Let_def)
  show ?thesis
  proof (cases "word_ends t ! i")
    case True
    obtain s2 where "put_term avg vl ?name ?s = Some s2" "holds_terms (D @ [a @ r]) (ts_out s2)"
      "to_size (ts_out s2) = to_size (ts_out s)" "ts_cur s2 = length (concat (D @ [a @ r]))" "ts_len s2 = 0"
      using put_term_ok [of D ?s "a @ r" avg vl ?name] S i(3) r c by auto
    then show ?thesis using st True by (simp add: cut_step_def terms_so_far_def c)
  next
    case False
    then show ?thesis using st S r(1) by (simp add: cut_step_def terms_so_far_def c)
  qed
qed

lemma seg_termbuf_build_ok:
  assumes t: "t = sg_tag s" and names: "\<And>i. i < tg_words t \<Longrightarrow> yname t (tg_result t i) \<noteq> None"
    and rows: "length rows = tg_words t" "\<And>i. i < tg_words t \<Longrightarrow> tg_row t i = length (rows ! i)"
    and len: "length (concat rows) < 100" and size: "tg_words t \<le> to_size out"
  shows "\<exists>b. seg_termbuf_build avg vl s out = Some (0, b) \<and> to_size b = to_size out \<and>
    holds_terms (fst (cut_terms (zip rows (word_ends t)))) b"
proof -
  let ?z = "zip rows (word_ends t)"
  have lz: "length ?z = tg_words t" using rows(1) by (simp add: word_ends_def)
  define P where "P = (\<lambda>i rs. \<exists>s1. rs = (0 :: int, s1) \<and> to_size (ts_out s1) = to_size out \<and> terms_so_far (cut_terms (take i ?z)) s1)"
  let ?s0 = "\<lparr>ts_len = 0, ts_cur = 0, ts_sum = [], ts_out = out\<lparr>to_total := 0, to_count := 0\<rparr>\<rparr>"
  have "\<exists>rs'. term_word (avg t) vl (sg_ne s) t i rs = Some rs' \<and> P (Suc i) rs'" if i: "i < tg_words t" and P: "P i rs" for i rs
  proof -
    obtain s1 where s1: "rs = (0, s1)" "to_size (ts_out s1) = to_size out" "terms_so_far (cut_terms (take i ?z)) s1"
      using P unfolding P_def by blast
    have T: "take (Suc i) ?z = take i ?z @ [(rows ! i, word_ends t ! i)]"
      using i lz by (simp add: take_Suc_conv_app_nth)
    have m: "map fst (take (Suc i) ?z) = take (Suc i) rows"
      using lz rows(1) by (simp add: take_map [symmetric] word_ends_def)
    have "concat (fst (cut_terms (take i ?z))) @ snd (cut_terms (take i ?z)) @ rows ! i = concat (take (Suc i) rows)"
      unfolding append_assoc [symmetric] cut_terms_text m [symmetric] by (simp add: T)
    moreover have "concat rows = concat (take (Suc i) rows) @ concat (drop (Suc i) rows)"
      by (metis append_take_drop_id concat_append)
    ultimately have l: "length (snd (cut_terms (take i ?z)) @ rows ! i) < 100" using len by (metis length_append le_add2 order_le_less_trans le_trans le_add1)
    have D: "length (fst (cut_terms (take i ?z))) \<le> i" using cut_terms_count [of "take i ?z"] lz i by simp
    have "i \<le> to_size (ts_out s1)" using s1(2) size i by simp
    from term_word_ok [OF i names [OF i] this rows(2) [OF i] D s1(3) l, of "avg t" vl "sg_ne s"]
    show ?thesis using s1(1,2) by (auto simp: P_def T)
  qed
  moreover have "P 0 (0, ?s0)" by (simp add: P_def cut_terms_def holds_terms_def terms_so_far_def)
  ultimately obtain rs where "floop (term_word (avg t) vl (sg_ne s) t) [0..<tg_words t] (0, ?s0) = Some rs" "P (tg_words t) rs"
    using floop_upt [where P = P and f = "term_word (avg t) vl (sg_ne s) t" and n = "tg_words t" and s = "(0, ?s0)"] by blast
  then show ?thesis using t lz by (auto simp: seg_termbuf_build_def P_def terms_so_far_def)
qed

subsection \<open>What stays of the tagger\<close>

definition only_nodes :: "crf_tag \<Rightarrow> crf_tag \<Rightarrow> bool" where
  "only_nodes t t' \<longleftrightarrow> (\<exists>f. t' = t\<lparr>tg_node := f\<rparr> \<and> (\<forall>i j. nd_x (f i j) = nd_x (tg_node t i j) \<and> nd_y (f i j) = nd_y (tg_node t i j)))"

lemma only_nodes_refl [simp]: "only_nodes t t"
  unfolding only_nodes_def by (rule exI [of _ "tg_node t"]) simp

lemma only_nodes_trans: "only_nodes t t' \<Longrightarrow> only_nodes t' t'' \<Longrightarrow> only_nodes t t''"
  by (auto simp: only_nodes_def)

lemma only_nodes_setup:
  "only_nodes t t' \<Longrightarrow> tg_words t' = tg_words t \<and> tg_ysize t' = tg_ysize t \<and> tg_row t' = tg_row t \<and> tg_model t' = tg_model t \<and>
    tg_nbest t' = tg_nbest t \<and> tg_vlevel t' = tg_vlevel t \<and> tg_max_words t' = tg_max_words t \<and> tg_max_len t' = tg_max_len t \<and>
    tg_max_nbest t' = tg_max_nbest t \<and> tg_ready t' = tg_ready t"
  by (auto simp: only_nodes_def)

lemma floop_nodes:
  assumes "\<And>x s s'. f x s = Some s' \<Longrightarrow> only_nodes s s'"
  shows "floop f xs s = Some s' \<Longrightarrow> only_nodes s s'"
proof (induction xs arbitrary: s)
  case (Cons x xs)
  then obtain s1 where "f x s = Some s1" "floop f xs s1 = Some s'" by (auto split: Option.bind_splits)
  then show ?case using assms Cons.IH only_nodes_trans by blast
qed simp

lemma upd_node_nodes:
  "upd_node i j f t = Some t' \<Longrightarrow> nd_x (f (tg_node t i j)) = nd_x (tg_node t i j) \<Longrightarrow> nd_y (f (tg_node t i j)) = nd_y (tg_node t i j) \<Longrightarrow>
    only_nodes t t'"
  by (auto simp: upd_node_def only_nodes_def split: if_splits)

lemma add_costs_nodes: "add_costs m i iid t = Some t' \<Longrightarrow> only_nodes t t'"
  unfolding add_costs_def
  by (erule floop_nodes [rotated]) (auto simp: add_cost_def split: Option.bind_splits dest: upd_node_nodes)

lemma scale_nodes: "floop (scale_cost m i) xs t = Some t' \<Longrightarrow> only_nodes t t'"
  by (erule floop_nodes [rotated]) (auto simp: scale_cost_def split: Option.bind_splits dest: upd_node_nodes)

lemma share_nodes: "floop (share m tab cur iid) xs t = Some t' \<Longrightarrow> only_nodes t t'"
  by (erule floop_nodes [rotated])
    (auto simp: share_def Let_def split: Option.bind_splits if_splits dest: add_costs_nodes)

lemma put_shared_nodes: "put_shared m tab iid i t = Some t' \<Longrightarrow> only_nodes t t'"
  by (auto simp: put_shared_def split: Option.bind_splits if_splits dest: add_costs_nodes)

lemma word_features_nodes: "word_features m cur t = Some t' \<Longrightarrow> only_nodes t t'"
proof -
  assume "word_features m cur t = Some t'"
  then obtain t1 t2 where f: "floop (zero_cost cur) [0..<tg_ysize t] t = Some t1" "floop (templ_cost m cur) [0..<cm_templs m] t1 = Some t2"
    "floop (scale_cost m cur) [0..<tg_ysize t] t2 = Some t'"
    by (auto simp: word_features_def split: Option.bind_splits)
  have "only_nodes t t1" by (rule floop_nodes [OF _ f(1)]) (auto simp: zero_cost_def dest: upd_node_nodes)
  moreover have "only_nodes t1 t2"
    by (rule floop_nodes [OF _ f(2)]) (auto simp: templ_cost_def split: Option.bind_splits if_splits dest: add_costs_nodes)
  ultimately show ?thesis using scale_nodes [OF f(3)] only_nodes_trans by blast
qed

lemma shared_features_nodes: "shared_features m cur t = Some t' \<Longrightarrow> only_nodes t t'"
  by (auto simp: shared_features_def split: Option.bind_splits if_splits
      dest!: share_nodes add_costs_nodes intro: only_nodes_trans)

lemma edge_features_nodes:
  "first_features m t = Some t' \<Longrightarrow> only_nodes t t'" "last_features m t = Some t' \<Longrightarrow> only_nodes t t'"
  by (auto simp: first_features_def last_features_def split: Option.bind_splits if_splits
      dest!: put_shared_nodes intro: only_nodes_trans)

lemma build_features_nodes:
  assumes "build_features t = Some (r, t')"
  shows "only_nodes t t'"
proof -
  obtain m where m: "tg_model t = Some m" using assms by (auto simp: build_features_def split: option.splits)
  show ?thesis
  proof (cases "tg_words t \<noteq> 0 \<and> cm_version m = 200")
    case True
    then obtain t1 t2 t3 where f: "first_features m t = Some t1" "floop (shared_features m) [0..<tg_words t] t1 = Some t2"
      "last_features m t2 = Some t3" "floop (scale_word m) [0..<tg_words t] t3 = Some t'"
      using assms m by (auto simp: build_features_def split: Option.bind_splits)
    have "only_nodes t1 t2" by (rule floop_nodes [OF shared_features_nodes f(2)])
    moreover have "only_nodes t3 t'" by (rule floop_nodes [OF _ f(4)]) (auto simp: scale_word_def dest: scale_nodes)
    ultimately show ?thesis using edge_features_nodes(1) [OF f(1)] edge_features_nodes(2) [OF f(3)] only_nodes_trans by blast
  next
    case False
    then show ?thesis using assms m floop_nodes [OF word_features_nodes]
      by (auto simp: build_features_def split: Option.bind_splits if_splits)
  qed
qed

subsection \<open>A whole query\<close>

text \<open>What no query changes.\<close>

definition same_setup :: "crf_tag \<Rightarrow> crf_tag \<Rightarrow> bool" where
  "same_setup t t' \<longleftrightarrow> tg_model t' = tg_model t \<and> tg_ysize t' = tg_ysize t \<and> tg_max_words t' = tg_max_words t \<and>
     tg_max_len t' = tg_max_len t \<and> tg_max_nbest t' = tg_max_nbest t \<and> tg_ready t' = tg_ready t \<and> tg_nbest t' = tg_nbest t \<and>
     tg_vlevel t' = tg_vlevel t \<and>
     (\<forall>i j. nd_x (tg_node t' i j) = nd_x (tg_node t i j) \<and> nd_y (tg_node t' i j) = nd_y (tg_node t i j))"

lemma same_setup_trans: "same_setup t t' \<Longrightarrow> same_setup t' t'' \<Longrightarrow> same_setup t t''"
  by (simp add: same_setup_def)

lemma only_nodes_same: "only_nodes t t' \<Longrightarrow> same_setup t t'"
  by (auto simp: only_nodes_def same_setup_def)

lemma same_weights_same: "same_weights t t' \<Longrightarrow> same_setup t t'"
  by (auto simp: same_weights_def same_setup_def)

lemma loaded_setup: "same_setup t (loaded (snd (tag_reset t)) rows)"
  by (simp add: same_setup_def loaded_def clear_costs_def tag_reset_def)

text \<open>The tagger that is parsed for a text.\<close>

definition query_tag :: "crf_tag \<Rightarrow> string \<Rightarrow> nat \<Rightarrow> crf_tag" where
  "query_tag t inp vl = set_vlevel vl (set_nbest 1 (loaded (snd (tag_reset t)) (row_split inp)))"

lemma query_tag_fields:
  "tg_words (query_tag t inp vl) = length (row_split inp)" "i < length (row_split inp) \<Longrightarrow> tg_row (query_tag t inp vl) i = length (row_split inp ! i)"
  "tg_ready (query_tag t inp vl) = tg_ready t" "tg_model (query_tag t inp vl) = tg_model t" "tg_ysize (query_tag t inp vl) = tg_ysize t"
  "tg_max_words (query_tag t inp vl) = tg_max_words t" "tg_max_nbest (query_tag t inp vl) = tg_max_nbest t"
  "tg_vlevel (query_tag t inp vl) = vl" "1 \<le> tg_max_nbest t \<Longrightarrow> tg_nbest (query_tag t inp vl) = 1"
  by (auto simp: query_tag_def set_vlevel_def set_nbest_def loaded_def clear_costs_def tag_reset_def)

text \<open>Parsing for one result: the labels are a best labelling of the rows.\<close>

lemma parse_one:
  assumes "tg_ready t" "0 < tg_words t" "0 < tg_ysize t" "tg_nbest t \<le> 1" "build_features t = Some (0, t2)" "weights_ok B t2"
  shows "\<exists>t3. tag_parse t = Some (0, t3) \<and> labels_of t3 \<in> labellings t2 (tg_words t) \<and>
    (\<forall>ys \<in> labellings t2 (tg_words t). score t2 0 ys \<le> score t2 0 (labels_of t3)) \<and>
    (\<forall>i < tg_words t. 0 \<le> tg_result t3 i) \<and> tg_words t3 = tg_words t \<and> tg_row t3 = tg_row t \<and> same_setup t t3"
proof -
  have o: "only_nodes t t2" by (rule build_features_nodes [OF assms(5)])
  have n: "tg_words t2 = tg_words t" "tg_ysize t2 = tg_ysize t" "tg_row t2 = tg_row t" "tg_nbest t2 = tg_nbest t"
    using only_nodes_setup [OF o] by simp_all
  obtain t1 t3 r where v: "viterbi t2 = Some (0, t3)" "same_weights t2 t1" "labels_of t3 \<in> labellings t2 (tg_words t2)"
    "\<forall>ys \<in> labellings t2 (tg_words t2). score t2 0 ys \<le> score t2 0 (labels_of t3)" "\<forall>i < tg_words t2. 0 \<le> tg_result t3 i"
    and t3: "t3 = t1\<lparr>tg_result := r, tg_cost := - score t2 0 (labels_of t3)\<rparr>"
    using viterbi_ok [OF assms(6)] assms(2,3) n by auto
  have e: "tg_words t3 = tg_words t1" "tg_row t3 = tg_row t1" "same_setup t1 t3"
    by (subst t3, simp add: same_setup_def)+
  have "tg_words t1 = tg_words t2" "tg_row t1 = tg_row t2" using v(2) by (auto simp: same_weights_def)
  moreover have S: "same_setup t t3"
    by (rule same_setup_trans [OF only_nodes_same [OF o] same_setup_trans [OF same_weights_same [OF v(2)] e(3)]])
  moreover have "tg_nbest t3 \<le> 1" using S assms(4) by (simp add: same_setup_def)
  ultimately show ?thesis using assms(1,2,4,5) v n e by (simp add: tag_parse_def)
qed

text \<open>The class names of the labels can be read.\<close>

lemma label_names:
  assumes lab: "labels_of t \<in> labellings t2 (tg_words t)" and r: "\<forall>i < tg_words t. 0 \<le> tg_result t i"
    and m: "tg_model t = Some m" "tg_ysize t2 \<le> length (cm_ynames m)" and i: "i < tg_words t"
  shows "yname t (tg_result t i) \<noteq> None"
proof -
  have "labels_of t ! i \<in> set (labels_of t)" "labels_of t ! i = nat (tg_result t i)" using i by (simp_all add: labels_of_def)
  then have "nat (tg_result t i) < tg_ysize t2" using lab by (auto simp: labellings_def)
  then show ?thesis using m r i by (simp add: yname_def rd_def nat_less_iff)
qed

text \<open>The closed terms of a labelled text make up the text, because its last word ends a term.\<close>

lemma cut_terms_all:
  assumes "length rows = tg_words t" "rows \<noteq> []"
  shows "concat (fst (cut_terms (zip rows (word_ends t)))) = concat rows"
proof -
  let ?z = "zip rows (word_ends t)"
  have l: "length (word_ends t) = length rows" using assms by (simp add: word_ends_def)
  then have z: "?z \<noteq> []" using assms(2) by (metis length_0_conv length_zip min.idem)
  have "last ?z = ?z ! (length rows - 1)" using z l by (simp add: last_conv_nth)
  moreover have "0 < tg_words t" unfolding assms(1) [symmetric] using assms(2) by simp
  ultimately have "snd (last ?z)" using assms(1) l by (simp add: word_ends_def)
  then show ?thesis using cut_terms_text [of ?z] cut_terms_closed [OF z] l by simp
qed

text \<open>From loaded rows to terms, asked for one result.\<close>

lemma rows_output:
  assumes q: "tg_ready q" "tg_model q = Some m" "tg_ysize q \<le> length (cm_ynames m)" "0 < tg_ysize q" "tg_nbest q = 1"
    and rows: "tg_words q = length rows" "\<And>i. i < length rows \<Longrightarrow> tg_row q i = length (rows ! i)" "rows \<noteq> []"
      "length (concat rows) < 100" "length rows \<le> to_size (co_bufs pout 0)"
    and costs: "build_features q = Some (0, t2)" "weights_ok B t2"
  shows "\<exists>t3 b. tag_parse q = Some (0, t3) \<and> same_setup q t3 \<and> to_size b = to_size (co_bufs pout 0) \<and>
    seg_output avg (s\<lparr>sg_tag := t3\<rparr>) pout = Some (0, s\<lparr>sg_tag := t3\<rparr>, pout\<lparr>co_nbest := 1, co_bufs := (co_bufs pout)(0 := b)\<rparr>) \<and>
    labels_of t3 \<in> labellings t2 (length rows) \<and>
    (\<forall>ys \<in> labellings t2 (length rows). score t2 0 ys \<le> score t2 0 (labels_of t3)) \<and> length (word_ends t3) = length rows \<and>
    holds_terms (fst (cut_terms (zip rows (word_ends t3)))) b \<and> concat (fst (cut_terms (zip rows (word_ends t3)))) = concat rows"
proof -
  obtain t3 where t3: "tag_parse q = Some (0, t3)" "labels_of t3 \<in> labellings t2 (length rows)"
    "\<forall>ys \<in> labellings t2 (length rows). score t2 0 ys \<le> score t2 0 (labels_of t3)" "\<forall>i < length rows. 0 \<le> tg_result t3 i"
    "tg_words t3 = length rows" "tg_row t3 = tg_row q" "same_setup q t3"
    using parse_one [OF q(1) _ q(4) _ costs] q(5) rows(1,3) by auto
  have s3: "tg_model t3 = Some m" "tg_nbest t3 = 1" using t3(7) q by (simp_all add: same_setup_def)
  have y2: "tg_ysize t2 \<le> length (cm_ynames m)" using only_nodes_setup [OF build_features_nodes [OF costs(1)]] q(3) by simp
  have names: "yname t3 (tg_result t3 i) \<noteq> None" if "i < tg_words t3" for i
    by (rule label_names [of t3 t2 m]) (use t3 s3 y2 that in simp_all)
  have "\<exists>b. seg_termbuf_build avg (tg_vlevel t3) (s\<lparr>sg_tag := t3\<rparr>) (co_bufs pout 0) = Some (0, b) \<and>
      to_size b = to_size (co_bufs pout 0) \<and> holds_terms (fst (cut_terms (zip rows (word_ends t3)))) b"
    by (rule seg_termbuf_build_ok) (use names rows t3(5,6) in simp_all)
  then show ?thesis using t3 s3 rows(3) cut_terms_all [of rows t3]
    by (auto simp: seg_output_def build_into_def MAX_NBEST_NUM_def word_ends_def)
qed

text \<open>
  C35 Segmenting a text: for a text of at most 99 bytes, a tagger with room for its characters and
  weights that cannot overflow, \<open>crf_segment_words\<close> asked for one result succeeds. The terms it
  stores, read from the text by the offsets and lengths of the result, are the characters joined up
  to each one whose label ends a term, their concatenation is the text, and the labels are a best
  labelling under the computed weights.
\<close>

theorem crf_segment_tiles:
  assumes bytes: "CHR 0x00 \<notin> set inp" "inp \<noteq> []" "length inp < 100"
    and tag: "tg_ready (sg_tag s)" "tg_model (sg_tag s) = Some m" "tg_ysize (sg_tag s) \<le> length (cm_ynames m)" "0 < tg_ysize (sg_tag s)"
      "1 \<le> tg_max_nbest (sg_tag s)"
    and room: "length (row_split inp) \<le> tg_max_words (sg_tag s)" "3 \<le> tg_max_words (sg_tag s)" "3 \<le> tg_max_len (sg_tag s)"
      "length (row_split inp) \<le> to_size (co_bufs pout 0)"
    and costs: "build_features (query_tag (sg_tag s) inp vl) = Some (0, t2)" "weights_ok B t2" "vl \<le> 2"
  shows "\<exists>s' out. crf_segment_words avg s pout inp (int (length inp)) 1 (int vl) = Some (0, s', out) \<and> co_nbest out = 1 \<and>
    labels_of (sg_tag s') \<in> labellings t2 (length (row_split inp)) \<and>
    (\<forall>ys \<in> labellings t2 (length (row_split inp)). score t2 0 ys \<le> score t2 0 (labels_of (sg_tag s'))) \<and>
    out_terms inp (co_bufs out 0) = fst (cut_terms (zip (row_split inp) (word_ends (sg_tag s')))) \<and>
    concat (out_terms inp (co_bufs out 0)) = inp"
proof -
  let ?rows = "row_split inp" and ?q = "query_tag (sg_tag s) inp vl"
  have c: "c_text inp = inp" using bytes(1) by (simp add: c_text_def takeWhile_eq_all_conv) (metis)
  obtain pad where mr: "make_rows 0 inp = Some (concat (map (\<lambda>r. r @ [CHR 0x00]) ?rows) @ pad, length ?rows)"
    using make_rows_ok [of 0 inp] bytes(3) by auto
  obtain T where rs: "tag_reset (sg_tag s) = (0, T)" "tg_words T = 0" "tg_max_words T = tg_max_words (sg_tag s)"
    "tg_max_len T = tg_max_len (sg_tag s)" "tg_ready T" "tg_model T = Some m"
    using tag by (auto simp: tag_reset_def)
  have "CHR 0x00 \<notin> set r \<and> length r < tg_max_words T \<and> length r < tg_max_len T" if "r \<in> set ?rows" for r
    using bspec [OF row_split_rows that] bytes(1) room(2,3) rs by auto
  then have add: "tag_add (concat (map (\<lambda>r. r @ [CHR 0x00]) ?rows) @ pad) (length ?rows) T = Some (0, loaded T ?rows)"
    using tag_add_ok [of T ?rows pad] rs room(1) by simp
  note q = query_tag_fields [where t = "sg_tag s" and inp = inp and vl = vl]
  obtain t3 b where t3: "tag_parse ?q = Some (0, t3)" "labels_of t3 \<in> labellings t2 (length ?rows)"
    "\<forall>ys \<in> labellings t2 (length ?rows). score t2 0 ys \<le> score t2 0 (labels_of t3)"
    and out: "seg_output avg (s\<lparr>sg_tag := t3\<rparr>) pout = Some (0, s\<lparr>sg_tag := t3\<rparr>, pout\<lparr>co_nbest := 1, co_bufs := (co_bufs pout)(0 := b)\<rparr>)"
    and b: "holds_terms (fst (cut_terms (zip ?rows (word_ends t3)))) b" "concat (fst (cut_terms (zip ?rows (word_ends t3)))) = concat ?rows"
    using rows_output [of ?q m ?rows pout t2 B avg s] q tag bytes(2,3) room(4) costs by auto
  have terms: "out_terms inp b = fst (cut_terms (zip ?rows (word_ends t3)))" using holds_terms_text [OF b(1)] b(2) bytes(3) by simp
  have "crf_segment_words avg s pout inp (int (length inp)) 1 (int vl) =
      Some (0, s\<lparr>sg_tag := t3\<rparr>, pout\<lparr>co_nbest := 1, co_bufs := (co_bufs pout)(0 := b)\<rparr>)"
    using costs(3) bytes(3) rs(1) c mr add t3(1) out
    by (simp add: crf_segment_words_def run_query_def seg_add_def seg_parse_def CRF_MAX_QUERY_LEN_def MAX_NBEST_NUM_def query_tag_def)
  then show ?thesis using t3(2,3) terms b(2) by (intro exI conjI) (assumption, simp_all)
qed

text \<open>Three letters, with a model that has no features, so that only the weights of the pairs count.\<close>

definition plain_tag :: crf_tag where
  "plain_tag = snd (init_by_model 100 (Some sample_model) (crf_tag_new 4 3 10))"

lemma plain_fields: "tg_ready plain_tag" "tg_model plain_tag = Some sample_model" "tg_ysize plain_tag = 2" "tg_max_words plain_tag = 3"
  "tg_max_len plain_tag = 10" "tg_max_nbest plain_tag = 4" "cm_version sample_model = 100" "cm_templs sample_model = 0"
  "nd_x (tg_node plain_tag i j) = i mod 65536" "nd_y (tg_node plain_tag i j) = j mod 65536" "cm_scale sample_model = (\<lambda>x. x)"
  "cm_alpha sample_model = [5, -3, 0, 2]" "cm_bpos sample_model = 0" "cm_ynames sample_model = [''B'', ''E_x'']"
  by (simp_all add: plain_tag_def init_by_model_def crf_tag_new_def sample_model_def heap_init_def)

lemma plain_rows: "row_split ''abc'' = [''a'', ''b'', ''c'']"
  by (simp add: is_chn_char_def)

lemma query_tag_nodes [simp]:
  "nd_x (tg_node (query_tag t inp vl) i j) = nd_x (tg_node t i j)" "nd_y (tg_node (query_tag t inp vl) i j) = nd_y (tg_node t i j)"
  by (simp_all add: query_tag_def set_vlevel_def set_nbest_def loaded_def clear_costs_def tag_reset_def)

lemma plain_costs: "build_features (query_tag plain_tag ''abc'' vl) = Some (0, with_costs (query_tag plain_tag ''abc'' vl) (\<lambda>_ _. 0))"
proof -
  have "build_features (query_tag plain_tag ''abc'' vl) = Some (0, with_costs (query_tag plain_tag ''abc'' vl)
      (\<lambda>i j. cm_scale sample_model (weight_sum sample_model (templ_ids sample_model (query_tag plain_tag ''abc'' vl) i) (cm_templs sample_model) j)))"
    by (rule build_100_ok [where A = 5])
      (simp_all add: query_tag_fields plain_fields plain_rows alpha_ok_def scale_ok_def ids100_ok_def i32_def del: row_split.simps, auto)
  then show ?thesis by (simp add: plain_fields weight_sum_def)
qed

lemma plain_weights: "weights_ok 7 (with_costs (query_tag plain_tag ''abc'' vl) (\<lambda>_ _. 0))"
  unfolding weights_ok_def
  by (simp add: query_tag_fields plain_fields plain_rows nc_def pc_def path_cost_def rd_def with_costs_def numeral_2_eq_2
      numeral_3_eq_3 less_Suc_eq all_conj_distrib cong: if_cong del: row_split.simps)

theorem crf_segment_tiles_witness:
  "\<exists>s' out. crf_segment_words (\<lambda>_ _. 0) \<lparr>sg_tag = plain_tag, sg_ne = True\<rparr> (the (crf_create_out 1000 10)) ''abc'' 3 1 1 = Some (0, s', out) \<and>
    concat (out_terms ''abc'' (co_bufs out 0)) = ''abc''"
proof -
  have "\<exists>s' out. crf_segment_words (\<lambda>_ _. 0) \<lparr>sg_tag = plain_tag, sg_ne = True\<rparr> (the (crf_create_out 1000 10)) ''abc''
      (int (length ''abc'')) 1 (int 1) = Some (0, s', out) \<and> co_nbest out = 1 \<and>
    labels_of (sg_tag s') \<in> labellings (with_costs (query_tag plain_tag ''abc'' 1) (\<lambda>_ _. 0)) (length (row_split ''abc'')) \<and>
    (\<forall>ys \<in> labellings (with_costs (query_tag plain_tag ''abc'' 1) (\<lambda>_ _. 0)) (length (row_split ''abc'')).
      score (with_costs (query_tag plain_tag ''abc'' 1) (\<lambda>_ _. 0)) 0 ys \<le>
      score (with_costs (query_tag plain_tag ''abc'' 1) (\<lambda>_ _. 0)) 0 (labels_of (sg_tag s'))) \<and>
    out_terms ''abc'' (co_bufs out 0) = fst (cut_terms (zip (row_split ''abc'') (word_ends (sg_tag s')))) \<and>
    concat (out_terms ''abc'' (co_bufs out 0)) = ''abc''"
    by (rule crf_segment_tiles [OF _ _ _ _ _ _ _ _ _ _ _ _ _ plain_weights, where m = sample_model])
      (simp_all add: plain_costs plain_fields plain_rows crf_create_out_def MAX_NBEST_NUM_def del: row_split.simps)
  then show ?thesis by auto
qed

end
