(* ===== verification/CrfCheck.thy ===== *)
theory CrfCheck
  imports SegMerge CrfSeg
begin

text \<open>
  From the terms of the CRF tagger to entries (\<open>check_crf_exist\<close> of \<open>segimpl.cpp\<close>). When every term is a
  word of the dictionary or a run of letters and digits, the terms become the entries of the result.
  Otherwise the text is written to a buffer in which the known terms stand between two escape
  characters; the segmentation of this buffer must not cut them (\<open>so_protect\<close> of \<open>SegFmm\<close>).
\<close>

subsection \<open>Letters and digits\<close>

definition edge_asc :: "string \<Rightarrow> bool" where
  "edge_asc s \<longleftrightarrow> c_strlen s = 1 \<and> s ! 0 \<in> {CHR ''.'', CHR ''_'', CHR ''-'', CHR 0x40, CHR ''+''}"

function all_num_from :: "string \<Rightarrow> nat \<Rightarrow> nat \<Rightarrow> bool" where
  "all_num_from s len i =
     (if i < len then if is_my_num s i = 0 then False else all_num_from s len (i + is_my_num s i) else True)"
  by pat_completeness auto

termination
  by (relation "measure (\<lambda>(s, len, i). len - i)") auto

function all_asc_from :: "string \<Rightarrow> nat \<Rightarrow> nat \<Rightarrow> bool" where
  "all_asc_from s len i =
     (if i < len
      then if is_my_ascii s i \<noteq> 0 then all_asc_from s len (i + is_my_ascii s i)
        else if s ! i \<in> {CHR ''.'', CHR ''_'', CHR 0x40} then all_asc_from s len (i + 1)
        else False
      else True)"
  by pat_completeness auto

termination
  by (relation "measure (\<lambda>(s, len, i). len - i)") auto

declare all_num_from.simps [simp del] all_asc_from.simps [simp del]

definition all_num :: "string \<Rightarrow> bool" where "all_num s \<longleftrightarrow> all_num_from s (c_strlen s) 0"
definition all_asc :: "string \<Rightarrow> bool" where "all_asc s \<longleftrightarrow> all_asc_from s (c_strlen s) 0"

subsection \<open>The terms\<close>

text \<open>\<open>strncpy\<close> of \<open>n\<close> bytes from \<open>pos\<close> on.\<close>

definition c_ncpy :: "string \<Rightarrow> nat \<Rightarrow> nat \<Rightarrow> string" where
  "c_ncpy s pos n = (let t = takeWhile (\<lambda>c. of_char c \<noteq> (0 :: nat)) (take n (drop pos s)) in
     t @ replicate (n - length t) (char_of (0 :: nat)))"

definition ESC :: char where "ESC = char_of (27 :: nat)"

record crf_check =
  cc_pir :: scw_inner
  cc_buf :: string
  cc_protect :: "nat list"
  cc_man :: nat
  cc_choose :: bool

text \<open>
  A run of letters and digits becomes a dynamic word. The flag of its entry is set for a controlled
  word and left as it is otherwise.
\<close>

definition put_asc_term :: "scw_inner \<Rightarrow> string \<Rightarrow> bool \<Rightarrow> (int \<times> scw_inner) option" where
  "put_asc_term p term man = (let (k, p1) = create_dynword p term in
     if k < 0 then Some (-1, p1)
     else do {
       c_assert (m_ppseg_cnt p1 < m_maxterm p1);
       Some (0, (upd_dynlm p1 (nat k) (set_property (\<lambda>x. if all_num term then SET_ASCIINUM (SET_ASCIIWORD x) else SET_ASCIIWORD x)))
         \<lparr>m_ppseg := (m_ppseg p1)(m_ppseg_cnt p1 := Some (Dyn (nat k))),
          m_ppseg_flag := (if man then (m_ppseg_flag p1)(m_ppseg_cnt p1 := 1) else m_ppseg_flag p1),
          m_ppseg_cnt := m_ppseg_cnt p1 + 1\<rparr>) })"

definition put_known :: "string \<Rightarrow> bool \<Rightarrow> crf_check \<Rightarrow> crf_check" where
  "put_known term man s =
     (if man then s\<lparr>cc_buf := cc_buf s @ term\<rparr>
      else s\<lparr>cc_protect := cc_protect s @ [length (cc_buf s), length (cc_buf s) + 1 + length term],
             cc_buf := cc_buf s @ [ESC] @ term @ [ESC]\<rparr>)"

text \<open>One term \<open>x\<close>, its length in the high 8 bits and its offset in the low 24 bits.\<close>

definition check_term :: "scw_worddict \<Rightarrow> string \<Rightarrow> nat \<Rightarrow> crf_check \<Rightarrow> (int \<times> crf_check) option" where
  "check_term d inbuf x s =
     (let p = cc_pir s; n = CRF_GET_TERM_LEN x; term = c_ncpy inbuf (CRF_GET_TERM_POS x) n in
      if length (cc_buf s) + n + 9 > m_maxterm p * 30 \<or> length (cc_protect s) + 2 > m_maxterm p \<or>
        cc_man s > m_mandictword_cnt p then Some (-1, s)
      else do {
        let man = (cc_man s < m_mandictword_cnt p \<and> x = m_mandictword_prop p (cc_man s));
        let s1 = (if man then s\<lparr>cc_man := cc_man s + 1\<rparr> else s);
        l \<leftarrow> scw_seek_lemma d term n;
        if l = LEMMA_NULL \<and> \<not> all_asc term then Some (0, s1\<lparr>cc_choose := False, cc_buf := cc_buf s @ term\<rparr>)
        else do {
          let s2 = put_known term man s1;
          if \<not> cc_choose s then Some (0, s2)
          else do {
            (e, q) \<leftarrow> (if all_asc term then put_asc_term p term man else append_lemma d p (Static l));
            Some (if e < 0 then -1 else 0, s2\<lparr>cc_pir := q\<rparr>) } } })"

fun check_terms :: "scw_worddict \<Rightarrow> string \<Rightarrow> nat list \<Rightarrow> crf_check \<Rightarrow> (int \<times> crf_check) option" where
  "check_terms d inbuf [] s = Some (0, s)"
| "check_terms d inbuf (x # xs) s = do {
     (e, s1) \<leftarrow> check_term d inbuf x s;
     if e < 0 then Some (-1, s1) else check_terms d inbuf xs s1 }"

text \<open>
  The caller passes \<open>choosecrf\<close> as true. \<open>needremove\<close> is set exactly when it comes back as false; a
  failure empties the buffer, which no caller reads then.
\<close>

definition check_crf_exist :: "scw_worddict \<Rightarrow> scw_inner \<Rightarrow> string \<Rightarrow> nat list \<Rightarrow> (int \<times> crf_check) option" where
  "check_crf_exist d p inbuf xs = do {
     (e, s) \<leftarrow> check_terms d inbuf xs \<lparr>cc_pir = p\<lparr>m_ppseg_cnt := 0\<rparr>, cc_buf = [], cc_protect = [], cc_man = 0, cc_choose = True\<rparr>;
     Some (e, if e = 0 \<and> \<not> cc_choose s then s\<lparr>cc_pir := (cc_pir s)\<lparr>m_ppseg_cnt := 0\<rparr>\<rparr> else s) }"

subsection \<open>The entries, or the buffer, hold the text\<close>

text \<open>The text without the escape characters at the protected places.\<close>

definition unprotect :: "crf_check \<Rightarrow> string" where
  "unprotect s = nths (cc_buf s) {i. i \<notin> set (cc_protect s)}"

text \<open>The terms cut the text, from \<open>pos\<close> to its end, into pieces of 1 to 255 bytes.\<close>

fun tiles :: "string \<Rightarrow> nat \<Rightarrow> nat list \<Rightarrow> bool" where
  "tiles s pos [] \<longleftrightarrow> pos = length s"
| "tiles s pos (x # xs) \<longleftrightarrow> CRF_GET_TERM_POS x = pos \<and> 0 < CRF_GET_TERM_LEN x \<and> CRF_GET_TERM_LEN x < 256 \<and>
     pos + CRF_GET_TERM_LEN x \<le> length s \<and> tiles s (pos + CRF_GET_TERM_LEN x) xs"

lemma c_ncpy_plain:
  assumes "\<forall>c \<in> set s. (of_char c :: nat) \<noteq> 0" "pos + n \<le> length s"
  shows "c_ncpy s pos n = take n (drop pos s)"
proof -
  have "\<forall>c \<in> set (take n (drop pos s)). (of_char c :: nat) \<noteq> 0" using assms(1) by (meson in_set_dropD in_set_takeD)
  then have t: "takeWhile (\<lambda>c. of_char c \<noteq> (0 :: nat)) (take n (drop pos s)) = take n (drop pos s)"
    unfolding takeWhile_eq_all_conv .
  show ?thesis unfolding c_ncpy_def Let_def t using assms(2) by simp
qed

lemma unprotect_append:
  assumes "\<forall>i \<in> set ps. i < length b" "\<forall>i \<in> set qs. length b \<le> i"
  shows "nths (b @ t) {i. i \<notin> set (ps @ qs)} = nths b {i. i \<notin> set ps} @ nths t {j. j + length b \<notin> set qs}"
proof -
  have "nths b {i. i \<notin> set (ps @ qs)} = nths b {i. i \<notin> set ps}"
    unfolding nths_def by (rule arg_cong [where f = "map fst"], rule filter_cong [OF refl])
      (use assms(2) in \<open>auto dest!: set_zip_rightD\<close>)
  moreover have "{j. j + length b \<notin> set (ps @ qs)} = {j. j + length b \<notin> set qs}" using assms(1) by auto
  ultimately show ?thesis by (simp add: nths_append)
qed

lemma unprotect_known: "nths ([c] @ t @ [c]) {j. j + L \<notin> {L, L + 1 + length t}} = t"
proof -
  have "nths t {j. Suc (j + L) \<notin> {L, L + 1 + length t}} = t" by (rule nths_all) auto
  then show ?thesis by (simp add: nths_Cons nths_append)
qed

text \<open>The flags of the entries do not matter.\<close>

lemma flags_ok:
  assumes d: "wf_phrases d" and w: "wf_inner d p"
  shows "wf_inner d (p\<lparr>m_ppseg_flag := F\<rparr>)" "seg_text d (p\<lparr>m_ppseg_flag := F\<rparr>) = seg_text d p"
proof -
  let ?q = "p\<lparr>m_ppseg_flag := F\<rparr>"
  have e: "inner_ext p ?q" by (simp add: inner_ext_def)
  show w': "wf_inner d ?q"
    by (rule wf_inner_add [OF d w e]) (use w seg_ref_ext [OF e] in \<open>auto simp: wf_inner_def\<close>)
  show "seg_text d ?q = seg_text d p"
    by (rule seg_text_refs [OF d w w' e]) (auto intro: seg_refs_cong)
qed

lemma emptied_ok:
  assumes d: "wf_phrases d" and w: "wf_inner d p"
  shows "wf_inner d (p\<lparr>m_ppseg_cnt := 0\<rparr>)" "seg_text d (p\<lparr>m_ppseg_cnt := 0\<rparr>) = []"
proof -
  have e: "inner_ext p (p\<lparr>m_ppseg_cnt := 0\<rparr>)" by (simp add: inner_ext_def)
  show "wf_inner d (p\<lparr>m_ppseg_cnt := 0\<rparr>)" by (rule wf_inner_add [OF d w e]) (use w in \<open>auto simp: wf_inner_def\<close>)
  show "seg_text d (p\<lparr>m_ppseg_cnt := 0\<rparr>) = []" by (simp add: seg_text_def seg_refs_def List.map_filter_simps)
qed

lemma put_asc_term_ok:
  assumes d: "wf_phrases d" and w: "wf_inner d p" and s: "length s < 256" "\<forall>c \<in> set s. (of_char c :: nat) \<noteq> 0"
    and a: "put_asc_term p s man = Some (e, q)" "0 \<le> e"
  shows "wf_inner d q \<and> seg_text d q = seg_text d p @ map of_char s"
proof -
  define f where "f = (\<lambda>x. if all_num s then SET_ASCIINUM (SET_ASCIIWORD x) else SET_ASCIIWORD x)"
  obtain k p1 where k: "create_dynword p s = (k, p1)" "0 \<le> k" "m_ppseg_cnt p1 < m_maxterm p1"
    using a by (auto simp: put_asc_term_def c_assert_def Let_def split: if_splits prod.splits)
  define q' where "q' = upd_dynlm (put_ppseg p1 0 (Dyn (nat k))) (nat k) (set_property f)"
  have "add_dynword p s f = (0, q')"
    using k by (simp add: add_dynword_def append_lemma_pos_def SCW_STATIC_def SCW_DYNAMIC_def q'_def)
  note A = add_dynword_ok(2) [OF d w s this refl]
  have "q = q'\<lparr>m_ppseg_flag := m_ppseg_flag q\<rparr>"
    using a k by (auto simp: put_asc_term_def c_assert_def Let_def q'_def put_ppseg_def upd_dynlm_def f_def)
  then show ?thesis using flags_ok [OF d, of q' "m_ppseg_flag q"] A by metis
qed

lemma append_known_ok:
  assumes d: "seg_dict M d" and w: "wf_inner d p" and s: "s \<noteq> []" "scw_seek_lemma d s (length s) = Some l" "l \<noteq> LEMMA_NULL"
    and a: "append_lemma d p (Static l) = Some (e, q)" "0 \<le> e"
  shows "wf_inner d q \<and> seg_text d q = seg_text d p @ map of_char s"
proof -
  have D: "wf_dict M d" "wf_phrases d" "dict_texts d" using d by (simp_all add: seg_dict_def)
  have "l = dict_lookup d (term_words s)" using seek_lemma_words [OF D(1) s(1)] s(2) by simp
  then have "spells d l (term_words s)" using D(3) s(3) gb_words_nonempty [OF s(1)] by (simp add: dict_texts_def)
  then have l: "l < m_lmpos d" "m_type (m_lemmalist d l) \<in> {LEMMA_TYPE_SBASIC, LEMMA_TYPE_SPHRASE}"
    "lm_text d p (Static l) = map of_char s" by (simp_all add: spells_def enc_term_words)
  have "m_ppseg_cnt p < m_maxterm p" "q = put_ppseg p 0 (Static l)"
    using a l(2) by (auto simp: append_lemma_def deref_def lemma_types Let_def split: if_splits)
  then show ?thesis using append_static_ok(2) [OF D(2) w l(1,2)] l(3) by simp
qed

definition check_inv :: "scw_worddict \<Rightarrow> string \<Rightarrow> crf_check \<Rightarrow> bool" where
  "check_inv d t s \<longleftrightarrow> unprotect s = t \<and> (\<forall>i \<in> set (cc_protect s). i < length (cc_buf s) \<and> cc_buf s ! i = ESC) \<and>
     (cc_choose s \<longrightarrow> wf_inner d (cc_pir s) \<and> seg_text d (cc_pir s) = map of_char t)"

lemma put_known_ok:
  assumes "unprotect s = t" "\<forall>i \<in> set (cc_protect s). i < length (cc_buf s) \<and> cc_buf s ! i = ESC"
  shows "unprotect (put_known u man s) = t @ u"
    "\<forall>i \<in> set (cc_protect (put_known u man s)). i < length (cc_buf (put_known u man s)) \<and> cc_buf (put_known u man s) ! i = ESC"
proof -
  let ?b = "cc_buf s" and ?ps = "cc_protect s"
  have p: "\<forall>i \<in> set ?ps. i < length ?b" using assms(2) by blast
  have "unprotect (put_known u man s) = t @ u \<and>
    (\<forall>i \<in> set (cc_protect (put_known u man s)). i < length (cc_buf (put_known u man s)) \<and> cc_buf (put_known u man s) ! i = ESC)"
  proof (cases man)
    case True
    then show ?thesis using unprotect_append [OF p, of "[]" u] assms
      by (auto simp: put_known_def unprotect_def nths_all nth_append)
  next
    case False
    have "nths (?b @ [ESC] @ u @ [ESC]) {i. i \<notin> set (?ps @ [length ?b, length ?b + 1 + length u])} = t @ u"
      using unprotect_append [OF p, of "[length ?b, length ?b + 1 + length u]" "[ESC] @ u @ [ESC]"]
        unprotect_known [of ESC u "length ?b"] assms(1) by (simp add: unprotect_def)
    then show ?thesis using False assms(2) by (auto simp: put_known_def unprotect_def nth_append)
  qed
  then show "unprotect (put_known u man s) = t @ u"
    "\<forall>i \<in> set (cc_protect (put_known u man s)). i < length (cc_buf (put_known u man s)) \<and> cc_buf (put_known u man s) ! i = ESC"
    by blast+
qed

lemma check_term_ok:
  assumes d: "seg_dict M d" and I: "check_inv d t s" and n: "\<forall>c \<in> set inbuf. (of_char c :: nat) \<noteq> 0"
    and x: "CRF_GET_TERM_POS x + CRF_GET_TERM_LEN x \<le> length inbuf" "0 < CRF_GET_TERM_LEN x" "CRF_GET_TERM_LEN x < 256"
    and c: "check_term d inbuf x s = Some (e, s')" "0 \<le> e"
  shows "check_inv d (t @ take (CRF_GET_TERM_LEN x) (drop (CRF_GET_TERM_POS x) inbuf)) s'"
proof -
  let ?n = "CRF_GET_TERM_LEN x" and ?u = "take (CRF_GET_TERM_LEN x) (drop (CRF_GET_TERM_POS x) inbuf)"
  let ?man = "cc_man s < m_mandictword_cnt (cc_pir s) \<and> x = m_mandictword_prop (cc_pir s) (cc_man s)"
  let ?s1 = "if ?man then s\<lparr>cc_man := cc_man s + 1\<rparr> else s"
  have u: "c_ncpy inbuf (CRF_GET_TERM_POS x) ?n = ?u" by (rule c_ncpy_plain [OF n x(1)])
  have un: "?u \<noteq> []" "length ?u = ?n" "\<forall>c \<in> set ?u. (of_char c :: nat) \<noteq> 0"
    using x n by (auto dest: in_set_takeD in_set_dropD)
  obtain l where l: "scw_seek_lemma d ?u ?n = Some l"
    using c by (auto simp: check_term_def Let_def u bind_eq_Some_conv split: if_splits)
  show ?thesis
  proof (cases "l = LEMMA_NULL \<and> \<not> all_asc ?u")
    case True
    then have s': "s' = ?s1\<lparr>cc_choose := False, cc_buf := cc_buf s @ ?u\<rparr>"
      using c l by (auto simp: check_term_def Let_def u split: if_splits)
    then show ?thesis using put_known_ok [of s t ?u True] I
      by (auto simp: check_inv_def put_known_def unprotect_def nth_append)
  next
    case known: False
    have P: "unprotect (put_known ?u ?man ?s1) = t @ ?u"
      "\<forall>i \<in> set (cc_protect (put_known ?u ?man ?s1)). i < length (cc_buf (put_known ?u ?man ?s1)) \<and> cc_buf (put_known ?u ?man ?s1) ! i = ESC"
      by (rule put_known_ok; use I in \<open>auto simp: check_inv_def unprotect_def\<close>)+
    have same: "cc_pir (put_known ?u ?man ?s1) = cc_pir s" "cc_choose (put_known ?u ?man ?s1) = cc_choose s"
      by (simp_all add: put_known_def)
    show ?thesis
    proof (cases "cc_choose s")
      case False
      then have "s' = put_known ?u ?man ?s1"
        using c l known by (auto simp: check_term_def Let_def u split: if_splits)
      then show ?thesis using P same False by (simp add: check_inv_def)
    next
      case True
      obtain e1 q where q: "(if all_asc ?u then put_asc_term (cc_pir s) ?u ?man else append_lemma d (cc_pir s) (Static l)) = Some (e1, q)"
        "0 \<le> e1" "s' = (put_known ?u ?man ?s1)\<lparr>cc_pir := q\<rparr>"
        using c l known True by (auto simp: check_term_def Let_def u bind_eq_Some_conv split: if_splits)
      have w: "wf_inner d (cc_pir s)" "seg_text d (cc_pir s) = map of_char t" using I True by (simp_all add: check_inv_def)
      have "wf_inner d q \<and> seg_text d q = seg_text d (cc_pir s) @ map of_char ?u"
      proof (cases "all_asc ?u")
        case True
        then show ?thesis using put_asc_term_ok [OF _ w(1) _ un(3)] q(1,2) x(3) d un(2) by (simp add: seg_dict_def)
      next
        case False
        then show ?thesis using append_known_ok [OF d w(1) un(1)] l q(1,2) un(2) known by simp
      qed
      then show ?thesis using P w(2) q(3) by (simp add: check_inv_def unprotect_def)
    qed
  qed
qed

lemma check_terms_ok:
  assumes d: "seg_dict M d" and n: "\<forall>c \<in> set inbuf. (of_char c :: nat) \<noteq> 0"
  shows "check_inv d (take pos inbuf) s \<Longrightarrow> tiles inbuf pos xs \<Longrightarrow> check_terms d inbuf xs s = Some (0, s') \<Longrightarrow>
    check_inv d inbuf s'"
proof (induction xs arbitrary: pos s)
  case (Cons x xs)
  let ?n = "CRF_GET_TERM_LEN x"
  have x: "CRF_GET_TERM_POS x = pos" "0 < ?n" "?n < 256" "pos + ?n \<le> length inbuf" "tiles inbuf (pos + ?n) xs"
    using Cons.prems(2) by simp_all
  obtain e s1 where s1: "check_term d inbuf x s = Some (e, s1)" "0 \<le> e" "check_terms d inbuf xs s1 = Some (0, s')"
    using Cons.prems(3) by (auto simp: bind_eq_Some_conv split: if_splits)
  have "check_inv d (take pos inbuf @ take ?n (drop pos inbuf)) s1"
    using check_term_ok [OF d Cons.prems(1) n _ x(2,3) s1(1,2)] x(1,4) by simp
  then have "check_inv d (take (pos + ?n) inbuf) s1" by (simp add: take_add)
  then show ?case using Cons.IH x(5) s1(3) by blast
qed simp

text \<open>
  C39 The terms of the tagger become entries, or a protected text: for terms that cut the text into
  pieces, a successful \<open>check_crf_exist\<close> leaves a buffer that is the text with escape characters added
  at exactly the protected places. When it reports that all terms are known, the entries of the
  result spell the text; otherwise there are none.
\<close>

theorem check_crf_exist_text:
  assumes "seg_dict M d" "wf_inner d p" "\<forall>c \<in> set inbuf. (of_char c :: nat) \<noteq> 0" "tiles inbuf 0 xs"
    and "check_crf_exist d p inbuf xs = Some (0, s)"
  shows "unprotect s = inbuf \<and> (\<forall>i \<in> set (cc_protect s). i < length (cc_buf s) \<and> cc_buf s ! i = ESC) \<and>
    (if cc_choose s then wf_inner d (cc_pir s) \<and> seg_text d (cc_pir s) = map of_char inbuf else m_ppseg_cnt (cc_pir s) = 0)"
proof -
  let ?s0 = "\<lparr>cc_pir = p\<lparr>m_ppseg_cnt := 0\<rparr>, cc_buf = [], cc_protect = [], cc_man = 0, cc_choose = True\<rparr>"
  obtain e s1 where c: "check_terms d inbuf xs ?s0 = Some (e, s1)"
    "Some (0, s) = Some (e, if e = 0 \<and> \<not> cc_choose s1 then s1\<lparr>cc_pir := (cc_pir s1)\<lparr>m_ppseg_cnt := 0\<rparr>\<rparr> else s1)"
    using assms(5) unfolding check_crf_exist_def by (cases "check_terms d inbuf xs ?s0") auto
  then have s1: "check_terms d inbuf xs ?s0 = Some (0, s1)"
    "s = (if cc_choose s1 then s1 else s1\<lparr>cc_pir := (cc_pir s1)\<lparr>m_ppseg_cnt := 0\<rparr>\<rparr>)" by simp_all
  have "check_inv d (take 0 inbuf) ?s0"
    using emptied_ok [OF _ assms(2)] assms(1) by (simp add: check_inv_def unprotect_def seg_dict_def)
  then have "check_inv d inbuf s1" by (rule check_terms_ok [OF assms(1,3) _ assms(4) s1(1)])
  then show ?thesis using s1(2) by (auto simp: check_inv_def unprotect_def)
qed

lemma sample_check:
  "\<exists>s. check_crf_exist sample_dict sample_inner ''a'' [16777216] = Some (0, s) \<and> cc_choose s \<and> cc_buf s = [ESC, CHR ''a'', ESC] \<and>
     cc_protect s = [0, 2]"
proof -
  have g: "CRF_GET_TERM_POS 16777216 = 0" "CRF_GET_TERM_LEN 16777216 = 1"
    by (simp_all add: CRF_GET_TERM_POS_def CRF_GET_TERM_LEN_def drop_bit_eq_div)
  have t: "c_ncpy ''a'' 0 1 = ''a''" by (simp add: c_ncpy_def of_char_def)
  have "scw_seek_lemma sample_dict ''a'' (length ''a'') = Some LEMMA_NULL"
    using seek_lemma_words [OF sample_dict_wf, of "''a''"] fresh_lookup [OF sample_dict_create, of "term_words ''a''"]
      gb_words_nonempty [of "''a''"] by simp
  then have l: "scw_seek_lemma sample_dict ''a'' 1 = Some LEMMA_NULL" by simp
  have m: "c_strlen ''a'' = 1" by (simp add: c_strlen_def of_char_def)
  have i: "is_my_ascii ''a'' 0 = 1" by (simp add: is_my_ascii_def al_num_map_def cbyte_def of_char_def)
  have a: "all_asc ''a''" by (simp add: all_asc_def m all_asc_from.simps i)
  have z: "m_mandictword_cnt sample_inner = 0"
    by (simp add: sample_inner_def scw_create_inner_def realloc_ok_def max_sizes sizeofs)
  show ?thesis
    using l m a z t [unfolded One_nat_def]
    by (simp add: check_crf_exist_def check_term_def Let_def g t sample_inner_fields put_known_def put_asc_term_def create_dynword_def c_assert_def)
qed

theorem check_crf_exist_text_witness:
  "\<exists>s. check_crf_exist sample_dict sample_inner ''a'' [16777216] = Some (0, s) \<and> cc_buf s = [ESC, CHR ''a'', ESC] \<and>
     unprotect s = ''a'' \<and> seg_text sample_dict (cc_pir s) = [97]"
proof -
  obtain s where s: "check_crf_exist sample_dict sample_inner ''a'' [16777216] = Some (0, s)" "cc_choose s" "cc_buf s = [ESC, CHR ''a'', ESC]"
    using sample_check by blast
  have D: "seg_dict 1000000 sample_dict"
    by (rule basic_dict_seg_dict [OF built_basic [OF built.create [OF sample_dict_create]]]) simp
  have t: "tiles ''a'' 0 [16777216]" by (simp add: CRF_GET_TERM_POS_def CRF_GET_TERM_LEN_def drop_bit_eq_div)
  have n: "\<forall>c \<in> set ''a''. (of_char c :: nat) \<noteq> 0" by (simp add: of_char_def)
  show ?thesis
    using check_crf_exist_text [OF D sample_inner_wf n t s(1)] s by (intro exI [of _ s]) (simp add: of_char_def)
qed

end
