(* ===== verification/ScwCrf.thy ===== *)
theory ScwCrf
  imports CrfCheck
begin

unbundle bit_operations_syntax

text \<open>
  Cutting a text into terms with the tagger (\<open>scw_crf.cpp\<close>). The text is normalised as it is read:
  letters become lower case and wide letters and digits become bytes. Marks and controlled words
  are terms of their own and end a run; a run of other characters is given to the tagger, or kept
  as it is when it consists of letters and digits and is short. The array \<open>str_hash_offset\<close> maps
  the positions of the normalised run back to the text.
\<close>

subsection \<open>The result\<close>

text \<open>\<open>cr_size\<close> is the number of terms that the arrays can hold.\<close>

record scw_crf_out =
  cr_nbest :: int
  cr_size :: nat
  cr_terms :: "nat \<Rightarrow> nat list"

definition scw_crf_create :: "nat \<Rightarrow> nat \<Rightarrow> scw_crf_out option" where
  "scw_crf_create M tsize = (if tsize < 1 \<or> M < MAX_NBEST_NUM * (tsize + 1) then None
     else Some \<lparr>cr_nbest = 0, cr_size = tsize + 1, cr_terms = (\<lambda>_. [])\<rparr>)"

text \<open>The tagger, its result and the result of the segmenter.\<close>

record crf_run =
  cu_tag :: seg_tag
  cu_out :: crf_out
  cu_res :: scw_crf_out

text \<open>A length and an offset, shifted and joined as \<open>int\<close> and stored as \<open>u_int\<close>.\<close>

definition pack_term :: "int \<Rightarrow> int \<Rightarrow> nat" where
  "pack_term len pos = u32 (push_bit 24 len OR pos)"

definition push_term :: "nat \<Rightarrow> nat \<Rightarrow> nat \<Rightarrow> scw_crf_out \<Rightarrow> (int \<times> scw_crf_out) option" where
  "push_term max_count x i r =
     (if length (cr_terms r i) + 1 \<ge> max_count then Some (-1, r)
      else do {
        c_assert (length (cr_terms r i) < cr_size r);
        Some (0, r\<lparr>cr_terms := (cr_terms r)(i := cr_terms r i @ [x])\<rparr>) })"

fun push_terms :: "nat \<Rightarrow> nat \<Rightarrow> nat list \<Rightarrow> scw_crf_out \<Rightarrow> (int \<times> scw_crf_out) option" where
  "push_terms max_count x [] r = Some (0, r)"
| "push_terms max_count x (i # is) r = do {
     (e, r1) \<leftarrow> push_term max_count x i r;
     if e < 0 then Some (-1, r1) else push_terms max_count x is r1 }"

text \<open>The same term for each of the results.\<close>

definition put_terms :: "nat \<Rightarrow> nat \<Rightarrow> crf_run \<Rightarrow> (int \<times> crf_run) option" where
  "put_terms max_count x u = do {
     (e, r) \<leftarrow> push_terms max_count x [0..<nat (cr_nbest (cu_res u))] (cu_res u);
     Some (e, u\<lparr>cu_res := r\<rparr>) }"

subsection \<open>Terms of the tagger\<close>

fun copy_terms :: "nat \<Rightarrow> (nat \<Rightarrow> nat) \<Rightarrow> nat \<Rightarrow> term_out \<Rightarrow> nat \<Rightarrow> nat list \<Rightarrow> scw_crf_out \<Rightarrow> (int \<times> scw_crf_out) option" where
  "copy_terms max_count h start b cur [] r = Some (0, r)"
| "copy_terms max_count h start b cur (j # js) r =
     (if length (cr_terms r cur) + 1 \<ge> max_count then Some (-1, r)
      else (let pos = CRF_GET_TERM_POS (to_pos b j) + start; next_pos = pos + CRF_GET_TERM_LEN (to_pos b j) in do {
        c_assert (next_pos < CRF_MAX_QUERY_LEN * 2);
        (e, r1) \<leftarrow> push_term max_count (pack_term (int (h next_pos) - int (h pos)) (int (h pos))) cur r;
        copy_terms max_count h start b cur js r1 }))"

fun copy_results :: "nat \<Rightarrow> (nat \<Rightarrow> nat) \<Rightarrow> nat \<Rightarrow> crf_out \<Rightarrow> nat list \<Rightarrow> scw_crf_out \<Rightarrow> (int \<times> scw_crf_out) option" where
  "copy_results max_count h start co [] r = Some (0, r)"
| "copy_results max_count h start co (cur # cs) r =
     (let b = co_bufs co (if int cur < co_nbest co then cur else 0) in do {
        (e, r1) \<leftarrow> copy_terms max_count h start b cur [0..<to_count b] r;
        if e < 0 then Some (-1, r1) else copy_results max_count h start co cs r1 })"

definition crf_output :: "nat \<Rightarrow> (nat \<Rightarrow> nat) \<Rightarrow> nat \<Rightarrow> crf_run \<Rightarrow> (int \<times> crf_run) option" where
  "crf_output max_count h start u = do {
     (e, r) \<leftarrow> copy_results max_count h start (cu_out u) [0..<nat (cr_nbest (cu_res u))] (cu_res u);
     Some (e, u\<lparr>cu_res := r\<rparr>) }"

text \<open>The tagger on \<open>n\<close> rows from the normalised position \<open>start\<close> on.\<close>

definition crf_rows :: "(crf_tag \<Rightarrow> nat list \<Rightarrow> int) \<Rightarrow> nat \<Rightarrow> (nat \<Rightarrow> nat) \<Rightarrow> string \<Rightarrow> nat \<Rightarrow> nat \<Rightarrow> crf_run \<Rightarrow> (int \<times> crf_run) option" where
  "crf_rows avg max_count h row n start u =
     (case tag_reset (sg_tag (cu_tag u)) of (r, t) \<Rightarrow>
        let s = (cu_tag u)\<lparr>sg_tag := t\<rparr> in
        if r < 0 then Some (-1, u\<lparr>cu_tag := s\<rparr>)
        else do {
          (r1, s1) \<leftarrow> seg_add row n s;
          if r1 < 0 then Some (-1, u\<lparr>cu_tag := s1\<rparr>)
          else do {
            (r2, s2) \<leftarrow> seg_parse s1;
            if r2 < 0 then Some (-1, u\<lparr>cu_tag := s2\<rparr>)
            else do {
              (r3, s3, o1) \<leftarrow> seg_output avg s2 (cu_out u);
              let u1 = u\<lparr>cu_tag := s3, cu_out := o1\<rparr> in
              if r3 < 0 then Some (-1, u1) else crf_output max_count h start u1 } } })"

subsection \<open>A run\<close>

definition is_low :: "char \<Rightarrow> bool" where "is_low c \<longleftrightarrow> IN_RANGE (of_char c) 0x61 0x7a"
definition is_dig :: "char \<Rightarrow> bool" where "is_dig c \<longleftrightarrow> IN_RANGE (of_char c) 0x30 0x39"

text \<open>
  The digits at the beginning of \<open>k\<close> rows of letters and digits; \<open>Some None\<close> when another
  character is met (the jump to \<open>DOWN\<close>).
\<close>

fun lead_scan :: "nat \<Rightarrow> string \<Rightarrow> bool \<Rightarrow> nat \<Rightarrow> nat option option" where
  "lead_scan 0 s first off = Some (Some off)"
| "lead_scan (Suc k) [] first off = None"
| "lead_scan (Suc k) (c # cs) first off =
     (if c = CHR 0x00 then lead_scan k cs first off
      else if is_low c then lead_scan (Suc k) cs False off
      else if is_dig c then lead_scan (Suc k) cs first (if first then off + 1 else off)
      else Some None)"

text \<open>Where the digits at the end of \<open>k\<close> rows of one byte begin.\<close>

fun tail_scan :: "string \<Rightarrow> nat \<Rightarrow> nat \<Rightarrow> nat \<Rightarrow> nat" where
  "tail_scan row 0 n tail = tail"
| "tail_scan row (Suc k) n tail = (if is_dig (row ! (2 * k)) then tail_scan row k (n - 1) (n - 1) else tail)"

text \<open>A run of letters and digits without the digits around it: not cut when it is short.\<close>

definition keep_whole :: "string \<Rightarrow> nat \<Rightarrow> (nat \<Rightarrow> nat) \<Rightarrow> nat \<Rightarrow> nat \<Rightarrow> bool" where
  "keep_whole inbuf in_len h now tail \<longleftrightarrow> tail - now \<le> 5 \<or>
     tail - now < 20 \<and> (1 \<le> h now \<and> cbyte inbuf (h now - 1) = 32 \<or> h tail < in_len \<and> cbyte inbuf (h tail) = 32)"

definition crf_seg_word :: "(crf_tag \<Rightarrow> nat list \<Rightarrow> int) \<Rightarrow> nat \<Rightarrow> string \<Rightarrow> nat \<Rightarrow> string \<Rightarrow> nat \<Rightarrow> (nat \<Rightarrow> nat) \<Rightarrow> nat \<Rightarrow>
    crf_run \<Rightarrow> (int \<times> crf_run) option" where
  "crf_seg_word avg max_count inbuf in_len row row_len h str_len u =
     (if row_len < 1 \<or> max_count < 1 then Some (-1, u)
      else do {
        scan \<leftarrow> lead_scan row_len row True 0;
        case scan of
          None \<Rightarrow> do {
            (e, u1) \<leftarrow> crf_rows avg max_count h row row_len 0 u;
            Some (if e < 0 then -1 else 0, u1) }
        | Some off \<Rightarrow> do {
            let lead = (off \<ge> 2 \<or> off = str_len);
            (e, u1) \<leftarrow> (if lead then put_terms max_count (pack_term (int (h off) - int (h 0)) (int (h 0))) u else Some (0, u));
            if e < 0 then Some (-1, u1)
            else if off = str_len then Some (0, u1)
            else do {
              let now = (if lead then off else 0);
              let tail = tail_scan row row_len str_len str_len;
              (e1, u2) \<leftarrow> (if keep_whole inbuf in_len h now tail
                 then put_terms max_count (pack_term (int (h tail) - int (h now)) (int (h now))) u1
                 else crf_rows avg max_count h (drop (2 * now) row) (row_len - now - (str_len - tail)) now u1);
              if e1 < 0 then Some (-1, u2)
              else if tail \<noteq> str_len
              then put_terms max_count (pack_term (int (h str_len) - int (h tail)) (int (h tail))) u2
              else Some (0, u2) } } })"

subsection \<open>The scan of the text\<close>

definition l_low_map :: "nat \<Rightarrow> nat" where
  "l_low_map b = (if 65 \<le> b \<and> b \<le> 90 then b + 32 else b)"

definition IS_ALPHA_CH :: "nat \<Rightarrow> bool" where
  "IS_ALPHA_CH b \<longleftrightarrow> 0x61 \<le> b \<and> b \<le> 0x7a \<or> 0x41 \<le> b \<and> b \<le> 0x5a"

definition IS_ALPHA_1234 :: "nat \<Rightarrow> bool" where
  "IS_ALPHA_1234 b \<longleftrightarrow> 0x30 \<le> b \<and> b \<le> 0x39"

record scw_scan =
  sn_m :: nat
  sn_row :: string
  sn_len :: nat
  sn_h :: "nat \<Rightarrow> nat"
  sn_str :: nat
  sn_man :: nat
  sn_run :: crf_run

text \<open>The arguments of the function that no step changes; the reader of characters is the last one.\<close>

record scan_env =
  ev_avg :: "crf_tag \<Rightarrow> nat list \<Rightarrow> int"
  ev_pir :: scw_inner
  ev_buf :: string
  ev_len :: nat
  ev_next :: "string \<Rightarrow> nat \<Rightarrow> int"

definition scan_seg :: "scan_env \<Rightarrow> scw_scan \<Rightarrow> (int \<times> scw_scan) option" where
  "scan_seg v c = do {
     (e, u) \<leftarrow> crf_seg_word (ev_avg v) (m_maxterm (ev_pir v)) (ev_buf v) (ev_len v) (sn_row c) (sn_len c) (sn_h c) (sn_str c) (sn_run c);
     Some (if e < 0 then -1 else 0, c\<lparr>sn_row := [], sn_len := 0, sn_str := 0, sn_run := u\<rparr>) }"

text \<open>A character that joins the run, and one of \<open>w\<close> bytes that is a term.\<close>

definition scan_add :: "string \<Rightarrow> nat \<Rightarrow> scw_scan \<Rightarrow> (int \<times> scw_scan) option" where
  "scan_add r w c = do {
     c_assert (length (sn_row c) + length r < CRF_MAX_QUERY_LEN * 2 \<and> sn_str c + length r < CRF_MAX_QUERY_LEN * 2);
     Some (0, c\<lparr>sn_row := sn_row c @ r @ [CHR 0x00], sn_len := sn_len c + 1,
       sn_h := (sn_h c)(sn_str c := sn_m c, sn_str c + length r := sn_m c + w),
       sn_str := sn_str c + length r, sn_m := sn_m c + w\<rparr>) }"

definition scan_term :: "scan_env \<Rightarrow> nat \<Rightarrow> scw_scan \<Rightarrow> (int \<times> scw_scan) option" where
  "scan_term v w c = do {
     (e, c1) \<leftarrow> (if sn_len c \<noteq> 0 then scan_seg v c else Some (0, c));
     if e < 0 then Some (-1, c1)
     else do {
       (e1, u) \<leftarrow> put_terms (m_maxterm (ev_pir v)) (pack_term (int w) (int (sn_m c1))) (sn_run c1);
       Some (e1, c1\<lparr>sn_run := u, sn_m := sn_m c1 + w\<rparr>) } }"

definition scan_char :: "scan_env \<Rightarrow> scw_scan \<Rightarrow> (int \<times> scw_scan) option" where
  "scan_char v c = (let s = ev_buf v; m = sn_m c; n = ev_next v s m; bytes = (\<lambda>k. map (\<lambda>i. char_of (cbyte s (m + i))) [0..<k]) in
     if n = 1 \<or> n = -1 \<or> n = 0 then
       (if IS_ALPHA_1234 (cbyte s m) \<or> IS_ALPHA_CH (cbyte s m) then scan_add [char_of (l_low_map (cbyte s m))] 1 c
        else scan_term v 1 c)
     else if n = 2 then
       (if IS_GB_1234 s m \<or> IS_GB_ABCD s m then scan_add [char_of (l_low_map (cbyte s (m + 1) - 0x80))] 2 c
        else if IN_RANGE (cbyte s m) 0xa1 0xa3 then scan_term v 2 c
        else scan_add (bytes 2) 2 c)
     else if n = 4 then scan_add (bytes 4) 4 c
     else Some (0, c))"

definition scan_step :: "scan_env \<Rightarrow> scw_scan \<Rightarrow> (int \<times> scw_scan) option" where
  "scan_step v c = do {
     (e, c1) \<leftarrow> (if sn_str c + 4 \<ge> CRF_MAX_WORD_LEN then scan_seg v c else Some (0, c));
     let p = ev_pir v; x = m_mandictword_prop p (sn_man c1) in
     if e < 0 then Some (-1, c1)
     else if sn_man c1 < m_mandictword_cnt p \<and> CRF_GET_TERM_POS x = sn_m c1 then do {
       (e1, c2) \<leftarrow> scan_term v (CRF_GET_TERM_LEN x) c1;
       Some (e1, c2\<lparr>sn_man := sn_man c2 + 1\<rparr>) }
     else scan_char v c1 }"

text \<open>The loop; a character of another length than 1, 2 and 4 would keep it where it is.\<close>

partial_function (option) scan_loop :: "scan_env \<Rightarrow> scw_scan \<Rightarrow> (int \<times> crf_run) option" where
  "scan_loop v c =
     (if sn_m c < ev_len v
      then Option.bind (scan_step v c) (\<lambda>x. if fst x < 0 then Some (-1, sn_run (snd x)) else scan_loop v (snd x))
      else if sn_len c \<noteq> 0 then Option.bind (scan_seg v c) (\<lambda>x. Some (fst x, sn_run (snd x)))
      else Some (0, sn_run c))"

definition crf_segment_words_processed :: "(crf_tag \<Rightarrow> nat list \<Rightarrow> int) \<Rightarrow> (string \<Rightarrow> nat \<Rightarrow> int) \<Rightarrow> scw_inner \<Rightarrow> string \<Rightarrow> int \<Rightarrow>
    int \<Rightarrow> int \<Rightarrow> crf_run \<Rightarrow> (int \<times> crf_run) option" where
  "crf_segment_words_processed avg next p inbuf inlen nbest vlevel u =
     (if inlen < 0 \<or> nbest < 0 \<or> nbest > 10 \<or> vlevel < 0 \<or> vlevel > 2 then Some (-1, u)
      else (let s = cu_tag u;
          u1 = u\<lparr>cu_tag := s\<lparr>sg_tag := set_vlevel (nat vlevel) (set_nbest (nat nbest) (sg_tag s))\<rparr>,
            cu_res := (cu_res u)\<lparr>cr_nbest := nbest, cr_terms := (\<lambda>i. if i < nat nbest then [] else cr_terms (cu_res u) i)\<rparr>\<rparr>
        in scan_loop \<lparr>ev_avg = avg, ev_pir = p, ev_buf = inbuf, ev_len = nat inlen, ev_next = next\<rparr>
          \<lparr>sn_m = 0, sn_row = [], sn_len = 0, sn_h = (\<lambda>_. 0), sn_str = 0, sn_man = 0, sn_run = u1\<rparr>))"

subsection \<open>Terms that tile a text\<close>

fun tiled :: "nat \<Rightarrow> nat list \<Rightarrow> nat \<Rightarrow> bool" where
  "tiled a [] b \<longleftrightarrow> a = b"
| "tiled a (x # xs) b \<longleftrightarrow> CRF_GET_TERM_POS x = a \<and> 0 < CRF_GET_TERM_LEN x \<and> CRF_GET_TERM_LEN x < 256 \<and>
     tiled (a + CRF_GET_TERM_LEN x) xs b"

lemma tiled_snoc: "tiled a (xs @ [x]) b \<longleftrightarrow> (\<exists>c. tiled a xs c \<and> CRF_GET_TERM_POS x = c \<and> 0 < CRF_GET_TERM_LEN x \<and>
    CRF_GET_TERM_LEN x < 256 \<and> c + CRF_GET_TERM_LEN x = b)"
  by (induction xs arbitrary: a) auto

lemma tiled_length: "tiled a xs b \<Longrightarrow> a + length xs \<le> b"
  by (induction xs arbitrary: a) fastforce+

lemma tiled_tiles: "tiled a xs (length s) \<Longrightarrow> tiles s a xs"
proof (induction xs arbitrary: a)
  case (Cons x xs)
  then show ?case using tiled_length [of "a + CRF_GET_TERM_LEN x" xs "length s"] by simp
qed simp

lemma pack_term_fields:
  assumes "len < 256" "pos < 16777216"
  shows "CRF_GET_TERM_LEN (pack_term (int len) (int pos)) = len" "CRF_GET_TERM_POS (pack_term (int len) (int pos)) = pos"
proof -
  have k: "(16777215 :: nat) = mask 24" by (simp add: mask_eq_exp_minus_1)
  have m: "pos AND 16777215 = pos"
    unfolding k take_bit_eq_mask [symmetric] using assms(2) by (simp add: take_bit_nat_eq_self)
  have i: "push_bit 24 (int len) OR int pos = int (push_bit 24 len OR pos)" by (simp add: of_nat_or_eq push_bit_of_nat)
  have "push_bit 24 (int len) OR int pos < 2 ^ 32"
    by (rule OR_upper) (use assms in \<open>simp_all add: push_bit_eq_mult\<close>)
  then have "pack_term (int len) (int pos) = push_bit 24 len OR (pos AND 16777215)"
    unfolding pack_term_def u32_def i m by simp
  then show "CRF_GET_TERM_LEN (pack_term (int len) (int pos)) = len" "CRF_GET_TERM_POS (pack_term (int len) (int pos)) = pos"
    using term_pos_word(1) [of len pos] term_pos_word(2) [OF assms(2), of len] by simp_all
qed

subsection \<open>The state between two terms\<close>

text \<open>
  A tagger that can label any run: the class names exist, there is room for 100 words of 4 bytes,
  and the weights never overflow. Only what no query changes matters.
\<close>

definition tagger_ok :: "int \<Rightarrow> crf_tag \<Rightarrow> bool" where
  "tagger_ok B t \<longleftrightarrow> tg_ready t \<and> tg_nbest t = 1 \<and> 0 < tg_ysize t \<and> 100 \<le> tg_max_words t \<and> 5 \<le> tg_max_len t \<and>
     (\<exists>m. tg_model t = Some m \<and> tg_ysize t \<le> length (cm_ynames m)) \<and>
     (\<forall>t' rows. same_setup t t' \<longrightarrow> rows \<noteq> [] \<longrightarrow> length rows < 100 \<longrightarrow>
       (\<exists>t2. build_features (loaded (snd (tag_reset t')) rows) = Some (0, t2) \<and> weights_ok B t2))"

lemma tagger_ok_same: "tagger_ok B t \<Longrightarrow> same_setup t t' \<Longrightarrow> tagger_ok B t'"
  using same_setup_trans [of t t'] unfolding tagger_ok_def by (auto simp: same_setup_def)

text \<open>The terms so far tile the first \<open>a\<close> bytes of the text.\<close>

definition run_at :: "int \<Rightarrow> nat \<Rightarrow> nat \<Rightarrow> crf_run \<Rightarrow> bool" where
  "run_at B mx a u \<longleftrightarrow> tagger_ok B (sg_tag (cu_tag u)) \<and> 100 \<le> to_size (co_bufs (cu_out u) 0) \<and>
     cr_nbest (cu_res u) = 1 \<and> mx \<le> cr_size (cu_res u) + 1 \<and> tiled 0 (cr_terms (cu_res u) 0) a"

text \<open>A part of the program gets to \<open>b\<close>, or gives up because the terms of a text of \<open>n\<close> bytes may be too many.\<close>

definition reaches :: "int \<Rightarrow> nat \<Rightarrow> nat \<Rightarrow> nat \<Rightarrow> (int \<times> crf_run) option \<Rightarrow> bool" where
  "reaches B mx n b r \<longleftrightarrow> (\<exists>e u. r = Some (e, u) \<and> (e = 0 \<and> run_at B mx b u \<or> e < 0 \<and> mx \<le> n))"

lemma reachesI [intro]: "r = Some (0, u) \<Longrightarrow> run_at B mx b u \<Longrightarrow> reaches B mx n b r"
  by (simp add: reaches_def)

lemma reaches_Some [simp]: "reaches B mx n b (Some (0, u)) \<longleftrightarrow> run_at B mx b u"
  by (simp add: reaches_def)

lemma reaches_fail: "e < 0 \<Longrightarrow> mx \<le> n \<Longrightarrow> reaches B mx n b (Some (e, u))"
  by (simp add: reaches_def)

lemma reaches_bind:
  assumes "reaches B mx n b r" "\<And>u. run_at B mx b u \<Longrightarrow> reaches B mx n c (f u)"
  shows "reaches B mx n c (do { (e, u) \<leftarrow> r; if e < 0 then Some (-1, u) else f u })"
  using assms by (auto simp: reaches_def)

lemma reaches_code: "reaches B mx n b r \<Longrightarrow> reaches B mx n b (do { (e, u) \<leftarrow> r; Some (if e < 0 then -1 else 0, u) })"
  by (auto simp: reaches_def)

text \<open>Adding one term.\<close>

lemma push_term_ok:
  assumes u: "run_at B mx a u" and b: "a < b" "b \<le> n" "b - a < 256" "n < 16777216"
  shows "reaches B mx n b (do { (e, r) \<leftarrow> push_term mx (pack_term (int b - int a) (int a)) 0 (cu_res u); Some (e, u\<lparr>cu_res := r\<rparr>) })"
proof (cases "length (cr_terms (cu_res u) 0) + 1 \<ge> mx")
  case True
  have "length (cr_terms (cu_res u) 0) \<le> a" using u tiled_length by (fastforce simp: run_at_def)
  then have "mx \<le> n" using True b by simp
  then show ?thesis using True by (simp add: push_term_def reaches_def)
next
  case False
  have p: "pack_term (int b - int a) (int a) = pack_term (int (b - a)) (int a)" using b by (simp add: of_nat_diff)
  have "tiled 0 (cr_terms (cu_res u) 0 @ [pack_term (int b - int a) (int a)]) b"
    using u b pack_term_fields [of "b - a" a] unfolding tiled_snoc p by (auto simp: run_at_def)
  then show ?thesis using u False by (simp add: push_term_def c_assert_def run_at_def)
qed

lemma put_terms_ok:
  assumes "run_at B mx a u" "a < b" "b \<le> n" "b - a < 256" "n < 16777216"
  shows "reaches B mx n b (put_terms mx (pack_term (int b - int a) (int a)) u)"
proof -
  have n1: "cr_nbest (cu_res u) = 1" using assms(1) by (simp add: run_at_def)
  have "put_terms mx x u = do { (e, u1) \<leftarrow> do { (e, r) \<leftarrow> push_term mx x 0 (cu_res u); Some (e, u\<lparr>cu_res := r\<rparr>) };
      if e < 0 then Some (-1, u1) else Some (0, u1) }" for x
    by (cases "push_term mx x 0 (cu_res u)") (auto simp: put_terms_def n1 split: prod.splits)
  then show ?thesis using reaches_bind [OF push_term_ok [OF assms], where f = "\<lambda>u. Some (0, u)"] by simp
qed

subsection \<open>The terms of the tagger tile the run\<close>

text \<open>Every term the rows make begins and ends between two rows.\<close>

lemma cut_terms_groups:
  "j \<le> length (fst (cut_terms zs)) \<Longrightarrow> \<exists>k \<le> length zs. concat (take j (fst (cut_terms zs))) = concat (map fst (take k zs))"
proof (induction zs arbitrary: j rule: rev_induct)
  case (snoc z zs)
  obtain D a where D: "cut_terms zs = (D, a)" by fastforce
  have tx: "concat D @ a = concat (map fst zs)" using cut_terms_text [of zs] D by simp
  have old: "\<exists>k \<le> length (zs @ [z]). concat (take j D) = concat (map fst (take k (zs @ [z])))" if l: "j \<le> length D" for j
  proof -
    obtain k where "k \<le> length zs" "concat (take j D) = concat (map fst (take k zs))" using snoc.IH [of j] l D by auto
    then show ?thesis by (intro exI [of _ k]) simp
  qed
  show ?case
  proof (cases "snd z \<and> j = length D + 1")
    case True
    then show ?thesis using tx D
      by (intro exI [of _ "length (zs @ [z])"]) (cases z, simp add: cut_step_def)
  next
    case False
    then have "j \<le> length D" "take j (fst (cut_terms (zs @ [z]))) = take j D"
      using snoc.prems D by (cases z; auto simp: cut_step_def split: if_splits)+
    then show ?thesis using old by simp
  qed
qed (simp add: cut_terms_def)

lemma cut_terms_nonempty:
  assumes "\<forall>z \<in> set zs. fst z \<noteq> []"
  shows "\<forall>x \<in> set (fst (cut_terms zs)). x \<noteq> []"
  using assms
proof (induction zs rule: rev_induct)
  case (snoc z zs)
  then show ?case by (cases "cut_terms zs"; cases z) (auto simp: cut_step_def)
qed (simp add: cut_terms_def)

text \<open>
  Copying the terms \<open>D\<close> of the tagger from the \<open>i\<close>-th on; \<open>hp j\<close> is the place in the text where
  the \<open>j\<close>-th begins.
\<close>

lemma copy_terms_ok:
  fixes D :: "string list" and h :: "nat \<Rightarrow> nat" and start :: nat
  defines "hp \<equiv> \<lambda>j. h (start + length (concat (take j D)))"
  assumes D: "holds_terms D b" "start + length (concat D) < 512"
    and hp: "\<And>j. j < length D \<Longrightarrow> hp j < hp (Suc j) \<and> hp (Suc j) \<le> n \<and> hp (Suc j) - hp j < 256" and n: "n < 16777216"
  shows "i \<le> length D \<Longrightarrow> run_at B mx (hp i) u \<Longrightarrow>
    reaches B mx n (hp (length D)) (do { (e, r) \<leftarrow> copy_terms mx h start b 0 [i..<length D] (cu_res u); Some (e, u\<lparr>cu_res := r\<rparr>) })"
proof (induction "length D - i" arbitrary: i u)
  case (Suc k)
  then have i: "i < length D" and up: "[i..<length D] = i # [Suc i..<length D]" by (auto simp: upt_conv_Cons)
  let ?l = "length (concat (take i D))"
  have cc: "concat D = concat (take i D) @ D ! i @ concat (drop (Suc i) D)" by (rule concat_split_at [OF i])
  have sum: "length (concat (take (Suc i) D)) = ?l + length (D ! i)" using i by (simp add: take_Suc_conv_app_nth)
  have le: "?l + length (D ! i) \<le> length (concat D)" by (subst cc) simp
  then have "?l < 16777216" using D(2) by simp
  then have f: "CRF_GET_TERM_POS (to_pos b i) = ?l" "CRF_GET_TERM_LEN (to_pos b i) = length (D ! i)"
    using D(1) i term_pos_word by (simp_all add: holds_terms_def)
  have x: "?l + start = start + ?l" "?l + start + length (D ! i) = start + length (concat (take (Suc i) D))" "?l + start + length (D ! i) < 512"
    using sum le D(2) by simp_all
  have st: "copy_terms mx h start b 0 [i..<length D] r = (if length (cr_terms r 0) + 1 \<ge> mx then Some (-1, r) else do {
      (e, r1) \<leftarrow> push_term mx (pack_term (int (hp (Suc i)) - int (hp i)) (int (hp i))) 0 r;
      copy_terms mx h start b 0 [Suc i..<length D] r1 })" for r
    using x(3) unfolding up copy_terms.simps f Let_def x(2) unfolding x(1)
    by (simp add: c_assert_def CRF_MAX_QUERY_LEN_def hp_def)
  have one: "reaches B mx n (hp (Suc i)) (do { (e, r) \<leftarrow> push_term mx (pack_term (int (hp (Suc i)) - int (hp i)) (int (hp i))) 0 (cu_res u);
      Some (e, u\<lparr>cu_res := r\<rparr>) })"
    using push_term_ok [OF Suc.prems(2) _ _ _ n] hp [OF i] by blast
  show ?case
  proof (cases "length (cr_terms (cu_res u) 0) + 1 \<ge> mx")
    case True
    then show ?thesis using one unfolding st by (simp add: push_term_def reaches_def)
  next
    case False
    then obtain r1 where r1: "push_term mx (pack_term (int (hp (Suc i)) - int (hp i)) (int (hp i))) 0 (cu_res u) = Some (0, r1)"
      "run_at B mx (hp (Suc i)) (u\<lparr>cu_res := r1\<rparr>)"
      using one by (auto simp: push_term_def c_assert_def reaches_def split: if_splits)
    then show ?thesis using False Suc.hyps(1) [of "Suc i" "u\<lparr>cu_res := r1\<rparr>"] Suc.hyps(2) i unfolding st by simp
  qed
qed simp

lemma crf_output_ok:
  fixes D :: "string list"
  assumes "holds_terms D (co_bufs (cu_out u) 0)" "start + length (concat D) < 512"
    and "\<And>j. j < length D \<Longrightarrow> h (start + length (concat (take j D))) < h (start + length (concat (take (Suc j) D))) \<and>
      h (start + length (concat (take (Suc j) D))) \<le> n \<and>
      h (start + length (concat (take (Suc j) D))) - h (start + length (concat (take j D))) < 256"
    and "n < 16777216" "run_at B mx (h start) u"
  shows "reaches B mx n (h (start + length (concat D))) (crf_output mx h start u)"
proof -
  have n1: "cr_nbest (cu_res u) = 1" using assms(5) by (simp add: run_at_def)
  have c: "to_count (co_bufs (cu_out u) 0) = length D" using assms(1) by (simp add: holds_terms_def)
  have "reaches B mx n (h (start + length (concat D)))
      (do { (e, r) \<leftarrow> copy_terms mx h start (co_bufs (cu_out u) 0) 0 [0..<length D] (cu_res u); Some (e, u\<lparr>cu_res := r\<rparr>) })"
    using copy_terms_ok [OF assms(1-4), of 0 B mx u] assms(5) by simp
  then show ?thesis
    by (cases "copy_terms mx h start (co_bufs (cu_out u) 0) 0 [0..<length D] (cu_res u)")
      (auto simp: crf_output_def n1 c reaches_def split: prod.splits if_splits)
qed

lemma length_rows: "(\<And>r. r \<in> set rows \<Longrightarrow> r \<noteq> []) \<Longrightarrow> length rows \<le> length (concat rows)"
proof (induction rows)
  case (Cons r rows)
  then have "0 < length r" "length rows \<le> length (concat rows)" by simp_all
  then show ?case by (simp del: length_concat length_0_conv length_greater_0_conv)
qed simp

text \<open>The places where the terms begin, seen through a map \<open>h\<close> that is known at the rows.\<close>

lemma term_steps:
  fixes h g :: "nat \<Rightarrow> nat"
  assumes es: "length es = length rows" and rows: "\<And>r. r \<in> set rows \<Longrightarrow> r \<noteq> [] \<and> CHR 0x00 \<notin> set r \<and> length r \<le> 4"
    and h: "\<And>k. k \<le> length rows \<Longrightarrow> h (start + length (concat (take k rows))) = g k"
    and g: "\<And>k k'. k < k' \<Longrightarrow> k' \<le> length rows \<Longrightarrow> g k < g k' \<and> g k' \<le> n \<and> g k' - g k < 256"
    and j: "j < length (fst (cut_terms (zip rows es)))"
  shows "h (start + length (concat (take j (fst (cut_terms (zip rows es)))))) < h (start + length (concat (take (Suc j) (fst (cut_terms (zip rows es)))))) \<and>
    h (start + length (concat (take (Suc j) (fst (cut_terms (zip rows es)))))) \<le> n \<and>
    h (start + length (concat (take (Suc j) (fst (cut_terms (zip rows es)))))) - h (start + length (concat (take j (fst (cut_terms (zip rows es)))))) < 256"
proof -
  let ?D = "fst (cut_terms (zip rows es))"
  have cut: "\<exists>k \<le> length rows. concat (take j ?D) = concat (take k rows)" if "j \<le> length ?D" for j
    using cut_terms_groups [OF that] es by (simp add: take_map [symmetric])
  obtain k k' where k: "k \<le> length rows" "concat (take j ?D) = concat (take k rows)"
    "k' \<le> length rows" "concat (take (Suc j) ?D) = concat (take k' rows)" using cut [of j] cut [of "Suc j"] j by auto
  have "\<forall>z \<in> set (zip rows es). fst z \<noteq> []" using rows by (fastforce dest: set_zip_leftD)
  then have "?D ! j \<noteq> []" using cut_terms_nonempty j nth_mem by fastforce
  then have "length (concat (take k rows)) < length (concat (take k' rows))"
    using j unfolding k(2,4) [symmetric] by (simp add: take_Suc_conv_app_nth del: length_concat)
  then have "k < k'" by (metis not_less le_Suc_ex take_add concat_append length_append le_add1)
  then show ?thesis using g [of k k'] h k by (simp del: length_concat)
qed

lemma crf_rows_ok:
  fixes h g :: "nat \<Rightarrow> nat"
  assumes rows: "rows \<noteq> []" "\<And>r. r \<in> set rows \<Longrightarrow> r \<noteq> [] \<and> CHR 0x00 \<notin> set r \<and> length r \<le> 4" "length (concat rows) < 100"
      "start + length (concat rows) < 512" "row = concat (map (\<lambda>r. r @ [CHR 0x00]) rows) @ pad"
    and h: "\<And>k. k \<le> length rows \<Longrightarrow> h (start + length (concat (take k rows))) = g k"
    and g: "\<And>k k'. k < k' \<Longrightarrow> k' \<le> length rows \<Longrightarrow> g k < g k' \<and> g k' \<le> n \<and> g k' - g k < 256"
    and n: "n < 16777216" and u: "run_at B mx (g 0) u"
  shows "reaches B mx n (g (length rows)) (crf_rows avg mx h row (length rows) start u)"
proof -
  let ?t = "sg_tag (cu_tag u)"
  have T: "tagger_ok B ?t" and size: "100 \<le> to_size (co_bufs (cu_out u) 0)" using u by (simp_all add: run_at_def)
  then obtain m where m: "tg_model ?t = Some m" "tg_ysize ?t \<le> length (cm_ynames m)" "tg_ready ?t" "tg_nbest ?t = 1" "0 < tg_ysize ?t"
    "100 \<le> tg_max_words ?t" "5 \<le> tg_max_len ?t" by (auto simp: tagger_ok_def)
  have rl: "length rows < 100" using length_rows [of rows] rows(2,3) by fastforce
  let ?q = "loaded (snd (tag_reset ?t)) rows"
  obtain t2 where t2: "build_features ?q = Some (0, t2)" "weights_ok B t2"
    using T rows(1) rl by (auto simp: tagger_ok_def same_setup_def)
  have sq: "same_setup ?t ?q" by (rule loaded_setup)
  then have q: "tg_ready ?q" "tg_model ?q = Some m" "tg_ysize ?q \<le> length (cm_ynames m)" "0 < tg_ysize ?q" "tg_nbest ?q = 1"
    using m by (simp_all add: same_setup_def)
  have qr: "tg_words ?q = length rows" "\<And>i. i < length rows \<Longrightarrow> tg_row ?q i = length (rows ! i)"
    by (simp_all add: loaded_def clear_costs_def)
  obtain t3 b where t3: "tag_parse ?q = Some (0, t3)" "same_setup ?q t3" "to_size b = to_size (co_bufs (cu_out u) 0)"
    and out: "seg_output avg ((cu_tag u)\<lparr>sg_tag := t3\<rparr>) (cu_out u) =
      Some (0, (cu_tag u)\<lparr>sg_tag := t3\<rparr>, (cu_out u)\<lparr>co_nbest := 1, co_bufs := (co_bufs (cu_out u))(0 := b)\<rparr>)"
    and b: "holds_terms (fst (cut_terms (zip rows (word_ends t3)))) b" "length (word_ends t3) = length rows"
      "concat (fst (cut_terms (zip rows (word_ends t3)))) = concat rows"
    using rows_output [OF q qr rows(1,3) _ t2, of "cu_out u" avg "cu_tag u"] size rl by auto
  let ?D = "fst (cut_terms (zip rows (word_ends t3)))"
  let ?u = "u\<lparr>cu_tag := (cu_tag u)\<lparr>sg_tag := t3\<rparr>, cu_out := (cu_out u)\<lparr>co_nbest := 1, co_bufs := (co_bufs (cu_out u))(0 := b)\<rparr>\<rparr>"
  note step = term_steps [where h = h and g = g and start = start and n = n, OF b(2) rows(2) h g]
  have "run_at B mx (h (start + length (concat (take 0 ?D)))) ?u"
    using u t3(3) h [of 0] tagger_ok_same [OF T same_setup_trans [OF sq t3(2)]] by (simp add: run_at_def)
  then have "reaches B mx n (h (start + length (concat ?D))) (crf_output mx h start ?u)"
    using crf_output_ok [of ?D ?u start h n B mx] b(1,3) rows(4) step n by simp
  then have R: "reaches B mx n (g (length rows)) (crf_output mx h start ?u)" using h [of "length rows"] b(3) by simp
  have add: "tag_add row (length rows) (snd (tag_reset ?t)) = Some (0, ?q)"
    unfolding rows(5) by (rule tag_add_ok) (use m rl rows(2) in \<open>fastforce simp: tag_reset_def\<close>)+
  have "crf_rows avg mx h row (length rows) start u = crf_output mx h start ?u"
    using m add t3(1) out by (simp add: crf_rows_def seg_add_def seg_parse_def tag_reset_def)
  then show ?thesis using R by simp
qed

subsection \<open>The pieces of a run\<close>

text \<open>
  The characters of a run: the normalised bytes and the number of bytes in the text. A character
  is one letter or digit, or it begins with a byte above 127.
\<close>

definition piece_ok :: "string \<times> nat \<Rightarrow> bool" where
  "piece_ok z \<longleftrightarrow> fst z \<noteq> [] \<and> CHR 0x00 \<notin> set (fst z) \<and> length (fst z) \<le> 4 \<and> 0 < snd z \<and> snd z \<le> 2 * length (fst z) \<and>
     ((\<exists>c. fst z = [c] \<and> (is_low c \<or> is_dig c)) \<or> 128 \<le> (of_char (hd (fst z)) :: nat))"

definition single :: "string \<times> nat \<Rightarrow> bool" where
  "single z \<longleftrightarrow> (\<exists>c. fst z = [c] \<and> (is_low c \<or> is_dig c))"

definition prow :: "(string \<times> nat) list \<Rightarrow> string" where
  "prow ps = concat (map (\<lambda>r. r @ [CHR 0x00]) (map fst ps))"

definition nlen :: "(string \<times> nat) list \<Rightarrow> nat" where "nlen ps = length (concat (map fst ps))"
definition slen :: "(string \<times> nat) list \<Rightarrow> nat" where "slen ps = sum_list (map snd ps)"

lemma run_simps [simp]: "prow [] = []" "nlen [] = 0" "slen [] = 0" "nlen (z # ps) = length (fst z) + nlen ps" "slen (z # ps) = snd z + slen ps"
  "prow (z # ps) = fst z @ CHR 0x00 # prow ps" "prow (ps @ qs) = prow ps @ prow qs" "nlen (ps @ qs) = nlen ps + nlen qs"
  "slen (ps @ qs) = slen ps + slen qs"
  by (simp_all add: prow_def nlen_def slen_def)

text \<open>The map from normalised positions to the text, which is known between the characters.\<close>

definition hashed :: "(nat \<Rightarrow> nat) \<Rightarrow> nat \<Rightarrow> (string \<times> nat) list \<Rightarrow> bool" where
  "hashed h a ps \<longleftrightarrow> (\<forall>k \<le> length ps. h (nlen (take k ps)) = a + slen (take k ps))"

lemma slen_nlen: "\<forall>z \<in> set ps. piece_ok z \<Longrightarrow> slen ps \<le> 2 * nlen ps"
  by (induction ps) (auto simp: piece_ok_def)

lemma slen_pos: "\<forall>z \<in> set ps. piece_ok z \<Longrightarrow> ps \<noteq> [] \<Longrightarrow> 0 < slen ps"
  by (cases ps) (auto simp: piece_ok_def)

lemma slen_take: "k \<le> k' \<Longrightarrow> slen (take k' ps) = slen (take k ps) + slen (take (k' - k) (drop k ps))"
  using run_simps(9) [of "take k ps" "take (k' - k) (drop k ps)"] by (simp add: take_add [symmetric])

lemma piece_steps:
  assumes ps: "\<forall>z \<in> set ps. piece_ok z" "nlen ps < 100" and k: "k < k'" "k' \<le> length ps"
  shows "slen (take k ps) < slen (take k' ps)" "slen (take k' ps) - slen (take k ps) < 256" "slen (take k' ps) \<le> slen ps"
proof -
  have mid: "\<forall>z \<in> set (take (k' - k) (drop k ps)). piece_ok z" "take (k' - k) (drop k ps) \<noteq> []"
    using ps(1) k by (auto dest: in_set_takeD in_set_dropD)
  have s: "slen (take k' ps) = slen (take k ps) + slen (take (k' - k) (drop k ps))" using slen_take k by simp
  then show "slen (take k ps) < slen (take k' ps)" using slen_pos [OF mid] by simp
  have e: "slen ps = slen (take k' ps) + slen (drop k' ps)" by (metis append_take_drop_id run_simps(9))
  then show "slen (take k' ps) \<le> slen ps" by simp
  then show "slen (take k' ps) - slen (take k ps) < 256" using s slen_nlen [OF ps(1)] ps(2) by simp
qed

text \<open>What the two scans of a run find.\<close>

lemma low_dig: "\<not> (is_low c \<and> is_dig c)" "is_low c \<or> is_dig c \<Longrightarrow> c \<noteq> CHR 0x00"
  "128 \<le> (of_char c :: nat) \<Longrightarrow> \<not> is_low c \<and> \<not> is_dig c"
  by (auto simp: is_low_def is_dig_def IN_RANGE_def)

lemma lead_scan_pieces:
  assumes "\<forall>z \<in> set ps. piece_ok z"
  shows "lead_scan (length ps) (prow ps @ rest) first off =
    (if \<forall>z \<in> set ps. single z then Some (Some (off + (if first then length (takeWhile (\<lambda>z. is_dig (hd (fst z))) ps) else 0))) else Some None)"
  using assms
proof (induction ps arbitrary: first off)
  case (Cons z ps)
  show ?case
  proof (cases "single z")
    case True
    then obtain c where c: "fst z = [c]" "is_low c \<or> is_dig c" by (auto simp: single_def)
    then show ?thesis using Cons True low_dig [of c] by auto
  next
    case False
    then obtain c r where "fst z = c # r" "128 \<le> (of_char c :: nat)" using Cons.prems by (cases "fst z") (auto simp: piece_ok_def single_def)
    then show ?thesis using False low_dig(3) [of c] by auto
  qed
qed simp

lemma prow_single:
  assumes "\<forall>z \<in> set ps. single z"
  shows "nlen ps = length ps" "i < length ps \<Longrightarrow> prow ps ! (2 * i) = hd (fst (ps ! i))" "drop (2 * k) (prow ps) = prow (drop k ps)"
proof -
  show "nlen ps = length ps" using assms by (induction ps) (auto simp: single_def)
  show "drop (2 * k) (prow ps) = prow (drop k ps)" using assms
  proof (induction ps arbitrary: k)
    case (Cons z ps)
    then show ?case by (cases k) (auto simp: single_def)
  qed simp
  show "i < length ps \<Longrightarrow> prow ps ! (2 * i) = hd (fst (ps ! i))" using assms
  proof (induction ps arbitrary: i)
    case (Cons z ps)
    then show ?case by (cases i) (auto simp: single_def)
  qed simp
qed

lemma tail_scan_bounds: "i < k \<Longrightarrow> \<not> is_dig (row ! (2 * i)) \<Longrightarrow> i < tail_scan row k k k \<and> tail_scan row k k k \<le> k"
proof (induction k)
  case (Suc k)
  show ?case
  proof (cases "is_dig (row ! (2 * k))")
    case True
    then have "i < k" using Suc.prems less_antisym by fastforce
    then show ?thesis using Suc.IH Suc.prems(2) True by simp
  next
    case False
    then show ?thesis using Suc.prems by simp
  qed
qed simp

subsection \<open>A run becomes terms\<close>

text \<open>The place in the text of the \<open>k\<close>-th character.\<close>

lemma place_steps:
  assumes "\<forall>z \<in> set ps. piece_ok z" "nlen ps < 100" "a + slen ps \<le> n" "k < k'" "k' \<le> length ps"
  shows "a + slen (take k ps) < a + slen (take k' ps)" "a + slen (take k' ps) \<le> n" "a + slen (take k' ps) - (a + slen (take k ps)) < 256"
  using piece_steps [OF assms(1,2,4,5)] assms(3) by auto

lemma crf_rows_part:
  assumes ps: "\<forall>z \<in> set ps. piece_ok z" "nlen ps < 100" "a + slen ps \<le> n" "hashed h a ps" "\<forall>z \<in> set ps. single z"
    and k: "now < tail" "tail \<le> length ps" and n: "n < 16777216" and u: "run_at B mx (a + slen (take now ps)) u"
  shows "reaches B mx n (a + slen (take tail ps)) (crf_rows avg mx h (drop (2 * now) (prow ps)) (tail - now) now u)"
proof -
  let ?qs = "take (tail - now) (drop now ps)"
  let ?rows = "map fst ?qs"
  have sq: "\<forall>z \<in> set (take k qs). single z" if "\<forall>z \<in> set qs. single z" for qs k using that by (auto dest: in_set_takeD)
  have s: "\<forall>z \<in> set ?qs. single z" "\<forall>z \<in> set ?qs. piece_ok z" using ps(1,5) by (auto dest!: in_set_takeD in_set_dropD)
  have l: "length ?rows = tail - now" using k by simp
  have tk: "length (concat (take j ?rows)) = j" if "j \<le> tail - now" for j
  proof -
    have "length (concat (take j ?rows)) = nlen (take j ?qs)" by (simp add: nlen_def take_map)
    also have "\<dots> = j" using prow_single(1) [OF sq [OF s(1)], of j] that l by simp
    finally show ?thesis .
  qed
  have hq: "h (now + length (concat (take j ?rows))) = a + slen (take (now + j) ps)" if "j \<le> length ?rows" for j
  proof -
    have "nlen (take (now + j) ps) = now + j" using prow_single(1) [OF sq [OF ps(5)], of "now + j"] that k by simp
    moreover have "h (nlen (take (now + j) ps)) = a + slen (take (now + j) ps)" using ps(4) that l k by (simp add: hashed_def)
    ultimately show ?thesis using tk [of j] that l by simp
  qed
  have "drop (2 * now) (prow ps) = prow (?qs @ drop tail ps)" using prow_single(3) [OF ps(5), of now] k
    by (metis add_diff_inverse_nat append_take_drop_id drop_drop le_less not_less add.commute)
  then have row: "drop (2 * now) (prow ps) = concat (map (\<lambda>r. r @ [CHR 0x00]) ?rows) @ prow (drop tail ps)" by (simp add: prow_def)
  have st: "a + slen (take (now + j) ps) < a + slen (take (now + j') ps) \<and> a + slen (take (now + j') ps) \<le> n \<and>
      a + slen (take (now + j') ps) - (a + slen (take (now + j) ps)) < 256" if "j < j'" "j' \<le> length ?rows" for j j'
    using place_steps [OF ps(1-3), of "now + j" "now + j'"] that l k by simp
  have "nlen ps = length ps" using prow_single(1) ps(5) by blast
  then have "reaches B mx n (a + slen (take (now + length ?rows) ps)) (crf_rows avg mx h (drop (2 * now) (prow ps)) (length ?rows) now u)"
    by (intro crf_rows_ok [where g = "\<lambda>j. a + slen (take (now + j) ps)" and pad = "prow (drop tail ps)"])
      (use k l s tk [of "tail - now"] ps(2) hq row u n st in \<open>auto simp: piece_ok_def\<close>)
  then show ?thesis using l k by simp
qed

text \<open>A run of letters and digits: the digits before it, its middle, the digits behind it.\<close>

lemma crf_seg_word_single:
  assumes ps: "\<forall>z \<in> set ps. piece_ok z" "nlen ps < 100" "a + slen ps \<le> n" "hashed h a ps" "ps \<noteq> []" and True: "\<forall>z \<in> set ps. single z"
    and n: "n < 16777216" and u: "run_at B mx a u" and mx: "\<not> mx < 1"
  shows "reaches B mx n (a + slen ps) (crf_seg_word avg mx inbuf in_len (prow ps) (length ps) h (nlen ps) u)"
proof -
  let ?N = "length ps" and ?q = "\<lambda>k. a + slen (take k ps)" and ?off = "length (takeWhile (\<lambda>z. is_dig (hd (fst z))) ps)"
  have N: "nlen ps = ?N" by (rule prow_single(1) [OF True])
  have h: "h k = ?q k" if "k \<le> ?N" for k
    using ps(4) that prow_single(1) [of "take k ps"] True by (fastforce simp: hashed_def dest: in_set_takeD)
  have offN: "?off \<le> ?N" by (rule length_takeWhile_le)
  let ?lead = "?off \<ge> 2 \<or> ?off = ?N"
  let ?now = "if ?lead then ?off else 0" and ?tail = "tail_scan (prow ps) ?N ?N ?N"
  have put: "reaches B mx n (?q k') (put_terms mx (pack_term (int (h k') - int (h k)) (int (h k))) v)"
    if "k < k'" "k' \<le> ?N" "run_at B mx (?q k) v" for k k' v
    using put_terms_ok [OF that(3) place_steps [OF ps(1-3) that(1,2)] n] h that by simp
  have 1: "reaches B mx n (?q ?now) (if ?lead then put_terms mx (pack_term (int (h ?off) - int (h 0)) (int (h 0))) u else Some (0, u))"
  proof (cases ?lead)
    case T: True
    then have "0 < ?off" using ps(5) by (metis gr_zeroI length_0_conv not_numeral_le_zero)
    then show ?thesis using T put [of 0 ?off u] u offN by (simp only: if_P) simp
  qed (use u in simp)
  have tail: "?off < ?tail \<and> ?tail \<le> ?N" if o: "?off < ?N"
    by (rule tail_scan_bounds [OF o]) (use prow_single(2) [OF True o] nth_length_takeWhile [OF o] in simp)
  have 2: "reaches B mx n (?q ?tail) (if keep_whole inbuf in_len h ?now ?tail
      then put_terms mx (pack_term (int (h ?tail) - int (h ?now)) (int (h ?now))) v
      else crf_rows avg mx h (drop (2 * ?now) (prow ps)) (?tail - ?now) ?now v)" if v: "run_at B mx (?q ?now) v" and o: "?off < ?N" for v
  proof -
    have nt: "?now < ?tail" "?tail \<le> ?N" using tail [OF o] by auto
    from put [OF nt v] crf_rows_part [OF ps(1-4) True nt n v, of avg] show ?thesis by simp
  qed
  have 3: "reaches B mx n (?q ?N) (if ?tail \<noteq> ?N then put_terms mx (pack_term (int (h ?N) - int (h ?tail)) (int (h ?tail))) v else Some (0, v))"
    if v: "run_at B mx (?q ?tail) v" and o: "?off < ?N" for v
    using put [of ?tail ?N v] v tail [OF o] by auto
  have L: "lead_scan ?N (prow ps) True 0 = Some (Some ?off)" using True lead_scan_pieces [OF ps(1), of "[]" True 0] by simp
  have rest: "reaches B mx n (?q ?N) (if ?off = ?N then Some (0, v) else do {
      (e1, u2) \<leftarrow> (if keep_whole inbuf in_len h ?now ?tail
        then put_terms mx (pack_term (int (h ?tail) - int (h ?now)) (int (h ?now))) v
        else crf_rows avg mx h (drop (2 * ?now) (prow ps)) (?tail - ?now) ?now v);
      if e1 < 0 then Some (-1, u2)
      else if ?tail \<noteq> ?N then put_terms mx (pack_term (int (h ?N) - int (h ?tail)) (int (h ?tail))) u2
      else Some (0, u2) })" if v: "run_at B mx (?q ?now) v" for v
  proof (cases "?off = ?N")
    case False
    then have o: "?off < ?N" using offN by simp
    show ?thesis unfolding if_not_P [OF False] by (rule reaches_bind [OF 2 [OF v o] 3 [OF _ o]])
  qed (use v in simp)
  have "?N - ?now - (?N - ?tail) = ?tail - ?now" if "?off \<noteq> ?N" using tail offN that by simp
  then have "crf_seg_word avg mx inbuf in_len (prow ps) ?N h (nlen ps) u = do {
      (e, u1) \<leftarrow> (if ?lead then put_terms mx (pack_term (int (h ?off) - int (h 0)) (int (h 0))) u else Some (0, u));
      if e < 0 then Some (-1, u1) else (if ?off = ?N then Some (0, u1) else do {
        (e1, u2) \<leftarrow> (if keep_whole inbuf in_len h ?now ?tail
          then put_terms mx (pack_term (int (h ?tail) - int (h ?now)) (int (h ?now))) u1
          else crf_rows avg mx h (drop (2 * ?now) (prow ps)) (?tail - ?now) ?now u1);
        if e1 < 0 then Some (-1, u2)
        else if ?tail \<noteq> ?N then put_terms mx (pack_term (int (h ?N) - int (h ?tail)) (int (h ?tail))) u2
        else Some (0, u2) }) }"
    using mx ps(5) L N by (simp add: crf_seg_word_def Suc_le_eq Let_def cong: if_cong)
  then show ?thesis using reaches_bind [OF 1 rest] by simp
qed

lemma crf_seg_word_ok:
  assumes ps: "\<forall>z \<in> set ps. piece_ok z" "nlen ps < 100" "a + slen ps \<le> n" "hashed h a ps" "ps \<noteq> []"
    and n: "n < 16777216" and u: "run_at B mx a u"
  shows "reaches B mx n (a + slen ps) (crf_seg_word avg mx inbuf in_len (prow ps) (length ps) h (nlen ps) u)"
proof (cases "mx < 1")
  case True
  then show ?thesis by (simp add: crf_seg_word_def reaches_fail)
next
  case mx: False
  note lead = lead_scan_pieces [OF ps(1), of "[]" True 0, simplified]
  show ?thesis
  proof (cases "\<forall>z \<in> set ps. single z")
    case False
    have h: "h (0 + length (concat (take k (map fst ps)))) = a + slen (take k ps)" if "k \<le> length (map fst ps)" for k
      using ps(4) that by (simp add: hashed_def nlen_def take_map)
    have "reaches B mx n (a + slen (take (length (map fst ps)) ps)) (crf_rows avg mx h (prow ps) (length (map fst ps)) 0 u)"
      by (rule crf_rows_ok [where g = "\<lambda>k. a + slen (take k ps)" and pad = "[]", OF _ _ _ _ _ h])
        (use ps u n place_steps [OF ps(1-3)] in \<open>auto simp: piece_ok_def prow_def nlen_def simp del: length_concat\<close>)
    moreover have "lead_scan (length ps) (prow ps) True 0 = Some None" using False by (subst lead) (rule if_not_P)
    ultimately show ?thesis using mx ps(5) reaches_code by (simp add: crf_seg_word_def Suc_le_eq)
  next
    case True
    show ?thesis by (rule crf_seg_word_single) (use assms True mx in simp_all)
  qed
qed

subsection \<open>The scan keeps the terms a tiling\<close>

text \<open>
  What is known of the reader of characters, a library function: a character of two or four bytes
  is inside the text and its first byte is above 127.
\<close>

definition reader_ok :: "(string \<Rightarrow> nat \<Rightarrow> int) \<Rightarrow> string \<Rightarrow> bool" where
  "reader_ok next s \<longleftrightarrow> (\<forall>m < length s. next s m \<in> {-1, 0, 1} \<or>
     (next s m = 2 \<and> m + 2 \<le> length s \<or> next s m = 4 \<and> m + 4 \<le> length s) \<and> 128 \<le> cbyte s m)"

definition manwords_ok :: "scw_inner \<Rightarrow> string \<Rightarrow> bool" where
  "manwords_ok p s \<longleftrightarrow> (\<forall>k < m_mandictword_cnt p. let x = m_mandictword_prop p k in
     0 < CRF_GET_TERM_LEN x \<and> CRF_GET_TERM_LEN x < 256 \<and> CRF_GET_TERM_POS x + CRF_GET_TERM_LEN x \<le> length s)"

definition scan_at :: "int \<Rightarrow> scan_env \<Rightarrow> scw_scan \<Rightarrow> bool" where
  "scan_at B v c \<longleftrightarrow> sn_m c \<le> length (ev_buf v) \<and> (\<exists>ps a. (\<forall>z \<in> set ps. piece_ok z) \<and> nlen ps < 100 \<and> (ps \<noteq> [] \<longrightarrow> hashed (sn_h c) a ps) \<and>
     sn_row c = prow ps \<and> sn_len c = length ps \<and> sn_str c = nlen ps \<and> sn_m c = a + slen ps \<and>
     run_at B (m_maxterm (ev_pir v)) a (sn_run c))"

definition scans :: "scan_env \<Rightarrow> (int \<times> scw_scan) option \<Rightarrow> (scw_scan \<Rightarrow> bool) \<Rightarrow> bool" where
  "scans v r P \<longleftrightarrow> (\<exists>e c. r = Some (e, c) \<and> (e = 0 \<and> P c \<or> e < 0 \<and> m_maxterm (ev_pir v) \<le> length (ev_buf v)))"

lemma scans_Some [simp]: "scans v (Some (0, c)) P \<longleftrightarrow> P c"
  by (simp add: scans_def)

lemma scans_bind:
  assumes "scans v r P" "\<And>c. P c \<Longrightarrow> scans v (f c) Q"
  shows "scans v (do { (e, c) \<leftarrow> r; if e < 0 then Some (-1, c) else f c }) Q"
  using assms by (auto simp: scans_def)

lemma nlen_length: "\<forall>z \<in> set ps. piece_ok z \<Longrightarrow> length ps \<le> nlen ps \<and> length (prow ps) = nlen ps + length ps"
proof (induction ps)
  case (Cons z ps)
  then have "1 \<le> length (fst z)" by (cases "fst z") (auto simp: piece_ok_def)
  then show ?case using Cons by (simp del: One_nat_def)
qed simp

lemma scan_seg_ok:
  assumes c: "scan_at B v c" "sn_len c \<noteq> 0" and n: "length (ev_buf v) < 16777216"
  shows "scans v (scan_seg v c) (\<lambda>c1. scan_at B v c1 \<and> sn_m c1 = sn_m c \<and> sn_man c1 = sn_man c \<and> sn_len c1 = 0 \<and> sn_str c1 = 0 \<and>
    run_at B (m_maxterm (ev_pir v)) (sn_m c) (sn_run c1))"
proof -
  obtain ps a where ps: "\<forall>z \<in> set ps. piece_ok z" "nlen ps < 100" "ps \<noteq> [] \<longrightarrow> hashed (sn_h c) a ps" "sn_row c = prow ps"
    "sn_len c = length ps" "sn_str c = nlen ps" "sn_m c = a + slen ps" "run_at B (m_maxterm (ev_pir v)) a (sn_run c)"
    "sn_m c \<le> length (ev_buf v)"
    using c(1) unfolding scan_at_def by blast
  have "reaches B (m_maxterm (ev_pir v)) (length (ev_buf v)) (sn_m c) (crf_seg_word (ev_avg v) (m_maxterm (ev_pir v)) (ev_buf v) (ev_len v)
      (sn_row c) (sn_len c) (sn_h c) (sn_str c) (sn_run c))"
    using crf_seg_word_ok [OF ps(1,2) _ _ _ n ps(8)] ps c(2) by simp
  then obtain e u where u: "crf_seg_word (ev_avg v) (m_maxterm (ev_pir v)) (ev_buf v) (ev_len v)
      (sn_row c) (sn_len c) (sn_h c) (sn_str c) (sn_run c) = Some (e, u)"
    "e = 0 \<and> run_at B (m_maxterm (ev_pir v)) (sn_m c) u \<or> e < 0 \<and> m_maxterm (ev_pir v) \<le> length (ev_buf v)"
    by (auto simp: reaches_def)
  have "scan_at B v (c\<lparr>sn_row := [], sn_len := 0, sn_str := 0, sn_run := u\<rparr>)" if "e = 0"
    unfolding scan_at_def using u(2) ps(9) that by (intro conjI exI [of _ "[]"] exI [of _ "sn_m c"]) simp_all
  then show ?thesis using u by (auto simp: scan_seg_def scans_def)
qed

lemma hashed_snoc:
  assumes ps: "\<forall>z \<in> set ps. piece_ok z" "ps \<noteq> [] \<longrightarrow> hashed h a ps" and r: "piece_ok (r, w)"
  shows "hashed (h(nlen ps := a + slen ps, nlen ps + length r := a + slen ps + w)) a (ps @ [(r, w)])"
  unfolding hashed_def
proof (intro allI impI)
  fix k assume k: "k \<le> length (ps @ [(r, w)])"
  have r0: "0 < length r" using r by (simp add: piece_ok_def)
  consider "k = length ps + 1" | "k = length ps" | "k < length ps" using k by force
  then show "(h(nlen ps := a + slen ps, nlen ps + length r := a + slen ps + w)) (nlen (take k (ps @ [(r, w)]))) = a + slen (take k (ps @ [(r, w)]))"
  proof cases
    case 3
    have "0 < nlen (drop k ps)" using nlen_length [of "drop k ps"] ps(1) 3 by (fastforce dest: in_set_dropD)
    then have "nlen (take k ps) < nlen ps" by (metis append_take_drop_id run_simps(8) less_add_same_cancel1)
    then show ?thesis using 3 ps(2) by (auto simp: hashed_def)
  qed (use r0 in simp_all)
qed

lemma scan_add_ok:
  assumes c: "scan_at B v c" "sn_str c + 4 < 100" and r: "piece_ok (r, w)" "sn_m c + w \<le> length (ev_buf v)"
  shows "scans v (scan_add r w c) (\<lambda>c1. scan_at B v c1 \<and> sn_m c1 = sn_m c + w)"
proof -
  obtain ps a where ps: "\<forall>z \<in> set ps. piece_ok z" "nlen ps < 100" "ps \<noteq> [] \<longrightarrow> hashed (sn_h c) a ps" "sn_row c = prow ps"
    "sn_len c = length ps" "sn_str c = nlen ps" "sn_m c = a + slen ps" "run_at B (m_maxterm (ev_pir v)) a (sn_run c)"
    using c(1) unfolding scan_at_def by blast
  have r4: "length r \<le> 4" using r(1) by (simp add: piece_ok_def)
  have "length (sn_row c) + length r < 512 \<and> sn_str c + length r < 512" using nlen_length [OF ps(1)] ps(4,6) c(2) r4 by simp
  then have st: "scan_add r w c = Some (0, c\<lparr>sn_row := sn_row c @ r @ [CHR 0x00], sn_len := sn_len c + 1,
      sn_h := (sn_h c)(sn_str c := sn_m c, sn_str c + length r := sn_m c + w), sn_str := sn_str c + length r, sn_m := sn_m c + w\<rparr>)"
    by (simp add: scan_add_def c_assert_def CRF_MAX_QUERY_LEN_def)
  have "scan_at B v (c\<lparr>sn_row := sn_row c @ r @ [CHR 0x00], sn_len := sn_len c + 1,
      sn_h := (sn_h c)(sn_str c := sn_m c, sn_str c + length r := sn_m c + w), sn_str := sn_str c + length r, sn_m := sn_m c + w\<rparr>)"
    unfolding scan_at_def using ps r r4 c(2) hashed_snoc [OF ps(1,3) r(1)]
    by (intro conjI exI [of _ "ps @ [(r, w)]"] exI [of _ a]) simp_all
  then show ?thesis by (simp add: st)
qed

lemma scan_term_ok:
  assumes c: "scan_at B v c" and w: "0 < w" "w < 256" "sn_m c + w \<le> length (ev_buf v)" and n: "length (ev_buf v) < 16777216"
  shows "scans v (scan_term v w c) (\<lambda>c1. scan_at B v c1 \<and> sn_m c1 = sn_m c + w)"
proof -
  let ?mx = "m_maxterm (ev_pir v)" and ?P = "\<lambda>c1. sn_m c1 = sn_m c \<and> sn_len c1 = 0 \<and> sn_str c1 = 0 \<and> sn_row c1 = [] \<and> run_at B (m_maxterm (ev_pir v)) (sn_m c) (sn_run c1)"
  have "scans v (scan_seg v c) ?P" if "sn_len c \<noteq> 0"
    using scan_seg_ok [OF c that n] by (fastforce simp: scans_def scan_seg_def split: prod.splits bind_splits)
  moreover have "?P c" if "sn_len c = 0" using c that by (auto simp: scan_at_def)
  ultimately have 1: "scans v (if sn_len c \<noteq> 0 then scan_seg v c else Some (0, c)) ?P" by simp
  have "scans v (do { (e, u) \<leftarrow> put_terms ?mx (pack_term (int w) (int (sn_m c1))) (sn_run c1);
      Some (e, c1\<lparr>sn_run := u, sn_m := sn_m c1 + w\<rparr>) }) (\<lambda>c1. scan_at B v c1 \<and> sn_m c1 = sn_m c + w)" if c1: "?P c1" for c1
  proof -
    have p: "pack_term (int w) (int (sn_m c)) = pack_term (int (sn_m c + w) - int (sn_m c)) (int (sn_m c))" by simp
    have "reaches B ?mx (length (ev_buf v)) (sn_m c + w) (put_terms ?mx (pack_term (int w) (int (sn_m c))) (sn_run c1))"
      unfolding p by (rule put_terms_ok) (use c1 w n in auto)
    moreover have "scan_at B v (c1\<lparr>sn_run := u, sn_m := sn_m c + w\<rparr>)" if "run_at B ?mx (sn_m c + w) u" for u
      unfolding scan_at_def using that c1 w by (intro conjI exI [of _ "[]"] exI [of _ "sn_m c + w"]) simp_all
    ultimately show ?thesis using c1 by (auto simp: reaches_def scans_def)
  qed
  then show ?thesis unfolding scan_term_def by (rule scans_bind [OF 1])
qed

text \<open>The normalised characters are pieces of a run.\<close>

lemma low_map_piece:
  assumes "IS_ALPHA_1234 b \<or> IS_ALPHA_CH b"
  shows "is_low (char_of (l_low_map b)) \<or> is_dig (char_of (l_low_map b))"
  using assms by (auto simp: IS_ALPHA_1234_def IS_ALPHA_CH_def l_low_map_def is_low_def is_dig_def IN_RANGE_def)

lemma single_piece: "is_low c \<or> is_dig c \<Longrightarrow> 0 < w \<Longrightarrow> w \<le> 2 \<Longrightarrow> piece_ok ([c], w)"
  using low_dig(2) [of c] by (auto simp: piece_ok_def)

lemma bytes_piece:
  assumes s: "CHR 0x00 \<notin> set s" "m + k \<le> length s" "128 \<le> cbyte s m" and k: "0 < k" "k \<le> 4"
  shows "piece_ok (map (\<lambda>i. char_of (cbyte s (m + i))) [0..<k], k)"
proof -
  have e: "map (\<lambda>i. char_of (cbyte s (m + i))) [0..<k] = take k (drop m s)"
    by (rule nth_equalityI) (use s(2) in simp_all)
  have "CHR 0x00 \<notin> set (take k (drop m s))" using s(1) by (meson in_set_dropD in_set_takeD)
  moreover have "hd (take k (drop m s)) = s ! m" using s(2) k by (simp add: hd_drop_conv_nth hd_conv_nth)
  ultimately show ?thesis using s k unfolding e by (simp add: piece_ok_def)
qed

lemma wide_piece:
  assumes "IS_GB_1234 s m \<or> IS_GB_ABCD s m"
  shows "is_low (char_of (l_low_map (cbyte s (m + 1) - 0x80))) \<or> is_dig (char_of (l_low_map (cbyte s (m + 1) - 0x80)))"
  by (rule low_map_piece) (use assms in \<open>auto simp: IS_GB_1234_def IS_GB_ABCD_def IN_RANGE_def IS_ALPHA_1234_def IS_ALPHA_CH_def\<close>)

lemma scan_char_ok:
  assumes c: "scan_at B v c" "sn_str c + 4 < 100" "sn_m c < length (ev_buf v)" and s: "CHR 0x00 \<notin> set (ev_buf v)"
    and r: "reader_ok (ev_next v) (ev_buf v)" and n: "length (ev_buf v) < 16777216"
  shows "scans v (scan_char v c) (\<lambda>c1. scan_at B v c1 \<and> sn_m c < sn_m c1)"
proof -
  let ?s = "ev_buf v" and ?m = "sn_m c"
  have weak: "scans v x (\<lambda>c1. scan_at B v c1 \<and> sn_m c < sn_m c1)" if "scans v x (\<lambda>c1. scan_at B v c1 \<and> sn_m c1 = sn_m c + w)" "0 < w" for x w
    using that by (auto simp: scans_def)
  note add = weak [OF scan_add_ok [OF c(1,2)]] and mark = weak [OF scan_term_ok [OF c(1) _ _ _ n]]
  consider "ev_next v ?s ?m \<in> {-1, 0, 1}" | "ev_next v ?s ?m = 2" "?m + 2 \<le> length ?s" "128 \<le> cbyte ?s ?m"
    | "ev_next v ?s ?m = 4" "?m + 4 \<le> length ?s" "128 \<le> cbyte ?s ?m"
    using r c(3) by (auto simp: reader_ok_def)
  then show ?thesis
  proof cases
    case 1
    show ?thesis
    proof (cases "IS_ALPHA_1234 (cbyte ?s ?m) \<or> IS_ALPHA_CH (cbyte ?s ?m)")
      case True
      then show ?thesis using 1 add [OF single_piece [OF low_map_piece [OF True]], of 1] c(3) by (auto simp: scan_char_def)
    next
      case False
      then show ?thesis using 1 mark [of 1] c(3) by (auto simp: scan_char_def)
    qed
  next
    case 2
    then show ?thesis
      using add [OF single_piece [OF wide_piece], of ?s ?m 2] mark [of 2] add [OF bytes_piece [OF s 2(2,3)]]
      by (auto simp: scan_char_def Let_def simp del: upt_rec_numeral)
  next
    case 3
    then show ?thesis using add [OF bytes_piece [OF s 3(2,3)]] by (auto simp: scan_char_def Let_def simp del: upt_rec_numeral)
  qed
qed

lemma scan_step_ok:
  assumes c: "scan_at B v c" "sn_m c < length (ev_buf v)" and s: "CHR 0x00 \<notin> set (ev_buf v)"
    and r: "reader_ok (ev_next v) (ev_buf v)" and m: "manwords_ok (ev_pir v) (ev_buf v)" and n: "length (ev_buf v) < 16777216"
  shows "scans v (scan_step v c) (\<lambda>c1. scan_at B v c1 \<and> sn_m c < sn_m c1)"
proof -
  let ?x = "\<lambda>c. m_mandictword_prop (ev_pir v) (sn_man c)"
  have "sn_len c \<noteq> 0" if "96 \<le> sn_str c" using c(1) that by (auto simp: scan_at_def)
  then have 1: "scans v (if sn_str c + 4 \<ge> CRF_MAX_WORD_LEN then scan_seg v c else Some (0, c))
      (\<lambda>c1. scan_at B v c1 \<and> sn_m c1 = sn_m c \<and> sn_str c1 + 4 < 100)"
    using scan_seg_ok [OF c(1) _ n] c(1) by (auto simp: scans_def CRF_MAX_WORD_LEN_def)
  have "scans v (if sn_man c1 < m_mandictword_cnt (ev_pir v) \<and> CRF_GET_TERM_POS (?x c1) = sn_m c1
      then do { (e1, c2) \<leftarrow> scan_term v (CRF_GET_TERM_LEN (?x c1)) c1; Some (e1, c2\<lparr>sn_man := sn_man c2 + 1\<rparr>) }
      else scan_char v c1) (\<lambda>c1. scan_at B v c1 \<and> sn_m c < sn_m c1)"
    if c1: "scan_at B v c1 \<and> sn_m c1 = sn_m c \<and> sn_str c1 + 4 < 100" for c1
  proof (cases "sn_man c1 < m_mandictword_cnt (ev_pir v) \<and> CRF_GET_TERM_POS (?x c1) = sn_m c1")
    case True
    have "scans v (scan_term v (CRF_GET_TERM_LEN (?x c1)) c1) (\<lambda>c2. scan_at B v c2 \<and> sn_m c2 = sn_m c1 + CRF_GET_TERM_LEN (?x c1))"
      by (rule scan_term_ok) (use m True c1 n in \<open>auto simp: manwords_ok_def Let_def\<close>)
    moreover have "0 < CRF_GET_TERM_LEN (?x c1)" using m True by (simp add: manwords_ok_def Let_def)
    moreover have "scan_at B v (c2\<lparr>sn_man := k\<rparr>) = scan_at B v c2" for c2 k by (simp add: scan_at_def)
    ultimately show ?thesis using True c1 by (auto simp: scans_def)
  next
    case False
    have "scans v (scan_char v c1) (\<lambda>c2. scan_at B v c2 \<and> sn_m c1 < sn_m c2)" by (rule scan_char_ok) (use c1 c s r n in auto)
    then show ?thesis unfolding if_not_P [OF False] using c1 by simp
  qed
  from scans_bind [OF 1 this] show ?thesis by (simp add: scan_step_def Let_def)
qed

lemma scan_loop_ok:
  assumes s: "CHR 0x00 \<notin> set (ev_buf v)" "length (ev_buf v) < 16777216" "ev_len v = length (ev_buf v)"
    and r: "reader_ok (ev_next v) (ev_buf v)" and m: "manwords_ok (ev_pir v) (ev_buf v)"
  shows "scan_at B v c \<Longrightarrow> reaches B (m_maxterm (ev_pir v)) (length (ev_buf v)) (length (ev_buf v)) (scan_loop v c)"
proof (induction "length (ev_buf v) - sn_m c" arbitrary: c rule: less_induct)
  case less
  let ?n = "length (ev_buf v)"
  have le: "sn_m c \<le> ?n" using less.prems by (simp add: scan_at_def)
  show ?case
  proof (cases "sn_m c < ?n")
    case True
    obtain e c1 where c1: "scan_step v c = Some (e, c1)" "e = 0 \<and> scan_at B v c1 \<and> sn_m c < sn_m c1 \<or> e < 0 \<and> m_maxterm (ev_pir v) \<le> ?n"
      using scan_step_ok [OF less.prems True s(1) r m s(2)] by (auto simp: scans_def)
    then show ?thesis using less.hyps [of c1] True s(3) by (subst scan_loop.simps) (auto simp: reaches_fail)
  next
    case False
    show ?thesis
    proof (cases "sn_len c = 0")
      case True
      then have "run_at B (m_maxterm (ev_pir v)) (sn_m c) (sn_run c)" using less.prems by (auto simp: scan_at_def)
      then show ?thesis using True False le s(3) by (subst scan_loop.simps) simp
    next
      case len: False
      then show ?thesis using False le s(3) scan_seg_ok [OF less.prems len s(2)]
        by (subst scan_loop.simps) (auto simp: scans_def reaches_def)
    qed
  qed
qed

text \<open>
  C40 The terms of a text. With a reader that stays inside the text, controlled words inside the
  text and a tagger that can label any run, asking for one result always returns; the terms then
  tile the text, whatever the runs and labels are. It gives up only when the text has at least as
  many bytes as the result has room for terms.
\<close>

theorem scw_crf_tiles:
  assumes s: "CHR 0x00 \<notin> set s" "length s < 16777216" and r: "reader_ok next s" and m: "manwords_ok p s"
    and t: "tagger_ok B (set_vlevel (nat vl) (set_nbest 1 (sg_tag (cu_tag u))))" "0 \<le> vl" "vl \<le> 2"
    and room: "100 \<le> to_size (co_bufs (cu_out u) 0)" "m_maxterm p \<le> cr_size (cu_res u) + 1"
  shows "\<exists>e u1. crf_segment_words_processed avg next p s (int (length s)) 1 vl u = Some (e, u1) \<and>
    (e = 0 \<and> tiles s 0 (cr_terms (cu_res u1) 0) \<or> e < 0 \<and> m_maxterm p \<le> length s)"
proof -
  let ?u = "u\<lparr>cu_tag := (cu_tag u)\<lparr>sg_tag := set_vlevel (nat vl) (set_nbest 1 (sg_tag (cu_tag u)))\<rparr>,
    cu_res := (cu_res u)\<lparr>cr_nbest := 1, cr_terms := (\<lambda>i. if i < 1 then [] else cr_terms (cu_res u) i)\<rparr>\<rparr>"
  let ?v = "\<lparr>ev_avg = avg, ev_pir = p, ev_buf = s, ev_len = length s, ev_next = next\<rparr>"
  let ?c = "\<lparr>sn_m = 0, sn_row = [], sn_len = 0, sn_h = (\<lambda>_. 0), sn_str = 0, sn_man = 0, sn_run = ?u\<rparr>"
  have "run_at B (m_maxterm p) 0 ?u" using t(1) room by (simp add: run_at_def)
  then have "scan_at B ?v ?c" unfolding scan_at_def by (intro conjI exI [of _ "[]"] exI [of _ 0]) simp_all
  then have "reaches B (m_maxterm p) (length s) (length s) (scan_loop ?v ?c)"
    using scan_loop_ok [of ?v B ?c] s r m by simp
  then show ?thesis using t(2,3) by (auto simp: crf_segment_words_processed_def Let_def reaches_def run_at_def tiled_tiles)
qed

text \<open>A reader of GBK characters, and a tagger with room for a whole run.\<close>

definition gbk_reader :: "string \<Rightarrow> nat \<Rightarrow> int" where
  "gbk_reader s m = (if 129 \<le> cbyte s m \<and> 64 \<le> cbyte s (m + 1) then 2 else 1)"

lemma gbk_reader_ok: "reader_ok gbk_reader s"
proof -
  have "m + 2 \<le> length s" if "64 \<le> cbyte s (m + 1)" for m
    using that by (cases "m + 1 < length s") simp_all
  then show ?thesis by (auto simp: reader_ok_def gbk_reader_def)
qed

definition wide_tag :: crf_tag where
  "wide_tag = set_vlevel 0 (set_nbest 1 (snd (init_by_model 1000000 (Some sample_model) (crf_tag_new 4 100 10))))"

lemma set_twice: "set_vlevel 0 (set_nbest 1 wide_tag) = wide_tag"
  unfolding wide_tag_def by (simp add: set_vlevel_def set_nbest_def cong: if_cong)

lemma wide_fields: "tg_ready wide_tag" "tg_model wide_tag = Some sample_model" "tg_ysize wide_tag = 2" "tg_max_words wide_tag = 100"
  "tg_max_len wide_tag = 10" "tg_max_nbest wide_tag = 4" "tg_nbest wide_tag = 1"
  "nd_x (tg_node wide_tag i j) = i mod 65536" "nd_y (tg_node wide_tag i j) = j mod 65536"
  by (simp_all add: wide_tag_def set_vlevel_def set_nbest_def init_by_model_def crf_tag_new_def sample_model_def heap_init_def)

lemma wide_tag_ok: "tagger_ok 7 wide_tag"
proof -
  have "\<exists>t2. build_features (loaded (snd (tag_reset t)) rows) = Some (0, t2) \<and> weights_ok 7 t2"
    if t: "same_setup wide_tag t" and rows: "rows \<noteq> []" "length rows < 100" for t rows
  proof -
    let ?q = "loaded (snd (tag_reset t)) rows"
    have q: "tg_words ?q = length rows" "tg_model ?q = Some sample_model" "tg_ysize ?q = 2" "tg_max_words ?q = 100"
      "nd_x (tg_node ?q i j) = i mod 65536" "nd_y (tg_node ?q i j) = j mod 65536" for i j
      using t by (simp_all add: same_setup_def wide_fields loaded_def clear_costs_def tag_reset_def)
    have "build_features ?q = Some (0, with_costs ?q
        (\<lambda>i j. cm_scale sample_model (weight_sum sample_model (templ_ids sample_model ?q i) (cm_templs sample_model) j)))"
      by (rule build_100_ok [where A = 5])
        (use rows q in \<open>simp_all add: plain_fields alpha_ok_def scale_ok_def ids100_ok_def i32_def, auto?\<close>)
    then have b: "build_features ?q = Some (0, with_costs ?q (\<lambda>_ _. 0))" by (simp add: plain_fields weight_sum_def)
    have "weights_ok 7 (with_costs ?q (\<lambda>_ _. 0))"
      unfolding weights_ok_def using rows q
      by (simp add: plain_fields nc_def pc_def path_cost_def rd_def with_costs_def numeral_2_eq_2
        numeral_3_eq_3 less_Suc_eq all_conj_distrib cong: if_cong)
    then show ?thesis using b by blast
  qed
  then show ?thesis unfolding tagger_ok_def by (simp add: wide_fields plain_fields)
qed

definition sample_run :: crf_run where
  "sample_run = \<lparr>cu_tag = \<lparr>sg_tag = wide_tag, sg_ne = True\<rparr>, cu_out = the (crf_create_out 10000 101), cu_res = the (scw_crf_create 10000 200)\<rparr>"

text \<open>A letter, a mark and a character of two bytes.\<close>

theorem scw_crf_tiles_witness:
  "\<exists>u1. crf_segment_words_processed (\<lambda>_ _. 0) gbk_reader sample_inner [CHR ''a'', CHR ''!'', CHR 0xB0, CHR 0xA1] 4 1 0 sample_run = Some (0, u1) \<and>
    tiles [CHR ''a'', CHR ''!'', CHR 0xB0, CHR 0xA1] 0 (cr_terms (cu_res u1) 0)"
proof -
  let ?s = "[CHR ''a'', CHR ''!'', CHR 0xB0, CHR 0xA1]"
  have t: "tagger_ok 7 (set_vlevel (nat 0) (set_nbest 1 (sg_tag (cu_tag sample_run))))"
    using wide_tag_ok by (simp add: sample_run_def set_twice del: One_nat_def)
  have p: "m_mandictword_cnt sample_inner = 0" "m_maxterm sample_inner = 100"
    by (simp_all add: sample_inner_def scw_create_inner_def realloc_ok_def max_sizes sizeofs)
  have "\<exists>e u1. crf_segment_words_processed (\<lambda>_ _. 0) gbk_reader sample_inner ?s (int (length ?s)) 1 0 sample_run = Some (e, u1) \<and>
      (e = 0 \<and> tiles ?s 0 (cr_terms (cu_res u1) 0) \<or> e < 0 \<and> m_maxterm sample_inner \<le> length ?s)"
    by (rule scw_crf_tiles [OF _ _ gbk_reader_ok _ t])
      (simp_all add: sample_run_def manwords_ok_def p scw_crf_create_def crf_create_out_def MAX_NBEST_NUM_def)
  then show ?thesis by (auto simp: p)
qed

end
