(* ===== verification/Spec2Isabelle.thy ===== *)
theory Spec2Isabelle
  imports Prelude Gbk Property WordDict EntryTree Trie AddLemma Inner LemmaStr Phrase AmbTable Judge
    DictText Fmm SegLoop Pajm AsciiSub Ascii AsciiKeep SegFmm SegOut Names SegMerge AhoCorasick
    CrfHeap CrfTag CrfViterbi CrfNbest CrfFeatures CrfLoad CrfSeg CrfCheck ScwCrf
begin

text \<open>
  A verification library for the word segmenter under
  \<open>src/libsrc/wordseg_2-0-5-3_PD_BL\<close>, the core of this repository: it cuts Chinese and Japanese
  text in the GBK encoding into the words of a dictionary. All file names below are relative to
  that directory.

  \<^bold>\<open>The program.\<close> A dictionary (\<open>scw_worddict_t\<close>) holds a trie over two-byte characters, whose
  nodes are spread over hash blocks in one array; a node may carry a lemma, a record with a type,
  a length, a weight, a property word and the place of its text or of its parts. The dictionary
  is filled by \<open>scw_add_lemma\<close> and then read by the segmentation, which finds the longest word
  at a position (\<open>scw_get_fmm_word\<close>), compares it with the choice that ends the first word
  earlier (\<open>scw_backtrack\<close>, \<open>scw_judge_backtrack\<close>) and appends the winner to the result
  (\<open>scw_inner_t\<close>), a list of references to lemmas of the dictionary or of the result itself.
  Recognisers take runs that the dictionary does not know (katakana, numbers, letters and
  digits) and store them as dynamic words; \<open>poly_lemmas\<close> merges entries into phrases.

  \<^bold>\<open>The theories, in the order of the code.\<close>
  \<^item> \<open>Prelude\<close>: C memory (buffers as functions with a size and a fill position kept beside them),
    assertions, and the lemmas about both that every theory uses.
  \<^item> \<open>Gbk\<close> (\<open>src/chinese_gbk.cpp\<close>, \<open>include/chinese_gbk.h\<close>): character classes and the reader of
    words of one, two and four bytes. Cutting and writing back is the identity.
  \<^item> \<open>Property\<close> (\<open>include/property.h\<close>, \<open>src/chinese_gbk.cpp\<close>, \<open>src/segutil.cpp\<close>): the bits of a
    property word and their letters, with the round trip that holds and the letters that break it.
  \<^item> \<open>WordDict\<close>, \<open>Trie\<close> (\<open>include/scwdef.h\<close>, \<open>src/segdict.cpp\<close>): the dictionary record, growing
    its arrays, squeezing the block array, inserting a node with rehashing, the lookups.
  \<^item> \<open>EntryTree\<close>: the locale of a prefix tree that is only extended; \<open>Trie\<close> interprets it on the
    model's own insertion and lookup.
  \<^item> \<open>AddLemma\<close> (\<open>src/segdict.cpp\<close>): adding lemmas of every type, reading stored texts, maximal
    matching. The lookup is a finite map that an insertion updates at one term.
  \<^item> \<open>Inner\<close>, \<open>LemmaStr\<close>, \<open>Phrase\<close> (\<open>src/segimpl.cpp\<close>): the result of a segmentation; appending
    records and dynamic words; reading texts; merging entries. The text of a result is the
    concatenation of the texts of its entries; merging keeps it.
  \<^item> \<open>AmbTable\<close> (\<open>src/segdict.cpp\<close>, \<open>src/chinese_gbk.cpp\<close>): the hash of ambiguity suffixes of a
    lemma and its name probabilities. The suffixes of a lemma are the values in the cells of its
    block; that the lookup, which looks at one cell only, finds them is an invariant of the
    insertion and its rehashing.
  \<^item> \<open>Judge\<close> (\<open>src/chinese_gbk.cpp\<close>): the decision between two segmentations, on rationals that
    are rounded as binary64 arithmetic rounds.
  \<^item> \<open>DictText\<close>: what the loops need of a dictionary: a lemma spells the words that lead to it and
    its prefix pointer is a lemma of a proper prefix. Every dictionary built by the modelled
    operations has this.
  \<^item> \<open>Fmm\<close>, \<open>SegLoop\<close>, \<open>Pajm\<close> (\<open>src/segimpl.cpp\<close>, \<open>src/segutil.cpp\<close>): the matcher, the states that
    the segmentation loops share, the katakana loop and the recognisers of katakana and numbers.
    The locale \<open>recogniser\<close> states what a loop may assume of a recogniser and is interpreted on
    both; what each of them takes is stated over the characters of the text (\<open>gb_words\<close>).
  \<^item> \<open>AsciiSub\<close>, \<open>Ascii\<close> (\<open>src/segimpl.cpp\<close>): storing a run of letters and digits with its
    subphrases, and the recogniser \<open>proc_ascii\<close> of numbers, versions, addresses and names.
  \<^item> \<open>AsciiKeep\<close>: the scan of \<open>proc_ascii\<close> only adds to the result, so that what it leaves behind
    when it gives up are the entries of the marks at the head.
  \<^item> \<open>SegFmm\<close> (\<open>src/segimpl.cpp\<close>): the segmentation loop \<open>scw_seg_fmm\<close> over the recognisers and the
    matcher, the grouping of numbers with units and the removal of tags.
  \<^item> \<open>SegOut\<close> (\<open>src/segout.cpp\<close>): the output buffers and items of a result. The locale \<open>word_writer\<close>
    states what putting one word promises; it is interpreted on the buffers and on the items, so
    the two ways to write the basic words are compared once. The subphrases of a phrase are written
    in the order of a stable sort.
  \<^item> \<open>Names\<close> (\<open>src/chinese_gbk.cpp\<close>, \<open>src/segimpl.cpp\<close>): recognising Chinese and transliterated person
    names and book titles in a result (\<open>fmm_postprocess\<close>). Names replace the entries they are made
    of; the text stays the same. The rule dictionaries are the argument \<open>name_rules\<close>.
  \<^item> \<open>SegMerge\<close> (\<open>src/segimpl.cpp\<close>): replacing runs of entries of one segmentation by the entries of
    another that cover them (\<open>scw_merge\<close>). It fails for no text and drops exactly the boundaries
    inside the replaced runs.
  \<^item> \<open>CrfCheck\<close> (\<open>src/segimpl.cpp\<close>): the terms of the tagger become entries, or a buffer in which the
    known terms are protected for \<open>SegFmm\<close> (\<open>check_crf_exist\<close>).
  \<^item> \<open>ScwCrf\<close> (\<open>src/scw_crf.cpp\<close>): the scan that normalises a text, keeps short runs of letters and
    digits whole and gives the other runs to the tagger. Its terms tile the text. The reader of
    GB18030 characters is a library function: the argument \<open>next\<close>.
  \<^item> \<open>AhoCorasick\<close> (\<open>src/libsrc/rqlib/ac.cpp\<close>, outside the segmenter): the multi-pattern matcher.
    After the breadth-first traversal the link of a node is its longest proper suffix that is a
    node, and its id that of its longest suffix that is a pattern, so the search returns exactly
    the patterns that occur.

  \<^bold>\<open>The CRF tagger\<close> (\<open>src/libsrc/libcrf_2-1-2-0_PD_BL\<close>, used by the segmenter for names). A loaded
  model is a double array of feature keys with integer weights; a tagger holds the rows of a text
  and a table of nodes, one per row and class.
  \<^item> \<open>Checked\<close>: signed 32-bit arithmetic and array reads that fail, and loops over an index.
  \<^item> \<open>CrfHeap\<close> (\<open>min_heap.cpp\<close>): the queue. The locale \<open>priority_queue\<close> is its contract.
  \<^item> \<open>CrfTag\<close>, \<open>CrfFeatures\<close> (\<open>tag.cpp\<close>, \<open>tag.h\<close>): the tagger, adding rows, the two ways to look
    features up and why they give the same costs.
  \<^item> \<open>CrfViterbi\<close>, \<open>CrfNbest\<close> (\<open>tag.cpp\<close>): the best labelling, and the next ones in order.
  \<^item> \<open>CrfLoad\<close> (\<open>model.cpp\<close>, \<open>darts.h\<close>): reading a model from the bytes of its file; a file written in
    the format that the code expects is read back.
  \<^item> \<open>CrfSeg\<close> (\<open>seg_tag.cpp\<close>, \<open>lib_crf.cpp\<close>): from a text to rows, labels and terms that tile it.

  \<^bold>\<open>Conventions.\<close> An \<open>unsigned int\<close> index is a natural number with the code's sentinels
  (\<open>COMMON_NULL\<close> and its kin are 4294967295); a bit field is reduced to its width where it is
  stored; a string is a list of characters and reading at its length yields the NUL. A C
  \<open>assert\<close> that fails, a read or write outside an array, a cell read at the wrong type and a loop
  that does not end are the value \<open>None\<close>; a return code is an integer beside the new state. The
  amount of memory is a parameter \<open>M\<close>: \<open>realloc\<close> beyond it fails. The dynamic dictionary, a
  library that is not part of the repository, is a record of functions (\<open>'x sdict\<close>).

  \<^bold>\<open>Bounds and fuel.\<close> Loops that shrink their input are total functions with a measure. The search
  for a hash size is bounded by the memory limit. Segmentation loops are partial functions in
  the option monad; that they return is proved by a measure on the rest of the text and the
  state of the switch, and that they do not where the code does not. \<open>token_str\<close> recurses over
  the parts of a phrase with the number of lemmas as fuel: parts have smaller indices.

  \<^bold>\<open>Not modelled.\<close> Reading and writing files and logging; the table of function pointers
  (\<open>src/international.cpp\<close>), which the model resolves to the GBK functions; the function
  \<open>scw_seg\<close> that calls the tagger and the matcher in turn, and what it does with new words of the
  tagger (\<open>asc_merge\<close>, \<open>scw_combine\<close>); the probabilities of the CRF tagger,
  which are sums of exponentials in floating point and enter the output as the parameter \<open>avg\<close>; the other libraries and programs of
  the repository, listed with reasons in the manifest. Third-party code is left out.
\<close>

end
